(* ===== verification/Prelude.thy ===== *)
theory Prelude
  imports Main "HOL-Library.Word"
begin

text \<open>
  Shared vocabulary of the development: literals, clauses and assignments in the
  DIMACS convention of \<open>include/solvertypes.h\<close>, the standard-library algorithms on
  sorted ranges that the solver calls (\<open>std::includes\<close>, \<open>std::lower_bound\<close>,
  \<open>std::binary_search\<close>, \<open>std::set_union\<close>, \<open>std::set_intersection\<close>), and the
  generic lemmas the components share.
  A C++ \<open>int\<close> that names a variable or a literal is an \<open>int\<close>; a \<open>vector\<close> is a
  list; an ordered \<open>set\<close> is a strictly sorted list, an \<open>unordered_set\<close> a set.
\<close>

unbundle bit_operations_syntax

named_theorems sat_simps \<open>evaluation of clauses and formulas\<close>
named_theorems wf_intros \<open>introduction rules for well-formedness\<close>

section \<open>Literals, clauses, formulas\<close>

type_synonym clause = "int list"
type_synonym cnf = "clause list"
type_synonym circuit = "(int list \<times> int) list"
type_synonym assignment = "int \<Rightarrow> bool"

definition lit_true :: "assignment \<Rightarrow> int \<Rightarrow> bool" where
  "lit_true \<alpha> l = (if l < 0 then \<not> \<alpha> (- l) else \<alpha> l)"

definition clause_sat :: "assignment \<Rightarrow> clause \<Rightarrow> bool" where
  "clause_sat \<alpha> c = list_ex (lit_true \<alpha>) c"

definition cnf_sat :: "assignment \<Rightarrow> cnf \<Rightarrow> bool" where
  "cnf_sat \<alpha> F = list_all (clause_sat \<alpha>) F"

text \<open>Every literal of a well-formed clause is nonzero: 0 ends a clause in DIMACS.\<close>

definition wf_clause :: "clause \<Rightarrow> bool" where
  "wf_clause c = (0 \<notin> set c)"

definition wf_cnf :: "cnf \<Rightarrow> bool" where
  "wf_cnf F = list_all wf_clause F"

definition clause_vars :: "clause \<Rightarrow> int set" where
  "clause_vars c = abs ` set c"

definition cnf_vars :: "cnf \<Rightarrow> int set" where
  "cnf_vars F = \<Union> (clause_vars ` set F)"

lemma clause_sat_iff: "clause_sat \<alpha> c \<longleftrightarrow> (\<exists>l\<in>set c. lit_true \<alpha> l)"
  by (simp add: clause_sat_def list_ex_iff)

lemma cnf_sat_iff: "cnf_sat \<alpha> F \<longleftrightarrow> (\<forall>c\<in>set F. clause_sat \<alpha> c)"
  by (simp add: cnf_sat_def list_all_iff)

lemma wf_cnf_iff: "wf_cnf F \<longleftrightarrow> (\<forall>c\<in>set F. wf_clause c)"
  by (simp add: wf_cnf_def list_all_iff)

lemma clause_sat_simps [simp, sat_simps]:
  "clause_sat \<alpha> [] = False"
  "clause_sat \<alpha> (l # c) = (lit_true \<alpha> l \<or> clause_sat \<alpha> c)"
  "clause_sat \<alpha> (c @ d) = (clause_sat \<alpha> c \<or> clause_sat \<alpha> d)"
  by (auto simp: clause_sat_def)

lemma cnf_sat_simps [simp, sat_simps]:
  "cnf_sat \<alpha> [] = True"
  "cnf_sat \<alpha> (c # F) = (clause_sat \<alpha> c \<and> cnf_sat \<alpha> F)"
  "cnf_sat \<alpha> (F @ G) = (cnf_sat \<alpha> F \<and> cnf_sat \<alpha> G)"
  by (auto simp: cnf_sat_def)

lemma wf_clause_simps [simp, wf_intros]:
  "wf_clause []"
  "wf_clause (l # c) = (l \<noteq> 0 \<and> wf_clause c)"
  "wf_clause (c @ d) = (wf_clause c \<and> wf_clause d)"
  by (auto simp: wf_clause_def)

lemma wf_cnf_simps [simp, wf_intros]:
  "wf_cnf []"
  "wf_cnf (c # F) = (wf_clause c \<and> wf_cnf F)"
  "wf_cnf (F @ G) = (wf_cnf F \<and> wf_cnf G)"
  by (auto simp: wf_cnf_def)

lemma clause_vars_simps [simp]:
  "clause_vars [] = {}"
  "clause_vars (l # c) = insert (abs l) (clause_vars c)"
  "clause_vars (c @ d) = clause_vars c \<union> clause_vars d"
  by (auto simp: clause_vars_def)

lemma cnf_vars_simps [simp]:
  "cnf_vars [] = {}"
  "cnf_vars (c # F) = clause_vars c \<union> cnf_vars F"
  "cnf_vars (F @ G) = cnf_vars F \<union> cnf_vars G"
  by (auto simp: cnf_vars_def)

lemma lit_true_neg [simp, sat_simps]: "l \<noteq> 0 \<Longrightarrow> lit_true \<alpha> (- l) = (\<not> lit_true \<alpha> l)"
  by (auto simp: lit_true_def)

lemma lit_true_pos: "0 \<le> l \<Longrightarrow> lit_true \<alpha> l = \<alpha> l"
  by (simp add: lit_true_def)

lemma lit_true_var [simp]: "0 < v \<Longrightarrow> lit_true \<alpha> v = \<alpha> v" "0 < v \<Longrightarrow> lit_true \<alpha> (- v) = (\<not> \<alpha> v)"
  by (auto simp: lit_true_def)

lemma lit_true_cong: "\<alpha> (abs l) = \<beta> (abs l) \<Longrightarrow> lit_true \<alpha> l = lit_true \<beta> l"
  by (auto simp: lit_true_def abs_if split: if_splits)

lemma clause_sat_cong:
  "(\<And>v. v \<in> clause_vars c \<Longrightarrow> \<alpha> v = \<beta> v) \<Longrightarrow> clause_sat \<alpha> c = clause_sat \<beta> c"
  unfolding clause_sat_iff clause_vars_def by (metis imageI lit_true_cong)

lemma cnf_sat_cong:
  "(\<And>v. v \<in> cnf_vars F \<Longrightarrow> \<alpha> v = \<beta> v) \<Longrightarrow> cnf_sat \<alpha> F = cnf_sat \<beta> F"
proof -
  assume eq: "\<And>v. v \<in> cnf_vars F \<Longrightarrow> \<alpha> v = \<beta> v"
  have "clause_sat \<alpha> c = clause_sat \<beta> c" if "c \<in> set F" for c
    using that by (intro clause_sat_cong eq) (auto simp: cnf_vars_def)
  then show ?thesis by (simp add: cnf_sat_iff)
qed

lemma cnf_vars_mem: "c \<in> set F \<Longrightarrow> l \<in> set c \<Longrightarrow> abs l \<in> cnf_vars F"
  by (auto simp: cnf_vars_def clause_vars_def)

section \<open>Standard-library algorithms on sorted ranges\<close>

text \<open>\<open>std::includes\<close>: the merge walk of the library, multiset inclusion on sorted ranges.\<close>

fun std_includes :: "int list \<Rightarrow> int list \<Rightarrow> bool" where
  "std_includes xs [] = True"
| "std_includes [] (y # ys) = False"
| "std_includes (x # xs) (y # ys) =
     (if y < x then False
      else if x < y then std_includes xs (y # ys)
      else std_includes xs ys)"

abbreviation strict_sorted :: "int list \<Rightarrow> bool" where
  "strict_sorted \<equiv> sorted_wrt (<)"

lemma strict_sorted_sorted: "strict_sorted xs \<Longrightarrow> sorted xs"
  by (induction xs) force+

lemma strict_sorted_distinct: "strict_sorted xs \<Longrightarrow> distinct xs"
  by (induction xs) auto

lemma strict_sorted_iff: "strict_sorted xs \<longleftrightarrow> sorted xs \<and> distinct xs"
  using strict_sorted_distinct strict_sorted_sorted
  by (metis strict_sorted_iff)

lemma includes_iff:
  "strict_sorted xs \<Longrightarrow> strict_sorted ys \<Longrightarrow> std_includes xs ys \<longleftrightarrow> set ys \<subseteq> set xs"
  by (induction xs ys rule: std_includes.induct) (auto dest: order.asym)

lemma includes_sorted_iff:
  "sorted xs \<Longrightarrow> strict_sorted ys \<Longrightarrow> std_includes xs ys \<longleftrightarrow> set ys \<subseteq> set xs"
  by (induction xs ys rule: std_includes.induct) (auto dest: order.asym simp: not_less)

text \<open>Insertion into and construction of an ordered \<open>std::set<int>\<close>.\<close>

definition set_insert :: "int \<Rightarrow> int list \<Rightarrow> int list" where
  "set_insert x s = (if x \<in> set s then s else insort x s)"

definition set_insert_all :: "int list \<Rightarrow> int list \<Rightarrow> int list" where
  "set_insert_all xs s = fold set_insert xs s"

definition set_of :: "int list \<Rightarrow> int list" where
  "set_of xs = set_insert_all xs []"

lemma set_set_insert [simp]: "set (set_insert x s) = insert x (set s)"
  by (auto simp: set_insert_def set_insort_key)

lemma strict_sorted_set_insert [intro, simp]:
  "strict_sorted s \<Longrightarrow> strict_sorted (set_insert x s)"
  by (auto simp: set_insert_def strict_sorted_iff sorted_insort distinct_insort)

lemma set_set_insert_all [simp]: "set (set_insert_all xs s) = set xs \<union> set s"
  by (induction xs arbitrary: s) (auto simp: set_insert_all_def)

lemma strict_sorted_set_insert_all [intro, simp]:
  "strict_sorted s \<Longrightarrow> strict_sorted (set_insert_all xs s)"
  by (induction xs arbitrary: s) (auto simp: set_insert_all_def)

lemma set_set_of [simp]: "set (set_of xs) = set xs"
  by (simp add: set_of_def)

lemma strict_sorted_set_of [simp, intro]: "strict_sorted (set_of xs)"
  by (simp add: set_of_def)

text \<open>\<open>std::lower_bound\<close>: the halving loop of the library, on indices.\<close>

function lower_bound_loop :: "int list \<Rightarrow> int \<Rightarrow> nat \<Rightarrow> nat \<Rightarrow> nat" where
  "lower_bound_loop xs v first len =
     (if len = 0 then first
      else let half = len div 2; mid = first + half
           in if xs ! mid < v then lower_bound_loop xs v (mid + 1) (len - half - 1)
              else lower_bound_loop xs v first half)"
  by pat_completeness auto
termination
  by (relation "measure (\<lambda>(xs, v, first, len). len)") auto

declare lower_bound_loop.simps [simp del]

definition lower_bound :: "int list \<Rightarrow> int \<Rightarrow> nat" where
  "lower_bound xs v = lower_bound_loop xs v 0 (length xs)"

definition binary_search :: "int list \<Rightarrow> int \<Rightarrow> bool" where
  "binary_search xs v = (let i = lower_bound xs v in i < length xs \<and> \<not> v < xs ! i)"

lemma lower_bound_loop_spec:
  assumes "sorted xs" "first + len \<le> length xs"
    and "\<forall>i < first. xs ! i < v" and "\<forall>i < length xs. first + len \<le> i \<longrightarrow> v \<le> xs ! i"
  shows "let r = lower_bound_loop xs v first len in
           r \<le> length xs \<and> (\<forall>i < r. xs ! i < v) \<and> (\<forall>i < length xs. r \<le> i \<longrightarrow> v \<le> xs ! i)"
  using assms
proof (induction xs v first len rule: lower_bound_loop.induct)
  case (1 xs v first len)
  show ?case
  proof (cases "len = 0")
    case True
    with "1.prems" show ?thesis by (simp add: lower_bound_loop.simps [of xs v first 0])
  next
    case False
    define half where "half = len div 2"
    have half: "half < len" using False by (simp add: half_def)
    show ?thesis
    proof (cases "xs ! (first + half) < v")
      case True
      have below: "\<forall>i < first + half + 1. xs ! i < v"
      proof (intro allI impI)
        fix i assume "i < first + half + 1"
        then have "i \<le> first + half" by simp
        then have "xs ! i \<le> xs ! (first + half)"
          using "1.prems"(1,2) half by (intro sorted_nth_mono) auto
        then show "xs ! i < v" using True by simp
      qed
      from "1.IH"(1)[OF False half_def refl _ "1.prems"(1)] True half "1.prems" below
      show ?thesis
        by (simp add: lower_bound_loop.simps [of xs v first len] False Let_def half_def [symmetric])
    next
      case ge: False
      have above: "\<forall>i < length xs. first + half \<le> i \<longrightarrow> v \<le> xs ! i"
      proof (intro allI impI)
        fix i assume "i < length xs" "first + half \<le> i"
        then have "xs ! (first + half) \<le> xs ! i"
          using "1.prems"(1) by (intro sorted_nth_mono) auto
        then show "v \<le> xs ! i" using ge by simp
      qed
      from "1.IH"(2)[OF False half_def refl _ "1.prems"(1)] ge half "1.prems" above
      show ?thesis
        by (simp add: lower_bound_loop.simps [of xs v first len] False Let_def half_def [symmetric])
    qed
  qed
qed

lemma lower_bound_spec:
  assumes "sorted xs"
  shows "lower_bound xs v \<le> length xs"
    and "i < lower_bound xs v \<Longrightarrow> xs ! i < v"
    and "lower_bound xs v \<le> i \<Longrightarrow> i < length xs \<Longrightarrow> v \<le> xs ! i"
  using lower_bound_loop_spec [OF assms, of 0 "length xs" v]
  by (auto simp: lower_bound_def Let_def)

lemma binary_search_iff:
  assumes "sorted xs"
  shows "binary_search xs v \<longleftrightarrow> v \<in> set xs"
proof
  assume "binary_search xs v"
  then have lt: "lower_bound xs v < length xs" and "\<not> v < xs ! lower_bound xs v"
    by (auto simp: binary_search_def Let_def)
  moreover have "v \<le> xs ! lower_bound xs v"
    using lower_bound_spec(3)[OF assms order_refl lt] .
  ultimately have "xs ! lower_bound xs v = v" by simp
  then show "v \<in> set xs" using lt by (metis nth_mem)
next
  assume "v \<in> set xs"
  then obtain i where i: "i < length xs" "xs ! i = v" by (metis in_set_conv_nth)
  then have "\<not> i < lower_bound xs v" using lower_bound_spec(2)[OF assms, of i v] by auto
  then have le: "lower_bound xs v \<le> i" by simp
  then have "xs ! lower_bound xs v \<le> v"
    using i sorted_nth_mono [OF assms le] by simp
  then show "binary_search xs v"
    using le i by (simp add: binary_search_def Let_def)
qed

text \<open>\<open>std::set_union\<close> and \<open>std::set_intersection\<close>.\<close>

fun set_union :: "int list \<Rightarrow> int list \<Rightarrow> int list" where
  "set_union [] ys = ys"
| "set_union xs [] = xs"
| "set_union (x # xs) (y # ys) =
     (if x < y then x # set_union xs (y # ys)
      else if y < x then y # set_union (x # xs) ys
      else x # set_union xs ys)"

fun set_intersection :: "int list \<Rightarrow> int list \<Rightarrow> int list" where
  "set_intersection [] ys = []"
| "set_intersection xs [] = []"
| "set_intersection (x # xs) (y # ys) =
     (if x < y then set_intersection xs (y # ys)
      else if y < x then set_intersection (x # xs) ys
      else x # set_intersection xs ys)"

fun set_difference :: "int list \<Rightarrow> int list \<Rightarrow> int list" where
  "set_difference [] ys = []"
| "set_difference xs [] = xs"
| "set_difference (x # xs) (y # ys) =
     (if x < y then x # set_difference xs (y # ys)
      else if y < x then set_difference (x # xs) ys
      else set_difference xs ys)"

lemma set_set_union [simp]: "set (set_union xs ys) = set xs \<union> set ys"
  by (induction xs ys rule: set_union.induct) auto

lemma strict_sorted_set_union [simp, intro]:
  "strict_sorted xs \<Longrightarrow> strict_sorted ys \<Longrightarrow> strict_sorted (set_union xs ys)"
  by (induction xs ys rule: set_union.induct) force+

lemma set_set_intersection:
  "strict_sorted xs \<Longrightarrow> strict_sorted ys \<Longrightarrow> set (set_intersection xs ys) = set xs \<inter> set ys"
  by (induction xs ys rule: set_intersection.induct) (auto dest: order.asym order.strict_trans)

lemma set_set_difference:
  "strict_sorted xs \<Longrightarrow> strict_sorted ys \<Longrightarrow> set (set_difference xs ys) = set xs - set ys"
proof (induction xs ys rule: set_difference.induct)
  case (3 x xs y ys)
  have x: "\<forall>z\<in>set xs. x < z" and y: "\<forall>z\<in>set ys. y < z"
    using "3.prems" by auto
  consider "x < y" | "y < x" | "x = y" by linarith
  then show ?case
  proof cases
    case 1
    then have "x \<notin> set (y # ys)" using y by auto
    with 1 "3.IH"(1) "3.prems" show ?thesis by auto
  next
    case 2
    then have "y \<notin> set (x # xs)" using x by auto
    with 2 "3.IH"(2) "3.prems" show ?thesis by auto
  next
    case 3
    then have "x \<notin> set xs" using x by auto
    with 3 "3.IH"(3) "3.prems" show ?thesis by auto
  qed
qed auto

lemma set_intersection_subset: "set (set_intersection xs ys) \<subseteq> set xs"
  by (induction xs ys rule: set_intersection.induct) auto

section \<open>Generic lemmas\<close>

lemma fold_max_ge: "(a::int) \<le> fold max xs a"
  by (induction xs arbitrary: a) (auto intro: order_trans [OF max.cobounded2])

lemma fold_max_mem: "(x::int) \<in> set xs \<Longrightarrow> x \<le> fold max xs a"
proof (induction xs arbitrary: a)
  case (Cons y ys)
  then show ?case using fold_max_ge [of "max y a" ys] by auto
qed simp

text \<open>Assignments that agree on an initial segment of the variables.\<close>

definition agree_upto :: "int \<Rightarrow> assignment \<Rightarrow> assignment \<Rightarrow> bool" where
  "agree_upto n \<alpha> \<beta> = (\<forall>v. v \<le> n \<longrightarrow> \<alpha> v = \<beta> v)"

lemma agree_upto_refl [simp]: "agree_upto n \<alpha> \<alpha>"
  by (simp add: agree_upto_def)

lemma agree_upto_trans: "agree_upto n \<alpha> \<beta> \<Longrightarrow> agree_upto m \<beta> \<gamma> \<Longrightarrow> n \<le> m \<Longrightarrow> agree_upto n \<alpha> \<gamma>"
  by (auto simp: agree_upto_def)

lemma agree_upto_sym: "agree_upto n \<alpha> \<beta> \<Longrightarrow> agree_upto n \<beta> \<alpha>"
  by (auto simp: agree_upto_def)

lemma agree_upto_mono: "agree_upto n \<alpha> \<beta> \<Longrightarrow> m \<le> n \<Longrightarrow> agree_upto m \<alpha> \<beta>"
  by (auto simp: agree_upto_def)

lemma agree_upto_upd: "n < v \<Longrightarrow> agree_upto n \<alpha> (\<alpha>(v := b))"
  by (auto simp: agree_upto_def)

lemma agree_upto_clause:
  "agree_upto n \<alpha> \<beta> \<Longrightarrow> clause_vars c \<subseteq> {..n} \<Longrightarrow> clause_sat \<alpha> c = clause_sat \<beta> c"
  by (rule clause_sat_cong) (auto simp: agree_upto_def)

lemma agree_upto_cnf:
  "agree_upto n \<alpha> \<beta> \<Longrightarrow> cnf_vars F \<subseteq> {..n} \<Longrightarrow> cnf_sat \<alpha> F = cnf_sat \<beta> F"
  by (rule cnf_sat_cong) (auto simp: agree_upto_def)

lemma agree_upto_lit: "agree_upto n \<alpha> \<beta> \<Longrightarrow> abs l \<le> n \<Longrightarrow> lit_true \<alpha> l = lit_true \<beta> l"
  by (rule lit_true_cong) (auto simp: agree_upto_def)

text \<open>\<open>operator[]\<close> of a map of integers: a missing entry is 0.\<close>

definition int_entry :: "(int \<rightharpoonup> int) \<Rightarrow> int \<Rightarrow> int" where
  "int_entry m k = (case m k of None \<Rightarrow> 0 | Some x \<Rightarrow> x)"

end
