(* ===== verification/Utils.thy ===== *)
theory Utils
  imports Prelude
begin

text \<open>
  The helper functions of \<open>include/utils.h\<close> on literals, clauses and formulas: literal
  codecs and renaming (bit tricks included), the Tseitin-style encodings of AND gates, of
  equalities and of a negated formula, restriction of clauses, and the reference definition
  of extended dependencies. The first half are the definitions in the order of the header,
  the second half what they compute.
\<close>

section \<open>Definitions\<close>

definition var :: "int \<Rightarrow> int" where
  "var literal = \<bar>literal\<bar>"

definition litFromMiniSATLit :: "int \<Rightarrow> int" where
  "litFromMiniSATLit minisat_literal =
     (let variable = drop_bit 1 minisat_literal;
          negated = minisat_literal AND 1
      in (variable XOR (- negated)) + negated)"

definition literalsFromMiniSATLiterals :: "int list \<Rightarrow> int list" where
  "literalsFromMiniSATLiterals literals = map litFromMiniSATLit literals"

definition miniSATLiteral :: "int \<Rightarrow> int" where
  "miniSATLiteral literal =
     (let variable = var literal in 2 * variable + of_bool (literal < 0))"

definition miniSATLiterals :: "int list \<Rightarrow> int list" where
  "miniSATLiterals literals = map miniSATLiteral literals"

definition miniSATClauses :: "cnf \<Rightarrow> cnf" where
  "miniSATClauses clauses = map miniSATLiterals clauses"

definition maxVarIndex :: "cnf \<Rightarrow> int" where
  "maxVarIndex clauses =
     fold (\<lambda>clause maximum. fold (\<lambda>literal maximum. max maximum (var literal)) clause maximum)
       clauses 0"

definition clausalEncodingAND :: "int list \<times> int \<Rightarrow> cnf" where
  "clausalEncodingAND and_gate_definition =
     (let (input_literals, output_literal) = and_gate_definition
      in map (\<lambda>literal. [literal, - output_literal]) input_literals @
         [map uminus input_literals @ [output_literal]])"

definition renameLiteral :: "int \<Rightarrow> int \<Rightarrow> int" where
  "renameLiteral source_literal target_variable =
     (let negated = of_bool (source_literal < 0)
      in (target_variable XOR (- negated)) + negated)"

definition renameLiteral_map :: "int \<Rightarrow> (int \<rightharpoonup> int) \<Rightarrow> int" where
  "renameLiteral_map literal renaming =
     (case renaming (var literal) of
        None \<Rightarrow> literal
      | Some renamed_variable \<Rightarrow> renameLiteral literal renamed_variable)"

definition setLiteralSign :: "int \<Rightarrow> bool \<Rightarrow> int" where
  "setLiteralSign literal sign =
     (let negated = of_bool (\<not> sign); variable = var literal
      in (variable XOR (- negated)) + negated)"

definition renameClause :: "clause \<Rightarrow> (int \<rightharpoonup> int) \<Rightarrow> clause" where
  "renameClause clause renaming = map (\<lambda>literal. renameLiteral_map literal renaming) clause"

definition renameFormula :: "cnf \<Rightarrow> (int \<rightharpoonup> int) \<Rightarrow> cnf" where
  "renameFormula clauses renaming = map (\<lambda>clause. renameClause clause renaming) clauses"

definition createRenaming :: "cnf \<Rightarrow> int list \<Rightarrow> int \<Rightarrow> (int \<rightharpoonup> int)" where
  "createRenaming clauses shared_variables auxiliary_start =
     (let non_shared_variables =
            filter (\<lambda>variable. variable \<notin> set shared_variables) (map var (concat clauses));
          variable_renamed =
            (if auxiliary_start \<noteq> 0 then auxiliary_start else maxVarIndex clauses + 1)
      in fst (fold (\<lambda>variable (renaming, next). (renaming(variable \<mapsto> next), next + 1))
                non_shared_variables (Map.empty, variable_renamed)))"

definition negateEach :: "int list \<Rightarrow> int list" where
  "negateEach literals = map uminus literals"

fun negateFormula_loop :: "cnf \<Rightarrow> int \<Rightarrow> cnf \<times> int list \<times> clause \<times> int" where
  "negateFormula_loop [] clause_variable = ([], [], [], clause_variable)"
| "negateFormula_loop (clause # formula) clause_variable =
     (let cv = clause_variable + 1;
          (formula_negated, clause_variables, not_all, last) = negateFormula_loop formula cv
      in (map (\<lambda>literal. [- literal, cv]) clause @ formula_negated,
          cv # clause_variables, (- cv) # not_all, last))"

text \<open>The result holds the negated formula, the clause variables and the updated counter.\<close>

definition negateFormula :: "cnf \<Rightarrow> int \<Rightarrow> cnf \<times> int list \<times> int" where
  "negateFormula formula max_used_variable =
     (let start = (if max_used_variable > 0 then max_used_variable else maxVarIndex formula);
          (formula_negated, clause_variables, not_all_clauses_satisfied, last) =
            negateFormula_loop formula start
      in (formula_negated @ [not_all_clauses_satisfied], clause_variables, last))"

definition clausalEncodingEquality :: "int \<Rightarrow> int \<Rightarrow> int \<Rightarrow> cnf" where
  "clausalEncodingEquality first_literal second_literal switch_literal =
     [[- switch_literal, - first_literal, second_literal],
      [- switch_literal, first_literal, - second_literal]]"

definition getKeys :: "(int \<times> 'a) list \<Rightarrow> int list" where
  "getKeys m = sort (map fst m)"

definition restrictTo :: "int list \<Rightarrow> int set \<Rightarrow> int list" where
  "restrictTo literals rng = filter (\<lambda>l. var l \<in> rng) literals"

definition getSupport :: "clause \<Rightarrow> cnf \<Rightarrow> int list" where
  "getSupport conflict definition =
     set_insert_all (map var (concat definition)) (set_insert_all (map var conflict) [])"

subsection \<open>Restriction by the constant 0, in place\<close>

text \<open>
  The clause is compacted in place with a read index \<open>i\<close> and a write index \<open>j\<close>; on a
  negative literal of a dropped universal the loop returns at once and leaves the clause
  half written, at its old length.
\<close>

function restrictClause_loop ::
  "int set \<Rightarrow> int set \<Rightarrow> clause \<Rightarrow> nat \<Rightarrow> nat \<Rightarrow> clause \<times> bool" where
  "restrictClause_loop dependencies universal_variables clause i j =
     (if i < length clause then
        let l = clause ! i; v = var l in
        if v \<in> dependencies \<or> v \<notin> universal_variables
        then restrictClause_loop dependencies universal_variables (clause[j := l]) (i + 1) (j + 1)
        else if l < 0 then (clause, True)
        else restrictClause_loop dependencies universal_variables clause (i + 1) j
      else (take j clause, False))"
  by pat_completeness auto
termination
  by (relation "measure (\<lambda>(_, _, clause, i, _). length clause - i)") auto

declare restrictClause_loop.simps [simp del]

definition restrictClauseByConstant0 :: "clause \<Rightarrow> int set \<Rightarrow> int set \<Rightarrow> clause \<times> bool" where
  "restrictClauseByConstant0 clause dependencies universal_variables =
     restrictClause_loop dependencies universal_variables clause 0 0"

function restrictDefinition_loop ::
  "int set \<Rightarrow> int set \<Rightarrow> cnf \<Rightarrow> nat \<Rightarrow> nat \<Rightarrow> bool \<Rightarrow> cnf \<times> bool" where
  "restrictDefinition_loop dependencies universal_variables definition i j reduced =
     (if i < length definition then
        let size_before = length (definition ! i);
            (clause, satisfied) =
              restrictClauseByConstant0 (definition ! i) dependencies universal_variables;
            definition' = definition[i := clause]
        in if \<not> satisfied
           then restrictDefinition_loop dependencies universal_variables
                  (definition'[j := clause]) (i + 1) (j + 1)
                  (reduced \<or> length clause < size_before)
           else restrictDefinition_loop dependencies universal_variables
                  definition' (i + 1) j True
      else (take j definition, reduced))"
  by pat_completeness auto
termination
  by (relation "measure (\<lambda>(_, _, definition, i, _, _). length definition - i)") auto

declare restrictDefinition_loop.simps [simp del]

definition restrictDefinitionByConstant0 :: "cnf \<Rightarrow> int set \<Rightarrow> int set \<Rightarrow> cnf \<times> bool" where
  "restrictDefinitionByConstant0 definition dependencies universal_variables =
     restrictDefinition_loop dependencies universal_variables definition 0 0 False"

subsection \<open>Extended dependencies, the reference definition\<close>

definition push_dep :: "(int \<rightharpoonup> int list) \<Rightarrow> int \<Rightarrow> int \<Rightarrow> (int \<rightharpoonup> int list)" where
  "push_dep ext key v = ext(key \<mapsto> (case ext key of None \<Rightarrow> [v] | Some ds \<Rightarrow> ds @ [v]))"

definition compareDependencies ::
  "int \<Rightarrow> int list \<Rightarrow> int \<times> int list \<Rightarrow> (int \<rightharpoonup> int list) \<Rightarrow> (int \<rightharpoonup> int list)" where
  "compareDependencies key dependencies visited_entry ext =
     (let (v, dep) = visited_entry in
      if std_includes dependencies dep then
        (if length dependencies = length dep then
           (if key < v then push_dep ext v key else push_dep ext key v)
         else push_dep ext key v)
      else if std_includes dep dependencies then push_dep ext v key
      else ext)"

fun extendedDependencies_loop ::
  "(int \<times> int list) list \<Rightarrow> (int \<times> int list) list \<Rightarrow> (int \<rightharpoonup> int list) \<Rightarrow> (int \<rightharpoonup> int list)" where
  "extendedDependencies_loop [] visited ext = ext"
| "extendedDependencies_loop ((key, value) # entries) visited ext =
     (let dependencies = sort value
      in extendedDependencies_loop entries (visited @ [(key, dependencies)])
           (fold (compareDependencies key dependencies) visited ext))"

text \<open>The copy into an ordered \<open>std::map\<close> makes the iteration follow the keys.\<close>

definition ComputeExtendedDependencies ::
  "(int \<times> int list) list \<Rightarrow> (int \<rightharpoonup> int list)" where
  "ComputeExtendedDependencies dependency_map =
     extendedDependencies_loop (sort_key fst dependency_map) [] (map_of dependency_map)"

section \<open>Literals\<close>

lemma var_simps [simp]: "var (- l) = var l" "0 \<le> var l" "var l = 0 \<longleftrightarrow> l = 0" "var (var l) = var l"
  by (auto simp: var_def)

lemma sign_trick [simp]:
  "(v XOR (- of_bool b)) + of_bool b = (if b then - v else (v :: int))"
  by (cases b) (simp_all add: not_int_def)

lemma renameLiteral_eq: "renameLiteral l v = (if l < 0 then - v else v)"
  by (simp add: renameLiteral_def Let_def)

lemma setLiteralSign_eq: "setLiteralSign l s = (if s then var l else - var l)"
  by (simp add: setLiteralSign_def Let_def)

lemma renameLiteral_lit_true: "v \<noteq> 0 \<Longrightarrow>
  lit_true \<alpha> (renameLiteral l v) = (if l < 0 then \<not> lit_true \<alpha> v else lit_true \<alpha> v)"
  by (simp add: renameLiteral_eq)

lemma litFromMiniSATLit_eq:
  "litFromMiniSATLit m = (if odd m then - (m div 2) else m div 2)"
proof -
  have "m AND 1 = of_bool (odd m)" by (simp add: and_one_eq odd_iff_mod_2_eq_one mod2_eq_if)
  then show ?thesis by (simp add: litFromMiniSATLit_def Let_def drop_bit_eq_div)
qed

lemma litFromMiniSATLit_miniSATLiteral: "litFromMiniSATLit (miniSATLiteral l) = l"
  by (auto simp: litFromMiniSATLit_eq miniSATLiteral_def Let_def var_def)

lemma miniSATLiteral_litFromMiniSATLit:
  "2 \<le> m \<Longrightarrow> miniSATLiteral (litFromMiniSATLit m) = m"
  by (auto simp: litFromMiniSATLit_eq miniSATLiteral_def Let_def var_def elim!: evenE oddE)

section \<open>Encodings\<close>

lemma map_negate_sat: "wf_clause ls \<Longrightarrow> clause_sat \<alpha> (map uminus ls) \<longleftrightarrow> \<not> (\<forall>l\<in>set ls. lit_true \<alpha> l)"
  by (induction ls) auto

lemma negateEach_simps [simp]:
  "negateEach [] = []"
  "negateEach (l # ls) = - l # negateEach ls"
  "negateEach (xs @ ys) = negateEach xs @ negateEach ys"
  by (simp_all add: negateEach_def)

lemma negateEach_invol [simp]: "negateEach (negateEach ls) = ls"
  by (simp add: negateEach_def comp_def)

lemma wf_clause_negateEach [simp]: "wf_clause (negateEach ls) = wf_clause ls"
  by (auto simp: negateEach_def wf_clause_def)

lemma negateEach_sat:
  "wf_clause ls \<Longrightarrow> clause_sat \<alpha> (negateEach ls) \<longleftrightarrow> \<not> (\<forall>l\<in>set ls. lit_true \<alpha> l)"
  by (simp add: negateEach_def map_negate_sat)

lemma clausalEncodingAND_sat:
  assumes "wf_clause ins" "out \<noteq> 0"
  shows "cnf_sat \<alpha> (clausalEncodingAND (ins, out)) \<longleftrightarrow>
         (lit_true \<alpha> out \<longleftrightarrow> (\<forall>l\<in>set ins. lit_true \<alpha> l))"
proof -
  have "cnf_sat \<alpha> (map (\<lambda>l. [l, - out]) ls) \<longleftrightarrow> (lit_true \<alpha> out \<longrightarrow> (\<forall>l\<in>set ls. lit_true \<alpha> l))"
    for ls using assms(2) by (induction ls) auto
  with assms show ?thesis by (auto simp: clausalEncodingAND_def map_negate_sat)
qed

lemma clausalEncodingEquality_sat:
  assumes "a \<noteq> 0" "b \<noteq> 0" "s \<noteq> 0"
  shows "cnf_sat \<alpha> (clausalEncodingEquality a b s) \<longleftrightarrow>
         (lit_true \<alpha> s \<longrightarrow> (lit_true \<alpha> a \<longleftrightarrow> lit_true \<alpha> b))"
  using assms by (auto simp: clausalEncodingEquality_def)

text \<open>Renaming is substitution in the assignment.\<close>

definition rename_assignment :: "(int \<rightharpoonup> int) \<Rightarrow> assignment \<Rightarrow> assignment" where
  "rename_assignment \<rho> \<alpha> v = (case \<rho> v of None \<Rightarrow> \<alpha> v | Some w \<Rightarrow> lit_true \<alpha> w)"

definition nonzero_renaming :: "(int \<rightharpoonup> int) \<Rightarrow> bool" where
  "nonzero_renaming \<rho> = (0 \<notin> ran \<rho>)"

lemma renameLiteral_map_sat:
  assumes "nonzero_renaming \<rho>" "l \<noteq> 0"
  shows "lit_true \<alpha> (renameLiteral_map l \<rho>) = lit_true (rename_assignment \<rho> \<alpha>) l"
proof (cases "\<rho> (var l)")
  case None
  then show ?thesis
    by (auto simp: renameLiteral_map_def rename_assignment_def lit_true_def var_def abs_if
        split: if_splits)
next
  case (Some w)
  then have "w \<noteq> 0" using assms(1) by (auto simp: nonzero_renaming_def ran_def)
  with Some show ?thesis
    by (auto simp: renameLiteral_map_def rename_assignment_def renameLiteral_lit_true var_def
        abs_if lit_true_def [of "rename_assignment \<rho> \<alpha>"] split: if_splits)
qed

lemma renameClause_sat:
  assumes "nonzero_renaming \<rho>" "wf_clause c"
  shows "clause_sat \<alpha> (renameClause c \<rho>) = clause_sat (rename_assignment \<rho> \<alpha>) c"
  using assms by (induction c) (auto simp: renameClause_def renameLiteral_map_sat)

lemma renameFormula_sat:
  assumes "nonzero_renaming \<rho>" "wf_cnf F"
  shows "cnf_sat \<alpha> (renameFormula F \<rho>) = cnf_sat (rename_assignment \<rho> \<alpha>) F"
  using assms(2)
  by (induction F) (auto simp: renameFormula_def renameClause_sat [OF assms(1)])

section \<open>The largest variable of a formula\<close>

lemma maxVarIndex_fold:
  "fold (\<lambda>c m. fold (\<lambda>l m. max m (var l)) c m) F a = fold max (map var (concat F)) a"
proof (induction F arbitrary: a)
  case (Cons c F)
  have "fold (\<lambda>l m. max m (var l)) c a = fold max (map var c) a" for a
    by (induction c arbitrary: a) (auto simp: max.commute)
  with Cons show ?case by simp
qed simp

lemma maxVarIndex_eq: "maxVarIndex F = fold max (map var (concat F)) 0"
  by (simp add: maxVarIndex_def maxVarIndex_fold)

lemma maxVarIndex_nonneg: "0 \<le> maxVarIndex F"
  by (simp add: maxVarIndex_eq fold_max_ge)

lemma maxVarIndex_bound: "cnf_vars F \<subseteq> {..maxVarIndex F}"
proof
  fix v assume "v \<in> cnf_vars F"
  then obtain c l where "c \<in> set F" "l \<in> set c" "v = var l"
    by (auto simp: cnf_vars_def clause_vars_def var_def)
  then have "v \<in> set (map var (concat F))" by auto
  then show "v \<in> {..maxVarIndex F}" by (simp add: maxVarIndex_eq fold_max_mem)
qed

end
