(* ===== verification/Utils_Correct.thy ===== *)
theory Utils_Correct
  imports Utils
begin

text \<open>
  What the larger routines of \<open>include/utils.h\<close> compute: the negated formula is
  satisfiable over an assignment exactly when the assignment falsifies the formula, the
  in-place restriction is a filter that preserves the value under the constant-0 reading of
  the dropped universals, a created renaming is injective and fresh, and the extended
  dependencies are the strict order on dependency sets with ties broken by name.
\<close>

section \<open>Negating a formula\<close>

lemma negateFormula_loop_vars:
  "negateFormula_loop F n = (G, cvs, na, lst) \<Longrightarrow>
     cvs = map (\<lambda>i. n + 1 + int i) [0..<length F] \<and> na = map uminus cvs \<and> lst = n + int (length F)"
proof (induction F arbitrary: n G cvs na lst)
  case (Cons c F)
  obtain G' cvs' na' lst' where rec: "negateFormula_loop F (n + 1) = (G', cvs', na', lst')"
    by (cases "negateFormula_loop F (n + 1)") auto
  with Cons.prems have eqs: "cvs = (n + 1) # cvs'" "na = (- (n + 1)) # na'" "lst = lst'"
    by (auto simp: Let_def)
  have shift: "map (\<lambda>i. n + 1 + int i) [0..<Suc (length F)] =
      (n + 1) # map (\<lambda>i. n + 1 + 1 + int i) [0..<length F]"
    by (simp add: upt_conv_Cons map_Suc_upt [symmetric] del: upt_Suc)
  show ?case using Cons.IH[OF rec] eqs shift by simp
qed simp

lemma negateFormula_loop_sat:
  "negateFormula_loop F n = (G, cvs, na, lst) \<Longrightarrow> wf_cnf F \<Longrightarrow> 0 \<le> n \<Longrightarrow>
     cnf_sat \<beta> G \<longleftrightarrow> list_all2 (\<lambda>c v. clause_sat \<beta> c \<longrightarrow> \<beta> v) F cvs"
proof (induction F arbitrary: n G cvs na lst)
  case (Cons c F)
  obtain G' cvs' na' lst' where rec: "negateFormula_loop F (n + 1) = (G', cvs', na', lst')"
    by (cases "negateFormula_loop F (n + 1)") auto
  have c: "cnf_sat \<beta> (map (\<lambda>l. [- l, n + 1]) c) \<longleftrightarrow> (clause_sat \<beta> c \<longrightarrow> \<beta> (n + 1))"
    if "wf_clause c" for c
    using that Cons.prems(3) by (induction c) auto
  show ?case
    using Cons.IH[OF rec] Cons.prems rec c by (auto simp: Let_def)
qed simp

definition negate_start :: "cnf \<Rightarrow> int \<Rightarrow> int" where
  "negate_start F m = (if m > 0 then m else maxVarIndex F)"

lemma negate_start_nonneg: "0 \<le> negate_start F m"
  using maxVarIndex_nonneg [of F] by (simp add: negate_start_def)

lemma negateFormula_cases:
  obtains G cvs na lst where "negateFormula_loop F (negate_start F m) = (G, cvs, na, lst)"
    and "negateFormula F m = (G @ [na], cvs, lst)"
  by (cases "negateFormula_loop F (negate_start F m)")
     (auto simp: negateFormula_def negate_start_def Let_def)

lemma negateFormula_counters:
  "negateFormula F m = (N, cvs, lst) \<Longrightarrow>
     cvs = map (\<lambda>i. negate_start F m + 1 + int i) [0..<length F] \<and>
     lst = negate_start F m + int (length F)"
  using negateFormula_loop_vars by (cases rule: negateFormula_cases [of F m]) fastforce

lemma map_uminus_clause_sat:
  "\<forall>v\<in>set vs. 0 < v \<Longrightarrow> clause_sat \<beta> (map uminus vs) \<longleftrightarrow> (\<exists>v\<in>set vs. \<not> \<beta> v)"
  by (induction vs) auto

lemma negateFormula_falsified:
  assumes neg: "negateFormula F m = (N, cvs, lst)" and wf: "wf_cnf F" and sat: "cnf_sat \<beta> N"
  shows "\<exists>i < length F. \<not> \<beta> (cvs ! i)"
    and "i < length F \<Longrightarrow> \<not> \<beta> (cvs ! i) \<Longrightarrow> \<not> clause_sat \<beta> (F ! i)"
proof -
  obtain G na where loop: "negateFormula_loop F (negate_start F m) = (G, cvs, na, lst)"
    and N: "N = G @ [na]"
    using neg by (cases rule: negateFormula_cases [of F m]) auto
  note vars = negateFormula_loop_vars [OF loop]
  have pos: "\<forall>v\<in>set cvs. 0 < v" using vars negate_start_nonneg [of F m] by auto
  have all2: "list_all2 (\<lambda>c v. clause_sat \<beta> c \<longrightarrow> \<beta> v) F cvs"
    using negateFormula_loop_sat [OF loop wf negate_start_nonneg] sat N by simp
  have "\<exists>v\<in>set cvs. \<not> \<beta> v" using sat N vars map_uminus_clause_sat [OF pos] by simp
  then show "\<exists>i < length F. \<not> \<beta> (cvs ! i)" using vars by (auto simp: in_set_conv_nth)
  show "\<not> clause_sat \<beta> (F ! i)" if "i < length F" "\<not> \<beta> (cvs ! i)"
    using all2 that by (auto simp: list_all2_conv_all_nth)
qed

lemma negateFormula_satisfiable:
  assumes neg: "negateFormula F m = (N, cvs, lst)" and wf: "wf_cnf F"
    and vars: "cnf_vars F \<subseteq> {..negate_start F m}" and unsat: "\<not> cnf_sat \<alpha> F"
  shows "\<exists>\<beta>. agree_upto (negate_start F m) \<alpha> \<beta> \<and> cnf_sat \<beta> N"
proof -
  define n where "n = negate_start F m"
  obtain G na where loop: "negateFormula_loop F n = (G, cvs, na, lst)" and N: "N = G @ [na]"
    using neg by (cases rule: negateFormula_cases [of F m]) (auto simp: n_def)
  note cvs = negateFormula_loop_vars [OF loop]
  have n: "0 \<le> n" by (simp add: n_def negate_start_nonneg)
  define \<beta> where "\<beta> v = (if v \<le> n then \<alpha> v else clause_sat \<alpha> (F ! nat (v - n - 1)))" for v
  have agree: "agree_upto n \<alpha> \<beta>" by (simp add: agree_upto_def \<beta>_def)
  have same: "clause_sat \<beta> c = clause_sat \<alpha> c" if "c \<in> set F" for c
    using that agree_upto_clause [OF agree, of c] vars by (auto simp: n_def cnf_vars_def)
  have "list_all2 (\<lambda>c v. clause_sat \<beta> c \<longrightarrow> \<beta> v) F cvs"
    using cvs by (auto simp: list_all2_conv_all_nth same \<beta>_def)
  then have G: "cnf_sat \<beta> G" using negateFormula_loop_sat [OF loop wf n] by simp
  obtain i where i: "i < length F" "\<not> clause_sat \<alpha> (F ! i)"
    using unsat by (auto simp: cnf_sat_iff in_set_conv_nth)
  have "\<not> \<beta> (cvs ! i)" "cvs ! i \<in> set cvs" using i cvs by (auto simp: \<beta>_def)
  moreover have "\<forall>v\<in>set cvs. 0 < v" using cvs n by auto
  ultimately have "clause_sat \<beta> na" using cvs map_uminus_clause_sat by blast
  with G agree N show ?thesis by (auto simp: n_def)
qed

lemma negateFormula_loop_cnf_vars:
  "negateFormula_loop F n = (G, cvs, na, lst) \<Longrightarrow> 0 \<le> n \<Longrightarrow> cnf_vars G \<subseteq> cnf_vars F \<union> set cvs"
proof (induction F arbitrary: n G cvs na lst)
  case (Cons c F)
  obtain G' cvs' na' lst' where rec: "negateFormula_loop F (n + 1) = (G', cvs', na', lst')"
    by (cases "negateFormula_loop F (n + 1)") auto
  with Cons.prems have "G = map (\<lambda>l. [- l, n + 1]) c @ G'" "cvs = (n + 1) # cvs'" by (auto simp: Let_def)
  moreover have "cnf_vars (map (\<lambda>l. [- l, n + 1]) c) \<subseteq> insert (n + 1) (clause_vars c)"
    using Cons.prems(2) by (auto simp: cnf_vars_def clause_vars_def)
  ultimately show ?case using Cons.IH [OF rec] Cons.prems(2) by auto
qed simp

lemma negateFormula_cnf_vars:
  assumes "negateFormula F m = (N, cvs, lst)" "0 \<le> negate_start F m"
  shows "cnf_vars N \<subseteq> cnf_vars F \<union> {negate_start F m<..lst}" "negate_start F m \<le> lst"
proof -
  obtain G na where loop: "negateFormula_loop F (negate_start F m) = (G, cvs, na, lst)" and N: "N = G @ [na]"
    using assms(1) by (cases rule: negateFormula_cases [of F m]) auto
  note v = negateFormula_loop_vars [OF loop]
  have cvs: "set cvs \<subseteq> {negate_start F m<..lst}" using v by auto
  have "clause_vars na = set cvs" using v assms(2) by (force simp: clause_vars_def)
  then show "cnf_vars N \<subseteq> cnf_vars F \<union> {negate_start F m<..lst}"
    using negateFormula_loop_cnf_vars [OF loop assms(2)] cvs by (auto simp: N)
  show "negate_start F m \<le> lst" using v by simp
qed

lemma negateFormula_loop_wf:
  "negateFormula_loop F n = (G, cvs, na, lst) \<Longrightarrow> 0 \<le> n \<Longrightarrow> wf_cnf F \<Longrightarrow> wf_cnf G"
proof (induction F arbitrary: n G cvs na lst)
  case (Cons c F)
  obtain G' cvs' na' lst' where rec: "negateFormula_loop F (n + 1) = (G', cvs', na', lst')"
    by (cases "negateFormula_loop F (n + 1)") auto
  with Cons.prems have "G = map (\<lambda>l. [- l, n + 1]) c @ G'" by (auto simp: Let_def)
  moreover have "wf_clause c \<Longrightarrow> wf_cnf (map (\<lambda>l. [- l, n + 1]) c)" using Cons.prems(2) by (induction c) auto
  ultimately show ?case using Cons.IH [OF rec] Cons.prems(2,3) by simp
qed simp

lemma negateFormula_wf:
  assumes "negateFormula F m = (N, cvs, lst)" "wf_cnf F"
  shows "wf_cnf N"
proof -
  obtain G na where loop: "negateFormula_loop F (negate_start F m) = (G, cvs, na, lst)" and N: "N = G @ [na]"
    using assms(1) by (cases rule: negateFormula_cases [of F m]) auto
  note v = negateFormula_loop_vars [OF loop]
  have "\<forall>x\<in>set cvs. 0 < x" using v negate_start_nonneg [of F m] by auto
  then have "wf_clause (map uminus cvs)" by (induction cvs) auto
  with negateFormula_loop_wf [OF loop negate_start_nonneg assms(2)] v show ?thesis by (simp add: N)
qed

section \<open>Restriction by the constant 0\<close>

definition kept :: "int set \<Rightarrow> int set \<Rightarrow> int \<Rightarrow> bool" where
  "kept deps unis l = (var l \<in> deps \<or> var l \<notin> unis)"

lemma restrictClause_loop_spec:
  assumes "j \<le> i" "i \<le> length xs" "take j xs = filter (kept deps unis) ys" "drop i xs = zs"
  shows "(snd (restrictClause_loop deps unis xs i j) \<longleftrightarrow> (\<exists>l\<in>set zs. \<not> kept deps unis l \<and> l < 0)) \<and>
    (\<not> snd (restrictClause_loop deps unis xs i j) \<longrightarrow>
       fst (restrictClause_loop deps unis xs i j) = filter (kept deps unis) (ys @ zs))"
  using assms
proof (induction deps unis xs i j arbitrary: ys zs rule: restrictClause_loop.induct)
  case (1 deps unis xs i j)
  note unfold_loop = restrictClause_loop.simps [of deps unis xs i j] Let_def
  show ?case
  proof (cases "i < length xs")
    case False
    then have "restrictClause_loop deps unis xs i j = (take j xs, False)"
      by (simp add: unfold_loop)
    with "1.prems" False show ?thesis by simp
  next
    case True
    define l where "l = xs ! i"
    have zs: "zs = l # drop (Suc i) xs"
      using "1.prems"(4) True by (simp add: l_def Cons_nth_drop_Suc)
    consider (keep) "kept deps unis l" | (neg) "\<not> kept deps unis l" "l < 0"
      | (drop) "\<not> kept deps unis l" "\<not> l < 0" by blast
    then show ?thesis
    proof cases
      case keep
      then have step: "restrictClause_loop deps unis xs i j =
          restrictClause_loop deps unis (xs[j := l]) (i + 1) (j + 1)"
        using True by (simp add: unfold_loop l_def kept_def)
      have pre: "j + 1 \<le> i + 1" "i + 1 \<le> length (xs[j := l])"
        "take (j + 1) (xs[j := l]) = filter (kept deps unis) (ys @ [l])"
        "drop (i + 1) (xs[j := l]) = drop (Suc i) xs"
        using "1.prems" True keep by (auto simp: take_Suc_conv_app_nth)
      show ?thesis
        using "1.IH"(1)[OF True l_def refl _ pre] keep by (auto simp: step zs kept_def)
    next
      case neg
      then have "restrictClause_loop deps unis xs i j = (xs, True)"
        using True by (simp add: unfold_loop l_def kept_def)
      then show ?thesis using neg by (auto simp: zs)
    next
      case drop
      then have step: "restrictClause_loop deps unis xs i j = restrictClause_loop deps unis xs (i + 1) j"
        using True by (simp add: unfold_loop l_def kept_def)
      have pre: "j \<le> i + 1" "i + 1 \<le> length xs" "take j xs = filter (kept deps unis) (ys @ [l])"
        "drop (i + 1) xs = drop (Suc i) xs"
        using "1.prems" True drop by auto
      show ?thesis
        using "1.IH"(2)[OF True l_def refl _ _ pre] drop by (auto simp: step zs kept_def)
    qed
  qed
qed

lemma restrictClauseByConstant0_spec:
  "snd (restrictClauseByConstant0 c deps unis) \<longleftrightarrow> (\<exists>l\<in>set c. \<not> kept deps unis l \<and> l < 0)"
  "\<not> snd (restrictClauseByConstant0 c deps unis) \<Longrightarrow>
     fst (restrictClauseByConstant0 c deps unis) = filter (kept deps unis) c"
  using restrictClause_loop_spec [of 0 0 c deps unis "[]" c]
  by (auto simp: restrictClauseByConstant0_def)

lemma length_filter_less_iff: "length (filter P xs) < length xs \<longleftrightarrow> (\<exists>x\<in>set xs. \<not> P x)"
  by (induction xs) (auto simp: less_Suc_eq_le)

lemma restrictClauseByConstant0_length:
  "\<not> snd (restrictClauseByConstant0 c deps unis) \<Longrightarrow>
     length (fst (restrictClauseByConstant0 c deps unis)) < length c \<longleftrightarrow>
     (\<exists>l\<in>set c. \<not> kept deps unis l)"
  by (simp add: restrictClauseByConstant0_spec length_filter_less_iff)

definition restrict_clauses :: "int set \<Rightarrow> int set \<Rightarrow> cnf \<Rightarrow> cnf" where
  "restrict_clauses deps unis F =
     map (\<lambda>c. fst (restrictClauseByConstant0 c deps unis))
       (filter (\<lambda>c. \<not> snd (restrictClauseByConstant0 c deps unis)) F)"

lemma restrictDefinition_loop_spec:
  assumes "j \<le> i" "i \<le> length F" "take j F = restrict_clauses deps unis ys" "drop i F = zs"
  shows "restrictDefinition_loop deps unis F i j red =
    (restrict_clauses deps unis (ys @ zs), red \<or> (\<exists>c\<in>set zs. \<exists>l\<in>set c. \<not> kept deps unis l))"
  using assms
proof (induction deps unis F i j red arbitrary: ys zs rule: restrictDefinition_loop.induct)
  case (1 deps unis F i j red)
  note unfold_loop = restrictDefinition_loop.simps [of deps unis F i j red] Let_def
  show ?case
  proof (cases "i < length F")
    case False
    then have "restrictDefinition_loop deps unis F i j red = (take j F, red)"
      by (simp add: unfold_loop)
    with "1.prems" False show ?thesis by simp
  next
    case True
    define c where "c = F ! i"
    obtain c' b where res: "restrictClauseByConstant0 c deps unis = (c', b)" by fastforce
    have zs: "zs = c # drop (Suc i) F"
      using "1.prems"(4) True by (simp add: c_def Cons_nth_drop_Suc)
    show ?thesis
    proof (cases b)
      case True
      then have step: "restrictDefinition_loop deps unis F i j red =
          restrictDefinition_loop deps unis (F[i := c']) (i + 1) j True"
        using \<open>i < length F\<close> res by (simp add: unfold_loop c_def)
      have pre: "j \<le> i + 1" "i + 1 \<le> length (F[i := c'])"
        "take j (F[i := c']) = restrict_clauses deps unis (ys @ [c])"
        "drop (i + 1) (F[i := c']) = drop (Suc i) F"
        using "1.prems" \<open>i < length F\<close> True res by (auto simp: restrict_clauses_def)
      have dropped: "\<exists>l\<in>set c. \<not> kept deps unis l"
        using restrictClauseByConstant0_spec(1)[of c deps unis] res True by auto
      have "restrictDefinition_loop deps unis (F[i := c']) (i + 1) j True =
          (restrict_clauses deps unis ((ys @ [c]) @ drop (Suc i) F), True)"
        using "1.IH"(2)[OF \<open>i < length F\<close> refl res [unfolded c_def, symmetric] _ refl _ pre] True
        by (simp add: c_def)
      then show ?thesis using dropped by (auto simp: step zs)
    next
      case False
      then have step: "restrictDefinition_loop deps unis F i j red =
          restrictDefinition_loop deps unis (F[i := c', j := c']) (i + 1) (j + 1)
            (red \<or> length c' < length c)"
        using \<open>i < length F\<close> res by (simp add: unfold_loop c_def)
      have pre: "j + 1 \<le> i + 1" "i + 1 \<le> length (F[i := c', j := c'])"
        "take (j + 1) (F[i := c', j := c']) = restrict_clauses deps unis (ys @ [c])"
        "drop (i + 1) (F[i := c', j := c']) = drop (Suc i) F"
        using "1.prems" \<open>i < length F\<close> False res
        by (auto simp: restrict_clauses_def take_Suc_conv_app_nth)
      have shorter: "length c' < length c \<longleftrightarrow> (\<exists>l\<in>set c. \<not> kept deps unis l)"
        using restrictClauseByConstant0_length [of c deps unis] res False by simp
      have "restrictDefinition_loop deps unis (F[i := c', j := c']) (i + 1) (j + 1)
            (red \<or> length c' < length c) =
          (restrict_clauses deps unis ((ys @ [c]) @ drop (Suc i) F),
           (red \<or> length c' < length c) \<or> (\<exists>c\<in>set (drop (Suc i) F). \<exists>l\<in>set c. \<not> kept deps unis l))"
        using "1.IH"(1)[OF \<open>i < length F\<close> refl res [unfolded c_def, symmetric] _ refl _ pre] False
        by (simp add: c_def)
      then show ?thesis using shorter by (auto simp: step zs)
    qed
  qed
qed

lemma restrictDefinitionByConstant0_spec:
  "restrictDefinitionByConstant0 F deps unis =
     (restrict_clauses deps unis F, \<exists>c\<in>set F. \<exists>l\<in>set c. \<not> kept deps unis l)"
  using restrictDefinition_loop_spec [of 0 0 F deps unis "[]" F]
  by (simp add: restrictDefinitionByConstant0_def restrict_clauses_def)

lemma dropped_literal_false:
  assumes "\<forall>u\<in>unis - deps. \<not> \<alpha> u" "\<not> kept deps unis l"
  shows "lit_true \<alpha> l \<longleftrightarrow> l < 0"
  using assms by (auto simp: kept_def lit_true_def var_def)

lemma restrictClauseByConstant0_sat:
  assumes "\<forall>u\<in>unis - deps. \<not> \<alpha> u"
  shows "clause_sat \<alpha> c \<longleftrightarrow> snd (restrictClauseByConstant0 c deps unis) \<or>
    clause_sat \<alpha> (fst (restrictClauseByConstant0 c deps unis))"
proof (cases "snd (restrictClauseByConstant0 c deps unis)")
  case True
  then obtain l where "l \<in> set c" "\<not> kept deps unis l" "l < 0"
    by (auto simp: restrictClauseByConstant0_spec)
  then show ?thesis using True dropped_literal_false [OF assms] by (auto simp: clause_sat_iff)
next
  case False
  then have "\<forall>l\<in>set c. \<not> kept deps unis l \<longrightarrow> \<not> lit_true \<alpha> l"
    using dropped_literal_false [OF assms] by (auto simp: restrictClauseByConstant0_spec)
  then show ?thesis using False by (auto simp: restrictClauseByConstant0_spec clause_sat_iff)
qed

lemma restrict_clauses_sat:
  assumes "\<forall>u\<in>unis - deps. \<not> \<alpha> u"
  shows "cnf_sat \<alpha> (restrict_clauses deps unis F) = cnf_sat \<alpha> F"
proof (induction F)
  case (Cons c F)
  then show ?case
    by (cases "snd (restrictClauseByConstant0 c deps unis)")
       (simp_all add: restrict_clauses_def restrictClauseByConstant0_sat [OF assms, of c])
qed (simp add: restrict_clauses_def)

section \<open>Created renamings\<close>

lemma createRenaming_fold:
  assumes "fold (\<lambda>v (m, k). (m(v \<mapsto> k), k + 1)) vs (m, n) = (m', n')"
    and "ran m \<subseteq> {a..<n}" "a \<le> n" "inj_on m (dom m)"
  shows "dom m' = dom m \<union> set vs \<and> ran m' \<subseteq> {a..<n'} \<and> inj_on m' (dom m') \<and>
         n' = n + int (length vs)"
  using assms
proof (induction vs arbitrary: m n)
  case (Cons v vs)
  have ran: "ran (m(v \<mapsto> n)) \<subseteq> {a..<n + 1}"
    using Cons.prems(2,3) by (auto simp: ran_def split: if_splits)
  have fresh: "m x \<noteq> Some n" for x
    using Cons.prems(2) by (auto simp: ran_def)
  have inj: "inj_on (m(v \<mapsto> n)) (dom (m(v \<mapsto> n)))"
    using Cons.prems(4) fresh by (auto simp: inj_on_def)
  have f: "fold (\<lambda>v (m, k). (m(v \<mapsto> k), k + 1)) vs (m(v \<mapsto> n), n + 1) = (m', n')"
    using Cons.prems(1) by (simp only: fold_simps prod.case)
  have "a \<le> n + 1" using Cons.prems(3) by simp
  note r = Cons.IH [OF f ran this inj]
  have d: "dom m' = dom m \<union> set (v # vs)"
    using conjunct1 [OF r] by (simp del: fun_upd_apply)
  show ?case using r by (intro conjI d) (blast, blast, simp)
qed auto

lemma createRenaming_spec:
  assumes "createRenaming F shared start = \<rho>"
  shows "dom \<rho> = cnf_vars F - set shared" "inj_on \<rho> (dom \<rho>)"
    and "start = 0 \<Longrightarrow> ran \<rho> \<inter> cnf_vars F = {}"
proof -
  define vs where "vs = filter (\<lambda>v. v \<notin> set shared) (map var (concat F))"
  define n where "n = (if start \<noteq> 0 then start else maxVarIndex F + 1)"
  obtain m' n' where f: "fold (\<lambda>v (m, k). (m(v \<mapsto> k), k + 1)) vs (Map.empty, n) = (m', n')"
    by fastforce
  have rho: "\<rho> = m'" using assms f by (simp add: createRenaming_def vs_def n_def Let_def)
  have vs: "set vs = cnf_vars F - set shared"
    by (auto simp: vs_def cnf_vars_def clause_vars_def var_def)
  have spec: "dom m' = set vs" "ran m' \<subseteq> {n..<n'}" "inj_on m' (dom m')"
    using createRenaming_fold [OF f, of n] by auto
  then show "dom \<rho> = cnf_vars F - set shared" "inj_on \<rho> (dom \<rho>)"
    using rho vs by auto
  show "ran \<rho> \<inter> cnf_vars F = {}" if "start = 0"
    using that spec(2) maxVarIndex_bound [of F] by (fastforce simp: rho n_def)
qed

section \<open>Extended dependencies\<close>

text \<open>\<open>dep_below (e', d') (e, d)\<close>: variable \<open>e'\<close> may be used in the function of \<open>e\<close>.\<close>

definition dep_below :: "int \<times> int list \<Rightarrow> int \<times> int list \<Rightarrow> bool" where
  "dep_below x y = (set (snd x) \<subset> set (snd y) \<or> set (snd x) = set (snd y) \<and> fst x < fst y)"

lemma dep_below_irrefl: "\<not> dep_below x x"
  by (simp add: dep_below_def)

lemma dep_below_trans: "dep_below x y \<Longrightarrow> dep_below y z \<Longrightarrow> dep_below x z"
  by (auto simp: dep_below_def)

lemma includes_below:
  assumes "strict_sorted d" "strict_sorted d'" "k' < k"
  shows "std_includes d d' \<longleftrightarrow> dep_below (k', d') (k, d)"
    and "\<not> std_includes d d' \<Longrightarrow> std_includes d' d \<longleftrightarrow> dep_below (k, d) (k', d')"
  using assms by (auto simp: includes_iff dep_below_def)

lemma compareDependencies_eq:
  assumes "strict_sorted d" "strict_sorted d'" "k' < k"
  shows "compareDependencies k d (k', d') ext =
    (if dep_below (k', d') (k, d) then push_dep ext k k'
     else if dep_below (k, d) (k', d') then push_dep ext k' k else ext)"
  using assms includes_below [OF assms] by (auto simp: compareDependencies_def)

text \<open>The invariant of the loop over the ordered map.\<close>

definition ext_inv :: "(int \<times> int list) list \<Rightarrow> (int \<rightharpoonup> int list) \<Rightarrow> (int \<rightharpoonup> int list) \<Rightarrow> bool" where
  "ext_inv es base ext \<longleftrightarrow>
     (\<forall>(k, d)\<in>set es. \<exists>extra. ext k = Some (the (base k) @ extra) \<and> distinct extra \<and>
        set extra = {k'. \<exists>d'. (k', d') \<in> set es \<and> dep_below (k', d') (k, d)})"

lemma fold_compare:
  assumes "strict_sorted d" "distinct (map fst vis)" "\<forall>(k', d')\<in>set vis. k' < k \<and> strict_sorted d'"
    and "\<forall>(k', d')\<in>set vis. ext k' \<noteq> None" "ext k \<noteq> None"
  shows "fold (compareDependencies k d) vis ext x =
    (if x = k then Some (the (ext k) @ map fst (filter (\<lambda>e. dep_below e (k, d)) vis))
     else if \<exists>d'. (x, d') \<in> set vis \<and> dep_below (k, d) (x, d') then Some (the (ext x) @ [k])
     else ext x)"
  using assms
proof (induction vis arbitrary: ext)
  case Nil
  then show ?case by auto
next
  case (Cons e vis)
  obtain k' d' where e: "e = (k', d')" by fastforce
  have lt: "k' < k" and sd: "strict_sorted d'" and notin: "k' \<notin> fst ` set vis"
    using Cons.prems(2,3) e by auto
  define ext' where "ext' = compareDependencies k d (k', d') ext"
  have ext': "ext' = (if dep_below (k', d') (k, d) then push_dep ext k k'
     else if dep_below (k, d) (k', d') then push_dep ext k' k else ext)"
    unfolding ext'_def by (rule compareDependencies_eq [OF Cons.prems(1) sd lt])
  have dom: "\<forall>(k', d')\<in>set vis. ext' k' \<noteq> None" "ext' k \<noteq> None"
    using Cons.prems(4,5) by (auto simp: ext' push_dep_def split: option.splits)
  have IH: "fold (compareDependencies k d) vis ext' x =
    (if x = k then Some (the (ext' k) @ map fst (filter (\<lambda>e. dep_below e (k, d)) vis))
     else if \<exists>d'. (x, d') \<in> set vis \<and> dep_below (k, d) (x, d') then Some (the (ext' x) @ [k])
     else ext' x)"
    using Cons.IH [of ext'] Cons.prems dom by auto
  have asym: "\<not> (dep_below (k', d') (k, d) \<and> dep_below (k, d) (k', d'))"
    using dep_below_trans dep_below_irrefl by blast
  have "fold (compareDependencies k d) (e # vis) ext x = fold (compareDependencies k d) vis ext' x"
    by (simp add: e ext'_def)
  also have "\<dots> = (if x = k then Some (the (ext k) @ map fst (filter (\<lambda>e. dep_below e (k, d)) (e # vis)))
     else if \<exists>d'. (x, d') \<in> set (e # vis) \<and> dep_below (k, d) (x, d') then Some (the (ext x) @ [k])
     else ext x)"
  proof (cases "x = k")
    case True
    then show ?thesis unfolding IH using lt Cons.prems(5) asym
      by (auto simp: ext' e push_dep_def)
  next
    case False
    then show ?thesis
    proof (cases "x = k'")
      case True
      then have "\<nexists>d''. (x, d'') \<in> set vis" using notin by force
      then show ?thesis unfolding IH using False True Cons.prems(4) asym
        by (auto simp: ext' e push_dep_def)
    next
      case other: False
      then show ?thesis unfolding IH using False by (auto simp: ext' e push_dep_def)
    qed
  qed
  finally show ?case .
qed

lemma ext_inv_step:
  assumes inv: "ext_inv vis base ext" and sd: "strict_sorted d" "distinct (map fst vis)"
    "\<forall>(k', d')\<in>set vis. k' < k \<and> strict_sorted d'"
    and k: "ext k = base k" "base k \<noteq> None"
  shows "ext_inv (vis @ [(k, d)]) base (fold (compareDependencies k d) vis ext)"
proof -
  have dom: "\<forall>(k', d')\<in>set vis. ext k' \<noteq> None" "ext k \<noteq> None"
    using inv k by (auto simp: ext_inv_def)
  note fc = fold_compare [OF sd dom]
  have key: "k \<notin> fst ` set vis" using sd(3) by auto
  have new: "\<exists>extra. fold (compareDependencies k d) vis ext k = Some (the (base k) @ extra) \<and>
      distinct extra \<and>
      set extra = {k'. \<exists>d'. (k', d') \<in> set (vis @ [(k, d)]) \<and> dep_below (k', d') (k, d)}"
  proof (intro exI conjI)
    let ?extra = "map fst (filter (\<lambda>e. dep_below e (k, d)) vis)"
    show "fold (compareDependencies k d) vis ext k = Some (the (base k) @ ?extra)"
      using k by (simp add: fc)
    show "distinct ?extra" using sd(2) by (simp add: distinct_map_filter)
    show "set ?extra = {k'. \<exists>d'. (k', d') \<in> set (vis @ [(k, d)]) \<and> dep_below (k', d') (k, d)}"
      by (auto simp: dep_below_irrefl image_iff)
  qed
  have old: "\<exists>extra. fold (compareDependencies k d) vis ext k' = Some (the (base k') @ extra) \<and>
      distinct extra \<and>
      set extra = {k''. \<exists>d''. (k'', d'') \<in> set (vis @ [(k, d)]) \<and> dep_below (k'', d'') (k', d')}"
    if mem: "(k', d') \<in> set vis" for k' d'
  proof -
    obtain extra where extra: "ext k' = Some (the (base k') @ extra)" "distinct extra"
      "set extra = {k''. \<exists>d''. (k'', d'') \<in> set vis \<and> dep_below (k'', d'') (k', d')}"
      using inv mem unfolding ext_inv_def by blast
    have ne: "k' \<noteq> k" using key mem by force
    have uniq: "(k', d'') \<in> set vis \<Longrightarrow> d'' = d'" for d''
      using sd(2) mem by (metis eq_key_imp_eq_value)
    show ?thesis
    proof (cases "dep_below (k, d) (k', d')")
      case True
      then have "fold (compareDependencies k d) vis ext k' = Some (the (base k') @ (extra @ [k]))"
        using mem ne extra(1) by (auto simp: fc)
      moreover have "k \<notin> set extra" using extra(3) key by force
      ultimately show ?thesis using extra True
        by (intro exI [of _ "extra @ [k]"]) auto
    next
      case False
      then have "\<not> (\<exists>d''. (k', d'') \<in> set vis \<and> dep_below (k, d) (k', d''))"
        using uniq by blast
      then have "fold (compareDependencies k d) vis ext k' = Some (the (base k') @ extra)"
        using ne extra(1) by (simp only: fc if_False simp_thms)
      then show ?thesis using extra False by (intro exI [of _ extra]) auto
    qed
  qed
  show ?thesis unfolding ext_inv_def using new old by auto
qed

lemma extendedDependencies_loop_inv:
  assumes "ext_inv vis base ext" "distinct (map fst vis @ map fst es)" "sorted (map fst es)"
    "\<forall>(k', d')\<in>set vis. strict_sorted d' \<and> (\<forall>k\<in>fst ` set es. k' < k)"
    and "\<forall>(k, d)\<in>set es. ext k = Some d \<and> base k = Some d \<and> distinct d"
  shows "ext_inv (vis @ map (apsnd sort) es) base (extendedDependencies_loop es vis ext)"
  using assms
proof (induction es vis ext rule: extendedDependencies_loop.induct)
  case (1 vis ext)
  then show ?case by simp
next
  case (2 key v es vis ext)
  define d where "d = sort v"
  define ext' where "ext' = fold (compareDependencies key d) vis ext"
  have d: "strict_sorted d" using "2.prems"(5) by (simp add: d_def strict_sorted_iff)
  have vis: "distinct (map fst vis)" "\<forall>(k', d')\<in>set vis. k' < key \<and> strict_sorted d'"
    using "2.prems"(2,4) by auto
  have key: "ext key = base key" "base key \<noteq> None" using "2.prems"(5) by auto
  have inv: "ext_inv (vis @ [(key, d)]) base ext'"
    unfolding ext'_def using "2.prems"(1) d vis key by (rule ext_inv_step)
  have dom: "\<forall>(k', d')\<in>set vis. ext k' \<noteq> None" "ext key \<noteq> None"
    using "2.prems"(1) key by (auto simp: ext_inv_def)
  have rest: "ext' k = ext k" if "k \<in> fst ` set es" for k
  proof -
    have "k \<noteq> key" "k \<notin> fst ` set vis" using that "2.prems"(2) by auto
    then show ?thesis
      by (auto simp: ext'_def fold_compare [OF d vis dom] image_iff)
  qed
  have lt: "\<forall>k\<in>fst ` set es. key < k"
    using "2.prems"(2,3) by (auto simp: less_le image_iff)
  have "ext_inv ((vis @ [(key, sort v)]) @ map (apsnd sort) es) base
      (extendedDependencies_loop es (vis @ [(key, sort v)]) (fold (compareDependencies key (sort v)) vis ext))"
  proof (rule "2.IH" [OF refl])
    show "ext_inv (vis @ [(key, sort v)]) base (fold (compareDependencies key (sort v)) vis ext)"
      using inv by (simp add: d_def ext'_def)
    show "distinct (map fst (vis @ [(key, sort v)]) @ map fst es)" using "2.prems"(2) by auto
    show "sorted (map fst es)" using "2.prems"(3) by simp
    show "\<forall>(k', d')\<in>set (vis @ [(key, sort v)]). strict_sorted d' \<and> (\<forall>k\<in>fst ` set es. k' < k)"
      using "2.prems"(4) d lt by (auto simp: d_def)
    show "\<forall>(k, da)\<in>set es. fold (compareDependencies key (sort v)) vis ext k = Some da \<and>
        base k = Some da \<and> distinct da"
      using "2.prems"(5) rest by (force simp: d_def ext'_def)
  qed
  then show ?case by (simp add: Let_def)
qed

lemma ComputeExtendedDependencies_inv:
  assumes "distinct (map fst D)" "\<forall>(k, d)\<in>set D. distinct d" "(k, d) \<in> set D"
  obtains extra where "ComputeExtendedDependencies D k = Some (d @ extra)" "distinct extra"
    "set extra = {k'. \<exists>d'. (k', d') \<in> set D \<and> dep_below (k', d') (k, d)}"
proof -
  have srt: "set (sort_key fst D) = set D" by simp
  have map: "map_of (sort_key fst D) = map_of D"
    using assms(1) by (intro map_of_inject_set [THEN iffD2]) (auto simp: distinct_map inj_on_def)
  have "ext_inv ([] @ map (apsnd sort) (sort_key fst D)) (map_of D)
      (extendedDependencies_loop (sort_key fst D) [] (map_of D))"
  proof (rule extendedDependencies_loop_inv)
    show "ext_inv [] (map_of D) (map_of D)" by (simp add: ext_inv_def)
    show "distinct (map fst [] @ map fst (sort_key fst D))"
      using assms(1) by (auto simp: distinct_map)
    show "\<forall>(k, d)\<in>set (sort_key fst D). map_of D k = Some d \<and> map_of D k = Some d \<and> distinct d"
      using assms(1,2) by auto
  qed auto
  then have inv: "ext_inv (map (apsnd sort) (sort_key fst D)) (map_of D) (ComputeExtendedDependencies D)"
    by (simp add: ComputeExtendedDependencies_def)
  have mem: "(k, sort d) \<in> set (map (apsnd sort) (sort_key fst D))" using assms(3) by force
  obtain extra where e: "ComputeExtendedDependencies D k = Some (the (map_of D k) @ extra)"
    "distinct extra"
    "set extra = {k'. \<exists>d'. (k', d') \<in> set (map (apsnd sort) (sort_key fst D)) \<and>
        dep_below (k', d') (k, sort d)}"
    using inv mem unfolding ext_inv_def by blast
  have "set extra = {k'. \<exists>d'. (k', d') \<in> set D \<and> dep_below (k', d') (k, d)}"
    unfolding e(3) by (force simp: dep_below_def)
  then show ?thesis using that e(1,2) assms(1,3) by auto
qed

section \<open>Properties\<close>

text \<open>C23: the output of \<open>negateFormula\<close> is satisfiable by an extension of an assignment exactly
  when the assignment falsifies the formula; in every such extension a clause variable set to
  false points at a falsified clause.\<close>

theorem negateFormula_exact:
  assumes "negateFormula F m = (N, cvs, lst)" "wf_cnf F" "cnf_vars F \<subseteq> {..negate_start F m}"
  shows "((\<exists>\<beta>. agree_upto (negate_start F m) \<alpha> \<beta> \<and> cnf_sat \<beta> N) \<longleftrightarrow> \<not> cnf_sat \<alpha> F) \<and>
         (\<forall>\<beta>. cnf_sat \<beta> N \<longrightarrow>
            (\<exists>i < length F. \<not> \<beta> (cvs ! i)) \<and>
            (\<forall>i < length F. \<not> \<beta> (cvs ! i) \<longrightarrow> \<not> clause_sat \<beta> (F ! i))) \<and>
         lst = negate_start F m + int (length F)"
proof (intro conjI iffI)
  assume "\<exists>\<beta>. agree_upto (negate_start F m) \<alpha> \<beta> \<and> cnf_sat \<beta> N"
  then obtain \<beta> where \<beta>: "agree_upto (negate_start F m) \<alpha> \<beta>" "cnf_sat \<beta> N" by blast
  obtain i where "i < length F" "\<not> \<beta> (cvs ! i)"
    using negateFormula_falsified(1) [OF assms(1,2) \<beta>(2)] by blast
  then have "\<not> cnf_sat \<beta> F"
    using negateFormula_falsified(2) [OF assms(1,2) \<beta>(2)] 
    unfolding cnf_sat_iff using nth_mem by blast
  moreover have "cnf_sat \<alpha> F = cnf_sat \<beta> F"
    by (rule cnf_sat_cong) (use \<beta>(1) assms(3) in \<open>auto simp: agree_upto_def\<close>)
  ultimately show "\<not> cnf_sat \<alpha> F" by simp
next
  assume "\<not> cnf_sat \<alpha> F"
  then show "\<exists>\<beta>. agree_upto (negate_start F m) \<alpha> \<beta> \<and> cnf_sat \<beta> N"
    by (rule negateFormula_satisfiable [OF assms])
next
  show "\<forall>\<beta>. cnf_sat \<beta> N \<longrightarrow>
            (\<exists>i < length F. \<not> \<beta> (cvs ! i)) \<and>
            (\<forall>i < length F. \<not> \<beta> (cvs ! i) \<longrightarrow> \<not> clause_sat \<beta> (F ! i))"
    using negateFormula_falsified [OF assms(1,2)] by blast
  show "lst = negate_start F m + int (length F)"
    using negateFormula_counters [OF assms(1)] by blast
qed

lemma negateFormula_exact_witness:
  "negateFormula [[1, - 2]] 0 = ([[- 1, 3], [2, 3], [- 3]], [3], 3) \<and>
   ((\<exists>\<beta>. agree_upto 2 (\<lambda>v. v = 2) \<beta> \<and> cnf_sat \<beta> [[- 1, 3], [2, 3], [- 3]]) \<longleftrightarrow>
      \<not> cnf_sat (\<lambda>v. v = 2) [[1, - 2]])"
proof -
  have start: "negate_start [[1, - 2]] 0 = 2"
    by (simp add: negate_start_def maxVarIndex_def var_def)
  have run: "negateFormula [[1, - 2]] 0 = ([[- 1, 3], [2, 3], [- 3]], [3], 3)"
    by (simp add: negateFormula_def maxVarIndex_def var_def)
  have "cnf_vars [[1, - 2]] \<subseteq> {..negate_start [[1, - 2]] 0}" by (simp add: start)
  then show ?thesis
    using negateFormula_exact [OF run, of "\<lambda>v. v = 2"] by (simp add: start run)
qed

text \<open>C25: restricting a definition by the constant 0 drops every literal on a universal
  variable outside the dependencies, keeps the value of the definition wherever those variables
  are 0, and reports a reduction exactly when a literal was dropped.\<close>

theorem restrictDefinition_exact:
  assumes "\<forall>u\<in>unis - deps. \<not> \<alpha> u"
  shows "cnf_sat \<alpha> (fst (restrictDefinitionByConstant0 F deps unis)) = cnf_sat \<alpha> F \<and>
         cnf_vars (fst (restrictDefinitionByConstant0 F deps unis)) \<subseteq> cnf_vars F - (unis - deps) \<and>
         (snd (restrictDefinitionByConstant0 F deps unis) \<longleftrightarrow> cnf_vars F \<inter> (unis - deps) \<noteq> {})"
proof -
  have sub: "cnf_vars (restrict_clauses deps unis F) \<subseteq> cnf_vars F - (unis - deps)"
    by (auto simp: restrict_clauses_def cnf_vars_def clause_vars_def
        restrictClauseByConstant0_spec kept_def var_def)
  have dropped: "(\<exists>c\<in>set F. \<exists>l\<in>set c. \<not> kept deps unis l) \<longleftrightarrow> cnf_vars F \<inter> (unis - deps) \<noteq> {}"
    by (auto simp: kept_def var_def cnf_vars_def clause_vars_def)
  show ?thesis
    using restrict_clauses_sat [OF assms] sub dropped by (simp add: restrictDefinitionByConstant0_spec)
qed

lemma restrictDefinition_exact_witness:
  "cnf_sat (\<lambda>v. v = 3) (fst (restrictDefinitionByConstant0 [[1, 2, 3], [- 2, 4]] {1} {1, 2})) =
     cnf_sat (\<lambda>v. v = 3) [[1, 2, 3], [- 2, 4]]"
  by (rule restrictDefinition_exact [THEN conjunct1]) simp

text \<open>C22: the extended dependencies of a variable are its own dependencies followed, without
  repetition, by exactly the existential variables whose dependency set is strictly contained in
  its own, or equal to it with a smaller name; this relation is a strict partial order, so the
  extension never makes two variables depend on each other.\<close>

theorem ComputeExtendedDependencies_order:
  assumes "distinct (map fst D)" "\<forall>(k, d)\<in>set D. distinct d" "(k, d) \<in> set D"
  shows "\<exists>extra. ComputeExtendedDependencies D k = Some (d @ extra) \<and> distinct extra \<and>
           set extra = {k'. \<exists>d'. (k', d') \<in> set D \<and>
             (set d' \<subset> set d \<or> set d' = set d \<and> k' < k)}"
proof -
  obtain extra where extra: "ComputeExtendedDependencies D k = Some (d @ extra)" "distinct extra"
    "set extra = {k'. \<exists>d'. (k', d') \<in> set D \<and> dep_below (k', d') (k, d)}"
    by (rule ComputeExtendedDependencies_inv [OF assms])
  then show ?thesis by (intro exI [of _ extra]) (auto simp: dep_below_def)
qed

lemma ComputeExtendedDependencies_order_witness:
  "\<exists>extra. ComputeExtendedDependencies [(3, [1]), (4, [1, 2]), (5, [1])] 5 = Some ([1] @ extra) \<and>
     distinct extra \<and>
     set extra = {k'. \<exists>d'. (k', d') \<in> set [(3, [1 :: int]), (4, [1, 2]), (5, [1])] \<and>
       (set d' \<subset> set [1] \<or> set d' = set [1] \<and> k' < 5)}"
  by (rule ComputeExtendedDependencies_order) auto

end
