(* ===== verification/Utils_Words.thy ===== *)
theory Utils_Words
  imports Utils "HOL-Library.Monad_Syntax"
begin

text \<open>
  The literal codecs of \<open>include/utils.h\<close> at the width they run at: a literal is a C++ \<open>int\<close>, here
  a 32-bit two's complement word. A signed operation whose mathematical result does not fit the
  type is undefined behaviour, so it has no result; \<open>abs\<close> of the smallest \<open>int\<close> is one of them.
  The right shift of \<open>litFromMiniSATLit\<close> is arithmetic.
\<close>

definition fits_int :: "int \<Rightarrow> bool" where
  "fits_int i \<longleftrightarrow> - (2 ^ 31) \<le> i \<and> i < 2 ^ 31"

definition signed_result :: "int \<Rightarrow> 32 word option" where
  "signed_result i = (if fits_int i then Some (word_of_int i) else None)"

definition var_w :: "32 word \<Rightarrow> 32 word option" where
  "var_w literal = (if literal <s 0 then signed_result (- sint literal) else Some literal)"

definition miniSATLiteral_w :: "32 word \<Rightarrow> 32 word option" where
  "miniSATLiteral_w literal =
     do {
       variable \<leftarrow> var_w literal;
       doubled \<leftarrow> signed_result (2 * sint variable);
       signed_result (sint doubled + of_bool (literal <s 0))
     }"

definition litFromMiniSATLit_w :: "32 word \<Rightarrow> 32 word option" where
  "litFromMiniSATLit_w minisat_literal =
     do {
       let variable = signed_drop_bit 1 minisat_literal;
       let negated = minisat_literal AND 1;
       mask \<leftarrow> signed_result (- sint negated);
       signed_result (sint (variable XOR mask) + sint negated)
     }"

lemma fits_int_sint [simp]: "fits_int (sint (w :: 32 word))"
  using sint_ge [of w] sint_lt [of w] by (simp add: fits_int_def)

lemma sint_of_int_32: "fits_int i \<Longrightarrow> sint (word_of_int i :: 32 word) = i"
  by (simp add: fits_int_def sint_sbintrunc' signed_take_bit_int_eq_self)

lemma slt_zero_32: "(w :: 32 word) <s 0 \<longleftrightarrow> sint w < 0"
  by (simp add: word_sless_alt)

lemma signed_result_Some: "signed_result i = Some w \<longleftrightarrow> fits_int i \<and> sint w = i"
  by (auto simp: signed_result_def sint_of_int_32)

lemma signed_result_None: "signed_result i = None \<longleftrightarrow> \<not> fits_int i"
  by (simp add: signed_result_def)

lemma miniSATLiteral_w_Some:
  assumes "\<bar>sint l\<bar> < 2 ^ 30"
  shows "miniSATLiteral_w l = Some (word_of_int (miniSATLiteral (sint l)))"
proof -
  have "fits_int \<bar>sint l\<bar>" "fits_int (2 * \<bar>sint l\<bar>)" "fits_int (2 * \<bar>sint l\<bar> + of_bool (sint l < 0))"
    using assms by (auto simp: fits_int_def)
  moreover have "var_w l = Some (word_of_int \<bar>sint l\<bar>)"
    using calculation(1) by (auto simp: var_w_def slt_zero_32 signed_result_def)
  moreover have r: "signed_result i = Some (word_of_int i)" if "fits_int i" for i using that by (simp add: signed_result_def)
  ultimately show ?thesis
    by (simp only: miniSATLiteral_w_def bind.bind_lunit sint_of_int_32 r slt_zero_32 miniSATLiteral_def var_def Let_def)
qed

lemma miniSATLiteral_w_None:
  assumes "2 ^ 30 \<le> \<bar>sint l\<bar>"
  shows "miniSATLiteral_w l = None"
proof (cases "var_w l")
  case (Some v)
  then have "sint v = \<bar>sint l\<bar>" by (auto simp: var_w_def slt_zero_32 signed_result_Some split: if_splits)
  then have "signed_result (2 * sint v) = None" using assms by (auto simp: signed_result_None fits_int_def)
  then show ?thesis using Some by (simp add: miniSATLiteral_w_def)
qed (simp add: miniSATLiteral_w_def)

lemma fits_int_bit: "fits_int (i AND 1)" "fits_int (- (i AND 1))"
proof -
  have "i AND 1 = 0 \<or> i AND 1 = 1" unfolding and_one_eq by presburger
  then show "fits_int (i AND 1)" "fits_int (- (i AND 1))" by (auto simp: fits_int_def)
qed

lemma litFromMiniSATLit_w_eq: "litFromMiniSATLit_w w = signed_result (litFromMiniSATLit (sint w))"
proof -
  have and_sint: "sint (w AND 1) = sint w AND 1"
  proof -
    have "fits_int (sint w AND 1)" by (rule fits_int_bit)
    moreover have "w AND 1 = word_of_int (sint w AND 1)" by (simp add: of_int_and_eq)
    ultimately show ?thesis by (simp only: sint_of_int_32)
  qed
  have bit: "fits_int (- (sint w AND 1))" by (rule fits_int_bit)
  have shift: "sint (signed_drop_bit 1 w) = drop_bit 1 (sint w)" by (simp add: sint_signed_drop_bit_eq)
  have mask: "sint (word_of_int (- (sint w AND 1)) :: 32 word) = - (sint w AND 1)" by (rule sint_of_int_32 [OF bit])
  have "sint (signed_drop_bit 1 w XOR word_of_int (- (sint w AND 1))) = drop_bit 1 (sint w) XOR - (sint w AND 1)"
    by (simp only: sint_uint signed_xor_eq shift mask flip: sint_uint)
  then show ?thesis
    using bit by (simp add: litFromMiniSATLit_w_def litFromMiniSATLit_def Let_def and_sint signed_result_def)
qed

text \<open>
  C28: The 32-bit MiniSAT encoding is free of undefined behaviour exactly for the literals whose
  variable is below \<open>2 ^ 30\<close>. For them it is the mathematical encoding, and decoding, which is free
  of undefined behaviour there, gives the literal back.
\<close>

theorem miniSATLiteral_32_exact:
  "(miniSATLiteral_w l = None \<longleftrightarrow> 2 ^ 30 \<le> \<bar>sint l\<bar>) \<and>
   (\<forall>m. miniSATLiteral_w l = Some m \<longrightarrow>
      sint m = miniSATLiteral (sint l) \<and> litFromMiniSATLit_w m = Some l)"
proof (cases "2 ^ 30 \<le> \<bar>sint l\<bar>")
  case True
  then show ?thesis using miniSATLiteral_w_None by simp
next
  case False
  then have some: "miniSATLiteral_w l = Some (word_of_int (miniSATLiteral (sint l)))"
    by (intro miniSATLiteral_w_Some) simp
  have "fits_int (miniSATLiteral (sint l))" using False by (auto simp: miniSATLiteral_def var_def fits_int_def)
  then have exact: "sint (word_of_int (miniSATLiteral (sint l)) :: 32 word) = miniSATLiteral (sint l)"
    by (rule sint_of_int_32)
  moreover have "litFromMiniSATLit_w (word_of_int (miniSATLiteral (sint l))) = Some l"
    by (simp add: litFromMiniSATLit_w_eq exact litFromMiniSATLit_miniSATLiteral signed_result_def)
  ultimately show ?thesis using some False by simp
qed

lemma miniSATLiteral_32_exact_witness:
  "miniSATLiteral_w (- 5) = Some 11 \<and> litFromMiniSATLit_w 11 = Some (- 5) \<and> miniSATLiteral_w (2 ^ 30) = None"
proof -
  have five: "miniSATLiteral_w (- 5) \<noteq> None" and "miniSATLiteral_w (2 ^ 30) = None"
    using miniSATLiteral_32_exact [of "- 5"] miniSATLiteral_32_exact [of "2 ^ 30"] by simp_all
  moreover obtain m where m: "miniSATLiteral_w (- 5) = Some m" using five by blast
  then have "sint m = 11" "litFromMiniSATLit_w m = Some (- 5)"
    using miniSATLiteral_32_exact [of "- 5"] by (simp_all add: miniSATLiteral_def var_def)
  moreover have "m = word_of_int (sint m)" by simp
  then have "m = 11" unfolding \<open>sint m = 11\<close> by simp
  ultimately show ?thesis using m by simp
qed

end
