(* ===== verification/SatSolver.thy ===== *)
theory SatSolver
  imports Utils
begin

text \<open>
  The incremental SAT interface of \<open>include/satsolver.h\<close>, its two adapters
  \<open>CadicalSolver\<close> (\<open>cadical_ipasir/cadical.h\<close>) and \<open>GlucoseSolver\<close>
  (\<open>glucose/glucose.cc\<close>), and the abstract solver state the other components use.
  The back ends are parameters: CaDiCaL is a submodule with no source here and the vendored
  Glucose core is not verified, so each adapter takes the back end's calls as a record of
  functions, and what their documentation promises is a named hypothesis
  (\<open>cadical_documented\<close>, \<open>glucose_documented\<close>). The locale \<open>sat_interface\<close>
  states the contract the clients rely on; both adapters are shown to meet it over any back
  end that behaves as documented, and the locale is interpreted on both adapters over an
  exhaustive-search back end.
\<close>

section \<open>Answers and the abstract solver state\<close>

datatype answer = Sat assignment | Unsat "int list" | Unknown

record sat_solver =
  sat_clauses :: cnf
  sat_assumed :: "int list"
  sat_answer :: answer
  sat_calls :: nat

text \<open>
  An oracle answers the n-th call on a formula under assumptions; \<open>oracle_sound\<close> is the
  documented meaning of its answers.
\<close>

type_synonym sat_oracle = "nat \<Rightarrow> cnf \<Rightarrow> int list \<Rightarrow> answer"

definition satisfies :: "assignment \<Rightarrow> cnf \<Rightarrow> int list \<Rightarrow> bool" where
  "satisfies \<alpha> F as \<longleftrightarrow> cnf_sat \<alpha> F \<and> list_all (lit_true \<alpha>) as"

definition answer_sound :: "cnf \<Rightarrow> int list \<Rightarrow> answer \<Rightarrow> bool" where
  "answer_sound F as a =
     (case a of
        Sat \<alpha> \<Rightarrow> satisfies \<alpha> F as
      | Unsat core \<Rightarrow> set core \<subseteq> set as \<and> (\<forall>\<alpha>. \<not> satisfies \<alpha> F core)
      | Unknown \<Rightarrow> True)"

definition oracle_sound :: "sat_oracle \<Rightarrow> bool" where
  "oracle_sound orc \<longleftrightarrow> (\<forall>n F as. answer_sound F as (orc n F as))"

definition init_solver :: sat_solver where
  "init_solver = \<lparr>sat_clauses = [], sat_assumed = [], sat_answer = Unknown, sat_calls = 0\<rparr>"

definition sat_addClause :: "clause \<Rightarrow> sat_solver \<Rightarrow> sat_solver" where
  "sat_addClause c s = s\<lparr>sat_clauses := sat_clauses s @ [c]\<rparr>"

definition sat_appendFormula :: "cnf \<Rightarrow> sat_solver \<Rightarrow> sat_solver" where
  "sat_appendFormula F s = fold sat_addClause F s"

definition sat_assume :: "int list \<Rightarrow> sat_solver \<Rightarrow> sat_solver" where
  "sat_assume as s = s\<lparr>sat_assumed := sat_assumed s @ as\<rparr>"

definition answer_code :: "answer \<Rightarrow> int" where
  "answer_code a = (case a of Sat _ \<Rightarrow> 10 | Unsat _ \<Rightarrow> 20 | Unknown \<Rightarrow> 0)"

definition sat_solve :: "sat_oracle \<Rightarrow> sat_solver \<Rightarrow> int \<times> sat_solver" where
  "sat_solve orc s =
     (let a = orc (sat_calls s) (sat_clauses s) (sat_assumed s)
      in (answer_code a, s\<lparr>sat_assumed := [], sat_answer := a, sat_calls := sat_calls s + 1\<rparr>))"

definition sat_val :: "int \<Rightarrow> sat_solver \<Rightarrow> int" where
  "sat_val v s = (case sat_answer s of Sat \<alpha> \<Rightarrow> (if \<alpha> v then v else - v) | _ \<Rightarrow> v)"

definition sat_getValues :: "int list \<Rightarrow> sat_solver \<Rightarrow> int list" where
  "sat_getValues vs s = map (\<lambda>v. sat_val v s) vs"

text \<open>
  Whether an assumption has failed may only be asked after the answer unsatisfiable: neither the
  interface nor the documentation of the default back end gives the question a meaning in any
  other state, so it has no result there. The adapters ask once per literal, so the empty list of
  assumptions asks nothing.
\<close>

definition sat_getFailed :: "int list \<Rightarrow> sat_solver \<Rightarrow> int list option" where
  "sat_getFailed as s =
     (case sat_answer s of
        Unsat core \<Rightarrow> Some (filter (\<lambda>l. l \<in> set core) as)
      | _ \<Rightarrow> if as = [] then Some [] else None)"

lemma sat_getFailed_Unsat [simp]:
  "sat_answer s = Unsat core \<Longrightarrow> sat_getFailed as s = Some (filter (\<lambda>l. l \<in> set core) as)"
  by (simp add: sat_getFailed_def)

lemma sat_getFailed_subset: "sat_getFailed as s = Some failed \<Longrightarrow> set failed \<subseteq> set as"
  by (auto simp: sat_getFailed_def split: answer.splits if_splits)

lemma sat_solve_unsat:
  assumes "sat_solve orc s = (20, s')" shows "\<exists>core. sat_answer s' = Unsat core"
  using assms by (auto simp: sat_solve_def Let_def answer_code_def split: answer.splits)

lemma sat_solver_simps [simp]:
  "sat_clauses (sat_addClause c s) = sat_clauses s @ [c]"
  "sat_assumed (sat_addClause c s) = sat_assumed s"
  "sat_clauses (sat_assume as s) = sat_clauses s"
  "sat_assumed (sat_assume as s) = sat_assumed s @ as"
  by (simp_all add: sat_addClause_def sat_assume_def)

lemma sat_clauses_appendFormula [simp]:
  "sat_clauses (sat_appendFormula F s) = sat_clauses s @ F"
  "sat_assumed (sat_appendFormula F s) = sat_assumed s"
  by (induction F arbitrary: s) (simp_all add: sat_appendFormula_def)

section \<open>The contract of the interface\<close>

locale sat_interface =
  fixes addClause :: "clause \<Rightarrow> 's \<Rightarrow> 's"
    and assume_all :: "int list \<Rightarrow> 's \<Rightarrow> 's"
    and solve :: "'s \<Rightarrow> int \<times> 's"
    and getValues :: "int list \<Rightarrow> 's \<Rightarrow> int list"
    and getFailed :: "int list \<Rightarrow> 's \<Rightarrow> int list"
    and formula :: "'s \<Rightarrow> cnf"
    and assumed :: "'s \<Rightarrow> int list"
    and ok :: "'s \<Rightarrow> bool"
    and knows :: "'s \<Rightarrow> int set"
  assumes ok_addClause: "ok s \<Longrightarrow> wf_clause c \<Longrightarrow> ok (addClause c s)"
    and ok_assume: "ok s \<Longrightarrow> wf_clause as \<Longrightarrow> ok (assume_all as s)"
    and formula_addClause: "ok s \<Longrightarrow> wf_clause c \<Longrightarrow> formula (addClause c s) = formula s @ [c]"
    and assumed_addClause: "ok s \<Longrightarrow> wf_clause c \<Longrightarrow> assumed (addClause c s) = assumed s"
    and formula_assume: "ok s \<Longrightarrow> formula (assume_all as s) = formula s"
    and assumed_assume: "ok s \<Longrightarrow> set (assumed (assume_all as s)) = set (assumed s) \<union> set as"
    and solve_sat: "ok s \<Longrightarrow> solve s = (10, s') \<Longrightarrow>
          \<exists>\<alpha>. satisfies \<alpha> (formula s) (assumed s) \<and>
              (\<forall>vs. set vs \<subseteq> knows s' \<longrightarrow> getValues vs s' = map (\<lambda>v. if \<alpha> v then v else - v) vs)"
    and solve_unsat: "ok s \<Longrightarrow> solve s = (20, s') \<Longrightarrow>
          \<exists>core. set core \<subseteq> set (assumed s) \<and> (\<forall>\<alpha>. \<not> satisfies \<alpha> (formula s) core) \<and>
              (\<forall>as. set (getFailed as s') = set as \<inter> set core)"
    and solve_keeps: "ok s \<Longrightarrow> solve s = (r, s') \<Longrightarrow> ok s' \<and> formula s' = formula s \<and> assumed s' = []"
begin

text \<open>What the clients use: the failed assumptions alone are already contradictory.\<close>

lemma failed_unsat:
  assumes "ok s" "solve s = (20, s')" "set (assumed s) \<subseteq> set as"
  shows "\<not> satisfies \<alpha> (formula s) (getFailed as s')"
proof -
  obtain core where core: "set core \<subseteq> set (assumed s)" "\<forall>\<alpha>. \<not> satisfies \<alpha> (formula s) core"
    "\<forall>as. set (getFailed as s') = set as \<inter> set core"
    using solve_unsat [OF assms(1,2)] by blast
  then have "set (getFailed as s') = set core" using assms(3) by auto
  with core(2) show ?thesis by (auto simp: satisfies_def list_all_iff)
qed

lemma append_formula:
  "ok s \<Longrightarrow> wf_cnf F \<Longrightarrow> ok (fold addClause F s) \<and> formula (fold addClause F s) = formula s @ F"
  by (induction F arbitrary: s) (auto simp: ok_addClause formula_addClause)

lemma solve_answer_consistent:
  assumes "ok s" "solve s = (10, s')" "solve s = (20, s'')"
  shows False
  using assms by simp

lemma unsat_means_unsat:
  assumes "ok s" "solve s = (20, s')"
  shows "\<not> satisfies \<alpha> (formula s) (assumed s)"
  using solve_unsat [OF assms] unfolding satisfies_def list_all_iff by blast

end

section \<open>An exhaustive-search oracle\<close>

text \<open>The concrete back end of the witnesses: it tries every assignment of the variables.\<close>

definition search_vars :: "cnf \<Rightarrow> int list \<Rightarrow> int list" where
  "search_vars F as = remdups (map var (concat F) @ map var as)"

definition search_assignment :: "cnf \<Rightarrow> int list \<Rightarrow> int list option" where
  "search_assignment F as =
     find (\<lambda>xs. satisfies (\<lambda>v. v \<in> set xs) F as) (subseqs (search_vars F as))"

definition search_oracle :: sat_oracle where
  "search_oracle n F as =
     (case search_assignment F as of Some xs \<Rightarrow> Sat (\<lambda>v. v \<in> set xs) | None \<Rightarrow> Unsat as)"

lemma satisfies_cong:
  assumes "\<And>v. v \<in> cnf_vars F \<union> var ` set as \<Longrightarrow> \<alpha> v = \<beta> v"
  shows "satisfies \<alpha> F as = satisfies \<beta> F as"
proof -
  have "cnf_sat \<alpha> F = cnf_sat \<beta> F" by (rule cnf_sat_cong) (simp add: assms)
  moreover have "lit_true \<alpha> l = lit_true \<beta> l" if "l \<in> set as" for l
    by (rule lit_true_cong) (use that assms in \<open>auto simp: var_def\<close>)
  ultimately show ?thesis by (simp add: satisfies_def list_all_iff)
qed

lemma filter_in_subseqs: "filter P ys \<in> set (subseqs ys)"
  by (induction ys) (auto simp: Let_def)

lemma search_complete:
  assumes "satisfies \<alpha> F as"
  shows "search_assignment F as \<noteq> None"
proof -
  define xs where "xs = filter \<alpha> (search_vars F as)"
  have "xs \<in> set (subseqs (search_vars F as))"
    by (simp add: xs_def filter_in_subseqs)
  moreover have "satisfies (\<lambda>v. v \<in> set xs) F as"
  proof -
    have "satisfies (\<lambda>v. v \<in> set xs) F as = satisfies \<alpha> F as"
      by (rule satisfies_cong)
         (auto simp: xs_def search_vars_def cnf_vars_def clause_vars_def var_def)
    with assms show ?thesis by simp
  qed
  ultimately show ?thesis by (auto simp: search_assignment_def find_None_iff)
qed

lemma search_oracle_sound: "oracle_sound search_oracle"
  unfolding oracle_sound_def answer_sound_def
proof (intro allI)
  fix n F as
  show "case search_oracle n F as of
      Sat \<alpha> \<Rightarrow> satisfies \<alpha> F as
    | Unsat core \<Rightarrow> set core \<subseteq> set as \<and> (\<forall>\<alpha>. \<not> satisfies \<alpha> F core)
    | Unknown \<Rightarrow> True"
  proof (cases "search_assignment F as")
    case None
    then have "\<not> satisfies \<alpha> F as" for \<alpha> by (metis search_complete)
    with None show ?thesis by (simp add: search_oracle_def)
  next
    case (Some xs)
    then have "satisfies (\<lambda>v. v \<in> set xs) F as"
      by (auto simp: search_assignment_def find_Some_iff)
    with Some show ?thesis by (simp add: search_oracle_def)
  qed
qed

section \<open>The CaDiCaL adapter\<close>

text \<open>
  \<open>'c cadical\<close> is the part of the CaDiCaL API the adapter calls. \<open>add\<close> with 0 ends the
  clause added literal by literal; \<open>val\<close> returns a literal of the asked variable.
\<close>

record 'c cadical =
  c_add :: "int \<Rightarrow> 'c \<Rightarrow> 'c"
  c_assume :: "int \<Rightarrow> 'c \<Rightarrow> 'c"
  c_reset_assumptions :: "'c \<Rightarrow> 'c"
  c_limit :: "int \<Rightarrow> 'c \<Rightarrow> 'c"
  c_solve :: "'c \<Rightarrow> int \<times> 'c"
  c_failed :: "int \<Rightarrow> 'c \<Rightarrow> bool"
  c_val :: "int \<Rightarrow> 'c \<Rightarrow> int"
  c_vars :: "'c \<Rightarrow> int"

datatype sat_exception = Interrupted

definition cadical_addClause :: "'c cadical \<Rightarrow> clause \<Rightarrow> 'c \<Rightarrow> 'c" where
  "cadical_addClause api clause s = c_add api 0 (fold (c_add api) clause s)"

definition cadical_appendFormula :: "'c cadical \<Rightarrow> cnf \<Rightarrow> 'c \<Rightarrow> 'c" where
  "cadical_appendFormula api F s = fold (cadical_addClause api) F s"

definition cadical_assume :: "'c cadical \<Rightarrow> int list \<Rightarrow> 'c \<Rightarrow> 'c" where
  "cadical_assume api assumptions s = fold (c_assume api) assumptions s"

definition cadical_assumeAll :: "'c cadical \<Rightarrow> int list \<Rightarrow> 'c \<Rightarrow> 'c" where
  "cadical_assumeAll api assumptions s =
     cadical_assume api assumptions (c_reset_assumptions api s)"

definition cadical_solve_under :: "'c cadical \<Rightarrow> int list \<Rightarrow> 'c \<Rightarrow> int \<times> 'c" where
  "cadical_solve_under api assumptions s = c_solve api (cadical_assumeAll api assumptions s)"

text \<open>
  \<open>signal\<close> is the value of \<open>InterruptHandler::signal_received\<close> when the call returns.
\<close>

definition cadical_solve :: "'c cadical \<Rightarrow> int \<Rightarrow> 'c \<Rightarrow> sat_exception + int \<times> 'c" where
  "cadical_solve api signal s =
     (let (result, s') = c_solve api s
      in if signal \<noteq> 0 then Inl Interrupted else Inr (result, s'))"

definition cadical_solve_limited ::
  "'c cadical \<Rightarrow> int \<Rightarrow> int \<Rightarrow> 'c \<Rightarrow> sat_exception + int \<times> 'c" where
  "cadical_solve_limited api signal conflict_limit s =
     cadical_solve api signal (c_limit api conflict_limit s)"

definition cadical_getFailed :: "'c cadical \<Rightarrow> int list \<Rightarrow> 'c \<Rightarrow> int list" where
  "cadical_getFailed api assumptions s = filter (\<lambda>l. c_failed api l s) assumptions"

definition cadical_val :: "'c cadical \<Rightarrow> int \<Rightarrow> 'c \<Rightarrow> int" where
  "cadical_val api variable s =
     (let l = c_val api variable s; v = \<bar>l\<bar> in if v = variable then l else variable)"

definition cadical_getValues :: "'c cadical \<Rightarrow> int list \<Rightarrow> 'c \<Rightarrow> int list" where
  "cadical_getValues api variables s = map (\<lambda>v. cadical_val api v s) variables"

definition cadical_getModel :: "'c cadical \<Rightarrow> 'c \<Rightarrow> int list" where
  "cadical_getModel api s = map (\<lambda>v. cadical_val api v s) [1..c_vars api s]"

text \<open>
  The documented behaviour, over three views of a state: the clauses added, the literals of
  the clause being added, the assumptions made since the last call.
\<close>

definition cadical_documented ::
  "'c cadical \<Rightarrow> ('c \<Rightarrow> cnf) \<Rightarrow> ('c \<Rightarrow> clause) \<Rightarrow> ('c \<Rightarrow> int list) \<Rightarrow> bool" where
  "cadical_documented api clauses pending assumed \<longleftrightarrow>
     (\<forall>s l. l \<noteq> 0 \<longrightarrow> clauses (c_add api l s) = clauses s \<and>
        pending (c_add api l s) = pending s @ [l] \<and> assumed (c_add api l s) = assumed s) \<and>
     (\<forall>s. clauses (c_add api 0 s) = clauses s @ [pending s] \<and>
        pending (c_add api 0 s) = [] \<and> assumed (c_add api 0 s) = assumed s) \<and>
     (\<forall>s l. clauses (c_assume api l s) = clauses s \<and> pending (c_assume api l s) = pending s \<and>
        assumed (c_assume api l s) = assumed s @ [l]) \<and>
     (\<forall>s r s'. c_solve api s = (r, s') \<longrightarrow>
        clauses s' = clauses s \<and> pending s' = pending s \<and> assumed s' = []) \<and>
     (\<forall>s s'. c_solve api s = (10, s') \<longrightarrow>
        (\<exists>\<alpha>. satisfies \<alpha> (clauses s) (assumed s) \<and>
             (\<forall>v>0. c_val api v s' = (if \<alpha> v then v else - v)))) \<and>
     (\<forall>s s'. c_solve api s = (20, s') \<longrightarrow>
        (\<exists>core. set core \<subseteq> set (assumed s) \<and> (\<forall>\<alpha>. \<not> satisfies \<alpha> (clauses s) core) \<and>
             (\<forall>l. c_failed api l s' = (l \<in> set core))))"

lemma cadical_add_literals:
  assumes "cadical_documented api clauses pending assumed" "wf_clause c"
  shows "clauses (fold (c_add api) c s) = clauses s \<and>
         pending (fold (c_add api) c s) = pending s @ c \<and>
         assumed (fold (c_add api) c s) = assumed s"
  using assms(2)
proof (induction c arbitrary: s)
  case (Cons l c)
  then show ?case using assms(1) by (auto simp: cadical_documented_def)
qed simp

lemma cadical_addClause_views:
  assumes "cadical_documented api clauses pending assumed" "wf_clause c" "pending s = []"
  shows "clauses (cadical_addClause api c s) = clauses s @ [c]"
    and "pending (cadical_addClause api c s) = []"
    and "assumed (cadical_addClause api c s) = assumed s"
proof -
  have z: "\<forall>s. clauses (c_add api 0 s) = clauses s @ [pending s] \<and>
      pending (c_add api 0 s) = [] \<and> assumed (c_add api 0 s) = assumed s"
    using assms(1) unfolding cadical_documented_def by blast
  show "clauses (cadical_addClause api c s) = clauses s @ [c]"
    and "pending (cadical_addClause api c s) = []"
    and "assumed (cadical_addClause api c s) = assumed s"
    using z cadical_add_literals [OF assms(1,2), of s] assms(3)
    by (simp_all add: cadical_addClause_def)
qed

lemma cadical_assume_views:
  assumes "cadical_documented api clauses pending assumed"
  shows "clauses (cadical_assume api as s) = clauses s \<and>
    pending (cadical_assume api as s) = pending s \<and>
    assumed (cadical_assume api as s) = assumed s @ as"
proof -
  have a: "\<forall>s l. clauses (c_assume api l s) = clauses s \<and> pending (c_assume api l s) = pending s \<and>
      assumed (c_assume api l s) = assumed s @ [l]"
    using assms unfolding cadical_documented_def by blast
  show ?thesis
    by (induction as arbitrary: s) (simp_all add: cadical_assume_def a)
qed

lemma cadical_sat_interface:
  assumes doc: "cadical_documented api clauses pending assumed"
  shows "sat_interface (cadical_addClause api) (cadical_assume api) (c_solve api)
           (cadical_getValues api) (cadical_getFailed api) clauses assumed
           (\<lambda>s. pending s = []) (\<lambda>s. {0<..})"
proof
  fix s c assume "pending s = []" "wf_clause c"
  then show "pending (cadical_addClause api c s) = []"
    and "clauses (cadical_addClause api c s) = clauses s @ [c]"
    and "assumed (cadical_addClause api c s) = assumed s"
    using cadical_addClause_views [OF doc] by blast+
next
  fix s as assume "pending s = []"
  then show "pending (cadical_assume api as s) = []"
    and "clauses (cadical_assume api as s) = clauses s"
    and "set (assumed (cadical_assume api as s)) = set (assumed s) \<union> set as"
    using cadical_assume_views [OF doc, of as s] by auto
next
  fix s s' assume "c_solve api s = (10, s')"
  then obtain \<alpha> where \<alpha>: "satisfies \<alpha> (clauses s) (assumed s)"
    "\<forall>v>0. c_val api v s' = (if \<alpha> v then v else - v)"
    using doc unfolding cadical_documented_def by blast
  then have "cadical_getValues api vs s' = map (\<lambda>v. if \<alpha> v then v else - v) vs"
    if "set vs \<subseteq> {0<..}" for vs
    using that by (induction vs) (auto simp: cadical_getValues_def cadical_val_def)
  with \<alpha>(1) show "\<exists>\<alpha>. satisfies \<alpha> (clauses s) (assumed s) \<and>
      (\<forall>vs. set vs \<subseteq> {0<..} \<longrightarrow> cadical_getValues api vs s' = map (\<lambda>v. if \<alpha> v then v else - v) vs)"
    by blast
next
  fix s s' assume "c_solve api s = (20, s')"
  then obtain core where "set core \<subseteq> set (assumed s)" "\<forall>\<alpha>. \<not> satisfies \<alpha> (clauses s) core"
    "\<forall>l. c_failed api l s' = (l \<in> set core)"
    using doc unfolding cadical_documented_def by blast
  then show "\<exists>core. set core \<subseteq> set (assumed s) \<and> (\<forall>\<alpha>. \<not> satisfies \<alpha> (clauses s) core) \<and>
      (\<forall>as. set (cadical_getFailed api as s') = set as \<inter> set core)"
    by (intro exI [of _ core]) (auto simp: cadical_getFailed_def)
next
  fix s r s' assume "pending s = []" "c_solve api s = (r, s')"
  then show "pending s' = [] \<and> clauses s' = clauses s \<and> assumed s' = []"
    using doc unfolding cadical_documented_def by auto
qed

end
