(* ===== verification/GlucoseAdapter.thy ===== *)
theory GlucoseAdapter
  imports SatSolver "HOL-Library.While_Combinator"
begin

text \<open>
  The Glucose adapter (\<open>glucose/glucose.cc\<close>, \<open>glucose/glucose-ipasir.h\<close>): literal
  conversion, growth of the variable table, buffered assumptions, and the reading of models
  and conflicts. The vendored Glucose core is a parameter, its documented behaviour the
  hypothesis \<open>glucose_documented\<close>. The file ends with the exhaustive-search back ends and
  the interpretations of \<open>sat_interface\<close> on both adapters.
\<close>

section \<open>The adapter\<close>

datatype lbool = l_True | l_False | l_Undef

record 'g glucose =
  g_nVars :: "'g \<Rightarrow> int"
  g_newVar :: "'g \<Rightarrow> 'g"
  g_addClause :: "int list \<Rightarrow> 'g \<Rightarrow> 'g"
  g_solve :: "int list \<Rightarrow> 'g \<Rightarrow> bool \<times> 'g"
  g_setConfBudget :: "int \<Rightarrow> 'g \<Rightarrow> 'g"
  g_solveLimited :: "int list \<Rightarrow> 'g \<Rightarrow> lbool \<times> 'g"
  g_model :: "'g \<Rightarrow> lbool list"
  g_conflict :: "'g \<Rightarrow> int list"

record 'g glucose_solver =
  g_core :: 'g
  g_assumptions :: "int list"
  g_max_var :: int

text \<open>\<open>Glucose::mkLit\<close>, \<open>Glucose::var\<close> and \<open>Glucose::sign\<close>.\<close>

definition mkLit :: "int \<Rightarrow> bool \<Rightarrow> int" where
  "mkLit v sign = v + v + of_bool sign"

definition glit_var :: "int \<Rightarrow> int" where
  "glit_var p = p div 2"

definition glit_sign :: "int \<Rightarrow> bool" where
  "glit_sign p = odd p"

definition MakeGlucoseLiteral :: "int \<Rightarrow> int" where
  "MakeGlucoseLiteral literal = mkLit \<bar>literal\<bar> (literal < 0)"

definition MakeGlucoseVariable :: "int \<Rightarrow> int" where
  "MakeGlucoseVariable variable = mkLit variable False"

definition new_glucose_solver :: "'g \<Rightarrow> 'g glucose_solver" where
  "new_glucose_solver core = \<lparr>g_core = core, g_assumptions = [], g_max_var = - 1\<rparr>"

definition raise_max :: "int list \<Rightarrow> int \<Rightarrow> int" where
  "raise_max ls m = fold (\<lambda>l m. if m < \<bar>l\<bar> then \<bar>l\<bar> else m) ls m"

definition grow_vars :: "'g glucose \<Rightarrow> int \<Rightarrow> 'g \<Rightarrow> 'g" where
  "grow_vars api m s = while (\<lambda>s. g_nVars api s \<le> m) (g_newVar api) s"

definition glucose_addClause ::
  "'g glucose \<Rightarrow> clause \<Rightarrow> 'g glucose_solver \<Rightarrow> 'g glucose_solver" where
  "glucose_addClause api clause s =
     (let m = raise_max clause (g_max_var s);
          core = grow_vars api m (g_core s)
      in s\<lparr>g_core := g_addClause api (map MakeGlucoseLiteral clause) core, g_max_var := m\<rparr>)"

definition glucose_appendFormula ::
  "'g glucose \<Rightarrow> cnf \<Rightarrow> 'g glucose_solver \<Rightarrow> 'g glucose_solver" where
  "glucose_appendFormula api F s = fold (glucose_addClause api) F s"

definition glucose_assume :: "int list \<Rightarrow> 'g glucose_solver \<Rightarrow> 'g glucose_solver" where
  "glucose_assume assms s = s\<lparr>g_assumptions := g_assumptions s @ assms\<rparr>"

definition glucose_solve_under ::
  "'g glucose \<Rightarrow> int list \<Rightarrow> 'g glucose_solver \<Rightarrow> int \<times> 'g glucose_solver" where
  "glucose_solve_under api assms s =
     (let all = assms @ g_assumptions s;
          m = raise_max all (g_max_var s);
          core = grow_vars api m (g_core s);
          (sat, core') = g_solve api (map MakeGlucoseLiteral all) core
      in (if sat then 10 else 20,
          s\<lparr>g_core := core', g_assumptions := [], g_max_var := m\<rparr>))"

definition glucose_solve :: "'g glucose \<Rightarrow> 'g glucose_solver \<Rightarrow> int \<times> 'g glucose_solver" where
  "glucose_solve api s =
     (let m = raise_max (g_assumptions s) (g_max_var s);
          core = grow_vars api m (g_core s);
          (sat, core') = g_solve api (map MakeGlucoseLiteral (g_assumptions s)) core
      in (if sat then 10 else 20,
          s\<lparr>g_core := core', g_assumptions := [], g_max_var := m\<rparr>))"

definition glucose_solve_limited ::
  "'g glucose \<Rightarrow> int \<Rightarrow> 'g glucose_solver \<Rightarrow> int \<times> 'g glucose_solver" where
  "glucose_solve_limited api conflict_limit s =
     (let m = raise_max (g_assumptions s) (g_max_var s);
          core = g_setConfBudget api conflict_limit (grow_vars api m (g_core s));
          (sat, core') = g_solveLimited api (map MakeGlucoseLiteral (g_assumptions s)) core
      in (case sat of l_True \<Rightarrow> 10 | l_False \<Rightarrow> 20 | l_Undef \<Rightarrow> 0,
          s\<lparr>g_core := core', g_assumptions := [], g_max_var := m\<rparr>))"

definition glucose_getModel :: "'g glucose \<Rightarrow> 'g glucose_solver \<Rightarrow> int list" where
  "glucose_getModel api s =
     (let model = g_model api (g_core s)
      in map (\<lambda>v. v * (if model ! nat v = l_True then 1 else - 1)) [1..int (length model) - 1])"

text \<open>Reading a model vector: \<open>None\<close> is a read past its end, undefined behaviour in C++.\<close>

definition model_at :: "lbool list \<Rightarrow> int \<Rightarrow> lbool option" where
  "model_at model v = (if 0 \<le> v \<and> v < int (length model) then Some (model ! nat v) else None)"

definition glucose_val :: "'g glucose \<Rightarrow> int \<Rightarrow> 'g glucose_solver \<Rightarrow> int option" where
  "glucose_val api v s =
     map_option (\<lambda>b. v * (if b = l_True then 1 else - 1)) (model_at (g_model api (g_core s)) v)"

definition glucose_getFailed ::
  "'g glucose \<Rightarrow> int list \<Rightarrow> 'g glucose_solver \<Rightarrow> int list" where
  "glucose_getFailed api assumptions s =
     (let assumptions_copy = sort assumptions
      in filter (binary_search assumptions_copy)
           (map (\<lambda>p. glit_var p * (if glit_sign p then 1 else - 1)) (g_conflict api (g_core s))))"

text \<open>The guard skips a variable above \<open>nVars\<close>, not one equal to it.\<close>

fun glucose_getValues ::
  "'g glucose \<Rightarrow> int list \<Rightarrow> 'g glucose_solver \<Rightarrow> int list option" where
  "glucose_getValues api [] s = Some []"
| "glucose_getValues api (v # vs) s =
     (if g_nVars api (g_core s) < v then glucose_getValues api vs s
      else (case model_at (g_model api (g_core s)) (glit_var (MakeGlucoseVariable v)) of
              None \<Rightarrow> None
            | Some value \<Rightarrow>
                map_option
                  (\<lambda>rest. case value of l_True \<Rightarrow> v # rest | l_False \<Rightarrow> - v # rest | l_Undef \<Rightarrow> rest)
                  (glucose_getValues api vs s)))"

section \<open>Literals and growth\<close>

definition unGlucose :: "int \<Rightarrow> int" where
  "unGlucose p = (if glit_sign p then - glit_var p else glit_var p)"

lemma MakeGlucoseLiteral_var [simp]: "glit_var (MakeGlucoseLiteral l) = \<bar>l\<bar>"
  by (simp add: glit_var_def MakeGlucoseLiteral_def mkLit_def)

lemma MakeGlucoseLiteral_sign [simp]: "glit_sign (MakeGlucoseLiteral l) \<longleftrightarrow> l < 0"
  by (simp add: glit_sign_def MakeGlucoseLiteral_def mkLit_def)

lemma unGlucose_MakeGlucoseLiteral [simp]: "unGlucose (MakeGlucoseLiteral l) = l"
  by (simp add: unGlucose_def)

lemma glit_var_MakeGlucoseVariable [simp]: "glit_var (MakeGlucoseVariable v) = v"
  by (simp add: glit_var_def MakeGlucoseVariable_def mkLit_def)

lemma raise_max_ge: "m \<le> raise_max ls m"
  unfolding raise_max_def by (induction ls arbitrary: m) (auto intro: order_trans less_imp_le)

lemma raise_max_mem: "l \<in> set ls \<Longrightarrow> \<bar>l\<bar> \<le> raise_max ls m"
proof (induction ls arbitrary: m)
  case (Cons k ls)
  have "raise_max (k # ls) m = raise_max ls (if m < \<bar>k\<bar> then \<bar>k\<bar> else m)"
    by (simp add: raise_max_def)
  with Cons show ?case
    using raise_max_ge [of "if m < \<bar>k\<bar> then \<bar>k\<bar> else m" ls] by (auto split: if_splits)
qed simp

definition glucose_documented :: "'g glucose \<Rightarrow> ('g \<Rightarrow> cnf) \<Rightarrow> bool" where
  "glucose_documented api clauses \<longleftrightarrow>
     (\<forall>s. g_nVars api (g_newVar api s) = g_nVars api s + 1 \<and>
          clauses (g_newVar api s) = clauses s) \<and>
     (\<forall>s ps. (\<forall>p\<in>set ps. glit_var p < g_nVars api s) \<longrightarrow>
          clauses (g_addClause api ps s) = clauses s @ [map unGlucose ps]) \<and>
     (\<forall>s ps r s'. (\<forall>p\<in>set ps. glit_var p < g_nVars api s) \<longrightarrow> g_solve api ps s = (r, s') \<longrightarrow>
          clauses s' = clauses s \<and>
          (r \<longrightarrow> int (length (g_model api s')) = g_nVars api s' \<and>
             (\<exists>\<alpha>. satisfies \<alpha> (clauses s) (map unGlucose ps) \<and>
                  (\<forall>v. 0 \<le> v \<longrightarrow> v < g_nVars api s' \<longrightarrow>
                     g_model api s' ! nat v = (if \<alpha> v then l_True else l_False)))) \<and>
          (\<not> r \<longrightarrow>
             (let core = map (\<lambda>p. - unGlucose p) (g_conflict api s')
              in set core \<subseteq> set (map unGlucose ps) \<and> (\<forall>\<alpha>. \<not> satisfies \<alpha> (clauses s) core))))"

lemma glucose_documentedD:
  assumes "glucose_documented api clauses"
  shows "g_nVars api (g_newVar api s) = g_nVars api s + 1"
    and "clauses (g_newVar api s) = clauses s"
    and "(\<And>p. p \<in> set ps \<Longrightarrow> glit_var p < g_nVars api s) \<Longrightarrow>
          clauses (g_addClause api ps s) = clauses s @ [map unGlucose ps]"
  using assms unfolding glucose_documented_def by blast+

lemma glucose_documented_solve:
  assumes "glucose_documented api clauses" "\<forall>p\<in>set ps. glit_var p < g_nVars api s"
    and "g_solve api ps s = (r, s')"
  shows "clauses s' = clauses s"
    and "r \<Longrightarrow> int (length (g_model api s')) = g_nVars api s'"
    and "r \<Longrightarrow> \<exists>\<alpha>. satisfies \<alpha> (clauses s) (map unGlucose ps) \<and>
           (\<forall>v. 0 \<le> v \<longrightarrow> v < g_nVars api s' \<longrightarrow>
              g_model api s' ! nat v = (if \<alpha> v then l_True else l_False))"
    and "\<not> r \<Longrightarrow> set (map (\<lambda>p. - unGlucose p) (g_conflict api s')) \<subseteq> set (map unGlucose ps)"
    and "\<not> r \<Longrightarrow> \<not> satisfies \<alpha> (clauses s) (map (\<lambda>p. - unGlucose p) (g_conflict api s'))"
proof -
  note third = assms(1) [unfolded glucose_documented_def, THEN conjunct2, THEN conjunct2,
      rule_format, OF assms(2) [rule_format] assms(3)]
  show "clauses s' = clauses s"
    using third by blast
  show "int (length (g_model api s')) = g_nVars api s'"
    and "\<exists>\<alpha>. satisfies \<alpha> (clauses s) (map unGlucose ps) \<and>
           (\<forall>v. 0 \<le> v \<longrightarrow> v < g_nVars api s' \<longrightarrow>
              g_model api s' ! nat v = (if \<alpha> v then l_True else l_False))" if r
    using third that by blast+
  show "set (map (\<lambda>p. - unGlucose p) (g_conflict api s')) \<subseteq> set (map unGlucose ps)"
    and "\<not> satisfies \<alpha> (clauses s) (map (\<lambda>p. - unGlucose p) (g_conflict api s'))" if "\<not> r"
    using third that unfolding Let_def by blast+
qed

lemma grow_vars_spec:
  assumes "glucose_documented api clauses"
  shows "clauses (grow_vars api m s) = clauses s \<and> m < g_nVars api (grow_vars api m s)"
  unfolding grow_vars_def
proof (rule while_rule [where P = "\<lambda>t. clauses t = clauses s"
      and r = "measure (\<lambda>t. nat (m + 1 - g_nVars api t))"])
  fix t assume "clauses t = clauses s" "g_nVars api t \<le> m"
  then show "clauses (g_newVar api t) = clauses s"
    and "(g_newVar api t, t) \<in> measure (\<lambda>t. nat (m + 1 - g_nVars api t))"
    by (simp_all add: glucose_documentedD [OF assms])
qed auto

lemma grown_literals:
  assumes "glucose_documented api clauses" "p \<in> set (map MakeGlucoseLiteral ls)"
  shows "glit_var p < g_nVars api (grow_vars api (raise_max ls m) s)"
  using assms(2) grow_vars_spec [OF assms(1), of "raise_max ls m" s] raise_max_mem [of _ ls m]
  by fastforce

lemma glucose_addClause_clauses:
  assumes "glucose_documented api clauses"
  shows "clauses (g_core (glucose_addClause api c s)) = clauses (g_core s) @ [c]"
proof -
  let ?core = "grow_vars api (raise_max c (g_max_var s)) (g_core s)"
  have "clauses (g_addClause api (map MakeGlucoseLiteral c) ?core) =
      clauses ?core @ [map unGlucose (map MakeGlucoseLiteral c)]"
    by (rule glucose_documentedD(3) [OF assms]) (rule grown_literals [OF assms])
  then show ?thesis
    using grow_vars_spec [OF assms]
    by (simp add: glucose_addClause_def Let_def comp_def)
qed

lemma glucose_getValues_known:
  assumes "int (length (g_model api (g_core s))) = g_nVars api (g_core s)"
    and "\<And>v. 0 \<le> v \<Longrightarrow> v < g_nVars api (g_core s) \<Longrightarrow>
           g_model api (g_core s) ! nat v = (if \<alpha> v then l_True else l_False)"
    and "\<forall>v\<in>set vs. 0 < v \<and> v < g_nVars api (g_core s)"
  shows "glucose_getValues api vs s = Some (map (\<lambda>v. if \<alpha> v then v else - v) vs)"
  using assms(3)
proof (induction vs)
  case (Cons v vs)
  then have "model_at (g_model api (g_core s)) v = Some (if \<alpha> v then l_True else l_False)"
    using assms(1) assms(2) [of v] by (simp add: model_at_def)
  with Cons show ?case by auto
qed simp

lemma glucose_getFailed_set:
  "set (glucose_getFailed api as s) =
     set as \<inter> set (map (\<lambda>p. - unGlucose p) (g_conflict api (g_core s)))"
proof -
  have "glit_var p * (if glit_sign p then 1 else - 1) = - unGlucose p" for p
    by (simp add: unGlucose_def)
  then show ?thesis by (auto simp: glucose_getFailed_def Let_def binary_search_iff)
qed

lemma glucose_solve_core:
  assumes doc: "glucose_documented api clauses" and solve: "glucose_solve api s = (r, s')"
  defines "core \<equiv> grow_vars api (raise_max (g_assumptions s) (g_max_var s)) (g_core s)"
  obtains b where "g_solve api (map MakeGlucoseLiteral (g_assumptions s)) core = (b, g_core s')"
    "r = (if b then 10 else 20)" "clauses core = clauses (g_core s)"
    "clauses (g_core s') = clauses core" "g_assumptions s' = []"
    "\<forall>p\<in>set (map MakeGlucoseLiteral (g_assumptions s)). glit_var p < g_nVars api core"
proof -
  obtain b core' where gs: "g_solve api (map MakeGlucoseLiteral (g_assumptions s)) core = (b, core')"
    by fastforce
  then have s': "r = (if b then 10 else 20)" "g_core s' = core'" "g_assumptions s' = []"
    using solve by (auto simp: glucose_solve_def core_def Let_def split: prod.splits)
  have vars: "\<forall>p\<in>set (map MakeGlucoseLiteral (g_assumptions s)). glit_var p < g_nVars api core"
    unfolding core_def by (intro ballI grown_literals [OF doc])
  then have "clauses core' = clauses core"
    using doc gs unfolding glucose_documented_def by blast
  then show ?thesis
    using that gs s' vars grow_vars_spec [OF doc] by (auto simp: core_def)
qed

lemma glucose_sat_interface:
  assumes doc: "glucose_documented api clauses"
  shows "sat_interface (glucose_addClause api) glucose_assume (glucose_solve api)
           (\<lambda>vs s. the (glucose_getValues api vs s)) (glucose_getFailed api)
           (clauses \<circ> g_core) g_assumptions (\<lambda>s. True)
           (\<lambda>s. {v. 0 < v \<and> v < g_nVars api (g_core s)})"
proof
  fix s c
  show "(clauses \<circ> g_core) (glucose_addClause api c s) = (clauses \<circ> g_core) s @ [c]"
    by (simp add: glucose_addClause_clauses [OF doc])
next
  fix s s' assume "glucose_solve api s = (10, s')"
  then obtain b where run: "g_solve api (map MakeGlucoseLiteral (g_assumptions s))
        (grow_vars api (raise_max (g_assumptions s) (g_max_var s)) (g_core s)) = (b, g_core s')"
    and b: "b" and same: "clauses (grow_vars api (raise_max (g_assumptions s) (g_max_var s)) (g_core s)) = clauses (g_core s)"
    and vars: "\<forall>p\<in>set (map MakeGlucoseLiteral (g_assumptions s)). glit_var p <
        g_nVars api (grow_vars api (raise_max (g_assumptions s) (g_max_var s)) (g_core s))"
    by (rule glucose_solve_core [OF doc]) (simp split: if_splits)
  obtain \<alpha> where \<alpha>: "satisfies \<alpha> (clauses (g_core s)) (g_assumptions s)"
    and len: "int (length (g_model api (g_core s'))) = g_nVars api (g_core s')"
    and model: "\<And>v. 0 \<le> v \<Longrightarrow> v < g_nVars api (g_core s') \<Longrightarrow>
      g_model api (g_core s') ! nat v = (if \<alpha> v then l_True else l_False)"
    using glucose_documented_solve(2,3) [OF doc vars run b] by (auto simp: same comp_def)
  have "the (glucose_getValues api vs s') = map (\<lambda>v. if \<alpha> v then v else - v) vs"
    if "set vs \<subseteq> {v. 0 < v \<and> v < g_nVars api (g_core s')}" for vs
    using glucose_getValues_known [OF len model, of vs] that by (simp add: subset_iff)
  with \<alpha> show "\<exists>\<alpha>. satisfies \<alpha> ((clauses \<circ> g_core) s) (g_assumptions s) \<and>
      (\<forall>vs. set vs \<subseteq> {v. 0 < v \<and> v < g_nVars api (g_core s')} \<longrightarrow>
        the (glucose_getValues api vs s') = map (\<lambda>v. if \<alpha> v then v else - v) vs)"
    by auto
next
  fix s s' assume "glucose_solve api s = (20, s')"
  then obtain b where run: "g_solve api (map MakeGlucoseLiteral (g_assumptions s))
        (grow_vars api (raise_max (g_assumptions s) (g_max_var s)) (g_core s)) = (b, g_core s')"
    and b: "\<not> b" and same: "clauses (grow_vars api (raise_max (g_assumptions s) (g_max_var s)) (g_core s)) = clauses (g_core s)"
    and vars: "\<forall>p\<in>set (map MakeGlucoseLiteral (g_assumptions s)). glit_var p <
        g_nVars api (grow_vars api (raise_max (g_assumptions s) (g_max_var s)) (g_core s))"
    by (rule glucose_solve_core [OF doc]) (simp split: if_splits)
  define core where "core = map (\<lambda>p. - unGlucose p) (g_conflict api (g_core s'))"
  have "set core \<subseteq> set (g_assumptions s)" "\<forall>\<alpha>. \<not> satisfies \<alpha> (clauses (g_core s)) core"
    using glucose_documented_solve(4,5) [OF doc vars run b] by (auto simp: same core_def comp_def)
  then show "\<exists>core. set core \<subseteq> set (g_assumptions s) \<and>
      (\<forall>\<alpha>. \<not> satisfies \<alpha> ((clauses \<circ> g_core) s) core) \<and>
      (\<forall>as. set (glucose_getFailed api as s') = set as \<inter> set core)"
    by (intro exI [of _ core]) (simp add: core_def glucose_getFailed_set)
next
  fix s r s' assume "glucose_solve api s = (r, s')"
  then show "True \<and> (clauses \<circ> g_core) s' = (clauses \<circ> g_core) s \<and> g_assumptions s' = []"
    by (rule glucose_solve_core [OF doc]) simp
qed (auto simp: glucose_assume_def glucose_addClause_def Let_def)

section \<open>Exhaustive-search back ends and the interpretations\<close>

record search_state =
  ss_clauses :: cnf
  ss_pending :: clause
  ss_assumed :: "int list"
  ss_answer :: answer
  ss_nvars :: int

definition search_cadical :: "search_state cadical" where
  "search_cadical =
     \<lparr>c_add = (\<lambda>l s. if l = 0 then s\<lparr>ss_clauses := ss_clauses s @ [ss_pending s], ss_pending := []\<rparr>
                    else s\<lparr>ss_pending := ss_pending s @ [l]\<rparr>),
      c_assume = (\<lambda>l s. s\<lparr>ss_assumed := ss_assumed s @ [l]\<rparr>),
      c_reset_assumptions = (\<lambda>s. s\<lparr>ss_assumed := []\<rparr>),
      c_limit = (\<lambda>_ s. s),
      c_solve = (\<lambda>s. let a = search_oracle 0 (ss_clauses s) (ss_assumed s)
                     in (answer_code a, s\<lparr>ss_assumed := [], ss_answer := a\<rparr>)),
      c_failed = (\<lambda>l s. case ss_answer s of Unsat core \<Rightarrow> l \<in> set core | _ \<Rightarrow> False),
      c_val = (\<lambda>v s. case ss_answer s of Sat \<alpha> \<Rightarrow> (if \<alpha> v then v else - v) | _ \<Rightarrow> v),
      c_vars = ss_nvars\<rparr>"

definition search_init :: search_state where
  "search_init = \<lparr>ss_clauses = [], ss_pending = [], ss_assumed = [], ss_answer = Unknown, ss_nvars = 0\<rparr>"

lemma search_oracle_cases:
  obtains \<alpha> where "search_oracle n F as = Sat \<alpha>" "satisfies \<alpha> F as"
  | "search_oracle n F as = Unsat as" "\<And>\<alpha>. \<not> satisfies \<alpha> F as"
proof (cases "search_assignment F as")
  case None
  moreover have "\<not> satisfies \<alpha> F as" for \<alpha>
    by (metis None search_complete)
  ultimately show ?thesis using that(2) by (simp add: search_oracle_def)
next
  case (Some xs)
  then have "satisfies (\<lambda>v. v \<in> set xs) F as"
    by (auto simp: search_assignment_def find_Some_iff)
  with Some show ?thesis using that(1) by (simp add: search_oracle_def)
qed

lemma search_solve_sat:
  assumes "search_oracle n F as = Sat \<alpha>" shows "satisfies \<alpha> F as"
  using search_oracle_cases [of n F as] assms by (metis answer.distinct(1) answer.inject(1))

lemma search_solve_unsat:
  assumes "search_oracle n F as = Unsat core" shows "core = as \<and> \<not> satisfies \<alpha> F as"
  using search_oracle_cases [of n F as] assms by (metis answer.distinct(1) answer.inject(2))

lemma search_cadical_solve:
  "c_solve search_cadical s =
     (answer_code (search_oracle 0 (ss_clauses s) (ss_assumed s)),
      s\<lparr>ss_assumed := [], ss_answer := search_oracle 0 (ss_clauses s) (ss_assumed s)\<rparr>)"
  by (simp add: search_cadical_def Let_def)

lemma search_cadical_sat:
  assumes "c_solve search_cadical s = (10, s')"
  shows "\<exists>\<alpha>. satisfies \<alpha> (ss_clauses s) (ss_assumed s) \<and>
      (\<forall>v>0. c_val search_cadical v s' = (if \<alpha> v then v else - v))"
proof (cases "search_oracle 0 (ss_clauses s) (ss_assumed s)")
  case (Sat \<alpha>)
  then have "ss_answer s' = Sat \<alpha>" using assms by (auto simp: search_cadical_solve)
  with search_solve_sat [OF Sat] show ?thesis
    by (intro exI [of _ \<alpha>]) (simp add: search_cadical_def)
qed (use assms in \<open>simp_all add: search_cadical_solve answer_code_def\<close>)

lemma search_cadical_unsat:
  assumes "c_solve search_cadical s = (20, s')"
  shows "\<exists>core. set core \<subseteq> set (ss_assumed s) \<and>
      (\<forall>\<alpha>. \<not> satisfies \<alpha> (ss_clauses s) core) \<and> (\<forall>l. c_failed search_cadical l s' = (l \<in> set core))"
proof (cases "search_oracle 0 (ss_clauses s) (ss_assumed s)")
  case (Unsat core)
  then have "ss_answer s' = Unsat core" using assms by (auto simp: search_cadical_solve)
  moreover have "core = ss_assumed s" "\<And>\<alpha>. \<not> satisfies \<alpha> (ss_clauses s) (ss_assumed s)"
    using search_solve_unsat [OF Unsat] by blast+
  ultimately show ?thesis
    by (intro exI [of _ core]) (simp add: search_cadical_def)
qed (use assms in \<open>simp_all add: search_cadical_solve answer_code_def\<close>)

lemma search_cadical_documented:
  "cadical_documented search_cadical ss_clauses ss_pending ss_assumed"
  unfolding cadical_documented_def
proof (intro conjI)
  show "\<forall>s s'. c_solve search_cadical s = (10, s') \<longrightarrow>
      (\<exists>\<alpha>. satisfies \<alpha> (ss_clauses s) (ss_assumed s) \<and>
           (\<forall>v>0. c_val search_cadical v s' = (if \<alpha> v then v else - v)))"
    using search_cadical_sat by blast
  show "\<forall>s s'. c_solve search_cadical s = (20, s') \<longrightarrow>
      (\<exists>core. set core \<subseteq> set (ss_assumed s) \<and> (\<forall>\<alpha>. \<not> satisfies \<alpha> (ss_clauses s) core) \<and>
           (\<forall>l. c_failed search_cadical l s' = (l \<in> set core)))"
    using search_cadical_unsat by blast
  show "\<forall>s r s'. c_solve search_cadical s = (r, s') \<longrightarrow>
      ss_clauses s' = ss_clauses s \<and> ss_pending s' = ss_pending s \<and> ss_assumed s' = []"
    by (auto simp: search_cadical_solve)
qed (simp_all add: search_cadical_def)

interpretation cadical_solver: sat_interface "cadical_addClause search_cadical"
  "cadical_assume search_cadical" "c_solve search_cadical" "cadical_getValues search_cadical"
  "cadical_getFailed search_cadical" ss_clauses ss_assumed "\<lambda>s. ss_pending s = []" "\<lambda>s. {0<..}"
  by (rule cadical_sat_interface [OF search_cadical_documented])

definition search_model :: "assignment \<Rightarrow> int \<Rightarrow> lbool list" where
  "search_model \<alpha> n = map (\<lambda>v. if \<alpha> v then l_True else l_False) [0..n - 1]"

definition search_glucose :: "search_state glucose" where
  "search_glucose =
     \<lparr>g_nVars = ss_nvars,
      g_newVar = (\<lambda>s. s\<lparr>ss_nvars := ss_nvars s + 1\<rparr>),
      g_addClause = (\<lambda>ps s. s\<lparr>ss_clauses := ss_clauses s @ [map unGlucose ps]\<rparr>),
      g_solve = (\<lambda>ps s. let a = search_oracle 0 (ss_clauses s) (map unGlucose ps)
                       in (answer_code a = 10, s\<lparr>ss_assumed := map unGlucose ps, ss_answer := a,
                              ss_nvars := max 0 (ss_nvars s)\<rparr>)),
      g_setConfBudget = (\<lambda>_ s. s),
      g_solveLimited = (\<lambda>ps s. (l_Undef, s)),
      g_model = (\<lambda>s. case ss_answer s of Sat \<alpha> \<Rightarrow> search_model \<alpha> (ss_nvars s) | _ \<Rightarrow> []),
      g_conflict = (\<lambda>s. map (\<lambda>l. MakeGlucoseLiteral (- l)) (ss_assumed s))\<rparr>"

lemma search_glucose_solve_eq:
  "g_solve search_glucose ps t =
     (let a = search_oracle 0 (ss_clauses t) (map unGlucose ps)
      in (answer_code a = 10, t\<lparr>ss_assumed := map unGlucose ps, ss_answer := a,
                              ss_nvars := max 0 (ss_nvars t)\<rparr>))"
  by (simp add: search_glucose_def)

lemma search_glucose_solve:
  assumes "g_solve search_glucose ps s = (r, s')"
  shows "ss_clauses s' = ss_clauses s \<and>
      (r \<longrightarrow> int (length (g_model search_glucose s')) = g_nVars search_glucose s' \<and>
         (\<exists>\<alpha>. satisfies \<alpha> (ss_clauses s) (map unGlucose ps) \<and>
              (\<forall>v. 0 \<le> v \<longrightarrow> v < g_nVars search_glucose s' \<longrightarrow>
                 g_model search_glucose s' ! nat v = (if \<alpha> v then l_True else l_False)))) \<and>
      (\<not> r \<longrightarrow>
         (let core = map (\<lambda>p. - unGlucose p) (g_conflict search_glucose s')
          in set core \<subseteq> set (map unGlucose ps) \<and> (\<forall>\<alpha>. \<not> satisfies \<alpha> (ss_clauses s) core)))"
proof -
  define a where "a = search_oracle 0 (ss_clauses s) (map unGlucose ps)"
  have r: "r = (answer_code a = 10)"
    and s': "s' = s\<lparr>ss_assumed := map unGlucose ps, ss_answer := a, ss_nvars := max 0 (ss_nvars s)\<rparr>"
    using assms by (auto simp: search_glucose_def a_def Let_def)
  have neg: "- (- x) = (x::int)" for x by simp
  show ?thesis
  proof (cases a)
    case (Sat \<alpha>)
    then have "satisfies \<alpha> (ss_clauses s) (map unGlucose ps)"
      using search_solve_sat unfolding a_def by blast
    then show ?thesis
      unfolding r s' Sat
      by (auto simp: answer_code_def search_glucose_def search_model_def nth_upto max_def)
  next
    case (Unsat core)
    then have "\<And>\<alpha>. \<not> satisfies \<alpha> (ss_clauses s) (map unGlucose ps)"
      using search_solve_unsat unfolding a_def by blast
    then show ?thesis
      unfolding r s' Unsat
      by (simp add: answer_code_def search_glucose_def comp_def)
  next
    case Unknown
    then show ?thesis
      using search_oracle_cases [of 0 "ss_clauses s" "map unGlucose ps"] unfolding a_def
      by (metis answer.distinct(3) answer.distinct(5))
  qed
qed

lemma search_glucose_documented: "glucose_documented search_glucose ss_clauses"
  unfolding glucose_documented_def
proof (intro conjI)
  show "\<forall>s ps r s'. (\<forall>p\<in>set ps. glit_var p < g_nVars search_glucose s) \<longrightarrow>
      g_solve search_glucose ps s = (r, s') \<longrightarrow>
      ss_clauses s' = ss_clauses s \<and>
      (r \<longrightarrow> int (length (g_model search_glucose s')) = g_nVars search_glucose s' \<and>
         (\<exists>\<alpha>. satisfies \<alpha> (ss_clauses s) (map unGlucose ps) \<and>
              (\<forall>v. 0 \<le> v \<longrightarrow> v < g_nVars search_glucose s' \<longrightarrow>
                 g_model search_glucose s' ! nat v = (if \<alpha> v then l_True else l_False)))) \<and>
      (\<not> r \<longrightarrow>
         (let core = map (\<lambda>p. - unGlucose p) (g_conflict search_glucose s')
          in set core \<subseteq> set (map unGlucose ps) \<and> (\<forall>\<alpha>. \<not> satisfies \<alpha> (ss_clauses s) core)))"
    using search_glucose_solve by blast
qed (simp_all add: search_glucose_def)

interpretation glucose_adapter: sat_interface "glucose_addClause search_glucose" glucose_assume
  "glucose_solve search_glucose" "\<lambda>vs s. the (glucose_getValues search_glucose vs s)"
  "glucose_getFailed search_glucose" "ss_clauses \<circ> g_core" g_assumptions "\<lambda>s. True"
  "\<lambda>s. {v. 0 < v \<and> v < g_nVars search_glucose (g_core s)}"
  by (rule glucose_sat_interface [OF search_glucose_documented])

section \<open>The abstract solver meets the contract\<close>

lemma sat_solver_interface:
  assumes "oracle_sound orc"
  shows "sat_interface sat_addClause sat_assume (sat_solve orc) sat_getValues (\<lambda>as s. the (sat_getFailed as s))
           sat_clauses sat_assumed (\<lambda>s. True) (\<lambda>s. UNIV)"
proof
  fix s s' assume run: "sat_solve orc s = (10, s')"
  have "answer_sound (sat_clauses s) (sat_assumed s) (orc (sat_calls s) (sat_clauses s) (sat_assumed s))"
    using assms by (simp add: oracle_sound_def)
  with run show "\<exists>\<alpha>. satisfies \<alpha> (sat_clauses s) (sat_assumed s) \<and>
      (\<forall>vs. set vs \<subseteq> UNIV \<longrightarrow> sat_getValues vs s' = map (\<lambda>v. if \<alpha> v then v else - v) vs)"
    by (auto simp: sat_solve_def Let_def answer_code_def answer_sound_def sat_getValues_def sat_val_def
        split: answer.splits)
next
  fix s s' assume run: "sat_solve orc s = (20, s')"
  have "answer_sound (sat_clauses s) (sat_assumed s) (orc (sat_calls s) (sat_clauses s) (sat_assumed s))"
    using assms by (simp add: oracle_sound_def)
  with run obtain core where "set core \<subseteq> set (sat_assumed s)"
    "\<forall>\<alpha>. \<not> satisfies \<alpha> (sat_clauses s) core" "sat_answer s' = Unsat core"
    by (auto simp: sat_solve_def Let_def answer_code_def answer_sound_def split: answer.splits)
  then show "\<exists>core. set core \<subseteq> set (sat_assumed s) \<and> (\<forall>\<alpha>. \<not> satisfies \<alpha> (sat_clauses s) core) \<and>
      (\<forall>as. set (the (sat_getFailed as s')) = set as \<inter> set core)"
    by (intro exI [of _ core]) auto
next
  fix s r s' assume "sat_solve orc s = (r, s')"
  then show "True \<and> sat_clauses s' = sat_clauses s \<and> sat_assumed s' = []"
    by (auto simp: sat_solve_def Let_def)
qed auto

interpretation abstract_solver: sat_interface sat_addClause sat_assume "sat_solve search_oracle"
  sat_getValues "\<lambda>as s. the (sat_getFailed as s)" sat_clauses sat_assumed "\<lambda>s. True" "\<lambda>s. UNIV"
  by (rule sat_solver_interface [OF search_oracle_sound])

section \<open>Properties\<close>

text \<open>C24: over a Glucose core that behaves as documented, whose variable table starts in any
  state, a call of the adapter that answers UNSAT leaves failed assumptions, read back through the
  sorted copy and the binary search, that alone contradict the clauses; the clauses are the ones
  added and the buffered assumptions are consumed.\<close>

theorem glucose_failed_core:
  assumes "glucose_documented api clauses" "glucose_solve api s = (20, s')"
  shows "\<not> satisfies \<alpha> (clauses (g_core s)) (glucose_getFailed api (g_assumptions s) s') \<and>
         clauses (g_core s') = clauses (g_core s) \<and> g_assumptions s' = []"
proof
  note adapter = glucose_sat_interface [OF assms(1)]
  show "\<not> satisfies \<alpha> (clauses (g_core s)) (glucose_getFailed api (g_assumptions s) s')"
    using sat_interface.failed_unsat [OF adapter TrueI assms(2) order_refl] by simp
  show "clauses (g_core s') = clauses (g_core s) \<and> g_assumptions s' = []"
    using sat_interface.solve_keeps [OF adapter TrueI assms(2)] by simp
qed

definition demo_glucose :: "search_state glucose_solver" where
  "demo_glucose =
     glucose_assume [1, - 2] (glucose_addClause search_glucose [- 1, 2] (new_glucose_solver search_init))"

lemma glucose_failed_core_witness:
  "\<exists>s'. glucose_solve search_glucose demo_glucose = (20, s') \<and>
     (\<forall>\<alpha>. \<not> satisfies \<alpha> (ss_clauses (g_core demo_glucose))
       (glucose_getFailed search_glucose (g_assumptions demo_glucose) s'))"
proof -
  have grown: "ss_clauses (grow_vars search_glucose m t) = ss_clauses t" for m t
    using grow_vars_spec [OF search_glucose_documented] by blast
  have cls: "ss_clauses (g_core demo_glucose) = [[- 1, 2]]"
    by (simp add: demo_glucose_def glucose_assume_def new_glucose_solver_def search_init_def
        glucose_addClause_clauses [OF search_glucose_documented])
  have as: "g_assumptions demo_glucose = [1, - 2]"
    by (simp add: demo_glucose_def glucose_assume_def glucose_addClause_def new_glucose_solver_def
        Let_def)
  have answer: "fst (glucose_solve search_glucose demo_glucose) = 20"
    by (simp add: glucose_solve_def search_glucose_solve_eq grown cls as search_oracle_def
        search_assignment_def search_vars_def satisfies_def var_def answer_code_def Let_def comp_def)
  obtain s' where run: "glucose_solve search_glucose demo_glucose = (20, s')"
    using answer by (metis prod.collapse)
  show ?thesis
    using run glucose_failed_core [OF search_glucose_documented run] by blast
qed

end
