(* ===== verification/Dqdimacs.thy ===== *)
theory Dqdimacs
  imports Prelude "HOL-Library.AList"
begin

text \<open>
  The parsed formula, \<open>src/dqdimacs.h\<close> and \<open>src/dqdimacs.cc\<close>. The quantifier prefix
  is kept as two flat variable lists with a list of block boundaries each; which block comes
  first is one flag. The flag is not initialised by the constructors, so its first value is a
  parameter of \<open>new_DQDIMACS\<close>. An \<open>unordered_map\<close> that is iterated is an association
  list, whose order stands for the iteration order. The lemmas show that this layout represents
  the sequence of quantifier blocks with adjacent blocks of one kind merged.
\<close>

section \<open>State and operations\<close>

record dqdimacs =
  max_var :: int
  check_max_var :: bool
  matrix :: cnf
  first_block_type :: bool
  universal_variables :: "int list"
  universal_blocks :: "nat list"
  existential_variables :: "int list"
  existential_blocks :: "nat list"
  explicit_dependencies :: "(int \<times> int list) list"
  definitions :: "(int \<times> cnf \<times> circuit) list"

definition new_DQDIMACS :: "bool \<Rightarrow> dqdimacs" where
  "new_DQDIMACS uninitialised =
     \<lparr>max_var = 0, check_max_var = True, matrix = [], first_block_type = uninitialised,
      universal_variables = [], universal_blocks = [0], existential_variables = [],
      existential_blocks = [0], explicit_dependencies = [], definitions = []\<rparr>"

definition new_DQDIMACS_max :: "bool \<Rightarrow> int \<Rightarrow> dqdimacs" where
  "new_DQDIMACS_max uninitialised max_v =
     (new_DQDIMACS uninitialised)\<lparr>max_var := max_v, check_max_var := False\<rparr>"

definition addClause :: "clause \<Rightarrow> dqdimacs \<Rightarrow> dqdimacs" where
  "addClause clause d = d\<lparr>matrix := matrix d @ [clause]\<rparr>"

definition lastBlockType :: "dqdimacs \<Rightarrow> bool" where
  "lastBlockType d =
     (if length (existential_blocks d) = length (universal_blocks d)
      then \<not> first_block_type d else first_block_type d)"

definition getNofUniversalBlocks :: "dqdimacs \<Rightarrow> nat" where
  "getNofUniversalBlocks d = length (universal_blocks d) - 1"

definition getNofExistentialBlocks :: "dqdimacs \<Rightarrow> nat" where
  "getNofExistentialBlocks d = length (existential_blocks d) - 1"

definition raise_max_var :: "int list \<Rightarrow> dqdimacs \<Rightarrow> dqdimacs" where
  "raise_max_var variables d =
     (if check_max_var d then d\<lparr>max_var := max (max_var d) (Max (set variables))\<rparr> else d)"

definition addUniversalBlock :: "int list \<Rightarrow> dqdimacs \<Rightarrow> dqdimacs" where
  "addUniversalBlock variables d =
     (if variables = [] then d
      else
        let d1 = (if existential_variables d = [] then d\<lparr>first_block_type := True\<rparr> else d);
            d2 = d1\<lparr>universal_variables := universal_variables d1 @ variables\<rparr>;
            last_block_universal = lastBlockType d2;
            n = length (universal_variables d2);
            d3 = (if \<not> last_block_universal \<or> getNofUniversalBlocks d2 = 0
                  then d2\<lparr>universal_blocks := universal_blocks d2 @ [n]\<rparr>
                  else d2\<lparr>universal_blocks := (universal_blocks d2)[length (universal_blocks d2) - 1 := n]\<rparr>)
        in raise_max_var variables d3)"

definition addExistentialBlock :: "int list \<Rightarrow> dqdimacs \<Rightarrow> dqdimacs" where
  "addExistentialBlock variables d =
     (if variables = [] then d
      else
        let d1 = (if universal_variables d = [] then d\<lparr>first_block_type := False\<rparr> else d);
            d2 = d1\<lparr>existential_variables := existential_variables d1 @ variables\<rparr>;
            last_block_existential = (\<not> lastBlockType d2);
            n = length (existential_variables d2);
            d3 = (if \<not> last_block_existential \<or> getNofExistentialBlocks d2 = 0
                  then d2\<lparr>existential_blocks := existential_blocks d2 @ [n]\<rparr>
                  else d2\<lparr>existential_blocks :=
                            (existential_blocks d2)[length (existential_blocks d2) - 1 := n]\<rparr>)
        in raise_max_var variables d3)"

definition addExplicitDependencies :: "int \<Rightarrow> int list \<Rightarrow> dqdimacs \<Rightarrow> dqdimacs" where
  "addExplicitDependencies v dependencies d =
     (let d1 = d\<lparr>explicit_dependencies := AList.update v dependencies (explicit_dependencies d)\<rparr>
      in if check_max_var d1 then d1\<lparr>max_var := max (max_var d1) v\<rparr> else d1)"

definition addDefinition :: "int \<Rightarrow> cnf \<Rightarrow> circuit \<Rightarrow> dqdimacs \<Rightarrow> dqdimacs" where
  "addDefinition v definition_clauses definition_circuit d =
     d\<lparr>definitions := AList.update v (definition_clauses, definition_circuit) (definitions d)\<rparr>"

definition isDefined :: "int \<Rightarrow> dqdimacs \<Rightarrow> bool" where
  "isDefined v d = (map_of (definitions d) v \<noteq> None)"

text \<open>\<open>at\<close> throws on a missing key: \<open>None\<close>.\<close>

definition getDefinition :: "int \<Rightarrow> dqdimacs \<Rightarrow> (cnf \<times> circuit) option" where
  "getDefinition v d = map_of (definitions d) v"

definition getAllExistentials :: "dqdimacs \<Rightarrow> int list" where
  "getAllExistentials d = existential_variables d @ map fst (explicit_dependencies d)"

section \<open>The abstract prefix\<close>

text \<open>A block is a quantifier (\<open>True\<close> for universal) and its variables.\<close>

type_synonym block = "bool \<times> int list"

definition add_block :: "block \<Rightarrow> dqdimacs \<Rightarrow> dqdimacs" where
  "add_block b d = (if fst b then addUniversalBlock (snd b) d else addExistentialBlock (snd b) d)"

definition merge_block :: "block list \<Rightarrow> block \<Rightarrow> block list" where
  "merge_block bs b =
     (if snd b = [] then bs
      else if bs \<noteq> [] \<and> fst (last bs) = fst b
      then butlast bs @ [(fst b, snd (last bs) @ snd b)]
      else bs @ [b])"

definition merge_blocks :: "block list \<Rightarrow> block list" where
  "merge_blocks bs = foldl merge_block [] bs"

definition blocks_of :: "bool \<Rightarrow> block list \<Rightarrow> int list list" where
  "blocks_of q bs = map snd (filter (\<lambda>b. fst b = q) bs)"

definition boundaries :: "int list list \<Rightarrow> nat list" where
  "boundaries vss = map (\<lambda>i. length (concat (take i vss))) [0..<length vss + 1]"

fun alternating :: "block list \<Rightarrow> bool" where
  "alternating (b # c # bs) = (fst b \<noteq> fst c \<and> alternating (c # bs))"
| "alternating _ = True"

definition represents :: "dqdimacs \<Rightarrow> block list \<Rightarrow> bool" where
  "represents d bs \<longleftrightarrow>
     alternating bs \<and> list_all (\<lambda>b. snd b \<noteq> []) bs \<and>
     (bs \<noteq> [] \<longrightarrow> first_block_type d = fst (hd bs)) \<and>
     universal_variables d = concat (blocks_of True bs) \<and>
     universal_blocks d = boundaries (blocks_of True bs) \<and>
     existential_variables d = concat (blocks_of False bs) \<and>
     existential_blocks d = boundaries (blocks_of False bs)"

lemma boundaries_simps:
  "boundaries [] = [0]"
  "boundaries (vss @ [vs]) = boundaries vss @ [length (concat vss) + length vs]"
  "length (boundaries vss) = length vss + 1"
  by (simp_all add: boundaries_def)

lemma boundaries_change_last:
  "(boundaries (vss @ [vs]))[length vss + 1 := length (concat vss) + length ws] = boundaries (vss @ [ws])"
  by (simp add: boundaries_simps list_update_append)

lemma blocks_of_simps [simp]:
  "blocks_of q [] = []"
  "blocks_of q (bs @ [b]) = blocks_of q bs @ (if fst b = q then [snd b] else [])"
  by (simp_all add: blocks_of_def)

lemma blocks_of_Cons: "blocks_of q (b # bs) = (if fst b = q then [snd b] else []) @ blocks_of q bs"
  by (simp add: blocks_of_def)

lemma alternating_snoc:
  "alternating (bs @ [b]) \<longleftrightarrow> alternating bs \<and> (bs \<noteq> [] \<longrightarrow> fst (last bs) \<noteq> fst b)"
  by (induction bs rule: alternating.induct) auto

lemma alternating_counts:
  "alternating bs \<Longrightarrow> bs \<noteq> [] \<Longrightarrow>
     int (length (blocks_of True bs)) - int (length (blocks_of False bs)) =
       (if fst (hd bs) = fst (last bs) then (if fst (hd bs) then 1 else - 1) else 0)"
  by (induction bs rule: alternating.induct) (auto simp: blocks_of_Cons split: if_splits)

lemma represents_lastBlockType:
  assumes "represents d bs" "bs \<noteq> []"
  shows "lastBlockType d = fst (last bs)"
  using assms alternating_counts [of bs]
  by (auto simp: represents_def lastBlockType_def boundaries_simps split: if_splits)

lemma merged_blocks_of:
  assumes "bs = cs @ [(q, vs)]"
  shows "blocks_of q (cs @ [(q, vs @ ws)]) = blocks_of q cs @ [vs @ ws]"
  by simp

lemma blocks_empty:
  assumes "alternating bs" "list_all (\<lambda>b. snd b \<noteq> []) bs" "concat (blocks_of q bs) = []"
  shows "bs = [] \<or> (\<exists>vs. bs = [(\<not> q, vs)])"
proof -
  have "\<forall>vs\<in>set (blocks_of q bs). vs \<noteq> []"
    using assms(2) by (auto simp: blocks_of_def list_all_iff)
  then have "blocks_of q bs = []"
    using assms(3) by (cases "blocks_of q bs") auto
  then have "\<forall>b\<in>set bs. fst b = (\<not> q)"
    unfolding blocks_of_def map_is_Nil_conv filter_empty_conv by blast
  with assms(1) show ?thesis
  proof (cases bs)
    case (Cons b cs)
    then show ?thesis
      using assms(1) \<open>\<forall>b\<in>set bs. fst b = (\<not> q)\<close> by (cases b; cases cs) auto
  qed simp
qed

lemma raise_max_var_fields [simp]:
  "first_block_type (raise_max_var vs d) = first_block_type d"
  "universal_variables (raise_max_var vs d) = universal_variables d"
  "universal_blocks (raise_max_var vs d) = universal_blocks d"
  "existential_variables (raise_max_var vs d) = existential_variables d"
  "existential_blocks (raise_max_var vs d) = existential_blocks d"
  by (simp_all add: raise_max_var_def)

lemma addUniversalBlock_represents:
  assumes r: "represents d bs"
  shows "represents (addUniversalBlock vs d) (merge_block bs (True, vs))"
proof (cases "vs = []")
  case True
  then show ?thesis using r by (simp add: addUniversalBlock_def merge_block_def)
next
  case ne: False
  define d2 where "d2 = (if existential_variables d = [] then d\<lparr>first_block_type := True\<rparr> else d)
      \<lparr>universal_variables := universal_variables d @ vs\<rparr>"
  have run: "addUniversalBlock vs d = raise_max_var vs
      (if \<not> lastBlockType d2 \<or> getNofUniversalBlocks d2 = 0
       then d2\<lparr>universal_blocks := universal_blocks d2 @ [length (universal_variables d2)]\<rparr>
       else d2\<lparr>universal_blocks := (universal_blocks d2)[length (universal_blocks d2) - 1 :=
              length (universal_variables d2)]\<rparr>)"
    using ne by (cases "existential_variables d = []") (simp_all add: addUniversalBlock_def d2_def Let_def cong: if_cong)
  have flag: "bs \<noteq> [] \<longrightarrow> first_block_type d2 = fst (hd bs)" "bs = [] \<longrightarrow> first_block_type d2 = True"
    using r blocks_empty [of bs False] by (auto simp: represents_def d2_def)
  have fields: "universal_variables d2 = universal_variables d @ vs" "universal_blocks d2 = universal_blocks d"
    "existential_variables d2 = existential_variables d" "existential_blocks d2 = existential_blocks d"
    by (simp_all add: d2_def)
  have lt: "(lastBlockType d2) = (bs \<noteq> [] \<and> fst (last bs) = True)"
  proof (cases "bs = []")
    case True
    then show ?thesis using r flag by (auto simp: represents_def lastBlockType_def fields)
  next
    case False
    then show ?thesis using r flag alternating_counts [of bs]
      by (auto simp: represents_def lastBlockType_def fields boundaries_simps split: if_splits)
  qed
  show ?thesis
  proof (cases "bs \<noteq> [] \<and> fst (last bs) = True")
    case True
    then obtain cs us where bs: "bs = cs @ [(True, us)]"
      by (metis append_butlast_last_id prod.collapse)
    have "getNofUniversalBlocks d2 \<noteq> 0"
      using r by (simp add: getNofUniversalBlocks_def represents_def fields boundaries_simps bs)
    then have "addUniversalBlock vs d = raise_max_var vs
        (d2\<lparr>universal_blocks := (universal_blocks d2)[length (universal_blocks d2) - 1 :=
              length (universal_variables d2)]\<rparr>)"
      unfolding run lt using True by simp
    then show ?thesis
      using r ne flag boundaries_change_last [of "blocks_of True cs" us "us @ vs"]
      by (auto simp: represents_def merge_block_def bs fields alternating_snoc
          boundaries_simps hd_append add.assoc split: if_splits)
  next
    case False
    then have "addUniversalBlock vs d = raise_max_var vs
        (d2\<lparr>universal_blocks := universal_blocks d2 @ [length (universal_variables d2)]\<rparr>)"
      unfolding run lt by simp
    then show ?thesis
      using r ne flag False
      by (auto simp: represents_def merge_block_def fields alternating_snoc
          boundaries_simps hd_append split: if_splits)
  qed
qed

lemma addExistentialBlock_represents:
  assumes r: "represents d bs"
  shows "represents (addExistentialBlock vs d) (merge_block bs (False, vs))"
proof (cases "vs = []")
  case True
  then show ?thesis using r by (simp add: addExistentialBlock_def merge_block_def)
next
  case ne: False
  define d2 where "d2 = (if universal_variables d = [] then d\<lparr>first_block_type := False\<rparr> else d)
      \<lparr>existential_variables := existential_variables d @ vs\<rparr>"
  have run: "addExistentialBlock vs d = raise_max_var vs
      (if \<not> (\<not> lastBlockType d2) \<or> getNofExistentialBlocks d2 = 0
       then d2\<lparr>existential_blocks := existential_blocks d2 @ [length (existential_variables d2)]\<rparr>
       else d2\<lparr>existential_blocks := (existential_blocks d2)[length (existential_blocks d2) - 1 :=
              length (existential_variables d2)]\<rparr>)"
    using ne by (cases "universal_variables d = []") (simp_all add: addExistentialBlock_def d2_def Let_def cong: if_cong)
  have flag: "bs \<noteq> [] \<longrightarrow> first_block_type d2 = fst (hd bs)" "bs = [] \<longrightarrow> first_block_type d2 = False"
    using r blocks_empty [of bs True] by (auto simp: represents_def d2_def)
  have fields: "existential_variables d2 = existential_variables d @ vs" "existential_blocks d2 = existential_blocks d"
    "universal_variables d2 = universal_variables d" "universal_blocks d2 = universal_blocks d"
    by (simp_all add: d2_def)
  have lt: "((\<not> lastBlockType d2)) = (bs \<noteq> [] \<and> fst (last bs) = False)"
  proof (cases "bs = []")
    case True
    then show ?thesis using r flag by (auto simp: represents_def lastBlockType_def fields)
  next
    case False
    then show ?thesis using r flag alternating_counts [of bs]
      by (auto simp: represents_def lastBlockType_def fields boundaries_simps split: if_splits)
  qed
  show ?thesis
  proof (cases "bs \<noteq> [] \<and> fst (last bs) = False")
    case True
    then obtain cs us where bs: "bs = cs @ [(False, us)]"
      by (metis append_butlast_last_id prod.collapse)
    have "getNofExistentialBlocks d2 \<noteq> 0"
      using r by (simp add: getNofExistentialBlocks_def represents_def fields boundaries_simps bs)
    then have "addExistentialBlock vs d = raise_max_var vs
        (d2\<lparr>existential_blocks := (existential_blocks d2)[length (existential_blocks d2) - 1 :=
              length (existential_variables d2)]\<rparr>)"
      unfolding run lt using True by simp
    then show ?thesis
      using r ne flag boundaries_change_last [of "blocks_of False cs" us "us @ vs"]
      by (auto simp: represents_def merge_block_def bs fields alternating_snoc
          boundaries_simps hd_append add.assoc split: if_splits)
  next
    case False
    then have "addExistentialBlock vs d = raise_max_var vs
        (d2\<lparr>existential_blocks := existential_blocks d2 @ [length (existential_variables d2)]\<rparr>)"
      unfolding run lt by simp
    then show ?thesis
      using r ne flag False
      by (auto simp: represents_def merge_block_def fields alternating_snoc
          boundaries_simps hd_append split: if_splits)
  qed
qed

lemma add_block_represents: "represents d bs \<Longrightarrow> represents (add_block b d) (merge_block bs b)"
  using addUniversalBlock_represents addExistentialBlock_represents
  by (cases b) (simp add: add_block_def)

lemma new_represents: "represents (new_DQDIMACS u) []"
  by (simp add: represents_def new_DQDIMACS_def boundaries_simps)

lemma add_blocks_represents:
  "represents d cs \<Longrightarrow> represents (fold add_block bs d) (foldl merge_block cs bs)"
  by (induction bs arbitrary: d cs) (auto intro: add_block_represents)

lemma other_operations_represent [simp]:
  "represents (addClause c d) bs = represents d bs"
  "represents (addExplicitDependencies v deps d) bs = represents d bs"
  "represents (addDefinition v F C d) bs = represents d bs"
  by (simp_all add: represents_def addClause_def addExplicitDependencies_def addDefinition_def Let_def)

lemma merge_blocks_variables:
  "concat (blocks_of q (merge_blocks bs)) = concat (blocks_of q bs)"
proof -
  have step: "concat (blocks_of q (merge_block cs b)) = concat (blocks_of q cs) @ (if fst b = q then snd b else [])"
    for cs b
  proof (cases "cs \<noteq> [] \<and> fst (last cs) = fst b")
    case True
    then show ?thesis by (cases cs rule: rev_cases; cases b) (auto simp: merge_block_def)
  qed (auto simp: merge_block_def blocks_of_Cons)
  have "concat (blocks_of q (foldl merge_block cs bs)) = concat (blocks_of q cs) @ concat (blocks_of q bs)"
    for cs
    by (induction bs arbitrary: cs) (simp_all add: step blocks_of_Cons)
  then show ?thesis by (simp add: merge_blocks_def)
qed

lemma raise_max_var_more [simp]:
  "matrix (raise_max_var vs d) = matrix d"
  "explicit_dependencies (raise_max_var vs d) = explicit_dependencies d"
  "definitions (raise_max_var vs d) = definitions d"
  by (simp_all add: raise_max_var_def)

lemma addUniversalBlock_fields:
  "universal_variables (addUniversalBlock vs d) = universal_variables d @ vs"
  "existential_variables (addUniversalBlock vs d) = existential_variables d"
  "matrix (addUniversalBlock vs d) = matrix d"
  "explicit_dependencies (addUniversalBlock vs d) = explicit_dependencies d"
  "definitions (addUniversalBlock vs d) = definitions d"
  by (simp_all add: addUniversalBlock_def Let_def)

lemma addExistentialBlock_fields:
  "universal_variables (addExistentialBlock vs d) = universal_variables d"
  "existential_variables (addExistentialBlock vs d) = existential_variables d @ vs"
  "matrix (addExistentialBlock vs d) = matrix d"
  "explicit_dependencies (addExistentialBlock vs d) = explicit_dependencies d"
  "definitions (addExistentialBlock vs d) = definitions d"
  by (simp_all add: addExistentialBlock_def Let_def)

lemma addExplicitDependencies_fields:
  "universal_variables (addExplicitDependencies v deps d) = universal_variables d"
  "existential_variables (addExplicitDependencies v deps d) = existential_variables d"
  "matrix (addExplicitDependencies v deps d) = matrix d"
  "explicit_dependencies (addExplicitDependencies v deps d) =
     AList.update v deps (explicit_dependencies d)"
  "definitions (addExplicitDependencies v deps d) = definitions d"
  by (simp_all add: addExplicitDependencies_def Let_def)

section \<open>Properties\<close>

text \<open>C20: feeding any sequence of quantifier blocks to a new formula, whatever the uninitialised
  flag holds, builds exactly the prefix with empty blocks dropped and adjacent blocks of one kind
  merged: boundaries as running sums, the kind of the first block, \<open>lastBlockType\<close> the kind of
  the last one, and the flat lists the variables of that kind in the order given.\<close>

theorem add_blocks_refine_prefix:
  "represents (fold add_block bs (new_DQDIMACS u)) (merge_blocks bs) \<and>
   (merge_blocks bs = [] \<or>
    lastBlockType (fold add_block bs (new_DQDIMACS u)) = fst (last (merge_blocks bs))) \<and>
   universal_variables (fold add_block bs (new_DQDIMACS u)) = concat (blocks_of True bs) \<and>
   existential_variables (fold add_block bs (new_DQDIMACS u)) = concat (blocks_of False bs)"
proof -
  have r: "represents (fold add_block bs (new_DQDIMACS u)) (merge_blocks bs)"
    using add_blocks_represents [OF new_represents, of bs] unfolding merge_blocks_def .
  then show ?thesis
    using represents_lastBlockType [OF r] merge_blocks_variables [of _ bs]
    by (auto simp: represents_def)
qed

end
