(* ===== verification/Text.thy ===== *)
theory Text
  imports Prelude
begin

text \<open>
  The pieces of the standard library through which the program reads and writes text:
  \<open>std::getline\<close>, extraction of a word with \<open>>>\<close>, \<open>std::stoi\<close> with both of its
  exceptions, and \<open>std::to_string\<close>. A string is a list of characters. The lemmas are the
  round trips between the writers and the readers.
\<close>

section \<open>Characters and numbers\<close>

definition code :: "char \<Rightarrow> nat" where
  "code c = of_char c"

definition is_space :: "char \<Rightarrow> bool" where
  "is_space c = (code c = 32 \<or> (9 \<le> code c \<and> code c \<le> 13))"

definition is_digit :: "char \<Rightarrow> bool" where
  "is_digit c = (48 \<le> code c \<and> code c \<le> 57)"

definition digit_char :: "nat \<Rightarrow> char" where
  "digit_char d = char_of (48 + d)"

definition newline :: char where "newline = CHR 0x0A"

definition blank :: char where "blank = CHR '' ''"

datatype stoi_exception = invalid_argument | out_of_range

fun read_digits :: "int \<Rightarrow> string \<Rightarrow> int" where
  "read_digits acc [] = acc"
| "read_digits acc (c # cs) =
     (if is_digit c then read_digits (10 * acc + (int (code c) - 48)) cs else acc)"

definition int_min :: int where "int_min = - (2 ^ 31)"

definition int_max :: int where "int_max = 2 ^ 31 - 1"

definition read_sign :: "string \<Rightarrow> bool \<times> string" where
  "read_sign s =
     (case s of
        [] \<Rightarrow> (False, [])
      | c # cs \<Rightarrow> if c = CHR ''-'' then (True, cs) else if c = CHR ''+'' then (False, cs) else (False, s))"

text \<open>\<open>std::stoi\<close>: leading blanks, a sign, at least one digit; what follows the digits is ignored.\<close>

definition stoi :: "string \<Rightarrow> stoi_exception + int" where
  "stoi s =
     (let (negative, digits) = read_sign (dropWhile is_space s)
      in if digits = [] \<or> \<not> is_digit (hd digits) then Inl invalid_argument
         else let n = read_digits 0 digits; v = (if negative then - n else n)
              in if int_min \<le> v \<and> v \<le> int_max then Inr v else Inl out_of_range)"

fun nat_to_string :: "nat \<Rightarrow> string" where
  "nat_to_string n =
     (if n < 10 then [digit_char n] else nat_to_string (n div 10) @ [digit_char (n mod 10)])"

declare nat_to_string.simps [simp del]

definition to_string :: "int \<Rightarrow> string" where
  "to_string i = (if i < 0 then CHR ''-'' # nat_to_string (nat (- i)) else nat_to_string (nat i))"

section \<open>Lines and words\<close>

fun getlines :: "string \<Rightarrow> string list" where
  "getlines [] = []"
| "getlines (c # cs) =
     (if c = newline then [] # getlines cs
      else case getlines cs of [] \<Rightarrow> [[c]] | l # ls \<Rightarrow> (c # l) # ls)"

function words :: "string \<Rightarrow> string list" where
  "words s =
     (case dropWhile is_space s of
        [] \<Rightarrow> []
      | c # cs \<Rightarrow> (c # takeWhile (\<lambda>c. \<not> is_space c) cs) # words (dropWhile (\<lambda>c. \<not> is_space c) cs))"
  by pat_completeness auto
termination
proof (relation "measure length")
  fix s c cs assume "dropWhile is_space s = c # cs"
  then have "length (c # cs) \<le> length s" by (metis length_dropWhile_le)
  moreover have "length (dropWhile (\<lambda>c. \<not> is_space c) cs) \<le> length cs"
    by (rule length_dropWhile_le)
  ultimately show "(dropWhile (\<lambda>c. \<not> is_space c) cs, s) \<in> measure length" by simp
qed simp

declare words.simps [simp del]

section \<open>What the writers write, the readers read\<close>

lemma digit_code: "d < 10 \<Longrightarrow> code (digit_char d) = 48 + d"
  by (simp add: code_def digit_char_def)

lemma is_digit_digit_char [simp]: "d < 10 \<Longrightarrow> is_digit (digit_char d)"
  by (simp add: is_digit_def digit_code)

lemma digit_not_space: "is_digit c \<Longrightarrow> \<not> is_space c"
  by (simp add: is_digit_def is_space_def)

lemma nat_to_string_digits: "list_all is_digit (nat_to_string n) \<and> nat_to_string n \<noteq> []"
proof (induction n rule: nat_to_string.induct)
  case (1 n)
  show ?case
  proof (cases "n < 10")
    case True
    then show ?thesis by (simp add: nat_to_string.simps [of n])
  next
    case False
    then show ?thesis using 1 by (simp add: nat_to_string.simps [of n])
  qed
qed

lemma read_digits_append:
  "list_all is_digit ds \<Longrightarrow> read_digits acc (ds @ s) = read_digits (read_digits acc ds) s"
  by (induction ds arbitrary: acc) auto

lemma read_digits_nat_to_string: "read_digits 0 (nat_to_string n) = int n"
proof (induction n rule: nat_to_string.induct)
  case (1 n)
  show ?case
  proof (cases "n < 10")
    case True
    then show ?thesis by (simp add: nat_to_string.simps [of n] digit_code)
  next
    case False
    then have "read_digits 0 (nat_to_string n) =
        read_digits (read_digits 0 (nat_to_string (n div 10))) [digit_char (n mod 10)]"
      by (simp add: nat_to_string.simps [of n] read_digits_append nat_to_string_digits)
    also have "\<dots> = 10 * int (n div 10) + int (n mod 10)"
      using 1 False by (simp add: digit_code)
    finally show ?thesis by (simp add: zdiv_int zmod_int)
  qed
qed

lemma minus_code: "code (CHR ''-'') = 45" "code (CHR ''+'') = 43"
  by (simp_all add: code_def)

lemma hd_nat_to_string: "is_digit (hd (nat_to_string n))"
  using nat_to_string_digits [of n] by (cases "nat_to_string n") auto

lemma to_string_chars: "list_all (\<lambda>c. \<not> is_space c) (to_string i) \<and> to_string i \<noteq> []"
proof -
  have ns: "list_all (\<lambda>c. \<not> is_space c) (nat_to_string n)" for n
    using nat_to_string_digits [of n] digit_not_space by (auto simp: list_all_iff)
  have "\<not> is_space (CHR ''-'')" by (simp add: is_space_def minus_code)
  then show ?thesis using ns nat_to_string_digits by (simp add: to_string_def)
qed

lemma stoi_to_string_cases:
  "stoi (to_string i) = (if int_min \<le> i \<and> i \<le> int_max then Inr i else Inl out_of_range)"
proof -
  have nospace: "dropWhile is_space (to_string i) = to_string i"
    using to_string_chars [of i] by (cases "to_string i") auto
  show ?thesis
  proof (cases "i < 0")
    case True
    then have "read_sign (to_string i) = (True, nat_to_string (nat (- i)))"
      by (simp add: read_sign_def to_string_def)
    then show ?thesis
      using True nat_to_string_digits [of "nat (- i)"] hd_nat_to_string [of "nat (- i)"]
      by (simp add: stoi_def nospace read_digits_nat_to_string)
  next
    case False
    obtain c cs where c: "nat_to_string (nat i) = c # cs" "is_digit c"
      using nat_to_string_digits [of "nat i"] by (cases "nat_to_string (nat i)") auto
    then have "c \<noteq> CHR ''-''" "c \<noteq> CHR ''+''" by (auto simp: is_digit_def minus_code)
    then have "read_sign (to_string i) = (False, nat_to_string (nat i))"
      using False c by (simp add: read_sign_def to_string_def)
    then show ?thesis
      using False nat_to_string_digits [of "nat i"] hd_nat_to_string [of "nat i"]
      by (simp add: stoi_def nospace read_digits_nat_to_string)
  qed
qed

lemma stoi_to_string: "int_min \<le> i \<Longrightarrow> i \<le> int_max \<Longrightarrow> stoi (to_string i) = Inr i"
  by (simp add: stoi_to_string_cases)

lemma stoi_range: "stoi s = Inr i \<Longrightarrow> int_min \<le> i \<and> i \<le> int_max"
  by (auto simp: stoi_def Let_def split: prod.splits if_splits)

lemma getlines_line:
  assumes "newline \<notin> set l"
  shows "getlines (l @ newline # s) = l # getlines s"
  using assms
proof (induction l)
  case (Cons c l)
  then show ?case by (cases l) auto
qed simp

lemma getlines_concat:
  assumes "\<And>l. l \<in> set ls \<Longrightarrow> newline \<notin> set l"
  shows "getlines (concat (map (\<lambda>l. l @ [newline]) ls)) = ls"
  using assms by (induction ls) (simp_all add: getlines_line)

lemma blank_space [simp]: "is_space blank" "is_space newline"
  by (simp_all add: is_space_def blank_def newline_def code_def)

lemma words_space: "is_space c \<Longrightarrow> words (c # s) = words s"
  by (subst (1 2) words.simps) simp

lemma words_word:
  assumes "list_all (\<lambda>c. \<not> is_space c) w" "w \<noteq> []"
  shows "words (w @ blank # s) = w # words s" "words w = [w]"
proof -
  obtain c cs where w: "w = c # cs" using assms(2) by (cases w) auto
  have c: "\<not> is_space c" "\<forall>x\<in>set cs. \<not> is_space x" using assms(1) by (auto simp: w list_all_iff)
  then have t: "takeWhile (\<lambda>c. \<not> is_space c) (cs @ blank # s) = cs"
    "dropWhile (\<lambda>c. \<not> is_space c) (cs @ blank # s) = blank # s"
    "takeWhile (\<lambda>c. \<not> is_space c) cs = cs" "dropWhile (\<lambda>c. \<not> is_space c) cs = []"
    by (simp_all add: takeWhile_append2 dropWhile_append2 takeWhile_eq_all_conv dropWhile_eq_Nil_conv)
  have "words (w @ blank # s) = w # words (blank # s)"
    by (subst words.simps) (simp add: w c t)
  then show "words (w @ blank # s) = w # words s" by (simp add: words_space)
  have "words w = w # words []"
    by (subst words.simps) (simp add: w c t)
  moreover have "words [] = []" by (subst words.simps) simp
  ultimately show "words w = [w]" by simp
qed

definition print_numbers :: "int list \<Rightarrow> string" where
  "print_numbers is = concat (map (\<lambda>i. to_string i @ [blank]) is) @ ''0''"

lemma words_print_numbers: "words (print_numbers is) = map to_string is @ [''0'']"
proof (induction "is")
  case Nil
  have "\<not> is_space (CHR ''0'')" by (simp add: is_space_def code_def)
  then show ?case using words_word(2) [of "''0''"] by (simp add: print_numbers_def)
next
  case (Cons i "is")
  then show ?case
    using words_word(1) [of "to_string i" "print_numbers is"] to_string_chars [of i]
    by (simp add: print_numbers_def)
qed

lemma newline_not_in_to_string [simp]: "newline \<notin> set (to_string i)"
  using to_string_chars [of i] blank_space(2) by (auto simp: list_all_iff)

lemma newline_not_in_print_numbers [simp]: "newline \<notin> set (print_numbers is)"
proof -
  have "code newline = 10" "code (CHR ''0'') = 48" "code blank = 32"
    by (simp_all add: code_def newline_def blank_def)
  then have "newline \<noteq> CHR ''0''" "newline \<noteq> blank" by auto
  then show ?thesis by (auto simp: print_numbers_def)
qed

end
