(* ===== verification/DqdimacsParser.thy ===== *)
theory DqdimacsParser
  imports Dqdimacs Text
begin

text \<open>
  The DQDIMACS reader, \<open>src/dqdimacsparser.cc\<close>. A file is its text, or \<open>None\<close> when it
  cannot be opened. Every way the reader can end is a value: the formula, an
  \<open>InvalidFileException\<close>, a \<open>std::out_of_range\<close> from \<open>std::stoi\<close> that no handler of the
  reader catches, or running off the end of \<open>processPrefix\<close>, which has no \<open>return\<close> after its
  loop and is undefined behaviour. The lemmas cover what every accepted file satisfies and the
  round trip from a printed formula.
\<close>

section \<open>The reader\<close>

datatype parse_exception = InvalidFileException string | OutOfRange | NoReturn

definition parseLine_error :: "string \<Rightarrow> parse_exception" where
  "parseLine_error line = InvalidFileException (''Line could not be parsed: '' @ line)"

fun parse_words :: "string \<Rightarrow> bool \<Rightarrow> string list \<Rightarrow> int list \<Rightarrow> parse_exception + int list" where
  "parse_words line check_is_positive [] result = Inr result"
| "parse_words line check_is_positive (word # ws) result =
     (case stoi word of
        Inl invalid_argument \<Rightarrow> Inl (parseLine_error line)
      | Inl out_of_range \<Rightarrow> Inl OutOfRange
      | Inr i \<Rightarrow>
          if i = 0 then Inr result
          else if check_is_positive \<and> i < 0
            then Inl (InvalidFileException (''Invalid line - negative int detected: '' @ line))
          else parse_words line check_is_positive ws (result @ [i]))"

definition parseLine :: "string \<Rightarrow> bool \<Rightarrow> parse_exception + int list" where
  "parseLine line check_is_positive = parse_words line check_is_positive (words line) []"

definition parseUniversalBlock :: "string \<Rightarrow> dqdimacs \<Rightarrow> parse_exception + dqdimacs" where
  "parseUniversalBlock line formula =
     (case parseLine line True of Inl e \<Rightarrow> Inl e | Inr vars \<Rightarrow> Inr (addUniversalBlock vars formula))"

definition parseExistentialBlock :: "string \<Rightarrow> dqdimacs \<Rightarrow> parse_exception + dqdimacs" where
  "parseExistentialBlock line formula =
     (case parseLine line True of Inl e \<Rightarrow> Inl e | Inr vars \<Rightarrow> Inr (addExistentialBlock vars formula))"

definition parseDependencyBlock :: "string \<Rightarrow> dqdimacs \<Rightarrow> parse_exception + dqdimacs" where
  "parseDependencyBlock line formula =
     (case parseLine line True of
        Inl e \<Rightarrow> Inl e
      | Inr [] \<Rightarrow> Inl (InvalidFileException (''Invalid line - no variable is given: '' @ line))
      | Inr (v # vars) \<Rightarrow> Inr (addExplicitDependencies v vars formula))"

definition parseClause :: "string \<Rightarrow> dqdimacs \<Rightarrow> parse_exception + dqdimacs" where
  "parseClause line formula =
     (case parseLine line False of Inl e \<Rightarrow> Inl e | Inr lits \<Rightarrow> Inr (addClause lits formula))"

text \<open>An extraction that finds no word leaves the string of the previous one in place.\<close>

definition parsePrefix :: "string \<Rightarrow> parse_exception + int" where
  "parsePrefix line =
     (let ws = words line;
          str = (case ws of [] \<Rightarrow> [] | w # _ \<Rightarrow> w)
      in if str \<noteq> ''cnf'' then Inl (InvalidFileException ''The preamble is invalid.'')
         else
           let str2 = (case ws of _ # w # _ \<Rightarrow> w | _ \<Rightarrow> str)
           in case stoi str2 of
                Inl invalid_argument \<Rightarrow> Inl (InvalidFileException ''The preamble is invalid.'')
              | Inl out_of_range \<Rightarrow> Inl OutOfRange
              | Inr number_of_variables \<Rightarrow> Inr number_of_variables)"

text \<open>\<open>find_first_not_of\<close> over the blanks \<open>" \t\r\n"\<close>: what is left from the first other character.\<close>

definition is_blank :: "char \<Rightarrow> bool" where
  "is_blank c = (code c \<in> {32, 9, 13, 10})"

text \<open>The result carries the lines still to be read.\<close>

fun processPrefix :: "string list \<Rightarrow> parse_exception + int \<times> string list" where
  "processPrefix [] = Inl NoReturn"
| "processPrefix (line # input) =
     (case dropWhile is_blank line of
        [] \<Rightarrow> processPrefix input
      | first_character # rest \<Rightarrow>
          if first_character = CHR ''c'' then processPrefix input
          else if first_character = CHR ''p'' then
            (case parsePrefix rest of Inl e \<Rightarrow> Inl e | Inr n \<Rightarrow> Inr (n, input))
          else Inl (InvalidFileException ''The file has to start with a prefix.''))"

definition parse_one_line :: "string \<Rightarrow> dqdimacs \<Rightarrow> parse_exception + dqdimacs" where
  "parse_one_line line formula =
     (case dropWhile is_blank line of
        [] \<Rightarrow> Inr formula
      | first_character # rest \<Rightarrow>
          if first_character = CHR ''c'' then Inr formula
          else if first_character = CHR ''p''
            then Inl (InvalidFileException ''Only one prefix line is allowed.'')
          else if first_character = CHR ''a'' then parseUniversalBlock rest formula
          else if first_character = CHR ''e'' then parseExistentialBlock rest formula
          else if first_character = CHR ''d'' then parseDependencyBlock rest formula
          else parseClause line formula)"

fun parse_lines :: "string list \<Rightarrow> dqdimacs \<Rightarrow> parse_exception + dqdimacs" where
  "parse_lines [] formula = Inr formula"
| "parse_lines (line # input) formula =
     (case parse_one_line line formula of Inl e \<Rightarrow> Inl e | Inr formula' \<Rightarrow> parse_lines input formula')"

definition parseFormula :: "string \<Rightarrow> string option \<Rightarrow> bool \<Rightarrow> parse_exception + dqdimacs" where
  "parseFormula fname file uninitialised =
     (case file of
        None \<Rightarrow> Inl (InvalidFileException (''The file '' @ fname @ '' could not be opened.''))
      | Some input \<Rightarrow>
          (case processPrefix (getlines input) of
             Inl e \<Rightarrow> Inl e
           | Inr (number_of_variables, rest) \<Rightarrow> parse_lines rest (new_DQDIMACS uninitialised)))"

section \<open>What every accepted file satisfies\<close>

definition wf_line :: "bool \<Rightarrow> int list \<Rightarrow> bool" where
  "wf_line pos is \<longleftrightarrow> (\<forall>i\<in>set is. i \<noteq> 0 \<and> int_min \<le> i \<and> i \<le> int_max \<and> (pos \<longrightarrow> 0 < i))"

lemma parse_words_wf:
  "parse_words line pos ws acc = Inr is \<Longrightarrow> wf_line pos acc \<Longrightarrow> wf_line pos is"
proof (induction ws arbitrary: acc)
  case (Cons w ws)
  show ?case
  proof (cases "stoi w")
    case (Inl e)
    then show ?thesis using Cons.prems by (cases e) simp_all
  next
    case (Inr i)
    note rng = stoi_range [OF Inr]
    show ?thesis
      using Cons.prems Inr rng Cons.IH [of "acc @ [i]"]
      by (auto simp: wf_line_def split: if_splits)
  qed
qed simp

lemma parseLine_wf: "parseLine line pos = Inr is \<Longrightarrow> wf_line pos is"
  using parse_words_wf [of line pos "words line" "[]"] by (simp add: parseLine_def wf_line_def)

definition wf_dqdimacs :: "dqdimacs \<Rightarrow> bool" where
  "wf_dqdimacs d \<longleftrightarrow>
     (\<exists>bs. represents d bs) \<and> (\<forall>c\<in>set (matrix d). wf_line False c) \<and>
     wf_line True (universal_variables d) \<and> wf_line True (existential_variables d) \<and>
     (\<forall>(v, deps)\<in>set (explicit_dependencies d). wf_line True (v # deps)) \<and>
     distinct (map fst (explicit_dependencies d)) \<and> definitions d = []"

lemma update_entries:
  "distinct (map fst al) \<Longrightarrow> (\<forall>(k, v)\<in>set al. P k v) \<Longrightarrow> P k' v' \<Longrightarrow>
     (\<forall>(k, v)\<in>set (AList.update k' v' al). P k v)"
  by (induction al) auto

lemma wf_line_append [simp]: "wf_line pos (xs @ ys) = (wf_line pos xs \<and> wf_line pos ys)"
  by (auto simp: wf_line_def)

lemma parse_one_line_wf:
  assumes "parse_one_line line d = Inr d'" "wf_dqdimacs d"
  shows "wf_dqdimacs d'"
proof -
  obtain bs where bs: "represents d bs" using assms(2) by (auto simp: wf_dqdimacs_def)
  have a: "wf_dqdimacs (addUniversalBlock vs d)" "wf_dqdimacs (addExistentialBlock vs d)"
    if "wf_line True vs" for vs
    using that assms(2) addUniversalBlock_represents [OF bs, of vs]
      addExistentialBlock_represents [OF bs, of vs]
    by (auto simp: wf_dqdimacs_def addUniversalBlock_fields addExistentialBlock_fields)
  have e: "wf_dqdimacs (addExplicitDependencies v vs d)" if "wf_line True (v # vs)" for v vs
  proof -
    have "\<forall>(v, deps)\<in>set (AList.update v vs (explicit_dependencies d)). wf_line True (v # deps)"
      using update_entries [of "explicit_dependencies d" "\<lambda>v deps. wf_line True (v # deps)"]
        that assms(2) by (simp add: wf_dqdimacs_def)
    then show ?thesis
      using assms(2) bs by (auto simp: wf_dqdimacs_def addExplicitDependencies_fields distinct_update)
  qed
  have c: "wf_dqdimacs (addClause c d)" if "wf_line False c" for c
    using that assms(2) bs by (auto simp: wf_dqdimacs_def addClause_def represents_def)
  show ?thesis
    using assms a e c
    by (auto simp: parse_one_line_def parseUniversalBlock_def parseExistentialBlock_def
        parseDependencyBlock_def parseClause_def dest!: parseLine_wf
        split: list.splits if_splits sum.splits)
qed

lemma parse_lines_wf: "parse_lines ls d = Inr d' \<Longrightarrow> wf_dqdimacs d \<Longrightarrow> wf_dqdimacs d'"
proof (induction ls d rule: parse_lines.induct)
  case (2 line input d)
  then show ?case by (auto split: sum.splits intro: parse_one_line_wf)
qed simp

section \<open>Reading back a printed formula\<close>

text \<open>The reference printer of the format: preamble, blocks, explicit dependencies, clauses.\<close>

definition print_lines ::
  "int \<Rightarrow> int \<Rightarrow> block list \<Rightarrow> (int \<times> int list) list \<Rightarrow> cnf \<Rightarrow> string list" where
  "print_lines n m bs ds cls =
     [''p cnf '' @ to_string n @ [blank] @ to_string m] @
     map (\<lambda>b. (if fst b then CHR ''a'' else CHR ''e'') # blank # print_numbers (snd b)) bs @
     map (\<lambda>d. CHR ''d'' # blank # print_numbers (fst d # snd d)) ds @
     map print_numbers cls"

definition print_formula ::
  "int \<Rightarrow> int \<Rightarrow> block list \<Rightarrow> (int \<times> int list) list \<Rightarrow> cnf \<Rightarrow> string" where
  "print_formula n m bs ds cls = concat (map (\<lambda>l. l @ [newline]) (print_lines n m bs ds cls))"

definition build_formula ::
  "block list \<Rightarrow> (int \<times> int list) list \<Rightarrow> cnf \<Rightarrow> bool \<Rightarrow> dqdimacs" where
  "build_formula bs ds cls u =
     fold addClause cls (fold (\<lambda>d. addExplicitDependencies (fst d) (snd d)) ds
       (fold add_block bs (new_DQDIMACS u)))"

lemma stoi_zero: "stoi ''0'' = Inr 0"
  by (simp add: stoi_def read_sign_def is_space_def is_digit_def code_def int_min_def int_max_def)

lemma parse_words_numbers:
  "wf_line pos is \<Longrightarrow> parse_words line pos (map to_string is @ [''0'']) acc = Inr (acc @ is)"
  by (induction "is" arbitrary: acc) (auto simp: stoi_zero stoi_to_string wf_line_def)

lemma parseLine_numbers:
  "wf_line pos is \<Longrightarrow> parseLine (print_numbers is) pos = Inr is"
  "wf_line pos is \<Longrightarrow> parseLine (blank # print_numbers is) pos = Inr is"
  by (simp_all add: parseLine_def words_space words_print_numbers parse_words_numbers)

lemma letters_code: "code (CHR ''a'') = 97" "code (CHR ''c'') = 99" "code (CHR ''d'') = 100"
  "code (CHR ''e'') = 101" "code (CHR ''p'') = 112" "code (CHR ''f'') = 102" "code (CHR ''n'') = 110"
  by (simp_all add: code_def)

lemma print_numbers_start:
  obtains c cs where "print_numbers is = c # cs" "is_digit c \<or> c = CHR ''-''"
proof (cases "is")
  case Nil
  then show ?thesis using that [of "CHR ''0''" "[]"]
    by (simp add: print_numbers_def is_digit_def code_def)
next
  case (Cons i js)
  obtain c cs where "to_string i = c # cs" "is_digit c \<or> c = CHR ''-''"
    using nat_to_string_digits [of "nat i"]
    by (cases "nat_to_string (nat i)"; cases "i < 0") (auto simp: to_string_def)
  then show ?thesis using that by (simp add: print_numbers_def Cons)
qed

lemma clause_line_dispatch: "parse_one_line (print_numbers c) d = parseClause (print_numbers c) d"
proof -
  obtain x xs where x: "print_numbers c = x # xs" "is_digit x \<or> x = CHR ''-''"
    by (rule print_numbers_start)
  then have "\<not> is_blank x" "x \<notin> {CHR ''c'', CHR ''p'', CHR ''a'', CHR ''e'', CHR ''d''}"
    by (auto simp: is_blank_def is_digit_def minus_code letters_code)
  then show ?thesis
    using x by (simp add: parse_one_line_def)
qed

lemma parse_clause_line:
  "wf_line False c \<Longrightarrow> parse_one_line (print_numbers c) d = Inr (addClause c d)"
  using parseLine_numbers(1) by (simp add: clause_line_dispatch parseClause_def)

lemma parse_block_line:
  assumes "wf_line True (snd b)"
  shows "parse_one_line ((if fst b then CHR ''a'' else CHR ''e'') # blank # print_numbers (snd b)) d =
    Inr (add_block b d)"
  using parseLine_numbers(2) [OF assms]
  by (simp add: parse_one_line_def parseUniversalBlock_def parseExistentialBlock_def is_blank_def
      letters_code add_block_def)

lemma parse_dependency_line:
  assumes "wf_line True (v # deps)"
  shows "parse_one_line (CHR ''d'' # blank # print_numbers (v # deps)) d =
    Inr (addExplicitDependencies v deps d)"
  using parseLine_numbers(2) [OF assms]
  by (simp add: parse_one_line_def parseDependencyBlock_def is_blank_def letters_code)

lemma parse_lines_map:
  assumes "\<And>x d. x \<in> set xs \<Longrightarrow> parse_one_line (f x) d = Inr (g x d)"
  shows "parse_lines (map f xs @ ls) d = parse_lines ls (fold g xs d)"
  using assms by (induction xs arbitrary: d) auto

lemma words_cnf: "words ('' cnf '' @ to_string n @ [blank] @ to_string m) = [''cnf'', to_string n, to_string m]"
proof -
  have eq: "'' cnf '' @ to_string n @ [blank] @ to_string m =
      blank # (''cnf'' @ blank # (to_string n @ blank # to_string m))"
    by (simp add: blank_def)
  have "list_all (\<lambda>c. \<not> is_space c) ''cnf''" "''cnf'' \<noteq> []"
    by (simp_all add: is_space_def letters_code)
  then have "words (''cnf'' @ blank # (to_string n @ blank # to_string m)) =
      ''cnf'' # words (to_string n @ blank # to_string m)"
    by (rule words_word(1))
  then show ?thesis
    unfolding eq
    by (simp only: words_space blank_space words_word to_string_chars [THEN conjunct1]
        to_string_chars [THEN conjunct2] simp_thms)
qed

lemma parse_preamble:
  assumes "int_min \<le> n" "n \<le> int_max"
  shows "processPrefix ((''p cnf '' @ to_string n @ [blank] @ to_string m) # ls) = Inr (n, ls)"
proof -
  have "parsePrefix ('' cnf '' @ to_string n @ [blank] @ to_string m) = Inr n"
    unfolding parsePrefix_def words_cnf using stoi_to_string [OF assms] by (simp add: Let_def)
  then show ?thesis by (simp add: is_blank_def letters_code)
qed

lemma print_formula_lines: "getlines (print_formula n m bs ds cls) = print_lines n m bs ds cls"
proof -
  have "newline \<notin> set l" if "l \<in> set (print_lines n m bs ds cls)" for l
  proof -
    have "newline \<notin> set ''p cnf ''" "newline \<noteq> blank" "newline \<notin> set ''aed''"
      by (simp_all add: newline_def blank_def)
    with that show ?thesis by (auto simp: print_lines_def split: if_splits)
  qed
  then show ?thesis unfolding print_formula_def by (rule getlines_concat)
qed

section \<open>Properties\<close>

text \<open>C21: reading a printed formula rebuilds it: whatever the block sequence, the explicit
  dependencies and the clauses, as long as every number is nonzero, fits an \<open>int\<close> and is
  positive in the prefix, the reader accepts the text and returns the formula the calls of
  \<open>addUniversalBlock\<close>, \<open>addExistentialBlock\<close>, \<open>addExplicitDependencies\<close> and
  \<open>addClause\<close> build.\<close>

theorem parse_print_formula:
  assumes "int_min \<le> n" "n \<le> int_max" "\<forall>b\<in>set bs. wf_line True (snd b)"
    and "\<forall>d\<in>set ds. wf_line True (fst d # snd d)" "\<forall>c\<in>set cls. wf_line False c"
  shows "parseFormula fname (Some (print_formula n m bs ds cls)) u = Inr (build_formula bs ds cls u)"
proof -
  note lines = print_formula_lines
  define body where "body = map (\<lambda>b. (if fst b then CHR ''a'' else CHR ''e'') # blank # print_numbers (snd b)) bs @
     map (\<lambda>d. CHR ''d'' # blank # print_numbers (fst d # snd d)) ds @ map print_numbers cls @ []"
  have "print_lines n m bs ds cls = (''p cnf '' @ to_string n @ [blank] @ to_string m) # body"
    by (simp add: print_lines_def body_def)
  then have prefix: "processPrefix (print_lines n m bs ds cls) = Inr (n, body)"
    using parse_preamble [OF assms(1,2), of m body] by simp
  have "parse_lines body d = Inr (fold addClause cls
      (fold (\<lambda>d. addExplicitDependencies (fst d) (snd d)) ds (fold add_block bs d)))" for d
    unfolding body_def
    using assms(3-5) parse_lines_map [OF parse_block_line, of bs]
      parse_lines_map [OF parse_dependency_line, of ds] parse_lines_map [OF parse_clause_line, of cls]
    by (subst parse_lines_map [where g = add_block], simp add: parse_block_line,
        subst parse_lines_map [where g = "\<lambda>d. addExplicitDependencies (fst d) (snd d)"],
        simp add: parse_dependency_line,
        subst parse_lines_map [where g = addClause], simp add: parse_clause_line, simp)
  then show ?thesis by (simp add: parseFormula_def lines prefix build_formula_def)
qed

lemma parse_print_formula_witness:
  "\<forall>u. parseFormula ''f'' (Some (print_formula 3 1 [(True, [1]), (False, [2])] [(3, [1])] [[1, - 2, 3]])) u =
     Inr (build_formula [(True, [1]), (False, [2])] [(3, [1])] [[1, - 2, 3]] u)"
  by (intro allI parse_print_formula) (auto simp: wf_line_def int_min_def int_max_def)

text \<open>C26: whatever the file holds, a formula the reader returns has a well-formed prefix (the
  flat layout represents a sequence of alternating blocks), only nonzero literals that fit an
  \<open>int\<close> in the matrix, only positive variables in the prefix and in the explicit dependencies,
  and no variable with two dependency lists.\<close>

theorem parseFormula_wf:
  assumes "parseFormula fname file u = Inr d"
  shows "wf_dqdimacs d"
proof -
  have "wf_dqdimacs (new_DQDIMACS u)"
    using new_represents [of u] by (auto simp: wf_dqdimacs_def new_DQDIMACS_def wf_line_def)
  then show ?thesis
    using assms parse_lines_wf by (auto simp: parseFormula_def split: option.splits sum.splits)
qed

definition small_file :: string where
  "small_file = print_formula 2 1 [(True, [1]), (False, [2])] [] [[1, - 2]]"

lemma parseFormula_wf_witness:
  "wf_dqdimacs (build_formula [(True, [1]), (False, [2])] [] [[1, - 2]] True)"
proof -
  have "parseFormula ''f'' (Some small_file) True =
      Inr (build_formula [(True, [1]), (False, [2])] [] [[1, - 2]] True)"
    unfolding small_file_def
    by (rule parse_print_formula) (auto simp: wf_line_def int_min_def int_max_def)
  then show ?thesis by (rule parseFormula_wf)
qed

definition comment_or_blank :: "string \<Rightarrow> bool" where
  "comment_or_blank line = (case dropWhile is_blank line of [] \<Rightarrow> True | c # _ \<Rightarrow> c = CHR ''c'')"

lemma processPrefix_skip:
  "list_all comment_or_blank ls \<Longrightarrow> processPrefix (ls @ rest) = processPrefix rest"
proof (induction ls)
  case (Cons l ls)
  then show ?case
    by (cases "dropWhile is_blank l") (auto simp: comment_or_blank_def simp del: dropWhile_eq_Nil_conv)
qed simp

text \<open>Lines that are read in order up to one that fails.\<close>

lemma parse_lines_fails:
  assumes "\<And>x d. x \<in> set xs \<Longrightarrow> parse_one_line (f x) d = Inr (g x d)" "\<And>d. parse_one_line line d = Inl e"
  shows "parse_lines (map f xs @ line # ls) d = Inl e"
  using parse_lines_map [OF assms(1), where xs = xs and ls = "line # ls"] assms(2) by simp

lemma parse_words_fails:
  assumes "wf_line pos before"
    and "stoi (to_string v) = Inl out_of_range \<and> e = OutOfRange \<or>
      pos \<and> v < 0 \<and> stoi (to_string v) = Inr v \<and> e = InvalidFileException (''Invalid line - negative int detected: '' @ line)"
  shows "parse_words line pos (map to_string (before @ v # after) @ [''0'']) acc = Inl e"
  using assms(1)
proof (induction before arbitrary: acc)
  case Nil
  then show ?case using assms(2) by auto
next
  case (Cons i before)
  then show ?case by (auto simp: stoi_to_string wf_line_def)
qed

lemma parseLine_out_of_range:
  assumes "wf_line False before" "v < int_min \<or> int_max < v"
  shows "parseLine (print_numbers (before @ v # after)) False = Inl OutOfRange"
proof -
  have "stoi (to_string v) = Inl out_of_range" using assms(2) by (auto simp: stoi_to_string_cases)
  then show ?thesis using parse_words_fails [OF assms(1), of v OutOfRange _ after]
    by (simp add: parseLine_def words_print_numbers del: map_append)
qed

lemma parseLine_negative:
  assumes "wf_line True before" "int_min \<le> v" "v < 0"
  shows "parseLine (blank # print_numbers (before @ v # after)) True =
    Inl (InvalidFileException (''Invalid line - negative int detected: '' @ blank # print_numbers (before @ v # after)))"
proof -
  have "v \<le> int_max" using assms(3) by (simp add: int_max_def)
  then show ?thesis
    using parse_words_fails [OF assms(1), of v _ _ after] assms(2,3)
    by (simp add: parseLine_def words_space words_print_numbers stoi_to_string del: map_append)
qed



end
