(* ===== verification/DependencyContainer_Correct.thy ===== *)
theory DependencyContainer_Correct
  imports DependencyContainer
begin

text \<open>
  What the operations of the dependency container compute, over the sets its sorted vectors
  stand for: the merge walks, the demand-driven closure of supports, and the commuting square
  between the buffered and the immediate update.
\<close>

section \<open>Merge walks\<close>

lemma restrictToVector_filter:
  "sorted_wrt (\<lambda>a b. \<bar>a\<bar> < \<bar>b\<bar>) literals \<Longrightarrow> strict_sorted rng \<Longrightarrow>
     restrictToVector literals rng = filter (\<lambda>l. \<bar>l\<bar> \<in> set rng) literals"
proof (induction literals rng rule: restrictToVector.induct)
  case (1 l literals r rng)
  consider "\<bar>l\<bar> < r" | "\<bar>l\<bar> = r" | "r < \<bar>l\<bar>" by linarith
  then show ?case
  proof cases
    case 1
    then have "\<bar>l\<bar> \<notin> set (r # rng)" using "1.prems" by auto
    with 1 "1.IH"(1)[OF refl] "1.prems" show ?thesis by simp
  next
    case 2
    then have "filter (\<lambda>x. \<bar>x\<bar> = r \<or> \<bar>x\<bar> \<in> set rng) literals = filter (\<lambda>x. \<bar>x\<bar> \<in> set rng) literals"
      using "1.prems" by (intro filter_cong) auto
    with 2 "1.IH"(2)[OF refl] "1.prems" show ?thesis by auto
  next
    case 3
    then have "filter (\<lambda>x. \<bar>x\<bar> = r \<or> \<bar>x\<bar> \<in> set rng) (l # literals) = filter (\<lambda>x. \<bar>x\<bar> \<in> set rng) (l # literals)"
      using "1.prems" by (intro filter_cong) auto
    with 3 "1.IH"(3)[OF refl] "1.prems" show ?thesis by simp
  qed
qed auto

lemma set_merge_vectors [simp]: "set (merge_vectors xs ys) = set xs \<union> set ys"
  by (induction xs ys rule: merge_vectors.induct) auto

lemma strict_sorted_merge_vectors:
  "strict_sorted xs \<Longrightarrow> strict_sorted ys \<Longrightarrow> strict_sorted (merge_vectors xs ys)"
  by (induction xs ys rule: merge_vectors.induct) force+

lemma strict_sorted_unique: "strict_sorted xs \<Longrightarrow> strict_sorted ys \<Longrightarrow> set xs = set ys \<Longrightarrow> xs = ys"
  by (simp add: strict_sorted_iff sorted_distinct_set_unique)

lemma included_walk_iff:
  "strict_sorted dep1 \<Longrightarrow> strict_sorted dep2 \<Longrightarrow> strict_sorted supp \<Longrightarrow>
     included_walk e dep1 dep2 supp \<longleftrightarrow> set supp \<subseteq> set dep1 \<union> set dep2"
proof (induction e dep1 dep2 supp rule: included_walk.induct)
  case (4 e d1 dep1 d2 dep2 s supp)
  show ?case
  proof (cases "s < d1 \<and> s < d2")
    case True
    then have "s \<notin> set (d1 # dep1)" "s \<notin> set (d2 # dep2)" using "4.prems" by auto
    then show ?thesis using True by auto
  next
    case False
    define supp' where "supp' = (if s = d1 \<or> s = d2 then supp else s # supp)"
    define s' where "s' = head_or e supp'"
    define dep1' where "dep1' = (if d1 < s' then dep1 else d1 # dep1)"
    define dep2' where "dep2' = (if d2 < s' then dep2 else d2 # dep2)"
    have srt: "strict_sorted dep1'" "strict_sorted dep2'" "strict_sorted supp'"
      using "4.prems" by (auto simp: dep1'_def dep2'_def supp'_def)
    have step: "included_walk e (d1 # dep1) (d2 # dep2) (s # supp) = included_walk e dep1' dep2' supp'"
      unfolding included_walk.simps if_not_P [OF False] Let_def
        supp'_def s'_def dep1'_def dep2'_def by (rule refl)
    also have "\<dots> \<longleftrightarrow> set supp' \<subseteq> set dep1' \<union> set dep2'"
      using "4.IH"[OF False supp'_def s'_def dep1'_def dep2'_def srt] .
    also have "\<dots> \<longleftrightarrow> set supp' \<subseteq> set (d1 # dep1) \<union> set (d2 # dep2)"
    proof (cases supp')
      case (Cons t ts)
      then have "\<forall>x\<in>set supp'. s' \<le> x" using srt(3) by (auto simp: s'_def head_or_def)
      then have "x \<in> set dep1' \<longleftrightarrow> x \<in> set (d1 # dep1)" "x \<in> set dep2' \<longleftrightarrow> x \<in> set (d2 # dep2)"
        if "x \<in> set supp'" for x
        using that by (auto simp: dep1'_def dep2'_def)
      then show ?thesis by blast
    qed simp
    also have "\<dots> \<longleftrightarrow> set (s # supp) \<subseteq> set (d1 # dep1) \<union> set (d2 # dep2)"
      by (auto simp: supp'_def)
    finally show ?thesis .
  qed
qed (simp_all add: includes_iff del: std_includes.simps)

section \<open>Well-formed containers\<close>

definition container_sorted :: "dep_container \<Rightarrow> bool" where
  "container_sorted c \<longleftrightarrow>
     (\<forall>v ds. extended_map c v = Some ds \<longrightarrow> strict_sorted ds) \<and>
     (\<forall>v ds. supports c v = Some ds \<longrightarrow> strict_sorted ds)"

definition buffers_sorted :: "dep_container \<Rightarrow> bool" where
  "buffers_sorted c \<longleftrightarrow>
     distinct (map fst (variables_to_update c)) \<and>
     (\<forall>(v, vs)\<in>set (variables_to_update c). strict_sorted vs \<and> extended_map c v \<noteq> None)"

section \<open>The closure of supports\<close>

inductive dyn_dep :: "dep_container \<Rightarrow> int \<Rightarrow> int \<Rightarrow> bool" for c where
  in_support: "supports c v = Some S \<Longrightarrow> w \<in> set S \<Longrightarrow> dyn_dep c v w"
| by_support: "supports c v = Some S \<Longrightarrow> u \<in> set S \<Longrightarrow> u \<notin> universal_set c \<Longrightarrow> u \<in> to_compute c \<Longrightarrow>
    dyn_dep c u w \<Longrightarrow> dyn_dep c v w"
| by_extended: "supports c v = Some S \<Longrightarrow> u \<in> set S \<Longrightarrow> u \<notin> universal_set c \<Longrightarrow> u \<notin> to_compute c \<Longrightarrow>
    extended_map c u = Some D \<Longrightarrow> w \<in> set D \<Longrightarrow> dyn_dep c v w"

inductive_cases dyn_depE: "dyn_dep c v w"

definition supports_ranked :: "(int \<Rightarrow> nat) \<Rightarrow> dep_container \<Rightarrow> bool" where
  "supports_ranked rank c \<longleftrightarrow>
     (\<forall>v\<in>to_compute c. \<exists>S. supports c v = Some S \<and>
        (\<forall>u\<in>set S. u \<notin> universal_set c \<longrightarrow>
           (if u \<in> to_compute c then rank u < rank v else extended_map c u \<noteq> None)))"

definition contributes :: "dep_container \<Rightarrow> int \<Rightarrow> int set" where
  "contributes c u =
     (if u \<in> universal_set c then {u}
      else if u \<in> to_compute c then {w. dyn_dep c u w}
      else set (the (extended_map c u)))"

lemma dyn_dep_support:
  assumes "supports c v = Some S" "\<forall>u\<in>set S. u \<notin> universal_set c \<longrightarrow> u \<notin> to_compute c \<longrightarrow> extended_map c u \<noteq> None"
  shows "{w. dyn_dep c v w} = set S \<union> (\<Union>u\<in>set S. contributes c u)"
proof (intro equalityI subsetI)
  fix w assume "w \<in> {w. dyn_dep c v w}"
  then have "dyn_dep c v w" by simp
  then show "w \<in> set S \<union> (\<Union>u\<in>set S. contributes c u)"
    using assms(1) by (cases rule: dyn_depE) (fastforce simp: contributes_def)+
next
  fix w assume "w \<in> set S \<union> (\<Union>u\<in>set S. contributes c u)"
  then consider "w \<in> set S" | u where "u \<in> set S" "w \<in> contributes c u" by blast
  then show "w \<in> {w. dyn_dep c v w}"
  proof cases
    case 1
    then show ?thesis using assms(1) by (auto intro: in_support)
  next
    case 2
    then show ?thesis
      using assms in_support by_support by_extended
      by (fastforce simp: contributes_def split: if_splits)
  qed
qed

lemma collect_dependencies_simps:
  "collect_dependencies c [] result = Some result"
  "collect_dependencies c (v # rest) result =
     (if v \<in> universal_set c then collect_dependencies c rest (set_insert v result)
      else if v \<in> to_compute c then
        Option.bind (supports c v) (\<lambda>support.
          Option.bind (collect_dependencies c support (set_of support)) (\<lambda>deps.
            collect_dependencies c rest (set_insert_all deps result)))
      else
        Option.bind (extended_map c v) (\<lambda>deps.
          collect_dependencies c rest (set_insert_all deps result)))"
  by (subst collect_dependencies.simps, simp)+

lemma collect_dependencies_spec:
  assumes ranked: "supports_ranked rank c"
    and ok: "\<forall>u\<in>set us. u \<notin> universal_set c \<longrightarrow>
              (if u \<in> to_compute c then rank u < n else extended_map c u \<noteq> None)"
  shows "\<exists>r. collect_dependencies c us result = Some r \<and>
           set r = set result \<union> (\<Union>u\<in>set us. contributes c u) \<and>
           (strict_sorted result \<longrightarrow> strict_sorted r)"
  using ok
proof (induction n arbitrary: us result rule: less_induct)
  case (less n)
  from less.prems show ?case
  proof (induction us arbitrary: result)
    case Nil
    then show ?case by (simp add: collect_dependencies_simps)
  next
    case (Cons u us)
    have rest: "\<exists>r. collect_dependencies c us result' = Some r \<and>
        set r = set result' \<union> (\<Union>u\<in>set us. contributes c u) \<and> (strict_sorted result' \<longrightarrow> strict_sorted r)"
      for result' using Cons by simp
    consider "u \<in> universal_set c" | "u \<notin> universal_set c" "u \<in> to_compute c"
      | "u \<notin> universal_set c" "u \<notin> to_compute c" by blast
    then show ?case
    proof cases
      case 1
      then show ?thesis using rest [of "set_insert u result"]
        by (auto simp: collect_dependencies_simps contributes_def)
    next
      case 2
      then obtain S where S: "supports c u = Some S"
        "\<forall>w\<in>set S. w \<notin> universal_set c \<longrightarrow>
           (if w \<in> to_compute c then rank w < rank u else extended_map c w \<noteq> None)"
        using ranked unfolding supports_ranked_def by blast
      have "rank u < n" using Cons.prems 2 by simp
      from less.IH [OF this S(2), of "set_of S"]
      obtain deps where deps: "collect_dependencies c S (set_of S) = Some deps"
        "set deps = set S \<union> (\<Union>w\<in>set S. contributes c w)" by auto
      have "set deps = contributes c u"
        using dyn_dep_support [OF S(1)] S(2) deps(2) 2 by (auto simp: contributes_def)
      then show ?thesis using rest [of "set_insert_all deps result"] 2 S deps
        by (auto simp: collect_dependencies_simps)
    next
      case 3
      then obtain D where D: "extended_map c u = Some D" using Cons.prems by auto
      show ?thesis using rest [of "set_insert_all D result"] 3 D
        by (auto simp: collect_dependencies_simps contributes_def)
    qed
  qed
qed

lemma computeDynamicDependencies_spec:
  assumes "supports_ranked rank c" "v \<in> to_compute c"
  shows "\<exists>r. computeDynamicDependencies v c = Some r \<and> set r = {w. dyn_dep c v w} \<and> strict_sorted r"
proof -
  obtain S where S: "supports c v = Some S"
    "\<forall>w\<in>set S. w \<notin> universal_set c \<longrightarrow>
       (if w \<in> to_compute c then rank w < rank v else extended_map c w \<noteq> None)"
    using assms unfolding supports_ranked_def by blast
  then show ?thesis
    using collect_dependencies_spec [OF assms(1) S(2), of "set_of S"] dyn_dep_support [OF S(1)]
    by (auto simp: computeDynamicDependencies_def)
qed

section \<open>Immediate updates\<close>

definition covered :: "int list \<Rightarrow> int list \<Rightarrow> (int \<Rightarrow> int set) \<Rightarrow> int set" where
  "covered undefs support ext = {v \<in> set undefs. set support \<subseteq> ext v}"

lemma update_loop_spec:
  assumes "strict_sorted support" "distinct undefs" "variable \<notin> set undefs"
    and "\<forall>v\<in>set undefs. \<exists>ds. extended_map c v = Some ds \<and> strict_sorted ds"
  shows "\<exists>updated' c'. update_loop variable support undefs updated c = Some (updated', c') \<and>
     set updated' = set updated \<union> covered undefs support (\<lambda>v. set (the (extended_map c v))) \<and>
     (strict_sorted updated \<longrightarrow> strict_sorted updated') \<and>
     c' = c\<lparr>extended_map := extended_map c'\<rparr> \<and>
     (\<forall>v. extended_map c' v =
        (if v \<in> covered undefs support (\<lambda>v. set (the (extended_map c v)))
         then Some (merge_vectors (the (extended_map c v)) [variable]) else extended_map c v))"
  using assms(2-4)
proof (induction undefs arbitrary: updated c)
  case (Cons u undefs)
  obtain ds where ds: "extended_map c u = Some ds" "strict_sorted ds" using Cons.prems by auto
  have inc: "std_includes ds support \<longleftrightarrow> set support \<subseteq> set ds"
    using includes_iff [OF ds(2) assms(1)] .
  show ?case
  proof (cases "set support \<subseteq> set ds")
    case True
    define c1 where "c1 = c\<lparr>extended_map := (extended_map c)(u \<mapsto> merge_vectors ds [variable])\<rparr>"
    have prem: "\<forall>v\<in>set undefs. \<exists>ds. extended_map c1 v = Some ds \<and> strict_sorted ds"
      using Cons.prems by (auto simp: c1_def)
    have same: "covered undefs support (\<lambda>v. set (the (extended_map c1 v))) =
        covered undefs support (\<lambda>v. set (the (extended_map c v)))"
      using Cons.prems(1) by (auto simp: covered_def c1_def)
    have all: "covered (u # undefs) support (\<lambda>v. set (the (extended_map c v))) =
        insert u (covered undefs support (\<lambda>v. set (the (extended_map c v))))"
      using True ds by (auto simp: covered_def)
    have step: "update_loop variable support (u # undefs) updated c =
        update_loop variable support undefs (set_insert u updated) c1"
      using True ds inc by (simp add: updateVectorMap_def c1_def)
    obtain updated' c' where r: "update_loop variable support undefs (set_insert u updated) c1 = Some (updated', c')"
      "set updated' = insert u (set updated) \<union> covered undefs support (\<lambda>v. set (the (extended_map c v)))"
      "strict_sorted (set_insert u updated) \<longrightarrow> strict_sorted updated'"
      "c' = c1\<lparr>extended_map := extended_map c'\<rparr>"
      "\<forall>v. extended_map c' v =
        (if v \<in> covered undefs support (\<lambda>v. set (the (extended_map c v)))
         then Some (merge_vectors (the (extended_map c1 v)) [variable]) else extended_map c1 v)"
      using Cons.IH [of c1 "set_insert u updated"] Cons.prems prem unfolding same by auto
    have "u \<notin> covered undefs support (\<lambda>v. set (the (extended_map c v)))"
      using Cons.prems(1) by (auto simp: covered_def)
    then have ext: "\<forall>v. extended_map c' v =
        (if v \<in> insert u (covered undefs support (\<lambda>v. set (the (extended_map c v))))
         then Some (merge_vectors (the (extended_map c v)) [variable]) else extended_map c v)"
      using r(5) ds by (simp add: c1_def)
    have c': "c' = c\<lparr>extended_map := extended_map c'\<rparr>" using r(4) by (simp add: c1_def)
    have upd: "set updated' = set updated \<union> insert u (covered undefs support (\<lambda>v. set (the (extended_map c v))))"
      "strict_sorted updated \<longrightarrow> strict_sorted updated'"
      using r(2,3) by auto
    show ?thesis
      unfolding step all
      by (intro exI [of _ updated'] exI [of _ c'] conjI r(1) upd c' ext)
  next
    case False
    then have all: "covered (u # undefs) support (\<lambda>v. set (the (extended_map c v))) =
        covered undefs support (\<lambda>v. set (the (extended_map c v)))"
      using ds by (auto simp: covered_def)
    have step: "update_loop variable support (u # undefs) updated c =
        update_loop variable support undefs updated c"
      using False ds inc by simp
    show ?thesis unfolding step all by (rule Cons.IH) (use Cons.prems in auto)
  qed
qed (simp add: covered_def)

section \<open>Buffered updates\<close>

definition buffered :: "dep_container \<Rightarrow> int \<Rightarrow> int list" where
  "buffered c v = (case map_of (variables_to_update c) v of None \<Rightarrow> [] | Some vs \<Rightarrow> vs)"

definition pending_set :: "dep_container \<Rightarrow> int \<Rightarrow> int set" where
  "pending_set c v = set (the (extended_map c v)) \<union> set (buffered c v)"

lemma includedInDependencies_iff:
  assumes "strict_sorted support" "extended_map c v = Some ds" "strict_sorted ds"
    and "strict_sorted (buffered c v)"
  shows "includedInDependencies e v support c = Some (set support \<subseteq> pending_set c v)"
  using assms includes_iff [OF assms(3,1)] included_walk_iff [OF assms(3), of "buffered c v" support e]
  by (auto simp: includedInDependencies_def pending_set_def buffered_def split: option.splits)

lemma map_of_map_default:
  "map_of (AList.map_default k v f al) k' =
     (if k' = k then Some (case map_of al k of None \<Rightarrow> v | Some w \<Rightarrow> f w) else map_of al k')"
  by (induction al) auto

lemma buffered_map_default:
  "buffered (c\<lparr>variables_to_update := AList.map_default k [x] (\<lambda>vs. vs @ [x]) (variables_to_update c)\<rparr>) v =
     (if v = k then buffered c v @ [x] else buffered c v)"
  by (simp add: buffered_def map_of_map_default split: option.splits)

lemma fst_map_default:
  "fst ` set (AList.map_default k v f al) = insert k (fst ` set al)"
  "distinct (map fst al) \<Longrightarrow> distinct (map fst (AList.map_default k v f al))"
  by (induction al) (auto simp: image_iff)

lemma schedule_loop_spec:
  assumes "strict_sorted support" "distinct undefs"
    and "\<forall>v\<in>set undefs. \<exists>ds. extended_map c v = Some ds \<and> strict_sorted ds"
    and "\<forall>v\<in>set undefs. strict_sorted (buffered c v)" "distinct (map fst (variables_to_update c))"
  shows "\<exists>updated' c'. schedule_loop e variable support undefs updated c = Some (updated', c') \<and>
     set updated' = set updated \<union> covered undefs support (pending_set c) \<and>
     (strict_sorted updated \<longrightarrow> strict_sorted updated') \<and>
     c' = c\<lparr>variables_to_update := variables_to_update c'\<rparr> \<and>
     distinct (map fst (variables_to_update c')) \<and>
     fst ` set (variables_to_update c') =
       fst ` set (variables_to_update c) \<union> covered undefs support (pending_set c) \<and>
     (\<forall>v. buffered c' v =
        (if v \<in> covered undefs support (pending_set c) then buffered c v @ [variable] else buffered c v))"
  using assms(2-)
proof (induction undefs arbitrary: updated c)
  case (Cons u undefs)
  obtain ds where ds: "extended_map c u = Some ds" "strict_sorted ds" using Cons.prems by auto
  have inc: "includedInDependencies e u support c = Some (set support \<subseteq> pending_set c u)"
    using includedInDependencies_iff [OF assms(1) ds] Cons.prems by simp
  show ?case
  proof (cases "set support \<subseteq> pending_set c u")
    case True
    define c1 where "c1 = c\<lparr>variables_to_update :=
      AList.map_default u [variable] (\<lambda>vs. vs @ [variable]) (variables_to_update c)\<rparr>"
    have b1: "buffered c1 v = (if v = u then buffered c v @ [variable] else buffered c v)" for v
      unfolding c1_def by (rule buffered_map_default)
    have ext1: "extended_map c1 = extended_map c" by (simp add: c1_def)
    have same: "covered undefs support (pending_set c1) = covered undefs support (pending_set c)"
      using Cons.prems(1) by (auto simp: covered_def pending_set_def b1 ext1)
    have all: "covered (u # undefs) support (pending_set c) = insert u (covered undefs support (pending_set c))"
      using True by (auto simp: covered_def)
    have step: "schedule_loop e variable support (u # undefs) updated c =
        schedule_loop e variable support undefs (set_insert u updated) c1"
      using True inc by (simp add: c1_def)
    have d1: "distinct (map fst (variables_to_update c1))"
      "fst ` set (variables_to_update c1) = insert u (fst ` set (variables_to_update c))"
      using Cons.prems(4) by (simp_all add: c1_def fst_map_default)
    have p1: "\<forall>v\<in>set undefs. strict_sorted (buffered c1 v)"
      using Cons.prems(1,3) by (auto simp: b1)
    have e1: "\<forall>v\<in>set undefs. \<exists>ds. extended_map c1 v = Some ds \<and> strict_sorted ds"
      using Cons.prems(2) by (simp add: ext1)
    obtain updated' c' where r: "schedule_loop e variable support undefs (set_insert u updated) c1 = Some (updated', c')"
      "set updated' = set (set_insert u updated) \<union> covered undefs support (pending_set c)"
      "strict_sorted (set_insert u updated) \<longrightarrow> strict_sorted updated'"
      "c' = c1\<lparr>variables_to_update := variables_to_update c'\<rparr>" "distinct (map fst (variables_to_update c'))"
      "fst ` set (variables_to_update c') =
         fst ` set (variables_to_update c1) \<union> covered undefs support (pending_set c)"
      "\<forall>v. buffered c' v = (if v \<in> covered undefs support (pending_set c)
         then buffered c1 v @ [variable] else buffered c1 v)"
      using Cons.IH [OF _ e1 p1 d1(1), of "set_insert u updated"] Cons.prems(1) unfolding same by auto
    have notin: "u \<notin> covered undefs support (pending_set c)"
      using Cons.prems(1) by (auto simp: covered_def)
    have "\<forall>v. buffered c' v = (if v \<in> covered (u # undefs) support (pending_set c)
         then buffered c v @ [variable] else buffered c v)"
      unfolding all using r(7) notin by (simp add: b1)
    moreover have "c' = c\<lparr>variables_to_update := variables_to_update c'\<rparr>"
      using r(4) by (simp add: c1_def)
    ultimately show ?thesis
      unfolding step all using r d1
      by (intro exI [of _ updated'] exI [of _ c'] conjI) auto
  next
    case False
    then have all: "covered (u # undefs) support (pending_set c) = covered undefs support (pending_set c)"
      by (auto simp: covered_def)
    have step: "schedule_loop e variable support (u # undefs) updated c =
        schedule_loop e variable support undefs updated c"
      using False inc by simp
    show ?thesis unfolding step all by (rule Cons.IH) (use Cons.prems in auto)
  qed
qed (simp add: covered_def)

lemma performUpdate_loop_spec:
  assumes "distinct (map fst entries)" "\<forall>(v, vs)\<in>set entries. extended_map c v \<noteq> None"
  shows "performUpdate_loop entries c = Some (c\<lparr>extended_map := (\<lambda>v.
     case map_of entries v of None \<Rightarrow> extended_map c v
     | Some vs \<Rightarrow> Some (merge_vectors (the (extended_map c v)) vs))\<rparr>)"
  using assms
proof (induction entries arbitrary: c)
  case (Cons e entries)
  obtain k val where e: "e = (k, val)" by force
  obtain ds where ds: "extended_map c k = Some ds" using Cons.prems(2) by (auto simp: e)
  have k: "k \<notin> fst ` set entries" using Cons.prems(1) by (simp add: e)
  define c1 where "c1 = c\<lparr>extended_map := (extended_map c)(k \<mapsto> merge_vectors ds val)\<rparr>"
  have "performUpdate_loop (e # entries) c = performUpdate_loop entries c1"
    by (simp add: e updateVectorMap_def ds c1_def)
  also have "\<dots> = Some (c1\<lparr>extended_map := (\<lambda>v.
     case map_of entries v of None \<Rightarrow> extended_map c1 v
     | Some vs \<Rightarrow> Some (merge_vectors (the (extended_map c1 v)) vs))\<rparr>)"
    by (rule Cons.IH) (use Cons.prems k in \<open>auto simp: e c1_def\<close>)
  also have "\<dots> = Some (c\<lparr>extended_map := (\<lambda>v.
     case map_of (e # entries) v of None \<Rightarrow> extended_map c v
     | Some vs \<Rightarrow> Some (merge_vectors (the (extended_map c v)) vs))\<rparr>)"
  proof -
    have "map_of entries k = None" using k by (simp add: map_of_eq_None_iff)
    then show ?thesis
      by (auto simp: c1_def e ds fun_eq_iff intro!: dep_container.equality split: option.splits)
  qed
  finally show ?case .
qed simp

definition merged_map :: "dep_container \<Rightarrow> (int \<rightharpoonup> int list)" where
  "merged_map c v =
     (case map_of (variables_to_update c) v of None \<Rightarrow> extended_map c v
      | Some vs \<Rightarrow> Some (merge_vectors (the (extended_map c v)) vs))"

lemma performUpdate_spec:
  assumes "distinct (map fst (variables_to_update c))"
    and "\<forall>v\<in>fst ` set (variables_to_update c). extended_map c v \<noteq> None"
  shows "performUpdate c = Some (c\<lparr>extended_map := merged_map c, variables_to_update := []\<rparr>)"
proof -
  have "performUpdate_loop (variables_to_update c) c = Some (c\<lparr>extended_map := merged_map c\<rparr>)"
    unfolding merged_map_def [abs_def]
    by (rule performUpdate_loop_spec) (use assms in auto)
  then show ?thesis by (simp add: performUpdate_def)
qed

lemma merge_vectors_Nil [simp]: "merge_vectors [] ys = ys"
  by (cases ys) auto

lemma merge_vectors_snoc:
  assumes "strict_sorted xs" "strict_sorted (ys @ [x])"
  shows "merge_vectors xs (ys @ [x]) = merge_vectors (merge_vectors xs ys) [x]"
  by (rule strict_sorted_unique)
     (use assms in \<open>auto simp: strict_sorted_merge_vectors sorted_wrt_append\<close>)

lemma buffers_sorted_buffered:
  "buffers_sorted c \<Longrightarrow> strict_sorted (buffered c v)"
  by (auto simp: buffers_sorted_def buffered_def split: option.splits dest: map_of_SomeD)

lemma merged_map_buffered:
  "extended_map c v = Some ds \<Longrightarrow> merged_map c v = Some (merge_vectors ds (buffered c v))"
  by (simp add: merged_map_def buffered_def split: option.splits)

section \<open>Properties\<close>

text \<open>C18: when the supports are acyclic and closed (every existential of a support is computed
  itself, at a smaller rank, or has a stored vector), the recursion of
  \<open>computeDynamicDependencies\<close> ends without a failing \<open>at\<close>, and returns as an ordered set
  exactly the closure of the support.\<close>

theorem computeDynamicDependencies_closure:
  assumes "supports_ranked rank c" "v \<in> to_compute c"
  shows "\<exists>r. computeDynamicDependencies v c = Some r \<and> set r = {w. dyn_dep c v w} \<and> strict_sorted r"
  by (rule computeDynamicDependencies_spec [OF assms])

definition demo_container :: dep_container where
  "demo_container =
     (new_DependencyContainer Map.empty [5 \<mapsto> [2, 1], 6 \<mapsto> [1, 2], 8 \<mapsto> [2]] {1, 2} [1, 2])
       \<lparr>to_compute := {7, 9}, supports := [7 \<mapsto> [2, 5], 9 \<mapsto> [1, 7]]\<rparr>"

lemma computeDynamicDependencies_closure_witness:
  "\<exists>r. computeDynamicDependencies 9 demo_container = Some r \<and>
       set r = {w. dyn_dep demo_container 9 w} \<and> strict_sorted r"
proof (rule computeDynamicDependencies_closure)
  show "supports_ranked nat demo_container"
    by (auto simp: supports_ranked_def demo_container_def new_DependencyContainer_def
        new_BaseDependencyContainer_def)
  show "9 \<in> to_compute demo_container" by (simp add: demo_container_def)
qed

text \<open>C19: every query of the container answers as the vector \<open>getExtendedDependencies\<close> returns
  says, for computed and for stored variables: inclusion of an ordered set, membership, and both
  restrictions of a literal list, the merge walk and the binary search agreeing with a filter.\<close>

theorem queries_agree:
  assumes "container_sorted c" "supports_ranked rank c" "getExtendedDependencies v c = Some ds"
    and "strict_sorted variables" "sorted_wrt (\<lambda>a b. \<bar>a\<bar> < \<bar>b\<bar>) literals"
  shows "includedInExtendedDependencies v variables c = Some (set variables \<subseteq> set ds) \<and>
         containedInExtendedDependencies w v c = Some (w \<in> set ds) \<and>
         restrictToExtendedDendenciesSorted literals v c = Some (filter (\<lambda>l. var l \<in> set ds) literals) \<and>
         restrictToExtendedDendencies literals v c = Some (filter (\<lambda>l. var l \<in> set ds) literals) \<and>
         extended_size v c = Some (card (set ds))"
proof -
  have ds: "strict_sorted ds"
    using assms(1,3) computeDynamicDependencies_spec [OF assms(2), of v]
    by (cases "v \<in> to_compute c") (auto simp: getExtendedDependencies_def container_sorted_def)
  then have card: "length ds = card (set ds)"
    by (simp add: strict_sorted_iff distinct_card)
  have search: "binary_search ds x \<longleftrightarrow> x \<in> set ds" for x
    using binary_search_iff ds strict_sorted_iff by blast
  show ?thesis
    using assms(3) includes_iff [OF ds assms(4)] restrictToVector_filter [OF assms(5) ds] card
    by (cases "v \<in> to_compute c")
       (auto simp: getExtendedDependencies_def includedInExtendedDependencies_def search
         containedInExtendedDependencies_def restrictToExtendedDendenciesSorted_def var_def
         restrictToExtendedDendencies_def restrictTo_def extended_size_def)
qed

lemma queries_agree_witness:
  "includedInExtendedDependencies 5 [1, 2] demo_container = Some (set [1, 2] \<subseteq> set [1, 2]) \<and>
   restrictToExtendedDendenciesSorted [- 1, 4] 5 demo_container =
     Some (filter (\<lambda>l. var l \<in> set [1, 2]) [- 1, 4])"
proof -
  have "container_sorted demo_container"
    by (auto simp: container_sorted_def demo_container_def new_DependencyContainer_def
        new_BaseDependencyContainer_def split: if_splits)
  moreover have "supports_ranked nat demo_container"
    by (auto simp: supports_ranked_def demo_container_def new_DependencyContainer_def
        new_BaseDependencyContainer_def)
  moreover have "getExtendedDependencies 5 demo_container = Some [1, 2]"
    by (simp add: getExtendedDependencies_def demo_container_def new_DependencyContainer_def
        new_BaseDependencyContainer_def)
  ultimately show ?thesis
    using queries_agree [of demo_container nat 5 "[1, 2]" "[1, 2]" "[- 1, 4]"] by simp
qed

text \<open>C15: buffering commutes with the immediate update. Scheduling a variable whose name is above
  everything buffered and merging later gives the same container and the same set of updated
  variables as merging first and updating at once, whatever the walk over the three ranges reads
  past the end of the support: exactly the undefined variables that cover the support gain the
  variable.\<close>

theorem schedule_refines_update:
  assumes "container_sorted c" "buffers_sorted c" "strict_sorted support" "strict_sorted undefs"
    and "variable \<notin> set undefs" "\<forall>v\<in>set undefs. extended_map c v \<noteq> None"
    and "\<forall>v. \<forall>w\<in>set (buffered c v). w < variable" "strict_sorted updated"
  shows "\<exists>updated' c1 c0 c2.
           scheduleUpdate past_end undefs variable support updated c = Some (updated', c1) \<and>
           performUpdate c = Some c0 \<and>
           updateExtendedDependencies undefs variable support updated c0 = Some (updated', c2) \<and>
           performUpdate c1 = Some c2 \<and>
           set updated' = set updated \<union> covered undefs support (\<lambda>v. set (the (extended_map c0 v)))"
proof -
  define upd where "upd d = d\<lparr>to_compute := insert variable (to_compute d),
    supports := emplace (supports d) variable support, extended_map := (extended_map d)(variable := None)\<rparr>"
    for d :: dep_container
  define d where "d = c\<lparr>to_compute := insert variable (to_compute c),
    supports := emplace (supports c) variable support,
    variables_to_update := AList.delete variable (variables_to_update c),
    extended_map := (extended_map c)(variable := None)\<rparr>"
  define c0 where "c0 = c\<lparr>extended_map := merged_map c, variables_to_update := []\<rparr>"
  have d_ext: "extended_map d = (extended_map c)(variable := None)" by (simp add: d_def upd_def)
  have d_buf: "buffered d v = (if v = variable then [] else buffered c v)" for v
    by (simp add: d_def buffered_def delete_conv)
  have keys_c: "distinct (map fst (variables_to_update c))"
    "\<forall>v\<in>fst ` set (variables_to_update c). extended_map c v \<noteq> None"
    using assms(2) by (auto simp: buffers_sorted_def)
  have keys_d: "distinct (map fst (variables_to_update d))"
    "fst ` set (variables_to_update d) = fst ` set (variables_to_update c) - {variable}"
    using keys_c(1)
    by (simp_all add: d_def AList.distinct_delete, auto simp: AList.delete_eq)
  have c0: "performUpdate c = Some c0"
    using performUpdate_spec [OF keys_c] by (simp add: c0_def)
  have srt: "\<exists>ds. extended_map c v = Some ds \<and> strict_sorted ds" if "v \<in> set undefs" for v
    using that assms(1,6) by (auto simp: container_sorted_def)
  have buf: "strict_sorted (buffered c v)" for v
    using assms(2) by (rule buffers_sorted_buffered)
  have und: "distinct undefs" using assms(4) by (simp add: strict_sorted_iff)
  let ?cov = "covered undefs support (pending_set d)"
  have "\<forall>v\<in>set undefs. \<exists>ds. extended_map d v = Some ds \<and> strict_sorted ds"
    "\<forall>v\<in>set undefs. strict_sorted (buffered d v)"
    using srt buf assms(5) by (auto simp: d_ext d_buf)
  from schedule_loop_spec [OF assms(3) und this keys_d(1), of past_end variable updated]
  obtain updated' c1 where s: "schedule_loop past_end variable support undefs updated d = Some (updated', c1)"
    "set updated' = set updated \<union> ?cov" "strict_sorted updated'"
    "c1 = d\<lparr>variables_to_update := variables_to_update c1\<rparr>" "distinct (map fst (variables_to_update c1))"
    "fst ` set (variables_to_update c1) = fst ` set (variables_to_update d) \<union> ?cov"
    "\<forall>v. buffered c1 v = (if v \<in> ?cov then buffered d v @ [variable] else buffered d v)"
    using assms(8) by blast
  have c1_ext: "extended_map c1 = extended_map d" by (subst s(4)) simp
  have merged: "merged_map c v = Some (merge_vectors (the (extended_map c v)) (buffered c v))"
    if "v \<in> set undefs" for v
    using srt [OF that] merged_map_buffered by auto
  have cov: "covered undefs support (\<lambda>v. set (the (extended_map (upd c0) v))) = ?cov"
    "covered undefs support (\<lambda>v. set (the (extended_map c0 v))) = ?cov"
    using assms(5) merged
    by (auto simp: covered_def pending_set_def d_ext d_buf upd_def c0_def)
  have "\<forall>v\<in>set undefs. \<exists>ds. extended_map (upd c0) v = Some ds \<and> strict_sorted ds"
    using srt buf assms(5) merged strict_sorted_merge_vectors by (fastforce simp: upd_def c0_def)
  from update_loop_spec [OF assms(3) und assms(5) this, of updated]
  obtain updated'' c2 where u: "update_loop variable support undefs updated (upd c0) = Some (updated'', c2)"
    "set updated'' = set updated \<union> ?cov" "strict_sorted updated''"
    "c2 = (upd c0)\<lparr>extended_map := extended_map c2\<rparr>"
    "\<forall>v. extended_map c2 v = (if v \<in> ?cov
       then Some (merge_vectors (the (extended_map (upd c0) v)) [variable]) else extended_map (upd c0) v)"
    using assms(8) unfolding cov by blast
  have "updated'' = updated'" using s(2,3) u(2,3) by (intro strict_sorted_unique) auto
  have keys_1: "\<forall>v\<in>fst ` set (variables_to_update c1). extended_map c1 v \<noteq> None"
    using keys_c(2) keys_d(2) assms(5,6) unfolding s(6) c1_ext d_ext
    by (auto simp: covered_def)
  have "merged_map c1 v = extended_map c2 v" for v
  proof -
    consider (cov) "v \<in> ?cov" | (self) "v = variable" | (other) "v \<notin> ?cov" "v \<noteq> variable" by blast
    then show ?thesis
    proof cases
      case cov
      then have v: "v \<in> set undefs" "v \<noteq> variable" using assms(5) by (auto simp: covered_def)
      obtain ds where ds: "extended_map c v = Some ds" "strict_sorted ds" using srt v by blast
      have "merged_map c1 v = Some (merge_vectors ds (buffered c v @ [variable]))"
        using merged_map_buffered [of c1 v ds] ds v s(7) cov by (simp add: c1_ext d_ext d_buf)
      also have "\<dots> = Some (merge_vectors (merge_vectors ds (buffered c v)) [variable])"
        using merge_vectors_snoc [OF ds(2), of "buffered c v" variable] buf [of v] assms(7)
        by (simp add: sorted_wrt_append)
      finally show ?thesis using u(5) cov v merged [OF v(1)] ds by (simp add: upd_def c0_def)
    next
      case self
      then have "v \<notin> ?cov" using assms(5) by (auto simp: covered_def)
      moreover have "map_of (variables_to_update c1) v = None"
        using s(6) keys_d(2) self \<open>v \<notin> ?cov\<close> by (simp add: map_of_eq_None_iff)
      ultimately show ?thesis
        using u(5) self by (simp add: merged_map_def c1_ext d_ext upd_def)
    next
      case other
      have b: "buffered c1 v = buffered c v" using other s(7) by (simp add: d_buf)
      have "merged_map c1 v = merged_map c v"
      proof (cases "extended_map c v")
        case None
        then have "v \<notin> fst ` set (variables_to_update c)" using keys_c(2) by auto
        then have "map_of (variables_to_update c) v = None" "map_of (variables_to_update c1) v = None"
          using s(6) keys_d(2) other by (simp_all add: map_of_eq_None_iff)
        then show ?thesis using other by (simp add: merged_map_def c1_ext d_ext)
      next
        case (Some ds)
        then show ?thesis
          using merged_map_buffered [of c v ds] merged_map_buffered [of c1 v ds] other b
          by (simp add: c1_ext d_ext)
      qed
      then show ?thesis using u(5) other by (simp add: upd_def c0_def)
    qed
  qed
  then have "c1\<lparr>extended_map := merged_map c1, variables_to_update := []\<rparr> =
      d\<lparr>extended_map := extended_map c2, variables_to_update := []\<rparr>"
    by (subst s(4)) (simp add: fun_eq_iff)
  also have "\<dots> = c2"
    by (subst u(4)) (simp add: d_def upd_def c0_def)
  finally have "performUpdate c1 = Some c2"
    using performUpdate_spec [OF s(5) keys_1] by simp
  moreover have "scheduleUpdate past_end undefs variable support updated c = Some (updated', c1)"
    using s(1) unfolding scheduleUpdate_def d_def .
  moreover have "updateExtendedDependencies undefs variable support updated c0 = Some (updated', c2)"
    using u(1) \<open>updated'' = updated'\<close> by (simp add: updateExtendedDependencies_def upd_def)
  ultimately show ?thesis
    using c0 s(2) cov(2) by blast
qed

definition small_container :: dep_container where
  "small_container = new_DependencyContainer Map.empty [5 \<mapsto> [2, 1], 6 \<mapsto> [1]] {1, 2} [1, 2]"

lemma schedule_refines_update_witness:
  "\<exists>updated' c1 c0 c2.
     scheduleUpdate 0 [5, 6] 7 [1, 2] [] small_container = Some (updated', c1) \<and>
     performUpdate small_container = Some c0 \<and>
     updateExtendedDependencies [5, 6] 7 [1, 2] [] c0 = Some (updated', c2) \<and>
     performUpdate c1 = Some c2 \<and>
     set updated' = set [] \<union> covered [5, 6] [1, 2] (\<lambda>v. set (the (extended_map c0 v)))"
  by (rule schedule_refines_update)
     (auto simp: container_sorted_def buffers_sorted_def small_container_def new_DependencyContainer_def
       new_BaseDependencyContainer_def buffered_def split: if_splits)

end
