(* ===== verification/Configuration.thy ===== *)
theory Configuration
  imports Main
begin

text \<open>
  The configuration of a run, \<open>src/configuration.h\<close>: the struct field by field with its
  default member initialisers. The two members without an initialiser, \<open>random_seed\<close> and
  \<open>nof_samples\<close>, hold 0 here and are only read after they have been set.
\<close>

datatype SatSolverType = Cadical | Glucose
datatype ConflictStrategy = Core | MinSeparator
datatype DefaultStrategy = Values | Functions

record configuration =
  apply_dependency_schemes :: bool
  apply_forall_reduction :: bool
  ignore_innermost_existentials :: bool
  check_definability_of_innermost_existentials :: bool
  extended_dependencies :: bool
  dynamic_dependencies :: bool
  always_add_arbiter_clause :: bool
  use_definitions :: bool
  conditional_definitions :: bool
  check_for_unates :: bool
  use_forcing_clauses :: bool
  check_for_fcs_matrix :: bool
  allow_arbiters_in_forcing_clauses :: bool
  replace_arbiters_in_separators :: bool
  use_conflict_limit_unate_solver :: bool
  conflict_limit_unate_solver :: int
  conflict_limit_definability_checker :: int
  incremental_definability_max_iterations :: int
  def_limit :: int
  verbosity :: int
  random_seed_set :: bool
  random_seed :: int
  extract_cnf_model :: bool
  cnf_model_filename :: string
  extract_aig_model :: bool
  aig_model_filename :: string
  extract_aag_model :: bool
  aag_model_filename :: string
  sup_strat :: ConflictStrategy
  arbiter_solver :: SatSolverType
  validity_solver :: SatSolverType
  conflict_solver :: SatSolverType
  consistency_solver :: SatSolverType
  definability_solver :: SatSolverType
  unate_solver :: SatSolverType
  def_strat :: DefaultStrategy
  use_existentials_in_tree :: bool
  add_samples_for_arbiters :: bool
  min_number_samples_in_node :: int
  use_max_number :: bool
  max_number_samples_in_node :: int
  check_intervall :: int
  return_default_tree :: bool
  write_default_tree_to :: string
  visualise_default_trees :: bool
  write_visualisations_to :: string
  log_default_tree :: bool
  write_default_tree_log_to :: string
  log_conflict_graphs :: bool
  conflict_graph_log_dir :: string
  batch_learning_for_samples :: bool
  use_sampling :: bool
  nof_samples :: int

definition default_configuration :: configuration where
  "default_configuration =
     \<lparr>apply_dependency_schemes = True, apply_forall_reduction = True,
      ignore_innermost_existentials = False, check_definability_of_innermost_existentials = False,
      extended_dependencies = True, dynamic_dependencies = True, always_add_arbiter_clause = False,
      use_definitions = True, conditional_definitions = False, check_for_unates = False,
      use_forcing_clauses = True, check_for_fcs_matrix = False,
      allow_arbiters_in_forcing_clauses = False, replace_arbiters_in_separators = True,
      use_conflict_limit_unate_solver = False, conflict_limit_unate_solver = 1000,
      conflict_limit_definability_checker = 1000, incremental_definability_max_iterations = 2,
      def_limit = 1, verbosity = 1, random_seed_set = False, random_seed = 0,
      extract_cnf_model = False, cnf_model_filename = [], extract_aig_model = False,
      aig_model_filename = [], extract_aag_model = False, aag_model_filename = [],
      sup_strat = MinSeparator, arbiter_solver = Cadical, validity_solver = Cadical,
      conflict_solver = Cadical, consistency_solver = Cadical, definability_solver = Cadical,
      unate_solver = Cadical, def_strat = Functions, use_existentials_in_tree = False,
      add_samples_for_arbiters = False, min_number_samples_in_node = 5, use_max_number = True,
      max_number_samples_in_node = 20, check_intervall = 5, return_default_tree = False,
      write_default_tree_to = [], visualise_default_trees = False, write_visualisations_to = [],
      log_default_tree = False, write_default_tree_log_to = [], log_conflict_graphs = False,
      conflict_graph_log_dir = [], batch_learning_for_samples = False, use_sampling = False,
      nof_samples = 0\<rparr>"

end
