(* ===== verification/DependencyExtractor.thy ===== *)
theory DependencyExtractor
  imports Dqdimacs Utils Configuration
begin

text \<open>
  \<open>src/dependencyextractor.cc\<close>: the original dependencies of the prefix, their extension by
  existential variables, and the pruning of the original ones by the reflexive resolution path
  dependency scheme. The object holds a reference to the formula, whose variable blocks it sorts
  in place; here the formula is a component of the state. \<open>at\<close> on a missing key and an access
  outside a \<open>vector<bool>\<close> are \<open>None\<close>.
\<close>

section \<open>State and construction\<close>

record extractor =
  max_variable_in_matrix :: int
  existential_block_idx_end :: int
  formula :: dqdimacs
  original_dependency_map :: "int \<rightharpoonup> int list"

definition new_DependencyExtractor :: "configuration \<Rightarrow> dqdimacs \<Rightarrow> extractor" where
  "new_DependencyExtractor config d =
     (let ignore_innermost_existential_block =
            (ignore_innermost_existentials config \<and> \<not> lastBlockType d);
          n = int (getNofExistentialBlocks d)
      in \<lparr>max_variable_in_matrix = max_var d,
          existential_block_idx_end = (if ignore_innermost_existential_block then n - 1 else n),
          formula = d, original_dependency_map = Map.empty\<rparr>)"

section \<open>Original dependencies\<close>

definition sort_range :: "nat \<Rightarrow> nat \<Rightarrow> int list \<Rightarrow> int list" where
  "sort_range i j xs = take i xs @ sort (take (j - i) (drop i xs)) @ drop (max i j) xs"

definition slice :: "nat \<Rightarrow> nat \<Rightarrow> 'a list \<Rightarrow> 'a list" where
  "slice i j xs = take (j - i) (drop i xs)"

definition emplace_map :: "(int \<rightharpoonup> 'a) \<Rightarrow> int \<Rightarrow> 'a \<Rightarrow> (int \<rightharpoonup> 'a)" where
  "emplace_map m k v = (case m k of None \<Rightarrow> m(k \<mapsto> v) | Some _ \<Rightarrow> m)"

definition sort_universals :: "nat \<Rightarrow> extractor \<Rightarrow> extractor" where
  "sort_universals n x =
     x\<lparr>formula := (formula x)\<lparr>universal_variables := sort_range 0 n (universal_variables (formula x))\<rparr>\<rparr>"

definition sort_existentials :: "nat \<Rightarrow> nat \<Rightarrow> extractor \<Rightarrow> extractor" where
  "sort_existentials i j x =
     x\<lparr>formula := (formula x)\<lparr>existential_variables := sort_range i j (existential_variables (formula x))\<rparr>\<rparr>"

definition start_universals :: "extractor \<Rightarrow> nat \<times> extractor" where
  "start_universals x =
     (if first_block_type (formula x)
      then (1, sort_universals (universal_blocks (formula x) ! 1) x) else (0, x))"

definition next_universals :: "nat \<Rightarrow> extractor \<Rightarrow> nat \<times> extractor" where
  "next_universals universal_index x =
     (if universal_index < getNofUniversalBlocks (formula x)
      then (universal_index + 1, sort_universals (universal_blocks (formula x) ! (universal_index + 1)) x)
      else (universal_index, x))"

definition set_original :: "int \<Rightarrow> int list \<Rightarrow> extractor \<Rightarrow> extractor" where
  "set_original v deps x =
     x\<lparr>original_dependency_map := emplace_map (original_dependency_map x) v deps\<rparr>"

text \<open>The variables of a block, and the universals before it.\<close>

definition block_variables :: "nat \<Rightarrow> extractor \<Rightarrow> int list" where
  "block_variables i x =
     slice (existential_blocks (formula x) ! i) (existential_blocks (formula x) ! (i + 1))
       (existential_variables (formula x))"

definition universal_prefix :: "nat \<Rightarrow> extractor \<Rightarrow> int list" where
  "universal_prefix universal_index x =
     take (universal_blocks (formula x) ! universal_index) (universal_variables (formula x))"

fun computeDependencies_loop :: "nat list \<Rightarrow> nat \<Rightarrow> extractor \<Rightarrow> extractor" where
  "computeDependencies_loop [] universal_index x = x"
| "computeDependencies_loop (i # is) universal_index x =
     (let x1 = fold (\<lambda>e. set_original e (universal_prefix universal_index x)) (block_variables i x) x;
          (universal_index', x2) = next_universals universal_index x1
      in computeDependencies_loop is universal_index' x2)"

definition computeDependencies :: "extractor \<Rightarrow> extractor" where
  "computeDependencies x =
     (if universal_variables (formula x) = [] then
        fold (\<lambda>e x. x\<lparr>original_dependency_map := (original_dependency_map x)(e \<mapsto> [])\<rparr>)
          (getAllExistentials (formula x)) x
      else
        let (universal_index, x1) = start_universals x;
            x2 = computeDependencies_loop [0..<nat (existential_block_idx_end x)] universal_index x1
        in fold (\<lambda>(v, deps). set_original v deps) (explicit_dependencies (formula x)) x2)"

section \<open>Extended dependencies\<close>

type_synonym ext_map = "int \<rightharpoonup> int list"

definition push :: "int \<Rightarrow> int list \<Rightarrow> ext_map \<Rightarrow> ext_map option" where
  "push v ws ext = (case ext v of None \<Rightarrow> None | Some ds \<Rightarrow> Some (ext(v \<mapsto> ds @ ws)))"

fun push_each :: "int list \<Rightarrow> int \<Rightarrow> ext_map \<Rightarrow> ext_map option" where
  "push_each [] w ext = Some ext"
| "push_each (v # vs) w ext = Option.bind (push v [w] ext) (push_each vs w)"

definition representative :: "extractor \<Rightarrow> int \<Rightarrow> int" where
  "representative x i = existential_variables (formula x) ! (existential_blocks (formula x) ! nat i)"

text \<open>A start above the end is not reached from \<open>checkImplicitdependencies\<close> when there is a block.\<close>

function getMaximalSubSet :: "extractor \<Rightarrow> int \<Rightarrow> int \<Rightarrow> int \<Rightarrow> int option" where
  "getMaximalSubSet x v start_index end_index =
     (if start_index = end_index then Some (- 1)
      else if end_index < start_index then None
      else
        let mid_idx = (start_index + end_index) div 2 in
        (case (original_dependency_map x v, original_dependency_map x (representative x mid_idx)) of
           (Some var_deps, Some deps) \<Rightarrow>
             if std_includes var_deps deps
             then map_option (\<lambda>i. max i mid_idx) (getMaximalSubSet x v (mid_idx + 1) end_index)
             else getMaximalSubSet x v start_index mid_idx
         | _ \<Rightarrow> None))"
  by pat_completeness auto
termination
  by (relation "measure (\<lambda>(_, _, s, e). nat (e - s))") auto

function getMinimalSuperSet :: "extractor \<Rightarrow> int \<Rightarrow> int \<Rightarrow> int \<Rightarrow> int option" where
  "getMinimalSuperSet x v start_index end_index =
     (if start_index = end_index then Some (int (getNofExistentialBlocks (formula x)))
      else if end_index < start_index then None
      else
        let mid_idx = (start_index + end_index) div 2 in
        (case (original_dependency_map x v, original_dependency_map x (representative x mid_idx)) of
           (Some var_deps, Some deps) \<Rightarrow>
             if std_includes deps var_deps
             then map_option (\<lambda>i. min i mid_idx) (getMinimalSuperSet x v start_index mid_idx)
             else getMinimalSuperSet x v (mid_idx + 1) end_index
         | _ \<Rightarrow> None))"
  by pat_completeness auto
termination
  by (relation "measure (\<lambda>(_, _, s, e). nat (e - s))") auto

declare getMaximalSubSet.simps [simp del] getMinimalSuperSet.simps [simp del]

definition addExplicitToImplicit :: "extractor \<Rightarrow> int \<Rightarrow> int \<Rightarrow> ext_map \<Rightarrow> ext_map option" where
  "addExplicitToImplicit x v idx ext =
     (let start_idx = existential_blocks (formula x) ! nat idx
      in push_each (drop start_idx (existential_variables (formula x))) v ext)"

definition addImplicitToExplicit :: "extractor \<Rightarrow> int \<Rightarrow> int \<Rightarrow> ext_map \<Rightarrow> ext_map option" where
  "addImplicitToExplicit x v idx ext =
     (let stop_idx = existential_blocks (formula x) ! nat (idx + 1)
      in push v (take stop_idx (existential_variables (formula x))) ext)"

text \<open>
  The first comparison is with the number of existential variables, as in the code. The read of
  \<open>existential_blocks[msub_idx]\<close> before the test of \<open>msub_idx\<close> is not used and left out.
\<close>

definition same_dependencies :: "extractor \<Rightarrow> int \<Rightarrow> int \<Rightarrow> ext_map \<Rightarrow> ext_map option" where
  "same_dependencies x v msub_idx ext =
     (let evars = existential_variables (formula x); eblocks = existential_blocks (formula x);
          first = eblocks ! nat msub_idx; stop = eblocks ! nat (msub_idx + 1);
          block = slice first stop evars;
          it = lower_bound block v
      in Option.bind (if msub_idx \<noteq> 0 then addImplicitToExplicit x v (msub_idx - 1) ext else Some ext) (\<lambda>ext.
         Option.bind (if msub_idx \<noteq> int (length evars) - 1
                      then addExplicitToImplicit x v (msub_idx + 1) ext else Some ext) (\<lambda>ext.
         Option.bind (push v (take it block) ext) (\<lambda>ext.
           push_each (drop it block) v ext))))"

definition push_to_supersets :: "extractor \<Rightarrow> int \<Rightarrow> int \<Rightarrow> ext_map \<Rightarrow> ext_map option" where
  "push_to_supersets x v msup_start ext =
     Option.bind (getMinimalSuperSet x v msup_start (existential_block_idx_end x)) (\<lambda>msup_idx.
       if msup_idx \<noteq> int (getNofExistentialBlocks (formula x))
       then addExplicitToImplicit x v msup_idx ext else Some ext)"

definition checkImplicitdependencies :: "extractor \<Rightarrow> int \<Rightarrow> ext_map \<Rightarrow> ext_map option" where
  "checkImplicitdependencies x v ext =
     Option.bind (original_dependency_map x v) (\<lambda>var_deps.
     Option.bind (getMaximalSubSet x v 0 (existential_block_idx_end x)) (\<lambda>msub_idx.
       if msub_idx \<noteq> - 1 then
         Option.bind (original_dependency_map x (representative x msub_idx)) (\<lambda>deps.
           if length var_deps = length deps then same_dependencies x v msub_idx ext
           else Option.bind (addImplicitToExplicit x v msub_idx ext) (push_to_supersets x v (msub_idx + 1)))
       else push_to_supersets x v 0 ext))"

fun checkExplicitDependencies :: "extractor \<Rightarrow> int \<Rightarrow> int list \<Rightarrow> ext_map \<Rightarrow> ext_map option" where
  "checkExplicitDependencies x v [] ext = Some ext"
| "checkExplicitDependencies x v (w # processed) ext =
     (case (original_dependency_map x v, original_dependency_map x w) of
        (Some var_deps, Some deps) \<Rightarrow>
          Option.bind
            (if std_includes var_deps deps then
               (if length var_deps = length deps then
                  (if v < w then push w [v] ext else push v [w] ext)
                else push v [w] ext)
             else if std_includes deps var_deps then push w [v] ext
             else Some ext)
            (checkExplicitDependencies x v processed)
      | _ \<Rightarrow> None)"

text \<open>One implicit block: every variable gets the universals and the existentials before it.\<close>

fun extend_block :: "nat \<Rightarrow> int list \<Rightarrow> int list \<Rightarrow> extractor \<Rightarrow> ext_map \<Rightarrow> (extractor \<times> ext_map) option" where
  "extend_block universal_index before [] x ext = Some (x, ext)"
| "extend_block universal_index before (e # es) x ext =
     (let deps = universal_prefix universal_index x;
          x1 = set_original e deps x;
          ext1 = emplace_map ext e deps
      in Option.bind (push e before ext1) (extend_block universal_index (before @ [e]) es x1))"

fun extend_implicit :: "nat list \<Rightarrow> nat \<Rightarrow> extractor \<Rightarrow> ext_map \<Rightarrow> (extractor \<times> ext_map) option" where
  "extend_implicit [] universal_index x ext = Some (x, ext)"
| "extend_implicit (i # is) universal_index x ext =
     (let eblocks = existential_blocks (formula x);
          x1 = sort_existentials (eblocks ! i) (eblocks ! (i + 1)) x
      in Option.bind
           (extend_block universal_index (take (eblocks ! i) (existential_variables (formula x1)))
              (block_variables i x1) x1 ext)
           (\<lambda>(x2, ext2).
             let (universal_index', x3) = next_universals universal_index x2
             in extend_implicit is universal_index' x3 ext2))"

fun extend_explicit ::
  "(int \<times> int list) list \<Rightarrow> int list \<Rightarrow> extractor \<Rightarrow> ext_map \<Rightarrow> (extractor \<times> ext_map) option" where
  "extend_explicit [] processed x ext = Some (x, ext)"
| "extend_explicit ((v, deps) # entries) processed x ext =
     (let sorted_dependencies = sort deps;
          x1 = set_original v sorted_dependencies x;
          ext1 = emplace_map ext v sorted_dependencies
      in Option.bind (checkImplicitdependencies x1 v ext1) (\<lambda>ext2.
         Option.bind (checkExplicitDependencies x1 v processed ext2) (\<lambda>ext3.
           extend_explicit entries (processed @ [v]) x1 ext3)))"

fun extend_no_universals :: "int list \<Rightarrow> int list \<Rightarrow> extractor \<Rightarrow> ext_map \<Rightarrow> extractor \<times> ext_map" where
  "extend_no_universals [] visited x ext = (x, ext)"
| "extend_no_universals (e # es) visited x ext =
     extend_no_universals es (visited @ [e])
       (x\<lparr>original_dependency_map := (original_dependency_map x)(e \<mapsto> [])\<rparr>) (ext(e \<mapsto> visited))"

definition computeExtendedDependencies :: "extractor \<Rightarrow> (extractor \<times> ext_map) option" where
  "computeExtendedDependencies x =
     (if universal_variables (formula x) = []
      then Some (extend_no_universals (sort (getAllExistentials (formula x))) [] x Map.empty)
      else
        let (universal_index, x1) = start_universals x
        in Option.bind
             (extend_implicit [0..<nat (existential_block_idx_end x)] universal_index x1 Map.empty)
             (\<lambda>(x2, ext). extend_explicit (explicit_dependencies (formula x2)) [] x2 ext))"

end
