(* ===== verification/DependencyScheme.thy ===== *)
theory DependencyScheme
  imports DependencyExtractor
begin

text \<open>
  The second half of \<open>src/dependencyextractor.cc\<close>: pruning the original dependencies with the
  reflexive resolution path scheme. The search vectors are lists of Booleans of fixed length; an
  access outside one is \<open>None\<close>. The original dependency map is iterated, so its iteration order
  is an argument, a list of its keys. The recursion of \<open>searchPaths\<close> works on the list of
  literals one activation still has to visit, so that a recursive call and the loop around it
  are one function; \<open>None\<close> also stands for a search that does not end.
\<close>

section \<open>Vectors\<close>

definition vec_get :: "bool list \<Rightarrow> int \<Rightarrow> bool option" where
  "vec_get xs i = (if 0 \<le> i \<and> i < int (length xs) then Some (xs ! nat i) else None)"

definition vec_set :: "int \<Rightarrow> bool \<Rightarrow> bool list \<Rightarrow> bool list option" where
  "vec_set i b xs = (if 0 \<le> i \<and> i < int (length xs) then Some (xs[nat i := b]) else None)"

fun vec_set_all :: "int list \<Rightarrow> bool \<Rightarrow> bool list \<Rightarrow> bool list option" where
  "vec_set_all [] b xs = Some xs"
| "vec_set_all (i # is) b xs = Option.bind (vec_set i b xs) (vec_set_all is b)"

definition multimap_push :: "(int \<Rightarrow> 'a list) \<Rightarrow> int \<Rightarrow> 'a \<Rightarrow> (int \<Rightarrow> 'a list)" where
  "multimap_push m k v = m(k := m k @ [v])"

section \<open>Inverse dependencies and occurrences\<close>

text \<open>\<open>operator[]\<close> yields the empty vector for a new key, so these maps are total.\<close>

definition computeInverseDependencies :: "int list \<Rightarrow> extractor \<Rightarrow> (int \<Rightarrow> int list)" where
  "computeInverseDependencies keys x =
     fold (\<lambda>key inv_deps. fold (\<lambda>u inv_deps. multimap_push inv_deps u key)
             (the (original_dependency_map x key)) inv_deps)
       keys (\<lambda>_. [])"

definition getContainingClauses :: "cnf \<Rightarrow> (int \<Rightarrow> nat list)" where
  "getContainingClauses F =
     fold (\<lambda>i containing. fold (\<lambda>l containing. multimap_push containing l i) (F ! i) containing)
       [0..<length F] (\<lambda>_. [])"

section \<open>The search\<close>

definition marked_index :: "int \<Rightarrow> int \<Rightarrow> int" where
  "marked_index max_variable l = (if l < 0 then - l + max_variable else l) - 1"

definition next_literals :: "cnf \<Rightarrow> (int \<Rightarrow> nat list) \<Rightarrow> int \<Rightarrow> int list" where
  "next_literals F containing_clauses l =
     concat (map (\<lambda>clause_index. filter (\<lambda>k. k \<noteq> - l) (F ! clause_index)) (containing_clauses (- l)))"

partial_function (option) searchPaths_all ::
  "int \<Rightarrow> cnf \<Rightarrow> bool list \<Rightarrow> (int \<Rightarrow> nat list) \<Rightarrow> int list \<Rightarrow> bool list \<Rightarrow> bool list option" where
  "searchPaths_all max_variable F toConsider containing ls marked =
     (case ls of
        [] \<Rightarrow> Some marked
      | l # rest \<Rightarrow>
          Option.bind (vec_get toConsider (\<bar>l\<bar> - 1)) (\<lambda>considered.
          Option.bind (if considered then vec_get marked (marked_index max_variable l) else Some True)
            (\<lambda>seen.
              if seen then searchPaths_all max_variable F toConsider containing rest marked
              else
                Option.bind (vec_set (marked_index max_variable l) True marked) (\<lambda>marked1.
                Option.bind
                  (searchPaths_all max_variable F toConsider containing
                     (next_literals F containing l) marked1)
                  (\<lambda>marked2. searchPaths_all max_variable F toConsider containing rest marked2)))))"

definition searchPaths ::
  "extractor \<Rightarrow> int \<Rightarrow> bool list \<Rightarrow> bool list \<Rightarrow> (int \<Rightarrow> nat list) \<Rightarrow> bool list option" where
  "searchPaths x literal_to_start toConsider marked containing =
     searchPaths_all (max_variable_in_matrix x) (matrix (formula x)) toConsider containing
       [literal_to_start] marked"

section \<open>One universal variable\<close>

text \<open>The three vectors: variables to consider, literals marked from \<open>u\<close> and from \<open>\<not> u\<close>.\<close>

record search_vectors =
  to_consider :: "bool list"
  marked_positive :: "bool list"
  marked_negative :: "bool list"

definition ignored_existentials :: "extractor \<Rightarrow> int list" where
  "ignored_existentials x =
     (if existential_block_idx_end x \<noteq> int (getNofExistentialBlocks (formula x))
      then drop (existential_blocks (formula x) ! nat (existential_block_idx_end x))
             (existential_variables (formula x))
      else [])"

definition clear_variables :: "int \<Rightarrow> int list \<Rightarrow> search_vectors \<Rightarrow> search_vectors option" where
  "clear_variables n es v =
     (let slots = concat (map (\<lambda>e. [e - 1, e + n - 1]) es) in
      Option.bind (vec_set_all slots False (marked_positive v)) (\<lambda>mp.
      Option.bind (vec_set_all slots False (marked_negative v)) (\<lambda>mn.
      Option.bind (vec_set_all (map (\<lambda>e. e - 1) es) True (to_consider v)) (\<lambda>tc.
        Some \<lparr>to_consider = tc, marked_positive = mp, marked_negative = mn\<rparr>))))"

definition setUpSearchVectors ::
  "extractor \<Rightarrow> int \<Rightarrow> int list \<Rightarrow> search_vectors \<Rightarrow> search_vectors option" where
  "setUpSearchVectors x universal inverse_deps v =
     (let n = max_variable_in_matrix x in
      Option.bind (clear_variables n inverse_deps v) (\<lambda>v.
      Option.bind (clear_variables n (ignored_existentials x) v) (\<lambda>v.
      Option.bind (vec_set (universal - 1) True (marked_negative v)) (\<lambda>mn.
      Option.bind (vec_set (universal + n - 1) True (marked_positive v)) (\<lambda>mp.
      Option.bind (vec_set (universal - 1) True (to_consider v)) (\<lambda>tc.
        Some \<lparr>to_consider = tc, marked_positive = mp, marked_negative = mn\<rparr>))))))"

definition revertSearchVectors ::
  "extractor \<Rightarrow> int \<Rightarrow> int list \<Rightarrow> bool list \<Rightarrow> bool list option" where
  "revertSearchVectors x universal inverse_deps toConsider =
     Option.bind (vec_set_all (map (\<lambda>e. e - 1) inverse_deps) False toConsider) (\<lambda>tc.
     Option.bind (vec_set_all (map (\<lambda>e. e - 1) (ignored_existentials x)) False tc) (\<lambda>tc.
       vec_set (universal - 1) False tc))"

text \<open>An existential variable that a pair of paths reaches keeps the universal as a dependency.\<close>

fun keep_reached :: "int \<Rightarrow> int \<Rightarrow> search_vectors \<Rightarrow> int list \<Rightarrow> (int \<rightharpoonup> int list) \<Rightarrow> (int \<rightharpoonup> int list) option" where
  "keep_reached n u v [] pruned = Some pruned"
| "keep_reached n u v (e # es) pruned =
     (case (vec_get (marked_positive v) (e - 1), vec_get (marked_negative v) (e + n - 1),
            vec_get (marked_positive v) (e + n - 1), vec_get (marked_negative v) (e - 1)) of
        (Some a, Some b, Some c, Some d) \<Rightarrow>
          keep_reached n u v es
            (if a \<and> b \<or> c \<and> d
             then pruned(e \<mapsto> (case pruned e of None \<Rightarrow> [] | Some us \<Rightarrow> us) @ [u]) else pruned)
      | _ \<Rightarrow> None)"

definition scheme_step ::
  "extractor \<Rightarrow> (int \<Rightarrow> int list) \<Rightarrow> (int \<Rightarrow> nat list) \<Rightarrow> int \<Rightarrow>
   search_vectors \<Rightarrow> (int \<rightharpoonup> int list) \<Rightarrow> (search_vectors \<times> (int \<rightharpoonup> int list)) option" where
  "scheme_step x inv_deps containing u v pruned =
     Option.bind (setUpSearchVectors x u (inv_deps u) v) (\<lambda>v.
     Option.bind (searchPaths x u (to_consider v) (marked_positive v) containing) (\<lambda>mp.
     Option.bind (searchPaths x (- u) (to_consider v) (marked_negative v) containing) (\<lambda>mn.
     Option.bind (revertSearchVectors x u (inv_deps u) (to_consider v)) (\<lambda>tc.
       let v' = \<lparr>to_consider = tc, marked_positive = mp, marked_negative = mn\<rparr> in
       map_option (\<lambda>pruned. (v', pruned))
         (keep_reached (max_variable_in_matrix x) u v' (inv_deps u) pruned)))))"

fun scheme_loop ::
  "extractor \<Rightarrow> (int \<Rightarrow> int list) \<Rightarrow> (int \<Rightarrow> nat list) \<Rightarrow> int list \<Rightarrow>
   search_vectors \<Rightarrow> (int \<rightharpoonup> int list) \<Rightarrow> (int \<rightharpoonup> int list) option" where
  "scheme_loop x inv_deps containing [] v pruned = Some pruned"
| "scheme_loop x inv_deps containing (u # us) v pruned =
     Option.bind (scheme_step x inv_deps containing u v pruned)
       (\<lambda>(v, pruned). scheme_loop x inv_deps containing us v pruned)"

definition applyDependencyScheme :: "int list \<Rightarrow> extractor \<Rightarrow> (int \<rightharpoonup> int list) option" where
  "applyDependencyScheme keys x =
     (let n = nat (max_variable_in_matrix x) in
      scheme_loop x (computeInverseDependencies keys x) (getContainingClauses (matrix (formula x)))
        (universal_variables (formula x))
        \<lparr>to_consider = replicate n False, marked_positive = replicate (2 * n) False,
         marked_negative = replicate (2 * n) False\<rparr>
        (\<lambda>v. if v \<in> set keys then Some [] else None))"

text \<open>The two entry points.\<close>

definition getDependencies :: "configuration \<Rightarrow> int list \<Rightarrow> extractor \<Rightarrow> (extractor \<times> ext_map) option" where
  "getDependencies config keys x =
     (let x1 = computeDependencies x in
      if apply_dependency_schemes config
      then map_option (\<lambda>deps. (x1, deps)) (applyDependencyScheme keys x1)
      else Some (x1, original_dependency_map x1))"

definition getExtendedDependencies ::
  "configuration \<Rightarrow> int list \<Rightarrow> extractor \<Rightarrow> (extractor \<times> ext_map \<times> ext_map) option" where
  "getExtendedDependencies config keys x =
     Option.bind (computeExtendedDependencies x) (\<lambda>(x1, extended_deps).
       if apply_dependency_schemes config
       then map_option (\<lambda>deps. (x1, deps, extended_deps)) (applyDependencyScheme keys x1)
       else Some (x1, original_dependency_map x1, extended_deps))"

section \<open>The search marks what it reaches\<close>

text \<open>A literal is in range when its two slots are; the marked literals of a vector.\<close>

definition lit_ok :: "int \<Rightarrow> int \<Rightarrow> bool" where
  "lit_ok n l \<longleftrightarrow> l \<noteq> 0 \<and> \<bar>l\<bar> \<le> n"

definition marks :: "int \<Rightarrow> bool list \<Rightarrow> int set" where
  "marks n M = {l. lit_ok n l \<and> M ! nat (marked_index n l)}"

definition considered_vars :: "int \<Rightarrow> bool list \<Rightarrow> int set" where
  "considered_vars n C = {v. 0 < v \<and> v \<le> n \<and> C ! nat (v - 1)}"

inductive path :: "cnf \<Rightarrow> int set \<Rightarrow> int set \<Rightarrow> int \<Rightarrow> int \<Rightarrow> bool" for F K B where
  path_start: "\<bar>s\<bar> \<in> K \<Longrightarrow> s \<notin> B \<Longrightarrow> path F K B s s"
| path_step: "path F K B s l \<Longrightarrow> c \<in> set F \<Longrightarrow> - l \<in> set c \<Longrightarrow> k \<in> set c \<Longrightarrow> k \<noteq> - l \<Longrightarrow>
    \<bar>k\<bar> \<in> K \<Longrightarrow> k \<notin> B \<Longrightarrow> path F K B s k"

lemma path_avoid_mono: "path F K B s l \<Longrightarrow> A \<subseteq> B \<Longrightarrow> path F K A s l"
  by (induction rule: path.induct) (auto intro: path.intros)

lemma path_trans: "path F K B l k \<Longrightarrow> path F K B s l \<Longrightarrow> path F K B s k"
  by (induction rule: path.induct) (auto intro: path.intros)

lemma marked_index_range:
  "lit_ok n l \<Longrightarrow> 0 \<le> marked_index n l \<and> marked_index n l < 2 * n"
  by (auto simp: lit_ok_def marked_index_def)

lemma marked_index_inj:
  "lit_ok n l \<Longrightarrow> lit_ok n k \<Longrightarrow> marked_index n l = marked_index n k \<Longrightarrow> l = k"
  by (auto simp: lit_ok_def marked_index_def split: if_splits)

lemma marks_set:
  assumes "length M = nat (2 * n)" "lit_ok n l"
  shows "vec_set (marked_index n l) b M = Some (M[nat (marked_index n l) := b])"
    and "vec_get M (marked_index n l) = Some (l \<in> marks n M)"
    and "marks n (M[nat (marked_index n l) := b]) = (if b then insert l (marks n M) else marks n M - {l})"
proof -
  note r = marked_index_range [OF assms(2)]
  show "vec_set (marked_index n l) b M = Some (M[nat (marked_index n l) := b])"
    "vec_get M (marked_index n l) = Some (l \<in> marks n M)"
    using r assms by (auto simp: vec_set_def vec_get_def marks_def)
  have nth: "(M[nat (marked_index n l) := b]) ! nat (marked_index n k) \<longleftrightarrow>
      (if k = l then b else M ! nat (marked_index n k))" if "lit_ok n k" for k
  proof (cases "k = l")
    case True
    then show ?thesis using r assms(1) by auto
  next
    case False
    then have "nat (marked_index n k) \<noteq> nat (marked_index n l)"
      using marked_index_inj [OF that assms(2)] marked_index_range [OF that] r by (metis eq_nat_nat_iff)
    then show ?thesis using False by simp
  qed
  have "marks n (M[nat (marked_index n l) := b]) =
      {k. lit_ok n k \<and> (if k = l then b else M ! nat (marked_index n k))}"
    unfolding marks_def using nth by blast
  then show "marks n (M[nat (marked_index n l) := b]) = (if b then insert l (marks n M) else marks n M - {l})"
    using assms(2) by (auto simp: marks_def)
qed

lemma fold_multimap_push:
  "fold (\<lambda>l m. multimap_push m l i) c m k = m k @ replicate (count_list c k) i"
  by (induction c arbitrary: m) (auto simp: multimap_push_def replicate_append_same)

lemma set_getContainingClauses: "set (getContainingClauses F l) = {i. i < length F \<and> l \<in> set (F ! i)}"
proof -
  have "set (fold (\<lambda>i m. fold (\<lambda>l m. multimap_push m l i) (F ! i) m) is m l) =
      set (m l) \<union> {i \<in> set is. l \<in> set (F ! i)}" for "is" m
    by (induction "is" arbitrary: m) (auto simp: fold_multimap_push count_list_0_iff)
  then show ?thesis by (auto simp: getContainingClauses_def)
qed

lemma set_next_literals:
  "set (next_literals F (getContainingClauses F) l) = {k. \<exists>c\<in>set F. - l \<in> set c \<and> k \<in> set c \<and> k \<noteq> - l}"
proof (rule set_eqI)
  fix k
  have "k \<in> set (next_literals F (getContainingClauses F) l) \<longleftrightarrow>
      (\<exists>i < length F. - l \<in> set (F ! i) \<and> k \<in> set (F ! i) \<and> k \<noteq> - l)"
    by (auto simp: next_literals_def set_getContainingClauses)
  also have "\<dots> \<longleftrightarrow> (\<exists>c\<in>set F. - l \<in> set c \<and> k \<in> set c \<and> k \<noteq> - l)"
    by (metis nth_mem in_set_conv_nth)
  finally show "k \<in> set (next_literals F (getContainingClauses F) l) \<longleftrightarrow>
      k \<in> {k. \<exists>c\<in>set F. - l \<in> set c \<and> k \<in> set c \<and> k \<noteq> - l}" by simp
qed

lemma searchPaths_all_simps:
  "searchPaths_all n F C cc [] M = Some M"
  "searchPaths_all n F C cc (l # rest) M =
     Option.bind (vec_get C (\<bar>l\<bar> - 1)) (\<lambda>considered.
     Option.bind (if considered then vec_get M (marked_index n l) else Some True) (\<lambda>seen.
       if seen then searchPaths_all n F C cc rest M
       else
         Option.bind (vec_set (marked_index n l) True M) (\<lambda>M1.
         Option.bind (searchPaths_all n F C cc (next_literals F cc l) M1)
           (\<lambda>M2. searchPaths_all n F C cc rest M2))))"
  by (subst searchPaths_all.simps, simp)+

lemma finite_lit_ok: "finite {l. lit_ok n l}"
proof -
  have "{l. lit_ok n l} \<subseteq> {- n..n}" by (auto simp: lit_ok_def)
  then show ?thesis by (rule finite_subset) simp
qed

text \<open>
  The depth-first search over the list of literals still to visit: it ends, and adds to the marked
  literals exactly those on a path from the list through considered variables and unmarked literals.
\<close>

definition search_result :: "int \<Rightarrow> cnf \<Rightarrow> bool list \<Rightarrow> int list \<Rightarrow> bool list \<Rightarrow> bool list \<Rightarrow> bool" where
  "search_result n F C ls M M' \<longleftrightarrow>
     length M' = length M \<and> marks n M \<subseteq> marks n M' \<and>
     (\<forall>l\<in>marks n M' - marks n M. \<exists>s\<in>set ls. path F (considered_vars n C) (marks n M) s l) \<and>
     (\<forall>l\<in>set ls. \<bar>l\<bar> \<in> considered_vars n C \<longrightarrow> l \<in> marks n M') \<and>
     (\<forall>l\<in>marks n M' - marks n M. \<forall>c\<in>set F. - l \<in> set c \<longrightarrow>
        (\<forall>k\<in>set c. k \<noteq> - l \<longrightarrow> \<bar>k\<bar> \<in> considered_vars n C \<longrightarrow> k \<in> marks n M'))"

definition cnf_in_range :: "int \<Rightarrow> cnf \<Rightarrow> bool" where
  "cnf_in_range n F \<longleftrightarrow> (\<forall>c\<in>set F. \<forall>l\<in>set c. lit_ok n l)"

lemma considered_get:
  assumes "length C = nat n" "lit_ok n l"
  shows "vec_get C (\<bar>l\<bar> - 1) = Some (\<bar>l\<bar> \<in> considered_vars n C)"
  using assms by (auto simp: vec_get_def considered_vars_def lit_ok_def)

definition unmarked :: "int \<Rightarrow> bool list \<Rightarrow> nat" where
  "unmarked n M = card ({l. lit_ok n l} - marks n M)"

lemma unmarked_less:
  assumes "marks n M \<subseteq> marks n M'" "l \<in> marks n M' - marks n M"
  shows "unmarked n M' < unmarked n M"
  unfolding unmarked_def
proof (rule psubset_card_mono)
  have "l \<in> {l. lit_ok n l}" using assms(2) by (auto simp: marks_def)
  then show "{l. lit_ok n l} - marks n M' \<subset> {l. lit_ok n l} - marks n M" using assms by blast
qed (simp add: finite_lit_ok)

lemma unmarked_le: "marks n M \<subseteq> marks n M' \<Longrightarrow> unmarked n M' \<le> unmarked n M"
  unfolding unmarked_def by (rule card_mono) (auto simp: finite_lit_ok)

lemma search_result_compose:
  assumes l: "\<bar>l\<bar> \<in> considered_vars n C" "l \<notin> marks n M"
    and M1: "marks n M1 = insert l (marks n M)" "length M1 = length M"
    and inner: "search_result n F C (next_literals F (getContainingClauses F) l) M1 M2"
    and outer: "search_result n F C rest M2 M3"
  shows "search_result n F C (l # rest) M M3"
  unfolding search_result_def
proof (intro conjI ballI impI)
  let ?K = "considered_vars n C"
  have sub: "marks n M \<subseteq> marks n M1" "marks n M1 \<subseteq> marks n M2" "marks n M2 \<subseteq> marks n M3"
    using M1(1) inner outer by (auto simp: search_result_def)
  show "length M3 = length M" "marks n M \<subseteq> marks n M3"
    using M1(2) inner outer sub by (auto simp: search_result_def)
  have start: "path F ?K (marks n M) l l" using l by (rule path_start)
  have via: "path F ?K (marks n M) l k" if k: "k \<in> marks n M2 - marks n M1" for k
  proof -
    obtain s where s: "s \<in> set (next_literals F (getContainingClauses F) l)" "path F ?K (marks n M1) s k"
      using inner k unfolding search_result_def by blast
    have sk: "path F ?K (marks n M) s k" by (rule path_avoid_mono [OF s(2) sub(1)])
    have "path F ?K (marks n M) s s"
      using sk by (induction rule: path.induct) (auto intro: path_start)
    then have "\<bar>s\<bar> \<in> ?K" "s \<notin> marks n M" by (auto elim: path.cases)
    moreover obtain c where "c \<in> set F" "- l \<in> set c" "s \<in> set c" "s \<noteq> - l"
      using s(1) by (auto simp: set_next_literals)
    ultimately have "path F ?K (marks n M) l s" using path_step [OF start] by blast
    then show ?thesis using path_trans [OF sk] by blast
  qed
  show "\<exists>s\<in>set (l # rest). path F ?K (marks n M) s k" if k: "k \<in> marks n M3 - marks n M" for k
  proof -
    consider "k = l" | "k \<in> marks n M2 - marks n M1" | "k \<in> marks n M3 - marks n M2" using k M1(1) by blast
    then show ?thesis
    proof cases
      case 1
      then show ?thesis using start by auto
    next
      case 2
      then show ?thesis using via by auto
    next
      case 3
      then obtain s where "s \<in> set rest" "path F ?K (marks n M2) s k"
        using outer unfolding search_result_def by blast
      then show ?thesis using path_avoid_mono sub by (meson list.set_intros(2) order_trans)
    qed
  qed
  show "k \<in> marks n M3" if "k \<in> set (l # rest)" "\<bar>k\<bar> \<in> ?K" for k
  proof (cases "k = l")
    case True
    then show ?thesis using M1(1) sub by blast
  next
    case False
    have "\<forall>l\<in>set rest. \<bar>l\<bar> \<in> ?K \<longrightarrow> l \<in> marks n M3"
      using outer unfolding search_result_def by (elim conjE)
    then show ?thesis using that False by simp
  qed
  show "m \<in> marks n M3" if k: "k \<in> marks n M3 - marks n M" and m: "c \<in> set F" "- k \<in> set c" "m \<in> set c" "m \<noteq> - k" "\<bar>m\<bar> \<in> ?K"
    for k c m
  proof -
    consider "k = l" | "k \<in> marks n M2 - marks n M1" | "k \<in> marks n M3 - marks n M2" using k M1(1) by blast
    then show ?thesis
    proof cases
      case 1
      then have "m \<in> set (next_literals F (getContainingClauses F) l)"
        using m by (auto simp: set_next_literals)
      then have "m \<in> marks n M2" using inner m(5) unfolding search_result_def by blast
      then show ?thesis using sub by blast
    next
      case 2
      then have "m \<in> marks n M2" using inner k m 2 unfolding search_result_def by blast
      then show ?thesis using sub by blast
    next
      case 3
      then show ?thesis using outer 3 m unfolding search_result_def by blast
    qed
  qed
qed

lemma searchPaths_all_spec:
  assumes F: "cnf_in_range n F" and C: "length C = nat n"
    and "length M = nat (2 * n)" "\<forall>l\<in>set ls. lit_ok n l"
  shows "\<exists>M'. searchPaths_all n F C (getContainingClauses F) ls M = Some M' \<and> search_result n F C ls M M'"
  using assms(3,4)
proof (induction "unmarked n M" arbitrary: ls M rule: less_induct)
  case less
  from less.prems(2) show ?case
  proof (induction ls)
    case Nil
    then show ?case by (simp add: searchPaths_all_simps search_result_def)
  next
    case (Cons l rest)
    have l: "lit_ok n l" using Cons.prems by simp
    note get = considered_get [OF C l] marks_set [OF less.prems(1) l]
    show ?case
    proof (cases "\<bar>l\<bar> \<in> considered_vars n C \<and> l \<notin> marks n M")
      case False
      then have step: "searchPaths_all n F C (getContainingClauses F) (l # rest) M =
          searchPaths_all n F C (getContainingClauses F) rest M"
        using get by (auto simp: searchPaths_all_simps)
      obtain M' where "searchPaths_all n F C (getContainingClauses F) rest M = Some M'"
        "search_result n F C rest M M'" using Cons by auto
      then show ?thesis using False unfolding step by (auto simp: search_result_def)
    next
      case True
      define M1 where "M1 = M[nat (marked_index n l) := True]"
      have M1: "marks n M1 = insert l (marks n M)" "length M1 = length M" using get(4) by (simp_all add: M1_def)
      have "unmarked n M1 < unmarked n M" by (rule unmarked_less [of _ _ _ l]) (use M1 True in auto)
      moreover have "\<forall>k\<in>set (next_literals F (getContainingClauses F) l). lit_ok n k"
        using F by (auto simp: set_next_literals cnf_in_range_def)
      ultimately obtain M2 where M2: "searchPaths_all n F C (getContainingClauses F)
          (next_literals F (getContainingClauses F) l) M1 = Some M2"
        "search_result n F C (next_literals F (getContainingClauses F) l) M1 M2"
        using less.hyps less.prems(1) M1(2) by metis
      have "marks n M1 \<subseteq> marks n M2" using M2(2) by (simp add: search_result_def)
      then have "unmarked n M2 < unmarked n M"
        using unmarked_le [of n M1 M2] \<open>unmarked n M1 < unmarked n M\<close> by simp
      moreover have "length M2 = nat (2 * n)" using M2(2) M1(2) less.prems(1) by (simp add: search_result_def)
      ultimately obtain M3 where M3: "searchPaths_all n F C (getContainingClauses F) rest M2 = Some M3"
        "search_result n F C rest M2 M3"
        using less.hyps Cons.prems by (metis list.set_intros(2))
      have "searchPaths_all n F C (getContainingClauses F) (l # rest) M = Some M3"
        using True get(1,2) get(3) M2(1) M3(1) by (simp add: searchPaths_all_simps M1_def)
      moreover have "search_result n F C (l # rest) M M3"
        using search_result_compose [OF _ _ M1 M2(2) M3(2)] True by blast
      ultimately show ?thesis by blast
    qed
  qed
qed

lemma search_result_marks:
  assumes "search_result n F C ls M M'" "\<forall>l\<in>set ls. lit_ok n l"
  shows "marks n M' = marks n M \<union> {l. \<exists>s\<in>set ls. path F (considered_vars n C) (marks n M) s l}"
proof (intro equalityI subsetI)
  fix l assume "l \<in> marks n M'"
  then show "l \<in> marks n M \<union> {l. \<exists>s\<in>set ls. path F (considered_vars n C) (marks n M) s l}"
    using assms(1) unfolding search_result_def by blast
next
  fix l assume "l \<in> marks n M \<union> {l. \<exists>s\<in>set ls. path F (considered_vars n C) (marks n M) s l}"
  moreover have "k \<in> marks n M' - marks n M" if "path F (considered_vars n C) (marks n M) s k" "s \<in> set ls" for s k
    using that
  proof (induction rule: path.induct)
    case (path_start s)
    then show ?case using assms(1) by (auto simp: search_result_def)
  next
    case (path_step s l c k)
    then show ?case using assms(1) unfolding search_result_def by blast
  qed
  ultimately show "l \<in> marks n M'" using assms(1) unfolding search_result_def by blast
qed

section \<open>The vectors between two universal variables\<close>

lemma vec_set_all_spec:
  "\<forall>i\<in>set is. 0 \<le> i \<and> i < int (length xs) \<Longrightarrow>
   \<exists>ys. vec_set_all is b xs = Some ys \<and> length ys = length xs \<and>
     (\<forall>j < length xs. ys ! j = (if int j \<in> set is then b else xs ! j))"
proof (induction "is" arbitrary: xs)
  case (Cons i "is")
  then have "\<forall>k\<in>set is. 0 \<le> k \<and> k < int (length (xs[nat i := b]))" by simp
  from Cons.IH [OF this] obtain ys where ys: "vec_set_all is b (xs[nat i := b]) = Some ys"
    "length ys = length xs" "\<forall>j < length xs. ys ! j = (if int j \<in> set is then b else xs[nat i := b] ! j)"
    by auto
  have "vec_set_all (i # is) b xs = Some ys" using Cons.prems ys(1) by (simp add: vec_set_def)
  moreover have "ys ! j = (if int j \<in> set (i # is) then b else xs ! j)" if "j < length xs" for j
    using ys(3) that Cons.prems by (cases "int j = i") auto
  ultimately show ?case using ys(2) by blast
qed simp

definition vectors_ok :: "int \<Rightarrow> search_vectors \<Rightarrow> bool" where
  "vectors_ok n v \<longleftrightarrow> length (to_consider v) = nat n \<and>
     length (marked_positive v) = nat (2 * n) \<and> length (marked_negative v) = nat (2 * n)"

abbreviation lits_of :: "int set \<Rightarrow> int set" where
  "lits_of V \<equiv> {l. \<bar>l\<bar> \<in> V}"

lemma clear_marks:
  assumes "length M = nat (2 * n)" "\<forall>e\<in>set es. 0 < e \<and> e \<le> n"
  shows "\<exists>M'. vec_set_all (concat (map (\<lambda>e. [e - 1, e + n - 1]) es)) False M = Some M' \<and>
    length M' = length M \<and> marks n M' = marks n M - lits_of (set es)"
proof -
  let ?slots = "concat (map (\<lambda>e. [e - 1, e + n - 1]) es)"
  have "\<forall>i\<in>set ?slots. 0 \<le> i \<and> i < int (length M)" using assms by fastforce
  from vec_set_all_spec [OF this] obtain M' where M': "vec_set_all ?slots False M = Some M'"
    "length M' = length M" "\<forall>j < length M. M' ! j = (if int j \<in> set ?slots then False else M ! j)" by blast
  have "l \<in> marks n M' \<longleftrightarrow> l \<in> marks n M - lits_of (set es)" for l
  proof (cases "lit_ok n l")
    case True
    have "marked_index n l \<in> set ?slots \<longleftrightarrow> \<bar>l\<bar> \<in> set es"
      using True assms(2) by (force simp: marked_index_def lit_ok_def)
    then show ?thesis using True M'(3) marked_index_range [OF True] assms(1) by (auto simp: marks_def)
  qed (simp add: marks_def)
  then show ?thesis using M' by blast
qed

lemma set_considered:
  assumes "length C = nat n" "\<forall>e\<in>set es. 0 < e \<and> e \<le> n"
  shows "\<exists>C'. vec_set_all (map (\<lambda>e. e - 1) es) b C = Some C' \<and> length C' = length C \<and>
    considered_vars n C' = (if b then considered_vars n C \<union> set es else considered_vars n C - set es)"
proof -
  have "\<forall>i\<in>set (map (\<lambda>e. e - 1) es). 0 \<le> i \<and> i < int (length C)" using assms by auto
  from vec_set_all_spec [OF this] obtain C' where C': "vec_set_all (map (\<lambda>e. e - 1) es) b C = Some C'"
    "length C' = length C" "\<forall>j < length C. C' ! j = (if int j \<in> set (map (\<lambda>e. e - 1) es) then b else C ! j)"
    by blast
  have "v \<in> considered_vars n C' \<longleftrightarrow>
      v \<in> (if b then considered_vars n C \<union> set es else considered_vars n C - set es)" for v
  proof (cases "0 < v \<and> v \<le> n")
    case True
    have "v - 1 \<in> set (map (\<lambda>e. e - 1) es) \<longleftrightarrow> v \<in> set es" by auto
    then show ?thesis using True C'(3) assms(1) by (auto simp: considered_vars_def)
  next
    case False
    then show ?thesis using assms(2) by (auto simp: considered_vars_def)
  qed
  then show ?thesis using C' by blast
qed

lemma clear_variables_spec:
  assumes "vectors_ok n v" "\<forall>e\<in>set es. 0 < e \<and> e \<le> n"
  shows "\<exists>v'. clear_variables n es v = Some v' \<and> vectors_ok n v' \<and>
    considered_vars n (to_consider v') = considered_vars n (to_consider v) \<union> set es \<and>
    marks n (marked_positive v') = marks n (marked_positive v) - lits_of (set es) \<and>
    marks n (marked_negative v') = marks n (marked_negative v) - lits_of (set es)"
proof -
  obtain mp mn tc where
    "vec_set_all (concat (map (\<lambda>e. [e - 1, e + n - 1]) es)) False (marked_positive v) = Some mp"
    "length mp = length (marked_positive v)" "marks n mp = marks n (marked_positive v) - lits_of (set es)"
    "vec_set_all (concat (map (\<lambda>e. [e - 1, e + n - 1]) es)) False (marked_negative v) = Some mn"
    "length mn = length (marked_negative v)" "marks n mn = marks n (marked_negative v) - lits_of (set es)"
    "vec_set_all (map (\<lambda>e. e - 1) es) True (to_consider v) = Some tc"
    "length tc = length (to_consider v)"
    "considered_vars n tc = considered_vars n (to_consider v) \<union> set es"
    using clear_marks [of "marked_positive v" n es] clear_marks [of "marked_negative v" n es]
      set_considered [of "to_consider v" n es True] assms unfolding vectors_ok_def by auto
  then show ?thesis using assms(1) by (simp add: clear_variables_def Let_def vectors_ok_def)
qed

lemma mark_slots:
  assumes "0 < u" "u \<le> n"
  shows "marked_index n u = u - 1" "marked_index n (- u) = u + n - 1" "lit_ok n u" "lit_ok n (- u)"
  using assms by (auto simp: marked_index_def lit_ok_def)

lemma setUpSearchVectors_spec:
  fixes x :: extractor
  defines "n \<equiv> max_variable_in_matrix x"
  assumes v: "vectors_ok n v" and u: "0 < u" "u \<le> n"
    and E: "\<forall>e\<in>set deps \<union> set (ignored_existentials x). 0 < e \<and> e \<le> n"
  shows "\<exists>v'. setUpSearchVectors x u deps v = Some v' \<and> vectors_ok n v' \<and>
    considered_vars n (to_consider v') =
      insert u (considered_vars n (to_consider v) \<union> set deps \<union> set (ignored_existentials x)) \<and>
    marks n (marked_positive v') = insert (- u)
      (marks n (marked_positive v) - lits_of (set deps \<union> set (ignored_existentials x))) \<and>
    marks n (marked_negative v') = insert u
      (marks n (marked_negative v) - lits_of (set deps \<union> set (ignored_existentials x)))"
proof -
  obtain v1 where v1: "clear_variables n deps v = Some v1" "vectors_ok n v1"
    "considered_vars n (to_consider v1) = considered_vars n (to_consider v) \<union> set deps"
    "marks n (marked_positive v1) = marks n (marked_positive v) - lits_of (set deps)"
    "marks n (marked_negative v1) = marks n (marked_negative v) - lits_of (set deps)"
    using clear_variables_spec [OF v] E by (metis UnI1)
  obtain v2 where v2: "clear_variables n (ignored_existentials x) v1 = Some v2" "vectors_ok n v2"
    "considered_vars n (to_consider v2) =
      considered_vars n (to_consider v) \<union> set deps \<union> set (ignored_existentials x)"
    "marks n (marked_positive v2) =
      marks n (marked_positive v) - lits_of (set deps) - lits_of (set (ignored_existentials x))"
    "marks n (marked_negative v2) =
      marks n (marked_negative v) - lits_of (set deps) - lits_of (set (ignored_existentials x))"
    using clear_variables_spec [OF v1(2)] E v1(3-5) by (metis UnI2)
  have len: "length (marked_positive v2) = nat (2 * n)" "length (marked_negative v2) = nat (2 * n)"
    "length (to_consider v2) = nat n" using v2(2) by (simp_all add: vectors_ok_def)
  note slots = mark_slots [OF u]
  obtain tc where tc: "vec_set (u - 1) True (to_consider v2) = Some tc" "length tc = length (to_consider v2)"
    "considered_vars n tc = insert u (considered_vars n (to_consider v2))"
    using set_considered [OF len(3), of "[u]" True] u by (auto split: bind_splits)
  define v3 where "v3 = \<lparr>to_consider = tc,
    marked_positive = (marked_positive v2)[nat (u + n - 1) := True],
    marked_negative = (marked_negative v2)[nat (u - 1) := True]\<rparr>"
  have "setUpSearchVectors x u deps v = Some v3"
    using v1(1) v2(1) tc(1) marks_set(1) [OF len(1) slots(4), of True]
      marks_set(1) [OF len(2) slots(3), of True]
    unfolding slots by (simp add: setUpSearchVectors_def Let_def n_def [symmetric] v3_def)
  moreover have "vectors_ok n v3" using len tc(2) by (simp add: v3_def vectors_ok_def)
  moreover have "considered_vars n (to_consider v3) =
      insert u (considered_vars n (to_consider v) \<union> set deps \<union> set (ignored_existentials x))"
    using tc(3) v2(3) by (simp add: v3_def)
  moreover have "marks n (marked_positive v3) = insert (- u)
      (marks n (marked_positive v) - lits_of (set deps \<union> set (ignored_existentials x)))"
    using marks_set(3) [OF len(1) slots(4), of True] v2(4) unfolding slots v3_def by auto
  moreover have "marks n (marked_negative v3) = insert u
      (marks n (marked_negative v) - lits_of (set deps \<union> set (ignored_existentials x)))"
    using marks_set(3) [OF len(2) slots(3), of True] v2(5) unfolding slots v3_def by auto
  ultimately show ?thesis by blast
qed

lemma revertSearchVectors_spec:
  fixes x :: extractor
  defines "n \<equiv> max_variable_in_matrix x"
  assumes C: "length C = nat n" and u: "0 < u" "u \<le> n"
    and E: "\<forall>e\<in>set deps \<union> set (ignored_existentials x). 0 < e \<and> e \<le> n"
  shows "\<exists>C'. revertSearchVectors x u deps C = Some C' \<and> length C' = length C \<and>
    considered_vars n C' = considered_vars n C - insert u (set deps \<union> set (ignored_existentials x))"
proof -
  obtain C1 where C1: "vec_set_all (map (\<lambda>e. e - 1) deps) False C = Some C1" "length C1 = nat n"
    "considered_vars n C1 = considered_vars n C - set deps"
    using set_considered [OF C, of deps False] E C by auto
  obtain C2 where C2: "vec_set_all (map (\<lambda>e. e - 1) (ignored_existentials x)) False C1 = Some C2"
    "length C2 = nat n"
    "considered_vars n C2 = considered_vars n C - set deps - set (ignored_existentials x)"
    using set_considered [OF C1(2), of "ignored_existentials x" False] E C1 by auto
  obtain C3 where "vec_set (u - 1) False C2 = Some C3" "length C3 = nat n"
    "considered_vars n C3 = considered_vars n C2 - {u}"
    using set_considered [OF C2(2), of "[u]" False] u C2(2) by (auto split: bind_splits)
  then show ?thesis using C1(1) C2 C by (auto simp: revertSearchVectors_def)
qed

lemma path_avoid_cong: "A \<inter> lits_of K = B \<inter> lits_of K \<Longrightarrow> path F K A s l \<longleftrightarrow> path F K B s l"
proof -
  have "path F K B s l" if "path F K A s l" "A \<inter> lits_of K = B \<inter> lits_of K" for A B
    using that by (induction rule: path.induct) (blast intro: path.intros)+
  then show "A \<inter> lits_of K = B \<inter> lits_of K \<Longrightarrow> ?thesis" by metis
qed

lemma path_considered: "path F K B s l \<Longrightarrow> \<bar>l\<bar> \<in> K"
  by (induction rule: path.induct)

section \<open>The pruned dependencies\<close>

text \<open>
  A universal and an existential variable are connected when one pair of resolution paths leads
  from the two literals of the former to complementary literals of the latter.
\<close>

definition rrs_connected :: "cnf \<Rightarrow> int set \<Rightarrow> int \<Rightarrow> int \<Rightarrow> bool" where
  "rrs_connected F K u e \<longleftrightarrow>
     path F K {- u} u e \<and> path F K {u} (- u) (- e) \<or> path F K {- u} u (- e) \<and> path F K {u} (- u) e"

definition searched_vars :: "int list \<Rightarrow> extractor \<Rightarrow> int \<Rightarrow> int set" where
  "searched_vars keys x u =
     insert u ({e \<in> set keys. u \<in> set (the (original_dependency_map x e))} \<union> set (ignored_existentials x))"

definition scheme_ok :: "int list \<Rightarrow> extractor \<Rightarrow> bool" where
  "scheme_ok keys x \<longleftrightarrow>
     cnf_in_range (max_variable_in_matrix x) (matrix (formula x)) \<and>
     distinct (universal_variables (formula x)) \<and>
     (\<forall>u\<in>set (universal_variables (formula x)). 0 < u \<and> u \<le> max_variable_in_matrix x) \<and>
     distinct keys \<and>
     (\<forall>e\<in>set keys \<union> set (ignored_existentials x).
        0 < e \<and> e \<le> max_variable_in_matrix x \<and> e \<notin> set (universal_variables (formula x))) \<and>
     (\<forall>e\<in>set keys. distinct (the (original_dependency_map x e)))"

lemma fold_push_key:
  "distinct us \<Longrightarrow> fold (\<lambda>u m. multimap_push m u k) us m v = m v @ (if v \<in> set us then [k] else [])"
  by (induction us arbitrary: m) (auto simp: multimap_push_def)

lemma computeInverseDependencies_eq:
  assumes "\<forall>e\<in>set keys. distinct (the (original_dependency_map x e))"
  shows "computeInverseDependencies keys x u = filter (\<lambda>e. u \<in> set (the (original_dependency_map x e))) keys"
proof -
  have "fold (\<lambda>key deps. fold (\<lambda>u deps. multimap_push deps u key) (the (original_dependency_map x key)) deps)
      keys m u = m u @ filter (\<lambda>e. u \<in> set (the (original_dependency_map x e))) keys" for m
    using assms by (induction keys arbitrary: m) (auto simp: fold_push_key)
  then show ?thesis by (simp add: computeInverseDependencies_def)
qed

lemma keep_reached_spec:
  assumes "length (marked_positive v) = nat (2 * n)" "length (marked_negative v) = nat (2 * n)"
    and "\<forall>e\<in>set es. 0 < e \<and> e \<le> n" "distinct es" "\<forall>e\<in>set es. pruned e \<noteq> None"
  shows "\<exists>p. keep_reached n u v es pruned = Some p \<and>
    (\<forall>e. p e = (if e \<in> set es \<and>
       (e \<in> marks n (marked_positive v) \<and> - e \<in> marks n (marked_negative v) \<or>
        - e \<in> marks n (marked_positive v) \<and> e \<in> marks n (marked_negative v))
       then Some (the (pruned e) @ [u]) else pruned e))"
  using assms(3-5)
proof (induction es arbitrary: pruned)
  case (Cons e es)
  have e: "0 < e" "e \<le> n" using Cons.prems by auto
  note slots = mark_slots [OF e]
  note get = marks_set(2) [OF assms(1) slots(3)] marks_set(2) [OF assms(1) slots(4)]
    marks_set(2) [OF assms(2) slots(3)] marks_set(2) [OF assms(2) slots(4)]
  let ?cond = "\<lambda>e. e \<in> marks n (marked_positive v) \<and> - e \<in> marks n (marked_negative v) \<or>
        - e \<in> marks n (marked_positive v) \<and> e \<in> marks n (marked_negative v)"
  define pruned' where "pruned' = (if ?cond e then pruned(e \<mapsto> the (pruned e) @ [u]) else pruned)"
  have "keep_reached n u v (e # es) pruned = keep_reached n u v es pruned'"
    using get [unfolded slots(1,2)] Cons.prems(3) by (auto simp: pruned'_def)
  moreover have "\<forall>e\<in>set es. 0 < e \<and> e \<le> n" "distinct es" "\<forall>k\<in>set es. pruned' k \<noteq> None"
    using Cons.prems by (auto simp: pruned'_def)
  from Cons.IH [OF this] obtain p where "keep_reached n u v es pruned' = Some p"
    "\<forall>k. p k = (if k \<in> set es \<and> ?cond k then Some (the (pruned' k) @ [u]) else pruned' k)" by blast
  moreover have "e \<notin> set es" using Cons.prems(2) by simp
  ultimately show ?case by (intro exI [of _ p] conjI) (auto simp: pruned'_def)
qed simp

lemma searchPaths_marks:
  assumes "cnf_in_range (max_variable_in_matrix x) (matrix (formula x))"
    and "length C = nat (max_variable_in_matrix x)" "length M = nat (2 * max_variable_in_matrix x)"
    and "lit_ok (max_variable_in_matrix x) l"
  shows "\<exists>M'. searchPaths x l C M (getContainingClauses (matrix (formula x))) = Some M' \<and>
    length M' = length M \<and>
    marks (max_variable_in_matrix x) M' = marks (max_variable_in_matrix x) M \<union>
      {k. path (matrix (formula x)) (considered_vars (max_variable_in_matrix x) C)
            (marks (max_variable_in_matrix x) M) l k}"
proof -
  obtain M' where M': "searchPaths_all (max_variable_in_matrix x) (matrix (formula x)) C
      (getContainingClauses (matrix (formula x))) [l] M = Some M'"
    "search_result (max_variable_in_matrix x) (matrix (formula x)) C [l] M M'"
    using searchPaths_all_spec [OF assms(1-3), of "[l]"] assms(4) by auto
  then have "length M' = length M" by (simp add: search_result_def)
  then show ?thesis using M'(1) search_result_marks [OF M'(2)] assms(4) by (simp add: searchPaths_def)
qed

text \<open>Between two rounds nothing is considered, and the universals to come are unmarked.\<close>

definition round_ok :: "int \<Rightarrow> int list \<Rightarrow> search_vectors \<Rightarrow> bool" where
  "round_ok n us v \<longleftrightarrow> vectors_ok n v \<and> considered_vars n (to_consider v) = {} \<and>
     (marks n (marked_positive v) \<union> marks n (marked_negative v)) \<inter> lits_of (set us) = {}"

lemma scheme_okD:
  assumes "scheme_ok keys x"
  shows "cnf_in_range (max_variable_in_matrix x) (matrix (formula x))"
    and "u \<in> set (universal_variables (formula x)) \<Longrightarrow> 0 < u \<and> u \<le> max_variable_in_matrix x"
    and "e \<in> set keys \<union> set (ignored_existentials x) \<Longrightarrow>
      0 < e \<and> e \<le> max_variable_in_matrix x \<and> e \<notin> set (universal_variables (formula x))"
  using assms unfolding scheme_ok_def by blast+

lemma scheme_step_spec:
  fixes keys x
  defines "n \<equiv> max_variable_in_matrix x" and "F \<equiv> matrix (formula x)"
    and "U \<equiv> set (universal_variables (formula x))"
  assumes ok: "scheme_ok keys x" and us: "u \<in> U" "set us \<subseteq> U" "u \<notin> set us"
    and round: "round_ok n (u # us) v" and dom: "\<forall>e\<in>set keys. pruned e \<noteq> None"
  shows "\<exists>v' p. scheme_step x (computeInverseDependencies keys x) (getContainingClauses F) u v pruned = Some (v', p) \<and>
    round_ok n us v' \<and>
    (\<forall>e. p e = (if e \<in> set keys \<and> u \<in> set (the (original_dependency_map x e)) \<and>
                  rrs_connected F (searched_vars keys x u) u e
               then Some (the (pruned e) @ [u]) else pruned e))"
proof -
  define deps where "deps = computeInverseDependencies keys x u"
  let ?I = "set deps \<union> set (ignored_existentials x)"
  let ?K = "searched_vars keys x u"
  have deps: "set deps = {e \<in> set keys. u \<in> set (the (original_dependency_map x e))}" "distinct deps"
    using ok by (auto simp: deps_def computeInverseDependencies_eq scheme_ok_def)
  have K: "?K = insert u ?I" by (simp add: searched_vars_def deps)
  have u: "0 < u" "u \<le> n" using scheme_okD(2) [OF ok] us(1) by (auto simp: n_def U_def)
  have E: "0 < e \<and> e \<le> n \<and> e \<notin> U" if "e \<in> ?I" for e
    using scheme_okD(3) [OF ok] that deps(1) by (auto simp: n_def U_def)
  then have E': "\<forall>e\<in>?I. 0 < e \<and> e \<le> n" by blast
  have v: "vectors_ok n v" "considered_vars n (to_consider v) = {}"
    "(marks n (marked_positive v) \<union> marks n (marked_negative v)) \<inter> lits_of (set (u # us)) = {}"
    using round by (auto simp: round_ok_def)
  obtain v1 where v1: "setUpSearchVectors x u deps v = Some v1" "vectors_ok n v1"
    "considered_vars n (to_consider v1) = ?K"
    "marks n (marked_positive v1) = insert (- u) (marks n (marked_positive v) - lits_of ?I)"
    "marks n (marked_negative v1) = insert u (marks n (marked_negative v) - lits_of ?I)"
    using setUpSearchVectors_spec [OF v(1) [unfolded n_def] u [unfolded n_def] E' [unfolded n_def]] v(2) K
    unfolding n_def by auto
  have len: "length (to_consider v1) = nat (max_variable_in_matrix x)"
    "length (marked_positive v1) = nat (2 * max_variable_in_matrix x)"
    "length (marked_negative v1) = nat (2 * max_variable_in_matrix x)"
    using v1(2) unfolding vectors_ok_def n_def by simp_all
  have lit: "lit_ok (max_variable_in_matrix x) u" "lit_ok (max_variable_in_matrix x) (- u)"
    using u by (simp_all add: lit_ok_def n_def)
  have avoid: "marks n (marked_positive v1) \<inter> lits_of ?K = {- u} \<inter> lits_of ?K"
    "marks n (marked_negative v1) \<inter> lits_of ?K = {u} \<inter> lits_of ?K"
    using v(3) unfolding v1(4,5) K by fastforce+
  obtain mp where mp: "searchPaths x u (to_consider v1) (marked_positive v1) (getContainingClauses F) = Some mp"
    "length mp = nat (2 * n)"
    "marks n mp = marks n (marked_positive v1) \<union> {k. path F ?K {- u} u k}"
    using searchPaths_marks [OF scheme_okD(1) [OF ok] len(1,2) lit(1)] len
    unfolding n_def [symmetric] F_def [symmetric] v1(3) path_avoid_cong [OF avoid(1)] by auto
  obtain mn where mn: "searchPaths x (- u) (to_consider v1) (marked_negative v1) (getContainingClauses F) = Some mn"
    "length mn = nat (2 * n)"
    "marks n mn = marks n (marked_negative v1) \<union> {k. path F ?K {u} (- u) k}"
    using searchPaths_marks [OF scheme_okD(1) [OF ok] len(1,3) lit(2)] len
    unfolding n_def [symmetric] F_def [symmetric] v1(3) path_avoid_cong [OF avoid(2)] by auto
  obtain tc where tc: "revertSearchVectors x u deps (to_consider v1) = Some tc" "length tc = nat n"
    "considered_vars n tc = {}"
    using revertSearchVectors_spec [of "to_consider v1" x u deps] len u E' v1(3) K by (auto simp: n_def)
  define v2 where "v2 = \<lparr>to_consider = tc, marked_positive = mp, marked_negative = mn\<rparr>"
  obtain p where p: "keep_reached n u v2 deps pruned = Some p"
    "\<forall>e. p e = (if e \<in> set deps \<and>
       (e \<in> marks n (marked_positive v2) \<and> - e \<in> marks n (marked_negative v2) \<or>
        - e \<in> marks n (marked_positive v2) \<and> e \<in> marks n (marked_negative v2))
       then Some (the (pruned e) @ [u]) else pruned e)"
    using keep_reached_spec [of v2 n deps pruned u] mp(2) mn(2) E' deps dom by (auto simp: v2_def)
  have "scheme_step x (computeInverseDependencies keys x) (getContainingClauses F) u v pruned = Some (v2, p)"
    using v1(1) mp(1) mn(1) tc(1) p(1) by (simp add: scheme_step_def deps_def n_def v2_def)
  moreover have "round_ok n us v2"
  proof -
    have "Collect (path F ?K A s) \<subseteq> lits_of ?K" for A s using path_considered by blast
    moreover have "u \<in> lits_of ?K" "- u \<in> lits_of ?K" using u K by simp_all
    ultimately have "(marks n mp \<union> marks n mn) \<subseteq>
        marks n (marked_positive v) \<union> marks n (marked_negative v) \<union> lits_of ?K"
      unfolding mp(3) mn(3) v1(4,5) by blast
    moreover have "lits_of ?K \<inter> lits_of (set us) = {}" using E us K by auto
    moreover have "lits_of (set us) \<subseteq> lits_of (set (u # us))" by auto
    ultimately have "(marks n mp \<union> marks n mn) \<inter> lits_of (set us) = {}" using v(3) by blast
    then show ?thesis using mp(2) mn(2) tc(2,3) by (simp add: round_ok_def vectors_ok_def v2_def)
  qed
  moreover have "(e \<in> marks n mp \<and> - e \<in> marks n mn \<or> - e \<in> marks n mp \<and> e \<in> marks n mn) \<longleftrightarrow>
      rrs_connected F ?K u e" if "e \<in> set deps" for e
  proof -
    have "e \<noteq> u" "0 < e" "\<bar>e\<bar> \<in> ?I" "\<bar>- e\<bar> \<in> ?I" using that E [of e] us(1) by auto
    then have "e \<notin> marks n (marked_positive v1)" "- e \<notin> marks n (marked_positive v1)"
      "e \<notin> marks n (marked_negative v1)" "- e \<notin> marks n (marked_negative v1)"
      using u unfolding v1(4,5) by auto
    then show ?thesis unfolding mp(3) mn(3) rrs_connected_def by blast
  qed
  ultimately show ?thesis using p(2) by (intro exI [of _ v2] exI [of _ p]) (auto simp: v2_def deps(1))
qed

lemma scheme_loop_spec:
  assumes ok: "scheme_ok keys x" and us: "set us \<subseteq> set (universal_variables (formula x))" "distinct us"
    and round: "round_ok (max_variable_in_matrix x) us v" and dom: "\<forall>e. pruned e \<noteq> None \<longleftrightarrow> e \<in> set keys"
  shows "\<exists>p. scheme_loop x (computeInverseDependencies keys x) (getContainingClauses (matrix (formula x))) us v pruned = Some p \<and>
    (\<forall>e. p e = (if e \<in> set keys then Some (the (pruned e) @
        filter (\<lambda>u. u \<in> set (the (original_dependency_map x e)) \<and>
          rrs_connected (matrix (formula x)) (searched_vars keys x u) u e) us) else None))"
  using us round dom
proof (induction us arbitrary: v pruned)
  case Nil
  then show ?case by (auto split: if_splits)
next
  case (Cons u us)
  have "u \<in> set (universal_variables (formula x))" "set us \<subseteq> set (universal_variables (formula x))"
    "u \<notin> set us" "\<forall>e\<in>set keys. pruned e \<noteq> None" using Cons.prems by auto
  from scheme_step_spec [OF ok this(1-3) Cons.prems(3) this(4)]
  obtain v' p where step: "scheme_step x (computeInverseDependencies keys x)
      (getContainingClauses (matrix (formula x))) u v pruned = Some (v', p)"
    "round_ok (max_variable_in_matrix x) us v'"
    "\<forall>e. p e = (if e \<in> set keys \<and> u \<in> set (the (original_dependency_map x e)) \<and>
         rrs_connected (matrix (formula x)) (searched_vars keys x u) u e
       then Some (the (pruned e) @ [u]) else pruned e)"
    by blast
  have "\<forall>e. p e \<noteq> None \<longleftrightarrow> e \<in> set keys" using step(3) Cons.prems(4) by auto
  then obtain q where q: "scheme_loop x (computeInverseDependencies keys x)
      (getContainingClauses (matrix (formula x))) us v' p = Some q"
    "\<forall>e. q e = (if e \<in> set keys then Some (the (p e) @
        filter (\<lambda>u. u \<in> set (the (original_dependency_map x e)) \<and>
          rrs_connected (matrix (formula x)) (searched_vars keys x u) u e) us) else None)"
    using Cons.IH [of v' p] step(2) Cons.prems(1,2) by (elim meta_impE) auto
  then show ?case using step(1,3) by (auto split: bind_splits)
qed

lemma applyDependencyScheme_spec:
  assumes "scheme_ok keys x"
  shows "\<exists>p. applyDependencyScheme keys x = Some p \<and>
    (\<forall>e. p e = (if e \<in> set keys then Some (filter
        (\<lambda>u. u \<in> set (the (original_dependency_map x e)) \<and>
          rrs_connected (matrix (formula x)) (searched_vars keys x u) u e)
        (universal_variables (formula x))) else None))"
proof -
  let ?n = "max_variable_in_matrix x"
  let ?v = "\<lparr>to_consider = replicate (nat ?n) False, marked_positive = replicate (2 * nat ?n) False,
         marked_negative = replicate (2 * nat ?n) False\<rparr>"
  have none: "marks ?n (replicate (2 * nat ?n) False) = {}"
  proof -
    have "\<not> replicate (2 * nat ?n) False ! nat (marked_index ?n l)" if "lit_ok ?n l" for l
      using marked_index_range [OF that] by (subst nth_replicate) auto
    then show ?thesis by (auto simp: marks_def)
  qed
  have round: "round_ok ?n (universal_variables (formula x)) ?v"
    by (auto simp: round_ok_def vectors_ok_def none considered_vars_def nat_mult_distrib)
  have dist: "distinct (universal_variables (formula x))" using assms by (simp add: scheme_ok_def)
  have dom: "\<forall>v. (if v \<in> set keys then Some [] else None) \<noteq> None \<longleftrightarrow> v \<in> set keys" by simp
  obtain p where "applyDependencyScheme keys x = Some p"
    "\<forall>e. p e = (if e \<in> set keys then Some (the (if e \<in> set keys then Some [] else None) @ filter
        (\<lambda>u. u \<in> set (the (original_dependency_map x e)) \<and>
          rrs_connected (matrix (formula x)) (searched_vars keys x u) u e)
        (universal_variables (formula x))) else None)"
    unfolding applyDependencyScheme_def Let_def using scheme_loop_spec [OF assms order_refl dist round dom] by blast
  then show ?thesis by simp
qed

text \<open>C12: Pruning succeeds on a well-formed formula, and keeps exactly the connected pairs: a
  universal variable stays a dependency of an existential one, in the order of the prefix, iff it
  was an original dependency and the two are connected by resolution paths through the
  existential variables that depend on the universal or belong to the ignored innermost block.\<close>

theorem applyDependencyScheme_exact:
  assumes "scheme_ok keys x"
  shows "\<exists>p. applyDependencyScheme keys x = Some p \<and>
    (\<forall>e. p e = (if e \<in> set keys then Some (filter
        (\<lambda>u. u \<in> set (the (original_dependency_map x e)) \<and>
          rrs_connected (matrix (formula x)) (searched_vars keys x u) u e)
        (universal_variables (formula x))) else None))"
  using assms by (rule applyDependencyScheme_spec)

definition demo_extractor :: extractor where
  "demo_extractor =
     \<lparr>max_variable_in_matrix = 3, existential_block_idx_end = 1,
      formula = \<lparr>max_var = 3, check_max_var = True, matrix = [[1, 2], [- 1, - 2], [1, 3]],
        first_block_type = True, universal_variables = [1], universal_blocks = [0, 1],
        existential_variables = [2, 3], existential_blocks = [0, 2],
        explicit_dependencies = [], definitions = []\<rparr>,
      original_dependency_map = [2 \<mapsto> [1], 3 \<mapsto> [1]]\<rparr>"

lemma applyDependencyScheme_exact_witness:
  "\<exists>p. applyDependencyScheme [2, 3] demo_extractor = Some p \<and> p 1 = None \<and> p 2 = Some [1] \<and>
     (\<forall>u\<in>set (the (p 3)). u = 1)"
proof -
  have "scheme_ok [2, 3] demo_extractor"
    by (simp add: scheme_ok_def demo_extractor_def cnf_in_range_def lit_ok_def ignored_existentials_def
        getNofExistentialBlocks_def)
  from applyDependencyScheme_exact [OF this] obtain p where p: "applyDependencyScheme [2, 3] demo_extractor = Some p"
    "\<forall>e. p e = (if e \<in> set [2, 3] then Some (filter
        (\<lambda>u. u \<in> set (the (original_dependency_map demo_extractor e)) \<and>
          rrs_connected (matrix (formula demo_extractor)) (searched_vars [2, 3] demo_extractor u) u e)
        (universal_variables (formula demo_extractor))) else None)" by blast
  have K: "searched_vars [2, 3] demo_extractor 1 = {1, 2, 3}"
    by (auto simp: searched_vars_def demo_extractor_def ignored_existentials_def getNofExistentialBlocks_def)
  let ?F = "[[1, 2], [- 1, - 2], [1, 3]] :: int list list"
  have "path ?F {1, 2, 3} {- 1} 1 (- 2)"
    by (rule path_step [where c = "[- 1, - 2]", OF path_start]) simp_all
  moreover have "path ?F {1, 2, 3} {1} (- 1) 2"
    by (rule path_step [where c = "[1, 2]", OF path_start]) simp_all
  ultimately have "rrs_connected ?F {1, 2, 3} 1 2" by (simp add: rrs_connected_def)
  then have "p 2 = Some [1]" using p(2) K by (simp add: demo_extractor_def)
  then show ?thesis using p by (auto simp: demo_extractor_def)
qed

end
