(* ===== verification/Preprocessor.thy ===== *)
theory Preprocessor
  imports DependencyScheme "HOL-Library.Multiset"
begin

text \<open>
  \<open>src/inputformula.h\<close> and \<open>src/preprocessor.cc\<close>: the formula the solver works on, and how it is
  obtained from the parsed one: dependencies, the innermost block, universal reduction of every
  clause, the largest variable. An index below the first block, where the code reads outside the
  vector, is \<open>None\<close>. The soundness of the reduction is stated with Skolem functions: a formula
  of the prefix is true iff some functions of the dependencies satisfy the matrix for every
  assignment of the universals.
\<close>

section \<open>The input formula\<close>

record input_formula =
  input_matrix :: cnf
  input_dependencies :: ext_map
  input_extended_dependencies :: ext_map
  innermost_existential_block_present :: bool
  start_index_innermost_existentials :: nat
  end_index_innermost_existentials :: nat
  input_universal_variables :: "int list"
  input_existential_variables :: "int list"
  max_used_variable :: int
  input_definitions :: "(int \<times> cnf \<times> circuit) list"

definition max_element :: "int list \<Rightarrow> int" where
  "max_element xs = (case xs of [] \<Rightarrow> 0 | y # ys \<Rightarrow> fold max ys y)"

definition setMaxVariable :: "input_formula \<Rightarrow> input_formula" where
  "setMaxVariable r =
     (let m = max (max_element (input_universal_variables r)) (max_element (input_existential_variables r))
      in r\<lparr>max_used_variable :=
            fold (\<lambda>(_, _, circuit_def). fold (\<lambda>(_, output_literal) m. max m \<bar>output_literal\<bar>) circuit_def)
              (input_definitions r) m\<rparr>)"

section \<open>Universal reduction\<close>

type_synonym dependency_sets = "int \<rightharpoonup> int set"

definition applyForallReduction ::
  "clause \<Rightarrow> int set \<Rightarrow> int set \<Rightarrow> dependency_sets \<Rightarrow> int \<times> clause" where
  "applyForallReduction clause universal_variables_set innermost_existentials dependency_map_set =
     (if restrictTo clause innermost_existentials \<noteq> [] then (0, clause)
      else
        let universal_clause = restrictTo clause universal_variables_set;
            existential_clause = filter (\<lambda>l. dependency_map_set (var l) \<noteq> None) clause;
            is_dependency = (\<lambda>u. list_ex (\<lambda>e. var u \<in> the (dependency_map_set (var e))) existential_clause)
        in (int (length (filter (\<lambda>u. \<not> is_dependency u) universal_clause)),
            existential_clause @ filter is_dependency universal_clause))"

section \<open>The pipeline\<close>

definition innermost_block :: "configuration \<Rightarrow> dqdimacs \<Rightarrow> (bool \<times> nat \<times> nat) option" where
  "innermost_block config d =
     (let blocks = existential_blocks d in
      if ignore_innermost_existentials config \<and> \<not> lastBlockType d
      then if length blocks < 2 then None
           else Some (True, blocks ! (length blocks - 2), blocks ! (length blocks - 1))
      else Some (False, 0, 0))"

definition extract_dependencies ::
  "configuration \<Rightarrow> int list \<Rightarrow> nat \<Rightarrow> nat \<Rightarrow> extractor \<Rightarrow> (extractor \<times> ext_map \<times> ext_map) option" where
  "extract_dependencies config keys start stop x =
     (if extended_dependencies config
      then map_option (\<lambda>(x1, deps, extended_deps). (sort_existentials start stop x1, deps, extended_deps))
             (getExtendedDependencies config keys x)
      else map_option (\<lambda>(x1, deps). (x1, deps, deps)) (getDependencies config keys x))"

definition reduce_matrix :: "configuration \<Rightarrow> bool \<Rightarrow> input_formula \<Rightarrow> input_formula" where
  "reduce_matrix config innermost r =
     (if apply_forall_reduction config
      then
        let universal_set = set (input_universal_variables r);
            innermost_existentials =
              (if innermost
               then set (slice (start_index_innermost_existentials r) (end_index_innermost_existentials r)
                           (input_existential_variables r)) else {});
            dependency_map_set = (\<lambda>v. map_option set (input_dependencies r v))
        in r\<lparr>input_matrix := map (\<lambda>c. snd (applyForallReduction c universal_set innermost_existentials
                                      dependency_map_set)) (input_matrix r)\<rparr>
      else r)"

definition preprocess :: "configuration \<Rightarrow> int list \<Rightarrow> extractor \<Rightarrow> input_formula option" where
  "preprocess config keys x =
     Option.bind (innermost_block config (formula x)) (\<lambda>(present, start, stop).
     Option.bind (extract_dependencies config keys start stop x) (\<lambda>(x1, deps, extended_deps).
       let d = formula x1;
           r = \<lparr>input_matrix = matrix d, input_dependencies = deps,
                 input_extended_dependencies = extended_deps,
                 innermost_existential_block_present = present,
                 start_index_innermost_existentials = start, end_index_innermost_existentials = stop,
                 input_universal_variables = universal_variables d,
                 input_existential_variables =
                   existential_variables d @ sort (map fst (explicit_dependencies d)),
                 max_used_variable = 0, input_definitions = definitions d\<rparr>
       in Some (setMaxVariable (reduce_matrix config
            (ignore_innermost_existentials config \<and> \<not> lastBlockType d) r))))"

section \<open>Skolem functions\<close>

type_synonym skolem = "int \<Rightarrow> assignment \<Rightarrow> bool"

definition skolem_for :: "dependency_sets \<Rightarrow> skolem \<Rightarrow> bool" where
  "skolem_for D f \<longleftrightarrow> (\<forall>e us \<alpha> \<beta>. D e = Some us \<and> (\<forall>u\<in>us. \<alpha> u = \<beta> u) \<longrightarrow> f e \<alpha> = f e \<beta>)"

definition play :: "int set \<Rightarrow> skolem \<Rightarrow> assignment \<Rightarrow> assignment" where
  "play U f \<alpha> = (\<lambda>v. if v \<in> U then \<alpha> v else f v \<alpha>)"

definition wins :: "int set \<Rightarrow> skolem \<Rightarrow> cnf \<Rightarrow> bool" where
  "wins U f F \<longleftrightarrow> (\<forall>\<alpha>. cnf_sat (play U f \<alpha>) F)"

definition reducible :: "int set \<Rightarrow> int set \<Rightarrow> dependency_sets \<Rightarrow> clause \<Rightarrow> bool" where
  "reducible U I D c \<longleftrightarrow> 0 \<notin> set c \<and> (\<forall>l\<in>set c. - l \<notin> set c) \<and>
     (\<forall>l\<in>set c. var l \<in> U \<or> D (var l) \<noteq> None \<or> var l \<in> I)"

lemma lit_true_flip:
  assumes "l \<noteq> 0" shows "\<not> lit_true (\<alpha>(var l := l < 0)) l"
  using assms by (auto simp: lit_true_def var_def)

lemma applyForallReduction_subset:
  assumes "applyForallReduction c U I D = (n, c')"
  shows "set c' \<subseteq> set c"
  using assms by (auto simp: applyForallReduction_def restrictTo_def Let_def split: if_splits)

lemma applyForallReduction_sound:
  assumes c: "reducible U I D c" and D: "\<forall>e. D e \<noteq> None \<longrightarrow> e \<notin> U" and f: "skolem_for D f"
    and red: "applyForallReduction c U I D = (n, c')"
  shows "(\<forall>\<alpha>. clause_sat (play U f \<alpha>) c) \<longleftrightarrow> (\<forall>\<alpha>. clause_sat (play U f \<alpha>) c')"
proof (cases "restrictTo c I = []")
  case False
  then show ?thesis using red by (simp add: applyForallReduction_def)
next
  case True
  define ex where "ex = filter (\<lambda>l. D (var l) \<noteq> None) c"
  define dep where "dep = (\<lambda>u. list_ex (\<lambda>e. var u \<in> the (D (var e))) ex)"
  have c': "c' = ex @ filter dep (restrictTo c U)"
    using red True by (simp add: applyForallReduction_def ex_def dep_def Let_def)
  have kind: "var l \<in> U \<or> l \<in> set ex" if "l \<in> set c" for l
    using c that True by (auto simp: reducible_def restrictTo_def filter_empty_conv ex_def)
  show ?thesis
  proof
    assume "\<forall>\<alpha>. clause_sat (play U f \<alpha>) c'"
    moreover have "set c' \<subseteq> set c" by (auto simp: c' ex_def restrictTo_def)
    ultimately show "\<forall>\<alpha>. clause_sat (play U f \<alpha>) c" by (meson clause_sat_iff subsetD)
  next
    assume sat: "\<forall>\<alpha>. clause_sat (play U f \<alpha>) c"
    show "\<forall>\<alpha>. clause_sat (play U f \<alpha>) c'"
    proof (rule allI, rule ccontr)
      fix \<alpha> assume unsat: "\<not> clause_sat (play U f \<alpha>) c'"
      text \<open>Falsify the dropped literals too.\<close>
      define \<beta> where "\<beta> = (\<lambda>v. if \<exists>l\<in>set c. var l = v \<and> v \<in> U \<and> \<not> dep l then - v \<in> set c else \<alpha> v)"
      have same: "f e \<beta> = f e \<alpha>" if "l \<in> set ex" "var l = e" for e l
      proof -
        have "D e \<noteq> None" using that by (auto simp: ex_def)
        then obtain us where us: "D e = Some us" by blast
        have "\<beta> u = \<alpha> u" if "u \<in> us" for u
        proof -
          have "dep k" if "var k = u" for k
            using \<open>u \<in> us\<close> us that \<open>l \<in> set ex\<close> \<open>var l = e\<close> unfolding dep_def list_ex_iff by (intro bexI [of _ l]) auto
          then show ?thesis by (auto simp: \<beta>_def)
        qed
        then show ?thesis using f us unfolding skolem_for_def by blast
      qed
      obtain l where l: "l \<in> set c" "lit_true (play U f \<beta>) l" using sat by (auto simp: clause_sat_iff)
      have l0: "l \<noteq> 0" "- l \<notin> set c" using c l(1) by (auto simp: reducible_def)
      show False
      proof (cases "l \<in> set ex")
        case True
        then have "D (var l) \<noteq> None" by (auto simp: ex_def)
        then have "var l \<notin> U" using D by blast
        then have "play U f \<beta> (abs l) = play U f \<alpha> (abs l)" using same [OF True refl] by (simp add: play_def var_def)
        then have "lit_true (play U f \<alpha>) l"
          using l(2) lit_true_cong [of "play U f \<beta>" l "play U f \<alpha>"] by simp
        then show False using unsat True by (auto simp: c' clause_sat_iff)
      next
        case notex: False
        then have u: "var l \<in> U" using kind l(1) by blast
        show False
        proof (cases "dep l")
          case True
          have "\<not> (\<exists>k\<in>set c. var k = var l \<and> \<not> dep k)"
            using True by (auto simp: dep_def)
          then have "\<beta> (var l) = \<alpha> (var l)" by (auto simp: \<beta>_def)
          then have "lit_true (play U f \<alpha>) l"
            using l(2) lit_true_cong [of "play U f \<beta>" l "play U f \<alpha>"] u by (simp add: play_def var_def)
          then show False using unsat l(1) u True by (auto simp: c' clause_sat_iff restrictTo_def)
        next
          case False
          then have "\<beta> (var l) \<longleftrightarrow> - var l \<in> set c" using l(1) u by (auto simp: \<beta>_def)
          then show False using l(2) u l(1) l0 by (auto simp: play_def lit_true_def var_def split: if_splits)
        qed
      qed
    qed
  qed
qed

section \<open>The whole matrix\<close>

text \<open>Extracting the dependencies sorts variable blocks but touches nothing else.\<close>

definition matrix_data :: "extractor \<Rightarrow> extractor" where
  "matrix_data x = x\<lparr>original_dependency_map := Map.empty,
     formula := (formula x)\<lparr>universal_variables := sort (universal_variables (formula x)),
                  existential_variables := sort (existential_variables (formula x))\<rparr>\<rparr>"

lemma sort_sort_range [simp]: "sort (sort_range i j xs) = sort xs"
proof -
  have "mset (sort_range i j xs) = mset xs"
  proof (cases "i \<le> j")
    case True
    have "xs = take i xs @ take (j - i) (drop i xs) @ drop j xs"
      using True append_take_drop_id [of "j - i" "drop i xs"] append_take_drop_id [of i xs] by simp
    from arg_cong [OF this, of mset]
    have "mset xs = mset (take i xs) + mset (take (j - i) (drop i xs)) + mset (drop j xs)" by simp
    then show ?thesis using True by (simp add: sort_range_def)
  next
    case False
    have "mset (take i xs) + mset (drop i xs) = mset xs" by (metis append_take_drop_id mset_append)
    then show ?thesis using False by (simp add: sort_range_def)
  qed
  then show ?thesis by (metis properties_for_sort sorted_sort mset_sort)
qed

lemma matrix_data_steps [simp]:
  "matrix_data (sort_universals n x) = matrix_data x" "matrix_data (sort_existentials i j x) = matrix_data x"
  "matrix_data (set_original v deps x) = matrix_data x"
  "matrix_data (x\<lparr>original_dependency_map := m\<rparr>) = matrix_data x"
  by (simp_all add: matrix_data_def sort_universals_def sort_existentials_def set_original_def)

lemma matrix_data_fields:
  assumes "matrix_data x' = matrix_data x"
  shows "matrix (formula x') = matrix (formula x)" "lastBlockType (formula x') = lastBlockType (formula x)"
    "set (universal_variables (formula x')) = set (universal_variables (formula x))"
    "distinct (universal_variables (formula x')) = distinct (universal_variables (formula x))"
    "set (existential_variables (formula x')) = set (existential_variables (formula x))"
    "explicit_dependencies (formula x') = explicit_dependencies (formula x)"
    "max_variable_in_matrix x' = max_variable_in_matrix x"
    "existential_block_idx_end x' = existential_block_idx_end x"
    "getNofExistentialBlocks (formula x') = getNofExistentialBlocks (formula x)"
    "definitions (formula x') = definitions (formula x)"
proof -
  note f = arg_cong [OF assms, of "\<lambda>x. matrix (formula x)"] arg_cong [OF assms, of "\<lambda>x. first_block_type (formula x)"]
    arg_cong [OF assms, of "\<lambda>x. universal_variables (formula x)"] arg_cong [OF assms, of "\<lambda>x. existential_variables (formula x)"]
    arg_cong [OF assms, of "\<lambda>x. explicit_dependencies (formula x)"] arg_cong [OF assms, of max_variable_in_matrix]
    arg_cong [OF assms, of existential_block_idx_end] arg_cong [OF assms, of "\<lambda>x. existential_blocks (formula x)"]
    arg_cong [OF assms, of "\<lambda>x. universal_blocks (formula x)"]
    arg_cong [OF assms, of "\<lambda>x. definitions (formula x)"]
  show "matrix (formula x') = matrix (formula x)" "lastBlockType (formula x') = lastBlockType (formula x)"
    "explicit_dependencies (formula x') = explicit_dependencies (formula x)"
    "max_variable_in_matrix x' = max_variable_in_matrix x"
    "existential_block_idx_end x' = existential_block_idx_end x"
    "getNofExistentialBlocks (formula x') = getNofExistentialBlocks (formula x)"
    "definitions (formula x') = definitions (formula x)"
    using f by (simp_all add: matrix_data_def lastBlockType_def getNofExistentialBlocks_def)
  have u: "sort (universal_variables (formula x')) = sort (universal_variables (formula x))"
    and e: "sort (existential_variables (formula x')) = sort (existential_variables (formula x))"
    using f by (simp_all add: matrix_data_def)
  show "set (universal_variables (formula x')) = set (universal_variables (formula x))"
    "set (existential_variables (formula x')) = set (existential_variables (formula x))"
    "distinct (universal_variables (formula x')) = distinct (universal_variables (formula x))"
    by (metis u set_sort, metis e set_sort, metis u distinct_sort)
qed

lemma matrix_data_start: "start_universals x = (u, y) \<Longrightarrow> matrix_data y = matrix_data x"
  by (auto simp: start_universals_def split: if_splits)

lemma matrix_data_next: "next_universals i x = (u, y) \<Longrightarrow> matrix_data y = matrix_data x"
  by (auto simp: next_universals_def split: if_splits)

lemma matrix_data_fold:
  "(\<And>a y. matrix_data (g a y) = matrix_data y) \<Longrightarrow> matrix_data (fold g xs x) = matrix_data x"
  by (induction xs arbitrary: x) auto

lemma matrix_data_loop: "matrix_data (computeDependencies_loop is i x) = matrix_data x"
proof (induction "is" i x rule: computeDependencies_loop.induct)
  case (2 i "is" u x)
  let ?y = "fold (\<lambda>e. set_original e (universal_prefix u x)) (block_variables i x) x"
  obtain v z where n: "next_universals u ?y = (v, z)" by fastforce
  then have "matrix_data (computeDependencies_loop is v z) = matrix_data z" using 2 by simp
  also have "\<dots> = matrix_data ?y" by (rule matrix_data_next [OF n])
  also have "\<dots> = matrix_data x" by (rule matrix_data_fold) simp
  finally show ?case using n by simp
qed simp

lemma matrix_data_computeDependencies: "matrix_data (computeDependencies x) = matrix_data x"
proof (cases "universal_variables (formula x) = []")
  case True
  have "matrix_data (fold (\<lambda>e x. x\<lparr>original_dependency_map := (original_dependency_map x)(e \<mapsto> [])\<rparr>)
      (getAllExistentials (formula x)) x) = matrix_data x" by (rule matrix_data_fold) simp
  then show ?thesis using True by (simp add: computeDependencies_def)
next
  case False
  obtain u x1 where s: "start_universals x = (u, x1)" by fastforce
  let ?y = "computeDependencies_loop [0..<nat (existential_block_idx_end x)] u x1"
  have "matrix_data (fold (\<lambda>(v, deps). set_original v deps) (explicit_dependencies (formula x)) ?y) = matrix_data ?y"
    by (rule matrix_data_fold) (simp split: prod.split)
  then show ?thesis using False s matrix_data_loop matrix_data_start [OF s]
    by (simp add: computeDependencies_def Let_def)
qed

lemma matrix_data_extend_block:
  "extend_block u before es x ext = Some (y, ext') \<Longrightarrow> matrix_data y = matrix_data x"
  by (induction u before es x ext rule: extend_block.induct) (auto simp: Let_def split: bind_splits)

lemma matrix_data_extend_implicit:
  "extend_implicit is u x ext = Some (y, ext') \<Longrightarrow> matrix_data y = matrix_data x"
proof (induction "is" arbitrary: u x ext)
  case (Cons i "is")
  let ?x1 = "sort_existentials (existential_blocks (formula x) ! i) (existential_blocks (formula x) ! (i + 1)) x"
  obtain x2 ext2 where b: "extend_block u (take (existential_blocks (formula x) ! i)
      (existential_variables (formula ?x1))) (block_variables i ?x1) ?x1 ext = Some (x2, ext2)"
    using Cons.prems by (auto simp: Let_def split: bind_splits)
  obtain v x3 where n: "next_universals u x2 = (v, x3)" by fastforce
  have "matrix_data y = matrix_data x3"
    by (rule Cons.IH) (use Cons.prems b n in \<open>simp add: Let_def\<close>)
  then show ?case using matrix_data_next [OF n] matrix_data_extend_block [OF b] by simp
qed simp

lemma matrix_data_extend_explicit:
  "extend_explicit entries processed x ext = Some (y, ext') \<Longrightarrow> matrix_data y = matrix_data x"
  by (induction entries processed x ext rule: extend_explicit.induct) (auto simp: Let_def split: bind_splits)

lemma matrix_data_no_universals:
  "extend_no_universals es vs x ext = (y, ext') \<Longrightarrow> matrix_data y = matrix_data x"
  by (induction es vs x ext rule: extend_no_universals.induct) auto

lemma matrix_data_computeExtendedDependencies:
  assumes c: "computeExtendedDependencies x = Some (y, ext)"
  shows "matrix_data y = matrix_data x"
proof (cases "universal_variables (formula x) = []")
  case True
  then show ?thesis using c matrix_data_no_universals by (simp add: computeExtendedDependencies_def)
next
  case False
  obtain u x1 where s: "start_universals x = (u, x1)" by fastforce
  obtain x2 ext2 where b: "extend_implicit [0..<nat (existential_block_idx_end x)] u x1 Map.empty = Some (x2, ext2)"
    "extend_explicit (explicit_dependencies (formula x2)) [] x2 ext2 = Some (y, ext)"
    using c False s by (auto simp: computeExtendedDependencies_def split: bind_splits)
  then show ?thesis
    using matrix_data_start [OF s] matrix_data_extend_implicit [OF b(1)] matrix_data_extend_explicit [OF b(2)]
    by simp
qed

lemma matrix_data_extract:
  "extract_dependencies config keys start stop x = Some (y, deps, ext) \<Longrightarrow> matrix_data y = matrix_data x"
  using matrix_data_computeExtendedDependencies [of x]
  by (auto simp: extract_dependencies_def getExtendedDependencies_def getDependencies_def Let_def
      matrix_data_computeDependencies split: if_splits bind_splits)

lemma setMaxVariable_fields [simp]:
  "input_matrix (setMaxVariable r) = input_matrix r"
  "input_dependencies (setMaxVariable r) = input_dependencies r"
  "input_universal_variables (setMaxVariable r) = input_universal_variables r"
  "input_existential_variables (setMaxVariable r) = input_existential_variables r"
  "start_index_innermost_existentials (setMaxVariable r) = start_index_innermost_existentials r"
  "end_index_innermost_existentials (setMaxVariable r) = end_index_innermost_existentials r"
  "innermost_existential_block_present (setMaxVariable r) = innermost_existential_block_present r"
  "input_definitions (setMaxVariable r) = input_definitions r"
  by (simp_all add: setMaxVariable_def Let_def)

lemma max_element_ge: "v \<in> set xs \<Longrightarrow> v \<le> max_element xs"
  by (cases xs) (auto simp: max_element_def intro: fold_max_ge fold_max_mem)

lemma fold_max_outputs:
  "m \<le> fold (\<lambda>(_, output_literal) m. max m \<bar>output_literal\<bar>) circuit_def (m :: int) \<and>
   (\<forall>(is, out)\<in>set circuit_def. \<bar>out\<bar> \<le> fold (\<lambda>(_, output_literal) m. max m \<bar>output_literal\<bar>) circuit_def m)"
proof (induction circuit_def arbitrary: m)
  case (Cons g gs)
  show ?case using Cons.IH [of "max m \<bar>snd g\<bar>"] by (cases g) auto
qed simp

lemma fold_max_definitions:
  fixes m :: int
  defines "step \<equiv> \<lambda>(_ :: int, _ :: cnf, circuit_def). fold (\<lambda>(_, output_literal) m. max m \<bar>output_literal\<bar>) circuit_def"
  shows "m \<le> fold step ds m \<and>
   (\<forall>(v, F, circuit_def)\<in>set ds. \<forall>(is :: int list, out)\<in>set circuit_def. \<bar>out\<bar> \<le> fold step ds m)"
proof (induction ds arbitrary: m)
  case (Cons d ds)
  obtain v F circuit_def where d: "d = (v, F, circuit_def)" by (cases d)
  let ?m = "fold (\<lambda>(_, output_literal) m. max m \<bar>output_literal\<bar>) circuit_def m"
  have "fold step (d # ds) m = fold step ds ?m" by (simp add: d step_def)
  then show ?case using Cons.IH [of ?m] fold_max_outputs [of m circuit_def] d by fastforce
qed simp

lemma setMaxVariable_bounds:
  "\<forall>v\<in>set (input_universal_variables (setMaxVariable r)) \<union> set (input_existential_variables (setMaxVariable r)).
     v \<le> max_used_variable (setMaxVariable r)"
  "\<forall>(v, F, circuit)\<in>set (input_definitions (setMaxVariable r)). \<forall>(is, out)\<in>set circuit.
     \<bar>out\<bar> \<le> max_used_variable (setMaxVariable r)"
proof -
  let ?m = "max (max_element (input_universal_variables r)) (max_element (input_existential_variables r))"
  note b = fold_max_definitions [of ?m "input_definitions r"]
  have "v \<le> ?m" if "v \<in> set (input_universal_variables r) \<union> set (input_existential_variables r)" for v
    using that max_element_ge by fastforce
  then show "\<forall>v\<in>set (input_universal_variables (setMaxVariable r)) \<union> set (input_existential_variables (setMaxVariable r)).
     v \<le> max_used_variable (setMaxVariable r)"
    using b by (fastforce simp: setMaxVariable_def Let_def)
  show "\<forall>(v, F, circuit)\<in>set (input_definitions (setMaxVariable r)). \<forall>(is, out)\<in>set circuit.
     \<bar>out\<bar> \<le> max_used_variable (setMaxVariable r)"
    using b by (simp add: setMaxVariable_def Let_def)
qed

lemma reduce_matrix_fields [simp]:
  "input_dependencies (reduce_matrix config b r) = input_dependencies r"
  "input_universal_variables (reduce_matrix config b r) = input_universal_variables r"
  "input_existential_variables (reduce_matrix config b r) = input_existential_variables r"
  "start_index_innermost_existentials (reduce_matrix config b r) = start_index_innermost_existentials r"
  "end_index_innermost_existentials (reduce_matrix config b r) = end_index_innermost_existentials r"
  "innermost_existential_block_present (reduce_matrix config b r) = innermost_existential_block_present r"
  "input_definitions (reduce_matrix config b r) = input_definitions r"
  by (simp_all add: reduce_matrix_def Let_def)

definition innermost_set :: "input_formula \<Rightarrow> int set" where
  "innermost_set r =
     (if innermost_existential_block_present r
      then set (slice (start_index_innermost_existentials r) (end_index_innermost_existentials r)
             (input_existential_variables r)) else {})"

definition dependency_sets_of :: "input_formula \<Rightarrow> dependency_sets" where
  "dependency_sets_of r = (\<lambda>v. map_option set (input_dependencies r v))"

lemma reduce_matrix_wins:
  assumes "\<forall>c\<in>set F. reducible U I D c" "\<forall>e. D e \<noteq> None \<longrightarrow> e \<notin> U" "skolem_for D f"
  shows "wins U f F \<longleftrightarrow> wins U f (map (\<lambda>c. snd (applyForallReduction c U I D)) F)"
proof -
  have "(\<forall>\<alpha>. clause_sat (play U f \<alpha>) c) \<longleftrightarrow>
      (\<forall>\<alpha>. clause_sat (play U f \<alpha>) (snd (applyForallReduction c U I D)))" if "c \<in> set F" for c
    using applyForallReduction_sound [OF _ assms(2,3) prod.collapse [symmetric]] assms(1) that by blast
  then show ?thesis unfolding wins_def cnf_sat_iff by (auto simp del: snd_conv)
qed

text \<open>
  The last step: over Skolem functions that respect the computed dependencies the reduced matrix
  says the same as the original one, as long as no clause is tautological and every variable of a
  clause is universal, has dependencies or lies in the ignored innermost block; and the largest
  used variable is one.
\<close>

lemma preprocess_reduces:
  assumes "preprocess config keys x = Some r"
    and "\<forall>c\<in>set (matrix (formula x)).
      reducible (set (input_universal_variables r)) (innermost_set r) (dependency_sets_of r) c"
    and "\<forall>e. dependency_sets_of r e \<noteq> None \<longrightarrow> e \<notin> set (input_universal_variables r)"
    and "skolem_for (dependency_sets_of r) f"
  shows "(wins (set (input_universal_variables r)) f (matrix (formula x)) \<longleftrightarrow>
       wins (set (input_universal_variables r)) f (input_matrix r)) \<and>
     (\<forall>v\<in>set (input_universal_variables r) \<union> set (input_existential_variables r). v \<le> max_used_variable r) \<and>
     (\<forall>(v, F, circuit)\<in>set (input_definitions r). \<forall>(is, out)\<in>set circuit. \<bar>out\<bar> \<le> max_used_variable r)"
proof -
  obtain present start stop x1 deps ext where e: "innermost_block config (formula x) = Some (present, start, stop)"
    "extract_dependencies config keys start stop x = Some (x1, deps, ext)"
    using assms(1) by (auto simp: preprocess_def split: bind_splits)
  note same = matrix_data_fields [OF matrix_data_extract [OF e(2)]]
  define r0 where "r0 = \<lparr>input_matrix = matrix (formula x1), input_dependencies = deps,
                 input_extended_dependencies = ext,
                 innermost_existential_block_present = present,
                 start_index_innermost_existentials = start, end_index_innermost_existentials = stop,
                 input_universal_variables = universal_variables (formula x1),
                 input_existential_variables =
                   existential_variables (formula x1) @ sort (map fst (explicit_dependencies (formula x1))),
                 max_used_variable = 0, input_definitions = definitions (formula x1)\<rparr>"
  have "present = (ignore_innermost_existentials config \<and> \<not> lastBlockType (formula x1))"
    using e(1) by (auto simp: innermost_block_def same Let_def split: if_splits)
  then have r: "r = setMaxVariable (reduce_matrix config present r0)"
    using assms(1) e by (simp add: preprocess_def r0_def Let_def)
  let ?U = "set (input_universal_variables r)"
  have U: "?U = set (input_universal_variables r0)" and D: "dependency_sets_of r = dependency_sets_of r0"
    and I: "innermost_set r = innermost_set r0"
    by (simp_all add: r dependency_sets_of_def innermost_set_def)
  have m: "matrix (formula x) = input_matrix r0" by (simp add: r0_def same)
  have "wins ?U f (input_matrix r0) \<longleftrightarrow> wins ?U f (input_matrix r)"
  proof (cases "apply_forall_reduction config")
    case True
    have p: "innermost_existential_block_present r0 = present" by (simp add: r0_def)
    have "input_matrix r = map (\<lambda>c. snd (applyForallReduction c ?U (innermost_set r) (dependency_sets_of r))) (input_matrix r0)"
      using True unfolding U D I by (simp add: r reduce_matrix_def Let_def innermost_set_def dependency_sets_of_def p)
    then show ?thesis using reduce_matrix_wins [OF assms(2) [unfolded m] assms(3,4)] by simp
  qed (simp add: r reduce_matrix_def)
  moreover have "\<forall>v\<in>?U \<union> set (input_existential_variables r). v \<le> max_used_variable r"
    "\<forall>(v, F, circuit)\<in>set (input_definitions r). \<forall>(is, out)\<in>set circuit. \<bar>out\<bar> \<le> max_used_variable r"
    using setMaxVariable_bounds unfolding r by blast+
  ultimately show ?thesis unfolding m by blast
qed

text \<open>
  On a tautological clause the reduction is not sound: the clause is always true, its reduct
  is not.
\<close>

lemma applyForallReduction_tautology:
  "applyForallReduction [1, - 1, 2] {1} {} [2 \<mapsto> {}] = (2, [2]) \<and>
   wins {1} (\<lambda>_ _. False) [[1, - 1, 2]] \<and> \<not> wins {1} (\<lambda>_ _. False) [[2]]"
  by (simp add: applyForallReduction_def restrictTo_def var_def wins_def play_def lit_true_def)

end
