(* ===== verification/DependencyExtractor_Blocks.thy ===== *)
theory DependencyExtractor_Blocks
  imports DependencyExtractor Utils_Correct
begin

text \<open>
  Correctness of the extended dependencies: the blocks of implicit dependencies form a strictly
  increasing chain, the two binary searches find the largest block contained in and the smallest
  block containing an explicit dependency set, and the fast path through blocks computes the
  same relation as the pairwise reference of \<open>include/utils.h\<close>.
\<close>

section \<open>Blocks as slices\<close>

lemma boundaries_nth: "i \<le> length E \<Longrightarrow> boundaries E ! i = length (concat (take i E))"
  by (simp add: boundaries_def del: upt_Suc)

lemma take_boundary: "i \<le> length E \<Longrightarrow> take (boundaries E ! i) (concat E) = concat (take i E)"
proof -
  assume i: "i \<le> length E"
  have "concat E = concat (take i E) @ concat (drop i E)"
    by (metis append_take_drop_id concat_append)
  then show ?thesis using i by (simp add: boundaries_nth)
qed

lemma drop_boundary: "i \<le> length E \<Longrightarrow> drop (boundaries E ! i) (concat E) = concat (drop i E)"
proof -
  assume i: "i \<le> length E"
  have "concat E = concat (take i E) @ concat (drop i E)"
    by (metis append_take_drop_id concat_append)
  then show ?thesis using i by (simp add: boundaries_nth)
qed

lemma boundaries_diff:
  assumes "i < length E" shows "boundaries E ! (i + 1) - boundaries E ! i = length (E ! i)"
  using assms by (simp add: boundaries_nth take_Suc_conv_app_nth)

lemma slice_boundaries:
  assumes "i < length E"
  shows "slice (boundaries E ! i) (boundaries E ! (i + 1)) (concat E) = E ! i"
proof -
  have "drop (boundaries E ! i) (concat E) = E ! i @ concat (drop (Suc i) E)"
    using assms drop_boundary [of i E] by (simp add: Cons_nth_drop_Suc [symmetric])
  then show ?thesis by (simp only: slice_def boundaries_diff [OF assms], simp)
qed

lemma boundaries_map_sort: "boundaries (map sort E) = boundaries E"
  by (simp add: boundaries_def length_concat take_map comp_def)

lemma block_nth_member:
  assumes "i < length E" "E ! i \<noteq> []"
  shows "concat E ! (boundaries E ! i) \<in> set (E ! i)"
proof -
  have "concat E = concat (take i E) @ E ! i @ concat (drop (Suc i) E)"
    using assms(1) by (metis append_take_drop_id concat.simps(2) concat_append Cons_nth_drop_Suc)
  then have "concat E ! (boundaries E ! i) = (E ! i @ concat (drop (Suc i) E)) ! 0"
    using assms(1) by (simp add: boundaries_nth nth_append)
  then show ?thesis using assms(2) by (simp add: nth_append)
qed

lemma set_drop_blocks: "v \<in> set (concat (drop i E)) \<longleftrightarrow> (\<exists>j<length E. i \<le> j \<and> v \<in> set (E ! j))"
proof
  assume "v \<in> set (concat (drop i E))"
  then obtain b where b: "b \<in> set (drop i E)" "v \<in> set b" by auto
  then obtain k where "k < length (drop i E)" "drop i E ! k = b" by (metis in_set_conv_nth)
  then show "\<exists>j<length E. i \<le> j \<and> v \<in> set (E ! j)" using b by (intro exI [of _ "i + k"]) auto
next
  assume "\<exists>j<length E. i \<le> j \<and> v \<in> set (E ! j)"
  then obtain j where "j < length E" "i \<le> j" "v \<in> set (E ! j)" by blast
  then have "drop i E ! (j - i) = E ! j" "j - i < length (drop i E)" by simp_all
  then have "E ! j \<in> set (drop i E)" by (metis nth_mem)
  then show "v \<in> set (concat (drop i E))" using \<open>v \<in> set (E ! j)\<close> by auto
qed

lemma set_take_blocks:
  assumes "i \<le> length E"
  shows "v \<in> set (concat (take i E)) \<longleftrightarrow> (\<exists>j<i. v \<in> set (E ! j))"
proof
  assume "v \<in> set (concat (take i E))"
  then obtain b where b: "b \<in> set (take i E)" "v \<in> set b" by auto
  then obtain k where "k < length (take i E)" "take i E ! k = b" by (metis in_set_conv_nth)
  then show "\<exists>j<i. v \<in> set (E ! j)" using b by (intro exI [of _ k]) auto
next
  assume "\<exists>j<i. v \<in> set (E ! j)"
  then obtain j where "j < i" "v \<in> set (E ! j)" by blast
  moreover have "E ! j \<in> set (take i E)"
    using \<open>j < i\<close> assms by (metis in_set_conv_nth length_take min.absorb2 nth_take)
  ultimately show "v \<in> set (concat (take i E))" by auto
qed

section \<open>The chain of implicit dependency sets\<close>

text \<open>\<open>E\<close> are the existential blocks, each sorted; \<open>C i\<close> is the common dependency list of block i.\<close>

definition chain :: "extractor \<Rightarrow> int list list \<Rightarrow> (nat \<Rightarrow> int list) \<Rightarrow> bool" where
  "chain x E C \<longleftrightarrow>
     existential_variables (formula x) = concat E \<and> existential_blocks (formula x) = boundaries E \<and>
     existential_block_idx_end x = int (length E) \<and>
     distinct (concat E) \<and> (\<forall>b\<in>set E. b \<noteq> [] \<and> sorted b) \<and>
     (\<forall>i<length E. strict_sorted (C i) \<and> (\<forall>e\<in>set (E ! i). original_dependency_map x e = Some (C i))) \<and>
     (\<forall>i j. i < j \<longrightarrow> j < length E \<longrightarrow> set (C i) \<subset> set (C j))"

lemma chain_representative:
  assumes "chain x E C" "i < length E"
  shows "original_dependency_map x (representative x (int i)) = Some (C i)"
  using assms block_nth_member [of i E] by (auto simp: chain_def representative_def)

lemma chain_mono: "chain x E C \<Longrightarrow> i \<le> j \<Longrightarrow> j < length E \<Longrightarrow> set (C i) \<subseteq> set (C j)"
  by (cases "i = j") (simp, metis chain_def le_neq_implies_less psubset_imp_subset)

definition max_below :: "(nat \<Rightarrow> bool) \<Rightarrow> nat \<Rightarrow> nat \<Rightarrow> int \<Rightarrow> bool" where
  "max_below P s e r \<longleftrightarrow>
     r = - 1 \<and> (\<forall>i\<in>{s..<e}. \<not> P i) \<or>
     (\<exists>k\<in>{s..<e}. r = int k \<and> P k \<and> (\<forall>i\<in>{k<..<e}. \<not> P i))"

definition min_above :: "(nat \<Rightarrow> bool) \<Rightarrow> nat \<Rightarrow> nat \<Rightarrow> nat \<Rightarrow> int \<Rightarrow> bool" where
  "min_above P n s e r \<longleftrightarrow>
     r = int n \<and> (\<forall>i\<in>{s..<e}. \<not> P i) \<or>
     (\<exists>k\<in>{s..<e}. r = int k \<and> P k \<and> (\<forall>i\<in>{s..<k}. \<not> P i))"

lemma max_below_right:
  assumes "max_below P (m + 1) e r" "P m" "s \<le> m" "m < e"
  shows "max_below P s e (max r (int m))"
  using assms(1) unfolding max_below_def
proof
  assume "r = - 1 \<and> (\<forall>i\<in>{m + 1..<e}. \<not> P i)"
  then have "max r (int m) = int m" "\<forall>i\<in>{m<..<e}. \<not> P i" by auto
  then show "max r (int m) = - 1 \<and> (\<forall>i\<in>{s..<e}. \<not> P i) \<or>
     (\<exists>k\<in>{s..<e}. max r (int m) = int k \<and> P k \<and> (\<forall>i\<in>{k<..<e}. \<not> P i))"
    using assms by (intro disjI2 bexI [of _ m]) auto
next
  assume "\<exists>k\<in>{m + 1..<e}. r = int k \<and> P k \<and> (\<forall>i\<in>{k<..<e}. \<not> P i)"
  then obtain k where k: "k \<in> {m + 1..<e}" "r = int k" "P k" "\<forall>i\<in>{k<..<e}. \<not> P i" by blast
  then have "max r (int m) = int k" by auto
  then show "max r (int m) = - 1 \<and> (\<forall>i\<in>{s..<e}. \<not> P i) \<or>
     (\<exists>k\<in>{s..<e}. max r (int m) = int k \<and> P k \<and> (\<forall>i\<in>{k<..<e}. \<not> P i))"
    using k assms by (intro disjI2 bexI [of _ k]) auto
qed

lemma max_below_left:
  assumes "max_below P s m r" "\<forall>i\<in>{m..<e}. \<not> P i" "s \<le> m" "m < e"
  shows "max_below P s e r"
proof -
  have all: "\<forall>i\<in>{a..<e}. \<not> P i" if "\<forall>i\<in>{a..<m}. \<not> P i" for a
    using that assms(2) by (metis atLeastLessThan_iff not_le)
  then have all': "\<forall>i\<in>{k<..<e}. \<not> P i" if "\<forall>i\<in>{k<..<m}. \<not> P i" for k
    using that assms(2) by (metis atLeastLessThan_iff greaterThanLessThan_iff not_le)
  show ?thesis
    using assms(1) unfolding max_below_def
  proof
    assume "r = - 1 \<and> (\<forall>i\<in>{s..<m}. \<not> P i)"
    then show "r = - 1 \<and> (\<forall>i\<in>{s..<e}. \<not> P i) \<or>
       (\<exists>k\<in>{s..<e}. r = int k \<and> P k \<and> (\<forall>i\<in>{k<..<e}. \<not> P i))"
      using all by blast
  next
    assume "\<exists>k\<in>{s..<m}. r = int k \<and> P k \<and> (\<forall>i\<in>{k<..<m}. \<not> P i)"
    then obtain k where "k \<in> {s..<m}" "r = int k" "P k" "\<forall>i\<in>{k<..<m}. \<not> P i" by blast
    then show "r = - 1 \<and> (\<forall>i\<in>{s..<e}. \<not> P i) \<or>
       (\<exists>k\<in>{s..<e}. r = int k \<and> P k \<and> (\<forall>i\<in>{k<..<e}. \<not> P i))"
      using all' [of k] assms(4) by (intro disjI2 bexI [of _ k]) auto
  qed
qed

lemma min_above_left:
  assumes "min_above P n s m r" "P m" "s \<le> m" "m < e" "e \<le> n"
  shows "min_above P n s e (min r (int m))"
  using assms(1) unfolding min_above_def
proof
  assume "r = int n \<and> (\<forall>i\<in>{s..<m}. \<not> P i)"
  then show "min r (int m) = int n \<and> (\<forall>i\<in>{s..<e}. \<not> P i) \<or>
     (\<exists>k\<in>{s..<e}. min r (int m) = int k \<and> P k \<and> (\<forall>i\<in>{s..<k}. \<not> P i))"
    using assms by (intro disjI2 bexI [of _ m]) auto
next
  assume "\<exists>k\<in>{s..<m}. r = int k \<and> P k \<and> (\<forall>i\<in>{s..<k}. \<not> P i)"
  then obtain k where "k \<in> {s..<m}" "r = int k" "P k" "\<forall>i\<in>{s..<k}. \<not> P i" by blast
  then show "min r (int m) = int n \<and> (\<forall>i\<in>{s..<e}. \<not> P i) \<or>
     (\<exists>k\<in>{s..<e}. min r (int m) = int k \<and> P k \<and> (\<forall>i\<in>{s..<k}. \<not> P i))"
    using assms by (intro disjI2 bexI [of _ k]) auto
qed

lemma min_above_right:
  assumes "min_above P n (m + 1) e r" "\<forall>i\<in>{s..m}. \<not> P i" "s \<le> m" "m < e"
  shows "min_above P n s e r"
proof -
  have all: "\<forall>i\<in>{s..<k}. \<not> P i" if "\<forall>i\<in>{m + 1..<k}. \<not> P i" for k
    using that assms(2) by (metis Suc_eq_plus1 atLeastAtMost_iff atLeastLessThan_iff not_less_eq_eq)
  show ?thesis
    using assms(1) unfolding min_above_def
  proof
    assume "r = int n \<and> (\<forall>i\<in>{m + 1..<e}. \<not> P i)"
    then show "r = int n \<and> (\<forall>i\<in>{s..<e}. \<not> P i) \<or>
       (\<exists>k\<in>{s..<e}. r = int k \<and> P k \<and> (\<forall>i\<in>{s..<k}. \<not> P i))"
      using all by blast
  next
    assume "\<exists>k\<in>{m + 1..<e}. r = int k \<and> P k \<and> (\<forall>i\<in>{m + 1..<k}. \<not> P i)"
    then obtain k where "k \<in> {m + 1..<e}" "r = int k" "P k" "\<forall>i\<in>{m + 1..<k}. \<not> P i" by blast
    then show "r = int n \<and> (\<forall>i\<in>{s..<e}. \<not> P i) \<or>
       (\<exists>k\<in>{s..<e}. r = int k \<and> P k \<and> (\<forall>i\<in>{s..<k}. \<not> P i))"
      using all [of k] assms(3) by (intro disjI2 bexI [of _ k]) auto
  qed
qed

lemma getMaximalSubSet_spec:
  assumes ch: "chain x E C" and v: "original_dependency_map x v = Some D" "strict_sorted D"
    and "s \<le> e" "e \<le> length E"
  shows "\<exists>r. getMaximalSubSet x v (int s) (int e) = Some r \<and> max_below (\<lambda>i. set (C i) \<subseteq> set D) s e r"
  using assms(4,5)
proof (induction "e - s" arbitrary: s e rule: less_induct)
  case less
  show ?case
  proof (cases "s = e")
    case True
    then show ?thesis by (subst getMaximalSubSet.simps) (simp add: max_below_def)
  next
    case False
    define m where "m = (s + e) div 2"
    have m: "s \<le> m" "m < e" "m < length E" "(int s + int e) div 2 = int m"
      using less.prems False by (auto simp: m_def)
    have rep: "original_dependency_map x (representative x (int m)) = Some (C m)"
      by (rule chain_representative [OF ch m(3)])
    have srt: "strict_sorted (C m)" using ch m(3) by (simp add: chain_def)
    have inc: "std_includes D (C m) \<longleftrightarrow> set (C m) \<subseteq> set D" using includes_iff [OF v(2) srt] .
    have step: "getMaximalSubSet x v (int s) (int e) =
        (if set (C m) \<subseteq> set D
         then map_option (\<lambda>i. max i (int m)) (getMaximalSubSet x v (int (m + 1)) (int e))
         else getMaximalSubSet x v (int s) (int m))"
      by (subst getMaximalSubSet.simps)
         (use False less.prems m(4) rep v(1) inc in \<open>simp add: Let_def add.commute\<close>)
    show ?thesis
    proof (cases "set (C m) \<subseteq> set D")
      case True
      have "\<exists>r. getMaximalSubSet x v (int (m + 1)) (int e) = Some r \<and>
          max_below (\<lambda>i. set (C i) \<subseteq> set D) (m + 1) e r"
        using less.prems m by (intro less.hyps) auto
      then show ?thesis using step True max_below_right [OF _ _ m(1,2)] by auto
    next
      case False
      have "\<forall>i\<in>{m..<e}. \<not> set (C i) \<subseteq> set D"
        using chain_mono [OF ch] less.prems False by (meson atLeastLessThan_iff order_less_le_trans order_trans)
      moreover have "\<exists>r. getMaximalSubSet x v (int s) (int m) = Some r \<and>
          max_below (\<lambda>i. set (C i) \<subseteq> set D) s m r"
        using less.prems m by (intro less.hyps) auto
      ultimately show ?thesis using step False max_below_left [OF _ _ m(1,2)] by auto
    qed
  qed
qed

lemma getMinimalSuperSet_spec:
  assumes ch: "chain x E C" and v: "original_dependency_map x v = Some D" "strict_sorted D"
    and "s \<le> e" "e \<le> length E"
  shows "\<exists>r. getMinimalSuperSet x v (int s) (int e) = Some r \<and>
    min_above (\<lambda>i. set D \<subseteq> set (C i)) (length E) s e r"
  using assms(4,5)
proof (induction "e - s" arbitrary: s e rule: less_induct)
  case less
  have n: "getNofExistentialBlocks (formula x) = length E"
    using ch by (simp add: chain_def getNofExistentialBlocks_def boundaries_simps)
  show ?case
  proof (cases "s = e")
    case True
    then show ?thesis by (subst getMinimalSuperSet.simps) (simp add: min_above_def n)
  next
    case False
    define m where "m = (s + e) div 2"
    have m: "s \<le> m" "m < e" "m < length E" "(int s + int e) div 2 = int m"
      using less.prems False by (auto simp: m_def)
    have rep: "original_dependency_map x (representative x (int m)) = Some (C m)"
      by (rule chain_representative [OF ch m(3)])
    have srt: "strict_sorted (C m)" using ch m(3) by (simp add: chain_def)
    have inc: "std_includes (C m) D \<longleftrightarrow> set D \<subseteq> set (C m)" using includes_iff [OF srt v(2)] .
    have step: "getMinimalSuperSet x v (int s) (int e) =
        (if set D \<subseteq> set (C m)
         then map_option (\<lambda>i. min i (int m)) (getMinimalSuperSet x v (int s) (int m))
         else getMinimalSuperSet x v (int (m + 1)) (int e))"
      by (subst getMinimalSuperSet.simps)
         (use False less.prems m(4) rep v(1) inc in \<open>simp add: Let_def add.commute\<close>)
    show ?thesis
    proof (cases "set D \<subseteq> set (C m)")
      case True
      have "\<exists>r. getMinimalSuperSet x v (int s) (int m) = Some r \<and>
          min_above (\<lambda>i. set D \<subseteq> set (C i)) (length E) s m r"
        using less.prems m by (intro less.hyps) auto
      then show ?thesis using step True min_above_left [OF _ _ m(1,2) less.prems(2)] by auto
    next
      case False
      have "\<forall>i\<in>{s..m}. \<not> set D \<subseteq> set (C i)"
        using chain_mono [OF ch _ m(3)] False by (meson atLeastAtMost_iff order_trans)
      moreover have "\<exists>r. getMinimalSuperSet x v (int (m + 1)) (int e) = Some r \<and>
          min_above (\<lambda>i. set D \<subseteq> set (C i)) (length E) (m + 1) e r"
        using less.prems m by (intro less.hyps) auto
      ultimately show ?thesis using step False min_above_right [OF _ _ m(1,2)] by auto
    qed
  qed
qed

section \<open>Pushing\<close>

lemma push_Some: "ext v = Some ds \<Longrightarrow> push v ws ext = Some (ext(v \<mapsto> ds @ ws))"
  by (simp add: push_def)

lemma push_each_spec:
  assumes "distinct vs" "\<forall>v\<in>set vs. ext v \<noteq> None"
  shows "push_each vs w ext = Some (\<lambda>v. if v \<in> set vs then Some (the (ext v) @ [w]) else ext v)"
  using assms
proof (induction vs arbitrary: ext)
  case (Cons v vs)
  then obtain ds where ds: "ext v = Some ds" by auto
  have "push_each (v # vs) w ext = push_each vs w (ext(v \<mapsto> ds @ [w]))"
    using ds by (simp add: push_Some)
  also have "\<dots> = Some (\<lambda>x. if x \<in> set vs then Some (the ((ext(v \<mapsto> ds @ [w])) x) @ [w])
      else (ext(v \<mapsto> ds @ [w])) x)"
    by (rule Cons.IH) (use Cons.prems in auto)
  also have "\<dots> = Some (\<lambda>x. if x \<in> set (v # vs) then Some (the (ext x) @ [w]) else ext x)"
    using Cons.prems(1) ds by (auto simp: fun_eq_iff)
  finally show ?case .
qed simp

section \<open>One variable with explicit dependencies\<close>

text \<open>The relation of the reference, over the original dependency map.\<close>

definition below :: "(int \<rightharpoonup> int list) \<Rightarrow> int \<Rightarrow> int \<Rightarrow> bool" where
  "below orig u v \<longleftrightarrow> dep_below (u, the (orig u)) (v, the (orig v))"

lemma below_eq: "orig u = Some Du \<Longrightarrow> orig v = Some Dv \<Longrightarrow>
    below orig u v \<longleftrightarrow> set Du \<subset> set Dv \<or> set Du = set Dv \<and> u < v"
  by (simp add: below_def dep_below_def)

text \<open>\<open>ext'\<close> is \<open>ext\<close> with \<open>v\<close> pushed to the known variables above it and those below it pushed to \<open>v\<close>.\<close>

definition compared :: "(int \<rightharpoonup> int list) \<Rightarrow> int set \<Rightarrow> int \<Rightarrow> ext_map \<Rightarrow> ext_map \<Rightarrow> bool" where
  "compared orig K v ext ext' \<longleftrightarrow>
     (\<exists>new. ext' v = Some (the (ext v) @ new) \<and> distinct new \<and> set new = {u \<in> K. below orig u v}) \<and>
     (\<forall>w. w \<noteq> v \<longrightarrow> ext' w = (if w \<in> K \<and> below orig v w then Some (the (ext w) @ [v]) else ext w))"

lemma compared_trans:
  assumes "compared orig K v ext ext'" "compared orig L v ext' ext''" "K \<inter> L = {}"
  shows "compared orig (K \<union> L) v ext ext''"
proof -
  obtain new where new: "ext' v = Some (the (ext v) @ new)" "distinct new" "set new = {u \<in> K. below orig u v}"
    using assms(1) by (auto simp: compared_def)
  obtain new' where new': "ext'' v = Some (the (ext' v) @ new')" "distinct new'" "set new' = {u \<in> L. below orig u v}"
    using assms(2) by (auto simp: compared_def)
  have "\<exists>n. ext'' v = Some (the (ext v) @ n) \<and> distinct n \<and> set n = {u \<in> K \<union> L. below orig u v}"
    using new new' assms(3) by (intro exI [of _ "new @ new'"]) auto
  moreover have "ext'' w = (if w \<in> K \<union> L \<and> below orig v w then Some (the (ext w) @ [v]) else ext w)"
    if "w \<noteq> v" for w
    using that assms by (auto simp: compared_def)
  ultimately show ?thesis by (simp add: compared_def)
qed

definition upd :: "ext_map \<Rightarrow> int \<Rightarrow> int list \<Rightarrow> int set \<Rightarrow> ext_map" where
  "upd ext v new U w =
     (if w = v then Some (the (ext v) @ new) else if w \<in> U then Some (the (ext w) @ [v]) else ext w)"

lemma upd_init: "ext v \<noteq> None \<Longrightarrow> upd ext v [] {} = ext"
  by (auto simp: upd_def fun_eq_iff)

lemma push_upd: "push v ws (upd ext v new U) = Some (upd ext v (new @ ws) U)"
  by (auto simp: push_def upd_def fun_eq_iff)

lemma push_each_upd:
  assumes "distinct ups" "v \<notin> set ups" "set ups \<inter> U = {}" "\<forall>w\<in>set ups. ext w \<noteq> None"
  shows "push_each ups v (upd ext v new U) = Some (upd ext v new (U \<union> set ups))"
proof -
  have "\<forall>w\<in>set ups. upd ext v new U w \<noteq> None" using assms by (auto simp: upd_def)
  then have "push_each ups v (upd ext v new U) =
      Some (\<lambda>w. if w \<in> set ups then Some (the (upd ext v new U w) @ [v]) else upd ext v new U w)"
    by (rule push_each_spec [OF assms(1)])
  also have "\<dots> = Some (upd ext v new (U \<union> set ups))"
    using assms(2,3) by (auto simp: upd_def fun_eq_iff)
  finally show ?thesis .
qed

lemma upd_compared:
  assumes "distinct new" "set new = {u \<in> K. below orig u v}" "U = {w \<in> K. below orig v w}" "v \<notin> K"
  shows "compared orig K v ext (upd ext v new U)"
  using assms by (auto simp: compared_def upd_def)

lemma chain_blocks:
  assumes "chain x E C"
  shows "existential_variables (formula x) = concat E" "existential_blocks (formula x) = boundaries E"
    "existential_block_idx_end x = int (length E)" "distinct (concat E)"
    "getNofExistentialBlocks (formula x) = length E"
  using assms by (simp_all add: chain_def getNofExistentialBlocks_def boundaries_simps)

lemma chain_below:
  assumes "chain x E C" "original_dependency_map x v = Some D" "i < length E" "u \<in> set (E ! i)"
  shows "below (original_dependency_map x) u v \<longleftrightarrow> set (C i) \<subset> set D \<or> set (C i) = set D \<and> u < v"
    and "below (original_dependency_map x) v u \<longleftrightarrow> set D \<subset> set (C i) \<or> set (C i) = set D \<and> v < u"
  using assms below_eq [of "original_dependency_map x"] by (auto simp: chain_def)

lemma set_concat_blocks: "u \<in> set (concat E) \<longleftrightarrow> (\<exists>i<length E. u \<in> set (E ! i))"
  using set_drop_blocks [of u 0 E] by simp

lemma push_to_supersets_spec:
  assumes ch: "chain x E C" and v: "original_dependency_map x v = Some D" "strict_sorted D"
    and "v \<notin> set (concat E)" "\<forall>e\<in>set (concat E). ext e \<noteq> None" "s \<le> length E"
  shows "\<exists>k. s \<le> k \<and> k \<le> length E \<and> (\<forall>i. s \<le> i \<longrightarrow> i < length E \<longrightarrow> (k \<le> i \<longleftrightarrow> set D \<subseteq> set (C i))) \<and>
    push_to_supersets x v (int s) (upd ext v new {}) = Some (upd ext v new (set (concat (drop k E))))"
proof -
  obtain r where r: "getMinimalSuperSet x v (int s) (int (length E)) = Some r"
    "min_above (\<lambda>i. set D \<subseteq> set (C i)) (length E) s (length E) r"
    using getMinimalSuperSet_spec [OF ch v assms(6) order_refl] by blast
  note b = chain_blocks [OF ch]
  from r(2) show ?thesis unfolding min_above_def
  proof
    assume none: "r = int (length E) \<and> (\<forall>i\<in>{s..<length E}. \<not> set D \<subseteq> set (C i))"
    then show ?thesis
      using r(1) assms(6) by (intro exI [of _ "length E"]) (simp add: push_to_supersets_def b)
  next
    assume "\<exists>k\<in>{s..<length E}. r = int k \<and> set D \<subseteq> set (C k) \<and> (\<forall>i\<in>{s..<k}. \<not> set D \<subseteq> set (C i))"
    then obtain k where k: "s \<le> k" "k < length E" "r = int k" "set D \<subseteq> set (C k)"
      "\<forall>i\<in>{s..<k}. \<not> set D \<subseteq> set (C i)" by auto
    have up: "k \<le> i \<longleftrightarrow> set D \<subseteq> set (C i)" if "s \<le> i" "i < length E" for i
      using that k chain_mono [OF ch _ that(2), of k] by (metis atLeastLessThan_iff not_le order_trans)
    have d: "distinct (concat (drop k E))"
      using b(4) by (metis append_take_drop_id concat_append distinct_append)
    have sub: "set (concat (drop k E)) \<subseteq> set (concat E)" by (auto dest: in_set_dropD)
    have "push_each (concat (drop k E)) v (upd ext v new {}) = Some (upd ext v new ({} \<union> set (concat (drop k E))))"
      by (rule push_each_upd) (use d sub assms(4,5) in auto)
    then show ?thesis
      using r(1) k up
      by (intro exI [of _ k])
         (simp add: push_to_supersets_def b addExplicitToImplicit_def Let_def drop_boundary)
  qed
qed

lemma distinct_take_blocks: "distinct (concat E) \<Longrightarrow> distinct (concat (take i E))"
  by (metis append_take_drop_id concat_append distinct_append)

lemma take_blocks_filter:
  assumes "s \<le> length E" "\<And>j u. j < length E \<Longrightarrow> u \<in> set (E ! j) \<Longrightarrow> P u \<longleftrightarrow> j < s"
  shows "set (concat (take s E)) = {u \<in> set (concat E). P u}"
proof (rule set_eqI)
  fix u
  show "u \<in> set (concat (take s E)) \<longleftrightarrow> u \<in> {u \<in> set (concat E). P u}"
    unfolding mem_Collect_eq set_take_blocks [OF assms(1)] set_concat_blocks [of u E]
    using assms by (meson order_less_le_trans)
qed

lemma drop_blocks_filter:
  assumes "\<And>j u. j < length E \<Longrightarrow> u \<in> set (E ! j) \<Longrightarrow> P u \<longleftrightarrow> k \<le> j"
  shows "set (concat (drop k E)) = {u \<in> set (concat E). P u}"
proof (rule set_eqI)
  fix u
  show "u \<in> set (concat (drop k E)) \<longleftrightarrow> u \<in> {u \<in> set (concat E). P u}"
    unfolding mem_Collect_eq set_drop_blocks set_concat_blocks [of u E]
    using assms by blast
qed

lemma checkImplicit_subset:
  assumes ch: "chain x E C" and v: "original_dependency_map x v = Some D" "strict_sorted D"
    and "v \<notin> set (concat E)" "\<forall>e\<in>set (concat E). ext e \<noteq> None" "ext v \<noteq> None"
    and below_k: "s \<le> length E" "\<forall>i. i < s \<longrightarrow> set (C i) \<subset> set D" "\<forall>i. s \<le> i \<longrightarrow> i < length E \<longrightarrow> \<not> set (C i) \<subseteq> set D"
  shows "\<exists>ext'. push_to_supersets x v (int s) (upd ext v (concat (take s E)) {}) = Some ext' \<and>
    compared (original_dependency_map x) (set (concat E)) v ext ext'"
proof -
  obtain k where k: "s \<le> k" "k \<le> length E"
    "\<forall>i. s \<le> i \<longrightarrow> i < length E \<longrightarrow> (k \<le> i \<longleftrightarrow> set D \<subseteq> set (C i))"
    "push_to_supersets x v (int s) (upd ext v (concat (take s E)) {}) =
       Some (upd ext v (concat (take s E)) (set (concat (drop k E))))"
    using push_to_supersets_spec [OF ch v assms(4,5) below_k(1)] by blast
  note bl = chain_below [OF ch v(1)]
  have lower: "below (original_dependency_map x) u v \<longleftrightarrow> i < s" if "i < length E" "u \<in> set (E ! i)" for u i
  proof (cases "i < s")
    case True
    then show ?thesis using bl(1) [OF that] below_k(2) by blast
  next
    case False
    then have "\<not> set (C i) \<subseteq> set D" using below_k(3) that(1) by simp
    then show ?thesis using bl(1) [OF that] False by auto
  qed
  have upper: "below (original_dependency_map x) v u \<longleftrightarrow> k \<le> i" if "i < length E" "u \<in> set (E ! i)" for u i
  proof (cases "i < s")
    case True
    then have "set (C i) \<subset> set D" using below_k(2) by blast
    then show ?thesis using bl(2) [OF that] k(1) True by auto
  next
    case False
    then have "\<not> set (C i) \<subseteq> set D" "k \<le> i \<longleftrightarrow> set D \<subseteq> set (C i)" using below_k(3) k(3) that(1) by auto
    then show ?thesis using bl(2) [OF that] by auto
  qed
  have "set (concat (take s E)) = {u \<in> set (concat E). below (original_dependency_map x) u v}"
    by (rule take_blocks_filter [OF below_k(1) lower])
  moreover have "set (concat (drop k E)) = {w \<in> set (concat E). below (original_dependency_map x) v w}"
    by (rule drop_blocks_filter [OF upper])
  ultimately have "compared (original_dependency_map x) (set (concat E)) v ext
      (upd ext v (concat (take s E)) (set (concat (drop k E))))"
    using assms(4) distinct_take_blocks [OF chain_blocks(4) [OF ch]] by (intro upd_compared) auto
  then show ?thesis using k(4) by blast
qed

lemma take_lower_bound:
  assumes "sorted b" "v \<notin> set b"
  shows "set (take (lower_bound b v) b) = {u \<in> set b. u < v}" "set (drop (lower_bound b v) b) = {u \<in> set b. v < u}"
proof -
  have t: "u < v" if "u \<in> set (take (lower_bound b v) b)" for u
    using that lower_bound_spec(2) [OF assms(1)] by (auto simp: in_set_conv_nth)
  have d: "v < u" if u: "u \<in> set (drop (lower_bound b v) b)" for u
  proof -
    obtain n where "n < length (drop (lower_bound b v) b)" "drop (lower_bound b v) b ! n = u"
      using u by (metis in_set_conv_nth)
    then have "v \<le> u" using lower_bound_spec(3) [OF assms(1), of v "lower_bound b v + n"] by simp
    moreover have "u \<noteq> v" using u assms(2) by (auto dest: in_set_dropD)
    ultimately show ?thesis by simp
  qed
  have un: "set b = set (take (lower_bound b v) b) \<union> set (drop (lower_bound b v) b)"
    by (metis append_take_drop_id set_append)
  show "set (take (lower_bound b v) b) = {u \<in> set b. u < v}" "set (drop (lower_bound b v) b) = {u \<in> set b. v < u}"
    using t d un by (blast dest: order.asym)+
qed

lemma length_blocks_le: "\<forall>b\<in>set E. b \<noteq> [] \<Longrightarrow> length E \<le> length (concat E)"
proof (induction E)
  case (Cons b E)
  then show ?case by (cases b) auto
qed simp

lemma same_dependencies_spec:
  assumes ch: "chain x E C" and v: "original_dependency_map x v = Some D" "strict_sorted D"
    and "v \<notin> set (concat E)" "\<forall>e\<in>set (concat E). ext e \<noteq> None" "ext v \<noteq> None"
    and k: "k < length E" "set (C k) = set D"
  shows "\<exists>ext'. same_dependencies x v (int k) ext = Some ext' \<and>
    compared (original_dependency_map x) (set (concat E)) v ext ext'"
proof -
  note b = chain_blocks [OF ch]
  have blk: "slice (boundaries E ! k) (boundaries E ! Suc k) (concat E) = E ! k"
    using slice_boundaries [OF k(1)] by simp
  define it where "it = lower_bound (E ! k) v"
  have vk: "v \<notin> set (E ! k)" using assms(4) k(1) set_concat_blocks [of v E] by blast
  have srt: "sorted (E ! k)" using ch k(1) by (simp add: chain_def)
  note tl = take_lower_bound [OF srt vk, folded it_def]
  have n1: "nat (1 + int k) = Suc k" by simp
  have conc: "concat E = concat (take k E) @ E ! k @ concat (drop (Suc k) E)"
    using arg_cong [OF id_take_nth_drop [OF k(1)], of concat] by simp
  have dist: "distinct (concat (take k E) @ E ! k @ concat (drop (Suc k) E))"
    using b(4) unfolding conc [symmetric] .
  have disj: "distinct (concat (take k E))" "distinct (E ! k)" "distinct (concat (drop (Suc k) E))"
    "set (concat (take k E)) \<inter> set (E ! k) = {}" "set (E ! k) \<inter> set (concat (drop (Suc k) E)) = {}"
    using dist by auto
  have sub: "set (concat (drop (Suc k) E)) \<subseteq> set (concat E)" "set (E ! k) \<subseteq> set (concat E)"
    using arg_cong [OF conc, of set] by auto
  have s1: "(if int k \<noteq> 0 then addImplicitToExplicit x v (int k - 1) ext else Some ext) =
      Some (upd ext v (concat (take k E)) {})"
    using push_upd [of v "concat (take k E)" ext "[]" "{}"] k(1) assms(6)
    by (cases "k = 0") (simp_all add: addImplicitToExplicit_def b upd_init take_boundary)
  have last: "concat (drop (Suc k) E) = []" if "int k = int (length (concat E)) - 1"
  proof -
    have "length E \<le> length (concat E)" using ch by (intro length_blocks_le) (simp add: chain_def)
    then show ?thesis using that k(1) by simp
  qed
  have p2: "push_each (concat (drop (Suc k) E)) v (upd ext v (concat (take k E)) {}) =
      Some (upd ext v (concat (take k E)) ({} \<union> set (concat (drop (Suc k) E))))"
    by (rule push_each_upd) (use disj sub assms(4,5) in auto)
  have s2: "(if int k \<noteq> int (length (concat E)) - 1
      then addExplicitToImplicit x v (int k + 1) (upd ext v (concat (take k E)) {})
      else Some (upd ext v (concat (take k E)) {})) =
      Some (upd ext v (concat (take k E)) (set (concat (drop (Suc k) E))))"
  proof (cases "int k = int (length (concat E)) - 1")
    case True
    show ?thesis unfolding last [OF True] using True by simp
  next
    case False
    then show ?thesis
      using p2 k(1) by (simp add: addExplicitToImplicit_def b n1 drop_boundary add.commute del: set_concat)
  qed
  have p4: "push_each (drop it (E ! k)) v (upd ext v (concat (take k E) @ take it (E ! k)) (set (concat (drop (Suc k) E)))) =
      Some (upd ext v (concat (take k E) @ take it (E ! k)) (set (concat (drop (Suc k) E)) \<union> set (drop it (E ! k))))"
    by (rule push_each_upd)
       (use disj sub assms(4,5) set_drop_subset [of it "E ! k"] vk in \<open>auto dest: in_set_dropD\<close>)
  have run: "same_dependencies x v (int k) ext =
      Some (upd ext v (concat (take k E) @ take it (E ! k)) (set (concat (drop (Suc k) E)) \<union> set (drop it (E ! k))))"
    using s1 s2 p4
    by (simp add: same_dependencies_def Let_def b blk n1 it_def push_upd
        add.commute)
  have lt: "set (C i) \<subset> set D" if "i < k" for i
    using ch k that unfolding chain_def by blast
  have gt: "set D \<subset> set (C i)" if "k < i" "i < length E" for i
    using ch k that unfolding chain_def by blast
  note bl = chain_below [OF ch v(1)]
  have low: "below (original_dependency_map x) u v \<longleftrightarrow> i < k \<or> i = k \<and> u < v"
    if "i < length E" "u \<in> set (E ! i)" for i u
    using bl(1) [OF that] lt [of i] gt [of i] that(1) k(2) by (cases i k rule: linorder_cases) auto
  have up: "below (original_dependency_map x) v u \<longleftrightarrow> k < i \<or> i = k \<and> v < u"
    if "i < length E" "u \<in> set (E ! i)" for i u
    using bl(2) [OF that] lt [of i] gt [of i] that(1) k(2) by (cases i k rule: linorder_cases) auto
  have "set (concat (take k E) @ take it (E ! k)) = {u \<in> set (concat E). below (original_dependency_map x) u v}"
  proof (rule set_eqI)
    fix u
    show "u \<in> set (concat (take k E) @ take it (E ! k)) \<longleftrightarrow>
        u \<in> {u \<in> set (concat E). below (original_dependency_map x) u v}"
      unfolding mem_Collect_eq set_append Un_iff tl(1) set_take_blocks [OF less_imp_le [OF k(1)]]
        set_concat_blocks [of u E]
      using low k(1) by (metis mem_Collect_eq order_less_trans)
  qed
  moreover have "set (concat (drop (Suc k) E)) \<union> set (drop it (E ! k)) =
      {w \<in> set (concat E). below (original_dependency_map x) v w}"
  proof (rule set_eqI)
    fix u
    show "u \<in> set (concat (drop (Suc k) E)) \<union> set (drop it (E ! k)) \<longleftrightarrow>
        u \<in> {w \<in> set (concat E). below (original_dependency_map x) v w}"
      unfolding mem_Collect_eq Un_iff tl(2) set_drop_blocks set_concat_blocks [of u E]
      using up k(1) by (metis Suc_le_eq mem_Collect_eq)
  qed
  moreover have "distinct (concat (take k E) @ take it (E ! k))"
    using disj by (auto dest: in_set_takeD)
  ultimately show ?thesis
    using run upd_compared [of _ "set (concat E)"] assms(4) by blast
qed

lemma checkImplicitdependencies_spec:
  assumes ch: "chain x E C" and v: "original_dependency_map x v = Some D" "strict_sorted D"
    and "v \<notin> set (concat E)" "\<forall>e\<in>set (concat E). ext e \<noteq> None" "ext v \<noteq> None"
  shows "\<exists>ext'. checkImplicitdependencies x v ext = Some ext' \<and>
    compared (original_dependency_map x) (set (concat E)) v ext ext'"
proof -
  note b = chain_blocks [OF ch]
  obtain r where r: "getMaximalSubSet x v 0 (int (length E)) = Some r"
    "max_below (\<lambda>i. set (C i) \<subseteq> set D) 0 (length E) r"
    using getMaximalSubSet_spec [OF ch v, of 0 "length E"] by auto
  from r(2) show ?thesis unfolding max_below_def
  proof
    assume none: "r = - 1 \<and> (\<forall>i\<in>{0..<length E}. \<not> set (C i) \<subseteq> set D)"
    have "\<exists>ext'. push_to_supersets x v (int 0) (upd ext v (concat (take 0 E)) {}) = Some ext' \<and>
        compared (original_dependency_map x) (set (concat E)) v ext ext'"
      using none by (intro checkImplicit_subset [OF ch v assms(4-6)]) auto
    then show ?thesis
      using r(1) none v(1) by (simp add: checkImplicitdependencies_def b upd_init assms(6))
  next
    assume "\<exists>k\<in>{0..<length E}. r = int k \<and> set (C k) \<subseteq> set D \<and> (\<forall>i\<in>{k<..<length E}. \<not> set (C i) \<subseteq> set D)"
    then obtain k where k: "k < length E" "r = int k" "set (C k) \<subseteq> set D"
      "\<forall>i\<in>{k<..<length E}. \<not> set (C i) \<subseteq> set D" by auto
    have rep: "original_dependency_map x (representative x (int k)) = Some (C k)"
      by (rule chain_representative [OF ch k(1)])
    have srt: "strict_sorted (C k)" using ch k(1) by (simp add: chain_def)
    have len: "length D = length (C k) \<longleftrightarrow> set (C k) = set D"
      using k(3) srt v(2) by (metis List.finite_set card_subset_eq distinct_card strict_sorted_distinct)
    show ?thesis
    proof (cases "set (C k) = set D")
      case True
      then show ?thesis
        using same_dependencies_spec [OF ch v assms(4-6) k(1) True] r(1) k(2) rep v(1) len
        by (simp add: checkImplicitdependencies_def b)
    next
      case False
      have "addImplicitToExplicit x v (int k) ext = Some (upd ext v (concat (take (Suc k) E)) {})"
        using push_upd [of v "concat (take (Suc k) E)" ext "[]" "{}"] k(1) assms(6)
        by (simp add: addImplicitToExplicit_def b upd_init take_boundary nat_add_distrib)
      moreover have "\<exists>ext'. push_to_supersets x v (int (Suc k)) (upd ext v (concat (take (Suc k) E)) {}) = Some ext' \<and>
          compared (original_dependency_map x) (set (concat E)) v ext ext'"
      proof (rule checkImplicit_subset [OF ch v assms(4-6)])
        show "\<forall>i. i < Suc k \<longrightarrow> set (C i) \<subset> set D"
          using chain_mono [OF ch _ k(1)] k(3) False by (metis less_Suc_eq_le order_trans psubsetI subset_antisym)
      qed (use k in auto)
      ultimately show ?thesis
        using r(1) k(2) rep v(1) len False
        by (simp add: checkImplicitdependencies_def b add.commute)
    qed
  qed
qed

end
