(* ===== verification/DependencyExtractor_Extended.thy ===== *)
theory DependencyExtractor_Extended
  imports DependencyExtractor_Blocks "HOL-Library.Multiset"
begin

text \<open>
  The whole of \<open>computeExtendedDependencies\<close>: the loop over the explicit variables keeps the
  relation of the reference on everything processed so far, the loop over the implicit blocks
  establishes the chain it needs, and together they compute the pairwise reference relation.
\<close>

section \<open>Explicit against explicit\<close>

lemma compared_single:
  assumes v: "orig v = Some Dv" "strict_sorted Dv" and w: "orig w = Some Dw" "strict_sorted Dw"
    and "v \<noteq> w" "ext v \<noteq> None" "ext w \<noteq> None"
  shows "\<exists>ext'. (if std_includes Dv Dw then
               (if length Dv = length Dw then (if v < w then push w [v] ext else push v [w] ext)
                else push v [w] ext)
             else if std_includes Dw Dv then push w [v] ext
             else Some ext) = Some ext' \<and> compared orig {w} v ext ext'"
proof -
  have inc: "std_includes Dv Dw \<longleftrightarrow> set Dw \<subseteq> set Dv" "std_includes Dw Dv \<longleftrightarrow> set Dv \<subseteq> set Dw"
    using includes_iff v(2) w(2) by blast+
  have len: "length Dv = length Dw \<longleftrightarrow> set Dv = set Dw" if "set Dw \<subseteq> set Dv"
    using that v(2) w(2)
    by (metis List.finite_set card_subset_eq distinct_card strict_sorted_distinct)
  note bl = below_eq [OF v(1) w(1)] below_eq [OF w(1) v(1)]
  obtain ev ew where e: "ext v = Some ev" "ext w = Some ew" using assms(6,7) by auto
  consider (eq) "set Dv = set Dw" | (sub) "set Dw \<subset> set Dv" | (sup) "set Dv \<subset> set Dw"
    | (none) "\<not> set Dv \<subseteq> set Dw" "\<not> set Dw \<subseteq> set Dv" by blast
  then show ?thesis
  proof cases
    case eq
    then show ?thesis using assms(5) e bl len
      by (auto simp: inc push_Some compared_def)
  next
    case sub
    then show ?thesis using assms(5) e bl len
      by (auto simp: inc push_Some compared_def)
  next
    case sup
    then show ?thesis using assms(5) e bl
      by (auto simp: inc push_Some compared_def)
  next
    case none
    then show ?thesis using assms(5) e bl by (auto simp: inc compared_def)
  qed
qed

lemma checkExplicitDependencies_spec:
  assumes v: "original_dependency_map x v = Some D" "strict_sorted D"
    and "distinct processed" "v \<notin> set processed" "ext v \<noteq> None"
    and "\<forall>w\<in>set processed. ext w \<noteq> None \<and> (\<exists>Dw. original_dependency_map x w = Some Dw \<and> strict_sorted Dw)"
  shows "\<exists>ext'. checkExplicitDependencies x v processed ext = Some ext' \<and>
    compared (original_dependency_map x) (set processed) v ext ext'"
  using assms(3-)
proof (induction processed arbitrary: ext)
  case Nil
  then show ?case by (auto simp: compared_def)
next
  case (Cons w ws)
  obtain Dw where w: "original_dependency_map x w = Some Dw" "strict_sorted Dw" using Cons.prems by auto
  obtain ext1 where e1: "(if std_includes D Dw then
               (if length D = length Dw then (if v < w then push w [v] ext else push v [w] ext)
                else push v [w] ext)
             else if std_includes Dw D then push w [v] ext
             else Some ext) = Some ext1" "compared (original_dependency_map x) {w} v ext ext1"
    using compared_single [OF v w] Cons.prems by auto
  have "ext1 v \<noteq> None" "\<forall>w\<in>set ws. ext1 w \<noteq> None" using e1(2) Cons.prems by (auto simp: compared_def)
  then obtain ext' where e': "checkExplicitDependencies x v ws ext1 = Some ext'"
    "compared (original_dependency_map x) (set ws) v ext1 ext'"
    using Cons.IH [of ext1] Cons.prems by auto
  have "compared (original_dependency_map x) ({w} \<union> set ws) v ext ext'"
    by (rule compared_trans [OF e1(2) e'(2)]) (use Cons.prems in auto)
  then show ?case using v(1) w(1) e1(1) e'(1) by simp
qed

section \<open>The invariant of the loop over explicit variables\<close>

definition ext_ok :: "(int \<rightharpoonup> int list) \<Rightarrow> int set \<Rightarrow> ext_map \<Rightarrow> bool" where
  "ext_ok orig K ext \<longleftrightarrow>
     (\<forall>v. v \<notin> K \<longrightarrow> ext v = None) \<and>
     (\<forall>v\<in>K. \<exists>extra. ext v = Some (the (orig v) @ extra) \<and> distinct extra \<and>
        set extra = {u \<in> K. below orig u v})"

lemma below_other: "v \<notin> {u, w} \<Longrightarrow> below (orig(v := d)) u w = below orig u w"
  by (simp add: below_def)

lemma below_irrefl: "\<not> below orig v v"
  by (simp add: below_def dep_below_irrefl)

lemma below_asym: "below orig u v \<Longrightarrow> \<not> below orig v u"
  unfolding below_def using dep_below_trans dep_below_irrefl by blast

lemma ext_ok_step:
  assumes ok: "ext_ok orig K ext" and v: "v \<notin> K" and orig': "orig' = orig(v \<mapsto> D)"
    and cmp: "compared orig' K v (ext(v \<mapsto> D)) ext'"
  shows "ext_ok orig' (insert v K) ext'"
  unfolding ext_ok_def
proof (intro conjI allI ballI impI)
  fix w assume "w \<notin> insert v K"
  then show "ext' w = None" using cmp ok by (auto simp: compared_def ext_ok_def)
next
  fix w assume w: "w \<in> insert v K"
  show "\<exists>extra. ext' w = Some (the (orig' w) @ extra) \<and> distinct extra \<and>
      set extra = {u \<in> insert v K. below orig' u w}"
  proof (cases "w = v")
    case True
    then show ?thesis using cmp by (auto simp: compared_def orig' below_irrefl)
  next
    case False
    then obtain extra where e: "ext w = Some (the (orig w) @ extra)" "distinct extra"
      "set extra = {u \<in> K. below orig u w}" using ok w by (auto simp: ext_ok_def)
    have same: "{u \<in> K. below orig' u w} = {u \<in> K. below orig u w}"
    proof -
      have "below orig' u w = below orig u w" if "u \<in> K" for u
        unfolding orig' by (rule below_other) (use that v False in auto)
      then show ?thesis by blast
    qed
    show ?thesis
    proof (cases "below orig' v w")
      case True
      then have "ext' w = Some (the (orig' w) @ (extra @ [v]))"
        using cmp False w e by (auto simp: compared_def orig')
      moreover have "distinct (extra @ [v])" using e v by auto
      moreover have "set (extra @ [v]) = {u \<in> insert v K. below orig' u w}"
        using e(3) same True by auto
      ultimately show ?thesis by blast
    next
      case nb: False
      then have "ext' w = Some (the (orig' w) @ extra)"
        using cmp False w e by (auto simp: compared_def orig')
      moreover have "set extra = {u \<in> insert v K. below orig' u w}"
        using e(3) same nb by auto
      ultimately show ?thesis using e(2) by blast
    qed
  qed
qed

lemma chain_set_original:
  assumes "chain x E C" "v \<notin> set (concat E)"
  shows "chain (set_original v D x) E C"
proof -
  have "v \<notin> set (E ! i)" if "i < length E" for i
    using assms(2) set_concat_blocks [of v E] that by blast
  then show ?thesis
    using assms(1) by (auto simp: chain_def set_original_def emplace_map_def representative_def
        split: option.splits)
qed

lemma extend_explicit_spec:
  assumes "chain x E C" "ext_ok (original_dependency_map x) (set (concat E) \<union> set processed) ext"
    and "\<forall>v. v \<notin> set (concat E) \<union> set processed \<longrightarrow> original_dependency_map x v = None"
    and "\<forall>w\<in>set processed. \<exists>Dw. original_dependency_map x w = Some Dw \<and> strict_sorted Dw"
    and "distinct (processed @ map fst entries)" "set (concat E) \<inter> set (processed @ map fst entries) = {}"
    and "\<forall>(v, deps)\<in>set entries. distinct deps"
  shows "\<exists>x' ext'. extend_explicit entries processed x ext = Some (x', ext') \<and>
     formula x' = formula x \<and>
     original_dependency_map x' =
       original_dependency_map x ++ map_of (map (apsnd sort) entries) \<and>
     ext_ok (original_dependency_map x') (set (concat E) \<union> set (processed @ map fst entries)) ext'"
  using assms
proof (induction entries arbitrary: processed x ext)
  case Nil
  then show ?case by simp
next
  case (Cons entry entries)
  obtain v deps where entry: "entry = (v, deps)" by force
  define D where "D = sort deps"
  define x1 where "x1 = set_original v D x"
  define K where "K = set (concat E) \<union> set processed"
  have v: "v \<notin> set (concat E)" "v \<notin> set processed" "v \<notin> K"
    using Cons.prems(5,6) by (auto simp: entry K_def)
  have D: "strict_sorted D" using Cons.prems(7) by (simp add: entry D_def strict_sorted_iff)
  have orig1: "original_dependency_map x1 = (original_dependency_map x)(v \<mapsto> D)"
    using Cons.prems(3) v by (simp add: x1_def set_original_def emplace_map_def)
  have form1: "formula x1 = formula x" by (simp add: x1_def set_original_def)
  have ext1: "emplace_map ext v D = ext(v \<mapsto> D)"
    using Cons.prems(2) v by (simp add: ext_ok_def emplace_map_def)
  have ch1: "chain x1 E C" unfolding x1_def by (rule chain_set_original [OF Cons.prems(1) v(1)])
  have known: "ext w \<noteq> None" if "w \<in> K" for w
    using Cons.prems(2) that by (auto simp: ext_ok_def K_def)
  obtain ext2 where e2: "checkImplicitdependencies x1 v (ext(v \<mapsto> D)) = Some ext2"
    "compared (original_dependency_map x1) (set (concat E)) v (ext(v \<mapsto> D)) ext2"
  proof -
    have "\<forall>e\<in>set (concat E). (ext(v \<mapsto> D)) e \<noteq> None" "(ext(v \<mapsto> D)) v \<noteq> None"
      using known by (auto simp: K_def)
    moreover have "original_dependency_map x1 v = Some D" by (simp add: orig1)
    ultimately show ?thesis
      using checkImplicitdependencies_spec [OF ch1 _ D v(1)] that by blast
  qed
  have k2: "ext2 w \<noteq> None" if "w \<in> insert v K" for w
    using e2(2) that known [of w] v by (auto simp: compared_def)
  obtain ext3 where e3: "checkExplicitDependencies x1 v processed ext2 = Some ext3"
    "compared (original_dependency_map x1) (set processed) v ext2 ext3"
  proof -
    have "\<forall>w\<in>set processed. ext2 w \<noteq> None \<and>
        (\<exists>Dw. original_dependency_map x1 w = Some Dw \<and> strict_sorted Dw)"
      using k2 v(2) Cons.prems(4) by (auto simp: K_def orig1)
    moreover have "distinct processed" "original_dependency_map x1 v = Some D"
      using Cons.prems(5) by (simp_all add: orig1)
    ultimately show ?thesis
      using checkExplicitDependencies_spec [OF _ D, of x1 v processed ext2] k2 [of v] v(2) that by blast
  qed
  have "compared (original_dependency_map x1) K v (ext(v \<mapsto> D)) ext3"
    unfolding K_def by (rule compared_trans [OF e2(2) e3(2)]) (use Cons.prems(6) in auto)
  then have ok3: "ext_ok (original_dependency_map x1) (insert v K) ext3"
    using Cons.prems(2) v orig1 by (intro ext_ok_step [of "original_dependency_map x" K ext v _ D]) (auto simp: K_def)
  have step: "extend_explicit (entry # entries) processed x ext =
      extend_explicit entries (processed @ [v]) x1 ext3"
    using e2(1) e3(1) by (simp add: entry Let_def D_def [symmetric] x1_def [symmetric] ext1)
  have "\<exists>x' ext'. extend_explicit entries (processed @ [v]) x1 ext3 = Some (x', ext') \<and>
     formula x' = formula x1 \<and>
     original_dependency_map x' = original_dependency_map x1 ++ map_of (map (apsnd sort) entries) \<and>
     ext_ok (original_dependency_map x') (set (concat E) \<union> set ((processed @ [v]) @ map fst entries)) ext'"
  proof (rule Cons.IH [OF ch1])
    show "ext_ok (original_dependency_map x1) (set (concat E) \<union> set (processed @ [v])) ext3"
      using ok3 by (simp add: K_def)
    show "\<forall>w. w \<notin> set (concat E) \<union> set (processed @ [v]) \<longrightarrow> original_dependency_map x1 w = None"
      using Cons.prems(3) by (simp add: orig1)
    show "\<forall>w\<in>set (processed @ [v]). \<exists>Dw. original_dependency_map x1 w = Some Dw \<and> strict_sorted Dw"
      using Cons.prems(4) D by (auto simp: orig1)
  qed (use Cons.prems in \<open>auto simp: entry\<close>)
  then obtain x' ext' where r: "extend_explicit entries (processed @ [v]) x1 ext3 = Some (x', ext')"
     "formula x' = formula x1"
     "original_dependency_map x' = original_dependency_map x1 ++ map_of (map (apsnd sort) entries)"
     "ext_ok (original_dependency_map x') (set (concat E) \<union> set ((processed @ [v]) @ map fst entries)) ext'"
    by blast
  have eq: "(original_dependency_map x)(v \<mapsto> D) ++ map_of (map (apsnd sort) entries) =
      original_dependency_map x ++ map_of (map (apsnd sort) (entry # entries))"
  proof -
    have "map_of (map (apsnd sort) entries) v = None"
      using Cons.prems(5) by (auto simp: entry map_of_eq_None_iff image_iff)
    then show ?thesis by (auto simp: entry D_def map_add_def fun_eq_iff split: option.splits)
  qed
  show ?case
  proof (intro exI conjI)
    show "extend_explicit (entry # entries) processed x ext = Some (x', ext')"
      unfolding step by (rule r(1))
    show "formula x' = formula x" by (simp add: r(2) form1)
    show "original_dependency_map x' = original_dependency_map x ++ map_of (map (apsnd sort) (entry # entries))"
      unfolding r(3) orig1 by (rule eq)
    show "ext_ok (original_dependency_map x') (set (concat E) \<union> set (processed @ map fst (entry # entries))) ext'"
      using r(4) by (simp add: entry)
  qed
qed

section \<open>The implicit blocks\<close>

lemma sort_range_blocks:
  assumes "i < length E"
  shows "sort_range (boundaries E ! i) (boundaries E ! Suc i) (concat E) = concat (E[i := sort (E ! i)])"
proof -
  have "slice (boundaries E ! i) (boundaries E ! Suc i) (concat E) = E ! i"
    using slice_boundaries [OF assms] by simp
  moreover have "boundaries E ! i \<le> boundaries E ! Suc i"
    using assms by (simp add: boundaries_nth take_Suc_conv_app_nth)
  ultimately show ?thesis
    using assms
    by (simp add: sort_range_def slice_def take_boundary drop_boundary max_absorb2 upd_conv_take_nth_drop)
qed

lemma boundaries_cong: "map length E = map length F \<Longrightarrow> boundaries E = boundaries F"
proof -
  assume eq: "map length E = map length F"
  then have "length (concat (take i E)) = length (concat (take i F))" for i
    by (simp add: length_concat take_map [symmetric])
  moreover have "length E = length F" using eq by (metis length_map)
  ultimately show ?thesis by (simp add: boundaries_def)
qed

lemma extend_block_spec:
  assumes "distinct es" "\<forall>e\<in>set es. original_dependency_map x e = None \<and> ext e = None"
    and "universal_prefix k x = D"
  shows "\<exists>ext'. extend_block k before es x ext =
       Some (x\<lparr>original_dependency_map := (\<lambda>e. if e \<in> set es then Some D else original_dependency_map x e)\<rparr>, ext') \<and>
     (\<forall>e. ext' e = (if e \<in> set es then Some (D @ before @ takeWhile (\<lambda>a. a \<noteq> e) es) else ext e))"
  using assms
proof (induction es arbitrary: before x ext)
  case (Cons e es)
  define x1 where "x1 = set_original e D x"
  define ext1 where "ext1 = ext(e \<mapsto> D @ before)"
  have step: "extend_block k before (e # es) x ext = extend_block k (before @ [e]) es x1 ext1"
    using Cons.prems by (simp add: emplace_map_def push_def x1_def ext1_def)
  have x1: "original_dependency_map x1 = (original_dependency_map x)(e \<mapsto> D)" "formula x1 = formula x"
    using Cons.prems(2) by (simp_all add: x1_def set_original_def emplace_map_def)
  have pre: "distinct es" "\<forall>e\<in>set es. original_dependency_map x1 e = None \<and> ext1 e = None"
    "universal_prefix k x1 = D"
    using Cons.prems by (auto simp: x1 ext1_def universal_prefix_def)
  obtain ext' where e': "extend_block k (before @ [e]) es x1 ext1 =
       Some (x1\<lparr>original_dependency_map := (\<lambda>e. if e \<in> set es then Some D else original_dependency_map x1 e)\<rparr>, ext')"
     "\<forall>a. ext' a = (if a \<in> set es then Some (D @ (before @ [e]) @ takeWhile (\<lambda>b. b \<noteq> a) es) else ext1 a)"
    using Cons.IH [OF pre, of "before @ [e]"] by blast
  have "x1\<lparr>original_dependency_map := (\<lambda>e. if e \<in> set es then Some D else original_dependency_map x1 e)\<rparr> =
      x\<lparr>original_dependency_map := (\<lambda>a. if a \<in> set (e # es) then Some D else original_dependency_map x a)\<rparr>"
    using Cons.prems(1,2) by (auto simp: x1_def set_original_def emplace_map_def fun_eq_iff
        intro!: extractor.equality)
  moreover have "ext' a = (if a \<in> set (e # es) then Some (D @ before @ takeWhile (\<lambda>b. b \<noteq> a) (e # es)) else ext a)" for a
    using e'(2) Cons.prems(1) by (auto simp: ext1_def)
  ultimately show ?case unfolding step using e'(1) by auto
qed simp

text \<open>The state before block \<open>i\<close>: \<open>E\<close> the existential and \<open>U\<close> the universal blocks of the input.\<close>

definition prefix_index :: "bool \<Rightarrow> int list list \<Rightarrow> nat \<Rightarrow> nat" where
  "prefix_index first U i = min (of_bool first + i) (length U)"

definition block_deps :: "bool \<Rightarrow> int list list \<Rightarrow> nat \<Rightarrow> int list" where
  "block_deps first U i = sort (concat (take (prefix_index first U i) U))"

definition implicit_inv :: "bool \<Rightarrow> int list list \<Rightarrow> int list list \<Rightarrow> nat \<Rightarrow> nat \<Rightarrow> extractor \<Rightarrow> ext_map \<Rightarrow> bool" where
  "implicit_inv first U E i k x ext \<longleftrightarrow>
     k = prefix_index first U i \<and>
     universal_blocks (formula x) = boundaries U \<and> existential_blocks (formula x) = boundaries E \<and>
     universal_variables (formula x) = sort (concat (take k U)) @ concat (drop k U) \<and>
     existential_variables (formula x) = concat (map sort (take i E)) @ concat (drop i E) \<and>
     (\<forall>j<i. \<forall>v\<in>set (E ! j). original_dependency_map x v = Some (block_deps first U j)) \<and>
     (\<forall>v. v \<notin> set (concat (take i E)) \<longrightarrow> original_dependency_map x v = None) \<and>
     ext_ok (original_dependency_map x) (set (concat (take i E))) ext"

definition wf_blocks :: "bool \<Rightarrow> int list list \<Rightarrow> int list list \<Rightarrow> bool" where
  "wf_blocks first U E \<longleftrightarrow>
     (\<forall>b\<in>set U. b \<noteq> []) \<and> (\<forall>b\<in>set E. b \<noteq> []) \<and> distinct (concat U) \<and> distinct (concat E) \<and>
     length E \<le> length U + of_bool (\<not> first)"

lemma block_deps_mono:
  assumes "wf_blocks first U E" "i < j" "j < length E"
  shows "set (block_deps first U i) \<subset> set (block_deps first U j)"
proof -
  define k l where "k = prefix_index first U i" and "l = prefix_index first U j"
  have kl: "k < l" "l \<le> length U"
    using assms by (auto simp: k_def l_def prefix_index_def wf_blocks_def of_bool_def split: if_splits)
  have "set (concat (take k U)) \<subseteq> set (concat (take l U))"
    using kl set_take_subset_set_take [of k l U] by auto
  moreover have "U ! k \<noteq> []" using assms(1) kl nth_mem [of k U] by (auto simp: wf_blocks_def)
  then obtain u where u: "u \<in> set (U ! k)" by (cases "U ! k") auto
  have "u \<in> set (concat (take l U))" using set_take_blocks [of l U u] u kl by auto
  moreover have "u \<notin> set (concat (take k U))"
  proof -
    have "concat U = concat (take k U) @ U ! k @ concat (drop (Suc k) U)"
      using arg_cong [OF id_take_nth_drop [of k U], of concat] kl by simp
    then have "set (concat (take k U)) \<inter> set (U ! k) = {}"
      using assms(1) by (auto simp: wf_blocks_def simp del: set_concat)
    then show ?thesis using u by auto
  qed
  ultimately show ?thesis by (auto simp: block_deps_def k_def l_def)
qed

lemma strict_sorted_block_deps: "wf_blocks first U E \<Longrightarrow> strict_sorted (block_deps first U i)"
  by (simp add: block_deps_def strict_sorted_iff wf_blocks_def distinct_take_blocks)

lemma next_universals_step:
  assumes "universal_blocks (formula x) = boundaries U" "k \<le> length U"
    and "universal_variables (formula x) = sort (concat (take k U)) @ concat (drop k U)"
  obtains k' x' where "next_universals k x = (k', x')" "k' = min (k + 1) (length U)"
    "universal_variables (formula x') = sort (concat (take k' U)) @ concat (drop k' U)"
    "x' = x\<lparr>formula := (formula x)\<lparr>universal_variables := universal_variables (formula x')\<rparr>\<rparr>"
proof -
  have n: "getNofUniversalBlocks (formula x) = length U"
    using assms(1) by (simp add: getNofUniversalBlocks_def boundaries_simps)
  show ?thesis
  proof (cases "k < length U")
    case True
    have "concat (drop k U) = U ! k @ concat (drop (Suc k) U)"
      using True by (metis Cons_nth_drop_Suc concat.simps(2))
    then have uv: "universal_variables (formula x) = (sort (concat (take k U)) @ U ! k) @ concat (drop (Suc k) U)"
      using assms(3) by simp
    have "boundaries U ! Suc k = length (sort (concat (take k U)) @ U ! k)"
      using True by (simp add: boundaries_nth take_Suc_conv_app_nth)
    moreover have "sort (sort (concat (take k U)) @ U ! k) = sort (concat (take (Suc k) U))"
      using True by (intro properties_for_sort) (simp_all add: take_Suc_conv_app_nth)
    ultimately have srt: "sort_range 0 (boundaries U ! Suc k) (universal_variables (formula x)) =
        sort (concat (take (Suc k) U)) @ concat (drop (Suc k) U)"
      by (simp add: sort_range_def uv)
    show ?thesis
      by (rule that [of "k + 1" "sort_universals (boundaries U ! (k + 1)) x"])
         (use True srt in \<open>simp_all add: next_universals_def n assms(1) sort_universals_def\<close>)
  next
    case False
    then have "k = length U" using assms(2) by simp
    then show ?thesis
      using assms(3) by (intro that [of k x]) (simp_all add: next_universals_def n)
  qed
qed

lemma strict_sorted_takeWhile:
  "strict_sorted b \<Longrightarrow> e \<in> set b \<Longrightarrow> set (takeWhile (\<lambda>a. a \<noteq> e) b) = {u \<in> set b. u < e}"
  by (induction b) (auto dest: order.strict_trans)

lemma distinct_concat_sort: "distinct (concat E) \<Longrightarrow> distinct (concat (map sort E))"
  by (induction E) auto

lemma implicit_ext_ok:
  assumes wf: "wf_blocks first U E" and i: "i < length E"
    and orig: "\<forall>j<i. \<forall>v\<in>set (E ! j). orig v = Some (block_deps first U j)"
    and ok: "ext_ok orig (set (concat (take i E))) ext"
    and orig': "\<forall>v. orig' v = (if v \<in> set (E ! i) then Some (block_deps first U i) else orig v)"
    and ext': "\<forall>v. ext' v = (if v \<in> set (E ! i) then Some (block_deps first U i @
        concat (map sort (take i E)) @ takeWhile (\<lambda>a. a \<noteq> v) (sort (E ! i))) else ext v)"
  shows "ext_ok orig' (set (concat (take (Suc i) E))) ext'"
proof -
  have split: "set (concat (take (Suc i) E)) = set (concat (take i E)) \<union> set (E ! i)"
    using i by (simp add: take_Suc_conv_app_nth)
  have "concat E = concat (take i E) @ E ! i @ concat (drop (Suc i) E)"
    using arg_cong [OF id_take_nth_drop [OF i], of concat] by simp
  then have dist: "set (concat (take i E)) \<inter> set (E ! i) = {}" "distinct (concat (take i E))" "distinct (E ! i)"
    using wf by (auto simp: wf_blocks_def simp del: set_concat)
  have lower: "\<exists>j<i. v \<in> set (E ! j)" if "v \<in> set (concat (take i E))" for v
    using that set_take_blocks [of i E v] i by simp
  have old: "orig' v = Some (block_deps first U j)" if "j < i" "v \<in> set (E ! j)" for j v
  proof -
    have "v \<in> set (concat (take i E))" using that set_take_blocks [of i E v] i by auto
    then show ?thesis using orig orig' dist(1) that by auto
  qed
  have old_below: "below orig' u v \<longleftrightarrow> below orig u v"
    if "u \<in> set (concat (take i E))" "v \<in> set (concat (take i E))" for u v
    using that orig' dist(1) by (auto simp: below_def)
  have into_new: "below orig' u v" if u: "u \<in> set (concat (take i E))" and v: "v \<in> set (E ! i)" for u v
  proof -
    obtain j where "j < i" "u \<in> set (E ! j)" using lower [OF u] by blast
    then have "orig' u = Some (block_deps first U j)" "orig' v = Some (block_deps first U i)"
      using old orig' v by simp_all
    then show ?thesis using below_eq block_deps_mono [OF wf \<open>j < i\<close> i] by blast
  qed
  have from_new: "\<not> below orig' v u" if "u \<in> set (concat (take i E))" "v \<in> set (E ! i)" for u v
    using into_new [OF that] below_asym by blast
  have among: "below orig' u v \<longleftrightarrow> u < v" if "u \<in> set (E ! i)" "v \<in> set (E ! i)" for u v
    using that orig' by (simp add: below_eq)
  show ?thesis
    unfolding ext_ok_def split
  proof (intro conjI allI ballI impI)
    fix v assume "v \<notin> set (concat (take i E)) \<union> set (E ! i)"
    then show "ext' v = None" using ok ext' by (simp add: ext_ok_def)
  next
    fix v assume v: "v \<in> set (concat (take i E)) \<union> set (E ! i)"
    show "\<exists>extra. ext' v = Some (the (orig' v) @ extra) \<and> distinct extra \<and>
        set extra = {u \<in> set (concat (take i E)) \<union> set (E ! i). below orig' u v}"
    proof (cases "v \<in> set (E ! i)")
      case True
      define new where "new = concat (map sort (take i E)) @ takeWhile (\<lambda>a. a \<noteq> v) (sort (E ! i))"
      have sset: "set (concat (map sort (take i E))) = set (concat (take i E))" by simp
      have tw: "set (takeWhile (\<lambda>a. a \<noteq> v) (sort (E ! i))) = {u \<in> set (E ! i). u < v}"
        using strict_sorted_takeWhile [of "sort (E ! i)" v] dist(3) True
        by (simp add: strict_sorted_iff)
      have "ext' v = Some (the (orig' v) @ new)" using True ext' orig' by (simp add: new_def)
      moreover have "distinct new"
      proof -
        have "distinct (concat (map sort (take i E)))"
          using dist(2) distinct_concat_sort by blast
        then show ?thesis
          using dist sset tw by (auto simp: new_def distinct_takeWhile simp del: set_concat)
      qed
      moreover have "set new = {u \<in> set (concat (take i E)) \<union> set (E ! i). below orig' u v}"
        unfolding new_def set_append sset tw using into_new among True dist(1) by blast
      ultimately show ?thesis by blast
    next
      case False
      then have v': "v \<in> set (concat (take i E))" using v by blast
      obtain extra where "ext v = Some (the (orig v) @ extra)" "distinct extra"
        "set extra = {u \<in> set (concat (take i E)). below orig u v}"
        using ok v' unfolding ext_ok_def by blast
      moreover have "{u \<in> set (concat (take i E)) \<union> set (E ! i). below orig' u v} =
          {u \<in> set (concat (take i E)). below orig u v}"
        using from_new [OF v'] old_below [OF _ v'] by blast
      ultimately show ?thesis using False ext' orig' by auto
    qed
  qed
qed

lemma extend_implicit_spec:
  assumes wf: "wf_blocks first U E" and "implicit_inv first U E i k x ext" "i + n = length E"
  shows "\<exists>x' ext' k'. extend_implicit [i..<i + n] k x ext = Some (x', ext') \<and>
     implicit_inv first U E (length E) k' x' ext' \<and>
     existential_block_idx_end x' = existential_block_idx_end x \<and>
     explicit_dependencies (formula x') = explicit_dependencies (formula x)"
  using assms(2,3)
proof (induction n arbitrary: i k x ext)
  case 0
  then show ?case by auto
next
  case (Suc n)
  define E' where "E' = map sort (take i E) @ drop i E"
  have i: "i < length E" using Suc.prems(2) by simp
  note inv = Suc.prems(1) [unfolded implicit_inv_def]
  have "map length (map sort (take i E) @ drop i E) = map length (take i E @ drop i E)"
    by (simp add: comp_def del: append_take_drop_id)
  then have "boundaries E' = boundaries E"
    unfolding E'_def append_take_drop_id by (rule boundaries_cong)
  then have E': "E' ! i = E ! i" "length E' = length E" "boundaries E' = boundaries E"
    "concat (take i E') = concat (map sort (take i E))"
    using i by (simp_all add: E'_def nth_append)
  have ev: "existential_variables (formula x) = concat E'" using inv by (simp add: E'_def)
  have eb: "existential_blocks (formula x) = boundaries E" using inv by simp
  define x1 where "x1 = sort_existentials (boundaries E ! i) (boundaries E ! Suc i) x"
  have ev1: "existential_variables (formula x1) = concat (E'[i := sort (E ! i)])"
    using sort_range_blocks [of i E'] i by (simp add: x1_def sort_existentials_def ev E')
  have upd: "E'[i := sort (E ! i)] = map sort (take (Suc i) E) @ drop (Suc i) E"
    using i by (simp add: E'_def list_update_append take_Suc_conv_app_nth Cons_nth_drop_Suc [symmetric])
  have "map length (map sort (take (Suc i) E) @ drop (Suc i) E) = map length (take (Suc i) E @ drop (Suc i) E)"
    by (simp add: comp_def del: append_take_drop_id)
  then have b1: "boundaries (E'[i := sort (E ! i)]) = boundaries E"
    unfolding upd append_take_drop_id by (rule boundaries_cong)
  have same1: "existential_blocks (formula x1) = existential_blocks (formula x)"
    "original_dependency_map x1 = original_dependency_map x"
    "existential_block_idx_end x1 = existential_block_idx_end x"
    by (simp_all add: x1_def sort_existentials_def)
  have eb1: "existential_blocks (formula x1) = boundaries E" by (simp add: same1(1) eb)
  have before: "take (boundaries E ! i) (existential_variables (formula x1)) = concat (map sort (take i E))"
    using take_boundary [of i "E'[i := sort (E ! i)]"] i by (simp add: ev1 b1 E')
  have block: "block_variables i x1 = sort (E ! i)"
    using slice_boundaries [of i "E'[i := sort (E ! i)]"] i by (simp add: block_variables_def ev1 eb1 b1 E')
  have ub1: "universal_blocks (formula x1) = boundaries U"
    "universal_variables (formula x1) = sort (concat (take k U)) @ concat (drop k U)"
    using inv by (simp_all add: x1_def sort_existentials_def)
  have k: "k \<le> length U" "k = prefix_index first U i" using inv by (simp_all add: prefix_index_def)
  have pre: "universal_prefix k x1 = block_deps first U i"
    using k by (simp add: universal_prefix_def ub1 boundaries_nth block_deps_def)
  have "concat E = concat (take i E) @ E ! i @ concat (drop (Suc i) E)"
    using arg_cong [OF id_take_nth_drop [OF i], of concat] by simp
  then have dist: "set (concat (take i E)) \<inter> set (E ! i) = {}" "distinct (E ! i)"
    using wf by (auto simp: wf_blocks_def simp del: set_concat)
  have fresh: "\<forall>e\<in>set (sort (E ! i)). original_dependency_map x1 e = None \<and> ext e = None"
    using inv dist(1) by (auto simp: same1(2) ext_ok_def simp del: set_concat)
  have ds: "distinct (sort (E ! i))" using dist(2) by simp
  define x2 where "x2 = x1\<lparr>original_dependency_map :=
      (\<lambda>e. if e \<in> set (sort (E ! i)) then Some (block_deps first U i) else original_dependency_map x1 e)\<rparr>"
  obtain ext2 where e2: "extend_block k (concat (map sort (take i E))) (sort (E ! i)) x1 ext = Some (x2, ext2)"
    "\<forall>e. ext2 e = (if e \<in> set (sort (E ! i)) then Some (block_deps first U i @ concat (map sort (take i E)) @
       takeWhile (\<lambda>a. a \<noteq> e) (sort (E ! i))) else ext e)"
    using extend_block_spec [OF ds fresh pre, of "concat (map sort (take i E))"] unfolding x2_def by blast
  have f2: "formula x2 = formula x1" "existential_block_idx_end x2 = existential_block_idx_end x"
    by (simp_all add: x2_def same1)
  have o2: "\<forall>v. original_dependency_map x2 v =
      (if v \<in> set (E ! i) then Some (block_deps first U i) else original_dependency_map x v)"
    by (simp add: x2_def same1(2))
  have ub2: "universal_blocks (formula x2) = boundaries U"
    "universal_variables (formula x2) = sort (concat (take k U)) @ concat (drop k U)"
    by (simp_all add: f2 ub1)
  obtain k' x3 where n: "next_universals k x2 = (k', x3)" "k' = min (k + 1) (length U)"
    "universal_variables (formula x3) = sort (concat (take k' U)) @ concat (drop k' U)"
    "x3 = x2\<lparr>formula := (formula x2)\<lparr>universal_variables := universal_variables (formula x3)\<rparr>\<rparr>"
    by (rule next_universals_step [OF ub2(1) k(1) ub2(2)])
  have f3: "universal_blocks (formula x3) = boundaries U" "existential_blocks (formula x3) = boundaries E"
    "existential_variables (formula x3) = concat (map sort (take (Suc i) E)) @ concat (drop (Suc i) E)"
    "original_dependency_map x3 = original_dependency_map x2"
    "existential_block_idx_end x3 = existential_block_idx_end x"
    "explicit_dependencies (formula x3) = explicit_dependencies (formula x)"
  proof -
    define uv where "uv = universal_variables (formula x3)"
    have x3: "x3 = x2\<lparr>formula := (formula x2)\<lparr>universal_variables := uv\<rparr>\<rparr>"
      unfolding uv_def by (rule n(4))
    have exp: "explicit_dependencies (formula x1) = explicit_dependencies (formula x)"
      by (simp add: x1_def sort_existentials_def)
    show "universal_blocks (formula x3) = boundaries U" "existential_blocks (formula x3) = boundaries E"
      "existential_variables (formula x3) = concat (map sort (take (Suc i) E)) @ concat (drop (Suc i) E)"
      "original_dependency_map x3 = original_dependency_map x2"
      "existential_block_idx_end x3 = existential_block_idx_end x"
      "explicit_dependencies (formula x3) = explicit_dependencies (formula x)"
      by (simp_all add: x3 ub2 f2 eb1 ev1 upd exp ub1)
  qed
  have "implicit_inv first U E (Suc i) k' x3 ext2"
    unfolding implicit_inv_def
  proof (intro conjI allI impI ballI)
    show "k' = prefix_index first U (Suc i)" using n(2) k(2) by (auto simp: prefix_index_def)
    show "ext_ok (original_dependency_map x3) (set (concat (take (Suc i) E))) ext2"
      unfolding f3(4)
      by (rule implicit_ext_ok [OF wf i _ _ o2]) (use inv e2(2) in auto)
    show "original_dependency_map x3 v = Some (block_deps first U j)" if "j < Suc i" "v \<in> set (E ! j)" for j v
    proof (cases "j = i")
      case True
      then show ?thesis using that o2 by (simp add: f3(4))
    next
      case False
      then have "j < i" using that(1) by simp
      then have "v \<in> set (concat (take i E))" using that(2) set_take_blocks [of i E v] i by auto
      then show ?thesis using inv o2 dist(1) \<open>j < i\<close> that(2) by (auto simp: f3(4))
    qed
    show "original_dependency_map x3 v = None" if "v \<notin> set (concat (take (Suc i) E))" for v
      using that inv o2 i by (auto simp: f3(4) take_Suc_conv_app_nth)
  qed (use n(3) f3 in auto)
  from Suc.IH [OF this] Suc.prems(2)
  obtain x' ext' k'' where r: "extend_implicit [Suc i..<Suc i + n] k' x3 ext2 = Some (x', ext')"
     "implicit_inv first U E (length E) k'' x' ext'"
     "existential_block_idx_end x' = existential_block_idx_end x3"
     "explicit_dependencies (formula x') = explicit_dependencies (formula x3)" by auto
  have idx: "[i..<i + Suc n] = i # [Suc i..<Suc i + n]" by (simp add: upt_conv_Cons del: upt_Suc)
  have "extend_implicit [i..<i + Suc n] k x ext = extend_implicit [Suc i..<Suc i + n] k' x3 ext2"
    unfolding idx using e2(1) n(1)
    by (simp add: Let_def eb x1_def [symmetric] before block del: upt_Suc)
  then show ?case using r f3(5,6) by auto
qed

section \<open>From the prefix to the result\<close>

fun universals_before :: "block list \<Rightarrow> int \<Rightarrow> int list" where
  "universals_before [] v = []"
| "universals_before (b # bs) v =
     (if fst b then snd b @ universals_before bs v
      else if v \<in> set (snd b) then [] else universals_before bs v)"

lemma universals_before_index:
  assumes "alternating bs" "bs \<noteq> []" "distinct (concat (blocks_of False bs))"
    and "i < length (blocks_of False bs)" "v \<in> set (blocks_of False bs ! i)"
  shows "universals_before bs v =
    concat (take (prefix_index (fst (hd bs)) (blocks_of True bs) i) (blocks_of True bs))"
  using assms
proof (induction bs arbitrary: i)
  case (Cons b bs)
  have alt: "alternating bs" "bs \<noteq> [] \<longrightarrow> fst b \<noteq> fst (hd bs)"
    using Cons.prems(1) by (cases bs; simp)+
  show ?case
  proof (cases "fst b")
    case True
    have ne: "bs \<noteq> []" using Cons.prems(4) True by (auto simp: blocks_of_Cons)
    have "universals_before bs v =
        concat (take (prefix_index (fst (hd bs)) (blocks_of True bs) i) (blocks_of True bs))"
      by (rule Cons.IH) (use Cons.prems True ne alt in \<open>auto simp: blocks_of_Cons\<close>)
    moreover have "prefix_index True (blocks_of True (b # bs)) i = Suc (prefix_index False (blocks_of True bs) i)"
      using True by (simp add: prefix_index_def blocks_of_Cons)
    ultimately show ?thesis using True alt ne by (simp add: blocks_of_Cons)
  next
    case False
    have all: "blocks_of False (b # bs) = snd b # blocks_of False bs" "blocks_of True (b # bs) = blocks_of True bs"
      using False by (simp_all add: blocks_of_Cons)
    show ?thesis
    proof (cases i)
      case 0
      then show ?thesis using False Cons.prems(5) by (simp add: all prefix_index_def)
    next
      case (Suc j)
      have j: "j < length (blocks_of False bs)" "v \<in> set (blocks_of False bs ! j)"
        using Cons.prems(4,5) by (simp_all add: all Suc)
      have ne: "bs \<noteq> []" using j(1) by auto
      have "v \<in> set (concat (blocks_of False bs))" using j set_concat_blocks [of v "blocks_of False bs"] by blast
      then have "v \<notin> set (snd b)" using Cons.prems(3) by (auto simp: all)
      moreover have "universals_before bs v =
          concat (take (prefix_index (fst (hd bs)) (blocks_of True bs) j) (blocks_of True bs))"
        by (rule Cons.IH) (use Cons.prems j ne alt in \<open>auto simp: all\<close>)
      moreover have "prefix_index False (blocks_of True bs) i = prefix_index True (blocks_of True bs) j"
        by (simp add: prefix_index_def Suc)
      ultimately show ?thesis using False alt ne by (simp add: all)
    qed
  qed
qed simp

lemma extend_no_universals_spec:
  assumes "strict_sorted (visited @ es)"
  shows "\<exists>x' ext'. extend_no_universals es visited x ext = (x', ext') \<and>
     original_dependency_map x' = (\<lambda>v. if v \<in> set es then Some [] else original_dependency_map x v) \<and>
     (\<forall>v. ext' v = (if v \<in> set es then Some (visited @ takeWhile (\<lambda>a. a \<noteq> v) es) else ext v))"
  using assms
proof (induction es arbitrary: visited x ext)
  case (Cons e es)
  have notin: "e \<notin> set es" "strict_sorted ((visited @ [e]) @ es)"
    using Cons.prems by (auto simp: sorted_wrt_append)
  define x1 where "x1 = x\<lparr>original_dependency_map := (original_dependency_map x)(e \<mapsto> [])\<rparr>"
  define ext1 where "ext1 = ext(e \<mapsto> visited)"
  obtain x' ext' where r: "extend_no_universals es (visited @ [e]) x1 ext1 = (x', ext')"
     "original_dependency_map x' = (\<lambda>v. if v \<in> set es then Some [] else original_dependency_map x1 v)"
     "\<forall>v. ext' v = (if v \<in> set es then Some ((visited @ [e]) @ takeWhile (\<lambda>a. a \<noteq> v) es) else ext1 v)"
    using Cons.IH [OF notin(2), of x1 ext1] by blast
  show ?case
  proof (intro exI conjI)
    show "extend_no_universals (e # es) visited x ext = (x', ext')"
      using r(1) by (simp add: x1_def ext1_def)
    show "original_dependency_map x' = (\<lambda>v. if v \<in> set (e # es) then Some [] else original_dependency_map x v)"
      unfolding r(2) by (auto simp: x1_def fun_eq_iff)
    show "\<forall>v. ext' v = (if v \<in> set (e # es) then Some (visited @ takeWhile (\<lambda>a. a \<noteq> v) (e # es)) else ext v)"
      using r(3) notin(1) by (auto simp: ext1_def)
  qed
qed simp

text \<open>What the extractor is meant to compute for a prefix \<open>bs\<close> and explicit dependencies \<open>ds\<close>.\<close>

definition prefix_dependencies :: "block list \<Rightarrow> (int \<times> int list) list \<Rightarrow> int \<Rightarrow> int set" where
  "prefix_dependencies bs ds v =
     (case map_of ds v of
        Some deps \<Rightarrow> (if concat (blocks_of True bs) = [] then {} else set deps)
      | None \<Rightarrow> set (universals_before bs v))"

definition names_distinct :: "block list \<Rightarrow> (int \<times> int list) list \<Rightarrow> bool" where
  "names_distinct bs ds \<longleftrightarrow>
     distinct (concat (blocks_of True bs)) \<and> distinct (concat (blocks_of False bs) @ map fst ds) \<and>
     (\<forall>(v, deps)\<in>set ds. distinct deps)"

lemma chain_after_implicit:
  assumes wf: "wf_blocks first U E" and inv: "implicit_inv first U E (length E) k x ext"
    and "existential_block_idx_end x = int (length E)"
  shows "chain x (map sort E) (block_deps first U)"
  unfolding chain_def
proof (intro conjI allI impI)
  show "existential_variables (formula x) = concat (map sort E)"
    "existential_blocks (formula x) = boundaries (map sort E)"
    using inv by (simp_all add: implicit_inv_def boundaries_map_sort)
  show "distinct (concat (map sort E))" using wf distinct_concat_sort by (auto simp: wf_blocks_def)
  have "sort b \<noteq> []" if "b \<noteq> []" for b :: "int list" using that by (metis set_empty set_sort)
  then show "\<forall>b\<in>set (map sort E). b \<noteq> [] \<and> sorted b" using wf by (auto simp: wf_blocks_def)
qed (use assms strict_sorted_block_deps [OF wf] block_deps_mono [OF wf] in \<open>auto simp: implicit_inv_def\<close>)

lemma alternating_lengths:
  assumes "alternating bs" "bs \<noteq> []"
  shows "length (blocks_of False bs) \<le> length (blocks_of True bs) + of_bool (\<not> fst (hd bs))"
  using alternating_counts [OF assms] by (auto split: if_splits)

lemma start_universals_inv:
  assumes r: "represents d bs" and "concat (blocks_of True bs) \<noteq> []"
    and x: "formula x = d" "original_dependency_map x = Map.empty"
  shows "\<exists>k x1. start_universals x = (k, x1) \<and>
    implicit_inv (fst (hd bs)) (blocks_of True bs) (blocks_of False bs) 0 k x1 Map.empty \<and>
    existential_block_idx_end x1 = existential_block_idx_end x \<and>
    explicit_dependencies (formula x1) = explicit_dependencies d"
proof -
  define U where "U = blocks_of True bs"
  have U: "U \<noteq> []" using assms(2) by (auto simp: U_def)
  have ne: "bs \<noteq> []" using U by (auto simp: U_def)
  have f: "first_block_type d = fst (hd bs)" "universal_variables d = concat U" "universal_blocks d = boundaries U"
    using r ne by (auto simp: represents_def U_def)
  have ok: "ext_ok Map.empty {} Map.empty" by (simp add: ext_ok_def)
  have first: "boundaries U ! 1 = length (hd U)" "concat U = hd U @ concat (tl U)"
    using boundaries_nth [of 1 U] U by (cases U; simp)+
  have one: "take (Suc 0) U = [hd U]" "drop (Suc 0) U = tl U" using U by (cases U; simp)+
  show ?thesis
  proof (cases "fst (hd bs)")
    case True
    have "implicit_inv True U (blocks_of False bs) 0 1 (sort_universals (boundaries U ! 1) x) Map.empty"
      using r U(1) ok f first one
      by (auto simp: implicit_inv_def prefix_index_def sort_universals_def x represents_def U_def [symmetric]
          sort_range_def Suc_le_eq)
    then show ?thesis using True f by (simp add: start_universals_def x U_def [symmetric] sort_universals_def)
  next
    case False
    have "implicit_inv False U (blocks_of False bs) 0 0 x Map.empty"
      using r ok f by (auto simp: implicit_inv_def prefix_index_def x represents_def U_def [symmetric])
    then show ?thesis using False f by (simp add: start_universals_def x U_def [symmetric])
  qed
qed

definition extended_dependencies_meet ::
  "block list \<Rightarrow> (int \<times> int list) list \<Rightarrow> (int \<rightharpoonup> int list) \<Rightarrow> ext_map \<Rightarrow> bool" where
  "extended_dependencies_meet bs ds orig ext \<longleftrightarrow>
     (let names = set (concat (blocks_of False bs)) \<union> fst ` set ds in
      (\<forall>v. v \<notin> names \<longrightarrow> orig v = None \<and> ext v = None) \<and>
      (\<forall>v\<in>names. \<exists>Dv extra. orig v = Some Dv \<and> strict_sorted Dv \<and> set Dv = prefix_dependencies bs ds v \<and>
         ext v = Some (Dv @ extra) \<and> distinct extra \<and>
         set extra = {u \<in> names. prefix_dependencies bs ds u \<subset> prefix_dependencies bs ds v \<or>
                               prefix_dependencies bs ds u = prefix_dependencies bs ds v \<and> u < v}))"

lemma meet_from_ext_ok:
  assumes "ext_ok orig names ext" "names = set (concat (blocks_of False bs)) \<union> fst ` set ds"
    and "\<forall>v. v \<notin> names \<longrightarrow> orig v = None"
    and "\<forall>v\<in>names. \<exists>Dv. orig v = Some Dv \<and> strict_sorted Dv \<and> set Dv = prefix_dependencies bs ds v"
  shows "extended_dependencies_meet bs ds orig ext"
  unfolding extended_dependencies_meet_def Let_def assms(2) [symmetric]
proof (intro conjI allI ballI impI)
  fix v assume "v \<notin> names"
  then show "orig v = None" "ext v = None" using assms(1,3) by (auto simp: ext_ok_def)
next
  fix v assume v: "v \<in> names"
  obtain Dv where Dv: "orig v = Some Dv" "strict_sorted Dv" "set Dv = prefix_dependencies bs ds v"
    using assms(4) v by blast
  obtain extra where extra: "ext v = Some (Dv @ extra)" "distinct extra" "set extra = {u \<in> names. below orig u v}"
    using assms(1) v Dv(1) by (auto simp: ext_ok_def)
  have "below orig u v \<longleftrightarrow> prefix_dependencies bs ds u \<subset> prefix_dependencies bs ds v \<or>
      prefix_dependencies bs ds u = prefix_dependencies bs ds v \<and> u < v" if "u \<in> names" for u
  proof -
    obtain Du where "orig u = Some Du" "set Du = prefix_dependencies bs ds u" using assms(4) \<open>u \<in> names\<close> by blast
    then show ?thesis using below_eq [of orig u Du v Dv] Dv(1,3) by simp
  qed
  then have "set extra = {u \<in> names. prefix_dependencies bs ds u \<subset> prefix_dependencies bs ds v \<or>
      prefix_dependencies bs ds u = prefix_dependencies bs ds v \<and> u < v}"
    unfolding extra(3) by blast
  then show "\<exists>Dv extra. orig v = Some Dv \<and> strict_sorted Dv \<and> set Dv = prefix_dependencies bs ds v \<and>
         ext v = Some (Dv @ extra) \<and> distinct extra \<and>
         set extra = {u \<in> names. prefix_dependencies bs ds u \<subset> prefix_dependencies bs ds v \<or>
                               prefix_dependencies bs ds u = prefix_dependencies bs ds v \<and> u < v}"
    using Dv extra(1,2) by blast
qed

lemma universals_before_none: "concat (blocks_of True bs) = [] \<Longrightarrow> universals_before bs v = []"
  by (induction bs) (auto simp: blocks_of_Cons)

lemma extended_without_universals:
  assumes r: "represents d bs" and names: "names_distinct bs (explicit_dependencies d)"
    and none: "concat (blocks_of True bs) = []"
    and x: "formula x = d" "original_dependency_map x = Map.empty"
  shows "\<exists>x' ext. computeExtendedDependencies x = Some (x', ext) \<and>
    extended_dependencies_meet bs (explicit_dependencies d) (original_dependency_map x') ext"
proof -
  define all where "all = sort (getAllExistentials d)"
  have uv: "universal_variables d = []" using r none by (simp add: represents_def)
  have all: "strict_sorted ([] @ all)"
    "set all = set (concat (blocks_of False bs)) \<union> fst ` set (explicit_dependencies d)"
    using r names
    by (auto simp: all_def getAllExistentials_def represents_def names_distinct_def strict_sorted_iff)
  obtain x' ext where r: "extend_no_universals all [] x Map.empty = (x', ext)"
     "original_dependency_map x' = (\<lambda>v. if v \<in> set all then Some [] else original_dependency_map x v)"
     "\<forall>v. ext v = (if v \<in> set all then Some ([] @ takeWhile (\<lambda>a. a \<noteq> v) all) else Map.empty v)"
    using extend_no_universals_spec [OF all(1), of x Map.empty] by blast
  then have e: "extend_no_universals all [] x Map.empty = (x', ext)"
     "original_dependency_map x' = (\<lambda>v. if v \<in> set all then Some [] else None)"
     "\<forall>v. ext v = (if v \<in> set all then Some (takeWhile (\<lambda>a. a \<noteq> v) all) else None)"
    by (simp_all add: x(2) cong: if_cong)
  have run: "computeExtendedDependencies x = Some (x', ext)"
    using e(1) by (simp add: computeExtendedDependencies_def x(1) uv all_def)
  have "ext_ok (original_dependency_map x') (set all) ext"
    unfolding ext_ok_def
  proof (intro conjI allI ballI impI)
    fix v assume v: "v \<in> set all"
    have "set (takeWhile (\<lambda>a. a \<noteq> v) all) = {u \<in> set all. below (original_dependency_map x') u v}"
      using strict_sorted_takeWhile [of all v] all(1) v by (auto simp: e(2) below_def dep_below_def)
    moreover have "distinct (takeWhile (\<lambda>a. a \<noteq> v) all)"
      using all(1) by (simp add: strict_sorted_iff distinct_takeWhile)
    ultimately show "\<exists>extra. ext v = Some (the (original_dependency_map x' v) @ extra) \<and> distinct extra \<and>
        set extra = {u \<in> set all. below (original_dependency_map x') u v}"
      using e v by auto
  qed (use e in auto)
  then have "extended_dependencies_meet bs (explicit_dependencies d) (original_dependency_map x') ext"
    by (rule meet_from_ext_ok [OF _ all(2)])
       (use e(2) none universals_before_none in \<open>auto simp: prefix_dependencies_def split: option.splits\<close>)
  with run show ?thesis by blast
qed

lemma extended_with_universals:
  assumes r: "represents d bs" and names: "names_distinct bs (explicit_dependencies d)"
    and some: "concat (blocks_of True bs) \<noteq> []"
    and x: "formula x = d" "original_dependency_map x = Map.empty"
    and idx: "existential_block_idx_end x = int (length (blocks_of False bs))"
  shows "\<exists>x' ext. computeExtendedDependencies x = Some (x', ext) \<and>
    extended_dependencies_meet bs (explicit_dependencies d) (original_dependency_map x') ext"
proof -
  define U where "U = blocks_of True bs"
  define E where "E = blocks_of False bs"
  define first where "first = fst (hd bs)"
  define ds where "ds = explicit_dependencies d"
  have ne: "bs \<noteq> []" using some by auto
  have alt: "alternating bs" and nonempty: "\<forall>b\<in>set bs. snd b \<noteq> []"
    using r by (auto simp: represents_def list_all_iff)
  have wf: "wf_blocks first U E"
    using names nonempty alternating_lengths [OF alt ne]
    by (auto simp: wf_blocks_def names_distinct_def U_def E_def first_def blocks_of_def)
  have uv: "universal_variables d \<noteq> []" using r some by (simp add: represents_def)
  obtain k x1 where s: "start_universals x = (k, x1)" "implicit_inv first U E 0 k x1 Map.empty"
    "existential_block_idx_end x1 = existential_block_idx_end x" "explicit_dependencies (formula x1) = ds"
    using start_universals_inv [OF r some x] by (auto simp: U_def E_def first_def ds_def)
  obtain x2 ext2 k' where i: "extend_implicit [0..<length E] k x1 Map.empty = Some (x2, ext2)"
    "implicit_inv first U E (length E) k' x2 ext2" "existential_block_idx_end x2 = int (length E)"
    "explicit_dependencies (formula x2) = ds"
    using extend_implicit_spec [OF wf s(2), of "length E"] s(3,4) idx by (auto simp: E_def)
  have ch: "chain x2 (map sort E) (block_deps first U)" by (rule chain_after_implicit [OF wf i(2,3)])
  have inv2: "ext_ok (original_dependency_map x2) (set (concat E)) ext2"
    "\<forall>v. v \<notin> set (concat E) \<longrightarrow> original_dependency_map x2 v = None"
    "\<forall>j<length E. \<forall>v\<in>set (E ! j). original_dependency_map x2 v = Some (block_deps first U j)"
    using i(2) by (auto simp: implicit_inv_def)
  have sE: "set (concat (map sort E)) = set (concat E)" by simp
  have dsd: "distinct (map fst ds)" "set (concat E) \<inter> fst ` set ds = {}" "\<forall>(v, deps)\<in>set ds. distinct deps"
    using names by (auto simp: names_distinct_def E_def ds_def)
  obtain x' ext' where e: "extend_explicit ds [] x2 ext2 = Some (x', ext')"
     "original_dependency_map x' = original_dependency_map x2 ++ map_of (map (apsnd sort) ds)"
     "ext_ok (original_dependency_map x') (set (concat E) \<union> fst ` set ds) ext'"
    using extend_explicit_spec [OF ch, of "[]" ext2 ds] inv2(1,2) dsd unfolding sE by auto
  have run: "computeExtendedDependencies x = Some (x', ext')"
    using uv s(1) i e(1) idx by (simp add: computeExtendedDependencies_def x(1) s(3) E_def)
  have "extended_dependencies_meet bs ds (original_dependency_map x') ext'"
  proof (rule meet_from_ext_ok [OF e(3)])
    show "set (concat E) \<union> fst ` set ds = set (concat (blocks_of False bs)) \<union> fst ` set ds"
      by (simp add: E_def)
    have mo: "map_of (map (apsnd sort) ds) v = map_option sort (map_of ds v)" for v
      by (induction ds) auto
    show "\<forall>v. v \<notin> set (concat E) \<union> fst ` set ds \<longrightarrow> original_dependency_map x' v = None"
    proof (intro allI impI)
      fix v assume v: "v \<notin> set (concat E) \<union> fst ` set ds"
      then have "map_of ds v = None" by (simp add: map_of_eq_None_iff)
      then show "original_dependency_map x' v = None" using inv2(2) v by (simp add: e(2) mo map_add_def)
    qed
    show "\<forall>v\<in>set (concat E) \<union> fst ` set ds. \<exists>Dv. original_dependency_map x' v = Some Dv \<and>
        strict_sorted Dv \<and> set Dv = prefix_dependencies bs ds v"
    proof
      fix v assume v: "v \<in> set (concat E) \<union> fst ` set ds"
      show "\<exists>Dv. original_dependency_map x' v = Some Dv \<and> strict_sorted Dv \<and> set Dv = prefix_dependencies bs ds v"
      proof (cases "map_of ds v")
        case (Some deps)
        then have "distinct deps" using dsd(3) by (auto dest: map_of_SomeD)
        then show ?thesis using Some some
          by (auto simp: e(2) mo map_add_def prefix_dependencies_def strict_sorted_iff)
      next
        case None
        then have "v \<in> set (concat E)" using v by (auto simp: map_of_eq_None_iff)
        then obtain j where j: "j < length E" "v \<in> set (E ! j)" using set_concat_blocks [of v E] by blast
        then have "original_dependency_map x2 v = Some (block_deps first U j)" using inv2(3) by blast
        moreover have "set (block_deps first U j) = set (universals_before bs v)"
          using universals_before_index [OF alt ne, of j v] j wf
          by (simp add: block_deps_def E_def U_def first_def wf_blocks_def)
        ultimately show ?thesis
          using None strict_sorted_block_deps [OF wf, of j]
          by (simp add: e(2) mo map_add_def prefix_dependencies_def)
      qed
    qed
  qed
  with run show ?thesis unfolding ds_def by blast
qed

section \<open>Properties\<close>

lemma computeExtendedDependencies_meets:
  assumes "represents d bs" "names_distinct bs (explicit_dependencies d)"
    and "\<not> ignore_innermost_existentials config"
  shows "\<exists>x ext. computeExtendedDependencies (new_DependencyExtractor config d) = Some (x, ext) \<and>
           extended_dependencies_meet bs (explicit_dependencies d) (original_dependency_map x) ext"
proof -
  define x where "x = new_DependencyExtractor config d"
  have x: "formula x = d" "original_dependency_map x = Map.empty"
    "existential_block_idx_end x = int (length (blocks_of False bs))"
    using assms(1,3)
    by (simp_all add: x_def new_DependencyExtractor_def Let_def getNofExistentialBlocks_def represents_def
        boundaries_simps)
  show ?thesis
    unfolding x_def [symmetric]
    using extended_without_universals [OF assms(1,2) _ x(1,2)] extended_with_universals [OF assms(1,2) _ x]
    by (cases "concat (blocks_of True bs) = []") blast+
qed

text \<open>C13: for a formula whose layout represents a prefix of alternating blocks, with distinct names,
  and with no innermost block ignored, \<open>computeExtendedDependencies\<close> never fails and computes the
  pairwise reference relation: the original dependencies are the universals of the blocks before
  (or the explicit list), as an ordered set, and the extended ones append, without repetition,
  exactly the existentials whose dependency set is strictly contained, or equal with a smaller name.\<close>

theorem computeExtendedDependencies_reference:
  assumes "represents d bs" "names_distinct bs (explicit_dependencies d)"
    and "\<not> ignore_innermost_existentials config"
  shows "\<exists>x ext. computeExtendedDependencies (new_DependencyExtractor config d) = Some (x, ext) \<and>
           extended_dependencies_meet bs (explicit_dependencies d) (original_dependency_map x) ext"
  using assms by (rule computeExtendedDependencies_meets)

definition demo_blocks :: "block list" where
  "demo_blocks = [(True, [2, 1]), (False, [5, 4]), (True, [3]), (False, [6])]"

definition demo_formula :: dqdimacs where
  "demo_formula = addExplicitDependencies 7 [1, 2] (fold add_block demo_blocks (new_DQDIMACS True))"

lemma computeExtendedDependencies_reference_witness:
  "\<exists>x ext. computeExtendedDependencies (new_DependencyExtractor default_configuration demo_formula) = Some (x, ext) \<and>
     extended_dependencies_meet demo_blocks [(7, [1, 2])] (original_dependency_map x) ext"
proof -
  have ed: "explicit_dependencies demo_formula = [(7, [1, 2])]"
    by (simp add: demo_formula_def addExplicitDependencies_fields demo_blocks_def add_block_def
        addUniversalBlock_fields addExistentialBlock_fields new_DQDIMACS_def)
  have "represents (fold add_block demo_blocks (new_DQDIMACS True)) (foldl merge_block [] demo_blocks)"
    by (rule add_blocks_represents [OF new_represents])
  moreover have "foldl merge_block [] demo_blocks = demo_blocks"
    by (simp add: demo_blocks_def merge_block_def)
  ultimately have "represents demo_formula demo_blocks" by (simp add: demo_formula_def)
  moreover have "names_distinct demo_blocks (explicit_dependencies demo_formula)"
    by (simp add: ed names_distinct_def demo_blocks_def blocks_of_def)
  moreover have "\<not> ignore_innermost_existentials default_configuration"
    by (simp add: default_configuration_def)
  ultimately show ?thesis
    using computeExtendedDependencies_reference [of demo_formula demo_blocks default_configuration]
    by (simp add: ed)
qed

end
