(* ===== verification/PreprocessorSound.thy ===== *)
theory PreprocessorSound
  imports Preprocessor DependencyExtractor_Extended
begin

text \<open>
  Why preprocessing may prune dependencies: a formula that Skolem functions of the prefix can win
  is won by Skolem functions of the pruned dependencies. For one universal variable the outcomes of
  the two plays that differ in it are merged: a literal of the one outcome is taken over into the
  other only when a resolution path leads to it. What still differs is reached on paths from both
  polarities of the universal, so its dependency is kept by the scheme. With the exactness of the
  scheme and of the extraction this gives the soundness of the whole preprocessor.
\<close>

section \<open>Repairing an outcome\<close>

definition literal_of :: "assignment \<Rightarrow> int \<Rightarrow> int" where
  "literal_of \<tau> v = (if \<tau> v then v else - v)"

definition repair :: "int set \<Rightarrow> assignment \<Rightarrow> assignment \<Rightarrow> assignment" where
  "repair N \<tau> \<tau>' v = (if \<tau> v \<noteq> \<tau>' v \<and> literal_of \<tau>' v \<in> N then \<tau>' v else \<tau> v)"

lemma literal_of_lit:
  "l \<noteq> 0 \<Longrightarrow> lit_true \<tau> l \<Longrightarrow> literal_of \<tau> \<bar>l\<bar> = l"
  "l \<noteq> 0 \<Longrightarrow> \<not> lit_true \<tau> l \<Longrightarrow> literal_of \<tau> \<bar>l\<bar> = - l"
  by (auto simp: literal_of_def lit_true_def abs_if split: if_splits)

lemma repair_kept:
  assumes "lit_true \<tau>' l" "\<not> lit_true (repair N \<tau> \<tau>') l" "l \<noteq> 0"
  shows "\<tau> \<bar>l\<bar> \<noteq> \<tau>' \<bar>l\<bar>" "l \<notin> N"
proof -
  have "repair N \<tau> \<tau>' \<bar>l\<bar> \<noteq> \<tau>' \<bar>l\<bar>" using assms lit_true_cong [of "repair N \<tau> \<tau>'" l \<tau>'] by blast
  then show "\<tau> \<bar>l\<bar> \<noteq> \<tau>' \<bar>l\<bar>" "l \<notin> N" using literal_of_lit(1) [OF assms(3,1)] by (auto simp: repair_def split: if_splits)
qed

lemma repair_taken:
  assumes "lit_true \<tau> l" "\<not> lit_true (repair N \<tau> \<tau>') l" "l \<noteq> 0"
  shows "- l \<in> N" "\<not> lit_true \<tau>' l"
proof -
  have "repair N \<tau> \<tau>' \<bar>l\<bar> \<noteq> \<tau> \<bar>l\<bar>" using assms lit_true_cong [of "repair N \<tau> \<tau>'" l \<tau>] by blast
  then have r: "literal_of \<tau>' \<bar>l\<bar> \<in> N" "\<tau>' \<bar>l\<bar> \<noteq> \<tau> \<bar>l\<bar>" by (auto simp: repair_def split: if_splits)
  show "\<not> lit_true \<tau>' l" using r(2) assms(1) by (auto simp: lit_true_def abs_if split: if_splits)
  then show "- l \<in> N" using r(1) literal_of_lit(2) [OF assms(3)] by simp
qed

text \<open>
  The outcome \<open>\<tau>\<close> with the literals of \<open>\<tau>'\<close> that paths from \<open>s\<close> reach still satisfies the clauses
  both outcomes satisfy.
\<close>

lemma repair_sat:
  assumes c: "c \<in> set F" "0 \<notin> set c" and sat: "clause_sat \<tau> c" "clause_sat \<tau>' c"
    and outside: "\<forall>v\<in>clause_vars c - K. \<tau> v = \<tau>' v"
    and s: "lit_true \<tau>' s" "s \<noteq> 0"
  shows "clause_sat (repair {l. path F K {- s} s l} \<tau> \<tau>') c"
proof (rule ccontr)
  let ?N = "{l. path F K {- s} s l}" let ?\<rho> = "repair ?N \<tau> \<tau>'"
  assume "\<not> clause_sat ?\<rho> c"
  then have unsat: "\<not> lit_true ?\<rho> l" if "l \<in> set c" for l using that by (auto simp: clause_sat_iff)
  obtain m where m: "m \<in> set c" "lit_true \<tau>' m" using sat(2) by (auto simp: clause_sat_iff)
  obtain k where k: "k \<in> set c" "lit_true \<tau> k" using sat(1) by (auto simp: clause_sat_iff)
  have nz: "m \<noteq> 0" "k \<noteq> 0" using c(2) m(1) k(1) by auto
  note kept = repair_kept [OF m(2) unsat [OF m(1)] nz(1)]
  note taken = repair_taken [OF k(2) unsat [OF k(1)] nz(2)]
  have "\<bar>m\<bar> \<in> K" using outside kept(1) m(1) by (auto simp: clause_vars_def)
  moreover have "m \<noteq> k" using m(2) taken(2) by blast
  moreover have "m \<noteq> - s" using m(2) s by (auto simp: lit_true_def split: if_splits)
  ultimately have "path F K {- s} s m"
    using path_step [of F K "{- s}" s "- k" c m] taken(1) c(1) k(1) m(1) by simp
  then show False using kept(2) by simp
qed

section \<open>Removing the dependencies on one universal variable\<close>

definition merged :: "int set \<Rightarrow> cnf \<Rightarrow> int set \<Rightarrow> int \<Rightarrow> skolem \<Rightarrow> assignment \<Rightarrow> assignment" where
  "merged U F K u f \<alpha> =
     (let \<tau> = play U f (\<alpha>(u := False)); \<tau>' = play U f (\<alpha>(u := True));
          \<rho>' = repair {l. path F K {- u} u l} \<tau> \<tau>'
      in if \<alpha> u then \<rho>' else repair {l. path F K {u} (- u) l} \<rho>' \<tau>)"

definition merged_skolem :: "int set \<Rightarrow> cnf \<Rightarrow> int set \<Rightarrow> int \<Rightarrow> skolem \<Rightarrow> skolem" where
  "merged_skolem U F K u f = (\<lambda>e \<alpha>. merged U F K u f \<alpha> e)"

lemma repair_same: "\<tau> v = \<tau>' v \<Longrightarrow> repair N \<tau> \<tau>' v = \<tau> v"
  by (simp add: repair_def)

lemma play_merged:
  assumes u: "u \<in> U" "u \<in> K" "0 < u"
  shows "play U (merged_skolem U F K u f) \<alpha> = merged U F K u f \<alpha>"
proof
  fix v
  let ?\<tau> = "play U f (\<alpha>(u := False))" and ?\<tau>' = "play U f (\<alpha>(u := True))"
  let ?N = "{l. path F K {- u} u l}" and ?P = "{l. path F K {u} (- u) l}"
  show "play U (merged_skolem U F K u f) \<alpha> v = merged U F K u f \<alpha> v"
  proof (cases "v \<in> U")
    case False
    then show ?thesis by (simp add: play_def merged_skolem_def)
  next
    case True
    show ?thesis
    proof (cases "v = u")
      case False
      then have same: "?\<tau> v = \<alpha> v" "?\<tau>' v = \<alpha> v" using True by (simp_all add: play_def)
      then have "repair ?N ?\<tau> ?\<tau>' v = \<alpha> v" by (simp add: repair_same)
      then show ?thesis using True same by (simp add: merged_def Let_def repair_same) (simp add: play_def)
    next
      case True: True
      have vals: "?\<tau> u = False" "?\<tau>' u = True" using u(1) by (simp_all add: play_def)
      have "path F K {- u} u u" "path F K {u} (- u) (- u)" using u by (auto intro: path_start)
      then have "repair ?N ?\<tau> ?\<tau>' u" "\<not> repair ?P (repair ?N ?\<tau> ?\<tau>') ?\<tau> u"
        using vals by (auto simp: repair_def literal_of_def)
      then show ?thesis using u(1) by (auto simp: merged_def Let_def play_def True)
    qed
  qed
qed

lemma merged_wins:
  assumes u: "u \<in> U" "u \<in> K" "0 < u" and F: "\<forall>c\<in>set F. 0 \<notin> set c"
    and outside: "\<forall>v\<in>cnf_vars F - K - U. \<forall>\<alpha>. f v (\<alpha>(u := False)) = f v (\<alpha>(u := True))"
    and win: "wins U f F"
  shows "wins U (merged_skolem U F K u f) F"
  unfolding wins_def play_merged [OF u]
proof
  fix \<alpha>
  let ?\<tau> = "play U f (\<alpha>(u := False))" and ?\<tau>' = "play U f (\<alpha>(u := True))"
  let ?\<rho>' = "repair {l. path F K {- u} u l} ?\<tau> ?\<tau>'"
  let ?\<rho> = "repair {l. path F K {u} (- u) l} ?\<rho>' ?\<tau>"
  have sat: "cnf_sat ?\<tau> F" "cnf_sat ?\<tau>' F" using win by (simp_all add: wins_def)
  have out: "?\<tau> v = ?\<tau>' v" if v: "v \<in> cnf_vars F - K" for v
  proof (cases "v \<in> U")
    case True
    then show ?thesis using v u(2) by (auto simp: play_def)
  next
    case False
    then show ?thesis using v outside by (simp add: play_def)
  qed
  have vars: "clause_vars c \<subseteq> cnf_vars F" if "c \<in> set F" for c using that by (auto simp: cnf_vars_def)
  have lit: "lit_true ?\<tau>' u" "lit_true ?\<tau> (- u)" using u by (simp_all add: play_def)
  have 1: "cnf_sat ?\<rho>' F"
    unfolding cnf_sat_iff
  proof
    fix c assume c: "c \<in> set F"
    show "clause_sat ?\<rho>' c"
      by (rule repair_sat [OF c]) (use F c sat out vars [OF c] lit u(3) in \<open>auto simp: cnf_sat_iff\<close>)
  qed
  have 2: "cnf_sat ?\<rho> F"
    unfolding cnf_sat_iff
  proof
    fix c assume c: "c \<in> set F"
    have out': "?\<rho>' v = ?\<tau> v" if "v \<in> clause_vars c - K" for v
      using out vars [OF c] that by (intro repair_same) blast
    have "clause_sat (repair {l. path F K {- (- u)} (- u) l} ?\<rho>' ?\<tau>) c"
      by (rule repair_sat [OF c]) (use F c sat 1 out' lit u(3) in \<open>auto simp: cnf_sat_iff\<close>)
    then show "clause_sat ?\<rho> c" by simp
  qed
  show "cnf_sat (merged U F K u f \<alpha>) F" using 1 2 by (simp add: merged_def Let_def)
qed

text \<open>Where the merged outcomes differ, both polarities are reached.\<close>

lemma merged_connected:
  assumes "repair {l. path F K {u} (- u) l} (repair {l. path F K {- u} u l} \<tau> \<tau>') \<tau> e \<noteq>
      repair {l. path F K {- u} u l} \<tau> \<tau>' e"
  shows "rrs_connected F K u e"
proof -
  let ?\<rho>' = "repair {l. path F K {- u} u l} \<tau> \<tau>'"
  have 1: "?\<rho>' e \<noteq> \<tau> e" "path F K {u} (- u) (literal_of \<tau> e)" using assms by (auto simp: repair_def split: if_splits)
  then have 2: "\<tau> e \<noteq> \<tau>' e" "path F K {- u} u (literal_of \<tau>' e)" by (auto simp: repair_def split: if_splits)
  show ?thesis using 1(2) 2 by (cases "\<tau> e") (auto simp: rrs_connected_def literal_of_def)
qed

lemma merged_skolem_for:
  assumes "skolem_for D f" "\<forall>e. D e \<noteq> None \<longrightarrow> e \<notin> U"
  shows "skolem_for (\<lambda>e. map_option (\<lambda>us. {v \<in> us. v = u \<longrightarrow> rrs_connected F K u e}) (D e)) (merged_skolem U F K u f)"
  unfolding skolem_for_def
proof (intro allI impI, elim conjE)
  fix e vs and \<alpha> \<beta> :: assignment
  assume "map_option (\<lambda>us. {v \<in> us. v = u \<longrightarrow> rrs_connected F K u e}) (D e) = Some vs" and agree: "\<forall>v\<in>vs. \<alpha> v = \<beta> v"
  then obtain us where us: "D e = Some us" "vs = {v \<in> us. v = u \<longrightarrow> rrs_connected F K u e}" by auto
  then have eU: "e \<notin> U" using assms(2) by auto
  have respects: "f e \<gamma> = f e \<delta>" if "\<forall>v\<in>us. \<gamma> v = \<delta> v" for \<gamma> \<delta>
    using assms(1) us(1) that unfolding skolem_for_def by blast
  have "f e (\<alpha>(u := b)) = f e (\<beta>(u := b))" for b using agree us(2) by (intro respects) auto
  then have same: "play U f (\<alpha>(u := b)) e = play U f (\<beta>(u := b)) e" for b using eU by (simp add: play_def)
  let ?N = "{l. path F K {- u} u l}" and ?P = "{l. path F K {u} (- u) l}"
  let ?\<rho>' = "\<lambda>\<alpha>. repair ?N (play U f (\<alpha>(u := False))) (play U f (\<alpha>(u := True)))"
  let ?\<rho> = "\<lambda>\<alpha>. repair ?P (?\<rho>' \<alpha>) (play U f (\<alpha>(u := False)))"
  have local: "?\<rho>' \<alpha> e = ?\<rho>' \<beta> e" "?\<rho> \<alpha> e = ?\<rho> \<beta> e"
    using same by (simp_all add: repair_def literal_of_def)
  have "\<alpha> u = \<beta> u \<or> ?\<rho> \<alpha> e = ?\<rho>' \<alpha> e"
  proof (cases "u \<in> us")
    case True
    then show ?thesis using agree us(2) merged_connected [of F K u "play U f (\<alpha>(u := False))" "play U f (\<alpha>(u := True))" e]
      by auto
  next
    case False
    then have "f e (\<alpha>(u := False)) = f e (\<alpha>(u := True))" by (intro respects) auto
    then show ?thesis using eU by (simp add: repair_def play_def)
  qed
  then show "merged_skolem U F K u f e \<alpha> = merged_skolem U F K u f e \<beta>"
    using local by (auto simp: merged_skolem_def merged_def Let_def)
qed

section \<open>Soundness of the dependency scheme\<close>

definition dqbf_true :: "int set \<Rightarrow> dependency_sets \<Rightarrow> cnf \<Rightarrow> bool" where
  "dqbf_true U D F \<longleftrightarrow> (\<exists>f. skolem_for D f \<and> wins U f F)"

definition pruned :: "cnf \<Rightarrow> (int \<Rightarrow> int set) \<Rightarrow> int set \<Rightarrow> dependency_sets \<Rightarrow> dependency_sets" where
  "pruned F K vs D = (\<lambda>e. map_option (\<lambda>us. {u \<in> us. u \<in> vs \<longrightarrow> rrs_connected F (K u) u e}) (D e))"

lemma scheme_sound_list:
  assumes F: "\<forall>c\<in>set F. 0 \<notin> set c" and D: "\<forall>e. D e \<noteq> None \<longrightarrow> e \<notin> U"
    and K: "\<forall>u\<in>U. u \<in> K u \<and> 0 < u" "\<forall>u\<in>U. \<forall>e\<in>cnf_vars F - K u - U. \<exists>us. D e = Some us \<and> u \<notin> us"
    and win: "skolem_for D f" "wins U f F" and vs: "set vs \<subseteq> U"
  shows "\<exists>f. skolem_for (pruned F K (set vs) D) f \<and> wins U f F"
  using vs
proof (induction vs)
  case Nil
  have "pruned F K {} D = D" by (simp add: pruned_def option.map_ident)
  then show ?case using win by auto
next
  case (Cons u vs)
  then obtain g where g: "skolem_for (pruned F K (set vs) D) g" "wins U g F" by auto
  have u: "u \<in> U" using Cons.prems by simp
  have "skolem_for (\<lambda>e. map_option (\<lambda>us. {v \<in> us. v = u \<longrightarrow> rrs_connected F (K u) u e}) (pruned F K (set vs) D e))
      (merged_skolem U F (K u) u g)"
    by (rule merged_skolem_for [OF g(1)]) (use D in \<open>simp add: pruned_def\<close>)
  moreover have "(\<lambda>e. map_option (\<lambda>us. {v \<in> us. v = u \<longrightarrow> rrs_connected F (K u) u e}) (pruned F K (set vs) D e)) =
      pruned F K (set (u # vs)) D"
  proof
    fix e show "map_option (\<lambda>us. {v \<in> us. v = u \<longrightarrow> rrs_connected F (K u) u e}) (pruned F K (set vs) D e) =
        pruned F K (set (u # vs)) D e"
      by (cases "D e") (auto simp: pruned_def)
  qed
  moreover have "wins U (merged_skolem U F (K u) u g) F"
  proof (rule merged_wins [OF u _ _ F _ g(2)])
    show "\<forall>v\<in>cnf_vars F - K u - U. \<forall>\<alpha>. g v (\<alpha>(u := False)) = g v (\<alpha>(u := True))"
    proof (intro ballI allI)
      fix v \<alpha> assume "v \<in> cnf_vars F - K u - U"
      then obtain us where us: "D v = Some us" "u \<notin> us" using K(2) u by blast
      have "pruned F K (set vs) D v = Some {u \<in> us. u \<in> set vs \<longrightarrow> rrs_connected F (K u) u v}"
        using us(1) by (simp add: pruned_def)
      moreover have "\<forall>w\<in>{u \<in> us. u \<in> set vs \<longrightarrow> rrs_connected F (K u) u v}. (\<alpha>(u := False)) w = (\<alpha>(u := True)) w"
        using us(2) by auto
      ultimately show "g v (\<alpha>(u := False)) = g v (\<alpha>(u := True))" using g(1) unfolding skolem_for_def by blast
    qed
  qed (use K u in auto)
  ultimately show ?case by auto
qed

lemma skolem_for_fewer:
  assumes "skolem_for D' f" "\<forall>e. D' e = None \<longleftrightarrow> D e = None" "\<forall>e us us'. D e = Some us \<and> D' e = Some us' \<longrightarrow> us' \<subseteq> us"
  shows "skolem_for D f"
  unfolding skolem_for_def
proof (intro allI impI, elim conjE)
  fix e us and \<alpha> \<beta> :: assignment
  assume e: "D e = Some us" and agree: "\<forall>u\<in>us. \<alpha> u = \<beta> u"
  then obtain us' where "D' e = Some us'" "us' \<subseteq> us" using assms(2,3) by (metis option.exhaust)
  then show "f e \<alpha> = f e \<beta>" using assms(1) agree unfolding skolem_for_def by blast
qed

lemma skolem_for_pruned: "skolem_for (pruned F K vs D) f \<Longrightarrow> skolem_for D f"
  by (rule skolem_for_fewer) (auto simp: pruned_def)

lemma scheme_sound:
  assumes "\<forall>c\<in>set F. 0 \<notin> set c" "\<forall>e. D e \<noteq> None \<longrightarrow> e \<notin> U" "finite U"
    and "\<forall>u\<in>U. u \<in> K u \<and> 0 < u" "\<forall>u\<in>U. \<forall>e\<in>cnf_vars F - K u - U. \<exists>us. D e = Some us \<and> u \<notin> us"
  shows "dqbf_true U D F \<longleftrightarrow> dqbf_true U (pruned F K U D) F"
proof -
  obtain vs where "set vs = U" using assms(3) finite_list by blast
  then show ?thesis unfolding dqbf_true_def
    using scheme_sound_list [OF assms(1,2,4,5), of _ vs] skolem_for_pruned by blast
qed

section \<open>The whole preprocessor\<close>

text \<open>The existential variables of a prefix, their dependencies, and what a formula has to be.\<close>

definition existential_names :: "block list \<Rightarrow> dqdimacs \<Rightarrow> int set" where
  "existential_names bs d = set (concat (blocks_of False bs)) \<union> fst ` set (explicit_dependencies d)"

definition prefix_sets :: "block list \<Rightarrow> dqdimacs \<Rightarrow> dependency_sets" where
  "prefix_sets bs d =
     (\<lambda>e. if e \<in> existential_names bs d then Some (prefix_dependencies bs (explicit_dependencies d) e) else None)"

definition formula_ok :: "block list \<Rightarrow> dqdimacs \<Rightarrow> bool" where
  "formula_ok bs d \<longleftrightarrow>
     (\<forall>v\<in>set (universal_variables d) \<union> existential_names bs d. 0 < v \<and> v \<le> max_var d) \<and>
     set (universal_variables d) \<inter> existential_names bs d = {} \<and>
     (\<forall>(v, deps)\<in>set (explicit_dependencies d). set deps \<subseteq> set (universal_variables d)) \<and>
     (\<forall>c\<in>set (matrix d). 0 \<notin> set c \<and> (\<forall>l\<in>set c. - l \<notin> set c) \<and>
        (\<forall>l\<in>set c. var l \<in> set (universal_variables d) \<union> existential_names bs d))"

text \<open>The variables the search for a universal variable may pass through.\<close>

definition depending :: "block list \<Rightarrow> dqdimacs \<Rightarrow> int \<Rightarrow> int set" where
  "depending bs d u = insert u {e \<in> existential_names bs d. u \<in> prefix_dependencies bs (explicit_dependencies d) e}"

definition computed_sets :: "configuration \<Rightarrow> block list \<Rightarrow> dqdimacs \<Rightarrow> dependency_sets" where
  "computed_sets config bs d =
     (if apply_dependency_schemes config
      then pruned (matrix d) (depending bs d) (set (universal_variables d)) (prefix_sets bs d)
      else prefix_sets bs d)"

lemma universals_before_subset: "set (universals_before bs v) \<subseteq> set (concat (blocks_of True bs))"
  by (induction bs) (auto simp: blocks_of_Cons)

lemma prefix_dependencies_universal:
  assumes "represents d bs" "formula_ok bs d"
  shows "prefix_dependencies bs (explicit_dependencies d) e \<subseteq> set (universal_variables d)"
proof (cases "map_of (explicit_dependencies d) e")
  case None
  then show ?thesis using universals_before_subset assms(1) by (simp add: prefix_dependencies_def represents_def)
next
  case (Some deps)
  then have "(e, deps) \<in> set (explicit_dependencies d)" by (rule map_of_SomeD)
  then show ?thesis using assms(2) Some by (auto simp: prefix_dependencies_def formula_ok_def)
qed

lemma extraction_sets:
  assumes d: "represents d bs" "names_distinct bs (explicit_dependencies d)" "formula_ok bs d"
    and config: "\<not> ignore_innermost_existentials config"
    and keys: "set keys = existential_names bs d" "distinct keys"
  shows "\<exists>x deps ext. getExtendedDependencies config keys (new_DependencyExtractor config d) = Some (x, deps, ext) \<and>
    matrix_data x = matrix_data (new_DependencyExtractor config d) \<and>
    (\<lambda>v. map_option set (deps v)) = computed_sets config bs d"
proof -
  let ?x = "new_DependencyExtractor config d" and ?D = "prefix_dependencies bs (explicit_dependencies d)"
  obtain x ext where run: "computeExtendedDependencies ?x = Some (x, ext)"
    and meet: "extended_dependencies_meet bs (explicit_dependencies d) (original_dependency_map x) ext"
    using computeExtendedDependencies_meets [OF d(1,2) config] by blast
  have orig: "original_dependency_map x v = None" if "v \<notin> existential_names bs d" for v
    using meet that by (simp add: extended_dependencies_meet_def existential_names_def Let_def)
  have orig_some: "\<exists>Dv. original_dependency_map x v = Some Dv \<and> strict_sorted Dv \<and> set Dv = ?D v"
    if "v \<in> existential_names bs d" for v
    using meet that unfolding extended_dependencies_meet_def existential_names_def Let_def by blast
  have sets: "map_option set (original_dependency_map x v) = prefix_sets bs d v" for v
    using orig [of v] orig_some [of v] by (auto simp: prefix_sets_def)
  have D_universal: "?D e \<subseteq> set (universal_variables d)" for e by (rule prefix_dependencies_universal [OF d(1,3)])
  note same = matrix_data_computeExtendedDependencies [OF run]
  have idx: "existential_block_idx_end ?x = int (getNofExistentialBlocks d)" "formula ?x = d" "max_variable_in_matrix ?x = max_var d"
    using config by (simp_all add: new_DependencyExtractor_def Let_def)
  note fields = matrix_data_fields [OF same, unfolded idx]
  have none: "ignored_existentials x = []" by (simp add: ignored_existentials_def fields)
  have searched: "searched_vars keys x u = depending bs d u" for u
  proof -
    have "e \<in> set keys \<and> u \<in> set (the (original_dependency_map x e)) \<longleftrightarrow> e \<in> existential_names bs d \<and> u \<in> ?D e" for e
      using orig_some [of e] keys(1) by force
    then show ?thesis by (simp add: searched_vars_def depending_def none)
  qed
  have distinct_us: "distinct (universal_variables d)" using d(1,2) by (simp add: represents_def names_distinct_def)
  have ok: "scheme_ok keys x"
    unfolding scheme_ok_def
  proof (intro conjI ballI)
    show "cnf_in_range (max_variable_in_matrix x) (matrix (formula x))"
      using d(3) unfolding fields cnf_in_range_def lit_ok_def formula_ok_def var_def by fastforce
    show "distinct (universal_variables (formula x))" using distinct_us by (simp add: fields)
    show "0 < u" "u \<le> max_variable_in_matrix x" if "u \<in> set (universal_variables (formula x))" for u
      using that d(3) by (simp_all add: fields formula_ok_def)
    show "0 < e" "e \<le> max_variable_in_matrix x" "e \<notin> set (universal_variables (formula x))"
      if "e \<in> set keys \<union> set (ignored_existentials x)" for e
      using that d(3) keys(1) by (auto simp: fields none formula_ok_def)
    show "distinct (the (original_dependency_map x e))" if "e \<in> set keys" for e
      using orig_some [of e] that keys(1) by (auto simp: strict_sorted_iff)
  qed (rule keys(2))
  show ?thesis
  proof (cases "apply_dependency_schemes config")
    case True
    obtain p where p: "applyDependencyScheme keys x = Some p"
      "\<forall>e. p e = (if e \<in> set keys then Some (filter (\<lambda>u. u \<in> set (the (original_dependency_map x e)) \<and>
          rrs_connected (matrix (formula x)) (searched_vars keys x u) u e) (universal_variables (formula x))) else None)"
      using applyDependencyScheme_spec [OF ok] by blast
    have "map_option set (p e) = computed_sets config bs d e" for e
    proof (cases "e \<in> existential_names bs d")
      case e: True
      obtain De where De: "original_dependency_map x e = Some De" "set De = ?D e" using orig_some [OF e] by blast
      have "p e = Some (filter (\<lambda>u. u \<in> ?D e \<and> rrs_connected (matrix d) (depending bs d u) u e) (universal_variables (formula x)))"
        using p(2) e keys(1) De by (simp add: fields searched)
      then have "map_option set (p e) =
          Some {u \<in> set (universal_variables d). u \<in> ?D e \<and> rrs_connected (matrix d) (depending bs d u) u e}"
        by (simp add: fields)
      also have "{u \<in> set (universal_variables d). u \<in> ?D e \<and> rrs_connected (matrix d) (depending bs d u) u e} =
          {u \<in> ?D e. u \<in> set (universal_variables d) \<longrightarrow> rrs_connected (matrix d) (depending bs d u) u e}"
        using D_universal [of e] by blast
      finally show ?thesis using True e by (simp add: computed_sets_def pruned_def prefix_sets_def)
    qed (use p(2) keys(1) True in \<open>simp add: computed_sets_def pruned_def prefix_sets_def\<close>)
    then show ?thesis using run p(1) True same
      by (intro exI [of _ x] exI [of _ p] exI [of _ ext]) (simp add: getExtendedDependencies_def fun_eq_iff)
  next
    case False
    then show ?thesis using run same sets
      by (intro exI [of _ x] exI [of _ "original_dependency_map x"] exI [of _ ext])
         (simp add: getExtendedDependencies_def computed_sets_def)
  qed
qed

lemma prefix_scheme_sound:
  assumes "formula_ok bs d"
  shows "dqbf_true (set (universal_variables d)) (prefix_sets bs d) (matrix d) \<longleftrightarrow>
    dqbf_true (set (universal_variables d)) (computed_sets config bs d) (matrix d)"
proof (cases "apply_dependency_schemes config")
  case True
  have "\<exists>us. prefix_sets bs d e = Some us \<and> u \<notin> us"
    if "e \<in> cnf_vars (matrix d) - depending bs d u - set (universal_variables d)" for e u
  proof -
    have "e \<in> existential_names bs d" using that assms by (auto simp: cnf_vars_def clause_vars_def formula_ok_def var_def)
    then show ?thesis using that by (simp add: prefix_sets_def depending_def)
  qed
  then show ?thesis unfolding computed_sets_def if_P [OF True]
    by (intro scheme_sound) (use assms in \<open>auto simp: formula_ok_def prefix_sets_def depending_def\<close>)
qed (simp add: computed_sets_def)

lemma skolem_for_computed: "skolem_for (computed_sets config bs d) f \<Longrightarrow> skolem_for (prefix_sets bs d) f"
  using skolem_for_pruned by (simp add: computed_sets_def split: if_splits)

text \<open>
  C8: Preprocessing succeeds and is sound. Let the layout of the formula represent a prefix of
  alternating blocks with distinct names, let its clauses be over the variables of the prefix and
  none of them tautological, and let no innermost block be ignored (the default). The computed
  dependencies are exactly those of the prefix, or with the dependency scheme exactly the ones
  among them that are connected by resolution paths. Skolem functions that respect the computed
  dependencies respect those of the prefix, and win the original matrix iff they win the reduced
  one. And nothing is lost: Skolem functions of the prefix win the original matrix iff Skolem
  functions of the computed dependencies win the reduced one. All variables and all outputs of
  definition circuits are bounded by the largest used variable.
\<close>

theorem preprocess_sound:
  assumes "represents d bs" "names_distinct bs (explicit_dependencies d)" "formula_ok bs d"
    and "\<not> ignore_innermost_existentials config" "extended_dependencies config"
    and "set keys = existential_names bs d" "distinct keys"
  shows "\<exists>r. preprocess config keys (new_DependencyExtractor config d) = Some r \<and>
    set (input_universal_variables r) = set (universal_variables d) \<and>
    set (input_existential_variables r) = existential_names bs d \<and>
    dependency_sets_of r = computed_sets config bs d \<and>
    (\<forall>f. skolem_for (dependency_sets_of r) f \<longrightarrow> skolem_for (prefix_sets bs d) f \<and>
       (wins (set (universal_variables d)) f (matrix d) \<longleftrightarrow> wins (set (universal_variables d)) f (input_matrix r))) \<and>
    (dqbf_true (set (universal_variables d)) (prefix_sets bs d) (matrix d) \<longleftrightarrow>
       dqbf_true (set (universal_variables d)) (dependency_sets_of r) (input_matrix r)) \<and>
    (\<forall>v\<in>set (input_universal_variables r) \<union> set (input_existential_variables r). v \<le> max_used_variable r) \<and>
    (\<forall>(v, F, circuit)\<in>set (input_definitions r). \<forall>(is, out)\<in>set circuit. \<bar>out\<bar> \<le> max_used_variable r)"
proof -
  let ?x = "new_DependencyExtractor config d" and ?U = "set (universal_variables d)"
  have x: "formula ?x = d" by (simp add: new_DependencyExtractor_def Let_def)
  obtain y deps ext where e: "getExtendedDependencies config keys ?x = Some (y, deps, ext)"
    "matrix_data y = matrix_data ?x" "(\<lambda>v. map_option set (deps v)) = computed_sets config bs d"
    using extraction_sets [OF assms(1-4,6,7)] by blast
  obtain r where r: "preprocess config keys ?x = Some r" "input_dependencies r = deps"
    "input_universal_variables r = universal_variables (formula y)"
    "set (input_existential_variables r) = set (existential_variables (formula y)) \<union> fst ` set (explicit_dependencies (formula y))"
    using e(1) assms(4,5) by (simp add: preprocess_def innermost_block_def extract_dependencies_def Let_def
        sort_existentials_def sort_range_def)
  note fields = matrix_data_fields [OF e(2), unfolded x]
  have U: "set (input_universal_variables r) = ?U" by (simp add: r(3) fields)
  have E: "set (input_existential_variables r) = existential_names bs d"
    using assms(1) by (simp add: r(4) fields existential_names_def represents_def)
  have D: "dependency_sets_of r = computed_sets config bs d" by (simp add: dependency_sets_of_def r(2) e(3))
  have dom: "computed_sets config bs d e \<noteq> None \<longleftrightarrow> e \<in> existential_names bs d" for e
    by (simp add: computed_sets_def pruned_def prefix_sets_def)
  have "reducible ?U (innermost_set r) (dependency_sets_of r) c" if "c \<in> set (matrix d)" for c
    using assms(3) that unfolding reducible_def D dom formula_ok_def by blast
  moreover have "e \<notin> ?U" if "dependency_sets_of r e \<noteq> None" for e
    using assms(3) that unfolding D dom formula_ok_def by blast
  ultimately have conditions: "\<forall>c\<in>set (matrix (formula ?x)). reducible (set (input_universal_variables r)) (innermost_set r) (dependency_sets_of r) c"
    "\<forall>e. dependency_sets_of r e \<noteq> None \<longrightarrow> e \<notin> set (input_universal_variables r)" unfolding U x by blast+
  note reduces = preprocess_reduces [OF r(1) conditions, unfolded U x]
  have "skolem_for (computed_sets config bs d) (\<lambda>e \<alpha>. False)" by (simp add: skolem_for_def)
  then have bounds: "\<forall>v\<in>?U \<union> set (input_existential_variables r). v \<le> max_used_variable r"
    "\<forall>(v, F, circuit)\<in>set (input_definitions r). \<forall>(is, out)\<in>set circuit. \<bar>out\<bar> \<le> max_used_variable r"
    using reduces unfolding D by blast+
  have keeps: "wins ?U f (matrix d) \<longleftrightarrow> wins ?U f (input_matrix r)" if "skolem_for (computed_sets config bs d) f" for f
    using reduces that unfolding D by blast
  have "dqbf_true ?U (prefix_sets bs d) (matrix d) \<longleftrightarrow> dqbf_true ?U (computed_sets config bs d) (input_matrix r)"
    unfolding prefix_scheme_sound [OF assms(3), of config] using keeps by (auto simp: dqbf_true_def)
  then show ?thesis using r(1) U E D keeps bounds skolem_for_computed by (intro exI [of _ r]) auto
qed

text \<open>Variable 3 need not see the universal 1, variable 2 has to.\<close>

definition demo_prefix :: "block list" where
  "demo_prefix = [(True, [1]), (False, [2, 3])]"

definition demo_dqdimacs :: dqdimacs where
  "demo_dqdimacs =
     \<lparr>max_var = 3, check_max_var = True, matrix = [[1, 2], [- 1, - 2], [1, 3]],
      first_block_type = True, universal_variables = [1], universal_blocks = [0, 1],
      existential_variables = [2, 3], existential_blocks = [0, 2],
      explicit_dependencies = [], definitions = [(2, [], [([1], - 4)])]\<rparr>"

lemma demo_formula_ok:
  "represents demo_dqdimacs demo_prefix" "names_distinct demo_prefix (explicit_dependencies demo_dqdimacs)"
  "formula_ok demo_prefix demo_dqdimacs" "existential_names demo_prefix demo_dqdimacs = {2, 3}"
  by (simp_all add: represents_def names_distinct_def formula_ok_def existential_names_def demo_dqdimacs_def
      demo_prefix_def blocks_of_def boundaries_def var_def)

lemma demo_connected:
  fixes K :: "int set" assumes K: "K = {1, 2, 3}"
  shows "rrs_connected (matrix demo_dqdimacs) K 1 2" "\<not> rrs_connected (matrix demo_dqdimacs) K 1 3"
proof -
  let ?F = "[[1, 2], [- 1, - 2], [1, 3]] :: cnf"
  have F: "matrix demo_dqdimacs = ?F" by (simp add: demo_dqdimacs_def)
  have "path ?F K {- 1} 1 (- 2)" by (rule path_step [where c = "[- 1, - 2]", OF path_start]) (simp_all add: K)
  moreover have "path ?F K {1} (- 1) 2" by (rule path_step [where c = "[1, 2]", OF path_start]) (simp_all add: K)
  ultimately show "rrs_connected (matrix demo_dqdimacs) K 1 2" by (simp add: rrs_connected_def F)
  have "path ?F K {- 1} s l \<Longrightarrow> s = 1 \<longrightarrow> l \<in> {1, - 2}" for s l by (induction rule: path.induct) auto
  from this [of 1 3] this [of 1 "- 3"]
  show "\<not> rrs_connected (matrix demo_dqdimacs) K 1 3" by (auto simp: rrs_connected_def F)
qed

theorem preprocess_sound_witness:
  "\<exists>r. preprocess default_configuration [2, 3] (new_DependencyExtractor default_configuration demo_dqdimacs) = Some r \<and>
     dependency_sets_of r 2 = Some {1} \<and> dependency_sets_of r 3 = Some {} \<and>
     dqbf_true {1} (dependency_sets_of r) (input_matrix r)"
proof -
  have "\<not> ignore_innermost_existentials default_configuration" "extended_dependencies default_configuration"
    by (simp_all add: default_configuration_def)
  moreover have "set [2, 3] = existential_names demo_prefix demo_dqdimacs" "distinct [2, 3 :: int]"
    by (simp_all add: demo_formula_ok)
  moreover have U: "set (universal_variables demo_dqdimacs) = {1}" by (simp add: demo_dqdimacs_def)
  ultimately obtain r where r: "preprocess default_configuration [2, 3] (new_DependencyExtractor default_configuration demo_dqdimacs) = Some r"
    "dependency_sets_of r = computed_sets default_configuration demo_prefix demo_dqdimacs"
    "dqbf_true {1} (prefix_sets demo_prefix demo_dqdimacs) (matrix demo_dqdimacs) \<longleftrightarrow>
       dqbf_true {1} (dependency_sets_of r) (input_matrix r)"
    using preprocess_sound [OF demo_formula_ok(1-3), of default_configuration "[2, 3]"] by auto
  have D: "prefix_dependencies demo_prefix (explicit_dependencies demo_dqdimacs) 2 = {1}"
    "prefix_dependencies demo_prefix (explicit_dependencies demo_dqdimacs) 3 = {1}"
    by (simp_all add: prefix_dependencies_def demo_prefix_def demo_dqdimacs_def)
  have "depending demo_prefix demo_dqdimacs 1 = {1, 2, 3}" using D by (auto simp: depending_def demo_formula_ok(4))
  from demo_connected [OF this]
  have "computed_sets default_configuration demo_prefix demo_dqdimacs 2 = Some {1}"
    "computed_sets default_configuration demo_prefix demo_dqdimacs 3 = Some {}"
    by (auto simp: computed_sets_def default_configuration_def pruned_def prefix_sets_def demo_formula_ok(4) D U)
  moreover have "dqbf_true {1} (prefix_sets demo_prefix demo_dqdimacs) (matrix demo_dqdimacs)"
    unfolding dqbf_true_def
  proof (intro exI conjI)
    let ?f = "\<lambda>e \<alpha>. if e = (2 :: int) then \<not> \<alpha> (1 :: int) else e = 3"
    show "skolem_for (prefix_sets demo_prefix demo_dqdimacs) ?f"
      using D by (auto simp: skolem_for_def prefix_sets_def demo_formula_ok(4) split: if_splits)
    show "wins {1} ?f (matrix demo_dqdimacs)" by (simp add: wins_def play_def demo_dqdimacs_def lit_true_def)
  qed
  ultimately show ?thesis using r by auto
qed

text \<open>
  What pruning may lose are single strategies: the negation of the universal wins the clause
  \<open>1 \<or> 2\<close>, the reduced clause is only won by a constant.
\<close>

lemma pruned_strategy_lost:
  "wins {1} (\<lambda>e \<alpha>. \<not> \<alpha> 1) [[1, 2]] \<and> \<not> skolem_for [2 \<mapsto> {}] (\<lambda>e \<alpha>. \<not> \<alpha> 1) \<and>
   applyForallReduction [1, 2] {1} {} [2 \<mapsto> {}] = (1, [2])"
  by (auto simp: wins_def play_def lit_true_def skolem_for_def applyForallReduction_def restrictTo_def var_def
      intro: exI [of _ "\<lambda>_. True"] exI [of _ "\<lambda>_. False"])

end
