(* ===== verification/Disjunction.thy ===== *)
theory Disjunction
  imports Prelude
begin

text \<open>
  \<open>src/disjunction.h\<close>: growing disjunctions in an incremental solver. A disjunction object holds
  the position of its terminal literal in a vector it shares with other disjunctions, as it
  shares the variable counter; both are passed explicitly. The lemmas follow several
  disjunctions that grow in any order while other code takes variables in between.
\<close>

section \<open>One disjunction\<close>

record disjunction =
  terminal_index :: int

definition new_Disjunction :: disjunction where
  "new_Disjunction = \<lparr>terminal_index = - 1\<rparr>"

definition createDisjunct ::
  "clause \<Rightarrow> disjunction \<Rightarrow> int \<Rightarrow> int list \<Rightarrow> clause \<times> disjunction \<times> int \<times> int list" where
  "createDisjunct clause d last_used_variable terminals =
     (let (start, d1, terminals1) =
            (if terminal_index d = - 1
             then ([], d\<lparr>terminal_index := int (length terminals)\<rparr>, terminals @ [0])
             else ([terminals ! nat (terminal_index d)], d, terminals));
          new_terminal = last_used_variable + 1
      in (start @ clause @ [new_terminal], d1, new_terminal,
          terminals1[nat (terminal_index d1) := - new_terminal]))"

section \<open>A bank of disjunctions\<close>

text \<open>
  The objects of one solver, by number, with the shared counter and the shared terminals. An
  event is a variable taken by other code or one more disjunct for a disjunction.
\<close>

record bank =
  last_variable :: int
  terminals :: "int list"
  disjunctions :: "nat \<Rightarrow> disjunction"

datatype event = Take_Variable | Grow nat clause

fun bank_step :: "event \<Rightarrow> cnf \<times> bank \<Rightarrow> cnf \<times> bank" where
  "bank_step Take_Variable (F, b) = (F, b\<lparr>last_variable := last_variable b + 1\<rparr>)"
| "bank_step (Grow k c) (F, b) =
     (let (c', d, n, ts) = createDisjunct c (disjunctions b k) (last_variable b) (terminals b)
      in (F @ [c'], b\<lparr>last_variable := n, terminals := ts, disjunctions := (disjunctions b)(k := d)\<rparr>))"

definition new_bank :: "int \<Rightarrow> int list \<Rightarrow> bank" where
  "new_bank n ts = \<lparr>last_variable = n, terminals = ts, disjunctions = \<lambda>_. new_Disjunction\<rparr>"

definition run_events :: "event list \<Rightarrow> bank \<Rightarrow> cnf \<times> bank" where
  "run_events es b = fold bank_step es ([], b)"

fun disjuncts :: "nat \<Rightarrow> event list \<Rightarrow> clause list" where
  "disjuncts k [] = []"
| "disjuncts k (Take_Variable # es) = disjuncts k es"
| "disjuncts k (Grow j c # es) = (if j = k then [c] else []) @ disjuncts k es"

fun terminal_variables :: "int \<Rightarrow> event list \<Rightarrow> int set" where
  "terminal_variables n [] = {}"
| "terminal_variables n (Take_Variable # es) = terminal_variables (n + 1) es"
| "terminal_variables n (Grow k c # es) = insert (n + 1) (terminal_variables (n + 1) es)"

lemma disjuncts_append [simp]: "disjuncts k (es @ fs) = disjuncts k es @ disjuncts k fs"
  by (induction k es rule: disjuncts.induct) auto

lemma terminal_variables_append:
  "terminal_variables n (es @ fs) =
     terminal_variables n es \<union> terminal_variables (n + int (length es)) fs"
  by (induction n es rule: terminal_variables.induct) (auto simp: algebra_simps)

section \<open>The invariant\<close>

definition terminal :: "bank \<Rightarrow> nat \<Rightarrow> int" where
  "terminal b k = - (terminals b ! nat (terminal_index (disjunctions b k)))"

definition in_use :: "bank \<Rightarrow> nat \<Rightarrow> bool" where
  "in_use b k \<longleftrightarrow> terminal_index (disjunctions b k) \<noteq> - 1"

definition slot_ok :: "nat \<Rightarrow> int set \<Rightarrow> bank \<Rightarrow> nat \<Rightarrow> bool" where
  "slot_ok m T b k \<longleftrightarrow> int m \<le> terminal_index (disjunctions b k) \<and>
     terminal_index (disjunctions b k) < int (length (terminals b)) \<and>
     0 < terminal b k \<and> terminal b k \<le> last_variable b \<and> terminal b k \<in> T"

definition apart :: "bank \<Rightarrow> nat \<Rightarrow> nat \<Rightarrow> bool" where
  "apart b j k \<longleftrightarrow> terminal_index (disjunctions b j) \<noteq> terminal_index (disjunctions b k) \<and>
     terminal b j \<noteq> terminal b k"

definition owned :: "bank \<Rightarrow> nat \<Rightarrow> bool" where
  "owned b i \<longleftrightarrow> (\<exists>k. in_use b k \<and> terminal_index (disjunctions b k) = int i)"

definition placed :: "nat \<Rightarrow> int set \<Rightarrow> bank \<Rightarrow> bool" where
  "placed m T b \<longleftrightarrow> 0 \<le> last_variable b \<and> m \<le> length (terminals b) \<and>
     (\<forall>k. in_use b k \<longrightarrow> slot_ok m T b k) \<and>
     (\<forall>j k. in_use b j \<and> in_use b k \<and> j \<noteq> k \<longrightarrow> apart b j k) \<and>
     (\<forall>i. m \<le> i \<and> i < length (terminals b) \<longrightarrow> owned b i)"

lemma placedD:
  assumes "placed m T b"
  shows "0 \<le> last_variable b" "m \<le> length (terminals b)" "in_use b k \<Longrightarrow> slot_ok m T b k"
    and "in_use b j \<Longrightarrow> in_use b k \<Longrightarrow> j \<noteq> k \<Longrightarrow> apart b j k"
    and "m \<le> i \<Longrightarrow> i < length (terminals b) \<Longrightarrow> owned b i"
  using assms by (simp_all add: placed_def)

lemma createDisjunct_cases:
  assumes "placed m T b"
  defines "n \<equiv> last_variable b + 1"
  shows "\<not> in_use b k \<Longrightarrow> bank_step (Grow k c) (F, b) =
      (F @ [c @ [n]], b\<lparr>last_variable := n, terminals := terminals b @ [- n],
        disjunctions := (disjunctions b)(k := (disjunctions b k)\<lparr>terminal_index := int (length (terminals b))\<rparr>)\<rparr>)"
    and "in_use b k \<Longrightarrow> bank_step (Grow k c) (F, b) =
      (F @ [[- terminal b k] @ c @ [n]], b\<lparr>last_variable := n,
        terminals := (terminals b)[nat (terminal_index (disjunctions b k)) := - n]\<rparr>)"
  by (simp_all add: createDisjunct_def in_use_def terminal_def n_def Let_def)

lemma placed_step:
  assumes p: "placed m T b" and n: "last_variable b + 1 \<in> T"
    and step: "bank_step (Grow k c) (F, b) = (F', b')"
  shows "placed m T b' \<and> in_use b' k \<and> terminal b' k = last_variable b + 1 \<and>
    last_variable b' = last_variable b + 1 \<and>
    (\<forall>j. j \<noteq> k \<longrightarrow> in_use b' j = in_use b j \<and> (in_use b j \<longrightarrow> terminal b' j = terminal b j)) \<and>
    F' = F @ [(if in_use b k then [- terminal b k] else []) @ c @ [last_variable b + 1]]"
proof (cases "in_use b k")
  case False
  note eq = step [unfolded createDisjunct_cases(1) [OF p False], symmetric, simplified]
  have use: "in_use b' j \<longleftrightarrow> j = k \<or> in_use b j" for j using eq by (auto simp: in_use_def)
  have idx: "terminal_index (disjunctions b' j) =
      (if j = k then int (length (terminals b)) else terminal_index (disjunctions b j))" for j
    using eq by simp
  have len: "length (terminals b') = length (terminals b) + 1" "last_variable b' = last_variable b + 1"
    using eq by simp_all
  have ter: "terminal b' j = (if j = k then last_variable b + 1 else terminal b j)" if "in_use b' j" for j
  proof (cases "j = k")
    case True
    then show ?thesis using eq by (simp add: terminal_def)
  next
    case ne: False
    then have "slot_ok m T b j" using use that placedD(3) [OF p] by simp
    then have "nat (terminal_index (disjunctions b j)) < length (terminals b)"
      unfolding slot_ok_def by linarith
    then show ?thesis using ne eq by (simp add: terminal_def nth_append)
  qed
  have old: "j \<noteq> k \<Longrightarrow> in_use b' j \<Longrightarrow> slot_ok m T b j" for j using use placedD(3) [OF p] by simp
  have slot: "slot_ok m T b' j" if "in_use b' j" for j
  proof (cases "j = k")
    case True
    then show ?thesis using n that placedD(1,2) [OF p] by (simp add: slot_ok_def idx len ter)
  next
    case ne: False
    then show ?thesis using old [OF ne that] that by (simp add: slot_ok_def idx len ter)
  qed
  have "apart b' i j" if "in_use b' i" "in_use b' j" and ne: "i \<noteq> j" for i j
  proof -
    consider "i = k" "j \<noteq> k" | "i \<noteq> k" "j = k" | "i \<noteq> k" "j \<noteq> k" using ne by blast
    then show ?thesis
    proof cases
      case 1
      then show ?thesis using old [OF _ that(2)] that ne by (simp add: apart_def slot_ok_def idx ter)
    next
      case 2
      then show ?thesis using old [OF _ that(1)] that ne by (simp add: apart_def slot_ok_def idx ter)
    next
      case 3
      then have "apart b i j" using placedD(4) [OF p] that ne use by blast
      then show ?thesis using 3 that by (simp add: apart_def idx ter)
    qed
  qed
  moreover have "owned b' i" if low: "m \<le> i" and up: "i < length (terminals b')" for i
  proof (cases "i = length (terminals b)")
    case True
    then show ?thesis using use idx by (auto simp: owned_def)
  next
    case ne: False
    then obtain j where "in_use b j" "terminal_index (disjunctions b j) = int i"
      using placedD(5) [OF p low] up len by (auto simp: owned_def)
    then show ?thesis using use idx False unfolding owned_def by metis
  qed
  ultimately have "placed m T b'" using slot placedD(1,2) [OF p] len by (simp add: placed_def)
  then show ?thesis using use ter len False eq by auto
next
  case True
  note eq = step [unfolded createDisjunct_cases(2) [OF p True], symmetric, simplified]
  have use: "in_use b' j \<longleftrightarrow> in_use b j" for j using eq by (auto simp: in_use_def)
  have idx: "terminal_index (disjunctions b' j) = terminal_index (disjunctions b j)" for j
    using eq by simp
  have ter: "terminal b' j = (if j = k then last_variable b + 1 else terminal b j)" if "in_use b j" for j
  proof -
    have "0 \<le> terminal_index (disjunctions b j)" "0 \<le> terminal_index (disjunctions b k)"
      "nat (terminal_index (disjunctions b k)) < length (terminals b)"
      using placedD(3) [OF p that] placedD(3) [OF p True] unfolding slot_ok_def by linarith+
    moreover have "j \<noteq> k \<Longrightarrow> terminal_index (disjunctions b j) \<noteq> terminal_index (disjunctions b k)"
      using placedD(4) [OF p that True] by (simp add: apart_def)
    ultimately show ?thesis using eq by (auto simp: terminal_def nth_list_update eq_nat_nat_iff)
  qed
  have len: "length (terminals b') = length (terminals b)" "last_variable b' = last_variable b + 1"
    using eq by simp_all
  have slot: "slot_ok m T b' j" if "in_use b' j" for j
    using placedD(3) [OF p, of j] placedD(1) [OF p] n that use by (simp add: slot_ok_def idx len ter)
  have "apart b' i j" if "in_use b' i" "in_use b' j" "i \<noteq> j" for i j
    using placedD(4) [OF p, of i j] placedD(3) [OF p, of i] placedD(3) [OF p, of j] that use
    by (auto simp: apart_def slot_ok_def idx ter)
  moreover have "owned b' i" if "m \<le> i" "i < length (terminals b')" for i
    using placedD(5) [OF p that(1)] that(2) len use idx by (simp add: owned_def)
  ultimately have "placed m T b'" using slot placedD(1,2) [OF p] len by (simp add: placed_def)
  then show ?thesis using use ter len True eq by auto
qed

text \<open>
  What the clauses of the bank mean: a disjunction in use holds one of its disjuncts unless its
  terminal is true, and every assignment of the other variables extends to one that satisfies
  the clauses and whose terminals are true only where no disjunct is.
\<close>

definition faithful :: "int set \<Rightarrow> event list \<Rightarrow> cnf \<Rightarrow> bank \<Rightarrow> bool" where
  "faithful T es F b \<longleftrightarrow>
     (\<forall>k. in_use b k \<longleftrightarrow> disjuncts k es \<noteq> []) \<and>
     (\<forall>v\<in>cnf_vars F. v \<in> T \<longrightarrow> v \<le> last_variable b) \<and>
     (\<forall>\<sigma> k. cnf_sat \<sigma> F \<and> in_use b k \<longrightarrow>
        (\<exists>c\<in>set (disjuncts k es). clause_sat \<sigma> c) \<or> \<sigma> (terminal b k)) \<and>
     (\<forall>\<tau>. \<exists>\<sigma>. (\<forall>v. v \<notin> T \<longrightarrow> \<sigma> v = \<tau> v) \<and> cnf_sat \<sigma> F \<and>
        (\<forall>k. in_use b k \<longrightarrow> \<sigma> (terminal b k) = (\<not> (\<exists>c\<in>set (disjuncts k es). clause_sat \<tau> c))))"

lemma faithfulD:
  assumes "faithful T es F b"
  shows "in_use b k \<longleftrightarrow> disjuncts k es \<noteq> []"
    and "v \<in> cnf_vars F \<Longrightarrow> v \<in> T \<Longrightarrow> v \<le> last_variable b"
    and "cnf_sat \<sigma> F \<Longrightarrow> in_use b k \<Longrightarrow>
      (\<exists>c\<in>set (disjuncts k es). clause_sat \<sigma> c) \<or> \<sigma> (terminal b k)"
    and "\<exists>\<sigma>. (\<forall>v. v \<notin> T \<longrightarrow> \<sigma> v = \<tau> v) \<and> cnf_sat \<sigma> F \<and>
      (\<forall>k. in_use b k \<longrightarrow> \<sigma> (terminal b k) = (\<not> (\<exists>c\<in>set (disjuncts k es). clause_sat \<tau> c)))"
proof -
  note f = assms [unfolded faithful_def]
  show "in_use b k \<longleftrightarrow> disjuncts k es \<noteq> []" using f by (elim conjE) (erule spec)
  show "v \<in> cnf_vars F \<Longrightarrow> v \<in> T \<Longrightarrow> v \<le> last_variable b"
    using f [THEN conjunct2, THEN conjunct1] by simp
  show "cnf_sat \<sigma> F \<Longrightarrow> in_use b k \<Longrightarrow>
      (\<exists>c\<in>set (disjuncts k es). clause_sat \<sigma> c) \<or> \<sigma> (terminal b k)"
    using f [THEN conjunct2, THEN conjunct2, THEN conjunct1, rule_format, of \<sigma> k] by blast
  show "\<exists>\<sigma>. (\<forall>v. v \<notin> T \<longrightarrow> \<sigma> v = \<tau> v) \<and> cnf_sat \<sigma> F \<and>
      (\<forall>k. in_use b k \<longrightarrow> \<sigma> (terminal b k) = (\<not> (\<exists>c\<in>set (disjuncts k es). clause_sat \<tau> c)))"
    using f [THEN conjunct2, THEN conjunct2, THEN conjunct2] by (rule spec)
qed

lemma faithful_step:
  assumes p: "placed m T b" and f: "faithful T es F b" and n: "last_variable b + 1 \<in> T"
    and c: "clause_vars c \<inter> T = {}"
    and step: "bank_step (Grow k c) (F, b) = (F', b')"
  shows "faithful T (es @ [Grow k c]) F' b'"
proof -
  let ?n = "last_variable b + 1"
  define start where "start = (if in_use b k then [- terminal b k] else [])"
  from placed_step [OF p n step] have p': "placed m T b'" and use: "in_use b' k"
    "\<And>j. j \<noteq> k \<Longrightarrow> in_use b' j = in_use b j" and ter: "terminal b' k = ?n"
    "\<And>j. j \<noteq> k \<Longrightarrow> in_use b j \<Longrightarrow> terminal b' j = terminal b j"
    and last: "last_variable b' = ?n" and F': "F' = F @ [start @ c @ [?n]]" by (auto simp: start_def)
  have pos: "0 < ?n" using placedD(1) [OF p] by simp
  note f1 = faithfulD(1) [OF f] and f2 = faithfulD(2) [OF f] and f3 = faithfulD(3) [OF f]
    and f4 = faithfulD(4) [OF f]
  have slot: "in_use b j \<Longrightarrow> 0 < terminal b j \<and> terminal b j \<le> last_variable b" for j
    using placedD(3) [OF p, of j] by (simp add: slot_ok_def)
  have "in_use b' j \<longleftrightarrow> disjuncts j (es @ [Grow k c]) \<noteq> []" for j
    using use f1 by (cases "j = k") simp_all
  moreover have "v \<le> last_variable b'" if v: "v \<in> cnf_vars F'" "v \<in> T" for v
  proof -
    consider "v \<in> cnf_vars F" | "v \<in> clause_vars start" | "v \<in> clause_vars c" | "v = ?n"
      using v(1) pos unfolding F' by auto
    then show ?thesis
    proof cases
      case 2
      then show ?thesis using slot [of k] last by (auto simp: start_def split: if_splits)
    qed (use f2 [OF _ v(2)] c v(2) last in auto)
  qed
  moreover have "(\<exists>c\<in>set (disjuncts j (es @ [Grow k c])). clause_sat \<sigma> c) \<or> \<sigma> (terminal b' j)"
    if "cnf_sat \<sigma> F'" "in_use b' j" for \<sigma> j
  proof (cases "j = k")
    case True
    then show ?thesis using that(1) f3 [of \<sigma> k] slot [of k] pos
      by (auto simp: F' start_def ter lit_true_pos split: if_splits)
  next
    case False
    then show ?thesis using f3 [of \<sigma> j] that use ter by (simp add: F')
  qed
  moreover have "\<exists>\<sigma>. (\<forall>v. v \<notin> T \<longrightarrow> \<sigma> v = \<tau> v) \<and> cnf_sat \<sigma> F' \<and>
      (\<forall>j. in_use b' j \<longrightarrow> \<sigma> (terminal b' j) =
        (\<not> (\<exists>c\<in>set (disjuncts j (es @ [Grow k c])). clause_sat \<tau> c)))" for \<tau>
  proof -
    obtain \<sigma> where s: "\<And>v. v \<notin> T \<Longrightarrow> \<sigma> v = \<tau> v" "cnf_sat \<sigma> F"
      "\<And>j. in_use b j \<Longrightarrow> \<sigma> (terminal b j) = (\<not> (\<exists>c\<in>set (disjuncts j es). clause_sat \<tau> c))"
      using f4 [of \<tau>] by blast
    define \<sigma>' where "\<sigma>' = \<sigma>(?n := \<not> (\<exists>d\<in>set (disjuncts k (es @ [Grow k c])). clause_sat \<tau> d))"
    have fresh: "?n \<notin> cnf_vars F" using f2 [of ?n] n by auto
    have "cnf_sat \<sigma>' F = cnf_sat \<sigma> F"
      by (rule cnf_sat_cong) (use fresh in \<open>auto simp: \<sigma>'_def\<close>)
    then have "cnf_sat \<sigma>' F" using s(2) by blast
    moreover have same: "\<sigma>' (terminal b j) = \<sigma> (terminal b j)" if "in_use b j" for j
      using slot [OF that] by (simp add: \<sigma>'_def)
    moreover have "clause_sat \<sigma>' c = clause_sat \<tau> c"
      using c n s(1) by (intro clause_sat_cong) (auto simp: \<sigma>'_def)
    moreover have "clause_sat \<sigma>' (start @ c @ [?n])"
      using calculation s(3) [of k] slot [of k] pos
      by (auto simp: start_def \<sigma>'_def lit_true_pos f1 split: if_splits)
    ultimately have "cnf_sat \<sigma>' F'" by (simp add: F')
    moreover have "\<forall>v. v \<notin> T \<longrightarrow> \<sigma>' v = \<tau> v" using s(1) n by (auto simp: \<sigma>'_def)
    moreover have "\<sigma>' (terminal b' j) = (\<not> (\<exists>c\<in>set (disjuncts j (es @ [Grow k c])). clause_sat \<tau> c))"
      if "in_use b' j" for j
    proof (cases "j = k")
      case True
      then show ?thesis by (simp add: ter \<sigma>'_def)
    next
      case False
      then show ?thesis using that use ter same s(3) by simp
    qed
    ultimately show ?thesis by blast
  qed
  ultimately show ?thesis unfolding faithful_def by blast
qed

lemma run_events_snoc: "run_events (es @ [e]) b = bank_step e (run_events es b)"
  by (simp add: run_events_def)

lemma bank_step_last: "bank_step e (F, b) = (F', b') \<Longrightarrow> last_variable b' = last_variable b + 1"
  by (cases e) (auto simp: createDisjunct_def Let_def split: if_splits)

lemma run_events_last: "run_events es b = (F', b') \<Longrightarrow> last_variable b' = last_variable b + int (length es)"
proof (induction es arbitrary: F' b' rule: rev_induct)
  case (snoc e es)
  obtain F1 b1 where 1: "run_events es b = (F1, b1)" by fastforce
  then have "bank_step e (F1, b1) = (F', b')" using snoc.prems by (simp add: run_events_snoc)
  then show ?case using snoc.IH [OF 1] bank_step_last by force
qed (simp add: run_events_def)

lemma take_variable:
  assumes "placed m T b" "faithful T es F b"
  shows "placed m T (b\<lparr>last_variable := last_variable b + 1\<rparr>) \<and>
    faithful T (es @ [Take_Variable]) F (b\<lparr>last_variable := last_variable b + 1\<rparr>)"
proof -
  let ?b = "b\<lparr>last_variable := last_variable b + 1\<rparr>"
  have same: "in_use ?b = in_use b" "terminal ?b = terminal b" "apart ?b = apart b" "owned ?b = owned b"
    by (simp_all add: fun_eq_iff in_use_def terminal_def apart_def owned_def)
  have "slot_ok m T b k \<Longrightarrow> slot_ok m T ?b k" for k by (simp add: slot_ok_def same)
  then have "placed m T ?b" using assms(1) by (simp add: placed_def same)
  moreover have dis: "disjuncts k (es @ [Take_Variable]) = disjuncts k es" for k by simp
  moreover have "\<forall>v\<in>cnf_vars F. v \<in> T \<longrightarrow> v \<le> last_variable ?b"
    using faithfulD(2) [OF assms(2)] by force
  ultimately show ?thesis using assms(2) unfolding faithful_def same dis by blast
qed

lemma run_events_invariant:
  assumes "0 \<le> n" "terminal_variables n es \<subseteq> T" "\<forall>k. \<forall>c\<in>set (disjuncts k es). clause_vars c \<inter> T = {}"
    and "run_events es (new_bank n ts) = (F, b)"
  shows "placed (length ts) T b \<and> faithful T es F b"
  using assms(2-4)
proof (induction es arbitrary: F b rule: rev_induct)
  case Nil
  then have "F = []" "b = new_bank n ts" by (simp_all add: run_events_def)
  then show ?case using assms(1)
    by (auto simp: placed_def faithful_def new_bank_def in_use_def new_Disjunction_def)
next
  case (snoc e es)
  obtain F1 b1 where 1: "run_events es (new_bank n ts) = (F1, b1)" by fastforce
  have IH: "placed (length ts) T b1" "faithful T es F1 b1"
    using snoc.IH [OF _ _ 1] snoc.prems(1,2) by (auto simp: terminal_variables_append)
  have step: "bank_step e (F1, b1) = (F, b)" using snoc.prems(3) 1 by (simp add: run_events_snoc)
  show ?case
  proof (cases e)
    case Take_Variable
    then have "F = F1" "b = b1\<lparr>last_variable := last_variable b1 + 1\<rparr>" using step by simp_all
    then show ?thesis using IH take_variable [of "length ts" T b1 es F1] by (simp add: Take_Variable)
  next
    case (Grow k c)
    have "last_variable b1 = n + int (length es)" using run_events_last [OF 1] by (simp add: new_bank_def)
    then have n: "last_variable b1 + 1 \<in> T" using snoc.prems(1) Grow by (simp add: terminal_variables_append)
    have c: "clause_vars c \<inter> T = {}" using snoc.prems(2) Grow by force
    show ?thesis
      using placed_step [OF IH(1) n step [unfolded Grow]] faithful_step [OF IH n c step [unfolded Grow]]
      by (simp add: Grow)
  qed
qed

text \<open>C14: Growing disjunctions mean what they say. Whatever the order in which several
  disjunctions of a solver grow while other code takes variables in between, assuming the
  terminals pushed since the start is satisfiable over an assignment of the other variables
  exactly when every disjunction has a disjunct the assignment satisfies, and without the
  terminals the clauses restrict nothing.\<close>

theorem growing_disjunctions_exact:
  assumes "0 \<le> n" "\<forall>k. \<forall>c\<in>set (disjuncts k es). clause_vars c \<inter> terminal_variables n es = {}"
    and "run_events es (new_bank n ts) = (F, b)"
  shows "((\<exists>\<sigma>. (\<forall>v. v \<notin> terminal_variables n es \<longrightarrow> \<sigma> v = \<tau> v) \<and> cnf_sat \<sigma> F \<and>
            (\<forall>l\<in>set (drop (length ts) (terminals b)). lit_true \<sigma> l)) \<longleftrightarrow>
          (\<forall>k. disjuncts k es \<noteq> [] \<longrightarrow> (\<exists>c\<in>set (disjuncts k es). clause_sat \<tau> c))) \<and>
         (\<exists>\<sigma>. (\<forall>v. v \<notin> terminal_variables n es \<longrightarrow> \<sigma> v = \<tau> v) \<and> cnf_sat \<sigma> F)"
proof -
  let ?T = "terminal_variables n es"
  have p: "placed (length ts) ?T b" and f: "faithful ?T es F b"
    using run_events_invariant [OF assms(1) order_refl assms(2,3)] by simp_all
  note f1 = faithfulD(1) [OF f]
  have lits: "(\<forall>l\<in>set (drop (length ts) (terminals b)). lit_true \<sigma> l) \<longleftrightarrow>
      (\<forall>k. in_use b k \<longrightarrow> \<not> \<sigma> (terminal b k))" for \<sigma>
  proof -
    have "set (drop (length ts) (terminals b)) = {- terminal b k |k. in_use b k}"
    proof (intro equalityI subsetI)
      fix l assume "l \<in> set (drop (length ts) (terminals b))"
      then obtain i where "i < length (terminals b)" "length ts \<le> i" "l = terminals b ! i"
        by (auto simp: in_set_conv_nth) (metis add.commute le_add1 less_diff_conv)
      moreover obtain k where "in_use b k" "terminal_index (disjunctions b k) = int i"
        using placedD(5) [OF p calculation(2,1)] by (auto simp: owned_def)
      ultimately show "l \<in> {- terminal b k |k. in_use b k}" by (force simp: terminal_def)
    next
      fix l assume "l \<in> {- terminal b k |k. in_use b k}"
      then obtain k where k: "in_use b k" "l = - terminal b k" by blast
      let ?i = "nat (terminal_index (disjunctions b k))"
      have "length ts \<le> ?i" "?i < length (terminals b)"
        using placedD(3) [OF p k(1)] by (simp_all add: slot_ok_def) linarith+
      then show "l \<in> set (drop (length ts) (terminals b))"
        unfolding k(2) terminal_def by (auto simp: in_set_conv_nth intro!: exI [of _ "?i - length ts"])
    qed
    moreover have "in_use b k \<Longrightarrow> lit_true \<sigma> (- terminal b k) = (\<not> \<sigma> (terminal b k))" for k
      using placedD(3) [OF p] by (simp add: slot_ok_def)
    ultimately show ?thesis by auto
  qed
  obtain \<sigma> where s: "\<forall>v. v \<notin> ?T \<longrightarrow> \<sigma> v = \<tau> v" "cnf_sat \<sigma> F"
    "\<forall>k. in_use b k \<longrightarrow> \<sigma> (terminal b k) = (\<not> (\<exists>c\<in>set (disjuncts k es). clause_sat \<tau> c))"
    using faithfulD(4) [OF f, of \<tau>] by (elim exE conjE)
  then have free: "\<exists>\<sigma>. (\<forall>v. v \<notin> ?T \<longrightarrow> \<sigma> v = \<tau> v) \<and> cnf_sat \<sigma> F" by blast
  have some: "\<exists>c\<in>set (disjuncts k es). clause_sat \<tau> c"
    if r: "\<forall>v. v \<notin> ?T \<longrightarrow> \<rho> v = \<tau> v" "cnf_sat \<rho> F" "\<forall>k. in_use b k \<longrightarrow> \<not> \<rho> (terminal b k)"
      and k: "in_use b k" for \<rho> k
  proof -
    obtain c where c: "c \<in> set (disjuncts k es)" "clause_sat \<rho> c"
      using faithfulD(3) [OF f r(2) k] r(3) k by blast
    moreover have "clause_sat \<rho> c = clause_sat \<tau> c"
      by (rule clause_sat_cong) (use assms(2) r(1) c(1) in blast)
    ultimately show ?thesis by blast
  qed
  show ?thesis unfolding lits f1 [symmetric]
  proof (intro conjI iffI allI impI)
    fix k
    assume "\<exists>\<sigma>. (\<forall>v. v \<notin> ?T \<longrightarrow> \<sigma> v = \<tau> v) \<and> cnf_sat \<sigma> F \<and> (\<forall>k. in_use b k \<longrightarrow> \<not> \<sigma> (terminal b k))"
      "in_use b k"
    then show "\<exists>c\<in>set (disjuncts k es). clause_sat \<tau> c" using some by (elim exE conjE)
  next
    assume "\<forall>k. in_use b k \<longrightarrow> (\<exists>c\<in>set (disjuncts k es). clause_sat \<tau> c)"
    then show "\<exists>\<sigma>. (\<forall>v. v \<notin> ?T \<longrightarrow> \<sigma> v = \<tau> v) \<and> cnf_sat \<sigma> F \<and> (\<forall>k. in_use b k \<longrightarrow> \<not> \<sigma> (terminal b k))"
      using s by (intro exI [of _ \<sigma>]) simp
  qed (rule free)
qed

definition demo_events :: "event list" where
  "demo_events = [Grow 0 [1], Take_Variable, Grow 1 [2], Grow 0 [- 2]]"

lemma demo_disjuncts: "disjuncts k demo_events = (if k = 0 then [[1], [- 2]] else if k = 1 then [[2]] else [])"
  by (simp add: demo_events_def)

lemma demo_terminal_variables: "terminal_variables 2 demo_events = {3, 5, 6}"
  by (simp add: demo_events_def)

lemma growing_disjunctions_exact_witness:
  "(\<exists>\<sigma>. \<sigma> 1 \<and> \<sigma> 2 \<and> cnf_sat \<sigma> (fst (run_events demo_events (new_bank 2 [])))) \<and>
   \<not> (\<exists>\<sigma>. (\<forall>v. v \<notin> {3, 5, 6} \<longrightarrow> \<sigma> v = (v = 2)) \<and>
      cnf_sat \<sigma> (fst (run_events demo_events (new_bank 2 []))) \<and>
      (\<forall>l\<in>set (terminals (snd (run_events demo_events (new_bank 2 [])))). lit_true \<sigma> l))"
proof -
  have c: "\<forall>k. \<forall>c\<in>set (disjuncts k demo_events). clause_vars c \<inter> terminal_variables 2 demo_events = {}"
    by (simp add: demo_disjuncts demo_terminal_variables)
  let ?r = "run_events demo_events (new_bank 2 [])"
  note exact = growing_disjunctions_exact [OF _ c prod.collapse [symmetric], unfolded demo_terminal_variables]
  have "\<exists>\<sigma>. (\<forall>v. v \<notin> {3, 5, 6} \<longrightarrow> \<sigma> v = True) \<and> cnf_sat \<sigma> (fst ?r)"
    by (rule exact [THEN conjunct2]) simp
  then obtain \<sigma> where "\<forall>v. v \<notin> {3, 5, 6} \<longrightarrow> \<sigma> v = True" "cnf_sat \<sigma> (fst ?r)" by blast
  then have "\<sigma> 1 \<and> \<sigma> 2 \<and> cnf_sat \<sigma> (fst ?r)" by simp
  moreover have "(\<exists>\<sigma>. (\<forall>v. v \<notin> {3, 5, 6} \<longrightarrow> \<sigma> v = (v = 2)) \<and> cnf_sat \<sigma> (fst ?r) \<and>
      (\<forall>l\<in>set (drop (length ([] :: int list)) (terminals (snd ?r))). lit_true \<sigma> l)) \<longleftrightarrow>
      (\<forall>k. disjuncts k demo_events \<noteq> [] \<longrightarrow>
        (\<exists>c\<in>set (disjuncts k demo_events). clause_sat (\<lambda>v. v = 2) c))"
    by (rule exact [THEN conjunct1]) simp
  moreover have "disjuncts 0 demo_events = [[1], [- 2]]" by (simp add: demo_disjuncts)
  then have "\<not> (\<forall>k. disjuncts k demo_events \<noteq> [] \<longrightarrow>
      (\<exists>c\<in>set (disjuncts k demo_events). clause_sat (\<lambda>v. v = 2) c))"
    unfolding not_all by (intro exI [of _ 0]) (simp add: lit_true_def)
  ultimately show ?thesis unfolding drop0 list.size by blast
qed

end
