(* ===== verification/GraphSeparator.thy ===== *)
theory GraphSeparator
  imports Prelude
begin

text \<open>
  \<open>src/graphSeparator.cc\<close>: a small vertex separator of a directed graph from a maximum flow. Each
  vertex becomes an edge from its in-node to its out-node. \<open>addEdge\<close> adds an edge and its reverse
  together, so the graph is a list of arcs and an edge descriptor is the position of an arc
  with a direction; out-edges are visited in the order of insertion. The maximum flow algorithm
  is the library's: it is a parameter that yields the residual capacities. \<open>None\<close> is a failed
  assertion or an access outside a container.
\<close>

section \<open>The flow network\<close>

record arc =
  arc_source :: nat
  arc_target :: nat
  arc_capacity :: int
  arc_reverse_capacity :: int

type_synonym edge = "nat \<times> bool"

record separator_graph =
  nof_vertices :: nat
  arcs :: "arc list"
  vertex_indices :: "int \<rightharpoonup> nat"
  vertex_names :: "int list"

definition internal_capacity :: int where "internal_capacity = 2"
definition unpreferred_capacity :: int where "unpreferred_capacity = 3"
definition external_capacity :: int where "external_capacity = 4"

definition edge_source :: "arc list \<Rightarrow> edge \<Rightarrow> nat" where
  "edge_source as e = (if snd e then arc_source (as ! fst e) else arc_target (as ! fst e))"

definition edge_target :: "arc list \<Rightarrow> edge \<Rightarrow> nat" where
  "edge_target as e = (if snd e then arc_target (as ! fst e) else arc_source (as ! fst e))"

definition capacity :: "arc list \<Rightarrow> edge \<Rightarrow> int" where
  "capacity as e = (if snd e then arc_capacity (as ! fst e) else arc_reverse_capacity (as ! fst e))"

definition rev_edge :: "edge \<Rightarrow> edge" where
  "rev_edge e = (fst e, \<not> snd e)"

definition set_capacity :: "edge \<Rightarrow> int \<Rightarrow> arc list \<Rightarrow> arc list" where
  "set_capacity e c as =
     as[fst e := (if snd e then (as ! fst e)\<lparr>arc_capacity := c\<rparr>
                  else (as ! fst e)\<lparr>arc_reverse_capacity := c\<rparr>)]"

definition all_edges :: "arc list \<Rightarrow> edge list" where
  "all_edges as = concat (map (\<lambda>i. [(i, True), (i, False)]) [0..<length as])"

definition out_edges :: "arc list \<Rightarrow> nat \<Rightarrow> edge list" where
  "out_edges as v = filter (\<lambda>e. edge_source as e = v) (all_edges as)"

text \<open>\<open>operator[]\<close> on the index map: a new key gets 0.\<close>

definition vertex_index :: "separator_graph \<Rightarrow> int \<Rightarrow> nat" where
  "vertex_index g v = (case vertex_indices g v of None \<Rightarrow> 0 | Some i \<Rightarrow> i)"

definition addEdge :: "nat \<Rightarrow> nat \<Rightarrow> int \<Rightarrow> separator_graph \<Rightarrow> separator_graph" where
  "addEdge source target weight g =
     g\<lparr>arcs := arcs g @ [\<lparr>arc_source = source, arc_target = target, arc_capacity = weight,
                          arc_reverse_capacity = 0\<rparr>]\<rparr>"

definition add_vertices :: "int list \<Rightarrow> separator_graph \<Rightarrow> separator_graph" where
  "add_vertices vertices g =
     fold (\<lambda>i g. addEdge (2 * i + 1) (2 * i + 2) internal_capacity
                   (g\<lparr>vertex_indices := (vertex_indices g)(vertices ! i \<mapsto> 2 * i + 1)\<rparr>))
       [0..<length vertices] g"

definition new_GraphSeparator :: "int list \<Rightarrow> (int \<times> int) list \<Rightarrow> separator_graph" where
  "new_GraphSeparator vertices edges =
     fold (\<lambda>(source, target) g. addEdge (vertex_index g source + 1) (vertex_index g target) internal_capacity g)
       edges
       (add_vertices vertices
          \<lparr>nof_vertices = 2 * length vertices + 2, arcs = [], vertex_indices = Map.empty,
           vertex_names = vertices\<rparr>)"

definition connectToSource :: "int list \<Rightarrow> int \<Rightarrow> separator_graph \<Rightarrow> separator_graph" where
  "connectToSource to_connect penalty g =
     fold (\<lambda>v g. addEdge 0 (vertex_index g v) penalty g) to_connect g"

definition connectToSink :: "int list \<Rightarrow> separator_graph \<Rightarrow> separator_graph" where
  "connectToSink to_connect g =
     fold (\<lambda>v g. addEdge (vertex_index g v + 1) (nof_vertices g - 1) external_capacity g) to_connect g"

section \<open>Penalties\<close>

text \<open>A vertex and its outgoing edges; the reverse edges have capacity 0 and keep it.\<close>

definition set_vertex_capacity :: "int \<Rightarrow> int \<Rightarrow> int \<Rightarrow> separator_graph \<Rightarrow> separator_graph option" where
  "set_vertex_capacity v internal outgoing g =
     (let idx = vertex_index g v in
      case find (\<lambda>e. edge_target (arcs g) e = idx + 1) (out_edges (arcs g) idx) of
        None \<Rightarrow> None
      | Some internal_edge \<Rightarrow>
          Some (g\<lparr>arcs := fold (\<lambda>e as. if capacity as e > 0 then set_capacity e outgoing as else as)
                            (out_edges (arcs g) (idx + 1))
                            (set_capacity internal_edge internal (arcs g))\<rparr>))"

definition applyPenalty :: "int \<Rightarrow> int \<Rightarrow> separator_graph \<Rightarrow> separator_graph option" where
  "applyPenalty to_apply penalty = set_vertex_capacity to_apply penalty penalty"

definition removePenalty :: "int \<Rightarrow> separator_graph \<Rightarrow> separator_graph option" where
  "removePenalty to_remove = set_vertex_capacity to_remove 1 2"

fun applyPenalties :: "int list \<Rightarrow> int \<Rightarrow> separator_graph \<Rightarrow> separator_graph option" where
  "applyPenalties [] penalty g = Some g"
| "applyPenalties (f # fs) penalty g = Option.bind (applyPenalty f penalty g) (applyPenalties fs penalty)"

section \<open>The separator\<close>

fun visit :: "nat list \<Rightarrow> bool list \<Rightarrow> nat list \<Rightarrow> (bool list \<times> nat list) option" where
  "visit [] reachable queue = Some (reachable, queue)"
| "visit (t # ts) reachable queue =
     (if t < length reachable
      then if reachable ! t then visit ts reachable queue
           else visit ts (reachable[t := True]) (queue @ [t])
      else None)"

partial_function (option) reach_loop ::
  "arc list \<Rightarrow> (edge \<Rightarrow> int) \<Rightarrow> nat list \<Rightarrow> bool list \<Rightarrow> bool list option" where
  "reach_loop as residual queue reachable =
     (case queue of
        [] \<Rightarrow> Some reachable
      | v # rest \<Rightarrow>
          Option.bind
            (visit (map (edge_target as) (filter (\<lambda>e. residual e > 0) (out_edges as v))) reachable rest)
            (\<lambda>(reachable, rest). reach_loop as residual rest reachable))"

definition reachableInResidualGraph ::
  "separator_graph \<Rightarrow> (edge \<Rightarrow> int) \<Rightarrow> nat \<Rightarrow> bool list option" where
  "reachableInResidualGraph g residual source =
     (if source < nof_vertices g
      then reach_loop (arcs g) residual [source] ((replicate (nof_vertices g) False)[source := True])
      else None)"

definition getSeparatingEdges :: "separator_graph \<Rightarrow> (edge \<Rightarrow> int) \<Rightarrow> nat \<Rightarrow> edge list option" where
  "getSeparatingEdges g residual source =
     map_option
       (\<lambda>reachable. concat (map
          (\<lambda>idx. if reachable ! idx then []
                 else map rev_edge (filter
                        (\<lambda>e. capacity (arcs g) e = 0 \<and> reachable ! edge_target (arcs g) e)
                        (out_edges (arcs g) idx)))
          [0..<length reachable]))
       (reachableInResidualGraph g residual source)"

fun vertexSeparatorFromEdgeSeparator :: "separator_graph \<Rightarrow> edge list \<Rightarrow> int list option" where
  "vertexSeparatorFromEdgeSeparator g [] = Some []"
| "vertexSeparatorFromEdgeSeparator g (e # es) =
     (let s = edge_source (arcs g) e; t = edge_target (arcs g) e in
      if t = s + 1 \<and> 0 < t div 2 \<and> t div 2 - 1 < length (vertex_names g)
      then map_option (\<lambda>vs. vertex_names g ! (t div 2 - 1) # vs) (vertexSeparatorFromEdgeSeparator g es)
      else None)"

type_synonym max_flow = "separator_graph \<Rightarrow> nat \<Rightarrow> nat \<Rightarrow> edge \<Rightarrow> int"

definition separator_network ::
  "separator_graph \<Rightarrow> int list \<Rightarrow> int list \<Rightarrow> int list \<Rightarrow> int list \<Rightarrow> separator_graph option" where
  "separator_network g vertA vertB forbidden unpreferred =
     (let penalty = internal_capacity * int (length vertA) + 1 + int (length unpreferred);
          g1 = connectToSink vertB (connectToSource vertA penalty g)
      in Option.bind (applyPenalties forbidden penalty g1)
           (applyPenalties unpreferred unpreferred_capacity))"

definition getVertexSeparator_graph ::
  "max_flow \<Rightarrow> separator_graph \<Rightarrow> int list \<Rightarrow> int list \<Rightarrow> int list \<Rightarrow> int list \<Rightarrow> int list option" where
  "getVertexSeparator_graph max_flow g vertA vertB forbidden unpreferred =
     Option.bind (separator_network g vertA vertB forbidden unpreferred) (\<lambda>g.
       Option.bind (getSeparatingEdges g (max_flow g 0 (nof_vertices g - 1)) 0)
         (vertexSeparatorFromEdgeSeparator g))"

definition getVertexSeparator ::
  "max_flow \<Rightarrow> int list \<Rightarrow> (int \<times> int) list \<Rightarrow> int list \<Rightarrow> int list \<Rightarrow> int list \<Rightarrow> int list \<Rightarrow> int list option" where
  "getVertexSeparator max_flow vertices edges vertA vertB forbidden to_avoid =
     getVertexSeparator_graph max_flow (new_GraphSeparator vertices edges) vertA vertB forbidden to_avoid"

text \<open>The debugging copy without the reverse edges.\<close>

definition trimGraph :: "separator_graph \<Rightarrow> (nat \<times> nat) list" where
  "trimGraph g =
     map (\<lambda>e. (edge_source (arcs g) e, edge_target (arcs g) e))
       (filter (\<lambda>e. capacity (arcs g) e \<noteq> 0)
         (concat (map (out_edges (arcs g)) [0..<nof_vertices g])))"

section \<open>The maximum flow\<close>

text \<open>
  What the flow algorithm documents: residual capacities are not negative, an edge and its
  reverse share their capacity, inner nodes conserve flow, and the sink is not reachable over
  edges with a positive residual.
\<close>

definition edges_of :: "arc list \<Rightarrow> edge set" where
  "edges_of as = {0..<length as} \<times> UNIV"

inductive_set residual_reach :: "arc list \<Rightarrow> (edge \<Rightarrow> int) \<Rightarrow> nat \<Rightarrow> nat set"
  for as residual s where
  residual_start: "s \<in> residual_reach as residual s"
| residual_step: "v \<in> residual_reach as residual s \<Longrightarrow> e \<in> edges_of as \<Longrightarrow> edge_source as e = v \<Longrightarrow>
    residual e > 0 \<Longrightarrow> edge_target as e \<in> residual_reach as residual s"

definition flow :: "arc list \<Rightarrow> (edge \<Rightarrow> int) \<Rightarrow> edge \<Rightarrow> int" where
  "flow as residual e = capacity as e - residual e"

definition documented_max_flow :: "arc list \<Rightarrow> nat \<Rightarrow> nat \<Rightarrow> (edge \<Rightarrow> int) \<Rightarrow> bool" where
  "documented_max_flow as s t residual \<longleftrightarrow>
     (\<forall>e\<in>edges_of as. 0 \<le> residual e \<and>
        residual e + residual (rev_edge e) = capacity as e + capacity as (rev_edge e)) \<and>
     (\<forall>v. v \<noteq> s \<and> v \<noteq> t \<longrightarrow> (\<Sum>e\<in>{e\<in>edges_of as. edge_source as e = v}. flow as residual e) = 0) \<and>
     t \<notin> residual_reach as residual s"

end
