(* ===== verification/SupportTracker.thy ===== *)
theory SupportTracker
  imports DependencyContainer GraphSeparator Configuration
begin

text \<open>
  \<open>src/supporttracker.cc\<close>: which variables made the defining clauses of a variable fire, and the
  analysis of a conflict over these supports. A defining clause has an activity variable that is
  true when the clause forces its variable; the support of the clause is split into existential,
  universal and arbiter variables. In the consistency checker an existential literal has a variable
  of its own, and the alias of that variable is the literal. The values come from the last
  satisfying assignment of a solver: \<open>val\<close> is its \<open>val\<close>. Reading a map of the activity or support
  lists creates the empty entry, which nothing can tell from a missing one. A variable with no
  forcing-clause activity variable is an error of the caller (\<open>val\<close> of 0), as is \<open>at\<close> on a missing
  key and a failed assertion: \<open>None\<close>. Drawing the graph is left out.
\<close>

section \<open>State\<close>

record support_tracker =
  tracked_universals :: "int set"
  tracked_arbiters :: "int set"
  no_forcing_active :: "int \<rightharpoonup> int"
  activity_variables :: "int \<rightharpoonup> int list"
  activity_existentials :: "int \<rightharpoonup> int list"
  activity_universals :: "int \<rightharpoonup> int list"
  activity_arbiters :: "int \<rightharpoonup> int list"
  variable_to_alias :: "int \<rightharpoonup> int"
  alias_to_variable :: "int \<rightharpoonup> int"
  conn_var :: "int \<rightharpoonup> int"
  sep_var :: "int \<rightharpoonup> int"
  cl_var :: "int \<rightharpoonup> int"
  max_sat_encoding_variable :: int

definition new_SupportTracker :: "int list \<Rightarrow> support_tracker" where
  "new_SupportTracker universals =
     \<lparr>tracked_universals = set universals, tracked_arbiters = {}, no_forcing_active = Map.empty,
      activity_variables = Map.empty, activity_existentials = Map.empty, activity_universals = Map.empty,
      activity_arbiters = Map.empty, variable_to_alias = Map.empty, alias_to_variable = Map.empty,
      conn_var = Map.empty, sep_var = Map.empty, cl_var = Map.empty, max_sat_encoding_variable = 1\<rparr>"

text \<open>\<open>operator[]\<close> of a map to vectors.\<close>

definition entry :: "(int \<rightharpoonup> int list) \<Rightarrow> int \<Rightarrow> int list" where
  "entry m k = (case m k of None \<Rightarrow> [] | Some xs \<Rightarrow> xs)"

definition push_entry :: "(int \<rightharpoonup> int list) \<Rightarrow> int \<Rightarrow> int \<Rightarrow> (int \<rightharpoonup> int list)" where
  "push_entry m k x = m(k \<mapsto> entry m k @ [x])"

definition addArbiterVariable :: "int \<Rightarrow> support_tracker \<Rightarrow> support_tracker" where
  "addArbiterVariable a t = t\<lparr>tracked_arbiters := insert a (tracked_arbiters t)\<rparr>"

definition setNoForcedVariable :: "int \<Rightarrow> int \<Rightarrow> support_tracker \<Rightarrow> support_tracker" where
  "setNoForcedVariable v a t = t\<lparr>no_forcing_active := (no_forcing_active t)(v \<mapsto> a)\<rparr>"

definition addSupportVariable :: "int \<Rightarrow> int \<Rightarrow> support_tracker \<Rightarrow> support_tracker" where
  "addSupportVariable av v t =
     (if no_forcing_active t v \<noteq> None
      then t\<lparr>activity_existentials := push_entry (activity_existentials t) av v\<rparr>
      else if v \<in> tracked_universals t
      then t\<lparr>activity_universals := push_entry (activity_universals t) av v\<rparr>
      else if v \<in> tracked_arbiters t
      then t\<lparr>activity_arbiters := push_entry (activity_arbiters t) av v\<rparr>
      else t)"

definition addDefiningClause :: "int \<Rightarrow> clause \<Rightarrow> int \<Rightarrow> support_tracker \<Rightarrow> support_tracker" where
  "addDefiningClause v defining_clause activity_variable t =
     fold (\<lambda>l. addSupportVariable activity_variable (var l)) defining_clause
       (t\<lparr>activity_variables := push_entry (activity_variables t) v activity_variable\<rparr>)"

definition setAlias :: "int \<Rightarrow> int \<Rightarrow> support_tracker \<Rightarrow> support_tracker" where
  "setAlias v a t =
     t\<lparr>variable_to_alias := (variable_to_alias t)(v \<mapsto> a), alias_to_variable := (alias_to_variable t)(a \<mapsto> v)\<rparr>"

definition getAlias :: "support_tracker \<Rightarrow> int \<Rightarrow> int" where
  "getAlias t v = (case variable_to_alias t v of None \<Rightarrow> v | Some a \<Rightarrow> a)"

definition fromAlias :: "support_tracker \<Rightarrow> int \<Rightarrow> int" where
  "fromAlias t a = (case alias_to_variable t a of None \<Rightarrow> a | Some v \<Rightarrow> v)"

definition isForced :: "(int \<Rightarrow> int) \<Rightarrow> support_tracker \<Rightarrow> int \<Rightarrow> bool option" where
  "isForced val t v = map_option (\<lambda>a. val a < 0) (no_forcing_active t v)"

text \<open>Variables of an encoding, created on demand; no caller is left.\<close>

definition getConnVar :: "int \<Rightarrow> support_tracker \<Rightarrow> int \<times> support_tracker" where
  "getConnVar v t =
     (case conn_var t v of
        Some x \<Rightarrow> (x, t)
      | None \<Rightarrow>
          let x = max_sat_encoding_variable t + 1
          in (x, t\<lparr>max_sat_encoding_variable := x, conn_var := (conn_var t)(v \<mapsto> x)\<rparr>))"

definition getSepVar :: "int \<Rightarrow> support_tracker \<Rightarrow> int \<times> support_tracker" where
  "getSepVar v t =
     (case sep_var t v of
        Some x \<Rightarrow> (x, t)
      | None \<Rightarrow>
          let x = max_sat_encoding_variable t + 1
          in (x, t\<lparr>max_sat_encoding_variable := x, sep_var := (sep_var t)(v \<mapsto> x)\<rparr>))"

definition getClVar :: "int \<Rightarrow> support_tracker \<Rightarrow> int \<times> support_tracker" where
  "getClVar v t =
     (case cl_var t v of
        Some x \<Rightarrow> (x, t)
      | None \<Rightarrow>
          let x = max_sat_encoding_variable t + 1
          in (x, t\<lparr>max_sat_encoding_variable := x, cl_var := (cl_var t)(v \<mapsto> x)\<rparr>))"

section \<open>The support of a variable\<close>

text \<open>The first activity variable that is true.\<close>

definition active_rule :: "(int \<Rightarrow> int) \<Rightarrow> support_tracker \<Rightarrow> int \<Rightarrow> int option" where
  "active_rule val t v = find (\<lambda>av. val av > 0) (entry (activity_variables t) v)"

text \<open>The existential variables that count: true, or a variable that stands for itself.\<close>

definition counted :: "(int \<Rightarrow> int) \<Rightarrow> support_tracker \<Rightarrow> int \<Rightarrow> bool" where
  "counted val t e \<longleftrightarrow> val e > 0 \<or> getAlias t e = e"

record support_state =
  sup_existentials :: "int list"
  sup_seen :: "int set"
  sup_universals :: "int list"
  sup_arbiters :: "int list"

definition insertSupport :: "(int \<Rightarrow> int) \<Rightarrow> support_tracker \<Rightarrow> int \<Rightarrow> support_state \<Rightarrow> support_state" where
  "insertSupport val t v s =
     (let seen = insert v (sup_seen s); s1 = s\<lparr>sup_seen := seen\<rparr>
      in case active_rule val t v of
           None \<Rightarrow> s1
         | Some av \<Rightarrow>
             s1\<lparr>sup_universals := set_insert_all (entry (activity_universals t) av) (sup_universals s1),
                sup_arbiters := sup_arbiters s1 @ entry (activity_arbiters t) av,
                sup_existentials := sup_existentials s1 @
                  filter (\<lambda>e. e \<notin> seen \<and> counted val t e) (entry (activity_existentials t) av)\<rparr>)"

definition initial_literal ::
  "bool \<Rightarrow> (int \<Rightarrow> int) \<Rightarrow> support_tracker \<Rightarrow> int \<Rightarrow> support_state \<Rightarrow> support_state" where
  "initial_literal replace_initial val t l s =
     (let v = var (fromAlias t l) in
      if v \<in> tracked_universals t then s\<lparr>sup_universals := set_insert v (sup_universals s)\<rparr>
      else if v \<in> tracked_arbiters t then s\<lparr>sup_arbiters := sup_arbiters s @ [v]\<rparr>
      else if replace_initial then insertSupport val t v s
      else s\<lparr>sup_existentials := sup_existentials s @ [v]\<rparr>)"

definition initial_support ::
  "bool \<Rightarrow> (int \<Rightarrow> int) \<Rightarrow> support_tracker \<Rightarrow> int list \<Rightarrow> support_state" where
  "initial_support replace_initial val t literals =
     fold (initial_literal replace_initial val t) literals
       \<lparr>sup_existentials = [], sup_seen = {}, sup_universals = [], sup_arbiters = []\<rparr>"

section \<open>Forcing clauses\<close>

text \<open>
  The scan for a largest set of extended dependencies. Its first step also reads the vector at the
  index -1, a value the short-circuit then ignores.
\<close>

fun max_existential_loop ::
  "support_tracker \<Rightarrow> dep_container \<Rightarrow> int list \<Rightarrow> nat list \<Rightarrow> nat option \<Rightarrow> nat option option" where
  "max_existential_loop t c vs [] max_index = Some max_index"
| "max_existential_loop t c vs (i # is) max_index =
     (case max_index of
        None \<Rightarrow> max_existential_loop t c vs is (Some i)
      | Some m \<Rightarrow>
          Option.bind (largerExtendedDependencies (var (getAlias t (vs ! i))) (var (getAlias t (vs ! m))) c)
            (\<lambda>larger. max_existential_loop t c vs is (Some (if larger then i else m))))"

fun first_not_contained :: "support_tracker \<Rightarrow> dep_container \<Rightarrow> int \<Rightarrow> int list \<Rightarrow> nat \<Rightarrow> nat option option" where
  "first_not_contained t c max_existential [] i = Some None"
| "first_not_contained t c max_existential (v # vs) i =
     Option.bind (containedInExtendedDependencies (var (getAlias t v)) (var (getAlias t max_existential)) c)
       (\<lambda>contained. if contained then first_not_contained t c max_existential vs (i + 1) else Some (Some i))"

text \<open>The vector is a reference: the maximum is moved to its end.\<close>

definition hasForcingClause ::
  "support_tracker \<Rightarrow> dep_container \<Rightarrow> int list \<Rightarrow> (bool \<times> nat \<times> int list) option" where
  "hasForcingClause t c assigned =
     (if assigned = [] then Some (False, 0, [])
      else
        Option.bind (max_existential_loop t c assigned [0..<length assigned] None) (\<lambda>max_index.
          let m = the max_index; max_existential = assigned ! m;
              assigned' = (assigned[m := List.last assigned])[length assigned - 1 := max_existential]
          in map_option (\<lambda>r. case r of
                 None \<Rightarrow> (True, length assigned - 1, assigned')
               | Some i \<Rightarrow> (False, i, assigned'))
               (first_not_contained t c max_existential (butlast assigned') 0)))"

partial_function (option) forced_sources_loop ::
  "(int \<Rightarrow> int) \<Rightarrow> support_tracker \<Rightarrow> support_state \<Rightarrow> int list \<Rightarrow> (support_state \<times> int list) option" where
  "forced_sources_loop val t s sources =
     (if sup_existentials s = [] then Some (s, sources)
      else
        let e = List.last (sup_existentials s); s1 = s\<lparr>sup_existentials := butlast (sup_existentials s)\<rparr>
        in if e \<in> sup_seen s1 then forced_sources_loop val t s1 sources
           else
             let s2 = s1\<lparr>sup_seen := insert e (sup_seen s1)\<rparr>
             in Option.bind (isForced val t e) (\<lambda>forced.
                  if forced then forced_sources_loop val t (insertSupport val t e s2) sources
                  else forced_sources_loop val t s2 (sources @ [e])))"

fun arbiters_replaceable ::
  "(int \<rightharpoonup> int) \<Rightarrow> dep_container \<Rightarrow> int \<Rightarrow> int list \<Rightarrow> bool option" where
  "arbiters_replaceable arbiter_to_existential c candidate [] = Some True"
| "arbiters_replaceable arbiter_to_existential c candidate (a # as) =
     Option.bind (arbiter_to_existential a) (\<lambda>existential.
     Option.bind (containedInExtendedDependencies existential candidate c) (\<lambda>contained.
       if contained then arbiters_replaceable arbiter_to_existential c candidate as else Some False))"

definition getForcedSource ::
  "configuration \<Rightarrow> (int \<rightharpoonup> int) \<Rightarrow> dep_container \<Rightarrow> (int \<Rightarrow> int) \<Rightarrow> support_tracker \<Rightarrow> int list \<Rightarrow> bool \<Rightarrow> int option" where
  "getForcedSource conf arbiter_to_existential c val t literals replace_initial =
     Option.bind (forced_sources_loop val t (initial_support replace_initial val t literals) []) (\<lambda>(s, sources).
     Option.bind (hasForcingClause t c sources) (\<lambda>(has_forcing_clause, _, sources).
     Option.bind
       (if has_forcing_clause \<and> \<not> allow_arbiters_in_forcing_clauses conf then
          if \<not> replace_arbiters_in_separators conf then Some False
          else arbiters_replaceable arbiter_to_existential c (var (getAlias t (List.last sources))) (sup_arbiters s)
        else Some has_forcing_clause) (\<lambda>has_forcing_clause.
       Some (if has_forcing_clause then List.last sources else 0))))"

text \<open>The supports of the first rule whose activity variable is not false.\<close>

definition getActiveRuleSupport ::
  "(int \<Rightarrow> int) \<Rightarrow> support_tracker \<Rightarrow> int \<Rightarrow> (int list \<times> int list \<times> int list) option" where
  "getActiveRuleSupport val t v =
     map_option (\<lambda>av. (entry (activity_existentials t) av, entry (activity_universals t) av, entry (activity_arbiters t) av))
       (find (\<lambda>av. \<not> val av < 0) (entry (activity_variables t) v))"

section \<open>The asserting support\<close>

text \<open>One round: the vector with the variable to replace at its end, or that the loop is left.\<close>

definition asserting_choice ::
  "dep_container \<Rightarrow> (int \<Rightarrow> int) \<Rightarrow> support_tracker \<Rightarrow> int list \<Rightarrow> (bool \<times> int list) option" where
  "asserting_choice c val t existentials =
     Option.bind (hasForcingClause t c existentials) (\<lambda>(has_forcing_clause, other, existentials).
     Option.bind (isForced val t (List.last existentials)) (\<lambda>forced.
       if forced then Some (True, existentials)
       else if has_forcing_clause then Some (False, existentials)
       else
         Option.bind (isForced val t (existentials ! other)) (\<lambda>other_forced.
           Some (if other_forced
                 then (True, (existentials[other := List.last existentials])
                               [length existentials - 1 := existentials ! other])
                 else (False, existentials)))))"

partial_function (option) asserting_loop ::
  "dep_container \<Rightarrow> (int \<Rightarrow> int) \<Rightarrow> support_tracker \<Rightarrow> support_state \<Rightarrow> support_state option" where
  "asserting_loop c val t s =
     (if sup_existentials s = [] \<or> sup_arbiters s \<noteq> [] then Some s
      else
        Option.bind (asserting_choice c val t (sup_existentials s)) (\<lambda>(continue, existentials).
          if continue
          then asserting_loop c val t
                 (insertSupport val t (List.last existentials) (s\<lparr>sup_existentials := butlast existentials\<rparr>))
          else Some (s\<lparr>sup_existentials := existentials\<rparr>)))"

definition getAssertingSupport ::
  "dep_container \<Rightarrow> (int \<Rightarrow> int) \<Rightarrow> support_tracker \<Rightarrow> int list \<Rightarrow> bool \<Rightarrow> (int list \<times> int list \<times> int list) option" where
  "getAssertingSupport c val t literals replace_initial =
     map_option (\<lambda>s. (sup_existentials s, sup_universals s, sup_arbiters s))
       (asserting_loop c val t (initial_support replace_initial val t literals))"

section \<open>The minimal separator\<close>

record separator_state =
  sep_vertices :: "int list"
  sep_sources :: "int list"
  sep_sinks :: "int list"
  sep_edges :: "(int \<times> int) list"
  sep_universals :: "int list"
  sep_arbiters :: "int list"
  sep_seen :: "int set"
  sep_forbidden :: "int list"
  sep_queue :: "int list"

text \<open>The result pairs the variables connected to the processed one with the state.\<close>

definition processSupport ::
  "(int \<Rightarrow> int) \<Rightarrow> support_tracker \<Rightarrow> int \<Rightarrow> separator_state \<Rightarrow> int list \<times> separator_state" where
  "processSupport val t v s =
     (if v \<in> sep_seen s then ([], s)
      else
        let seen = insert v (sep_seen s); s1 = s\<lparr>sep_seen := seen\<rparr>
        in case active_rule val t v of
             None \<Rightarrow> ([], s1)
           | Some av \<Rightarrow>
               let us = entry (activity_universals t) av; as = entry (activity_arbiters t) av;
                   es = filter (counted val t) (entry (activity_existentials t) av)
               in (us @ as @ es,
                   s1\<lparr>sep_universals := set_insert_all us (sep_universals s1),
                      sep_arbiters := set_insert_all as (sep_arbiters s1),
                      sep_queue := sep_queue s1 @ filter (\<lambda>e. e \<notin> seen) es\<rparr>))"

definition addEdges :: "int \<Rightarrow> int list \<Rightarrow> int \<Rightarrow> separator_state \<Rightarrow> separator_state" where
  "addEdges target sources forbidden_target s =
     s\<lparr>sep_edges := sep_edges s @
        map (\<lambda>v. (v, target)) (filter (\<lambda>v. v \<noteq> forbidden_target \<and> target \<noteq> v) sources)\<rparr>"

definition filterLiterals :: "support_tracker \<Rightarrow> int list \<Rightarrow> int list \<times> int list \<times> int list" where
  "filterLiterals t literals =
     (filter (\<lambda>l. var l \<notin> tracked_universals t \<and> var l \<notin> tracked_arbiters t) literals,
      filter (\<lambda>l. var l \<in> tracked_universals t) literals,
      filter (\<lambda>l. var l \<notin> tracked_universals t \<and> var l \<in> tracked_arbiters t) literals)"

text \<open>A variable with its support: its edges, and itself as a vertex.\<close>

definition expand_vertex ::
  "(int \<Rightarrow> int) \<Rightarrow> support_tracker \<Rightarrow> int \<Rightarrow> int \<Rightarrow> separator_state \<Rightarrow> separator_state" where
  "expand_vertex val t forced_variable v s =
     (let (sources, s1) = processSupport val t v s; s2 = addEdges v sources forced_variable s1
      in s2\<lparr>sep_vertices := sep_vertices s2 @ [v]\<rparr>)"

definition separator_literal ::
  "(int \<Rightarrow> int) \<Rightarrow> support_tracker \<Rightarrow> int \<Rightarrow> bool \<Rightarrow> int \<Rightarrow> separator_state \<Rightarrow> separator_state option" where
  "separator_literal val t forced_variable replace_initial l s =
     (let v = var (fromAlias t l) in
      if v = forced_variable then Some s
      else
        let s1 = s\<lparr>sep_sinks := sep_sinks s @ [v]\<rparr> in
        if v \<in> tracked_universals t then Some (s1\<lparr>sep_universals := set_insert v (sep_universals s1)\<rparr>)
        else if v \<in> tracked_arbiters t then Some (s1\<lparr>sep_arbiters := set_insert v (sep_arbiters s1)\<rparr>)
        else
          map_option (\<lambda>forced.
            if \<not> forced then s1\<lparr>sep_sources := sep_sources s1 @ [v]\<rparr>
            else if replace_initial then
              let s2 = expand_vertex val t forced_variable v s1
              in if forced_variable \<noteq> 0 then s2\<lparr>sep_forbidden := sep_forbidden s2 @ [v]\<rparr> else s2
            else s1\<lparr>sep_queue := sep_queue s1 @ [v]\<rparr>)
            (isForced val t v))"

fun separator_literals ::
  "(int \<Rightarrow> int) \<Rightarrow> support_tracker \<Rightarrow> int \<Rightarrow> bool \<Rightarrow> int list \<Rightarrow> separator_state \<Rightarrow> separator_state option" where
  "separator_literals val t forced_variable replace_initial [] s = Some s"
| "separator_literals val t forced_variable replace_initial (l # ls) s =
     Option.bind (separator_literal val t forced_variable replace_initial l s)
       (separator_literals val t forced_variable replace_initial ls)"

definition separator_step ::
  "dep_container \<Rightarrow> (int \<Rightarrow> int) \<Rightarrow> support_tracker \<Rightarrow> int \<Rightarrow> int \<Rightarrow> separator_state \<Rightarrow> separator_state option" where
  "separator_step c val t forced_variable existential s =
     Option.bind
       (if forced_variable \<noteq> 0
        then map_option (\<lambda>contained. if contained then s else s\<lparr>sep_forbidden := sep_forbidden s @ [existential]\<rparr>)
               (containedInExtendedDependencies (var (getAlias t existential)) (var (getAlias t forced_variable)) c)
        else Some s) (\<lambda>s.
       map_option (\<lambda>forced.
         if \<not> forced then s\<lparr>sep_sources := sep_sources s @ [existential]\<rparr>
         else expand_vertex val t forced_variable existential s)
         (isForced val t existential))"

partial_function (option) separator_loop ::
  "dep_container \<Rightarrow> (int \<Rightarrow> int) \<Rightarrow> support_tracker \<Rightarrow> int \<Rightarrow> separator_state \<Rightarrow> separator_state option" where
  "separator_loop c val t forced_variable s =
     (case sep_queue s of
        [] \<Rightarrow> Some s
      | existential # q \<Rightarrow>
          let s1 = s\<lparr>sep_queue := q\<rparr> in
          if existential \<in> sep_seen s then separator_loop c val t forced_variable s1
          else Option.bind (separator_step c val t forced_variable existential s1)
                 (separator_loop c val t forced_variable))"

text \<open>The first occurrence of each element stays.\<close>

definition removeDuplicates :: "int list \<Rightarrow> int list" where
  "removeDuplicates xs = rev (remdups (rev xs))"

definition init_separator :: "int \<Rightarrow> separator_state" where
  "init_separator forced_variable =
     \<lparr>sep_vertices = [], sep_sources = [], sep_sinks = [], sep_edges = [], sep_universals = [], sep_arbiters = [],
      sep_seen = {forced_variable}, sep_forbidden = [], sep_queue = []\<rparr>"

definition separator_sources :: "separator_state \<Rightarrow> int list" where
  "separator_sources s = removeDuplicates (sep_sources s) @ sep_universals s @ sep_arbiters s"

text \<open>The arguments of the separator: vertices, edges, sources, sinks, forbidden, unpreferred.\<close>

definition separator_arguments ::
  "configuration \<Rightarrow> support_tracker \<Rightarrow> int list \<Rightarrow> bool \<Rightarrow> separator_state \<Rightarrow>
   int list \<times> (int \<times> int) list \<times> int list \<times> int list \<times> int list \<times> int list" where
  "separator_arguments conf t literals replace_initial s =
     (let source_vertices = separator_sources s
      in (sep_vertices s @ source_vertices, sep_edges s, source_vertices, sep_sinks s,
          sep_forbidden s @
            (if replace_initial then [fromAlias t (literals ! 0), fromAlias t (literals ! 1)] else []),
          if replace_arbiters_in_separators conf then sep_arbiters s else []))"

definition separator_explore ::
  "dep_container \<Rightarrow> (int \<Rightarrow> int) \<Rightarrow> support_tracker \<Rightarrow> int list \<Rightarrow> int \<Rightarrow> bool \<Rightarrow> separator_state option" where
  "separator_explore c val t literals forced_variable replace_initial =
     (if replace_initial \<and> \<not> (length literals = 2 \<and> literals ! 0 = - (literals ! 1)) then None
      else
        Option.bind (separator_literals val t forced_variable replace_initial literals (init_separator forced_variable))
          (separator_loop c val t forced_variable))"

definition getMinimalSeparator ::
  "configuration \<Rightarrow> max_flow \<Rightarrow> dep_container \<Rightarrow> (int \<Rightarrow> int) \<Rightarrow> support_tracker \<Rightarrow> int list \<Rightarrow> int \<Rightarrow> bool \<Rightarrow>
   (int list \<times> int list \<times> int list) option" where
  "getMinimalSeparator conf max_flow c val t literals forced_variable replace_initial =
     Option.bind (separator_explore c val t literals forced_variable replace_initial) (\<lambda>s.
       if forced_variable = 0 then Some (filterLiterals t (separator_sources s))
       else
         let (vertices, edges, source_vertices, sink_vertices, forbidden, arbiter_vector) =
               separator_arguments conf t literals replace_initial s
         in map_option (\<lambda>sep. filterLiterals t (sep @ [forced_variable]))
              (getVertexSeparator max_flow vertices edges source_vertices sink_vertices forbidden arbiter_vector))"

definition computeSupport ::
  "configuration \<Rightarrow> max_flow \<Rightarrow> dep_container \<Rightarrow> (int \<Rightarrow> int) \<Rightarrow> support_tracker \<Rightarrow> int list \<Rightarrow> int \<Rightarrow> bool \<Rightarrow>
   (int list \<times> int list \<times> int list) option" where
  "computeSupport = getMinimalSeparator"

declare forced_sources_loop.simps [code] asserting_loop.simps [code] separator_loop.simps [code]

end
