(* ===== verification/GraphSeparator_Correct.thy ===== *)
theory GraphSeparator_Correct
  imports GraphSeparator
begin

text \<open>
  The separator is a separator. The breadth-first search computes reachability in the residual
  graph; the reported edges are the forward edges of a minimum cut; comparing with the cut
  around the first set shows that no penalised edge is in the cut, and conservation at the
  out-node of a vertex that only internal edges are.
\<close>

section \<open>Reachability\<close>

definition reached :: "bool list \<Rightarrow> nat set" where
  "reached r = {v. v < length r \<and> r ! v}"

lemma reached_update: "v < length r \<Longrightarrow> reached (r[v := True]) = insert v (reached r)"
  by (auto simp: reached_def nth_list_update)

lemma visit_spec:
  "\<forall>t\<in>set ts. t < length r \<Longrightarrow>
   \<exists>r' new. visit ts r q = Some (r', q @ new) \<and> length r' = length r \<and>
     reached r' = reached r \<union> set ts \<and> set new = set ts - reached r \<and>
     card (reached r') = card (reached r) + length new"
proof (induction ts arbitrary: r q)
  case (Cons t ts)
  show ?case
  proof (cases "r ! t")
    case True
    then have "t \<in> reached r" using Cons.prems by (simp add: reached_def)
    then show ?thesis using Cons.IH [of r q] Cons.prems True by auto
  next
    case False
    have t: "t < length r" "t \<notin> reached r" using Cons.prems False by (auto simp: reached_def)
    obtain r' new where v: "visit ts (r[t := True]) (q @ [t]) = Some (r', (q @ [t]) @ new)"
      "length r' = length r" "reached r' = reached (r[t := True]) \<union> set ts"
      "set new = set ts - reached (r[t := True])"
      "card (reached r') = card (reached (r[t := True])) + length new"
      using Cons.IH [of "r[t := True]" "q @ [t]"] Cons.prems by auto
    have "finite (reached r)" by (rule finite_subset [of _ "{..<length r}"]) (auto simp: reached_def)
    then have "card (reached (r[t := True])) = card (reached r) + 1" using t by (simp add: reached_update)
    moreover have "visit (t # ts) r q = Some (r', q @ (t # new))" using v(1) t False by simp
    ultimately show ?thesis using v t by (intro exI [of _ r'] exI [of _ "t # new"]) (auto simp: reached_update)
  qed
qed simp

lemma reach_loop_simps:
  "reach_loop as res [] r = Some r"
  "reach_loop as res (v # q) r =
     Option.bind (visit (map (edge_target as) (filter (\<lambda>e. res e > 0) (out_edges as v))) r q)
       (\<lambda>(r, q). reach_loop as res q r)"
  by (subst reach_loop.simps, simp)+

lemma set_all_edges: "set (all_edges as) = edges_of as"
  by (auto simp: all_edges_def edges_of_def)

lemma set_out_edges: "set (out_edges as v) = {e \<in> edges_of as. edge_source as e = v}"
  by (auto simp: out_edges_def set_all_edges)

definition endpoints_below :: "nat \<Rightarrow> arc list \<Rightarrow> bool" where
  "endpoints_below n as \<longleftrightarrow> (\<forall>a\<in>set as. arc_source a < n \<and> arc_target a < n)"

lemma edge_target_below: "endpoints_below n as \<Longrightarrow> e \<in> edges_of as \<Longrightarrow> edge_target as e < n \<and> edge_source as e < n"
  by (auto simp: endpoints_below_def edges_of_def edge_target_def edge_source_def)

definition successors :: "arc list \<Rightarrow> (edge \<Rightarrow> int) \<Rightarrow> nat \<Rightarrow> nat set" where
  "successors as res v = edge_target as ` {e \<in> edges_of as. edge_source as e = v \<and> res e > 0}"

lemma reach_loop_spec:
  assumes below: "endpoints_below n as"
  shows "length r = n \<Longrightarrow> reached r \<subseteq> residual_reach as res s \<Longrightarrow> set q \<subseteq> reached r \<Longrightarrow>
    \<forall>v\<in>reached r - set q. successors as res v \<subseteq> reached r \<Longrightarrow>
    \<exists>r'. reach_loop as res q r = Some r' \<and> length r' = n \<and> reached r \<subseteq> reached r' \<and>
      reached r' \<subseteq> residual_reach as res s \<and> (\<forall>v\<in>reached r'. successors as res v \<subseteq> reached r')"
proof (induction "2 * (n - card (reached r)) + length q" arbitrary: q r rule: less_induct)
  case less
  show ?case
  proof (cases q)
    case Nil
    then show ?thesis using less.prems by (simp add: reach_loop_simps)
  next
    case (Cons v q0)
    let ?ts = "map (edge_target as) (filter (\<lambda>e. res e > 0) (out_edges as v))"
    have ts: "set ?ts = successors as res v" by (auto simp: set_out_edges successors_def)
    have bound: "card (reached x) \<le> n" if "length x = n" for x
    proof -
      have "card (reached x) \<le> card {..<n}" by (rule card_mono) (auto simp: reached_def that)
      then show ?thesis by simp
    qed
    have "\<forall>t\<in>set ?ts. t < length r"
      using edge_target_below [OF below] less.prems(1) by (auto simp: set_out_edges)
    from visit_spec [OF this, of q0] obtain r' new where v: "visit ?ts r q0 = Some (r', q0 @ new)"
      "length r' = length r" "reached r' = reached r \<union> successors as res v"
      "set new = successors as res v - reached r" "card (reached r') = card (reached r) + length new"
      unfolding ts by blast
    have vr: "v \<in> residual_reach as res s" using less.prems(2,3) Cons by auto
    have "successors as res v \<subseteq> residual_reach as res s"
      using vr by (auto simp: successors_def intro: residual_step)
    then have "reached r' \<subseteq> residual_reach as res s" using v(3) less.prems(2) by blast
    moreover have "set (q0 @ new) \<subseteq> reached r'" using v(3,4) less.prems(3) Cons by auto
    moreover have "\<forall>w\<in>reached r' - set (q0 @ new). successors as res w \<subseteq> reached r'"
      using less.prems(4) v(3,4) Cons by auto
    moreover have "2 * (n - card (reached r')) + length (q0 @ new) < 2 * (n - card (reached r)) + length q"
      using v(5) bound [of r'] less.prems(1) v(2) Cons by simp
    ultimately obtain r'' where "reach_loop as res (q0 @ new) r' = Some r''" "length r'' = n"
      "reached r' \<subseteq> reached r''" "reached r'' \<subseteq> residual_reach as res s"
      "\<forall>v\<in>reached r''. successors as res v \<subseteq> reached r''"
      using less.hyps [of r' "q0 @ new"] less.prems(1) v(2) by auto
    then show ?thesis using v(1,3) Cons by (auto simp: reach_loop_simps)
  qed
qed

lemma reachableInResidualGraph_spec:
  assumes "endpoints_below (nof_vertices g) (arcs g)" "s < nof_vertices g"
  shows "\<exists>r. reachableInResidualGraph g res s = Some r \<and> length r = nof_vertices g \<and>
    reached r = residual_reach (arcs g) res s"
proof -
  let ?r = "(replicate (nof_vertices g) False)[s := True]"
  have r: "reached ?r = {s}" using assms(2) by (auto simp: reached_def nth_list_update split: if_splits)
  obtain r' where r': "reach_loop (arcs g) res [s] ?r = Some r'" "length r' = nof_vertices g" "{s} \<subseteq> reached r'"
    "reached r' \<subseteq> residual_reach (arcs g) res s" "\<forall>v\<in>reached r'. successors (arcs g) res v \<subseteq> reached r'"
    using reach_loop_spec [OF assms(1), of ?r res s "[s]"] unfolding r by (auto intro: residual_start)
  have "v \<in> reached r'" if "v \<in> residual_reach (arcs g) res s" for v
    using that by (induction rule: residual_reach.induct) (use r'(3,5) in \<open>auto simp: successors_def\<close>)
  then show ?thesis using r' assms(2) by (auto simp: reachableInResidualGraph_def)
qed

section \<open>Flows across a cut\<close>

lemma finite_edges_of [simp]: "finite (edges_of as)"
  by (simp add: edges_of_def)

lemma rev_edge_simps [simp]:
  "rev_edge (rev_edge e) = e" "rev_edge e \<in> edges_of as \<longleftrightarrow> e \<in> edges_of as"
  "edge_source as (rev_edge e) = edge_target as e" "edge_target as (rev_edge e) = edge_source as e"
  by (auto simp: rev_edge_def edges_of_def edge_source_def edge_target_def mem_Times_iff)

lemma flow_antisym:
  assumes "documented_max_flow as s t res" "e \<in> edges_of as"
  shows "flow as res (rev_edge e) = - flow as res e"
  using assms by (auto simp: documented_max_flow_def flow_def)

lemma flow_conserved:
  "documented_max_flow as s t res \<Longrightarrow> v \<noteq> s \<Longrightarrow> v \<noteq> t \<Longrightarrow>
    (\<Sum>e\<in>{e\<in>edges_of as. edge_source as e = v}. flow as res e) = 0"
  by (simp add: documented_max_flow_def)

definition out_of :: "arc list \<Rightarrow> nat set \<Rightarrow> edge set" where
  "out_of as X = {e \<in> edges_of as. edge_source as e \<in> X \<and> edge_target as e \<notin> X}"

definition flow_value :: "arc list \<Rightarrow> (edge \<Rightarrow> int) \<Rightarrow> nat \<Rightarrow> int" where
  "flow_value as res s = (\<Sum>e\<in>{e\<in>edges_of as. edge_source as e = s}. flow as res e)"

lemma inner_flow_zero:
  assumes "documented_max_flow as s t res"
  shows "(\<Sum>e\<in>{e\<in>edges_of as. edge_source as e \<in> X \<and> edge_target as e \<in> X}. flow as res e) = 0" (is "?s = 0")
proof -
  let ?I = "{e\<in>edges_of as. edge_source as e \<in> X \<and> edge_target as e \<in> X}"
  have "?s = (\<Sum>e\<in>?I. flow as res (rev_edge e))"
    by (rule sum.reindex_bij_witness [of _ rev_edge rev_edge]) auto
  also have "\<dots> = (\<Sum>e\<in>?I. - flow as res e)"
    by (rule sum.cong) (use flow_antisym [OF assms] in auto)
  also have "\<dots> = - ?s" by (rule sum_negf)
  finally show ?thesis by simp
qed

lemma flow_across_cut:
  assumes f: "documented_max_flow as s t res" and X: "s \<in> X" "t \<notin> X" "finite X"
  shows "(\<Sum>e\<in>out_of as X. flow as res e) = flow_value as res s"
proof -
  let ?E = "\<lambda>v. {e\<in>edges_of as. edge_source as e = v}"
  have "(\<Sum>v\<in>X. \<Sum>e\<in>?E v. flow as res e) = flow_value as res s"
  proof -
    have "(\<Sum>v\<in>X - {s}. \<Sum>e\<in>?E v. flow as res e) = 0"
      by (rule sum.neutral) (use f X in \<open>auto simp: documented_max_flow_def\<close>)
    then show ?thesis by (subst sum.remove [OF X(3,1)]) (simp add: flow_value_def)
  qed
  moreover have "(\<Sum>v\<in>X. \<Sum>e\<in>?E v. flow as res e) = (\<Sum>e\<in>{e\<in>edges_of as. edge_source as e \<in> X}. flow as res e)"
  proof -
    have "(\<Sum>v\<in>X. \<Sum>e\<in>?E v. flow as res e) = (\<Sum>e\<in>(\<Union>v\<in>X. ?E v). flow as res e)"
      using X(3) by (subst sum.UNION_disjoint) auto
    moreover have "(\<Union>v\<in>X. ?E v) = {e\<in>edges_of as. edge_source as e \<in> X}" by auto
    ultimately show ?thesis by simp
  qed
  moreover have "{e\<in>edges_of as. edge_source as e \<in> X} =
      out_of as X \<union> {e\<in>edges_of as. edge_source as e \<in> X \<and> edge_target as e \<in> X}"
    by (auto simp: out_of_def)
  moreover have "(\<Sum>e\<in>out_of as X \<union> {e\<in>edges_of as. edge_source as e \<in> X \<and> edge_target as e \<in> X}. flow as res e) =
      (\<Sum>e\<in>out_of as X. flow as res e) + (\<Sum>e\<in>{e\<in>edges_of as. edge_source as e \<in> X \<and> edge_target as e \<in> X}. flow as res e)"
    by (rule sum.union_disjoint) (auto simp: out_of_def)
  ultimately show ?thesis using inner_flow_zero [OF f] by simp
qed

lemma cut_saturated:
  assumes "documented_max_flow as s t res" "e \<in> out_of as (residual_reach as res s)"
  shows "flow as res e = capacity as e"
proof -
  have "\<not> res e > 0" using assms(2) residual_step [of _ as res s e] by (auto simp: out_of_def)
  moreover have "0 \<le> res e" using assms by (auto simp: documented_max_flow_def out_of_def)
  ultimately show ?thesis by (simp add: flow_def)
qed

lemma residual_reach_below:
  assumes "endpoints_below n as" "s < n" shows "residual_reach as res s \<subseteq> {..<n}"
proof
  fix v assume "v \<in> residual_reach as res s"
  then show "v \<in> {..<n}"
    by (induction rule: residual_reach.induct) (use assms edge_target_below in auto)
qed

text \<open>The cut the search finds is at most as heavy as any other.\<close>

lemma min_cut_le:
  assumes f: "documented_max_flow as s t res" and n: "endpoints_below n as" "s < n"
    and X: "s \<in> X" "t \<notin> X" "finite X"
  shows "(\<Sum>e\<in>out_of as (residual_reach as res s). capacity as e) \<le> (\<Sum>e\<in>out_of as X. capacity as e)"
proof -
  have R: "s \<in> residual_reach as res s" "t \<notin> residual_reach as res s" "finite (residual_reach as res s)"
    using f residual_start finite_subset [OF residual_reach_below [OF n]] by (auto simp: documented_max_flow_def)
  have "(\<Sum>e\<in>out_of as (residual_reach as res s). capacity as e) =
      (\<Sum>e\<in>out_of as (residual_reach as res s). flow as res e)"
    using cut_saturated [OF f] by simp
  also have "\<dots> = (\<Sum>e\<in>out_of as X. flow as res e)"
    using flow_across_cut [OF f] R X by simp
  also have "\<dots> \<le> (\<Sum>e\<in>out_of as X. capacity as e)"
    by (rule sum_mono) (use f in \<open>auto simp: flow_def documented_max_flow_def out_of_def\<close>)
  finally show ?thesis .
qed

section \<open>The shape of the network\<close>

definition pos :: "int list \<Rightarrow> int \<Rightarrow> nat" where
  "pos vs v = length (takeWhile (\<lambda>x. x \<noteq> v) vs)"

lemma pos_nth: "v \<in> set vs \<Longrightarrow> pos vs v < length vs \<and> vs ! pos vs v = v"
  by (induction vs) (auto simp: pos_def)

lemma nth_pos: "distinct vs \<Longrightarrow> i < length vs \<Longrightarrow> pos vs (vs ! i) = i"
  using pos_nth [of "vs ! i" vs] nth_eq_iff_index_eq by fastforce

lemma pos_eq_iff: "v \<in> set vs \<Longrightarrow> w \<in> set vs \<Longrightarrow> pos vs v = pos vs w \<longleftrightarrow> v = w"
  using pos_nth by metis

text \<open>
  \<open>lev\<close> is the capacity inside each vertex; arcs leaving a vertex are at least as wide.
\<close>

definition outer_arc ::
  "int list \<Rightarrow> (int \<times> int) set \<Rightarrow> int set \<Rightarrow> int set \<Rightarrow> int \<Rightarrow> (int \<Rightarrow> int) \<Rightarrow> arc \<Rightarrow> bool" where
  "outer_arc vs E A B p lev a \<longleftrightarrow>
     (\<exists>u\<in>set vs. arc_source a = 2 * pos vs u + 2 \<and> lev u \<le> arc_capacity a \<and>
        ((\<exists>w\<in>set vs. arc_target a = 2 * pos vs w + 1 \<and> (u, w) \<in> E) \<or>
         arc_target a = 2 * length vs + 1 \<and> u \<in> B)) \<or>
     (\<exists>u\<in>A. u \<in> set vs \<and> arc_source a = 0 \<and> arc_target a = 2 * pos vs u + 1 \<and> arc_capacity a = p)"

definition inner_arc :: "int list \<Rightarrow> (int \<Rightarrow> int) \<Rightarrow> nat \<Rightarrow> arc \<Rightarrow> bool" where
  "inner_arc vs lev i a \<longleftrightarrow> arc_source a = 2 * i + 1 \<and> arc_target a = 2 * i + 2 \<and> arc_capacity a = lev (vs ! i)"

definition has_arc :: "arc list \<Rightarrow> nat \<Rightarrow> nat \<Rightarrow> bool" where
  "has_arc as s t \<longleftrightarrow> (\<exists>a\<in>set as. arc_source a = s \<and> arc_target a = t)"

definition network ::
  "int list \<Rightarrow> (int \<times> int) set \<Rightarrow> int set \<Rightarrow> int set \<Rightarrow> int \<Rightarrow> (int \<Rightarrow> int) \<Rightarrow> arc list \<Rightarrow> bool" where
  "network vs E A B p lev as \<longleftrightarrow>
     length vs \<le> length as \<and> (\<forall>i < length vs. inner_arc vs lev i (as ! i)) \<and>
     (\<forall>i. length vs \<le> i \<and> i < length as \<longrightarrow> outer_arc vs E A B p lev (as ! i)) \<and>
     (\<forall>a\<in>set as. arc_reverse_capacity a = 0 \<and> 0 < arc_capacity a) \<and>
     (\<forall>(u, w)\<in>E. has_arc as (2 * pos vs u + 2) (2 * pos vs w + 1)) \<and>
     (\<forall>u\<in>A. has_arc as 0 (2 * pos vs u + 1)) \<and>
     (\<forall>u\<in>B. has_arc as (2 * pos vs u + 2) (2 * length vs + 1))"

lemma networkD:
  assumes "network vs E A B p lev as"
  shows "length vs \<le> length as" "i < length vs \<Longrightarrow> inner_arc vs lev i (as ! i)"
    and "length vs \<le> i \<Longrightarrow> i < length as \<Longrightarrow> outer_arc vs E A B p lev (as ! i)"
    and "a \<in> set as \<Longrightarrow> arc_reverse_capacity a = 0 \<and> 0 < arc_capacity a"
    and "(u, w) \<in> E \<Longrightarrow> has_arc as (2 * pos vs u + 2) (2 * pos vs w + 1)"
    and "u \<in> A \<Longrightarrow> has_arc as 0 (2 * pos vs u + 1)"
    and "u \<in> B \<Longrightarrow> has_arc as (2 * pos vs u + 2) (2 * length vs + 1)"
  using assms by (auto simp: network_def)

lemma outer_arc_mono:
  "outer_arc vs E A B p lev a \<Longrightarrow> E \<subseteq> E' \<Longrightarrow> A \<subseteq> A' \<Longrightarrow> B \<subseteq> B' \<Longrightarrow> outer_arc vs E' A' B' p lev a"
  unfolding outer_arc_def by blast

lemma network_snoc:
  assumes n: "network vs E A B p lev as" and sub: "E \<subseteq> E'" "A \<subseteq> A'" "B \<subseteq> B'"
    and a: "outer_arc vs E' A' B' p lev a" "arc_reverse_capacity a = 0" "0 < arc_capacity a"
    and E': "\<forall>(u, w)\<in>E' - E. has_arc [a] (2 * pos vs u + 2) (2 * pos vs w + 1)"
    and A': "\<forall>u\<in>A' - A. has_arc [a] 0 (2 * pos vs u + 1)"
    and B': "\<forall>u\<in>B' - B. has_arc [a] (2 * pos vs u + 2) (2 * length vs + 1)"
  shows "network vs E' A' B' p lev (as @ [a])"
proof -
  have has: "has_arc (as @ [a]) x y \<longleftrightarrow> has_arc as x y \<or> has_arc [a] x y" for x y
    by (auto simp: has_arc_def)
  have "inner_arc vs lev i ((as @ [a]) ! i)" if "i < length vs" for i
    using networkD(1,2) [OF n] that by (simp add: nth_append)
  moreover have "outer_arc vs E' A' B' p lev ((as @ [a]) ! i)" if "length vs \<le> i" "i < length (as @ [a])" for i
    using networkD(3) [OF n that(1)] that(2) a(1) outer_arc_mono [OF _ sub] by (auto simp: nth_append)
  moreover have "has_arc (as @ [a]) (2 * pos vs u + 2) (2 * pos vs w + 1)" if "(u, w) \<in> E'" for u w
    using that networkD(5) [OF n, of u w] bspec [OF E', of "(u, w)"] unfolding has by (cases "(u, w) \<in> E") simp_all
  moreover have "has_arc (as @ [a]) 0 (2 * pos vs u + 1)" if "u \<in> A'" for u
    using that networkD(6) [OF n, of u] bspec [OF A', of u] unfolding has by (cases "u \<in> A") simp_all
  moreover have "has_arc (as @ [a]) (2 * pos vs u + 2) (2 * length vs + 1)" if "u \<in> B'" for u
    using that networkD(7) [OF n, of u] bspec [OF B', of u] unfolding has by (cases "u \<in> B") simp_all
  moreover have "arc_reverse_capacity x = 0 \<and> 0 < arc_capacity x" if "x \<in> set (as @ [a])" for x
    using that networkD(4) [OF n, of x] a by auto
  ultimately show ?thesis using networkD(1) [OF n] by (auto simp: network_def)
qed

lemma add_vertices_spec:
  assumes "distinct vs" and g0: "g0 = \<lparr>nof_vertices = n, arcs = [], vertex_indices = Map.empty, vertex_names = vs\<rparr>"
  defines "g \<equiv> add_vertices vs g0"
  shows "length (arcs g) = length vs" "\<forall>i < length vs. arcs g ! i = \<lparr>arc_source = 2 * i + 1,
      arc_target = 2 * i + 2, arc_capacity = 2, arc_reverse_capacity = 0\<rparr>"
    "nof_vertices g = n" "vertex_names g = vs" "\<forall>v\<in>set vs. vertex_index g v = 2 * pos vs v + 1"
proof -
  let ?step = "\<lambda>i g. addEdge (2 * i + 1) (2 * i + 2) internal_capacity
                   (g\<lparr>vertex_indices := (vertex_indices g)(vs ! i \<mapsto> 2 * i + 1)\<rparr>)"
  have inv: "length (arcs (fold ?step [0..<m] g0)) = m \<and>
      (\<forall>i < m. arcs (fold ?step [0..<m] g0) ! i = \<lparr>arc_source = 2 * i + 1,
        arc_target = 2 * i + 2, arc_capacity = 2, arc_reverse_capacity = 0\<rparr>) \<and>
      nof_vertices (fold ?step [0..<m] g0) = n \<and> vertex_names (fold ?step [0..<m] g0) = vs \<and>
      (\<forall>i < m. vertex_indices (fold ?step [0..<m] g0) (vs ! i) = Some (2 * i + 1))" if "m \<le> length vs" for m
    using that
  proof (induction m)
    case 0
    then show ?case by (simp add: g0)
  next
    case (Suc m)
    have ne: "vs ! i \<noteq> vs ! m" if "i < m" for i using that Suc.prems assms(1) by (simp add: nth_eq_iff_index_eq)
    show ?case using Suc ne by (auto simp: addEdge_def internal_capacity_def nth_append less_Suc_eq)
  qed
  show "length (arcs g) = length vs" "\<forall>i < length vs. arcs g ! i = \<lparr>arc_source = 2 * i + 1,
      arc_target = 2 * i + 2, arc_capacity = 2, arc_reverse_capacity = 0\<rparr>"
    "nof_vertices g = n" "vertex_names g = vs"
    using inv [OF order_refl] by (simp_all add: g_def add_vertices_def)
  show "\<forall>v\<in>set vs. vertex_index g v = 2 * pos vs v + 1"
  proof
    fix v assume "v \<in> set vs"
    have "\<forall>i < length vs. vertex_indices g (vs ! i) = Some (2 * i + 1)"
      using inv [OF order_refl] by (simp add: g_def add_vertices_def)
    then show "vertex_index g v = 2 * pos vs v + 1" using pos_nth [OF \<open>v \<in> set vs\<close>]
      by (metis option.simps(5) vertex_index_def)
  qed
qed

text \<open>The parts of the object that the later steps keep.\<close>

definition frame :: "int list \<Rightarrow> separator_graph \<Rightarrow> bool" where
  "frame vs g \<longleftrightarrow> nof_vertices g = 2 * length vs + 2 \<and> vertex_names g = vs \<and>
     (\<forall>v\<in>set vs. vertex_index g v = 2 * pos vs v + 1)"

lemma frame_arcs [simp]: "frame vs (g\<lparr>arcs := as\<rparr>) = frame vs g" "frame vs (addEdge s t w g) = frame vs g"
  by (simp_all add: frame_def vertex_index_def addEdge_def)

lemma new_GraphSeparator_network:
  assumes "distinct vs" "\<forall>(u, w)\<in>set es. u \<in> set vs \<and> w \<in> set vs"
  shows "frame vs (new_GraphSeparator vs es) \<and> network vs (set es) {} {} p (\<lambda>_. 2) (arcs (new_GraphSeparator vs es))"
proof -
  let ?g0 = "\<lparr>nof_vertices = 2 * length vs + 2, arcs = [], vertex_indices = Map.empty, vertex_names = vs\<rparr>"
  define g where "g = add_vertices vs ?g0"
  note a = add_vertices_spec [OF assms(1) refl, of "2 * length vs + 2", folded g_def]
  have f: "frame vs g" using a by (simp add: frame_def)
  have "arc_reverse_capacity x = 0 \<and> 0 < arc_capacity x" if "x \<in> set (arcs g)" for x
    using that a(1,2) by (auto simp: in_set_conv_nth)
  then have n: "network vs {} {} {} p (\<lambda>_. 2) (arcs g)"
    using a by (auto simp: network_def inner_arc_def)
  let ?step = "\<lambda>(source, target) g. addEdge (vertex_index g source + 1) (vertex_index g target) internal_capacity g"
  have "frame vs (fold ?step es h) \<and> network vs (E \<union> set es) {} {} p (\<lambda>_. 2) (arcs (fold ?step es h))"
    if "frame vs h" "network vs E {} {} p (\<lambda>_. 2) (arcs h)" "set es \<subseteq> set vs \<times> set vs" for h E
    using that
  proof (induction es arbitrary: h E)
    case (Cons e es)
    obtain u w where e: "e = (u, w)" by fastforce
    have uw: "u \<in> set vs" "w \<in> set vs" using Cons.prems(3) e by auto
    let ?a = "\<lparr>arc_source = 2 * pos vs u + 2, arc_target = 2 * pos vs w + 1, arc_capacity = 2, arc_reverse_capacity = 0\<rparr>"
    have h: "arcs (?step e h) = arcs h @ [?a]"
      using Cons.prems(1) uw e by (simp add: addEdge_def frame_def internal_capacity_def)
    have "outer_arc vs (insert e E) {} {} p (\<lambda>_. 2) ?a" using uw by (auto simp: outer_arc_def e)
    then have "network vs (insert e E) {} {} p (\<lambda>_. 2) (arcs (?step e h))"
      unfolding h by (intro network_snoc [OF Cons.prems(2)]) (auto simp: has_arc_def e)
    then show ?case using Cons.IH [of "?step e h" "insert e E"] Cons.prems(1,3) e by simp
  qed simp
  moreover have "set es \<subseteq> set vs \<times> set vs" using assms(2) by auto
  ultimately show ?thesis using f n by (simp only: new_GraphSeparator_def g_def [symmetric]) fastforce
qed

lemma connect_network:
  assumes f: "frame vs g" and n: "network vs E {} {} p (\<lambda>_. 2) (arcs g)" and p: "0 < p"
    and A: "set as \<subseteq> set vs" and B: "set bs \<subseteq> set vs"
  shows "frame vs (connectToSink bs (connectToSource as p g)) \<and>
    network vs E (set as) (set bs) p (\<lambda>_. 2) (arcs (connectToSink bs (connectToSource as p g)))"
proof -
  let ?step = "\<lambda>v g. addEdge 0 (vertex_index g v) p g"
  have "frame vs (fold ?step as h) \<and> network vs E (A \<union> set as) {} p (\<lambda>_. 2) (arcs (fold ?step as h))"
    if "frame vs h" "network vs E A {} p (\<lambda>_. 2) (arcs h)" "set as \<subseteq> set vs" for h A
    using that
  proof (induction as arbitrary: h A)
    case (Cons v as)
    let ?a = "\<lparr>arc_source = 0, arc_target = 2 * pos vs v + 1, arc_capacity = p, arc_reverse_capacity = 0\<rparr>"
    have h: "arcs (?step v h) = arcs h @ [?a]" using Cons.prems(1,3) by (simp add: addEdge_def frame_def)
    have "outer_arc vs E (insert v A) {} p (\<lambda>_. 2) ?a" using Cons.prems(3) by (auto simp: outer_arc_def)
    then have "network vs E (insert v A) {} p (\<lambda>_. 2) (arcs (?step v h))"
      unfolding h by (intro network_snoc [OF Cons.prems(2)]) (auto simp: has_arc_def p)
    then show ?case using Cons.IH [of "?step v h" "insert v A"] Cons.prems(1,3) by simp
  qed simp
  from this [OF f n A] have 1: "frame vs (connectToSource as p g)"
    "network vs E (set as) {} p (\<lambda>_. 2) (arcs (connectToSource as p g))"
    by (simp_all add: connectToSource_def)
  let ?step = "\<lambda>v g. addEdge (vertex_index g v + 1) (nof_vertices g - 1) external_capacity g"
  have "frame vs (fold ?step bs h) \<and> network vs E (set as) (B \<union> set bs) p (\<lambda>_. 2) (arcs (fold ?step bs h))"
    if "frame vs h" "network vs E (set as) B p (\<lambda>_. 2) (arcs h)" "set bs \<subseteq> set vs" for h B
    using that
  proof (induction bs arbitrary: h B)
    case (Cons v bs)
    let ?a = "\<lparr>arc_source = 2 * pos vs v + 2, arc_target = 2 * length vs + 1, arc_capacity = 4, arc_reverse_capacity = 0\<rparr>"
    have h: "arcs (?step v h) = arcs h @ [?a]"
      using Cons.prems(1,3) by (simp add: addEdge_def frame_def external_capacity_def)
    have "outer_arc vs E (set as) (insert v B) p (\<lambda>_. 2) ?a" using Cons.prems(3) by (auto simp: outer_arc_def)
    then have "network vs E (set as) (insert v B) p (\<lambda>_. 2) (arcs (?step v h))"
      unfolding h by (intro network_snoc [OF Cons.prems(2)]) (auto simp: has_arc_def)
    then show ?case using Cons.IH [of "?step v h" "insert v B"] Cons.prems(1,3) by simp
  qed simp
  from this [OF 1 B] show ?thesis by (simp add: connectToSink_def)
qed

section \<open>Penalties\<close>

lemma find_first_index:
  assumes "i < length as" "P (i, True)"
    and "\<forall>j < i. \<not> P (j, True) \<and> \<not> P (j, False)"
  shows "find P (all_edges as) = Some (i, True)"
proof -
  have "find P (concat (map (\<lambda>i. [(i, True), (i, False)]) [m..<n])) = Some (i, True)"
    if "m \<le> i" "i < n" "\<forall>j. m \<le> j \<and> j < i \<longrightarrow> \<not> P (j, True) \<and> \<not> P (j, False)" for m n
    using that
  proof (induction "i - m" arbitrary: m)
    case 0
    then have "m = i" by simp
    moreover have "[i..<n] = i # [Suc i..<n]" using 0 by (simp add: upt_conv_Cons)
    ultimately show ?case using assms(2) by simp
  next
    case (Suc k)
    then have "k = i - Suc m" "Suc m \<le> i" "\<not> P (m, True)" "\<not> P (m, False)" by auto
    moreover have "[m..<n] = m # [Suc m..<n]" using Suc calculation by (simp add: upt_conv_Cons)
    ultimately show ?case using Suc by simp
  qed
  then show ?thesis using assms by (simp add: all_edges_def)
qed

lemma find_filter: "find Q (filter P xs) = find (\<lambda>x. P x \<and> Q x) xs"
  by (induction xs) auto

lemma inner_arc_edges:
  assumes "network vs E A B p lev as" "i < length vs"
  shows "edge_source as (i, True) = 2 * i + 1" "edge_target as (i, True) = 2 * i + 2"
    "capacity as (i, True) = lev (vs ! i)"
  using networkD(2) [OF assms] by (simp_all add: inner_arc_def edge_source_def edge_target_def capacity_def)

lemma internal_edge_found:
  assumes n: "network vs E A B p lev as" and i: "i < length vs"
  shows "find (\<lambda>e. edge_target as e = 2 * i + 2) (out_edges as (2 * i + 1)) = Some (i, True)"
proof -
  let ?P = "\<lambda>e. edge_source as e = 2 * i + 1 \<and> edge_target as e = 2 * i + 2"
  have "find ?P (all_edges as) = Some (i, True)"
  proof (rule find_first_index)
    show "i < length as" using networkD(1) [OF n] i by simp
    show "?P (i, True)" using inner_arc_edges [OF n i] by simp
    have "\<not> ?P (j, True) \<and> \<not> ?P (j, False)" if "j < i" for j
    proof -
      have "j < length vs" using that i by simp
      then have e: "edge_source as (j, True) = 2 * j + 1" "edge_target as (j, True) = 2 * j + 2"
        using inner_arc_edges [OF n] by blast+
      moreover have "edge_source as (j, False) = 2 * j + 2"
        using e by (simp add: edge_source_def edge_target_def)
      ultimately show ?thesis using that by presburger
    qed
    then show "\<forall>j < i. \<not> ?P (j, True) \<and> \<not> ?P (j, False)" by blast
  qed
  then show ?thesis by (simp only: out_edges_def find_filter)
qed

lemma ends_set_capacity [simp]:
  "length (set_capacity e c as) = length as"
  "edge_source (set_capacity e c as) x = edge_source as x"
  "edge_target (set_capacity e c as) x = edge_target as x"
proof -
  obtain i d where e: "e = (i, d)" by fastforce
  obtain j b where x: "x = (j, b)" by fastforce
  show "length (set_capacity e c as) = length as" by (simp add: set_capacity_def)
  have "arc_source (set_capacity e c as ! j) = arc_source (as ! j) \<and>
      arc_target (set_capacity e c as ! j) = arc_target (as ! j)"
  proof (cases "i = j \<and> i < length as")
    case True
    then show ?thesis by (simp add: set_capacity_def e)
  next
    case False
    then have "set_capacity e c as ! j = as ! j"
      by (cases "i = j") (simp_all add: set_capacity_def e list_update_beyond)
    then show ?thesis by simp
  qed
  then show "edge_source (set_capacity e c as) x = edge_source as x"
    "edge_target (set_capacity e c as) x = edge_target as x"
    by (simp_all add: edge_source_def edge_target_def x)
qed

lemma nth_set_capacity:
  "i < length as \<Longrightarrow> set_capacity (j, True) c as ! i = (if i = j then (as ! i)\<lparr>arc_capacity := c\<rparr> else as ! i)"
  by (simp add: set_capacity_def nth_list_update)

definition one_way :: "arc list \<Rightarrow> bool" where
  "one_way as \<longleftrightarrow> (\<forall>a\<in>set as. arc_reverse_capacity a = 0 \<and> 0 < arc_capacity a)"

lemma one_wayD: "one_way as \<Longrightarrow> i < length as \<Longrightarrow> capacity as (i, d) > 0 \<longleftrightarrow> d"
  using nth_mem [of i as] by (cases d) (auto simp: one_way_def capacity_def)

lemma one_way_set: "one_way as \<Longrightarrow> 0 < c \<Longrightarrow> one_way (set_capacity (j, True) c as)"
proof (cases "j < length as")
  case True
  assume o: "one_way as" "0 < c"
  show ?thesis unfolding one_way_def
  proof
    fix a assume "a \<in> set (set_capacity (j, True) c as)"
    then obtain i where "i < length as" "a = set_capacity (j, True) c as ! i"
      by (auto simp: in_set_conv_nth)
    then show "arc_reverse_capacity a = 0 \<and> 0 < arc_capacity a"
      using o nth_mem [of i as] by (auto simp: nth_set_capacity one_way_def)
  qed
qed (simp add: set_capacity_def list_update_beyond)

lemma set_outgoing_spec:
  assumes "one_way as" "0 < c" "\<forall>e\<in>set es. fst e < length as"
  defines "as' \<equiv> fold (\<lambda>e as. if capacity as e > 0 then set_capacity e c as else as) es as"
  shows "length as' = length as \<and> one_way as' \<and> (\<forall>i < length as.
    as' ! i = (if (i, True) \<in> set es then (as ! i)\<lparr>arc_capacity := c\<rparr> else as ! i))"
  using assms(1,3) unfolding as'_def
proof (induction es arbitrary: as)
  case (Cons e es)
  obtain j d where e: "e = (j, d)" by fastforce
  have j: "j < length as" using Cons.prems(2) e by simp
  define as1 where "as1 = (if capacity as e > 0 then set_capacity e c as else as)"
  have one: "one_way as1" "length as1 = length as"
    using Cons.prems(1) one_way_set [OF _ assms(2)] one_wayD [OF Cons.prems(1) j, of d]
    by (auto simp: as1_def e)
  have nth: "as1 ! i = (if i = j \<and> d then (as ! i)\<lparr>arc_capacity := c\<rparr> else as ! i)" if "i < length as" for i
    using one_wayD [OF Cons.prems(1) j, of d] that by (auto simp: as1_def e nth_set_capacity)
  show ?case using Cons.IH [OF one(1)] Cons.prems(2) one(2) nth unfolding list.set fold_simps as1_def [symmetric]
    by (auto simp: e)
qed simp

lemma applyPenalty_spec:
  assumes f: "frame vs g" and n: "network vs E A B p lev (arcs g)" and v: "v \<in> set vs" and c: "0 < c"
    and dist: "distinct vs"
  shows "\<exists>g'. applyPenalty v c g = Some g' \<and> frame vs g' \<and> network vs E A B p (lev(v := c)) (arcs g')"
proof -
  let ?i = "pos vs v"
  have i: "?i < length vs" "vs ! ?i = v" using pos_nth [OF v] by auto
  have idx: "vertex_index g v = 2 * ?i + 1" using f v by (simp add: frame_def)
  have il: "?i < length (arcs g)" using i networkD(1) [OF n] by simp
  have one: "one_way (arcs g)" using networkD(4) [OF n] by (auto simp: one_way_def)
  define as1 where "as1 = set_capacity (?i, True) c (arcs g)"
  have one1: "one_way as1" "length as1 = length (arcs g)" using one_way_set [OF one c] by (simp_all add: as1_def)
  let ?es = "out_edges (arcs g) (2 * ?i + 2)"
  define as2 where "as2 = fold (\<lambda>e as. if capacity as e > 0 then set_capacity e c as else as) ?es as1"
  have es: "\<forall>e\<in>set ?es. fst e < length as1" by (auto simp: set_out_edges edges_of_def one1)
  note out = set_outgoing_spec [OF one1(1) c es, folded as2_def]
  have mem: "(j, True) \<in> set ?es \<longleftrightarrow> arc_source (arcs g ! j) = 2 * ?i + 2" if "j < length (arcs g)" for j
    using that by (simp add: set_out_edges edges_of_def edge_source_def)
  have nth: "as2 ! j = (if j = ?i \<or> arc_source (arcs g ! j) = 2 * ?i + 2
      then (arcs g ! j)\<lparr>arc_capacity := c\<rparr> else arcs g ! j)" if "j < length (arcs g)" for j
    using out mem [OF that] that one1(2) by (auto simp: as1_def nth_set_capacity)
  have ap: "applyPenalty v c g = Some (g\<lparr>arcs := as2\<rparr>)"
    using internal_edge_found [OF n i(1)]
    by (simp add: applyPenalty_def set_vertex_capacity_def idx as2_def as1_def)
  have inner: "inner_arc vs (lev(v := c)) j (as2 ! j)" if "j < length vs" for j
  proof -
    have j: "inner_arc vs lev j (arcs g ! j)" "j < length (arcs g)" using networkD(1,2) [OF n] that by auto
    have "vs ! j = v \<longleftrightarrow> j = ?i" using i that dist nth_eq_iff_index_eq by fastforce
    moreover have "arc_source (arcs g ! j) \<noteq> 2 * ?i + 2" using j(1) unfolding inner_arc_def by presburger
    ultimately show ?thesis using j nth [OF j(2)] by (auto simp: inner_arc_def)
  qed
  have outer: "outer_arc vs E A B p (lev(v := c)) (as2 ! j)" if "length vs \<le> j" "j < length as2" for j
  proof -
    have jl: "j < length (arcs g)" using that(2) out one1(2) by simp
    have o: "outer_arc vs E A B p lev (arcs g ! j)" by (rule networkD(3) [OF n that(1) jl])
    have ji: "j \<noteq> ?i" using that(1) i(1) by simp
    show ?thesis
    proof (cases "arc_source (arcs g ! j) = 2 * ?i + 2")
      case True
      then have "as2 ! j = (arcs g ! j)\<lparr>arc_capacity := c\<rparr>" using nth [OF jl] by simp
      moreover have "u = v" if "u \<in> set vs" "arc_source (arcs g ! j) = 2 * pos vs u + 2" for u
        using that True pos_eq_iff [OF that(1) v] by simp
      ultimately show ?thesis using o True unfolding outer_arc_def by auto
    next
      case False
      then have "as2 ! j = arcs g ! j" using nth [OF jl] ji by simp
      moreover have "u \<noteq> v" if "arc_source (arcs g ! j) = 2 * pos vs u + 2" for u using that False by auto
      ultimately show ?thesis using o unfolding outer_arc_def by auto
    qed
  qed
  have has: "has_arc as2 x y \<longleftrightarrow> has_arc (arcs g) x y" for x y
  proof -
    have "map (\<lambda>a. (arc_source a, arc_target a)) as2 = map (\<lambda>a. (arc_source a, arc_target a)) (arcs g)"
      by (rule nth_equalityI) (use nth out one1(2) in auto)
    then have "(x, y) \<in> set (map (\<lambda>a. (arc_source a, arc_target a)) as2) \<longleftrightarrow>
        (x, y) \<in> set (map (\<lambda>a. (arc_source a, arc_target a)) (arcs g))" by (simp only:)
    then show ?thesis by (auto simp: has_arc_def)
  qed
  have "network vs E A B p (lev(v := c)) as2"
    using inner outer networkD(1,5-7) [OF n] out one1(2) unfolding network_def has by (auto simp: one_way_def)
  then show ?thesis using ap f by simp
qed

lemma applyPenalties_spec:
  assumes "distinct vs" "0 < c"
  shows "frame vs g \<Longrightarrow> network vs E A B p lev (arcs g) \<Longrightarrow> set fs \<subseteq> set vs \<Longrightarrow>
    \<exists>g'. applyPenalties fs c g = Some g' \<and> frame vs g' \<and>
      network vs E A B p (\<lambda>v. if v \<in> set fs then c else lev v) (arcs g')"
proof (induction fs arbitrary: g lev)
  case (Cons f fs)
  obtain g1 where g1: "applyPenalty f c g = Some g1" "frame vs g1" "network vs E A B p (lev(f := c)) (arcs g1)"
    using applyPenalty_spec [OF Cons.prems(1,2) _ assms(2,1), of f] Cons.prems(3) by auto
  have "(\<lambda>v. if v \<in> set fs then c else (lev(f := c)) v) = (\<lambda>v. if v \<in> set (f # fs) then c else lev v)"
    by (auto simp: fun_eq_iff)
  then show ?case using Cons.IH [OF g1(2,3)] g1(1) Cons.prems(3) by auto
qed simp

text \<open>The capacity inside each vertex of the finished network.\<close>

definition vertex_capacity :: "int list \<Rightarrow> int list \<Rightarrow> int list \<Rightarrow> int \<Rightarrow> int" where
  "vertex_capacity vertA forbidden unpreferred v =
     (if v \<in> set unpreferred then 3
      else if v \<in> set forbidden then 2 * int (length vertA) + 1 + int (length unpreferred) else 2)"

lemma separator_network_spec:
  assumes "distinct vs" "\<forall>(u, w)\<in>set es. u \<in> set vs \<and> w \<in> set vs"
    and "set vertA \<subseteq> set vs" "set vertB \<subseteq> set vs" "set forbidden \<subseteq> set vs" "set unpreferred \<subseteq> set vs"
  shows "\<exists>g. separator_network (new_GraphSeparator vs es) vertA vertB forbidden unpreferred = Some g \<and>
    frame vs g \<and> network vs (set es) (set vertA) (set vertB)
      (2 * int (length vertA) + 1 + int (length unpreferred))
      (vertex_capacity vertA forbidden unpreferred) (arcs g)"
proof -
  let ?p = "2 * int (length vertA) + 1 + int (length unpreferred)"
  have p: "0 < ?p" by simp
  from new_GraphSeparator_network [OF assms(1,2), of ?p]
  have 1: "frame vs (new_GraphSeparator vs es)"
    "network vs (set es) {} {} ?p (\<lambda>_. 2) (arcs (new_GraphSeparator vs es))" by auto
  from connect_network [OF 1 p assms(3,4)]
  obtain g1 where g1: "g1 = connectToSink vertB (connectToSource vertA ?p (new_GraphSeparator vs es))"
    "frame vs g1" "network vs (set es) (set vertA) (set vertB) ?p (\<lambda>_. 2) (arcs g1)" by blast
  obtain g2 where g2: "applyPenalties forbidden ?p g1 = Some g2" "frame vs g2"
    "network vs (set es) (set vertA) (set vertB) ?p (\<lambda>v. if v \<in> set forbidden then ?p else 2) (arcs g2)"
    using applyPenalties_spec [OF assms(1) p g1(2,3) assms(5)] by blast
  have "(0 :: int) < 3" by simp
  from applyPenalties_spec [OF assms(1) this g2(2,3) assms(6)]
  obtain g3 where g3: "applyPenalties unpreferred 3 g2 = Some g3" "frame vs g3"
    "network vs (set es) (set vertA) (set vertB) ?p
      (\<lambda>v. if v \<in> set unpreferred then 3 else if v \<in> set forbidden then ?p else 2) (arcs g3)" by blast
  have "separator_network (new_GraphSeparator vs es) vertA vertB forbidden unpreferred = Some g3"
    using g1(1) g2(1) g3(1)
    by (simp add: separator_network_def internal_capacity_def unpreferred_capacity_def Let_def)
  then show ?thesis using g3(2,3) unfolding vertex_capacity_def [abs_def] by blast
qed

section \<open>Only internal edges are cut\<close>

text \<open>The arcs of a finished network, as edges.\<close>

lemma forward_cases:
  assumes n: "network vs E A B p lev as" and i: "i < length as"
  obtains (inner) "i < length vs" "edge_source as (i, True) = 2 * i + 1" "edge_target as (i, True) = 2 * i + 2"
      "capacity as (i, True) = lev (vs ! i)"
    | (outer) u w where "length vs \<le> i" "u \<in> set vs" "edge_source as (i, True) = 2 * pos vs u + 2"
      "lev u \<le> capacity as (i, True)" "w \<in> set vs" "edge_target as (i, True) = 2 * pos vs w + 1"
    | (sink) u where "length vs \<le> i" "u \<in> set vs" "edge_source as (i, True) = 2 * pos vs u + 2"
      "lev u \<le> capacity as (i, True)" "edge_target as (i, True) = 2 * length vs + 1"
    | (source) u where "length vs \<le> i" "u \<in> A" "u \<in> set vs" "edge_source as (i, True) = 0"
      "edge_target as (i, True) = 2 * pos vs u + 1" "capacity as (i, True) = p"
proof (cases "i < length vs")
  case True
  then show ?thesis using inner inner_arc_edges [OF n True] by blast
next
  case False
  then have "outer_arc vs E A B p lev (as ! i)" using networkD(3) [OF n _ i] by simp
  then show ?thesis using outer sink source False
    unfolding outer_arc_def by (auto simp: edge_source_def edge_target_def capacity_def)
qed

lemma network_endpoints:
  assumes n: "network vs E A B p lev as"
  shows "endpoints_below (2 * length vs + 2) as"
  unfolding endpoints_below_def
proof
  fix a assume "a \<in> set as"
  then obtain i where i: "i < length as" "a = as ! i" by (auto simp: in_set_conv_nth)
  have "edge_source as (i, True) < 2 * length vs + 2 \<and> edge_target as (i, True) < 2 * length vs + 2"
    by (rule forward_cases [OF n i(1)]) (use pos_nth in fastforce)+
  then show "arc_source a < 2 * length vs + 2 \<and> arc_target a < 2 * length vs + 2"
    by (simp add: edge_source_def edge_target_def i(2))
qed

lemma network_capacity:
  assumes n: "network vs E A B p lev as" and e: "e \<in> edges_of as"
  shows "0 \<le> capacity as e" "capacity as e = 0 \<longleftrightarrow> \<not> snd e" "capacity as (fst e, False) = 0"
proof -
  have "as ! fst e \<in> set as" using e by (auto simp: edges_of_def)
  then show "0 \<le> capacity as e" "capacity as e = 0 \<longleftrightarrow> \<not> snd e" "capacity as (fst e, False) = 0"
    using networkD(4) [OF n, of "as ! fst e"] by (auto simp: capacity_def)
qed

lemma edge_mem [simp]: "(i, d) \<in> edges_of as \<longleftrightarrow> i < length as"
  by (simp add: edges_of_def)

lemma first_set_cut:
  assumes n: "network vs E A B p lev as" and A: "A \<subseteq> set vs" "finite A"
  defines "X \<equiv> insert 0 ((\<lambda>a. 2 * pos vs a + 1) ` A)"
  shows "(\<Sum>e\<in>out_of as X. capacity as e) \<le> (\<Sum>a\<in>A. lev a)"
proof -
  have out: "e \<in> (\<lambda>a. (pos vs a, True)) ` A" if e: "e \<in> out_of as X" "snd e" for e
  proof -
    obtain i where i: "e = (i, True)" using e(2) by (cases e) auto
    have il: "i < length as" and src: "edge_source as (i, True) \<in> X" and tgt: "edge_target as (i, True) \<notin> X"
      using e i by (auto simp: out_of_def)
    show ?thesis
    proof (rule forward_cases [OF n il])
      assume inner: "i < length vs" "edge_source as (i, True) = 2 * i + 1"
      then obtain a where "a \<in> A" "2 * i + 1 = 2 * pos vs a + 1" using src by (auto simp: X_def)
      then show ?thesis using i by auto
    qed (use src tgt in \<open>auto simp: X_def, presburger+\<close>)
  qed
  have fin: "finite (out_of as X)" by (rule finite_subset [of _ "edges_of as"]) (auto simp: out_of_def)
  have "(\<Sum>e\<in>out_of as X. capacity as e) = (\<Sum>e\<in>{e\<in>out_of as X. snd e}. capacity as e)"
    by (rule sum.mono_neutral_right) (use fin network_capacity(2) [OF n] in \<open>auto simp: out_of_def\<close>)
  also have "\<dots> \<le> (\<Sum>e\<in>(\<lambda>a. (pos vs a, True)) ` A. capacity as e)"
  proof (rule sum_mono2)
    fix e assume "e \<in> (\<lambda>a. (pos vs a, True)) ` A - {e\<in>out_of as X. snd e}"
    then obtain a where "a \<in> A" "e = (pos vs a, True)" by auto
    then have "e \<in> edges_of as" using pos_nth [of a vs] A(1) networkD(1) [OF n] by auto
    then show "0 \<le> capacity as e" by (rule network_capacity(1) [OF n])
  qed (use A(2) out in auto)
  also have "\<dots> = (\<Sum>a\<in>A. capacity as (pos vs a, True))"
    by (rule sum.reindex_cong [of "\<lambda>a. (pos vs a, True)"])
      (use A(1) pos_nth in \<open>auto simp: inj_on_def, metis subsetD\<close>)
  also have "\<dots> = (\<Sum>a\<in>A. lev a)"
  proof (rule sum.cong)
    fix a assume "a \<in> A"
    then show "capacity as (pos vs a, True) = lev a"
      using inner_arc_edges(3) [OF n, of "pos vs a"] pos_nth [of a vs] A(1) by auto
  qed simp
  finally show ?thesis .
qed

text \<open>All flow into an out-node comes through its vertex, and no arc out of it is narrower.\<close>

lemma internal_cut:
  assumes n: "network vs E A B p lev as" and f: "documented_max_flow as 0 (2 * length vs + 1) res"
    and small: "\<And>i. (i, True) \<in> out_of as (residual_reach as res 0) \<Longrightarrow> capacity as (i, True) < p"
    and cut: "(i, True) \<in> out_of as (residual_reach as res 0)"
  shows "i < length vs"
proof (rule ccontr)
  assume "\<not> i < length vs"
  let ?R = "residual_reach as res 0"
  have il: "i < length as" and src: "edge_source as (i, True) \<in> ?R" and tgt: "edge_target as (i, True) \<notin> ?R"
    using cut by (auto simp: out_of_def)
  obtain u where u: "u \<in> set vs" "edge_source as (i, True) = 2 * pos vs u + 2" "lev u \<le> capacity as (i, True)"
    by (rule forward_cases [OF n il]) (use \<open>\<not> i < length vs\<close> small [OF cut] in auto)
  define o' where "o' = 2 * pos vs u + 2"
  have pu: "pos vs u < length vs" "vs ! pos vs u = u" using pos_nth [OF u(1)] by auto
  have pl: "pos vs u < length as" using pu networkD(1) [OF n] by simp
  let ?T = "{e\<in>edges_of as. edge_source as e = o' \<and> snd e}"
  have bwd: "e = (pos vs u, False)" if "e \<in> edges_of as" "edge_source as e = o'" "\<not> snd e" for e
  proof -
    obtain j b where "e = (j, b)" by fastforce
    then have j: "e = (j, False)" "j < length as" using that(1,3) by auto
    then have t: "edge_target as (j, True) = 2 * pos vs u + 2"
      using that(2) by (simp add: edge_source_def edge_target_def o'_def)
    have "j = pos vs u" by (rule forward_cases [OF n j(2)]) (use t in presburger)+
    then show ?thesis using j by simp
  qed
  have "edge_source as (pos vs u, False) = o'"
    using inner_arc_edges(2) [OF n pu(1)] by (simp add: edge_source_def edge_target_def o'_def)
  then have E: "{e\<in>edges_of as. edge_source as e = o'} = insert (pos vs u, False) ?T"
    using bwd pl by auto
  have "(\<Sum>e\<in>{e\<in>edges_of as. edge_source as e = o'}. flow as res e) = 0"
    by (rule flow_conserved [OF f]) (simp_all add: o'_def, presburger)
  then have zero: "flow as res (pos vs u, False) + (\<Sum>e\<in>?T. flow as res e) = 0"
    unfolding E by (subst (asm) sum.insert) auto
  have nonneg: "0 \<le> flow as res e" if "e \<in> ?T" for e
  proof -
    have "rev_edge e = (fst e, False)" "e \<in> edges_of as" using that by (auto simp: rev_edge_def)
    then have "res e + res (fst e, False) = capacity as e + capacity as (fst e, False)" "0 \<le> res (fst e, False)"
      using f rev_edge_simps(2) [of e as] by (auto simp: documented_max_flow_def)
    then show ?thesis using network_capacity(3) [OF n \<open>e \<in> edges_of as\<close>] by (simp add: flow_def)
  qed
  have iT: "(i, True) \<in> ?T" using u(2) il by (simp add: o'_def)
  have fin: "finite ?T" by simp
  have split: "(\<Sum>e\<in>?T. flow as res e) = flow as res (i, True) + (\<Sum>e\<in>?T - {(i, True)}. flow as res e)"
    by (rule sum.remove [OF fin iT])
  have rest: "0 \<le> (\<Sum>e\<in>?T - {(i, True)}. flow as res e)" by (rule sum_nonneg) (use nonneg in blast)
  have fi: "flow as res (i, True) = capacity as (i, True)" by (rule cut_saturated [OF f cut])
  have anti: "flow as res (pos vs u, False) = - flow as res (pos vs u, True)"
    using flow_antisym [OF f, of "(pos vs u, True)"] pl by (simp add: rev_edge_def)
  have "0 \<le> res (pos vs u, True)" using f pl by (simp add: documented_max_flow_def)
  then have le: "flow as res (pos vs u, True) \<le> lev u"
    using inner_arc_edges(3) [OF n pu(1)] pu(2) by (simp add: flow_def)
  have full: "res (pos vs u, True) = 0" and none: "(\<Sum>e\<in>?T - {(i, True)}. flow as res e) = 0"
    using zero split rest fi anti le u(3) \<open>0 \<le> res (pos vs u, True)\<close> inner_arc_edges(3) [OF n pu(1)] pu(2)
    by (simp_all add: flow_def)
  have idle: "flow as res e = 0" if "e \<in> ?T" "e \<noteq> (i, True)" for e
    using none sum_nonneg_eq_0_iff [of "?T - {(i, True)}" "flow as res"] nonneg that by auto
  have "o' \<in> ?R" "o' \<noteq> 0" using src u(2) by (simp_all add: o'_def)
  then obtain e where e: "edge_source as e \<in> ?R" "e \<in> edges_of as" "0 < res e" "edge_target as e = o'"
    by (cases rule: residual_reach.cases) auto
  have "rev_edge e \<in> edges_of as" "edge_source as (rev_edge e) = o'" using e by simp_all
  show False
  proof (cases "snd e")
    case True
    then have "\<not> snd (rev_edge e)" by (simp add: rev_edge_def)
    with \<open>rev_edge e \<in> edges_of as\<close> \<open>edge_source as (rev_edge e) = o'\<close>
    have "rev_edge e = (pos vs u, False)" by (rule bwd)
    then have "e = (pos vs u, True)" using True by (cases e) (auto simp: rev_edge_def)
    then show False using full e(3) by simp
  next
    case False
    then have "snd (rev_edge e)" by (simp add: rev_edge_def)
    then have r: "rev_edge e \<in> ?T"
      using \<open>rev_edge e \<in> edges_of as\<close> \<open>edge_source as (rev_edge e) = o'\<close> by blast
    have "res (rev_edge e) + res e = capacity as (rev_edge e) + capacity as e"
      using f e(2) unfolding documented_max_flow_def by (metis add.commute)
    moreover have "capacity as e = 0" using network_capacity(2) [OF n e(2)] False by simp
    ultimately have "0 < flow as res (rev_edge e)" using e(3) by (simp add: flow_def)
    then have "rev_edge e = (i, True)" using idle [OF r] by linarith
    then have "edge_source as e = edge_target as (i, True)" using rev_edge_simps(4) [of as e] by simp
    then show False using e(1) tgt by simp
  qed
qed

section \<open>The separator\<close>

definition separates :: "(int \<times> int) set \<Rightarrow> int set \<Rightarrow> int set \<Rightarrow> int set \<Rightarrow> bool" where
  "separates E A B S \<longleftrightarrow>
     (\<forall>ps. ps \<noteq> [] \<and> hd ps \<in> A \<and> List.last ps \<in> B \<and> successively (\<lambda>u w. (u, w) \<in> E) ps \<longrightarrow> set ps \<inter> S \<noteq> {})"

lemma getSeparatingEdges_spec:
  assumes n: "network vs E A B p lev (arcs g)" and f: "frame vs g"
  shows "\<exists>es. getSeparatingEdges g res 0 = Some es \<and>
    set es = {(i, True) |i. (i, True) \<in> out_of (arcs g) (residual_reach (arcs g) res 0)}"
proof -
  let ?as = "arcs g" and ?R = "residual_reach (arcs g) res 0"
  have b: "endpoints_below (nof_vertices g) ?as" "0 < nof_vertices g"
    using network_endpoints [OF n] f by (simp_all add: frame_def)
  obtain r where r: "reachableInResidualGraph g res 0 = Some r" "length r = nof_vertices g" "reached r = ?R"
    using reachableInResidualGraph_spec [OF b] by blast
  have rR: "r ! v \<longleftrightarrow> v \<in> ?R" if "v < nof_vertices g" for v
    using r(2,3) that by (auto simp: reached_def)
  let ?es = "concat (map (\<lambda>idx. if r ! idx then []
                 else map rev_edge (filter (\<lambda>e. capacity ?as e = 0 \<and> r ! edge_target ?as e) (out_edges ?as idx)))
          [0..<length r])"
  have "set ?es = rev_edge ` {e \<in> edges_of ?as. \<not> r ! edge_source ?as e \<and> capacity ?as e = 0 \<and> r ! edge_target ?as e}"
  proof (intro equalityI subsetI)
    fix x assume "x \<in> set ?es"
    then obtain idx e where "\<not> r ! idx" "e \<in> set (out_edges ?as idx)" "capacity ?as e = 0"
      "r ! edge_target ?as e" "x = rev_edge e" by (auto split: if_splits)
    then show "x \<in> rev_edge ` {e \<in> edges_of ?as. \<not> r ! edge_source ?as e \<and> capacity ?as e = 0 \<and> r ! edge_target ?as e}"
      by (auto simp: set_out_edges)
  next
    fix x assume "x \<in> rev_edge ` {e \<in> edges_of ?as. \<not> r ! edge_source ?as e \<and> capacity ?as e = 0 \<and> r ! edge_target ?as e}"
    then obtain e where e: "e \<in> edges_of ?as" "\<not> r ! edge_source ?as e" "capacity ?as e = 0"
      "r ! edge_target ?as e" "x = rev_edge e" by blast
    then have "edge_source ?as e < length r" "e \<in> set (out_edges ?as (edge_source ?as e))"
      using edge_target_below [OF b(1)] r(2) by (simp_all add: set_out_edges)
    then show "x \<in> set ?es" using e
      by (cases e) (auto simp: image_iff intro!: bexI [of _ "edge_source ?as e"] exI)
  qed
  also have "\<dots> = rev_edge ` {e \<in> edges_of ?as. edge_source ?as e \<notin> ?R \<and> \<not> snd e \<and> edge_target ?as e \<in> ?R}"
    using edge_target_below [OF b(1)] rR network_capacity(2) [OF n] by (intro arg_cong [of _ _ "image rev_edge"]) auto
  also have "\<dots> = {(i, True) |i. (i, True) \<in> out_of ?as ?R}"
  proof (intro equalityI subsetI)
    fix e assume "e \<in> rev_edge ` {e \<in> edges_of ?as. edge_source ?as e \<notin> ?R \<and> \<not> snd e \<and> edge_target ?as e \<in> ?R}"
    then obtain d where d: "e = rev_edge d" "d \<in> edges_of ?as" "edge_source ?as d \<notin> ?R" "\<not> snd d" "edge_target ?as d \<in> ?R"
      by blast
    then have "e \<in> out_of ?as ?R" by (simp add: out_of_def)
    moreover have "e = (fst d, True)" using d(1,4) by (simp add: rev_edge_def)
    ultimately show "e \<in> {(i, True) |i. (i, True) \<in> out_of ?as ?R}" by blast
  next
    fix e assume "e \<in> {(i, True) |i. (i, True) \<in> out_of ?as ?R}"
    then obtain i where "e = (i, True)" "e \<in> out_of ?as ?R" by blast
    then have "rev_edge e \<in> edges_of ?as" "edge_source ?as (rev_edge e) \<notin> ?R" "\<not> snd (rev_edge e)"
      "edge_target ?as (rev_edge e) \<in> ?R"
      unfolding rev_edge_simps by (simp_all only: out_of_def mem_Collect_eq rev_edge_def snd_conv not_True_eq_False not_False_eq_True)
    then have "rev_edge e \<in> {e \<in> edges_of ?as. edge_source ?as e \<notin> ?R \<and> \<not> snd e \<and> edge_target ?as e \<in> ?R}"
      by blast
    from imageI [OF this, of rev_edge]
    show "e \<in> rev_edge ` {e \<in> edges_of ?as. edge_source ?as e \<notin> ?R \<and> \<not> snd e \<and> edge_target ?as e \<in> ?R}"
      by (simp only: rev_edge_simps(1))
  qed
  finally show ?thesis using r(1) by (simp add: getSeparatingEdges_def)
qed

lemma vertexSeparatorFromEdgeSeparator_spec:
  assumes n: "network vs E A B p lev (arcs g)" and f: "frame vs g"
  shows "\<forall>e\<in>set es. snd e \<and> fst e < length vs \<Longrightarrow>
    vertexSeparatorFromEdgeSeparator g es = Some (map (\<lambda>e. vs ! fst e) es)"
proof (induction es)
  case (Cons e es)
  obtain i where i: "e = (i, True)" "i < length vs" using Cons.prems by (cases e) auto
  then show ?case using Cons inner_arc_edges [OF n i(2)] f by (simp add: frame_def)
qed simp

lemma vertex_capacity_sum:
  "(\<Sum>a\<in>set vertA. vertex_capacity vertA forbidden unpreferred a) < 2 * int (length vertA) + 1 + int (length unpreferred)"
  if "set vertA \<inter> set forbidden = {}"
proof -
  have "(\<Sum>a\<in>set vertA. vertex_capacity vertA forbidden unpreferred a) =
      (\<Sum>a\<in>set vertA. 2 + (if a \<in> set unpreferred then 1 else 0))"
    by (rule sum.cong) (use that in \<open>auto simp: vertex_capacity_def\<close>)
  also have "\<dots> = 2 * int (card (set vertA)) + int (card (set vertA \<inter> set unpreferred))"
    by (simp add: sum.distrib sum.If_cases)
  also have "\<dots> \<le> 2 * int (length vertA) + int (length unpreferred)"
    using card_length [of vertA] card_length [of unpreferred] card_mono [of "set unpreferred" "set vertA \<inter> set unpreferred"]
    by simp
  finally show ?thesis by simp
qed

lemma getVertexSeparator_cut:
  assumes "distinct vs" "\<forall>(u, w)\<in>set es. u \<in> set vs \<and> w \<in> set vs"
    and sub: "set vertA \<subseteq> set vs" "set vertB \<subseteq> set vs" "set forbidden \<subseteq> set vs" "set to_avoid \<subseteq> set vs"
    and disj: "set vertA \<inter> set forbidden = {}" "set to_avoid \<inter> set forbidden = {}"
    and mf: "\<forall>g. separator_network (new_GraphSeparator vs es) vertA vertB forbidden to_avoid = Some g \<longrightarrow>
      documented_max_flow (arcs g) 0 (nof_vertices g - 1) (max_flow g 0 (nof_vertices g - 1))"
  shows "\<exists>sep. getVertexSeparator max_flow vs es vertA vertB forbidden to_avoid = Some sep \<and>
    set sep \<subseteq> set vs \<and> set sep \<inter> set forbidden = {} \<and> separates (set es) (set vertA) (set vertB) (set sep)"
proof -
  let ?p = "2 * int (length vertA) + 1 + int (length to_avoid)"
  let ?lev = "vertex_capacity vertA forbidden to_avoid"
  obtain g where g: "separator_network (new_GraphSeparator vs es) vertA vertB forbidden to_avoid = Some g"
    and frame: "frame vs g" and n: "network vs (set es) (set vertA) (set vertB) ?p ?lev (arcs g)"
    using separator_network_spec [OF assms(1,2) sub] by blast
  have nv: "nof_vertices g - 1 = 2 * length vs + 1" using frame by (simp add: frame_def)
  define res where "res = max_flow g 0 (2 * length vs + 1)"
  let ?R = "residual_reach (arcs g) res 0"
  have f: "documented_max_flow (arcs g) 0 (2 * length vs + 1) res" using mf g nv by (auto simp: res_def)
  have small: "capacity (arcs g) (i, True) < ?p" if "(i, True) \<in> out_of (arcs g) ?R" for i
  proof -
    have "finite (out_of (arcs g) ?R)" by (rule finite_subset [of _ "edges_of (arcs g)"]) (auto simp: out_of_def)
    then have "capacity (arcs g) (i, True) \<le> (\<Sum>e\<in>out_of (arcs g) ?R. capacity (arcs g) e)"
      using that network_capacity(1) [OF n] by (intro member_le_sum) (auto simp: out_of_def)
    also have "\<dots> \<le> (\<Sum>e\<in>out_of (arcs g) (insert 0 ((\<lambda>a. 2 * pos vs a + 1) ` set vertA)). capacity (arcs g) e)"
      by (rule min_cut_le [OF f network_endpoints [OF n]]) (use sub(1) pos_nth in fastforce)+
    also have "\<dots> \<le> (\<Sum>a\<in>set vertA. ?lev a)" by (rule first_set_cut [OF n sub(1)]) simp
    also have "\<dots> < ?p" by (rule vertex_capacity_sum [OF disj(1)])
    finally show ?thesis .
  qed
  have internal: "i < length vs" if "(i, True) \<in> out_of (arcs g) ?R" for i
    by (rule internal_cut [OF n f small that])
  obtain cut where cut: "getSeparatingEdges g res 0 = Some cut"
    "set cut = {(i, True) |i. (i, True) \<in> out_of (arcs g) ?R}"
    using getSeparatingEdges_spec [OF n frame] by blast
  let ?sep = "map (\<lambda>e. vs ! fst e) cut"
  have "vertexSeparatorFromEdgeSeparator g cut = Some ?sep"
    by (rule vertexSeparatorFromEdgeSeparator_spec [OF n frame]) (use cut(2) internal in auto)
  then have "getVertexSeparator max_flow vs es vertA vertB forbidden to_avoid = Some ?sep"
    using g cut(1) nv by (simp add: getVertexSeparator_def getVertexSeparator_graph_def res_def)
  moreover have sep: "v \<in> set ?sep \<longleftrightarrow> v \<in> set vs \<and> (pos vs v, True) \<in> out_of (arcs g) ?R" for v
  proof -
    have "v \<in> set ?sep \<longleftrightarrow> (\<exists>i. v = vs ! i \<and> (i, True) \<in> out_of (arcs g) ?R)" using cut(2) by force
    then show ?thesis using internal nth_pos [OF assms(1)] pos_nth by (metis nth_mem)
  qed
  moreover have "v \<notin> set forbidden" if "v \<in> set ?sep" for v
  proof
    assume "v \<in> set forbidden"
    moreover have "v \<notin> set to_avoid" using calculation disj(2) by blast
    ultimately have "capacity (arcs g) (pos vs v, True) = ?p"
      using inner_arc_edges(3) [OF n, of "pos vs v"] pos_nth [of v vs] sub(3) by (auto simp: vertex_capacity_def)
    then show False using small [of "pos vs v"] that sep by simp
  qed
  moreover have "separates (set es) (set vertA) (set vertB) (set ?sep)"
    unfolding separates_def
  proof (intro allI impI notI, elim conjE)
    fix ps assume ps: "ps \<noteq> []" "hd ps \<in> set vertA" "List.last ps \<in> set vertB"
      "successively (\<lambda>u w. (u, w) \<in> set es) ps" and free: "set ps \<inter> set ?sep = {}"
    have forward: "edge_target (arcs g) (i, True) \<in> ?R"
      if "i < length (arcs g)" "edge_source (arcs g) (i, True) \<in> ?R" "length vs \<le> i" for i
      using internal [of i] that by (auto simp: out_of_def)
    have arc: "t \<in> ?R" if has: "has_arc (arcs g) s t" and s: "s \<in> ?R" "even s" for s t
    proof -
      obtain i where i: "i < length (arcs g)" "edge_source (arcs g) (i, True) = s" "edge_target (arcs g) (i, True) = t"
        using has by (auto simp: has_arc_def in_set_conv_nth edge_source_def edge_target_def)
      moreover have "length vs \<le> i"
      proof (rule ccontr)
        assume "\<not> length vs \<le> i"
        then show False using inner_arc_edges(1) [OF n, of i] i(2) s(2) by simp
      qed
      ultimately show ?thesis using forward s(1) by blast
    qed
    have through: "2 * pos vs v + 2 \<in> ?R" if v: "2 * pos vs v + 1 \<in> ?R" "v \<in> set vs" "v \<notin> set ?sep" for v
      using v sep [of v] inner_arc_edges(1,2) [OF n, of "pos vs v"] pos_nth [OF v(2)] networkD(1) [OF n]
      by (auto simp: out_of_def)
    have inv: "\<forall>v\<in>set qs. v \<in> set vs \<and> 2 * pos vs v + 1 \<in> ?R"
      if "qs \<noteq> []" "hd qs \<in> set vs" "2 * pos vs (hd qs) + 1 \<in> ?R" "successively (\<lambda>u w. (u, w) \<in> set es) qs"
        "set qs \<inter> set ?sep = {}" for qs
      using that
    proof (induction qs rule: induct_list012)
      case (3 u w qs)
      have "(u, w) \<in> set es" using 3 by simp
      then have w: "w \<in> set vs" "has_arc (arcs g) (2 * pos vs u + 2) (2 * pos vs w + 1)"
        using assms(2) networkD(5) [OF n] by auto
      have "2 * pos vs u + 2 \<in> ?R" using through [of u] 3 by auto
      then have "2 * pos vs w + 1 \<in> ?R" using arc [OF w(2)] by simp
      then show ?case using 3 w(1) by auto
    qed auto
    have hd: "hd ps \<in> set vs" "2 * pos vs (hd ps) + 1 \<in> ?R"
      using arc [OF networkD(6) [OF n ps(2)] residual_start] sub(1) ps(2) by auto
    have "List.last ps \<in> set ps" using ps(1) by simp
    then have last: "List.last ps \<in> set vs" "2 * pos vs (List.last ps) + 1 \<in> ?R" "List.last ps \<notin> set ?sep"
      using inv [OF ps(1) hd ps(4) free] free by blast+
    have "2 * length vs + 1 \<in> ?R"
      using arc [OF networkD(7) [OF n ps(3)] through [OF last(2,1,3)]] by simp
    then show False using f by (simp add: documented_max_flow_def)
  qed
  ultimately show ?thesis by (intro exI [of _ ?sep]) auto
qed

text \<open>C4: For every maximum flow the library may return, the computed set of vertices separates
  the first from the second set: each path between them contains one of its vertices. It
  contains no forbidden vertex, and the assertion that only internal edges are cut never
  fails.\<close>

theorem getVertexSeparator_separates:
  assumes "distinct vs" "\<forall>(u, w)\<in>set es. u \<in> set vs \<and> w \<in> set vs"
    and sub: "set vertA \<subseteq> set vs" "set vertB \<subseteq> set vs" "set forbidden \<subseteq> set vs" "set to_avoid \<subseteq> set vs"
    and disj: "set vertA \<inter> set forbidden = {}" "set to_avoid \<inter> set forbidden = {}"
    and mf: "\<forall>g. separator_network (new_GraphSeparator vs es) vertA vertB forbidden to_avoid = Some g \<longrightarrow>
      documented_max_flow (arcs g) 0 (nof_vertices g - 1) (max_flow g 0 (nof_vertices g - 1))"
  shows "\<exists>sep. getVertexSeparator max_flow vs es vertA vertB forbidden to_avoid = Some sep \<and>
    set sep \<subseteq> set vs \<and> set sep \<inter> set forbidden = {} \<and> separates (set es) (set vertA) (set vertB) (set sep)"
  using assms by (rule getVertexSeparator_cut)

text \<open>
  A certificate that a result is a maximum flow, checked by evaluation: conservation at every inner
  vertex, and a set of vertices with the source that no edge with a positive residual leaves.
\<close>

definition flow_certificate :: "arc list \<Rightarrow> nat \<Rightarrow> nat \<Rightarrow> nat \<Rightarrow> (edge \<Rightarrow> int) \<Rightarrow> nat list \<Rightarrow> bool" where
  "flow_certificate as n s t res closed \<longleftrightarrow>
     list_all (\<lambda>a. arc_source a < n \<and> arc_target a < n) as \<and>
     list_all (\<lambda>e. 0 \<le> res e \<and> res e + res (rev_edge e) = capacity as e + capacity as (rev_edge e)) (all_edges as) \<and>
     list_all (\<lambda>v. v = s \<or> v = t \<or> sum_list (map (flow as res) (out_edges as v)) = 0) [0..<n] \<and>
     s \<in> set closed \<and> t \<notin> set closed \<and>
     list_all (\<lambda>e. edge_source as e \<in> set closed \<and> res e > 0 \<longrightarrow> edge_target as e \<in> set closed) (all_edges as)"

lemma distinct_all_edges: "distinct (all_edges as)"
proof -
  have "distinct (concat (map (\<lambda>i. [(i, True), (i, False)]) [0..<n]))" for n :: nat
    by (induction n) auto
  then show ?thesis by (simp add: all_edges_def)
qed

lemma flow_certificate:
  assumes "flow_certificate as n s t res closed"
  shows "documented_max_flow as s t res"
proof -
  have c: "\<forall>e\<in>edges_of as. 0 \<le> res e \<and> res e + res (rev_edge e) = capacity as e + capacity as (rev_edge e)"
    "\<forall>v<n. v = s \<or> v = t \<or> sum_list (map (flow as res) (out_edges as v)) = 0" "s \<in> set closed" "t \<notin> set closed"
    "\<forall>e\<in>edges_of as. edge_source as e \<in> set closed \<and> res e > 0 \<longrightarrow> edge_target as e \<in> set closed" "endpoints_below n as"
    using assms by (simp_all add: flow_certificate_def list_all_iff set_all_edges endpoints_below_def)
  have "(\<Sum>e\<in>{e \<in> edges_of as. edge_source as e = v}. flow as res e) = 0" if v: "v \<noteq> s \<and> v \<noteq> t" for v
  proof (cases "v < n")
    case True
    have "distinct (out_edges as v)" by (simp add: out_edges_def distinct_all_edges)
    then have "(\<Sum>e\<in>set (out_edges as v). flow as res e) = sum_list (map (flow as res) (out_edges as v))"
      by (simp add: sum_list_distinct_conv_sum_set)
    then show ?thesis using c(2) [rule_format, OF True] v by (simp add: set_out_edges)
  next
    case False
    then have "{e \<in> edges_of as. edge_source as e = v} = {}" using edge_target_below [OF c(6)] by fastforce
    then show ?thesis by (simp only: sum.empty)
  qed
  moreover have "v \<in> set closed" if "v \<in> residual_reach as res s" for v
    using that by induction (use c(3,5) in auto)
  ultimately show ?thesis using c(1,4) by (auto simp: documented_max_flow_def)
qed

text \<open>A path of three vertices; two units of flow saturate the first of them.\<close>

definition demo_max_flow :: max_flow where
  "demo_max_flow g s t e = (if snd e then capacity (arcs g) e - 2 else 2)"

lemma demo_network:
  "map_option (\<lambda>g. flow_certificate (arcs g) (nof_vertices g) 0 (nof_vertices g - 1)
       (demo_max_flow g 0 (nof_vertices g - 1)) [0, 1])
     (separator_network (new_GraphSeparator [1, 2, 3] [(1, 2), (2, 3)]) [1] [3] [] []) = Some True"
  by code_simp

theorem getVertexSeparator_separates_witness:
  "\<exists>sep. getVertexSeparator demo_max_flow [1, 2, 3] [(1, 2), (2, 3)] [1] [3] [] [] = Some sep \<and>
    set sep \<subseteq> {1, 2, 3} \<and> separates {(1, 2), (2, 3)} {1} {3} (set sep)"
proof -
  have "\<forall>g. separator_network (new_GraphSeparator [1, 2, 3] [(1, 2), (2, 3)]) [1] [3] [] [] = Some g \<longrightarrow>
      documented_max_flow (arcs g) 0 (nof_vertices g - 1) (demo_max_flow g 0 (nof_vertices g - 1))"
    using demo_network by (auto intro: flow_certificate)
  then show ?thesis
    using getVertexSeparator_separates [of "[1, 2, 3]" "[(1, 2), (2, 3)]" "[1]" "[3]" "[]" "[]" demo_max_flow]
    by simp
qed

end
