(* ===== verification/SupportTracker_Correct.thy ===== *)
theory SupportTracker_Correct
  imports SupportTracker GraphSeparator_Correct "HOL-Library.Multiset"
begin

text \<open>
  What the conflict analysis guarantees. The tracker is well formed when universal, arbiter and
  existential variables are told apart and supports are filed accordingly, which every operation
  preserves. For a conflict, the variables followed from its literals through active rules are
  \<open>explored\<close>; \<open>getForcedSource\<close> answers with the one unforced variable whose extended dependencies
  cover the others, and the separator computed for it determines the conflict.
\<close>

section \<open>Well-formed trackers\<close>

definition tracker_wf :: "support_tracker \<Rightarrow> bool" where
  "tracker_wf t \<longleftrightarrow>
     tracked_universals t \<inter> tracked_arbiters t = {} \<and> tracked_universals t \<inter> dom (no_forcing_active t) = {} \<and>
     tracked_arbiters t \<inter> dom (no_forcing_active t) = {} \<and> finite (dom (no_forcing_active t)) \<and>
     (\<forall>v\<in>tracked_universals t \<union> tracked_arbiters t \<union> dom (no_forcing_active t). 0 < v) \<and>
     (\<forall>av. set (entry (activity_existentials t) av) \<subseteq> dom (no_forcing_active t) \<and>
           set (entry (activity_universals t) av) \<subseteq> tracked_universals t \<and>
           set (entry (activity_arbiters t) av) \<subseteq> tracked_arbiters t)"

lemma tracker_wfD:
  assumes "tracker_wf t"
  shows "tracked_universals t \<inter> tracked_arbiters t = {}" "tracked_universals t \<inter> dom (no_forcing_active t) = {}"
    "tracked_arbiters t \<inter> dom (no_forcing_active t) = {}" "finite (dom (no_forcing_active t))"
    "set (entry (activity_existentials t) av) \<subseteq> dom (no_forcing_active t)"
    "set (entry (activity_universals t) av) \<subseteq> tracked_universals t"
    "set (entry (activity_arbiters t) av) \<subseteq> tracked_arbiters t"
    "v \<in> tracked_universals t \<union> tracked_arbiters t \<union> dom (no_forcing_active t) \<Longrightarrow> 0 < v"
  using assms unfolding tracker_wf_def by blast+

lemma entry_push: "entry (push_entry m k x) j = (if j = k then entry m k @ [x] else entry m j)"
  by (simp add: entry_def push_entry_def)

lemma entry_empty [simp]: "entry Map.empty k = []"
  by (simp add: entry_def)

text \<open>The calls of the clients, each with what the client keeps to.\<close>

datatype tracker_call =
    Arbiter int
  | No_Forced int int
  | Defining int clause int
  | Alias int int

fun tracker_step :: "tracker_call \<Rightarrow> support_tracker \<Rightarrow> support_tracker" where
  "tracker_step (Arbiter a) t = addArbiterVariable a t"
| "tracker_step (No_Forced v a) t = setNoForcedVariable v a t"
| "tracker_step (Defining v c av) t = addDefiningClause v c av t"
| "tracker_step (Alias v a) t = setAlias v a t"

fun call_ok :: "support_tracker \<Rightarrow> tracker_call \<Rightarrow> bool" where
  "call_ok t (Arbiter a) \<longleftrightarrow> 0 < a \<and> a \<notin> tracked_universals t \<and> no_forcing_active t a = None"
| "call_ok t (No_Forced v a) \<longleftrightarrow> 0 < v \<and> v \<notin> tracked_universals t \<and> v \<notin> tracked_arbiters t"
| "call_ok t (Defining v c av) \<longleftrightarrow> True"
| "call_ok t (Alias v a) \<longleftrightarrow> True"

fun calls_ok :: "support_tracker \<Rightarrow> tracker_call list \<Rightarrow> bool" where
  "calls_ok t [] = True"
| "calls_ok t (k # ks) = (call_ok t k \<and> calls_ok (tracker_step k t) ks)"

definition track :: "tracker_call list \<Rightarrow> support_tracker \<Rightarrow> support_tracker" where
  "track ks t = fold tracker_step ks t"

lemma addSupportVariable_frame [simp]:
  "tracked_universals (addSupportVariable av v t) = tracked_universals t"
  "tracked_arbiters (addSupportVariable av v t) = tracked_arbiters t"
  "no_forcing_active (addSupportVariable av v t) = no_forcing_active t"
  "activity_variables (addSupportVariable av v t) = activity_variables t"
  "variable_to_alias (addSupportVariable av v t) = variable_to_alias t"
  "alias_to_variable (addSupportVariable av v t) = alias_to_variable t"
  by (simp_all add: addSupportVariable_def)

lemma addSupportVariable_wf: "tracker_wf t \<Longrightarrow> tracker_wf (addSupportVariable av v t)"
  unfolding tracker_wf_def addSupportVariable_frame
  by (auto simp: addSupportVariable_def entry_push split: if_splits)

lemma addDefiningClause_wf: "tracker_wf t \<Longrightarrow> tracker_wf (addDefiningClause v c av t)"
proof -
  assume "tracker_wf t"
  then have "tracker_wf (t\<lparr>activity_variables := push_entry (activity_variables t) v av\<rparr>)" by (simp add: tracker_wf_def)
  moreover have "tracker_wf s \<Longrightarrow> tracker_wf (fold (\<lambda>l. addSupportVariable av (var l)) c s)" for s
    by (induction c arbitrary: s) (simp_all add: addSupportVariable_wf)
  ultimately show ?thesis by (simp add: addDefiningClause_def)
qed

lemma tracker_step_wf:
  assumes "tracker_wf t" "call_ok t k"
  shows "tracker_wf (tracker_step k t)"
proof (cases k)
  case (Arbiter a)
  then show ?thesis using assms by (auto simp: tracker_wf_def addArbiterVariable_def)
next
  case (No_Forced v a)
  then show ?thesis using assms by (auto simp: tracker_wf_def setNoForcedVariable_def)
next
  case (Defining v c av)
  then show ?thesis using assms by (simp add: addDefiningClause_wf)
next
  case (Alias v a)
  then show ?thesis using assms(1) by (simp add: tracker_wf_def setAlias_def)
qed

lemma new_tracker_wf: "\<forall>u\<in>set us. 0 < u \<Longrightarrow> tracker_wf (new_SupportTracker us)"
  by (simp add: tracker_wf_def new_SupportTracker_def)

lemma track_wf_holds:
  assumes "\<forall>u\<in>set us. 0 < u" "calls_ok (new_SupportTracker us) ks"
  shows "tracker_wf (track ks (new_SupportTracker us))"
proof -
  have "tracker_wf t \<Longrightarrow> calls_ok t ks \<Longrightarrow> tracker_wf (track ks t)" for t
    by (induction ks arbitrary: t) (simp_all add: track_def tracker_step_wf)
  then show ?thesis using assms new_tracker_wf by blast
qed

text \<open>
  What a sequence of registrations should leave behind, read off the sequence itself. The sort of a
  variable is the one it has been given so far; an existential registration goes before the others.
\<close>

datatype variable_sort = Existential | Universal | Arbiter_Variable

definition registered_forcing :: "tracker_call list \<Rightarrow> (int \<rightharpoonup> int)" where
  "registered_forcing ks = map_of (rev (concat (map (\<lambda>k. case k of No_Forced v a \<Rightarrow> [(v, a)] | _ \<Rightarrow> []) ks)))"

definition registered_aliases :: "tracker_call list \<Rightarrow> (int \<rightharpoonup> int)" where
  "registered_aliases ks = map_of (rev (concat (map (\<lambda>k. case k of Alias v a \<Rightarrow> [(v, a)] | _ \<Rightarrow> []) ks)))"

definition registered_alias_variables :: "tracker_call list \<Rightarrow> (int \<rightharpoonup> int)" where
  "registered_alias_variables ks = map_of (rev (concat (map (\<lambda>k. case k of Alias v a \<Rightarrow> [(a, v)] | _ \<Rightarrow> []) ks)))"

lemmas registered_defs = registered_forcing_def registered_aliases_def registered_alias_variables_def

definition registered_sort :: "int list \<Rightarrow> tracker_call list \<Rightarrow> int \<Rightarrow> variable_sort option" where
  "registered_sort us ks v =
     (if registered_forcing ks v \<noteq> None then Some Existential
      else if v \<in> set us then Some Universal
      else if Arbiter v \<in> set ks then Some Arbiter_Variable
      else None)"

text \<open>The variables of one sort in the clauses registered for an activity variable, in order.\<close>

definition registered_support :: "int list \<Rightarrow> tracker_call list \<Rightarrow> variable_sort \<Rightarrow> int \<Rightarrow> int list" where
  "registered_support us ks kind av =
     concat (map (\<lambda>i. case ks ! i of
         Defining v c av' \<Rightarrow>
           (if av' = av then filter (\<lambda>x. registered_sort us (take i ks) x = Some kind) (map var c) else [])
       | _ \<Rightarrow> []) [0..<length ks])"

definition registered_rules :: "tracker_call list \<Rightarrow> int \<Rightarrow> int list" where
  "registered_rules ks v =
     concat (map (\<lambda>k. case k of Defining v' c av \<Rightarrow> (if v' = v then [av] else []) | _ \<Rightarrow> []) ks)"

lemma registered_support_snoc:
  "registered_support us (ks @ [k]) kind av = registered_support us ks kind av @
     (case k of
        Defining v c av' \<Rightarrow> (if av' = av then filter (\<lambda>x. registered_sort us ks x = Some kind) (map var c) else [])
      | _ \<Rightarrow> [])"
proof -
  let ?part = "\<lambda>ks i. case ks ! i of
      Defining v c av' \<Rightarrow> (if av' = av then filter (\<lambda>x. registered_sort us (take i ks) x = Some kind) (map var c) else [])
    | _ \<Rightarrow> []"
  have "map (?part (ks @ [k])) [0..<length ks] = map (?part ks) [0..<length ks]"
    by (rule map_cong) (auto simp: nth_append split: tracker_call.splits)
  moreover have "registered_support us (ks @ [k]) kind av = concat (map (?part (ks @ [k])) [0..<length ks]) @ ?part (ks @ [k]) (length ks)"
    by (simp add: registered_support_def)
  moreover have "registered_support us ks kind av = concat (map (?part ks) [0..<length ks])" by (simp only: registered_support_def)
  ultimately have "registered_support us (ks @ [k]) kind av = registered_support us ks kind av @ ?part (ks @ [k]) (length ks)"
    by (simp only:)
  then show ?thesis by (cases k) simp_all
qed

text \<open>The tracker agrees with the sequence.\<close>

definition tracks :: "int list \<Rightarrow> tracker_call list \<Rightarrow> support_tracker \<Rightarrow> bool" where
  "tracks us ks t \<longleftrightarrow>
     tracked_universals t = set us \<and> tracked_arbiters t = {a. Arbiter a \<in> set ks} \<and>
     no_forcing_active t = registered_forcing ks \<and>
     variable_to_alias t = registered_aliases ks \<and> alias_to_variable t = registered_alias_variables ks \<and>
     (\<forall>v. entry (activity_variables t) v = registered_rules ks v) \<and>
     (\<forall>av. entry (activity_existentials t) av = registered_support us ks Existential av \<and>
           entry (activity_universals t) av = registered_support us ks Universal av \<and>
           entry (activity_arbiters t) av = registered_support us ks Arbiter_Variable av)"

lemma addSupportVariables_entries:
  fixes c :: clause and t :: support_tracker and av :: int
  defines "t' \<equiv> fold (\<lambda>l. addSupportVariable av (var l)) c t"
  shows "tracked_universals t' = tracked_universals t \<and> tracked_arbiters t' = tracked_arbiters t \<and>
    no_forcing_active t' = no_forcing_active t \<and> activity_variables t' = activity_variables t \<and>
    variable_to_alias t' = variable_to_alias t \<and> alias_to_variable t' = alias_to_variable t \<and>
    (\<forall>k. entry (activity_existentials t') k = entry (activity_existentials t) k @
        (if k = av then filter (\<lambda>x. no_forcing_active t x \<noteq> None) (map var c) else [])) \<and>
    (\<forall>k. entry (activity_universals t') k = entry (activity_universals t) k @
        (if k = av then filter (\<lambda>x. no_forcing_active t x = None \<and> x \<in> tracked_universals t) (map var c) else [])) \<and>
    (\<forall>k. entry (activity_arbiters t') k = entry (activity_arbiters t) k @
        (if k = av then filter (\<lambda>x. no_forcing_active t x = None \<and> x \<notin> tracked_universals t \<and> x \<in> tracked_arbiters t) (map var c) else []))"
  unfolding t'_def
proof (induction c arbitrary: t)
  case (Cons l c)
  note frame = addSupportVariable_frame [of av "var l" t]
  show ?case
    using Cons.IH [of "addSupportVariable av (var l) t"] unfolding frame
    by (simp add: addSupportVariable_def entry_push)
qed simp

lemma tracks_step:
  assumes "tracks us ks t"
  shows "tracks us (ks @ [k]) (tracker_step k t)"
proof (cases k)
  case (Defining v c av)
  let ?t = "t\<lparr>activity_variables := push_entry (activity_variables t) v av\<rparr>"
  have E: "(\<lambda>x. no_forcing_active t x \<noteq> None) = (\<lambda>x. registered_sort us ks x = Some Existential)"
    and U: "(\<lambda>x. no_forcing_active t x = None \<and> x \<in> tracked_universals t) = (\<lambda>x. registered_sort us ks x = Some Universal)"
    and A: "(\<lambda>x. no_forcing_active t x = None \<and> x \<notin> tracked_universals t \<and> x \<in> tracked_arbiters t) =
      (\<lambda>x. registered_sort us ks x = Some Arbiter_Variable)"
    using assms by (auto simp: tracks_def registered_sort_def)
  have step: "tracker_step k t = fold (\<lambda>l. addSupportVariable av (var l)) c ?t"
    by (simp add: Defining addDefiningClause_def)
  have fields: "no_forcing_active ?t = no_forcing_active t" "tracked_universals ?t = tracked_universals t"
    "tracked_arbiters ?t = tracked_arbiters t" "activity_existentials ?t = activity_existentials t"
    "activity_universals ?t = activity_universals t" "activity_arbiters ?t = activity_arbiters t"
    "activity_variables ?t = push_entry (activity_variables t) v av"
    "variable_to_alias ?t = variable_to_alias t" "alias_to_variable ?t = alias_to_variable t" by simp_all
  note entries = addSupportVariables_entries [of av c ?t, unfolded fields E U A, folded step]
  have rules: "registered_rules (ks @ [k]) x = registered_rules ks x @ (if v = x then [av] else [])" for x
    by (simp add: registered_rules_def Defining)
  have same: "registered_forcing (ks @ [k]) = registered_forcing ks" "registered_aliases (ks @ [k]) = registered_aliases ks"
    "registered_alias_variables (ks @ [k]) = registered_alias_variables ks"
    by (simp_all add: registered_defs Defining)
  have support: "registered_support us (ks @ [k]) kind x = registered_support us ks kind x @
      (if x = av then filter (\<lambda>x. registered_sort us ks x = Some kind) (map var c) else [])" for kind x
    by (simp add: registered_support_snoc Defining)
  show ?thesis using entries assms unfolding tracks_def rules same support
    by (simp add: entry_push Defining)
qed (use assms in \<open>auto simp: tracks_def registered_support_snoc registered_rules_def registered_defs addArbiterVariable_def
    setNoForcedVariable_def setAlias_def\<close>)

lemma tracks_track: "tracks us ks (track ks (new_SupportTracker us))"
proof (induction ks rule: rev_induct)
  case (snoc k ks)
  then show ?case using tracks_step by (simp add: track_def)
qed (simp add: tracks_def track_def new_SupportTracker_def entry_def registered_rules_def registered_support_def registered_defs)

text \<open>
  C11: After any sequence of registrations the tracker holds exactly what was registered. The
  activity variables of a variable are those of its clauses, in order; the existential, universal
  and arbiter support of an activity variable are the variables of its clauses, in order and with
  repetitions, that had been registered as existential, or else were universal, or else had been
  registered as arbiters when their clause came. A variable without a sort at that time, and no
  other, is in no support. Forcing activity variables and aliases are the ones registered last.
\<close>

theorem track_records:
  "tracked_universals (track ks (new_SupportTracker us)) = set us \<and>
   tracked_arbiters (track ks (new_SupportTracker us)) = {a. Arbiter a \<in> set ks} \<and>
   no_forcing_active (track ks (new_SupportTracker us)) = registered_forcing ks \<and>
   variable_to_alias (track ks (new_SupportTracker us)) = registered_aliases ks \<and>
   alias_to_variable (track ks (new_SupportTracker us)) = registered_alias_variables ks \<and>
   entry (activity_variables (track ks (new_SupportTracker us))) v = registered_rules ks v \<and>
   entry (activity_existentials (track ks (new_SupportTracker us))) av = registered_support us ks Existential av \<and>
   entry (activity_universals (track ks (new_SupportTracker us))) av = registered_support us ks Universal av \<and>
   entry (activity_arbiters (track ks (new_SupportTracker us))) av = registered_support us ks Arbiter_Variable av"
  using tracks_track [of us ks] by (simp add: tracks_def)

section \<open>Exploration\<close>

definition connected_existentials :: "(int \<Rightarrow> int) \<Rightarrow> support_tracker \<Rightarrow> int \<Rightarrow> int list" where
  "connected_existentials val t v =
     (case active_rule val t v of None \<Rightarrow> []
      | Some av \<Rightarrow> filter (counted val t) (entry (activity_existentials t) av))"

definition connected :: "(int \<Rightarrow> int) \<Rightarrow> support_tracker \<Rightarrow> int \<Rightarrow> int list" where
  "connected val t v =
     (case active_rule val t v of None \<Rightarrow> []
      | Some av \<Rightarrow> entry (activity_universals t) av @ entry (activity_arbiters t) av @
          filter (counted val t) (entry (activity_existentials t) av))"

inductive explored :: "(int \<Rightarrow> int) \<Rightarrow> support_tracker \<Rightarrow> int set \<Rightarrow> int \<Rightarrow> bool"
  for val :: "int \<Rightarrow> int" and t :: support_tracker and roots :: "int set" where
  explored_root: "v \<in> roots \<Longrightarrow> explored val t roots v"
| explored_step: "explored val t roots v \<Longrightarrow> isForced val t v = Some True \<Longrightarrow>
    e \<in> set (connected_existentials val t v) \<Longrightarrow> explored val t roots e"

text \<open>The existential variables among the literals of a conflict.\<close>

definition conflict_variables :: "support_tracker \<Rightarrow> int list \<Rightarrow> int set" where
  "conflict_variables t literals = (\<lambda>l. var (fromAlias t l)) ` set literals"

definition conflict_existentials :: "support_tracker \<Rightarrow> int list \<Rightarrow> int set" where
  "conflict_existentials t literals =
     conflict_variables t literals - tracked_universals t - tracked_arbiters t"

lemma connected_set: "set (connected val t v) =
    (case active_rule val t v of None \<Rightarrow> {}
     | Some av \<Rightarrow> set (entry (activity_universals t) av) \<union> set (entry (activity_arbiters t) av)) \<union>
    set (connected_existentials val t v)"
  by (auto simp: connected_def connected_existentials_def split: option.splits)

lemma connected_existentials_dom:
  "tracker_wf t \<Longrightarrow> set (connected_existentials val t v) \<subseteq> dom (no_forcing_active t)"
  using tracker_wfD(5) by (fastforce simp: connected_existentials_def split: option.splits)

lemma explored_dom:
  assumes "tracker_wf t" "roots \<subseteq> dom (no_forcing_active t)" "explored val t roots v"
  shows "v \<in> dom (no_forcing_active t)"
  using assms(3) by induction (use assms(1,2) connected_existentials_dom in blast)+

lemma isForced_dom: "v \<in> dom (no_forcing_active t) \<Longrightarrow> \<exists>b. isForced val t v = Some b"
  by (auto simp: isForced_def)

section \<open>The forced source\<close>

lemma insertSupport_fields [simp]:
  "sup_seen (insertSupport val t v s) = insert v (sup_seen s)"
  "set (sup_existentials (insertSupport val t v s)) =
     set (sup_existentials s) \<union> (set (connected_existentials val t v) - insert v (sup_seen s))"
  by (auto simp: insertSupport_def connected_existentials_def Let_def split: option.split)

text \<open>
  The stack is worked off: everything seen has its support seen or on the stack, and the sources
  are the unforced variables seen.
\<close>

definition sources_inv ::
  "(int \<Rightarrow> int) \<Rightarrow> support_tracker \<Rightarrow> int set \<Rightarrow> support_state \<Rightarrow> int list \<Rightarrow> bool" where
  "sources_inv val t R s sources \<longleftrightarrow>
     (\<forall>v\<in>set (sup_existentials s) \<union> sup_seen s. explored val t R v) \<and>
     R \<subseteq> sup_seen s \<union> set (sup_existentials s) \<and>
     (\<forall>v\<in>sup_seen s. isForced val t v = Some True \<longrightarrow>
        set (connected_existentials val t v) \<subseteq> sup_seen s \<union> set (sup_existentials s)) \<and>
     (\<forall>v. v \<in> set sources \<longleftrightarrow> v \<in> sup_seen s \<and> isForced val t v = Some False) \<and> distinct sources"

lemma sources_inv_insertSupport:
  assumes "sources_inv val t R s sources" "explored val t R v" "isForced val t v = Some True"
  shows "sources_inv val t R (insertSupport val t v s) sources"
  using assms(1) explored_step [OF assms(2,3)] assms(2,3) unfolding sources_inv_def insertSupport_fields by auto

lemma sources_inv_finished:
  assumes "sources_inv val t R s sources" "sup_existentials s = []" "explored val t R v"
  shows "v \<in> sup_seen s"
  using assms(3)
proof induction
  case (explored_step v e)
  then show ?case using assms(1,2) unfolding sources_inv_def by auto
qed (use assms(1,2) in \<open>auto simp: sources_inv_def\<close>)

lemma last_in: "xs \<noteq> [] \<Longrightarrow> set xs = insert (List.last xs) (set (butlast xs))"
  by (metis append_butlast_last_id list.set(1) list.set(2) set_append sup_commute insert_is_Un)

lemma forced_sources_loop_spec:
  assumes wf: "tracker_wf t" and R: "R \<subseteq> dom (no_forcing_active t)" and inv: "sources_inv val t R s sources"
  shows "\<exists>s' sources'. forced_sources_loop val t s sources = Some (s', sources') \<and>
    sources_inv val t R s' sources' \<and> sup_existentials s' = []"
  using inv
proof (induction "(s, sources)" arbitrary: s sources
    rule: wf_induct_rule [OF wf_measures [of "[\<lambda>(s, _). card (dom (no_forcing_active t) - sup_seen s),
      \<lambda>(s, _). length (sup_existentials s)]"]])
  case less: 1
  let ?D = "dom (no_forcing_active t)"
  show ?case
  proof (cases "sup_existentials s = []")
    case True
    then show ?thesis using less.prems by (subst forced_sources_loop.simps) simp
  next
    case False
    define e where "e = List.last (sup_existentials s)"
    define s1 where "s1 = s\<lparr>sup_existentials := butlast (sup_existentials s)\<rparr>"
    note split = last_in [OF False, folded e_def]
    have fields: "sup_seen s1 = sup_seen s" "set (sup_existentials s) = insert e (set (sup_existentials s1))"
      "length (sup_existentials s1) < length (sup_existentials s)"
      using False split by (simp_all add: s1_def)
    have ex: "explored val t R e" using less.prems fields(2) by (simp add: sources_inv_def)
    then have eD: "e \<in> ?D" using explored_dom [OF wf R] by blast
    show ?thesis
    proof (cases "e \<in> sup_seen s")
      case True
      have "sources_inv val t R s1 sources"
        using less.prems True unfolding sources_inv_def fields by (auto simp: insert_absorb)
      moreover have "forced_sources_loop val t s sources = forced_sources_loop val t s1 sources"
        using False True by (subst forced_sources_loop.simps) (simp add: e_def s1_def)
      ultimately show ?thesis using less.hyps [of s1 sources] fields by simp
    next
      case unseen: False
      define s2 where "s2 = s1\<lparr>sup_seen := insert e (sup_seen s1)\<rparr>"
      have "finite ?D" using tracker_wfD(4) [OF wf] .
      then have fewer: "card (?D - insert e (sup_seen s)) < card (?D - sup_seen s)"
        using eD unseen by (intro psubset_card_mono) auto
      obtain forced where forced: "isForced val t e = Some forced" using isForced_dom eD by blast
      show ?thesis
      proof (cases forced)
        case True
        have "sources_inv val t R (insertSupport val t e s2) sources"
          using less.prems ex forced True explored_step [OF ex]
          unfolding sources_inv_def insertSupport_fields fields s2_def by auto
        moreover have "forced_sources_loop val t s sources =
            forced_sources_loop val t (insertSupport val t e s2) sources"
          using False unseen forced True
          by (subst forced_sources_loop.simps) (simp add: e_def [symmetric] s1_def [symmetric] s2_def Let_def fields(1))
        moreover have "sup_seen (insertSupport val t e s2) = insert e (sup_seen s)" by (simp add: s2_def fields(1))
        ultimately show ?thesis using less.hyps [of "insertSupport val t e s2" sources] fewer by simp
      next
        case not_forced: False
        have "sources_inv val t R s2 (sources @ [e])"
          using less.prems ex forced not_forced unseen unfolding sources_inv_def fields s2_def by auto
        moreover have "forced_sources_loop val t s sources = forced_sources_loop val t s2 (sources @ [e])"
          using False unseen forced not_forced
          by (subst forced_sources_loop.simps) (simp add: e_def [symmetric] s1_def [symmetric] s2_def Let_def fields(1))
        moreover have "sup_seen s2 = insert e (sup_seen s)" by (simp add: s2_def fields(1))
        ultimately show ?thesis using less.hyps [of s2 "sources @ [e]"] fewer by simp
      qed
    qed
  qed
qed

text \<open>The maximum is found, swapped to the end, and compared with the other elements.\<close>

abbreviation covered :: "support_tracker \<Rightarrow> dep_container \<Rightarrow> int \<Rightarrow> int \<Rightarrow> bool option" where
  "covered t c f v \<equiv> containedInExtendedDependencies (var (getAlias t v)) (var (getAlias t f)) c"

lemma max_existential_loop_bound:
  assumes "max_existential_loop t c vs is mx = Some r" "\<forall>i\<in>set is. i < n" "\<forall>m. mx = Some m \<longrightarrow> m < n"
    "mx \<noteq> None \<or> is \<noteq> []"
  shows "\<exists>m<n. r = Some m"
  using assms
proof (induction t c vs "is" mx rule: max_existential_loop.induct)
  case (2 t c vs i "is" mx)
  show ?case
  proof (cases mx)
    case None
    then show ?thesis using 2 by auto
  next
    case (Some m)
    then obtain b where "largerExtendedDependencies (var (getAlias t (vs ! i))) (var (getAlias t (vs ! m))) c = Some b"
      using "2.prems"(1) by (auto simp: bind_eq_Some_conv)
    then show ?thesis using 2 Some by auto
  qed
qed auto

lemma first_not_contained_spec:
  "first_not_contained t c f vs i = Some r \<Longrightarrow>
    (case r of None \<Rightarrow> \<forall>v\<in>set vs. covered t c f v = Some True
     | Some j \<Rightarrow> i \<le> j \<and> j < i + length vs \<and> covered t c f (vs ! (j - i)) = Some False)"
proof (induction t c f vs i rule: first_not_contained.induct)
  case (2 t c f v vs i)
  then obtain b where b: "covered t c f v = Some b" by (auto simp: bind_eq_Some_conv)
  show ?case
  proof (cases b)
    case True
    then have "first_not_contained t c f vs (i + 1) = Some r" using 2(2) b by simp
    then show ?thesis using 2(1) [OF b True] True b by (auto split: option.splits simp: nth_Cons')
  next
    case False
    then show ?thesis using 2(2) b by auto
  qed
qed simp

lemma hasForcingClause_spec:
  assumes "hasForcingClause t c vs = Some (has, j, ws)" "vs \<noteq> []"
  shows "set ws = set vs" "distinct vs \<Longrightarrow> distinct ws" "length ws = length vs"
    and "has \<Longrightarrow> v \<in> set (butlast ws) \<Longrightarrow> covered t c (List.last ws) v = Some True"
    and "\<not> has \<Longrightarrow> j < length ws - 1 \<and> covered t c (List.last ws) (ws ! j) = Some False"
    and "mset ws = mset vs"
proof -
  let ?n = "length vs"
  obtain mx where mx: "max_existential_loop t c vs [0..<?n] None = Some mx"
    using assms by (auto simp: hasForcingClause_def bind_eq_Some_conv)
  then obtain m where m: "mx = Some m" "m < ?n"
    using max_existential_loop_bound [OF mx, of ?n] assms(2) by auto
  let ?ws = "(vs[m := List.last vs])[?n - 1 := vs ! m]"
  have "map_option (\<lambda>r. case r of None \<Rightarrow> (True, ?n - 1, ?ws) | Some i \<Rightarrow> (False, i, ?ws))
      (first_not_contained t c (vs ! m) (butlast ?ws) 0) = Some (has, j, ws)"
    using assms unfolding hasForcingClause_def mx m(1) by (simp add: Let_def del: map_option_eq_Some cong: option.case_cong)
  then obtain r where r: "first_not_contained t c (vs ! m) (butlast ?ws) 0 = Some r"
    and res: "(case r of None \<Rightarrow> (True, ?n - 1, ?ws) | Some i \<Rightarrow> (False, i, ?ws)) = (has, j, ws)"
    unfolding map_option_eq_Some by blast
  have ws: "ws = ?ws" using res by (auto split: option.splits)
  have last_nth: "List.last vs = vs ! (?n - 1)" using assms(2) by (rule last_conv_nth)
  show "set ws = set vs" "distinct vs \<Longrightarrow> distinct ws" "length ws = length vs"
    using m assms(2) unfolding ws last_nth by (simp_all add: set_swap distinct_swap)
  show "mset ws = mset vs" using m assms(2) unfolding ws last_nth by (simp add: mset_swap)
  have "List.last ws = vs ! m" using assms(2) m(2) unfolding ws by (subst last_conv_nth) auto
  then show "has \<Longrightarrow> v \<in> set (butlast ws) \<Longrightarrow> covered t c (List.last ws) v = Some True"
    "\<not> has \<Longrightarrow> j < length ws - 1 \<and> covered t c (List.last ws) (ws ! j) = Some False"
    using first_not_contained_spec [OF r] res ws by (auto split: option.splits simp: nth_butlast)
qed

lemma initial_literal_spec:
  assumes wf: "tracker_wf t" and inv: "sources_inv val t R0 s []" and sub: "R0 \<subseteq> R" "conflict_existentials t [l] \<subseteq> R"
    and replace: "replace \<Longrightarrow> \<forall>v\<in>R. isForced val t v = Some True"
  shows "sources_inv val t (R0 \<union> conflict_existentials t [l]) (initial_literal replace val t l s) []"
proof -
  let ?v = "var (fromAlias t l)" and ?R = "R0 \<union> conflict_existentials t [l]"
  have mono: "explored val t R0 v \<Longrightarrow> explored val t ?R v" for v
    by (induction rule: explored.induct) (auto intro: explored.intros)
  then have inv': "sources_inv val t ?R (s\<lparr>sup_existentials := sup_existentials s @ [?v]\<rparr>) []"
    if "?v \<in> conflict_existentials t [l]"
    using inv that unfolding sources_inv_def by (auto simp: conflict_existentials_def conflict_variables_def intro: explored_root)
  show ?thesis
  proof (cases "?v \<in> conflict_existentials t [l]")
    case False
    then have e: "conflict_existentials t [l] = {}" by (auto simp: conflict_existentials_def conflict_variables_def)
    have "?v \<in> tracked_universals t \<or> ?v \<in> tracked_arbiters t"
      using False by (auto simp: conflict_existentials_def conflict_variables_def)
    then show ?thesis using inv unfolding e by (auto simp: initial_literal_def sources_inv_def Let_def)
  next
    case True
    have sort: "?v \<notin> tracked_universals t" "?v \<notin> tracked_arbiters t"
      using True by (auto simp: conflict_existentials_def)
    show ?thesis
    proof (cases replace)
      case False
      then show ?thesis using inv' [OF True] sort by (simp add: initial_literal_def Let_def)
    next
      case rep: True
      have f: "isForced val t ?v = Some True" using replace [OF rep] sub(2) True by blast
      have e: "explored val t ?R ?v" using True explored_root by blast
      have r: "conflict_existentials t [l] = {?v}"
        using True by (auto simp: conflict_existentials_def conflict_variables_def)
      have "sources_inv val t ?R (insertSupport val t ?v s) []"
        using inv mono explored_step [OF e f] e f unfolding r sources_inv_def insertSupport_fields by auto
      then show ?thesis using sort rep by (simp add: initial_literal_def Let_def)
    qed
  qed
qed

lemma initial_support_spec:
  assumes wf: "tracker_wf t" and R: "R = conflict_existentials t literals"
    and replace: "replace \<Longrightarrow> \<forall>v\<in>R. isForced val t v = Some True"
  shows "sources_inv val t R (initial_support replace val t literals) []"
proof -
  have "sources_inv val t (R0 \<union> conflict_existentials t ls) (fold (initial_literal replace val t) ls s) []"
    if "sources_inv val t R0 s []" "R0 \<union> conflict_existentials t ls \<subseteq> R" for R0 ls s
    using that
  proof (induction ls arbitrary: R0 s)
    case (Cons l ls)
    have split: "conflict_existentials t (l # ls) = conflict_existentials t [l] \<union> conflict_existentials t ls"
      by (auto simp: conflict_existentials_def conflict_variables_def)
    have "sources_inv val t (R0 \<union> conflict_existentials t [l]) (initial_literal replace val t l s) []"
      by (rule initial_literal_spec [OF wf Cons.prems(1), of R]) (use Cons.prems(2) split replace in auto)
    from Cons.IH [OF this] show ?case using Cons.prems(2) unfolding split by (simp add: Un_assoc)
  qed (simp add: conflict_existentials_def conflict_variables_def)
  from this [of "{}" "\<lparr>sup_existentials = [], sup_seen = {}, sup_universals = [], sup_arbiters = []\<rparr>" literals]
  show ?thesis by (simp add: initial_support_def R) (simp add: sources_inv_def)
qed

text \<open>A forced source is unforced, explored, and covers every other unforced variable explored.\<close>

lemma getForcedSource_spec:
  assumes wf: "tracker_wf t" and R: "conflict_existentials t literals \<subseteq> dom (no_forcing_active t)"
    and replace: "replace \<Longrightarrow> \<forall>v\<in>conflict_existentials t literals. isForced val t v = Some True"
    and f: "getForcedSource conf ate c val t literals replace = Some f" "f \<noteq> 0"
  shows "isForced val t f = Some False" "explored val t (conflict_existentials t literals) f"
    and "explored val t (conflict_existentials t literals) v \<Longrightarrow> isForced val t v = Some False \<Longrightarrow> v \<noteq> f \<Longrightarrow>
      covered t c f v = Some True"
proof -
  let ?R = "conflict_existentials t literals"
  obtain s sources where loop: "forced_sources_loop val t (initial_support replace val t literals) [] = Some (s, sources)"
    and inv: "sources_inv val t ?R s sources" "sup_existentials s = []"
    using forced_sources_loop_spec [OF wf R initial_support_spec [OF wf refl replace]] by blast
  obtain has j ws where h: "hasForcingClause t c sources = Some (has, j, ws)"
    using f(1) loop by (auto simp: getForcedSource_def bind_eq_Some_conv)
  have "has \<and> f = List.last ws"
    using f loop h by (auto simp: getForcedSource_def bind_eq_Some_conv split: if_splits)
  then have has: has and last: "f = List.last ws" by simp_all
  have ne: "sources \<noteq> []" using h has by (auto simp: hasForcingClause_def)
  note spec = hasForcingClause_spec [OF h ne]
  have d: "distinct sources" using inv(1) by (simp add: sources_inv_def)
  have wsne: "ws \<noteq> []" using spec(3) ne by auto
  have srcs: "v \<in> set sources \<longleftrightarrow> v \<in> sup_seen s \<and> isForced val t v = Some False" for v
    using inv(1) by (simp add: sources_inv_def)
  have "f \<in> set sources" using spec(1) last last_in_set [OF wsne] by simp
  then have fs: "f \<in> sup_seen s" "isForced val t f = Some False" using srcs by auto
  then show "isForced val t f = Some False" "explored val t ?R f"
    using inv(1) by (simp_all add: sources_inv_def)
  show "covered t c f v = Some True" if "explored val t ?R v" "isForced val t v = Some False" "v \<noteq> f"
  proof -
    have "v \<in> set sources" using srcs sources_inv_finished [OF inv that(1)] that(2) by simp
    then have "v \<in> set (butlast ws)" using last_in [OF wsne] spec(1) that(3) last by auto
    then show ?thesis using spec(4) has last by simp
  qed
qed

section \<open>The conflict graph\<close>

text \<open>
  The vertices met so far, with the pending set \<open>P\<close> of those that have been taken from the queue
  and not been filed yet.
\<close>

definition sep_nodes :: "int \<Rightarrow> separator_state \<Rightarrow> int set" where
  "sep_nodes f s = insert f (set (sep_vertices s) \<union> set (sep_sources s) \<union> set (sep_universals s) \<union>
     set (sep_arbiters s) \<union> set (sep_queue s))"

definition sep_inv ::
  "(int \<Rightarrow> int) \<Rightarrow> support_tracker \<Rightarrow> int \<Rightarrow> int set \<Rightarrow> int set \<Rightarrow> separator_state \<Rightarrow> bool" where
  "sep_inv val t f R P s \<longleftrightarrow>
     distinct (sep_vertices s) \<and> f \<notin> set (sep_vertices s) \<and> sep_seen s = insert f (set (sep_vertices s)) \<and>
     (\<forall>v\<in>set (sep_vertices s). isForced val t v = Some True \<and> explored val t R v) \<and>
     (\<forall>v\<in>set (sep_queue s). explored val t R v) \<and>
     (\<forall>v\<in>set (sep_sources s). isForced val t v = Some False \<and> explored val t R v \<and> v \<noteq> f) \<and>
     (\<forall>v\<in>set (sep_vertices s). \<forall>x\<in>set (connected val t v).
        x \<in> sep_nodes f s \<union> P \<and> (x \<noteq> f \<and> x \<noteq> v \<longrightarrow> (x, v) \<in> set (sep_edges s))) \<and>
     (\<forall>(x, v)\<in>set (sep_edges s). v \<in> set (sep_vertices s) \<and> x \<in> set (connected val t v) \<and> x \<noteq> f) \<and>
     set (sep_universals s) \<subseteq> tracked_universals t \<and> strict_sorted (sep_universals s) \<and>
     set (sep_arbiters s) \<subseteq> tracked_arbiters t \<and> strict_sorted (sep_arbiters s) \<and>
     set (sep_sinks s) \<subseteq> sep_nodes f s \<union> P"

lemma sep_invD:
  assumes "sep_inv val t f R P s"
  shows "distinct (sep_vertices s)" "f \<notin> set (sep_vertices s)" "sep_seen s = insert f (set (sep_vertices s))"
    "v \<in> set (sep_vertices s) \<Longrightarrow> isForced val t v = Some True \<and> explored val t R v"
    "v \<in> set (sep_queue s) \<Longrightarrow> explored val t R v"
    "v \<in> set (sep_sources s) \<Longrightarrow> isForced val t v = Some False \<and> explored val t R v \<and> v \<noteq> f"
    "v \<in> set (sep_vertices s) \<Longrightarrow> x \<in> set (connected val t v) \<Longrightarrow>
        x \<in> sep_nodes f s \<union> P \<and> (x \<noteq> f \<and> x \<noteq> v \<longrightarrow> (x, v) \<in> set (sep_edges s))"
    "(x, v) \<in> set (sep_edges s) \<Longrightarrow> v \<in> set (sep_vertices s) \<and> x \<in> set (connected val t v) \<and> x \<noteq> f"
    "set (sep_universals s) \<subseteq> tracked_universals t" "strict_sorted (sep_universals s)"
    "set (sep_arbiters s) \<subseteq> tracked_arbiters t" "strict_sorted (sep_arbiters s)"
    "set (sep_sinks s) \<subseteq> sep_nodes f s \<union> P"
  using assms unfolding sep_inv_def by blast+

text \<open>The variable is filed as a vertex.\<close>

lemma expand_vertex_fields:
  assumes "v \<notin> sep_seen s"
  shows "sep_vertices (expand_vertex val t f v s) = sep_vertices s @ [v]"
    "sep_sources (expand_vertex val t f v s) = sep_sources s" "sep_sinks (expand_vertex val t f v s) = sep_sinks s"
    "sep_forbidden (expand_vertex val t f v s) = sep_forbidden s"
    "sep_seen (expand_vertex val t f v s) = insert v (sep_seen s)"
    "set (sep_edges (expand_vertex val t f v s)) =
       set (sep_edges s) \<union> {(x, v) |x. x \<in> set (connected val t v) \<and> x \<noteq> f \<and> x \<noteq> v}"
    "set (sep_queue (expand_vertex val t f v s)) =
       set (sep_queue s) \<union> (set (connected_existentials val t v) - insert v (sep_seen s))"
    "set (sep_universals (expand_vertex val t f v s)) = set (sep_universals s) \<union>
       (case active_rule val t v of None \<Rightarrow> {} | Some av \<Rightarrow> set (entry (activity_universals t) av))"
    "set (sep_arbiters (expand_vertex val t f v s)) = set (sep_arbiters s) \<union>
       (case active_rule val t v of None \<Rightarrow> {} | Some av \<Rightarrow> set (entry (activity_arbiters t) av))"
    "strict_sorted (sep_universals s) \<Longrightarrow> strict_sorted (sep_universals (expand_vertex val t f v s))"
    "strict_sorted (sep_arbiters s) \<Longrightarrow> strict_sorted (sep_arbiters (expand_vertex val t f v s))"
  using assms
  by (auto simp: expand_vertex_def processSupport_def addEdges_def connected_def connected_existentials_def Let_def
      split: option.split)

lemma sep_inv_expand:
  assumes wf: "tracker_wf t" and inv: "sep_inv val t f R P s" and v: "v \<notin> sep_seen s" "isForced val t v = Some True" "explored val t R v"
  shows "sep_inv val t f R (P - {v}) (expand_vertex val t f v s)"
proof -
  note e = expand_vertex_fields [OF v(1), where val = val and t = t and f = f] and d = sep_invD [OF inv]
  let ?s = "expand_vertex val t f v s"
  have seen: "sep_seen s = insert f (set (sep_vertices s))" by (rule d(3))
  have nodes: "sep_nodes f s \<union> P \<subseteq> sep_nodes f ?s \<union> (P - {v})" "v \<in> sep_nodes f ?s"
    using e by (auto simp: sep_nodes_def)
  have conn: "set (connected val t v) \<subseteq> sep_nodes f ?s"
    using e seen unfolding connected_set sep_nodes_def by (auto split: option.splits)
  have q: "explored val t R x" if "x \<in> set (sep_queue ?s)" for x
    using that d(5) explored_step [OF v(3,2)] unfolding e(7) by blast
  have u: "set (sep_universals ?s) \<subseteq> tracked_universals t" "set (sep_arbiters ?s) \<subseteq> tracked_arbiters t"
    using d(9,11) tracker_wfD(6,7) [OF wf] unfolding e(8,9) by (auto split: option.split)
  have c: "x \<in> sep_nodes f ?s \<union> (P - {v}) \<and> (x \<noteq> f \<and> x \<noteq> w \<longrightarrow> (x, w) \<in> set (sep_edges ?s))"
    if "w \<in> set (sep_vertices ?s)" "x \<in> set (connected val t w)" for w x
    using that d(7) nodes conn unfolding e(1,6) by auto
  have n: "sep_nodes f s \<union> P \<subseteq> sep_nodes f ?s \<union> (P - {v})" by (rule nodes(1))
  show ?thesis
    unfolding sep_inv_def
    using d(1,2,4,6,8,13) v seen q u e(10) [OF d(10)] e(11) [OF d(12)] c n unfolding e(1-6)
    by (intro conjI) (simp_all, auto)
qed

lemma sep_inv_pop:
  assumes "sep_inv val t f R P s" "sep_queue s = v # q"
  shows "sep_inv val t f R (insert v P) (s\<lparr>sep_queue := q\<rparr>)"
proof -
  have "sep_nodes f (s\<lparr>sep_queue := q\<rparr>) \<union> insert v P = sep_nodes f s \<union> P"
    using assms(2) by (auto simp: sep_nodes_def)
  then show ?thesis using assms unfolding sep_inv_def by simp
qed

lemma sep_inv_filed:
  assumes "sep_inv val t f R P s" "v \<in> sep_nodes f s"
  shows "sep_inv val t f R (P - {v}) s"
proof -
  have "sep_nodes f s \<union> (P - {v}) = sep_nodes f s \<union> P" using assms(2) by auto
  then show ?thesis using assms(1) unfolding sep_inv_def by simp
qed

lemma sep_inv_source:
  assumes "sep_inv val t f R P s" "isForced val t v = Some False" "explored val t R v" "v \<noteq> f"
  shows "sep_inv val t f R (P - {v}) (s\<lparr>sep_sources := sep_sources s @ [v]\<rparr>)"
proof -
  have "sep_nodes f (s\<lparr>sep_sources := sep_sources s @ [v]\<rparr>) \<union> (P - {v}) = insert v (sep_nodes f s \<union> P)"
    by (auto simp: sep_nodes_def)
  then show ?thesis using assms unfolding sep_inv_def by auto
qed

lemma sep_inv_forbidden [simp]:
  "sep_inv val t f R P (s\<lparr>sep_forbidden := fs\<rparr>) = sep_inv val t f R P s"
  by (simp add: sep_inv_def sep_nodes_def)

text \<open>The forbidden vertices are those whose variable the forced one does not cover.\<close>

definition forbidden_ok :: "support_tracker \<Rightarrow> dep_container \<Rightarrow> int \<Rightarrow> separator_state \<Rightarrow> bool" where
  "forbidden_ok t c f s \<longleftrightarrow> set (sep_forbidden s) \<subseteq> set (sep_vertices s) \<and>
     (\<forall>v\<in>set (sep_vertices s). v \<notin> set (sep_forbidden s) \<longrightarrow> covered t c f v = Some True)"

text \<open>What is known of the forced variable.\<close>

definition forced_source ::
  "(int \<Rightarrow> int) \<Rightarrow> support_tracker \<Rightarrow> dep_container \<Rightarrow> int set \<Rightarrow> int \<Rightarrow> bool" where
  "forced_source val t c R f \<longleftrightarrow> f \<noteq> 0 \<and> R \<subseteq> dom (no_forcing_active t) \<and> isForced val t f = Some False \<and>
     (\<forall>v\<in>dom (no_forcing_active t). covered t c f v \<noteq> None) \<and>
     (\<forall>v. explored val t R v \<and> isForced val t v = Some False \<and> v \<noteq> f \<longrightarrow> covered t c f v = Some True)"

lemma separator_step_spec:
  assumes wf: "tracker_wf t" and f: "forced_source val t c R f" and inv: "sep_inv val t f R {v} s"
    and v: "explored val t R v" "v \<notin> sep_seen s" and forb: "forbidden_ok t c f s"
  shows "\<exists>s'. separator_step c val t f v s = Some s' \<and> sep_inv val t f R {} s' \<and> forbidden_ok t c f s' \<and>
    sep_sinks s' = sep_sinks s \<and>
    (sep_seen s' = insert v (sep_seen s) \<or> sep_seen s' = sep_seen s \<and> sep_queue s' = sep_queue s)"
proof -
  have fs: "f \<noteq> 0" "R \<subseteq> dom (no_forcing_active t)" using f by (simp_all add: forced_source_def)
  have vf: "v \<noteq> f" using v(2) sep_invD(3) [OF inv] by auto
  have vD: "v \<in> dom (no_forcing_active t)" using explored_dom [OF wf fs(2) v(1)] .
  then obtain cov where cov: "covered t c f v = Some cov" using f unfolding forced_source_def by blast
  obtain forced where forced: "isForced val t v = Some forced" using isForced_dom vD by blast
  let ?s = "if cov then s else s\<lparr>sep_forbidden := sep_forbidden s @ [v]\<rparr>"
  have inv': "sep_inv val t f R {v} ?s" using inv by simp
  have same: "sep_seen ?s = sep_seen s" "sep_sinks ?s = sep_sinks s" "sep_vertices ?s = sep_vertices s" "sep_queue ?s = sep_queue s"
    by simp_all
  show ?thesis
  proof (cases forced)
    case True
    have "sep_inv val t f R {} (expand_vertex val t f v ?s)"
      using sep_inv_expand [OF wf inv' _ _ v(1)] v(2) same(1) forced True by simp
    moreover have "separator_step c val t f v s = Some (expand_vertex val t f v ?s)"
      using fs(1) cov forced True by (simp add: separator_step_def)
    moreover have "forbidden_ok t c f (expand_vertex val t f v ?s)"
      using forb cov v(2) by (auto simp: forbidden_ok_def expand_vertex_fields)
    ultimately show ?thesis using v(2) same by (intro exI [of _ "expand_vertex val t f v ?s"]) (simp add: expand_vertex_fields)
  next
    case False
    then have cov: "cov" using f forced v(1) vf cov by (auto simp: forced_source_def)
    have "sep_inv val t f R {} (s\<lparr>sep_sources := sep_sources s @ [v]\<rparr>)"
      using sep_inv_source [OF inv _ v(1) vf] forced False by simp
    moreover have "separator_step c val t f v s = Some (s\<lparr>sep_sources := sep_sources s @ [v]\<rparr>)"
      using fs(1) \<open>covered t c f v = Some cov\<close> cov forced False by (simp add: separator_step_def)
    moreover have "forbidden_ok t c f (s\<lparr>sep_sources := sep_sources s @ [v]\<rparr>)" using forb by (simp add: forbidden_ok_def)
    ultimately show ?thesis by simp
  qed
qed

lemma separator_loop_spec:
  assumes wf: "tracker_wf t" and f: "forced_source val t c R f"
    and inv: "sep_inv val t f R {} s" "forbidden_ok t c f s"
  shows "\<exists>s'. separator_loop c val t f s = Some s' \<and> sep_inv val t f R {} s' \<and> forbidden_ok t c f s' \<and>
    sep_sinks s' = sep_sinks s \<and> sep_queue s' = []"
  using inv
proof (induction s rule: wf_induct_rule [OF wf_measures [of "[\<lambda>s. card (dom (no_forcing_active t) - sep_seen s),
      \<lambda>s. length (sep_queue s)]"]])
  case less: (1 s)
  let ?D = "dom (no_forcing_active t)"
  show ?case
  proof (cases "sep_queue s")
    case Nil
    then show ?thesis using less.prems by (subst separator_loop.simps) simp
  next
    case (Cons v q)
    let ?s1 = "s\<lparr>sep_queue := q\<rparr>"
    have inv1: "sep_inv val t f R {v} ?s1" using sep_inv_pop [OF less.prems(1) Cons] .
    have forb1: "forbidden_ok t c f ?s1" using less.prems(2) by (simp add: forbidden_ok_def)
    have ex: "explored val t R v" using sep_invD(5) [OF less.prems(1), of v] Cons by simp
    show ?thesis
    proof (cases "v \<in> sep_seen s")
      case True
      have "v \<in> sep_nodes f ?s1" using True sep_invD(3) [OF less.prems(1)] by (auto simp: sep_nodes_def)
      then have "sep_inv val t f R {} ?s1" using sep_inv_filed [OF inv1, of v] by simp
      moreover have "separator_loop c val t f s = separator_loop c val t f ?s1"
        using True Cons by (subst separator_loop.simps) simp
      ultimately show ?thesis using less.IH [of ?s1] forb1 Cons by simp
    next
      case False
      have "v \<notin> sep_seen ?s1" using False by simp
      from separator_step_spec [OF wf f inv1 ex this forb1]
      obtain s2 where s2: "separator_step c val t f v ?s1 = Some s2" "sep_inv val t f R {} s2" "forbidden_ok t c f s2"
        "sep_sinks s2 = sep_sinks s"
        "sep_seen s2 = insert v (sep_seen s) \<or> sep_seen s2 = sep_seen s \<and> sep_queue s2 = q"
        by auto
      have "finite ?D" "v \<in> ?D" using tracker_wfD(4) [OF wf] explored_dom [OF wf _ ex] f
        by (simp_all add: forced_source_def)
      then have "card (?D - insert v (sep_seen s)) < card (?D - sep_seen s)"
        using False by (intro psubset_card_mono) auto
      then have smaller: "(s2, s) \<in> measures [\<lambda>s. card (?D - sep_seen s), \<lambda>s. length (sep_queue s)]"
        using s2(5) Cons by auto
      have "separator_loop c val t f s = separator_loop c val t f s2"
        using False Cons s2(1) by (subst separator_loop.simps) simp
      then show ?thesis using less.IH [OF smaller s2(2,3)] s2(4) by simp
    qed
  qed
qed

text \<open>The literals of the conflict.\<close>

lemma sep_inv_sink:
  assumes "sep_inv val t f R P s"
  shows "sep_inv val t f R (insert v P) (s\<lparr>sep_sinks := sep_sinks s @ [v]\<rparr>)"
proof -
  have "sep_nodes f (s\<lparr>sep_sinks := sep_sinks s @ [v]\<rparr>) \<union> insert v P = insert v (sep_nodes f s \<union> P)"
    by (auto simp: sep_nodes_def)
  then show ?thesis using assms unfolding sep_inv_def by auto
qed

lemma sep_inv_universal:
  assumes "sep_inv val t f R P s" "v \<in> tracked_universals t"
  shows "sep_inv val t f R (P - {v}) (s\<lparr>sep_universals := set_insert v (sep_universals s)\<rparr>)"
proof -
  have "sep_nodes f (s\<lparr>sep_universals := set_insert v (sep_universals s)\<rparr>) \<union> (P - {v}) = insert v (sep_nodes f s \<union> P)"
    by (auto simp: sep_nodes_def)
  then show ?thesis using assms unfolding sep_inv_def by auto
qed

lemma sep_inv_arbiter:
  assumes "sep_inv val t f R P s" "v \<in> tracked_arbiters t"
  shows "sep_inv val t f R (P - {v}) (s\<lparr>sep_arbiters := set_insert v (sep_arbiters s)\<rparr>)"
proof -
  have "sep_nodes f (s\<lparr>sep_arbiters := set_insert v (sep_arbiters s)\<rparr>) \<union> (P - {v}) = insert v (sep_nodes f s \<union> P)"
    by (auto simp: sep_nodes_def)
  then show ?thesis using assms unfolding sep_inv_def by auto
qed

lemma sep_inv_queue:
  assumes "sep_inv val t f R P s" "explored val t R v"
  shows "sep_inv val t f R (P - {v}) (s\<lparr>sep_queue := sep_queue s @ [v]\<rparr>)"
proof -
  have "sep_nodes f (s\<lparr>sep_queue := sep_queue s @ [v]\<rparr>) \<union> (P - {v}) = insert v (sep_nodes f s \<union> P)"
    by (auto simp: sep_nodes_def)
  then show ?thesis using assms unfolding sep_inv_def by auto
qed

lemma separator_literal_spec:
  assumes v_def: "v = var (fromAlias t l)" and wf: "tracker_wf t" and f: "forced_source val t c R f" and inv: "sep_inv val t f R {} s" "forbidden_ok t c f s"
    and v: "v \<in> tracked_universals t \<union> tracked_arbiters t \<union> R" and replace: "replace \<Longrightarrow> v \<notin> set (sep_vertices s)"
  shows "\<exists>s'. separator_literal val t f replace l s = Some s' \<and> sep_inv val t f R {} s' \<and> forbidden_ok t c f s' \<and>
    set (sep_sinks s') = set (sep_sinks s) \<union> ({v} - {f}) \<and> set (sep_vertices s') \<subseteq> insert v (set (sep_vertices s))"
proof -
  let ?s = "s\<lparr>sep_sinks := sep_sinks s @ [v]\<rparr>"
  have sink: "sep_inv val t f R {v} ?s" using sep_inv_sink [OF inv(1)] by simp
  have f0: "f \<noteq> 0" using f by (simp add: forced_source_def)
  have res: ?thesis if "separator_literal val t f replace l s = Some s'" "sep_inv val t f R ({v} - {v}) s'"
    "forbidden_ok t c f s'" "sep_sinks s' = sep_sinks s @ [v]" "v \<noteq> f"
    "set (sep_vertices s') \<subseteq> insert v (set (sep_vertices s))" for s'
    using that by (intro exI [of _ s']) auto
  consider "v = f" | "v \<noteq> f" "v \<in> tracked_universals t" | "v \<noteq> f" "v \<notin> tracked_universals t" "v \<in> tracked_arbiters t"
    | "v \<noteq> f" "v \<notin> tracked_universals t" "v \<notin> tracked_arbiters t" "v \<in> R" using v by blast
  then show ?thesis
  proof cases
    case 1
    then show ?thesis using inv by (intro exI [of _ s]) (auto simp: separator_literal_def v_def [symmetric])
  next
    case 2
    then show ?thesis using sep_inv_universal [OF sink 2(2)] inv(2)
      by (intro res [of "?s\<lparr>sep_universals := set_insert v (sep_universals ?s)\<rparr>"]) (auto simp: separator_literal_def v_def [symmetric] Let_def forbidden_ok_def)
  next
    case 3
    then show ?thesis using sep_inv_arbiter [OF sink 3(3)] inv(2)
      by (intro res [of "?s\<lparr>sep_arbiters := set_insert v (sep_arbiters ?s)\<rparr>"]) (auto simp: separator_literal_def v_def [symmetric] Let_def forbidden_ok_def)
  next
    case 4
    have "v \<in> dom (no_forcing_active t)" using 4 f by (auto simp: forced_source_def)
    then obtain forced where forced: "isForced val t v = Some forced" using isForced_dom by blast
    have ex: "explored val t R v" using 4 explored_root by blast
    show ?thesis
    proof (cases forced)
      case False
      then show ?thesis using sep_inv_source [OF sink _ ex 4(1)] forced 4 inv(2)
        by (intro res [of "?s\<lparr>sep_sources := sep_sources ?s @ [v]\<rparr>"])
          (auto simp: separator_literal_def v_def [symmetric] Let_def forbidden_ok_def)
    next
      case True
      show ?thesis
      proof (cases replace)
        case False
        then show ?thesis using sep_inv_queue [OF sink ex] forced True 4 inv(2)
          by (intro res [of "?s\<lparr>sep_queue := sep_queue ?s @ [v]\<rparr>"])
            (auto simp: separator_literal_def v_def [symmetric] Let_def forbidden_ok_def)
      next
        case rep: True
        let ?e = "expand_vertex val t f v ?s"
        have unseen: "v \<notin> sep_seen ?s" using replace [OF rep] 4(1) sep_invD(3) [OF inv(1)] by simp
        have "sep_inv val t f R ({v} - {v}) ?e"
          using sep_inv_expand [OF wf sink unseen _ ex] forced True by simp
        then show ?thesis using forced True 4 rep f0 inv(2) unseen
          by (intro res [of "?e\<lparr>sep_forbidden := sep_forbidden ?e @ [v]\<rparr>"])
            (auto simp: separator_literal_def v_def [symmetric] Let_def forbidden_ok_def expand_vertex_fields)
      qed
    qed
  qed
qed

lemma separator_literals_spec:
  assumes wf: "tracker_wf t" and f: "forced_source val t c R f" and inv: "sep_inv val t f R {} s" "forbidden_ok t c f s"
    and v: "conflict_variables t ls \<subseteq> tracked_universals t \<union> tracked_arbiters t \<union> R"
    and replace: "replace \<Longrightarrow> distinct (map (\<lambda>l. var (fromAlias t l)) ls) \<and> conflict_variables t ls \<inter> set (sep_vertices s) = {}"
  shows "\<exists>s'. separator_literals val t f replace ls s = Some s' \<and> sep_inv val t f R {} s' \<and> forbidden_ok t c f s' \<and>
    set (sep_sinks s') = set (sep_sinks s) \<union> (conflict_variables t ls - {f})"
  using inv v replace
proof (induction ls arbitrary: s)
  case (Cons l ls)
  let ?v = "var (fromAlias t l)"
  have split: "conflict_variables t (l # ls) = insert ?v (conflict_variables t ls)" by (simp add: conflict_variables_def)
  obtain s1 where s1: "separator_literal val t f replace l s = Some s1" "sep_inv val t f R {} s1" "forbidden_ok t c f s1"
    "set (sep_sinks s1) = set (sep_sinks s) \<union> ({?v} - {f})" "set (sep_vertices s1) \<subseteq> insert ?v (set (sep_vertices s))"
    using separator_literal_spec [OF refl wf f Cons.prems(1,2), of l replace] Cons.prems(3,4) split by auto
  have "distinct (map (\<lambda>l. var (fromAlias t l)) ls) \<and> conflict_variables t ls \<inter> set (sep_vertices s1) = {}" if replace
  proof -
    have "distinct (map (\<lambda>l. var (fromAlias t l)) ls)" "?v \<notin> conflict_variables t ls"
      "insert ?v (conflict_variables t ls) \<inter> set (sep_vertices s) = {}"
      using Cons.prems(4) [OF that] unfolding split by (simp_all add: conflict_variables_def)
    then show ?thesis using s1(5) by blast
  qed
  then obtain s2 where s2: "separator_literals val t f replace ls s1 = Some s2" "sep_inv val t f R {} s2" "forbidden_ok t c f s2"
    "set (sep_sinks s2) = set (sep_sinks s1) \<union> (conflict_variables t ls - {f})"
    using Cons.IH [OF s1(2,3)] Cons.prems(3) unfolding split by blast
  show ?case using s1(1,4) s2 unfolding split by (intro exI [of _ s2]) auto
qed (simp add: conflict_variables_def)

section \<open>The separator\<close>

text \<open>
  An assignment follows the rules when it gives a forced variable the value of the conflict
  whenever it agrees with the conflict on the support of its active rule.
\<close>

definition follows_rules :: "(int \<Rightarrow> int) \<Rightarrow> support_tracker \<Rightarrow> assignment \<Rightarrow> bool" where
  "follows_rules val t \<beta> \<longleftrightarrow>
     (\<forall>v. isForced val t v = Some True \<and> (\<forall>x\<in>set (connected val t v). \<beta> x = (val x > 0)) \<longrightarrow> \<beta> v = (val v > 0))"

definition acyclic_rules :: "(int \<Rightarrow> int) \<Rightarrow> support_tracker \<Rightarrow> bool" where
  "acyclic_rules val t \<longleftrightarrow>
     (\<exists>rank :: int \<Rightarrow> nat. \<forall>v x. isForced val t v = Some True \<and> x \<in> set (connected val t v) \<longrightarrow> rank x < rank v)"

lemma cut_agrees:
  fixes rank :: "int \<Rightarrow> nat"
  assumes sep: "separates E A B S" and S: "\<forall>v\<in>insert f S. agree v"
    and closed: "\<forall>v\<in>N. v \<in> A \<or> (\<forall>x\<in>set (supp v). x = f \<or> x \<in> N \<and> (x, v) \<in> E)"
    and agree: "\<forall>v\<in>N - A. (\<forall>x\<in>set (supp v). agree x) \<longrightarrow> agree v"
    and rank: "\<forall>v\<in>N - A. \<forall>x\<in>set (supp v). rank x < rank v" and B: "B \<subseteq> N" "v \<in> B"
  shows "agree v"
proof -
  have "agree v" if "v \<in> N" "successively (\<lambda>u w. (u, w) \<in> E) (v # ps)" "List.last (v # ps) \<in> B" "set ps \<inter> S = {}" for v ps
    using that
  proof (induction "rank v" arbitrary: v ps rule: less_induct)
    case less
    show ?case
    proof (cases "v \<in> S")
      case False
      then have cut: "set (v # ps) \<inter> S = {}" using less.prems(4) by simp
      then have vA: "v \<notin> A" using sep less.prems(2,3) unfolding separates_def by (metis list.sel(1) list.simps(3))
      have "agree x" if x: "x \<in> set (supp v)" for x
      proof (cases "x = f")
        case False
        then have "x \<in> N" "(x, v) \<in> E" using closed less.prems(1) vA x by auto
        moreover have "rank x < rank v" using rank less.prems(1) vA x by blast
        ultimately show ?thesis using less.hyps [of x "v # ps"] less.prems(2,3) cut by simp
      qed (use S in simp)
      then show ?thesis using agree less.prems(1) vA by blast
    qed (use S in simp)
  qed
  from this [of v "[]"] show ?thesis using B by auto
qed

definition conflict_ok :: "(int \<Rightarrow> int) \<Rightarrow> support_tracker \<Rightarrow> int list \<Rightarrow> bool \<Rightarrow> bool" where
  "conflict_ok val t literals replace \<longleftrightarrow>
     conflict_variables t literals \<subseteq> tracked_universals t \<union> tracked_arbiters t \<union> dom (no_forcing_active t) \<and>
     (replace \<longrightarrow> length literals = 2 \<and> literals ! 0 = - (literals ! 1) \<and>
        distinct (map (\<lambda>l. var (fromAlias t l)) literals) \<and>
        (\<forall>l\<in>set literals. 0 < fromAlias t l \<and> isForced val t (fromAlias t l) = Some True))"

lemma conflict_okD:
  assumes "tracker_wf t" "conflict_ok val t literals replace"
  shows "conflict_existentials t literals \<subseteq> dom (no_forcing_active t)"
    "conflict_variables t literals \<subseteq> tracked_universals t \<union> tracked_arbiters t \<union> conflict_existentials t literals"
    "replace \<Longrightarrow> \<forall>v\<in>conflict_existentials t literals. isForced val t v = Some True"
proof -
  show "conflict_existentials t literals \<subseteq> dom (no_forcing_active t)"
    "conflict_variables t literals \<subseteq> tracked_universals t \<union> tracked_arbiters t \<union> conflict_existentials t literals"
    using assms(2) by (auto simp: conflict_ok_def conflict_existentials_def)
  show "\<forall>v\<in>conflict_existentials t literals. isForced val t v = Some True" if replace
    using assms(2) that by (auto simp: conflict_ok_def conflict_existentials_def conflict_variables_def var_def)
qed

lemma separator_explore_spec:
  assumes wf: "tracker_wf t" and ok: "conflict_ok val t literals replace"
    and f: "forced_source val t c (conflict_existentials t literals) f"
  shows "\<exists>s. separator_explore c val t literals f replace = Some s \<and>
    sep_inv val t f (conflict_existentials t literals) {} s \<and> forbidden_ok t c f s \<and> sep_queue s = [] \<and>
    set (sep_sinks s) = conflict_variables t literals - {f}"
proof -
  let ?R = "conflict_existentials t literals"
  have init: "sep_inv val t f ?R {} (init_separator f)" "forbidden_ok t c f (init_separator f)"
    "sep_vertices (init_separator f) = []" "sep_sinks (init_separator f) = []"
    by (simp_all add: sep_inv_def forbidden_ok_def init_separator_def)
  have rep: "replace \<Longrightarrow> distinct (map (\<lambda>l. var (fromAlias t l)) literals) \<and>
      conflict_variables t literals \<inter> set (sep_vertices (init_separator f)) = {}"
    using ok by (simp add: conflict_ok_def init(3))
  obtain s1 where s1: "separator_literals val t f replace literals (init_separator f) = Some s1"
    "sep_inv val t f ?R {} s1" "forbidden_ok t c f s1" "set (sep_sinks s1) = conflict_variables t literals - {f}"
    using separator_literals_spec [OF wf f init(1,2) conflict_okD(2) [OF wf ok] rep] init(4) by auto
  obtain s2 where s2: "separator_loop c val t f s1 = Some s2" "sep_inv val t f ?R {} s2" "forbidden_ok t c f s2"
    "sep_sinks s2 = sep_sinks s1" "sep_queue s2 = []"
    using separator_loop_spec [OF wf f s1(2,3)] by blast
  have "separator_explore c val t literals f replace = Some s2"
    using s1(1) s2(1) ok by (auto simp: separator_explore_def conflict_ok_def)
  then show ?thesis using s1(4) s2 by auto
qed

lemma removeDuplicates_simps [simp]: "set (removeDuplicates xs) = set xs" "distinct (removeDuplicates xs)"
  by (simp_all add: removeDuplicates_def)

text \<open>The vertices of the conflict graph, sorted by kind.\<close>

lemma sep_inv_vertices:
  assumes wf: "tracker_wf t" and R: "R \<subseteq> dom (no_forcing_active t)" and inv: "sep_inv val t f R {} s"
  shows "set (sep_vertices s) \<subseteq> dom (no_forcing_active t)" "set (sep_sources s) \<subseteq> dom (no_forcing_active t)"
    "set (sep_vertices s) \<inter> set (separator_sources s) = {}" "distinct (sep_vertices s @ separator_sources s)"
proof -
  note d = sep_invD [OF inv]
  show v: "set (sep_vertices s) \<subseteq> dom (no_forcing_active t)" "set (sep_sources s) \<subseteq> dom (no_forcing_active t)"
    using d(4,6) explored_dom [OF wf R] by blast+
  have "set (sep_vertices s) \<inter> set (sep_sources s) = {}" using d(4,6) by fastforce
  then show disj: "set (sep_vertices s) \<inter> set (separator_sources s) = {}"
    using v(1) d(9,11) tracker_wfD(2,3) [OF wf] by (auto simp: separator_sources_def)
  have "distinct (sep_universals s)" "distinct (sep_arbiters s)" using d(10,12) strict_sorted_distinct by auto
  moreover have "set (sep_universals s) \<inter> set (sep_arbiters s) = {}"
    "set (sep_sources s) \<inter> (set (sep_universals s) \<union> set (sep_arbiters s)) = {}"
    using v(2) d(9,11) tracker_wfD(1-3) [OF wf] by blast+
  ultimately have "distinct (separator_sources s)" by (auto simp: separator_sources_def)
  then show "distinct (sep_vertices s @ separator_sources s)" using d(1) disj by simp
qed

text \<open>The conditions under which the separator is computed hold, and what it means.\<close>

lemma separator_arguments_ok:
  assumes wf: "tracker_wf t" and ok: "conflict_ok val t literals replace" and R: "R = conflict_existentials t literals"
    and f: "forced_source val t c R f"
    and s: "sep_inv val t f R {} s" "forbidden_ok t c f s" "sep_queue s = []" "set (sep_sinks s) = conflict_variables t literals - {f}"
    and args: "separator_arguments conf t literals replace s = (vs, es, A, B, F, T)"
  shows "distinct vs" "\<forall>(u, w)\<in>set es. u \<in> set vs \<and> w \<in> set vs" "set A \<subseteq> set vs" "set B \<subseteq> set vs"
    "set F \<subseteq> set vs" "set T \<subseteq> set vs" "set A \<inter> set F = {}" "set T \<inter> set F = {}"
proof -
  note d = sep_invD [OF s(1)]
  have a: "vs = sep_vertices s @ separator_sources s" "es = sep_edges s" "A = separator_sources s" "B = sep_sinks s"
    "F = sep_forbidden s @ (if replace then [fromAlias t (literals ! 0), fromAlias t (literals ! 1)] else [])"
    "T = (if replace_arbiters_in_separators conf then sep_arbiters s else [])"
    using args by (auto simp: separator_arguments_def Let_def)
  have RD: "R \<subseteq> dom (no_forcing_active t)" and f': "isForced val t f = Some False" using f by (simp_all add: forced_source_def)
  note vert = sep_inv_vertices [OF wf RD s(1)]
  have nodes: "sep_nodes f s = insert f (set vs)" using s(3) by (auto simp: sep_nodes_def a separator_sources_def)
  show "distinct vs" unfolding a by (rule vert(4))
  show "set A \<subseteq> set vs" "set T \<subseteq> set vs" unfolding a by (auto simp: separator_sources_def)
  show sinks: "set B \<subseteq> set vs" using d(13) s(4) nodes unfolding a(4) by auto
  have "u \<in> set vs \<and> w \<in> set vs" if "(u, w) \<in> set es" for u w
    using d(7) [of w u] d(8) [of u w] nodes that unfolding a(2) by (auto simp: a(1))
  then show "\<forall>(u, w)\<in>set es. u \<in> set vs \<and> w \<in> set vs" by blast
  have initial: "fromAlias t l \<in> set (sep_vertices s)" if "replace" "l \<in> set literals" for l
  proof -
    have p: "0 < fromAlias t l" "isForced val t (fromAlias t l) = Some True" using ok that by (auto simp: conflict_ok_def)
    have "fromAlias t l \<in> conflict_variables t literals" using that(2) p(1) by (force simp: conflict_variables_def var_def)
    moreover have "fromAlias t l \<noteq> f" using p(2) f' by auto
    ultimately have "fromAlias t l \<in> set vs" using sinks s(4) a(4) by auto
    moreover have "fromAlias t l \<in> dom (no_forcing_active t)" using p(2) by (auto simp: isForced_def)
    then have "fromAlias t l \<notin> set (sep_universals s) \<union> set (sep_arbiters s)"
      using d(9,11) tracker_wfD(2,3) [OF wf] by blast
    moreover have "fromAlias t l \<notin> set (sep_sources s)" using d(6) p(2) by fastforce
    ultimately show ?thesis by (auto simp: a separator_sources_def)
  qed
  have "length literals = 2" if replace using ok that by (simp add: conflict_ok_def)
  then have "literals ! 0 \<in> set literals" "literals ! 1 \<in> set literals" if replace using that by simp_all
  then have F: "set F \<subseteq> set (sep_vertices s)"
    using s(2) initial unfolding a(5) by (auto simp: forbidden_ok_def)
  show "set F \<subseteq> set vs" using F by (auto simp: a)
  show "set A \<inter> set F = {}" using F vert(3) unfolding a(3) by blast
  then show "set T \<inter> set F = {}" by (auto simp: a separator_sources_def)
qed

lemma separator_agrees:
  assumes wf: "tracker_wf t" and R: "R \<subseteq> dom (no_forcing_active t)"
    and s: "sep_inv val t f R {} s" "sep_queue s = []" and sep: "separates (set (sep_edges s)) (set (separator_sources s)) B S"
    and S: "\<forall>v\<in>insert f S. \<beta> v = (val v > 0)" and B: "B \<subseteq> set (sep_vertices s) \<union> set (separator_sources s)" "v \<in> B"
    and rules: "acyclic_rules val t" "follows_rules val t \<beta>"
  shows "\<beta> v = (val v > 0)"
proof -
  note d = sep_invD [OF s(1)]
  let ?N = "set (sep_vertices s) \<union> set (separator_sources s)"
  obtain rank :: "int \<Rightarrow> nat" where rank: "\<And>v x. isForced val t v = Some True \<Longrightarrow> x \<in> set (connected val t v) \<Longrightarrow> rank x < rank v"
    using rules(1) unfolding acyclic_rules_def by blast
  have nodes: "sep_nodes f s = insert f ?N" using s(2) by (auto simp: sep_nodes_def separator_sources_def)
  have forced: "isForced val t v = Some True" if "v \<in> ?N - set (separator_sources s)" for v using d(4) that by blast
  have closed: "v \<in> set (separator_sources s) \<or> (\<forall>x\<in>set (connected val t v). x = f \<or> x \<in> ?N \<and> (x, v) \<in> set (sep_edges s))"
    if "v \<in> ?N" for v
  proof (cases "v \<in> set (separator_sources s)")
    case False
    have "x = f \<or> x \<in> ?N \<and> (x, v) \<in> set (sep_edges s)" if x: "x \<in> set (connected val t v)" for x
    proof -
      have "x \<noteq> v" using rank [OF forced x] False \<open>v \<in> ?N\<close> by auto
      then show ?thesis using d(7) [of v x] x nodes False \<open>v \<in> ?N\<close> by auto
    qed
    then show ?thesis by blast
  qed simp
  show ?thesis
  proof (rule cut_agrees [OF sep S, of ?N "connected val t" rank v])
    show "\<forall>v\<in>?N. v \<in> set (separator_sources s) \<or>
        (\<forall>x\<in>set (connected val t v). x = f \<or> x \<in> ?N \<and> (x, v) \<in> set (sep_edges s))" using closed by blast
    show "\<forall>v\<in>?N - set (separator_sources s). (\<forall>x\<in>set (connected val t v). \<beta> x = (val x > 0)) \<longrightarrow> \<beta> v = (val v > 0)"
      using forced rules(2) unfolding follows_rules_def by blast
    show "\<forall>v\<in>?N - set (separator_sources s). \<forall>x\<in>set (connected val t v). rank x < rank v" using forced rank by blast
  qed (use B in auto)
qed


text \<open>
  Universal 1, existentials 2, 3 and 5; 3 is forced by a clause over 1 and 2, and 5 by one over 3.
  The conflict of 5 and 3 is explained by 1 and the unforced variable 2.
\<close>

definition sample_tracker :: support_tracker where
  "sample_tracker = track [No_Forced 2 10, No_Forced 3 11, No_Forced 5 12, Defining 3 [-1, 2] 20, Defining 5 [3] 21]
     (new_SupportTracker [1])"

definition sample_val :: "int \<Rightarrow> int" where
  "sample_val v = (if v \<in> {2, 5, 11, 12} then - v else v)"

definition sample_container :: dep_container where
  "sample_container = new_DependencyContainer Map.empty [2 \<mapsto> [], 3 \<mapsto> [2], 5 \<mapsto> [2, 3]] {1} [1]"

definition sample_flow :: max_flow where
  "sample_flow g s t e =
     (let f = [0, 2, 2, 0, 2, 2, 0, 2] ! fst e in if snd e then capacity (arcs g) e - f else f)"

lemma sample_explore:
  "map_option (separator_arguments default_configuration sample_tracker [5, -3] False)
     (separator_explore sample_container sample_val sample_tracker [5, -3] 2 False) =
   Some ([5, 3, 1], [(3, 5), (1, 3)], [1], [5, 3], [5, 3], [])"
  by code_simp

lemma sample_network:
  "map_option (\<lambda>g. flow_certificate (arcs g) (nof_vertices g) 0 (nof_vertices g - 1)
       (sample_flow g 0 (nof_vertices g - 1)) [0, 5])
     (separator_network (new_GraphSeparator [5, 3, 1] [(3, 5), (1, 3)]) [1] [5, 3] [5, 3] []) = Some True"
  by code_simp

lemma sample_source:
  "getForcedSource default_configuration Map.empty sample_container sample_val sample_tracker [5, -3] False = Some 2"
  by code_simp

lemma sample_connected:
  "connected sample_val sample_tracker v = (if v = 3 then [1, 2] else if v = 5 then [3] else [])"
  by (simp add: connected_def active_rule_def entry_def sample_tracker_def sample_val_def track_def counted_def getAlias_def
      new_SupportTracker_def setNoForcedVariable_def addDefiningClause_def addSupportVariable_def push_entry_def var_def)

lemma sample_fields:
  "dom (no_forcing_active sample_tracker) = {2, 3, 5}" "tracked_universals sample_tracker = {1}"
  "alias_to_variable sample_tracker = Map.empty" "variable_to_alias sample_tracker = Map.empty"
  by (auto simp: sample_tracker_def track_def new_SupportTracker_def setNoForcedVariable_def addDefiningClause_def
      addSupportVariable_def var_def)

lemma sample_conflict:
  "tracker_wf sample_tracker" "conflict_variables sample_tracker [5, -3] = {5, 3}"
  "conflict_ok sample_val sample_tracker [5, -3] False" "acyclic_rules sample_val sample_tracker"
proof -
  show "tracker_wf sample_tracker"
    unfolding sample_tracker_def
    by (rule track_wf_holds)
      (simp_all add: new_SupportTracker_def setNoForcedVariable_def addDefiningClause_def addSupportVariable_def)
  show vars: "conflict_variables sample_tracker [5, -3] = {5, 3}"
    by (simp add: conflict_variables_def fromAlias_def var_def sample_fields)
  show "conflict_ok sample_val sample_tracker [5, -3] False" by (simp add: conflict_ok_def sample_fields vars)
  show "acyclic_rules sample_val sample_tracker"
    unfolding acyclic_rules_def sample_connected by (rule exI [of _ nat]) auto
qed

lemma sample_covered:
  "covered sample_tracker sample_container f v =
     map_option (\<lambda>deps. binary_search deps \<bar>v\<bar>) (extended_map sample_container \<bar>f\<bar>)"
  "to_compute sample_container = {}" "extended_map sample_container = [2 \<mapsto> [], 3 \<mapsto> [2], 5 \<mapsto> [2, 3]]"
  by (auto simp: containedInExtendedDependencies_def sample_container_def new_DependencyContainer_def
      new_BaseDependencyContainer_def getAlias_def sample_fields var_def)

lemma sample_flows:
  "\<forall>s vs es A B F T g.
      separator_explore sample_container sample_val sample_tracker [5, -3] 2 False = Some s \<and>
      separator_arguments default_configuration sample_tracker [5, -3] False s = (vs, es, A, B, F, T) \<and>
      separator_network (new_GraphSeparator vs es) A B F T = Some g \<longrightarrow>
      documented_max_flow (arcs g) 0 (nof_vertices g - 1) (sample_flow g 0 (nof_vertices g - 1))"
proof (intro allI impI, elim conjE)
  fix s vs es A B F T g
  assume 1: "separator_explore sample_container sample_val sample_tracker [5, -3] 2 False = Some s"
    "separator_arguments default_configuration sample_tracker [5, -3] False s = (vs, es, A, B, F, T)"
    and 2: "separator_network (new_GraphSeparator vs es) A B F T = Some g"
  have "(vs, es, A, B, F, T) = ([5, 3, 1], [(3, 5), (1, 3)], [1], [5, 3], [5, 3], [])" using sample_explore 1 by simp
  then show "documented_max_flow (arcs g) 0 (nof_vertices g - 1) (sample_flow g 0 (nof_vertices g - 1))"
    using sample_network 2 by (auto intro: flow_certificate)
qed


section \<open>The asserting support\<close>

definition dependencies_known :: "support_tracker \<Rightarrow> dep_container \<Rightarrow> bool" where
  "dependencies_known t c \<longleftrightarrow> (\<forall>v\<in>dom (no_forcing_active t). \<forall>w\<in>dom (no_forcing_active t).
     covered t c w v \<noteq> None \<and> largerExtendedDependencies (var (getAlias t v)) (var (getAlias t w)) c \<noteq> None)"

lemma dependencies_knownD:
  assumes "dependencies_known t c" "v \<in> dom (no_forcing_active t)" "w \<in> dom (no_forcing_active t)"
  shows "\<exists>b. covered t c w v = Some b"
    "\<exists>b. largerExtendedDependencies (var (getAlias t v)) (var (getAlias t w)) c = Some b"
  using assms unfolding dependencies_known_def by blast+

lemma max_existential_loop_total:
  assumes "dependencies_known t c" "set vs \<subseteq> dom (no_forcing_active t)" "\<forall>i\<in>set is. i < length vs"
    "\<forall>m. mx = Some m \<longrightarrow> m < length vs"
  shows "\<exists>r. max_existential_loop t c vs is mx = Some r"
  using assms
proof (induction t c vs "is" mx rule: max_existential_loop.induct)
  case (2 t c vs i "is" mx)
  have nth: "vs ! k \<in> dom (no_forcing_active t)" if "k < length vs" for k
    using "2.prems"(2) that nth_mem by blast
  show ?case
  proof (cases mx)
    case None
    then show ?thesis using 2(1) "2.prems" by simp
  next
    case (Some m)
    then have "i < length vs" "m < length vs" using "2.prems"(3,4) by simp_all
    then obtain b where b: "largerExtendedDependencies (var (getAlias t (vs ! i))) (var (getAlias t (vs ! m))) c = Some b"
      using dependencies_knownD(2) [OF "2.prems"(1) nth nth] by blast
    then show ?thesis using 2(2) [OF Some] "2.prems" Some by simp
  qed
qed simp

lemma first_not_contained_total:
  "dependencies_known t c \<Longrightarrow> set vs \<subseteq> dom (no_forcing_active t) \<Longrightarrow> f \<in> dom (no_forcing_active t) \<Longrightarrow>
    \<exists>r. first_not_contained t c f vs i = Some r"
proof (induction t c f vs i rule: first_not_contained.induct)
  case (2 t c f v vs i)
  then have "v \<in> dom (no_forcing_active t)" by simp
  then obtain b where b: "covered t c f v = Some b" using dependencies_knownD(1) [OF "2.prems"(1) _ "2.prems"(3)] by blast
  then show ?case using 2(1) [OF b] "2.prems" by (cases b) simp_all
qed simp

lemma hasForcingClause_total:
  assumes known: "dependencies_known t c" and vs: "set vs \<subseteq> dom (no_forcing_active t)"
  shows "\<exists>has j ws. hasForcingClause t c vs = Some (has, j, ws)"
proof (cases "vs = []")
  case False
  obtain mx where mx: "max_existential_loop t c vs [0..<length vs] None = Some mx"
    using max_existential_loop_total [OF known vs] by force
  obtain m where m: "mx = Some m" "m < length vs"
    using max_existential_loop_bound [OF mx, of "length vs"] False by auto
  let ?ws = "(vs[m := List.last vs])[length vs - 1 := vs ! m]"
  have "set ?ws = set vs" using m(2) False unfolding last_conv_nth [OF False] by (simp add: set_swap)
  then have sub: "set (butlast ?ws) \<subseteq> dom (no_forcing_active t)" using vs in_set_butlastD by fast
  have mD: "vs ! m \<in> dom (no_forcing_active t)" using vs m(2) nth_mem by blast
  obtain r where r: "first_not_contained t c (vs ! m) (butlast ?ws) 0 = Some r"
    using first_not_contained_total [OF known sub mD] by blast
  then have "\<exists>res. hasForcingClause t c vs = Some res" using mx m(1) False by (cases r) (auto simp: hasForcingClause_def Let_def)
  then show ?thesis by auto
qed (auto simp: hasForcingClause_def)

text \<open>Where the loop stops: an unforced maximum that covers the others, or two incomparable ones.\<close>

definition asserting_stop :: "dep_container \<Rightarrow> (int \<Rightarrow> int) \<Rightarrow> support_tracker \<Rightarrow> int list \<Rightarrow> bool" where
  "asserting_stop c val t E \<longleftrightarrow> isForced val t (List.last E) = Some False \<and>
     ((\<forall>v\<in>set (butlast E). covered t c (List.last E) v = Some True) \<or>
      (\<exists>v\<in>set E. isForced val t v = Some False \<and> covered t c (List.last E) v = Some False))"

lemma asserting_choice_spec:
  assumes known: "dependencies_known t c" and vs: "set vs \<subseteq> dom (no_forcing_active t)" and ne: "vs \<noteq> []"
  shows "\<exists>continue ws. asserting_choice c val t vs = Some (continue, ws) \<and> mset ws = mset vs \<and>
    (if continue then isForced val t (List.last ws) = Some True else asserting_stop c val t ws)"
proof -
  obtain has j ws where h: "hasForcingClause t c vs = Some (has, j, ws)" using hasForcingClause_total [OF known vs] by blast
  note spec = hasForcingClause_spec [OF h ne]
  have ne': "ws \<noteq> []" using spec(3) ne by auto
  have D: "v \<in> dom (no_forcing_active t)" if "v \<in> set ws" for v using that spec(1) vs by blast
  obtain forced where f: "isForced val t (List.last ws) = Some forced" using isForced_dom [OF D] ne' by (meson last_in_set)
  consider "forced" | "\<not> forced" has | "\<not> forced" "\<not> has" by blast
  then show ?thesis
  proof cases
    case 1
    then show ?thesis using h f spec(6) by (intro exI [of _ True] exI [of _ ws]) (simp add: asserting_choice_def)
  next
    case 2
    then show ?thesis using h f spec(4,6)
      by (intro exI [of _ False] exI [of _ ws]) (simp add: asserting_choice_def asserting_stop_def)
  next
    case 3
    have j: "j < length ws - 1" "covered t c (List.last ws) (ws ! j) = Some False" using spec(5) 3 by simp_all
    then have jws: "ws ! j \<in> set ws" by simp
    obtain other where o: "isForced val t (ws ! j) = Some other" using isForced_dom D jws by blast
    show ?thesis
    proof (cases other)
      case True
      let ?ws = "(ws[j := List.last ws])[length ws - 1 := ws ! j]"
      have "mset ?ws = mset ws" unfolding last_conv_nth [OF ne'] using j(1) by (simp add: mset_swap)
      moreover have "List.last ?ws = ws ! j" using j(1) ne' by (subst last_conv_nth) auto
      ultimately show ?thesis using h f 3 o True spec(6)
        by (intro exI [of _ True] exI [of _ ?ws]) (simp add: asserting_choice_def)
    next
      case False
      then show ?thesis using h f 3 o spec(6) j(2) jws
        by (intro exI [of _ False] exI [of _ ws]) (auto simp: asserting_choice_def asserting_stop_def)
    qed
  qed
qed

text \<open>
  Everything seen is forced and has its support seen or recorded; the literals of the conflict are
  seen or recorded.
\<close>

definition recorded :: "support_state \<Rightarrow> int set" where
  "recorded s = set (sup_existentials s) \<union> set (sup_universals s) \<union> set (sup_arbiters s)"

definition asserting_inv :: "(int \<Rightarrow> int) \<Rightarrow> support_tracker \<Rightarrow> int set \<Rightarrow> support_state \<Rightarrow> bool" where
  "asserting_inv val t V s \<longleftrightarrow>
     set (sup_existentials s) \<subseteq> dom (no_forcing_active t) \<and> set (sup_universals s) \<subseteq> tracked_universals t \<and>
     set (sup_arbiters s) \<subseteq> tracked_arbiters t \<and> V \<subseteq> sup_seen s \<union> recorded s \<and>
     (\<forall>v\<in>sup_seen s. isForced val t v = Some True \<and> set (connected val t v) \<subseteq> sup_seen s \<union> recorded s)"

lemma insertSupport_recorded:
  "insert v (sup_seen s) \<union> recorded (insertSupport val t v s) =
    insert v (sup_seen s) \<union> recorded s \<union> set (connected val t v)"
  by (auto simp: insertSupport_def recorded_def connected_def Let_def split: option.split)

lemma asserting_inv_insert:
  assumes wf: "tracker_wf t" and inv: "asserting_inv val t V s" and v: "isForced val t v = Some True"
    and drop: "sup_seen s1 = sup_seen s" "insert v (recorded s1) = insert v (recorded s)"
      "set (sup_existentials s1) \<subseteq> set (sup_existentials s)" "sup_universals s1 = sup_universals s" "sup_arbiters s1 = sup_arbiters s"
    and V: "V' \<subseteq> insert v V"
  shows "asserting_inv val t V' (insertSupport val t v s1)"
proof -
  have "set (sup_existentials (insertSupport val t v s1)) \<subseteq> dom (no_forcing_active t)"
    "set (sup_universals (insertSupport val t v s1)) \<subseteq> tracked_universals t"
    "set (sup_arbiters (insertSupport val t v s1)) \<subseteq> tracked_arbiters t"
  proof -
    have d: "set (sup_existentials s1) \<subseteq> dom (no_forcing_active t)" "set (sup_universals s1) \<subseteq> tracked_universals t"
      "set (sup_arbiters s1) \<subseteq> tracked_arbiters t"
      using inv drop by (auto simp: asserting_inv_def)
    show "set (sup_existentials (insertSupport val t v s1)) \<subseteq> dom (no_forcing_active t)"
      using d(1) connected_existentials_dom [OF wf] by force
    show "set (sup_universals (insertSupport val t v s1)) \<subseteq> tracked_universals t"
      "set (sup_arbiters (insertSupport val t v s1)) \<subseteq> tracked_arbiters t"
      using d(2,3) tracker_wfD(6,7) [OF wf] by (auto simp: insertSupport_def Let_def split: option.split)
  qed
  moreover have all: "sup_seen (insertSupport val t v s1) \<union> recorded (insertSupport val t v s1) =
      insert v (sup_seen s \<union> recorded s) \<union> set (connected val t v)"
    using insertSupport_recorded [of v s1 val t] drop(1,2) by auto
  moreover have "V' \<subseteq> insert v (sup_seen s \<union> recorded s)" using inv V by (auto simp: asserting_inv_def)
  moreover have "isForced val t w = Some True \<and>
      set (connected val t w) \<subseteq> insert v (sup_seen s \<union> recorded s) \<union> set (connected val t v)"
    if "w \<in> insert v (sup_seen s)" for w
    using inv v that by (auto simp: asserting_inv_def)
  ultimately show ?thesis unfolding asserting_inv_def all insertSupport_fields(1) drop(1) by blast
qed

lemma insertSupport_pushes:
  "\<exists>new. sup_existentials (insertSupport val t v s) = sup_existentials s @ new \<and> set new \<subseteq> set (connected val t v)"
  by (auto simp: insertSupport_def connected_def Let_def split: option.split)

lemma asserting_loop_spec:
  assumes wf: "tracker_wf t" and known: "dependencies_known t c" and acyclic: "acyclic_rules val t"
    and inv: "asserting_inv val t V s"
  shows "\<exists>s'. asserting_loop c val t s = Some s' \<and> asserting_inv val t V s' \<and>
    (sup_existentials s' = [] \<or> sup_arbiters s' \<noteq> [] \<or> asserting_stop c val t (sup_existentials s'))"
proof -
  obtain rank :: "int \<Rightarrow> nat" where rank: "\<And>v x. isForced val t v = Some True \<Longrightarrow> x \<in> set (connected val t v) \<Longrightarrow> rank x < rank v"
    using acyclic unfolding acyclic_rules_def by blast
  let ?m = "\<lambda>s. image_mset rank (mset (sup_existentials s))"
  have "wf (inv_image (mult less_than) ?m)" by (simp add: wf_mult)
  then show ?thesis using inv
  proof (induction s rule: wf_induct_rule)
    case (less s)
    show ?case
    proof (cases "sup_existentials s = [] \<or> sup_arbiters s \<noteq> []")
      case True
      then show ?thesis using less.prems by (subst asserting_loop.simps) auto
    next
      case False
      have D: "set (sup_existentials s) \<subseteq> dom (no_forcing_active t)" using less.prems by (simp add: asserting_inv_def)
      obtain continue ws where ch: "asserting_choice c val t (sup_existentials s) = Some (continue, ws)"
        "mset ws = mset (sup_existentials s)"
        "if continue then isForced val t (List.last ws) = Some True else asserting_stop c val t ws"
        using asserting_choice_spec [OF known D, of val] False by blast
      have sw: "set ws = set (sup_existentials s)" using ch(2) by (metis set_mset_mset)
      have ne: "ws \<noteq> []" using ch(2) False by auto
      show ?thesis
      proof (cases continue)
        case stop: False
        have "asserting_inv val t V (s\<lparr>sup_existentials := ws\<rparr>)"
          using less.prems by (simp add: asserting_inv_def recorded_def sw)
        moreover have "asserting_loop c val t s = Some (s\<lparr>sup_existentials := ws\<rparr>)"
          using False ch(1) stop by (subst asserting_loop.simps) simp
        ultimately show ?thesis using ch(3) stop by simp
      next
        case True
        let ?v = "List.last ws"
        let ?s1 = "s\<lparr>sup_existentials := butlast ws\<rparr>"
        let ?s2 = "insertSupport val t ?v ?s1"
        have v: "isForced val t ?v = Some True" using ch(3) True by simp
        have "set ws = insert ?v (set (butlast ws))" using last_in [OF ne] .
        then have inv2: "asserting_inv val t V ?s2"
          using asserting_inv_insert [OF wf less.prems v, of ?s1 V] sw by (auto simp: recorded_def)
        obtain new where new: "sup_existentials ?s2 = butlast ws @ new" "set new \<subseteq> set (connected val t ?v)"
          using insertSupport_pushes [of val t ?v ?s1] by auto
        have "mset ws = mset (butlast ws) + {#?v#}"
          using append_butlast_last_id [OF ne] by (metis mset.simps(1) mset.simps(2) mset_append)
        then have "?m s = image_mset rank (mset (butlast ws)) + {#rank ?v#}" using ch(2) by simp
        moreover have "(image_mset rank (mset (butlast ws)) + image_mset rank (mset new),
            image_mset rank (mset (butlast ws)) + {#rank ?v#}) \<in> mult less_than"
          by (rule one_step_implies_mult) (use rank [OF v] new(2) in auto)
        ultimately have "(?s2, s) \<in> inv_image (mult less_than) ?m" using new(1) by simp
        moreover have "asserting_loop c val t s = asserting_loop c val t ?s2"
          using False ch(1) True by (subst asserting_loop.simps) simp
        ultimately show ?thesis using less.IH [OF _ inv2] by simp
      qed
    qed
  qed
qed

lemma initial_asserting_inv:
  assumes wf: "tracker_wf t" and ok: "conflict_ok val t literals replace"
  shows "asserting_inv val t (conflict_variables t literals) (initial_support replace val t literals)"
proof -
  have step: "asserting_inv val t (insert (var (fromAlias t l)) V) (initial_literal replace val t l s)"
    if inv: "asserting_inv val t V s" and l: "l \<in> set literals" for V l s
  proof -
    let ?v = "var (fromAlias t l)"
    have sort: "?v \<in> tracked_universals t \<union> tracked_arbiters t \<union> dom (no_forcing_active t)"
      using ok l by (auto simp: conflict_ok_def conflict_variables_def)
    consider "?v \<in> tracked_universals t" | "?v \<notin> tracked_universals t" "?v \<in> tracked_arbiters t"
      | "?v \<notin> tracked_universals t" "?v \<notin> tracked_arbiters t" "\<not> replace"
      | "?v \<notin> tracked_universals t" "?v \<notin> tracked_arbiters t" replace by blast
    then show ?thesis
    proof cases
      case 4
      have "isForced val t ?v = Some True" using ok l 4(3) by (auto simp: conflict_ok_def var_def)
      from asserting_inv_insert [OF wf inv this, of s "insert ?v V"] show ?thesis
        using 4 by (simp add: initial_literal_def Let_def)
    qed (use inv sort in \<open>auto simp: initial_literal_def Let_def asserting_inv_def recorded_def\<close>)
  qed
  have "asserting_inv val t (V \<union> conflict_variables t ls) (fold (initial_literal replace val t) ls s)"
    if "asserting_inv val t V s" "set ls \<subseteq> set literals" for V ls s
    using that
  proof (induction ls arbitrary: V s)
    case (Cons l ls)
    have "asserting_inv val t (insert (var (fromAlias t l)) V) (initial_literal replace val t l s)"
      using step Cons.prems by simp
    from Cons.IH [OF this] show ?case using Cons.prems(2) by (simp add: conflict_variables_def)
  qed (simp add: conflict_variables_def)
  from this [of "{}" "\<lparr>sup_existentials = [], sup_seen = {}, sup_universals = [], sup_arbiters = []\<rparr>" literals]
  show ?thesis by (simp add: initial_support_def) (simp add: asserting_inv_def)
qed

text \<open>
  C5: Take a well-formed tracker whose rules do not depend on each other in a circle under the
  current values, a conflict over registered variables, and known extended dependencies for all
  existential variables. Then the computation of the asserting support ends and succeeds, and the
  support explains the conflict: every assignment that follows the rules and agrees with the
  current values on the support agrees with them on all literals of the conflict. It ends in one of
  three ways: no existential variable is left; or an arbiter is in the support, and then nothing is
  claimed about the existential variables left; or the last existential variable is not forced, and
  either its extended dependencies cover all the others or an unforced one is incomparable with it.
\<close>

theorem getAssertingSupport_explains:
  assumes wf: "tracker_wf t" and ok: "conflict_ok val t literals replace" and acyclic: "acyclic_rules val t"
    and known: "dependencies_known t c"
  shows "\<exists>E U A. getAssertingSupport c val t literals replace = Some (E, U, A) \<and>
    set E \<subseteq> dom (no_forcing_active t) \<and> set U \<subseteq> tracked_universals t \<and> set A \<subseteq> tracked_arbiters t \<and>
    (E = [] \<or> A \<noteq> [] \<or> asserting_stop c val t E) \<and>
    (\<forall>\<beta>. follows_rules val t \<beta> \<and> (\<forall>v\<in>set E \<union> set U \<union> set A. \<beta> v = (val v > 0)) \<longrightarrow>
      (\<forall>v\<in>conflict_variables t literals. \<beta> v = (val v > 0)))"
proof -
  obtain s where s: "asserting_loop c val t (initial_support replace val t literals) = Some s"
    "asserting_inv val t (conflict_variables t literals) s"
    "sup_existentials s = [] \<or> sup_arbiters s \<noteq> [] \<or> asserting_stop c val t (sup_existentials s)"
    using asserting_loop_spec [OF wf known acyclic initial_asserting_inv [OF wf ok]] by blast
  obtain rank :: "int \<Rightarrow> nat" where rank: "\<And>v x. isForced val t v = Some True \<Longrightarrow> x \<in> set (connected val t v) \<Longrightarrow> rank x < rank v"
    using acyclic unfolding acyclic_rules_def by blast
  have agree: "\<beta> v = (val v > 0)"
    if \<beta>: "follows_rules val t \<beta>" "\<forall>v\<in>recorded s. \<beta> v = (val v > 0)" and v: "v \<in> sup_seen s \<union> recorded s" for \<beta> v
    using v
  proof (induction "rank v" arbitrary: v rule: less_induct)
    case less
    show ?case
    proof (cases "v \<in> recorded s")
      case False
      then have f: "isForced val t v = Some True" "set (connected val t v) \<subseteq> sup_seen s \<union> recorded s"
        using less.prems s(2) by (auto simp: asserting_inv_def)
      then have "\<forall>x\<in>set (connected val t v). \<beta> x = (val x > 0)" using less.hyps rank [OF f(1)] by blast
      then show ?thesis using \<beta>(1) f(1) unfolding follows_rules_def by blast
    qed (use \<beta>(2) in simp)
  qed
  have "getAssertingSupport c val t literals replace = Some (sup_existentials s, sup_universals s, sup_arbiters s)"
    using s(1) by (simp add: getAssertingSupport_def)
  moreover have "conflict_variables t literals \<subseteq> sup_seen s \<union> recorded s" using s(2) by (simp add: asserting_inv_def)
  ultimately show ?thesis using s(2,3) agree unfolding recorded_def asserting_inv_def
    by (intro exI [of _ "sup_existentials s"] exI [of _ "sup_universals s"] exI [of _ "sup_arbiters s"]) blast
qed

theorem getAssertingSupport_explains_witness:
  "\<exists>E U A. getAssertingSupport sample_container sample_val sample_tracker [5, -3] False = Some (E, U, A) \<and>
    set E \<subseteq> dom (no_forcing_active sample_tracker) \<and> set U \<subseteq> tracked_universals sample_tracker \<and>
    set A \<subseteq> tracked_arbiters sample_tracker \<and> (E = [] \<or> A \<noteq> [] \<or> asserting_stop sample_container sample_val sample_tracker E) \<and>
    (\<forall>\<beta>. follows_rules sample_val sample_tracker \<beta> \<and> (\<forall>v\<in>set E \<union> set U \<union> set A. \<beta> v = (sample_val v > 0)) \<longrightarrow>
      (\<forall>v\<in>{5, 3}. \<beta> v = (sample_val v > 0)))"
proof -
  have "dependencies_known sample_tracker sample_container"
    unfolding dependencies_known_def largerExtendedDependencies_def extended_size_def sample_covered
    by (auto simp: sample_fields getAlias_def var_def)
  from getAssertingSupport_explains [OF sample_conflict(1,3,4) this, unfolded sample_conflict(2)] show ?thesis .
qed

end
