(* ===== verification/BuildAiger.thy ===== *)
theory BuildAiger
  imports Utils Text
begin

unbundle bit_operations_syntax

text \<open>
  \<open>src/buildAIGER.cc\<close>: the model as an and-inverter graph. The aiger library is used through the
  calls that append an input, an and-gate or an output, so the circuit is three lists. Signed
  literals of the solver become aiger literals, twice the variable plus the sign; the constants
  are 0 and 1. A failed assertion of the builder, \<open>at\<close> on a missing key and an index outside a
  vector are \<open>None\<close>. Checking and writing the file is a parameter.
\<close>

section \<open>State\<close>

record aiger =
  aig_inputs :: "(int \<times> string) list"
  aig_ands :: "(int \<times> int \<times> int) list"
  aig_outputs :: "(int \<times> string) list"

type_synonym def_circuit = "(int list \<times> int) list"

record aiger_builder =
  circuit :: aiger
  renamings :: "int \<rightharpoonup> int"
  indices :: "int \<rightharpoonup> nat"
  builder_existentials :: "int list"
  builder_universals :: "int list"
  intermediate_variables_start :: int
  last_used_intermediate_variable :: int

definition aiger_false :: int where "aiger_false = 0"
definition aiger_true :: int where "aiger_true = 1"

definition aiger_init :: aiger where
  "aiger_init = \<lparr>aig_inputs = [], aig_ands = [], aig_outputs = []\<rparr>"

definition aiger_add_and :: "int \<Rightarrow> int \<Rightarrow> int \<Rightarrow> aiger_builder \<Rightarrow> aiger_builder" where
  "aiger_add_and lhs rhs0 rhs1 b =
     b\<lparr>circuit := (circuit b)\<lparr>aig_ands := aig_ands (circuit b) @ [(lhs, rhs0, rhs1)]\<rparr>\<rparr>"

definition aiger_add_input :: "int \<Rightarrow> string \<Rightarrow> aiger_builder \<Rightarrow> aiger_builder" where
  "aiger_add_input lit name b =
     b\<lparr>circuit := (circuit b)\<lparr>aig_inputs := aig_inputs (circuit b) @ [(lit, name)]\<rparr>\<rparr>"

definition aiger_add_output :: "int \<Rightarrow> string \<Rightarrow> aiger_builder \<Rightarrow> aiger_builder" where
  "aiger_add_output lit name b =
     b\<lparr>circuit := (circuit b)\<lparr>aig_outputs := aig_outputs (circuit b) @ [(lit, name)]\<rparr>\<rparr>"

definition new_AIGERBuilder :: "(int \<rightharpoonup> nat) \<Rightarrow> int \<Rightarrow> int list \<Rightarrow> int list \<Rightarrow> aiger_builder" where
  "new_AIGERBuilder idx max_var_in_matrix existentials universals =
     \<lparr>circuit = aiger_init, renamings = Map.empty, indices = idx, builder_existentials = existentials,
      builder_universals = universals, intermediate_variables_start = max_var_in_matrix + 1,
      last_used_intermediate_variable = max_var_in_matrix\<rparr>"

definition getAIGERRepresentation :: "int \<Rightarrow> int" where
  "getAIGERRepresentation x = (if x > 0 then 2 * x else - 2 * x + 1)"

definition getAIGERNegation :: "int \<Rightarrow> int" where
  "getAIGERNegation x = x XOR 1"

definition fresh_intermediate :: "aiger_builder \<Rightarrow> int \<times> aiger_builder" where
  "fresh_intermediate b =
     (let v = last_used_intermediate_variable b + 1 in (v, b\<lparr>last_used_intermediate_variable := v\<rparr>))"

section \<open>Clauses and assignments\<close>

definition filterClauses :: "clause list \<Rightarrow> (clause list \<times> clause list) option" where
  "filterClauses clauses =
     (if [] \<in> set clauses then None
      else Some (map butlast (filter (\<lambda>c. List.last c > 0) clauses),
                 map butlast (filter (\<lambda>c. \<not> List.last c > 0) clauses)))"

fun isConflictEntailed :: "int list \<Rightarrow> (int \<rightharpoonup> bool) \<Rightarrow> bool" where
  "isConflictEntailed [] arbiter_assignment = True"
| "isConflictEntailed (l # ls) arbiter_assignment =
     (case arbiter_assignment (var l) of
        Some value \<Rightarrow> if (l > 0) \<noteq> value then False else isConflictEntailed ls arbiter_assignment
      | None \<Rightarrow> isConflictEntailed ls arbiter_assignment)"

text \<open>\<open>None\<close> when an arbiter satisfies the clause, and the other literals otherwise.\<close>

fun removeArbiters_loop :: "clause \<Rightarrow> (int \<rightharpoonup> bool) \<Rightarrow> clause \<Rightarrow> bool \<times> clause" where
  "removeArbiters_loop [] arbiter_assignment result = (True, result)"
| "removeArbiters_loop (l # ls) arbiter_assignment result =
     (case arbiter_assignment (var l) of
        Some value \<Rightarrow> if (l > 0) = value then (False, result)
                      else removeArbiters_loop ls arbiter_assignment result
      | None \<Rightarrow> removeArbiters_loop ls arbiter_assignment (result @ [l]))"

definition removeArbiters :: "clause \<Rightarrow> (int \<rightharpoonup> bool) \<Rightarrow> bool \<times> clause" where
  "removeArbiters clause arbiter_assignment = removeArbiters_loop clause arbiter_assignment []"

section \<open>Gates\<close>

definition addAdderToCircuit :: "int \<Rightarrow> int \<Rightarrow> int \<Rightarrow> aiger_builder \<Rightarrow> aiger_builder" where
  "addAdderToCircuit in1 in2 out =
     aiger_add_and (getAIGERRepresentation out) (getAIGERRepresentation in1) (getAIGERRepresentation in2)"

definition combineAIGERVariables :: "int \<Rightarrow> int \<Rightarrow> aiger_builder \<Rightarrow> int \<times> aiger_builder" where
  "combineAIGERVariables in1 in2 b =
     (if in1 = aiger_false \<or> in2 = aiger_false then (aiger_false, b)
      else if in1 = aiger_true then (in2, b)
      else if in2 = aiger_true then (in1, b)
      else
        let (v, b1) = fresh_intermediate b; out = getAIGERRepresentation v
        in (out, aiger_add_and out in1 in2 b1))"

definition checkVariableInDefinition :: "int \<Rightarrow> aiger_builder \<Rightarrow> int \<times> aiger_builder" where
  "checkVariableInDefinition l b =
     (if \<bar>l\<bar> \<ge> intermediate_variables_start b
      then case renamings b \<bar>l\<bar> of
             None \<Rightarrow> let (aux, b1) = fresh_intermediate b
                     in (if l > 0 then aux else - aux, b1\<lparr>renamings := (renamings b1)(\<bar>l\<bar> \<mapsto> aux)\<rparr>)
           | Some aux \<Rightarrow> (if l > 0 then aux else - aux, b)
      else (l, b))"

text \<open>The inputs of a gate: whether one is false, and the aiger literals that remain.\<close>

fun gate_inputs ::
  "int list \<Rightarrow> (int \<rightharpoonup> int) \<Rightarrow> (int \<rightharpoonup> bool) \<Rightarrow> int list \<Rightarrow> aiger_builder \<Rightarrow>
   (bool \<times> int list \<times> aiger_builder) option" where
  "gate_inputs [] gate_renaming arbiter_assignment ins b = Some (False, ins, b)"
| "gate_inputs (i # is) gate_renaming arbiter_assignment ins b =
     (case arbiter_assignment (var i) of
        Some value \<Rightarrow>
          if (i > 0) \<noteq> value then Some (True, ins, b)
          else gate_inputs is gate_renaming arbiter_assignment ins b
      | None \<Rightarrow>
          if gate_renaming \<bar>i\<bar> \<noteq> None then
            (case gate_renaming i of
               None \<Rightarrow> None
             | Some r \<Rightarrow>
                 let i' = (if i > 0 then r else - r) in
                 if i' = aiger_true then gate_inputs is gate_renaming arbiter_assignment ins b
                 else if i' = aiger_false then Some (True, ins, b)
                 else gate_inputs is gate_renaming arbiter_assignment ins b)
          else
            let (x, b1) = checkVariableInDefinition i b
            in gate_inputs is gate_renaming arbiter_assignment (ins @ [getAIGERRepresentation x]) b1)"

definition addDefinitionCircuitAdder ::
  "int \<Rightarrow> int list \<Rightarrow> int \<Rightarrow> (int \<rightharpoonup> int) \<Rightarrow> (int \<rightharpoonup> bool) \<Rightarrow> aiger_builder \<Rightarrow>
   (bool \<times> (int \<rightharpoonup> int) \<times> aiger_builder) option" where
  "addDefinitionCircuitAdder defined_variable inputs gate_output gate_renaming arbiter_assignment b =
     (let is_output_gate = (defined_variable = \<bar>gate_output\<bar>) in
      if \<not> length inputs \<le> 2 \<or> \<not> (gate_output > 0 \<or> is_output_gate \<and> inputs = []) then None
      else
        Option.bind (gate_inputs inputs gate_renaming arbiter_assignment [] b) (\<lambda>(is_falsified, ins, b1).
          if is_output_gate then
            let rep = getAIGERRepresentation defined_variable in
            if is_falsified then
              let value = (if gate_output > 0 then aiger_false else aiger_true)
              in Some (True, gate_renaming, aiger_add_and rep value value b1)
            else
              Some (False, gate_renaming,
                (case ins of
                   [] \<Rightarrow> let value = (if gate_output > 0 then aiger_true else aiger_false)
                         in aiger_add_and rep value value b1
                 | [i] \<Rightarrow> aiger_add_and rep i aiger_true b1
                 | [i, j] \<Rightarrow> aiger_add_and rep i j b1
                 | _ \<Rightarrow> b1))
          else if is_falsified then
            let value = (if gate_output > 0 then aiger_false else aiger_true)
            in Some (False, gate_renaming(gate_output \<mapsto> value), b1)
          else
            Some
              (case ins of
                 [] \<Rightarrow> (False, gate_renaming(gate_output \<mapsto> aiger_true), b1)
               | [i] \<Rightarrow> (False, gate_renaming(gate_output \<mapsto> i), b1)
               | [i, j] \<Rightarrow> let (x, b2) = checkVariableInDefinition gate_output b1
                           in (False, gate_renaming, aiger_add_and (getAIGERRepresentation x) i j b2)
               | _ \<Rightarrow> (False, gate_renaming, b1))))"

fun addDefinition_loop ::
  "int \<Rightarrow> def_circuit \<Rightarrow> (int \<rightharpoonup> int) \<Rightarrow> (int \<rightharpoonup> bool) \<Rightarrow> aiger_builder \<Rightarrow> aiger_builder option" where
  "addDefinition_loop defined_variable [] gate_renaming arbiter_assignment b = Some b"
| "addDefinition_loop defined_variable ((adder, v) # gates) gate_renaming arbiter_assignment b =
     Option.bind (addDefinitionCircuitAdder defined_variable adder v gate_renaming arbiter_assignment b)
       (\<lambda>(stop, gate_renaming, b).
          if stop then Some b else addDefinition_loop defined_variable gates gate_renaming arbiter_assignment b)"

definition addDefinition ::
  "nat \<Rightarrow> def_circuit \<Rightarrow> (int \<rightharpoonup> bool) \<Rightarrow> aiger_builder \<Rightarrow> aiger_builder option" where
  "addDefinition variable_index def arbiter_assignment b =
     (if variable_index < length (builder_existentials b)
      then addDefinition_loop (builder_existentials b ! variable_index) def Map.empty arbiter_assignment b
      else None)"

section \<open>Clauses as circuits\<close>

text \<open>A variable that is true iff every literal of the clause is false.\<close>

fun clause_chain :: "int \<Rightarrow> int \<Rightarrow> int list \<Rightarrow> aiger_builder \<Rightarrow> aiger_builder" where
  "clause_chain x active [] b = b"
| "clause_chain x active (l # ls) b =
     (let b1 = addAdderToCircuit x (- l) active b; (active', b2) = fresh_intermediate b1
      in clause_chain active active' ls b2)"

definition getIsActiveCircuit_clause :: "clause \<Rightarrow> aiger_builder \<Rightarrow> (int \<times> aiger_builder) option" where
  "getIsActiveCircuit_clause clause b =
     (case clause of
        [] \<Rightarrow> None
      | [l] \<Rightarrow> Some (- l, b)
      | l # ls \<Rightarrow>
          let (active, b1) = fresh_intermediate b;
              b2 = clause_chain (- l) active ls b1;
              active' = last_used_intermediate_variable b2 - 1
          in Some (active', b2\<lparr>last_used_intermediate_variable := active'\<rparr>))"

text \<open>The clauses an arbiter does not satisfy; \<open>None\<close> when one has no literal left.\<close>

fun reduced_clauses :: "clause list \<Rightarrow> (int \<rightharpoonup> bool) \<Rightarrow> clause list option" where
  "reduced_clauses [] arbiter_assignment = Some []"
| "reduced_clauses (c # cs) arbiter_assignment =
     (let (active, reduced) = removeArbiters c arbiter_assignment in
      if active
      then if reduced = [] then None
           else map_option (\<lambda>rs. reduced # rs) (reduced_clauses cs arbiter_assignment)
      else reduced_clauses cs arbiter_assignment)"

fun clauses_fire :: "clause list \<Rightarrow> aiger_builder \<Rightarrow> (int list \<times> aiger_builder) option" where
  "clauses_fire [] b = Some ([], b)"
| "clauses_fire (c # cs) b =
     Option.bind (getIsActiveCircuit_clause c b) (\<lambda>(x, b1).
       map_option (\<lambda>(xs, b2). (x # xs, b2)) (clauses_fire cs b1))"

definition getIsActiveCircuit ::
  "clause list \<Rightarrow> (int \<rightharpoonup> bool) \<Rightarrow> aiger_builder \<Rightarrow> (int \<times> aiger_builder) option" where
  "getIsActiveCircuit clauses arbiter_assignment b =
     (case reduced_clauses clauses arbiter_assignment of
        None \<Rightarrow> Some (aiger_true, b)
      | Some [] \<Rightarrow> Some (aiger_false, b)
      | Some [c] \<Rightarrow> map_option (\<lambda>(x, b). (getAIGERRepresentation x, b)) (getIsActiveCircuit_clause c b)
      | Some cs \<Rightarrow>
          Option.bind (clauses_fire cs b) (\<lambda>(clause_fires, b1).
            map_option (\<lambda>(x, b2). (getAIGERRepresentation (- x), b2)) (getIsActiveCircuit_clause clause_fires b1)))"

section \<open>Skolem functions\<close>

definition default_circuit ::
  "int \<Rightarrow> int \<Rightarrow> int \<Rightarrow> clause list \<Rightarrow> (int \<rightharpoonup> bool) \<Rightarrow> aiger_builder \<Rightarrow> aiger_builder option" where
  "default_circuit rep positive_fires negative_fires default_clauses arbiter_assignment b =
     Option.bind (filterClauses default_clauses) (\<lambda>(positive_default_clauses, negative_default_clauses).
       if length positive_default_clauses > length negative_default_clauses then
         Option.bind (getIsActiveCircuit negative_default_clauses arbiter_assignment b) (\<lambda>(negative_default_fires, b1).
           let (default_applicable, b2) = combineAIGERVariables (getAIGERNegation positive_fires) negative_default_fires b1;
               (is_positive, b3) = combineAIGERVariables (getAIGERNegation negative_fires) (getAIGERNegation default_applicable) b2
           in Some (aiger_add_and rep is_positive aiger_true b3))
       else
         Option.bind (getIsActiveCircuit positive_default_clauses arbiter_assignment b) (\<lambda>(positive_default_fires, b1).
           let (default_applicable, b2) = combineAIGERVariables (getAIGERNegation negative_fires) positive_default_fires b1;
               (is_negative, b3) = combineAIGERVariables (getAIGERNegation positive_fires) (getAIGERNegation default_applicable) b2
           in Some (aiger_add_and rep (getAIGERNegation is_negative) aiger_true b3)))"

definition addForcingClauses ::
  "int \<Rightarrow> clause list \<Rightarrow> clause list \<Rightarrow> clause list \<Rightarrow> (int \<rightharpoonup> bool) \<Rightarrow> aiger_builder \<Rightarrow> aiger_builder option" where
  "addForcingClauses v positive_forcing_clauses negative_forcing_clauses default_clauses arbiter_assignment b =
     (let rep = getAIGERRepresentation v in
      if length default_clauses \<le> 1 then
        (if \<not> (default_clauses = [] \<or> length (default_clauses ! 0) = 1) then None
         else
           let default_constant = (if default_clauses = [] then v else default_clauses ! 0 ! 0) in
           if default_constant > 0 then
             map_option (\<lambda>(forced, b1). aiger_add_and rep (getAIGERNegation forced) aiger_true b1)
               (getIsActiveCircuit negative_forcing_clauses arbiter_assignment b)
           else
             map_option (\<lambda>(forced, b1). aiger_add_and rep forced aiger_true b1)
               (getIsActiveCircuit positive_forcing_clauses arbiter_assignment b))
      else
        Option.bind (getIsActiveCircuit positive_forcing_clauses arbiter_assignment b) (\<lambda>(positive_fires, b1).
          if positive_fires = aiger_true then Some (aiger_add_and rep aiger_true aiger_true b1)
          else
            Option.bind (getIsActiveCircuit negative_forcing_clauses arbiter_assignment b1) (\<lambda>(negative_fires, b2).
              if negative_fires = aiger_true then Some (aiger_add_and rep aiger_false aiger_false b2)
              else default_circuit rep positive_fires negative_fires default_clauses arbiter_assignment b2)))"

text \<open>The data of the model, by the index of the existential variable.\<close>

record aiger_data =
  data_definitions :: "def_circuit list"
  data_conditions :: "int list list list"
  data_conditional :: "def_circuit list list"
  data_positive_forcing :: "clause list list"
  data_negative_forcing :: "clause list list"
  data_defaults :: "int \<rightharpoonup> clause list"

definition at_index :: "'a list \<Rightarrow> nat \<Rightarrow> 'a option" where
  "at_index xs i = (if i < length xs then Some (xs ! i) else None)"

fun entailed_definition ::
  "int list list \<Rightarrow> def_circuit list \<Rightarrow> (int \<rightharpoonup> bool) \<Rightarrow> def_circuit option option" where
  "entailed_definition [] cdefs arbiter_assignment = Some None"
| "entailed_definition (c # cs) [] arbiter_assignment = None"
| "entailed_definition (c # cs) (d # ds) arbiter_assignment =
     (if isConflictEntailed c arbiter_assignment then Some (Some d)
      else entailed_definition cs ds arbiter_assignment)"

definition addSkolemFunction ::
  "int \<Rightarrow> aiger_data \<Rightarrow> (int \<rightharpoonup> bool) \<Rightarrow> aiger_builder \<Rightarrow> aiger_builder option" where
  "addSkolemFunction v data arbiter_assignment b =
     Option.bind (indices b v) (\<lambda>index.
     Option.bind (at_index (data_definitions data) index) (\<lambda>def.
       if def \<noteq> [] then addDefinition index def arbiter_assignment b
       else
         Option.bind (at_index (data_conditions data) index) (\<lambda>conditions.
         Option.bind (at_index (data_conditional data) index) (\<lambda>cdefs.
         Option.bind (entailed_definition conditions cdefs arbiter_assignment) (\<lambda>found.
           case found of
             Some cdef \<Rightarrow> addDefinition index cdef arbiter_assignment b
           | None \<Rightarrow>
               Option.bind (data_defaults data v) (\<lambda>default_clauses.
               Option.bind (at_index (data_positive_forcing data) index) (\<lambda>positive.
               Option.bind (at_index (data_negative_forcing data) index) (\<lambda>negative.
                 addForcingClauses v positive negative default_clauses arbiter_assignment b))))))))"

fun addSkolemFunctions ::
  "int list \<Rightarrow> aiger_data \<Rightarrow> (int \<rightharpoonup> bool) \<Rightarrow> aiger_builder \<Rightarrow> aiger_builder option" where
  "addSkolemFunctions [] data arbiter_assignment b = Some b"
| "addSkolemFunctions (e # es) data arbiter_assignment b =
     Option.bind (addSkolemFunction e data arbiter_assignment b) (\<lambda>b1.
       addSkolemFunctions es data arbiter_assignment
         (aiger_add_output (getAIGERRepresentation e) (to_string e) b1))"

definition computeCircuitRepresentation ::
  "aiger_data \<Rightarrow> (int \<rightharpoonup> bool) \<Rightarrow> aiger_builder \<Rightarrow> aiger_builder option" where
  "computeCircuitRepresentation data arbiter_assignment b =
     addSkolemFunctions (builder_existentials b) data arbiter_assignment
       (fold (\<lambda>u. aiger_add_input (getAIGERRepresentation u) (to_string u)) (builder_universals b) b)"

definition arbiter_map :: "int list \<Rightarrow> (int \<rightharpoonup> bool)" where
  "arbiter_map arbiter_assignment = fold (\<lambda>lit m. m(var lit \<mapsto> lit > 0)) arbiter_assignment Map.empty"

definition writeToFile ::
  "(string \<Rightarrow> bool \<Rightarrow> aiger \<Rightarrow> bool) \<Rightarrow> string \<Rightarrow> bool \<Rightarrow> aiger_data \<Rightarrow> int list \<Rightarrow> aiger_builder \<Rightarrow>
   (bool \<times> aiger_builder) option" where
  "writeToFile write filename binary_mode data arbiter_assignment b =
     map_option (\<lambda>b1. (write filename binary_mode (circuit b1), b1))
       (computeCircuitRepresentation data (arbiter_map arbiter_assignment) b)"

end
