(* ===== verification/BuildAiger_Correct.thy ===== *)
theory BuildAiger_Correct
  imports BuildAiger
begin

unbundle bit_operations_syntax

text \<open>
  What the built circuit computes. Gates are evaluated in the order they were added; a valuation
  that satisfies all gate equations is not changed by evaluating them, which turns statements
  about the evaluation of the gates one call adds into statements about the whole circuit.
\<close>

section \<open>Evaluation\<close>

definition aig_value :: "assignment \<Rightarrow> int \<Rightarrow> bool" where
  "aig_value \<alpha> l \<longleftrightarrow> (l div 2 \<noteq> 0 \<and> \<alpha> (l div 2)) \<noteq> odd l"

definition gate_step :: "int \<times> int \<times> int \<Rightarrow> assignment \<Rightarrow> assignment" where
  "gate_step g \<alpha> = (case g of (l, a, b) \<Rightarrow> \<alpha>(l div 2 := aig_value \<alpha> a \<and> aig_value \<alpha> b))"

definition aig_eval :: "(int \<times> int \<times> int) list \<Rightarrow> assignment \<Rightarrow> assignment" where
  "aig_eval gs \<alpha> = fold gate_step gs \<alpha>"

definition aig_consistent :: "(int \<times> int \<times> int) list \<Rightarrow> assignment \<Rightarrow> bool" where
  "aig_consistent gs \<alpha> \<longleftrightarrow> (\<forall>(l, a, b)\<in>set gs. \<alpha> (l div 2) = (aig_value \<alpha> a \<and> aig_value \<alpha> b))"

lemma aig_eval_simps [simp]:
  "aig_eval [] \<alpha> = \<alpha>" "aig_eval (g # gs) \<alpha> = aig_eval gs (gate_step g \<alpha>)"
  "aig_eval (gs @ hs) \<alpha> = aig_eval hs (aig_eval gs \<alpha>)"
  by (simp_all add: aig_eval_def)

lemma aig_consistent_append [simp]:
  "aig_consistent (gs @ hs) \<alpha> \<longleftrightarrow> aig_consistent gs \<alpha> \<and> aig_consistent hs \<alpha>"
  unfolding aig_consistent_def set_append by blast

lemma aig_consistent_eval: "aig_consistent gs \<alpha> \<Longrightarrow> aig_eval gs \<alpha> = \<alpha>"
proof (induction gs)
  case (Cons g gs)
  obtain l a b where g: "g = (l, a, b)" by (cases g)
  then have "\<alpha> (l div 2) = (aig_value \<alpha> a \<and> aig_value \<alpha> b)" using Cons.prems by (simp add: aig_consistent_def)
  then have "gate_step g \<alpha> = \<alpha>" unfolding gate_step_def g by (simp add: fun_upd_idem_iff)
  then show ?case using Cons by (simp add: aig_consistent_def)
qed simp

lemma aig_value_representation [simp]:
  "x \<noteq> 0 \<Longrightarrow> aig_value \<alpha> (getAIGERRepresentation x) = lit_true \<alpha> x"
proof -
  have "(- 2 * x + 1) div 2 = - x" by presburger
  then show "x \<noteq> 0 \<Longrightarrow> ?thesis" by (auto simp: aig_value_def getAIGERRepresentation_def lit_true_def)
qed

lemma representation_var [simp]: "0 < x \<Longrightarrow> getAIGERRepresentation x div 2 = x"
  by (simp add: getAIGERRepresentation_def)

lemma aig_value_constants [simp]:
  "aig_value \<alpha> aiger_true" "\<not> aig_value \<alpha> aiger_false"
  by (simp_all add: aig_value_def aiger_true_def aiger_false_def)

lemma constant_bounds:
  "0 \<le> aiger_true" "aiger_true div 2 = 0" "0 \<le> aiger_false" "aiger_false div 2 = 0" "aiger_false \<noteq> aiger_true"
  "aiger_true \<noteq> aiger_false"
  by (simp_all add: aiger_true_def aiger_false_def)

lemma aig_value_negation [simp]: "aig_value \<alpha> (getAIGERNegation x) = (\<not> aig_value \<alpha> x)"
proof -
  have "(x XOR 1) div 2 = x div 2" by (simp add: xor_int_rec [of x 1])
  moreover have "odd (x XOR 1) = even x" by (simp add: xor_int_rec [of x 1])
  ultimately show ?thesis by (auto simp: aig_value_def getAIGERNegation_def)
qed

text \<open>
  What \<open>aiger_check\<close> demands of the and-gates (\<open>aiger.h\<close>): every variable is the output of at most
  one gate, outputs are plain variables other than the inputs of the circuit, and no gate depends
  on itself. Then every assignment of the inputs has a valuation that satisfies all gates.
\<close>

definition gate_vars :: "(int \<times> int \<times> int) list \<Rightarrow> int list" where
  "gate_vars gs = map (\<lambda>(l, _, _). l div 2) gs"

definition aig_acyclic :: "int list \<Rightarrow> (int \<times> int \<times> int) list \<Rightarrow> bool" where
  "aig_acyclic inputs gs \<longleftrightarrow> distinct (gate_vars gs) \<and> set inputs \<inter> set (gate_vars gs) = {} \<and>
     (\<exists>rank :: int \<Rightarrow> nat. \<forall>(l, i, j)\<in>set gs. \<forall>x\<in>{i, j}.
        x div 2 \<in> set (gate_vars gs) \<longrightarrow> rank (x div 2) < rank (l div 2))"

lemma gate_step_other: "v \<notin> set (gate_vars gs) \<Longrightarrow> aig_eval gs \<alpha> v = \<alpha> v"
  by (induction gs arbitrary: \<alpha>) (auto simp: gate_vars_def gate_step_def)

lemma aig_value_cong: "\<alpha> (l div 2) = \<beta> (l div 2) \<Longrightarrow> aig_value \<alpha> l = aig_value \<beta> l"
  by (simp add: aig_value_def)

lemma aig_eval_sorted:
  assumes "distinct (gate_vars gs)" "sorted_wrt (\<lambda>(l, _, _) (l', _, _). rank (l div 2) \<le> rank (l' div 2)) gs"
    "\<forall>(l, i, j)\<in>set gs. \<forall>x\<in>{i, j}. x div 2 \<in> set (gate_vars gs) \<longrightarrow> rank (x div 2) < (rank (l div 2) :: nat)"
  shows "aig_consistent gs (aig_eval gs \<alpha>)"
  using assms
proof (induction gs arbitrary: \<alpha>)
  case (Cons g gs)
  obtain l i j where g: "g = (l, i, j)" by (cases g)
  have vars: "gate_vars (g # gs) = l div 2 # gate_vars gs" by (simp add: gate_vars_def g)
  let ?\<beta> = "gate_step g \<alpha>" and ?\<gamma> = "aig_eval (g # gs) \<alpha>"
  have rank: "rank (l div 2) \<le> rank v" if "v \<in> set (gate_vars gs)" for v
    using Cons.prems(2) that by (auto simp: gate_vars_def g)
  have "x div 2 \<notin> set (gate_vars (g # gs))" if x: "x \<in> {i, j}" for x
  proof
    assume in_vars: "x div 2 \<in> set (gate_vars (g # gs))"
    then have less: "rank (x div 2) < rank (l div 2)" using Cons.prems(3) x by (auto simp: g)
    then show False using in_vars rank [of "x div 2"] by (auto simp: vars)
  qed
  then have same: "aig_value ?\<gamma> x = aig_value \<alpha> x" if "x \<in> {i, j}" for x
    using that by (intro aig_value_cong gate_step_other) blast
  have "?\<gamma> (l div 2) = ?\<beta> (l div 2)" using Cons.prems(1) by (simp add: vars gate_step_other)
  then have "?\<gamma> (l div 2) = (aig_value ?\<gamma> i \<and> aig_value ?\<gamma> j)" using same by (simp add: gate_step_def g)
  moreover have "aig_consistent gs (aig_eval gs ?\<beta>)"
    by (rule Cons.IH) (use Cons.prems in \<open>auto simp: vars\<close>)
  ultimately show ?case by (simp add: aig_consistent_def g)
qed (simp add: aig_consistent_def)

lemma aig_acyclic_valuation:
  assumes "aig_acyclic us gs"
  shows "\<exists>\<beta>. aig_consistent gs \<beta> \<and> (\<forall>u\<in>set us. \<beta> u = \<alpha> u)"
proof -
  obtain rank :: "int \<Rightarrow> nat" where rank: "\<forall>(l, i, j)\<in>set gs. \<forall>x\<in>{i, j}. x div 2 \<in> set (gate_vars gs) \<longrightarrow> rank (x div 2) < rank (l div 2)"
    and gs: "distinct (gate_vars gs)" "set us \<inter> set (gate_vars gs) = {}"
    using assms by (auto simp: aig_acyclic_def)
  define key where "key = (\<lambda>g :: int \<times> int \<times> int. rank (fst g div 2))"
  define hs where "hs = sort_key key gs"
  have set: "set hs = set gs" "set (gate_vars hs) = set (gate_vars gs)" by (simp_all add: hs_def gate_vars_def)
  have "distinct (gate_vars hs)" using gs(1) by (simp add: hs_def gate_vars_def distinct_map)
  moreover have "sorted (map key hs)" by (simp add: hs_def)
  then have "sorted_wrt (\<lambda>(l, _, _) (l', _, _). rank (l div 2) \<le> rank (l' div 2)) hs"
    by (simp add: sorted_map key_def case_prod_unfold)
  ultimately have "aig_consistent hs (aig_eval hs \<alpha>)" using rank by (intro aig_eval_sorted) (auto simp: set)
  moreover have "aig_eval hs \<alpha> u = \<alpha> u" if "u \<in> set us" for u using gs(2) that by (intro gate_step_other) (auto simp: set)
  ultimately show ?thesis by (auto simp: aig_consistent_def set(1))
qed

section \<open>Building with fresh variables\<close>

abbreviation last_var :: "aiger_builder \<Rightarrow> int" where
  "last_var \<equiv> last_used_intermediate_variable"

definition fixed_fields :: "aiger_builder \<Rightarrow> aiger_builder" where
  "fixed_fields b = b\<lparr>circuit := (circuit b)\<lparr>aig_ands := []\<rparr>, renamings := Map.empty, last_used_intermediate_variable := 0\<rparr>"

definition builds :: "aiger_builder \<Rightarrow> aiger_builder \<Rightarrow> (int \<times> int \<times> int) list \<Rightarrow> bool" where
  "builds b b' gs \<longleftrightarrow> fixed_fields b' = fixed_fields b \<and> renamings b' = renamings b \<and>
     aig_ands (circuit b') = aig_ands (circuit b) @ gs \<and> last_var b \<le> last_var b' \<and>
     (\<forall>(l, _, _)\<in>set gs. last_var b < l div 2 \<and> l div 2 \<le> last_var b')"

lemma builds_refl [simp]: "builds b b []"
  by (simp add: builds_def)

lemma builds_trans: "builds b b1 gs \<Longrightarrow> builds b1 b2 hs \<Longrightarrow> builds b b2 (gs @ hs)"
  by (fastforce simp: builds_def)

lemma aig_eval_agree: "builds b b' gs \<Longrightarrow> agree_upto (last_var b) \<alpha> (aig_eval gs \<alpha>)"
proof -
  have "agree_upto n \<alpha> (aig_eval gs \<alpha>)" if "\<forall>(l, _, _)\<in>set gs. n < l div 2" for n
    using that
  proof (induction gs arbitrary: \<alpha>)
    case (Cons g gs)
    have "agree_upto n \<alpha> (gate_step g \<alpha>)" using Cons.prems by (auto simp: gate_step_def agree_upto_def split: prod.splits)
    moreover have "agree_upto n (gate_step g \<alpha>) (aig_eval gs (gate_step g \<alpha>))" using Cons by auto
    ultimately show ?case by (simp add: agree_upto_def)
  qed simp
  then show "builds b b' gs \<Longrightarrow> ?thesis" by (auto simp: builds_def)
qed

lemma aig_value_agree: "agree_upto n \<alpha> \<beta> \<Longrightarrow> l div 2 \<le> n \<Longrightarrow> aig_value \<alpha> l = aig_value \<beta> l"
  by (simp add: agree_upto_def aig_value_def)

lemma aig_value_later:
  "builds b1 b2 hs \<Longrightarrow> l div 2 \<le> last_var b1 \<Longrightarrow> aig_value (aig_eval hs \<alpha>) l = aig_value \<alpha> l"
  using aig_value_agree [OF aig_eval_agree] by blast

lemma builds_gate:
  assumes "0 \<le> last_var b"
  shows "builds b (aiger_add_and (getAIGERRepresentation (last_var b + 1)) i j
      (b\<lparr>last_used_intermediate_variable := last_var b + 1\<rparr>)) [(getAIGERRepresentation (last_var b + 1), i, j)]"
  using assms by (simp add: builds_def aiger_add_and_def fixed_fields_def)

definition clause_below :: "int \<Rightarrow> clause \<Rightarrow> bool" where
  "clause_below n c \<longleftrightarrow> (\<forall>l\<in>set c. l \<noteq> 0 \<and> \<bar>l\<bar> \<le> n)"

lemma clause_below_sat: "agree_upto n \<alpha> \<beta> \<Longrightarrow> clause_below n c \<Longrightarrow> clause_sat \<alpha> c = clause_sat \<beta> c"
  by (rule clause_sat_cong) (auto simp: agree_upto_def clause_below_def clause_vars_def)

lemma clause_below_mono: "clause_below n c \<Longrightarrow> n \<le> m \<Longrightarrow> clause_below m c"
  by (force simp: clause_below_def)

text \<open>The chain of gates of a clause, and the variable that was taken too many.\<close>

lemma clause_chain_spec:
  assumes "x \<noteq> 0" "\<bar>x\<bar> \<le> last_var b" "0 \<le> last_var b" "ls \<noteq> []" "clause_below (last_var b) ls"
  shows "\<exists>b' gs. clause_chain x (last_var b + 1) ls (b\<lparr>last_used_intermediate_variable := last_var b + 1\<rparr>) = b' \<and>
    builds b (b'\<lparr>last_used_intermediate_variable := last_var b' - 1\<rparr>) gs \<and> last_var b < last_var b' - 1 \<and>
    (\<forall>\<alpha>. aig_eval gs \<alpha> (last_var b' - 1) = (lit_true \<alpha> x \<and> \<not> clause_sat \<alpha> ls))"
  using assms
proof (induction ls arbitrary: x b)
  case (Cons l ls)
  let ?v = "last_var b + 1"
  define b1 where "b1 = aiger_add_and (getAIGERRepresentation ?v) (getAIGERRepresentation x)
      (getAIGERRepresentation (- l)) (b\<lparr>last_used_intermediate_variable := ?v\<rparr>)"
  let ?g = "(getAIGERRepresentation ?v, getAIGERRepresentation x, getAIGERRepresentation (- l))"
  have b1: "builds b b1 [?g]" unfolding b1_def by (rule builds_gate [OF Cons.prems(3)])
  have l1: "last_var b1 = ?v" by (simp add: b1_def aiger_add_and_def)
  have l: "l \<noteq> 0" "\<bar>l\<bar> \<le> last_var b" "clause_below (last_var b) ls" using Cons.prems(5) by (auto simp: clause_below_def)
  have step: "gate_step ?g \<alpha> = \<alpha>(?v := lit_true \<alpha> x \<and> \<not> lit_true \<alpha> l)" for \<alpha>
    using Cons.prems l by (simp add: gate_step_def)
  have chain: "clause_chain x ?v (l # ls) (b\<lparr>last_used_intermediate_variable := ?v\<rparr>) =
      clause_chain ?v (?v + 1) ls (b1\<lparr>last_used_intermediate_variable := last_var b1 + 1\<rparr>)"
    by (simp add: b1_def addAdderToCircuit_def fresh_intermediate_def aiger_add_and_def Let_def)
  show ?case
  proof (cases ls)
    case Nil
    let ?b' = "b1\<lparr>last_used_intermediate_variable := last_var b1 + 1\<rparr>"
    have "?b'\<lparr>last_used_intermediate_variable := last_var ?b' - 1\<rparr> = b1" by simp
    then have "builds b (?b'\<lparr>last_used_intermediate_variable := last_var ?b' - 1\<rparr>) [?g]" using b1 by (simp only:)
    moreover have "clause_chain ?v (?v + 1) ls ?b' = ?b'" using Nil by simp
    moreover have "last_var ?b' - 1 = ?v" using l1 by simp
    ultimately show ?thesis unfolding chain using Nil step
      by (intro exI [of _ ?b'] exI [of _ "[?g]"] conjI) (simp_all only:, simp_all)
  next
    case (Cons k ks)
    define b2 where "b2 = clause_chain ?v (last_var b1 + 1) ls (b1\<lparr>last_used_intermediate_variable := last_var b1 + 1\<rparr>)"
    obtain gs where gs: "builds b1 (b2\<lparr>last_used_intermediate_variable := last_var b2 - 1\<rparr>) gs"
      "last_var b1 < last_var b2 - 1"
      "\<forall>\<alpha>. aig_eval gs \<alpha> (last_var b2 - 1) = (lit_true \<alpha> ?v \<and> \<not> clause_sat \<alpha> ls)"
    proof -
      have "clause_below (last_var b1) ls" using l(3) l1 clause_below_mono by simp
      then show ?thesis using Cons.IH [of ?v b1] Cons.prems(3) l1 Cons that unfolding b2_def by auto
    qed
    have "(lit_true (gate_step ?g \<alpha>) ?v \<and> \<not> clause_sat (gate_step ?g \<alpha>) ls) = (lit_true \<alpha> x \<and> \<not> clause_sat \<alpha> (l # ls))" for \<alpha>
      using clause_below_sat [of "last_var b" \<alpha> "gate_step ?g \<alpha>" ls] agree_upto_upd [of "last_var b" ?v] l(3) Cons.prems(3)
      by (simp add: step lit_true_pos)
    then have "\<forall>\<alpha>. aig_eval (?g # gs) \<alpha> (last_var b2 - 1) = (lit_true \<alpha> x \<and> \<not> clause_sat \<alpha> (l # ls))"
      using gs(3) by simp
    moreover have "clause_chain ?v (?v + 1) ls (b1\<lparr>last_used_intermediate_variable := last_var b1 + 1\<rparr>) = b2"
      by (simp add: b2_def l1)
    moreover have "builds b (b2\<lparr>last_used_intermediate_variable := last_var b2 - 1\<rparr>) (?g # gs)"
      using builds_trans [OF b1 gs(1)] by simp
    ultimately show ?thesis unfolding chain using gs(2) l1
      by (intro exI [of _ b2] exI [of _ "?g # gs"]) simp
  qed
qed simp

lemma getIsActiveCircuit_clause_spec:
  assumes "clause_below (last_var b) c" "c \<noteq> []" "0 \<le> last_var b"
  shows "\<exists>x b' gs. getIsActiveCircuit_clause c b = Some (x, b') \<and> builds b b' gs \<and> x \<noteq> 0 \<and> \<bar>x\<bar> \<le> last_var b' \<and>
    (\<forall>\<alpha>. lit_true (aig_eval gs \<alpha>) x = (\<not> clause_sat \<alpha> c))"
proof -
  obtain l ls where c: "c = l # ls" using assms(2) by (cases c) auto
  have l: "l \<noteq> 0" "\<bar>l\<bar> \<le> last_var b" "clause_below (last_var b) ls" using assms(1) by (auto simp: clause_below_def c)
  show ?thesis
  proof (cases ls)
    case Nil
    then show ?thesis using l by (intro exI [of _ "- l"] exI [of _ b] exI [of _ "[]"])
        (simp add: getIsActiveCircuit_clause_def c)
  next
    case (Cons k ks)
    obtain b' gs where gs: "clause_chain (- l) (last_var b + 1) ls (b\<lparr>last_used_intermediate_variable := last_var b + 1\<rparr>) = b'"
      "builds b (b'\<lparr>last_used_intermediate_variable := last_var b' - 1\<rparr>) gs" "last_var b < last_var b' - 1"
      "\<forall>\<alpha>. aig_eval gs \<alpha> (last_var b' - 1) = (lit_true \<alpha> (- l) \<and> \<not> clause_sat \<alpha> ls)"
      using clause_chain_spec [of "- l" b ls] l assms(3) Cons by auto
    have "getIsActiveCircuit_clause c b = Some (last_var b' - 1, b'\<lparr>last_used_intermediate_variable := last_var b' - 1\<rparr>)"
      using gs(1) by (simp add: getIsActiveCircuit_clause_def c Cons fresh_intermediate_def Let_def)
    then show ?thesis using gs(2-4) l(1) assms(3)
      by (intro exI [of _ "last_var b' - 1"] exI [of _ "b'\<lparr>last_used_intermediate_variable := last_var b' - 1\<rparr>"] exI [of _ gs])
        (simp add: c lit_true_pos)
  qed
qed

section \<open>Lists of clauses\<close>

definition override :: "(int \<rightharpoonup> bool) \<Rightarrow> assignment \<Rightarrow> assignment" where
  "override A \<alpha> = (\<lambda>v. case A v of None \<Rightarrow> \<alpha> v | Some b \<Rightarrow> b)"

text \<open>A clause of the model, below the last variable but for its arbiters, and whether it fires.\<close>

definition model_clause :: "(int \<rightharpoonup> bool) \<Rightarrow> int \<Rightarrow> clause \<Rightarrow> bool" where
  "model_clause A n c \<longleftrightarrow> (\<forall>l\<in>set c. l \<noteq> 0 \<and> (A (var l) \<noteq> None \<or> \<bar>l\<bar> \<le> n))"

definition some_fires :: "(int \<rightharpoonup> bool) \<Rightarrow> assignment \<Rightarrow> clause list \<Rightarrow> bool" where
  "some_fires A \<alpha> cs \<longleftrightarrow> (\<exists>c\<in>set cs. \<not> clause_sat (override A \<alpha>) c)"

lemma removeArbiters_loop_spec:
  assumes "model_clause A n c" "clause_below n result" "removeArbiters_loop c A result = (active, red)"
  shows "(if active then clause_below n red \<and>
      (\<forall>\<alpha>. clause_sat \<alpha> red = (clause_sat \<alpha> result \<or> clause_sat (override A \<alpha>) c))
    else \<forall>\<alpha>. clause_sat (override A \<alpha>) c)"
  using assms
proof (induction c A result rule: removeArbiters_loop.induct)
  case (2 l ls A result)
  have l: "l \<noteq> 0" "model_clause A n ls" using "2.prems"(1) by (auto simp: model_clause_def)
  show ?case
  proof (cases "A (var l)")
    case None
    then have "clause_below n (result @ [l])" using "2.prems"(1,2) by (auto simp: clause_below_def model_clause_def)
    moreover have "lit_true (override A \<alpha>) l = lit_true \<alpha> l" for \<alpha>
      using None by (intro lit_true_cong) (simp add: override_def var_def)
    ultimately show ?thesis using 2(1) [OF None l(2)] "2.prems"(3) None by auto
  next
    case (Some b)
    then have lit: "lit_true (override A \<alpha>) l = ((l > 0) = b)" for \<alpha>
      using l(1) by (auto simp: lit_true_def override_def var_def abs_if split: if_splits)
    show ?thesis
    proof (cases "(l > 0) = b")
      case True
      then show ?thesis using "2.prems"(3) Some lit by auto
    next
      case False
      then show ?thesis using 2(2) [OF Some False l(2) "2.prems"(2)] "2.prems"(3) Some lit by auto
    qed
  qed
qed auto

lemma reduced_clauses_spec:
  assumes "\<forall>c\<in>set cs. model_clause A n c"
  shows "case reduced_clauses cs A of
      None \<Rightarrow> \<forall>\<alpha>. some_fires A \<alpha> cs
    | Some rs \<Rightarrow> (\<forall>r\<in>set rs. clause_below n r \<and> r \<noteq> []) \<and>
        (\<forall>\<alpha>. some_fires A \<alpha> cs = (\<exists>r\<in>set rs. \<not> clause_sat \<alpha> r))"
  using assms
proof (induction cs)
  case (Cons c cs)
  obtain active red where r: "removeArbiters c A = (active, red)" by fastforce
  have spec: "if active then clause_below n red \<and> (\<forall>\<alpha>. clause_sat \<alpha> red = clause_sat (override A \<alpha>) c)
      else \<forall>\<alpha>. clause_sat (override A \<alpha>) c"
    using removeArbiters_loop_spec [of A n c "[]" active red] Cons.prems r
    by (auto simp: removeArbiters_def clause_below_def)
  have fires: "some_fires A \<alpha> (c # cs) = (\<not> clause_sat (override A \<alpha>) c \<or> some_fires A \<alpha> cs)" for \<alpha>
    by (auto simp: some_fires_def)
  have IH: "case reduced_clauses cs A of
      None \<Rightarrow> \<forall>\<alpha>. some_fires A \<alpha> cs
    | Some rs \<Rightarrow> (\<forall>r\<in>set rs. clause_below n r \<and> r \<noteq> []) \<and>
        (\<forall>\<alpha>. some_fires A \<alpha> cs = (\<exists>r\<in>set rs. \<not> clause_sat \<alpha> r))"
    using Cons by simp
  show ?case
  proof (cases active)
    case False
    then show ?thesis using IH spec r by (auto simp: fires split: option.splits)
  next
    case True
    show ?thesis
    proof (cases "red = []")
      case True
      then show ?thesis using \<open>active\<close> spec r by (auto simp: fires)
    next
      case False
      then show ?thesis using True IH spec r by (auto simp: fires split: option.splits)
    qed
  qed
qed (simp add: some_fires_def)

lemma clauses_fire_spec:
  assumes "0 \<le> last_var b" "\<forall>c\<in>set cs. clause_below (last_var b) c \<and> c \<noteq> []"
  shows "\<exists>xs b' gs. clauses_fire cs b = Some (xs, b') \<and> builds b b' gs \<and> length xs = length cs \<and>
    clause_below (last_var b') xs \<and>
    (\<forall>\<alpha>. clause_sat (aig_eval gs \<alpha>) xs = (\<exists>c\<in>set cs. \<not> clause_sat \<alpha> c))"
  using assms
proof (induction cs arbitrary: b)
  case Nil
  show ?case by (intro exI [of _ "[]"] exI [of _ b]) (auto simp: clause_below_def intro: exI [of _ "[]"])
next
  case (Cons c cs)
  obtain x b1 gs where 1: "getIsActiveCircuit_clause c b = Some (x, b1)" "builds b b1 gs" "x \<noteq> 0" "\<bar>x\<bar> \<le> last_var b1"
    "\<forall>\<alpha>. lit_true (aig_eval gs \<alpha>) x = (\<not> clause_sat \<alpha> c)"
    using getIsActiveCircuit_clause_spec [of b c] Cons.prems by auto
  have le: "last_var b \<le> last_var b1" using 1(2) by (simp add: builds_def)
  have n1: "0 \<le> last_var b1" using le Cons.prems(1) by simp
  have below: "\<forall>c\<in>set cs. clause_below (last_var b1) c \<and> c \<noteq> []"
    using Cons.prems(2) clause_below_mono [OF _ le] by simp
  obtain xs b2 hs where 2: "clauses_fire cs b1 = Some (xs, b2)" "builds b1 b2 hs" "length xs = length cs"
    "clause_below (last_var b2) xs" "\<forall>\<alpha>. clause_sat (aig_eval hs \<alpha>) xs = (\<exists>c\<in>set cs. \<not> clause_sat \<alpha> c)"
    using Cons.IH [OF n1 below] by blast
  have le2: "last_var b1 \<le> last_var b2" using 2(2) by (simp add: builds_def)
  have first: "lit_true (aig_eval hs (aig_eval gs \<alpha>)) x = (\<not> clause_sat \<alpha> c)" for \<alpha>
    using 1(5) agree_upto_lit [OF aig_eval_agree [OF 2(2)] 1(4)] by blast
  have "clause_sat (aig_eval gs \<alpha>) d = clause_sat \<alpha> d" if "d \<in> set cs" for \<alpha> d
    by (rule clause_below_sat [OF aig_eval_agree [OF 1(2)], symmetric]) (use Cons.prems(2) that in simp)
  then have "clause_sat (aig_eval (gs @ hs) \<alpha>) (x # xs) = (\<exists>d\<in>set (c # cs). \<not> clause_sat \<alpha> d)" for \<alpha>
    using first 2(5) by simp
  moreover have "clause_below (last_var b2) (x # xs)" using 1(3,4) 2(4) le2 by (simp add: clause_below_def)
  moreover have "clauses_fire (c # cs) b = Some (x # xs, b2)" using 1(1) 2(1) by simp
  moreover have "length (x # xs) = length (c # cs)" using 2(3) by simp
  ultimately show ?case using builds_trans [OF 1(2) 2(2)] by blast
qed

text \<open>The literal a call returns, below the last variable, and its value.\<close>

definition represents_value ::
  "aiger_builder \<Rightarrow> int \<times> aiger_builder \<Rightarrow> (int \<times> int \<times> int) list \<Rightarrow> (assignment \<Rightarrow> bool) \<Rightarrow> bool" where
  "represents_value b r gs P \<longleftrightarrow> builds b (snd r) gs \<and> 0 \<le> fst r \<and> fst r div 2 \<le> last_var (snd r) \<and>
     (\<forall>\<alpha>. aig_value (aig_eval gs \<alpha>) (fst r) = P \<alpha>)"

lemma representation_bounds:
  "0 \<le> n \<Longrightarrow> \<bar>x\<bar> \<le> n \<Longrightarrow> 0 \<le> getAIGERRepresentation x \<and> getAIGERRepresentation x div 2 \<le> n"
  by (auto simp: getAIGERRepresentation_def)

lemma getIsActiveCircuit_spec:
  assumes n: "0 \<le> last_var b" and c: "\<forall>c\<in>set cs. model_clause A (last_var b) c"
  shows "\<exists>r gs. getIsActiveCircuit cs A b = Some r \<and> represents_value b r gs (\<lambda>\<alpha>. some_fires A \<alpha> cs) \<and>
    (fst r = aiger_true \<longrightarrow> (\<forall>\<alpha>. some_fires A \<alpha> cs))"
proof (cases "reduced_clauses cs A")
  case None
  then show ?thesis using reduced_clauses_spec [OF c] n
    by (intro exI [of _ "(aiger_true, b)"] exI [of _ "[]"])
      (simp add: getIsActiveCircuit_def represents_value_def constant_bounds)
next
  case (Some rs)
  then have rs: "\<forall>r\<in>set rs. clause_below (last_var b) r \<and> r \<noteq> []"
    "\<And>\<alpha>. some_fires A \<alpha> cs = (\<exists>r\<in>set rs. \<not> clause_sat \<alpha> r)"
    using reduced_clauses_spec [OF c] by simp_all
  have not_true: "getAIGERRepresentation x \<noteq> aiger_true" if "x \<noteq> 0" for x
    using that by (auto simp: getAIGERRepresentation_def aiger_true_def)
  consider "rs = []" | r where "rs = [r]" | r s ss where "rs = r # s # ss" by (metis neq_Nil_conv)
  then show ?thesis
  proof cases
    case 1
    then show ?thesis using Some rs n
      by (intro exI [of _ "(aiger_false, b)"] exI [of _ "[]"])
        (simp add: getIsActiveCircuit_def represents_value_def constant_bounds)
  next
    case (2 r)
    obtain x b' gs where x: "getIsActiveCircuit_clause r b = Some (x, b')" "builds b b' gs" "x \<noteq> 0" "\<bar>x\<bar> \<le> last_var b'"
      "\<forall>\<alpha>. lit_true (aig_eval gs \<alpha>) x = (\<not> clause_sat \<alpha> r)"
      using getIsActiveCircuit_clause_spec [of b r] rs(1) n 2 by auto
    have "0 \<le> last_var b'" using x(2) n by (simp add: builds_def)
    then show ?thesis using x Some 2 rs(2) representation_bounds not_true
      by (intro exI [of _ "(getAIGERRepresentation x, b')"] exI [of _ gs])
        (simp add: getIsActiveCircuit_def represents_value_def)
  next
    case (3 r s ss)
    obtain xs b1 gs where x: "clauses_fire rs b = Some (xs, b1)" "builds b b1 gs" "length xs = length rs"
      "clause_below (last_var b1) xs" "\<forall>\<alpha>. clause_sat (aig_eval gs \<alpha>) xs = (\<exists>c\<in>set rs. \<not> clause_sat \<alpha> c)"
      using clauses_fire_spec [OF n rs(1)] by blast
    have n1: "0 \<le> last_var b1" using x(2) n by (simp add: builds_def)
    have "xs \<noteq> []" using x(3) 3 by auto
    then obtain y b2 hs where y: "getIsActiveCircuit_clause xs b1 = Some (y, b2)" "builds b1 b2 hs" "y \<noteq> 0"
      "\<bar>y\<bar> \<le> last_var b2" "\<forall>\<alpha>. lit_true (aig_eval hs \<alpha>) y = (\<not> clause_sat \<alpha> xs)"
      using getIsActiveCircuit_clause_spec [OF x(4) _ n1] by blast
    have "0 \<le> last_var b2" using y(2) n1 by (simp add: builds_def)
    moreover have "getIsActiveCircuit cs A b = Some (getAIGERRepresentation (- y), b2)"
      using Some 3 x(1) y(1) by (simp add: getIsActiveCircuit_def del: clauses_fire.simps)
    moreover have "aig_value (aig_eval (gs @ hs) \<alpha>) (getAIGERRepresentation (- y)) = some_fires A \<alpha> cs" for \<alpha>
      using y(3,5) x(5) rs(2) by simp
    ultimately show ?thesis using y(3,4) representation_bounds [of "last_var b2" "- y"] not_true [of "- y"]
        builds_trans [OF x(2) y(2)]
      by (intro exI [of _ "(getAIGERRepresentation (- y), b2)"] exI [of _ "gs @ hs"])
        (simp add: represents_value_def del: aig_eval_simps(3))
  qed
qed

lemma combineAIGERVariables_spec:
  assumes "0 \<le> last_var b" "0 \<le> i" "0 \<le> j" "i div 2 \<le> last_var b" "j div 2 \<le> last_var b"
  shows "\<exists>gs. represents_value b (combineAIGERVariables i j b) gs (\<lambda>\<alpha>. aig_value \<alpha> i \<and> aig_value \<alpha> j)"
proof -
  consider "i = aiger_false \<or> j = aiger_false" | "i = aiger_true" "j \<noteq> aiger_false"
    | "i \<noteq> aiger_true" "j = aiger_true" "i \<noteq> aiger_false"
    | "i \<noteq> aiger_true" "j \<noteq> aiger_true" "i \<noteq> aiger_false" "j \<noteq> aiger_false" by blast
  then show ?thesis
  proof cases
    case 4
    let ?v = "last_var b + 1"
    have c: "combineAIGERVariables i j b = (getAIGERRepresentation ?v,
        aiger_add_and (getAIGERRepresentation ?v) i j (b\<lparr>last_used_intermediate_variable := ?v\<rparr>))"
      using 4 by (simp add: combineAIGERVariables_def fresh_intermediate_def Let_def)
    show ?thesis unfolding c
      by (rule exI [of _ "[(getAIGERRepresentation ?v, i, j)]"])
        (use assms(1) builds_gate [OF assms(1), of i j] in
          \<open>simp add: represents_value_def gate_step_def aiger_add_and_def getAIGERRepresentation_def\<close>,
         simp add: aig_value_def)
  qed (use assms in \<open>auto simp: combineAIGERVariables_def represents_value_def constant_bounds intro!: exI [of _ "[]"]\<close>)
qed

section \<open>Forcing clauses and default functions\<close>

definition grows :: "aiger_builder \<Rightarrow> aiger_builder \<Rightarrow> (int \<times> int \<times> int) list \<Rightarrow> bool" where
  "grows b b' gs \<longleftrightarrow> fixed_fields b' = fixed_fields b \<and> last_var b \<le> last_var b' \<and>
     aig_ands (circuit b') = aig_ands (circuit b) @ gs"

definition extends :: "aiger_builder \<Rightarrow> aiger_builder \<Rightarrow> (int \<times> int \<times> int) list \<Rightarrow> bool" where
  "extends b b' gs \<longleftrightarrow> grows b b' gs \<and> renamings b' = renamings b"

lemma grows_trans: "grows b b1 gs \<Longrightarrow> grows b1 b2 hs \<Longrightarrow> grows b b2 (gs @ hs)"
  by (simp add: grows_def)

lemma grows_and: "grows b b' gs \<Longrightarrow> grows b (aiger_add_and l i j b') (gs @ [(l, i, j)])"
  by (simp add: grows_def aiger_add_and_def fixed_fields_def)

lemma extends_trans: "extends b b1 gs \<Longrightarrow> extends b1 b2 hs \<Longrightarrow> extends b b2 (gs @ hs)"
  unfolding extends_def using grows_trans by force

lemma builds_extends: "builds b b' gs \<Longrightarrow> extends b b' gs"
  by (simp add: builds_def extends_def grows_def)

lemma renamings_and [simp]: "renamings (aiger_add_and l i j b) = renamings b"
  by (simp add: aiger_add_and_def)

lemma extends_and: "extends b b' gs \<Longrightarrow> extends b (aiger_add_and l i j b') (gs @ [(l, i, j)])"
  using grows_and by (simp add: extends_def)

lemma represents_valueD:
  assumes "represents_value b r gs P"
  shows "extends b (snd r) gs" "last_var b \<le> last_var (snd r)" "0 \<le> fst r" "fst r div 2 \<le> last_var (snd r)"
    and "aig_consistent gs \<alpha> \<Longrightarrow> aig_value \<alpha> (fst r) = P \<alpha>"
  using assms builds_extends aig_consistent_eval by (auto simp: represents_value_def builds_def) metis+

definition default_value :: "(int \<rightharpoonup> bool) \<Rightarrow> assignment \<Rightarrow> clause list \<Rightarrow> bool" where
  "default_value A \<alpha> D =
     (case D of [] \<Rightarrow> True
      | [d] \<Rightarrow> d ! 0 > 0
      | _ \<Rightarrow>
          (let P = map butlast (filter (\<lambda>c. List.last c > 0) D); N = map butlast (filter (\<lambda>c. \<not> List.last c > 0) D)
           in if length P > length N then \<not> some_fires A \<alpha> N else some_fires A \<alpha> P))"

definition forcing_value ::
  "(int \<rightharpoonup> bool) \<Rightarrow> assignment \<Rightarrow> clause list \<Rightarrow> clause list \<Rightarrow> clause list \<Rightarrow> bool" where
  "forcing_value A \<alpha> P N D \<longleftrightarrow> some_fires A \<alpha> P \<or> \<not> some_fires A \<alpha> N \<and> default_value A \<alpha> D"

definition default_ok :: "(int \<rightharpoonup> bool) \<Rightarrow> int \<Rightarrow> clause list \<Rightarrow> bool" where
  "default_ok A n D \<longleftrightarrow> (\<forall>d\<in>set D. d \<noteq> [] \<and> model_clause A n (butlast d)) \<and> (length D = 1 \<longrightarrow> length (D ! 0) = 1)"

lemma model_clause_mono: "model_clause A n c \<Longrightarrow> n \<le> m \<Longrightarrow> model_clause A m c"
  by (force simp: model_clause_def)

lemma negation_bounds: "0 \<le> x \<Longrightarrow> 0 \<le> getAIGERNegation x \<and> getAIGERNegation x div 2 = x div 2"
  by (simp add: getAIGERNegation_def xor_int_rec [of x 1])

lemma default_circuit_spec:
  assumes n: "0 \<le> last_var b" and v: "0 < v" and D: "default_ok A (last_var b) D"
    and p: "0 \<le> p" "p div 2 \<le> last_var b" and q: "0 \<le> q" "q div 2 \<le> last_var b"
  shows "\<exists>b' gs. default_circuit (getAIGERRepresentation v) p q D A b = Some b' \<and> extends b b' gs \<and>
    (\<forall>\<alpha>. aig_consistent gs \<alpha> \<longrightarrow> \<alpha> v =
      (let P = map butlast (filter (\<lambda>c. List.last c > 0) D); N = map butlast (filter (\<lambda>c. \<not> List.last c > 0) D)
       in if length P > length N then \<not> (aig_value \<alpha> q \<or> \<not> aig_value \<alpha> p \<and> some_fires A \<alpha> N)
          else aig_value \<alpha> p \<or> \<not> aig_value \<alpha> q \<and> some_fires A \<alpha> P))"
proof -
  let ?P = "map butlast (filter (\<lambda>c. List.last c > 0) D)" and ?N = "map butlast (filter (\<lambda>c. \<not> List.last c > 0) D)"
  have f: "filterClauses D = Some (?P, ?N)" using D by (auto simp: filterClauses_def default_ok_def)
  have m: "\<forall>c\<in>set ?P. model_clause A (last_var b) c" "\<forall>c\<in>set ?N. model_clause A (last_var b) c"
    using D by (auto simp: default_ok_def)
  have tail: "\<exists>b' hs. (let (a, b2) = combineAIGERVariables (getAIGERNegation x) (fst r) (snd r);
        (s, b3) = combineAIGERVariables (getAIGERNegation y) (getAIGERNegation a) b2
        in Some (aiger_add_and (getAIGERRepresentation v) (h s) aiger_true b3)) = Some b' \<and>
      extends (snd r) b' hs \<and>
      (\<forall>\<alpha>. aig_consistent hs \<alpha> \<longrightarrow> (\<forall>P. (\<forall>l. aig_value \<alpha> (h l) = P (aig_value \<alpha> l)) \<longrightarrow>
        \<alpha> v = P (\<not> aig_value \<alpha> y \<and> \<not> (\<not> aig_value \<alpha> x \<and> aig_value \<alpha> (fst r)))))"
    if r: "0 \<le> last_var (snd r)" "0 \<le> fst r" "fst r div 2 \<le> last_var (snd r)"
      and x: "0 \<le> x" "x div 2 \<le> last_var (snd r)" and y: "0 \<le> y" "y div 2 \<le> last_var (snd r)" for r x y h
  proof -
    obtain a b2 where c1: "combineAIGERVariables (getAIGERNegation x) (fst r) (snd r) = (a, b2)" by fastforce
    obtain gs1 where g1: "represents_value (snd r) (a, b2) gs1
        (\<lambda>\<alpha>. aig_value \<alpha> (getAIGERNegation x) \<and> aig_value \<alpha> (fst r))"
      using combineAIGERVariables_spec [of "snd r" "getAIGERNegation x" "fst r"] r x negation_bounds [OF x(1)] c1 by auto
    note d1 = represents_valueD [OF g1, unfolded fst_conv snd_conv]
    obtain s b3 where c2: "combineAIGERVariables (getAIGERNegation y) (getAIGERNegation a) b2 = (s, b3)" by fastforce
    obtain gs2 where g2: "represents_value b2 (s, b3) gs2
        (\<lambda>\<alpha>. aig_value \<alpha> (getAIGERNegation y) \<and> aig_value \<alpha> (getAIGERNegation a))"
      using combineAIGERVariables_spec [of b2 "getAIGERNegation y" "getAIGERNegation a"] r(1) d1(2-4) y
        negation_bounds [OF y(1)] negation_bounds [OF d1(3)] c2 by auto
    note d2 = represents_valueD [OF g2, unfolded fst_conv snd_conv]
    let ?hs = "gs1 @ gs2 @ [(getAIGERRepresentation v, h s, aiger_true)]"
    let ?b' = "aiger_add_and (getAIGERRepresentation v) (h s) aiger_true b3"
    have "extends (snd r) ?b' ?hs" by (rule extends_trans [OF d1(1) extends_and [OF d2(1)]])
    moreover have "\<alpha> v = P (\<not> aig_value \<alpha> y \<and> \<not> (\<not> aig_value \<alpha> x \<and> aig_value \<alpha> (fst r)))"
      if c: "aig_consistent ?hs \<alpha>" and h: "\<forall>l. aig_value \<alpha> (h l) = P (aig_value \<alpha> l)" for \<alpha> P
    proof -
      have "aig_value \<alpha> a = (\<not> aig_value \<alpha> x \<and> aig_value \<alpha> (fst r))" using d1(5) c by simp
      moreover have "aig_value \<alpha> s = (\<not> aig_value \<alpha> y \<and> \<not> aig_value \<alpha> a)" using d2(5) c by simp
      moreover have "\<alpha> v = aig_value \<alpha> (h s)" using c v by (simp add: aig_consistent_def)
      ultimately show ?thesis using h by simp
    qed
    moreover have "(let (a, b2) = combineAIGERVariables (getAIGERNegation x) (fst r) (snd r);
        (s, b3) = combineAIGERVariables (getAIGERNegation y) (getAIGERNegation a) b2
        in Some (aiger_add_and (getAIGERRepresentation v) (h s) aiger_true b3)) = Some ?b'"
      by (simp add: c1 c2)
    ultimately show ?thesis by blast
  qed
  show ?thesis
  proof (cases "length ?P > length ?N")
    case True
    obtain r gs where r: "getIsActiveCircuit ?N A b = Some r" "represents_value b r gs (\<lambda>\<alpha>. some_fires A \<alpha> ?N)"
      using getIsActiveCircuit_spec [OF n m(2)] by blast
    note d = represents_valueD [OF r(2)]
    have "0 \<le> last_var (snd r)" "p div 2 \<le> last_var (snd r)" "q div 2 \<le> last_var (snd r)" using d(2) n p q by auto
    from tail [OF this(1) d(3,4) p(1) this(2) q(1) this(3), of "\<lambda>l. l"]
    obtain b' hs where t: "(let (a, b2) = combineAIGERVariables (getAIGERNegation p) (fst r) (snd r);
        (s, b3) = combineAIGERVariables (getAIGERNegation q) (getAIGERNegation a) b2
        in Some (aiger_add_and (getAIGERRepresentation v) s aiger_true b3)) = Some b'" "extends (snd r) b' hs"
      "\<forall>\<alpha>. aig_consistent hs \<alpha> \<longrightarrow> (\<forall>P. (\<forall>l. aig_value \<alpha> l = P (aig_value \<alpha> l)) \<longrightarrow>
        \<alpha> v = P (\<not> aig_value \<alpha> q \<and> \<not> (\<not> aig_value \<alpha> p \<and> aig_value \<alpha> (fst r))))" by blast
    have "\<alpha> v = (\<not> (aig_value \<alpha> q \<or> \<not> aig_value \<alpha> p \<and> some_fires A \<alpha> ?N))" if "aig_consistent (gs @ hs) \<alpha>" for \<alpha>
      using t(3) [rule_format, of \<alpha> "\<lambda>x. x"] d(5) that by auto
    moreover have "default_circuit (getAIGERRepresentation v) p q D A b = Some b'"
      using r(1) t(1) True by (cases r) (simp add: default_circuit_def f)
    ultimately show ?thesis using extends_trans [OF d(1) t(2)] True by (intro exI [of _ b'] exI [of _ "gs @ hs"]) simp
  next
    case False
    obtain r gs where r: "getIsActiveCircuit ?P A b = Some r" "represents_value b r gs (\<lambda>\<alpha>. some_fires A \<alpha> ?P)"
      using getIsActiveCircuit_spec [OF n m(1)] by blast
    note d = represents_valueD [OF r(2)]
    have "0 \<le> last_var (snd r)" "p div 2 \<le> last_var (snd r)" "q div 2 \<le> last_var (snd r)" using d(2) n p q by auto
    from tail [OF this(1) d(3,4) q(1) this(3) p(1) this(2), of getAIGERNegation]
    obtain b' hs where t: "(let (a, b2) = combineAIGERVariables (getAIGERNegation q) (fst r) (snd r);
        (s, b3) = combineAIGERVariables (getAIGERNegation p) (getAIGERNegation a) b2
        in Some (aiger_add_and (getAIGERRepresentation v) (getAIGERNegation s) aiger_true b3)) = Some b'"
      "extends (snd r) b' hs"
      "\<forall>\<alpha>. aig_consistent hs \<alpha> \<longrightarrow> (\<forall>P. (\<forall>l. aig_value \<alpha> (getAIGERNegation l) = P (aig_value \<alpha> l)) \<longrightarrow>
        \<alpha> v = P (\<not> aig_value \<alpha> p \<and> \<not> (\<not> aig_value \<alpha> q \<and> aig_value \<alpha> (fst r))))" by blast
    have "\<alpha> v = (aig_value \<alpha> p \<or> \<not> aig_value \<alpha> q \<and> some_fires A \<alpha> ?P)" if "aig_consistent (gs @ hs) \<alpha>" for \<alpha>
      using t(3) [rule_format, of \<alpha> Not] d(5) that by auto
    moreover have "default_circuit (getAIGERRepresentation v) p q D A b = Some b'"
      using r(1) t(1) False by (cases r) (simp add: default_circuit_def f)
    ultimately show ?thesis using extends_trans [OF d(1) t(2)] False by (intro exI [of _ b'] exI [of _ "gs @ hs"]) simp
  qed
qed

lemma default_ok_mono: "default_ok A n D \<Longrightarrow> n \<le> m \<Longrightarrow> default_ok A m D"
  using model_clause_mono by (fastforce simp: default_ok_def)

lemma addForcingClauses_spec:
  assumes n: "0 \<le> last_var b" and v: "0 < v" and D: "default_ok A (last_var b) D"
    and P: "\<forall>c\<in>set P. model_clause A (last_var b) c" and N: "\<forall>c\<in>set N. model_clause A (last_var b) c"
  shows "\<exists>b' gs. addForcingClauses v P N D A b = Some b' \<and> extends b b' gs \<and>
    (\<forall>\<alpha>. aig_consistent gs \<alpha> \<and> \<not> (some_fires A \<alpha> P \<and> some_fires A \<alpha> N) \<longrightarrow> \<alpha> v = forcing_value A \<alpha> P N D)"
proof -
  obtain r gs where r: "getIsActiveCircuit P A b = Some r" "represents_value b r gs (\<lambda>\<alpha>. some_fires A \<alpha> P)"
    "fst r = aiger_true \<longrightarrow> (\<forall>\<alpha>. some_fires A \<alpha> P)"
    using getIsActiveCircuit_spec [OF n P] by blast
  note d = represents_valueD [OF r(2)]
  obtain p b1 where pb: "r = (p, b1)" by fastforce
  have n1: "0 \<le> last_var b1" using d(2) n pb by simp
  show ?thesis
  proof (cases "length D \<le> 1")
    case True
    define dflt where "dflt = (if D = [] then v else D ! 0 ! 0)"
    have dv: "default_value A \<alpha> D = (dflt > 0)" for \<alpha>
      using True D v by (cases D) (auto simp: default_value_def dflt_def)
    have guard: "D = [] \<or> length (D ! 0) = 1" using D True by (cases D) (auto simp: default_ok_def)
    show ?thesis
    proof (cases "dflt > 0")
      case pos: True
      obtain q b2 hs where q: "getIsActiveCircuit N A b = Some (q, b2)" "represents_value b (q, b2) hs (\<lambda>\<alpha>. some_fires A \<alpha> N)"
        using getIsActiveCircuit_spec [OF n N] by fastforce
      note e = represents_valueD [OF q(2), unfolded fst_conv snd_conv]
      have "addForcingClauses v P N D A b = Some (aiger_add_and (getAIGERRepresentation v) (getAIGERNegation q) aiger_true b2)"
        using True guard pos q(1) by (simp add: addForcingClauses_def dflt_def Let_def)
      moreover have "\<alpha> v = forcing_value A \<alpha> P N D"
        if "aig_consistent (hs @ [(getAIGERRepresentation v, getAIGERNegation q, aiger_true)]) \<alpha>"
          "\<not> (some_fires A \<alpha> P \<and> some_fires A \<alpha> N)" for \<alpha>
        using that e(5) v dv pos by (auto simp: aig_consistent_def forcing_value_def)
      ultimately show ?thesis using extends_and [OF e(1)] by blast
    next
      case neg: False
      have "addForcingClauses v P N D A b = Some (aiger_add_and (getAIGERRepresentation v) p aiger_true b1)"
        using True guard neg r(1) by (simp add: addForcingClauses_def dflt_def Let_def pb)
      moreover have "\<alpha> v = forcing_value A \<alpha> P N D"
        if "aig_consistent (gs @ [(getAIGERRepresentation v, p, aiger_true)]) \<alpha>" for \<alpha>
        using that d(5) v dv neg pb by (auto simp: aig_consistent_def forcing_value_def)
      ultimately show ?thesis using extends_and [OF d(1), unfolded pb snd_conv] by blast
    qed
  next
    case many: False
    show ?thesis
    proof (cases "p = aiger_true")
      case True
      have "addForcingClauses v P N D A b = Some (aiger_add_and (getAIGERRepresentation v) aiger_true aiger_true b1)"
        using many True r(1) by (simp add: addForcingClauses_def pb)
      moreover have "\<alpha> v = forcing_value A \<alpha> P N D"
        if "aig_consistent (gs @ [(getAIGERRepresentation v, aiger_true, aiger_true)]) \<alpha>" for \<alpha>
        using that r(3) True v pb by (auto simp: aig_consistent_def forcing_value_def)
      ultimately show ?thesis using extends_and [OF d(1), unfolded pb snd_conv] by blast
    next
      case False
      have N1: "\<forall>c\<in>set N. model_clause A (last_var b1) c" using N model_clause_mono d(2) pb by force
      obtain q b2 hs where q: "getIsActiveCircuit N A b1 = Some (q, b2)" "represents_value b1 (q, b2) hs (\<lambda>\<alpha>. some_fires A \<alpha> N)"
        "q = aiger_true \<longrightarrow> (\<forall>\<alpha>. some_fires A \<alpha> N)"
        using getIsActiveCircuit_spec [OF n1 N1] by fastforce
      note e = represents_valueD [OF q(2), unfolded fst_conv snd_conv]
      have ext: "extends b b2 (gs @ hs)" using extends_trans [OF d(1) [unfolded pb snd_conv] e(1)] .
      show ?thesis
      proof (cases "q = aiger_true")
        case True
        have "addForcingClauses v P N D A b = Some (aiger_add_and (getAIGERRepresentation v) aiger_false aiger_false b2)"
          using many True False r(1) q(1) by (simp add: addForcingClauses_def pb)
        moreover have "\<alpha> v = forcing_value A \<alpha> P N D"
          if "aig_consistent ((gs @ hs) @ [(getAIGERRepresentation v, aiger_false, aiger_false)]) \<alpha>"
            "\<not> (some_fires A \<alpha> P \<and> some_fires A \<alpha> N)" for \<alpha>
          using that q(3) True v by (auto simp: aig_consistent_def forcing_value_def)
        ultimately show ?thesis using extends_and [OF ext] by blast
      next
        case q': False
        have n2: "0 \<le> last_var b2" "last_var b \<le> last_var b2" using e(2) n1 d(2) pb by simp_all
        have D2: "default_ok A (last_var b2) D" using default_ok_mono [OF D n2(2)] .
        have p2: "0 \<le> p" "p div 2 \<le> last_var b2" using d(3,4) e(2) pb by simp_all
        obtain b3 ks where t: "default_circuit (getAIGERRepresentation v) p q D A b2 = Some b3" "extends b2 b3 ks"
          "\<forall>\<alpha>. aig_consistent ks \<alpha> \<longrightarrow> \<alpha> v =
            (let P = map butlast (filter (\<lambda>c. List.last c > 0) D); N = map butlast (filter (\<lambda>c. \<not> List.last c > 0) D)
             in if length P > length N then \<not> (aig_value \<alpha> q \<or> \<not> aig_value \<alpha> p \<and> some_fires A \<alpha> N)
                else aig_value \<alpha> p \<or> \<not> aig_value \<alpha> q \<and> some_fires A \<alpha> P)"
          using default_circuit_spec [OF n2(1) v D2 p2 e(3,4)] by blast
        have dv: "default_value A \<alpha> D =
            (let P = map butlast (filter (\<lambda>c. List.last c > 0) D); N = map butlast (filter (\<lambda>c. \<not> List.last c > 0) D)
             in if length P > length N then \<not> some_fires A \<alpha> N else some_fires A \<alpha> P)" for \<alpha>
          using many by (auto simp: default_value_def split: list.split)
        have "\<alpha> v = forcing_value A \<alpha> P N D"
          if c: "aig_consistent (gs @ hs @ ks) \<alpha>" and pn: "\<not> (some_fires A \<alpha> P \<and> some_fires A \<alpha> N)" for \<alpha>
        proof -
          have "aig_value \<alpha> p = some_fires A \<alpha> P" "aig_value \<alpha> q = some_fires A \<alpha> N" using c d(5) e(5) pb by auto
          then show ?thesis using t(3) [rule_format, of \<alpha>] c pn unfolding forcing_value_def dv Let_def by auto
        qed
        moreover have "addForcingClauses v P N D A b = Some b3"
          using many False q' r(1) q(1) t(1) by (simp add: addForcingClauses_def pb)
        ultimately show ?thesis using extends_trans [OF ext t(2)] by (intro exI [of _ b3] exI [of _ "gs @ hs @ ks"]) simp
      qed
    qed
  qed
qed

section \<open>Definitions\<close>

text \<open>A circuit evaluated gate by gate, and the equation of a gate.\<close>

definition circuit_eval :: "def_circuit \<Rightarrow> assignment \<Rightarrow> assignment" where
  "circuit_eval d \<alpha> =
     fold (\<lambda>(ins, out) \<alpha>. \<alpha>(\<bar>out\<bar> := ((\<forall>i\<in>set ins. lit_true \<alpha> i) = (out > 0)))) d \<alpha>"

definition gate_equation :: "assignment \<Rightarrow> int list \<times> int \<Rightarrow> bool" where
  "gate_equation \<beta> g \<longleftrightarrow> (case g of (ins, out) \<Rightarrow> \<beta> \<bar>out\<bar> = ((\<forall>i\<in>set ins. lit_true \<beta> i) = (out > 0)))"

fun circuit_ordered :: "int \<Rightarrow> int set \<Rightarrow> def_circuit \<Rightarrow> bool" where
  "circuit_ordered start seen [] = True"
| "circuit_ordered start seen ((ins, out) # gs) =
     ((\<forall>i\<in>set ins. \<bar>i\<bar> < start \<or> \<bar>i\<bar> \<in> seen) \<and> circuit_ordered start (insert \<bar>out\<bar> seen) gs)"

lemma circuit_eval_simps [simp]:
  "circuit_eval [] \<alpha> = \<alpha>"
  "circuit_eval ((ins, out) # d) \<alpha> = circuit_eval d (\<alpha>(\<bar>out\<bar> := ((\<forall>i\<in>set ins. lit_true \<alpha> i) = (out > 0))))"
  by (simp_all add: circuit_eval_def)

lemma circuit_eval_unique:
  assumes "\<forall>g\<in>set d. gate_equation \<beta> g" "circuit_ordered start seen d" "\<forall>v. v < start \<or> v \<in> seen \<longrightarrow> \<alpha> v = \<beta> v"
    "v < start"
  shows "circuit_eval d \<alpha> v = \<beta> v"
  using assms
proof (induction d arbitrary: \<alpha> seen)
  case (Cons g d)
  obtain ins out where g: "g = (ins, out)" by fastforce
  have "lit_true \<alpha> i = lit_true \<beta> i" if "i \<in> set ins" for i
    by (rule lit_true_cong) (use that Cons.prems(2,3) in \<open>auto simp: g\<close>)
  then have "((\<forall>i\<in>set ins. lit_true \<alpha> i) = (out > 0)) = \<beta> \<bar>out\<bar>"
    using Cons.prems(1) by (simp add: g gate_equation_def)
  moreover have "circuit_eval d (\<alpha>(\<bar>out\<bar> := \<beta> \<bar>out\<bar>)) v = \<beta> v"
    by (rule Cons.IH [of "insert \<bar>out\<bar> seen"]) (use Cons.prems in \<open>simp_all add: g\<close>)
  ultimately show ?case by (simp only: g circuit_eval_simps)
qed simp

text \<open>
  Inner gates have two inputs, none of them an arbiter of the assignment. The gate of the defined
  variable has at most two, and arbiters may be among them.
\<close>

definition gate_ok :: "(int \<rightharpoonup> bool) \<Rightarrow> int \<Rightarrow> int \<Rightarrow> int list \<times> int \<Rightarrow> bool" where
  "gate_ok A start e g \<longleftrightarrow> (case g of (ins, out) \<Rightarrow>
     (\<forall>i\<in>set ins. i \<noteq> 0) \<and> A \<bar>out\<bar> = None \<and>
     (if \<bar>out\<bar> = e then length ins \<le> 2 \<and> (out > 0 \<or> ins = [])
      else length ins = 2 \<and> start \<le> out \<and> (\<forall>i\<in>set ins. A (var i) = None)))"

text \<open>The value of an intermediate variable is that of the variable it was renamed to.\<close>

definition through :: "int \<Rightarrow> (int \<rightharpoonup> int) \<Rightarrow> assignment \<Rightarrow> assignment" where
  "through start r \<alpha> v = (if v \<ge> start then case r v of None \<Rightarrow> \<alpha> v | Some a \<Rightarrow> \<alpha> a else \<alpha> v)"

definition renames :: "aiger_builder \<Rightarrow> aiger_builder \<Rightarrow> (int \<times> int \<times> int) list \<Rightarrow> bool" where
  "renames b b' gs \<longleftrightarrow> grows b b' gs \<and> renamings b \<subseteq>\<^sub>m renamings b' \<and>
     0 \<le> last_var b \<and> (\<forall>v a. renamings b' v = Some a \<longrightarrow> 0 < a)"

lemma renames_trans: "renames b b1 gs \<Longrightarrow> renames b1 b2 hs \<Longrightarrow> renames b b2 (gs @ hs)"
  unfolding renames_def using grows_trans map_le_trans by blast

lemma renames_and: "renames b b' gs \<Longrightarrow> renames b (aiger_add_and l i j b') (gs @ [(l, i, j)])"
  using grows_and by (auto simp: renames_def aiger_add_and_def)

lemma renames_self: "renames b b' gs \<Longrightarrow> renames b' b' []"
  by (auto simp: renames_def grows_def)

lemma renames_le: "renames b b' gs \<Longrightarrow> renamings b' \<subseteq>\<^sub>m r \<Longrightarrow> renamings b \<subseteq>\<^sub>m r"
  unfolding renames_def using map_le_trans by blast

abbreviation start_of :: "aiger_builder \<Rightarrow> int" where
  "start_of \<equiv> intermediate_variables_start"

lemma grows_start: "grows b b' gs \<Longrightarrow> start_of b' = start_of b"
  unfolding grows_def fixed_fields_def by (cases b, cases b') simp

lemma renames_start: "renames b b' gs \<Longrightarrow> start_of b' = start_of b"
  unfolding renames_def using grows_start by blast

lemma renaming_value:
  "r \<bar>l\<bar> = Some a \<Longrightarrow> 0 < a \<Longrightarrow> l \<noteq> 0 \<Longrightarrow> start \<le> \<bar>l\<bar> \<Longrightarrow>
    lit_true \<alpha> (if l > 0 then a else - a) = lit_true (through start r \<alpha>) l"
  by (auto simp: lit_true_def through_def)

lemma checkVariableInDefinition_spec:
  assumes "renames b b []" "l \<noteq> 0" "0 < start_of b"
  shows "\<exists>x b'. checkVariableInDefinition l b = (x, b') \<and> renames b b' [] \<and> x \<noteq> 0 \<and> (l > 0 \<longrightarrow> x > 0) \<and>
    (\<forall>r \<alpha>. renamings b' \<subseteq>\<^sub>m r \<longrightarrow> lit_true \<alpha> x = lit_true (through (start_of b) r \<alpha>) l)"
proof (cases "\<bar>l\<bar> \<ge> start_of b")
  case False
  then show ?thesis using assms
    by (intro exI [of _ l] exI [of _ b]) (auto simp: checkVariableInDefinition_def lit_true_def through_def)
next
  case True
  have "\<exists>a b'. checkVariableInDefinition l b = (if l > 0 then a else - a, b') \<and> renames b b' [] \<and> 0 < a \<and>
      renamings b' \<bar>l\<bar> = Some a"
  proof (cases "renamings b \<bar>l\<bar>")
    case None
    let ?a = "last_var b + 1"
    let ?b = "b\<lparr>last_used_intermediate_variable := ?a, renamings := (renamings b)(\<bar>l\<bar> \<mapsto> ?a)\<rparr>"
    have "checkVariableInDefinition l b = (if l > 0 then ?a else - ?a, ?b)"
      using True None by (simp add: checkVariableInDefinition_def fresh_intermediate_def Let_def)
    moreover have "renames b ?b []"
      using assms(1) None by (auto simp: renames_def grows_def fixed_fields_def map_le_def)
    moreover have "0 < ?a" "renamings ?b \<bar>l\<bar> = Some ?a" using assms(1) by (simp_all add: renames_def)
    ultimately show ?thesis by blast
  next
    case (Some a)
    then show ?thesis using assms(1) True by (auto simp: checkVariableInDefinition_def renames_def)
  qed
  then obtain a b' where a: "checkVariableInDefinition l b = (if l > 0 then a else - a, b')" "renames b b' []" "0 < a"
    "renamings b' \<bar>l\<bar> = Some a" by blast
  have "lit_true \<alpha> (if l > 0 then a else - a) = lit_true (through (start_of b) r \<alpha>) l"
    if "renamings b' \<subseteq>\<^sub>m r" for r \<alpha>
  proof (rule renaming_value)
    show "r \<bar>l\<bar> = Some a" using that a(4) by (metis domI map_le_def)
  qed (use a(3) assms(2) True in auto)
  then show ?thesis using a by (intro exI [of _ "if l > 0 then a else - a"] exI [of _ b']) auto
qed

text \<open>The values that gates are read with: arbiters by the assignment, the others by the circuit.\<close>

definition gate_values :: "(int \<rightharpoonup> bool) \<Rightarrow> int \<Rightarrow> (int \<rightharpoonup> int) \<Rightarrow> assignment \<Rightarrow> assignment" where
  "gate_values A start r \<alpha> = override A (through start r \<alpha>)"

lemma gate_values_arbiter: "A (var i) = Some b \<Longrightarrow> i \<noteq> 0 \<Longrightarrow> lit_true (gate_values A start r \<alpha>) i = ((i > 0) = b)"
  by (auto simp: gate_values_def override_def lit_true_def var_def)

lemma gate_values_other: "A (var i) = None \<Longrightarrow> lit_true (gate_values A start r \<alpha>) i = lit_true (through start r \<alpha>) i"
  by (rule lit_true_cong) (simp add: gate_values_def override_def var_def)

text \<open>
  The literals a list of inputs becomes: whether one is falsified by the assignment, and the
  literals of those that are not in it.
\<close>

definition inputs_value :: "(int \<rightharpoonup> bool) \<Rightarrow> aiger_builder \<Rightarrow> int list \<Rightarrow> bool \<Rightarrow> int list \<Rightarrow> bool" where
  "inputs_value A b is f xs \<longleftrightarrow> (\<forall>r \<alpha>. renamings b \<subseteq>\<^sub>m r \<longrightarrow>
     (\<not> f \<and> (\<forall>x\<in>set xs. aig_value \<alpha> x)) = (\<forall>i\<in>set is. lit_true (gate_values A (start_of b) r \<alpha>) i))"

lemma gate_inputs_spec:
  assumes "renames b b []" "0 < start_of b" "\<forall>i\<in>set is. i \<noteq> 0"
  shows "\<exists>f xs b'. gate_inputs is Map.empty A acc b = Some (f, acc @ xs, b') \<and> renames b b' [] \<and>
    inputs_value A b' is f xs \<and> length xs \<le> length is \<and>
    ((\<forall>i\<in>set is. A (var i) = None) \<longrightarrow> \<not> f \<and> length xs = length is)"
  using assms
proof (induction "is" arbitrary: acc b)
  case (Cons i "is")
  have i: "i \<noteq> 0" using Cons.prems(3) by simp
  show ?case
  proof (cases "A (var i)")
    case None
    obtain x b1 where x: "checkVariableInDefinition i b = (x, b1)" "renames b b1 []" "x \<noteq> 0"
      "\<forall>r \<alpha>. renamings b1 \<subseteq>\<^sub>m r \<longrightarrow> lit_true \<alpha> x = lit_true (through (start_of b) r \<alpha>) i"
      using checkVariableInDefinition_spec [of b i] Cons.prems by auto
    obtain f xs b2 where xs: "gate_inputs is Map.empty A (acc @ [getAIGERRepresentation x]) b1 =
        Some (f, (acc @ [getAIGERRepresentation x]) @ xs, b2)" "renames b1 b2 []" "inputs_value A b2 is f xs"
      "length xs \<le> length is" "(\<forall>i\<in>set is. A (var i) = None) \<longrightarrow> \<not> f \<and> length xs = length is"
      using Cons.IH [OF renames_self [OF x(2)], of "acc @ [getAIGERRepresentation x]"] Cons.prems renames_start [OF x(2)] by auto
    have "inputs_value A b2 (i # is) f (getAIGERRepresentation x # xs)"
      unfolding inputs_value_def
    proof (intro allI impI)
      fix r \<alpha> assume r: "renamings b2 \<subseteq>\<^sub>m r"
      have start: "start_of b2 = start_of b" using renames_start [OF x(2)] renames_start [OF xs(2)] by simp
      have "lit_true \<alpha> x = lit_true (gate_values A (start_of b) r \<alpha>) i"
        using x(4) renames_le [OF xs(2) r] by (simp add: gate_values_other [where A = A and i = i, OF None])
      moreover have "(\<not> f \<and> (\<forall>x\<in>set xs. aig_value \<alpha> x)) = (\<forall>i\<in>set is. lit_true (gate_values A (start_of b) r \<alpha>) i)"
        using xs(3) r by (simp add: inputs_value_def start)
      ultimately show "(\<not> f \<and> (\<forall>x\<in>set (getAIGERRepresentation x # xs). aig_value \<alpha> x)) =
          (\<forall>i\<in>set (i # is). lit_true (gate_values A (start_of b2) r \<alpha>) i)"
        using x(3) by (auto simp: start)
    qed
    then show ?thesis using renames_trans [OF x(2) xs(2)] x(1) xs(1,4,5) None
      by (intro exI [of _ f] exI [of _ "getAIGERRepresentation x # xs"] exI [of _ b2]) simp
  next
    case (Some polarity)
    show ?thesis
    proof (cases "(i > 0) = polarity")
      case True
      obtain f xs b2 where xs: "gate_inputs is Map.empty A acc b = Some (f, acc @ xs, b2)" "renames b b2 []"
        "inputs_value A b2 is f xs" "length xs \<le> length is"
        using Cons.IH [OF Cons.prems(1,2)] Cons.prems(3) by auto blast
      have "inputs_value A b2 (i # is) f xs"
        using xs(3) by (simp add: inputs_value_def gate_values_arbiter [where A = A and i = i, OF Some i] True)
      then show ?thesis using xs Some True by (intro exI [of _ f] exI [of _ xs] exI [of _ b2]) simp
    next
      case False
      have "inputs_value A b (i # is) True []"
        using Cons.prems(3) False by (simp add: inputs_value_def gate_values_arbiter [where A = A and i = i, OF Some i])
      then show ?thesis using Some False Cons.prems(1) by (intro exI [of _ True] exI [of _ "[]"] exI [of _ b]) simp
    qed
  qed
qed (auto simp: inputs_value_def)

text \<open>One gate of a definition; the gate of the defined variable may stop the loop.\<close>

lemma addDefinitionCircuitAdder_spec:
  assumes b: "renames b b []" and e: "0 < e" "e < start_of b" and g: "gate_ok A (start_of b) e (ins, out)"
  shows "\<exists>stop b' gs. addDefinitionCircuitAdder e ins out Map.empty A b = Some (stop, Map.empty, b') \<and> renames b b' gs \<and>
    (\<bar>out\<bar> \<noteq> e \<longrightarrow> \<not> stop) \<and>
    (\<forall>r \<alpha>. renamings b' \<subseteq>\<^sub>m r \<and> aig_consistent gs \<alpha> \<longrightarrow> gate_equation (gate_values A (start_of b) r \<alpha>) (ins, out))"
proof -
  have len: "length ins \<le> 2" "out > 0 \<or> e = \<bar>out\<bar> \<and> ins = []" and nz: "\<forall>i\<in>set ins. i \<noteq> 0"
    and A: "A \<bar>out\<bar> = None"
    using g e by (auto simp: gate_ok_def split: if_splits)
  obtain f xs b1 where xs: "gate_inputs ins Map.empty A [] b = Some (f, xs, b1)" "renames b b1 []" "inputs_value A b1 ins f xs"
    "length xs \<le> length ins" "(\<forall>i\<in>set ins. A (var i) = None) \<longrightarrow> \<not> f \<and> length xs = length ins"
    using gate_inputs_spec [OF b _ nz, where acc = "[]" and A = A] e by auto
  have start: "start_of b1 = start_of b" using renames_start [OF xs(2)] .
  have conj: "(\<not> f \<and> (\<forall>x\<in>set xs. aig_value \<alpha> x)) = (\<forall>i\<in>set ins. lit_true (gate_values A (start_of b) r \<alpha>) i)"
    if "renamings b1 \<subseteq>\<^sub>m r" for r \<alpha> using xs(3) that start by (simp add: inputs_value_def)
  have shape: "(\<exists>i j. xs = [i, j]) \<or> (\<exists>i. xs = [i]) \<or> xs = []" using len(1) xs(4)
    by (cases xs; cases "tl xs"; cases "tl (tl xs)") auto
  show ?thesis
  proof (cases "e = \<bar>out\<bar>")
    case True
    obtain stop i j where ij: "addDefinitionCircuitAdder e ins out Map.empty A b =
        Some (stop, Map.empty, aiger_add_and (getAIGERRepresentation e) i j b1)"
      "\<forall>\<alpha>. (aig_value \<alpha> i \<and> aig_value \<alpha> j) = ((\<not> f \<and> (\<forall>x\<in>set xs. aig_value \<alpha> x)) = (out > 0))"
    proof (cases f)
      case f: True
      then have "ins \<noteq> []" using xs(5) by auto
      then have "out > 0" using len(2) by simp
      then show ?thesis using that [of True aiger_false aiger_false] f xs(1) True len
        by (simp add: addDefinitionCircuitAdder_def Let_def)
    next
      case f: False
      have pos: "out > 0" if "xs \<noteq> []" using len(2) xs(4) that by auto
      show ?thesis using shape
      proof (elim disjE exE)
        fix i j assume s: "xs = [i, j]"
        then show ?thesis using that [of False i j] f xs(1) True len pos by (simp add: addDefinitionCircuitAdder_def Let_def)
      next
        fix i assume s: "xs = [i]"
        then show ?thesis using that [of False i aiger_true] f xs(1) True len pos by (simp add: addDefinitionCircuitAdder_def Let_def)
      next
        assume s: "xs = []"
        let ?v = "if out > 0 then aiger_true else aiger_false"
        show ?thesis using that [of False ?v ?v] f xs(1) True len s by (auto simp: addDefinitionCircuitAdder_def Let_def)
      qed
    qed
    note ij(1)
    moreover have "gate_equation (gate_values A (start_of b) r \<alpha>) (ins, out)"
      if "renamings b1 \<subseteq>\<^sub>m r" "aig_consistent [(getAIGERRepresentation e, i, j)] \<alpha>" for r \<alpha>
    proof -
      have "\<alpha> e = ((\<not> f \<and> (\<forall>x\<in>set xs. aig_value \<alpha> x)) = (out > 0))" using that(2) e ij(2) by (simp add: aig_consistent_def)
      moreover have "gate_values A (start_of b) r \<alpha> \<bar>out\<bar> = \<alpha> e" using True e A
        by (simp add: gate_values_def override_def through_def)
      ultimately show ?thesis using conj [OF that(1)] by (simp add: gate_equation_def)
    qed
    ultimately show ?thesis using renames_and [OF xs(2), of "getAIGERRepresentation e" i j] True
      by (intro exI [of _ stop] exI [of _ "aiger_add_and (getAIGERRepresentation e) i j b1"]
          exI [of _ "[(getAIGERRepresentation e, i, j)]"]) simp
  next
    case False
    then have out: "start_of b \<le> out" "length ins = 2" "\<not> f" "length xs = 2"
      using g xs(5) by (auto simp: gate_ok_def split: if_splits)
    then obtain i j where ij: "xs = [i, j]" using shape by auto
    obtain x b2 where x: "checkVariableInDefinition out b1 = (x, b2)" "renames b1 b2 []" "x > 0"
      "\<forall>r \<alpha>. renamings b2 \<subseteq>\<^sub>m r \<longrightarrow> lit_true \<alpha> x = lit_true (through (start_of b) r \<alpha>) out"
      using checkVariableInDefinition_spec [OF renames_self [OF xs(2)], of out] out e start by auto
    have "addDefinitionCircuitAdder e ins out Map.empty A b =
        Some (False, Map.empty, aiger_add_and (getAIGERRepresentation x) i j b2)"
      using False len out e xs(1) ij x(1) by (simp add: addDefinitionCircuitAdder_def Let_def)
    moreover have "gate_equation (gate_values A (start_of b) r \<alpha>) (ins, out)"
      if "renamings b2 \<subseteq>\<^sub>m r" "aig_consistent [(getAIGERRepresentation x, i, j)] \<alpha>" for r \<alpha>
    proof -
      have "\<alpha> x = (\<forall>y\<in>set xs. aig_value \<alpha> y)" using that(2) x(3) ij by (simp add: aig_consistent_def)
      moreover have "\<alpha> x = gate_values A (start_of b) r \<alpha> out" using x(3,4) that(1) out e A
        by (auto simp: lit_true_pos gate_values_def override_def)
      ultimately show ?thesis using conj [OF renames_le [OF x(2) that(1)]] out e by (simp add: gate_equation_def)
    qed
    ultimately show ?thesis using renames_and [OF renames_trans [OF xs(2) x(2)], of "getAIGERRepresentation x" i j] False
      by (intro exI [of _ False] exI [of _ "aiger_add_and (getAIGERRepresentation x) i j b2"]
          exI [of _ "[(getAIGERRepresentation x, i, j)]"]) simp
  qed
qed

lemma addDefinition_loop_spec:
  assumes "renames b b []" "0 < e" "e < start_of b" "\<forall>g\<in>set d. gate_ok A (start_of b) e g" "\<forall>g\<in>set (butlast d). \<bar>snd g\<bar> \<noteq> e"
  shows "\<exists>b' gs. addDefinition_loop e d Map.empty A b = Some b' \<and> renames b b' gs \<and>
    (\<forall>r \<alpha>. renamings b' \<subseteq>\<^sub>m r \<and> aig_consistent gs \<alpha> \<longrightarrow> (\<forall>g\<in>set d. gate_equation (gate_values A (start_of b) r \<alpha>) g))"
  using assms
proof (induction d arbitrary: b)
  case (Cons g d)
  obtain ins out where g: "g = (ins, out)" by fastforce
  obtain stop b1 gs where 1: "addDefinitionCircuitAdder e ins out Map.empty A b = Some (stop, Map.empty, b1)" "renames b b1 gs"
    "\<bar>out\<bar> \<noteq> e \<longrightarrow> \<not> stop"
    "\<forall>r \<alpha>. renamings b1 \<subseteq>\<^sub>m r \<and> aig_consistent gs \<alpha> \<longrightarrow> gate_equation (gate_values A (start_of b) r \<alpha>) (ins, out)"
    using addDefinitionCircuitAdder_spec [OF Cons.prems(1-3), of A ins out] Cons.prems(4) unfolding g by auto
  have s: "start_of b1 = start_of b" using renames_start [OF 1(2)] .
  show ?case
  proof (cases "d = []")
    case True
    then show ?thesis using 1 g by (auto split: if_splits)
  next
    case False
    then have "\<not> stop" using 1(3) Cons.prems(5) g by simp
    obtain b2 hs where 2: "addDefinition_loop e d Map.empty A b1 = Some b2" "renames b1 b2 hs"
      "\<forall>r \<alpha>. renamings b2 \<subseteq>\<^sub>m r \<and> aig_consistent hs \<alpha> \<longrightarrow> (\<forall>g\<in>set d. gate_equation (gate_values A (start_of b) r \<alpha>) g)"
      using Cons.IH [OF renames_self [OF 1(2)]] Cons.prems s False by auto
    have "addDefinition_loop e (g # d) Map.empty A b = Some b2" using 1(1) 2(1) \<open>\<not> stop\<close> by (simp add: g)
    moreover have "\<forall>g\<in>set (g # d). gate_equation (gate_values A (start_of b) r \<alpha>) g"
      if "renamings b2 \<subseteq>\<^sub>m r" "aig_consistent (gs @ hs) \<alpha>" for r \<alpha>
      using 1(4) 2(3) that renames_le [OF 2(2) that(1)] g by simp
    ultimately show ?thesis using renames_trans [OF 1(2) 2(2)] by blast
  qed
qed (auto)

definition definition_ok :: "(int \<rightharpoonup> bool) \<Rightarrow> int \<Rightarrow> int \<Rightarrow> def_circuit \<Rightarrow> bool" where
  "definition_ok A start e d \<longleftrightarrow>
     (\<forall>g\<in>set d. gate_ok A start e g) \<and> circuit_ordered start {v. A v \<noteq> None} d \<and>
     d \<noteq> [] \<and> \<bar>snd (List.last d)\<bar> = e \<and> (\<forall>g\<in>set (butlast d). \<bar>snd g\<bar> \<noteq> e)"

lemma addDefinition_spec:
  assumes b: "renames b b []" and i: "i < length (builder_existentials b)" "builder_existentials b ! i = e"
    and e: "0 < e" "e < start_of b" and d: "definition_ok A (start_of b) e d"
  shows "\<exists>b' gs. addDefinition i d A b = Some b' \<and> renames b b' gs \<and>
    (\<forall>\<alpha>. aig_consistent gs \<alpha> \<longrightarrow> \<alpha> e = circuit_eval d (override A \<alpha>) e)"
proof -
  obtain b' gs where 1: "addDefinition_loop e d Map.empty A b = Some b'" "renames b b' gs"
    "\<forall>r \<alpha>. renamings b' \<subseteq>\<^sub>m r \<and> aig_consistent gs \<alpha> \<longrightarrow> (\<forall>g\<in>set d. gate_equation (gate_values A (start_of b) r \<alpha>) g)"
    using addDefinition_loop_spec [OF b e, of d A] d unfolding definition_ok_def by blast
  have "gate_ok A (start_of b) e (List.last d)" "\<bar>snd (List.last d)\<bar> = e" using d by (auto simp: definition_ok_def)
  then have A: "A e = None" by (auto simp: gate_ok_def split: prod.splits)
  have "\<alpha> e = circuit_eval d (override A \<alpha>) e" if c: "aig_consistent gs \<alpha>" for \<alpha>
  proof -
    let ?\<beta> = "gate_values A (start_of b) (renamings b') \<alpha>"
    have "circuit_eval d (override A \<alpha>) e = ?\<beta> e"
    proof (rule circuit_eval_unique [of d ?\<beta> "start_of b" "{v. A v \<noteq> None}"])
      show "\<forall>g\<in>set d. gate_equation ?\<beta> g" using 1(3) c map_le_refl by blast
      show "\<forall>v. v < start_of b \<or> v \<in> {v. A v \<noteq> None} \<longrightarrow> override A \<alpha> v = ?\<beta> v"
        by (auto simp: gate_values_def override_def through_def split: option.splits)
    qed (use d e in \<open>simp_all add: definition_ok_def\<close>)
    then show ?thesis using e A by (simp add: gate_values_def override_def through_def)
  qed
  then show ?thesis using 1(1,2) i by (auto simp: addDefinition_def)
qed

section \<open>The model\<close>

text \<open>What a condition means, and the definition that is used.\<close>

definition condition_holds :: "(int \<rightharpoonup> bool) \<Rightarrow> int list \<Rightarrow> bool" where
  "condition_holds A c \<longleftrightarrow> (\<forall>l\<in>set c. \<forall>v. A (var l) = Some v \<longrightarrow> (l > 0) = v)"

lemma isConflictEntailed_iff: "isConflictEntailed c A = condition_holds A c"
  by (induction c A rule: isConflictEntailed.induct) (auto simp: condition_holds_def split: option.splits)

lemma entailed_definition_find:
  "length cs = length ds \<Longrightarrow>
    entailed_definition cs ds A = Some (map_option snd (find (\<lambda>(c, _). condition_holds A c) (zip cs ds)))"
  by (induction cs ds A rule: entailed_definition.induct) (auto simp: isConflictEntailed_iff)

definition used_definition :: "aiger_data \<Rightarrow> (int \<rightharpoonup> bool) \<Rightarrow> nat \<Rightarrow> def_circuit option" where
  "used_definition data A i =
     (if data_definitions data ! i \<noteq> [] then Some (data_definitions data ! i)
      else map_option snd (find (\<lambda>(c, _). condition_holds A c) (zip (data_conditions data ! i) (data_conditional data ! i))))"

definition skolem_value :: "aiger_data \<Rightarrow> (int \<rightharpoonup> bool) \<Rightarrow> nat \<Rightarrow> int \<Rightarrow> assignment \<Rightarrow> bool" where
  "skolem_value data A i e \<alpha> =
     (case used_definition data A i of
        Some d \<Rightarrow> circuit_eval d (override A \<alpha>) e
      | None \<Rightarrow> forcing_value A \<alpha> (data_positive_forcing data ! i) (data_negative_forcing data ! i)
                  (the (data_defaults data e)))"

definition forcing_conflict :: "aiger_data \<Rightarrow> (int \<rightharpoonup> bool) \<Rightarrow> nat \<Rightarrow> assignment \<Rightarrow> bool" where
  "forcing_conflict data A i \<alpha> \<longleftrightarrow> used_definition data A i = None \<and>
     some_fires A \<alpha> (data_positive_forcing data ! i) \<and> some_fires A \<alpha> (data_negative_forcing data ! i)"

definition variable_ok :: "aiger_data \<Rightarrow> (int \<rightharpoonup> bool) \<Rightarrow> int \<Rightarrow> nat \<Rightarrow> int \<Rightarrow> bool" where
  "variable_ok data A n i e \<longleftrightarrow>
     0 < e \<and> e \<le> n \<and> i < length (data_definitions data) \<and> i < length (data_conditions data) \<and>
     i < length (data_conditional data) \<and> i < length (data_positive_forcing data) \<and>
     i < length (data_negative_forcing data) \<and>
     length (data_conditions data ! i) = length (data_conditional data ! i) \<and>
     (\<forall>d. used_definition data A i = Some d \<longrightarrow> definition_ok A (n + 1) e d) \<and>
     (\<exists>D. data_defaults data e = Some D \<and> default_ok A n D) \<and>
     (\<forall>c\<in>set (data_positive_forcing data ! i) \<union> set (data_negative_forcing data ! i). model_clause A n c)"

definition builder_wf :: "aiger_builder \<Rightarrow> bool" where
  "builder_wf b \<longleftrightarrow> renames b b [] \<and> 0 < start_of b \<and> start_of b \<le> last_var b + 1"

lemma extends_renames: "extends b b' gs \<Longrightarrow> renames b b [] \<Longrightarrow> renames b b' gs"
  by (simp add: renames_def extends_def)

lemma renames_fields:
  assumes "renames b b' gs"
  shows "builder_existentials b' = builder_existentials b" "indices b' = indices b"
    "aig_inputs (circuit b') = aig_inputs (circuit b)" "aig_outputs (circuit b') = aig_outputs (circuit b)"
    "aig_ands (circuit b') = aig_ands (circuit b) @ gs" "last_var b \<le> last_var b'" "start_of b' = start_of b"
proof -
  have f: "fixed_fields b' = fixed_fields b" and g: "aig_ands (circuit b') = aig_ands (circuit b) @ gs" "last_var b \<le> last_var b'"
    using assms by (simp_all add: renames_def grows_def)
  show "builder_existentials b' = builder_existentials b" "indices b' = indices b" "start_of b' = start_of b"
    "aig_inputs (circuit b') = aig_inputs (circuit b)" "aig_outputs (circuit b') = aig_outputs (circuit b)"
    using arg_cong [OF f, of builder_existentials] arg_cong [OF f, of indices] arg_cong [OF f, of start_of]
      arg_cong [OF f, of "\<lambda>b. aig_inputs (circuit b)"] arg_cong [OF f, of "\<lambda>b. aig_outputs (circuit b)"]
    by (simp_all add: fixed_fields_def)
qed (use assms in \<open>simp_all add: renames_def grows_def\<close>)

lemma renames_wf: "renames b b' gs \<Longrightarrow> builder_wf b \<Longrightarrow> builder_wf b'"
  using renames_self renames_fields(6,7) by (fastforce simp: builder_wf_def)

lemma addSkolemFunction_spec:
  assumes b: "builder_wf b" and i: "indices b e = Some i" "i < length (builder_existentials b)" "builder_existentials b ! i = e"
    and ok: "variable_ok data A (start_of b - 1) i e"
  shows "\<exists>b' gs. addSkolemFunction e data A b = Some b' \<and> renames b b' gs \<and>
    (\<forall>\<alpha>. aig_consistent gs \<alpha> \<and> \<not> forcing_conflict data A i \<alpha> \<longrightarrow> \<alpha> e = skolem_value data A i e \<alpha>)"
proof -
  have r: "renames b b []" and e: "0 < e" "e < start_of b" using b ok by (simp_all add: builder_wf_def variable_ok_def)
  have at: "at_index (data_definitions data) i = Some (data_definitions data ! i)"
    "at_index (data_conditions data) i = Some (data_conditions data ! i)"
    "at_index (data_conditional data) i = Some (data_conditional data ! i)"
    "at_index (data_positive_forcing data) i = Some (data_positive_forcing data ! i)"
    "at_index (data_negative_forcing data) i = Some (data_negative_forcing data ! i)"
    using ok by (simp_all add: variable_ok_def at_index_def)
  have found: "entailed_definition (data_conditions data ! i) (data_conditional data ! i) A =
      Some (map_option snd (find (\<lambda>(c, _). condition_holds A c) (zip (data_conditions data ! i) (data_conditional data ! i))))"
    using ok by (simp add: variable_ok_def entailed_definition_find)
  show ?thesis
  proof (cases "used_definition data A i")
    case (Some d)
    have "definition_ok A (start_of b) e d" using ok Some by (simp add: variable_ok_def)
    then obtain b' gs where d: "addDefinition i d A b = Some b'" "renames b b' gs"
      "\<forall>\<alpha>. aig_consistent gs \<alpha> \<longrightarrow> \<alpha> e = circuit_eval d (override A \<alpha>) e"
      using addDefinition_spec [OF r i(2,3) e] by blast
    have "addSkolemFunction e data A b = addDefinition i d A b"
      using Some i(1) at found by (auto simp: addSkolemFunction_def used_definition_def split: if_splits)
    then show ?thesis using d Some by (auto simp: skolem_value_def)
  next
    case None
    obtain D where D: "data_defaults data e = Some D" "default_ok A (start_of b - 1) D"
      using ok by (auto simp: variable_ok_def)
    have n: "0 \<le> last_var b" "start_of b - 1 \<le> last_var b" using b by (simp_all add: builder_wf_def)
    have c: "\<forall>c\<in>set (data_positive_forcing data ! i). model_clause A (last_var b) c"
      "\<forall>c\<in>set (data_negative_forcing data ! i). model_clause A (last_var b) c"
      using ok model_clause_mono [OF _ n(2)] by (auto simp: variable_ok_def)
    obtain b' gs where f: "addForcingClauses e (data_positive_forcing data ! i) (data_negative_forcing data ! i) D A b = Some b'"
      "extends b b' gs"
      "\<forall>\<alpha>. aig_consistent gs \<alpha> \<and> \<not> (some_fires A \<alpha> (data_positive_forcing data ! i) \<and>
        some_fires A \<alpha> (data_negative_forcing data ! i)) \<longrightarrow>
        \<alpha> e = forcing_value A \<alpha> (data_positive_forcing data ! i) (data_negative_forcing data ! i) D"
      using addForcingClauses_spec [OF n(1) e(1) default_ok_mono [OF D(2) n(2)] c] by blast
    have "addSkolemFunction e data A b = Some b'"
      using None i(1) at found f(1) D(1) by (auto simp: addSkolemFunction_def used_definition_def split: if_splits)
    then show ?thesis using extends_renames [OF f(2) r] f(3) None D(1) by (auto simp: skolem_value_def forcing_conflict_def)
  qed
qed

text \<open>The whole model: one builder of the existential variables, in their order.\<close>

definition variables_ok :: "aiger_data \<Rightarrow> (int \<rightharpoonup> bool) \<Rightarrow> aiger_builder \<Rightarrow> bool" where
  "variables_ok data A b \<longleftrightarrow> (\<forall>e\<in>set (builder_existentials b).
     case indices b e of
       None \<Rightarrow> False
     | Some i \<Rightarrow> i < length (builder_existentials b) \<and> builder_existentials b ! i = e \<and>
                 variable_ok data A (start_of b - 1) i e)"

definition computes :: "aiger_data \<Rightarrow> (int \<rightharpoonup> bool) \<Rightarrow> aiger_builder \<Rightarrow> assignment \<Rightarrow> int \<Rightarrow> bool" where
  "computes data A b \<alpha> e \<longleftrightarrow>
     (case indices b e of
        None \<Rightarrow> False
      | Some i \<Rightarrow> forcing_conflict data A i \<alpha> \<or> \<alpha> e = skolem_value data A i e \<alpha>)"

lemma addSkolemFunctions_spec:
  assumes "builder_wf b" "variables_ok data A b" "set es \<subseteq> set (builder_existentials b)"
  shows "\<exists>b' gs. addSkolemFunctions es data A b = Some b' \<and>
    aig_inputs (circuit b') = aig_inputs (circuit b) \<and> aig_ands (circuit b') = aig_ands (circuit b) @ gs \<and>
    aig_outputs (circuit b') = aig_outputs (circuit b) @ map (\<lambda>e. (getAIGERRepresentation e, to_string e)) es \<and>
    (\<forall>\<alpha>. aig_consistent gs \<alpha> \<longrightarrow> (\<forall>e\<in>set es. computes data A b \<alpha> e))"
  using assms
proof (induction es arbitrary: b)
  case (Cons e es)
  obtain i where i: "indices b e = Some i" "i < length (builder_existentials b)" "builder_existentials b ! i = e"
    "variable_ok data A (start_of b - 1) i e"
    using Cons.prems(2,3) by (auto simp: variables_ok_def split: option.splits)
  obtain b1 gs where 1: "addSkolemFunction e data A b = Some b1" "renames b b1 gs"
    "\<forall>\<alpha>. aig_consistent gs \<alpha> \<and> \<not> forcing_conflict data A i \<alpha> \<longrightarrow> \<alpha> e = skolem_value data A i e \<alpha>"
    using addSkolemFunction_spec [OF Cons.prems(1) i] by blast
  note f = renames_fields [OF 1(2)]
  define b2 where "b2 = aiger_add_output (getAIGERRepresentation e) (to_string e) b1"
  have same: "builder_existentials b2 = builder_existentials b" "indices b2 = indices b" "start_of b2 = start_of b"
    using f by (simp_all add: b2_def aiger_add_output_def)
  have wf: "builder_wf b2" using renames_wf [OF 1(2) Cons.prems(1)]
    by (simp add: builder_wf_def renames_def grows_def b2_def aiger_add_output_def)
  have ok: "variables_ok data A b2" using Cons.prems(2) unfolding variables_ok_def same .
  obtain b' hs where 2: "addSkolemFunctions es data A b2 = Some b'"
    "aig_inputs (circuit b') = aig_inputs (circuit b2)" "aig_ands (circuit b') = aig_ands (circuit b2) @ hs"
    "aig_outputs (circuit b') = aig_outputs (circuit b2) @ map (\<lambda>e. (getAIGERRepresentation e, to_string e)) es"
    "\<forall>\<alpha>. aig_consistent hs \<alpha> \<longrightarrow> (\<forall>e\<in>set es. computes data A b2 \<alpha> e)"
    using Cons.IH [OF wf ok] Cons.prems(3) same by auto
  have "\<forall>d\<in>set (e # es). computes data A b \<alpha> d" if "aig_consistent (gs @ hs) \<alpha>" for \<alpha>
    using 1(3) 2(5) that i(1) by (auto simp: computes_def same)
  moreover have "addSkolemFunctions (e # es) data A b = Some b'" using 1(1) 2(1) by (simp add: b2_def)
  ultimately show ?case using 2(2-4) f
    by (intro exI [of _ b'] exI [of _ "gs @ hs"]) (simp add: b2_def aiger_add_output_def)
qed (simp add: aig_consistent_def)

lemma add_inputs_fields:
  "fold (\<lambda>u. aiger_add_input (getAIGERRepresentation u) (to_string u)) us b =
    b\<lparr>circuit := (circuit b)\<lparr>aig_inputs := aig_inputs (circuit b) @
      map (\<lambda>u. (getAIGERRepresentation u, to_string u)) us\<rparr>\<rparr>"
  by (induction us arbitrary: b) (simp_all add: aiger_add_input_def)

lemma new_builder_wf: "0 \<le> n \<Longrightarrow> builder_wf (new_AIGERBuilder idx n es us)"
  by (simp add: builder_wf_def renames_def grows_def new_AIGERBuilder_def)

lemma builder_wf_circuit: "builder_wf b \<Longrightarrow> builder_wf (b\<lparr>circuit := c\<rparr>)"
  by (simp add: builder_wf_def renames_def grows_def)


text \<open>
  Variable 3 has a definition with an inner gate and an arbiter at its output gate, 4 has forcing
  clauses and a default function, 5 a conditional definition whose condition holds.
\<close>

definition sample_data :: aiger_data where
  "sample_data = \<lparr>data_definitions = [[([1, 2], 8), ([8, 7], 3)], [], []],
     data_conditions = [[], [[-7]], [[7]]],
     data_conditional = [[], [[([2], 4)]], [[([-1], 5)]]],
     data_positive_forcing = [[], [[-1, -7]], []],
     data_negative_forcing = [[], [[1, 2]], []],
     data_defaults = [3 \<mapsto> [], 4 \<mapsto> [[-1, 4], [2, 4], [1, -4]], 5 \<mapsto> []]\<rparr>"

abbreviation sample_builder :: aiger_builder where
  "sample_builder \<equiv> new_AIGERBuilder [3 \<mapsto> 0, 4 \<mapsto> 1, 5 \<mapsto> 2] 7 [3, 4, 5] [1, 2]"

lemma sample_ok: "variables_ok sample_data [7 \<mapsto> True] sample_builder"
  by (auto simp: variables_ok_def sample_data_def new_AIGERBuilder_def variable_ok_def used_definition_def
      definition_ok_def gate_ok_def condition_holds_def default_ok_def model_clause_def var_def)

definition sample_stage :: "(int \<times> int \<times> int) list \<Rightarrow> (int \<times> string) list \<Rightarrow> (int \<rightharpoonup> int) \<Rightarrow> int \<Rightarrow> aiger_builder" where
  "sample_stage gates outs r n =
     \<lparr>circuit = \<lparr>aig_inputs = map (\<lambda>u. (getAIGERRepresentation u, to_string u)) [1, 2], aig_ands = gates, aig_outputs = outs\<rparr>,
      renamings = r, indices = [3 \<mapsto> 0, 4 \<mapsto> 1, 5 \<mapsto> 2], builder_existentials = [3, 4, 5], builder_universals = [1, 2],
      intermediate_variables_start = 8, last_used_intermediate_variable = n\<rparr>"

lemmas build_defs = addSkolemFunction_def sample_data_def at_index_def Let_def var_def addDefinition_def
  addDefinitionCircuitAdder_def checkVariableInDefinition_def aiger_add_and_def aiger_true_def aiger_false_def
  getAIGERRepresentation_def getAIGERNegation_def fresh_intermediate_def addForcingClauses_def
  getIsActiveCircuit_def getIsActiveCircuit_clause_def removeArbiters_def default_circuit_def
  filterClauses_def combineAIGERVariables_def addAdderToCircuit_def

lemma sample_stages:
  "addSkolemFunction 3 sample_data [7 \<mapsto> True] (sample_stage [] outs Map.empty 7) =
     Some (sample_stage [(16, 2, 4), (6, 16, 1)] outs [8 \<mapsto> 8] 8)"
  "addSkolemFunction 4 sample_data [7 \<mapsto> True] (sample_stage [(16, 2, 4), (6, 16, 1)] outs r 8) =
     Some (sample_stage [(16, 2, 4), (6, 16, 1), (18, 3, 5), (20, 3, 3), (22, 19, 21), (8, 22, 1)] outs r 11)"
  "addSkolemFunction 5 sample_data [7 \<mapsto> True] (sample_stage gates outs r 11) =
     Some (sample_stage (gates @ [(10, 3, 1)]) outs r 11)"
  by (simp_all add: build_defs sample_stage_def)

lemma sample_outputs:
  "aiger_add_output l name (sample_stage gates outs r n) = sample_stage gates (outs @ [(l, name)]) r n"
  by (simp add: aiger_add_output_def sample_stage_def)

lemma sample_circuit:
  "map_option (\<lambda>b. aig_ands (circuit b)) (computeCircuitRepresentation sample_data [7 \<mapsto> True] sample_builder) =
   Some [(16, 2, 4), (6, 16, 1), (18, 3, 5), (20, 3, 3), (22, 19, 21), (8, 22, 1), (10, 3, 1)]"
proof -
  have "fold (\<lambda>u. aiger_add_input (getAIGERRepresentation u) (to_string u)) [1, 2] sample_builder = sample_stage [] [] Map.empty 7"
    by (simp add: aiger_add_input_def sample_stage_def new_AIGERBuilder_def aiger_init_def)
  moreover have "builder_existentials sample_builder = [3, 4, 5]" "builder_universals sample_builder = [1, 2]"
    by (simp_all add: new_AIGERBuilder_def)
  ultimately show ?thesis
    by (simp add: computeCircuitRepresentation_def sample_stages sample_outputs del: fold_simps) (simp add: sample_stage_def)
qed

lemma sample_acyclic:
  "aig_acyclic [1, 2] [(16, 2, 4), (6, 16, 1), (18, 3, 5), (20, 3, 3), (22, 19, 21), (8, 22, 1), (10, 3, 1)]" (is "aig_acyclic _ ?gs")
proof -
  have "gate_vars ?gs = [8, 3, 9, 10, 11, 4, 5]" by (simp add: gate_vars_def)
  moreover have "\<forall>(l, i, j)\<in>set ?gs. \<forall>x\<in>{i, j}. x div 2 \<in> set [8, 3, 9, 10, 11, 4, 5] \<longrightarrow>
      (if x div 2 < 8 then 12 else nat (x div 2)) < (if l div 2 < 8 then 12 else nat (l div 2))"
    by simp
  ultimately show ?thesis unfolding aig_acyclic_def
    by (intro conjI exI [of _ "\<lambda>v. if v < 8 then 12 else nat v"]) simp_all
qed


section \<open>Gates with an arbiter among their inputs\<close>

text \<open>The last gate of the definition loses its input 10: gate 10 was renamed to the input that
  remains, and a renamed input is only used when it is a constant.\<close>

lemma renamed_input_dropped:
  "map_option (\<lambda>b. aig_ands (circuit b))
     (addDefinition 0 [([1, 7], 10), ([10, 2], 3)] [7 \<mapsto> True] (new_AIGERBuilder [3 \<mapsto> 0] 9 [3] [1, 2])) =
   Some [(getAIGERRepresentation 3, getAIGERRepresentation 2, aiger_true)]"
  by (simp add: addDefinition_def addDefinitionCircuitAdder_def new_AIGERBuilder_def var_def aiger_init_def
      checkVariableInDefinition_def aiger_add_and_def getAIGERRepresentation_def Let_def aiger_true_def aiger_false_def)

text \<open>A negated input whose gate was renamed has no entry: the lookup throws.\<close>

lemma negated_renamed_input_throws:
  "addDefinition 0 [([1, 7], 10), ([-10, 2], 3)] [7 \<mapsto> True] (new_AIGERBuilder [3 \<mapsto> 0] 9 [3] [1, 2]) = None"
  by (simp add: addDefinition_def addDefinitionCircuitAdder_def new_AIGERBuilder_def var_def aiger_init_def
      checkVariableInDefinition_def aiger_add_and_def getAIGERRepresentation_def Let_def aiger_true_def aiger_false_def)

end
