(* ===== verification/ConsistencyChecker.thy ===== *)
theory ConsistencyChecker
  imports Disjunction SupportTracker SatSolver "HOL-Library.Monad_Syntax"
begin

text \<open>
  \<open>src/consistencychecker.cc\<close>: the encoding of the current model in which every existential
  variable has one variable per polarity, so that a model that forces both polarities shows as
  a satisfying assignment with a conflict variable set. The shared counter
  \<open>last_used_variable\<close> is the first component of the state the operations pass on. Reading a map
  of integers with \<open>operator[]\<close> at a missing key gives 0 (\<open>int_entry\<close>); \<open>at\<close> on a missing key, a
  failed assertion and \<open>back\<close> of an empty vector are \<open>None\<close>. Logging is left out.
\<close>

section \<open>State\<close>

record variable_data =
  literal_variables :: "bool \<Rightarrow> int"
  forcing_inactive :: int
  default_value_index :: nat
  use_default_value_index :: nat
  literal_disjunctions :: "bool \<Rightarrow> disjunction"
  default_disjunctions :: "bool \<Rightarrow> disjunction"

definition new_VariableData :: variable_data where
  "new_VariableData =
     \<lparr>literal_variables = \<lambda>_. 0, forcing_inactive = 0, default_value_index = 0, use_default_value_index = 0,
      literal_disjunctions = \<lambda>_. new_Disjunction, default_disjunctions = \<lambda>_. new_Disjunction\<rparr>"

record consistency_checker =
  cc_existentials :: "int set"
  cc_universals :: "int list"
  data_of :: "int \<rightharpoonup> variable_data"
  default_function_selectors :: "int list"
  cc_selector_index :: "int \<rightharpoonup> int"
  disjunction_terminals :: "int list"
  conflict_variables :: "int list"
  conflict_variable_to_variable :: "int \<rightharpoonup> int"
  default_assumptions :: "int list"
  literal_variable_to_variable :: "int \<rightharpoonup> int"
  literal_variable_to_literal :: "int \<rightharpoonup> int"
  default_fires :: "int \<rightharpoonup> int"
  cc_solver :: sat_solver
  cc_tracker :: support_tracker

type_synonym cc_state = "int \<times> consistency_checker"

definition cc_addClause :: "clause \<Rightarrow> consistency_checker \<Rightarrow> consistency_checker" where
  "cc_addClause c s = s\<lparr>cc_solver := sat_addClause c (cc_solver s)\<rparr>"

definition cc_addClauses :: "cnf \<Rightarrow> consistency_checker \<Rightarrow> consistency_checker" where
  "cc_addClauses F s = fold cc_addClause F s"

text \<open>One more disjunct for a polarity of a variable, and its clause to the solver.\<close>

definition grow_literal :: "int \<Rightarrow> bool \<Rightarrow> clause \<Rightarrow> cc_state \<Rightarrow> cc_state option" where
  "grow_literal v sign c = (\<lambda>(n, s).
     do {
       vd \<leftarrow> data_of s v;
       let (c', d, n', ts) = createDisjunct c (literal_disjunctions vd sign) n (disjunction_terminals s);
       Some (n', cc_addClause c'
         (s\<lparr>data_of := (data_of s)(v \<mapsto> vd\<lparr>literal_disjunctions := (literal_disjunctions vd)(sign := d)\<rparr>),
            disjunction_terminals := ts\<rparr>))
     })"

definition grow_default :: "int \<Rightarrow> bool \<Rightarrow> clause \<Rightarrow> cc_state \<Rightarrow> cc_state option" where
  "grow_default v sign c = (\<lambda>(n, s).
     do {
       vd \<leftarrow> data_of s v;
       let (c', d, n', ts) = createDisjunct c (default_disjunctions vd sign) n (disjunction_terminals s);
       Some (n', cc_addClause c'
         (s\<lparr>data_of := (data_of s)(v \<mapsto> vd\<lparr>default_disjunctions := (default_disjunctions vd)(sign := d)\<rparr>),
            disjunction_terminals := ts\<rparr>))
     })"

section \<open>Initialisation\<close>

definition initVariableData :: "int \<Rightarrow> cc_state \<Rightarrow> cc_state option" where
  "initVariableData v = (\<lambda>(n, s).
     do {
       let data = emplace (data_of s) v new_VariableData;
       vd \<leftarrow> data v;
       let neg = n + 1;
       let pos = n + 2;
       let none_active = n + 3;
       let default_value = n + 4;
       let use_default = n + 5;
       let t = setNoForcedVariable pos none_active (setNoForcedVariable neg none_active (cc_tracker s));
       Some (n + 5, s\<lparr>
         data_of := data(v \<mapsto> vd\<lparr>literal_variables := (literal_variables vd)(False := neg, True := pos),
           forcing_inactive := none_active, default_value_index := length (default_assumptions s),
           use_default_value_index := length (default_assumptions s) + 1\<rparr>),
         literal_variable_to_variable := (literal_variable_to_variable s)(neg \<mapsto> v, pos \<mapsto> v),
         literal_variable_to_literal := (literal_variable_to_literal s)(neg \<mapsto> - v, pos \<mapsto> v),
         default_assumptions := default_assumptions s @ [- default_value, use_default],
         cc_tracker := setAlias pos v (setAlias neg (- v) t)\<rparr>)
     })"

definition add_conflict_variable :: "int \<Rightarrow> cc_state \<Rightarrow> cc_state" where
  "add_conflict_variable v = (\<lambda>(n, s).
     (n + 1, s\<lparr>conflict_variable_to_variable := (conflict_variable_to_variable s)(n + 1 \<mapsto> v),
               conflict_variables := conflict_variables s @ [n + 1],
               cc_selector_index := (cc_selector_index s)(v \<mapsto> - 1)\<rparr>))"

fun init_variables :: "int list \<Rightarrow> cc_state \<Rightarrow> cc_state option" where
  "init_variables [] s = Some s"
| "init_variables (v # vs) s =
     do { s \<leftarrow> initVariableData v s; init_variables vs (add_conflict_variable v s) }"

definition encode_variable :: "int \<Rightarrow> cc_state \<Rightarrow> cc_state option" where
  "encode_variable conflict_variable = (\<lambda>(n, s).
     do {
       let v = int_entry (conflict_variable_to_variable s) conflict_variable;
       vd \<leftarrow> data_of s v;
       let pos = literal_variables vd True;
       let neg = literal_variables vd False;
       let s = cc_addClauses [[pos, neg], [pos, - conflict_variable], [neg, - conflict_variable],
                              [- neg, - pos, conflict_variable]] s;
       let positive_fires = n + 1;
       (n, s) \<leftarrow> grow_default v True [- positive_fires] (n + 1, s);
       let negative_fires = n + 1;
       (n, s) \<leftarrow> grow_default v False [- negative_fires] (n + 1, s);
       let s = s\<lparr>default_fires := (default_fires s)(conflict_variable \<mapsto> positive_fires,
                                                    - conflict_variable \<mapsto> negative_fires)\<rparr>;
       let use_default = var (default_assumptions s ! use_default_value_index vd);
       let s = cc_addClauses [[- positive_fires, forcing_inactive vd], [- negative_fires, forcing_inactive vd],
                              [- positive_fires, use_default], [- negative_fires, use_default]] s;
       s \<leftarrow> grow_literal v True [positive_fires, - pos] (n, s);
       grow_literal v False [negative_fires, - neg] s
     })"

fun encode_variables :: "int list \<Rightarrow> cc_state \<Rightarrow> cc_state option" where
  "encode_variables [] s = Some s"
| "encode_variables (cv # cvs) s = do { s \<leftarrow> encode_variable cv s; encode_variables cvs s }"

definition cc_initEncoding :: "cc_state \<Rightarrow> cc_state option" where
  "cc_initEncoding = (\<lambda>(n, s).
     encode_variables (conflict_variables s) (n, cc_addClause (conflict_variables s) s))"

definition new_ConsistencyChecker :: "int list \<Rightarrow> int list \<Rightarrow> int \<Rightarrow> cc_state option" where
  "new_ConsistencyChecker existentials universals n =
     do {
       s \<leftarrow> init_variables existentials
         (n, \<lparr>cc_existentials = set existentials, cc_universals = universals, data_of = Map.empty,
              default_function_selectors = [], cc_selector_index = Map.empty, disjunction_terminals = [],
              conflict_variables = [], conflict_variable_to_variable = Map.empty, default_assumptions = [],
              literal_variable_to_variable = Map.empty, literal_variable_to_literal = Map.empty,
              default_fires = Map.empty, cc_solver = init_solver,
              cc_tracker = new_SupportTracker universals\<rparr>);
       cc_initEncoding s
     }"

section \<open>Rules\<close>

definition translate_literal :: "consistency_checker \<Rightarrow> int \<Rightarrow> int option" where
  "translate_literal s l =
     (if var l \<in> cc_existentials s
      then map_option (\<lambda>vd. literal_variables vd (l > 0)) (data_of s (var l))
      else Some l)"

definition translateClause :: "consistency_checker \<Rightarrow> clause \<Rightarrow> clause option" where
  "translateClause s c = those (map (translate_literal s) c)"

definition cc_addForcingClause :: "clause \<Rightarrow> cc_state \<Rightarrow> cc_state option" where
  "cc_addForcingClause clause = (\<lambda>(n, s).
     if clause = [] then None
     else do {
       let defined_literal = List.last clause;
       let sign = (defined_literal > 0);
       let v = var defined_literal;
       translated \<leftarrow> translateClause s (negateEach (butlast clause));
       let clause_active = n + 1;
       let s = cc_addClauses (map (\<lambda>l. [- clause_active, l]) translated) s;
       vd \<leftarrow> data_of s v;
       let translated = negateEach translated @ [clause_active];
       let s = cc_addClauses [[- clause_active, - forcing_inactive vd], translated,
                              [- clause_active, literal_variables vd sign]] s;
       (n, s) \<leftarrow> grow_literal v sign [clause_active] (n + 1, s);
       Some (n, s\<lparr>cc_tracker :=
         addDefiningClause (literal_variables vd sign) translated clause_active (cc_tracker s)\<rparr>)
     })"

definition cc_disableDefaultFunctionSelector :: "int \<Rightarrow> consistency_checker \<Rightarrow> consistency_checker" where
  "cc_disableDefaultFunctionSelector v s =
     (let i = int_entry (cc_selector_index s) v in
      if i \<noteq> - 1
      then s\<lparr>default_function_selectors := (default_function_selectors s)
               [nat i := - var (default_function_selectors s ! nat i)]\<rparr>
      else s)"

definition cc_newDefaultFunctionSelector :: "int \<Rightarrow> cc_state \<Rightarrow> int \<times> cc_state" where
  "cc_newDefaultFunctionSelector v = (\<lambda>(n, s).
     let s = cc_disableDefaultFunctionSelector v s; selector = n + 1
     in (selector, n + 1,
         s\<lparr>cc_selector_index := (cc_selector_index s)(v \<mapsto> int (length (default_function_selectors s))),
           default_function_selectors := default_function_selectors s @ [- selector]\<rparr>))"

fun add_translated :: "cnf \<Rightarrow> consistency_checker \<Rightarrow> consistency_checker option" where
  "add_translated [] s = Some s"
| "add_translated (c # F) s = do { c \<leftarrow> translateClause s c; add_translated F (cc_addClause c s) }"

definition addDefinitionSelector :: "int \<Rightarrow> cnf \<Rightarrow> int \<Rightarrow> cc_state \<Rightarrow> (int \<times> int \<times> cc_state) option" where
  "addDefinitionSelector v definition selector = (\<lambda>(n, s).
     do {
       let renamed = n + 1;
       s \<leftarrow> add_translated (renameFormula definition [v \<mapsto> renamed]) s;
       let circuit_true = n + 2;
       let circuit_false = n + 3;
       let s = cc_addClauses [[selector, - circuit_true], [renamed, - circuit_true],
         [- selector, - renamed, circuit_true], [selector, - circuit_false], [- renamed, - circuit_false],
         [- selector, renamed, circuit_false]] s;
       vd \<leftarrow> data_of s v;
       s \<leftarrow> grow_literal v True [circuit_true] (n + 3, s);
       (n, s) \<leftarrow> grow_literal v False [circuit_false] s;
       Some (circuit_true, circuit_false, n,
         cc_addClauses [[- circuit_true, literal_variables vd True], [- circuit_false, literal_variables vd False]] s)
     })"

text \<open>The literals of the conflict are not translated, as in the code.\<close>

fun translated_supports :: "dep_container \<Rightarrow> int \<Rightarrow> consistency_checker \<Rightarrow> cnf \<Rightarrow> int list \<Rightarrow> int list option" where
  "translated_supports c v s [] support = Some support"
| "translated_supports c v s (cl # F) support =
     do {
       restricted \<leftarrow> restrictToExtendedDendencies cl v c;
       translated \<leftarrow> translateClause s restricted;
       translated_supports c v s F (set_insert_all (map var translated) support)
     }"

definition getTranslatedDefinitionSupport ::
  "dep_container \<Rightarrow> int \<Rightarrow> clause \<Rightarrow> cnf \<Rightarrow> consistency_checker \<Rightarrow> int list option" where
  "getTranslatedDefinitionSupport c v conflict definition s =
     do {
       restricted \<leftarrow> restrictToExtendedDendencies conflict v c;
       translated_supports c v s definition (set_of (map var restricted))
     }"

definition cc_addDefinition ::
  "dep_container \<Rightarrow> int \<Rightarrow> cnf \<Rightarrow> int list \<Rightarrow> cc_state \<Rightarrow> cc_state option" where
  "cc_addDefinition c v definition conflict = (\<lambda>(n, s).
     do {
       let conflict_active = n + 1;
       translated \<leftarrow> translateClause s conflict;
       let s = cc_addClauses (map (\<lambda>l. [- conflict_active, l]) translated) s;
       let s = cc_addClause (negateEach translated @ [conflict_active]) s;
       let selector = n + 2;
       let use_new = n + 3;
       let s = cc_addClauses [[conflict_active, use_new, - selector], [- conflict_active, selector],
                              [- use_new, selector]] s;
       let (new_selector, n, s) = cc_newDefaultFunctionSelector v (n + 3, s);
       vd \<leftarrow> data_of s v;
       let s = cc_addClauses [[- use_new, forcing_inactive vd], [- use_new, new_selector],
                              [- forcing_inactive vd, - new_selector, use_new]] s;
       (circuit_true, circuit_false, n, s) \<leftarrow> addDefinitionSelector v definition selector (n, s);
       let s = cc_addClause [- conflict_active, - forcing_inactive vd] s;
       support \<leftarrow> getTranslatedDefinitionSupport c v conflict definition s;
       let t = addDefiningClause (literal_variables vd True) support circuit_true (cc_tracker s);
       Some (n, s\<lparr>cc_tracker := addDefiningClause (literal_variables vd False) support circuit_false t\<rparr>)
     })"

definition cc_addDefaultClause :: "clause \<Rightarrow> int \<Rightarrow> cc_state \<Rightarrow> cc_state option" where
  "cc_addDefaultClause premise label = (\<lambda>(n, s).
     do {
       cl \<leftarrow> translateClause s (negateEach premise);
       let clause_active = n + 1;
       grow_default (var label) (label > 0) [clause_active]
         (n + 1, cc_addClauses (map (\<lambda>l. [l, - clause_active]) cl) s)
     })"

definition cc_addArbiterVariable :: "int \<Rightarrow> int \<Rightarrow> consistency_checker \<Rightarrow> consistency_checker" where
  "cc_addArbiterVariable existential arbiter s =
     s\<lparr>cc_tracker := addArbiterVariable arbiter (cc_tracker s)\<rparr>"

definition cc_addAssumption :: "int list \<Rightarrow> consistency_checker \<Rightarrow> consistency_checker" where
  "cc_addAssumption as s = s\<lparr>cc_solver := sat_assume as (cc_solver s)\<rparr>"

definition cc_setDefaultValue :: "int \<Rightarrow> bool \<Rightarrow> consistency_checker \<Rightarrow> consistency_checker option" where
  "cc_setDefaultValue v sign s =
     map_option (\<lambda>vd. s\<lparr>default_assumptions := (default_assumptions s)
         [default_value_index vd := setLiteralSign (default_assumptions s ! default_value_index vd) sign]\<rparr>)
       (data_of s v)"

definition cc_setDefaultValueActive :: "int \<Rightarrow> bool \<Rightarrow> consistency_checker \<Rightarrow> consistency_checker option" where
  "cc_setDefaultValueActive v active s =
     do {
       vd \<leftarrow> data_of s v;
       let s = s\<lparr>default_assumptions := (default_assumptions s)
         [use_default_value_index vd := setLiteralSign (default_assumptions s ! use_default_value_index vd) active]\<rparr>;
       let i = int_entry (cc_selector_index s) v;
       Some (if i \<noteq> - 1
             then s\<lparr>default_function_selectors := (default_function_selectors s)
               [nat i := setLiteralSign (default_function_selectors s ! nat i) (\<not> active)]\<rparr>
             else s)
     }"

text \<open>The literals of the last model; the bit trick as in \<open>setLiteralSign\<close>.\<close>

definition cc_getAssignment :: "int list \<Rightarrow> consistency_checker \<Rightarrow> int list option" where
  "cc_getAssignment vs s =
     those (map (\<lambda>v. map_option (\<lambda>vd.
         let negated = of_bool (sat_val (literal_variables vd False) (cc_solver s) > 0)
         in (v XOR (- negated)) + negated) (data_of s v)) vs)"

section \<open>The check\<close>

text \<open>The walk down the extended dependencies; it ends because they shrink.\<close>

partial_function (option) minimal_conflict :: "dep_container \<Rightarrow> int list \<Rightarrow> int option" where
  "minimal_conflict c conflicted =
     do {
       let v = hd conflicted;
       rest \<leftarrow> restrictToExtendedDendencies conflicted v c;
       (if rest = [] then Some v else minimal_conflict c rest)
     }"

declare minimal_conflict.simps [code]

definition getInconsistentExistentialVariable :: "dep_container \<Rightarrow> consistency_checker \<Rightarrow> int option" where
  "getInconsistentExistentialVariable c s =
     (let conflicted = map (int_entry (conflict_variable_to_variable s))
            (filter (\<lambda>l. l > 0) (sat_getValues (conflict_variables s) (cc_solver s)))
      in if conflicted = [] then None else minimal_conflict c conflicted)"

record counterexample =
  cex_existentials :: "int list"
  cex_universals :: "int list"
  cex_arbiters :: "int list"
  cex_complete_universals :: "int list"

definition core_counterexample ::
  "dep_container \<Rightarrow> int list \<Rightarrow> int list \<Rightarrow> int \<Rightarrow> consistency_checker \<Rightarrow> counterexample option" where
  "core_counterexample c undefineds arbiter_assumptions conflicted s =
     do {
       existential_dependencies \<leftarrow> getExistentialDependencies conflicted c;
       positives \<leftarrow> those (map (\<lambda>v. map_option (\<lambda>vd. literal_variables vd True) (data_of s v)) existential_dependencies);
       let literals = map (\<lambda>l. int_entry (literal_variable_to_literal s) (if l > 0 then l else - l - 1))
             (sat_getValues positives (cc_solver s));
       let universals = sat_getValues (cc_universals s) (cc_solver s);
       Some \<lparr>cex_existentials = filter (\<lambda>l. isUndefined undefineds (var l)) literals,
             cex_universals = universals,
             cex_arbiters = sat_getValues arbiter_assumptions (cc_solver s),
             cex_complete_universals = universals\<rparr>
     }"

definition separator_counterexample ::
  "configuration \<Rightarrow> max_flow \<Rightarrow> (int \<rightharpoonup> int) \<Rightarrow> dep_container \<Rightarrow> int \<Rightarrow> consistency_checker \<Rightarrow>
   counterexample option" where
  "separator_counterexample conf max_flow arbiter_to_existential c conflicted s =
     do {
       let val = (\<lambda>v. sat_val v (cc_solver s));
       forced \<leftarrow> getForcedSource conf arbiter_to_existential c val (cc_tracker s) [conflicted, - conflicted] True;
       (es, us, as) \<leftarrow> computeSupport conf max_flow c val (cc_tracker s) [conflicted, - conflicted] forced True;
       let literals = sat_getValues es (cc_solver s);
       (if list_all (\<lambda>l. l > 0) literals
        then Some \<lparr>cex_existentials = map (int_entry (literal_variable_to_literal s)) literals,
                   cex_universals = sat_getValues us (cc_solver s),
                   cex_arbiters = sat_getValues as (cc_solver s),
                   cex_complete_universals = sat_getValues (cc_universals s) (cc_solver s)\<rparr>
        else None)
     }"

text \<open>No counterexample is the answer \<open>consistent\<close>.\<close>

definition cc_checkConsistency ::
  "configuration \<Rightarrow> max_flow \<Rightarrow> sat_oracle \<Rightarrow> (int \<rightharpoonup> int) \<Rightarrow> dep_container \<Rightarrow> int list \<Rightarrow> int list \<Rightarrow>
   consistency_checker \<Rightarrow> (counterexample option \<times> consistency_checker) option" where
  "cc_checkConsistency conf max_flow orc arbiter_to_existential c undefineds arbiter_assumptions s =
     do {
       let solver = sat_assume (disjunction_terminals s) (cc_solver s);
       let solver = sat_assume (default_assumptions s) (sat_assume arbiter_assumptions solver);
       let (result, solver) = sat_solve orc (sat_assume (default_function_selectors s) solver);
       let s = s\<lparr>cc_solver := solver\<rparr>;
       (if result = 20 then Some (None, s)
        else do {
          conflicted \<leftarrow> getInconsistentExistentialVariable c s;
          cex \<leftarrow> (if sup_strat conf = Core
                 then core_counterexample c undefineds arbiter_assumptions conflicted s
                 else separator_counterexample conf max_flow arbiter_to_existential c conflicted s);
          Some (Some cex, s)
        })
     }"

end
