(* ===== verification/HoeffdingTree.thy ===== *)
theory HoeffdingTree
  imports Utils Text Configuration "HOL-Library.Monad_Syntax"
begin

text \<open>
  \<open>src/hoeffdingDefaultTree.cc\<close>: the default function of one existential variable, learnt by a
  Hoeffding tree. The learner is mlpack's and a parameter (\<open>mlpack_tree\<close>); the file keeps a
  selector tree of the same shape beside it. A leaf of the selector tree has a clause for each
  label, each with a selector, and the leaf's label is the clause whose selector is assumed
  true. The selectors live in two vectors shared with other components: \<open>env\<close> holds them with
  the shared variable counter. A child of the mlpack tree is a reference into it: it is a path
  of directions here, read by \<open>h_get\<close> and written by \<open>h_put\<close>.
\<close>

section \<open>Data\<close>

record 'h mlpack_tree =
  num_children :: "'h \<Rightarrow> nat"
  child :: "'h \<Rightarrow> nat \<Rightarrow> 'h"
  replace_child :: "'h \<Rightarrow> nat \<Rightarrow> 'h \<Rightarrow> 'h"
  split_dimension :: "'h \<Rightarrow> int"
  majority_class :: "'h \<Rightarrow> nat"
  calculate_direction :: "'h \<Rightarrow> int list \<Rightarrow> nat"
  train :: "int list \<Rightarrow> nat \<Rightarrow> 'h \<Rightarrow> 'h"

record switches =
  assumptions_index :: nat
  default_index :: nat
  assumptions_index2 :: nat
  default_index2 :: nat

text \<open>A node knows whether it was made as a left child; the path of a leaf is read from there.\<close>

datatype selector_tree =
    Leaf_Node bool switches
  | Inner_Node bool switches int selector_tree selector_tree

record env =
  env_last :: int
  env_assumptions :: "int list"
  env_defaults :: "int list"

record 'h hoeffding =
  tree_variable :: int
  tree_dependencies :: "int list"
  htree :: 'h
  root_selector_tree :: "selector_tree option"
  total_number_of_samples :: nat

text \<open>The empty tree of mlpack, with the limits of the configuration set, is an argument.\<close>

definition new_HoeffdingDefaultTree :: "int \<Rightarrow> int list \<Rightarrow> 'h \<Rightarrow> 'h hoeffding" where
  "new_HoeffdingDefaultTree v sample_space empty_tree =
     \<lparr>tree_variable = v, tree_dependencies = sort sample_space, htree = empty_tree,
      root_selector_tree = None, total_number_of_samples = 0\<rparr>"

definition isLeaf :: "'h mlpack_tree \<Rightarrow> 'h \<Rightarrow> bool" where
  "isLeaf api h \<longleftrightarrow> num_children api h = 0"

definition tree_empty :: "'h mlpack_tree \<Rightarrow> 'h hoeffding \<Rightarrow> bool" where
  "tree_empty api t \<longleftrightarrow> isLeaf api (htree t)"

definition newSelector :: "env \<Rightarrow> env" where
  "newSelector e =
     (let n = env_last e + 1
      in e\<lparr>env_last := n, env_assumptions := env_assumptions e @ [n], env_defaults := env_defaults e @ [n]\<rparr>)"

definition getSplitVariable :: "'h mlpack_tree \<Rightarrow> int list \<Rightarrow> 'h \<Rightarrow> int option" where
  "getSplitVariable api dependencies h =
     (let direction = split_dimension api h
      in if 0 \<le> direction \<and> nat direction < length dependencies then Some (dependencies ! nat direction) else None)"

section \<open>The selector tree\<close>

fun node_switches :: "selector_tree \<Rightarrow> switches" where
  "node_switches (Leaf_Node b sw) = sw"
| "node_switches (Inner_Node b sw v l r) = sw"

fun node_left :: "selector_tree \<Rightarrow> bool" where
  "node_left (Leaf_Node b sw) = b"
| "node_left (Inner_Node b sw v l r) = b"

definition no_switches :: switches where
  "no_switches = \<lparr>assumptions_index = 0, default_index = 0, assumptions_index2 = 0, default_index2 = 0\<rparr>"

definition next_switches :: "env \<Rightarrow> switches" where
  "next_switches e =
     \<lparr>assumptions_index = length (env_assumptions e), default_index = length (env_defaults e),
      assumptions_index2 = length (env_assumptions e) + 1, default_index2 = length (env_defaults e) + 1\<rparr>"

text \<open>The first \<open>setChildren\<close>: both children are leaves.\<close>

definition setChildren :: "selector_tree \<Rightarrow> int \<Rightarrow> env \<Rightarrow> selector_tree \<times> env" where
  "setChildren st split e =
     (let e2 = newSelector (newSelector e)
      in (Inner_Node (node_left st) (node_switches st) split
            (Leaf_Node True (next_switches e)) (Leaf_Node False (next_switches e2)),
          newSelector (newSelector e2)))"

text \<open>The second one, for batches: the flag of the right child is the one of the code.\<close>

definition setChildren_batch ::
  "selector_tree \<Rightarrow> int \<Rightarrow> bool \<Rightarrow> bool \<Rightarrow> env \<Rightarrow> selector_tree \<times> selector_tree \<times> env" where
  "setChildren_batch st split left_child_leaf right_child_leaf e =
     (let (l, e) = (if left_child_leaf then (Leaf_Node True (next_switches e), newSelector (newSelector e))
                    else (Leaf_Node True no_switches, e));
          (r, e) = (if right_child_leaf then (Leaf_Node True (next_switches e), newSelector (newSelector e))
                    else (Leaf_Node True no_switches, e))
      in (l, r, e))"

fun subtree :: "bool \<Rightarrow> selector_tree \<Rightarrow> selector_tree option" where
  "subtree left (Leaf_Node b sw) = None"
| "subtree left (Inner_Node b sw v l r) = Some (if left then l else r)"

text \<open>References as paths; direction 0 is the left child.\<close>

fun h_get :: "'h mlpack_tree \<Rightarrow> 'h \<Rightarrow> nat list \<Rightarrow> 'h" where
  "h_get api h [] = h"
| "h_get api h (d # ds) = h_get api (child api h d) ds"

fun h_put :: "'h mlpack_tree \<Rightarrow> 'h \<Rightarrow> nat list \<Rightarrow> 'h \<Rightarrow> 'h" where
  "h_put api h [] h' = h'"
| "h_put api h (d # ds) h' = replace_child api h d (h_put api (child api h d) ds h')"

fun st_get :: "selector_tree \<Rightarrow> nat list \<Rightarrow> selector_tree option" where
  "st_get st [] = Some st"
| "st_get st (d # ds) = do { s \<leftarrow> subtree (d = 0) st; st_get s ds }"

fun st_put :: "selector_tree \<Rightarrow> nat list \<Rightarrow> selector_tree \<Rightarrow> selector_tree" where
  "st_put st [] st' = st'"
| "st_put (Leaf_Node b sw) (d # ds) st' = Leaf_Node b sw"
| "st_put (Inner_Node b sw v l r) (d # ds) st' =
     (if d = 0 then Inner_Node b sw v (st_put l ds st') r else Inner_Node b sw v l (st_put r ds st'))"

text \<open>\<open>getPath\<close> follows the parent pointers, so the literal of the leaf itself comes first.\<close>

fun getPath :: "selector_tree \<Rightarrow> nat list \<Rightarrow> int list" where
  "getPath st [] = []"
| "getPath (Leaf_Node b sw) (d # ds) = []"
| "getPath (Inner_Node b sw v l r) (d # ds) =
     (let c = (if d = 0 then l else r) in getPath c ds @ [if node_left c then v else - v])"

fun getLeaf :: "'h mlpack_tree \<Rightarrow> 'h \<Rightarrow> selector_tree option \<Rightarrow> int list \<Rightarrow> nat list option" where
  "getLeaf api h None point = (if isLeaf api h then Some [] else None)"
| "getLeaf api h (Some (Leaf_Node b sw)) point = (if isLeaf api h then Some [] else None)"
| "getLeaf api h (Some (Inner_Node b sw v l r)) point =
     (if isLeaf api h then Some []
      else let d = calculate_direction api h point
           in map_option (\<lambda>ds. d # ds) (getLeaf api (child api h d) (Some (if d = 0 then l else r)) point))"

section \<open>Selectors and clauses\<close>

definition set_sign :: "bool \<Rightarrow> nat \<Rightarrow> int list \<Rightarrow> int list" where
  "set_sign positive i xs = xs[i := (if positive then \<bar>xs ! i\<bar> else - \<bar>xs ! i\<bar>)]"

definition setSwitches :: "switches \<Rightarrow> nat \<Rightarrow> env \<Rightarrow> env" where
  "setSwitches sw majority e =
     (let p = (majority = 1)
      in e\<lparr>env_assumptions :=
             set_sign (\<not> p) (assumptions_index2 sw) (set_sign p (assumptions_index sw) (env_assumptions e)),
           env_defaults := set_sign (\<not> p) (default_index2 sw) (set_sign p (default_index sw) (env_defaults e))\<rparr>)"

definition disableSwitches :: "switches \<Rightarrow> env \<Rightarrow> env" where
  "disableSwitches sw e =
     e\<lparr>env_assumptions :=
         set_sign False (assumptions_index2 sw) (set_sign False (assumptions_index sw) (env_assumptions e)),
       env_defaults := set_sign False (default_index2 sw) (set_sign False (default_index sw) (env_defaults e))\<rparr>"

definition flip :: "nat \<Rightarrow> int list \<Rightarrow> int list" where
  "flip i xs = xs[i := - (xs ! i)]"

definition toggleSwitches :: "switches \<Rightarrow> env \<Rightarrow> env" where
  "toggleSwitches sw e =
     e\<lparr>env_assumptions := flip (assumptions_index2 sw) (flip (assumptions_index sw) (env_assumptions e)),
       env_defaults := flip (default_index2 sw) (flip (default_index sw) (env_defaults e))\<rparr>"

definition setupClauses :: "int \<Rightarrow> nat \<Rightarrow> switches \<Rightarrow> int list \<Rightarrow> env \<Rightarrow> clause list \<times> env" where
  "setupClauses v majority sw path e =
     (let positive_selector = \<bar>env_defaults e ! default_index sw\<bar>;
          negative_selector = \<bar>env_defaults e ! default_index2 sw\<bar>
      in ([path @ [- positive_selector, v], path @ [- negative_selector, - v]], setSwitches sw majority e))"

text \<open>A leaf of the learner has been split. With an empty base the selector tree starts here.\<close>

definition getClauses ::
  "'h mlpack_tree \<Rightarrow> nat list \<Rightarrow> bool \<Rightarrow> 'h hoeffding \<Rightarrow> env \<Rightarrow> (clause list \<times> 'h hoeffding \<times> env) option" where
  "getClauses api ref empty_base t e =
     do {
       let h = h_get api (htree t) ref;
       split \<leftarrow> getSplitVariable api (tree_dependencies t) h;
       let root = (if empty_base then Leaf_Node False no_switches else the (root_selector_tree t));
       let ref = (if empty_base then [] else ref);
       st \<leftarrow> st_get root ref;
       let e = (if empty_base then e else disableSwitches (node_switches st) e);
       let path = getPath root ref;
       let (st, e) = setChildren st split e;
       l \<leftarrow> subtree True st;
       r \<leftarrow> subtree False st;
       let (cs1, e) = setupClauses (tree_variable t) (majority_class api (child api h 0)) (node_switches l)
             (path @ [split]) e;
       let (cs2, e) = setupClauses (tree_variable t) (majority_class api (child api h 1)) (node_switches r)
             (path @ [- split]) e;
       Some (cs1 @ cs2, t\<lparr>root_selector_tree := Some (st_put root ref st)\<rparr>, e)
     }"

text \<open>The sample as the learner sees it; a missing dependency is read past the end.\<close>

definition sample_point :: "int list \<Rightarrow> int list \<Rightarrow> int list option" where
  "sample_point dependencies counterexample =
     (let reduced = sort_key abs (filter (\<lambda>l. binary_search dependencies \<bar>l\<bar>) counterexample)
      in if length reduced < length dependencies then None
         else Some (map (\<lambda>l. if l > 0 then 1 else 0) (take (length dependencies) reduced)))"

definition tree_insertConflict ::
  "'h mlpack_tree \<Rightarrow> int \<Rightarrow> int list \<Rightarrow> 'h hoeffding \<Rightarrow> env \<Rightarrow>
   (clause list \<times> 'h hoeffding \<times> env) option" where
  "tree_insertConflict api forced_literal counterexample t e =
     do {
       point \<leftarrow> sample_point (tree_dependencies t) counterexample;
       let was_empty = tree_empty api t;
       ref \<leftarrow> getLeaf api (htree t) (root_selector_tree t) point;
       let h = train api point (of_bool (forced_literal > 0)) (h_get api (htree t) ref);
       let t = t\<lparr>total_number_of_samples := total_number_of_samples t + 1,
                 htree := h_put api (htree t) ref h\<rparr>;
       (if \<not> isLeaf api h then getClauses api ref was_empty t e
        else case root_selector_tree t of
               None \<Rightarrow> Some ([], t, e)
             | Some root \<Rightarrow> do { st \<leftarrow> st_get root ref; Some ([], t, toggleSwitches (node_switches st) e) })
     }"

section \<open>The representation\<close>

fun traverseTree :: "int \<Rightarrow> int list \<Rightarrow> selector_tree \<Rightarrow> int list \<Rightarrow> clause list" where
  "traverseTree v ds (Leaf_Node b sw) path = [path @ [if ds ! default_index sw > 0 then v else - v]]"
| "traverseTree v ds (Inner_Node b sw split l r) path =
     traverseTree v ds l (path @ [split]) @ traverseTree v ds r (path @ [- split])"

definition retrieveCompleteRepresentation :: "'h hoeffding \<Rightarrow> env \<Rightarrow> clause list option" where
  "retrieveCompleteRepresentation t e =
     map_option (\<lambda>st. traverseTree (tree_variable t) (env_defaults e) st []) (root_selector_tree t)"

section \<open>Learning from a batch\<close>

text \<open>
  The walk over a tree trained on all samples at once. It recurses on the learner's tree, which
  is abstract here, so that it may not return.
\<close>

partial_function (option) getClausesFromBatchTree ::
  "'h mlpack_tree \<Rightarrow> int \<Rightarrow> int list \<Rightarrow> 'h \<Rightarrow> selector_tree \<Rightarrow> int list \<Rightarrow> env \<Rightarrow>
   (clause list \<times> selector_tree \<times> env) option" where
  "getClausesFromBatchTree api v dependencies h st path e =
     (if isLeaf api h
      then let (cs, e) = setupClauses v (majority_class api h) (node_switches st) path e in Some (cs, st, e)
      else do {
        split \<leftarrow> getSplitVariable api dependencies h;
        let (l, r, e) = setChildren_batch st split (isLeaf api (child api h 0)) (isLeaf api (child api h 1)) e;
        (cs1, l, e) \<leftarrow> getClausesFromBatchTree api v dependencies (child api h 0) l (path @ [split]) e;
        (cs2, r, e) \<leftarrow> getClausesFromBatchTree api v dependencies (child api h 1) r (path @ [- split]) e;
        Some (cs1 @ cs2, Inner_Node (node_left st) (node_switches st) split l r, e)
      })"

declare getClausesFromBatchTree.simps [code]

text \<open>\<open>trained\<close> is the learner after the batch.\<close>

definition tree_insertSamples ::
  "'h mlpack_tree \<Rightarrow> 'h \<Rightarrow> 'h hoeffding \<Rightarrow> env \<Rightarrow> (clause list \<times> 'h hoeffding \<times> env) option" where
  "tree_insertSamples api trained t e =
     (if \<not> tree_empty api t then None
      else if isLeaf api trained then Some ([], t\<lparr>htree := trained\<rparr>, e)
      else do {
        (cs, st, e) \<leftarrow> getClausesFromBatchTree api (tree_variable t) (tree_dependencies t) trained
                        (Leaf_Node False no_switches) [] e;
        Some (cs, t\<lparr>htree := trained, root_selector_tree := Some st\<rparr>, e)
      })"

section \<open>Printing\<close>

definition writeRule :: "int list \<Rightarrow> int \<Rightarrow> string" where
  "writeRule path label =
     concat (map (\<lambda>l. to_string l @ [blank]) (sort_key abs path)) @ ''-> '' @ to_string label @ [newline]"

fun writeTree :: "int \<Rightarrow> int list \<Rightarrow> selector_tree \<Rightarrow> int list \<Rightarrow> string" where
  "writeTree v as (Leaf_Node b sw) path = writeRule path (if as ! assumptions_index sw < 0 then - v else v)"
| "writeTree v as (Inner_Node b sw split l r) path =
     writeTree v as l (path @ [split]) @ writeTree v as r (path @ [- split])"

definition logTree :: "'h hoeffding \<Rightarrow> env \<Rightarrow> string option" where
  "logTree t e =
     map_option (\<lambda>st. ''Tree for: '' @ to_string (tree_variable t) @ [newline] @
       writeTree (tree_variable t) (env_assumptions e) st []) (root_selector_tree t)"

fun addEdgeToVisualisation :: "int \<Rightarrow> int list \<Rightarrow> int \<Rightarrow> selector_tree \<Rightarrow> int \<Rightarrow> int \<Rightarrow> string \<times> int" where
  "addEdgeToVisualisation v as label (Leaf_Node b sw) parent_id id_counter =
     (let child_id = id_counter + 1
      in (to_string parent_id @ '' -> '' @ to_string child_id @ ''[label=\"'' @ to_string label @ ''\"]'' @ [newline] @
          to_string child_id @ ''[label='' @ to_string (if as ! assumptions_index sw < 0 then - v else v) @
          '' shape=plaintext];'' @ [newline], child_id))"
| "addEdgeToVisualisation v as label (Inner_Node b sw split l r) parent_id id_counter =
     (let child_id = id_counter + 1;
          (left, n) = addEdgeToVisualisation v as split l child_id child_id;
          (right, n) = addEdgeToVisualisation v as (- split) r child_id n
      in (to_string parent_id @ '' -> '' @ to_string child_id @ ''[label=\"'' @ to_string label @ ''\"]'' @ [newline] @
          left @ right, n))"

text \<open>The file's text; the root must be an inner node.\<close>

definition visualiseTree :: "'h hoeffding \<Rightarrow> env \<Rightarrow> string option" where
  "visualiseTree t e =
     (case root_selector_tree t of
        Some (Inner_Node b sw split l r) \<Rightarrow>
          let v = tree_variable t; as = env_assumptions e;
              (left, n) = addEdgeToVisualisation v as split l 1 1;
              (right, n) = addEdgeToVisualisation v as (- split) r 1 n
          in Some (''digraph var_'' @ to_string v @ '' {'' @ [newline] @
                   ''node[label=\"\" shape=point];'' @ [newline] @ left @ right @ ''}'')
      | _ \<Rightarrow> None)"

end
