(* ===== verification/DefaultValues.thy ===== *)
theory DefaultValues
  imports HoeffdingTree DependencyContainer Configuration "HOL-Library.AList"
begin

text \<open>
  \<open>src/defaultvaluecontainer.cc\<close>: the default of each undefined existential variable, a constant
  or a Hoeffding tree. A constant is two clauses, one per value, whose selectors have opposite
  signs. The selectors are in the vector of assumptions shared with the Skolem container and in
  the container's own vector \<open>default_selectors\<close>, the two vectors of an \<open>env\<close>. Whether the
  machine-learning build is meant is the argument \<open>ml\<close>; \<open>learner\<close> makes an empty tree for a number
  of features. The code under \<open>SAMPLE\<close> names members that do not exist, so \<open>insertSample\<close> is the
  function without it. \<open>at\<close> on a missing key is \<open>None\<close>.
\<close>

section \<open>State\<close>

record 'h default_container =
  use_ml_trees :: bool
  dv_existentials :: "int list"
  positive_assumptions :: "int \<rightharpoonup> nat"
  negative_assumptions :: "int \<rightharpoonup> nat"
  positive_selectors :: "int \<rightharpoonup> nat"
  negative_selectors :: "int \<rightharpoonup> nat"
  default_trees :: "int \<rightharpoonup> 'h hoeffding"
  variables_with_defaults :: "int set"
  nof_default_clauses :: "(int \<times> int) list"
  nof_insertions :: "int \<rightharpoonup> int"

definition new_DefaultValueContainer :: "bool \<Rightarrow> configuration \<Rightarrow> int list \<Rightarrow> 'h default_container" where
  "new_DefaultValueContainer ml conf existentials =
     \<lparr>use_ml_trees = (ml \<and> def_strat conf = Functions), dv_existentials = existentials,
      positive_assumptions = Map.empty, negative_assumptions = Map.empty, positive_selectors = Map.empty,
      negative_selectors = Map.empty, default_trees = Map.empty, variables_with_defaults = {},
      nof_default_clauses = [], nof_insertions = Map.empty\<rparr>"

definition useDefault :: "'h default_container \<Rightarrow> int \<Rightarrow> bool" where
  "useDefault d v \<longleftrightarrow> v \<in> variables_with_defaults d"

definition treeIsAvailable :: "'h default_container \<Rightarrow> int \<Rightarrow> bool" where
  "treeIsAvailable d v \<longleftrightarrow> default_trees d v \<noteq> None"

definition treeActive :: "'h mlpack_tree \<Rightarrow> 'h default_container \<Rightarrow> int \<Rightarrow> bool" where
  "treeActive api d v = (case default_trees d v of None \<Rightarrow> False | Some t \<Rightarrow> \<not> tree_empty api t)"

definition getSelectors :: "env \<Rightarrow> int list" where
  "getSelectors e = env_defaults e"

section \<open>The constants\<close>

definition newFixedDefaultSelector ::
  "int \<Rightarrow> 'h default_container \<Rightarrow> env \<Rightarrow> int \<times> int \<times> 'h default_container \<times> env" where
  "newFixedDefaultSelector v d e =
     (let a = length (env_assumptions e); s = length (env_defaults e);
          positive = env_last e + 1; negative = env_last e + 2
      in (positive, negative,
          d\<lparr>positive_assumptions := (positive_assumptions d)(v \<mapsto> a),
            negative_assumptions := (negative_assumptions d)(v \<mapsto> a + 1),
            positive_selectors := (positive_selectors d)(v \<mapsto> s),
            negative_selectors := (negative_selectors d)(v \<mapsto> s + 1)\<rparr>,
          e\<lparr>env_last := negative, env_assumptions := env_assumptions e @ [positive, - negative],
            env_defaults := env_defaults e @ [positive, - negative]\<rparr>))"

definition disableFixedDefaults ::
  "int \<Rightarrow> 'h default_container \<Rightarrow> env \<Rightarrow> ('h default_container \<times> env) option" where
  "disableFixedDefaults v d e =
     do {
       pa \<leftarrow> positive_assumptions d v;
       na \<leftarrow> negative_assumptions d v;
       ps \<leftarrow> positive_selectors d v;
       ns \<leftarrow> negative_selectors d v;
       Some (d\<lparr>positive_assumptions := (positive_assumptions d)(v := None),
               negative_assumptions := (negative_assumptions d)(v := None),
               positive_selectors := (positive_selectors d)(v := None),
               negative_selectors := (negative_selectors d)(v := None)\<rparr>,
             e\<lparr>env_assumptions := set_sign False na (set_sign False pa (env_assumptions e)),
               env_defaults := set_sign False ns (set_sign False ps (env_defaults e))\<rparr>)
     }"

definition setFixedDefaultPolarityUnchecked :: "int \<Rightarrow> bool \<Rightarrow> 'h default_container \<Rightarrow> env \<Rightarrow> env option" where
  "setFixedDefaultPolarityUnchecked v polarity d e =
     do {
       pa \<leftarrow> positive_assumptions d v;
       na \<leftarrow> negative_assumptions d v;
       ps \<leftarrow> positive_selectors d v;
       ns \<leftarrow> negative_selectors d v;
       Some (e\<lparr>env_assumptions := set_sign (\<not> polarity) na (set_sign polarity pa (env_assumptions e)),
               env_defaults := set_sign (\<not> polarity) ns (set_sign polarity ps (env_defaults e))\<rparr>)
     }"

definition setFixedDefaultPolarity ::
  "'h mlpack_tree \<Rightarrow> int \<Rightarrow> bool \<Rightarrow> 'h default_container \<Rightarrow> env \<Rightarrow> env option" where
  "setFixedDefaultPolarity api v polarity d e =
     (if useDefault d v \<and> \<not> treeActive api d v then setFixedDefaultPolarityUnchecked v polarity d e else Some e)"

section \<open>Initialisation\<close>

definition init_tree ::
  "(nat \<Rightarrow> 'h) \<Rightarrow> configuration \<Rightarrow> dep_container \<Rightarrow> int \<Rightarrow> 'h default_container \<Rightarrow> 'h default_container option" where
  "init_tree learner conf c v d =
     (let with = (\<lambda>space. d\<lparr>default_trees :=
            emplace (default_trees d) v (new_HoeffdingDefaultTree v space (learner (length space)))\<rparr>)
      in if \<not> use_ml_trees d then Some d
         else if use_existentials_in_tree conf
         then do { extended \<leftarrow> getExtendedDependencies v c; Some (if extended \<noteq> [] then with extended else d) }
         else if hasDependencies v c
         then do { deps \<leftarrow> getDependencies v c; Some (with deps) }
         else Some d)"

definition init_variable ::
  "(nat \<Rightarrow> 'h) \<Rightarrow> configuration \<Rightarrow> dep_container \<Rightarrow> int \<Rightarrow> 'h default_container \<Rightarrow> env \<Rightarrow>
   ((int \<times> clause list) \<times> 'h default_container \<times> env) option" where
  "init_variable learner conf c v d e =
     do {
       d \<leftarrow> init_tree learner conf c v (d\<lparr>variables_with_defaults := insert v (variables_with_defaults d)\<rparr>);
       let (sel1, sel2, d, e) = newFixedDefaultSelector v d e;
       Some ((v, [[- sel1, v], [- sel2, - v]]), d, e)
     }"

fun init_defaults ::
  "(nat \<Rightarrow> 'h) \<Rightarrow> configuration \<Rightarrow> dep_container \<Rightarrow> int list \<Rightarrow> int list \<Rightarrow> 'h default_container \<Rightarrow> env \<Rightarrow>
   ((int \<times> clause list) list \<times> 'h default_container \<times> env) option" where
  "init_defaults learner conf c undefineds [] d e = Some ([], d, e)"
| "init_defaults learner conf c undefineds (v # vs) d e =
     (if isUndefined undefineds v
      then do {
        (r, d, e) \<leftarrow> init_variable learner conf c v d e;
        (rs, d, e) \<leftarrow> init_defaults learner conf c undefineds vs d e;
        Some (r # rs, d, e)
      }
      else init_defaults learner conf c undefineds vs d e)"

definition dv_initialize ::
  "(nat \<Rightarrow> 'h) \<Rightarrow> configuration \<Rightarrow> dep_container \<Rightarrow> int list \<Rightarrow> 'h default_container \<Rightarrow> env \<Rightarrow>
   ((int \<times> clause list) list \<times> 'h default_container \<times> env) option" where
  "dv_initialize learner conf c undefineds d e =
     init_defaults learner conf c undefineds (dv_existentials d) d e"

section \<open>Conflicts\<close>

definition count_default_clauses :: "int \<Rightarrow> (int \<times> int) list \<Rightarrow> (int \<times> int) list" where
  "count_default_clauses v counts =
     (let n = (case map_of counts v of None \<Rightarrow> 0 | Some n \<Rightarrow> n)
      in AList.update v (if n = 0 then 2 else n + 1) counts)"

definition dv_insertConflict ::
  "'h mlpack_tree \<Rightarrow> int \<Rightarrow> int list \<Rightarrow> 'h default_container \<Rightarrow> env \<Rightarrow>
   (clause list \<times> 'h default_container \<times> env) option" where
  "dv_insertConflict api forced_literal sample d e =
     (let v = var forced_literal in
      if \<not> useDefault d v then Some ([], d, e)
      else if \<not> use_ml_trees d \<or> \<not> treeIsAvailable d v
      then do { e \<leftarrow> setFixedDefaultPolarityUnchecked v (forced_literal > 0) d e; Some ([], d, e) }
      else do {
        t \<leftarrow> default_trees d v;
        let was_empty = tree_empty api t;
        e \<leftarrow> (if was_empty then setFixedDefaultPolarityUnchecked v (forced_literal > 0) d e else Some e);
        let n = (case nof_insertions d v of None \<Rightarrow> 0 | Some n \<Rightarrow> n);
        (clauses, t, e) \<leftarrow> tree_insertConflict api forced_literal sample t e;
        let d = d\<lparr>nof_insertions := (nof_insertions d)(v \<mapsto> n + 1), default_trees := (default_trees d)(v \<mapsto> t)\<rparr>;
        (if was_empty \<and> clauses \<noteq> []
         then do {
           (d, e) \<leftarrow> disableFixedDefaults v d e;
           Some (clauses, d\<lparr>nof_default_clauses := count_default_clauses v (nof_default_clauses d)\<rparr>, e)
         }
         else Some (clauses, d, e))
      })"

definition dv_insertSample :: "cnf \<Rightarrow> int list \<Rightarrow> clause list list" where
  "dv_insertSample matrix variables_to_sample = []"

section \<open>The certificate\<close>

definition variable_certificate :: "'h mlpack_tree \<Rightarrow> 'h default_container \<Rightarrow> env \<Rightarrow> int \<Rightarrow> clause list option" where
  "variable_certificate api d e v =
     (if treeActive api d v
      then do { t \<leftarrow> default_trees d v; retrieveCompleteRepresentation t e }
      else do {
        i \<leftarrow> positive_selectors d v;
        Some [[if env_defaults e ! i > 0 then v else - v]]
      })"

fun certificate_loop ::
  "'h mlpack_tree \<Rightarrow> 'h default_container \<Rightarrow> env \<Rightarrow> int list \<Rightarrow> (int \<rightharpoonup> clause list) \<Rightarrow> (int \<rightharpoonup> clause list) option" where
  "certificate_loop api d e [] m = Some m"
| "certificate_loop api d e (v # vs) m =
     (if \<not> useDefault d v then certificate_loop api d e vs m
      else do { cs \<leftarrow> variable_certificate api d e v; certificate_loop api d e vs (m(v \<mapsto> cs)) })"

definition getCertificate :: "'h mlpack_tree \<Rightarrow> 'h default_container \<Rightarrow> env \<Rightarrow> (int \<rightharpoonup> clause list) option" where
  "getCertificate api d e = certificate_loop api d e (dv_existentials d) Map.empty"

section \<open>Statistics\<close>

text \<open>The second component of the code's result, a map it never fills, is left out.\<close>

definition getStatistic :: "'h default_container \<Rightarrow> int \<times> int" where
  "getStatistic d = (sum_list (map snd (nof_default_clauses d)), 0)"

definition default_tree_log :: "'h default_container \<Rightarrow> int list \<Rightarrow> string" where
  "default_tree_log d inserted =
     ''Var, nof insertions, learnt clauses'' @ [newline] @
     concat (map (\<lambda>v. to_string v @ '','' @
         to_string (case nof_insertions d v of None \<Rightarrow> 0 | Some n \<Rightarrow> n) @ '','' @
         to_string (case map_of (nof_default_clauses d) v of None \<Rightarrow> 0 | Some n \<Rightarrow> n) @ [newline]) (sort inserted))"

end
