(* ===== verification/HoeffdingTree_Correct.thy ===== *)
theory HoeffdingTree_Correct
  imports HoeffdingTree
begin

text \<open>
  The clauses that \<open>insertConflict\<close> of \<open>src/hoeffdingDefaultTree.cc\<close> has returned so far, read under
  the selectors as they are now, say the same as the representation the certificate is made
  from: that the variable has the value of the leaf the assignment reaches. Between two
  insertions other components may add selectors and change their own; a tree's selectors are
  the ones in its clauses.
\<close>

section \<open>The learner\<close>

text \<open>
  What mlpack documents of a tree over binary features; \<open>dimensions\<close> is the number of features
  a tree was made for.
\<close>

definition mlpack_documented :: "'h mlpack_tree \<Rightarrow> ('h \<Rightarrow> nat) \<Rightarrow> bool" where
  "mlpack_documented api dimensions \<longleftrightarrow>
     (\<forall>h. num_children api h = 0 \<or> num_children api h = 2) \<and>
     (\<forall>h i h'. i < num_children api h \<longrightarrow>
        num_children api (replace_child api h i h') = num_children api h \<and>
        split_dimension api (replace_child api h i h') = split_dimension api h \<and>
        (\<forall>j. child api (replace_child api h i h') j = (if j = i then h' else child api h j))) \<and>
     (\<forall>h p. num_children api h = 2 \<longrightarrow> calculate_direction api h p < 2) \<and>
     (\<forall>h p c. num_children api h = 0 \<and> num_children api (train api p c h) = 0 \<longrightarrow>
        dimensions (train api p c h) = dimensions h) \<and>
     (\<forall>h p c i. num_children api h = 0 \<and> num_children api (train api p c h) = 2 \<and> i < 2 \<longrightarrow>
        0 \<le> split_dimension api (train api p c h) \<and>
        split_dimension api (train api p c h) < int (dimensions h) \<and>
        num_children api (child api (train api p c h) i) = 0 \<and>
        dimensions (child api (train api p c h) i) = dimensions h)"

lemma mlpack_documentedD:
  assumes "mlpack_documented api dimensions"
  shows "num_children api h = 0 \<or> num_children api h = 2"
    and "i < num_children api h \<Longrightarrow> num_children api (replace_child api h i h') = num_children api h"
    and "i < num_children api h \<Longrightarrow> split_dimension api (replace_child api h i h') = split_dimension api h"
    and "i < num_children api h \<Longrightarrow>
      child api (replace_child api h i h') j = (if j = i then h' else child api h j)"
    and "num_children api h = 2 \<Longrightarrow> calculate_direction api h p < 2"
    and "num_children api h = 0 \<Longrightarrow> num_children api (train api p c h) = 2 \<Longrightarrow> i < 2 \<Longrightarrow>
      0 \<le> split_dimension api (train api p c h) \<and> split_dimension api (train api p c h) < int (dimensions h) \<and>
      num_children api (child api (train api p c h) i) = 0 \<and>
      dimensions (child api (train api p c h) i) = dimensions h"
    and "num_children api h = 0 \<Longrightarrow> num_children api (train api p c h) = 0 \<Longrightarrow>
      dimensions (train api p c h) = dimensions h"
  using assms unfolding mlpack_documented_def by blast+

text \<open>The selector tree has the shape of the learner's tree.\<close>

fun mirrors :: "'h mlpack_tree \<Rightarrow> ('h \<Rightarrow> nat) \<Rightarrow> int list \<Rightarrow> 'h \<Rightarrow> selector_tree \<Rightarrow> bool" where
  "mirrors api dimensions deps h (Leaf_Node b sw) \<longleftrightarrow> num_children api h = 0 \<and> dimensions h = length deps"
| "mirrors api dimensions deps h (Inner_Node b sw v l r) \<longleftrightarrow>
     num_children api h = 2 \<and> getSplitVariable api deps h = Some v \<and> v \<in> set deps \<and>
     node_left l \<and> \<not> node_left r \<and> mirrors api dimensions deps (child api h 0) l \<and> mirrors api dimensions deps (child api h 1) r"

fun leaf_paths :: "selector_tree \<Rightarrow> int list \<Rightarrow> (int list \<times> switches) list" where
  "leaf_paths (Leaf_Node b sw) path = [(path, sw)]"
| "leaf_paths (Inner_Node b sw v l r) path = leaf_paths l (path @ [v]) @ leaf_paths r (path @ [- v])"

lemma traverseTree_leaf_paths:
  "traverseTree v ds st path =
     map (\<lambda>(p, sw). p @ [if ds ! default_index sw > 0 then v else - v]) (leaf_paths st path)"
  by (induction st arbitrary: path) auto

text \<open>What a descent to a leaf finds, and what replacing that leaf does.\<close>

definition replaceable ::
  "'h mlpack_tree \<Rightarrow> ('h \<Rightarrow> nat) \<Rightarrow> int list \<Rightarrow> 'h \<Rightarrow> selector_tree \<Rightarrow> nat list \<Rightarrow> bool \<Rightarrow> bool" where
  "replaceable api dimensions deps h st ref b \<longleftrightarrow>
     (\<forall>st' h'. mirrors api dimensions deps h' st' \<and> node_left st' = b \<longrightarrow>
        mirrors api dimensions deps (h_put api h ref h') (st_put st ref st') \<and> node_left (st_put st ref st') = node_left st)"

definition leaf_at ::
  "selector_tree \<Rightarrow> nat list \<Rightarrow> int list \<Rightarrow> bool \<Rightarrow> switches \<Rightarrow> int list \<Rightarrow>
   (int list \<times> switches) list \<Rightarrow> (int list \<times> switches) list \<Rightarrow> bool" where
  "leaf_at st ref path b sw q L1 L2 \<longleftrightarrow>
     st_get st ref = Some (Leaf_Node b sw) \<and> set q = set (getPath st ref) \<and>
     leaf_paths st path = L1 @ (path @ q, sw) # L2 \<and>
     (\<forall>st'. leaf_paths (st_put st ref st') path = L1 @ leaf_paths st' (path @ q) @ L2)"

lemma leaf_at_left:
  "leaf_at l ds (path @ [v]) b sw q L1 L2 \<Longrightarrow> node_left l \<Longrightarrow>
   leaf_at (Inner_Node b' sw' v l r) (0 # ds) path b sw (v # q) L1 (L2 @ leaf_paths r (path @ [- v]))"
  by (simp add: leaf_at_def)

lemma leaf_at_right:
  "leaf_at r ds (path @ [- v]) b sw q L1 L2 \<Longrightarrow> \<not> node_left r \<Longrightarrow>
   leaf_at (Inner_Node b' sw' v l r) (1 # ds) path b sw (- v # q) (leaf_paths l (path @ [v]) @ L1) L2"
  by (simp add: leaf_at_def)

lemma replaceable_node:
  assumes doc: "mlpack_documented api dimensions" and m: "mirrors api dimensions deps h (Inner_Node b' sw' v l r)"
    and d: "d < 2" and r: "replaceable api dimensions deps (child api h d) (if d = 0 then l else r) ds b"
  shows "replaceable api dimensions deps h (Inner_Node b' sw' v l r) (d # ds) b"
proof -
  have two: "num_children api h = 2" using m by simp
  note docs = mlpack_documentedD(2-4) [OF doc]
  have split: "d < 2 \<Longrightarrow> getSplitVariable api deps (replace_child api h d x) = getSplitVariable api deps h" for d x
    by (simp add: getSplitVariable_def docs(2) two)
  from d have "d = 0 \<or> d = 1" by linarith
  then show ?thesis
    using m r unfolding replaceable_def
    by (elim disjE; intro allI impI; elim conjE) (simp_all add: docs split two)
qed

lemma getLeaf_spec:
  assumes doc: "mlpack_documented api dimensions"
  shows "mirrors api dimensions deps h st \<Longrightarrow> getLeaf api h (Some st) point = Some ref \<Longrightarrow>
    num_children api (h_get api h ref) = 0 \<and> dimensions (h_get api h ref) = length deps \<and>
    (\<exists>b sw q L1 L2. leaf_at st ref path b sw q L1 L2 \<and> replaceable api dimensions deps h st ref b)"
proof (induction st arbitrary: h ref path)
  case (Leaf_Node b sw)
  then have "ref = []" by (auto simp: isLeaf_def)
  with Leaf_Node have "leaf_at (Leaf_Node b sw) ref path b sw [] [] [] \<and> replaceable api dimensions deps h (Leaf_Node b sw) ref b"
    by (simp add: leaf_at_def replaceable_def)
  moreover have "num_children api (h_get api h ref) = 0 \<and> dimensions (h_get api h ref) = length deps" using Leaf_Node \<open>ref = []\<close> by simp
  ultimately show ?case by blast
next
  case (Inner_Node b sw v l r)
  have two: "num_children api h = 2" and left: "node_left l" "\<not> node_left r"
    and m: "mirrors api dimensions deps (child api h 0) l" "mirrors api dimensions deps (child api h 1) r"
    using Inner_Node.prems(1) by simp_all
  define d where "d = calculate_direction api h point"
  have d: "d < 2" using mlpack_documentedD(5) [OF doc two] by (simp add: d_def)
  obtain ds where ref: "ref = d # ds"
    and ds: "getLeaf api (child api h d) (Some (if d = 0 then l else r)) point = Some ds"
    using Inner_Node.prems(2) two by (auto simp: isLeaf_def d_def [symmetric] Let_def)
  note node = replaceable_node [OF doc Inner_Node.prems(1) d]
  from d consider "d = 0" | "d = 1" by linarith
  then show ?case
  proof cases
    case 1
    with Inner_Node.IH(1) [OF m(1), of ds "path @ [v]"] ds obtain b' sw' q L1 L2 where
      "num_children api (h_get api (child api h 0) ds) = 0 \<and> dimensions (h_get api (child api h 0) ds) = length deps" "leaf_at l ds (path @ [v]) b' sw' q L1 L2"
      "replaceable api dimensions deps (child api h 0) l ds b'" by auto
    with leaf_at_left [OF this(2) left(1)] node [of ds b'] 1 show ?thesis unfolding ref h_get.simps
      by (intro conjI exI) simp_all
  next
    case 2
    with Inner_Node.IH(2) [OF m(2), of ds "path @ [- v]"] ds obtain b' sw' q L1 L2 where
      "num_children api (h_get api (child api h 1) ds) = 0 \<and> dimensions (h_get api (child api h 1) ds) = length deps" "leaf_at r ds (path @ [- v]) b' sw' q L1 L2"
      "replaceable api dimensions deps (child api h 1) r ds b'" by auto
    with leaf_at_right [OF this(2) left(2)] node [of ds b'] 2 show ?thesis unfolding ref h_get.simps
      by (intro conjI exI) simp_all
  qed
qed

section \<open>Clauses and selectors\<close>

definition selectors_of :: "clause list \<Rightarrow> int set" where
  "selectors_of C = (\<lambda>c. \<bar>c ! (length c - 2)\<bar>) ` set C"

definition assumption_indices :: "(int list \<times> switches) list \<Rightarrow> nat list" where
  "assumption_indices L = concat (map (\<lambda>(p, sw). [assumptions_index sw, assumptions_index2 sw]) L)"

definition default_indices :: "(int list \<times> switches) list \<Rightarrow> nat list" where
  "default_indices L = concat (map (\<lambda>(p, sw). [default_index sw, default_index2 sw]) L)"

definition leaf_ok :: "int set \<Rightarrow> int list \<Rightarrow> int list \<Rightarrow> switches \<Rightarrow> bool" where
  "leaf_ok S A D sw \<longleftrightarrow>
     assumptions_index sw < length A \<and> assumptions_index2 sw < length A \<and>
     default_index sw < length D \<and> default_index2 sw < length D \<and>
     A ! assumptions_index sw = D ! default_index sw \<and> A ! assumptions_index2 sw = D ! default_index2 sw \<and>
     D ! default_index sw \<noteq> 0 \<and> D ! default_index2 sw \<noteq> 0 \<and>
     (D ! default_index sw > 0 \<longleftrightarrow> D ! default_index2 sw < 0) \<and>
     \<bar>D ! default_index sw\<bar> \<in> S \<and> \<bar>D ! default_index2 sw\<bar> \<in> S"

definition live :: "int \<Rightarrow> int list \<Rightarrow> int list \<times> switches \<Rightarrow> clause \<Rightarrow> bool" where
  "live v D leaf c \<longleftrightarrow>
     (\<exists>q. set q = set (fst leaf) \<and>
        (c = q @ [- \<bar>D ! default_index (snd leaf)\<bar>, v] \<or> c = q @ [- \<bar>D ! default_index2 (snd leaf)\<bar>, - v]))"

definition dead :: "int list \<Rightarrow> int list \<Rightarrow> nat list \<Rightarrow> nat list \<Rightarrow> clause \<Rightarrow> bool" where
  "dead A D I J c \<longleftrightarrow>
     (\<exists>q s l. c = q @ [- s, l] \<and> s > 0 \<and> (\<exists>i<length A. i \<notin> set I \<and> A ! i = - s) \<and>
        (\<exists>i<length D. i \<notin> set J \<and> D ! i = - s))"

definition both_clauses :: "int \<Rightarrow> int list \<Rightarrow> clause list \<Rightarrow> int list \<times> switches \<Rightarrow> bool" where
  "both_clauses v D C leaf \<longleftrightarrow>
     (\<exists>q. set q = set (fst leaf) \<and> q @ [- \<bar>D ! default_index (snd leaf)\<bar>, v] \<in> set C) \<and>
     (\<exists>q. set q = set (fst leaf) \<and> q @ [- \<bar>D ! default_index2 (snd leaf)\<bar>, - v] \<in> set C)"

definition clause_inv :: "int \<Rightarrow> clause list \<Rightarrow> (int list \<times> switches) list \<Rightarrow> int list \<Rightarrow> int list \<Rightarrow> bool" where
  "clause_inv v C L A D \<longleftrightarrow>
     distinct (assumption_indices L) \<and> distinct (default_indices L) \<and>
     (\<forall>leaf\<in>set L. leaf_ok (selectors_of C) A D (snd leaf) \<and> both_clauses v D C leaf) \<and>
     (\<forall>c\<in>set C. (\<exists>leaf\<in>set L. live v D leaf c) \<or> dead A D (assumption_indices L) (default_indices L) c)"

lemma indices_simps [simp]:
  "assumption_indices [] = []" "default_indices [] = []"
  "assumption_indices ((p, sw) # L) = assumptions_index sw # assumptions_index2 sw # assumption_indices L"
  "default_indices ((p, sw) # L) = default_index sw # default_index2 sw # default_indices L"
  "assumption_indices (L @ L') = assumption_indices L @ assumption_indices L'"
  "default_indices (L @ L') = default_indices L @ default_indices L'"
  by (simp_all add: assumption_indices_def default_indices_def)

lemma leaf_indices:
  "leaf \<in> set L \<Longrightarrow> assumptions_index (snd leaf) \<in> set (assumption_indices L) \<and>
     assumptions_index2 (snd leaf) \<in> set (assumption_indices L) \<and>
     default_index (snd leaf) \<in> set (default_indices L) \<and> default_index2 (snd leaf) \<in> set (default_indices L)"
  by (induction L) auto

text \<open>What the clauses say under selectors as in either vector.\<close>

definition leaf_label :: "int \<Rightarrow> int list \<Rightarrow> int list \<times> switches \<Rightarrow> clause" where
  "leaf_label v D = (\<lambda>(p, sw). p @ [if D ! default_index sw > 0 then v else - v])"

lemma lit_true_entry:
  assumes "list_all (lit_true \<gamma>) A" "i < length A" "A ! i \<noteq> 0"
  shows "\<gamma> \<bar>A ! i\<bar> \<longleftrightarrow> A ! i > 0"
proof -
  have "lit_true \<gamma> (A ! i)" using assms(1,2) by (simp add: list_all_length)
  with assms(3) show ?thesis by (cases "A ! i > 0") (auto simp: lit_true_def)
qed

lemma clause_inv_equivalent:
  assumes inv: "clause_inv v C L A D" and true: "list_all (lit_true \<gamma>) A \<or> list_all (lit_true \<gamma>) D"
  shows "cnf_sat \<gamma> C \<longleftrightarrow> cnf_sat \<gamma> (map (leaf_label v D) L)"
proof -
  have sign: "\<gamma> \<bar>D ! default_index (snd leaf)\<bar> = (D ! default_index (snd leaf) > 0) \<and>
      \<gamma> \<bar>D ! default_index2 (snd leaf)\<bar> = (\<not> D ! default_index (snd leaf) > 0) \<and>
      D ! default_index (snd leaf) \<noteq> 0 \<and> D ! default_index2 (snd leaf) \<noteq> 0" if "leaf \<in> set L" for leaf
  proof -
    have ok: "leaf_ok (selectors_of C) A D (snd leaf)" using inv that by (auto simp: clause_inv_def)
    from true show ?thesis
    proof
      assume A: "list_all (lit_true \<gamma>) A"
      show ?thesis
        using lit_true_entry [OF A, of "assumptions_index (snd leaf)"]
          lit_true_entry [OF A, of "assumptions_index2 (snd leaf)"] ok
        by (auto simp: leaf_ok_def)
    next
      assume D: "list_all (lit_true \<gamma>) D"
      show ?thesis
        using lit_true_entry [OF D, of "default_index (snd leaf)"]
          lit_true_entry [OF D, of "default_index2 (snd leaf)"] ok
        by (auto simp: leaf_ok_def)
    qed
  qed
  have sat: "clause_sat \<gamma> (q @ [- \<bar>x\<bar>, l]) \<longleftrightarrow> clause_sat \<gamma> q \<or> \<not> \<gamma> \<bar>x\<bar> \<or> lit_true \<gamma> l" if "x \<noteq> 0" for q x l
    using that by (auto simp: lit_true_def)
  have set_sat: "clause_sat \<gamma> q = clause_sat \<gamma> p" if "set q = set p" for p q
    using that by (simp add: clause_sat_iff)
  have label: "clause_sat \<gamma> (leaf_label v D leaf) \<longleftrightarrow>
      clause_sat \<gamma> (fst leaf) \<or> lit_true \<gamma> (if D ! default_index (snd leaf) > 0 then v else - v)" for leaf
    by (simp add: leaf_label_def split: prod.splits)
  have live: "clause_sat \<gamma> c"
    if leaf: "leaf \<in> set L" "live v D leaf c" and label_sat: "clause_sat \<gamma> (leaf_label v D leaf)" for leaf c
  proof -
    obtain q where q: "set q = set (fst leaf)"
        "c = q @ [- \<bar>D ! default_index (snd leaf)\<bar>, v] \<or> c = q @ [- \<bar>D ! default_index2 (snd leaf)\<bar>, - v]"
      using leaf(2) by (auto simp: live_def)
    note sign = sign [OF leaf(1)]
    from q(2) show ?thesis
    proof
      assume c: "c = q @ [- \<bar>D ! default_index (snd leaf)\<bar>, v]"
      show ?thesis using label_sat sign unfolding c by (simp add: sat label set_sat [OF q(1)] split: if_splits)
    next
      assume c: "c = q @ [- \<bar>D ! default_index2 (snd leaf)\<bar>, - v]"
      show ?thesis using label_sat sign unfolding c by (simp add: sat label set_sat [OF q(1)] split: if_splits)
    qed
  qed
  have dead: "clause_sat \<gamma> c" if d: "dead A D I J c" for I J c
  proof -
    obtain q s l i j where c: "c = q @ [- s, l]" "s > 0" "i < length A" "A ! i = - s" "j < length D" "D ! j = - s"
      using d unfolding dead_def by blast
    have "\<not> \<gamma> s" using true
    proof
      assume "list_all (lit_true \<gamma>) A"
      from lit_true_entry [OF this c(3)] show ?thesis using c(2,4) by simp
    next
      assume "list_all (lit_true \<gamma>) D"
      from lit_true_entry [OF this c(5)] show ?thesis using c(2,6) by simp
    qed
    with c(1,2) show ?thesis by simp
  qed
  have all: "clause_sat \<gamma> (leaf_label v D leaf)" if C: "cnf_sat \<gamma> C" and leaf: "leaf \<in> set L" for leaf
  proof -
    from inv leaf have "both_clauses v D C leaf" by (auto simp: clause_inv_def)
    then obtain q q' where q: "set q = set (fst leaf)" "clause_sat \<gamma> (q @ [- \<bar>D ! default_index (snd leaf)\<bar>, v])"
        "set q' = set (fst leaf)" "clause_sat \<gamma> (q' @ [- \<bar>D ! default_index2 (snd leaf)\<bar>, - v])"
      using C unfolding both_clauses_def cnf_sat_iff by blast
    show ?thesis
      using q(2,4) sign [OF leaf]
      by (auto simp: sat label set_sat [OF q(1)] set_sat [OF q(3)])
  qed
  show ?thesis
  proof
    assume "cnf_sat \<gamma> C"
    with all show "cnf_sat \<gamma> (map (leaf_label v D) L)" by (auto simp: cnf_sat_iff)
  next
    assume L: "cnf_sat \<gamma> (map (leaf_label v D) L)"
    have "clause_sat \<gamma> c" if "c \<in> set C" for c
    proof (cases "\<exists>leaf\<in>set L. live v D leaf c")
      case True
      then show ?thesis using L live by (auto simp: cnf_sat_iff)
    next
      case False
      with inv that have "dead A D (assumption_indices L) (default_indices L) c" by (auto simp: clause_inv_def)
      then show ?thesis by (rule dead)
    qed
    then show "cnf_sat \<gamma> C" by (simp add: cnf_sat_iff)
  qed
qed

section \<open>The steps on the clauses\<close>

definition agree_on :: "nat set \<Rightarrow> int list \<Rightarrow> int list \<Rightarrow> bool" where
  "agree_on I xs ys \<longleftrightarrow> length xs \<le> length ys \<and> (\<forall>i\<in>I. i < length xs \<longrightarrow> ys ! i = xs ! i)"

definition sw_assumptions :: "switches \<Rightarrow> nat set" where
  "sw_assumptions sw = {assumptions_index sw, assumptions_index2 sw}"

definition sw_defaults :: "switches \<Rightarrow> nat set" where
  "sw_defaults sw = {default_index sw, default_index2 sw}"

lemma leaf_ok_keep:
  assumes "leaf_ok S A D sw" "S \<subseteq> S'" "agree_on (sw_assumptions sw) A A'" "agree_on (sw_defaults sw) D D'"
  shows "leaf_ok S' A' D' sw"
  using assms unfolding leaf_ok_def agree_on_def sw_assumptions_def sw_defaults_def by auto

lemma live_keep:
  assumes "leaf_ok S A D (snd leaf)" "agree_on (sw_defaults (snd leaf)) D D'"
  shows "live v D' leaf c = live v D leaf c" "both_clauses v D' C leaf = both_clauses v D C leaf"
  using assms unfolding leaf_ok_def agree_on_def sw_defaults_def live_def both_clauses_def by auto

lemma both_clauses_mono: "both_clauses v D C leaf \<Longrightarrow> set C \<subseteq> set C' \<Longrightarrow> both_clauses v D C' leaf"
  unfolding both_clauses_def by blast

lemma dead_keep:
  assumes "dead A D I J c" "agree_on (- set I) A A'" "agree_on (- set J) D D'"
    and "\<And>i. i \<in> set I' \<Longrightarrow> i < length A \<Longrightarrow> i \<in> set I"
    and "\<And>i. i \<in> set J' \<Longrightarrow> i < length D \<Longrightarrow> i \<in> set J"
  shows "dead A' D' I' J' c"
proof -
  obtain q s l i j where 1: "c = q @ [- s, l]" "s > 0" "i < length A" "i \<notin> set I" "A ! i = - s"
      "j < length D" "j \<notin> set J" "D ! j = - s"
    using assms(1) unfolding dead_def by blast
  have "i < length A'" "A' ! i = - s" "j < length D'" "D' ! j = - s" "i \<notin> set I'" "j \<notin> set J'"
    using 1 assms(2-5) by (auto simp: agree_on_def)
  with 1(1,2) show ?thesis unfolding dead_def by blast
qed

lemma clause_invD:
  assumes "clause_inv v C L A D"
  shows "distinct (assumption_indices L)" "distinct (default_indices L)"
    and "leaf \<in> set L \<Longrightarrow> leaf_ok (selectors_of C) A D (snd leaf)"
    and "leaf \<in> set L \<Longrightarrow> both_clauses v D C leaf"
    and "c \<in> set C \<Longrightarrow> (\<exists>leaf\<in>set L. live v D leaf c) \<or> dead A D (assumption_indices L) (default_indices L) c"
  using assms unfolding clause_inv_def by blast+

lemma sw_indices:
  "leaf \<in> set L \<Longrightarrow> sw_assumptions (snd leaf) \<subseteq> set (assumption_indices L)"
  "leaf \<in> set L \<Longrightarrow> sw_defaults (snd leaf) \<subseteq> set (default_indices L)"
  using leaf_indices [of leaf L] by (auto simp: sw_assumptions_def sw_defaults_def)

text \<open>Others leave the entries of the tree's selectors alone.\<close>

definition others_keep :: "int set \<Rightarrow> int list \<Rightarrow> int list \<Rightarrow> bool" where
  "others_keep S xs ys \<longleftrightarrow> agree_on {i. i < length xs \<and> \<bar>xs ! i\<bar> \<in> S} xs ys"

lemma dead_selector: "q @ [- s, l] \<in> set C \<Longrightarrow> s > 0 \<Longrightarrow> s \<in> selectors_of C"
  unfolding selectors_of_def by (force simp: nth_append)

lemma clause_inv_others:
  assumes inv: "clause_inv v C L A D"
    and A: "others_keep (selectors_of C) A A'" and D: "others_keep (selectors_of C) D D'"
  shows "clause_inv v C L A' D'"
proof -
  have agree: "agree_on (sw_assumptions (snd leaf)) A A' \<and> agree_on (sw_defaults (snd leaf)) D D'"
    if "leaf \<in> set L" for leaf
    using clause_invD(3) [OF inv that] A D
    unfolding leaf_ok_def agree_on_def others_keep_def sw_assumptions_def sw_defaults_def by auto
  have ok: "leaf_ok (selectors_of C) A' D' (snd leaf)" if "leaf \<in> set L" for leaf
    using leaf_ok_keep [OF clause_invD(3) [OF inv that] order_refl] agree [OF that] by blast
  have live: "live v D' leaf c = live v D leaf c" "both_clauses v D' C leaf = both_clauses v D C leaf"
    if "leaf \<in> set L" for leaf c
    using live_keep [OF clause_invD(3) [OF inv that]] agree [OF that] by blast+
  have dead: "dead A' D' (assumption_indices L) (default_indices L) c"
    if d: "dead A D (assumption_indices L) (default_indices L) c" and c: "c \<in> set C" for c
  proof -
    obtain q s l i j where 1: "c = q @ [- s, l]" "s > 0" "i < length A" "i \<notin> set (assumption_indices L)"
        "A ! i = - s" "j < length D" "j \<notin> set (default_indices L)" "D ! j = - s"
      using d unfolding dead_def by blast
    have "s \<in> selectors_of C" using dead_selector c 1(1,2) by simp
    then have "i < length A'" "A' ! i = - s" "j < length D'" "D' ! j = - s"
      using 1 A D by (auto simp: others_keep_def agree_on_def)
    with 1 show ?thesis unfolding dead_def by blast
  qed
  show ?thesis
    unfolding clause_inv_def
    using clause_invD [OF inv] ok live dead by metis
qed

text \<open>A leaf whose switches are both off no longer counts.\<close>

lemma clause_inv_drop:
  assumes inv: "clause_inv v C (L1 @ (p, sw) # L2) A D"
  shows "clause_inv v C (L1 @ L2)
    (set_sign False (assumptions_index2 sw) (set_sign False (assumptions_index sw) A))
    (set_sign False (default_index2 sw) (set_sign False (default_index sw) D))"
    (is "clause_inv v C ?L ?A ?D")
proof -
  let ?M = "L1 @ (p, sw) # L2"
  have leaf: "(p, sw) \<in> set ?M" by simp
  note ok0 = clause_invD(3) [OF inv leaf, simplified]
  have distinct: "sw_assumptions sw \<inter> set (assumption_indices ?L) = {}"
      "sw_defaults sw \<inter> set (default_indices ?L) = {}"
    using clause_invD(1,2) [OF inv] by (auto simp: sw_assumptions_def sw_defaults_def)
  have differ: "assumptions_index sw \<noteq> assumptions_index2 sw" "default_index sw \<noteq> default_index2 sw"
    using clause_invD(1,2) [OF inv] by simp_all
  have agree: "agree_on (- sw_assumptions sw) A ?A" "agree_on (- sw_defaults sw) D ?D"
    by (simp_all add: agree_on_def set_sign_def sw_assumptions_def sw_defaults_def)
  have agree_leaf: "agree_on (sw_assumptions (snd leaf)) A ?A \<and> agree_on (sw_defaults (snd leaf)) D ?D"
    if "leaf \<in> set ?L" for leaf
    using sw_indices [OF that] distinct agree unfolding agree_on_def by blast
  have L0: "leaf \<in> set ?L \<Longrightarrow> leaf \<in> set ?M" for leaf by auto
  have ok: "leaf_ok (selectors_of C) ?A ?D (snd leaf)" if "leaf \<in> set ?L" for leaf
    using leaf_ok_keep [OF clause_invD(3) [OF inv L0 [OF that]] order_refl] agree_leaf [OF that] by blast
  have live: "live v ?D leaf c = live v D leaf c" "both_clauses v ?D C leaf = both_clauses v D C leaf"
    if "leaf \<in> set ?L" for leaf c
    using live_keep [OF clause_invD(3) [OF inv L0 [OF that]]] agree_leaf [OF that] by blast+
  have entries: "?A ! assumptions_index sw = - \<bar>D ! default_index sw\<bar>"
      "?A ! assumptions_index2 sw = - \<bar>D ! default_index2 sw\<bar>"
      "?D ! default_index sw = - \<bar>D ! default_index sw\<bar>" "?D ! default_index2 sw = - \<bar>D ! default_index2 sw\<bar>"
    using ok0 differ by (simp_all add: leaf_ok_def set_sign_def)
  have gone: "dead ?A ?D (assumption_indices ?L) (default_indices ?L) c" if lv: "live v D (p, sw) c" for c
  proof -
    obtain q where "c = q @ [- \<bar>D ! default_index sw\<bar>, v] \<or> c = q @ [- \<bar>D ! default_index2 sw\<bar>, - v]"
      using lv by (auto simp: live_def)
    then show ?thesis
    proof
      assume c: "c = q @ [- \<bar>D ! default_index sw\<bar>, v]"
      show ?thesis unfolding dead_def c
        by (rule exI [of _ q], rule exI [of _ "\<bar>D ! default_index sw\<bar>"], rule exI [of _ v], intro conjI,
            simp, use ok0 in \<open>simp add: leaf_ok_def\<close>,
            rule exI [of _ "assumptions_index sw"], use ok0 distinct entries in \<open>simp add: leaf_ok_def sw_assumptions_def set_sign_def\<close>,
            rule exI [of _ "default_index sw"], use ok0 distinct entries in \<open>simp add: leaf_ok_def sw_defaults_def set_sign_def\<close>)
    next
      assume c: "c = q @ [- \<bar>D ! default_index2 sw\<bar>, - v]"
      show ?thesis unfolding dead_def c
        by (rule exI [of _ q], rule exI [of _ "\<bar>D ! default_index2 sw\<bar>"], rule exI [of _ "- v"], intro conjI,
            simp, use ok0 in \<open>simp add: leaf_ok_def\<close>,
            rule exI [of _ "assumptions_index2 sw"], use ok0 distinct entries in \<open>simp add: leaf_ok_def sw_assumptions_def set_sign_def\<close>,
            rule exI [of _ "default_index2 sw"], use ok0 distinct entries in \<open>simp add: leaf_ok_def sw_defaults_def set_sign_def\<close>)
    qed
  qed
  have dead: "dead ?A ?D (assumption_indices ?L) (default_indices ?L) c"
    if "dead A D (assumption_indices ?M) (default_indices ?M) c" for c
  proof (rule dead_keep [OF that])
    show "agree_on (- set (assumption_indices ?M)) A ?A"
      using agree(1) by (auto simp: agree_on_def sw_assumptions_def)
    show "agree_on (- set (default_indices ?M)) D ?D"
      using agree(2) by (auto simp: agree_on_def sw_defaults_def)
  qed auto
  have "(\<exists>leaf\<in>set ?L. live v ?D leaf c) \<or> dead ?A ?D (assumption_indices ?L) (default_indices ?L) c"
    if c: "c \<in> set C" for c
    using clause_invD(5) [OF inv c]
  proof
    assume "\<exists>leaf\<in>set ?M. live v D leaf c"
    then obtain leaf where l: "leaf \<in> set ?M" "live v D leaf c" by blast
    show ?thesis
    proof (cases "leaf \<in> set ?L")
      case True
      with l live(1) show ?thesis by blast
    next
      case False
      with l have "leaf = (p, sw)" by auto
      with l(2) gone show ?thesis by blast
    qed
  qed (use dead in blast)
  moreover have "distinct (assumption_indices ?L)" "distinct (default_indices ?L)"
    using clause_invD(1,2) [OF inv] by auto
  ultimately show ?thesis
    unfolding clause_inv_def using ok live(2) clause_invD(4) [OF inv] L0 by blast
qed

text \<open>A new leaf with the next two entries of both vectors.\<close>

lemma indices_below:
  assumes "clause_inv v C L A D"
  shows "i \<in> set (assumption_indices L) \<Longrightarrow> i < length A" "i \<in> set (default_indices L) \<Longrightarrow> i < length D"
proof -
  have ok: "leaf \<in> set L \<Longrightarrow> leaf_ok (selectors_of C) A D (snd leaf)" for leaf by (rule clause_invD(3) [OF assms])
  show "i \<in> set (assumption_indices L) \<Longrightarrow> i < length A" "i \<in> set (default_indices L) \<Longrightarrow> i < length D"
    using ok by (auto simp: assumption_indices_def default_indices_def leaf_ok_def)
qed

lemma clause_inv_add:
  assumes inv: "clause_inv v C (L1 @ L2) A D" and q: "set q = set p"
    and k: "k \<noteq> 0" "k' \<noteq> 0" "k > 0 \<longleftrightarrow> k' < 0"
    and sw: "sw = \<lparr>assumptions_index = length A, default_index = length D,
                   assumptions_index2 = length A + 1, default_index2 = length D + 1\<rparr>"
  shows "clause_inv v (C @ [q @ [- \<bar>k\<bar>, v], q @ [- \<bar>k'\<bar>, - v]]) (L1 @ (p, sw) # L2) (A @ [k, k']) (D @ [k, k'])"
    (is "clause_inv v ?C ?L ?A ?D")
proof -
  let ?M = "L1 @ L2"
  note below = indices_below [OF inv]
  have agree: "agree_on UNIV A ?A" "agree_on UNIV D ?D" by (simp_all add: agree_on_def nth_append)
  have sub: "selectors_of C \<subseteq> selectors_of ?C" "set C \<subseteq> set ?C" by (auto simp: selectors_of_def)
  have sels: "\<bar>k\<bar> \<in> selectors_of ?C" "\<bar>k'\<bar> \<in> selectors_of ?C"
    by (simp_all add: selectors_of_def nth_append)
  have new: "?A ! length A = k" "?A ! (length A + 1) = k'" "?D ! length D = k" "?D ! (length D + 1) = k'"
    by (simp_all add: nth_append)
  have "distinct (assumption_indices ?L)" "distinct (default_indices ?L)"
    using clause_invD(1,2) [OF inv] below(1) [of "length A"] below(1) [of "Suc (length A)"]
      below(2) [of "length D"] below(2) [of "Suc (length D)"] by (auto simp: sw)
  moreover have "leaf_ok (selectors_of ?C) ?A ?D (snd leaf) \<and> both_clauses v ?D ?C leaf" if "leaf \<in> set ?L" for leaf
  proof (cases "leaf = (p, sw)")
    case True
    have "leaf_ok (selectors_of ?C) ?A ?D sw"
      using new k sels by (auto simp: leaf_ok_def sw)
    moreover have "both_clauses v ?D ?C (p, sw)"
      using q new unfolding both_clauses_def by (auto simp: sw intro!: exI [of _ q])
    ultimately show ?thesis using True by simp
  next
    case False
    with that have leaf: "leaf \<in> set ?M" by auto
    have "agree_on I A ?A" "agree_on I D ?D" for I using agree by (auto simp: agree_on_def)
    then show ?thesis
      using leaf_ok_keep [OF clause_invD(3) [OF inv leaf] sub(1)] live_keep(2) [OF clause_invD(3) [OF inv leaf]]
        both_clauses_mono [OF clause_invD(4) [OF inv leaf] sub(2)] by blast
  qed
  moreover have "(\<exists>leaf\<in>set ?L. live v ?D leaf c) \<or> dead ?A ?D (assumption_indices ?L) (default_indices ?L) c"
    if "c \<in> set ?C" for c
  proof (cases "c \<in> set C")
    case True
    from clause_invD(5) [OF inv True] show ?thesis
    proof
      assume "\<exists>leaf\<in>set ?M. live v D leaf c"
      then obtain leaf where l: "leaf \<in> set ?M" "live v D leaf c" by blast
      have "agree_on (sw_defaults (snd leaf)) D ?D" using agree(2) by (simp add: agree_on_def)
      with l live_keep(1) [OF clause_invD(3) [OF inv l(1)]] show ?thesis by auto
    next
      assume "dead A D (assumption_indices ?M) (default_indices ?M) c"
      moreover have "agree_on I A ?A" "agree_on I D ?D" for I using agree by (auto simp: agree_on_def)
      ultimately have "dead ?A ?D (assumption_indices ?L) (default_indices ?L) c"
        by (rule dead_keep) (auto simp: sw)
      then show ?thesis by blast
    qed
  next
    case False
    with that have "live v ?D (p, sw) c"
      using q new unfolding live_def by (auto simp: sw)
    then show ?thesis by auto
  qed
  ultimately show ?thesis unfolding clause_inv_def by blast
qed

text \<open>A leaf changes its label.\<close>

lemma clause_inv_toggle:
  assumes inv: "clause_inv v C (L1 @ (p, sw) # L2) A D"
  shows "clause_inv v C (L1 @ (p, sw) # L2)
    (flip (assumptions_index2 sw) (flip (assumptions_index sw) A))
    (flip (default_index2 sw) (flip (default_index sw) D))"
    (is "clause_inv v C ?L ?A ?D")
proof -
  have leaf: "(p, sw) \<in> set ?L" by simp
  note ok = clause_invD(3) [OF inv leaf, simplified]
  have differ: "assumptions_index sw \<noteq> assumptions_index2 sw" "default_index sw \<noteq> default_index2 sw"
    using clause_invD(1,2) [OF inv] by simp_all
  have agree: "agree_on (- sw_assumptions sw) A ?A" "agree_on (- sw_defaults sw) D ?D"
    by (simp_all add: agree_on_def flip_def sw_assumptions_def sw_defaults_def)
  have entries: "?A ! assumptions_index sw = - (A ! assumptions_index sw)"
      "?A ! assumptions_index2 sw = - (A ! assumptions_index2 sw)"
      "?D ! default_index sw = - (D ! default_index sw)" "?D ! default_index2 sw = - (D ! default_index2 sw)"
    using ok differ by (simp_all add: leaf_ok_def flip_def)
  have lens: "length ?A = length A" "length ?D = length D" by (simp_all add: flip_def)
  have this_ok: "leaf_ok (selectors_of C) ?A ?D sw"
    using ok entries lens by (auto simp: leaf_ok_def)
  have this_live: "live v ?D (p, sw) c = live v D (p, sw) c" "both_clauses v ?D C (p, sw) = both_clauses v D C (p, sw)" for c
    by (simp_all add: live_def both_clauses_def entries)
  have agree_leaf: "agree_on (sw_assumptions (snd x)) A ?A \<and> agree_on (sw_defaults (snd x)) D ?D"
    if "x \<in> set L1 \<union> set L2" for x
  proof -
    have "sw_assumptions sw \<inter> sw_assumptions (snd x) = {}" "sw_defaults sw \<inter> sw_defaults (snd x) = {}"
      using that clause_invD(1,2) [OF inv] leaf_indices [of x L1] leaf_indices [of x L2]
      by (auto simp: sw_assumptions_def sw_defaults_def)
    with agree show ?thesis unfolding agree_on_def by blast
  qed
  have others: "leaf_ok (selectors_of C) ?A ?D (snd x) \<and> live v ?D x c = live v D x c \<and>
      both_clauses v ?D C x = both_clauses v D C x" if "x \<in> set L1 \<union> set L2" for x c
  proof -
    have "leaf_ok (selectors_of C) A D (snd x)" using that clause_invD(3) [OF inv, of x] by auto
    from leaf_ok_keep [OF this order_refl] live_keep [OF this] agree_leaf [OF that] show ?thesis by blast
  qed
  have all: "leaf_ok (selectors_of C) ?A ?D (snd x) \<and> live v ?D x c = live v D x c \<and>
      both_clauses v ?D C x = both_clauses v D C x" if "x \<in> set ?L" for x c
    using that others [of x c] this_ok this_live by auto
  have dead: "dead ?A ?D (assumption_indices ?L) (default_indices ?L) c"
    if "dead A D (assumption_indices ?L) (default_indices ?L) c" for c
  proof (rule dead_keep [OF that])
    show "agree_on (- set (assumption_indices ?L)) A ?A"
      using agree(1) by (auto simp: agree_on_def sw_assumptions_def)
    show "agree_on (- set (default_indices ?L)) D ?D"
      using agree(2) by (auto simp: agree_on_def sw_defaults_def)
  qed auto
  show ?thesis
    unfolding clause_inv_def using clause_invD [OF inv] all dead by metis
qed

section \<open>What a step leaves alone\<close>

lemma others_keep_refl [simp]: "others_keep T xs xs"
  by (simp add: others_keep_def agree_on_def)

lemma others_keep_append: "others_keep T xs (xs @ ys)"
  by (simp add: others_keep_def agree_on_def nth_append)

lemma others_keep_trans: "others_keep T xs ys \<Longrightarrow> others_keep T ys zs \<Longrightarrow> others_keep T xs zs"
  unfolding others_keep_def agree_on_def by auto

lemma others_keep_update: "(i < length xs \<Longrightarrow> \<bar>xs ! i\<bar> \<notin> T) \<Longrightarrow> others_keep T xs (xs[i := y])"
  unfolding others_keep_def agree_on_def by (metis (no_types, lifting) length_list_update mem_Collect_eq nth_list_update_neq order_refl)

lemma abs_signs [simp]:
  "length (set_sign p i xs) = length xs" "length (flip i xs) = length xs"
  "j < length xs \<Longrightarrow> \<bar>set_sign p i xs ! j\<bar> = \<bar>xs ! j\<bar>" "j < length xs \<Longrightarrow> \<bar>flip i xs ! j\<bar> = \<bar>xs ! j\<bar>"
  by (cases "i = j"; auto simp: set_sign_def flip_def)+

lemma others_keep_signs:
  assumes "i < length xs" "j < length xs" "\<bar>xs ! i\<bar> \<notin> T" "\<bar>xs ! j\<bar> \<notin> T"
  shows "others_keep T xs (set_sign p j (set_sign p' i xs))" "others_keep T xs (flip j (flip i xs))"
proof -
  have "others_keep T xs (set_sign p' i xs)" "others_keep T (set_sign p' i xs) (set_sign p j (set_sign p' i xs))"
    "others_keep T xs (flip i xs)" "others_keep T (flip i xs) (flip j (flip i xs))"
    using assms abs_signs(3,4) [of j xs]
    by (simp_all add: set_sign_def flip_def others_keep_update)
  then show "others_keep T xs (set_sign p j (set_sign p' i xs))" "others_keep T xs (flip j (flip i xs))"
    by (blast intro: others_keep_trans)+
qed

text \<open>No step exchanges the variable of an entry.\<close>

definition keeps_variables :: "int list \<Rightarrow> int list \<Rightarrow> bool" where
  "keeps_variables xs ys \<longleftrightarrow> length xs \<le> length ys \<and> (\<forall>i<length xs. \<bar>ys ! i\<bar> = \<bar>xs ! i\<bar>)"

lemma keeps_variables_simps [simp]:
  "keeps_variables xs xs" "keeps_variables xs (xs @ ys)"
  "keeps_variables xs (set_sign p i (set_sign p' j xs))" "keeps_variables xs (flip i (flip j xs))"
  by (simp_all add: keeps_variables_def nth_append)

lemma keeps_variables_trans: "keeps_variables xs ys \<Longrightarrow> keeps_variables ys zs \<Longrightarrow> keeps_variables xs zs"
  by (simp add: keeps_variables_def)

definition changes_only :: "int set \<Rightarrow> env \<Rightarrow> env \<Rightarrow> bool" where
  "changes_only S e e' \<longleftrightarrow> env_last e \<le> env_last e' \<and>
     keeps_variables (env_assumptions e) (env_assumptions e') \<and> keeps_variables (env_defaults e) (env_defaults e') \<and>
     (\<forall>T. T \<inter> S = {} \<longrightarrow> others_keep T (env_assumptions e) (env_assumptions e') \<and>
                             others_keep T (env_defaults e) (env_defaults e'))"

lemma changes_only_refl [simp]: "changes_only S e e"
  by (simp add: changes_only_def)

lemma changes_only_trans: "changes_only S e e' \<Longrightarrow> changes_only S e' e'' \<Longrightarrow> changes_only S e e''"
  unfolding changes_only_def by (blast intro: others_keep_trans order_trans keeps_variables_trans)

lemma changes_only_signs:
  assumes inv: "clause_inv v C (L1 @ (p, sw) # L2) (env_assumptions e) (env_defaults e)"
  shows "changes_only (selectors_of C) e
      (e\<lparr>env_assumptions := set_sign b (assumptions_index2 sw) (set_sign b' (assumptions_index sw) (env_assumptions e)),
         env_defaults := set_sign b (default_index2 sw) (set_sign b' (default_index sw) (env_defaults e))\<rparr>)"
    and "changes_only (selectors_of C) e (toggleSwitches sw e)"
proof -
  have ok: "leaf_ok (selectors_of C) (env_assumptions e) (env_defaults e) sw"
    using clause_invD(3) [OF inv, of "(p, sw)"] by simp
  then have "T \<inter> selectors_of C = {} \<Longrightarrow>
      \<bar>env_assumptions e ! assumptions_index sw\<bar> \<notin> T \<and> \<bar>env_assumptions e ! assumptions_index2 sw\<bar> \<notin> T \<and>
      \<bar>env_defaults e ! default_index sw\<bar> \<notin> T \<and> \<bar>env_defaults e ! default_index2 sw\<bar> \<notin> T" for T
    unfolding leaf_ok_def by auto
  with ok show "changes_only (selectors_of C) e
      (e\<lparr>env_assumptions := set_sign b (assumptions_index2 sw) (set_sign b' (assumptions_index sw) (env_assumptions e)),
         env_defaults := set_sign b (default_index2 sw) (set_sign b' (default_index sw) (env_defaults e))\<rparr>)"
    and "changes_only (selectors_of C) e (toggleSwitches sw e)"
    by (simp_all add: changes_only_def toggleSwitches_def leaf_ok_def others_keep_signs)
qed

section \<open>A run of the tree\<close>

text \<open>
  Insertions, with arbitrary work of the other components in between: they may push entries and
  change entries, but not those of the tree's selectors.
\<close>

inductive tree_run ::
  "'h mlpack_tree \<Rightarrow> 'h hoeffding \<Rightarrow> clause list \<Rightarrow> 'h hoeffding \<Rightarrow> env \<Rightarrow> bool"
  for api :: "'h mlpack_tree" and start :: "'h hoeffding" where
  run_start: "0 \<le> env_last e \<Longrightarrow> tree_run api start [] start e"
| run_insert: "tree_run api start C t e \<Longrightarrow>
     tree_insertConflict api forced_literal sample t e = Some (cs, t', e') \<Longrightarrow>
     tree_run api start (C @ cs) t' e'"
| run_others: "tree_run api start C t e \<Longrightarrow> env_last e \<le> env_last e' \<Longrightarrow>
     others_keep (selectors_of C) (env_assumptions e) (env_assumptions e') \<Longrightarrow>
     others_keep (selectors_of C) (env_defaults e) (env_defaults e') \<Longrightarrow>
     tree_run api start C t e'"

fun is_inner :: "selector_tree \<Rightarrow> bool" where
  "is_inner (Leaf_Node b sw) = False"
| "is_inner (Inner_Node b sw v l r) = True"

text \<open>\<open>X\<close> are leaves outside of the tree: the constant default a variable has before its first split.\<close>

definition tree_inv ::
  "'h mlpack_tree \<Rightarrow> ('h \<Rightarrow> nat) \<Rightarrow> int \<Rightarrow> int list \<Rightarrow> (int list \<times> switches) list \<Rightarrow> clause list \<Rightarrow>
   'h hoeffding \<Rightarrow> env \<Rightarrow> bool" where
  "tree_inv api dimensions v deps X C t e \<longleftrightarrow>
     tree_variable t = v \<and> tree_dependencies t = deps \<and> 0 \<le> env_last e \<and>
     (case root_selector_tree t of
        None \<Rightarrow> num_children api (htree t) = 0 \<and> dimensions (htree t) = length deps \<and>
          clause_inv v C X (env_assumptions e) (env_defaults e)
      | Some st \<Rightarrow> is_inner st \<and> mirrors api dimensions deps (htree t) st \<and>
          clause_inv v C (X @ leaf_paths st []) (env_assumptions e) (env_defaults e))"

text \<open>The vectors after a split, from the ones in which the old leaf is switched off.\<close>

definition signed :: "nat \<Rightarrow> int \<Rightarrow> int list" where
  "signed majority k = (if majority = 1 then [k, - (k + 1)] else [- k, k + 1])"

definition new_leaves :: "int \<Rightarrow> nat \<Rightarrow> nat \<Rightarrow> int list" where
  "new_leaves n m1 m2 = signed m1 (n + 1) @ signed m2 (n + 3)"

lemma four_selectors:
  "newSelector (newSelector (newSelector (newSelector e))) =
     e\<lparr>env_last := env_last e + 4,
       env_assumptions := env_assumptions e @ [env_last e + 1, env_last e + 2, env_last e + 3, env_last e + 4],
       env_defaults := env_defaults e @ [env_last e + 1, env_last e + 2, env_last e + 3, env_last e + 4]\<rparr>"
  by (simp add: newSelector_def Let_def)

lemma two_selectors:
  "newSelector (newSelector e) =
     e\<lparr>env_last := env_last e + 2, env_assumptions := env_assumptions e @ [env_last e + 1, env_last e + 2],
       env_defaults := env_defaults e @ [env_last e + 1, env_last e + 2]\<rparr>"
  by (simp add: newSelector_def Let_def)

lemma nth_update_tail:
  "(xs @ ys) ! (length xs + i) = ys ! i" "(xs @ ys)[length xs + i := y] = xs @ ys[i := y]"
  "(xs @ ys) ! length xs = ys ! 0" "(xs @ ys)[length xs := y] = xs @ ys[0 := y]"
  "(xs @ ys) ! Suc (length xs) = ys ! 1" "(xs @ ys)[Suc (length xs) := y] = xs @ ys[1 := y]"
  "(xs @ ys) ! Suc (Suc (length xs)) = ys ! 2" "(xs @ ys)[Suc (Suc (length xs)) := y] = xs @ ys[2 := y]"
  "(xs @ ys) ! Suc (Suc (Suc (length xs))) = ys ! 3"
  "(xs @ ys)[Suc (Suc (Suc (length xs))) := y] = xs @ ys[3 := y]"
  by (simp_all add: nth_append list_update_append Suc_diff_le numeral_eq_Suc)

lemma split_leaf:
  assumes n: "0 \<le> env_last e"
  defines "sw1 \<equiv> next_switches e"
  defines "sw2 \<equiv> next_switches (newSelector (newSelector e))"
  defines "e4 \<equiv> newSelector (newSelector (newSelector (newSelector e)))"
  shows "setupClauses v m1 sw1 p1 e4 =
           ([p1 @ [- (env_last e + 1), v], p1 @ [- (env_last e + 2), - v]], setSwitches sw1 m1 e4)"
    and "setupClauses v m2 sw2 p2 (setSwitches sw1 m1 e4) =
           ([p2 @ [- (env_last e + 3), v], p2 @ [- (env_last e + 4), - v]],
            e\<lparr>env_last := env_last e + 4, env_assumptions := env_assumptions e @ new_leaves (env_last e) m1 m2,
              env_defaults := env_defaults e @ new_leaves (env_last e) m1 m2\<rparr>)"
  using n unfolding sw1_def sw2_def e4_def four_selectors two_selectors
  by (simp_all add: setupClauses_def next_switches_def setSwitches_def set_sign_def nth_update_tail
        new_leaves_def signed_def numeral_eq_Suc algebra_simps)

lemma clause_inv_split:
  assumes inv: "clause_inv v C (L1 @ L2) (env_assumptions e) (env_defaults e)" and n: "0 \<le> env_last e"
    and q: "set q = set p"
  shows "clause_inv v (C @ [(q @ [x]) @ [- (env_last e + 1), v], (q @ [x]) @ [- (env_last e + 2), - v]] @
      [(q @ [- x]) @ [- (env_last e + 3), v], (q @ [- x]) @ [- (env_last e + 4), - v]])
    (L1 @ [(p @ [x], next_switches e), (p @ [- x], next_switches (newSelector (newSelector e)))] @ L2)
    (env_assumptions e @ new_leaves (env_last e) m1 m2) (env_defaults e @ new_leaves (env_last e) m1 m2)"
proof -
  let ?n = "env_last e" and ?A = "env_assumptions e" and ?D = "env_defaults e"
  obtain k k' where k: "signed m1 (?n + 1) = [k, k']" "\<bar>k\<bar> = ?n + 1" "\<bar>k'\<bar> = ?n + 2" "k \<noteq> 0" "k' \<noteq> 0" "k > 0 \<longleftrightarrow> k' < 0"
    using n unfolding signed_def by (cases "m1 = 1") auto
  obtain j j' where j: "signed m2 (?n + 3) = [j, j']" "\<bar>j\<bar> = ?n + 3" "\<bar>j'\<bar> = ?n + 4" "j \<noteq> 0" "j' \<noteq> 0" "j > 0 \<longleftrightarrow> j' < 0"
    using n unfolding signed_def by (cases "m2 = 1") auto
  have q1: "set (q @ [x]) = set (p @ [x])" "set (q @ [- x]) = set (p @ [- x])" using q by auto
  have 1: "clause_inv v (C @ [(q @ [x]) @ [- \<bar>k\<bar>, v], (q @ [x]) @ [- \<bar>k'\<bar>, - v]])
      (L1 @ (p @ [x], next_switches e) # L2) (?A @ [k, k']) (?D @ [k, k'])"
    by (rule clause_inv_add [OF inv q1(1) k(4-6)]) (simp add: next_switches_def)
  have "clause_inv v ((C @ [(q @ [x]) @ [- \<bar>k\<bar>, v], (q @ [x]) @ [- \<bar>k'\<bar>, - v]]) @
        [(q @ [- x]) @ [- \<bar>j\<bar>, v], (q @ [- x]) @ [- \<bar>j'\<bar>, - v]])
      ((L1 @ [(p @ [x], next_switches e)]) @ (p @ [- x], next_switches (newSelector (newSelector e))) # L2)
      ((?A @ [k, k']) @ [j, j']) ((?D @ [k, k']) @ [j, j'])"
    by (rule clause_inv_add [OF _ q1(2) j(4-6)]) (use 1 in \<open>simp_all add: next_switches_def two_selectors\<close>)
  then show ?thesis by (simp add: new_leaves_def k(1-3) j(1-3))
qed

lemma getSplitVariable_mem: "getSplitVariable api deps h = Some v \<Longrightarrow> v \<in> set deps"
  by (auto simp: getSplitVariable_def Let_def split: if_splits)

lemma is_inner_put: "is_inner st \<Longrightarrow> ref \<noteq> [] \<Longrightarrow> is_inner (st_put st ref st')"
  by (cases st; cases ref) auto

lemma disableSwitches_fields:
  "env_last (disableSwitches sw e) = env_last e"
  "env_assumptions (disableSwitches sw e) =
     set_sign False (assumptions_index2 sw) (set_sign False (assumptions_index sw) (env_assumptions e))"
  "env_defaults (disableSwitches sw e) =
     set_sign False (default_index2 sw) (set_sign False (default_index sw) (env_defaults e))"
  by (simp_all add: disableSwitches_def)

text \<open>
  What a step adds: an entry for every variable it takes, and clauses over the path, the variable
  and the new selectors.
\<close>

definition grows :: "env \<Rightarrow> env \<Rightarrow> bool" where
  "grows e e' \<longleftrightarrow> env_last e \<le> env_last e' \<and>
     map abs (env_assumptions e') = map abs (env_assumptions e) @ [env_last e + 1..env_last e']"

lemma grows_refl [simp]: "grows e e"
  by (simp add: grows_def)

lemma upto_append: "(i::int) \<le> j + 1 \<Longrightarrow> j \<le> k \<Longrightarrow> [i..j] @ [j + 1..k] = [i..k]"
  by (cases "j = k") (use upto_split1 [of i "j + 1" k] in simp_all)

lemma env_grows_trans: "grows e e' \<Longrightarrow> grows e' e'' \<Longrightarrow> grows e e''"
  using upto_append [of "env_last e + 1" "env_last e'" "env_last e''"] by (simp add: grows_def)

lemma map_abs_signs [simp]: "map abs (set_sign p i xs) = map abs xs" "map abs (flip i xs) = map abs xs"
  by (simp_all add: list_eq_iff_nth_eq)

lemma grows_signs:
  "grows e (e\<lparr>env_assumptions := set_sign p i (set_sign p' j (env_assumptions e)), env_defaults := D\<rparr>)"
  "grows e (toggleSwitches sw e)" "grows e (disableSwitches sw e)"
  by (simp_all add: grows_def toggleSwitches_def disableSwitches_def)

lemma grows_leaves:
  assumes "0 \<le> env_last e"
  shows "grows e (e\<lparr>env_last := env_last e + 4, env_assumptions := env_assumptions e @ new_leaves (env_last e) m1 m2,
              env_defaults := D\<rparr>)"
proof -
  have "[env_last e + 1..env_last e + 4] = [env_last e + 1, env_last e + 2, env_last e + 3, env_last e + 4]"
    by (simp add: upto.simps)
  then show ?thesis using assms by (auto simp: grows_def new_leaves_def signed_def)
qed

lemma getPath_vars:
  "mirrors api dimensions deps h st \<Longrightarrow> abs ` set (getPath st ref) \<subseteq> abs ` set deps"
proof (induction st ref arbitrary: h rule: getPath.induct)
  case (3 b sw v l r d ds)
  have "mirrors api dimensions deps (child api h 0) l" "mirrors api dimensions deps (child api h 1) r" "v \<in> set deps"
    using "3.prems" by simp_all
  moreover have "mirrors api dimensions deps (child api h (if d = 0 then 0 else 1)) (if d = 0 then l else r)"
    using calculation by simp
  ultimately show ?case using "3.IH" [OF refl, of "child api h (if d = 0 then 0 else 1)"] by (auto simp: Let_def)
qed auto

definition step_vars :: "int list \<Rightarrow> int \<Rightarrow> env \<Rightarrow> env \<Rightarrow> int set" where
  "step_vars deps v e e' = abs ` set deps \<union> {\<bar>v\<bar>} \<union> {env_last e<..env_last e'}"

text \<open>The clauses and the state when a leaf is split, with the leaf already switched off.\<close>

lemma getClauses_eq:
  assumes split: "getSplitVariable api (tree_dependencies t) (h_get api (htree t) ref) = Some x"
    and root: "root = (if empty_base then Leaf_Node False no_switches else the (root_selector_tree t))"
    and ref': "ref' = (if empty_base then [] else ref)"
    and leaf: "st_get root ref' = Some (Leaf_Node b sw)"
    and e1: "e1 = (if empty_base then e else disableSwitches sw e)"
    and n: "0 \<le> env_last e1"
  shows "\<exists>m1 m2. getClauses api ref empty_base t e = Some
    ([(getPath root ref' @ [x]) @ [- (env_last e1 + 1), tree_variable t],
      (getPath root ref' @ [x]) @ [- (env_last e1 + 2), - tree_variable t]] @
     [(getPath root ref' @ [- x]) @ [- (env_last e1 + 3), tree_variable t],
      (getPath root ref' @ [- x]) @ [- (env_last e1 + 4), - tree_variable t]],
     t\<lparr>root_selector_tree := Some (st_put root ref' (Inner_Node b sw x (Leaf_Node True (next_switches e1))
         (Leaf_Node False (next_switches (newSelector (newSelector e1))))))\<rparr>,
     e1\<lparr>env_last := env_last e1 + 4, env_assumptions := env_assumptions e1 @ new_leaves (env_last e1) m1 m2,
        env_defaults := env_defaults e1 @ new_leaves (env_last e1) m1 m2\<rparr>)"
  unfolding getClauses_def Let_def split root [symmetric] ref' [symmetric] leaf
    Option.bind.bind_lunit setChildren_def prod.case node_left.simps node_switches.simps subtree.simps
    if_True if_False e1 [symmetric]
  unfolding split_leaf [OF n] prod.case
  by (intro exI, rule refl)

lemma h_get_put:
  assumes doc: "mlpack_documented api dimensions"
  shows "mirrors api dimensions deps h st \<Longrightarrow> getLeaf api h (Some st) point = Some ref \<Longrightarrow>
    h_get api (h_put api h ref h') ref = h'"
proof (induction st arbitrary: h ref)
  case (Leaf_Node b sw)
  then have "ref = []" by (auto simp: isLeaf_def)
  then show ?case by simp
next
  case (Inner_Node b sw v l r)
  have two: "num_children api h = 2" using Inner_Node.prems(1) by simp
  define d where "d = calculate_direction api h point"
  have d: "d < num_children api h" using mlpack_documentedD(5) [OF doc two] by (simp add: d_def two)
  obtain ds where ref: "ref = d # ds"
    and ds: "getLeaf api (child api h d) (Some (if d = 0 then l else r)) point = Some ds"
    using Inner_Node.prems(2) two by (auto simp: isLeaf_def d_def [symmetric] Let_def)
  have "d = 0 \<or> d = 1" using d two by linarith
  then have "h_get api (h_put api (child api h d) ds h') ds = h'"
    using Inner_Node.IH(1) [of "child api h 0" ds] Inner_Node.IH(2) [of "child api h 1" ds] ds Inner_Node.prems(1)
    by (elim disjE) simp_all
  then show ?case by (simp add: ref mlpack_documentedD(4) [OF doc d])
qed

lemma tree_inv_insert:
  assumes doc: "mlpack_documented api dimensions" and inv: "tree_inv api dimensions v deps X C t e"
    and ins: "tree_insertConflict api f sample t e = Some (cs, t', e')"
  shows "tree_inv api dimensions v deps X (C @ cs) t' e' \<and> changes_only (selectors_of C) e e' \<and>
    selectors_of cs \<subseteq> {env_last e<..env_last e'} \<and> grows e e' \<and> cnf_vars cs \<subseteq> step_vars deps v e e'"
proof -
  have fields: "tree_variable t = v" "tree_dependencies t = deps" "0 \<le> env_last e"
    using inv by (simp_all add: tree_inv_def)
  obtain point ref where ref: "getLeaf api (htree t) (root_selector_tree t) point = Some ref"
    and body: "(let h = train api point (of_bool (0 < f)) (h_get api (htree t) ref);
        u = t\<lparr>total_number_of_samples := total_number_of_samples t + 1, htree := h_put api (htree t) ref h\<rparr>
      in if \<not> isLeaf api h then getClauses api ref (tree_empty api t) u e
         else case root_selector_tree u of None \<Rightarrow> Some ([], u, e)
              | Some root \<Rightarrow> do { st \<leftarrow> st_get root ref; Some ([], u, toggleSwitches (node_switches st) e) }) =
      Some (cs, t', e')"
    using ins unfolding tree_insertConflict_def Let_def by (auto split: bind_split_asm)
  define h where "h = train api point (of_bool (0 < f)) (h_get api (htree t) ref)"
  define u where "u = t\<lparr>total_number_of_samples := total_number_of_samples t + 1, htree := h_put api (htree t) ref h\<rparr>"
  note body = body [unfolded Let_def, folded h_def, folded u_def]
  have u: "tree_variable u = v" "tree_dependencies u = deps" "root_selector_tree u = root_selector_tree t"
      "htree u = h_put api (htree t) ref h"
    using fields by (simp_all add: u_def)
  show ?thesis
  proof (cases "root_selector_tree t")
    case None
    with inv ref have 1: "clause_inv v C (X @ []) (env_assumptions e) (env_defaults e)"
        "num_children api (htree t) = 0" "ref = []"
      and dim: "dimensions (htree t) = length deps"
      by (auto simp: tree_inv_def isLeaf_def)
    show ?thesis
    proof (cases "isLeaf api h")
      case True
      then have "dimensions h = length deps"
        using mlpack_documentedD(7) [OF doc 1(2), of point "of_bool (0 < f)"] dim 1(3) by (simp add: h_def isLeaf_def)
      with True body None u 1 fields show ?thesis by (auto simp: tree_inv_def isLeaf_def selectors_of_def)
    next
      case False
      then have two: "num_children api h = 2" using mlpack_documentedD(1) [OF doc, of h] by (simp add: isLeaf_def)
      have split: "0 \<le> split_dimension api h" "split_dimension api h < int (length deps)"
          "num_children api (child api h 0) = 0" "num_children api (child api h 1) = 0"
          "dimensions (child api h 0) = length deps" "dimensions (child api h 1) = length deps"
        using mlpack_documentedD(6) [OF doc 1(2), of point "of_bool (0 < f)" 0]
          mlpack_documentedD(6) [OF doc 1(2), of point "of_bool (0 < f)" 1] two 1(3) dim
        unfolding h_def by simp_all
      define x where "x = deps ! nat (split_dimension api h)"
      have hu: "h_get api (htree u) ref = h" using 1 u by simp
      have x: "getSplitVariable api (tree_dependencies u) (h_get api (htree u) ref) = Some x"
        unfolding hu u(2) using split by (simp add: getSplitVariable_def x_def Let_def nat_less_iff)
      obtain m1 m2 where g: "getClauses api ref True u e = Some
          ([([x]) @ [- (env_last e + 1), v], ([x]) @ [- (env_last e + 2), - v]] @
           [([- x]) @ [- (env_last e + 3), v], ([- x]) @ [- (env_last e + 4), - v]],
           u\<lparr>root_selector_tree := Some (Inner_Node False no_switches x (Leaf_Node True (next_switches e))
               (Leaf_Node False (next_switches (newSelector (newSelector e)))))\<rparr>,
           e\<lparr>env_last := env_last e + 4, env_assumptions := env_assumptions e @ new_leaves (env_last e) m1 m2,
              env_defaults := env_defaults e @ new_leaves (env_last e) m1 m2\<rparr>)"
        using getClauses_eq [OF x refl refl, of True False no_switches e e] fields u by auto
      have empty: "tree_empty api t" using 1 by (simp add: tree_empty_def isLeaf_def)
      have eqs: "cs = [([x]) @ [- (env_last e + 1), v], ([x]) @ [- (env_last e + 2), - v]] @
           [([- x]) @ [- (env_last e + 3), v], ([- x]) @ [- (env_last e + 4), - v]]"
        "t' = u\<lparr>root_selector_tree := Some (Inner_Node False no_switches x (Leaf_Node True (next_switches e))
               (Leaf_Node False (next_switches (newSelector (newSelector e)))))\<rparr>"
        "e' = e\<lparr>env_last := env_last e + 4, env_assumptions := env_assumptions e @ new_leaves (env_last e) m1 m2,
              env_defaults := env_defaults e @ new_leaves (env_last e) m1 m2\<rparr>"
        using body False empty g by auto
      from clause_inv_split [OF 1(1) fields(3), of "[]" "[]" x m1 m2]
      have "clause_inv v (C @ cs) (X @ leaf_paths (the (root_selector_tree t')) []) (env_assumptions e') (env_defaults e')"
        unfolding eqs by simp
      moreover have "mirrors api dimensions deps (htree t') (the (root_selector_tree t'))"
        using two split x 1 u getSplitVariable_mem [OF x] by (simp add: eqs isLeaf_def)
      moreover have "changes_only (selectors_of C) e e'"
        by (simp add: eqs changes_only_def others_keep_append)
      moreover have "selectors_of cs \<subseteq> {env_last e<..env_last e'}"
        using fields(3) by (simp add: eqs selectors_of_def)
      moreover have "grows e e'" unfolding eqs(3) by (rule grows_leaves [OF fields(3)])
      moreover have "cnf_vars cs \<subseteq> step_vars deps v e e'"
        using fields(3) getSplitVariable_mem [OF x] u by (auto simp: eqs step_vars_def)
      ultimately show ?thesis using fields u by (simp add: tree_inv_def eqs(2,3))
    qed
  next
    case (Some st)
    with inv have st: "is_inner st" "mirrors api dimensions deps (htree t) st"
        "clause_inv v C (X @ leaf_paths st []) (env_assumptions e) (env_defaults e)"
      by (simp_all add: tree_inv_def)
    from getLeaf_spec [OF doc st(2), of point ref "[]"] ref Some obtain b sw q L1 L2 where
      leaf: "num_children api (h_get api (htree t) ref) = 0" "leaf_at st ref [] b sw q L1 L2"
        "replaceable api dimensions deps (htree t) st ref b"
      and dim: "dimensions (h_get api (htree t) ref) = length deps" by auto
    have at: "st_get st ref = Some (Leaf_Node b sw)" "set (getPath st ref) = set q"
        "leaf_paths st [] = L1 @ (q, sw) # L2" "\<And>st'. leaf_paths (st_put st ref st') [] = L1 @ leaf_paths st' q @ L2"
      using leaf(2) by (simp_all add: leaf_at_def)
    have inv_at: "clause_inv v C ((X @ L1) @ (q, sw) # L2) (env_assumptions e) (env_defaults e)"
      using st(3) by (simp add: at(3))
    have ref_ne: "ref \<noteq> []" using at(1) st(1) by (cases st) auto
    have put: "mirrors api dimensions deps h' st' \<Longrightarrow> node_left st' = b \<Longrightarrow>
        mirrors api dimensions deps (h_put api (htree t) ref h') (st_put st ref st')" for h' st'
      using leaf(3) unfolding replaceable_def by blast
    show ?thesis
    proof (cases "isLeaf api h")
      case True
      have eqs: "cs = []" "t' = u" "e' = toggleSwitches sw e"
        using body True u(3) Some at(1) by auto
      have "mirrors api dimensions deps (htree u) (st_put st ref (Leaf_Node b sw))"
        unfolding u(4)
        by (rule put) (use True mlpack_documentedD(7) [OF doc leaf(1), of point "of_bool (0 < f)"] dim
          in \<open>simp_all add: isLeaf_def h_def\<close>)
      moreover have "st_put st ref (Leaf_Node b sw) = st" using at(1)
        by (induction st ref "Leaf_Node b sw" rule: st_put.induct) (auto split: if_splits)
      moreover have "clause_inv v C (X @ leaf_paths st []) (env_assumptions e') (env_defaults e')"
        using clause_inv_toggle [OF inv_at] unfolding at(3) eqs(3) by (simp add: toggleSwitches_def)
      moreover have "changes_only (selectors_of C) e e'"
        unfolding eqs(3) by (rule changes_only_signs(2) [OF inv_at])
      ultimately show ?thesis using u Some fields st(1)
        by (simp add: tree_inv_def eqs(1,2) selectors_of_def) (simp add: eqs(3) grows_signs, simp add: toggleSwitches_def)
    next
      case False
      then have two: "num_children api h = 2" using mlpack_documentedD(1) [OF doc, of h] by (simp add: isLeaf_def)
      have split: "0 \<le> split_dimension api h" "split_dimension api h < int (length deps)"
          "num_children api (child api h 0) = 0" "num_children api (child api h 1) = 0"
          "dimensions (child api h 0) = length deps" "dimensions (child api h 1) = length deps"
        using mlpack_documentedD(6) [OF doc leaf(1), of point "of_bool (0 < f)" 0]
          mlpack_documentedD(6) [OF doc leaf(1), of point "of_bool (0 < f)" 1] two dim
        unfolding h_def by simp_all
      define x where "x = deps ! nat (split_dimension api h)"
      have hx: "getSplitVariable api deps h = Some x" using split by (simp add: getSplitVariable_def x_def Let_def nat_less_iff)
      have x: "getSplitVariable api (tree_dependencies u) (h_get api (htree u) ref) = Some x"
        using hx u h_get_put [OF doc st(2)] ref Some by simp
      let ?e = "disableSwitches sw e"
      let ?node = "Inner_Node b sw x (Leaf_Node True (next_switches ?e))
               (Leaf_Node False (next_switches (newSelector (newSelector ?e))))"
      have n: "0 \<le> env_last ?e" using fields by (simp add: disableSwitches_fields)
      obtain m1 m2 where g: "getClauses api ref False u e = Some
          ([(getPath st ref @ [x]) @ [- (env_last ?e + 1), v], (getPath st ref @ [x]) @ [- (env_last ?e + 2), - v]] @
           [(getPath st ref @ [- x]) @ [- (env_last ?e + 3), v], (getPath st ref @ [- x]) @ [- (env_last ?e + 4), - v]],
           u\<lparr>root_selector_tree := Some (st_put st ref ?node)\<rparr>,
           ?e\<lparr>env_last := env_last ?e + 4, env_assumptions := env_assumptions ?e @ new_leaves (env_last ?e) m1 m2,
              env_defaults := env_defaults ?e @ new_leaves (env_last ?e) m1 m2\<rparr>)"
        using getClauses_eq [OF x refl refl, of False b sw ?e e] at(1) n Some u by auto
      have nonempty: "\<not> tree_empty api t"
        using st(1,2) by (cases st) (auto simp: tree_empty_def isLeaf_def)
      have eqs: "cs = [(getPath st ref @ [x]) @ [- (env_last ?e + 1), v], (getPath st ref @ [x]) @ [- (env_last ?e + 2), - v]] @
           [(getPath st ref @ [- x]) @ [- (env_last ?e + 3), v], (getPath st ref @ [- x]) @ [- (env_last ?e + 4), - v]]"
        "t' = u\<lparr>root_selector_tree := Some (st_put st ref ?node)\<rparr>"
        "e' = ?e\<lparr>env_last := env_last ?e + 4, env_assumptions := env_assumptions ?e @ new_leaves (env_last ?e) m1 m2,
              env_defaults := env_defaults ?e @ new_leaves (env_last ?e) m1 m2\<rparr>"
        using body False nonempty g by auto
      have "clause_inv v C ((X @ L1) @ L2) (env_assumptions ?e) (env_defaults ?e)"
        using clause_inv_drop [OF inv_at] by (simp add: disableSwitches_fields)
      from clause_inv_split [OF this n at(2), of x m1 m2]
      have "clause_inv v (C @ cs) (X @ leaf_paths (st_put st ref ?node) []) (env_assumptions e') (env_defaults e')"
        unfolding at(4) eqs by simp
      moreover have "mirrors api dimensions deps (htree u) (st_put st ref ?node)"
        unfolding u(4) by (rule put) (use two split hx getSplitVariable_mem [OF hx] in \<open>simp_all add: isLeaf_def\<close>)
      moreover have "changes_only (selectors_of C) e e'"
      proof (rule changes_only_trans)
        show "changes_only (selectors_of C) e ?e"
          unfolding disableSwitches_def by (rule changes_only_signs(1) [OF inv_at])
        show "changes_only (selectors_of C) ?e e'"
          unfolding eqs(3) by (simp add: changes_only_def others_keep_append)
      qed
      moreover have "selectors_of cs \<subseteq> {env_last e<..env_last e'}"
        using fields(3) by (simp add: eqs selectors_of_def nth_append disableSwitches_fields)
      moreover have "grows e e'"
        unfolding eqs(3) by (rule env_grows_trans [OF grows_signs(3) grows_leaves [OF n]])
      moreover have "cnf_vars cs \<subseteq> step_vars deps v e e'"
        using fields(3) getSplitVariable_mem [OF hx] getPath_vars [OF st(2), of ref]
        by (auto simp: eqs step_vars_def disableSwitches_fields clause_vars_def)
      ultimately show ?thesis using fields u n is_inner_put [OF st(1) ref_ne] by (simp add: tree_inv_def eqs(2,3))
    qed
  qed
qed

lemma tree_run_inv:
  assumes "mlpack_documented api dimensions" "num_children api empty_tree = 0"
    and "dimensions empty_tree = length space"
    and "tree_run api (new_HoeffdingDefaultTree v space empty_tree) C t e"
  shows "tree_inv api dimensions v (sort space) [] C t e"
  using assms(4)
proof (induction rule: tree_run.induct)
  case (run_start e)
  then show ?case using assms(2,3) by (simp add: tree_inv_def new_HoeffdingDefaultTree_def clause_inv_def)
next
  case (run_insert C t e forced_literal sample cs t' e')
  from tree_inv_insert [OF assms(1) run_insert.IH run_insert.hyps(2)] show ?case by blast
next
  case (run_others C t e e')
  then show ?case
    by (auto simp: tree_inv_def intro: clause_inv_others split: option.splits)
qed

section \<open>The default function\<close>

fun tree_value :: "int list \<Rightarrow> selector_tree \<Rightarrow> assignment \<Rightarrow> bool" where
  "tree_value ds (Leaf_Node b sw) \<gamma> = (ds ! default_index sw > 0)"
| "tree_value ds (Inner_Node b sw v l r) \<gamma> = (if \<gamma> v then tree_value ds r \<gamma> else tree_value ds l \<gamma>)"

lemma traverseTree_sat:
  assumes "0 < v" "list_all (\<lambda>d. 0 < d) deps"
  shows "mirrors api dimensions deps h st \<Longrightarrow>
    cnf_sat \<gamma> (traverseTree v ds st path) \<longleftrightarrow> clause_sat \<gamma> path \<or> \<gamma> v = tree_value ds st \<gamma>"
proof (induction st arbitrary: h path)
  case (Leaf_Node b sw)
  then show ?case using assms(1) by auto
next
  case (Inner_Node b sw x l r)
  then have x: "0 < x" and m: "mirrors api dimensions deps (child api h 0) l" "mirrors api dimensions deps (child api h 1) r"
    using assms(2) by (auto simp: list_all_iff)
  show ?case
    using Inner_Node.IH(1) [OF m(1), of "path @ [x]"] Inner_Node.IH(2) [OF m(2), of "path @ [- x]"] x by auto
qed

lemma tree_clauses_function:
  assumes "mlpack_documented api dimensions" "num_children api empty_tree = 0"
    and dims: "dimensions empty_tree = length space"
    and pos: "0 < v" "list_all (\<lambda>d. 0 < d) space"
    and run: "tree_run api (new_HoeffdingDefaultTree v space empty_tree) C t e"
    and st: "root_selector_tree t = Some st"
    and true: "list_all (lit_true \<gamma>) (env_assumptions e) \<or> list_all (lit_true \<gamma>) (env_defaults e)"
  shows "\<exists>R. retrieveCompleteRepresentation t e = Some R \<and> (cnf_sat \<gamma> C \<longleftrightarrow> cnf_sat \<gamma> R) \<and>
    (cnf_sat \<gamma> R \<longleftrightarrow> \<gamma> v = tree_value (env_defaults e) st \<gamma>)"
proof -
  have inv: "tree_inv api dimensions v (sort space) [] C t e" by (rule tree_run_inv [OF assms(1,2) dims run])
  then have m: "mirrors api dimensions (sort space) (htree t) st" "tree_variable t = v"
    and c: "clause_inv v C (leaf_paths st []) (env_assumptions e) (env_defaults e)"
    using st by (simp_all add: tree_inv_def)
  let ?R = "traverseTree v (env_defaults e) st []"
  have "cnf_sat \<gamma> C \<longleftrightarrow> cnf_sat \<gamma> ?R"
    using clause_inv_equivalent [OF c true] by (simp add: traverseTree_leaf_paths leaf_label_def)
  moreover have "cnf_sat \<gamma> ?R \<longleftrightarrow> \<gamma> v = tree_value (env_defaults e) st \<gamma>"
    using traverseTree_sat [OF pos(1) _ m(1), of \<gamma> "env_defaults e" "[]"] pos(2) by (simp add: list_all_iff)
  ultimately show ?thesis using st m(2) by (simp add: retrieveCompleteRepresentation_def)
qed

text \<open>
  C17: The default clauses a Hoeffding default tree has handed out so far, whatever the insertions
  and whatever the other components did to their own selectors in between, are equivalent under
  the current selectors of either shared vector to the representation that goes into the
  certificate, and both say that the variable has the value of the leaf its dependencies select:
  a total function.
\<close>

theorem tree_clauses_are_function:
  assumes "mlpack_documented api dimensions" "num_children api empty_tree = 0"
    and "dimensions empty_tree = length space" and "0 < v" "list_all (\<lambda>d. 0 < d) space"
    and "tree_run api (new_HoeffdingDefaultTree v space empty_tree) C t e"
    and "root_selector_tree t = Some st"
    and "list_all (lit_true \<gamma>) (env_assumptions e) \<or> list_all (lit_true \<gamma>) (env_defaults e)"
  shows "\<exists>R. retrieveCompleteRepresentation t e = Some R \<and> (cnf_sat \<gamma> C \<longleftrightarrow> cnf_sat \<gamma> R) \<and>
    (cnf_sat \<gamma> R \<longleftrightarrow> \<gamma> v = tree_value (env_defaults e) st \<gamma>)"
  using assms by (rule tree_clauses_function)

text \<open>A learner that splits a leaf on its first dimension at the second sample.\<close>

datatype toy = Toy_Leaf nat nat | Toy_Node toy toy

definition toy_tree :: "toy mlpack_tree" where
  "toy_tree =
     \<lparr>num_children = \<lambda>h. case h of Toy_Leaf d n \<Rightarrow> 0 | Toy_Node l r \<Rightarrow> 2,
      child = \<lambda>h i. case h of Toy_Leaf d n \<Rightarrow> h
        | Toy_Node l r \<Rightarrow> if i = 0 then l else if i = 1 then r else Toy_Leaf 0 0,
      replace_child = \<lambda>h i x. case h of Toy_Leaf d n \<Rightarrow> h
        | Toy_Node l r \<Rightarrow> if i = 0 then Toy_Node x r else if i = 1 then Toy_Node l x else h,
      split_dimension = \<lambda>h. 0, majority_class = \<lambda>h. 1,
      calculate_direction = \<lambda>h p. if hd p = 1 then 1 else 0,
      train = \<lambda>p c h. case h of Toy_Leaf d n \<Rightarrow>
          if n < 1 \<or> d = 0 then Toy_Leaf d (n + 1) else Toy_Node (Toy_Leaf d 0) (Toy_Leaf d 0)
        | Toy_Node l r \<Rightarrow> h\<rparr>"

definition toy_dimensions :: "toy \<Rightarrow> nat" where
  "toy_dimensions h = (case h of Toy_Leaf d n \<Rightarrow> d | Toy_Node l r \<Rightarrow> 0)"

lemma toy_tree_documented: "mlpack_documented toy_tree toy_dimensions"
  by (auto simp: mlpack_documented_def toy_tree_def toy_dimensions_def split: toy.splits if_splits)

definition toy_start :: "toy hoeffding" where
  "toy_start = new_HoeffdingDefaultTree 3 [1, 2] (Toy_Leaf 2 0)"

definition toy_env :: env where
  "toy_env = \<lparr>env_last = 10, env_assumptions = [], env_defaults = []\<rparr>"

lemma toy_first: "tree_insertConflict toy_tree 3 [1, -2] toy_start toy_env =
    Some ([], \<lparr>tree_variable = 3, tree_dependencies = [1, 2], htree = Toy_Leaf 2 1, root_selector_tree = None,
               total_number_of_samples = 1\<rparr>, toy_env)"
  by code_simp

lemma toy_second: "tree_insertConflict toy_tree (- 3) [2, 1]
    \<lparr>tree_variable = 3, tree_dependencies = [1, 2], htree = Toy_Leaf 2 1, root_selector_tree = None,
     total_number_of_samples = 1\<rparr> toy_env =
    Some ([[1, - 11, 3], [1, - 12, - 3], [- 1, - 13, 3], [- 1, - 14, - 3]],
      \<lparr>tree_variable = 3, tree_dependencies = [1, 2], htree = Toy_Node (Toy_Leaf 2 0) (Toy_Leaf 2 0),
       root_selector_tree = Some (Inner_Node False no_switches 1
         (Leaf_Node True \<lparr>assumptions_index = 0, default_index = 0, assumptions_index2 = 1, default_index2 = 1\<rparr>)
         (Leaf_Node False \<lparr>assumptions_index = 2, default_index = 2, assumptions_index2 = 3, default_index2 = 3\<rparr>)),
       total_number_of_samples = 2\<rparr>,
      \<lparr>env_last = 14, env_assumptions = [11, - 12, 13, - 14], env_defaults = [11, - 12, 13, - 14]\<rparr>)"
  by code_simp

definition toy_root :: selector_tree where
  "toy_root = Inner_Node False no_switches 1
     (Leaf_Node True \<lparr>assumptions_index = 0, default_index = 0, assumptions_index2 = 1, default_index2 = 1\<rparr>)
     (Leaf_Node False \<lparr>assumptions_index = 2, default_index = 2, assumptions_index2 = 3, default_index2 = 3\<rparr>)"

definition toy_final :: "toy hoeffding" where
  "toy_final =
     \<lparr>tree_variable = 3, tree_dependencies = [1, 2], htree = Toy_Node (Toy_Leaf 2 0) (Toy_Leaf 2 1),
      root_selector_tree = Some toy_root, total_number_of_samples = 3\<rparr>"

definition toy_final_env :: env where
  "toy_final_env = \<lparr>env_last = 14, env_assumptions = [11, - 12, - 13, 14], env_defaults = [11, - 12, - 13, 14]\<rparr>"

lemma toy_third: "tree_insertConflict toy_tree 3 [1, 2]
      \<lparr>tree_variable = 3, tree_dependencies = [1, 2], htree = Toy_Node (Toy_Leaf 2 0) (Toy_Leaf 2 0),
       root_selector_tree = Some (Inner_Node False no_switches 1
         (Leaf_Node True \<lparr>assumptions_index = 0, default_index = 0, assumptions_index2 = 1, default_index2 = 1\<rparr>)
         (Leaf_Node False \<lparr>assumptions_index = 2, default_index = 2, assumptions_index2 = 3, default_index2 = 3\<rparr>)),
       total_number_of_samples = 2\<rparr>
      \<lparr>env_last = 14, env_assumptions = [11, - 12, 13, - 14], env_defaults = [11, - 12, 13, - 14]\<rparr> =
    Some ([], toy_final, toy_final_env)"
  by code_simp

lemma toy_run: "tree_run toy_tree (new_HoeffdingDefaultTree 3 [1, 2] (Toy_Leaf 2 0))
    [[1, - 11, 3], [1, - 12, - 3], [- 1, - 13, 3], [- 1, - 14, - 3]] toy_final toy_final_env"
proof -
  have "tree_run toy_tree toy_start [] toy_start toy_env"
    by (rule run_start) (simp add: toy_env_def)
  from run_insert [OF run_insert [OF run_insert [OF this toy_first] toy_second] toy_third]
  show ?thesis by (simp add: toy_start_def)
qed

theorem tree_clauses_are_function_witness:
  "\<exists>R. retrieveCompleteRepresentation toy_final toy_final_env = Some R \<and>
     (cnf_sat (\<lambda>x. x \<in> {1, 11, 14}) [[1, - 11, 3], [1, - 12, - 3], [- 1, - 13, 3], [- 1, - 14, - 3]] \<longleftrightarrow>
      cnf_sat (\<lambda>x. x \<in> {1, 11, 14}) R) \<and>
     (cnf_sat (\<lambda>x. x \<in> {1, 11, 14}) R \<longleftrightarrow>
      ((3::int) \<in> {1, 11, 14}) = tree_value (env_defaults toy_final_env) toy_root (\<lambda>x. x \<in> {1, 11, 14}))"
proof (rule tree_clauses_are_function [OF toy_tree_documented _ _ _ _ toy_run])
  show "list_all (lit_true (\<lambda>x. x \<in> {1, 11, 14})) (env_assumptions toy_final_env) \<or>
      list_all (lit_true (\<lambda>x. x \<in> {1, 11, 14})) (env_defaults toy_final_env)"
    by (simp add: toy_final_env_def lit_true_def)
qed (simp_all add: toy_tree_def toy_final_def toy_dimensions_def)

section \<open>Two oddities\<close>

text \<open>
  A sample that does not split its leaf flips the leaf's label, whether or not the majority
  class of the learner changed.
\<close>

lemma label_flips_regardless:
  assumes "default_index sw < length (env_defaults e)" "default_index sw \<noteq> default_index2 sw"
    and "env_defaults e ! default_index sw \<noteq> 0"
  shows "tree_value (env_defaults (toggleSwitches sw e)) (Leaf_Node b sw) \<gamma> \<noteq>
    tree_value (env_defaults e) (Leaf_Node b sw) \<gamma>"
  using assms by (auto simp: toggleSwitches_def flip_def)

text \<open>After a batch the path of a right child has the literal of its left sibling.\<close>

lemma batch_right_path:
  assumes "setChildren_batch st split True True e = (l, r, e')"
  shows "getPath (Inner_Node b sw split l r) [1] = getPath (Inner_Node b sw split l r) [0]"
  using assms by (auto simp: setChildren_batch_def Let_def)

end
