(* ===== verification/DefaultValues_Correct.thy ===== *)
theory DefaultValues_Correct
  imports DefaultValues HoeffdingTree_Correct
begin

text \<open>
  The default clauses \<open>src/defaultvaluecontainer.cc\<close> has handed out for a variable, read under the
  current selectors, against \<open>getCertificate\<close>. The constant default is a leaf with an empty path,
  so the invariant is the one of the trees: the constant counts until the first split.
\<close>

section \<open>The constant as a leaf\<close>

definition fixed_leaf :: "'h default_container \<Rightarrow> int \<Rightarrow> (int list \<times> switches) list" where
  "fixed_leaf d v =
     (case (positive_assumptions d v, positive_selectors d v, negative_assumptions d v, negative_selectors d v) of
        (Some pa, Some ps, Some na, Some ns) \<Rightarrow>
          [([], \<lparr>assumptions_index = pa, default_index = ps, assumptions_index2 = na, default_index2 = ns\<rparr>)]
      | _ \<Rightarrow> [])"

definition fixed_some :: "'h default_container \<Rightarrow> int \<Rightarrow> bool" where
  "fixed_some d v \<longleftrightarrow> positive_assumptions d v \<noteq> None \<and> positive_selectors d v \<noteq> None \<and>
     negative_assumptions d v \<noteq> None \<and> negative_selectors d v \<noteq> None"

definition fixed_none :: "'h default_container \<Rightarrow> int \<Rightarrow> bool" where
  "fixed_none d v \<longleftrightarrow> positive_assumptions d v = None \<and> positive_selectors d v = None \<and>
     negative_assumptions d v = None \<and> negative_selectors d v = None"

lemma fixed_leaf_none [simp]: "fixed_none d v \<Longrightarrow> fixed_leaf d v = []"
  by (simp add: fixed_none_def fixed_leaf_def)

definition variable_ok ::
  "'h mlpack_tree \<Rightarrow> ('h \<Rightarrow> nat) \<Rightarrow> (int \<Rightarrow> clause list) \<Rightarrow> 'h default_container \<Rightarrow> env \<Rightarrow> int \<Rightarrow> bool" where
  "variable_ok api dimensions K d e v \<longleftrightarrow>
     0 < v \<and> (fixed_some d v \<or> fixed_none d v) \<and>
     (case default_trees d v of
        None \<Rightarrow> fixed_some d v \<and> clause_inv v (K v) (fixed_leaf d v) (env_assumptions e) (env_defaults e)
      | Some t \<Rightarrow> list_all (\<lambda>x. 0 < x) (tree_dependencies t) \<and>
          tree_inv api dimensions v (tree_dependencies t) (fixed_leaf d v) (K v) t e \<and>
          (root_selector_tree t = None \<longleftrightarrow> fixed_some d v))"

definition container_ok ::
  "'h mlpack_tree \<Rightarrow> ('h \<Rightarrow> nat) \<Rightarrow> (int \<Rightarrow> clause list) \<Rightarrow> 'h default_container \<Rightarrow> env \<Rightarrow> bool" where
  "container_ok api dimensions K d e \<longleftrightarrow>
     0 \<le> env_last e \<and>
     (\<forall>v. useDefault d v \<longrightarrow> variable_ok api dimensions K d e v) \<and>
     (\<forall>v. \<not> useDefault d v \<longrightarrow> K v = []) \<and>
     (\<forall>v. selectors_of (K v) \<subseteq> {1..env_last e}) \<and>
     (\<forall>u v. u \<noteq> v \<longrightarrow> selectors_of (K u) \<inter> selectors_of (K v) = {})"

text \<open>The variable's part does not see what happens to other entries.\<close>

lemma clause_inv_changes:
  assumes "clause_inv v C L (env_assumptions e) (env_defaults e)" "changes_only S e e'" "selectors_of C \<inter> S = {}"
  shows "clause_inv v C L (env_assumptions e') (env_defaults e')"
  using assms by (intro clause_inv_others [OF assms(1)]) (auto simp: changes_only_def)

lemma variable_ok_changes:
  assumes ok: "variable_ok api dimensions K d e v" and ch: "changes_only S e e'" and S: "selectors_of (K v) \<inter> S = {}"
    and same: "K' v = K v" "default_trees d' v = default_trees d v" "positive_assumptions d' v = positive_assumptions d v"
      "positive_selectors d' v = positive_selectors d v" "negative_assumptions d' v = negative_assumptions d v"
      "negative_selectors d' v = negative_selectors d v"
  shows "variable_ok api dimensions K' d' e' v"
proof -
  have eqs: "fixed_leaf d' v = fixed_leaf d v" "fixed_some d' v = fixed_some d v" "fixed_none d' v = fixed_none d v"
    by (simp_all add: fixed_leaf_def fixed_some_def fixed_none_def same)
  have last: "env_last e \<le> env_last e'" using ch by (simp add: changes_only_def)
  show ?thesis
    using ok last clause_inv_changes [OF _ ch S]
    unfolding variable_ok_def eqs same tree_inv_def by (auto split: option.splits)
qed

lemma container_ok_step:
  assumes ok: "container_ok api dimensions K d e"
    and ch: "changes_only (selectors_of (K v)) e e'"
    and new: "selectors_of cs \<subseteq> {env_last e<..env_last e'}"
    and same: "\<And>u. u \<noteq> v \<Longrightarrow> default_trees d' u = default_trees d u \<and>
      positive_assumptions d' u = positive_assumptions d u \<and> positive_selectors d' u = positive_selectors d u \<and>
      negative_assumptions d' u = negative_assumptions d u \<and> negative_selectors d' u = negative_selectors d u"
    and use: "\<And>u. u \<noteq> v \<Longrightarrow> useDefault d' u = useDefault d u" "useDefault d' v"
    and this_ok: "variable_ok api dimensions (K(v := K v @ cs)) d' e' v"
  shows "container_ok api dimensions (K(v := K v @ cs)) d' e'"
proof -
  have last: "env_last e \<le> env_last e'" using ch by (simp add: changes_only_def)
  have disj: "u \<noteq> w \<Longrightarrow> selectors_of (K u) \<inter> selectors_of (K w) = {}"
    and bound: "selectors_of (K u) \<subseteq> {1..env_last e}" and pos: "0 \<le> env_last e" for u w
    using ok by (auto simp: container_ok_def)
  have sel: "selectors_of (K v @ cs) = selectors_of (K v) \<union> selectors_of cs" by (auto simp: selectors_of_def)
  have fresh: "selectors_of (K u) \<inter> selectors_of cs = {}" for u using bound [of u] new by fastforce
  have "variable_ok api dimensions (K(v := K v @ cs)) d' e' u" if u: "useDefault d' u" for u
  proof (cases "u = v")
    case False
    have "variable_ok api dimensions K d e u" using ok u use(1) [OF False] by (simp add: container_ok_def)
    from variable_ok_changes [where K' = "K(v := K v @ cs)" and d' = d', OF this ch disj [OF False]]
    show ?thesis using same [OF False] False by simp
  qed (use this_ok in simp)
  moreover have "selectors_of ((K(v := K v @ cs)) u) \<subseteq> {1..env_last e'}" for u
    using bound [of u] last new pos by (auto simp: sel)
  moreover have "selectors_of ((K(v := K v @ cs)) u) \<inter> selectors_of ((K(v := K v @ cs)) w) = {}" if "u \<noteq> w" for u w
    using disj [OF that] fresh [of u] fresh [of w] that by (auto simp: sel)
  moreover have "(K(v := K v @ cs)) u = []" if "\<not> useDefault d' u" for u
    using that use ok by (cases "u = v") (auto simp: container_ok_def)
  ultimately show ?thesis using last pos by (simp add: container_ok_def)
qed

section \<open>The steps\<close>

text \<open>Setting the polarity keeps the signs opposite: it is nothing or a toggle.\<close>

lemma set_signs_toggle:
  assumes inv: "clause_inv v C (L1 @ (p, sw) # L2) A D"
  shows "clause_inv v C (L1 @ (p, sw) # L2)
    (set_sign (\<not> b) (assumptions_index2 sw) (set_sign b (assumptions_index sw) A))
    (set_sign (\<not> b) (default_index2 sw) (set_sign b (default_index sw) D))"
proof -
  have ok: "leaf_ok (selectors_of C) A D sw" using clause_invD(3) [OF inv, of "(p, sw)"] by simp
  have differ: "assumptions_index sw \<noteq> assumptions_index2 sw" "default_index sw \<noteq> default_index2 sw"
    using clause_invD(1,2) [OF inv] by simp_all
  have signs: "set_sign c i xs = (if (0 < xs ! i) = c then xs else flip i xs)" if "xs ! i \<noteq> 0" for c i and xs :: "int list"
    using that by (auto simp: set_sign_def flip_def list_update_same_conv)
  have other: "flip i xs ! j = xs ! j" if "i \<noteq> j" for i j and xs :: "int list"
    using that by (simp add: flip_def)
  have A: "A ! assumptions_index sw \<noteq> 0" "A ! assumptions_index2 sw \<noteq> 0" "0 < A ! assumptions_index sw \<longleftrightarrow> \<not> 0 < A ! assumptions_index2 sw"
    and D: "D ! default_index sw \<noteq> 0" "D ! default_index2 sw \<noteq> 0" "0 < D ! default_index sw \<longleftrightarrow> \<not> 0 < D ! default_index2 sw"
    and AD: "0 < A ! assumptions_index sw \<longleftrightarrow> 0 < D ! default_index sw"
    using ok by (auto simp: leaf_ok_def)
  have "(set_sign (\<not> b) (assumptions_index2 sw) (set_sign b (assumptions_index sw) A) = A \<and>
      set_sign (\<not> b) (default_index2 sw) (set_sign b (default_index sw) D) = D) \<or>
    (set_sign (\<not> b) (assumptions_index2 sw) (set_sign b (assumptions_index sw) A) =
        flip (assumptions_index2 sw) (flip (assumptions_index sw) A) \<and>
      set_sign (\<not> b) (default_index2 sw) (set_sign b (default_index sw) D) =
        flip (default_index2 sw) (flip (default_index sw) D))"
    using A D AD by (cases b; cases "0 < A ! assumptions_index sw"; simp add: signs other differ)
  with inv clause_inv_toggle [OF inv] show ?thesis by (elim disjE) simp_all
qed

lemma fixed_leaf_some:
  assumes "positive_assumptions d v = Some pa" "negative_assumptions d v = Some na"
    "positive_selectors d v = Some ps" "negative_selectors d v = Some ns"
  shows "fixed_leaf d v =
    [([], \<lparr>assumptions_index = pa, default_index = ps, assumptions_index2 = na, default_index2 = ns\<rparr>)]"
  using assms by (simp add: fixed_leaf_def)

definition deps_of :: "'h default_container \<Rightarrow> int \<Rightarrow> int set" where
  "deps_of d v = (case default_trees d v of None \<Rightarrow> {} | Some t \<Rightarrow> abs ` set (tree_dependencies t))"

lemma polarity_step:
  assumes ok: "container_ok api dimensions K d e" and use: "useDefault d v"
    and set: "setFixedDefaultPolarityUnchecked v b d e = Some e'"
  shows "container_ok api dimensions K d e' \<and> grows e e' \<and> changes_only (selectors_of (K v)) e e'"
proof -
  obtain pa na ps ns where ix: "positive_assumptions d v = Some pa" "negative_assumptions d v = Some na"
      "positive_selectors d v = Some ps" "negative_selectors d v = Some ns"
    and e': "e' = e\<lparr>env_assumptions := set_sign (\<not> b) na (set_sign b pa (env_assumptions e)),
                     env_defaults := set_sign (\<not> b) ns (set_sign b ps (env_defaults e))\<rparr>"
    using set unfolding setFixedDefaultPolarityUnchecked_def by (auto split: bind_split_asm)
  define sw where "sw = \<lparr>assumptions_index = pa, default_index = ps, assumptions_index2 = na, default_index2 = ns\<rparr>"
  have leaf: "fixed_leaf d v = [([], sw)]" by (simp add: fixed_leaf_some [OF ix] sw_def)
  have var: "variable_ok api dimensions K d e v" using ok use by (simp add: container_ok_def)
  have some: "fixed_some d v" by (simp add: fixed_some_def ix)
  then have inv: "clause_inv v (K v) ([] @ ([], sw) # []) (env_assumptions e) (env_defaults e)"
    using var unfolding variable_ok_def tree_inv_def leaf by (auto split: option.splits)
  have e'_sw: "e' = e\<lparr>env_assumptions := set_sign (\<not> b) (assumptions_index2 sw) (set_sign b (assumptions_index sw) (env_assumptions e)),
                       env_defaults := set_sign (\<not> b) (default_index2 sw) (set_sign b (default_index sw) (env_defaults e))\<rparr>"
    by (simp add: e' sw_def)
  have "changes_only (selectors_of (K v)) e e'" unfolding e'_sw by (rule changes_only_signs(1) [OF inv])
  moreover have "clause_inv v (K v) [([], sw)] (env_assumptions e') (env_defaults e')"
    using set_signs_toggle [OF inv, of b] by (simp add: e'_sw)
  then have "variable_ok api dimensions (K(v := K v @ [])) d e' v"
    using var some unfolding variable_ok_def tree_inv_def leaf by (auto simp: e'_sw split: option.splits)
  ultimately have "container_ok api dimensions (K(v := K v @ [])) d e'"
    using container_ok_step [OF ok, of v e' "[]" d] use by (simp add: selectors_of_def)
  moreover have "grows e e'" unfolding e' by (rule grows_signs(1))
  moreover have "changes_only (selectors_of (K v)) e e'" unfolding e'_sw by (rule changes_only_signs(1) [OF inv])
  ultimately show ?thesis by simp
qed

lemma init_tree_fields:
  assumes "init_tree learner conf c v d = Some d'"
  shows "variables_with_defaults d' = variables_with_defaults d" "positive_assumptions d' = positive_assumptions d"
    "negative_assumptions d' = negative_assumptions d" "positive_selectors d' = positive_selectors d"
    "negative_selectors d' = negative_selectors d" "use_ml_trees d' = use_ml_trees d"
    "u \<noteq> v \<Longrightarrow> default_trees d' u = default_trees d u"
    "default_trees d v = None \<Longrightarrow> default_trees d' v = None \<or>
       (\<exists>space. default_trees d' v = Some (new_HoeffdingDefaultTree v space (learner (length space))) \<and>
         (getExtendedDependencies v c = Some space \<or> getDependencies v c = Some space))"
  using assms unfolding init_tree_def Let_def emplace_def
  by (auto split: if_splits bind_split_asm option.splits)

text \<open>Dependencies are variables of the formula.\<close>

definition positive_dependencies :: "dep_container \<Rightarrow> bool" where
  "positive_dependencies c \<longleftrightarrow>
     (\<forall>v space. getExtendedDependencies v c = Some space \<or> getDependencies v c = Some space \<longrightarrow>
        list_all (\<lambda>x. 0 < x) space)"

definition learner_ok :: "'h mlpack_tree \<Rightarrow> ('h \<Rightarrow> nat) \<Rightarrow> (nat \<Rightarrow> 'h) \<Rightarrow> bool" where
  "learner_ok api dimensions learner \<longleftrightarrow>
     (\<forall>n. num_children api (learner n) = 0 \<and> dimensions (learner n) = n)"

lemma init_step:
  assumes ok: "container_ok api dimensions K d e" and new: "\<not> useDefault d v" "default_trees d v = None" and v: "0 < v"
    and learner: "learner_ok api dimensions learner" and deps: "positive_dependencies c"
    and init: "init_variable learner conf c v d e = Some ((v', cs), d', e')"
  shows "v' = v \<and> container_ok api dimensions (K(v := K v @ cs)) d' e' \<and>
    (\<forall>u. u \<noteq> v \<longrightarrow> useDefault d' u = useDefault d u \<and> default_trees d' u = default_trees d u) \<and>
    dv_existentials d' = dv_existentials d \<and> grows e e' \<and> changes_only {} e e' \<and>
    cnf_vars cs \<subseteq> {v} \<union> {env_last e<..env_last e'} \<and> selectors_of cs \<subseteq> {env_last e<..env_last e'} \<and>
    (default_trees d' v = None \<or>
       (\<exists>space. deps_of d' v = abs ` set space \<and> (getExtendedDependencies v c = Some space \<or> getDependencies v c = Some space)))"
proof -
  define d0 where "d0 = d\<lparr>variables_with_defaults := insert v (variables_with_defaults d)\<rparr>"
  obtain d1 where d1: "init_tree learner conf c v d0 = Some d1"
    and rest: "(let (sel1, sel2, d, e) = newFixedDefaultSelector v d1 e in
        Some ((v, [[- sel1, v], [- sel2, - v]]), d, e)) = Some ((v', cs), d', e')"
    using init unfolding init_variable_def d0_def by (auto split: bind_split_asm)
  let ?a = "length (env_assumptions e)" and ?s = "length (env_defaults e)" and ?n = "env_last e"
  have res: "v' = v" "cs = [[- (?n + 1), v], [- (?n + 2), - v]]"
      "d' = d1\<lparr>positive_assumptions := (positive_assumptions d1)(v \<mapsto> ?a),
            negative_assumptions := (negative_assumptions d1)(v \<mapsto> ?a + 1),
            positive_selectors := (positive_selectors d1)(v \<mapsto> ?s),
            negative_selectors := (negative_selectors d1)(v \<mapsto> ?s + 1)\<rparr>"
      "e' = e\<lparr>env_last := ?n + 2, env_assumptions := env_assumptions e @ [?n + 1, - (?n + 2)],
            env_defaults := env_defaults e @ [?n + 1, - (?n + 2)]\<rparr>"
    using rest by (auto simp: newFixedDefaultSelector_def Let_def)
  note tree = init_tree_fields [OF d1]
  have d0: "default_trees d0 = default_trees d" "variables_with_defaults d0 = insert v (variables_with_defaults d)"
      "positive_assumptions d0 = positive_assumptions d" "negative_assumptions d0 = negative_assumptions d"
      "positive_selectors d0 = positive_selectors d" "negative_selectors d0 = negative_selectors d"
      "dv_existentials d0 = dv_existentials d"
    by (simp_all add: d0_def)
  have K: "K v = []" "0 \<le> ?n" using ok new(1) by (simp_all add: container_ok_def)
  let ?sw = "\<lparr>assumptions_index = ?a, default_index = ?s, assumptions_index2 = ?a + 1, default_index2 = ?s + 1\<rparr>"
  have leaf: "fixed_leaf d' v = [([], ?sw)]" by (simp add: fixed_leaf_def res(3))
  have some: "fixed_some d' v" by (simp add: fixed_some_def res(3))
  have "clause_inv v ([] @ [[] @ [- \<bar>?n + 1\<bar>, v], [] @ [- \<bar>- (?n + 2)\<bar>, - v]]) ([] @ ([], ?sw) # [])
      (env_assumptions e @ [?n + 1, - (?n + 2)]) (env_defaults e @ [?n + 1, - (?n + 2)])"
    by (rule clause_inv_add) (use K in \<open>simp_all add: clause_inv_def\<close>)
  moreover have "\<bar>?n + 1\<bar> = ?n + 1" "\<bar>- (?n + 2)\<bar> = ?n + 2" using K(2) by linarith+
  ultimately have inv: "clause_inv v (K v @ cs) (fixed_leaf d' v) (env_assumptions e') (env_defaults e')"
    unfolding leaf by (simp add: res K algebra_simps)
  have this_ok: "variable_ok api dimensions (K(v := K v @ cs)) d' e' v"
  proof (cases "default_trees d1 v")
    case None
    with some inv v show ?thesis by (simp add: variable_ok_def res(3))
  next
    case (Some t)
    with tree(8) new(2) d0(1) obtain space where t: "t = new_HoeffdingDefaultTree v space (learner (length space))"
      and space: "getExtendedDependencies v c = Some space \<or> getDependencies v c = Some space" by auto
    have "list_all (\<lambda>x. 0 < x) space" using deps space unfolding positive_dependencies_def by blast
    then have "list_all (\<lambda>x. 0 < x) (tree_dependencies t)" by (simp add: t new_HoeffdingDefaultTree_def list_all_iff)
    moreover have "tree_inv api dimensions v (tree_dependencies t) (fixed_leaf d' v) (K v @ cs) t e'"
      using inv learner K by (simp add: tree_inv_def t new_HoeffdingDefaultTree_def learner_ok_def res(4))
    ultimately show ?thesis using some v Some by (simp add: variable_ok_def res(3) t new_HoeffdingDefaultTree_def)
  qed
  have "container_ok api dimensions (K(v := K v @ cs)) d' e'"
  proof (rule container_ok_step [OF ok _ _ _ _ _ this_ok])
    show "changes_only (selectors_of (K v)) e e'" by (simp add: res(4) changes_only_def others_keep_append)
    show "selectors_of cs \<subseteq> {env_last e<..env_last e'}" using K(2) by (simp add: res(2,4) selectors_of_def)
  qed (use tree d0 in \<open>simp_all add: res(3) useDefault_def\<close>)
  moreover have "dv_existentials d1 = dv_existentials d0"
    using d1 unfolding init_tree_def Let_def by (auto split: if_splits bind_split_asm)
  moreover have "[?n + 1..?n + 2] = [?n + 1, ?n + 2]" by (simp add: upto.simps)
  then have "grows e e'" using K(2) by (simp add: res(4) grows_def)
  moreover have "changes_only {} e e'" by (simp add: res(4) changes_only_def others_keep_append)
  moreover have "cnf_vars cs \<subseteq> {v} \<union> {env_last e<..env_last e'}" using K(2) v by (auto simp: res(2,4))
  moreover have "selectors_of cs \<subseteq> {env_last e<..env_last e'}" using K(2) by (simp add: res(2,4) selectors_of_def)
  moreover have "default_trees d' v = None \<or>
      (\<exists>space. deps_of d' v = abs ` set space \<and> (getExtendedDependencies v c = Some space \<or> getDependencies v c = Some space))"
    using tree(8) new(2) d0(1) by (auto simp: res(3) deps_of_def new_HoeffdingDefaultTree_def)
  ultimately show ?thesis using tree d0 by (simp add: res(1) res(3) useDefault_def)
qed

lemma init_loop:
  assumes learner: "learner_ok api dimensions learner" and deps: "positive_dependencies c"
  shows "init_defaults learner conf c undefineds vs d e = Some (rs, d', e') \<Longrightarrow>
    container_ok api dimensions K d e \<Longrightarrow> distinct vs \<Longrightarrow> list_all (\<lambda>v. 0 < v) vs \<Longrightarrow>
    \<forall>v\<in>set vs. \<not> useDefault d v \<and> default_trees d v = None \<Longrightarrow>
    container_ok api dimensions (fold (\<lambda>(v, cs) K. K(v := K v @ cs)) rs K) d' e' \<and>
    dv_existentials d' = dv_existentials d \<and> grows e e' \<and> changes_only {} e e' \<and>
    (\<forall>(v, cs)\<in>set rs. v \<in> set vs \<and> cnf_vars cs \<subseteq> {v} \<union> {env_last e<..env_last e'} \<and>
       selectors_of cs \<subseteq> {env_last e<..env_last e'}) \<and>
    (\<forall>v. v \<notin> set vs \<longrightarrow> useDefault d' v = useDefault d v \<and> default_trees d' v = default_trees d v) \<and>
    (\<forall>v. default_trees d' v = default_trees d v \<or>
       (\<exists>space. deps_of d' v = abs ` set space \<and> (getExtendedDependencies v c = Some space \<or> getDependencies v c = Some space)))"
proof (induction vs arbitrary: d e rs K)
  case Nil
  then show ?case by simp
next
  case (Cons v vs)
  show ?case
  proof (cases "isUndefined undefineds v")
    case False
    with Cons.prems Cons.IH [of d e rs K] show ?thesis by (auto simp: split_def)
  next
    case True
    with Cons.prems(1) obtain r d1 e1 rs1 where 1: "init_variable learner conf c v d e = Some (r, d1, e1)"
        "init_defaults learner conf c undefineds vs d1 e1 = Some (rs1, d', e')" "rs = r # rs1"
      by (auto split: bind_split_asm)
    obtain v' cs where r: "r = (v', cs)" by (cases r)
    from init_step [OF Cons.prems(2) _ _ _ learner deps 1(1) [unfolded r]] Cons.prems(4,5)
    have step: "v' = v" "container_ok api dimensions (K(v := K v @ cs)) d1 e1"
        "\<And>u. u \<noteq> v \<Longrightarrow> useDefault d1 u = useDefault d u \<and> default_trees d1 u = default_trees d u"
        "dv_existentials d1 = dv_existentials d" "grows e e1" "changes_only {} e e1"
        "cnf_vars cs \<subseteq> {v} \<union> {env_last e<..env_last e1} \<and> selectors_of cs \<subseteq> {env_last e<..env_last e1}"
        "default_trees d1 v = None \<or> (\<exists>space. deps_of d1 v = abs ` set space \<and>
           (getExtendedDependencies v c = Some space \<or> getDependencies v c = Some space))" by auto
    have "\<forall>u\<in>set vs. \<not> useDefault d1 u \<and> default_trees d1 u = None"
    proof
      fix u assume "u \<in> set vs"
      then have "u \<noteq> v" using Cons.prems(3) by auto
      with step(3) [OF this] Cons.prems(5) \<open>u \<in> set vs\<close>
      show "\<not> useDefault d1 u \<and> default_trees d1 u = None" by simp
    qed
    have "distinct vs" "list_all (\<lambda>v. 0 < v) vs" using Cons.prems(3,4) by simp_all
    from Cons.IH [OF 1(2) step(2) this \<open>\<forall>u\<in>set vs. \<not> useDefault d1 u \<and> default_trees d1 u = None\<close>]
    have IH: "container_ok api dimensions (fold (\<lambda>(v, cs) K. K(v := K v @ cs)) rs1 (K(v := K v @ cs))) d' e'"
        "dv_existentials d' = dv_existentials d1" "grows e1 e'" "changes_only {} e1 e'"
        "\<And>u ds. (u, ds) \<in> set rs1 \<Longrightarrow> u \<in> set vs \<and> cnf_vars ds \<subseteq> {u} \<union> {env_last e1<..env_last e'} \<and>
           selectors_of ds \<subseteq> {env_last e1<..env_last e'}"
        "\<And>u. u \<notin> set vs \<Longrightarrow> useDefault d' u = useDefault d1 u \<and> default_trees d' u = default_trees d1 u"
        "\<And>u. default_trees d' u = default_trees d1 u \<or> (\<exists>space. deps_of d' u = abs ` set space \<and>
           (getExtendedDependencies u c = Some space \<or> getDependencies u c = Some space))" by blast+
    have last: "env_last e \<le> env_last e1" "env_last e1 \<le> env_last e'" using step(5) IH(3) by (simp_all add: grows_def)
    have "x \<in> set rs \<Longrightarrow> case x of (u, ds) \<Rightarrow> u \<in> set (v # vs) \<and> cnf_vars ds \<subseteq> {u} \<union> {env_last e<..env_last e'} \<and>
        selectors_of ds \<subseteq> {env_last e<..env_last e'}" for x
      using IH(5) [of "fst x" "snd x"] step(1,7) 1(3) r last by (cases x) fastforce
    moreover have "default_trees d' u = default_trees d u \<or> (\<exists>space. deps_of d' u = abs ` set space \<and>
           (getExtendedDependencies u c = Some space \<or> getDependencies u c = Some space))" for u
    proof (cases "u = v")
      case True
      then have same: "default_trees d' v = default_trees d1 v" using IH(6) Cons.prems(3) by simp
      then have "deps_of d' v = deps_of d1 v" by (simp add: deps_of_def)
      then show ?thesis using step(8) True Cons.prems(5) same by simp
    next
      case False
      then show ?thesis using IH(7) [of u] step(3) [OF False] by simp
    qed
    moreover have "container_ok api dimensions (fold (\<lambda>(v, cs) K. K(v := K v @ cs)) rs K) d' e'"
      using IH(1) unfolding 1(3) r step(1) by (simp only: fold.simps o_apply prod.case)
    moreover have "u \<notin> set (v # vs) \<Longrightarrow> useDefault d' u = useDefault d u \<and> default_trees d' u = default_trees d u" for u
      using IH(6) [of u] step(3) [of u] by simp
    moreover note IH(2) step(4) env_grows_trans [OF step(5) IH(3)] changes_only_trans [OF step(6) IH(4)]
    ultimately show ?thesis by (intro conjI allI ballI impI) (assumption | simp)+
  qed
qed

lemma insert_root:
  assumes "tree_insertConflict api l sample t e = Some (cs, t', e')"
  shows "cs = [] \<Longrightarrow> root_selector_tree t' = root_selector_tree t" "cs \<noteq> [] \<Longrightarrow> root_selector_tree t' \<noteq> None"
    "tree_dependencies t' = tree_dependencies t"
  using assms unfolding tree_insertConflict_def getClauses_def setupClauses_def Let_def
  by (auto split: bind_split_asm if_splits option.splits prod.splits)

lemma insert_step:
  assumes doc: "mlpack_documented api dimensions" and ok: "container_ok api dimensions K d e"
    and ins: "dv_insertConflict api l sample d e = Some (cs, d', e')"
  shows "container_ok api dimensions (K(var l := K (var l) @ cs)) d' e' \<and> dv_existentials d' = dv_existentials d \<and>
    grows e e' \<and> changes_only (selectors_of (K (var l))) e e' \<and>
    cnf_vars cs \<subseteq> deps_of d (var l) \<union> {var l} \<union> {env_last e<..env_last e'} \<and>
    selectors_of cs \<subseteq> {env_last e<..env_last e'} \<and>
    (\<forall>u. useDefault d' u = useDefault d u \<and> deps_of d' u = deps_of d u) \<and> (cs \<noteq> [] \<longrightarrow> useDefault d (var l))"
proof (cases "useDefault d (var l)")
  case False
  with ins ok show ?thesis by (simp add: dv_insertConflict_def Let_def selectors_of_def)
next
  case use: True
  let ?v = "var l"
  show ?thesis
  proof (cases "\<not> use_ml_trees d \<or> \<not> treeIsAvailable d ?v")
    case True
    with ins use have "setFixedDefaultPolarityUnchecked ?v (0 < l) d e = Some e'" "cs = []" "d' = d"
      by (auto simp: dv_insertConflict_def Let_def split: bind_split_asm)
    with polarity_step [OF ok use] show ?thesis by (simp add: selectors_of_def)
  next
    case False
    then obtain t where t: "default_trees d ?v = Some t" by (auto simp: treeIsAvailable_def)
    obtain e1 cs1 t1 e2 where e1: "(if tree_empty api t then setFixedDefaultPolarityUnchecked ?v (0 < l) d e else Some e) = Some e1"
      and tree: "tree_insertConflict api l sample t e1 = Some (cs1, t1, e2)"
      and rest: "(let d = d\<lparr>nof_insertions := (nof_insertions d)(?v \<mapsto>
            (case nof_insertions d ?v of None \<Rightarrow> 0 | Some n \<Rightarrow> n) + 1), default_trees := (default_trees d)(?v \<mapsto> t1)\<rparr> in
          if tree_empty api t \<and> cs1 \<noteq> [] then do {
             (d, e) \<leftarrow> disableFixedDefaults ?v d e2;
             Some (cs1, d\<lparr>nof_default_clauses := count_default_clauses ?v (nof_default_clauses d)\<rparr>, e) }
          else Some (cs1, d, e2)) = Some (cs, d', e')"
      using ins use False t unfolding dv_insertConflict_def Let_def by (auto split: bind_split_asm)
    have ok1: "container_ok api dimensions K d e1" and grow1: "grows e e1" "changes_only (selectors_of (K ?v)) e e1"
      using e1 polarity_step [OF ok use] ok by (auto split: if_splits)
    then have var1: "variable_ok api dimensions K d e1 ?v" using use by (simp add: container_ok_def)
    let ?deps = "tree_dependencies t"
    have inv1: "tree_inv api dimensions ?v ?deps (fixed_leaf d ?v) (K ?v) t e1"
      and deps: "list_all (\<lambda>x. 0 < x) ?deps" and root: "root_selector_tree t = None \<longleftrightarrow> fixed_some d ?v"
      and v: "0 < ?v" "fixed_some d ?v \<or> fixed_none d ?v"
      using var1 t by (auto simp: variable_ok_def)
    note step = tree_inv_insert [OF doc inv1 tree]
    note grown = insert_root [OF tree]
    define d2 where "d2 = d\<lparr>nof_insertions := (nof_insertions d)(?v \<mapsto>
            (case nof_insertions d ?v of None \<Rightarrow> 0 | Some n \<Rightarrow> n) + 1), default_trees := (default_trees d)(?v \<mapsto> t1)\<rparr>"
    have d2: "default_trees d2 = (default_trees d)(?v \<mapsto> t1)" "positive_assumptions d2 = positive_assumptions d"
        "negative_assumptions d2 = negative_assumptions d" "positive_selectors d2 = positive_selectors d"
        "negative_selectors d2 = negative_selectors d" "variables_with_defaults d2 = variables_with_defaults d"
        "dv_existentials d2 = dv_existentials d"
      by (simp_all add: d2_def)
    have d2_leaf: "fixed_leaf d2 ?v = fixed_leaf d ?v" "fixed_some d2 ?v = fixed_some d ?v" "fixed_none d2 ?v = fixed_none d ?v"
      by (simp_all add: fixed_leaf_def fixed_some_def fixed_none_def d2)
    have e1_last: "env_last e1 = env_last e"
      using e1 by (auto simp: setFixedDefaultPolarityUnchecked_def split: if_splits bind_split_asm)
    have deps_eq: "deps_of d ?v = abs ` set ?deps" by (simp add: deps_of_def t)
    have vars: "cnf_vars cs1 \<subseteq> deps_of d ?v \<union> {?v} \<union> {env_last e<..env_last e2}" "selectors_of cs1 \<subseteq> {env_last e<..env_last e2}"
      using step v(1) unfolding deps_eq step_vars_def e1_last by auto
    have grow2: "grows e e2" "changes_only (selectors_of (K ?v)) e e2"
      using env_grows_trans [OF grow1(1)] changes_only_trans [OF grow1(2)] step by blast+
    have deps': "deps_of d2 u = deps_of d u" for u using grown(3) t by (simp add: deps_of_def d2)
    show ?thesis
    proof (cases "tree_empty api t \<and> cs1 \<noteq> []")
      case False
      with rest have res: "cs = cs1" "d' = d2" "e' = e2" by (auto simp: Let_def d2_def)
      have "cs1 \<noteq> [] \<Longrightarrow> root_selector_tree t \<noteq> None"
        using False inv1 by (auto simp: tree_inv_def tree_empty_def isLeaf_def split: option.splits)
      then have "root_selector_tree t1 = None \<longleftrightarrow> root_selector_tree t = None"
        using grown by (cases "cs1 = []") auto
      then have "variable_ok api dimensions (K(?v := K ?v @ cs)) d' e' ?v"
        using step deps v root unfolding res variable_ok_def d2_leaf by (simp add: d2 grown(3))
      from container_ok_step [OF ok1 _ _ _ _ _ this] step use vars grow2 deps'
      show ?thesis by (simp add: res d2 useDefault_def)
    next
      case True
      then obtain d3 where d3: "disableFixedDefaults ?v d2 e2 = Some (d3, e')" "cs = cs1"
          "d' = d3\<lparr>nof_default_clauses := count_default_clauses ?v (nof_default_clauses d3)\<rparr>"
        using rest by (auto simp: Let_def d2_def [symmetric] split: bind_split_asm)
      obtain pa na ps ns where ix: "positive_assumptions d2 ?v = Some pa" "negative_assumptions d2 ?v = Some na"
          "positive_selectors d2 ?v = Some ps" "negative_selectors d2 ?v = Some ns"
        and d3_eq: "d3 = d2\<lparr>positive_assumptions := (positive_assumptions d2)(?v := None),
               negative_assumptions := (negative_assumptions d2)(?v := None),
               positive_selectors := (positive_selectors d2)(?v := None),
               negative_selectors := (negative_selectors d2)(?v := None)\<rparr>"
        and e'_eq: "e' = e2\<lparr>env_assumptions := set_sign False na (set_sign False pa (env_assumptions e2)),
               env_defaults := set_sign False ns (set_sign False ps (env_defaults e2))\<rparr>"
        using d3(1) unfolding disableFixedDefaults_def by (auto split: bind_split_asm)
      define sw where "sw = \<lparr>assumptions_index = pa, default_index = ps, assumptions_index2 = na, default_index2 = ns\<rparr>"
      have leaf: "fixed_leaf d ?v = [([], sw)]" using fixed_leaf_some [OF ix] by (simp add: d2_leaf sw_def)
      obtain st where st: "root_selector_tree t1 = Some st" using grown(2) True by auto
      have inv2: "clause_inv ?v (K ?v @ cs1) ([] @ ([], sw) # leaf_paths st []) (env_assumptions e2) (env_defaults e2)"
        using step st by (simp add: tree_inv_def leaf)
      have e'_sw: "e' = e2\<lparr>env_assumptions := set_sign False (assumptions_index2 sw) (set_sign False (assumptions_index sw) (env_assumptions e2)),
               env_defaults := set_sign False (default_index2 sw) (set_sign False (default_index sw) (env_defaults e2))\<rparr>"
        by (simp add: e'_eq sw_def)
      have none: "fixed_none d' ?v" by (simp add: fixed_none_def d3(3) d3_eq)
      have "clause_inv ?v (K ?v @ cs1) (leaf_paths st []) (env_assumptions e') (env_defaults e')"
        using clause_inv_drop [OF inv2] by (simp add: e'_sw)
      then have "variable_ok api dimensions (K(?v := K ?v @ cs)) d' e' ?v"
        using step deps v(1) st none unfolding variable_ok_def
        by (simp add: d3 d3_eq d2 grown(3) tree_inv_def e'_sw fixed_some_def fixed_none_def)
      note var' = this
      have ch: "changes_only (selectors_of (K ?v)) e1 e'"
      proof -
        have fresh: "selectors_of cs1 \<subseteq> {env_last e1<..env_last e2}" "changes_only (selectors_of (K ?v)) e1 e2"
          using step by simp_all
        have "root_selector_tree t = None"
          using True inv1 by (cases "root_selector_tree t"; cases "the (root_selector_tree t)")
            (auto simp: tree_inv_def tree_empty_def isLeaf_def)
        then have "clause_inv ?v (K ?v) [([], sw)] (env_assumptions e1) (env_defaults e1)"
          using inv1 by (simp add: tree_inv_def leaf)
        from clause_invD(3) [OF this, of "([], sw)"]
        have old: "leaf_ok (selectors_of (K ?v)) (env_assumptions e1) (env_defaults e1) sw" by simp
        have "changes_only (selectors_of (K ?v)) e2 e'"
          using old fresh(2) unfolding e'_sw changes_only_def leaf_ok_def keeps_variables_def
          by (auto intro!: others_keep_signs)
        with fresh(2) show ?thesis by (rule changes_only_trans)
      qed
      have last: "env_last e' = env_last e2" by (simp add: e'_eq)
      have "grows e2 e'" unfolding e'_eq by (rule grows_signs(1))
      then have grow3: "grows e e'" "changes_only (selectors_of (K ?v)) e e'"
        using env_grows_trans [OF grow2(1)] changes_only_trans [OF grow1(2) ch] by blast+
      have "deps_of d' u = deps_of d u" for u using deps' [of u] by (simp add: d3 d3_eq deps_of_def)
      with container_ok_step [OF ok1 ch _ _ _ _ var'] step use vars grow3
      show ?thesis by (simp add: d3 d3_eq d2 useDefault_def last)
    qed
  qed
qed

section \<open>Runs\<close>

text \<open>
  The operations in any order after the initialisation, with the clauses handed out per variable;
  in between, the other components work on their own entries of the shared vectors.
\<close>

inductive default_run ::
  "'h mlpack_tree \<Rightarrow> (nat \<Rightarrow> 'h) \<Rightarrow> bool \<Rightarrow> configuration \<Rightarrow> dep_container \<Rightarrow> int list \<Rightarrow> int list \<Rightarrow>
   (int \<Rightarrow> clause list) \<Rightarrow> 'h default_container \<Rightarrow> env \<Rightarrow> bool"
  for api :: "'h mlpack_tree" and learner :: "nat \<Rightarrow> 'h" and ml :: bool and conf :: configuration
    and c :: dep_container and undefineds :: "int list" and existentials :: "int list" where
  dv_init: "0 \<le> env_last e \<Longrightarrow>
     dv_initialize learner conf c undefineds (new_DefaultValueContainer ml conf existentials) e = Some (rs, d, e') \<Longrightarrow>
     default_run api learner ml conf c undefineds existentials
       (fold (\<lambda>(v, cs) K. K(v := K v @ cs)) rs (\<lambda>_. [])) d e'"
| dv_conflict: "default_run api learner ml conf c undefineds existentials K d e \<Longrightarrow>
     dv_insertConflict api l sample d e = Some (cs, d', e') \<Longrightarrow>
     default_run api learner ml conf c undefineds existentials (K(var l := K (var l) @ cs)) d' e'"
| dv_polarity: "default_run api learner ml conf c undefineds existentials K d e \<Longrightarrow>
     setFixedDefaultPolarity api v b d e = Some e' \<Longrightarrow>
     default_run api learner ml conf c undefineds existentials K d e'"
| dv_others: "default_run api learner ml conf c undefineds existentials K d e \<Longrightarrow>
     env_last e \<le> env_last e' \<Longrightarrow>
     (\<And>v. others_keep (selectors_of (K v)) (env_assumptions e) (env_assumptions e') \<and>
          others_keep (selectors_of (K v)) (env_defaults e) (env_defaults e')) \<Longrightarrow>
     default_run api learner ml conf c undefineds existentials K d e'"

lemma container_ok_others:
  assumes ok: "container_ok api dimensions K d e" and last: "env_last e \<le> env_last e'"
    and keep: "\<And>v. others_keep (selectors_of (K v)) (env_assumptions e) (env_assumptions e') \<and>
      others_keep (selectors_of (K v)) (env_defaults e) (env_defaults e')"
  shows "container_ok api dimensions K d e'"
proof -
  have "variable_ok api dimensions K d e v \<Longrightarrow> variable_ok api dimensions K d e' v" for v
    using keep [of v] last clause_inv_others [of v "K v" _ "env_assumptions e" "env_defaults e" "env_assumptions e'" "env_defaults e'"]
    unfolding variable_ok_def tree_inv_def by (auto split: option.splits)
  moreover have "selectors_of (K v) \<subseteq> {1..env_last e'}" for v
    using ok last unfolding container_ok_def by fastforce
  ultimately show ?thesis using ok last unfolding container_ok_def by auto
qed

lemma default_run_inv:
  assumes "mlpack_documented api dimensions" "learner_ok api dimensions learner" "positive_dependencies c"
    and "distinct existentials" "list_all (\<lambda>v. 0 < v) existentials"
    and "default_run api learner ml conf c undefineds existentials K d e"
  shows "container_ok api dimensions K d e \<and> dv_existentials d = existentials"
  using assms(6)
proof (induction rule: default_run.induct)
  case (dv_init e rs d e')
  have "container_ok api dimensions (\<lambda>_. []) (new_DefaultValueContainer ml conf existentials) e"
    using dv_init.hyps(1) by (simp add: container_ok_def useDefault_def new_DefaultValueContainer_def selectors_of_def)
  with init_loop [OF assms(2,3), of conf undefineds existentials "new_DefaultValueContainer ml conf existentials" e rs d e']
    dv_init.hyps(2) assms(4,5)
  show ?case by (simp add: dv_initialize_def new_DefaultValueContainer_def useDefault_def)
next
  case (dv_conflict K d e l sample cs d' e')
  with insert_step [OF assms(1) conjunct1 [OF dv_conflict.IH] dv_conflict.hyps(2)] show ?case by metis
next
  case (dv_polarity K d e v b e')
  then show ?case using polarity_step [of api dimensions K d e v b e']
    by (auto simp: setFixedDefaultPolarity_def split: if_splits)
next
  case (dv_others K d e e')
  then show ?case using container_ok_others by blast
qed

section \<open>The certificate\<close>

definition default_value :: "'h mlpack_tree \<Rightarrow> 'h default_container \<Rightarrow> env \<Rightarrow> int \<Rightarrow> assignment \<Rightarrow> bool" where
  "default_value api d e v \<gamma> =
     (if treeActive api d v
      then tree_value (env_defaults e) (the (root_selector_tree (the (default_trees d v)))) \<gamma>
      else env_defaults e ! the (positive_selectors d v) > 0)"

lemma variable_certificate_spec:
  assumes ok: "container_ok api dimensions K d e" and use: "useDefault d v"
    and true: "list_all (lit_true \<gamma>) (env_assumptions e) \<or> list_all (lit_true \<gamma>) (env_defaults e)"
  shows "\<exists>R. variable_certificate api d e v = Some R \<and> (cnf_sat \<gamma> (K v) \<longleftrightarrow> cnf_sat \<gamma> R) \<and>
    (cnf_sat \<gamma> R \<longleftrightarrow> \<gamma> v = default_value api d e v \<gamma>)"
proof -
  have var: "variable_ok api dimensions K d e v" using ok use by (simp add: container_ok_def)
  then have v: "0 < v" "fixed_some d v \<or> fixed_none d v" by (simp_all add: variable_ok_def)
  show ?thesis
  proof (cases "treeActive api d v")
    case True
    then obtain t where t: "default_trees d v = Some t" "num_children api (htree t) \<noteq> 0"
      by (auto simp: treeActive_def tree_empty_def isLeaf_def split: option.splits)
    have inv: "tree_inv api dimensions v (tree_dependencies t) (fixed_leaf d v) (K v) t e"
        "list_all (\<lambda>x. 0 < x) (tree_dependencies t)" "root_selector_tree t = None \<longleftrightarrow> fixed_some d v"
      using var t(1) by (simp_all add: variable_ok_def)
    then obtain st where st: "root_selector_tree t = Some st"
      using t(2) by (auto simp: tree_inv_def split: option.splits)
    with inv(3) v(2) have "fixed_leaf d v = []" by auto
    with inv(1) st have m: "mirrors api dimensions (tree_dependencies t) (htree t) st" "tree_variable t = v"
      and c: "clause_inv v (K v) (leaf_paths st []) (env_assumptions e) (env_defaults e)"
      by (simp_all add: tree_inv_def)
    have "cnf_sat \<gamma> (K v) \<longleftrightarrow> cnf_sat \<gamma> (traverseTree v (env_defaults e) st [])"
      using clause_inv_equivalent [OF c true] by (simp add: traverseTree_leaf_paths leaf_label_def)
    moreover have "cnf_sat \<gamma> (traverseTree v (env_defaults e) st []) \<longleftrightarrow> \<gamma> v = tree_value (env_defaults e) st \<gamma>"
      using traverseTree_sat [OF v(1) inv(2) m(1), of \<gamma> "env_defaults e" "[]"] by simp
    ultimately show ?thesis
      using True t st m(2) by (simp add: variable_certificate_def retrieveCompleteRepresentation_def default_value_def)
  next
    case False
    have c: "fixed_some d v \<and> clause_inv v (K v) (fixed_leaf d v) (env_assumptions e) (env_defaults e)"
    proof (cases "default_trees d v")
      case None
      with var show ?thesis by (simp add: variable_ok_def)
    next
      case (Some t)
      then have "num_children api (htree t) = 0" using False by (simp add: treeActive_def tree_empty_def isLeaf_def)
      moreover have inv: "tree_inv api dimensions v (tree_dependencies t) (fixed_leaf d v) (K v) t e"
          "root_selector_tree t = None \<longleftrightarrow> fixed_some d v"
        using var Some by (simp_all add: variable_ok_def)
      ultimately have "root_selector_tree t = None"
        by (cases "root_selector_tree t"; cases "the (root_selector_tree t)") (auto simp: tree_inv_def)
      with inv show ?thesis by (simp add: tree_inv_def)
    qed
    then obtain pa na ps ns where ix: "positive_assumptions d v = Some pa" "negative_assumptions d v = Some na"
        "positive_selectors d v = Some ps" "negative_selectors d v = Some ns" by (auto simp: fixed_some_def)
    have "cnf_sat \<gamma> (K v) \<longleftrightarrow> cnf_sat \<gamma> [[if env_defaults e ! ps > 0 then v else - v]]"
      using clause_inv_equivalent [OF conjunct2 [OF c] true] by (simp add: fixed_leaf_some [OF ix] leaf_label_def)
    then show ?thesis using False ix v(1) by (simp add: variable_certificate_def default_value_def)
  qed
qed

lemma certificate_loop_spec:
  assumes "\<And>v. v \<in> set vs \<Longrightarrow> useDefault d v \<Longrightarrow> variable_certificate api d e v \<noteq> None"
  shows "\<exists>m'. certificate_loop api d e vs m = Some m' \<and>
    (\<forall>v. m' v = (if v \<in> set vs \<and> useDefault d v then variable_certificate api d e v else m v))"
  using assms
proof (induction vs arbitrary: m)
  case Nil
  then show ?case by simp
next
  case (Cons v vs)
  show ?case
  proof (cases "useDefault d v")
    case False
    then show ?thesis using Cons.IH [of m] Cons.prems by auto
  next
    case True
    with Cons.prems obtain R where R: "variable_certificate api d e v = Some R" by fastforce
    from Cons.IH [of "m(v \<mapsto> R)"] Cons.prems obtain m' where m': "certificate_loop api d e vs (m(v \<mapsto> R)) = Some m'"
      "\<forall>u. m' u = (if u \<in> set vs \<and> useDefault d u then variable_certificate api d e u else (m(v \<mapsto> R)) u)"
      by (meson list.set_intros(2))
    with True R show ?thesis by auto
  qed
qed

lemma certificate_matches:
  assumes "container_ok api dimensions K d e" "dv_existentials d = existentials" "v \<in> set existentials" "useDefault d v"
    and true: "list_all (lit_true \<gamma>) (env_assumptions e) \<or> list_all (lit_true \<gamma>) (env_defaults e)"
  shows "\<exists>m R. getCertificate api d e = Some m \<and> m v = Some R \<and> (cnf_sat \<gamma> (K v) \<longleftrightarrow> cnf_sat \<gamma> R) \<and>
    (cnf_sat \<gamma> R \<longleftrightarrow> \<gamma> v = default_value api d e v \<gamma>)"
proof -
  note spec = variable_certificate_spec [OF assms(1) _ true]
  then have "variable_certificate api d e u \<noteq> None" if "useDefault d u" for u using that by fastforce
  from certificate_loop_spec [of existentials d api e Map.empty] this obtain m where
    m: "certificate_loop api d e existentials Map.empty = Some m"
       "\<forall>u. m u = (if u \<in> set existentials \<and> useDefault d u then variable_certificate api d e u else None)" by auto
  from spec [OF assms(4)] m assms(2-4) show ?thesis by (auto simp: getCertificate_def)
qed

text \<open>
  C9: After any run of the container, whatever it learnt and whatever the other components did to
  their own entries of the shared vectors, the default clauses handed out for a variable are,
  under the current selectors of the solvers, equivalent to the clauses the certificate gets for
  it, and both define the variable as its default value: a constant until its tree first splits,
  the label of the tree's leaf from then on.
\<close>

theorem default_clauses_match_certificate:
  assumes "mlpack_documented api dimensions" "learner_ok api dimensions learner" "positive_dependencies c"
    and "distinct existentials" "list_all (\<lambda>v. 0 < v) existentials"
    and "default_run api learner ml conf c undefineds existentials K d e"
    and "v \<in> set existentials" "useDefault d v"
    and "list_all (lit_true \<gamma>) (env_assumptions e) \<or> list_all (lit_true \<gamma>) (env_defaults e)"
  shows "\<exists>m R. getCertificate api d e = Some m \<and> m v = Some R \<and> (cnf_sat \<gamma> (K v) \<longleftrightarrow> cnf_sat \<gamma> R) \<and>
    (cnf_sat \<gamma> R \<longleftrightarrow> \<gamma> v = default_value api d e v \<gamma>)"
proof -
  have "container_ok api dimensions K d e \<and> dv_existentials d = existentials"
    by (rule default_run_inv [OF assms(1-6)])
  then show ?thesis using certificate_matches assms(7-9) by blast
qed

text \<open>Two variables, the first with a tree that splits at its second conflict.\<close>

definition sample_dependencies :: dep_container where
  "sample_dependencies = new_DependencyContainer [3 \<mapsto> [1, 2], 4 \<mapsto> []] Map.empty {1, 2} [1, 2]"

definition toy_learner :: "nat \<Rightarrow> toy" where
  "toy_learner n = Toy_Leaf n 0"

definition sample_init :: "(int \<times> clause list) list \<times> toy default_container \<times> env" where
  "sample_init = the (dv_initialize toy_learner default_configuration sample_dependencies [3, 4]
     (new_DefaultValueContainer True default_configuration [3, 4]) \<lparr>env_last = 10, env_assumptions = [7], env_defaults = []\<rparr>)"

definition sample_first :: "clause list \<times> toy default_container \<times> env" where
  "sample_first = the (dv_insertConflict toy_tree (- 3) [1, - 2] (fst (snd sample_init)) (snd (snd sample_init)))"

definition sample_second :: "clause list \<times> toy default_container \<times> env" where
  "sample_second = the (dv_insertConflict toy_tree 3 [2, 1] (fst (snd sample_first)) (snd (snd sample_first)))"

definition sample_clauses :: "int \<Rightarrow> clause list" where
  "sample_clauses =
     (let K = fold (\<lambda>(v, cs) K. K(v := K v @ cs)) (fst sample_init) (\<lambda>_. []);
          K = K(3 := K 3 @ fst sample_first)
      in K(3 := K 3 @ fst sample_second))"

lemma sample_defined:
  "case dv_initialize toy_learner default_configuration sample_dependencies [3, 4]
     (new_DefaultValueContainer True default_configuration [3, 4]) \<lparr>env_last = 10, env_assumptions = [7], env_defaults = []\<rparr>
   of None \<Rightarrow> False | Some _ \<Rightarrow> True"
  "case dv_insertConflict toy_tree (- 3) [1, - 2] (fst (snd sample_init)) (snd (snd sample_init)) of None \<Rightarrow> False | Some _ \<Rightarrow> True"
  "case dv_insertConflict toy_tree 3 [2, 1] (fst (snd sample_first)) (snd (snd sample_first)) of None \<Rightarrow> False | Some _ \<Rightarrow> True"
  by code_simp+

lemma sample_values:
  "env_defaults (snd (snd sample_second)) = [- 11, - 12, 13, - 14, 15, - 16, 17, - 18]"
  "sample_clauses 3 = [[- 11, 3], [- 12, - 3], [1, - 15, 3], [1, - 16, - 3], [- 1, - 17, 3], [- 1, - 18, - 3]]"
  by code_simp+

lemma case_the: "(case x of None \<Rightarrow> False | Some y \<Rightarrow> True) \<Longrightarrow> x = Some (the x)"
  by (cases x) auto

lemma sample_run: "default_run toy_tree toy_learner True default_configuration sample_dependencies [3, 4] [3, 4]
    sample_clauses (fst (snd sample_second)) (snd (snd sample_second))"
proof -
  note steps = sample_defined [THEN case_the, folded sample_init_def sample_first_def sample_second_def]
  obtain rs d e where init: "sample_init = (rs, d, e)" by (cases sample_init) auto
  obtain cs1 d1 e1 where first: "sample_first = (cs1, d1, e1)" by (cases sample_first) auto
  obtain cs2 d2 e2 where second: "sample_second = (cs2, d2, e2)" by (cases sample_second) auto
  note steps = steps [unfolded init first second fst_conv snd_conv]
  have "(0 :: int) \<le> env_last \<lparr>env_last = 10, env_assumptions = [7], env_defaults = []\<rparr>" by simp
  from dv_conflict [OF dv_conflict [OF dv_init [OF this steps(1)] steps(2)] steps(3)]
  show ?thesis by (simp add: sample_clauses_def init first second Let_def var_def)
qed

theorem default_clauses_match_certificate_witness:
  "\<exists>m R. getCertificate toy_tree (fst (snd sample_second)) (snd (snd sample_second)) = Some m \<and> m 3 = Some R \<and>
     (cnf_sat (\<lambda>x. x \<in> {3, 13, 15, 17}) (sample_clauses 3) \<longleftrightarrow> cnf_sat (\<lambda>x. x \<in> {3, 13, 15, 17}) R) \<and>
     (cnf_sat (\<lambda>x. x \<in> {3, 13, 15, 17}) R \<longleftrightarrow>
      ((3::int) \<in> {3, 13, 15, 17}) =
        default_value toy_tree (fst (snd sample_second)) (snd (snd sample_second)) 3 (\<lambda>x. x \<in> {3, 13, 15, 17}))"
proof (rule default_clauses_match_certificate [OF toy_tree_documented _ _ _ _ sample_run])
  show "learner_ok toy_tree toy_dimensions toy_learner"
    by (simp add: learner_ok_def toy_tree_def toy_learner_def toy_dimensions_def)
  show "positive_dependencies sample_dependencies"
    by (auto simp: positive_dependencies_def sample_dependencies_def new_DependencyContainer_def
        new_BaseDependencyContainer_def getExtendedDependencies_def getDependencies_def split: if_splits)
  show "useDefault (fst (snd sample_second)) 3" by code_simp
  show "list_all (lit_true (\<lambda>x. x \<in> {3, 13, 15, 17})) (env_assumptions (snd (snd sample_second))) \<or>
      list_all (lit_true (\<lambda>x. x \<in> {3, 13, 15, 17})) (env_defaults (snd (snd sample_second)))"
    by (simp add: sample_values lit_true_def)
qed simp_all

end
