(* ===== verification/ModelLogger.thy ===== *)
theory ModelLogger
  imports DefaultValues BuildAiger
begin

text \<open>
  \<open>src/modellogger.cc\<close>: the model found so far, by the index of the existential variable, and the
  two ways it is written. The clausal writer appends lines to a stream and counts clauses; the
  stream is the list of its lines, \<open>line_text\<close> the text of one. The order in which the code
  iterates over its map \<open>indices\<close> is not specified, so it is an argument. \<open>at\<close> on a missing key, a
  failed assertion and an index outside a vector are \<open>None\<close>.
\<close>

section \<open>State\<close>

record model_logger =
  ml_existentials :: "int list"
  ml_universals :: "int list"
  ml_indices :: "int \<rightharpoonup> nat"
  positive_forcing_clauses :: "clause list list"
  negative_forcing_clauses :: "clause list list"
  definitions_circuit :: "def_circuit list"
  definitions_cnf :: "cnf list"
  conditions :: "int list list list"
  conditional_definitions_circuit :: "def_circuit list list"
  conditional_definitions_cnf :: "cnf list list"
  max_variable_in_matrix :: int
  unused_variable :: int
  renaming_auxiliaries :: "int \<rightharpoonup> int"

definition new_ModelLogger :: "int list \<Rightarrow> int list \<Rightarrow> model_logger" where
  "new_ModelLogger existentials universals =
     \<lparr>ml_existentials = existentials, ml_universals = universals, ml_indices = Map.empty,
      positive_forcing_clauses = [], negative_forcing_clauses = [], definitions_circuit = [],
      definitions_cnf = [], conditions = [], conditional_definitions_circuit = [],
      conditional_definitions_cnf = [], max_variable_in_matrix = 0, unused_variable = 0,
      renaming_auxiliaries = Map.empty\<rparr>"

text \<open>\<open>insert\<close> keeps the first index of a variable that occurs twice.\<close>

fun index_variables :: "int list \<Rightarrow> nat \<Rightarrow> (int \<rightharpoonup> nat) \<Rightarrow> (int \<rightharpoonup> nat)" where
  "index_variables [] i m = m"
| "index_variables (e # es) i m =
     index_variables es (i + 1) (if m e = None then m(e \<mapsto> i) else m)"

definition ml_init :: "int \<Rightarrow> model_logger \<Rightarrow> model_logger" where
  "ml_init last_variable_in_matrix m =
     (let n = length (ml_existentials m) in
      m\<lparr>max_variable_in_matrix := last_variable_in_matrix,
        unused_variable := last_variable_in_matrix + 1,
        ml_indices := index_variables (ml_existentials m) 0 (ml_indices m),
        positive_forcing_clauses := replicate n [], negative_forcing_clauses := replicate n [],
        definitions_circuit := replicate n [], definitions_cnf := replicate n [],
        conditions := replicate n [], conditional_definitions_circuit := replicate n [],
        conditional_definitions_cnf := replicate n []\<rparr>)"

definition getIndex :: "int \<Rightarrow> model_logger \<Rightarrow> nat option" where
  "getIndex existential m = ml_indices m existential"

section \<open>Recording the model\<close>

definition push_at :: "nat \<Rightarrow> 'a \<Rightarrow> 'a list list \<Rightarrow> 'a list list" where
  "push_at i x xs = xs[i := xs ! i @ [x]]"

definition ml_addForcingClause :: "clause \<Rightarrow> model_logger \<Rightarrow> model_logger option" where
  "ml_addForcingClause forcing_clause m =
     (if forcing_clause = [] then None
      else do {
        let forced_literal = List.last forcing_clause;
        idx \<leftarrow> getIndex (var forced_literal) m;
        let fc = butlast forcing_clause;
        Some (if forced_literal > 0
              then m\<lparr>positive_forcing_clauses := push_at idx fc (positive_forcing_clauses m)\<rparr>
              else m\<lparr>negative_forcing_clauses := push_at idx fc (negative_forcing_clauses m)\<rparr>)
      })"

definition ml_addDefinition :: "int \<Rightarrow> cnf \<Rightarrow> def_circuit \<Rightarrow> model_logger \<Rightarrow> model_logger option" where
  "ml_addDefinition variable def_clauses gates m =
     do {
       idx \<leftarrow> getIndex variable m;
       Some (m\<lparr>definitions_circuit := (definitions_circuit m)[idx := gates],
               definitions_cnf := (definitions_cnf m)[idx := def_clauses]\<rparr>)
     }"

definition ml_addConditionalDefinition ::
  "int \<Rightarrow> int list \<Rightarrow> cnf \<Rightarrow> def_circuit \<Rightarrow> model_logger \<Rightarrow> model_logger option" where
  "ml_addConditionalDefinition variable condition def_clauses gates m =
     (if condition = [] then ml_addDefinition variable def_clauses gates m
      else do {
        idx \<leftarrow> getIndex variable m;
        Some (m\<lparr>conditions := push_at idx condition (conditions m),
                conditional_definitions_circuit := push_at idx gates (conditional_definitions_circuit m),
                conditional_definitions_cnf := push_at idx def_clauses (conditional_definitions_cnf m)\<rparr>)
      })"

section \<open>The stream\<close>

datatype model_line = Comment int | Clause_Line clause

definition clause_text :: "clause \<Rightarrow> string" where
  "clause_text c = concat (map (\<lambda>l. to_string l @ [blank]) c) @ ''0'' @ [newline]"

fun line_text :: "model_line \<Rightarrow> string" where
  "line_text (Comment e) = ''c Model for variable '' @ to_string e @ ''.'' @ [newline]"
| "line_text (Clause_Line c) = clause_text c"

text \<open>The members the writer changes, its counter and its stream.\<close>

record writer =
  next_unused :: int
  auxiliaries :: "int \<rightharpoonup> int"
  nof_clauses :: int
  stream :: "model_line list"

definition count_clauses :: "int \<Rightarrow> writer \<Rightarrow> writer" where
  "count_clauses k w = w\<lparr>nof_clauses := nof_clauses w + k\<rparr>"

definition writeClauseToStream :: "clause \<Rightarrow> writer \<Rightarrow> writer" where
  "writeClauseToStream clause w = w\<lparr>stream := stream w @ [Clause_Line clause]\<rparr>"

definition writeFormulaToStream :: "cnf \<Rightarrow> writer \<Rightarrow> writer" where
  "writeFormulaToStream formula w =
     fold writeClauseToStream formula (count_clauses (int (length formula)) w)"

text \<open>The literal that is written, with the renaming it may create.\<close>

definition writeLiteral :: "int \<Rightarrow> int \<Rightarrow> writer \<Rightarrow> int \<times> writer" where
  "writeLiteral max_variable literal w =
     (let v = var literal in
      if v > max_variable then
        case auxiliaries w v of
          None \<Rightarrow> (if literal < 0 then - next_unused w else next_unused w,
                   w\<lparr>auxiliaries := (auxiliaries w)(v \<mapsto> next_unused w), next_unused := next_unused w + 1\<rparr>)
        | Some r \<Rightarrow> (if literal < 0 then - r else r, w)
      else (literal, w))"

fun reduced_literals :: "int \<Rightarrow> clause \<Rightarrow> int list \<Rightarrow> clause \<Rightarrow> writer \<Rightarrow> clause \<times> writer" where
  "reduced_literals max_variable [] arbiter_assignment written w = (written, w)"
| "reduced_literals max_variable (l # ls) arbiter_assignment written w =
     (if binary_search arbiter_assignment (- l)
      then reduced_literals max_variable ls arbiter_assignment written w
      else let (r, w) = writeLiteral max_variable l w
           in reduced_literals max_variable ls arbiter_assignment (written @ [r]) w)"

definition writeClauseUnder :: "int \<Rightarrow> int list \<Rightarrow> clause \<Rightarrow> writer \<Rightarrow> bool \<times> writer" where
  "writeClauseUnder max_variable arbiter_assignment clause w =
     (if list_ex (binary_search arbiter_assignment) clause then (False, w)
      else let (written, w) = reduced_literals max_variable clause arbiter_assignment [] w
           in (True, writeClauseToStream written w))"

fun writeFormulaUnder :: "int \<Rightarrow> int list \<Rightarrow> cnf \<Rightarrow> writer \<Rightarrow> writer" where
  "writeFormulaUnder max_variable arbiter_assignment [] w = w"
| "writeFormulaUnder max_variable arbiter_assignment (clause # formula) w =
     (let (clause_added, w) = writeClauseUnder max_variable arbiter_assignment clause w
      in writeFormulaUnder max_variable arbiter_assignment formula
           (if clause_added then count_clauses 1 w else w))"

section \<open>Conditions and forcing clauses\<close>

fun isConditionEntailed :: "int list \<Rightarrow> int list \<Rightarrow> bool" where
  "isConditionEntailed [] assignment = True"
| "isConditionEntailed (l # condition) assignment =
     (if \<not> binary_search assignment l then False else isConditionEntailed condition assignment)"

text \<open>Whether the clause is satisfied, and what has been left of it.\<close>

fun applyAssignment :: "clause \<Rightarrow> int list \<Rightarrow> bool \<times> clause" where
  "applyAssignment [] assignment = (False, [])"
| "applyAssignment (l # clause) assignment =
     (if binary_search assignment l then (True, l # clause)
      else if binary_search assignment (- l) then applyAssignment clause assignment
      else let (satisfied, rest) = applyAssignment clause assignment in (satisfied, l # rest))"

text \<open>A variable that is true iff every literal of the clause is false.\<close>

definition writeClauseActive :: "clause \<Rightarrow> writer \<Rightarrow> int \<times> writer" where
  "writeClauseActive clause w =
     (let active = next_unused w;
          w = writeClauseToStream (clause @ [active]) (w\<lparr>next_unused := active + 1\<rparr>);
          w = fold (\<lambda>l. writeClauseToStream [- l, - active]) clause w
      in (active, count_clauses (int (length clause) + 1) w))"

fun writeForcingClauses :: "clause list \<Rightarrow> int list \<Rightarrow> int list \<Rightarrow> writer \<Rightarrow> int list \<times> writer" where
  "writeForcingClauses [] arbiter_assignment active_clauses w = (active_clauses, w)"
| "writeForcingClauses (clause # clauses) arbiter_assignment active_clauses w =
     (let (clause_satisfied, cl) = applyAssignment clause arbiter_assignment in
      if clause_satisfied then writeForcingClauses clauses arbiter_assignment active_clauses w
      else let (active, w) = writeClauseActive cl w
           in writeForcingClauses clauses arbiter_assignment (active_clauses @ [active]) w)"

definition writeClausalEncodingDefaults :: "clause list \<Rightarrow> int \<Rightarrow> writer \<Rightarrow> writer option" where
  "writeClausalEncodingDefaults default_clauses default_activator w =
     (if length default_clauses > 1
      then Some (fold (\<lambda>cl w. count_clauses 1 (writeClauseToStream (cl @ [default_activator]) w)) default_clauses w)
      else None)"

definition processConstantDefault ::
  "clause list \<Rightarrow> clause list \<Rightarrow> int list \<Rightarrow> int \<Rightarrow> writer \<Rightarrow> writer" where
  "processConstantDefault positive negative arbiter_assignment default_constant w =
     (let (active_clauses, w) =
            writeForcingClauses (if default_constant > 0 then negative else positive) arbiter_assignment [] w in
      if active_clauses = [] then count_clauses 1 (writeClauseToStream [default_constant] w)
      else
        let (none_active, w) = writeClauseActive active_clauses w;
            rule_applies = - none_active;
            w = writeClauseToStream [rule_applies, default_constant] w;
            w = writeClauseToStream [- rule_applies, - default_constant] w
        in count_clauses 2 w)"

text \<open>The variable that switches the default clauses off, when some forcing clause is left.\<close>

definition writeForced :: "int \<Rightarrow> int list \<Rightarrow> int list \<Rightarrow> writer \<Rightarrow> int \<times> writer" where
  "writeForced e positive_active negative_active w =
     (if positive_active = [] then
        let (none_active, w) = writeClauseActive negative_active w; default_active = - none_active
        in (default_active, count_clauses 1 (writeClauseToStream [- default_active, - e] w))
      else if negative_active = [] then
        let (none_active, w) = writeClauseActive positive_active w; default_active = - none_active
        in (default_active, count_clauses 1 (writeClauseToStream [- default_active, e] w))
      else
        let (no_positive, w) = writeClauseActive positive_active w; positive_fires = - no_positive;
            (no_negative, w) = writeClauseActive negative_active w; negative_fires = - no_negative;
            w = writeClauseToStream [- positive_fires, e] w;
            w = writeClauseToStream [- negative_fires, - e] w;
            (none_active, w) = writeClauseActive [positive_fires, negative_fires] w
        in (- none_active, count_clauses 3 w))"

definition processForcingClauses ::
  "int \<Rightarrow> nat \<Rightarrow> int list \<Rightarrow> clause list \<Rightarrow> model_logger \<Rightarrow> writer \<Rightarrow> writer option" where
  "processForcingClauses max_variable variable_index arbiter_assignment default_clauses m w =
     do {
       e \<leftarrow> at_index (ml_existentials m) variable_index;
       positive \<leftarrow> at_index (positive_forcing_clauses m) variable_index;
       negative \<leftarrow> at_index (negative_forcing_clauses m) variable_index;
       (if default_clauses = [] then
          Some (writeFormulaUnder max_variable arbiter_assignment negative
                 (writeFormulaUnder max_variable arbiter_assignment positive w))
        else if length default_clauses = 1 then
          (if length (default_clauses ! 0) = 1
           then Some (processConstantDefault positive negative arbiter_assignment (default_clauses ! 0 ! 0) w)
           else None)
        else
          let (positive_active, w) = writeForcingClauses positive arbiter_assignment [] w;
              (negative_active, w) = writeForcingClauses negative arbiter_assignment [] w in
          if positive_active = [] \<and> negative_active = [] then Some (writeFormulaToStream default_clauses w)
          else
            let (default_active, w) = writeForced e positive_active negative_active w
            in writeClausalEncodingDefaults default_clauses default_active w)
     }"

section \<open>The files\<close>

text \<open>The definition of the first entailed condition, if there is one.\<close>

fun writeConditional ::
  "int \<Rightarrow> int list list \<Rightarrow> cnf list \<Rightarrow> int list \<Rightarrow> writer \<Rightarrow> (bool \<times> writer) option" where
  "writeConditional max_variable [] defs arbiter_assignment w = Some (False, w)"
| "writeConditional max_variable (condition # cs) [] arbiter_assignment w = None"
| "writeConditional max_variable (condition # cs) (def # defs) arbiter_assignment w =
     (if isConditionEntailed condition arbiter_assignment
      then Some (True, writeFormulaUnder max_variable arbiter_assignment def w)
      else writeConditional max_variable cs defs arbiter_assignment w)"

definition writeClausalEncodingConditionalDefinitions ::
  "nat \<Rightarrow> int list \<Rightarrow> model_logger \<Rightarrow> writer \<Rightarrow> (bool \<times> writer) option" where
  "writeClausalEncodingConditionalDefinitions variable_index arbiter_assignment m w =
     do {
       cs \<leftarrow> at_index (conditions m) variable_index;
       defs \<leftarrow> at_index (conditional_definitions_cnf m) variable_index;
       writeConditional (max_variable_in_matrix m) cs defs arbiter_assignment w
     }"

definition writeVariable ::
  "(int \<rightharpoonup> clause list) \<Rightarrow> int list \<Rightarrow> model_logger \<Rightarrow> int \<Rightarrow> nat \<Rightarrow> writer \<Rightarrow> writer option" where
  "writeVariable default_clause_map arbs m e idx w =
     do {
       let w = w\<lparr>stream := stream w @ [Comment e]\<rparr>;
       def \<leftarrow> at_index (definitions_cnf m) idx;
       (if def \<noteq> [] then Some (writeFormulaUnder (max_variable_in_matrix m) arbs def w)
        else do {
          (written, w) \<leftarrow> writeClausalEncodingConditionalDefinitions idx arbs m w;
          (if written then Some w
           else do {
             default_clauses \<leftarrow> default_clause_map e;
             processForcingClauses (max_variable_in_matrix m) idx arbs default_clauses m w
           })
        })
     }"

fun writeVariables ::
  "int list \<Rightarrow> (int \<rightharpoonup> clause list) \<Rightarrow> int list \<Rightarrow> model_logger \<Rightarrow> writer \<Rightarrow> writer option" where
  "writeVariables [] default_clause_map arbs m w = Some w"
| "writeVariables (e # es) default_clause_map arbs m w =
     do {
       idx \<leftarrow> getIndex e m;
       w \<leftarrow> writeVariable default_clause_map arbs m e idx w;
       writeVariables es default_clause_map arbs m w
     }"

definition cnf_file_text :: "writer \<Rightarrow> string" where
  "cnf_file_text w =
     ''p cnf '' @ to_string (next_unused w - 1) @ [blank] @ to_string (nof_clauses w) @ [newline] @
     concat (map line_text (stream w))"

text \<open>\<open>iteration\<close> lists the keys of \<open>indices\<close> in the order the code meets them.\<close>

definition writeModelAsCNFToFile ::
  "int list \<Rightarrow> (int \<rightharpoonup> clause list) \<Rightarrow> int list \<Rightarrow> model_logger \<Rightarrow> (string \<times> model_logger) option" where
  "writeModelAsCNFToFile iteration default_clause_map arbiter_assignment m =
     do {
       w \<leftarrow> writeVariables iteration default_clause_map (sort arbiter_assignment) m
         \<lparr>next_unused = unused_variable m, auxiliaries = renaming_auxiliaries m, nof_clauses = 0, stream = []\<rparr>;
       Some (cnf_file_text w,
             m\<lparr>unused_variable := max_variable_in_matrix m + 1, renaming_auxiliaries := Map.empty\<rparr>)
     }"

definition writeModelAsAIGToFile ::
  "(string \<Rightarrow> bool \<Rightarrow> aiger \<Rightarrow> bool) \<Rightarrow> string \<Rightarrow> (int \<rightharpoonup> clause list) \<Rightarrow> int list \<Rightarrow> bool \<Rightarrow>
   model_logger \<Rightarrow> bool option" where
  "writeModelAsAIGToFile write file_name default_clause_map arbiter_assignment binary_AIGER m =
     map_option fst
       (writeToFile write file_name binary_AIGER
         \<lparr>data_definitions = definitions_circuit m, data_conditions = conditions m,
          data_conditional = conditional_definitions_circuit m,
          data_positive_forcing = positive_forcing_clauses m,
          data_negative_forcing = negative_forcing_clauses m, data_defaults = default_clause_map\<rparr>
         arbiter_assignment
         (new_AIGERBuilder (ml_indices m) (max_variable_in_matrix m) (ml_existentials m) (ml_universals m)))"

end
