(* ===== verification/ModelLogger_Correct.thy ===== *)
theory ModelLogger_Correct
  imports ModelLogger
begin

text \<open>
  What the clauses written by \<open>src/modellogger.cc\<close> say. The arbiters are replaced by their values
  and the auxiliary variables are renamed, so an assignment of the file is read back (\<open>read_back\<close>):
  variables of the matrix as they are, arbiters by the arbiter assignment, auxiliary variables
  through the renaming. Read back, every assignment satisfying the file follows the model.
\<close>

section \<open>Reading an assignment of the file\<close>

definition written :: "writer \<Rightarrow> cnf" where
  "written w = concat (map (\<lambda>x. case x of Comment _ \<Rightarrow> [] | Clause_Line c \<Rightarrow> [c]) (stream w))"

definition read_back :: "int \<Rightarrow> int list \<Rightarrow> (int \<rightharpoonup> int) \<Rightarrow> assignment \<Rightarrow> assignment" where
  "read_back n arbs A \<alpha> v =
     (if v \<le> n then \<alpha> v
      else if v \<in> set arbs then True
      else if - v \<in> set arbs then False
      else case A v of Some r \<Rightarrow> \<alpha> r | None \<Rightarrow> False)"

text \<open>An arbiter assignment: consistent literals of variables outside the matrix, in order.\<close>

definition arbiters_ok :: "int \<Rightarrow> int list \<Rightarrow> bool" where
  "arbiters_ok n arbs \<longleftrightarrow> sorted arbs \<and> 0 \<le> n \<and> list_all (\<lambda>l. n < \<bar>l\<bar> \<and> - l \<notin> set arbs) arbs"

definition plain_literal :: "int \<Rightarrow> int list \<Rightarrow> int \<Rightarrow> bool" where
  "plain_literal n arbs l \<longleftrightarrow> l \<noteq> 0 \<and> (\<bar>l\<bar> \<le> n \<or> l \<in> set arbs \<or> - l \<in> set arbs)"

definition renaming_ok :: "int \<Rightarrow> writer \<Rightarrow> bool" where
  "renaming_ok n w \<longleftrightarrow> n < next_unused w \<and> (\<forall>r\<in>ran (auxiliaries w). n < r \<and> r < next_unused w)"

lemma written_simps [simp]:
  "written (count_clauses k w) = written w"
  "written (writeClauseToStream c w) = written w @ [c]"
  "written (w\<lparr>next_unused := u\<rparr>) = written w"
  "written (w\<lparr>auxiliaries := A\<rparr>) = written w"
  "written (w\<lparr>stream := stream w @ [Comment e]\<rparr>) = written w"
  by (simp_all add: written_def count_clauses_def writeClauseToStream_def)

lemma writer_simps [simp]:
  "next_unused (count_clauses k w) = next_unused w" "auxiliaries (count_clauses k w) = auxiliaries w"
  "next_unused (writeClauseToStream c w) = next_unused w" "auxiliaries (writeClauseToStream c w) = auxiliaries w"
  by (simp_all add: count_clauses_def writeClauseToStream_def)

lemma read_back_below: "v \<le> n \<Longrightarrow> read_back n arbs A \<alpha> v = \<alpha> v"
  by (simp add: read_back_def)

lemma read_back_arbiter:
  assumes "arbiters_ok n arbs" "l \<in> set arbs"
  shows "lit_true (read_back n arbs A \<alpha>) l"
proof -
  have "n < \<bar>l\<bar>" "- l \<notin> set arbs" using assms by (auto simp: arbiters_ok_def list_all_iff)
  then show ?thesis using assms by (auto simp: lit_true_def read_back_def)
qed

lemma search_arbiters: "arbiters_ok n arbs \<Longrightarrow> binary_search arbs l \<longleftrightarrow> l \<in> set arbs"
  by (simp add: binary_search_iff arbiters_ok_def)

lemma read_back_plain:
  assumes "l \<noteq> 0" "\<bar>l\<bar> \<le> n"
  shows "lit_true (read_back n arbs A \<alpha>) l = lit_true \<alpha> l"
  using assms by (auto simp: lit_true_def read_back_def)

lemma not_read_back_arbiter:
  assumes "arbiters_ok n arbs" "- l \<in> set arbs"
  shows "\<not> lit_true (read_back n arbs A \<alpha>) l"
proof -
  have "l \<noteq> 0" using assms by (auto simp: arbiters_ok_def list_all_iff)
  then show ?thesis using read_back_arbiter [OF assms] by simp
qed

section \<open>Clauses under the arbiter assignment\<close>

lemma writeLiteral_read:
  assumes "writeLiteral n l w = (r, w')" "auxiliaries w' \<subseteq>\<^sub>m A" "l \<noteq> 0" "0 \<le> n"
    "l \<notin> set arbs" "- l \<notin> set arbs" "renaming_ok n w"
  shows "lit_true \<alpha> r = lit_true (read_back n arbs A \<alpha>) l \<and> written w' = written w \<and>
    auxiliaries w \<subseteq>\<^sub>m auxiliaries w' \<and> renaming_ok n w' \<and> next_unused w \<le> next_unused w'"
proof (cases "\<bar>l\<bar> \<le> n")
  case True
  then have "r = l" "w' = w" using assms(1) by (auto simp: writeLiteral_def var_def)
  then show ?thesis using read_back_plain [OF assms(3) True] assms(7) by simp
next
  case False
  have pos: "0 < next_unused w" using assms(4,7) by (simp add: renaming_ok_def)
  show ?thesis
  proof (cases "auxiliaries w \<bar>l\<bar>")
    case None
    then have w': "w' = w\<lparr>auxiliaries := (auxiliaries w)(\<bar>l\<bar> \<mapsto> next_unused w), next_unused := next_unused w + 1\<rparr>"
      and r: "r = (if l < 0 then - next_unused w else next_unused w)"
      using assms(1) False by (auto simp: writeLiteral_def var_def)
    have A: "A \<bar>l\<bar> = Some (next_unused w)" using assms(2) w' by (auto simp: map_le_def dom_def)
    have "renaming_ok n w'"
      using assms(7) w' None by (fastforce simp: renaming_ok_def ran_def split: if_splits)
    moreover have "lit_true \<alpha> r = lit_true (read_back n arbs A \<alpha>) l"
      using A False assms(3,5,6) pos r by (auto simp: lit_true_def read_back_def)
    ultimately show ?thesis using w' None by (auto simp: map_le_def)
  next
    case (Some s)
    then have w': "w' = w" and r: "r = (if l < 0 then - s else s)"
      using assms(1) False by (auto simp: writeLiteral_def var_def)
    have A: "A \<bar>l\<bar> = Some s" using assms(2) w' Some by (auto simp: map_le_def dom_def)
    have "0 < s" using assms(4,7) Some by (force simp: renaming_ok_def ran_def)
    then have "lit_true \<alpha> r = lit_true (read_back n arbs A \<alpha>) l"
      using A False assms(3,5,6) r by (auto simp: lit_true_def read_back_def)
    then show ?thesis using w' assms(7) by simp
  qed
qed

lemma reduced_literals_read:
  assumes "reduced_literals n ls arbs ws w = (ws', w')" "auxiliaries w' \<subseteq>\<^sub>m A" "0 \<notin> set ls" "arbiters_ok n arbs"
    "\<forall>l\<in>set ls. l \<notin> set arbs" "renaming_ok n w"
  shows "clause_sat \<alpha> ws' = (clause_sat \<alpha> ws \<or> clause_sat (read_back n arbs A \<alpha>) ls) \<and> written w' = written w \<and>
    auxiliaries w \<subseteq>\<^sub>m auxiliaries w' \<and> renaming_ok n w' \<and> next_unused w \<le> next_unused w'"
  using assms
proof (induction ls arbitrary: ws w)
  case (Cons l ls)
  have nz: "l \<noteq> 0" "0 \<notin> set ls" and n0: "0 \<le> n" using Cons.prems by (auto simp: arbiters_ok_def)
  note search = search_arbiters [OF Cons.prems(4)]
  show ?case
  proof (cases "- l \<in> set arbs")
    case True
    then have "\<not> lit_true (read_back n arbs A \<alpha>) l" by (rule not_read_back_arbiter [OF Cons.prems(4)])
    with Cons True search show ?thesis by simp
  next
    case False
    obtain r w1 where lit: "writeLiteral n l w = (r, w1)" by force
    with Cons.prems(1) False search have rest: "reduced_literals n ls arbs (ws @ [r]) w1 = (ws', w')" by simp
    have "renaming_ok n w1" "auxiliaries w1 \<subseteq>\<^sub>m auxiliaries w1"
      using writeLiteral_read [OF lit map_le_refl nz(1) n0 _ False Cons.prems(6)] Cons.prems(5) by auto
    then have IH: "clause_sat \<alpha> ws' = (clause_sat \<alpha> (ws @ [r]) \<or> clause_sat (read_back n arbs A \<alpha>) ls) \<and>
        written w' = written w1 \<and> auxiliaries w1 \<subseteq>\<^sub>m auxiliaries w' \<and> renaming_ok n w' \<and> next_unused w1 \<le> next_unused w'"
      using Cons.IH [OF rest Cons.prems(2) nz(2) Cons.prems(4)] Cons.prems(5) by simp
    then have "auxiliaries w1 \<subseteq>\<^sub>m A" using Cons.prems(2) map_le_trans by blast
    from writeLiteral_read [OF lit this nz(1) n0 _ False Cons.prems(6), where \<alpha> = \<alpha>] Cons.prems(5) IH
    show ?thesis using map_le_trans by (auto simp: clause_sat_iff)
  qed
qed simp

lemma writeClauseUnder_read:
  assumes "writeClauseUnder n arbs c w = (b, w')" "auxiliaries w' \<subseteq>\<^sub>m A" "0 \<notin> set c" "arbiters_ok n arbs" "renaming_ok n w"
  shows "cnf_sat \<alpha> (written w') = (cnf_sat \<alpha> (written w) \<and> clause_sat (read_back n arbs A \<alpha>) c) \<and>
    auxiliaries w \<subseteq>\<^sub>m auxiliaries w' \<and> renaming_ok n w' \<and> next_unused w \<le> next_unused w'"
proof (cases "list_ex (binary_search arbs) c")
  case True
  then obtain l where "l \<in> set c" "l \<in> set arbs" using search_arbiters [OF assms(4)] by (auto simp: list_ex_iff)
  then have "clause_sat (read_back n arbs A \<alpha>) c" using read_back_arbiter [OF assms(4)] by (auto simp: clause_sat_iff)
  then show ?thesis using assms True by (simp add: writeClauseUnder_def)
next
  case False
  then have no: "\<forall>l\<in>set c. l \<notin> set arbs" using search_arbiters [OF assms(4)] by (auto simp: list_ex_iff)
  obtain ws w1 where red: "reduced_literals n c arbs [] w = (ws, w1)" by force
  then have w': "w' = writeClauseToStream ws w1" using assms(1) False by (simp add: writeClauseUnder_def)
  have "auxiliaries w1 \<subseteq>\<^sub>m A" using assms(2) w' by simp
  from reduced_literals_read [OF red this assms(3,4) no assms(5), where \<alpha> = \<alpha>]
  show ?thesis by (auto simp: w' renaming_ok_def sat_simps)
qed

lemma renaming_ok_count [simp]: "renaming_ok n (count_clauses k w) = renaming_ok n w"
  by (simp add: renaming_ok_def)

lemma renaming_ok_write [simp]: "renaming_ok n (writeClauseToStream c w) = renaming_ok n w"
  by (simp add: renaming_ok_def)

lemma writeFormulaUnder_read:
  assumes "auxiliaries (writeFormulaUnder n arbs F w) \<subseteq>\<^sub>m A" "\<forall>c\<in>set F. 0 \<notin> set c" "arbiters_ok n arbs" "renaming_ok n w"
  shows "cnf_sat \<alpha> (written (writeFormulaUnder n arbs F w)) =
      (cnf_sat \<alpha> (written w) \<and> cnf_sat (read_back n arbs A \<alpha>) F) \<and>
    auxiliaries w \<subseteq>\<^sub>m auxiliaries (writeFormulaUnder n arbs F w) \<and> renaming_ok n (writeFormulaUnder n arbs F w) \<and>
    next_unused w \<le> next_unused (writeFormulaUnder n arbs F w)"
  using assms
proof (induction F arbitrary: w)
  case (Cons c F)
  obtain b w1 where c: "writeClauseUnder n arbs c w = (b, w1)" by force
  define w2 where "w2 = (if b then count_clauses 1 w1 else w1)"
  have step: "writeFormulaUnder n arbs (c # F) w = writeFormulaUnder n arbs F w2" by (simp add: c w2_def)
  have same: "auxiliaries w2 = auxiliaries w1" "written w2 = written w1" "renaming_ok n w2 = renaming_ok n w1"
    "next_unused w2 = next_unused w1" by (simp_all add: w2_def)
  have zero: "0 \<notin> set c" "\<forall>c\<in>set F. 0 \<notin> set c" using Cons.prems by auto
  have "renaming_ok n w1" using writeClauseUnder_read [OF c map_le_refl zero(1) Cons.prems(3,4)] by simp
  then have IH: "cnf_sat \<alpha> (written (writeFormulaUnder n arbs F w2)) =
      (cnf_sat \<alpha> (written w2) \<and> cnf_sat (read_back n arbs A \<alpha>) F) \<and>
    auxiliaries w2 \<subseteq>\<^sub>m auxiliaries (writeFormulaUnder n arbs F w2) \<and> renaming_ok n (writeFormulaUnder n arbs F w2) \<and>
    next_unused w2 \<le> next_unused (writeFormulaUnder n arbs F w2)"
    using Cons.IH [of w2] Cons.prems zero(2) same step by simp
  then have "auxiliaries w1 \<subseteq>\<^sub>m A" using Cons.prems(1) step same map_le_trans by metis
  from writeClauseUnder_read [OF c this zero(1) Cons.prems(3,4), where \<alpha> = \<alpha>] IH
  show ?case unfolding step same using map_le_trans by (auto simp: sat_simps)
qed simp

section \<open>Forcing clauses\<close>

lemma isConditionEntailed_iff:
  assumes "arbiters_ok n arbs"
  shows "isConditionEntailed c arbs \<longleftrightarrow> set c \<subseteq> set arbs"
  by (induction c) (auto simp: search_arbiters [OF assms])

lemma applyAssignment_read:
  assumes "arbiters_ok n arbs" "list_all (plain_literal n arbs) c" "applyAssignment c arbs = (b, d)"
  shows "(b \<longrightarrow> clause_sat (read_back n arbs A \<alpha>) c) \<and>
    (\<not> b \<longrightarrow> clause_sat \<alpha> d = clause_sat (read_back n arbs A \<alpha>) c \<and> list_all (\<lambda>l. l \<noteq> 0 \<and> \<bar>l\<bar> \<le> n) d)"
  using assms(2,3)
proof (induction c arbitrary: b d)
  case (Cons l c)
  note search = search_arbiters [OF assms(1)]
  consider (sat) "l \<in> set arbs" | (falsified) "l \<notin> set arbs" "- l \<in> set arbs"
    | (keep) "l \<notin> set arbs" "- l \<notin> set arbs" "\<bar>l\<bar> \<le> n" "l \<noteq> 0"
    using Cons.prems(1) by (auto simp: plain_literal_def)
  then show ?case
  proof cases
    case sat
    then show ?thesis using Cons.prems search read_back_arbiter [OF assms(1) sat] by (auto simp: clause_sat_iff)
  next
    case falsified
    then have "\<not> lit_true (read_back n arbs A \<alpha>) l" by (intro not_read_back_arbiter [OF assms(1)])
    then show ?thesis using Cons falsified search by (simp add: clause_sat_iff)
  next
    case keep
    obtain b' d' where rest: "applyAssignment c arbs = (b', d')" by force
    then have "b = b'" "d = l # d'" using Cons.prems(2) keep search by simp_all
    then show ?thesis using Cons.IH [OF _ rest] Cons.prems(1) read_back_plain [OF keep(4,3)] keep by (auto simp: clause_sat_iff)
  qed
qed simp

lemma fold_write:
  "written (fold (\<lambda>l. writeClauseToStream (f l)) c w) = written w @ map f c"
  "next_unused (fold (\<lambda>l. writeClauseToStream (f l)) c w) = next_unused w"
  "auxiliaries (fold (\<lambda>l. writeClauseToStream (f l)) c w) = auxiliaries w"
  by (induction c arbitrary: w) simp_all

lemma writeClauseActive_read:
  assumes "writeClauseActive c w = (active, w')" "0 \<notin> set c" "0 < next_unused w"
  shows "active = next_unused w" "next_unused w' = next_unused w + 1" "auxiliaries w' = auxiliaries w"
    "cnf_sat \<alpha> (written w') = (cnf_sat \<alpha> (written w) \<and> \<alpha> active = (\<not> clause_sat \<alpha> c))"
proof -
  show act: "active = next_unused w" "next_unused w' = next_unused w + 1" "auxiliaries w' = auxiliaries w"
    using assms(1) by (auto simp: writeClauseActive_def Let_def fold_write)
  have "written w' = written w @ (c @ [active]) # map (\<lambda>l. [- l, - active]) c"
    using assms(1) by (auto simp: writeClauseActive_def Let_def fold_write)
  moreover have "lit_true \<alpha> (- l) = (\<not> lit_true \<alpha> l)" if "l \<in> set c" for l using that assms(2) by (intro lit_true_neg) auto
  ultimately show "cnf_sat \<alpha> (written w') = (cnf_sat \<alpha> (written w) \<and> \<alpha> active = (\<not> clause_sat \<alpha> c))"
    using assms(3) act(1) by (auto simp: cnf_sat_iff clause_sat_iff ball_Un)
qed

text \<open>The literals collected say which of the forcing clauses fire.\<close>

definition forcing_ok :: "int \<Rightarrow> int list \<Rightarrow> clause list \<Rightarrow> bool" where
  "forcing_ok n arbs cs \<longleftrightarrow> list_all (list_all (plain_literal n arbs)) cs"

lemma writeForcingClauses_read:
  assumes "writeForcingClauses cs arbs as w = (as', w')" "arbiters_ok n arbs" "forcing_ok n arbs cs" "n < next_unused w"
    "list_all (\<lambda>a. 0 < a) as"
  shows "auxiliaries w' = auxiliaries w \<and> next_unused w \<le> next_unused w' \<and> list_all (\<lambda>a. 0 < a) as' \<and>
    (cnf_sat \<alpha> (written w') \<longrightarrow> cnf_sat \<alpha> (written w) \<and>
       (list_ex \<alpha> as' \<longleftrightarrow> list_ex \<alpha> as \<or> \<not> cnf_sat (read_back n arbs A \<alpha>) cs))"
  using assms(1,3-)
proof (induction cs arbitrary: as w)
  case (Cons c cs)
  obtain b d where ap: "applyAssignment c arbs = (b, d)" by force
  have plain: "list_all (plain_literal n arbs) c" "forcing_ok n arbs cs" using Cons.prems by (simp_all add: forcing_ok_def)
  note read = applyAssignment_read [OF assms(2) plain(1) ap, where A = A and \<alpha> = \<alpha>]
  show ?case
  proof (cases b)
    case False
    obtain a w1 where act: "writeClauseActive d w = (a, w1)" by force
    have zero: "0 \<notin> set d" using read False by (auto simp: list_all_iff)
    have pos: "0 < next_unused w" using Cons.prems(3) assms(2) by (simp add: arbiters_ok_def)
    note facts = writeClauseActive_read [OF act zero pos]
    show ?thesis
      using Cons.IH [of "as @ [a]" w1] Cons.prems ap act False facts plain(2) read pos by auto
  qed (use Cons.IH [of as w] Cons.prems ap plain(2) read in auto)
qed simp

text \<open>What one forced variable means: fired rules force it, and the default decides otherwise.\<close>

definition forced_value :: "assignment \<Rightarrow> int \<Rightarrow> clause list \<Rightarrow> clause list \<Rightarrow> clause list \<Rightarrow> bool" where
  "forced_value \<gamma> e positive negative defaults \<longleftrightarrow>
     (if \<not> cnf_sat \<gamma> positive then \<gamma> e
      else if \<not> cnf_sat \<gamma> negative then \<not> \<gamma> e
      else cnf_sat \<gamma> defaults)"

lemma writeForced_read:
  assumes "writeForced e ps ns w = (d, w')" "ps \<noteq> [] \<or> ns \<noteq> []" "0 < e" "0 < next_unused w"
    "list_all (\<lambda>a. 0 < a) ps" "list_all (\<lambda>a. 0 < a) ns"
  shows "auxiliaries w' = auxiliaries w \<and> next_unused w \<le> next_unused w' \<and> d \<noteq> 0 \<and>
    (cnf_sat \<alpha> (written w') \<longrightarrow> cnf_sat \<alpha> (written w) \<and>
       (lit_true \<alpha> d \<longleftrightarrow> list_ex \<alpha> ps \<or> list_ex \<alpha> ns) \<and> (list_ex \<alpha> ps \<longrightarrow> \<alpha> e) \<and> (list_ex \<alpha> ns \<longrightarrow> \<not> \<alpha> e))"
proof -
  have lits: "clause_sat \<alpha> xs = list_ex \<alpha> xs" "0 \<notin> set xs" if "list_all (\<lambda>a. 0 < a) xs" for xs
    using that by (auto simp: clause_sat_def list_ex_iff list_all_iff)
  note none_lits = lits [OF assms(5)] lits [OF assms(6)]
  consider (neg) "ps = []" | (pos) "ps \<noteq> []" "ns = []" | (both) "ps \<noteq> []" "ns \<noteq> []" by auto
  then show ?thesis
  proof cases
    case neg
    obtain a w1 where act: "writeClauseActive ns w = (a, w1)" by force
    note facts = writeClauseActive_read [OF act none_lits(4) assms(4)]
    have "d = - a" "w' = count_clauses 1 (writeClauseToStream [a, - e] w1)"
      using assms(1) neg act by (auto simp: writeForced_def)
    then show ?thesis using facts neg assms(3,4) none_lits by (auto simp: sat_simps)
  next
    case pos
    obtain a w1 where act: "writeClauseActive ps w = (a, w1)" by force
    note facts = writeClauseActive_read [OF act none_lits(2) assms(4)]
    have "d = - a" "w' = count_clauses 1 (writeClauseToStream [a, e] w1)"
      using assms(1) pos act by (auto simp: writeForced_def)
    then show ?thesis using facts pos assms(3,4) none_lits by (auto simp: sat_simps)
  next
    case both
    obtain a w1 where act1: "writeClauseActive ps w = (a, w1)" by force
    obtain b w2 where act2: "writeClauseActive ns w1 = (b, w2)" by force
    define w3 where "w3 = writeClauseToStream [b, - e] (writeClauseToStream [a, e] w2)"
    obtain c w4 where act3: "writeClauseActive [- a, - b] w3 = (c, w4)" by force
    note f1 = writeClauseActive_read [OF act1 none_lits(2) assms(4)]
    have p1: "0 < next_unused w1" using f1 assms(4) by simp
    note f2 = writeClauseActive_read [OF act2 none_lits(4) p1]
    have p3: "0 < next_unused w3" "0 \<notin> set [- a, - b]" using f1 f2 assms(4) by (simp_all add: w3_def)
    note f3 = writeClauseActive_read [OF act3 p3(2,1)]
    have dw: "d = - c" "w' = count_clauses 3 w4"
      using assms(1) both act1 act2 act3 by (auto simp: writeForced_def w3_def)
    have pos: "0 < a" "0 < b" "0 < c" using f1(1) f2(1) f3(1) assms(4) p1 p3 by simp_all
    have mid: "cnf_sat \<alpha> (written w3) \<longleftrightarrow> cnf_sat \<alpha> (written w2) \<and> (\<alpha> a \<or> \<alpha> e) \<and> (\<alpha> b \<or> \<not> \<alpha> e)"
      using pos assms(3) by (auto simp: w3_def sat_simps)
    have "clause_sat \<alpha> [- a, - b] \<longleftrightarrow> \<not> \<alpha> a \<or> \<not> \<alpha> b" using pos by (simp add: sat_simps)
    then have "cnf_sat \<alpha> (written w') \<longleftrightarrow> cnf_sat \<alpha> (written w) \<and> \<alpha> a = (\<not> list_ex \<alpha> ps) \<and> \<alpha> b = (\<not> list_ex \<alpha> ns) \<and>
        (\<alpha> a \<or> \<alpha> e) \<and> (\<alpha> b \<or> \<not> \<alpha> e) \<and> \<alpha> c = (\<alpha> a \<and> \<alpha> b)"
      unfolding dw written_simps f3(4) mid f2(4) f1(4) none_lits(1,3) by blast
    moreover have "lit_true \<alpha> d = (\<not> \<alpha> c)" using dw(1) pos by simp
    moreover have "auxiliaries w' = auxiliaries w" "next_unused w \<le> next_unused w'"
      using f1(2,3) f2(2,3) f3(2,3) dw(2) by (simp_all add: w3_def)
    ultimately show ?thesis using dw(1) pos(3) by auto
  qed
qed

lemma fold_defaults:
  "written (fold (\<lambda>cl w. count_clauses 1 (writeClauseToStream (cl @ [d]) w)) cs w) = written w @ map (\<lambda>cl. cl @ [d]) cs"
  "next_unused (fold (\<lambda>cl w. count_clauses 1 (writeClauseToStream (cl @ [d]) w)) cs w) = next_unused w"
  "auxiliaries (fold (\<lambda>cl w. count_clauses 1 (writeClauseToStream (cl @ [d]) w)) cs w) = auxiliaries w"
  by (induction cs arbitrary: w) simp_all

lemma cnf_sat_weakened: "cnf_sat \<alpha> (map (\<lambda>cl. cl @ [d]) cs) \<longleftrightarrow> lit_true \<alpha> d \<or> cnf_sat \<alpha> cs"
  by (auto simp: cnf_sat_iff clause_sat_iff)

definition defaults_ok :: "int \<Rightarrow> int \<Rightarrow> clause list \<Rightarrow> bool" where
  "defaults_ok n e ds \<longleftrightarrow> list_all (list_all (\<lambda>l. l \<noteq> 0 \<and> \<bar>l\<bar> \<le> n)) ds \<and>
     (length ds = 1 \<longrightarrow> ds = [[e]] \<or> ds = [[- e]])"

lemma defaults_read:
  assumes "defaults_ok n e ds"
  shows "cnf_sat (read_back n arbs A \<alpha>) ds = cnf_sat \<alpha> ds"
  using assms read_back_plain [of _ n arbs A \<alpha>] unfolding defaults_ok_def cnf_sat_iff clause_sat_iff list_all_iff by blast

lemma processConstantDefault_read:
  assumes "arbiters_ok n arbs" "forcing_ok n arbs positive" "forcing_ok n arbs negative" "n < next_unused w"
    "0 < e" "e \<le> n" "d = e \<or> d = - e"
  shows "auxiliaries (processConstantDefault positive negative arbs d w) = auxiliaries w \<and>
    next_unused w \<le> next_unused (processConstantDefault positive negative arbs d w) \<and>
    (cnf_sat \<alpha> (written (processConstantDefault positive negative arbs d w)) \<longrightarrow> cnf_sat \<alpha> (written w) \<and>
       (cnf_sat (read_back n arbs A \<alpha>) positive \<or> cnf_sat (read_back n arbs A \<alpha>) negative \<longrightarrow>
        forced_value (read_back n arbs A \<alpha>) e positive negative [[d]]))"
proof -
  let ?cs = "if d > 0 then negative else positive"
  obtain as w1 where wr: "writeForcingClauses ?cs arbs [] w = (as, w1)" by force
  have "forcing_ok n arbs ?cs" using assms(2,3) by simp
  note read = writeForcingClauses_read [OF wr assms(1) this assms(4), where A = A and \<alpha> = \<alpha>]
  have e: "read_back n arbs A \<alpha> e = \<alpha> e" using assms(6) by (rule read_back_below)
  have n0: "0 < next_unused w" using assms(5,6,4) by simp
  show ?thesis
  proof (cases "as = []")
    case True
    then have "processConstantDefault positive negative arbs d w = count_clauses 1 (writeClauseToStream [d] w1)"
      using wr by (simp add: processConstantDefault_def)
    then show ?thesis using read True assms(5,7) e by (auto simp: forced_value_def sat_simps)
  next
    case False
    obtain a w2 where act: "writeClauseActive as w1 = (a, w2)" by force
    have as: "list_all (\<lambda>a. 0 < a) as" using read by simp
    then have zero: "0 \<notin> set as" "clause_sat \<alpha> as = list_ex \<alpha> as"
      by (auto simp: clause_sat_def list_ex_iff list_all_iff)
    have "0 < next_unused w1" using read n0 by simp
    note facts = writeClauseActive_read [OF act zero(1) this]
    have pc: "processConstantDefault positive negative arbs d w =
        count_clauses 2 (writeClauseToStream [a, - d] (writeClauseToStream [- a, d] w2))"
      using wr act False by (simp add: processConstantDefault_def)
    have "0 < a" using facts(1) read n0 by simp
    moreover have "lit_true \<alpha> (- d) = (\<not> lit_true \<alpha> d)" "lit_true \<alpha> d = (if d > 0 then \<alpha> e else \<not> \<alpha> e)"
      using assms(5,7) by auto
    ultimately have "cnf_sat \<alpha> (written (processConstantDefault positive negative arbs d w)) \<longleftrightarrow>
        cnf_sat \<alpha> (written w1) \<and> \<alpha> a = (\<not> list_ex \<alpha> as) \<and> lit_true \<alpha> d = \<alpha> a"
      unfolding pc written_simps cnf_sat_simps clause_sat_simps facts(4) zero(2) by auto
    moreover have "lit_true (read_back n arbs A \<alpha>) d = lit_true \<alpha> d"
      using assms(5,6,7) by (intro read_back_plain) auto
    moreover have "lit_true \<alpha> d = (if d > 0 then \<alpha> e else \<not> \<alpha> e)" using assms(5,7) by auto
    moreover have "auxiliaries (processConstantDefault positive negative arbs d w) = auxiliaries w"
      "next_unused w \<le> next_unused (processConstantDefault positive negative arbs d w)"
      using facts(2,3) read by (simp_all add: pc)
    ultimately show ?thesis using read e by (cases "d > 0") (simp_all add: forced_value_def, blast+)
  qed
qed

lemma processForcingClauses_read:
  assumes proc: "processForcingClauses n i arbs ds m w = Some w'" and A: "auxiliaries w' \<subseteq>\<^sub>m A"
    and ok: "arbiters_ok n arbs" "renaming_ok n w" "forcing_ok n arbs (positive_forcing_clauses m ! i)"
      "forcing_ok n arbs (negative_forcing_clauses m ! i)" "0 < e" "e \<le> n" "ml_existentials m ! i = e" "defaults_ok n e ds"
  shows "auxiliaries w \<subseteq>\<^sub>m auxiliaries w' \<and> next_unused w \<le> next_unused w' \<and> renaming_ok n w' \<and>
    (cnf_sat \<alpha> (written w') \<longrightarrow> cnf_sat \<alpha> (written w) \<and>
       (cnf_sat (read_back n arbs A \<alpha>) (positive_forcing_clauses m ! i) \<or>
        cnf_sat (read_back n arbs A \<alpha>) (negative_forcing_clauses m ! i) \<longrightarrow>
        forced_value (read_back n arbs A \<alpha>) e (positive_forcing_clauses m ! i) (negative_forcing_clauses m ! i) ds))"
proof -
  let ?P = "positive_forcing_clauses m ! i" and ?N = "negative_forcing_clauses m ! i"
  have unused: "n < next_unused w" using ok(2) by (simp add: renaming_ok_def)
  have grown: "renaming_ok n w'" if "auxiliaries w' = auxiliaries w" "next_unused w \<le> next_unused w'"
    using ok(2) that by (fastforce simp: renaming_ok_def)
  have e: "read_back n arbs A \<alpha> e = \<alpha> e" using ok(6) by (rule read_back_below)
  note ds = defaults_read [OF ok(8), of arbs A \<alpha>]
  consider (none) "ds = []" | (one) "length ds = 1" | (more) "ds \<noteq> []" "length ds \<noteq> 1" by auto
  then show ?thesis
  proof cases
    case none
    define w1 where "w1 = writeFormulaUnder n arbs ?P w"
    have w': "w' = writeFormulaUnder n arbs ?N w1"
      using proc none by (auto simp: processForcingClauses_def at_index_def w1_def split: if_splits)
    have zero: "\<forall>c\<in>set ?P. 0 \<notin> set c" "\<forall>c\<in>set ?N. 0 \<notin> set c"
      using ok(3,4) by (auto simp: forcing_ok_def plain_literal_def list_all_iff)
    have r1: "renaming_ok n w1"
      using writeFormulaUnder_read [OF map_le_refl zero(1) ok(1,2)] by (simp add: w1_def)
    have r2: "auxiliaries w1 \<subseteq>\<^sub>m auxiliaries w'"
      using writeFormulaUnder_read [OF map_le_refl zero(2) ok(1) r1] by (simp add: w')
    have A1: "auxiliaries (writeFormulaUnder n arbs ?P w) \<subseteq>\<^sub>m A" using r2 A map_le_trans unfolding w1_def by blast
    show ?thesis
      using writeFormulaUnder_read [OF A1 zero(1) ok(1,2), where \<alpha> = \<alpha>]
        writeFormulaUnder_read [OF A [unfolded w'] zero(2) ok(1) r1, where \<alpha> = \<alpha>] none r2 map_le_trans
      unfolding w' w1_def [symmetric] by (auto simp: forced_value_def)
  next
    case one
    then have d: "ds = [[e]] \<or> ds = [[- e]]" using ok(8) by (simp add: defaults_ok_def)
    then have "w' = processConstantDefault ?P ?N arbs (ds ! 0 ! 0) w"
      using proc by (auto simp: processForcingClauses_def at_index_def split: if_splits)
    moreover have "ds ! 0 ! 0 = e \<or> ds ! 0 ! 0 = - e" "ds = [[ds ! 0 ! 0]]" using d by auto
    ultimately show ?thesis
      using processConstantDefault_read [OF ok(1,3,4) unused ok(5,6), of "ds ! 0 ! 0"] grown by simp
  next
    case more
    obtain ps w1 where wr1: "writeForcingClauses ?P arbs [] w = (ps, w1)" by force
    obtain ns w2 where wr2: "writeForcingClauses ?N arbs [] w1 = (ns, w2)" by force
    have empty: "list_all (\<lambda>a::int. 0 < a) []" by simp
    note f1 = writeForcingClauses_read [OF wr1 ok(1,3) unused empty, where A = A and \<alpha> = \<alpha>]
    have u1: "n < next_unused w1" using f1 unused by simp
    note f2 = writeForcingClauses_read [OF wr2 ok(1,4) u1 empty, where A = A and \<alpha> = \<alpha>]
    show ?thesis
    proof (cases "ps = [] \<and> ns = []")
      case True
      then have "w' = writeFormulaToStream ds w2"
        using proc more wr1 wr2 by (auto simp: processForcingClauses_def at_index_def split: if_splits)
      then have "auxiliaries w' = auxiliaries w2" "next_unused w' = next_unused w2" "written w' = written w2 @ ds"
        using fold_write [where f = "\<lambda>x. x"] by (simp_all add: writeFormulaToStream_def)
      then show ?thesis using f1 f2 True grown ds by (auto simp: forced_value_def sat_simps)
    next
      case False
      obtain d w3 where wf: "writeForced e ps ns w2 = (d, w3)" by force
      have pos: "0 < next_unused w2" using f2 u1 ok(5,6) by simp
      note f3 = writeForced_read [OF wf _ ok(5) pos, where \<alpha> = \<alpha>]
      have "Some w' = writeClausalEncodingDefaults ds d w3"
        using proc more wr1 wr2 wf False ok(7) by (auto simp: processForcingClauses_def at_index_def split: if_splits)
      then have "written w' = written w3 @ map (\<lambda>cl. cl @ [d]) ds" "auxiliaries w' = auxiliaries w3" "next_unused w' = next_unused w3"
        by (auto simp: writeClausalEncodingDefaults_def fold_defaults split: if_splits)
      then show ?thesis using f1 f2 f3 False grown ds e by (auto simp: forced_value_def sat_simps cnf_sat_weakened)
    qed
  qed
qed

section \<open>The file\<close>

text \<open>The entailed conditional definition, and what it means to follow the model at one variable.\<close>

fun entailed :: "int list list \<Rightarrow> cnf list \<Rightarrow> int list \<Rightarrow> cnf option" where
  "entailed (c # cs) (d # ds) arbs = (if set c \<subseteq> set arbs then Some d else entailed cs ds arbs)"
| "entailed cs ds arbs = None"

definition follows_model :: "(int \<rightharpoonup> clause list) \<Rightarrow> int list \<Rightarrow> model_logger \<Rightarrow> assignment \<Rightarrow> int \<Rightarrow> bool" where
  "follows_model D arbs m \<gamma> e =
     (case ml_indices m e of
        None \<Rightarrow> False
      | Some i \<Rightarrow>
          if definitions_cnf m ! i \<noteq> [] then cnf_sat \<gamma> (definitions_cnf m ! i)
          else case entailed (conditions m ! i) (conditional_definitions_cnf m ! i) arbs of
            Some d \<Rightarrow> cnf_sat \<gamma> d
          | None \<Rightarrow>
              (cnf_sat \<gamma> (positive_forcing_clauses m ! i) \<or> cnf_sat \<gamma> (negative_forcing_clauses m ! i)) \<longrightarrow>
              forced_value \<gamma> e (positive_forcing_clauses m ! i) (negative_forcing_clauses m ! i)
                (case D e of None \<Rightarrow> [] | Some ds \<Rightarrow> ds))"

definition logger_ok :: "(int \<rightharpoonup> clause list) \<Rightarrow> int list \<Rightarrow> model_logger \<Rightarrow> int \<Rightarrow> bool" where
  "logger_ok D arbs m e =
     (case ml_indices m e of
        None \<Rightarrow> False
      | Some i \<Rightarrow>
          0 < e \<and> e \<le> max_variable_in_matrix m \<and> ml_existentials m ! i = e \<and> wf_cnf (definitions_cnf m ! i) \<and>
          list_all wf_cnf (conditional_definitions_cnf m ! i) \<and>
          forcing_ok (max_variable_in_matrix m) arbs (positive_forcing_clauses m ! i) \<and>
          forcing_ok (max_variable_in_matrix m) arbs (negative_forcing_clauses m ! i) \<and>
          (case D e of None \<Rightarrow> True | Some ds \<Rightarrow> defaults_ok (max_variable_in_matrix m) e ds))"

lemma writeConditional_no_definitions:
  "writeConditional n cs [] arbs w = Some (b, w') \<Longrightarrow> \<not> b \<and> w' = w"
  by (cases cs) auto

lemma writeConditional_read:
  assumes "writeConditional n cs ds arbs w = Some (b, w')" "arbiters_ok n arbs" "auxiliaries w' \<subseteq>\<^sub>m A" "renaming_ok n w"
    "list_all wf_cnf ds"
  shows "auxiliaries w \<subseteq>\<^sub>m auxiliaries w' \<and> renaming_ok n w' \<and>
    (case entailed cs ds arbs of
       None \<Rightarrow> \<not> b \<and> w' = w
     | Some d \<Rightarrow> b \<and> (cnf_sat \<alpha> (written w') \<longrightarrow> cnf_sat \<alpha> (written w) \<and> cnf_sat (read_back n arbs A \<alpha>) d))"
  using assms(1,2,5)
proof (induction cs ds arbs rule: entailed.induct)
  case (1 c cs d ds arbs)
  note entail = isConditionEntailed_iff [OF 1(3)]
  show ?case
  proof (cases "set c \<subseteq> set arbs")
    case True
    then have w': "w' = writeFormulaUnder n arbs d w" "b" using 1 entail by auto
    have "\<forall>c\<in>set d. 0 \<notin> set c" using 1(4) by (auto simp: wf_cnf_iff wf_clause_def)
    from writeFormulaUnder_read [OF assms(3) [unfolded w'(1)] this 1(3) assms(4)] True w' show ?thesis by auto
  qed (use 1 entail in auto)
qed (use assms(4) in \<open>auto dest: writeConditional_no_definitions\<close>)

lemma writeVariable_read:
  assumes wr: "writeVariable D arbs m e i w = Some w'" and i: "ml_indices m e = Some i" and A: "auxiliaries w' \<subseteq>\<^sub>m A"
    and ok: "arbiters_ok (max_variable_in_matrix m) arbs" "renaming_ok (max_variable_in_matrix m) w" "logger_ok D arbs m e"
  shows "auxiliaries w \<subseteq>\<^sub>m auxiliaries w' \<and> renaming_ok (max_variable_in_matrix m) w' \<and>
    (cnf_sat \<alpha> (written w') \<longrightarrow> cnf_sat \<alpha> (written w) \<and>
       follows_model D arbs m (read_back (max_variable_in_matrix m) arbs A \<alpha>) e)"
proof -
  define n where "n = max_variable_in_matrix m"
  define w1 where "w1 = w\<lparr>stream := stream w @ [Comment e]\<rparr>"
  have same: "auxiliaries w1 = auxiliaries w" "written w1 = written w" "renaming_ok n w1"
    using ok(2) by (simp_all add: w1_def n_def renaming_ok_def)
  have l: "0 < e" "e \<le> n" "ml_existentials m ! i = e" "wf_cnf (definitions_cnf m ! i)"
    "list_all wf_cnf (conditional_definitions_cnf m ! i)" "forcing_ok n arbs (positive_forcing_clauses m ! i)"
    "forcing_ok n arbs (negative_forcing_clauses m ! i)" and ds: "\<And>ds. D e = Some ds \<Longrightarrow> defaults_ok n e ds"
    using ok(3) i by (auto simp: logger_ok_def n_def)
  show ?thesis
  proof (cases "definitions_cnf m ! i = []")
    case False
    then have w': "w' = writeFormulaUnder n arbs (definitions_cnf m ! i) w1"
      using wr by (auto simp: writeVariable_def at_index_def w1_def n_def split: if_splits)
    have "\<forall>c\<in>set (definitions_cnf m ! i). 0 \<notin> set c" using l(4) by (auto simp: wf_cnf_iff wf_clause_def)
    from writeFormulaUnder_read [OF A [unfolded w'] this ok(1) [folded n_def] same(3)] False i same
    show ?thesis by (auto simp: w' follows_model_def n_def)
  next
    case True
    obtain b w2 where cond: "writeClausalEncodingConditionalDefinitions i arbs m w1 = Some (b, w2)"
      using wr True by (auto simp: writeVariable_def at_index_def w1_def split: if_splits bind_splits)
    then have cond': "writeConditional n (conditions m ! i) (conditional_definitions_cnf m ! i) arbs w1 = Some (b, w2)"
      by (auto simp: writeClausalEncodingConditionalDefinitions_def at_index_def n_def split: if_splits)
    note read0 = writeConditional_read [OF cond' ok(1) [folded n_def] map_le_refl same(3) l(5)]
    show ?thesis
    proof (cases "entailed (conditions m ! i) (conditional_definitions_cnf m ! i) arbs")
      case (Some d)
      then have "w' = w2" using wr True cond read0 by (auto simp: writeVariable_def at_index_def w1_def split: if_splits)
      with A writeConditional_read [OF cond' ok(1) [folded n_def] _ same(3) l(5), where \<alpha> = \<alpha> and A = A] Some True i same
      show ?thesis by (auto simp: follows_model_def n_def)
    next
      case None
      then have "w2 = w1" "\<not> b" using read0 by auto
      then obtain ds where D: "D e = Some ds" and proc: "processForcingClauses n i arbs ds m w1 = Some w'"
        using wr True cond by (auto simp: writeVariable_def at_index_def w1_def n_def split: if_splits bind_splits)
      from processForcingClauses_read [OF proc A ok(1) [folded n_def] same(3) l(6,7,1-3) ds [OF D], where \<alpha> = \<alpha>] D None True i same
      show ?thesis by (auto simp: follows_model_def n_def)
    qed
  qed
qed

lemma writeVariables_read:
  assumes "writeVariables es D arbs m w = Some w'" "auxiliaries w' \<subseteq>\<^sub>m A"
    and "arbiters_ok (max_variable_in_matrix m) arbs" "renaming_ok (max_variable_in_matrix m) w" "list_all (logger_ok D arbs m) es"
  shows "auxiliaries w \<subseteq>\<^sub>m auxiliaries w' \<and>
    (cnf_sat \<alpha> (written w') \<longrightarrow> cnf_sat \<alpha> (written w) \<and>
       list_all (follows_model D arbs m (read_back (max_variable_in_matrix m) arbs A \<alpha>)) es)"
  using assms(1,4,5)
proof (induction es arbitrary: w)
  case (Cons e es)
  from Cons.prems(1) obtain i w1 where i: "ml_indices m e = Some i" and w1: "writeVariable D arbs m e i w = Some w1"
    and rest: "writeVariables es D arbs m w1 = Some w'"
    by (auto simp: getIndex_def split: bind_splits)
  have ok: "logger_ok D arbs m e" "list_all (logger_ok D arbs m) es" using Cons.prems by simp_all
  have r1: "renaming_ok (max_variable_in_matrix m) w1"
    using writeVariable_read [OF w1 i map_le_refl assms(3) Cons.prems(2) ok(1)] by simp
  note IH = Cons.IH [OF rest r1 ok(2)]
  then have "auxiliaries w1 \<subseteq>\<^sub>m A" using assms(2) map_le_trans by blast
  from writeVariable_read [OF w1 i this assms(3) Cons.prems(2) ok(1), where \<alpha> = \<alpha>] IH show ?case
    using map_le_trans by auto
qed simp

lemma read_back_arbiters:
  "arbiters_ok n arbs \<Longrightarrow> list_all (lit_true (read_back n arbs A \<alpha>)) arbs"
  using read_back_arbiter by (auto simp: list_all_iff)

lemma arbiters_ok_sort: "arbiters_ok n (sort arbs) \<Longrightarrow> list_all (lit_true (read_back n (sort arbs) A \<alpha>)) arbs"
  using read_back_arbiters by (auto simp: list_all_iff)

text \<open>
  C10: every assignment of the variables of the file written by \<open>writeModelAsCNFToFile\<close> that
  satisfies its clauses reads back as an assignment that agrees on the variables of the matrix,
  sets the arbiters as given and follows the model at every existential variable: its definition,
  else the definition of the first entailed condition, else its forcing clauses and its default.
\<close>

theorem cnf_file_follows_model:
  assumes "writeModelAsCNFToFile iteration D arbs m = Some (content, m')"
    and "arbiters_ok (max_variable_in_matrix m) (sort arbs)"
    and "unused_variable m = max_variable_in_matrix m + 1" "renaming_auxiliaries m = Map.empty"
    and "list_all (logger_ok D (sort arbs) m) iteration"
  shows "\<exists>w. content = cnf_file_text w \<and>
    (\<forall>\<alpha>. cnf_sat \<alpha> (written w) \<longrightarrow>
       (\<exists>\<gamma>. agree_upto (max_variable_in_matrix m) \<alpha> \<gamma> \<and> list_all (lit_true \<gamma>) arbs \<and>
            list_all (follows_model D (sort arbs) m \<gamma>) iteration))"
proof -
  let ?n = "max_variable_in_matrix m"
  define w0 where "w0 = \<lparr>next_unused = unused_variable m, auxiliaries = renaming_auxiliaries m, nof_clauses = 0, stream = []\<rparr>"
  obtain w where w: "writeVariables iteration D (sort arbs) m w0 = Some w" and text_eq: "content = cnf_file_text w"
    using assms(1) by (auto simp: writeModelAsCNFToFile_def w0_def split: bind_splits)
  have r0: "renaming_ok ?n w0" using assms(3,4) by (simp add: renaming_ok_def w0_def)
  have "agree_upto ?n \<alpha> (read_back ?n (sort arbs) (auxiliaries w) \<alpha>)" for \<alpha>
    by (simp add: agree_upto_def read_back_def)
  with writeVariables_read [OF w map_le_refl assms(2) r0 assms(5)] arbiters_ok_sort [OF assms(2)] text_eq
  show ?thesis by blast
qed

text \<open>
  An instance: variables 1 (universal) and 2, 3, 4 (existential), arbiter 9. Variable 2 is defined
  through the auxiliary variable 7, variable 3 has two forcing clauses and the default \<open>3 = 1\<close>,
  and variable 4 a definition under the arbiter.
\<close>

definition sample_logger :: "model_logger option" where
  "sample_logger =
     do {
       m \<leftarrow> ml_addForcingClause [1, 9, 3] (ml_init 4 (new_ModelLogger [2, 3, 4] [1]));
       m \<leftarrow> ml_addForcingClause [- 1, - 9, - 3] m;
       m \<leftarrow> ml_addForcingClause [2, - 4] m;
       m \<leftarrow> ml_addConditionalDefinition 2 [] [[- 7, 1], [7, - 1], [- 2, 7], [2, - 7]] [([1], 7), ([7], 2)] m;
       ml_addConditionalDefinition 4 [9] [[- 4, 1, 9], [4, - 1]] [([1], 4)] m
     }"

definition sample_defaults :: "int \<rightharpoonup> clause list" where
  "sample_defaults = [3 \<mapsto> [[1, - 3], [- 1, 3]], 4 \<mapsto> [[4]]]"

definition sample_model :: model_logger where "sample_model = the sample_logger"

definition sample_file :: string where
  "sample_file = fst (the (writeModelAsCNFToFile [2, 3, 4] sample_defaults [9] sample_model))"

lemma sample_file_written:
  "case writeModelAsCNFToFile [2, 3, 4] sample_defaults [9] sample_model of None \<Rightarrow> False | Some _ \<Rightarrow> True"
  by code_simp

theorem cnf_file_follows_model_witness:
  "\<exists>w. sample_file = cnf_file_text w \<and>
    (\<forall>\<alpha>. cnf_sat \<alpha> (written w) \<longrightarrow>
       (\<exists>\<gamma>. agree_upto (max_variable_in_matrix sample_model) \<alpha> \<gamma> \<and> list_all (lit_true \<gamma>) [9] \<and>
            list_all (follows_model sample_defaults (sort [9]) sample_model \<gamma>) [2, 3, 4]))"
proof -
  obtain m' where m': "writeModelAsCNFToFile [2, 3, 4] sample_defaults [9] sample_model = Some (sample_file, m')"
    using sample_file_written by (auto simp: sample_file_def split: option.splits)
  show ?thesis
  proof (rule cnf_file_follows_model [OF m'])
    show "arbiters_ok (max_variable_in_matrix sample_model) (sort [9])" by code_simp
    show "unused_variable sample_model = max_variable_in_matrix sample_model + 1" by code_simp
    show "renaming_auxiliaries sample_model = Map.empty"
      by (simp add: sample_model_def sample_logger_def ml_addForcingClause_def ml_addConditionalDefinition_def
          ml_addDefinition_def ml_init_def new_ModelLogger_def getIndex_def var_def)
    show "list_all (logger_ok sample_defaults (sort [9]) sample_model) [2, 3, 4]" by code_simp
  qed
qed

end
