(* ===== verification/ValidityChecker.thy ===== *)
theory ValidityChecker
  imports SupportTracker SatSolver "HOL-Library.Monad_Syntax"
begin

text \<open>
  \<open>src/simplevaliditychecker.cc\<close>: two solvers, one that holds the rules of the current model and
  the negated matrix and one that holds the matrix, for the extraction of conflicts. Every clause
  of a rule carries the selector of its variable, and a variable that becomes defined gets a new
  selector. The check itself also asks the Skolem container, so \<open>checkArbiterAssignment\<close> stands in
  the theory \<open>ValidityCheck\<close>. The shared variable counter is passed explicitly. A limit on
  conflicts only makes a solver give up, which an oracle may do at any call. A failed assertion,
  an index outside a vector and \<open>erase\<close> of a missing element are \<open>None\<close>.
\<close>

section \<open>State\<close>

record validity_checker =
  selectors :: "int list"
  clause_satisfied_variables :: "int list"
  variable_to_selector_index :: "int \<rightharpoonup> nat"
  vc_existentials :: "int list"
  vc_universals :: "int list"
  failing_existential_assignment :: "int list"
  failing_universal_assignment :: "int list"
  failing_arbiter_assignment :: "int list"
  full_universal_assignment :: "int list"
  full_existential_assignment :: "int list"
  vc_matrix :: cnf
  validity_check_solver :: sat_solver
  conflict_extraction_solver :: sat_solver
  vc_tracker :: support_tracker

type_synonym vc_state = "int \<times> validity_checker"

definition max_variable :: "int list \<Rightarrow> int" where
  "max_variable vs = (if vs = [] then 0 else Max (set vs))"

definition add_selector :: "int \<Rightarrow> vc_state \<Rightarrow> vc_state" where
  "add_selector v = (\<lambda>(n, s).
     (n + 1, s\<lparr>variable_to_selector_index := (variable_to_selector_index s)(v \<mapsto> length (selectors s)),
               selectors := selectors s @ [n + 1]\<rparr>))"

definition track_variable :: "int \<Rightarrow> support_tracker \<Rightarrow> support_tracker" where
  "track_variable v t = setAlias (- v) (- v) (setAlias v v t)"

definition new_SimpleValidityChecker :: "int list \<Rightarrow> int list \<Rightarrow> cnf \<Rightarrow> int \<Rightarrow> vc_state option" where
  "new_SimpleValidityChecker existentials universals matrix n =
     (let n = max n (max (max_variable existentials) (max_variable universals)) in
      if \<not> n \<ge> maxVarIndex matrix then None
      else
        let existentials = sort existentials;
            (n, s) = fold add_selector existentials
              (n, \<lparr>selectors = [], clause_satisfied_variables = [], variable_to_selector_index = Map.empty,
                   vc_existentials = existentials, vc_universals = universals,
                   failing_existential_assignment = [], failing_universal_assignment = [],
                   failing_arbiter_assignment = [], full_universal_assignment = [],
                   full_existential_assignment = [], vc_matrix = matrix,
                   validity_check_solver = init_solver,
                   conflict_extraction_solver = sat_appendFormula matrix init_solver,
                   vc_tracker = new_SupportTracker universals\<rparr>);
            (matrix_negated, clause_variables, n) = negateFormula matrix n
        in Some (n, s\<lparr>clause_satisfied_variables := clause_variables,
                      validity_check_solver := sat_appendFormula matrix_negated (validity_check_solver s),
                      vc_tracker := fold track_variable existentials (vc_tracker s)\<rparr>))"

text \<open>\<open>operator[]\<close> of the map of indices gives 0 for a missing variable.\<close>

definition selector_index :: "validity_checker \<Rightarrow> int \<Rightarrow> nat" where
  "selector_index s v = (case variable_to_selector_index s v of None \<Rightarrow> 0 | Some i \<Rightarrow> i)"

definition vc_selector :: "validity_checker \<Rightarrow> int \<Rightarrow> int option" where
  "vc_selector s v =
     (let i = selector_index s v in if i < length (selectors s) then Some (selectors s ! i) else None)"

section \<open>Clauses and rules\<close>

definition vc_setDefined :: "int \<Rightarrow> vc_state \<Rightarrow> vc_state option" where
  "vc_setDefined v = (\<lambda>(n, s).
     if v \<notin> set (vc_existentials s) \<or> length (selectors s) \<le> selector_index s v then None
     else Some (n + 1, s\<lparr>vc_existentials := remove1 v (vc_existentials s),
                         selectors := (selectors s)[selector_index s v := n + 1]\<rparr>))"

definition addClauseValidityCheck :: "int \<Rightarrow> clause \<Rightarrow> validity_checker \<Rightarrow> validity_checker option" where
  "addClauseValidityCheck v clause s =
     do {
       selector \<leftarrow> vc_selector s v;
       Some (s\<lparr>validity_check_solver := sat_addClause (clause @ [- selector]) (validity_check_solver s)\<rparr>)
     }"

fun addClausesValidityCheck :: "int \<Rightarrow> cnf \<Rightarrow> validity_checker \<Rightarrow> validity_checker option" where
  "addClausesValidityCheck v [] s = Some s"
| "addClausesValidityCheck v (c # F) s =
     do { s \<leftarrow> addClauseValidityCheck v c s; addClausesValidityCheck v F s }"

definition addClauseConflictExtraction :: "clause \<Rightarrow> validity_checker \<Rightarrow> validity_checker" where
  "addClauseConflictExtraction clause s =
     s\<lparr>conflict_extraction_solver := sat_addClause clause (conflict_extraction_solver s)\<rparr>"

definition setNoForcingClauseActiveVariable :: "int \<Rightarrow> int \<Rightarrow> validity_checker \<Rightarrow> validity_checker" where
  "setNoForcingClauseActiveVariable existential_variable no_forcing_clause_active_variable s =
     s\<lparr>vc_tracker := setNoForcedVariable existential_variable no_forcing_clause_active_variable (vc_tracker s)\<rparr>"

definition vc_addArbiterVariable :: "int \<Rightarrow> validity_checker \<Rightarrow> validity_checker" where
  "vc_addArbiterVariable arbiter s = s\<lparr>vc_tracker := addArbiterVariable arbiter (vc_tracker s)\<rparr>"

definition vc_addDefiningClause :: "int \<Rightarrow> clause \<Rightarrow> int \<Rightarrow> validity_checker \<Rightarrow> validity_checker" where
  "vc_addDefiningClause v clause activity s =
     s\<lparr>vc_tracker := addDefiningClause v clause activity (vc_tracker s)\<rparr>"

section \<open>Conflicts\<close>

definition hasConflict ::
  "sat_oracle \<Rightarrow> int list \<Rightarrow> int list \<Rightarrow> int list \<Rightarrow> validity_checker \<Rightarrow> bool \<times> validity_checker" where
  "hasConflict orc existential_assignment universal_assignment arbiter_assignment s =
     (let solver = sat_assume universal_assignment (sat_assume existential_assignment (conflict_extraction_solver s));
          (result, solver) = sat_solve orc (sat_assume arbiter_assignment solver)
      in (result = 20, s\<lparr>conflict_extraction_solver := solver\<rparr>))"

record conflict =
  failed_existentials :: "int list"
  failed_universals :: "int list"
  failed_arbiters :: "int list"
  complete_universals :: "int list"
  complete_existentials :: "int list"

definition getConflict :: "sat_oracle \<Rightarrow> validity_checker \<Rightarrow> (conflict \<times> validity_checker) option" where
  "getConflict orc s =
     (let (result, s) = hasConflict orc (failing_existential_assignment s) (failing_universal_assignment s)
            (failing_arbiter_assignment s) s in
      if result
      then do {
        failed_es \<leftarrow> sat_getFailed (failing_existential_assignment s) (conflict_extraction_solver s);
        failed_us \<leftarrow> sat_getFailed (failing_universal_assignment s) (conflict_extraction_solver s);
        failed_as \<leftarrow> sat_getFailed (failing_arbiter_assignment s) (conflict_extraction_solver s);
        Some (\<lparr>failed_existentials = failed_es, failed_universals = failed_us, failed_arbiters = failed_as,
               complete_universals = full_universal_assignment s,
               complete_existentials = full_existential_assignment s\<rparr>, s)
      }
      else None)"

text \<open>The first clause of the matrix whose variable is not true in the last model.\<close>

fun first_falsified :: "cnf \<Rightarrow> int list \<Rightarrow> clause option" where
  "first_falsified matrix [] = None"
| "first_falsified [] (v # vs) = None"
| "first_falsified (c # matrix) (v # vs) = (if v > 0 then first_falsified matrix vs else Some c)"

definition setFailingAssignments ::
  "configuration \<Rightarrow> max_flow \<Rightarrow> (int \<rightharpoonup> int) \<Rightarrow> dep_container \<Rightarrow> int list \<Rightarrow> validity_checker \<Rightarrow>
   validity_checker option" where
  "setFailingAssignments conf max_flow arbiter_to_existential c arbiter_assignment s =
     (let values = (\<lambda>vs. sat_getValues vs (validity_check_solver s));
          val = (\<lambda>v. sat_val v (validity_check_solver s));
          s = s\<lparr>full_universal_assignment := values (vc_universals s),
                full_existential_assignment := values (vc_existentials s)\<rparr> in
      if sup_strat conf = Core
      then Some (s\<lparr>failing_universal_assignment := full_universal_assignment s,
                   failing_existential_assignment := full_existential_assignment s,
                   failing_arbiter_assignment := arbiter_assignment\<rparr>)
      else do {
        falsified_clause \<leftarrow> first_falsified (vc_matrix s) (values (clause_satisfied_variables s));
        forced_variable \<leftarrow> getForcedSource conf arbiter_to_existential c val (vc_tracker s) falsified_clause False;
        (es, us, as) \<leftarrow> computeSupport conf max_flow c val (vc_tracker s) falsified_clause forced_variable False;
        Some (s\<lparr>failing_existential_assignment := values es, failing_universal_assignment := values us,
                failing_arbiter_assignment := values as\<rparr>)
      })"

text \<open>
  The removed literal is overwritten by the last one. When it is itself the last one and has to
  be put back, the code reads the vector past its end.
\<close>

function minimizeAssumptions ::
  "sat_oracle \<Rightarrow> nat \<Rightarrow> int list \<Rightarrow> int list \<Rightarrow> int list \<Rightarrow> validity_checker \<Rightarrow> (int list \<times> validity_checker) option" where
  "minimizeAssumptions orc i to_minimize to_keep others s =
     (if i < length to_minimize then
        let removed = to_minimize ! i;
            rest = butlast (to_minimize[i := List.last to_minimize]);
            (result, s) = hasConflict orc rest to_keep others s
        in if result then minimizeAssumptions orc i rest to_keep others s
           else if i < length rest
           then minimizeAssumptions orc (i + 1) ((rest @ [rest ! i])[i := removed]) to_keep others s
           else None
      else Some (to_minimize, s))"
  by pat_completeness auto
termination
  by (relation "measure (\<lambda>(_, i, xs, _). length xs - i)") auto

declare minimizeAssumptions.simps [simp del]

definition getExistentialResponse ::
  "sat_oracle \<Rightarrow> int list \<Rightarrow> int list \<Rightarrow> validity_checker \<Rightarrow> int list \<times> validity_checker" where
  "getExistentialResponse orc universal_assignment arbiter_assignment s =
     (let solver = sat_assume arbiter_assignment (sat_assume universal_assignment (conflict_extraction_solver s));
          (result, solver) = sat_solve orc solver
      in (if result = 10 then sat_getValues (vc_existentials s) solver else [],
          s\<lparr>conflict_extraction_solver := solver\<rparr>))"

end
