(* ===== verification/SkolemContainer.thy ===== *)
theory SkolemContainer
  imports ConsistencyChecker ModelLogger ValidityChecker
begin

text \<open>
  \<open>src/skolemcontainer.cc\<close>: every rule of the current model goes through the Skolem container, which
  hands it to the consistency checker, the model logger and the validity checker and keeps the
  encoding of the last one: per existential variable a disjunction of the variables that say which
  rule fires, whose first disjunct says that no rule does. The objects refer to each other, so the
  state of all of them is one record (\<open>engine\<close>); the shared counter and the vectors of selectors
  shared with the default values are its \<open>env\<close>. A random default is an argument. \<open>operator[]\<close> gives
  0 for a missing integer; \<open>at\<close> on a missing key and an index outside a vector are \<open>None\<close>.
\<close>

section \<open>State\<close>

record skolem_container =
  sk_universals :: "int list"
  sk_existentials :: "int list"
  arbiter_to_annotation :: "int \<rightharpoonup> int list"
  existential_arbiter_map :: "int \<Rightarrow> int list \<rightharpoonup> int"
  proper_arbiters :: "int set"
  undefined_existentials :: "int set"
  variable_to_forcing_disjunction :: "int \<rightharpoonup> disjunction"
  variable_to_no_forcing_clause_active_variable :: "int \<rightharpoonup> int"
  variable_to_use_default_index :: "int \<rightharpoonup> nat"
  variable_to_default_function_selector_index :: "int \<rightharpoonup> int"
  apply_default :: "int \<rightharpoonup> int"

record 'h engine =
  eng_env :: env
  arbiter_to_existential :: "int \<rightharpoonup> int"
  eng_dependencies :: dep_container
  eng_consistency :: consistency_checker
  eng_validity :: validity_checker
  eng_defaults :: "'h default_container"
  eng_model :: model_logger
  eng_skolem :: skolem_container

definition fresh_variable :: "'h engine \<Rightarrow> int \<times> 'h engine" where
  "fresh_variable g =
     (let v = env_last (eng_env g) + 1 in (v, g\<lparr>eng_env := (eng_env g)\<lparr>env_last := v\<rparr>\<rparr>))"

definition in_consistency :: "(cc_state \<Rightarrow> cc_state option) \<Rightarrow> 'h engine \<Rightarrow> 'h engine option" where
  "in_consistency f g =
     do {
       (n, s) \<leftarrow> f (env_last (eng_env g), eng_consistency g);
       Some (g\<lparr>eng_env := (eng_env g)\<lparr>env_last := n\<rparr>, eng_consistency := s\<rparr>)
     }"

definition in_validity :: "(validity_checker \<Rightarrow> validity_checker option) \<Rightarrow> 'h engine \<Rightarrow> 'h engine option" where
  "in_validity f g = do { s \<leftarrow> f (eng_validity g); Some (g\<lparr>eng_validity := s\<rparr>) }"

definition in_model :: "(model_logger \<Rightarrow> model_logger option) \<Rightarrow> 'h engine \<Rightarrow> 'h engine option" where
  "in_model f g = do { m \<leftarrow> f (eng_model g); Some (g\<lparr>eng_model := m\<rparr>) }"

definition add_validity :: "int \<Rightarrow> clause \<Rightarrow> 'h engine \<Rightarrow> 'h engine option" where
  "add_validity v c = in_validity (addClauseValidityCheck v c)"

definition add_validities :: "int \<Rightarrow> cnf \<Rightarrow> 'h engine \<Rightarrow> 'h engine option" where
  "add_validities v F = in_validity (addClausesValidityCheck v F)"

definition add_extraction :: "clause \<Rightarrow> 'h engine \<Rightarrow> 'h engine" where
  "add_extraction c g = g\<lparr>eng_validity := addClauseConflictExtraction c (eng_validity g)\<rparr>"

definition add_extractions :: "cnf \<Rightarrow> 'h engine \<Rightarrow> 'h engine" where
  "add_extractions F g = fold add_extraction F g"

definition no_forcing_clause_active :: "'h engine \<Rightarrow> int \<Rightarrow> int" where
  "no_forcing_clause_active g v = int_entry (variable_to_no_forcing_clause_active_variable (eng_skolem g)) v"

section \<open>Initialisation\<close>

text \<open>
  The container starts a disjunct by value in \<open>addForcingDisjunct\<close>, which makes no difference:
  only its terminal index could change, and that was set here.
\<close>

definition forcing_disjunct :: "int \<Rightarrow> clause \<Rightarrow> 'h engine \<Rightarrow> (clause \<times> disjunction \<times> 'h engine) option" where
  "forcing_disjunct v c g =
     do {
       d \<leftarrow> variable_to_forcing_disjunction (eng_skolem g) v;
       let (c, d, n, ts) = createDisjunct c d (env_last (eng_env g)) (env_assumptions (eng_env g));
       Some (c, d, g\<lparr>eng_env := (eng_env g)\<lparr>env_last := n, env_assumptions := ts\<rparr>\<rparr>)
     }"

definition initVariable :: "int \<Rightarrow> 'h engine \<Rightarrow> 'h engine option" where
  "initVariable e g =
     do {
       let g = g\<lparr>eng_skolem := (eng_skolem g)\<lparr>variable_to_forcing_disjunction :=
         emplace (variable_to_forcing_disjunction (eng_skolem g)) e new_Disjunction\<rparr>\<rparr>;
       let (no_forcing, g) = fresh_variable g;
       let g = g\<lparr>eng_skolem := (eng_skolem g)\<lparr>variable_to_no_forcing_clause_active_variable :=
         (variable_to_no_forcing_clause_active_variable (eng_skolem g))(e \<mapsto> no_forcing)\<rparr>,
         eng_validity := setNoForcingClauseActiveVariable e no_forcing (eng_validity g)\<rparr>;
       (initial, d, g) \<leftarrow> forcing_disjunct e [no_forcing] g;
       let g = g\<lparr>eng_skolem := (eng_skolem g)\<lparr>variable_to_forcing_disjunction :=
         (variable_to_forcing_disjunction (eng_skolem g))(e \<mapsto> d)\<rparr>\<rparr>;
       g \<leftarrow> add_validity e initial g;
       let (use_default, g) = fresh_variable g;
       let (use_default_value, g) = fresh_variable g;
       let index = length (env_assumptions (eng_env g));
       let g = g\<lparr>eng_skolem := (eng_skolem g)\<lparr>apply_default := (apply_default (eng_skolem g))(e \<mapsto> use_default),
           variable_to_use_default_index := (variable_to_use_default_index (eng_skolem g))(e \<mapsto> index)\<rparr>,
         eng_env := (eng_env g)\<lparr>env_assumptions := env_assumptions (eng_env g) @ [use_default_value]\<rparr>\<rparr>;
       g \<leftarrow> add_validity e [- no_forcing, - use_default_value, use_default] g;
       Some (g\<lparr>eng_skolem := (eng_skolem g)\<lparr>variable_to_default_function_selector_index :=
         (variable_to_default_function_selector_index (eng_skolem g))(e \<mapsto> - 1)\<rparr>\<rparr>)
     }"

fun initVariables :: "int list \<Rightarrow> 'h engine \<Rightarrow> 'h engine option" where
  "initVariables [] g = Some g"
| "initVariables (e # es) g = do { g \<leftarrow> initVariable e g; initVariables es g }"

definition initValidityCheckModel :: "'h engine \<Rightarrow> 'h engine option" where
  "initValidityCheckModel g =
     do {
       g \<leftarrow> initVariables (sk_existentials (eng_skolem g)) g;
       Some (g\<lparr>eng_model := ml_init (max (max_variable (sk_universals (eng_skolem g)))
                                        (max_variable (sk_existentials (eng_skolem g)))) (eng_model g)\<rparr>)
     }"

text \<open>\<open>undefineds\<close> of the dependency container is passed to the operations that read it.\<close>

definition new_SkolemContainer ::
  "bool \<Rightarrow> configuration \<Rightarrow> int list \<Rightarrow> int list \<Rightarrow> dep_container \<Rightarrow> vc_state \<Rightarrow> 'h engine option" where
  "new_SkolemContainer ml conf universals existentials c = (\<lambda>(n, vc).
     do {
       (n, cc) \<leftarrow> new_ConsistencyChecker existentials universals n;
       initValidityCheckModel
         \<lparr>eng_env = \<lparr>env_last = n, env_assumptions = [], env_defaults = []\<rparr>, arbiter_to_existential = Map.empty,
          eng_dependencies = c, eng_consistency = cc, eng_validity = vc,
          eng_defaults = new_DefaultValueContainer ml conf existentials,
          eng_model = new_ModelLogger existentials universals,
          eng_skolem = \<lparr>sk_universals = universals, sk_existentials = existentials,
            arbiter_to_annotation = Map.empty, existential_arbiter_map = \<lambda>_. Map.empty, proper_arbiters = {},
            undefined_existentials = set existentials, variable_to_forcing_disjunction = Map.empty,
            variable_to_no_forcing_clause_active_variable = Map.empty,
            variable_to_use_default_index = Map.empty,
            variable_to_default_function_selector_index = Map.empty, apply_default = Map.empty\<rparr>\<rparr>
     })"

section \<open>Forcing clauses\<close>

definition addForcingDisjunct :: "int \<Rightarrow> int \<Rightarrow> 'h engine \<Rightarrow> 'h engine option" where
  "addForcingDisjunct v disjunct_active g =
     do {
       (c, d, g) \<leftarrow> forcing_disjunct v [disjunct_active] g;
       add_validity v c g
     }"

definition sk_addForcingClause :: "clause \<Rightarrow> bool \<Rightarrow> 'h engine \<Rightarrow> 'h engine option" where
  "sk_addForcingClause forcing_clause reduced g =
     (if forcing_clause = [] then None
      else do {
        let forced_literal = List.last forcing_clause;
        let v = var forced_literal;
        let premise = butlast forcing_clause;
        g \<leftarrow> in_consistency (cc_addForcingClause forcing_clause) g;
        g \<leftarrow> in_model (ml_addForcingClause forcing_clause) g;
        let g = (if reduced then add_extraction forcing_clause g else g);
        let (active, g) = fresh_variable g;
        g \<leftarrow> add_validity v (premise @ [active]) g;
        g \<leftarrow> add_validity v [- active, forced_literal] g;
        let g = g\<lparr>eng_validity := vc_addDefiningClause v (premise @ [active]) active (eng_validity g)\<rparr>;
        g \<leftarrow> add_validity v [- active, - no_forcing_clause_active g v] g;
        g \<leftarrow> addForcingDisjunct v active g;
        add_validities v (map (\<lambda>l. [- l, - active]) premise) g
      })"

definition addArbiterClause :: "clause \<Rightarrow> 'h engine \<Rightarrow> 'h engine option" where
  "addArbiterClause arbiter_clause g =
     (if arbiter_clause = [] then None
      else do {
        let implied_literal = List.last arbiter_clause;
        let v = var implied_literal;
        let premise = butlast arbiter_clause;
        g \<leftarrow> in_consistency (cc_addForcingClause arbiter_clause) g;
        let g = add_extraction arbiter_clause g;
        g \<leftarrow> in_model (ml_addForcingClause arbiter_clause) g;
        let (active, g) = fresh_variable g;
        g \<leftarrow> add_validity v (premise @ [active]) g;
        let g = g\<lparr>eng_validity := vc_addDefiningClause v (premise @ [active]) active (eng_validity g)\<rparr>;
        g \<leftarrow> add_validity v [- active, implied_literal] g;
        g \<leftarrow> add_validity v [- active, - no_forcing_clause_active g v] g;
        g \<leftarrow> addForcingDisjunct v active g;
        add_validities v (map (\<lambda>l. [- l, - active]) premise) g
      })"

section \<open>Definitions\<close>

text \<open>\<open>None\<close> where the code would index with a negative number or past the end.\<close>

definition set_assumption :: "(int \<Rightarrow> int) \<Rightarrow> int \<Rightarrow> 'h engine \<Rightarrow> 'h engine option" where
  "set_assumption f i g =
     (let as = env_assumptions (eng_env g) in
      if 0 \<le> i \<and> nat i < length as
      then Some (g\<lparr>eng_env := (eng_env g)\<lparr>env_assumptions := as[nat i := f (as ! nat i)]\<rparr>\<rparr>)
      else None)"

definition selector_position :: "'h engine \<Rightarrow> int \<Rightarrow> int" where
  "selector_position g v = int_entry (variable_to_default_function_selector_index (eng_skolem g)) v"

definition sk_disableDefaultFunctionSelector :: "int \<Rightarrow> 'h engine \<Rightarrow> 'h engine option" where
  "sk_disableDefaultFunctionSelector v g =
     (let i = selector_position g v in
      if i \<noteq> - 1 then set_assumption (\<lambda>l. - var l) i g else Some g)"

definition sk_newDefaultFunctionSelector :: "int \<Rightarrow> 'h engine \<Rightarrow> (int \<times> 'h engine) option" where
  "sk_newDefaultFunctionSelector v g =
     do {
       g \<leftarrow> (if selector_position g v \<noteq> - 1 then sk_disableDefaultFunctionSelector v g else Some g);
       let g = g\<lparr>eng_skolem := (eng_skolem g)\<lparr>variable_to_default_function_selector_index :=
         (variable_to_default_function_selector_index (eng_skolem g))
           (v \<mapsto> int (length (env_assumptions (eng_env g))))\<rparr>\<rparr>;
       let (selector, g) = fresh_variable g;
       Some (selector, g\<lparr>eng_env := (eng_env g)\<lparr>env_assumptions := env_assumptions (eng_env g) @ [- selector]\<rparr>\<rparr>)
     }"

definition addDefinitionWithSelector :: "int \<Rightarrow> cnf \<Rightarrow> int \<Rightarrow> bool \<Rightarrow> 'h engine \<Rightarrow> 'h engine option" where
  "addDefinitionWithSelector v definition selector reduced g =
     do {
       let F = map (\<lambda>c. c @ [- selector]) definition;
       g \<leftarrow> add_validities v F g;
       Some (if reduced then add_extractions F g else g)
     }"

definition sk_addDefinition ::
  "int \<Rightarrow> cnf \<Rightarrow> def_circuit \<Rightarrow> int list \<Rightarrow> bool \<Rightarrow> 'h engine \<Rightarrow> 'h engine option" where
  "sk_addDefinition v definition circuit_def conflict reduced g =
     do {
       g \<leftarrow> in_model (ml_addConditionalDefinition v conflict definition circuit_def) g;
       g \<leftarrow> in_consistency (cc_addDefinition (eng_dependencies g) v definition conflict) g;
       g \<leftarrow> (if conflict = [] \<and> v \<in> undefined_existentials (eng_skolem g)
             then do {
               (n, s) \<leftarrow> vc_setDefined v (env_last (eng_env g), eng_validity g);
               Some (g\<lparr>eng_env := (eng_env g)\<lparr>env_last := n\<rparr>, eng_validity := s,
                 eng_skolem := (eng_skolem g)\<lparr>undefined_existentials := undefined_existentials (eng_skolem g) - {v}\<rparr>\<rparr>)
             }
             else Some g);
       let (conflict_active, g) = fresh_variable g;
       let conflict_selector_clause = negateEach conflict @ [conflict_active];
       g \<leftarrow> add_validity v conflict_selector_clause g;
       let g = (if reduced then add_extraction conflict_selector_clause g else g);
       g \<leftarrow> add_validities v (map (\<lambda>l. [l, - conflict_active]) conflict) g;
       let (selector, g) = fresh_variable g;
       let (new_default_function_active, g) = fresh_variable g;
       g \<leftarrow> add_validities v [[conflict_active, new_default_function_active, - selector],
         [- conflict_active, selector], [- new_default_function_active, selector]] g;
       (new_default_function_selector, g) \<leftarrow> sk_newDefaultFunctionSelector v g;
       let no_forcing = no_forcing_clause_active g v;
       g \<leftarrow> add_validities v [[- new_default_function_active, no_forcing],
         [- new_default_function_active, new_default_function_selector],
         [- no_forcing, - new_default_function_selector, new_default_function_active],
         [- conflict_active, - no_forcing]] g;
       let g = (if reduced then add_extraction [- conflict_active, selector] g else g);
       g \<leftarrow> addForcingDisjunct v conflict_active g;
       g \<leftarrow> addDefinitionWithSelector v definition selector (conflict \<noteq> [] \<or> reduced) g;
       support \<leftarrow> restrictToExtendedDendencies (getSupport conflict definition) v (eng_dependencies g);
       Some (g\<lparr>eng_validity := vc_addDefiningClause v support conflict_active (eng_validity g)\<rparr>)
     }"

section \<open>Arbiters\<close>

definition existsArbiter :: "int \<Rightarrow> int list \<Rightarrow> 'h engine \<Rightarrow> bool" where
  "existsArbiter v assignment g \<longleftrightarrow> existential_arbiter_map (eng_skolem g) v assignment \<noteq> None"

definition createArbiter :: "int \<Rightarrow> int list \<Rightarrow> 'h engine \<Rightarrow> int \<times> 'h engine" where
  "createArbiter v annotation g =
     (let (arbiter, g) = fresh_variable g; annotation = sort annotation; sk = eng_skolem g
      in (arbiter, g\<lparr>arbiter_to_existential := (arbiter_to_existential g)(arbiter \<mapsto> v),
            eng_skolem := sk\<lparr>arbiter_to_annotation := (arbiter_to_annotation sk)(arbiter \<mapsto> annotation),
              existential_arbiter_map := (existential_arbiter_map sk)
                (v := (existential_arbiter_map sk v)(annotation \<mapsto> arbiter))\<rparr>\<rparr>))"

definition getArbiterAnnotation :: "int \<Rightarrow> 'h engine \<Rightarrow> int list" where
  "getArbiterAnnotation arbiter g = entry (arbiter_to_annotation (eng_skolem g)) arbiter"

definition realizeArbiter :: "int \<Rightarrow> 'h engine \<Rightarrow> 'h engine option" where
  "realizeArbiter arbiter g =
     do {
       let v = int_entry (arbiter_to_existential g) arbiter;
       let g = g\<lparr>eng_consistency := cc_addArbiterVariable v arbiter (eng_consistency g),
                 eng_validity := vc_addArbiterVariable arbiter (eng_validity g)\<rparr>;
       let negated = negateEach (getArbiterAnnotation arbiter g);
       g \<leftarrow> addArbiterClause (negated @ [- arbiter, v]) g;
       g \<leftarrow> addArbiterClause (negated @ [arbiter, - v]) g;
       Some (g\<lparr>eng_skolem := (eng_skolem g)\<lparr>proper_arbiters := insert arbiter (proper_arbiters (eng_skolem g))\<rparr>\<rparr>)
     }"

definition sk_getArbiter :: "int \<Rightarrow> int list \<Rightarrow> bool \<Rightarrow> 'h engine \<Rightarrow> ((int \<times> bool \<times> bool) \<times> 'h engine) option" where
  "sk_getArbiter v assignment introduce_clauses g =
     do {
       let assignment = sort assignment;
       let is_new_arbiter = (\<not> existsArbiter v assignment g);
       let g = (if is_new_arbiter then snd (createArbiter v assignment g) else g);
       let arbiter = (case existential_arbiter_map (eng_skolem g) v assignment of None \<Rightarrow> 0 | Some a \<Rightarrow> a);
       g \<leftarrow> (if introduce_clauses \<and> arbiter \<notin> proper_arbiters (eng_skolem g)
             then realizeArbiter arbiter g else Some g);
       Some ((arbiter, is_new_arbiter, arbiter \<in> proper_arbiters (eng_skolem g)), g)
     }"

section \<open>Defaults\<close>

definition sk_addDefaultClause :: "int \<Rightarrow> clause \<Rightarrow> int \<Rightarrow> 'h engine \<Rightarrow> 'h engine option" where
  "sk_addDefaultClause v clause use_default_variable g =
     (if clause = [] then None
      else do {
        g \<leftarrow> in_consistency (cc_addDefaultClause (butlast clause) (List.last clause)) g;
        add_validity v (clause @ [- use_default_variable]) g
      })"

fun add_default_clauses :: "int \<Rightarrow> clause list \<Rightarrow> int \<Rightarrow> 'h engine \<Rightarrow> 'h engine option" where
  "add_default_clauses v [] use_default g = Some g"
| "add_default_clauses v (c # cs) use_default g =
     do { g \<leftarrow> sk_addDefaultClause v c use_default g; add_default_clauses v cs use_default g }"

definition addDefaultClauses :: "int \<Rightarrow> clause list \<Rightarrow> 'h engine \<Rightarrow> 'h engine option" where
  "addDefaultClauses v clauses g =
     do { use_default \<leftarrow> apply_default (eng_skolem g) v; add_default_clauses v clauses use_default g }"

fun add_initial_defaults :: "(int \<times> clause list) list \<Rightarrow> 'h engine \<Rightarrow> 'h engine option" where
  "add_initial_defaults [] g = Some g"
| "add_initial_defaults ((v, clauses) # xs) g =
     do { g \<leftarrow> addDefaultClauses v clauses g; add_initial_defaults xs g }"

definition initDefaultValues ::
  "(nat \<Rightarrow> 'h) \<Rightarrow> configuration \<Rightarrow> int list \<Rightarrow> 'h engine \<Rightarrow> 'h engine option" where
  "initDefaultValues learner conf undefineds g =
     do {
       (xs, d, e) \<leftarrow> dv_initialize learner conf (eng_dependencies g) undefineds (eng_defaults g) (eng_env g);
       add_initial_defaults xs (g\<lparr>eng_defaults := d, eng_env := e\<rparr>)
     }"

definition insertIntoDefaultContainer :: "'h mlpack_tree \<Rightarrow> int \<Rightarrow> int list \<Rightarrow> 'h engine \<Rightarrow> 'h engine option" where
  "insertIntoDefaultContainer api existential_literal assignment g =
     do {
       (clauses, d, e) \<leftarrow> dv_insertConflict api existential_literal assignment (eng_defaults g) (eng_env g);
       addDefaultClauses (var existential_literal) clauses (g\<lparr>eng_defaults := d, eng_env := e\<rparr>)
     }"

definition insertBothIntoDefaultContainer ::
  "'h mlpack_tree \<Rightarrow> int \<Rightarrow> int list \<Rightarrow> int list \<Rightarrow> 'h engine \<Rightarrow> 'h engine option" where
  "insertBothIntoDefaultContainer api existential_literal universal_assignment existential_assignment g =
     insertIntoDefaultContainer api existential_literal (universal_assignment @ existential_assignment) g"

fun add_sampled_clauses :: "int list \<Rightarrow> clause list list \<Rightarrow> 'h engine \<Rightarrow> 'h engine option" where
  "add_sampled_clauses [] clauses g = Some g"
| "add_sampled_clauses (v # vs) [] g = None"
| "add_sampled_clauses (v # vs) (cs # clauses) g =
     do { g \<leftarrow> addDefaultClauses v cs g; add_sampled_clauses vs clauses g }"

definition insertSamplesIntoDefaultContainer :: "cnf \<Rightarrow> int list \<Rightarrow> 'h engine \<Rightarrow> 'h engine option" where
  "insertSamplesIntoDefaultContainer matrix variables_to_sample g =
     (let clauses = dv_insertSample matrix variables_to_sample
      in if clauses \<noteq> [] then add_sampled_clauses variables_to_sample clauses g else Some g)"

definition sk_setPolarity :: "'h mlpack_tree \<Rightarrow> int \<Rightarrow> bool \<Rightarrow> 'h engine \<Rightarrow> 'h engine option" where
  "sk_setPolarity api v polarity g =
     do {
       e \<leftarrow> setFixedDefaultPolarity api v polarity (eng_defaults g) (eng_env g);
       Some (g\<lparr>eng_env := e\<rparr>)
     }"

definition sk_setDefaultValue :: "'h mlpack_tree \<Rightarrow> int \<Rightarrow> bool \<Rightarrow> 'h engine \<Rightarrow> 'h engine option" where
  "sk_setDefaultValue = sk_setPolarity"

text \<open>\<open>value\<close> is the next value of the random generator.\<close>

definition sk_setRandomDefaultValue :: "'h mlpack_tree \<Rightarrow> int \<Rightarrow> bool \<Rightarrow> 'h engine \<Rightarrow> 'h engine option" where
  "sk_setRandomDefaultValue api v value g = sk_setDefaultValue api v value g"

definition use_default_position :: "'h engine \<Rightarrow> int \<Rightarrow> nat" where
  "use_default_position g v = (case variable_to_use_default_index (eng_skolem g) v of None \<Rightarrow> 0 | Some i \<Rightarrow> i)"

definition sk_setDefaultValueActive :: "int \<Rightarrow> bool \<Rightarrow> 'h engine \<Rightarrow> 'h engine option" where
  "sk_setDefaultValueActive v active g =
     do {
       g \<leftarrow> set_assumption (\<lambda>l. setLiteralSign l active) (int (use_default_position g v)) g;
       g \<leftarrow> (if selector_position g v \<noteq> - 1
             then set_assumption (\<lambda>l. setLiteralSign l (\<not> active)) (selector_position g v) g
             else Some g);
       cc \<leftarrow> cc_setDefaultValueActive v active (eng_consistency g);
       Some (g\<lparr>eng_consistency := cc\<rparr>)
     }"

section \<open>The current model\<close>

definition validityCheckAssumptions :: "'h engine \<Rightarrow> int list" where
  "validityCheckAssumptions g = env_assumptions (eng_env g)"

definition sk_checkConsistency ::
  "configuration \<Rightarrow> max_flow \<Rightarrow> sat_oracle \<Rightarrow> int list \<Rightarrow> int list \<Rightarrow> 'h engine \<Rightarrow>
   (counterexample option \<times> 'h engine) option" where
  "sk_checkConsistency conf max_flow orc undefineds arbiter_assumptions g =
     do {
       let cc = cc_addAssumption (getSelectors (eng_env g)) (eng_consistency g);
       (cex, cc) \<leftarrow> cc_checkConsistency conf max_flow orc (arbiter_to_existential g) (eng_dependencies g)
         undefineds arbiter_assumptions cc;
       Some (cex, g\<lparr>eng_consistency := cc\<rparr>)
     }"

definition sk_writeModelAsCNFToFile ::
  "'h mlpack_tree \<Rightarrow> int list \<Rightarrow> int list \<Rightarrow> 'h engine \<Rightarrow> (string \<times> 'h engine) option" where
  "sk_writeModelAsCNFToFile api iteration arbiter_assignment g =
     do {
       defaults \<leftarrow> getCertificate api (eng_defaults g) (eng_env g);
       (content, m) \<leftarrow> writeModelAsCNFToFile iteration defaults arbiter_assignment (eng_model g);
       Some (content, g\<lparr>eng_model := m\<rparr>)
     }"

definition sk_writeModelAsAIGToFile ::
  "(string \<Rightarrow> bool \<Rightarrow> aiger \<Rightarrow> bool) \<Rightarrow> 'h mlpack_tree \<Rightarrow> string \<Rightarrow> int list \<Rightarrow> bool \<Rightarrow> 'h engine \<Rightarrow> bool option" where
  "sk_writeModelAsAIGToFile write api file_name arbiter_assignment binary_AIGER g =
     do {
       defaults \<leftarrow> getCertificate api (eng_defaults g) (eng_env g);
       writeModelAsAIGToFile write file_name defaults arbiter_assignment binary_AIGER (eng_model g)
     }"

definition getDefaultStatistic :: "'h engine \<Rightarrow> int \<times> int" where
  "getDefaultStatistic g = getStatistic (eng_defaults g)"

end
