(* ===== verification/ValidityCheck.thy ===== *)
theory ValidityCheck
  imports SkolemContainer
begin

text \<open>
  The check of \<open>src/simplevaliditychecker.cc\<close> that the current model with the current arbiter assignment
  is valid: the validity solver looks for a falsified matrix under the rules, and when it finds
  none the consistency checker has the last word. Answering false leaves the falsifying
  assignments in the validity checker. A counterexample of the consistency checker overwrites all
  of them except \<open>full_existential_assignment\<close>, which keeps the value of an earlier check.
\<close>

definition store_counterexample :: "counterexample option \<Rightarrow> validity_checker \<Rightarrow> validity_checker" where
  "store_counterexample cex s =
     (case cex of
        None \<Rightarrow> s
      | Some x \<Rightarrow> s\<lparr>failing_existential_assignment := cex_existentials x,
                   failing_universal_assignment := cex_universals x,
                   failing_arbiter_assignment := cex_arbiters x,
                   full_universal_assignment := cex_complete_universals x\<rparr>)"

definition solve_validity :: "sat_oracle \<Rightarrow> int list \<Rightarrow> 'h engine \<Rightarrow> int \<times> 'h engine" where
  "solve_validity orc arbiter_assignment g =
     (let s = eng_validity g;
          solver = sat_assume (validityCheckAssumptions g) (validity_check_solver s);
          solver = sat_assume (selectors s) (sat_assume arbiter_assignment solver);
          (result, solver) = sat_solve orc solver
      in (result, g\<lparr>eng_validity := s\<lparr>validity_check_solver := solver\<rparr>\<rparr>))"

definition vc_checkArbiterAssignment ::
  "configuration \<Rightarrow> max_flow \<Rightarrow> sat_oracle \<Rightarrow> sat_oracle \<Rightarrow> int list \<Rightarrow> int list \<Rightarrow> 'h engine \<Rightarrow>
   (bool \<times> 'h engine) option" where
  "vc_checkArbiterAssignment conf max_flow validity_oracle consistency_oracle undefineds arbiter_assignment g =
     (let (result, g) = solve_validity validity_oracle arbiter_assignment g in
      if result = 10 then
        do {
          s \<leftarrow> setFailingAssignments conf max_flow (arbiter_to_existential g) (eng_dependencies g)
            arbiter_assignment (eng_validity g);
          Some (False, g\<lparr>eng_validity := s\<rparr>)
        }
      else if result \<noteq> 20 then None
      else
        do {
          (cex, g) \<leftarrow> sk_checkConsistency conf max_flow consistency_oracle undefineds arbiter_assignment g;
          Some (cex = None, g\<lparr>eng_validity := store_counterexample cex (eng_validity g)\<rparr>)
        })"

definition vc_getConflict :: "sat_oracle \<Rightarrow> 'h engine \<Rightarrow> (conflict \<times> 'h engine) option" where
  "vc_getConflict orc g =
     do { (conflict, s) \<leftarrow> getConflict orc (eng_validity g); Some (conflict, g\<lparr>eng_validity := s\<rparr>) }"

end
