(* ===== verification/RuleEncoding.thy ===== *)
theory RuleEncoding
  imports Prelude
begin

text \<open>
  The encoding of the rules of a model in the validity solver, apart from the objects that keep it.
  Every existential variable has forcing clauses, conditional definitions and default clauses
  (\<open>rule_book\<close>) and a few control variables: a selector on all its clauses, a variable saying that
  no rule fires, one that asks for the default and one that switches it on, and the terminal of
  the disjunction of its rules. What the clauses have to do is \<open>encodes\<close>: every assignment that
  obeys the rules of the selected variables extends over the internal variables to one that
  satisfies the clauses, with the terminals false where the disjunction holds. One lemma per group
  of clauses shows that adding it keeps this.
\<close>

section \<open>Rules\<close>

record rule_book =
  forcing_of :: "int \<Rightarrow> clause list"
  definitions_of :: "int \<Rightarrow> (int list \<times> cnf \<times> int) list"
  defaults_of :: "int \<Rightarrow> clause list"

record controls =
  selector_of :: "int \<Rightarrow> int"
  none_of :: "int \<Rightarrow> int"
  use_of :: "int \<Rightarrow> int"
  switch_of :: "int \<Rightarrow> int"
  terminal_of :: "int \<Rightarrow> int"

definition no_rules :: rule_book where
  "no_rules = \<lparr>forcing_of = \<lambda>_. [], definitions_of = \<lambda>_. [], defaults_of = \<lambda>_. []\<rparr>"

definition clause_fires :: "assignment \<Rightarrow> clause \<Rightarrow> bool" where
  "clause_fires \<beta> c \<longleftrightarrow> \<not> clause_sat \<beta> (butlast c)"

definition rule_fires :: "rule_book \<Rightarrow> int \<Rightarrow> assignment \<Rightarrow> bool" where
  "rule_fires R e \<beta> \<longleftrightarrow>
     list_ex (clause_fires \<beta>) (forcing_of R e) \<or>
     list_ex (\<lambda>(condition, def, s). list_all (lit_true \<beta>) condition) (definitions_of R e)"

text \<open>The definition is in force under its condition, or when it is selected as the default.\<close>

definition definition_obeyed :: "assignment \<Rightarrow> bool \<Rightarrow> int list \<times> cnf \<times> int \<Rightarrow> bool" where
  "definition_obeyed \<beta> none = (\<lambda>(condition, def, s).
     list_all (lit_true \<beta>) condition \<or> none \<and> \<beta> s \<longrightarrow> cnf_sat \<beta> def)"

definition obeys :: "controls \<Rightarrow> rule_book \<Rightarrow> int \<Rightarrow> assignment \<Rightarrow> bool" where
  "obeys X R e \<beta> \<longleftrightarrow>
     list_all (\<lambda>c. clause_fires \<beta> c \<longrightarrow> lit_true \<beta> (List.last c)) (forcing_of R e) \<and>
     (rule_fires R e \<beta> \<longrightarrow> \<not> \<beta> (none_of X e)) \<and>
     list_all (definition_obeyed \<beta> (\<beta> (none_of X e))) (definitions_of R e) \<and>
     (\<beta> (none_of X e) \<and> \<beta> (switch_of X e) \<longrightarrow> \<beta> (use_of X e)) \<and>
     (\<beta> (use_of X e) \<longrightarrow> cnf_sat \<beta> (defaults_of R e))"

definition terminals_false :: "int set \<Rightarrow> controls \<Rightarrow> rule_book \<Rightarrow> assignment \<Rightarrow> assignment \<Rightarrow> bool" where
  "terminals_false E X R \<beta> \<gamma> \<longleftrightarrow>
     (\<forall>e\<in>E. \<not> \<beta> (selector_of X e) \<or> \<beta> (none_of X e) \<or> rule_fires R e \<beta> \<longrightarrow> \<not> \<gamma> (terminal_of X e))"

definition extends_to :: "int set \<Rightarrow> controls \<Rightarrow> rule_book \<Rightarrow> int set \<Rightarrow> cnf \<Rightarrow> assignment \<Rightarrow> assignment \<Rightarrow> bool" where
  "extends_to E X R I F \<beta> \<gamma> \<longleftrightarrow>
     (\<forall>v. v \<notin> I \<longrightarrow> \<gamma> v = \<beta> v) \<and> cnf_sat \<gamma> F \<and> terminals_false E X R \<beta> \<gamma>"

definition encodes :: "int set \<Rightarrow> controls \<Rightarrow> rule_book \<Rightarrow> int set \<Rightarrow> cnf \<Rightarrow> cnf \<Rightarrow> bool" where
  "encodes E X R I M F \<longleftrightarrow>
     (\<forall>\<beta>. \<not> cnf_sat \<beta> M \<and> (\<forall>e\<in>E. \<beta> (selector_of X e) \<longrightarrow> obeys X R e \<beta>) \<longrightarrow> (\<exists>\<gamma>. extends_to E X R I F \<beta> \<gamma>))"

text \<open>The variables in use are at most \<open>n\<close>; the controls are not internal, the terminals are.\<close>

definition controls_ok :: "int \<Rightarrow> int set \<Rightarrow> controls \<Rightarrow> int set \<Rightarrow> bool" where
  "controls_ok n E X I \<longleftrightarrow> I \<subseteq> {1..n} \<and>
     (\<forall>e\<in>E. {selector_of X e, none_of X e, use_of X e, switch_of X e, terminal_of X e} \<subseteq> {1..n} \<and>
            {selector_of X e, none_of X e, use_of X e, switch_of X e} \<inter> I = {} \<and> terminal_of X e \<in> I)"

definition outside :: "int \<Rightarrow> int set \<Rightarrow> clause \<Rightarrow> bool" where
  "outside n I c \<longleftrightarrow> list_all (\<lambda>l. l \<noteq> 0 \<and> \<bar>l\<bar> \<le> n \<and> \<bar>l\<bar> \<notin> I) c"

lemma outside_simps [simp]:
  "outside n I []" "outside n I (l # c) \<longleftrightarrow> l \<noteq> 0 \<and> \<bar>l\<bar> \<le> n \<and> \<bar>l\<bar> \<notin> I \<and> outside n I c"
  "outside n I (c @ d) \<longleftrightarrow> outside n I c \<and> outside n I d"
  by (auto simp: outside_def)

definition agree_off :: "int \<Rightarrow> int set \<Rightarrow> assignment \<Rightarrow> assignment \<Rightarrow> bool" where
  "agree_off n I \<gamma> \<beta> \<longleftrightarrow> (\<forall>v. v \<le> n \<longrightarrow> v \<notin> I \<longrightarrow> \<gamma> v = \<beta> v)"

lemma outside_agree:
  assumes "outside n I c" "agree_off n I \<gamma> \<beta>"
  shows "l \<in> set c \<Longrightarrow> lit_true \<gamma> l = lit_true \<beta> l" "clause_sat \<gamma> c = clause_sat \<beta> c"
    "list_all (lit_true \<gamma>) c = list_all (lit_true \<beta>) c"
proof -
  have lit: "lit_true \<gamma> l = lit_true \<beta> l" if "l \<in> set c" for l
    using assms that by (intro lit_true_cong) (auto simp: outside_def list_all_iff agree_off_def)
  show "l \<in> set c \<Longrightarrow> lit_true \<gamma> l = lit_true \<beta> l" by (rule lit)
  show "clause_sat \<gamma> c = clause_sat \<beta> c" "list_all (lit_true \<gamma>) c = list_all (lit_true \<beta>) c"
    using lit by (auto simp: clause_sat_iff list_all_iff)
qed

lemma controls_okD:
  assumes "controls_ok n E X I"
  shows "I \<subseteq> {1..n}" "e \<in> E \<Longrightarrow> 0 < selector_of X e" "e \<in> E \<Longrightarrow> selector_of X e \<le> n" "e \<in> E \<Longrightarrow> selector_of X e \<notin> I"
    "e \<in> E \<Longrightarrow> 0 < none_of X e" "e \<in> E \<Longrightarrow> none_of X e \<le> n" "e \<in> E \<Longrightarrow> none_of X e \<notin> I"
    "e \<in> E \<Longrightarrow> 0 < use_of X e" "e \<in> E \<Longrightarrow> use_of X e \<le> n" "e \<in> E \<Longrightarrow> use_of X e \<notin> I"
    "e \<in> E \<Longrightarrow> 0 < switch_of X e" "e \<in> E \<Longrightarrow> switch_of X e \<le> n" "e \<in> E \<Longrightarrow> switch_of X e \<notin> I"
    "e \<in> E \<Longrightarrow> 0 < terminal_of X e" "e \<in> E \<Longrightarrow> terminal_of X e \<le> n" "e \<in> E \<Longrightarrow> terminal_of X e \<in> I"
  using assms by (auto simp: controls_ok_def)

lemma controls_ok_mono: "controls_ok n E X I \<Longrightarrow> n \<le> n' \<Longrightarrow> controls_ok n' E X I"
  unfolding controls_ok_def by fastforce

lemma encodesD:
  assumes "encodes E X R I M F" "\<not> cnf_sat \<beta> M" "\<And>e. e \<in> E \<Longrightarrow> \<beta> (selector_of X e) \<Longrightarrow> obeys X R e \<beta>"
  obtains \<gamma> where "extends_to E X R I F \<beta> \<gamma>"
  using assms unfolding encodes_def by blast

lemma encodesI:
  assumes "\<And>\<beta>. \<not> cnf_sat \<beta> M \<Longrightarrow> (\<And>e. e \<in> E \<Longrightarrow> \<beta> (selector_of X e) \<Longrightarrow> obeys X R e \<beta>) \<Longrightarrow> \<exists>\<gamma>. extends_to E X R I F \<beta> \<gamma>"
  shows "encodes E X R I M F"
  using assms unfolding encodes_def by blast

lemma encodes_set: "encodes E X R I M F \<Longrightarrow> set F' = set F \<Longrightarrow> encodes E X R I M F'"
  by (simp add: encodes_def extends_to_def cnf_sat_iff)

text \<open>Clauses under a selector.\<close>

definition guarded :: "int \<Rightarrow> cnf \<Rightarrow> cnf" where
  "guarded s F = map (\<lambda>c. c @ [- s]) F"

lemma cnf_sat_guarded: "0 < s \<Longrightarrow> cnf_sat \<gamma> (guarded s F) \<longleftrightarrow> \<not> \<gamma> s \<or> cnf_sat \<gamma> F"
  by (auto simp: guarded_def cnf_sat_iff clause_sat_iff)

section \<open>A forcing clause\<close>

definition forcing_encoding :: "int list \<Rightarrow> int \<Rightarrow> int \<Rightarrow> int \<Rightarrow> int \<Rightarrow> int \<Rightarrow> cnf" where
  "forcing_encoding p l active none terminal terminal' =
     [p @ [active], [- active, l], [- active, - none], [- terminal, active, terminal']] @ map (\<lambda>k. [- k, - active]) p"

lemma forcing_encoding_sat:
  assumes "0 < active" "0 < none" "0 < terminal" "0 < terminal'" "0 \<notin> set p"
    and "\<gamma> active = (\<not> clause_sat \<gamma> p)" "\<not> clause_sat \<gamma> p \<longrightarrow> lit_true \<gamma> l \<and> \<not> \<gamma> none"
    and "\<gamma> terminal \<longrightarrow> \<gamma> active \<or> \<gamma> terminal'"
  shows "cnf_sat \<gamma> (forcing_encoding p l active none terminal terminal')"
proof -
  have "lit_true \<gamma> (- k) = (\<not> lit_true \<gamma> k)" if "k \<in> set p" for k using that assms(5) by (intro lit_true_neg) auto
  moreover have "k \<in> set p \<Longrightarrow> lit_true \<gamma> k \<Longrightarrow> clause_sat \<gamma> p" for k by (auto simp: clause_sat_iff)
  ultimately have "cnf_sat \<gamma> (map (\<lambda>k. [- k, - active]) p)" using assms(1,6) by (auto simp: cnf_sat_iff)
  then show ?thesis using assms by (auto simp: forcing_encoding_def)
qed

lemma terminals_false_update:
  assumes "terminals_false E X R \<beta> \<gamma>" and "\<And>v. v \<noteq> t \<Longrightarrow> v \<in> terminal_of X ` E \<Longrightarrow> \<gamma>' v = \<gamma> v"
    and "t \<notin> terminal_of X ` E"
    and "\<And>e'. e' \<in> E \<Longrightarrow> rule_fires R' e' \<beta> \<Longrightarrow> e' \<noteq> e \<Longrightarrow> rule_fires R e' \<beta>"
    and "e \<in> E \<Longrightarrow> \<not> \<beta> (selector_of X e) \<or> \<beta> (none_of X e) \<or> rule_fires R' e \<beta> \<Longrightarrow> \<not> \<gamma>' t"
  shows "terminals_false E (X\<lparr>terminal_of := (terminal_of X)(e := t)\<rparr>) R' \<beta> \<gamma>'"
  unfolding terminals_false_def
proof (intro ballI impI)
  fix e' assume e': "e' \<in> E"
    and c: "\<not> \<beta> (selector_of (X\<lparr>terminal_of := (terminal_of X)(e := t)\<rparr>) e') \<or>
      \<beta> (none_of (X\<lparr>terminal_of := (terminal_of X)(e := t)\<rparr>) e') \<or> rule_fires R' e' \<beta>"
  show "\<not> \<gamma>' (terminal_of (X\<lparr>terminal_of := (terminal_of X)(e := t)\<rparr>) e')"
  proof (cases "e' = e")
    case False
    then have "\<not> \<gamma> (terminal_of X e')" using assms(1,4) e' c unfolding terminals_false_def by auto
    moreover have "terminal_of X e' \<noteq> t" using assms(3) e' by auto
    ultimately show ?thesis using False assms(2) e' by simp
  qed (use assms(5) e' c in simp)
qed

lemma encodes_forcing:
  assumes enc: "encodes E X R I M F" and ok: "controls_ok n E X I" and e: "e \<in> E" and F: "cnf_vars F \<subseteq> {..n}"
    and c: "outside n I c" "c \<noteq> []" and fresh: "n < a" "n < t" "a \<noteq> t"
  shows "encodes E (X\<lparr>terminal_of := (terminal_of X)(e := t)\<rparr>)
    (R\<lparr>forcing_of := (forcing_of R)(e := forcing_of R e @ [c])\<rparr>) (I \<union> {a, t}) M
    (F @ guarded (selector_of X e)
      (forcing_encoding (butlast c) (List.last c) a (none_of X e) (terminal_of X e) t))"
    (is "encodes E ?X ?R ?I M ?F")
proof (rule encodesI)
  fix \<beta>
  assume M: "\<not> cnf_sat \<beta> M" and obey: "\<And>e'. e' \<in> E \<Longrightarrow> \<beta> (selector_of ?X e') \<Longrightarrow> obeys ?X ?R e' \<beta>"
  define p where "p = butlast c"
  have c_eq: "c = p @ [List.last c]" using c(2) by (simp add: p_def)
  have fires: "rule_fires ?R e' \<beta> \<longleftrightarrow> rule_fires R e' \<beta> \<or> e' = e \<and> \<not> clause_sat \<beta> p" for e'
    by (auto simp: rule_fires_def clause_fires_def p_def)
  have old: "obeys X R e' \<beta>" if "e' \<in> E" "\<beta> (selector_of X e')" for e'
    using obey [OF that(1)] that(2) fires [of e'] by (auto simp: obeys_def split: if_splits)
  obtain \<gamma> where \<gamma>: "extends_to E X R I F \<beta> \<gamma>" using encodesD [OF enc M old] by blast
  note D = controls_okD [OF ok]
  define \<gamma>' where "\<gamma>' = \<gamma>(a := \<not> clause_sat \<beta> p, t := \<gamma> (terminal_of X e) \<and> clause_sat \<beta> p)"
  have below: "\<gamma>' v = \<gamma> v" if "v \<le> n" for v using that fresh by (simp add: \<gamma>'_def)
  have agree: "\<gamma>' v = \<beta> v" if "v \<notin> ?I" for v using \<gamma> that by (simp add: extends_to_def \<gamma>'_def)
  have c_outside: "outside n I p" "outside n I [List.last c]" using c(1) c_eq by (metis outside_simps(3))+
  have agree_n: "agree_off n I \<gamma>' \<beta>" using agree fresh by (auto simp: agree_off_def)
  have p_same: "clause_sat \<gamma>' p = clause_sat \<beta> p" by (rule outside_agree(2) [OF c_outside(1) agree_n])
  have l_same: "lit_true \<gamma>' (List.last c) = lit_true \<beta> (List.last c)"
    by (rule outside_agree(1) [OF c_outside(2) agree_n]) simp
  have sel: "\<gamma>' (selector_of X e) = \<beta> (selector_of X e)" "\<gamma>' (none_of X e) = \<beta> (none_of X e)"
    using agree_n D(3,4,6,7) [OF e] by (auto simp: agree_off_def)
  have new: "\<gamma>' a = (\<not> clause_sat \<gamma>' p)" "\<gamma>' (terminal_of X e) \<longrightarrow> \<gamma>' a \<or> \<gamma>' t"
    using fresh D(15) [OF e] p_same by (auto simp: \<gamma>'_def)
  have "cnf_sat \<gamma>' F" using \<gamma> agree_upto_cnf [of n \<gamma> \<gamma>' F] F below by (auto simp: extends_to_def agree_upto_def)
  moreover have "cnf_sat \<gamma>' (guarded (selector_of X e) (forcing_encoding p (List.last c) a (none_of X e) (terminal_of X e) t))"
  proof (cases "\<beta> (selector_of X e)")
    case True
    have "\<not> clause_sat \<beta> p \<longrightarrow> lit_true \<beta> (List.last c) \<and> \<not> \<beta> (none_of X e)"
      using obey [OF e] True fires [of e] by (auto simp: obeys_def clause_fires_def p_def)
    then have "cnf_sat \<gamma>' (forcing_encoding p (List.last c) a (none_of X e) (terminal_of X e) t)"
      using D(5,14) [OF e] c_outside fresh new
      by (intro forcing_encoding_sat) (auto simp: p_same l_same sel outside_def list_all_iff)
    then show ?thesis using D(2) [OF e] by (simp add: cnf_sat_guarded)
  next
    case False
    then show ?thesis using D(2) [OF e] sel by (simp add: cnf_sat_guarded)
  qed
  moreover have "terminals_false E ?X ?R \<beta> \<gamma>'"
  proof (rule terminals_false_update)
    show "terminals_false E X R \<beta> \<gamma>" using \<gamma> by (simp add: extends_to_def)
    show "t \<notin> terminal_of X ` E" using D(15) fresh by force
    show "\<not> \<gamma>' t" if "e \<in> E" "\<not> \<beta> (selector_of X e) \<or> \<beta> (none_of X e) \<or> rule_fires ?R e \<beta>"
      using \<gamma> that fires [of e] by (auto simp: \<gamma>'_def extends_to_def terminals_false_def)
  qed (use fires below D(15) in auto)
  ultimately show "\<exists>\<gamma>. extends_to E ?X ?R ?I ?F \<beta> \<gamma>"
    using agree by (intro exI [of _ \<gamma>']) (simp add: extends_to_def p_def)
qed

section \<open>A definition\<close>

definition definition_encoding ::
  "int list \<Rightarrow> cnf \<Rightarrow> int \<Rightarrow> int \<Rightarrow> int \<Rightarrow> int \<Rightarrow> int \<Rightarrow> int \<Rightarrow> int \<Rightarrow> cnf" where
  "definition_encoding condition def active s nd ns none terminal terminal' =
     [map uminus condition @ [active]] @ map (\<lambda>l. [l, - active]) condition @
     [[active, nd, - s], [- active, s], [- nd, s], [- nd, none], [- nd, ns], [- none, - ns, nd],
      [- active, - none], [- terminal, active, terminal']] @ guarded s def"

lemma definition_encoding_sat:
  assumes "0 < active" "0 < s" "0 < nd" "0 < ns" "0 < none" "0 < terminal" "0 < terminal'" "0 \<notin> set condition"
    and "\<gamma> active = list_all (lit_true \<gamma>) condition" "\<gamma> nd \<longleftrightarrow> \<gamma> none \<and> \<gamma> ns" "\<gamma> s \<longleftrightarrow> \<gamma> active \<or> \<gamma> nd"
    and "\<gamma> active \<longrightarrow> \<not> \<gamma> none" "\<gamma> s \<longrightarrow> cnf_sat \<gamma> def" "\<gamma> terminal \<longrightarrow> \<gamma> active \<or> \<gamma> terminal'"
  shows "cnf_sat \<gamma> (definition_encoding condition def active s nd ns none terminal terminal')"
proof -
  have neg: "lit_true \<gamma> (- k) = (\<not> lit_true \<gamma> k)" if "k \<in> set condition" for k
    using that assms(8) by (intro lit_true_neg) auto
  have 1: "clause_sat \<gamma> (map uminus condition @ [active])"
    using assms(1,9) neg by (auto simp: clause_sat_iff list_all_iff)
  have 2: "cnf_sat \<gamma> (map (\<lambda>l. [l, - active]) condition)"
    using assms(1,9) by (auto simp: cnf_sat_iff list_all_iff)
  have 3: "cnf_sat \<gamma> (guarded s def)" using assms(2,13) by (simp add: cnf_sat_guarded)
  show ?thesis using assms(1-7,10-14) 1 2 3 by (auto simp: definition_encoding_def)
qed

lemma encodes_definition:
  assumes enc: "encodes E X R I M F" and ok: "controls_ok n E X I" and e: "e \<in> E" and F: "cnf_vars F \<subseteq> {..n}"
    and cond: "outside n I condition" and def: "list_all (outside n I) def"
    and fresh: "n < a" "n < s" "n < nd" "n < ns" "n < t" "distinct [a, s, nd, ns, t]"
  shows "encodes E (X\<lparr>terminal_of := (terminal_of X)(e := t)\<rparr>)
    (R\<lparr>definitions_of := (definitions_of R)(e := definitions_of R e @ [(condition, def, ns)])\<rparr>) (I \<union> {a, s, nd, t}) M
    (F @ guarded (selector_of X e)
      (definition_encoding condition def a s nd ns (none_of X e) (terminal_of X e) t))"
    (is "encodes E ?X ?R ?I M ?F")
proof (rule encodesI)
  fix \<beta>
  assume M: "\<not> cnf_sat \<beta> M" and obey: "\<And>e'. e' \<in> E \<Longrightarrow> \<beta> (selector_of ?X e') \<Longrightarrow> obeys ?X ?R e' \<beta>"
  let ?c = "list_all (lit_true \<beta>) condition" and ?nd = "\<beta> (none_of X e) \<and> \<beta> ns"
  have fires: "rule_fires ?R e' \<beta> \<longleftrightarrow> rule_fires R e' \<beta> \<or> e' = e \<and> ?c" for e' by (auto simp: rule_fires_def)
  have old: "obeys X R e' \<beta>" if "e' \<in> E" "\<beta> (selector_of X e')" for e'
    using obey [OF that(1)] that(2) fires [of e'] by (auto simp: obeys_def split: if_splits)
  obtain \<gamma> where \<gamma>: "extends_to E X R I F \<beta> \<gamma>" using encodesD [OF enc M old] by blast
  note D = controls_okD [OF ok]
  define \<gamma>' where "\<gamma>' = \<gamma>(a := ?c, nd := ?nd, s := ?c \<or> ?nd, t := \<gamma> (terminal_of X e) \<and> \<not> ?c)"
  have below: "\<gamma>' v = \<gamma> v" if "v \<le> n" for v using that fresh by (simp add: \<gamma>'_def)
  have agree: "\<gamma>' v = \<beta> v" if "v \<notin> ?I" for v using \<gamma> that by (simp add: extends_to_def \<gamma>'_def)
  have agree_n: "agree_off n I \<gamma>' \<beta>" using agree fresh by (auto simp: agree_off_def)
  have cond_same: "list_all (lit_true \<gamma>') condition = ?c" by (rule outside_agree(3) [OF cond agree_n])
  have def_same: "cnf_sat \<gamma>' def = cnf_sat \<beta> def"
    using outside_agree(2) [OF _ agree_n] def by (auto simp: cnf_sat_iff list_all_iff)
  have "ns \<notin> I" using D(1) fresh by auto
  then have ctl: "\<gamma>' (selector_of X e) = \<beta> (selector_of X e)" "\<gamma>' (none_of X e) = \<beta> (none_of X e)" "\<gamma>' ns = \<beta> ns"
    using agree_n D(3,4,6,7) [OF e] agree fresh by (auto simp: agree_off_def)
  have new: "\<gamma>' a = ?c" "\<gamma>' nd = ?nd" "\<gamma>' s = (?c \<or> ?nd)" "\<gamma>' (terminal_of X e) \<longrightarrow> \<gamma>' a \<or> \<gamma>' t"
    using fresh D(15) [OF e] by (auto simp: \<gamma>'_def)
  have "cnf_sat \<gamma>' F" using \<gamma> agree_upto_cnf [of n \<gamma> \<gamma>' F] F below by (auto simp: extends_to_def agree_upto_def)
  moreover have "cnf_sat \<gamma>' (guarded (selector_of X e) (definition_encoding condition def a s nd ns (none_of X e) (terminal_of X e) t))"
  proof (cases "\<beta> (selector_of X e)")
    case True
    have c_def: "?c \<longrightarrow> \<not> \<beta> (none_of X e)" "?c \<or> ?nd \<longrightarrow> cnf_sat \<beta> def"
      using obey [OF e] True fires [of e] by (auto simp: obeys_def definition_obeyed_def)
    have "0 < n" using D(5,6) [OF e] by linarith
    then have "0 < a" "0 < s" "0 < nd" "0 < ns" "0 < t" using fresh by linarith+
    moreover have "0 \<notin> set condition" using cond by (auto simp: outside_def list_all_iff)
    ultimately have "cnf_sat \<gamma>' (definition_encoding condition def a s nd ns (none_of X e) (terminal_of X e) t)"
      using D(5,14) [OF e] c_def new by (intro definition_encoding_sat) (simp_all only: cond_same def_same ctl simp_thms)
    then show ?thesis using D(2) [OF e] by (simp add: cnf_sat_guarded)
  next
    case False
    then show ?thesis using D(2) [OF e] ctl by (simp add: cnf_sat_guarded)
  qed
  moreover have "terminals_false E ?X ?R \<beta> \<gamma>'"
  proof (rule terminals_false_update)
    show "terminals_false E X R \<beta> \<gamma>" using \<gamma> by (simp add: extends_to_def)
    show "t \<notin> terminal_of X ` E" using D(15) fresh by force
    show "\<not> \<gamma>' t" if "e \<in> E" "\<not> \<beta> (selector_of X e) \<or> \<beta> (none_of X e) \<or> rule_fires ?R e \<beta>"
      using \<gamma> that fires [of e] by (auto simp: \<gamma>'_def extends_to_def terminals_false_def)
  qed (use fires below D(15) in auto)
  ultimately show "\<exists>\<gamma>. extends_to E ?X ?R ?I ?F \<beta> \<gamma>"
    using agree by (intro exI [of _ \<gamma>']) (simp add: extends_to_def)
qed

section \<open>Defaults, a new variable, and a variable that becomes defined\<close>

lemma encodes_default:
  assumes enc: "encodes E X R I M F" and ok: "controls_ok n E X I" and e: "e \<in> E" and c: "outside n I c"
  shows "encodes E X (R\<lparr>defaults_of := (defaults_of R)(e := defaults_of R e @ [c])\<rparr>) I M
    (F @ guarded (selector_of X e) [c @ [- use_of X e]])"
    (is "encodes E X ?R I M ?F")
proof (rule encodesI)
  fix \<beta>
  assume M: "\<not> cnf_sat \<beta> M" and obey: "\<And>e'. e' \<in> E \<Longrightarrow> \<beta> (selector_of X e') \<Longrightarrow> obeys X ?R e' \<beta>"
  have fires: "rule_fires ?R e' \<beta> = rule_fires R e' \<beta>" for e' by (simp add: rule_fires_def)
  have "obeys X R e' \<beta>" if "e' \<in> E" "\<beta> (selector_of X e')" for e'
    using obey [OF that] fires by (auto simp: obeys_def split: if_splits)
  then obtain \<gamma> where \<gamma>: "extends_to E X R I F \<beta> \<gamma>" using encodesD [OF enc M] by blast
  note D = controls_okD [OF ok]
  have agree: "agree_off n I \<gamma> \<beta>" using \<gamma> by (simp add: extends_to_def agree_off_def)
  have same: "clause_sat \<gamma> c = clause_sat \<beta> c" "\<gamma> (selector_of X e) = \<beta> (selector_of X e)" "\<gamma> (use_of X e) = \<beta> (use_of X e)"
    using outside_agree(2) [OF c agree] \<gamma> D(4,10) [OF e] by (auto simp: extends_to_def)
  have "cnf_sat \<gamma> (guarded (selector_of X e) [c @ [- use_of X e]])"
    using obey [OF e] D(2,8) [OF e] by (auto simp: cnf_sat_guarded same obeys_def)
  then show "\<exists>\<gamma>. extends_to E X ?R I ?F \<beta> \<gamma>"
    using \<gamma> fires by (intro exI [of _ \<gamma>]) (simp add: extends_to_def terminals_false_def)
qed

text \<open>The rules of a variable that enters the encoding, or that becomes defined, are gone.\<close>

definition without_rules :: "int \<Rightarrow> rule_book \<Rightarrow> rule_book" where
  "without_rules e R =
     \<lparr>forcing_of = (forcing_of R)(e := []), definitions_of = (definitions_of R)(e := []), defaults_of = (defaults_of R)(e := [])\<rparr>"

lemma without_rules_simps [simp]:
  "rule_fires (without_rules e R) e' \<beta> \<longleftrightarrow> e' \<noteq> e \<and> rule_fires R e' \<beta>"
  "e' \<noteq> e \<Longrightarrow> obeys X (without_rules e R) e' \<beta> = obeys X R e' \<beta>"
  "forcing_of (without_rules e R) = (forcing_of R)(e := [])"
  "definitions_of (without_rules e R) = (definitions_of R)(e := [])"
  "defaults_of (without_rules e R) = (defaults_of R)(e := [])"
  by (auto simp: without_rules_def rule_fires_def obeys_def)

definition with_controls :: "int \<Rightarrow> int \<Rightarrow> int \<Rightarrow> int \<Rightarrow> int \<Rightarrow> int \<Rightarrow> controls \<Rightarrow> controls" where
  "with_controls e s none use sw t X =
     \<lparr>selector_of = (selector_of X)(e := s), none_of = (none_of X)(e := none), use_of = (use_of X)(e := use),
      switch_of = (switch_of X)(e := sw), terminal_of = (terminal_of X)(e := t)\<rparr>"

definition initial_encoding :: "int \<Rightarrow> int \<Rightarrow> int \<Rightarrow> int \<Rightarrow> cnf" where
  "initial_encoding none use sw t = [[none, t], [- none, - sw, use]]"

lemma encodes_initial:
  assumes enc: "encodes E X R I M F" and ok: "controls_ok n E X I" and e: "e \<notin> E" and F: "cnf_vars F \<subseteq> {..n}"
    and pos: "0 < s" "0 < none" "0 < use" "0 < sw" "0 < t" and off: "s \<notin> I" "none \<notin> I" "use \<notin> I" "sw \<notin> I" "n < t" "t \<notin> {s, none, use, sw}"
  shows "encodes (insert e E) (with_controls e s none use sw t X) (without_rules e R) (insert t I) M
    (F @ guarded s (initial_encoding none use sw t))"
    (is "encodes ?E ?X ?R ?I M ?F")
proof (rule encodesI)
  fix \<beta>
  assume M: "\<not> cnf_sat \<beta> M" and obey: "\<And>e'. e' \<in> ?E \<Longrightarrow> \<beta> (selector_of ?X e') \<Longrightarrow> obeys ?X ?R e' \<beta>"
  have "obeys X R e' \<beta>" if "e' \<in> E" "\<beta> (selector_of X e')" for e'
  proof -
    have "e' \<noteq> e" using that(1) e by auto
    then show ?thesis using obey [of e'] that by (auto simp: with_controls_def obeys_def without_rules_def rule_fires_def)
  qed
  then obtain \<gamma> where \<gamma>: "extends_to E X R I F \<beta> \<gamma>" using encodesD [OF enc M] by blast
  note D = controls_okD [OF ok]
  define \<gamma>' where "\<gamma>' = \<gamma>(t := \<beta> s \<and> \<not> \<beta> none)"
  have "cnf_sat \<gamma>' F" using \<gamma> agree_upto_cnf [of n \<gamma> \<gamma>' F] F off by (auto simp: extends_to_def agree_upto_def \<gamma>'_def)
  moreover have agree: "\<gamma>' v = \<beta> v" if "v \<notin> ?I" for v using \<gamma> that by (simp add: extends_to_def \<gamma>'_def)
  moreover have "cnf_sat \<gamma>' (guarded s (initial_encoding none use sw t))"
    using obey [of e] pos off agree by (auto simp: cnf_sat_guarded initial_encoding_def with_controls_def obeys_def \<gamma>'_def)
  moreover have "terminals_false ?E ?X ?R \<beta> \<gamma>'"
    unfolding terminals_false_def
  proof (intro ballI impI)
    fix e' assume "e' \<in> ?E" and c: "\<not> \<beta> (selector_of ?X e') \<or> \<beta> (none_of ?X e') \<or> rule_fires ?R e' \<beta>"
    show "\<not> \<gamma>' (terminal_of ?X e')"
    proof (cases "e' = e")
      case True
      then show ?thesis using c by (auto simp: with_controls_def \<gamma>'_def)
    next
      case False
      then have "e' \<in> E" using \<open>e' \<in> ?E\<close> by simp
      then show ?thesis using c False \<gamma> D(15) [of e'] off
        by (auto simp: with_controls_def \<gamma>'_def extends_to_def terminals_false_def)
    qed
  qed
  ultimately show "\<exists>\<gamma>. extends_to ?E ?X ?R ?I ?F \<beta> \<gamma>"
    by (intro exI [of _ \<gamma>']) (simp add: extends_to_def)
qed

definition rules_over :: "int set \<Rightarrow> rule_book \<Rightarrow> int \<Rightarrow> bool" where
  "rules_over V R e \<longleftrightarrow>
     list_all (\<lambda>c. clause_vars c \<subseteq> V) (forcing_of R e) \<and>
     list_all (\<lambda>(condition, def, s). clause_vars condition \<subseteq> V \<and> cnf_vars def \<subseteq> V \<and> s \<in> V) (definitions_of R e) \<and>
     cnf_vars (defaults_of R e) \<subseteq> V"

definition same_on :: "int set \<Rightarrow> assignment \<Rightarrow> assignment \<Rightarrow> bool" where
  "same_on V \<alpha> \<beta> \<longleftrightarrow> (\<forall>v\<in>V. \<alpha> v = \<beta> v)"

lemma lits_cong: "clause_vars c \<subseteq> V \<Longrightarrow> same_on V \<alpha> \<beta> \<Longrightarrow> l \<in> set c \<Longrightarrow> lit_true \<alpha> l = lit_true \<beta> l"
  by (rule lit_true_cong) (auto simp: clause_vars_def same_on_def)

lemma rules_cong:
  assumes over: "rules_over V R e" and same: "same_on V \<alpha> \<beta>"
  shows "c \<in> set (forcing_of R e) \<Longrightarrow> clause_fires \<alpha> c = clause_fires \<beta> c"
    "c \<in> set (forcing_of R e) \<Longrightarrow> c \<noteq> [] \<Longrightarrow> lit_true \<alpha> (List.last c) = lit_true \<beta> (List.last c)"
    "(cond, def, s) \<in> set (definitions_of R e) \<Longrightarrow> list_all (lit_true \<alpha>) cond = list_all (lit_true \<beta>) cond"
    "(cond, def, s) \<in> set (definitions_of R e) \<Longrightarrow> cnf_sat \<alpha> def = cnf_sat \<beta> def"
    "(cond, def, s) \<in> set (definitions_of R e) \<Longrightarrow> \<alpha> s = \<beta> s"
    "cnf_sat \<alpha> (defaults_of R e) = cnf_sat \<beta> (defaults_of R e)"
    "rule_fires R e \<alpha> = rule_fires R e \<beta>"
proof -
  have agree: "v \<in> V \<Longrightarrow> \<alpha> v = \<beta> v" for v using same by (simp add: same_on_def)
  show 1: "clause_fires \<alpha> c = clause_fires \<beta> c" if "c \<in> set (forcing_of R e)" for c
  proof -
    have "clause_vars c \<subseteq> V" using over that by (simp add: rules_over_def list_all_iff)
    then have V: "clause_vars (butlast c) \<subseteq> V" using in_set_butlastD by (fastforce simp: clause_vars_def)
    have "clause_sat \<alpha> (butlast c) = clause_sat \<beta> (butlast c)"
      by (rule clause_sat_cong) (use V agree in auto)
    then show ?thesis by (simp add: clause_fires_def)
  qed
  show "lit_true \<alpha> (List.last c) = lit_true \<beta> (List.last c)" if "c \<in> set (forcing_of R e)" "c \<noteq> []" for c
    by (rule lits_cong [of c V, OF _ same]) (use over that in \<open>auto simp: rules_over_def list_all_iff\<close>)
  have parts: "clause_vars cond \<subseteq> V" "cnf_vars def \<subseteq> V" "s \<in> V" if "(cond, def, s) \<in> set (definitions_of R e)" for cond def s
    using over that by (force simp: rules_over_def list_all_iff)+
  show 2: "list_all (lit_true \<alpha>) cond = list_all (lit_true \<beta>) cond" if "(cond, def, s) \<in> set (definitions_of R e)" for cond def s
    by (rule list.pred_cong [OF refl]) (rule lits_cong [OF parts(1) [OF that] same])
  show "cnf_sat \<alpha> def = cnf_sat \<beta> def" if "(cond, def, s) \<in> set (definitions_of R e)" for cond def s
    by (rule cnf_sat_cong) (rule agree [OF subsetD [OF parts(2) [OF that]]])
  show "\<alpha> s = \<beta> s" if "(cond, def, s) \<in> set (definitions_of R e)" for cond def s
    by (rule agree [OF parts(3) [OF that]])
  show "cnf_sat \<alpha> (defaults_of R e) = cnf_sat \<beta> (defaults_of R e)"
    by (rule cnf_sat_cong) (use over agree in \<open>auto simp: rules_over_def\<close>)
  show "rule_fires R e \<alpha> = rule_fires R e \<beta>"
    using 1 2 unfolding rule_fires_def list_ex_iff by fastforce
qed

lemma obeys_cong:
  assumes "rules_over V R e" "same_on V \<alpha> \<beta>" "[] \<notin> set (forcing_of R e)"
    and "\<alpha> (none_of X e) = \<beta> (none_of X e)" "\<alpha> (use_of X e) = \<beta> (use_of X e)" "\<alpha> (switch_of X e) = \<beta> (switch_of X e)"
  shows "obeys X R e \<alpha> = obeys X R e \<beta>"
proof -
  note cong = rules_cong [OF assms(1,2)]
  have "list_all (\<lambda>c. clause_fires \<alpha> c \<longrightarrow> lit_true \<alpha> (List.last c)) (forcing_of R e) =
      list_all (\<lambda>c. clause_fires \<beta> c \<longrightarrow> lit_true \<beta> (List.last c)) (forcing_of R e)"
  proof (rule list.pred_cong [OF refl])
    fix c assume c: "c \<in> set (forcing_of R e)"
    then have "c \<noteq> []" using assms(3) by auto
    then show "(clause_fires \<alpha> c \<longrightarrow> lit_true \<alpha> (List.last c)) = (clause_fires \<beta> c \<longrightarrow> lit_true \<beta> (List.last c))"
      using cong(1,2) [OF c] by simp
  qed
  moreover have "list_all (definition_obeyed \<alpha> b) (definitions_of R e) = list_all (definition_obeyed \<beta> b) (definitions_of R e)" for b
  proof (rule list.pred_cong [OF refl])
    fix d assume d: "d \<in> set (definitions_of R e)"
    obtain cond def s where eq: "d = (cond, def, s)" by (cases d)
    show "definition_obeyed \<alpha> b d = definition_obeyed \<beta> b d"
      using cong(3,4,5) [OF d [unfolded eq]] by (simp add: definition_obeyed_def eq)
  qed
  ultimately show ?thesis using cong(6,7) assms(4-6) by (simp add: obeys_def)
qed

lemma encodes_defined:
  assumes enc: "encodes E X R I M F" and ok: "controls_ok n E X I" and e: "e \<in> E" and s: "0 < s" "s \<notin> I"
    and M: "cnf_vars M \<subseteq> - {selector_of X e}"
    and others: "\<And>e'. e' \<in> E \<Longrightarrow> e' \<noteq> e \<Longrightarrow> selector_of X e \<notin> {selector_of X e', none_of X e', use_of X e', switch_of X e'}"
    and rules: "\<And>e'. e' \<in> E \<Longrightarrow> rules_over (- {selector_of X e}) R e' \<and> [] \<notin> set (forcing_of R e')"
  shows "encodes E (X\<lparr>selector_of := (selector_of X)(e := s)\<rparr>) (without_rules e R) (insert (selector_of X e) I) M F"
    (is "encodes E ?X ?R ?I M F")
proof (rule encodesI)
  fix \<beta>
  assume M': "\<not> cnf_sat \<beta> M" and obey: "\<And>e'. e' \<in> E \<Longrightarrow> \<beta> (selector_of ?X e') \<Longrightarrow> obeys ?X ?R e' \<beta>"
  define \<beta>' where "\<beta>' = \<beta>(selector_of X e := False)"
  have same: "v \<in> - {selector_of X e} \<Longrightarrow> \<beta>' v = \<beta> v" for v by (simp add: \<beta>'_def)
  then have same_V: "same_on (- {selector_of X e}) \<beta>' \<beta>" by (simp add: same_on_def)
  have "cnf_sat \<beta>' M = cnf_sat \<beta> M" by (rule cnf_sat_cong) (rule same [OF subsetD [OF M]])
  moreover have "obeys X R e' \<beta>'" if "e' \<in> E" "\<beta>' (selector_of X e')" for e'
  proof -
    have ne: "e' \<noteq> e" using that(2) by (auto simp: \<beta>'_def)
    then have "obeys X R e' \<beta>" using obey [OF that(1)] that same others [OF that(1)]
      by (auto simp: obeys_def without_rules_def rule_fires_def)
    moreover have "obeys X R e' \<beta>' = obeys X R e' \<beta>"
      using others [OF that(1) ne] rules [OF that(1)] same by (intro obeys_cong [OF _ same_V]) auto
    ultimately show ?thesis by simp
  qed
  ultimately obtain \<gamma> where \<gamma>: "extends_to E X R I F \<beta>' \<gamma>" using encodesD [OF enc] M' by blast
  have "terminals_false E ?X ?R \<beta> \<gamma>"
    unfolding terminals_false_def
  proof (intro ballI impI)
    fix e' assume e': "e' \<in> E" and c: "\<not> \<beta> (selector_of ?X e') \<or> \<beta> (none_of ?X e') \<or> rule_fires ?R e' \<beta>"
    show "\<not> \<gamma> (terminal_of ?X e')"
    proof (cases "e' = e")
      case True
      then show ?thesis using \<gamma> e by (auto simp: extends_to_def terminals_false_def \<beta>'_def)
    next
      case False
      have "rule_fires R e' \<beta>' = rule_fires R e' \<beta>"
        using rules [OF e'] by (intro rules_cong(7) [OF _ same_V]) auto
      then show ?thesis using \<gamma> e' c False others [OF e' False] same
        by (auto simp: extends_to_def terminals_false_def)
    qed
  qed
  then show "\<exists>\<gamma>. extends_to E ?X ?R ?I F \<beta> \<gamma>"
    using \<gamma> same by (intro exI [of _ \<gamma>]) (auto simp: extends_to_def)
qed

lemma encodes_start:
  assumes "\<And>\<beta>. \<not> cnf_sat \<beta> M \<Longrightarrow> \<exists>\<gamma>. (\<forall>v. v \<notin> I \<longrightarrow> \<gamma> v = \<beta> v) \<and> cnf_sat \<gamma> F"
  shows "encodes {} X R I M F"
  using assms by (intro encodesI) (simp add: extends_to_def terminals_false_def)

end
