(* ===== verification/SkolemContainer_Correct.thy ===== *)
theory SkolemContainer_Correct
  imports ValidityCheck RuleEncoding DefaultValues_Correct
begin

text \<open>
  What the operations of \<open>src/skolemcontainer.cc\<close> do to the validity solver. Each effect is stated over
  the parts of the engine that matter for the validity check: the shared counter, the assumptions,
  the clauses of the validity solver and the maps that name the control variables. The consistency
  checker and the model logger only move the counter.
\<close>

section \<open>The parts that matter\<close>

definition terminal_position :: "'h engine \<Rightarrow> int \<Rightarrow> nat" where
  "terminal_position g e = nat (terminal_index (the (variable_to_forcing_disjunction (eng_skolem g) e)))"

definition engine_controls :: "'h engine \<Rightarrow> controls" where
  "engine_controls g =
     (let A = env_assumptions (eng_env g) in
      \<lparr>selector_of = \<lambda>e. selectors (eng_validity g) ! selector_index (eng_validity g) e,
       none_of = no_forcing_clause_active g,
       use_of = \<lambda>e. case apply_default (eng_skolem g) e of None \<Rightarrow> 0 | Some u \<Rightarrow> u,
       switch_of = \<lambda>e. \<bar>A ! use_default_position g e\<bar>,
       terminal_of = \<lambda>e. - (A ! terminal_position g e)\<rparr>)"

definition rule_clauses :: "'h engine \<Rightarrow> cnf" where
  "rule_clauses g = sat_clauses (validity_check_solver (eng_validity g))"

text \<open>Everything the check depends on, other than counter, assumptions and clauses, is kept.\<close>

definition same_base :: "'h engine \<Rightarrow> 'h engine \<Rightarrow> bool" where
  "same_base g g' \<longleftrightarrow>
     eng_defaults g' = eng_defaults g \<and> env_defaults (eng_env g') = env_defaults (eng_env g) \<and>
     eng_dependencies g' = eng_dependencies g \<and>
     variable_to_forcing_disjunction (eng_skolem g') = variable_to_forcing_disjunction (eng_skolem g) \<and>
     variable_to_no_forcing_clause_active_variable (eng_skolem g') =
       variable_to_no_forcing_clause_active_variable (eng_skolem g) \<and>
     variable_to_use_default_index (eng_skolem g') = variable_to_use_default_index (eng_skolem g) \<and>
     apply_default (eng_skolem g') = apply_default (eng_skolem g) \<and>
     sk_universals (eng_skolem g') = sk_universals (eng_skolem g) \<and>
     sk_existentials (eng_skolem g') = sk_existentials (eng_skolem g) \<and>
     arbiter_to_existential g' = arbiter_to_existential g \<and>
     arbiter_to_annotation (eng_skolem g') = arbiter_to_annotation (eng_skolem g) \<and>
     existential_arbiter_map (eng_skolem g') = existential_arbiter_map (eng_skolem g) \<and>
     variable_to_selector_index (eng_validity g') = variable_to_selector_index (eng_validity g) \<and>
     sat_assumed (validity_check_solver (eng_validity g')) = sat_assumed (validity_check_solver (eng_validity g))"

definition same_positions :: "'h engine \<Rightarrow> 'h engine \<Rightarrow> bool" where
  "same_positions g g' \<longleftrightarrow>
     variable_to_default_function_selector_index (eng_skolem g') =
       variable_to_default_function_selector_index (eng_skolem g)"

definition same_frame :: "'h engine \<Rightarrow> 'h engine \<Rightarrow> bool" where
  "same_frame g g' \<longleftrightarrow> same_base g g' \<and> same_positions g g' \<and> selectors (eng_validity g') = selectors (eng_validity g) \<and>
     undefined_existentials (eng_skolem g') = undefined_existentials (eng_skolem g)"

lemmas frame_defs = same_frame_def same_base_def same_positions_def

text \<open>A step that adds clauses and takes variables but leaves the assumptions alone.\<close>

definition adds :: "cnf \<Rightarrow> 'h engine \<Rightarrow> 'h engine \<Rightarrow> bool" where
  "adds F g g' \<longleftrightarrow> same_frame g g' \<and> env_last (eng_env g) \<le> env_last (eng_env g') \<and>
     env_assumptions (eng_env g') = env_assumptions (eng_env g) \<and> rule_clauses g' = rule_clauses g @ F"

lemma adds_refl [simp]: "adds [] g g"
  by (simp add: adds_def frame_defs)

lemma adds_trans: "adds F g g' \<Longrightarrow> adds F' g' g'' \<Longrightarrow> adds (F @ F') g g''"
  by (simp add: adds_def frame_defs)

lemma adds_frame: "adds F g g' \<Longrightarrow> same_frame g g'"
  by (simp add: adds_def)

text \<open>\<open>operator[]\<close> of the map of selectors is defined for the variables of the formula.\<close>

definition has_selector :: "'h engine \<Rightarrow> int \<Rightarrow> bool" where
  "has_selector g v \<longleftrightarrow> selector_index (eng_validity g) v < length (selectors (eng_validity g))"

lemma addClausesValidityCheck_eq:
  assumes "addClausesValidityCheck v F s = Some s'"
  shows "F \<noteq> [] \<Longrightarrow> selector_index s v < length (selectors s)"
    and "s' = s\<lparr>validity_check_solver := (validity_check_solver s)\<lparr>sat_clauses :=
           sat_clauses (validity_check_solver s) @ guarded (selectors s ! selector_index s v) F\<rparr>\<rparr>"
  using assms
proof (induction v F s rule: addClausesValidityCheck.induct)
  case (2 v c F s)
  {
    case 1
    then show ?case by (auto simp: addClauseValidityCheck_def vc_selector_def Let_def split: bind_splits if_splits)
  next
    case 2
    then obtain s1 where s1: "addClauseValidityCheck v c s = Some s1" and rest: "addClausesValidityCheck v F s1 = Some s'"
      by (auto split: bind_splits)
    then have eq: "s1 = s\<lparr>validity_check_solver := (validity_check_solver s)\<lparr>sat_clauses :=
           sat_clauses (validity_check_solver s) @ [c @ [- (selectors s ! selector_index s v)]]\<rparr>\<rparr>"
      by (auto simp: addClauseValidityCheck_def vc_selector_def sat_addClause_def Let_def split: if_splits)
    have "selectors s1 = selectors s" "selector_index s1 v = selector_index s v"
      by (simp_all add: eq selector_index_def)
    with "2.IH"(2) [OF s1 rest] show ?case by (simp add: eq guarded_def)
  }
qed (simp_all add: guarded_def)

lemma addClauseValidityCheck_single: "addClauseValidityCheck v c = addClausesValidityCheck v [c]"
  by (rule ext) (auto simp: addClauseValidityCheck_def split: bind_splits)

lemma add_validities_adds:
  assumes "add_validities v F g = Some g'"
  shows "adds (guarded (selector_of (engine_controls g) v) F) g g'" "F \<noteq> [] \<Longrightarrow> has_selector g v"
    "eng_model g' = eng_model g" "eng_consistency g' = eng_consistency g" "eng_env g' = eng_env g" 
    "arbiter_to_existential g' = arbiter_to_existential g"
proof -
  obtain s where s: "addClausesValidityCheck v F (eng_validity g) = Some s" and g': "g' = g\<lparr>eng_validity := s\<rparr>"
    using assms by (auto simp: add_validities_def in_validity_def split: bind_splits)
  note eq = addClausesValidityCheck_eq(2) [OF s]
  show "adds (guarded (selector_of (engine_controls g) v) F) g g'"
    by (simp add: g' eq adds_def frame_defs rule_clauses_def engine_controls_def Let_def)
  show "F \<noteq> [] \<Longrightarrow> has_selector g v" using addClausesValidityCheck_eq(1) [OF s] by (simp add: has_selector_def)
  show "eng_model g' = eng_model g" "eng_consistency g' = eng_consistency g" "eng_env g' = eng_env g"
    "arbiter_to_existential g' = arbiter_to_existential g"
    by (simp_all add: g')
qed

lemma add_validity_single: "add_validity v c g = add_validities v [c] g"
  by (simp add: add_validity_def add_validities_def addClauseValidityCheck_single)

section \<open>The counter of the consistency checker\<close>

lemma grow_literal_last: "grow_literal v b c (n, s) = Some (n', s') \<Longrightarrow> n' = n + 1"
  by (auto simp: grow_literal_def createDisjunct_def Let_def split: bind_splits prod.splits if_splits)

lemma grow_default_last: "grow_default v b c (n, s) = Some (n', s') \<Longrightarrow> n' = n + 1"
  by (auto simp: grow_default_def createDisjunct_def Let_def split: bind_splits prod.splits if_splits)

lemma cc_addForcingClause_last: "cc_addForcingClause c (n, s) = Some (n', s') \<Longrightarrow> n \<le> n'"
  by (auto simp: cc_addForcingClause_def Let_def dest!: grow_literal_last split: bind_splits if_splits)

lemma cc_addDefaultClause_last: "cc_addDefaultClause p l (n, s) = Some (n', s') \<Longrightarrow> n \<le> n'"
  by (auto simp: cc_addDefaultClause_def Let_def dest!: grow_default_last split: bind_splits if_splits)

lemma addDefinitionSelector_last: "addDefinitionSelector v d sel (n, s) = Some (ct, cf, n', s') \<Longrightarrow> n \<le> n'"
  by (auto simp: addDefinitionSelector_def Let_def dest!: grow_literal_last split: bind_splits)

lemma cc_addDefinition_last: "cc_addDefinition c v d conf (n, s) = Some (n', s') \<Longrightarrow> n \<le> n'"
  by (auto simp: cc_addDefinition_def cc_newDefaultFunctionSelector_def Let_def
      dest!: addDefinitionSelector_last split: bind_splits prod.splits)

lemma in_consistency_adds:
  assumes "in_consistency f g = Some g'" "\<And>n s n' s'. f (n, s) = Some (n', s') \<Longrightarrow> n \<le> n'"
  shows "adds [] g g'"
  using assms by (fastforce simp: in_consistency_def adds_def frame_defs rule_clauses_def split: bind_splits)

lemma in_model_adds: "in_model f g = Some g' \<Longrightarrow> adds [] g g'"
  by (auto simp: in_model_def adds_def frame_defs rule_clauses_def split: bind_splits)

lemma add_extraction_adds [simp]: "adds [] g (add_extraction c g)"
  by (simp add: add_extraction_def addClauseConflictExtraction_def adds_def frame_defs rule_clauses_def)

lemma add_extractions_adds [simp]: "adds [] g (add_extractions F g)"
  unfolding add_extractions_def
proof (induction F arbitrary: g)
  case (Cons c F)
  from adds_trans [OF add_extraction_adds this] show ?case by simp
qed simp

lemma adds_controls: "adds F g g' \<Longrightarrow> engine_controls g' = engine_controls g"
  unfolding engine_controls_def adds_def frame_defs no_forcing_clause_active_def use_default_position_def
    terminal_position_def selector_index_def by simp

lemma adds_has_selector: "adds F g g' \<Longrightarrow> has_selector g' v = has_selector g v"
  by (simp add: adds_def frame_defs has_selector_def selector_index_def)

lemma fresh_variable_adds: "fresh_variable g = (v, g') \<Longrightarrow> adds [] g g' \<and> v = env_last (eng_env g) + 1 \<and> env_last (eng_env g') = v"
  by (auto simp: fresh_variable_def Let_def adds_def frame_defs rule_clauses_def)

lemma addDefining_adds: "adds [] g (g\<lparr>eng_validity := vc_addDefiningClause v c a (eng_validity g)\<rparr>)"
  by (simp add: adds_def frame_defs rule_clauses_def vc_addDefiningClause_def)

section \<open>Rules\<close>

text \<open>The disjunction of a variable gets one more disjunct: its terminal is replaced.\<close>

definition has_slot :: "'h engine \<Rightarrow> int \<Rightarrow> bool" where
  "has_slot g v \<longleftrightarrow> (case variable_to_forcing_disjunction (eng_skolem g) v of
     None \<Rightarrow> False | Some d \<Rightarrow> 0 \<le> terminal_index d \<and> nat (terminal_index d) < length (env_assumptions (eng_env g)))"

definition set_terminal :: "int \<Rightarrow> int \<Rightarrow> 'h engine \<Rightarrow> int list" where
  "set_terminal v t g = (env_assumptions (eng_env g))[terminal_position g v := - t]"

definition adds_rule :: "int \<Rightarrow> int \<Rightarrow> cnf \<Rightarrow> 'h engine \<Rightarrow> 'h engine \<Rightarrow> bool" where
  "adds_rule v t F g g' \<longleftrightarrow> same_frame g g' \<and> env_last (eng_env g) \<le> env_last (eng_env g') \<and>
     env_assumptions (eng_env g') = set_terminal v t g \<and> rule_clauses g' = rule_clauses g @ F"

lemma adds_rule_before: "adds F g g1 \<Longrightarrow> adds_rule v t F' g1 g2 \<Longrightarrow> adds_rule v t (F @ F') g g2"
  by (simp add: adds_def adds_rule_def frame_defs set_terminal_def terminal_position_def)

lemma adds_rule_after: "adds_rule v t F' g1 g2 \<Longrightarrow> adds F g2 g3 \<Longrightarrow> adds_rule v t (F' @ F) g1 g3"
  by (simp add: adds_def adds_rule_def frame_defs)

lemma addForcingDisjunct_adds:
  assumes "addForcingDisjunct v a g = Some g'" "has_slot g v"
  shows "adds_rule v (env_last (eng_env g) + 1)
    (guarded (selector_of (engine_controls g) v) [[- terminal_of (engine_controls g) v, a, env_last (eng_env g) + 1]]) g g'"
    "env_last (eng_env g') = env_last (eng_env g) + 1"
proof -
  obtain d where d: "variable_to_forcing_disjunction (eng_skolem g) v = Some d" "0 \<le> terminal_index d"
    using assms(2) by (auto simp: has_slot_def split: option.splits)
  let ?t = "env_last (eng_env g) + 1" and ?A = "env_assumptions (eng_env g)"
  define g1 where "g1 = g\<lparr>eng_env := (eng_env g)\<lparr>env_last := ?t, env_assumptions := ?A[nat (terminal_index d) := - ?t]\<rparr>\<rparr>"
  have "forcing_disjunct v [a] g = Some ([?A ! nat (terminal_index d), a, ?t], d, g1)"
    using d by (simp add: forcing_disjunct_def createDisjunct_def Let_def g1_def)
  then have add: "add_validities v [[?A ! nat (terminal_index d), a, ?t]] g1 = Some g'"
    using assms(1) by (simp add: addForcingDisjunct_def add_validity_single)
  have pos: "terminal_position g v = nat (terminal_index d)" by (simp add: terminal_position_def d(1))
  have "terminal_of (engine_controls g) v = - (?A ! nat (terminal_index d))"
    by (simp add: engine_controls_def Let_def pos)
  moreover have "selector_of (engine_controls g1) v = selector_of (engine_controls g) v"
    by (simp add: engine_controls_def g1_def Let_def)
  ultimately show "adds_rule v ?t (guarded (selector_of (engine_controls g) v) [[- terminal_of (engine_controls g) v, a, ?t]]) g g'"
    using add_validities_adds(1,5) [OF add]
    by (simp add: adds_def adds_rule_def frame_defs g1_def set_terminal_def pos rule_clauses_def)
  show "env_last (eng_env g') = ?t" using add_validities_adds(5) [OF add] by (simp add: g1_def)
qed

lemma adds_slot: "adds F g g' \<Longrightarrow> has_slot g' v = has_slot g v"
  by (simp add: adds_def frame_defs has_slot_def split: option.split)

lemma guarded_simps [simp]:
  "guarded s [] = []" "guarded s (F @ G) = guarded s F @ guarded s G" "guarded s (c # F) = (c @ [- s]) # guarded s F"
  by (simp_all add: guarded_def)

lemma adds_rule_fields:
  assumes "adds_rule v t F g g'"
  shows "selector_of (engine_controls g') = selector_of (engine_controls g)"
    "none_of (engine_controls g') = none_of (engine_controls g)"
    "has_selector g' u = has_selector g u" "has_slot g' u = has_slot g u"
  using assms by (simp_all add: adds_rule_def frame_defs engine_controls_def Let_def has_selector_def
      selector_index_def has_slot_def no_forcing_clause_active_def set_terminal_def int_entry_def fun_eq_iff split: option.splits)

text \<open>A forcing clause, from the solver or from an arbiter.\<close>

definition adds_forcing_clause :: "clause \<Rightarrow> 'h engine \<Rightarrow> 'h engine \<Rightarrow> bool" where
  "adds_forcing_clause c g g' \<longleftrightarrow>
     (let v = var (List.last c); X = engine_controls g in
      c \<noteq> [] \<and> has_selector g v \<and>
      (\<exists>a t F. env_last (eng_env g) < a \<and> a < t \<and> env_last (eng_env g') = t \<and> adds_rule v t F g g' \<and>
         set F = set (guarded (selector_of X v)
           (forcing_encoding (butlast c) (List.last c) a (none_of X v) (terminal_of X v) t))))"

lemma forcing_tail:
  assumes c: "c \<noteq> []" and v: "v = var (List.last c)" and s: "s = selector_of (engine_controls g) v"
    and g6: "adds (guarded s [butlast c @ [a], [- a, List.last c]]) g g6" "env_last (eng_env g) < a" "env_last (eng_env g6) = a"
    and g7: "add_validities v [[- a, - no_forcing_clause_active g6 v]] g6 = Some g7"
    and g8: "addForcingDisjunct v a g7 = Some g8" and g': "add_validities v (map (\<lambda>l. [- l, - a]) (butlast c)) g8 = Some g'"
    and slot: "has_slot g v"
  shows "adds_forcing_clause c g g'"
proof -
  let ?X = "engine_controls g" and ?p = "butlast c"
  have "no_forcing_clause_active g6 v = none_of ?X v"
    using adds_controls [OF g6(1)] by (metis (no_types, lifting) controls.select_convs(2) engine_controls_def)
  then have 7: "adds (guarded s [?p @ [a], [- a, List.last c], [- a, - none_of ?X v]]) g g7"
    using adds_trans [OF g6(1) add_validities_adds(1) [OF g7]] adds_controls [OF g6(1)] s by simp
  have env7: "env_last (eng_env g7) = a" using g6(3) add_validities_adds(5) [OF g7] by simp
  note 8 = addForcingDisjunct_adds [OF g8, unfolded adds_slot [OF 7] adds_controls [OF 7] env7, OF slot]
  note 9 = adds_rule_before [OF 7 8(1)]
  have 10: "adds (guarded s (map (\<lambda>l. [- l, - a]) ?p)) g8 g'"
    using add_validities_adds(1) [OF g'] adds_rule_fields(1) [OF 9] s by simp
  have "has_selector g v" using add_validities_adds(2) [OF g7] adds_has_selector [OF g6(1)] by simp
  moreover have "env_last (eng_env g') = a + 1" using 8(2) add_validities_adds(5) [OF g'] by simp
  moreover note adds_rule_after [OF 9 10]
  ultimately show ?thesis using c g6(2) unfolding adds_forcing_clause_def Let_def v [symmetric] s [symmetric]
    by (intro conjI exI [of _ a] exI [of _ "a + 1"] exI) (assumption | simp | auto simp: forcing_encoding_def s)+
qed

lemma fresh_after:
  assumes "adds [] g g3" "fresh_variable g3 = (a, g4)"
  shows "adds [] g g4" "env_last (eng_env g) < a" "env_last (eng_env g4) = a"
  using adds_trans [OF assms(1), of "[]" g4] fresh_variable_adds [OF assms(2)] assms(1) by (auto simp: adds_def)

lemma sk_addForcingClause_adds:
  assumes add: "sk_addForcingClause c reduced g = Some g'" and slot: "has_slot g (var (List.last c))"
  shows "adds_forcing_clause c g g'"
proof -
  let ?v = "var (List.last c)" and ?p = "butlast c"
  let ?s = "selector_of (engine_controls g) ?v"
  obtain g1 g2 g3 a g4 g5 g6 g7 g8 where c: "c \<noteq> []"
    and g1: "in_consistency (cc_addForcingClause c) g = Some g1" and g2: "in_model (ml_addForcingClause c) g1 = Some g2"
    and g3: "g3 = (if reduced then add_extraction c g2 else g2)" and a: "fresh_variable g3 = (a, g4)"
    and g5: "add_validities ?v [?p @ [a]] g4 = Some g5" and g6: "add_validities ?v [[- a, List.last c]] g5 = Some g6"
    and g7: "add_validities ?v [[- a, - no_forcing_clause_active (g6\<lparr>eng_validity := vc_addDefiningClause ?v (?p @ [a]) a (eng_validity g6)\<rparr>) ?v]]
        (g6\<lparr>eng_validity := vc_addDefiningClause ?v (?p @ [a]) a (eng_validity g6)\<rparr>) = Some g7"
    and g8: "addForcingDisjunct ?v a g7 = Some g8" and g': "add_validities ?v (map (\<lambda>l. [- l, - a]) ?p) g8 = Some g'"
    using add unfolding sk_addForcingClause_def Let_def add_validity_single
    by (auto split: bind_splits if_splits prod.splits)
  have "adds [] g g2" using adds_trans [OF in_consistency_adds [OF g1 cc_addForcingClause_last] in_model_adds [OF g2]] by simp
  from adds_trans [OF this add_extraction_adds] this have 3: "adds [] g g3" by (cases reduced) (simp_all add: g3)
  note 4 = fresh_after [OF 3 a]
  have 5: "adds (guarded ?s [?p @ [a]]) g g5" using adds_trans [OF 4(1) add_validities_adds(1) [OF g5]] adds_controls [OF 4(1)] by simp
  have 6: "adds (guarded ?s [?p @ [a], [- a, List.last c]]) g g6"
    using adds_trans [OF 5 add_validities_adds(1) [OF g6]] adds_controls [OF 5] by simp
  show ?thesis
    by (rule forcing_tail [OF c refl refl _ 4(2) _ g7 g8 g' slot])
      (use adds_trans [OF 6 addDefining_adds] add_validities_adds(5) [OF g5] add_validities_adds(5) [OF g6] 4(3) in simp_all)
qed

lemma addArbiterClause_adds:
  assumes add: "addArbiterClause c g = Some g'" and slot: "has_slot g (var (List.last c))"
  shows "adds_forcing_clause c g g'"
proof -
  let ?v = "var (List.last c)" and ?p = "butlast c"
  let ?s = "selector_of (engine_controls g) ?v"
  obtain g1 g3 a g4 g5 g6 g7 g8 where c: "c \<noteq> []"
    and g1: "in_consistency (cc_addForcingClause c) g = Some g1" and g3: "in_model (ml_addForcingClause c) (add_extraction c g1) = Some g3"
    and a: "fresh_variable g3 = (a, g4)" and g5: "add_validities ?v [?p @ [a]] g4 = Some g5"
    and g6: "add_validities ?v [[- a, List.last c]] (g5\<lparr>eng_validity := vc_addDefiningClause ?v (?p @ [a]) a (eng_validity g5)\<rparr>) = Some g6"
    and g7: "add_validities ?v [[- a, - no_forcing_clause_active g6 ?v]] g6 = Some g7"
    and g8: "addForcingDisjunct ?v a g7 = Some g8" and g': "add_validities ?v (map (\<lambda>l. [- l, - a]) ?p) g8 = Some g'"
    using add unfolding addArbiterClause_def Let_def add_validity_single
    by (auto split: bind_splits if_splits prod.splits)
  define g5' where "g5' = g5\<lparr>eng_validity := vc_addDefiningClause ?v (?p @ [a]) a (eng_validity g5)\<rparr>"
  have "adds [] g (add_extraction c g1)" using adds_trans [OF in_consistency_adds [OF g1 cc_addForcingClause_last] add_extraction_adds] by simp
  from adds_trans [OF this in_model_adds [OF g3]] have 3: "adds [] g g3" by simp
  note 4 = fresh_after [OF 3 a]
  have "adds (guarded ?s [?p @ [a]]) g g5" using adds_trans [OF 4(1) add_validities_adds(1) [OF g5]] adds_controls [OF 4(1)] by simp
  from adds_trans [OF this addDefining_adds] have 5: "adds (guarded ?s [?p @ [a]]) g g5'" by (simp add: g5'_def)
  have 6: "adds (guarded ?s [?p @ [a], [- a, List.last c]]) g g6"
    using adds_trans [OF 5 add_validities_adds(1) [OF g6 [folded g5'_def]]] adds_controls [OF 5] by simp
  show ?thesis
    by (rule forcing_tail [OF c refl refl 6 4(2) _ g7 g8 g' slot])
      (use add_validities_adds(5) [OF g5] add_validities_adds(5) [OF g6] 4(3) in simp)
qed

section \<open>Defaults and definitions\<close>

lemma sk_addDefaultClause_adds:
  assumes "sk_addDefaultClause v c use g = Some g'"
  shows "adds (guarded (selector_of (engine_controls g) v) [c @ [- use]]) g g'"
    "c \<noteq> []" "has_selector g v"
proof -
  obtain g1 where c: "c \<noteq> []" and g1: "in_consistency (cc_addDefaultClause (butlast c) (List.last c)) g = Some g1"
    and g': "add_validities v [c @ [- use]] g1 = Some g'"
    using assms by (auto simp: sk_addDefaultClause_def add_validity_single split: bind_splits if_splits)
  note 1 = in_consistency_adds [OF g1 cc_addDefaultClause_last]
  show "adds (guarded (selector_of (engine_controls g) v) [c @ [- use]]) g g'"
    using adds_trans [OF 1 add_validities_adds(1) [OF g']] adds_controls [OF 1] by simp
  show "c \<noteq> []" by (rule c)
  show "has_selector g v" using add_validities_adds(2) [OF g'] adds_has_selector [OF 1] by simp
qed

text \<open>A variable that becomes defined gets a new selector.\<close>

definition renews_selector :: "int \<Rightarrow> 'h engine \<Rightarrow> 'h engine \<Rightarrow> bool" where
  "renews_selector v g g' \<longleftrightarrow> same_base g g' \<and> same_positions g g' \<and> has_selector g v \<and>
     env_last (eng_env g') = env_last (eng_env g) + 1 \<and> env_assumptions (eng_env g') = env_assumptions (eng_env g) \<and>
     selectors (eng_validity g') =
       (selectors (eng_validity g))[selector_index (eng_validity g) v := env_last (eng_env g) + 1] \<and>
     rule_clauses g' = rule_clauses g"

text \<open>The selector of the previous default function is switched off, and a new one is appended.\<close>

definition switched_off :: "int \<Rightarrow> 'h engine \<Rightarrow> int list" where
  "switched_off v g =
     (let A = env_assumptions (eng_env g); i = selector_position g v
      in if i = - 1 then A else A[nat i := - \<bar>A ! nat i\<bar>])"

definition adds_definition :: "int \<Rightarrow> int list \<Rightarrow> cnf \<Rightarrow> int \<Rightarrow> 'h engine \<Rightarrow> 'h engine \<Rightarrow> bool" where
  "adds_definition v condition def ns g g' \<longleftrightarrow>
     (let X = engine_controls g; A = env_assumptions (eng_env g); i = selector_position g v in
      has_selector g v \<and> same_base g g' \<and> selectors (eng_validity g') = selectors (eng_validity g) \<and>
      variable_to_default_function_selector_index (eng_skolem g') =
        (variable_to_default_function_selector_index (eng_skolem g))(v \<mapsto> int (length A)) \<and>
      (i \<noteq> - 1 \<longrightarrow> 0 \<le> i \<and> nat i < length A) \<and>
      (\<exists>a s nd t F. list_all (\<lambda>x. env_last (eng_env g) < x) [a, s, nd, ns, t] \<and> distinct [a, s, nd, ns, t] \<and>
         list_all (\<lambda>x. x \<le> env_last (eng_env g')) [a, s, nd, ns, t] \<and>
         env_assumptions (eng_env g') = (switched_off v g @ [- ns])[terminal_position g v := - t] \<and>
         rule_clauses g' = rule_clauses g @ F \<and>
         set F = set (guarded (selector_of X v)
           (definition_encoding condition def a s nd ns (none_of X v) (terminal_of X v) t))))"

lemma newSelector_effect:
  assumes "sk_newDefaultFunctionSelector v g = Some (ns, g')"
  shows "ns = env_last (eng_env g) + 1" "env_last (eng_env g') = ns"
    "env_assumptions (eng_env g') = switched_off v g @ [- ns]"
    "same_base g g'" "selectors (eng_validity g') = selectors (eng_validity g)" "rule_clauses g' = rule_clauses g"
    "variable_to_default_function_selector_index (eng_skolem g') =
        (variable_to_default_function_selector_index (eng_skolem g))(v \<mapsto> int (length (env_assumptions (eng_env g))))"
    "selector_position g v \<noteq> - 1 \<Longrightarrow> 0 \<le> selector_position g v \<and> nat (selector_position g v) < length (env_assumptions (eng_env g))"
proof -
  obtain g1 where g1: "(if selector_position g v \<noteq> - 1 then sk_disableDefaultFunctionSelector v g else Some g) = Some g1"
    and ns: "ns = env_last (eng_env g1) + 1"
    and g': "g' = g1\<lparr>eng_skolem := (eng_skolem g1)\<lparr>variable_to_default_function_selector_index :=
        (variable_to_default_function_selector_index (eng_skolem g1))(v \<mapsto> int (length (env_assumptions (eng_env g1))))\<rparr>,
      eng_env := (eng_env g1)\<lparr>env_last := ns, env_assumptions := env_assumptions (eng_env g1) @ [- ns]\<rparr>\<rparr>"
    using assms unfolding sk_newDefaultFunctionSelector_def Let_def fresh_variable_def by (auto split: bind_splits)
  have e1: "g1 = g\<lparr>eng_env := (eng_env g)\<lparr>env_assumptions := switched_off v g\<rparr>\<rparr>"
    using g1 by (auto simp: sk_disableDefaultFunctionSelector_def set_assumption_def switched_off_def var_def Let_def split: if_splits)
  have len: "length (switched_off v g) = length (env_assumptions (eng_env g))" by (simp add: switched_off_def Let_def)
  show "ns = env_last (eng_env g) + 1" using ns e1 by simp
  show "env_last (eng_env g') = ns" "env_assumptions (eng_env g') = switched_off v g @ [- ns]"
    "same_base g g'" "selectors (eng_validity g') = selectors (eng_validity g)" "rule_clauses g' = rule_clauses g"
    "variable_to_default_function_selector_index (eng_skolem g') =
        (variable_to_default_function_selector_index (eng_skolem g))(v \<mapsto> int (length (env_assumptions (eng_env g))))"
    using len by (simp_all add: g' e1 same_base_def rule_clauses_def)
  show "selector_position g v \<noteq> - 1 \<Longrightarrow> 0 \<le> selector_position g v \<and> nat (selector_position g v) < length (env_assumptions (eng_env g))"
    using g1 by (auto simp: sk_disableDefaultFunctionSelector_def set_assumption_def Let_def split: if_splits)
qed

lemma base_controls:
  assumes "same_base g g'"
  shows "none_of (engine_controls g') = none_of (engine_controls g)" "use_of (engine_controls g') = use_of (engine_controls g)"
    "terminal_position g' = terminal_position g" "use_default_position g' = use_default_position g"
    "selector_index (eng_validity g') = selector_index (eng_validity g)"
  using assms by (auto simp: same_base_def engine_controls_def Let_def no_forcing_clause_active_def terminal_position_def
      use_default_position_def selector_index_def)

lemma bind_SomeE:
  assumes "Option.bind x f = Some y" obtains z where "x = Some z" "f z = Some y"
  using assms by (cases x) auto

lemma case_prod_SomeE:
  assumes "(case p of (a, b) \<Rightarrow> f a b) = Some y" obtains a b where "p = (a, b)" "f a b = Some y"
  using assms by (cases p) auto

lemma addDefinitionWithSelector_adds:
  assumes "addDefinitionWithSelector v def sel b g = Some g'"
  shows "adds (guarded (selector_of (engine_controls g) v) (guarded sel def)) g g'" "eng_env g' = eng_env g"
proof -
  obtain g1 where g1: "add_validities v (guarded sel def) g = Some g1"
    and g': "g' = (if b then add_extractions (map (\<lambda>c. c @ [- sel]) def) g1 else g1)"
    using assms by (auto simp: addDefinitionWithSelector_def guarded_def Let_def split: bind_splits)
  show "adds (guarded (selector_of (engine_controls g) v) (guarded sel def)) g g'"
    using add_validities_adds(1) [OF g1] adds_trans [OF add_validities_adds(1) [OF g1] add_extractions_adds]
    by (cases b) (simp_all add: g')
  have "eng_env (add_extractions F h) = eng_env h" for F and h :: "'a engine"
    unfolding add_extractions_def by (induction F arbitrary: h) (simp_all add: add_extraction_def)
  then show "eng_env g' = eng_env g" using add_validities_adds(5) [OF g1] by (cases b) (simp_all add: g')
qed

text \<open>The last part of \<open>addDefinition\<close>: the rule itself, once the variable has its selector.\<close>

lemma definition_tail:
  assumes ca: "fresh_variable g = (ca, g4)"
    and g5: "add_validities v [negateEach condition @ [ca]] g4 = Some g5" and g6: "adds [] g5 g6"
    and g7: "add_validities v (map (\<lambda>l. [l, - ca]) condition) g6 = Some g7"
    and sel: "fresh_variable g7 = (sel, g8)" and nd: "fresh_variable g8 = (nd, g9)"
    and g10: "add_validities v [[ca, nd, - sel], [- ca, sel], [- nd, sel]] g9 = Some g10"
    and ns: "sk_newDefaultFunctionSelector v g10 = Some (ns, g11)"
    and g12: "add_validities v [[- nd, no_forcing_clause_active g11 v], [- nd, ns],
        [- no_forcing_clause_active g11 v, - ns, nd], [- ca, - no_forcing_clause_active g11 v]] g11 = Some g12"
    and g13: "adds [] g12 g13"
    and g14: "addForcingDisjunct v ca g13 = Some g14"
    and g15: "addDefinitionWithSelector v def sel b g14 = Some g15" and g': "adds [] g15 g'"
    and slot: "has_slot g v" "selector_position g v \<noteq> - 1 \<longrightarrow> nat (selector_position g v) \<noteq> terminal_position g v"
  shows "adds_definition v condition def ns g g'"
proof -
  let ?X = "engine_controls g"
  define s where "s = selector_of ?X v"
  define F10 where "F10 = guarded s ([negateEach condition @ [ca]] @ map (\<lambda>l. [l, - ca]) condition @ [[ca, nd, - sel], [- ca, sel], [- nd, sel]])"
  note last_le = adds_def [THEN iffD1, THEN conjunct2, THEN conjunct1]
  note 4 = fresh_variable_adds [OF ca, THEN conjunct1] and n4 = fresh_variable_adds [OF ca, THEN conjunct2]
  note 5 = adds_trans [OF 4 add_validities_adds(1) [OF g5], unfolded adds_controls [OF 4] s_def [symmetric]]
  note 6 = adds_trans [OF 5 g6]
  note 7 = adds_trans [OF 6 add_validities_adds(1) [OF g7], unfolded adds_controls [OF 6] s_def [symmetric]]
  note 8 = adds_trans [OF 7 fresh_variable_adds [OF sel, THEN conjunct1]]
  note 9 = adds_trans [OF 8 fresh_variable_adds [OF nd, THEN conjunct1]]
  note 10 = adds_trans [OF 9 add_validities_adds(1) [OF g10], unfolded adds_controls [OF 9] s_def [symmetric]]
  have 10: "adds F10 g g10" using 10 by (simp add: F10_def)
  have e10: "eng_env g10 = eng_env g9" "eng_env g7 = eng_env g6" "eng_env g5 = eng_env g4"
    using add_validities_adds(5) g10 g7 g5 by blast+
  note E = newSelector_effect [OF ns]
  have A10: "env_assumptions (eng_env g10) = env_assumptions (eng_env g)" "selector_position g10 v = selector_position g v"
    "terminal_position g11 v = terminal_position g v" "same_base g g11"
    using 10 E(4) by (simp_all add: adds_def frame_defs selector_position_def terminal_position_def)
  then have off: "switched_off v g10 = switched_off v g" by (simp add: switched_off_def)
  have X11: "none_of (engine_controls g11) v = none_of ?X v" "selector_of (engine_controls g11) v = s"
    using base_controls(1,5) [OF A10(4)] E(5) 10
    by (simp_all add: s_def engine_controls_def Let_def adds_def frame_defs)
  then have none: "no_forcing_clause_active g11 v = none_of ?X v" by (simp add: engine_controls_def Let_def)
  define F13 where "F13 = guarded s [[- nd, none_of ?X v], [- nd, ns], [- none_of ?X v, - ns, nd], [- ca, - none_of ?X v]]"
  have 13: "adds F13 g11 g13" using adds_trans [OF add_validities_adds(1) [OF g12] g13] by (simp add: F13_def none X11(2))
  have tp: "terminal_position g v < length (env_assumptions (eng_env g))" using slot(1)
    by (auto simp: has_slot_def terminal_position_def split: option.splits)
  have slot13: "has_slot g13 v"
    using slot(1) adds_slot [OF 13] A10(4) E(3) off
    by (auto simp: has_slot_def same_base_def switched_off_def Let_def split: option.splits)
  note 14 = addForcingDisjunct_adds [OF g14 slot13]
  have X13: "selector_of (engine_controls g13) v = s" using adds_controls [OF 13] X11 by simp
  have "terminal_position g13 v = terminal_position g v" using 13 A10(3) by (simp add: adds_def frame_defs terminal_position_def)
  then have trm: "set_terminal v t g13 = (switched_off v g @ [- ns])[terminal_position g v := - t]"
    "terminal_of (engine_controls g13) v = terminal_of ?X v" for t
    using 13 E(3) off slot(2) tp
    by (auto simp: set_terminal_def adds_def engine_controls_def Let_def switched_off_def nth_append)
  note 15 = adds_rule_after [OF 14(1) addDefinitionWithSelector_adds(1) [OF g15]]
  note 16 = adds_rule_after [OF 15 g']
  define t where "t = env_last (eng_env g13) + 1"
  have order: "env_last (eng_env g) < ca" "ca < sel" "sel < nd" "nd < ns" "ns < t" "t \<le> env_last (eng_env g')"
    using n4 fresh_variable_adds [OF sel] fresh_variable_adds [OF nd] last_le [OF g6] e10 E(1,2) last_le [OF 13]
      14(2) addDefinitionWithSelector_adds(2) [OF g15] last_le [OF g'] by (auto simp: t_def)
  define F where "F = F10 @ F13 @ guarded s [[- terminal_of ?X v, ca, t]] @ guarded s (guarded sel def)"
  have "rule_clauses g' = rule_clauses g @ F"
    using 10 E(6) 13 16 adds_rule_fields(1) [OF 14(1)] by (simp add: adds_def adds_rule_def F_def X13 trm(2) t_def)
  moreover have "set F = set (guarded s (definition_encoding condition def ca sel nd ns (none_of ?X v) (terminal_of ?X v) t))"
    by (auto simp: F_def F10_def F13_def definition_encoding_def negateEach_def)
  moreover have "env_assumptions (eng_env g') = (switched_off v g @ [- ns])[terminal_position g v := - t]"
    using 16 trm(1) by (simp add: adds_rule_def t_def)
  moreover have "same_base g g'"
    using A10(4) 13 16 by (simp add: frame_defs adds_def adds_rule_def)
  moreover have "selectors (eng_validity g') = selectors (eng_validity g)"
    "variable_to_default_function_selector_index (eng_skolem g') =
      (variable_to_default_function_selector_index (eng_skolem g))(v \<mapsto> int (length (env_assumptions (eng_env g))))"
    using E(5,7) 10 13 16 A10 by (simp_all add: frame_defs adds_def adds_rule_def)
  moreover have "selector_position g v \<noteq> - 1 \<Longrightarrow>
      0 \<le> selector_position g v \<and> nat (selector_position g v) < length (env_assumptions (eng_env g))"
    using E(8) A10 by simp
  moreover have "has_selector g v" using add_validities_adds(2) [OF g5] adds_has_selector [OF 4] by simp
  ultimately show ?thesis
    unfolding adds_definition_def Let_def s_def [symmetric]
    by (intro conjI exI [of _ ca] exI [of _ sel] exI [of _ nd] exI [of _ t] exI [of _ F]) (use order in simp_all)
qed

text \<open>
  \<open>addDefinition\<close> in three parts: what the other components do, the new selector of a variable that
  becomes defined, and the rule itself.
\<close>

lemma sk_addDefinition_adds:
  assumes add: "sk_addDefinition v def circ condition reduced g = Some g'"
    and slot: "has_slot g v" "selector_position g v \<noteq> - 1 \<longrightarrow> nat (selector_position g v) \<noteq> terminal_position g v"
  shows "\<exists>g2 g3 ns. adds [] g g2 \<and>
    (if condition = [] \<and> v \<in> undefined_existentials (eng_skolem g2) then renews_selector v g2 g3 else g3 = g2) \<and>
    adds_definition v condition def ns g3 g'"
proof -
  obtain g1 g2 g3 ca g4 g5 g7 sel g8 nd g9 g10 nsg ns g11 g12 g14 g15 support where
    g1: "in_model (ml_addConditionalDefinition v condition def circ) g = Some g1"
    and g2: "in_consistency (cc_addDefinition (eng_dependencies g1) v def condition) g1 = Some g2"
    and g3: "(if condition = [] \<and> v \<in> undefined_existentials (eng_skolem g2)
       then do {
         (n, s) \<leftarrow> vc_setDefined v (env_last (eng_env g2), eng_validity g2);
         Some (g2\<lparr>eng_env := (eng_env g2)\<lparr>env_last := n\<rparr>, eng_validity := s,
           eng_skolem := (eng_skolem g2)\<lparr>undefined_existentials := undefined_existentials (eng_skolem g2) - {v}\<rparr>\<rparr>)
       } else Some g2) = Some g3"
    and ca: "fresh_variable g3 = (ca, g4)"
    and g5: "add_validities v [negateEach condition @ [ca]] g4 = Some g5"
    and g7: "add_validities v (map (\<lambda>l. [l, - ca]) condition)
        (if reduced then add_extraction (negateEach condition @ [ca]) g5 else g5) = Some g7"
    and sel: "fresh_variable g7 = (sel, g8)" and nd: "fresh_variable g8 = (nd, g9)"
    and g10: "add_validities v [[ca, nd, - sel], [- ca, sel], [- nd, sel]] g9 = Some g10"
    and nsg: "sk_newDefaultFunctionSelector v g10 = Some nsg" "nsg = (ns, g11)"
    and g12: "add_validities v [[- nd, no_forcing_clause_active g11 v], [- nd, ns],
        [- no_forcing_clause_active g11 v, - ns, nd], [- ca, - no_forcing_clause_active g11 v]] g11 = Some g12"
    and g14: "addForcingDisjunct v ca (if reduced then add_extraction [- ca, sel] g12 else g12) = Some g14"
    and g15: "addDefinitionWithSelector v def sel (condition \<noteq> [] \<or> reduced) g14 = Some g15"
    and g': "Some (g15\<lparr>eng_validity := vc_addDefiningClause v support ca (eng_validity g15)\<rparr>) = Some g'"
    using add unfolding sk_addDefinition_def add_validity_single Let_def
    by (elim bind_SomeE case_prod_SomeE, intro that) (assumption)+
  define g6 where "g6 = (if reduced then add_extraction (negateEach condition @ [ca]) g5 else g5)"
  define g13 where "g13 = (if reduced then add_extraction [- ca, sel] g12 else g12)"
  note g7 = g7 [folded g6_def] and g14 = g14 [folded g13_def] and ns = nsg(1) [unfolded nsg(2)]
  have 2: "adds [] g g2" using adds_trans [OF in_model_adds [OF g1] in_consistency_adds [OF g2 cc_addDefinition_last]] by simp
  have 3: "if condition = [] \<and> v \<in> undefined_existentials (eng_skolem g2) then renews_selector v g2 g3 else g3 = g2"
    using g3 by (auto simp: vc_setDefined_def renews_selector_def same_base_def same_positions_def has_selector_def
        selector_index_def rule_clauses_def split: if_splits bind_splits prod.splits)
  have "same_base g g2" "same_base g2 g3" "selector_position g3 v = selector_position g v"
    "env_assumptions (eng_env g3) = env_assumptions (eng_env g)" "terminal_position g3 v = terminal_position g v"
    using 2 3 by (auto simp: adds_def frame_defs renews_selector_def selector_position_def terminal_position_def split: if_splits)
  then have slots: "has_slot g3 v" "selector_position g3 v \<noteq> - 1 \<longrightarrow> nat (selector_position g3 v) \<noteq> terminal_position g3 v"
    using slot by (simp_all add: has_slot_def same_base_def split: option.splits)
  have g': "adds [] g15 g'" using g' addDefining_adds by auto
  have "adds [] g5 g6" "adds [] g12 g13" by (simp_all add: g6_def g13_def)
  then have "adds_definition v condition def ns g3 g'"
    using definition_tail [OF ca g5 _ g7 sel nd g10 ns g12 _ g14 g15 g' slots] by blast
  then show ?thesis using 2 3 by blast
qed

end
