(* ===== verification/EngineInvariant.thy ===== *)
theory EngineInvariant
  imports SkolemContainer_Correct
begin

text \<open>
  The invariant of the objects around the Skolem container: where the control variables of the
  existential variables are kept, that the shared vector of assumptions holds what it should at
  these places, and that the clauses of the validity solver encode the current rules. From it
  follows what an unsatisfiable answer of the validity solver means.
\<close>

section \<open>The invariant\<close>

text \<open>The variables a rule may mention: those of the formula and the arbiters.\<close>

definition inputs :: "'h engine \<Rightarrow> int set" where
  "inputs g = set (sk_universals (eng_skolem g)) \<union> set (sk_existentials (eng_skolem g)) \<union> dom (arbiter_to_existential g)"

abbreviation outputs :: "'h engine \<Rightarrow> int set" where
  "outputs g \<equiv> set (sk_existentials (eng_skolem g))"

abbreviation assumed :: "'h engine \<Rightarrow> int list" where
  "assumed g \<equiv> env_assumptions (eng_env g)"

abbreviation last_var :: "'h engine \<Rightarrow> int" where
  "last_var g \<equiv> env_last (eng_env g)"

text \<open>The kinds of variables do not overlap, and only assumptions may be internal.\<close>

definition apart_names :: "int \<Rightarrow> int set \<Rightarrow> int set \<Rightarrow> int set \<Rightarrow> int set \<Rightarrow> int set \<Rightarrow> int set \<Rightarrow> bool" where
  "apart_names n S N U W V I \<longleftrightarrow>
     S \<subseteq> {1..n} \<and> N \<subseteq> {1..n} \<and> U \<subseteq> {1..n} \<and> W \<subseteq> {1..n} \<and> V \<subseteq> {1..n} \<and> I \<subseteq> {1..n} \<and>
     S \<inter> I = {} \<and> N \<inter> I = {} \<and> U \<inter> I = {} \<and> V \<inter> I = {} \<and>
     S \<inter> N = {} \<and> S \<inter> U = {} \<and> S \<inter> W = {} \<and> S \<inter> V = {} \<and> N \<inter> U = {} \<and> N \<inter> W = {} \<and> N \<inter> V = {} \<and>
     U \<inter> W = {} \<and> U \<inter> V = {} \<and> W \<inter> V = {}"

definition own_positions :: "int set \<Rightarrow> 'h engine \<Rightarrow> nat set" where
  "own_positions E g = terminal_position g ` E \<union> use_default_position g ` E \<union>
     {nat (selector_position g e) |e. e \<in> E \<and> selector_position g e \<noteq> - 1}"

definition positions_ok :: "int set \<Rightarrow> 'h engine \<Rightarrow> bool" where
  "positions_ok E g \<longleftrightarrow>
     (\<forall>e\<in>E. has_slot g e \<and> use_default_position g e < length (assumed g)) \<and>
     (\<forall>e\<in>E. selector_position g e \<noteq> - 1 \<longrightarrow> 0 \<le> selector_position g e \<and>
        nat (selector_position g e) < length (assumed g) \<and> nat (selector_position g e) \<notin> terminal_position g ` E) \<and>
     inj_on (terminal_position g) E \<and> terminal_position g ` E \<inter> use_default_position g ` E = {}"

definition names_ok :: "int set \<Rightarrow> int set \<Rightarrow> 'h engine \<Rightarrow> bool" where
  "names_ok E I g \<longleftrightarrow>
     bij_betw (selector_index (eng_validity g)) (outputs g) {..<length (selectors (eng_validity g))} \<and>
     distinct (selectors (eng_validity g)) \<and>
     inj_on (none_of (engine_controls g)) E \<and> inj_on (use_of (engine_controls g)) E \<and>
     apart_names (last_var g) (set (selectors (eng_validity g))) (none_of (engine_controls g) ` E)
       (use_of (engine_controls g) ` E) (abs ` set (assumed g)) (inputs g) I"

definition assumed_ok :: "int set \<Rightarrow> int set \<Rightarrow> 'h engine \<Rightarrow> bool" where
  "assumed_ok E I g \<longleftrightarrow>
     distinct (map abs (assumed g)) \<and>
     (\<forall>i<length (assumed g). \<bar>assumed g ! i\<bar> \<in> I \<longleftrightarrow> i \<in> terminal_position g ` E) \<and>
     (\<forall>e\<in>E. assumed g ! terminal_position g e < 0)"

definition rules_ok :: "int set \<Rightarrow> int set \<Rightarrow> rule_book \<Rightarrow> (int \<Rightarrow> clause list) \<Rightarrow> 'h engine \<Rightarrow> bool" where
  "rules_ok E I R K g \<longleftrightarrow>
     (\<forall>e\<in>E. [] \<notin> set (forcing_of R e) \<and> cnf_vars (forcing_of R e) \<subseteq> inputs g \<and>
        (\<forall>(condition, def, s)\<in>set (definitions_of R e).
           clause_vars condition \<subseteq> inputs g \<and> cnf_vars def \<subseteq> inputs g \<and> s \<in> abs ` set (assumed g) - I) \<and>
        set (defaults_of R e) \<subseteq> set (K e))"

definition handed_ok ::
  "'h mlpack_tree \<Rightarrow> ('h \<Rightarrow> nat) \<Rightarrow> int set \<Rightarrow> int set \<Rightarrow> (int \<Rightarrow> clause list) \<Rightarrow> 'h engine \<Rightarrow> bool" where
  "handed_ok api dimensions E I K g \<longleftrightarrow>
     container_ok api dimensions K (eng_defaults g) (eng_env g) \<and>
     (\<forall>v. deps_of (eng_defaults g) v \<subseteq> inputs g \<and> cnf_vars (K v) \<subseteq> inputs g \<union> (abs ` set (assumed g) - I)) \<and>
     (\<forall>v. useDefault (eng_defaults g) v \<longrightarrow> v \<in> outputs g) \<and>
     (\<forall>v. \<forall>i\<in>own_positions E g. i < length (assumed g) \<longrightarrow> \<bar>assumed g ! i\<bar> \<notin> selectors_of (K v))"

definition arbiters_ok :: "'h engine \<Rightarrow> bool" where
  "arbiters_ok g \<longleftrightarrow>
     (\<forall>e annotation a. existential_arbiter_map (eng_skolem g) e annotation = Some a \<longrightarrow> arbiter_to_existential g a = Some e) \<and>
     (\<forall>a e. arbiter_to_existential g a = Some e \<longrightarrow> e \<in> outputs g) \<and>
     (\<forall>a annotation. arbiter_to_annotation (eng_skolem g) a = Some annotation \<longrightarrow> clause_vars annotation \<subseteq> inputs g)"

definition engine_inv ::
  "'h mlpack_tree \<Rightarrow> ('h \<Rightarrow> nat) \<Rightarrow> cnf \<Rightarrow> int set \<Rightarrow> int set \<Rightarrow> rule_book \<Rightarrow> (int \<Rightarrow> clause list) \<Rightarrow> 'h engine \<Rightarrow> bool" where
  "engine_inv api dimensions M E I R K g \<longleftrightarrow>
     E \<subseteq> outputs g \<and> cnf_vars M \<subseteq> inputs g \<and> sat_assumed (validity_check_solver (eng_validity g)) = [] \<and>
     positions_ok E g \<and> names_ok E I g \<and> assumed_ok E I g \<and> rules_ok E I R K g \<and>
     handed_ok api dimensions E I K g \<and> arbiters_ok g \<and>
     cnf_vars (rule_clauses g) \<subseteq> {..last_var g} \<and> encodes E (engine_controls g) R I M (rule_clauses g)"

section \<open>What the invariant gives\<close>

lemma terminal_in_range: "has_slot g e \<Longrightarrow> terminal_position g e < length (assumed g)"
  by (auto simp: has_slot_def terminal_position_def split: option.splits)

lemma selector_of_engine:
  assumes "bij_betw (selector_index (eng_validity g)) (outputs g) {..<length (selectors (eng_validity g))}"
  shows "selector_of (engine_controls g) ` outputs g = set (selectors (eng_validity g))"
    "e \<in> outputs g \<Longrightarrow> has_selector g e"
proof -
  have "selector_index (eng_validity g) ` outputs g = {..<length (selectors (eng_validity g))}"
    using assms by (simp add: bij_betw_def)
  then have "(\<lambda>e. selectors (eng_validity g) ! selector_index (eng_validity g) e) ` outputs g =
      (\<lambda>i. selectors (eng_validity g) ! i) ` {..<length (selectors (eng_validity g))}"
    by (metis image_image)
  also have "\<dots> = set (selectors (eng_validity g))" by (auto simp: set_conv_nth)
  finally show "selector_of (engine_controls g) ` outputs g = set (selectors (eng_validity g))"
    by (simp add: engine_controls_def Let_def)
  show "e \<in> outputs g \<Longrightarrow> has_selector g e"
    using assms by (auto simp: bij_betw_def has_selector_def)
qed

lemma selector_inj:
  assumes "names_ok E I g"
  shows "inj_on (selector_of (engine_controls g)) (outputs g)"
proof (rule inj_onI)
  fix e e'
  let ?i = "selector_index (eng_validity g)" and ?s = "selectors (eng_validity g)"
  assume e: "e \<in> outputs g" "e' \<in> outputs g" and eq: "selector_of (engine_controls g) e = selector_of (engine_controls g) e'"
  have bij: "bij_betw ?i (outputs g) {..<length ?s}" and d: "distinct ?s" using assms by (simp_all add: names_ok_def)
  have "?i e < length ?s" "?i e' < length ?s" using bij e by (auto simp: bij_betw_def)
  moreover have "?s ! ?i e = ?s ! ?i e'" using eq by (simp add: engine_controls_def Let_def)
  ultimately have "?i e = ?i e'" using d by (simp add: nth_eq_iff_index_eq)
  then show "e = e'" using bij e by (simp add: bij_betw_def inj_on_def)
qed

lemma names_okD:
  assumes "names_ok E I g"
  defines "S \<equiv> set (selectors (eng_validity g))" and "N \<equiv> none_of (engine_controls g) ` E"
    and "U \<equiv> use_of (engine_controls g) ` E" and "W \<equiv> abs ` set (assumed g)" and "V \<equiv> inputs g"
  shows "bij_betw (selector_index (eng_validity g)) (outputs g) {..<length (selectors (eng_validity g))}"
    "distinct (selectors (eng_validity g))" "inj_on (none_of (engine_controls g)) E" "inj_on (use_of (engine_controls g)) E"
    "S \<subseteq> {1..last_var g}" "N \<subseteq> {1..last_var g}" "U \<subseteq> {1..last_var g}" "W \<subseteq> {1..last_var g}"
    "V \<subseteq> {1..last_var g}" "I \<subseteq> {1..last_var g}"
    "S \<inter> I = {}" "N \<inter> I = {}" "U \<inter> I = {}" "V \<inter> I = {}"
    "S \<inter> N = {}" "S \<inter> U = {}" "S \<inter> W = {}" "S \<inter> V = {}" "N \<inter> U = {}" "N \<inter> W = {}" "N \<inter> V = {}"
    "U \<inter> W = {}" "U \<inter> V = {}" "W \<inter> V = {}"
proof -
  have 1: "bij_betw (selector_index (eng_validity g)) (outputs g) {..<length (selectors (eng_validity g))}"
    "distinct (selectors (eng_validity g))" "inj_on (none_of (engine_controls g)) E" "inj_on (use_of (engine_controls g)) E"
    and 2: "apart_names (last_var g) S N U W V I"
    using assms(1) by (simp_all add: names_ok_def S_def N_def U_def W_def V_def)
  show "bij_betw (selector_index (eng_validity g)) (outputs g) {..<length (selectors (eng_validity g))}"
    "distinct (selectors (eng_validity g))" "inj_on (none_of (engine_controls g)) E" "inj_on (use_of (engine_controls g)) E"
    by (rule 1)+
  show "S \<subseteq> {1..last_var g}" "N \<subseteq> {1..last_var g}" "U \<subseteq> {1..last_var g}" "W \<subseteq> {1..last_var g}"
    "V \<subseteq> {1..last_var g}" "I \<subseteq> {1..last_var g}" "S \<inter> I = {}" "N \<inter> I = {}" "U \<inter> I = {}" "V \<inter> I = {}"
    "S \<inter> N = {}" "S \<inter> U = {}" "S \<inter> W = {}" "S \<inter> V = {}" "N \<inter> U = {}" "N \<inter> W = {}" "N \<inter> V = {}"
    "U \<inter> W = {}" "U \<inter> V = {}" "W \<inter> V = {}"
    using 2 unfolding apart_names_def by simp_all
qed

lemma inv_controls_ok:
  assumes "E \<subseteq> outputs g" "positions_ok E g" "names_ok E I g" "assumed_ok E I g"
  shows "controls_ok (last_var g) E (engine_controls g) I"
proof -
  let ?X = "engine_controls g" and ?A = "assumed g"
  have sel: "selector_of ?X e \<in> set (selectors (eng_validity g))" if "e \<in> E" for e
    using selector_of_engine(1) [of g] assms(1,3) that by (auto simp: names_ok_def)
  have "switch_of ?X e \<in> abs ` set ?A - I \<and> terminal_of ?X e \<in> abs ` set ?A \<inter> I" if e: "e \<in> E" for e
  proof -
    have len: "terminal_position g e < length ?A" "use_default_position g e < length ?A"
      "use_default_position g e \<notin> terminal_position g ` E"
      using assms(2) e terminal_in_range by (auto simp: positions_ok_def)
    have "switch_of ?X e = \<bar>?A ! use_default_position g e\<bar>" "terminal_of ?X e = \<bar>?A ! terminal_position g e\<bar>"
      using assms(4) e by (auto simp: assumed_ok_def engine_controls_def Let_def)
    moreover have "\<bar>?A ! i\<bar> \<in> abs ` set ?A" "\<bar>?A ! i\<bar> \<in> I \<longleftrightarrow> i \<in> terminal_position g ` E" if "i < length ?A" for i
      using that assms(4) by (simp_all add: assumed_ok_def)
    ultimately show ?thesis using len e by simp
  qed
  then have A: "switch_of ?X e \<in> {1..last_var g}" "terminal_of ?X e \<in> {1..last_var g}" "switch_of ?X e \<notin> I" "terminal_of ?X e \<in> I"
    if "e \<in> E" for e using that names_okD(8) [OF assms(3)] by blast+
  note D = names_okD [OF assms(3)]
  have B: "selector_of ?X e \<in> {1..last_var g} - I" "none_of ?X e \<in> {1..last_var g} - I" "use_of ?X e \<in> {1..last_var g} - I"
    if "e \<in> E" for e using that sel [OF that] D(5-7,11-13) by blast+
  show ?thesis unfolding controls_ok_def using A B D(10) by (auto simp: Ball_def)
qed

text \<open>The value of a default only depends on the dependencies of its tree.\<close>

lemma tree_value_cong:
  "mirrors api dimensions deps h st \<Longrightarrow> list_all (\<lambda>x. 0 < x) deps \<Longrightarrow> same_on (abs ` set deps) \<alpha> \<beta> \<Longrightarrow>
    tree_value ds st \<alpha> = tree_value ds st \<beta>"
proof (induction st arbitrary: h)
  case (Inner_Node b sw v l r)
  then have m: "mirrors api dimensions deps (child api h 0) l" "mirrors api dimensions deps (child api h 1) r" "v \<in> set deps"
    by simp_all
  then have "\<alpha> v = \<beta> v" using Inner_Node.prems(2,3) by (force simp: list_all_iff same_on_def)
  then show ?case using Inner_Node.IH(1) [OF m(1) Inner_Node.prems(2,3)] Inner_Node.IH(2) [OF m(2) Inner_Node.prems(2,3)] by simp
qed simp

lemma default_value_cong:
  assumes ok: "container_ok api dimensions K d e" and use: "useDefault d v" and same: "same_on (deps_of d v) \<alpha> \<beta>"
  shows "default_value api d e v \<alpha> = default_value api d e v \<beta>"
proof (cases "treeActive api d v")
  case True
  then obtain t where t: "default_trees d v = Some t" "num_children api (htree t) \<noteq> 0"
    by (auto simp: treeActive_def tree_empty_def isLeaf_def split: option.splits)
  have "variable_ok api dimensions K d e v" using ok use by (simp add: container_ok_def)
  then have inv: "tree_inv api dimensions v (tree_dependencies t) (fixed_leaf d v) (K v) t e"
    "list_all (\<lambda>x. 0 < x) (tree_dependencies t)"
    using t(1) by (simp_all add: variable_ok_def)
  then obtain st where st: "root_selector_tree t = Some st" "mirrors api dimensions (tree_dependencies t) (htree t) st"
    using t(2) by (auto simp: tree_inv_def split: option.splits)
  show ?thesis using True t(1) st(1) tree_value_cong [OF st(2) inv(2)] same
    by (simp add: default_value_def deps_of_def)
qed (simp add: default_value_def)

section \<open>An unsatisfiable answer\<close>

definition default_on :: "'h engine \<Rightarrow> int \<Rightarrow> bool" where
  "default_on g e \<longleftrightarrow> 0 < assumed g ! use_default_position g e"

text \<open>
  The assignment gives a variable the value its current rules say: the forced value where a
  forcing clause fires, a value that satisfies the definitions in force, and otherwise the default.
\<close>

definition follows_rules :: "'h mlpack_tree \<Rightarrow> rule_book \<Rightarrow> 'h engine \<Rightarrow> int \<Rightarrow> assignment \<Rightarrow> bool" where
  "follows_rules api R g e \<alpha> \<longleftrightarrow>
     list_all (\<lambda>c. clause_fires \<alpha> c \<longrightarrow> lit_true \<alpha> (List.last c)) (forcing_of R e) \<and>
     list_all (\<lambda>(condition, def, s).
       list_all (lit_true \<alpha>) condition \<or> \<not> rule_fires R e \<alpha> \<and> s \<in> set (assumed g) \<longrightarrow> cnf_sat \<alpha> def) (definitions_of R e) \<and>
     (\<not> rule_fires R e \<alpha> \<and> default_on g e \<and> useDefault (eng_defaults g) e \<longrightarrow>
       \<alpha> e = default_value api (eng_defaults g) (eng_env g) e \<alpha>)"

text \<open>The controls get the values the rules ask for.\<close>

definition set_controls :: "rule_book \<Rightarrow> 'h engine \<Rightarrow> assignment \<Rightarrow> assignment" where
  "set_controls R g \<alpha> v =
     (let X = engine_controls g; E = outputs g in
      if v \<in> none_of X ` E then \<not> rule_fires R (the_inv_into E (none_of X) v) \<alpha>
      else if v \<in> use_of X ` E
        then \<not> rule_fires R (the_inv_into E (use_of X) v) \<alpha> \<and> default_on g (the_inv_into E (use_of X) v)
      else if v \<in> set (selectors (eng_validity g)) then True
      else if v \<in> abs ` set (assumed g) then v \<in> set (assumed g)
      else \<alpha> v)"

lemma distinct_abs_literal:
  assumes "distinct (map abs xs)" "l \<in> set xs" "l \<noteq> (0 :: int)"
  shows "\<bar>l\<bar> \<in> set xs \<longleftrightarrow> 0 < l"
proof
  assume l: "\<bar>l\<bar> \<in> set xs"
  have "inj_on abs (set xs)" using assms(1) by (simp only: distinct_map)
  from inj_onD [OF this _ l assms(2)] have "\<bar>l\<bar> = l" by (simp only: abs_idempotent)
  then show "0 < l" using assms(3) by linarith
qed (use assms(2) in simp)

lemma set_controls_values:
  fixes \<alpha> :: assignment and R :: rule_book and g :: "'h engine"
  assumes names: "names_ok (outputs g) I g" and ok: "assumed_ok (outputs g) I g"
  defines "\<beta> \<equiv> set_controls R g \<alpha>" and "X \<equiv> engine_controls g"
  shows "e \<in> outputs g \<Longrightarrow> \<beta> (none_of X e) = (\<not> rule_fires R e \<alpha>)"
    "e \<in> outputs g \<Longrightarrow> \<beta> (use_of X e) = (\<not> rule_fires R e \<alpha> \<and> default_on g e)"
    "v \<in> set (selectors (eng_validity g)) \<Longrightarrow> \<beta> v"
    "list_all (lit_true \<beta>) (assumed g)" "i < length (assumed g) \<Longrightarrow> \<beta> \<bar>assumed g ! i\<bar> = (0 < assumed g ! i)"
    "same_on (inputs g) \<beta> \<alpha>"
proof -
  note D = names_okD [OF names]
  show "e \<in> outputs g \<Longrightarrow> \<beta> (none_of X e) = (\<not> rule_fires R e \<alpha>)"
    using D(3) by (simp add: \<beta>_def X_def set_controls_def the_inv_into_f_f)
  show "\<beta> (use_of X e) = (\<not> rule_fires R e \<alpha> \<and> default_on g e)" if e: "e \<in> outputs g"
  proof -
    have "use_of X e \<notin> none_of X ` outputs g" using D(19) e unfolding X_def by blast
    then show ?thesis using D(4) e by (simp add: \<beta>_def X_def set_controls_def the_inv_into_f_f Let_def)
  qed
  show "\<beta> v" if v: "v \<in> set (selectors (eng_validity g))"
  proof -
    have "v \<notin> none_of X ` outputs g" "v \<notin> use_of X ` outputs g" using D(15,16) v unfolding X_def by blast+
    then show ?thesis using v by (simp add: \<beta>_def X_def set_controls_def Let_def)
  qed
  have lit: "\<beta> \<bar>l\<bar> = (0 < l)" if l: "l \<in> set (assumed g)" for l
  proof -
    have W: "\<bar>l\<bar> \<in> abs ` set (assumed g)" using l by simp
    then have "\<bar>l\<bar> \<notin> none_of X ` outputs g" "\<bar>l\<bar> \<notin> use_of X ` outputs g" "\<bar>l\<bar> \<notin> set (selectors (eng_validity g))" "\<bar>l\<bar> \<noteq> 0"
      using D(8,17,20,22) unfolding X_def by (blast, blast, blast, force)
    moreover have "distinct (map abs (assumed g))" using ok by (simp add: assumed_ok_def)
    ultimately show ?thesis using W l distinct_abs_literal [of "assumed g" l]
      by (simp add: \<beta>_def X_def set_controls_def Let_def)
  qed
  have "lit_true \<beta> l" if "l \<in> set (assumed g)" for l
    using lit [OF that] D(8) that by (cases "0 < l") (auto simp: lit_true_def)
  then show "list_all (lit_true \<beta>) (assumed g)" by (simp add: list_all_iff)
  show "i < length (assumed g) \<Longrightarrow> \<beta> \<bar>assumed g ! i\<bar> = (0 < assumed g ! i)"
    using lit by simp
  show "same_on (inputs g) \<beta> \<alpha>"
    unfolding same_on_def
  proof
    fix v assume v: "v \<in> inputs g"
    then have "v \<notin> none_of X ` outputs g" "v \<notin> use_of X ` outputs g" "v \<notin> set (selectors (eng_validity g))" "v \<notin> abs ` set (assumed g)"
      using D(18,21,23,24) unfolding X_def by blast+
    then show "\<beta> v = \<alpha> v" by (simp add: \<beta>_def X_def set_controls_def Let_def)
  qed
qed

lemma clause_parts_cong:
  assumes "clause_vars c \<subseteq> V" "same_on V \<beta> \<alpha>"
  shows "clause_fires \<beta> c = clause_fires \<alpha> c" "c \<noteq> [] \<Longrightarrow> lit_true \<beta> (List.last c) = lit_true \<alpha> (List.last c)"
    "list_all (lit_true \<beta>) c = list_all (lit_true \<alpha>) c"
proof -
  have lit: "l \<in> set c \<Longrightarrow> lit_true \<beta> l = lit_true \<alpha> l" for l by (rule lits_cong [OF assms])
  then have "clause_sat \<beta> (butlast c) = clause_sat \<alpha> (butlast c)" by (meson clause_sat_iff in_set_butlastD)
  then show "clause_fires \<beta> c = clause_fires \<alpha> c" by (simp add: clause_fires_def)
  show "c \<noteq> [] \<Longrightarrow> lit_true \<beta> (List.last c) = lit_true \<alpha> (List.last c)" using lit by simp
  show "list_all (lit_true \<beta>) c = list_all (lit_true \<alpha>) c" using lit by (simp add: list_all_iff)
qed

lemma cnf_cong_on: "cnf_vars F \<subseteq> V \<Longrightarrow> same_on V \<beta> \<alpha> \<Longrightarrow> cnf_sat \<beta> F = cnf_sat \<alpha> F"
  by (rule cnf_sat_cong) (auto simp: same_on_def)

lemma clause_of_cnf_vars: "cnf_vars F \<subseteq> V \<Longrightarrow> c \<in> set F \<Longrightarrow> clause_vars c \<subseteq> V"
  by (auto simp: cnf_vars_def)

lemma rules_okD:
  assumes "rules_ok E I R K g" "e \<in> E"
  shows "[] \<notin> set (forcing_of R e)" "c \<in> set (forcing_of R e) \<Longrightarrow> clause_vars c \<subseteq> inputs g"
    "(cond, def, s) \<in> set (definitions_of R e) \<Longrightarrow>
       clause_vars cond \<subseteq> inputs g \<and> cnf_vars def \<subseteq> inputs g \<and> s \<in> abs ` set (assumed g) - I"
    "set (defaults_of R e) \<subseteq> set (K e)"
proof -
  note conj = bspec [OF assms(1) [unfolded rules_ok_def] assms(2)]
  note all = conj [THEN conjunct1] conj [THEN conjunct2, THEN conjunct1] conj [THEN conjunct2, THEN conjunct2, THEN conjunct1]
    conj [THEN conjunct2, THEN conjunct2, THEN conjunct2]
  show "[] \<notin> set (forcing_of R e)" "set (defaults_of R e) \<subseteq> set (K e)" by (rule all)+
  show "c \<in> set (forcing_of R e) \<Longrightarrow> clause_vars c \<subseteq> inputs g" by (rule clause_of_cnf_vars [OF all(2)])
  show "(cond, def, s) \<in> set (definitions_of R e) \<Longrightarrow>
       clause_vars cond \<subseteq> inputs g \<and> cnf_vars def \<subseteq> inputs g \<and> s \<in> abs ` set (assumed g) - I"
    using all(3) by fast
qed

lemma rule_fires_cong:
  assumes "rules_ok E I R K g" "e \<in> E" "same_on (inputs g) \<beta> \<alpha>"
  shows "rule_fires R e \<beta> = rule_fires R e \<alpha>"
proof -
  note D = rules_okD [OF assms(1,2)]
  have "c \<in> set (forcing_of R e) \<Longrightarrow> clause_fires \<beta> c = clause_fires \<alpha> c" for c
    by (rule clause_parts_cong(1) [OF D(2) assms(3)])
  moreover have "(cond, def, s) \<in> set (definitions_of R e) \<Longrightarrow> list_all (lit_true \<beta>) cond = list_all (lit_true \<alpha>) cond" for cond def s
    using clause_parts_cong(3) [OF conjunct1 [OF D(3)] assms(3)] by blast
  ultimately show ?thesis unfolding rule_fires_def list_ex_iff by fastforce
qed

lemma set_controls_obeys:
  assumes names: "names_ok (outputs g) I g" and ok: "assumed_ok (outputs g) I g" "positions_ok (outputs g) g"
    and rules: "rules_ok (outputs g) I R K g" and defaults: "handed_ok api dimensions (outputs g) I K g"
    and e: "e \<in> outputs g" and follows: "follows_rules api R g e \<alpha>"
  shows "obeys (engine_controls g) R e (set_controls R g \<alpha>)"
proof -
  let ?X = "engine_controls g" and ?\<beta> = "set_controls R g \<alpha>"
  note V = set_controls_values [OF names ok(1), where R = R and \<alpha> = \<alpha>]
  note D = rules_okD [OF rules e] and fires = rule_fires_cong [OF rules e V(6)]
  note same = V(6)
  have 1: "list_all (\<lambda>c. clause_fires ?\<beta> c \<longrightarrow> lit_true ?\<beta> (List.last c)) (forcing_of R e)"
    unfolding list_all_iff
  proof (intro ballI impI)
    fix c assume c: "c \<in> set (forcing_of R e)" and fire: "clause_fires ?\<beta> c"
    have "c \<noteq> []" using D(1) c by auto
    with clause_parts_cong [OF D(2) [OF c] same] fire follows c show "lit_true ?\<beta> (List.last c)"
      by (simp add: follows_rules_def list_all_iff)
  qed
  have 2: "list_all (definition_obeyed ?\<beta> (?\<beta> (none_of ?X e))) (definitions_of R e)"
    unfolding list_all_iff
  proof
    fix d assume d: "d \<in> set (definitions_of R e)"
    obtain cond def s where eq: "d = (cond, def, s)" by (cases d)
    note parts = D(3) [OF d [unfolded eq]]
    have s: "?\<beta> s \<longleftrightarrow> s \<in> set (assumed g)"
    proof -
      obtain l where l: "l \<in> set (assumed g)" "s = \<bar>l\<bar>" using parts by auto
      then obtain i where i: "i < length (assumed g)" "assumed g ! i = l" by (auto simp: in_set_conv_nth)
      have "l \<noteq> 0" using names_okD(8) [OF names] l by force
      then have "s \<in> set (assumed g) \<longleftrightarrow> 0 < l" using distinct_abs_literal [of "assumed g" l] ok(1) l
        by (simp add: assumed_ok_def)
      then show ?thesis using V(5) [OF i(1)] i(2) l(2) by simp
    qed
    have "list_all (lit_true ?\<beta>) cond = list_all (lit_true \<alpha>) cond" "cnf_sat ?\<beta> def = cnf_sat \<alpha> def"
      using clause_parts_cong(3) [OF _ same] cnf_cong_on [OF _ same] parts by blast+
    then show "definition_obeyed ?\<beta> (?\<beta> (none_of ?X e)) d"
      using follows d eq s V(1) [OF e] unfolding follows_rules_def list_all_iff definition_obeyed_def by fastforce
  qed
  have 3: "cnf_sat ?\<beta> (defaults_of R e)" if "?\<beta> (use_of ?X e)"
  proof (cases "useDefault (eng_defaults g) e")
    case True
    have ok: "container_ok api dimensions K (eng_defaults g) (eng_env g)" "deps_of (eng_defaults g) e \<subseteq> inputs g"
      using defaults by (simp_all add: handed_ok_def)
    have "same_on (deps_of (eng_defaults g) e) ?\<beta> \<alpha>" using ok(2) same by (auto simp: same_on_def)
    then have "default_value api (eng_defaults g) (eng_env g) e ?\<beta> = default_value api (eng_defaults g) (eng_env g) e \<alpha>"
      by (rule default_value_cong [OF ok(1) True])
    moreover have "e \<in> inputs g" using e by (simp add: inputs_def)
    then have "?\<beta> e = \<alpha> e" using same by (simp add: same_on_def)
    moreover have "\<alpha> e = default_value api (eng_defaults g) (eng_env g) e \<alpha>"
      using follows that V(2) [OF e] True by (simp add: follows_rules_def)
    ultimately have "cnf_sat ?\<beta> (K e)"
      using variable_certificate_spec [OF ok(1) True disjI1 [OF V(4)]] by auto
    then show ?thesis using D(4) by (auto simp: cnf_sat_iff)
  next
    case False
    then have "K e = []" using defaults by (simp add: handed_ok_def container_ok_def)
    then show ?thesis using D(4) by (simp add: cnf_sat_iff)
  qed
  have "?\<beta> (switch_of ?X e) = default_on g e"
    using V(5) [of "use_default_position g e"] ok(2) e
    by (simp add: engine_controls_def Let_def default_on_def positions_ok_def)
  then show ?thesis unfolding obeys_def using 1 2 3 V(1,2) [OF e] fires by simp
qed

text \<open>What the answer unsatisfiable means: the rules of the model imply the matrix.\<close>

lemma unsat_answer_valid:
  assumes inv: "engine_inv api dimensions M (outputs g) I R K g" and orc: "oracle_sound orc"
    and solve: "solve_validity orc arbiters g = (20, g')"
    and arbiters: "clause_vars arbiters \<subseteq> inputs g" "list_all (lit_true \<alpha>) arbiters"
    and follows: "\<And>e. e \<in> outputs g \<Longrightarrow> follows_rules api R g e \<alpha>"
  shows "cnf_sat \<alpha> M"
proof (rule ccontr)
  assume not: "\<not> cnf_sat \<alpha> M"
  let ?E = "outputs g" and ?X = "engine_controls g" and ?\<beta> = "set_controls R g \<alpha>"
  have inv_parts: "cnf_vars M \<subseteq> inputs g" "sat_assumed (validity_check_solver (eng_validity g)) = []"
    "positions_ok ?E g" "names_ok ?E I g" "assumed_ok ?E I g" "rules_ok ?E I R K g"
    "handed_ok api dimensions ?E I K g" "encodes ?E ?X R I M (rule_clauses g)"
    using inv by (simp_all add: engine_inv_def)
  note V = set_controls_values [OF inv_parts(4,5), where R = R and \<alpha> = \<alpha>]
  have "\<not> cnf_sat ?\<beta> M" using not cnf_cong_on [OF inv_parts(1) V(6)] by simp
  moreover have "obeys ?X R e ?\<beta>" if "e \<in> ?E" for e
    by (rule set_controls_obeys [OF inv_parts(4,5,3,6,7) that follows [OF that]])
  ultimately obtain \<gamma> where \<gamma>: "extends_to ?E ?X R I (rule_clauses g) ?\<beta> \<gamma>"
    using encodesD [OF inv_parts(8)] by blast
  then have off: "v \<notin> I \<Longrightarrow> \<gamma> v = ?\<beta> v" for v by (simp add: extends_to_def)
  have lits: "lit_true \<gamma> l" if "\<bar>l\<bar> \<notin> I" "lit_true ?\<beta> l" for l
    using that off [of "\<bar>l\<bar>"] lit_true_cong [of \<gamma> l ?\<beta>] by simp
  have "lit_true \<gamma> l" if l: "l \<in> set (assumed g)" for l
  proof (cases "\<bar>l\<bar> \<in> I")
    case False
    then show ?thesis using lits V(4) l by (simp add: list_all_iff)
  next
    case True
    obtain i where i: "i < length (assumed g)" "assumed g ! i = l" using l by (auto simp: in_set_conv_nth)
    then obtain e where e: "e \<in> ?E" "i = terminal_position g e" using inv_parts(5) True by (auto simp: assumed_ok_def)
    then have neg: "l < 0" "terminal_of ?X e = - l" using inv_parts(5) i by (auto simp: assumed_ok_def engine_controls_def Let_def)
    have "?\<beta> (none_of ?X e) \<or> rule_fires R e ?\<beta>"
      using V(1) [OF e(1)] rule_fires_cong [OF inv_parts(6) e(1) V(6)] by blast
    then have "\<not> \<gamma> (- l)" using \<gamma> e(1) neg(2) by (auto simp: extends_to_def terminals_false_def)
    then show ?thesis using neg(1) by (simp add: lit_true_def)
  qed
  moreover have "lit_true \<gamma> l" if "l \<in> set (selectors (eng_validity g))" for l
  proof -
    have "l \<in> {1..last_var g}" "l \<notin> I" using names_okD(5,11) [OF inv_parts(4)] that by blast+
    then show ?thesis using V(3) [OF that] off by (simp add: lit_true_def)
  qed
  moreover have "lit_true \<gamma> l" if "l \<in> set arbiters" for l
  proof -
    have "\<bar>l\<bar> \<in> inputs g" using arbiters(1) that by (auto simp: clause_vars_def)
    then have "\<bar>l\<bar> \<notin> I" "lit_true ?\<beta> l = lit_true \<alpha> l"
      using names_okD(14) [OF inv_parts(4)] V(6) by (auto intro!: lit_true_cong simp: same_on_def)
    then show ?thesis using lits arbiters(2) that by (simp add: list_all_iff)
  qed
  moreover have "cnf_sat \<gamma> (rule_clauses g)" using \<gamma> by (simp add: extends_to_def)
  ultimately have "satisfies \<gamma> (rule_clauses g) (assumed g @ arbiters @ selectors (eng_validity g))"
    by (auto simp: satisfies_def list_all_iff)
  moreover obtain n core where unsat: "orc n (rule_clauses g) (assumed g @ arbiters @ selectors (eng_validity g)) = Unsat core"
    using solve inv_parts(2)
    by (auto simp: solve_validity_def sat_solve_def validityCheckAssumptions_def answer_code_def rule_clauses_def Let_def split: answer.splits)
  have "answer_sound (rule_clauses g) (assumed g @ arbiters @ selectors (eng_validity g)) (Unsat core)"
    using orc unsat unfolding oracle_sound_def by metis
  then have "set core \<subseteq> set (assumed g @ arbiters @ selectors (eng_validity g))" "\<not> satisfies \<gamma> (rule_clauses g) core"
    by (simp_all add: answer_sound_def)
  ultimately show False unfolding satisfies_def list_all_iff by blast
qed

end
