(* ===== verification/EngineSteps.thy ===== *)
theory EngineSteps
  imports EngineInvariant
begin

text \<open>
  The operations of the Skolem container keep the invariant, each with its effect on the rules: the
  steps that only add clauses, the rules themselves, the default values, and the start.
\<close>

section \<open>Steps that leave the assumptions alone\<close>

lemma adds_access:
  assumes "adds F g g'"
  shows "engine_controls g' = engine_controls g" "terminal_position g' = terminal_position g"
    "use_default_position g' = use_default_position g" "selector_position g' = selector_position g"
    "has_slot g' = has_slot g" "inputs g' = inputs g" "outputs g' = outputs g" "assumed g' = assumed g"
    "last_var g \<le> last_var g'" "selectors (eng_validity g') = selectors (eng_validity g)"
    "selector_index (eng_validity g') = selector_index (eng_validity g)" "eng_defaults g' = eng_defaults g"
    "env_defaults (eng_env g') = env_defaults (eng_env g)" "own_positions E g' = own_positions E g"
    "rule_clauses g' = rule_clauses g @ F" "arbiters_ok g' = arbiters_ok g"
    "sat_assumed (validity_check_solver (eng_validity g')) = sat_assumed (validity_check_solver (eng_validity g))"
proof -
  have 1: "same_frame g g'" "last_var g \<le> last_var g'" "assumed g' = assumed g" "rule_clauses g' = rule_clauses g @ F"
    using assms by (simp_all add: adds_def)
  show "engine_controls g' = engine_controls g" by (rule adds_controls [OF assms])
  have "terminal_position g' e = terminal_position g e" "use_default_position g' e = use_default_position g e"
    "selector_position g' e = selector_position g e" "selector_index (eng_validity g') e = selector_index (eng_validity g) e" for e
    using 1(1) by (simp_all add: frame_defs terminal_position_def use_default_position_def selector_position_def selector_index_def)
  then show pos: "terminal_position g' = terminal_position g" "use_default_position g' = use_default_position g"
    "selector_position g' = selector_position g" "selector_index (eng_validity g') = selector_index (eng_validity g)"
    by blast+
  show "own_positions E g' = own_positions E g" by (simp add: own_positions_def pos)
  show "has_slot g' = has_slot g" using adds_slot [OF assms] by (intro ext)
  show "inputs g' = inputs g" "arbiters_ok g' = arbiters_ok g"
    using 1(1) by (simp_all add: frame_defs inputs_def arbiters_ok_def)
  show "outputs g' = outputs g" "assumed g' = assumed g" "last_var g \<le> last_var g'"
    "selectors (eng_validity g') = selectors (eng_validity g)" "eng_defaults g' = eng_defaults g"
    "env_defaults (eng_env g') = env_defaults (eng_env g)" "rule_clauses g' = rule_clauses g @ F"
    "sat_assumed (validity_check_solver (eng_validity g')) = sat_assumed (validity_check_solver (eng_validity g))"
    using 1 by (simp_all add: frame_defs)
qed

lemma container_ok_last:
  assumes "container_ok api dimensions K d e" "env_last e \<le> env_last e'" "env_assumptions e' = env_assumptions e"
    "env_defaults e' = env_defaults e"
  shows "container_ok api dimensions K d e'"
  by (rule container_ok_others [OF assms(1,2)]) (simp add: assms(3,4) others_keep_def agree_on_def)

text \<open>New variables of each kind, all beyond the counter and of different kinds.\<close>

lemma apart_names_grow:
  assumes old: "apart_names n S N U W V I" and n: "n \<le> n'"
    and new: "apart_names n' S' N' U' W' V' I'" "(S' \<union> N' \<union> U' \<union> W' \<union> V' \<union> I') \<inter> {1..n} = {}"
  shows "apart_names n' (S \<union> S') (N \<union> N') (U \<union> U') (W \<union> W') (V \<union> V') (I \<union> I')"
proof -
  have cross: "A \<inter> B = {} \<and> B \<inter> A = {}" if "A \<subseteq> {1..n}" "B \<inter> {1..n} = {}" for A B :: "int set" using that by blast
  have mono: "A \<subseteq> {1..n'}" if "A \<subseteq> {1..n}" for A using that n by fastforce
  define Z where "Z = {1..n}"
  define Z' where "Z' = {1..n'}"
  note o = old [unfolded apart_names_def, folded Z_def] and w = new [unfolded apart_names_def Int_Un_distrib2 Un_empty, folded Z_def Z'_def]
  note cross = cross [folded Z_def] and mono = mono [folded Z_def Z'_def]
  show ?thesis
    unfolding apart_names_def Int_Un_distrib Int_Un_distrib2 Un_empty Un_subset_iff Z'_def [symmetric]
    by (intro conjI) (use o w cross mono in simp_all)
qed

lemma apart_names_mono: "apart_names n S N U W V I \<Longrightarrow> n \<le> n' \<Longrightarrow> apart_names n' S N U W V I"
  using apart_names_grow [of n S N U W V I n' "{}" "{}" "{}" "{}" "{}" "{}"] by (simp add: apart_names_def)

lemma apart_names_subset:
  assumes "W' \<subseteq> W" "apart_names n S N U W V I"
  shows "apart_names n S N U W' V I"
proof -
  have "A \<inter> W' = {}" if "A \<inter> W = {}" for A using that assms(1) by blast
  moreover have "W' \<inter> A = {}" if "W \<inter> A = {}" for A using that assms(1) by blast
  moreover have "W' \<subseteq> A" if "W \<subseteq> A" for A using that assms(1) by blast
  ultimately show ?thesis using assms(2) unfolding apart_names_def by simp
qed

lemma outside_vars: "clause_vars c \<subseteq> {1..n} - I \<Longrightarrow> outside n I c"
  by (auto simp: outside_def list_all_iff clause_vars_def)

lemma inv_adds:
  assumes inv: "engine_inv api dimensions M E I R K g" and adds: "adds F g g'"
    and rules: "rules_ok E I R' K g" and enc: "encodes E (engine_controls g) R' I M (rule_clauses g @ F)"
    and F: "cnf_vars F \<subseteq> {..last_var g'}"
  shows "engine_inv api dimensions M E I R' K g'"
proof -
  note acc = adds_access [OF adds]
  have "container_ok api dimensions K (eng_defaults g) (eng_env g)" using inv by (simp add: engine_inv_def handed_ok_def)
  then have "container_ok api dimensions K (eng_defaults g) (eng_env g')"
    by (rule container_ok_last) (simp_all add: acc)
  then have "handed_ok api dimensions E I K g'" using inv by (simp add: engine_inv_def handed_ok_def acc)
  moreover have "names_ok E I g'" using inv acc(9) by (auto simp: engine_inv_def names_ok_def acc intro: apart_names_mono)
  moreover have "cnf_vars (rule_clauses g') \<subseteq> {..last_var g'}" 
  proof -
    have "cnf_vars (rule_clauses g) \<subseteq> {..last_var g}" using inv by (simp add: engine_inv_def)
    then have "cnf_vars (rule_clauses g) \<subseteq> {..last_var g'}" using acc(9) by fastforce
    then show ?thesis using F by (simp add: acc)
  qed
  moreover have "positions_ok E g'" "assumed_ok E I g'" "rules_ok E I R' K g'"
    using inv rules by (simp_all add: engine_inv_def positions_ok_def assumed_ok_def rules_ok_def acc)
  ultimately show ?thesis using inv enc by (simp add: engine_inv_def acc)
qed

lemma inv_quiet: "engine_inv api dimensions M E I R K g \<Longrightarrow> adds [] g g' \<Longrightarrow> engine_inv api dimensions M E I R K g'"
  using inv_adds [of api dimensions M E I R K g "[]" g' R] unfolding engine_inv_def by simp

section \<open>Default clauses\<close>

definition with_defaults :: "int \<Rightarrow> clause list \<Rightarrow> rule_book \<Rightarrow> rule_book" where
  "with_defaults e cs R = R\<lparr>defaults_of := (defaults_of R)(e := defaults_of R e @ cs)\<rparr>"

lemma cnf_vars_guarded: "cnf_vars (guarded s F) \<subseteq> insert \<bar>s\<bar> (cnf_vars F)"
  by (auto simp: guarded_def cnf_vars_def)

lemma use_of_engine: "apply_default (eng_skolem g) e = Some u \<Longrightarrow> use_of (engine_controls g) e = u"
  by (simp add: engine_controls_def Let_def)

lemma inv_default_clause:
  assumes inv: "engine_inv api dimensions M E I R K g" and e: "e \<in> E" and c: "c \<in> set (K e)"
    and use: "apply_default (eng_skolem g) e = Some u" and add: "sk_addDefaultClause e c u g = Some g'"
  shows "engine_inv api dimensions M E I (with_defaults e [c] R) K g'" "apply_default (eng_skolem g') = apply_default (eng_skolem g)"
proof -
  let ?X = "engine_controls g"
  note adds = sk_addDefaultClause_adds(1) [OF add]
  have parts: "E \<subseteq> outputs g" "positions_ok E g" "names_ok E I g" "assumed_ok E I g" "rules_ok E I R K g"
    "handed_ok api dimensions E I K g" "encodes E ?X R I M (rule_clauses g)"
    using inv by (simp_all add: engine_inv_def)
  note ok = inv_controls_ok [OF parts(1-4)] and D = names_okD [OF parts(3)]
  have "cnf_vars (K e) \<subseteq> inputs g \<union> (abs ` set (assumed g) - I)" using parts(6) by (simp add: handed_ok_def)
  then have "clause_vars c \<subseteq> {1..last_var g} - I" using clause_of_cnf_vars [OF _ c] D(8,9,14) by blast
  then have vars: "outside (last_var g) I c" "clause_vars c \<subseteq> {..last_var g}" by (auto intro: outside_vars)
  note enc = encodes_default [OF parts(7) ok e vars(1), folded with_defaults_def, unfolded use_of_engine [OF use]]
  show "engine_inv api dimensions M E I (with_defaults e [c] R) K g'"
  proof (rule inv_adds [OF inv adds _ enc])
    show "rules_ok E I (with_defaults e [c] R) K g" using parts(5) c e
      by (auto simp: rules_ok_def with_defaults_def)
    show "cnf_vars (guarded (selector_of ?X e) [c @ [- u]]) \<subseteq> {..last_var g'}"
      using controls_okD(2,3,8,9) [OF ok e] vars(2) adds_access(9) [OF adds] use_of_engine [OF use] by auto
  qed
  show "apply_default (eng_skolem g') = apply_default (eng_skolem g)" using adds_frame [OF adds] by (simp add: frame_defs)
qed

lemma with_defaults_twice: "with_defaults e cs (with_defaults e ds R) = with_defaults e (ds @ cs) R"
  by (simp add: with_defaults_def)

lemma inv_add_default_clauses:
  "add_default_clauses e cs u g = Some g' \<Longrightarrow> engine_inv api dimensions M E I R K g \<Longrightarrow> e \<in> E \<Longrightarrow> set cs \<subseteq> set (K e) \<Longrightarrow>
    apply_default (eng_skolem g) e = Some u \<Longrightarrow>
    engine_inv api dimensions M E I (with_defaults e cs R) K g' \<and> outputs g' = outputs g \<and>
    apply_default (eng_skolem g') = apply_default (eng_skolem g)"
proof (induction e cs u g arbitrary: R rule: add_default_clauses.induct)
  case (2 e c cs u g)
  then obtain g1 where g1: "sk_addDefaultClause e c u g = Some g1" "add_default_clauses e cs u g1 = Some g'"
    by (auto split: bind_splits)
  note 1 = inv_default_clause [OF 2(3,4) _ 2(6) g1(1)]
  have "engine_inv api dimensions M E I (with_defaults e [c] R) K g1" "apply_default (eng_skolem g1) = apply_default (eng_skolem g)"
    using 1 2(5) by simp_all
  then show ?case using 2(1) [OF g1 _ 2(4), of "with_defaults e [c] R"] 2(5,6)
    by (simp add: with_defaults_twice adds_access(7) [OF sk_addDefaultClause_adds(1) [OF g1(1)]])
qed (simp add: with_defaults_def)

lemma inv_addDefaultClauses:
  assumes "addDefaultClauses e cs g = Some g'" "engine_inv api dimensions M E I R K g" "e \<in> E" "set cs \<subseteq> set (K e)"
  shows "engine_inv api dimensions M E I (with_defaults e cs R) K g' \<and> outputs g' = outputs g"
  using assms inv_add_default_clauses [of e cs _ g g' api dimensions M E I R K]
  by (auto simp: addDefaultClauses_def split: bind_splits)

section \<open>Rules\<close>

text \<open>
  A rule replaces the terminal of its variable, may append assumptions and may change entries the
  container owns; \<open>J\<close> holds the new internal variables.
\<close>

definition moves ::
  "int set \<Rightarrow> int \<Rightarrow> int \<Rightarrow> int list \<Rightarrow> int list \<Rightarrow> int set \<Rightarrow> 'h engine \<Rightarrow> 'h engine \<Rightarrow> bool" where
  "moves E v t A news J g g' \<longleftrightarrow>
     same_base g g' \<and> selectors (eng_validity g') = selectors (eng_validity g) \<and> last_var g \<le> last_var g' \<and>
     assumed g' = (A @ news)[terminal_position g v := - t] \<and> map abs A = map abs (assumed g) \<and>
     (\<forall>i<length (assumed g). A ! i \<noteq> assumed g ! i \<longrightarrow> i \<in> own_positions E g - terminal_position g ` E) \<and>
     distinct (map abs news) \<and> abs ` set news \<subseteq> {last_var g<..last_var g'} - J \<and> J \<subseteq> {last_var g<..last_var g'} \<and>
     t \<in> J \<and> (\<forall>e\<in>E. selector_position g' e = selector_position g e \<or> news \<noteq> [] \<and> selector_position g' e = int (length (assumed g)))"

lemma base_access:
  assumes "same_base g g'"
  shows "none_of (engine_controls g') = none_of (engine_controls g)" "use_of (engine_controls g') = use_of (engine_controls g)"
    "terminal_position g' = terminal_position g" "use_default_position g' = use_default_position g"
    "selector_index (eng_validity g') = selector_index (eng_validity g)" "inputs g' = inputs g" "outputs g' = outputs g"
    "eng_defaults g' = eng_defaults g" "arbiters_ok g' = arbiters_ok g"
    "sat_assumed (validity_check_solver (eng_validity g')) = sat_assumed (validity_check_solver (eng_validity g))"
    "env_defaults (eng_env g') = env_defaults (eng_env g)"
    "length (assumed g) \<le> length (assumed g') \<Longrightarrow> has_slot g e \<Longrightarrow> has_slot g' e"
proof -
  show "none_of (engine_controls g') = none_of (engine_controls g)" "use_of (engine_controls g') = use_of (engine_controls g)"
    "terminal_position g' = terminal_position g" "use_default_position g' = use_default_position g"
    "selector_index (eng_validity g') = selector_index (eng_validity g)"
    by (rule base_controls [OF assms])+
  show "inputs g' = inputs g" "outputs g' = outputs g" "eng_defaults g' = eng_defaults g" "arbiters_ok g' = arbiters_ok g"
    "sat_assumed (validity_check_solver (eng_validity g')) = sat_assumed (validity_check_solver (eng_validity g))"
    "env_defaults (eng_env g') = env_defaults (eng_env g)"
    using assms by (simp_all add: same_base_def inputs_def arbiters_ok_def)
  show "length (assumed g) \<le> length (assumed g') \<Longrightarrow> has_slot g e \<Longrightarrow> has_slot g' e"
    using assms by (auto simp: same_base_def has_slot_def split: option.splits)
qed

lemma moves_fields:
  assumes moves: "moves E v t A news J g g'" and pos: "positions_ok E g" and v: "v \<in> E"
  shows "length (assumed g') = length (assumed g) + length news" "assumed g' ! terminal_position g v = - t"
    "i < length (assumed g) \<Longrightarrow> i \<noteq> terminal_position g v \<Longrightarrow> assumed g' ! i = A ! i"
    "i < length (assumed g) \<Longrightarrow> i \<noteq> terminal_position g v \<Longrightarrow> \<bar>assumed g' ! i\<bar> = \<bar>assumed g ! i\<bar>"
    "length (assumed g) \<le> i \<Longrightarrow> i < length (assumed g') \<Longrightarrow> assumed g' ! i = news ! (i - length (assumed g))"
    "length A = length (assumed g)" "terminal_position g v < length (assumed g)"
proof -
  have A: "map abs A = map abs (assumed g)" and eq: "assumed g' = (A @ news)[terminal_position g v := - t]"
    using moves by (simp_all add: moves_def)
  show len: "length A = length (assumed g)" using A map_eq_imp_length_eq by blast
  show tp: "terminal_position g v < length (assumed g)" using pos v terminal_in_range by (auto simp: positions_ok_def)
  show "length (assumed g') = length (assumed g) + length news" using eq len by simp
  show "assumed g' ! terminal_position g v = - t" using eq len tp by simp
  show A_i: "i < length (assumed g) \<Longrightarrow> i \<noteq> terminal_position g v \<Longrightarrow> assumed g' ! i = A ! i"
    using eq len by (simp add: nth_append)
  show "i < length (assumed g) \<Longrightarrow> i \<noteq> terminal_position g v \<Longrightarrow> \<bar>assumed g' ! i\<bar> = \<bar>assumed g ! i\<bar>"
    using A_i len arg_cong [OF A, of "\<lambda>xs. xs ! i"] by simp
  show "length (assumed g) \<le> i \<Longrightarrow> i < length (assumed g') \<Longrightarrow> assumed g' ! i = news ! (i - length (assumed g))"
    using eq len tp by (simp add: nth_append)
qed

lemma moves_positions:
  assumes moves: "moves E v t A news J g g'" and pos: "positions_ok E g" and v: "v \<in> E"
  shows "positions_ok E g'"
proof -
  note F = moves_fields [OF assms]
  have base: "same_base g g'" and sp: "\<And>e. e \<in> E \<Longrightarrow> selector_position g' e = selector_position g e \<or>
      news \<noteq> [] \<and> selector_position g' e = int (length (assumed g))"
    using moves by (simp_all add: moves_def)
  note B = base_access [OF base]
  have "0 \<le> selector_position g' e \<and> nat (selector_position g' e) < length (assumed g') \<and>
      nat (selector_position g' e) \<notin> terminal_position g ` E" if "e \<in> E" "selector_position g' e \<noteq> - 1" for e
    using sp [OF that(1)]
  proof
    assume "selector_position g' e = selector_position g e"
    then show ?thesis using that pos F(1) by (fastforce simp: positions_ok_def)
  next
    assume new: "news \<noteq> [] \<and> selector_position g' e = int (length (assumed g))"
    have "terminal_position g ` E \<subseteq> {..<length (assumed g)}" using pos terminal_in_range by (auto simp: positions_ok_def)
    then show ?thesis using new F(1) by auto
  qed
  then show ?thesis using pos F(1) B(12) by (auto simp: positions_ok_def B(3,4))
qed

lemma moves_assumed:
  assumes moves: "moves E v t A news J g g'" and pos: "positions_ok E g" and v: "v \<in> E"
    and ok: "assumed_ok E I g" and W: "abs ` set (assumed g) \<subseteq> {1..last_var g}" and I: "I \<subseteq> {1..last_var g}"
  shows "assumed_ok E (I \<union> J) g'"
proof -
  note F = moves_fields [OF assms(1-3)]
  have M: "same_base g g'" "assumed g' = (A @ news)[terminal_position g v := - t]" "map abs A = map abs (assumed g)"
    "distinct (map abs news)" "abs ` set news \<subseteq> {last_var g<..last_var g'} - J" "J \<subseteq> {last_var g<..last_var g'}" "t \<in> J"
    "\<And>i. i < length (assumed g) \<Longrightarrow> i \<in> terminal_position g ` E \<Longrightarrow> A ! i = assumed g ! i"
    using moves by (auto simp: moves_def)
  note B = base_access [OF M(1)]
  have n: "0 < last_var g" using W F(7) nth_mem by (metis atLeastAtMost_iff image_subset_iff length_pos_if_in_set list.size(3) not_less_zero order_less_le_trans zero_less_one)
  have t: "last_var g < t" using M(6,7) by auto
  have "map abs (assumed g') = (map abs (assumed g) @ map abs news)[terminal_position g v := t]"
    using t n by (simp add: M(2) map_update flip: M(3))
  moreover have "distinct (map abs (assumed g) @ map abs news)"
    using ok M(4,5) W by (fastforce simp: assumed_ok_def)
  moreover have "t \<notin> set (map abs (assumed g) @ map abs news)"
    using W M(5,7) t by auto
  ultimately have "distinct (map abs (assumed g'))" by (simp add: distinct_list_update)
  moreover have "\<bar>assumed g' ! i\<bar> \<in> I \<union> J \<longleftrightarrow> i \<in> terminal_position g ` E" if i: "i < length (assumed g')" for i
  proof (cases "i < length (assumed g)")
    case True
    show ?thesis
    proof (cases "i = terminal_position g v")
      case True
      then show ?thesis using F(2) M(7) v t n by simp
    next
      case False
      have "\<bar>assumed g ! i\<bar> \<le> last_var g" using W nth_mem [OF True] by force
      then have "\<bar>assumed g ! i\<bar> \<notin> J" using M(6) by force
      then show ?thesis using F(4) [OF True False] ok True by (simp add: assumed_ok_def)
    qed
  next
    case False
    then have "assumed g' ! i \<in> set news" using F(1,5) i by simp
    then have "\<bar>assumed g' ! i\<bar> \<in> {last_var g<..last_var g'} - J" using M(5) by blast
    then have "\<bar>assumed g' ! i\<bar> \<notin> I \<union> J" using I by auto
    moreover have "terminal_position g ` E \<subseteq> {..<length (assumed g)}" using pos terminal_in_range by (auto simp: positions_ok_def)
    ultimately show ?thesis using False by auto
  qed
  moreover have "assumed g' ! terminal_position g e < 0" if e: "e \<in> E" for e
  proof (cases "terminal_position g e = terminal_position g v")
    case False
    have "terminal_position g e < length (assumed g)" using pos e terminal_in_range by (auto simp: positions_ok_def)
    then show ?thesis using F(3) False M(8) e ok by (simp add: assumed_ok_def)
  qed (use F(2) t n in simp)
  ultimately show ?thesis by (simp add: assumed_ok_def B(3))
qed

lemma moves_names:
  assumes moves: "moves E v t A news J g g'" and pos: "positions_ok E g" and v: "v \<in> E"
    and names: "names_ok E I g" and n: "0 \<le> last_var g"
  shows "names_ok E (I \<union> J) g'" "abs ` set (assumed g) - I \<subseteq> abs ` set (assumed g') - (I \<union> J) \<union> {\<bar>assumed g ! terminal_position g v\<bar>}"
proof -
  note F = moves_fields [OF assms(1-3)] and D = names_okD [OF names]
  have M: "same_base g g'" "selectors (eng_validity g') = selectors (eng_validity g)" "last_var g \<le> last_var g'"
    "abs ` set news \<subseteq> {last_var g<..last_var g'} - J" "J \<subseteq> {last_var g<..last_var g'}" "t \<in> J"
    using moves by (simp_all add: moves_def)
  note B = base_access [OF M(1)]
  have "apart_names (last_var g') {} {} {} (insert t (abs ` set news)) {} J"
    "({} \<union> {} \<union> {} \<union> (insert t (abs ` set news)) \<union> {} \<union> J) \<inter> {1..last_var g} = {}"
    using M(4-6) n by (fastforce simp: apart_names_def)+
  from apart_names_grow [OF _ M(3) this] names have
    "apart_names (last_var g') (set (selectors (eng_validity g))) (none_of (engine_controls g) ` E)
       (use_of (engine_controls g) ` E) (abs ` set (assumed g) \<union> insert t (abs ` set news)) (inputs g) (I \<union> J)"
    by (simp add: names_ok_def)
  moreover have W: "\<bar>assumed g' ! i\<bar> \<in> abs ` set (assumed g) \<union> insert t (abs ` set news)" if i: "i < length (assumed g')" for i
  proof (cases "i < length (assumed g)")
    case True
    have "t = \<bar>- t\<bar>" using M(5,6) n by auto
    then show ?thesis using True F(2,4) by (cases "i = terminal_position g v") auto
  next
    case False
    then show ?thesis using F(1,5) i by simp
  qed
  then have "abs ` set (assumed g') \<subseteq> abs ` set (assumed g) \<union> insert t (abs ` set news)"
    by (auto simp: set_conv_nth simp del: Un_insert_right)
  from this calculation have "apart_names (last_var g') (set (selectors (eng_validity g))) (none_of (engine_controls g) ` E)
       (use_of (engine_controls g) ` E) (abs ` set (assumed g')) (inputs g) (I \<union> J)"
    by (rule apart_names_subset)
  then show "names_ok E (I \<union> J) g'" using D(1-4) by (simp add: names_ok_def B M(2))
  show "abs ` set (assumed g) - I \<subseteq> abs ` set (assumed g') - (I \<union> J) \<union> {\<bar>assumed g ! terminal_position g v\<bar>}"
  proof
    fix x assume x: "x \<in> abs ` set (assumed g) - I"
    then obtain i where i: "i < length (assumed g)" "x = \<bar>assumed g ! i\<bar>" by (auto simp: in_set_conv_nth)
    have "x \<le> last_var g" using x D(8) by auto
    then have "x \<notin> J" using M(5) by force
    moreover have "x \<in> abs ` set (assumed g')" if "i \<noteq> terminal_position g v"
      using F(1) F(4) [OF i(1) that] i by (auto intro!: image_eqI [of _ _ "assumed g' ! i"])
    ultimately show "x \<in> abs ` set (assumed g') - (I \<union> J) \<union> {\<bar>assumed g ! terminal_position g v\<bar>}"
      using x i(2) by (cases "i = terminal_position g v") auto
  qed
qed

lemma moves_defaults:
  assumes moves: "moves E v t A news J g g'" and pos: "positions_ok E g" and v: "v \<in> E"
    and names: "names_ok E I g" and ok: "assumed_ok E I g" and defaults: "handed_ok api dimensions E I K g"
  shows "handed_ok api dimensions E (I \<union> J) K g'" "abs ` set (assumed g) - I \<subseteq> abs ` set (assumed g') - (I \<union> J)"
proof -
  note F = moves_fields [OF assms(1-3)]
  have M: "same_base g g'" "last_var g \<le> last_var g'" "abs ` set news \<subseteq> {last_var g<..last_var g'} - J"
    "J \<subseteq> {last_var g<..last_var g'}" "t \<in> J"
    "\<And>i. i < length (assumed g) \<Longrightarrow> i \<notin> own_positions E g \<Longrightarrow> A ! i = assumed g ! i"
    "\<And>e. e \<in> E \<Longrightarrow> selector_position g' e = selector_position g e \<or> selector_position g' e = int (length (assumed g))"
    using moves unfolding moves_def by blast+
  note B = base_access [OF M(1)]
  have D: "container_ok api dimensions K (eng_defaults g) (eng_env g)"
    "\<And>u. deps_of (eng_defaults g) u \<subseteq> inputs g" "\<And>u. cnf_vars (K u) \<subseteq> inputs g \<union> (abs ` set (assumed g) - I)"
    "\<And>u. useDefault (eng_defaults g) u \<Longrightarrow> u \<in> outputs g"
    "\<And>u i. i \<in> own_positions E g \<Longrightarrow> i < length (assumed g) \<Longrightarrow> \<bar>assumed g ! i\<bar> \<notin> selectors_of (K u)"
    using defaults by (simp_all add: handed_ok_def)
  have n: "0 \<le> last_var g" and S: "selectors_of (K u) \<subseteq> {1..last_var g}" for u using D(1) by (simp_all add: container_ok_def)
  have keep: "others_keep (selectors_of (K u)) (assumed g) (assumed g')" for u
  proof -
    have "assumed g' ! i = assumed g ! i" if i: "i < length (assumed g)" "\<bar>assumed g ! i\<bar> \<in> selectors_of (K u)" for i
    proof -
      have "i \<notin> own_positions E g" using D(5) i by blast
      moreover from this have "i \<noteq> terminal_position g v" using v by (auto simp: own_positions_def)
      ultimately show ?thesis using F(3) M(6) i(1) by simp
    qed
    then show ?thesis using F(1) by (simp add: others_keep_def agree_on_def)
  qed
  have "container_ok api dimensions K (eng_defaults g) (eng_env g')"
    by (rule container_ok_others [OF D(1) M(2)], rule conjI [OF keep]) (simp add: B(11) others_keep_def agree_on_def)
  moreover have W: "abs ` set (assumed g) - I \<subseteq> abs ` set (assumed g') - (I \<union> J)"
  proof -
    have t: "\<bar>assumed g ! terminal_position g v\<bar> \<in> I" using ok F(7) v by (simp add: assumed_ok_def)
    show ?thesis
    proof
      fix x assume x: "x \<in> abs ` set (assumed g) - I"
      with t have "x \<noteq> \<bar>assumed g ! terminal_position g v\<bar>" by blast
      with subsetD [OF moves_names(2) [OF moves pos v names n] x] show "x \<in> abs ` set (assumed g') - (I \<union> J)" by simp
    qed
  qed
  moreover have "\<bar>assumed g' ! i\<bar> \<notin> selectors_of (K u)" if i: "i \<in> own_positions E g'" "i < length (assumed g')" for i u
  proof (cases "i < length (assumed g) \<and> i \<noteq> terminal_position g v")
    case True
    have "i \<in> own_positions E g"
      using i(1) M(7) True unfolding own_positions_def B(3,4) by fastforce
    then show ?thesis using True F(4) D(5) by simp
  next
    case False
    have "assumed g' ! i = - t \<or> assumed g' ! i \<in> set news" using False F(1,2,5) i(2) by (cases "i = terminal_position g v") auto
    then have "\<bar>assumed g' ! i\<bar> \<in> {last_var g<..last_var g'}" using M(3-5) n by auto
    then show ?thesis using S [of u] by auto
  qed
  moreover have "cnf_vars (K u) \<subseteq> inputs g \<union> (abs ` set (assumed g') - (I \<union> J))" for u using D(3) [of u] W by blast
  ultimately show "handed_ok api dimensions E (I \<union> J) K g'" using D(2,4) by (simp add: handed_ok_def B(6-8))
  show "abs ` set (assumed g) - I \<subseteq> abs ` set (assumed g') - (I \<union> J)" by (rule W)
qed

text \<open>The encoding only reads the controls of the encoded variables.\<close>

lemma encodes_same_controls:
  assumes "encodes E X R I M F"
    and "\<And>e. e \<in> E \<Longrightarrow> selector_of X' e = selector_of X e \<and> none_of X' e = none_of X e \<and> use_of X' e = use_of X e \<and>
      switch_of X' e = switch_of X e \<and> terminal_of X' e = terminal_of X e"
  shows "encodes E X' R I M F"
  using assms unfolding encodes_def extends_to_def terminals_false_def obeys_def by simp

lemma moves_inv:
  assumes inv: "engine_inv api dimensions M E I R K g" and v: "v \<in> E" and moves: "moves E v t A news J g g'"
    and rules: "rules_ok E (I \<union> J) R' K g'" and F: "cnf_vars (rule_clauses g') \<subseteq> {..last_var g'}"
    and enc: "encodes E ((engine_controls g)\<lparr>terminal_of := (terminal_of (engine_controls g))(v := t)\<rparr>) R' (I \<union> J) M (rule_clauses g')"
  shows "engine_inv api dimensions M E (I \<union> J) R' K g'"
proof -
  have parts: "E \<subseteq> outputs g" "positions_ok E g" "names_ok E I g" "assumed_ok E I g"
    "handed_ok api dimensions E I K g" "cnf_vars M \<subseteq> inputs g" "arbiters_ok g"
    "sat_assumed (validity_check_solver (eng_validity g)) = []"
    using inv by (simp_all add: engine_inv_def)
  note D = names_okD [OF parts(3)]
  have n: "0 \<le> last_var g" using parts(5) by (simp add: handed_ok_def container_ok_def)
  have base: "same_base g g'" "selectors (eng_validity g') = selectors (eng_validity g)" "t \<in> J" "J \<subseteq> {last_var g<..last_var g'}"
    and tp: "\<And>i. i < length (assumed g) \<Longrightarrow> i \<in> terminal_position g ` E \<Longrightarrow> A ! i = assumed g ! i"
    using moves by (auto simp: moves_def)
  note B = base_access [OF base(1)] and fields = moves_fields [OF moves parts(2) v]
  have "encodes E (engine_controls g') R' (I \<union> J) M (rule_clauses g')"
  proof (rule encodes_same_controls [OF enc], goal_cases)
    case (1 e)
    have at: "terminal_position g e < length (assumed g)" "use_default_position g e < length (assumed g)"
      "use_default_position g e \<noteq> terminal_position g v" "terminal_position g e = terminal_position g v \<longleftrightarrow> e = v"
      using parts(2) terminal_in_range 1 v by (auto simp: positions_ok_def inj_on_def)
    have "selector_of (engine_controls g') e = selector_of (engine_controls g) e"
      by (simp add: engine_controls_def Let_def B(5) base(2))
    moreover have "switch_of (engine_controls g') e = switch_of (engine_controls g) e"
      using fields(4) [OF at(2,3)] by (simp add: engine_controls_def Let_def B(4))
    moreover have "terminal_of (engine_controls g') e = ((terminal_of (engine_controls g))(v := t)) e"
    proof (cases "e = v")
      case True
      then show ?thesis using fields(2) by (simp add: engine_controls_def Let_def B(3))
    next
      case False
      then show ?thesis using fields(3) [OF at(1)] at tp [OF at(1)] 1 by (simp add: engine_controls_def Let_def B(3))
    qed
    ultimately show ?case by (simp add: B(1,2))
  qed
  moreover have "positions_ok E g'" by (rule moves_positions [OF moves parts(2) v])
  moreover have "assumed_ok E (I \<union> J) g'" by (rule moves_assumed [OF moves parts(2) v parts(4) D(8,10)])
  moreover have "names_ok E (I \<union> J) g'" by (rule moves_names(1) [OF moves parts(2) v parts(3) n])
  moreover have "handed_ok api dimensions E (I \<union> J) K g'" by (rule moves_defaults(1) [OF moves parts(2) v parts(3-5)])
  ultimately show ?thesis using parts rules F by (simp add: engine_inv_def B)
qed

section \<open>Forcing clauses and definitions\<close>

definition with_forcing :: "int \<Rightarrow> clause \<Rightarrow> rule_book \<Rightarrow> rule_book" where
  "with_forcing e c R = R\<lparr>forcing_of := (forcing_of R)(e := forcing_of R e @ [c])\<rparr>"

definition with_definition :: "int \<Rightarrow> int list \<times> cnf \<times> int \<Rightarrow> rule_book \<Rightarrow> rule_book" where
  "with_definition e d R = R\<lparr>definitions_of := (definitions_of R)(e := definitions_of R e @ [d])\<rparr>"

lemma cnf_vars_set: "set F = set G \<Longrightarrow> cnf_vars F = cnf_vars G"
  by (simp add: cnf_vars_def)

lemma forcing_encoding_vars:
  "cnf_vars (forcing_encoding p l a none tm t) \<subseteq> clause_vars p \<union> {\<bar>l\<bar>, \<bar>a\<bar>, \<bar>none\<bar>, \<bar>tm\<bar>, \<bar>t\<bar>}"
  by (auto simp: forcing_encoding_def cnf_vars_def clause_vars_def)

lemma definition_encoding_vars:
  "cnf_vars (definition_encoding p d a s nd ns none tm t) \<subseteq>
     clause_vars p \<union> cnf_vars d \<union> {\<bar>a\<bar>, \<bar>s\<bar>, \<bar>nd\<bar>, \<bar>ns\<bar>, \<bar>none\<bar>, \<bar>tm\<bar>, \<bar>t\<bar>}"
  by (auto simp: definition_encoding_def guarded_def cnf_vars_def clause_vars_def)

text \<open>Rules stay rules when assumptions are added; the new one has to be checked.\<close>

lemma rules_ok_grow:
  assumes "rules_ok E I R K g" "inputs g \<subseteq> inputs g'" "abs ` set (assumed g) - I \<subseteq> abs ` set (assumed g') - I'"
    "\<And>e. set (K e) \<subseteq> set (K' e)"
  shows "rules_ok E I' R K' g'"
  unfolding rules_ok_def
proof (intro ballI conjI)
  fix e assume e: "e \<in> E"
  note D = rules_okD [OF assms(1) e]
  show "[] \<notin> set (forcing_of R e)" by (rule D(1))
  show "cnf_vars (forcing_of R e) \<subseteq> inputs g'" using D(2) assms(2) by (auto simp: cnf_vars_def)
  show "set (defaults_of R e) \<subseteq> set (K' e)" using D(4) assms(4) by blast
  fix d assume d: "d \<in> set (definitions_of R e)"
  obtain c f s where eq: "d = (c, f, s)" by (cases d)
  show "case d of (condition, def, s) \<Rightarrow>
      clause_vars condition \<subseteq> inputs g' \<and> cnf_vars def \<subseteq> inputs g' \<and> s \<in> abs ` set (assumed g') - I'"
    using D(3) [OF d [unfolded eq]] assms(2,3) unfolding eq by blast
qed

lemma outside_inputs:
  assumes "names_ok E I g" "clause_vars c \<subseteq> inputs g"
  shows "outside (last_var g) I c" "clause_vars c \<subseteq> {..last_var g}"
  using names_okD(9,14) [OF assms(1)] assms(2) by (auto intro!: outside_vars)

lemma inv_forcing:
  assumes inv: "engine_inv api dimensions M E I R K g" and add: "adds_forcing_clause c g g'"
    and e: "var (List.last c) \<in> E" and c: "clause_vars c \<subseteq> inputs g"
  shows "\<exists>I'. engine_inv api dimensions M E I' (with_forcing (var (List.last c)) c R) K g'"
proof -
  let ?v = "var (List.last c)" and ?X = "engine_controls g"
  obtain a t F where ne: "c \<noteq> []" and fresh: "last_var g < a" "a < t" "last_var g' = t" and rule: "adds_rule ?v t F g g'"
    and F: "set F = set (guarded (selector_of ?X ?v)
        (forcing_encoding (butlast c) (List.last c) a (none_of ?X ?v) (terminal_of ?X ?v) t))"
    using add unfolding adds_forcing_clause_def Let_def by blast
  have parts: "E \<subseteq> outputs g" "positions_ok E g" "names_ok E I g" "assumed_ok E I g" "rules_ok E I R K g"
    "encodes E ?X R I M (rule_clauses g)" "cnf_vars (rule_clauses g) \<subseteq> {..last_var g}" "handed_ok api dimensions E I K g"
    using inv by (simp_all add: engine_inv_def)
  have A: "same_frame g g'" "assumed g' = set_terminal ?v t g" "rule_clauses g' = rule_clauses g @ F"
    using rule by (simp_all add: adds_rule_def)
  have moves: "moves E ?v t (assumed g) [] {a, t} g g'"
    using A fresh by (simp add: moves_def same_frame_def same_positions_def set_terminal_def selector_position_def)
  note ok = inv_controls_ok [OF parts(1-4)]
  note vars = outside_inputs [OF parts(3) c] and D = controls_okD [OF ok]
  let ?enc = "guarded (selector_of ?X ?v)
        (forcing_encoding (butlast c) (List.last c) a (none_of ?X ?v) (terminal_of ?X ?v) t)"
  have enc: "encodes E (?X\<lparr>terminal_of := (terminal_of ?X)(?v := t)\<rparr>) (with_forcing ?v c R) (I \<union> {a, t}) M (rule_clauses g')"
    unfolding with_forcing_def
    by (rule encodes_set [OF encodes_forcing [OF parts(6) ok e parts(7) vars(1) ne fresh(1) order.strict_trans [OF fresh(1,2)]]])
      (use fresh F A(3) in auto)
  have "clause_vars (butlast c) \<union> {\<bar>List.last c\<bar>} \<subseteq> {..last_var g}"
    using vars(2) last_in_set [OF ne] by (auto simp: clause_vars_def dest: in_set_butlastD)
  then have "clause_vars (butlast c) \<union> {\<bar>List.last c\<bar>, \<bar>a\<bar>, \<bar>none_of ?X ?v\<bar>, \<bar>terminal_of ?X ?v\<bar>, \<bar>t\<bar>} \<subseteq> {..t}"
    using D(5,6,14,15) [OF e] fresh by auto
  from subset_trans [OF forcing_encoding_vars this] have "cnf_vars ?enc \<subseteq> {..t}"
    using cnf_vars_guarded [of "selector_of ?X ?v"] D(2,3) [OF e] fresh by fastforce
  then have F_vars: "cnf_vars (rule_clauses g') \<subseteq> {..last_var g'}"
    using parts(7) fresh cnf_vars_set [OF F] by (auto simp: A(3))
  have same: "inputs g' = inputs g" using A(1) by (intro base_access(6)) (simp add: same_frame_def)
  have "rules_ok E (I \<union> {a, t}) R K g'"
    by (rule rules_ok_grow [OF parts(5) _ moves_defaults(2) [OF moves parts(2) e parts(3,4,8)]]) (simp_all add: same)
  then have "rules_ok E (I \<union> {a, t}) (with_forcing ?v c R) K g'"
    using c ne by (auto simp: rules_ok_def with_forcing_def same)
  from moves_inv [OF inv e moves this F_vars enc] show ?thesis by blast
qed

lemma retire_name:
  assumes "apart_names n S N U W V I" "s \<in> S"
  shows "apart_names n (S - {s}) N U W V (insert s I)"
proof -
  have S: "S \<subseteq> {1..n}" "I \<subseteq> {1..n}" "S \<inter> I = {}" "S \<inter> N = {}" "S \<inter> U = {}" "S \<inter> W = {}" "S \<inter> V = {}"
    "N \<inter> I = {}" "U \<inter> I = {}" "V \<inter> I = {}"
    using assms(1) by (simp_all add: apart_names_def)
  have "S - {s} \<subseteq> {1..n}" "insert s I \<subseteq> {1..n}" "(S - {s}) \<inter> insert s I = {}" "(S - {s}) \<inter> N = {}"
    "(S - {s}) \<inter> U = {}" "(S - {s}) \<inter> W = {}" "(S - {s}) \<inter> V = {}"
    "N \<inter> insert s I = {}" "U \<inter> insert s I = {}" "V \<inter> insert s I = {}"
    using S assms(2) by (auto simp del: atLeastAtMost_iff)
  then show ?thesis using assms(1) unfolding apart_names_def by (elim conjE, intro conjI)
qed

lemma inv_renew:
  assumes inv: "engine_inv api dimensions M E I R K g" and renew: "renews_selector v g g'" and v: "v \<in> E"
  shows "\<exists>I'. engine_inv api dimensions M E I' (without_rules v R) K g'"
proof -
  let ?X = "engine_controls g" and ?S = "selectors (eng_validity g)" and ?i = "selector_index (eng_validity g)"
  let ?old = "selector_of ?X v" and ?new = "last_var g + 1"
  have parts: "E \<subseteq> outputs g" "positions_ok E g" "names_ok E I g" "assumed_ok E I g" "rules_ok E I R K g"
    "encodes E ?X R I M (rule_clauses g)" "cnf_vars (rule_clauses g) \<subseteq> {..last_var g}" "handed_ok api dimensions E I K g"
    "cnf_vars M \<subseteq> inputs g" "arbiters_ok g" "sat_assumed (validity_check_solver (eng_validity g)) = []"
    using inv by (simp_all add: engine_inv_def)
  have r: "same_base g g'" "same_positions g g'" "last_var g' = ?new" "assumed g' = assumed g"
    "selectors (eng_validity g') = ?S[?i v := ?new]" "rule_clauses g' = rule_clauses g"
    using renew by (simp_all add: renews_selector_def)
  note B = base_access [OF r(1)] and D = names_okD [OF parts(3)]
  have n: "0 \<le> last_var g" using parts(8) by (simp add: handed_ok_def container_ok_def)
  have idx: "?i e < length ?S" if "e \<in> outputs g" for e using D(1) that by (auto simp: bij_betw_def)
  have inj: "inj_on ?i (outputs g)" using D(1) by (simp add: bij_betw_def)
  have old: "?old = ?S ! ?i v" "?old \<in> set ?S" using idx v parts(1) by (auto simp: engine_controls_def Let_def)
  have fresh: "?new \<notin> set ?S" using D(5) by force
  have set': "set (?S[?i v := ?new]) = (set ?S - {?old}) \<union> {?new}"
    using idx v parts(1) D(2) unfolding old(1) by (subst set_update_distinct) auto
  have "apart_names ?new (set ?S \<union> {?new}) (none_of ?X ` E \<union> {}) (use_of ?X ` E \<union> {}) (abs ` set (assumed g) \<union> {}) (inputs g \<union> {}) (I \<union> {})"
    by (rule apart_names_grow [of "last_var g"]) (use parts(3) n in \<open>simp_all add: names_ok_def apart_names_def\<close>)
  from retire_name [OF this, of ?old] old(2) fresh
  have "apart_names ?new ((set ?S \<union> {?new}) - {?old}) (none_of ?X ` E) (use_of ?X ` E) (abs ` set (assumed g)) (inputs g) (insert ?old I)"
    by simp
  moreover have "(set ?S \<union> {?new}) - {?old} = set (?S[?i v := ?new])" using set' old(2) fresh by auto
  moreover have "distinct (?S[?i v := ?new])" using D(2) fresh by (simp add: distinct_list_update)
  ultimately have names: "names_ok E (insert ?old I) g'" using D(1-4) by (simp add: names_ok_def B r(3-5))
  have sel: "selector_of (engine_controls g') e = ((selector_of ?X)(v := ?new)) e" if "e \<in> E" for e

  proof (cases "e = v")
    case False
    then have "?i e \<noteq> ?i v" using inj_onD [OF inj, of e v] that v parts(1) by blast
    then show ?thesis using False by (simp add: engine_controls_def Let_def B(5) r(5))
  qed (use idx v parts(1) in \<open>auto simp: engine_controls_def Let_def B(5) r(5)\<close>)
  have W: "abs ` set (assumed g) - I \<subseteq> abs ` set (assumed g') - insert ?old I" unfolding r(4) using D(17) old(2) by blast
  have away: "?old \<notin> inputs g \<union> abs ` set (assumed g)" using D(17,18) old(2) by blast
  have "encodes E (?X\<lparr>selector_of := (selector_of ?X)(v := ?new)\<rparr>) (without_rules v R) (insert ?old I) M (rule_clauses g)"
  proof (rule encodes_defined [OF parts(6) inv_controls_ok [OF parts(1-4)] v])
    show "0 < ?new" using n by simp
    show "?new \<notin> I" using D(10) by force
    show "cnf_vars M \<subseteq> - {?old}" using parts(9) away by blast
    fix e assume e: "e \<in> E"
    have "use_default_position g e < length (assumed g)" using parts(2) e by (simp add: positions_ok_def)
    then have "switch_of ?X e \<in> abs ` set (assumed g)" by (simp add: engine_controls_def Let_def)
    moreover have "none_of ?X e \<in> none_of ?X ` E" "use_of ?X e \<in> use_of ?X ` E" using e by simp_all
    moreover have "?old \<notin> none_of ?X ` E" "?old \<notin> use_of ?X ` E" "?old \<notin> abs ` set (assumed g)"
      using D(15-17) old(2) by (simp_all only: disjoint_iff not_False_eq_True)
    ultimately have "?old \<noteq> none_of ?X e" "?old \<noteq> use_of ?X e" "?old \<noteq> switch_of ?X e" by metis+
    moreover have "?old = selector_of ?X e \<Longrightarrow> e = v"
      using selector_inj [OF parts(3)] e v parts(1) by (auto simp: inj_on_def)
    ultimately show "e \<noteq> v \<Longrightarrow> ?old \<notin> {selector_of ?X e, none_of ?X e, use_of ?X e, switch_of ?X e}" by auto
    note R = rules_okD [OF parts(5) e]
    have "cnf_vars (defaults_of R e) \<subseteq> cnf_vars (K e)" using R(4) by (auto simp: cnf_vars_def)
    moreover have "cnf_vars (K e) \<subseteq> inputs g \<union> (abs ` set (assumed g) - I)" using parts(8) by (simp add: handed_ok_def)
    ultimately have "cnf_vars (defaults_of R e) \<subseteq> - {?old}" using away by blast
    moreover have "clause_vars c \<subseteq> - {?old}" if "c \<in> set (forcing_of R e)" for c using R(2) [OF that] away by blast
    moreover have "case d of (condition, def, s) \<Rightarrow> clause_vars condition \<subseteq> - {?old} \<and> cnf_vars def \<subseteq> - {?old} \<and> s \<in> - {?old}"
      if "d \<in> set (definitions_of R e)" for d
      using R(3) [of "fst d" "fst (snd d)" "snd (snd d)"] that away by (auto split: prod.splits)
    ultimately show "rules_over (- {?old}) R e \<and> [] \<notin> set (forcing_of R e)"
      using R(1) by (simp add: rules_over_def list_all_iff)
  qed
  then have "encodes E (engine_controls g') (without_rules v R) (insert ?old I) M (rule_clauses g)"
    by (rule encodes_same_controls) (simp add: sel B(1,2), simp add: engine_controls_def Let_def B r(4))
  moreover have "rules_ok E (insert ?old I) R K g'"
    by (rule rules_ok_grow [OF parts(5) _ W]) (simp_all add: B(6))
  then have "rules_ok E (insert ?old I) (without_rules v R) K g'" by (simp add: rules_ok_def)
  moreover have "positions_ok E g'" using parts(2) r(2,4) B(12) 
    by (auto simp: positions_ok_def B same_positions_def selector_position_def)
  moreover have "\<bar>assumed g ! i\<bar> \<noteq> ?old" if "i < length (assumed g)" for i
    using away that nth_mem [OF that] by (metis UnI2 imageI)
  then have "assumed_ok E (insert ?old I) g'" using parts(4) r(4) by (simp add: assumed_ok_def B)
  moreover have "handed_ok api dimensions E (insert ?old I) K g'"
  proof -
    have "container_ok api dimensions K (eng_defaults g) (eng_env g)" using parts(8) by (simp add: handed_ok_def)
    then have "container_ok api dimensions K (eng_defaults g') (eng_env g')" 
      unfolding B(8) by (rule container_ok_last) (simp_all add: r(3,4) B(11))
    moreover have "own_positions E g' = own_positions E g"
      using r(2) by (simp add: own_positions_def B same_positions_def selector_position_def)
    ultimately show ?thesis using parts(8) away by (auto simp: handed_ok_def B r(4))
  qed
  moreover have "cnf_vars (rule_clauses g) \<subseteq> {..last_var g'}" using parts(7) r(3) by fastforce
  ultimately have "engine_inv api dimensions M E (insert ?old I) (without_rules v R) K g'"
    using parts names by (simp add: engine_inv_def B r(6))
  then show ?thesis by blast
qed

text \<open>The selector of the last default function of a variable.\<close>

definition default_selector :: "'h engine \<Rightarrow> int \<Rightarrow> int" where
  "default_selector g v = \<bar>assumed g ! nat (selector_position g v)\<bar>"

lemma inv_definition_part:
  assumes inv: "engine_inv api dimensions M E I R K g" and add: "adds_definition v condition def ns g g'" and v: "v \<in> E"
    and c: "clause_vars condition \<subseteq> inputs g" "cnf_vars def \<subseteq> inputs g"
  shows "\<exists>I'. engine_inv api dimensions M E I' (with_definition v (condition, def, default_selector g' v) R) K g'"
proof -
  let ?X = "engine_controls g" and ?A = "switched_off v g" and ?p = "selector_position g v"
  have D0: "same_base g g'" "selectors (eng_validity g') = selectors (eng_validity g)"
    "variable_to_default_function_selector_index (eng_skolem g') =
        (variable_to_default_function_selector_index (eng_skolem g))(v \<mapsto> int (length (assumed g)))"
    using add unfolding adds_definition_def Let_def by blast+
  obtain a s nd t F where fresh: "list_all (\<lambda>x. last_var g < x) [a, s, nd, ns, t]" "distinct [a, s, nd, ns, t]"
      "list_all (\<lambda>x. x \<le> last_var g') [a, s, nd, ns, t]"
    and A': "assumed g' = (?A @ [- ns])[terminal_position g v := - t]" and F': "rule_clauses g' = rule_clauses g @ F"
    and F: "set F = set (guarded (selector_of ?X v) (definition_encoding condition def a s nd ns (none_of ?X v) (terminal_of ?X v) t))"
    using add unfolding adds_definition_def Let_def by blast
  have fresh': "last_var g < a" "last_var g < s" "last_var g < nd" "last_var g < ns" "last_var g < t"
      "a \<le> last_var g'" "s \<le> last_var g'" "nd \<le> last_var g'" "ns \<le> last_var g'" "t \<le> last_var g'" "last_var g \<le> last_var g'"
    using fresh by simp_all
  have parts: "E \<subseteq> outputs g" "positions_ok E g" "names_ok E I g" "assumed_ok E I g" "rules_ok E I R K g"
    "encodes E ?X R I M (rule_clauses g)" "cnf_vars (rule_clauses g) \<subseteq> {..last_var g}" "handed_ok api dimensions E I K g"
    using inv by (simp_all add: engine_inv_def)
  have n: "0 \<le> last_var g" using parts(8) by (simp add: handed_ok_def container_ok_def)
  have own: "?p \<noteq> - 1 \<Longrightarrow> nat ?p \<in> own_positions E g - terminal_position g ` E"
    using v parts(2) by (auto simp: own_positions_def positions_ok_def)
  let ?J = "{a, s, nd, t}"
  have moves: "moves E v t ?A [- ns] ?J g g'"
    unfolding moves_def
  proof (intro conjI)
    have "?p \<noteq> - 1 \<Longrightarrow> nat ?p < length (assumed g)" using v parts(2) by (simp add: positions_ok_def)
    then have "?p \<noteq> - 1 \<Longrightarrow> (map abs (assumed g))[nat ?p := \<bar>assumed g ! nat ?p\<bar>] = map abs (assumed g)"
      by (metis list_update_id nth_map)
    then show "map abs ?A = map abs (assumed g)" by (simp add: switched_off_def Let_def map_update)
    show "\<forall>i<length (assumed g). ?A ! i \<noteq> assumed g ! i \<longrightarrow> i \<in> own_positions E g - terminal_position g ` E"
    proof (intro allI impI)
      fix i assume "?A ! i \<noteq> assumed g ! i"
      then have "?p \<noteq> - 1 \<and> i = nat ?p" by (cases "i = nat ?p") (auto simp: switched_off_def Let_def split: if_splits)
      then show "i \<in> own_positions E g - terminal_position g ` E" using own by simp
    qed
    show "\<forall>e\<in>E. selector_position g' e = selector_position g e \<or> [- ns] \<noteq> [] \<and> selector_position g' e = int (length (assumed g))"
      using D0(3) by (simp add: selector_position_def int_entry_def)
    show "abs ` set [- ns] \<subseteq> {last_var g<..last_var g'} - ?J" using fresh' fresh(2) n by auto
  qed (use D0 A' fresh' in simp_all)
  note ok = inv_controls_ok [OF parts(1-4)]
  note vars = outside_inputs [OF parts(3) c(1)] and D = controls_okD [OF ok]
  have def_vars: "list_all (outside (last_var g) I) def" "cnf_vars def \<subseteq> {..last_var g}"
    using outside_inputs [OF parts(3) clause_of_cnf_vars [OF c(2)]] by (auto simp: list_all_iff cnf_vars_def)
  let ?enc = "definition_encoding condition def a s nd ns (none_of ?X v) (terminal_of ?X v) t"
  have enc: "encodes E (?X\<lparr>terminal_of := (terminal_of ?X)(v := t)\<rparr>) (with_definition v (condition, def, ns) R) (I \<union> ?J) M (rule_clauses g')"
    unfolding with_definition_def
    by (rule encodes_set [OF encodes_definition [OF parts(6) ok v parts(7) vars(1) def_vars(1) fresh'(1-5) fresh(2)]])
      (use F F' in auto)
  have "clause_vars condition \<union> cnf_vars def \<union>
      {\<bar>a\<bar>, \<bar>s\<bar>, \<bar>nd\<bar>, \<bar>ns\<bar>, \<bar>none_of ?X v\<bar>, \<bar>terminal_of ?X v\<bar>, \<bar>t\<bar>} \<subseteq> {..last_var g'}"
    using D(5,6,14,15) [OF v] fresh' n vars(2) def_vars(2) by auto
  from subset_trans [OF definition_encoding_vars this] have "cnf_vars (guarded (selector_of ?X v) ?enc) \<subseteq> {..last_var g'}"
    using cnf_vars_guarded [of "selector_of ?X v"] D(2,3) [OF v] fresh'(11) by fastforce
  then have F_vars: "cnf_vars (rule_clauses g') \<subseteq> {..last_var g'}"
    using parts(7) fresh'(11) cnf_vars_set [OF F] by (auto simp: F')
  have same: "inputs g' = inputs g" by (rule base_access(6) [OF D0(1)])
  have "rules_ok E (I \<union> ?J) R K g'"
    by (rule rules_ok_grow [OF parts(5) _ moves_defaults(2) [OF moves parts(2) v parts(3,4,8)]]) (simp_all add: same)
  have new_at: "assumed g' ! length (assumed g) = - ns" "length (assumed g) < length (assumed g')"
    using moves_fields(1,5) [OF moves parts(2) v] by simp_all
  have "selector_position g' v = int (length (assumed g))" using D0(3) by (simp add: selector_position_def int_entry_def)
  then have sel: "default_selector g' v = ns" using new_at fresh'(4) n by (simp add: default_selector_def)
  note same_rules = \<open>rules_ok E (I \<union> ?J) R K g'\<close>
  moreover have "ns \<in> abs ` set (assumed g') - (I \<union> ?J)"
  proof -
    note new_at
    then have "- ns \<in> set (assumed g')" by (metis nth_mem)
    moreover have "ns = \<bar>- ns\<bar>" using fresh'(4) n by linarith
    ultimately have "ns \<in> abs ` set (assumed g')" by blast
    then show ?thesis using fresh(2) fresh'(4) names_okD(10) [OF parts(3)] by auto
  qed
  ultimately have "rules_ok E (I \<union> ?J) (with_definition v (condition, def, ns) R) K g'"
    using c by (auto simp: rules_ok_def with_definition_def same)
  from moves_inv [OF inv v moves this F_vars enc] show ?thesis unfolding sel by blast
qed

text \<open>
  The rule book after \<open>addDefinition\<close>: a variable that becomes defined starts anew, whatever it had
  before is behind a selector that is no longer assumed.
\<close>

lemma inv_sk_addDefinition:
  assumes inv: "engine_inv api dimensions M E I R K g" and add: "sk_addDefinition v def circ condition reduced g = Some g'"
    and v: "v \<in> E" and c: "clause_vars condition \<subseteq> inputs g" "cnf_vars def \<subseteq> inputs g"
  shows "\<exists>I'. engine_inv api dimensions M E I' (with_definition v (condition, def, default_selector g' v)
    (if condition = [] \<and> v \<in> undefined_existentials (eng_skolem g) then without_rules v R else R)) K g'"
    "outputs g' = outputs g"
proof -
  have parts: "positions_ok E g" "has_slot g v" using inv v by (simp_all add: engine_inv_def positions_ok_def)
  have "selector_position g v \<noteq> - 1 \<longrightarrow> nat (selector_position g v) \<noteq> terminal_position g v"
    using parts(1) v by (auto simp: positions_ok_def)
  from sk_addDefinition_adds [OF add parts(2) this] obtain g2 g3 ns where g2: "adds [] g g2"
    and g3: "if condition = [] \<and> v \<in> undefined_existentials (eng_skolem g2) then renews_selector v g2 g3 else g3 = g2"
    and g': "adds_definition v condition def ns g3 g'" by blast
  have inv2: "engine_inv api dimensions M E I R K g2" by (rule inv_quiet [OF inv g2])
  have same: "undefined_existentials (eng_skolem g2) = undefined_existentials (eng_skolem g)" "inputs g2 = inputs g"
    "outputs g2 = outputs g"
    using g2 by (simp_all add: adds_def frame_defs inputs_def)
  let ?R = "if condition = [] \<and> v \<in> undefined_existentials (eng_skolem g) then without_rules v R else R"
  obtain I3 where inv3: "engine_inv api dimensions M E I3 ?R K g3" and "inputs g3 = inputs g"
    and out: "outputs g3 = outputs g"
  proof (cases "condition = [] \<and> v \<in> undefined_existentials (eng_skolem g)")
    case True
    then have renew: "renews_selector v g2 g3" using g3 same(1) by simp
    with inv_renew [OF inv2 this v] base_access(6,7) [of g2 g3] show ?thesis
      using True same(2,3) that by (auto simp: renews_selector_def)
  next
    case False
    then show ?thesis using g3 inv2 same that by auto
  qed
  with inv_definition_part [OF inv3 g' v] c obtain I' where
    "engine_inv api dimensions M E I' (with_definition v (condition, def, default_selector g' v) ?R) K g'" by metis
  then show "\<exists>I'. engine_inv api dimensions M E I' (with_definition v (condition, def, default_selector g' v) ?R) K g'" by blast
  have "same_base g3 g'" using g' unfolding adds_definition_def Let_def by blast
  from base_access(7) [OF this] out show "outputs g' = outputs g" by simp
qed

end
