(* ===== verification/EngineDefaults.thy ===== *)
theory EngineDefaults
  imports EngineSteps
begin

text \<open>
  The default values under the invariant of the engine: their initialisation, what a conflict
  teaches them, the polarity of a constant, and the switch between rules and defaults.
\<close>

section \<open>The default container changes its selectors\<close>

text \<open>
  The container may append selectors and flip those it has handed out before; it hands out clauses
  over the variable, its dependencies and the new selectors.
\<close>

definition container_step :: "'h engine \<Rightarrow> (int \<Rightarrow> clause list) \<Rightarrow> (int \<Rightarrow> clause list) \<Rightarrow> 'h default_container \<Rightarrow> env \<Rightarrow> bool" where
  "container_step g K K' d e \<longleftrightarrow>
     grows (eng_env g) e \<and> (\<exists>u. changes_only (selectors_of (K u)) (eng_env g) e) \<and>
     (\<forall>v. set (K v) \<subseteq> set (K' v) \<and> cnf_vars (K' v) \<subseteq> cnf_vars (K v) \<union> inputs g \<union> {last_var g<..env_last e} \<and>
        selectors_of (K' v) \<subseteq> selectors_of (K v) \<union> {last_var g<..env_last e} \<and>
        deps_of d v \<subseteq> inputs g \<and> (useDefault d v \<longrightarrow> v \<in> outputs g))"

lemma env_access:
  fixes g :: "'h engine" and d :: "'h default_container" and e :: env
  defines "g' \<equiv> g\<lparr>eng_defaults := d, eng_env := e\<rparr>"
  shows "none_of (engine_controls g') = none_of (engine_controls g)" "use_of (engine_controls g') = use_of (engine_controls g)"
    "selector_of (engine_controls g') = selector_of (engine_controls g)" "inputs g' = inputs g" "arbiters_ok g' = arbiters_ok g"
    "terminal_position g' = terminal_position g" "use_default_position g' = use_default_position g"
    "selector_position g' = selector_position g" "own_positions E g' = own_positions E g" "rule_clauses g' = rule_clauses g"
proof -
  have 1: "terminal_position g' v = terminal_position g v" "use_default_position g' v = use_default_position g v"
    "selector_position g' v = selector_position g v" "no_forcing_clause_active g' v = no_forcing_clause_active g v" for v
    by (simp_all add: g'_def terminal_position_def use_default_position_def selector_position_def no_forcing_clause_active_def)
  then show 2: "terminal_position g' = terminal_position g" "use_default_position g' = use_default_position g"
    "selector_position g' = selector_position g"
    by blast+
  have "no_forcing_clause_active g' = no_forcing_clause_active g" using 1 by blast
  then show "none_of (engine_controls g') = none_of (engine_controls g)" "use_of (engine_controls g') = use_of (engine_controls g)"
    "selector_of (engine_controls g') = selector_of (engine_controls g)"
    by (simp_all add: engine_controls_def Let_def g'_def)
  show "inputs g' = inputs g" "arbiters_ok g' = arbiters_ok g" "own_positions E g' = own_positions E g" "rule_clauses g' = rule_clauses g"
    by (simp_all add: inputs_def arbiters_ok_def own_positions_def 2 rule_clauses_def) (simp_all add: g'_def inputs_def)
qed

lemma grows_fields:
  assumes "grows e e'"
  shows "length (env_assumptions e) \<le> length (env_assumptions e')"
    "i < length (env_assumptions e) \<Longrightarrow> \<bar>env_assumptions e' ! i\<bar> = \<bar>env_assumptions e ! i\<bar>"
    "abs ` set (env_assumptions e') = abs ` set (env_assumptions e) \<union> {env_last e<..env_last e'}"
    "distinct (map abs (env_assumptions e)) \<Longrightarrow> abs ` set (env_assumptions e) \<subseteq> {1..env_last e} \<Longrightarrow>
       distinct (map abs (env_assumptions e'))"
    "length (env_assumptions e) \<le> i \<Longrightarrow> i < length (env_assumptions e') \<Longrightarrow> \<bar>env_assumptions e' ! i\<bar> \<in> {env_last e<..env_last e'}"
proof -
  let ?A = "env_assumptions e" and ?A' = "env_assumptions e'"
  have eq: "map abs ?A' = map abs ?A @ [env_last e + 1..env_last e']" using assms by (simp add: grows_def)
  then have len: "length ?A' = length ?A + length [env_last e + 1..env_last e']" by (metis length_append length_map)
  then show "length ?A \<le> length ?A'" by simp
  have nth: "\<bar>?A' ! i\<bar> = (map abs ?A @ [env_last e + 1..env_last e']) ! i" if "i < length ?A'" for i
    using that by (metis eq nth_map)
  show "i < length ?A \<Longrightarrow> \<bar>?A' ! i\<bar> = \<bar>?A ! i\<bar>" using nth [of i] len by (simp add: nth_append)
  have "abs ` set ?A' = set (map abs ?A')" by simp
  also have "\<dots> = abs ` set ?A \<union> {env_last e + 1..env_last e'}" unfolding eq by simp
  finally show "abs ` set ?A' = abs ` set ?A \<union> {env_last e<..env_last e'}" by auto
  show "distinct (map abs ?A')" if "distinct (map abs ?A)" "abs ` set ?A \<subseteq> {1..env_last e}"
    unfolding eq distinct_append using that by auto
  show "\<bar>?A' ! i\<bar> \<in> {env_last e<..env_last e'}" if i: "length ?A \<le> i" "i < length ?A'"
  proof -
    have "\<bar>?A' ! i\<bar> = [env_last e + 1..env_last e'] ! (i - length ?A)" using nth [OF i(2)] i(1) by (simp add: nth_append)
    also have "\<dots> \<in> set [env_last e + 1..env_last e']" using i len by (intro nth_mem) simp
    finally show ?thesis by auto
  qed
qed

lemma inv_container_step:
  assumes inv: "engine_inv api dimensions M E I R K g" and step: "container_step g K K' d e"
    and ok: "container_ok api dimensions K' d e"
  defines "g' \<equiv> g\<lparr>eng_defaults := d, eng_env := e\<rparr>"
  shows "engine_inv api dimensions M E I R K' g'"
proof -
  note acc = env_access [where g = g and d = d and e = e, folded g'_def]
  have flds: "assumed g' = env_assumptions e" "last_var g' = env_last e" "outputs g' = outputs g"
    "eng_validity g' = eng_validity g" "eng_defaults g' = d" "eng_env g' = e" "eng_skolem g' = eng_skolem g"
    by (simp_all add: g'_def)
  have parts: "E \<subseteq> outputs g" "positions_ok E g" "names_ok E I g" "assumed_ok E I g" "rules_ok E I R K g"
    "encodes E (engine_controls g) R I M (rule_clauses g)" "cnf_vars (rule_clauses g) \<subseteq> {..last_var g}" "handed_ok api dimensions E I K g"
    "cnf_vars M \<subseteq> inputs g" "arbiters_ok g" "sat_assumed (validity_check_solver (eng_validity g)) = []"
    using inv by (simp_all add: engine_inv_def)
  have grow: "grows (eng_env g) e" and K: "\<And>v. set (K v) \<subseteq> set (K' v)"
    "\<And>v. cnf_vars (K' v) \<subseteq> cnf_vars (K v) \<union> inputs g \<union> {last_var g<..env_last e}"
    "\<And>v. selectors_of (K' v) \<subseteq> selectors_of (K v) \<union> {last_var g<..env_last e}"
    "\<And>v. deps_of d v \<subseteq> inputs g" "\<And>v. useDefault d v \<Longrightarrow> v \<in> outputs g"
    using step by (simp_all add: container_step_def)
  obtain u where ch: "changes_only (selectors_of (K u)) (eng_env g) e" using step by (auto simp: container_step_def)
  note G = grows_fields [OF grow] and D = names_okD [OF parts(3)]
  have last: "last_var g \<le> env_last e" using grow by (simp add: grows_def)
  have H: "\<And>v. cnf_vars (K v) \<subseteq> inputs g \<union> (abs ` set (assumed g) - I)"
    "\<And>v i. i \<in> own_positions E g \<Longrightarrow> i < length (assumed g) \<Longrightarrow> \<bar>assumed g ! i\<bar> \<notin> selectors_of (K v)"
    "\<And>v. selectors_of (K v) \<subseteq> {1..last_var g}" "0 \<le> last_var g"
    using parts(8) by (simp_all add: handed_ok_def container_ok_def)
  have own: "env_assumptions e ! i = assumed g ! i" if i: "i \<in> own_positions E g" "i < length (assumed g)" for i
  proof -
    have "{\<bar>assumed g ! i\<bar>} \<inter> selectors_of (K u) = {}" using H(2) i by blast
    with ch have "others_keep {\<bar>assumed g ! i\<bar>} (assumed g) (env_assumptions e)" unfolding changes_only_def by blast
    then show ?thesis using i(2) by (simp add: others_keep_def agree_on_def)
  qed
  have in_own: "terminal_position g e \<in> own_positions E g" "use_default_position g e \<in> own_positions E g" if "e \<in> E" for e
    using that by (simp_all add: own_positions_def)
  have slots: "has_slot g v \<Longrightarrow> has_slot g' v" for v
    using G(1) by (auto simp: has_slot_def flds split: option.splits)
  have pos: "positions_ok E g'"
    using parts(2) G(1) slots by (fastforce simp: positions_ok_def acc flds)
  have apart: "apart_names (env_last e) (set (selectors (eng_validity g)) \<union> {}) (none_of (engine_controls g) ` E \<union> {})
      (use_of (engine_controls g) ` E \<union> {}) (abs ` set (assumed g) \<union> {last_var g<..env_last e}) (inputs g \<union> {}) (I \<union> {})"
    by (rule apart_names_grow [of "last_var g"]) (use parts(3) H(4) last in \<open>auto simp: names_ok_def apart_names_def\<close>)
  have names: "names_ok E I g'" using apart D(1-4) by (simp add: names_ok_def acc flds G(3))
  have tp: "terminal_position g ` E \<subseteq> {..<length (assumed g)}" using parts(2) terminal_in_range by (auto simp: positions_ok_def)
  have assumed: "assumed_ok E I g'"
    unfolding assumed_ok_def acc flds
  proof (intro conjI allI impI ballI)
    show "distinct (map abs (env_assumptions e))" by (rule G(4)) (use parts(4) D(8) in \<open>simp_all add: assumed_ok_def\<close>)
    fix i assume i: "i < length (env_assumptions e)"
    show "\<bar>env_assumptions e ! i\<bar> \<in> I \<longleftrightarrow> i \<in> terminal_position g ` E"
    proof (cases "i < length (assumed g)")
      case True
      then show ?thesis using G(2) parts(4) by (simp add: assumed_ok_def)
    next
      case False
      then have "\<bar>env_assumptions e ! i\<bar> \<in> {last_var g<..env_last e}" using G(5) i by simp
      then have "\<bar>env_assumptions e ! i\<bar> \<notin> I" using D(10) by auto
      then show ?thesis using tp False by auto
    qed
  next
    fix v assume v: "v \<in> E"
    then show "env_assumptions e ! terminal_position g v < 0"
      using own [OF in_own(1) [OF v]] tp parts(4) by (auto simp: assumed_ok_def)
  qed
  have handed: "handed_ok api dimensions E I K' g'"
    unfolding handed_ok_def acc flds
  proof (intro conjI allI impI ballI)
    show "container_ok api dimensions K' d e" by (rule ok)
    fix v
    show "deps_of d v \<subseteq> inputs g" by (rule K(4))
    have "{last_var g<..env_last e} \<inter> I = {}" using D(10) by auto
    then show "cnf_vars (K' v) \<subseteq> inputs g \<union> (abs ` set (env_assumptions e) - I)"
      unfolding G(3) using K(2) [of v] H(1) [of v] by blast
    show "useDefault d v \<Longrightarrow> v \<in> outputs g" by (rule K(5))
    fix i assume i: "i \<in> own_positions E g" "i < length (env_assumptions e)"
    have len: "i < length (assumed g)"
      using i(1) parts(2) tp by (auto simp: own_positions_def positions_ok_def)
    have "\<bar>assumed g ! i\<bar> \<in> {1..last_var g}" using D(8) nth_mem [OF len] by blast
    with len have "env_assumptions e ! i = assumed g ! i" "\<bar>assumed g ! i\<bar> \<notin> selectors_of (K v)" "\<bar>assumed g ! i\<bar> \<in> {1..last_var g}"
      using own i(1) H(2) D(8) by auto
    then show "\<bar>env_assumptions e ! i\<bar> \<notin> selectors_of (K' v)" using K(3) [of v] by auto
  qed
  have "encodes E (engine_controls g') R I M (rule_clauses g)"
  proof (rule encodes_same_controls [OF parts(6)], goal_cases)
    case (1 v)
    have at: "terminal_position g v < length (assumed g)" "use_default_position g v < length (assumed g)"
      using parts(2) terminal_in_range 1 by (auto simp: positions_ok_def)
    have "switch_of (engine_controls g') v = switch_of (engine_controls g) v" "terminal_of (engine_controls g') v = terminal_of (engine_controls g) v"
      using own [OF in_own(1) [OF 1] at(1)] G(2) [OF at(2)] by (simp_all add: engine_controls_def Let_def acc flds)
    then show ?case by (simp add: acc)
  qed
  moreover have "rules_ok E I R K' g'"
    by (rule rules_ok_grow [OF parts(5)]) (use K(1) in \<open>auto simp: acc flds G(3)\<close>)
  moreover have "cnf_vars (rule_clauses g) \<subseteq> {..env_last e}" using parts(7) last by fastforce
  ultimately show ?thesis
    using parts pos names assumed handed unfolding engine_inv_def acc flds by blast
qed

section \<open>The operations\<close>

lemma env_eta: "g\<lparr>eng_defaults := eng_defaults g, eng_env := e\<rparr> = g\<lparr>eng_env := e\<rparr>"
  by simp

lemma inv_deps:
  assumes "engine_inv api dimensions M E I R K g"
  shows "container_ok api dimensions K (eng_defaults g) (eng_env g)" "deps_of (eng_defaults g) v \<subseteq> inputs g"
    "useDefault (eng_defaults g) v \<Longrightarrow> v \<in> outputs g"
  using assms by (simp_all add: engine_inv_def handed_ok_def)

lemma inv_setPolarity:
  assumes inv: "engine_inv api dimensions M E I R K g" and step: "sk_setPolarity api' v b g = Some g'"
  shows "engine_inv api dimensions M E I R K g'"
proof -
  note parts = inv_deps [OF inv]
  obtain e where e: "setFixedDefaultPolarity api' v b (eng_defaults g) (eng_env g) = Some e" and g': "g' = g\<lparr>eng_env := e\<rparr>"
    using step by (auto simp: sk_setPolarity_def split: bind_splits)
  have "container_ok api dimensions K (eng_defaults g) e \<and> container_step g K K (eng_defaults g) e"
  proof (cases "useDefault (eng_defaults g) v \<and> \<not> treeActive api' (eng_defaults g) v")
    case True
    then have "setFixedDefaultPolarityUnchecked v b (eng_defaults g) (eng_env g) = Some e"
      using e by (simp add: setFixedDefaultPolarity_def)
    from polarity_step [OF parts(1) conjunct1 [OF True] this] show ?thesis using parts(2,3) by (auto simp: container_step_def)
  next
    case False
    then have "e = eng_env g" using e by (simp add: setFixedDefaultPolarity_def split: if_splits)
    moreover have "changes_only (selectors_of (K 0)) (eng_env g) (eng_env g)" by simp
    ultimately show ?thesis using parts by (auto simp: container_step_def)
  qed
  then show ?thesis using inv_container_step [OF inv, of K "eng_defaults g" e] g' by simp
qed

lemma set_add_clauses: "selectors_of (xs @ ys) = selectors_of xs \<union> selectors_of ys" "cnf_vars (xs @ ys) = cnf_vars xs \<union> cnf_vars ys"
  by (auto simp: selectors_of_def)

lemma inv_insertIntoDefaultContainer:
  assumes doc: "mlpack_documented api dimensions" and inv: "engine_inv api dimensions M E I R K g" and E: "E = outputs g"
    and step: "insertIntoDefaultContainer api l sample g = Some g'"
  shows "\<exists>cs. engine_inv api dimensions M E I (with_defaults (var l) cs R) (K(var l := K (var l) @ cs)) g'"
proof -
  let ?v = "var l"
  note parts = inv_deps [OF inv]
  obtain cs d e where ins: "dv_insertConflict api l sample (eng_defaults g) (eng_env g) = Some (cs, d, e)"
    and add: "addDefaultClauses ?v cs (g\<lparr>eng_defaults := d, eng_env := e\<rparr>) = Some g'"
    using step by (auto simp: insertIntoDefaultContainer_def split: bind_splits)
  let ?K = "K(?v := K ?v @ cs)" and ?g = "g\<lparr>eng_defaults := d, eng_env := e\<rparr>"
  note ist = insert_step [OF doc parts(1) ins]
  have member: "?v \<in> inputs g" if "cs \<noteq> []" using ist parts(3) that by (auto simp: inputs_def)
  have "cnf_vars cs \<subseteq> inputs g \<union> {last_var g<..env_last e}"
    using ist parts(2) member by (cases "cs = []") (simp, blast)
  then have "container_step g K ?K d e"
    using ist parts(2,3) unfolding container_step_def by (auto simp: set_add_clauses)
  from inv_container_step [OF inv this] ist have inv': "engine_inv api dimensions M E I R ?K ?g" by simp
  show ?thesis
  proof (cases "cs = []")
    case True
    then have "g' = ?g" using add by (auto simp: addDefaultClauses_def split: bind_splits)
    moreover have "with_defaults ?v cs R = R" using True by (simp add: with_defaults_def)
    ultimately show ?thesis using inv' by metis
  next
    case False
    then have "?v \<in> E" using ist parts(3) E by simp
    from inv_addDefaultClauses [OF add inv' this] show ?thesis by auto
  qed
qed

text \<open>All the initial clauses.\<close>

definition hand_out :: "(int \<times> clause list) list \<Rightarrow> (int \<Rightarrow> clause list) \<Rightarrow> int \<Rightarrow> clause list" where
  "hand_out rs K = fold (\<lambda>(v, cs) K. K(v := K v @ cs)) rs K"

lemma hand_out_simps [simp]:
  "hand_out [] K = K" "hand_out ((v, cs) # rs) K = hand_out rs (K(v := K v @ cs))"
  by (simp_all add: hand_out_def)

lemma set_hand_out: "c \<in> set (hand_out rs K u) \<longleftrightarrow> c \<in> set (K u) \<or> (\<exists>cs. (u, cs) \<in> set rs \<and> c \<in> set cs)"
proof (induction rs arbitrary: K)
  case (Cons r rs)
  obtain v cs where r: "r = (v, cs)" by (cases r)
  show ?case unfolding r hand_out_simps Cons.IH by auto
qed simp

lemma inv_add_initial_defaults:
  "add_initial_defaults xs g = Some g' \<Longrightarrow> engine_inv api dimensions M E I R K g \<Longrightarrow>
    \<forall>(v, cs)\<in>set xs. v \<in> E \<and> set cs \<subseteq> set (K v) \<Longrightarrow>
    engine_inv api dimensions M E I (fold (\<lambda>(v, cs). with_defaults v cs) xs R) K g' \<and> outputs g' = outputs g"
proof (induction xs g arbitrary: R rule: add_initial_defaults.induct)
  case (2 v cs xs g)
  then obtain g1 where g1: "addDefaultClauses v cs g = Some g1" "add_initial_defaults xs g1 = Some g'"
    by (auto split: bind_splits)
  have "v \<in> E" "set cs \<subseteq> set (K v)" using 2(4) by auto
  from inv_addDefaultClauses [OF g1(1) 2(3) this] 2(1) [OF g1, of "with_defaults v cs R"] 2(4) show ?case by simp
qed simp

definition positive_inputs :: "dep_container \<Rightarrow> 'h engine \<Rightarrow> bool" where
  "positive_inputs c g \<longleftrightarrow> positive_dependencies c \<and>
     (\<forall>v space. getExtendedDependencies v c = Some space \<or> getDependencies v c = Some space \<longrightarrow> set space \<subseteq> inputs g)"

definition no_defaults_yet :: "'h engine \<Rightarrow> bool" where
  "no_defaults_yet g \<longleftrightarrow> (\<forall>v. \<not> useDefault (eng_defaults g) v \<and> default_trees (eng_defaults g) v = None) \<and>
     dv_existentials (eng_defaults g) = sk_existentials (eng_skolem g)"

lemma inv_initDefaultValues:
  assumes inv: "engine_inv api dimensions M E I R K g" and E: "E = outputs g"
    and none: "no_defaults_yet g" and learner: "learner_ok api dimensions learner" and deps: "positive_inputs (eng_dependencies g) g"
    and distinct: "distinct (sk_existentials (eng_skolem g))"
    and step: "initDefaultValues learner conf undefineds g = Some g'"
  shows "\<exists>xs. engine_inv api dimensions M E I (fold (\<lambda>(v, cs). with_defaults v cs) xs R) (hand_out xs K) g'"
proof -
  note parts = inv_deps [OF inv]
  obtain xs d e where ini: "dv_initialize learner conf (eng_dependencies g) undefineds (eng_defaults g) (eng_env g) = Some (xs, d, e)"
    and add: "add_initial_defaults xs (g\<lparr>eng_defaults := d, eng_env := e\<rparr>) = Some g'"
    using step by (auto simp: initDefaultValues_def split: bind_splits)
  let ?vs = "dv_existentials (eng_defaults g)"
  have vs: "?vs = sk_existentials (eng_skolem g)" "\<And>v. \<not> useDefault (eng_defaults g) v" "\<And>v. default_trees (eng_defaults g) v = None"
    using none by (simp_all add: no_defaults_yet_def)
  have pos: "list_all (\<lambda>v. 0 < v) ?vs"
    using inv unfolding engine_inv_def vs(1) list_all_iff
    by (auto dest!: names_okD(9) simp: inputs_def)
  have dep: "positive_dependencies (eng_dependencies g)"
    "\<And>v space. getExtendedDependencies v (eng_dependencies g) = Some space \<or> getDependencies v (eng_dependencies g) = Some space \<Longrightarrow>
       abs ` set space \<subseteq> inputs g"
  proof -
    show p: "positive_dependencies (eng_dependencies g)" using deps by (simp add: positive_inputs_def)
    fix v space
    assume *: "getExtendedDependencies v (eng_dependencies g) = Some space \<or> getDependencies v (eng_dependencies g) = Some space"
    have "set space \<subseteq> inputs g" using deps * by (auto simp: positive_inputs_def)
    moreover have "list_all (\<lambda>x. 0 < x) space" using p * unfolding positive_dependencies_def by blast
    then have "\<bar>x\<bar> = x" if "x \<in> set space" for x using that by (auto simp: list_all_iff)
    ultimately show "abs ` set space \<subseteq> inputs g" by auto
  qed
  have start: "distinct ?vs" "\<forall>v\<in>set ?vs. \<not> useDefault (eng_defaults g) v \<and> default_trees (eng_defaults g) v = None"
    using vs distinct by simp_all
  note run = init_loop [OF learner dep(1) ini [unfolded dv_initialize_def] parts(1) start(1) pos start(2), folded hand_out_def]
  note rest = run [THEN conjunct2, THEN conjunct2, THEN conjunct2, THEN conjunct2]
  have clauses: "v \<in> set ?vs \<and> cnf_vars cs \<subseteq> {v} \<union> {last_var g<..env_last e} \<and> selectors_of cs \<subseteq> {last_var g<..env_last e}"
    if "(v, cs) \<in> set xs" for v cs
    using bspec [OF rest [THEN conjunct1] that] by simp
  have use: "useDefault d v = useDefault (eng_defaults g) v" if "v \<notin> set ?vs" for v
    using rest [THEN conjunct2, THEN conjunct1] that by simp
  note loop = run [THEN conjunct1] run [THEN conjunct2, THEN conjunct2, THEN conjunct1]
    run [THEN conjunct2, THEN conjunct2, THEN conjunct2, THEN conjunct1]
    clauses use rest [THEN conjunct2, THEN conjunct2, THEN spec]
  have "container_step g K (hand_out xs K) d e"
    unfolding container_step_def
  proof (intro conjI allI impI)
    have "changes_only S (eng_env g) e" for S using loop(3) unfolding changes_only_def by simp
    then show "\<exists>u. changes_only (selectors_of (K u)) (eng_env g) e" by blast
    fix v
    show "set (K v) \<subseteq> set (hand_out xs K v)" by (auto simp: set_hand_out)
    show "cnf_vars (hand_out xs K v) \<subseteq> cnf_vars (K v) \<union> inputs g \<union> {last_var g<..env_last e}"
    proof
      fix x assume "x \<in> cnf_vars (hand_out xs K v)"
      then obtain c where c: "c \<in> set (hand_out xs K v)" "x \<in> clause_vars c" by (auto simp: cnf_vars_def)
      then consider "c \<in> set (K v)" | cs where "(v, cs) \<in> set xs" "c \<in> set cs" by (auto simp: set_hand_out)
      then show "x \<in> cnf_vars (K v) \<union> inputs g \<union> {last_var g<..env_last e}"
      proof cases
        case 2
        then have "x \<in> cnf_vars cs" using c(2) by (auto simp: cnf_vars_def)
        then show ?thesis using loop(4) [OF 2(1)] vs(1) by (auto simp: inputs_def)
      qed (use c(2) in \<open>auto simp: cnf_vars_def\<close>)
    qed
    show "selectors_of (hand_out xs K v) \<subseteq> selectors_of (K v) \<union> {last_var g<..env_last e}"
    proof
      fix x assume "x \<in> selectors_of (hand_out xs K v)"
      then obtain c where c: "c \<in> set (hand_out xs K v)" "x = \<bar>c ! (length c - 2)\<bar>" by (auto simp: selectors_of_def)
      then consider "c \<in> set (K v)" | cs where "(v, cs) \<in> set xs" "c \<in> set cs" by (auto simp: set_hand_out)
      then show "x \<in> selectors_of (K v) \<union> {last_var g<..env_last e}"
      proof cases
        case 2
        then have "x \<in> selectors_of cs" using c(2) by (simp add: selectors_of_def)
        then show ?thesis using loop(4) [OF 2(1)] by blast
      qed (use c(2) in \<open>auto simp: selectors_of_def\<close>)
    qed
    show "deps_of d v \<subseteq> inputs g"
    proof (cases "default_trees d v = None")
      case False
      then show ?thesis using loop(6) [of v] dep(2) [of v] vs(3) by metis
    qed (simp add: deps_of_def)
    show "useDefault d v \<Longrightarrow> v \<in> outputs g" using loop(5) [of v] vs by auto
  qed (rule loop(2))
  from inv_container_step [OF inv this loop(1)]
  have inv': "engine_inv api dimensions M E I R (hand_out xs K) (g\<lparr>eng_defaults := d, eng_env := e\<rparr>)" .
  have "\<forall>(v, cs)\<in>set xs. v \<in> E \<and> set cs \<subseteq> set (hand_out xs K v)"
    using loop(4) E vs(1) by (auto simp: set_hand_out)
  from inv_add_initial_defaults [OF add inv' this] show ?thesis by blast
qed

section \<open>Signs of the container's own assumptions\<close>

lemma inv_signs:
  assumes inv: "engine_inv api dimensions M E I R K g" and frame: "same_frame g g'" and last: "last_var g' = last_var g"
    and clauses: "rule_clauses g' = rule_clauses g" and abs: "map abs (assumed g') = map abs (assumed g)"
    and only: "\<And>i. i < length (assumed g) \<Longrightarrow> assumed g' ! i \<noteq> assumed g ! i \<Longrightarrow> i \<in> own_positions E g - terminal_position g ` E"
  shows "engine_inv api dimensions M E I R K g'"
proof -
  have base: "same_base g g'" "selectors (eng_validity g') = selectors (eng_validity g)" "selector_position g' = selector_position g"
    using frame by (auto simp: same_frame_def same_positions_def selector_position_def)
  note B = base_access [OF base(1)]
  have len: "length (assumed g') = length (assumed g)" using abs map_eq_imp_length_eq by blast
  have nth: "\<bar>assumed g' ! i\<bar> = \<bar>assumed g ! i\<bar>" if "i < length (assumed g)" for i
    using arg_cong [OF abs, of "\<lambda>xs. xs ! i"] that len by simp
  have set: "abs ` set (assumed g') = abs ` set (assumed g)" using arg_cong [OF abs, of set] by simp
  have parts: "E \<subseteq> outputs g" "positions_ok E g" "names_ok E I g" "assumed_ok E I g" "rules_ok E I R K g"
    "encodes E (engine_controls g) R I M (rule_clauses g)" "cnf_vars (rule_clauses g) \<subseteq> {..last_var g}" "handed_ok api dimensions E I K g"
    "cnf_vars M \<subseteq> inputs g" "arbiters_ok g" "sat_assumed (validity_check_solver (eng_validity g)) = []"
    using inv by (simp_all add: engine_inv_def)
  have tp: "terminal_position g e < length (assumed g)" "assumed g' ! terminal_position g e = assumed g ! terminal_position g e"
    "use_default_position g e < length (assumed g)" if "e \<in> E" for e
  proof -
    show "terminal_position g e < length (assumed g)" "use_default_position g e < length (assumed g)"
      using parts(2) terminal_in_range that by (auto simp: positions_ok_def)
    with only [of "terminal_position g e"] that show "assumed g' ! terminal_position g e = assumed g ! terminal_position g e" by blast
  qed
  have own: "own_positions E g' = own_positions E g" by (simp add: own_positions_def B base(3))
  have sel: "selector_of (engine_controls g') = selector_of (engine_controls g)" by (simp add: engine_controls_def Let_def B(5) base(2))
  have "encodes E (engine_controls g') R I M (rule_clauses g)"
  proof (rule encodes_same_controls [OF parts(6)], goal_cases)
    case (1 e)
    then have "switch_of (engine_controls g') e = switch_of (engine_controls g) e" "terminal_of (engine_controls g') e = terminal_of (engine_controls g) e"
      using tp [OF 1] nth by (simp_all add: engine_controls_def Let_def B(3,4))
    then show ?case by (simp add: sel B(1,2))
  qed
  moreover have "positions_ok E g'" using parts(2) B(12) len by (auto simp: positions_ok_def B(3,4) base(3))
  moreover have "names_ok E I g'" using parts(3) by (simp add: names_ok_def B base(2) set last)
  moreover have "assumed_ok E I g'" using parts(4) abs len nth tp by (simp add: assumed_ok_def B(3))
  moreover have "rules_ok E I R K g'" by (rule rules_ok_grow [OF parts(5)]) (simp_all add: B(6) set)
  moreover have "handed_ok api dimensions E I K g'"
  proof -
    have H: "container_ok api dimensions K (eng_defaults g) (eng_env g)"
      "\<And>v i. i \<in> own_positions E g \<Longrightarrow> i < length (assumed g) \<Longrightarrow> \<bar>assumed g ! i\<bar> \<notin> selectors_of (K v)"
      using parts(8) by (simp_all add: handed_ok_def)
    have keep: "others_keep (selectors_of (K v)) (assumed g) (assumed g')" for v
      using only H(2) len by (auto simp: others_keep_def agree_on_def)
    have "container_ok api dimensions K (eng_defaults g) (eng_env g')"
      by (rule container_ok_others [OF H(1)], simp add: last, rule conjI [OF keep]) (simp add: B(11) others_keep_def agree_on_def)
    then show ?thesis using parts(8) nth len by (simp add: handed_ok_def B own set)
  qed
  ultimately show ?thesis using parts clauses by (simp add: engine_inv_def B last)
qed

lemma set_assumption_fields:
  assumes "set_assumption f i g = Some g'"
  shows "g' = g\<lparr>eng_env := (eng_env g)\<lparr>env_assumptions := (assumed g)[nat i := f (assumed g ! nat i)]\<rparr>\<rparr>" "0 \<le> i" "nat i < length (assumed g)"
  using assms by (auto simp: set_assumption_def Let_def split: if_splits)

lemma inv_set_assumption:
  assumes inv: "engine_inv api dimensions M E I R K g" and step: "set_assumption f i g = Some g'"
    and own: "nat i \<in> own_positions E g - terminal_position g ` E" and f: "\<And>l. \<bar>f l\<bar> = \<bar>l\<bar>"
  shows "engine_inv api dimensions M E I R K g'" "selector_position g' = selector_position g"
    "own_positions E g' = own_positions E g" "terminal_position g' = terminal_position g"
proof -
  note F = set_assumption_fields [OF step]
  have same: "same_frame g g'" "last_var g' = last_var g" "rule_clauses g' = rule_clauses g"
    by (simp_all add: F(1) frame_defs rule_clauses_def)
  have abs: "map abs (assumed g') = map abs (assumed g)"
    using F(3) by (simp add: F(1) map_update f) (metis list_update_id nth_map)
  show "engine_inv api dimensions M E I R K g'"
  proof (rule inv_signs [OF inv same abs])
    fix j assume "assumed g' ! j \<noteq> assumed g ! j"
    then have "j = nat i" by (cases "j = nat i") (simp_all add: F(1))
    then show "j \<in> own_positions E g - terminal_position g ` E" using own by simp
  qed
  have base: "same_base g g'" using same(1) by (simp add: same_frame_def)
  show sp: "selector_position g' = selector_position g" using same(1) by (auto simp: frame_defs selector_position_def)
  show "terminal_position g' = terminal_position g" by (rule base_access(3) [OF base])
  show "own_positions E g' = own_positions E g" by (simp add: own_positions_def base_access(3,4) [OF base] sp)
qed

lemma inv_setDefaultValueActive:
  assumes inv: "engine_inv api dimensions M E I R K g" and v: "v \<in> E" and step: "sk_setDefaultValueActive v active g = Some g'"
  shows "engine_inv api dimensions M E I R K g'"
proof -
  obtain g1 g2 cc where g1: "set_assumption (\<lambda>l. setLiteralSign l active) (int (use_default_position g v)) g = Some g1"
    and g2: "(if selector_position g1 v \<noteq> - 1 then set_assumption (\<lambda>l. setLiteralSign l (\<not> active)) (selector_position g1 v) g1 else Some g1) = Some g2"
    and g': "g' = g2\<lparr>eng_consistency := cc\<rparr>"
    using step by (auto simp: sk_setDefaultValueActive_def split: bind_splits)
  have pos: "positions_ok E g" using inv by (simp add: engine_inv_def)
  have abs: "\<bar>setLiteralSign l b\<bar> = \<bar>l\<bar>" for l b by (simp add: setLiteralSign_eq var_def)
  have own: "nat (int (use_default_position g v)) \<in> own_positions E g - terminal_position g ` E"
    using pos v by (auto simp: own_positions_def positions_ok_def)
  note 1 = inv_set_assumption [OF inv g1 own abs]
  have "engine_inv api dimensions M E I R K g2"
  proof (cases "selector_position g v = - 1")
    case True
    then show ?thesis using g2 1 by simp
  next
    case False
    have "nat (selector_position g v) \<in> own_positions E g - terminal_position g ` E"
      using pos v False by (auto simp: own_positions_def positions_ok_def)
    then show ?thesis using inv_set_assumption(1) [OF 1(1) _ _ abs] g2 False by (simp add: 1)
  qed
  then show ?thesis by (rule inv_quiet) (simp add: g' adds_def frame_defs rule_clauses_def)
qed

end
