(* ===== verification/EngineRun.thy ===== *)
theory EngineRun
  imports EngineDefaults
begin

text \<open>
  Arbiters and checks under the invariant of the engine: a new arbiter is one more variable the
  rules may mention, its two clauses are forcing clauses, and no check changes the rules.
\<close>

section \<open>Arbiters\<close>

definition new_input :: "int \<Rightarrow> 'h engine \<Rightarrow> 'h engine \<Rightarrow> bool" where
  "new_input a g g' \<longleftrightarrow>
     a = last_var g + 1 \<and> eng_env g' = (eng_env g)\<lparr>env_last := a\<rparr> \<and> eng_validity g' = eng_validity g \<and>
     eng_defaults g' = eng_defaults g \<and> engine_controls g' = engine_controls g \<and>
     terminal_position g' = terminal_position g \<and> use_default_position g' = use_default_position g \<and>
     selector_position g' = selector_position g \<and> has_slot g' = has_slot g \<and>
     inputs g' = insert a (inputs g) \<and> outputs g' = outputs g \<and> arbiters_ok g'"

lemma inv_new_input:
  assumes inv: "engine_inv api dimensions M E I R K g" and new: "new_input a g g'"
  shows "engine_inv api dimensions M E I R K g'"
proof -
  have N: "a = last_var g + 1" "eng_env g' = (eng_env g)\<lparr>env_last := a\<rparr>" "eng_validity g' = eng_validity g"
    "eng_defaults g' = eng_defaults g" "engine_controls g' = engine_controls g"
    "terminal_position g' = terminal_position g" "use_default_position g' = use_default_position g"
    "selector_position g' = selector_position g" "has_slot g' = has_slot g"
    "inputs g' = insert a (inputs g)" "outputs g' = outputs g" "arbiters_ok g'"
    using new by (simp_all add: new_input_def)
  have parts: "E \<subseteq> outputs g" "positions_ok E g" "names_ok E I g" "assumed_ok E I g" "rules_ok E I R K g"
    "encodes E (engine_controls g) R I M (rule_clauses g)" "cnf_vars (rule_clauses g) \<subseteq> {..last_var g}" "handed_ok api dimensions E I K g"
    "cnf_vars M \<subseteq> inputs g" "sat_assumed (validity_check_solver (eng_validity g)) = []"
    using inv by (simp_all add: engine_inv_def)
  note D = names_okD [OF parts(3)]
  have H: "container_ok api dimensions K (eng_defaults g) (eng_env g)" using parts(8) by (simp add: handed_ok_def)
  then have n: "0 \<le> last_var g" by (simp add: container_ok_def)
  have "apart_names a (set (selectors (eng_validity g)) \<union> {}) (none_of (engine_controls g) ` E \<union> {})
      (use_of (engine_controls g) ` E \<union> {}) (abs ` set (assumed g) \<union> {}) (inputs g \<union> {a}) (I \<union> {})"
    by (rule apart_names_grow [of "last_var g"]) (use parts(3) n in \<open>simp_all add: names_ok_def apart_names_def N(1)\<close>)
  then have "names_ok E I g'" using D(1-4) by (simp add: names_ok_def N)
  moreover have "positions_ok E g'" "assumed_ok E I g'" using parts(2,4) by (simp_all add: positions_ok_def assumed_ok_def N)
  moreover have "rules_ok E I R K g'" by (rule rules_ok_grow [OF parts(5)]) (auto simp: N)
  moreover have "container_ok api dimensions K (eng_defaults g) (eng_env g')"
    by (rule container_ok_last [OF H]) (simp_all add: N(2), simp add: N(1))
  then have "handed_ok api dimensions E I K g'"
    using parts(8) by (auto simp: handed_ok_def N(2-11) own_positions_def)
  moreover have "rule_clauses g' = rule_clauses g" by (simp add: rule_clauses_def N)
  moreover have "cnf_vars (rule_clauses g) \<subseteq> {..last_var g'}" using parts(7) N(1,2) by auto
  moreover have "cnf_vars M \<subseteq> insert a (inputs g)" using parts(9) by blast
  ultimately show ?thesis using parts by (simp add: engine_inv_def N(3,5,10-12))
qed

lemma createArbiter_new_input:
  assumes ok: "arbiters_ok g" and v: "v \<in> outputs g" and vars: "clause_vars annotation \<subseteq> inputs g"
    and dom: "last_var g + 1 \<notin> inputs g" and step: "createArbiter v annotation g = (a, g')"
  shows "new_input a g g'" "existential_arbiter_map (eng_skolem g') v (sort annotation) = Some a"
proof -
  have a: "a = last_var g + 1" and g': "g' = g\<lparr>eng_env := (eng_env g)\<lparr>env_last := a\<rparr>,
      arbiter_to_existential := (arbiter_to_existential g)(a \<mapsto> v),
      eng_skolem := (eng_skolem g)\<lparr>arbiter_to_annotation := (arbiter_to_annotation (eng_skolem g))(a \<mapsto> sort annotation),
        existential_arbiter_map := (existential_arbiter_map (eng_skolem g))
          (v := (existential_arbiter_map (eng_skolem g) v)(sort annotation \<mapsto> a))\<rparr>\<rparr>"
    using step by (auto simp: createArbiter_def fresh_variable_def Let_def)
  have inputs: "inputs g' = insert a (inputs g)" by (auto simp: inputs_def g')
  have "engine_controls g' = engine_controls g" and "terminal_position g' = terminal_position g"
    "use_default_position g' = use_default_position g" "selector_position g' = selector_position g" "has_slot g' = has_slot g"
    by (simp_all add: g' engine_controls_def Let_def terminal_position_def use_default_position_def selector_position_def
        no_forcing_clause_active_def has_slot_def fun_eq_iff split: option.split)
  moreover have "arbiters_ok g'"
    unfolding arbiters_ok_def inputs
  proof (intro conjI allI impI)
    note old = ok [unfolded arbiters_ok_def]
    have fresh: "arbiter_to_existential g a = None" using dom by (auto simp: inputs_def a)
    fix e ann a' assume *: "existential_arbiter_map (eng_skolem g') e ann = Some a'"
    show "arbiter_to_existential g' a' = Some e"
    proof (cases "e = v \<and> ann = sort annotation")
      case False
      then have "existential_arbiter_map (eng_skolem g) e ann = Some a'" using * by (auto simp: g' split: if_splits)
      then have "arbiter_to_existential g a' = Some e" using old by blast
      then show ?thesis using fresh by (auto simp: g')
    qed (use * in \<open>simp add: g'\<close>)
  next
    fix a' e assume "arbiter_to_existential g' a' = Some e"
    then show "e \<in> outputs g'" using v ok by (auto simp: g' arbiters_ok_def split: if_splits)
  next
    fix a' ann assume "arbiter_to_annotation (eng_skolem g') a' = Some ann"
    then have "clause_vars ann \<subseteq> inputs g"
      using vars ok by (auto simp: g' arbiters_ok_def clause_vars_def split: if_splits)
    then show "clause_vars ann \<subseteq> insert a (inputs g)" by blast
  qed
  ultimately show "new_input a g g'" using a inputs by (simp add: new_input_def g')
  show "existential_arbiter_map (eng_skolem g') v (sort annotation) = Some a" by (simp add: g')
qed

lemma inv_forcing_clause:
  assumes inv: "engine_inv api dimensions M (outputs g) I R K g"
    and add: "sk_addForcingClause c reduced g = Some g' \<or> addArbiterClause c g = Some g'"
    and v: "var (List.last c) \<in> outputs g" and c: "clause_vars c \<subseteq> inputs g"
  shows "\<exists>I'. engine_inv api dimensions M (outputs g') I' (with_forcing (var (List.last c)) c R) K g'"
    "inputs g' = inputs g" "outputs g' = outputs g" "same_base g g'"
proof -
  have "has_slot g (var (List.last c))" using inv v by (simp add: engine_inv_def positions_ok_def)
  then have "adds_forcing_clause c g g'" using add sk_addForcingClause_adds addArbiterClause_adds by blast
  moreover from this have base: "same_base g g'"
    by (auto simp: adds_forcing_clause_def Let_def adds_rule_def same_frame_def)
  ultimately show "\<exists>I'. engine_inv api dimensions M (outputs g') I' (with_forcing (var (List.last c)) c R) K g'"
    "inputs g' = inputs g" "outputs g' = outputs g" "same_base g g'"
    using inv_forcing [OF inv _ v c] base_access(6,7) [OF base] by simp_all
qed

definition arbiter_clauses :: "int \<Rightarrow> int \<Rightarrow> int list \<Rightarrow> clause list" where
  "arbiter_clauses arbiter v annotation =
     [negateEach annotation @ [- arbiter, v], negateEach annotation @ [arbiter, - v]]"

lemma addArbiterClause_proper: "addArbiterClause c g = Some g' \<Longrightarrow> proper_arbiters (eng_skolem g') = proper_arbiters (eng_skolem g)"
  by (auto simp: addArbiterClause_def add_validity_def add_validities_def in_validity_def in_consistency_def in_model_def
      addForcingDisjunct_def forcing_disjunct_def fresh_variable_def add_extraction_def Let_def split: bind_splits if_splits prod.splits)

lemma inv_realizeArbiter:
  assumes inv: "engine_inv api dimensions M (outputs g) I R K g"
    and arb: "arbiter_to_existential g arbiter = Some v" and step: "realizeArbiter arbiter g = Some g'"
  shows "\<exists>I'. engine_inv api dimensions M (outputs g') I'
    (fold (with_forcing v) (arbiter_clauses arbiter v (getArbiterAnnotation arbiter g)) R) K g'"
    "outputs g' = outputs g" "inputs g' = inputs g" "getArbiterAnnotation arbiter g' = getArbiterAnnotation arbiter g"
    "proper_arbiters (eng_skolem g') = insert arbiter (proper_arbiters (eng_skolem g))"
proof -
  define g0 where "g0 = g\<lparr>eng_consistency := cc_addArbiterVariable v arbiter (eng_consistency g),
      eng_validity := vc_addArbiterVariable arbiter (eng_validity g)\<rparr>"
  let ?n = "negateEach (getArbiterAnnotation arbiter g)"
  have "getArbiterAnnotation arbiter g0 = getArbiterAnnotation arbiter g" by (simp add: g0_def getArbiterAnnotation_def)
  then obtain g1 g2 where g1: "addArbiterClause (?n @ [- arbiter, v]) g0 = Some g1"
    and g2: "addArbiterClause (?n @ [arbiter, - v]) g1 = Some g2"
    and g': "g' = g2\<lparr>eng_skolem := (eng_skolem g2)\<lparr>proper_arbiters := insert arbiter (proper_arbiters (eng_skolem g2))\<rparr>\<rparr>"
    using step arb unfolding realizeArbiter_def Let_def int_entry_def g0_def [symmetric]
    by (auto simp: g0_def split: bind_splits)
  have "adds [] g g0" by (simp add: g0_def adds_def frame_defs rule_clauses_def vc_addArbiterVariable_def)
  from inv_quiet [OF inv this] adds_access(6,7) [OF this]
  have inv0: "engine_inv api dimensions M (outputs g0) I R K g0" "inputs g0 = inputs g" "outputs g0 = outputs g" by simp_all
  have ok: "arbiters_ok g" "inputs g \<subseteq> {1..last_var g}"
    using inv names_okD(9) by (auto simp: engine_inv_def)
  have v: "v \<in> outputs g" "v \<in> inputs g" "arbiter \<in> inputs g" using ok(1) arb by (auto simp: arbiters_ok_def inputs_def)
  then have pos: "0 < v" "0 < arbiter" using ok(2) by force+
  have ann: "clause_vars ?n \<subseteq> inputs g"
  proof (cases "arbiter_to_annotation (eng_skolem g) arbiter")
    case (Some ann)
    then have "clause_vars ann \<subseteq> inputs g" using ok(1) by (simp add: arbiters_ok_def)
    then show ?thesis using Some by (auto simp: getArbiterAnnotation_def entry_def clause_vars_def negateEach_def)
  qed (simp add: getArbiterAnnotation_def entry_def)
  have var: "var v = v" "var (- v) = v" using pos by (simp_all add: var_def)
  have c1: "var (List.last (?n @ [- arbiter, v])) \<in> outputs g0" "clause_vars (?n @ [- arbiter, v]) \<subseteq> inputs g0"
    using v ann inv0(2,3) pos by (auto simp: var)
  note 1 = inv_forcing_clause [OF inv0(1) disjI2 [OF g1] c1]
  then obtain I1 where inv1: "engine_inv api dimensions M (outputs g1) I1 (with_forcing v (?n @ [- arbiter, v]) R) K g1" by (auto simp: var)
  have c2: "var (List.last (?n @ [arbiter, - v])) \<in> outputs g1" "clause_vars (?n @ [arbiter, - v]) \<subseteq> inputs g1"
    using v ann inv0(2,3) pos 1 by (auto simp: var)
  note 2 = inv_forcing_clause [OF inv1 disjI2 [OF g2] c2]
  then obtain I2 where inv2: "engine_inv api dimensions M (outputs g2) I2
      (with_forcing v (?n @ [arbiter, - v]) (with_forcing v (?n @ [- arbiter, v]) R)) K g2" by (auto simp: var)
  have "adds [] g2 g'" by (simp add: g' adds_def frame_defs rule_clauses_def)
  from inv_quiet [OF inv2 this] adds_access(6,7) [OF this] 1 2 inv0
  show "\<exists>I'. engine_inv api dimensions M (outputs g') I'
    (fold (with_forcing v) (arbiter_clauses arbiter v (getArbiterAnnotation arbiter g)) R) K g'"
    "outputs g' = outputs g" "inputs g' = inputs g"
    by (auto simp: arbiter_clauses_def)
  have "arbiter_to_annotation (eng_skolem g2) = arbiter_to_annotation (eng_skolem g)"
    using 1(4) 2(4) by (simp add: same_base_def g0_def)
  then show "getArbiterAnnotation arbiter g' = getArbiterAnnotation arbiter g" by (simp add: getArbiterAnnotation_def g')
  have "proper_arbiters (eng_skolem g2) = proper_arbiters (eng_skolem g)"
    using addArbiterClause_proper [OF g1] addArbiterClause_proper [OF g2] by (simp add: g0_def)
  then show "proper_arbiters (eng_skolem g') = insert arbiter (proper_arbiters (eng_skolem g))" by (simp add: g')
qed

text \<open>The rules after \<open>getArbiter\<close>: new ones when the arbiter is realised by this call.\<close>

definition realised_rules :: "int \<Rightarrow> int \<Rightarrow> 'h engine \<Rightarrow> 'h engine \<Rightarrow> rule_book \<Rightarrow> rule_book" where
  "realised_rules v arbiter g g' R =
     (if arbiter \<in> proper_arbiters (eng_skolem g') - proper_arbiters (eng_skolem g)
      then fold (with_forcing v) (arbiter_clauses arbiter v (getArbiterAnnotation arbiter g')) R else R)"

lemma inv_getArbiter:
  assumes inv: "engine_inv api dimensions M (outputs g) I R K g" and v: "v \<in> outputs g"
    and vars: "clause_vars assignment \<subseteq> inputs g" and step: "sk_getArbiter v assignment introduce g = Some ((arbiter, flags), g')"
  shows "\<exists>I'. engine_inv api dimensions M (outputs g') I' (realised_rules v arbiter g g' R) K g'" "outputs g' = outputs g"
proof -
  define a where "a = sort assignment"
  define g1 where "g1 = (if \<not> existsArbiter v a g then snd (createArbiter v a g) else g)"
  define arb where "arb = (case existential_arbiter_map (eng_skolem g1) v a of None \<Rightarrow> 0 | Some x \<Rightarrow> x)"
  obtain g2 where g2: "(if introduce \<and> arb \<notin> proper_arbiters (eng_skolem g1) then realizeArbiter arb g1 else Some g1) = Some g2"
    and g': "g' = g2" "arbiter = arb"
    using step unfolding sk_getArbiter_def Let_def a_def [symmetric] g1_def [symmetric] arb_def [symmetric]
    by (elim bind_SomeE) simp
  have a_vars: "clause_vars a \<subseteq> inputs g" using vars by (simp add: a_def clause_vars_def)
  have ok: "arbiters_ok g" using inv by (simp add: engine_inv_def)
  have "inputs g \<subseteq> {1..last_var g}" using inv names_okD(9) by (auto simp: engine_inv_def)
  then have fresh: "last_var g + 1 \<notin> inputs g" by force
  have proper: "proper_arbiters (eng_skolem g1) = proper_arbiters (eng_skolem g)"
    by (simp add: g1_def createArbiter_def fresh_variable_def Let_def)
  have 1: "engine_inv api dimensions M (outputs g1) I R K g1 \<and> outputs g1 = outputs g \<and> arbiter_to_existential g1 arb = Some v"
  proof (cases "existsArbiter v a g")
    case True
    then obtain x where "existential_arbiter_map (eng_skolem g) v a = Some x" by (auto simp: existsArbiter_def)
    with True ok inv show ?thesis by (simp add: g1_def arb_def arbiters_ok_def)
  next
    case False
    obtain x h where new: "createArbiter v a g = (x, h)" by (cases "createArbiter v a g")
    have g1: "g1 = h" using False new by (simp add: g1_def)
    note N = createArbiter_new_input [OF ok v a_vars fresh new]
    have "sort a = a" by (simp add: a_def sorted_sort_id)
    then have "arb = x" using N(2) by (simp add: arb_def g1)
    moreover have "arbiters_ok h" "outputs h = outputs g" using N(1) by (simp_all add: new_input_def)
    moreover from this have "arbiter_to_existential h x = Some v" using N(2) by (auto simp: arbiters_ok_def)
    ultimately show ?thesis using inv_new_input [OF inv N(1)] by (simp add: g1)
  qed
  have "(\<exists>I'. engine_inv api dimensions M (outputs g2) I' (realised_rules v arb g g2 R) K g2) \<and> outputs g2 = outputs g"
  proof (cases "introduce \<and> arb \<notin> proper_arbiters (eng_skolem g1)")
    case True
    with g2 have step2: "realizeArbiter arb g1 = Some g2" by simp
    note 2 = inv_realizeArbiter [OF conjunct1 [OF 1] _ step2]
    have "realised_rules v arb g g2 R = fold (with_forcing v) (arbiter_clauses arb v (getArbiterAnnotation arb g1)) R"
      using 1 2(4,5) True proper by (simp add: realised_rules_def)
    then show ?thesis using 1 2(1,2) by (metis (no_types, lifting))
  next
    case False
    then have "g2 = g1" using g2 by (simp split: if_splits)
    moreover from this have "realised_rules v arb g g2 R = R" using proper by (simp add: realised_rules_def)
    ultimately show ?thesis using conjunct1 [OF 1] conjunct2 [OF 1] by auto
  qed
  then show "\<exists>I'. engine_inv api dimensions M (outputs g') I' (realised_rules v arbiter g g' R) K g'" "outputs g' = outputs g"
    unfolding g' by blast+
qed

section \<open>Checks\<close>

definition same_rules :: "validity_checker \<Rightarrow> validity_checker \<Rightarrow> bool" where
  "same_rules s s' \<longleftrightarrow> selectors s' = selectors s \<and> variable_to_selector_index s' = variable_to_selector_index s \<and>
     sat_clauses (validity_check_solver s') = sat_clauses (validity_check_solver s) \<and>
     sat_assumed (validity_check_solver s') = sat_assumed (validity_check_solver s)"

lemma inv_same_rules:
  assumes "engine_inv api dimensions M E I R K g" "same_rules (eng_validity g) s"
  shows "engine_inv api dimensions M E I R K (g\<lparr>eng_validity := s\<rparr>)" "outputs (g\<lparr>eng_validity := s\<rparr>) = outputs g"
proof -
  have "adds [] g (g\<lparr>eng_validity := s\<rparr>)" using assms(2) by (simp add: adds_def frame_defs rule_clauses_def same_rules_def)
  from inv_quiet [OF assms(1) this] adds_access(7) [OF this]
  show "engine_inv api dimensions M E I R K (g\<lparr>eng_validity := s\<rparr>)" "outputs (g\<lparr>eng_validity := s\<rparr>) = outputs g" .
qed

lemma hasConflict_same_rules: "hasConflict orc es us as s = (b, s') \<Longrightarrow> same_rules s s'"
  by (auto simp: hasConflict_def same_rules_def Let_def split: prod.splits)

lemma same_rules_trans: "same_rules s s' \<Longrightarrow> same_rules s' s'' \<Longrightarrow> same_rules s s''"
  by (simp add: same_rules_def)

lemma getConflict_same_rules: "getConflict orc s = Some (c, s') \<Longrightarrow> same_rules s s'"
  by (auto simp: getConflict_def Let_def dest: hasConflict_same_rules split: bind_splits prod.splits if_splits)

lemma minimizeAssumptions_same_rules:
  "minimizeAssumptions orc i xs keep others s = Some (ys, s') \<Longrightarrow> same_rules s s'"
proof (induction orc i xs keep others s rule: minimizeAssumptions.induct)
  case (1 orc i xs keep others s)
  show ?case
  proof (cases "i < length xs")
    case True
    obtain b s1 where has: "hasConflict orc (butlast (xs[i := List.last xs])) keep others s = (b, s1)"
      by (cases "hasConflict orc (butlast (xs[i := List.last xs])) keep others s")
    have "same_rules s1 s'"
    proof (cases b)
      case True
      then show ?thesis using 1(1) [OF \<open>i < length xs\<close> refl refl has [symmetric] refl] 1(3) has \<open>i < length xs\<close>
        by (subst (asm) minimizeAssumptions.simps) (simp add: Let_def)
    next
      case False
      then have "i < length (butlast (xs[i := List.last xs]))"
        using 1(3) has \<open>i < length xs\<close> by (subst (asm) minimizeAssumptions.simps) (simp add: Let_def split: if_splits)
      then show ?thesis using 1(2) [OF \<open>i < length xs\<close> refl refl has [symmetric] refl] 1(3) has \<open>i < length xs\<close> False
        by (subst (asm) (2) minimizeAssumptions.simps) (simp add: Let_def)
    qed
    with hasConflict_same_rules [OF has] show ?thesis by (rule same_rules_trans)
  next
    case False
    then show ?thesis using 1(3) by (simp add: minimizeAssumptions.simps same_rules_def)
  qed
qed

lemma getExistentialResponse_same_rules: "getExistentialResponse orc us as s = (es, s') \<Longrightarrow> same_rules s s'"
  by (auto simp: getExistentialResponse_def same_rules_def Let_def split: prod.splits)

lemma setFailingAssignments_same_rules:
  "setFailingAssignments conf mf a2e c as s = Some s' \<Longrightarrow> same_rules s s'"
  by (auto simp: setFailingAssignments_def same_rules_def Let_def split: if_splits bind_splits)

lemma solve_validity_same_rules:
  assumes "solve_validity orc as g = (r, g')" "sat_assumed (validity_check_solver (eng_validity g)) = []"
  obtains s where "g' = g\<lparr>eng_validity := s\<rparr>" "same_rules (eng_validity g) s"
  using assms by (auto simp: solve_validity_def same_rules_def sat_solve_def Let_def)

lemma inv_consistency:
  assumes "engine_inv api dimensions M E I R K g"
  shows "engine_inv api dimensions M E I R K (g\<lparr>eng_consistency := cc\<rparr>)"
proof -
  have "adds [] g (g\<lparr>eng_consistency := cc\<rparr>)" by (simp add: adds_def frame_defs rule_clauses_def)
  then show ?thesis by (rule inv_quiet [OF assms])
qed

lemma inv_checkArbiterAssignment:
  assumes inv: "engine_inv api dimensions M E I R K g"
    and step: "vc_checkArbiterAssignment conf mf vo co undefineds as g = Some (b, g')"
  shows "engine_inv api dimensions M E I R K g' \<and> outputs g' = outputs g"
proof -
  obtain r g1 where solve: "solve_validity vo as g = (r, g1)" by (cases "solve_validity vo as g")
  have "sat_assumed (validity_check_solver (eng_validity g)) = []" using inv by (simp add: engine_inv_def)
  with solve obtain s where "g1 = g\<lparr>eng_validity := s\<rparr>" "same_rules (eng_validity g) s" by (rule solve_validity_same_rules)
  with inv_same_rules [OF inv] have 1: "engine_inv api dimensions M E I R K g1" "outputs g1 = outputs g" by simp_all
  show ?thesis
  proof (cases "r = 10")
    case True
    then obtain s' where s': "setFailingAssignments conf mf (arbiter_to_existential g1) (eng_dependencies g1) as (eng_validity g1) = Some s'"
      and g': "g' = g1\<lparr>eng_validity := s'\<rparr>"
      using step solve by (auto simp: vc_checkArbiterAssignment_def split: bind_splits)
    with inv_same_rules [OF 1(1) setFailingAssignments_same_rules [OF s']] 1(2) show ?thesis by simp
  next
    case False
    then obtain cex cc where g': "g' = g1\<lparr>eng_consistency := cc, eng_validity := store_counterexample cex (eng_validity g1)\<rparr>"
      using step solve unfolding vc_checkArbiterAssignment_def sk_checkConsistency_def Let_def
      by (auto split: bind_splits if_splits prod.splits)
    have "same_rules (eng_validity (g1\<lparr>eng_consistency := cc\<rparr>)) (store_counterexample cex (eng_validity g1))"
      by (auto simp: same_rules_def store_counterexample_def split: option.splits)
    from inv_same_rules [OF inv_consistency [OF 1(1)] this] 1(2) show ?thesis by (simp add: g')
  qed
qed

lemma inv_getConflict:
  assumes inv: "engine_inv api dimensions M E I R K g" and step: "vc_getConflict orc g = Some (c, g')"
  shows "engine_inv api dimensions M E I R K g' \<and> outputs g' = outputs g"
proof -
  obtain s where s: "getConflict orc (eng_validity g) = Some (c, s)" "g' = g\<lparr>eng_validity := s\<rparr>"
    using step by (auto simp: vc_getConflict_def split: bind_splits)
  with inv_same_rules [OF inv getConflict_same_rules [OF s(1)]] show ?thesis by simp
qed

end
