(* ===== verification/EngineStart.thy ===== *)
theory EngineStart
  imports EngineRun Utils_Correct
begin

text \<open>
  The objects after their constructors: the negated matrix with its clause variables, one selector
  per existential variable, and then the initial clauses of one variable after the other, each of
  which joins the encoded variables.
\<close>

section \<open>The counter of the consistency checker\<close>

lemma init_variables_last: "init_variables vs (n, s) = Some (n', s') \<Longrightarrow> n \<le> n'"
proof (induction vs arbitrary: n s)
  case (Cons v vs)
  then obtain n1 s1 n2 s2 where 1: "initVariableData v (n, s) = Some (n1, s1)" "add_conflict_variable v (n1, s1) = (n2, s2)"
    "init_variables vs (n2, s2) = Some (n', s')"
    by (cases "add_conflict_variable v (fst (the (initVariableData v (n, s))), snd (the (initVariableData v (n, s))))")
      (auto split: bind_splits)
  have "n1 = n + 5" using 1(1) by (auto simp: initVariableData_def Let_def split: bind_splits)
  moreover have "n2 = n1 + 1" using 1(2) by (auto simp: add_conflict_variable_def)
  ultimately show ?case using Cons.IH [OF 1(3)] by simp
qed simp

lemma encode_variable_last: "encode_variable cv (n, s) = Some (n', s') \<Longrightarrow> n \<le> n'"
  by (auto simp: encode_variable_def Let_def dest!: grow_default_last grow_literal_last split: bind_splits prod.splits)

lemma encode_variables_last: "encode_variables cvs (n, s) = Some (n', s') \<Longrightarrow> n \<le> n'"
proof (induction cvs arbitrary: n s)
  case (Cons cv cvs)
  then obtain n1 s1 where "encode_variable cv (n, s) = Some (n1, s1)" "encode_variables cvs (n1, s1) = Some (n', s')"
    by (auto split: bind_splits)
  with Cons.IH encode_variable_last show ?case by (meson order_trans)
qed simp

lemma new_ConsistencyChecker_last: "new_ConsistencyChecker es us n = Some (n', s) \<Longrightarrow> n \<le> n'"
  by (auto simp: new_ConsistencyChecker_def cc_initEncoding_def split: bind_splits dest!: init_variables_last encode_variables_last)

section \<open>The validity checker\<close>

lemma add_selectors:
  "fold add_selector es (n, s) = (n', s') \<Longrightarrow> distinct es \<Longrightarrow>
    n' = n + int (length es) \<and> selectors s' = selectors s @ map (\<lambda>i. n + 1 + int i) [0..<length es] \<and>
    (\<forall>i<length es. variable_to_selector_index s' (es ! i) = Some (length (selectors s) + i)) \<and>
    (\<forall>v. v \<notin> set es \<longrightarrow> variable_to_selector_index s' v = variable_to_selector_index s v) \<and>
    validity_check_solver s' = validity_check_solver s"
proof (induction es arbitrary: n s)
  case (Cons e es)
  obtain s1 where s1: "add_selector e (n, s) = (n + 1, s1)" "selectors s1 = selectors s @ [n + 1]"
    "variable_to_selector_index s1 = (variable_to_selector_index s)(e \<mapsto> length (selectors s))"
    "validity_check_solver s1 = validity_check_solver s"
    by (simp add: add_selector_def)
  have "fold add_selector es (n + 1, s1) = (n', s')" "distinct es" "e \<notin> set es" using Cons.prems s1(1) by simp_all
  note IH = Cons.IH [OF this(1,2)] and e = this(3)
  have "map (\<lambda>i. n + 1 + int i) [0..<length (e # es)] = (n + 1) # map (\<lambda>i. n + 1 + 1 + int i) [0..<length es]"
    by (simp add: upt_conv_Cons map_Suc_upt [symmetric] comp_def algebra_simps del: upt_Suc)
  moreover have "variable_to_selector_index s' ((e # es) ! i) = Some (length (selectors s) + i)" if "i < length (e # es)" for i
    using IH s1 e that by (cases i) auto
  ultimately show ?case using IH s1 by auto
qed simp

text \<open>The constructor: the clauses are the negated matrix, the selectors follow the given counter.\<close>

lemma max_variable_bounds: "0 \<le> max_variable vs \<or> vs \<noteq> []" "v \<in> set vs \<Longrightarrow> v \<le> max_variable vs"
  by (auto simp: max_variable_def)

lemma new_SimpleValidityChecker_fields:
  assumes new: "new_SimpleValidityChecker existentials universals matrix n = Some (n1, s)"
    and es: "distinct existentials" "\<forall>v\<in>set existentials \<union> set universals. 0 < v" and matrix: "wf_cnf matrix"
      "cnf_vars matrix \<subseteq> set existentials \<union> set universals"
  obtains m where "0 \<le> m" "set existentials \<union> set universals \<subseteq> {1..m}"
    "m + int (length existentials) \<le> n1"
    "selectors s = map (\<lambda>i. m + 1 + int i) [0..<length existentials]"
    "bij_betw (selector_index s) (set existentials) {..<length (selectors s)}"
    "sat_assumed (validity_check_solver s) = []"
    "cnf_vars (sat_clauses (validity_check_solver s)) \<subseteq> {..n1}"
    "\<And>\<beta>. \<not> cnf_sat \<beta> matrix \<Longrightarrow> \<exists>\<gamma>. (\<forall>v. v \<notin> {m + int (length existentials)<..n1} \<longrightarrow> \<gamma> v = \<beta> v) \<and>
       cnf_sat \<gamma> (sat_clauses (validity_check_solver s))"
proof -
  define m where "m = max n (max (max_variable existentials) (max_variable universals))"
  define es' where "es' = sort existentials"
  define s0 where "s0 = \<lparr>selectors = [], clause_satisfied_variables = [], variable_to_selector_index = Map.empty,
                   vc_existentials = es', vc_universals = universals,
                   failing_existential_assignment = [], failing_universal_assignment = [],
                   failing_arbiter_assignment = [], full_universal_assignment = [],
                   full_existential_assignment = [], vc_matrix = matrix,
                   validity_check_solver = init_solver,
                   conflict_extraction_solver = sat_appendFormula matrix init_solver,
                   vc_tracker = new_SupportTracker universals\<rparr>"
  obtain k s1 where fold: "fold add_selector es' (m, s0) = (k, s1)" by (cases "fold add_selector es' (m, s0)")
  obtain N cvs lst where neg: "negateFormula matrix k = (N, cvs, lst)" by (cases "negateFormula matrix k")
  have max: "m \<ge> maxVarIndex matrix" and n1: "n1 = lst"
    and s: "s = s1\<lparr>clause_satisfied_variables := cvs, validity_check_solver := sat_appendFormula N (validity_check_solver s1),
        vc_tracker := fold track_variable es' (vc_tracker s1)\<rparr>"
    using new fold neg unfolding new_SimpleValidityChecker_def Let_def m_def [symmetric] es'_def [symmetric] s0_def [symmetric]
    by (auto split: if_splits)
  have es': "distinct es'" "set es' = set existentials" "length es' = length existentials" using es(1) by (simp_all add: es'_def)
  note A = add_selectors [OF fold es'(1)]
  have le: "v \<le> m" if "v \<in> set existentials \<union> set universals" for v
    using that max_variable_bounds(2) [of v existentials] max_variable_bounds(2) [of v universals] by (auto simp: m_def)
  have m: "0 \<le> m"
  proof (cases "existentials = []")
    case False
    then have "hd existentials \<in> set existentials \<union> set universals" by simp
    with es(2) le have "0 < hd existentials" "hd existentials \<le> m" by blast+
    then show ?thesis by simp
  qed (simp add: m_def max_variable_def)
  have start: "negate_start matrix k = m + int (length existentials)"
  proof (cases "0 < k")
    case True
    then show ?thesis using A es'(3) by (simp add: negate_start_def)
  next
    case False
    moreover have "k = m + int (length existentials)" using A es'(3) by simp
    ultimately have "k = 0" "m = 0" "length existentials = 0" using m by linarith+
    moreover have "0 \<le> maxVarIndex matrix" by (simp add: maxVarIndex_eq fold_max_ge)
    ultimately show ?thesis using max by (simp add: negate_start_def)
  qed
  have clauses: "sat_clauses (validity_check_solver s) = N" "sat_assumed (validity_check_solver s) = []"
    using A by (simp_all add: s s0_def init_solver_def)
  have below: "cnf_vars matrix \<subseteq> {..m}" using matrix(2) le by blast
  have start0: "0 \<le> negate_start matrix k" using start m by simp
  note V = negateFormula_cnf_vars [OF neg start0]
  show ?thesis
  proof (rule that [of m])
    show "0 \<le> m" by (rule m)
    show "set existentials \<union> set universals \<subseteq> {1..m}"
    proof
      fix v assume "v \<in> set existentials \<union> set universals"
      with es(2) le have "0 < v" "v \<le> m" by blast+
      then show "v \<in> {1..m}" by simp
    qed
    show "m + int (length existentials) \<le> n1" using V(2) start n1 by simp
    show sel: "selectors s = map (\<lambda>i. m + 1 + int i) [0..<length existentials]" using A es'(3) by (simp add: s s0_def)
    have idx: "selector_index s (es' ! i) = i" if "i < length existentials" for i
      using A that es'(3) by (simp add: selector_index_def s s0_def)
    show "bij_betw (selector_index s) (set existentials) {..<length (selectors s)}"
    proof (rule bij_betwI')
      fix v w assume "v \<in> set existentials" "w \<in> set existentials"
      then obtain i j where "i < length existentials" "v = es' ! i" "j < length existentials" "w = es' ! j"
        by (metis es'(2,3) in_set_conv_nth)
      then show "(selector_index s v = selector_index s w) = (v = w)" using idx es'(1,3) by (auto simp: nth_eq_iff_index_eq)
    next
      fix v assume "v \<in> set existentials"
      then obtain i where "i < length existentials" "v = es' ! i" by (metis es'(2,3) in_set_conv_nth)
      then show "selector_index s v \<in> {..<length (selectors s)}" using idx sel by simp
    next
      fix i assume "i \<in> {..<length (selectors s)}"
      then show "\<exists>v\<in>set existentials. i = selector_index s v" using idx sel es'(2,3) nth_mem [of i es']
        by (intro bexI [of _ "es' ! i"]) auto
    qed
    show "sat_assumed (validity_check_solver s) = []" by (rule clauses(2))
    show "cnf_vars (sat_clauses (validity_check_solver s)) \<subseteq> {..n1}"
      using V below n1 start m unfolding clauses(1) by fastforce
    fix \<beta> assume "\<not> cnf_sat \<beta> matrix"
    moreover have "cnf_vars matrix \<subseteq> {..negate_start matrix k}" using below start by fastforce
    ultimately obtain \<delta> where \<delta>: "agree_upto (negate_start matrix k) \<beta> \<delta>" "cnf_sat \<delta> N"
      using negateFormula_satisfiable [OF neg matrix(1)] by blast
    define \<gamma> where "\<gamma> = (\<lambda>v. if v \<in> {m + int (length existentials)<..n1} then \<delta> v else \<beta> v)"
    have "cnf_sat \<gamma> N = cnf_sat \<delta> N"
    proof (rule cnf_sat_cong)
      fix v assume "v \<in> cnf_vars N"
      then have "v \<in> cnf_vars matrix \<or> v \<in> {m + int (length existentials)<..n1}" using V(1) start n1 by auto
      then show "\<gamma> v = \<delta> v" using \<delta>(1) below start by (auto simp: \<gamma>_def agree_upto_def)
    qed
    then show "\<exists>\<gamma>. (\<forall>v. v \<notin> {m + int (length existentials)<..n1} \<longrightarrow> \<gamma> v = \<beta> v) \<and>
       cnf_sat \<gamma> (sat_clauses (validity_check_solver s))"
      using \<delta>(2) by (intro exI [of _ \<gamma>]) (simp add: clauses(1) \<gamma>_def)
  qed
qed

section \<open>One variable joins\<close>

definition joins :: "int \<Rightarrow> 'h engine \<Rightarrow> 'h engine \<Rightarrow> bool" where
  "joins e g g' \<longleftrightarrow>
     (let n = last_var g; A = assumed g; sel = selector_of (engine_controls g) e in
      last_var g' = n + 4 \<and> assumed g' = A @ [- (n + 2), n + 4] \<and>
      rule_clauses g' = rule_clauses g @ guarded sel (initial_encoding (n + 1) (n + 3) (n + 4) (n + 2)) \<and>
      eng_defaults g' = eng_defaults g \<and> env_defaults (eng_env g') = env_defaults (eng_env g) \<and>
      eng_dependencies g' = eng_dependencies g \<and> arbiter_to_existential g' = arbiter_to_existential g \<and>
      sk_universals (eng_skolem g') = sk_universals (eng_skolem g) \<and> sk_existentials (eng_skolem g') = sk_existentials (eng_skolem g) \<and>
      arbiter_to_annotation (eng_skolem g') = arbiter_to_annotation (eng_skolem g) \<and>
      existential_arbiter_map (eng_skolem g') = existential_arbiter_map (eng_skolem g) \<and>
      selectors (eng_validity g') = selectors (eng_validity g) \<and>
      variable_to_selector_index (eng_validity g') = variable_to_selector_index (eng_validity g) \<and>
      sat_assumed (validity_check_solver (eng_validity g')) = sat_assumed (validity_check_solver (eng_validity g)) \<and>
      variable_to_forcing_disjunction (eng_skolem g') =
        (variable_to_forcing_disjunction (eng_skolem g))(e \<mapsto> \<lparr>terminal_index = int (length A)\<rparr>) \<and>
      variable_to_no_forcing_clause_active_variable (eng_skolem g') =
        (variable_to_no_forcing_clause_active_variable (eng_skolem g))(e \<mapsto> n + 1) \<and>
      variable_to_use_default_index (eng_skolem g') = (variable_to_use_default_index (eng_skolem g))(e \<mapsto> length A + 1) \<and>
      variable_to_default_function_selector_index (eng_skolem g') =
        (variable_to_default_function_selector_index (eng_skolem g))(e \<mapsto> - 1) \<and>
      apply_default (eng_skolem g') = (apply_default (eng_skolem g))(e \<mapsto> n + 3))"

lemma initVariable_joins:
  assumes init: "initVariable e g = Some g'" and new: "variable_to_forcing_disjunction (eng_skolem g) e = None"
  shows "joins e g g'"
proof -
  let ?n = "last_var g" and ?A = "assumed g"
  define ga where "ga = g\<lparr>eng_skolem := (eng_skolem g)\<lparr>variable_to_forcing_disjunction :=
         emplace (variable_to_forcing_disjunction (eng_skolem g)) e new_Disjunction\<rparr>\<rparr>"
  obtain none gb p initial q d gd g2 u gf w gg g3 where none: "fresh_variable ga = (none, gb)"
    and p: "forcing_disjunct e [none] (gb\<lparr>eng_skolem := (eng_skolem gb)\<lparr>variable_to_no_forcing_clause_active_variable :=
         (variable_to_no_forcing_clause_active_variable (eng_skolem gb))(e \<mapsto> none)\<rparr>,
         eng_validity := setNoForcingClauseActiveVariable e none (eng_validity gb)\<rparr>) = Some p" "p = (initial, q)" "q = (d, gd)"
    and g2: "add_validities e [initial] (gd\<lparr>eng_skolem := (eng_skolem gd)\<lparr>variable_to_forcing_disjunction :=
         (variable_to_forcing_disjunction (eng_skolem gd))(e \<mapsto> d)\<rparr>\<rparr>) = Some g2"
    and u: "fresh_variable g2 = (u, gf)" and w: "fresh_variable gf = (w, gg)"
    and g3: "add_validities e [[- none, - w, u]] (gg\<lparr>eng_skolem := (eng_skolem gg)\<lparr>apply_default := (apply_default (eng_skolem gg))(e \<mapsto> u),
           variable_to_use_default_index := (variable_to_use_default_index (eng_skolem gg))(e \<mapsto> length (assumed gg))\<rparr>,
         eng_env := (eng_env gg)\<lparr>env_assumptions := assumed gg @ [w]\<rparr>\<rparr>) = Some g3"
    and g': "Some (g3\<lparr>eng_skolem := (eng_skolem g3)\<lparr>variable_to_default_function_selector_index :=
         (variable_to_default_function_selector_index (eng_skolem g3))(e \<mapsto> - 1)\<rparr>\<rparr>) = Some g'"
    using init unfolding initVariable_def Let_def add_validity_single ga_def [symmetric]
    by (elim bind_SomeE case_prod_SomeE, intro that) (assumption)+
  define gc where "gc = gb\<lparr>eng_skolem := (eng_skolem gb)\<lparr>variable_to_no_forcing_clause_active_variable :=
         (variable_to_no_forcing_clause_active_variable (eng_skolem gb))(e \<mapsto> none)\<rparr>,
         eng_validity := setNoForcingClauseActiveVariable e none (eng_validity gb)\<rparr>"
  define ge where "ge = gd\<lparr>eng_skolem := (eng_skolem gd)\<lparr>variable_to_forcing_disjunction :=
         (variable_to_forcing_disjunction (eng_skolem gd))(e \<mapsto> d)\<rparr>\<rparr>"
  define gh where "gh = gg\<lparr>eng_skolem := (eng_skolem gg)\<lparr>apply_default := (apply_default (eng_skolem gg))(e \<mapsto> u),
           variable_to_use_default_index := (variable_to_use_default_index (eng_skolem gg))(e \<mapsto> length (assumed gg))\<rparr>,
         eng_env := (eng_env gg)\<lparr>env_assumptions := assumed gg @ [w]\<rparr>\<rparr>"
  note p = p(1) [unfolded p(2,3), folded gc_def] and g2 = g2 [folded ge_def] and g3 = g3 [folded gh_def]
  have b: "none = ?n + 1" "gb = ga\<lparr>eng_env := (eng_env ga)\<lparr>env_last := ?n + 1\<rparr>\<rparr>"
    using none by (auto simp: fresh_variable_def Let_def ga_def)
  have slot: "variable_to_forcing_disjunction (eng_skolem gc) e = Some new_Disjunction"
    using new by (simp add: gc_def b ga_def emplace_def)
  have d: "initial = [none, ?n + 2]" "d = \<lparr>terminal_index = int (length ?A)\<rparr>"
    "gd = gc\<lparr>eng_env := (eng_env gc)\<lparr>env_last := ?n + 2, env_assumptions := ?A @ [- (?n + 2)]\<rparr>\<rparr>"
    using p slot by (auto simp: forcing_disjunct_def createDisjunct_def new_Disjunction_def gc_def b ga_def Let_def)
  note A2 = add_validities_adds [OF g2] and A3 = add_validities_adds [OF g3]
  have e2: "last_var g2 = ?n + 2" "assumed g2 = ?A @ [- (?n + 2)]" using A2(5) by (simp_all add: ge_def d(3))
  have f: "u = ?n + 3" "w = ?n + 4" "gg = g2\<lparr>eng_env := (eng_env g2)\<lparr>env_last := ?n + 4\<rparr>\<rparr>"
    using u w by (auto simp: fresh_variable_def Let_def e2)
  have sel: "selector_of (engine_controls ge) e = selector_of (engine_controls g) e"
    "selector_of (engine_controls gh) e = selector_of (engine_controls ge) e"
    using A2(1) by (auto simp: engine_controls_def Let_def ge_def d(3) gc_def b ga_def gh_def f(3) setNoForcingClauseActiveVariable_def
        adds_def frame_defs selector_index_def)
  show ?thesis
    using A2(1) A3(1,5) new unfolding sel
    by (simp add: joins_def Let_def adds_def frame_defs gh_def f ge_def d gc_def b ga_def setNoForcingClauseActiveVariable_def
        initial_encoding_def rule_clauses_def emplace_def e2 g' [symmetric, simplified])
qed

lemma joins_access:
  assumes "joins e g g'"
  shows "terminal_position g' = (terminal_position g)(e := length (assumed g))"
    "use_default_position g' = (use_default_position g)(e := length (assumed g) + 1)"
    "selector_position g' = (selector_position g)(e := - 1)"
    "none_of (engine_controls g') = (none_of (engine_controls g))(e := last_var g + 1)"
    "use_of (engine_controls g') = (use_of (engine_controls g))(e := last_var g + 3)"
    "selector_of (engine_controls g') = selector_of (engine_controls g)" "inputs g' = inputs g" "outputs g' = outputs g"
    "arbiters_ok g' = arbiters_ok g" "selector_index (eng_validity g') = selector_index (eng_validity g)"
    "has_slot g v \<or> v = e \<Longrightarrow> has_slot g' v"
proof -
  note J = assms [unfolded joins_def Let_def]
  show "terminal_position g' = (terminal_position g)(e := length (assumed g))"
    "use_default_position g' = (use_default_position g)(e := length (assumed g) + 1)"
    "selector_position g' = (selector_position g)(e := - 1)"
    using J by (intro ext, simp add: terminal_position_def use_default_position_def selector_position_def int_entry_def)+
  show "none_of (engine_controls g') = (none_of (engine_controls g))(e := last_var g + 1)"
    "use_of (engine_controls g') = (use_of (engine_controls g))(e := last_var g + 3)"
    using J by (intro ext, simp add: engine_controls_def Let_def no_forcing_clause_active_def int_entry_def)+
  show "selector_of (engine_controls g') = selector_of (engine_controls g)" "inputs g' = inputs g" "outputs g' = outputs g"
    "arbiters_ok g' = arbiters_ok g"
    using J by (simp_all add: engine_controls_def Let_def selector_index_def inputs_def arbiters_ok_def)
  show "selector_index (eng_validity g') = selector_index (eng_validity g)"
    using J by (intro ext) (simp add: selector_index_def)
  show "has_slot g v \<or> v = e \<Longrightarrow> has_slot g' v"
    using J by (auto simp: has_slot_def split: option.splits)
qed

lemma inv_joins:
  assumes inv: "engine_inv api dimensions M E I R K g" and join: "joins e g g'" and e: "e \<in> outputs g" "e \<notin> E"
  shows "engine_inv api dimensions M (insert e E) (insert (last_var g + 2) I) (without_rules e R) K g'"
proof -
  let ?n = "last_var g" and ?A = "assumed g" and ?X = "engine_controls g"
  let ?new = "[- (?n + 2), ?n + 4]" and ?I = "insert (?n + 2) I" and ?E = "insert e E"
  have J: "last_var g' = ?n + 4" "assumed g' = ?A @ ?new"
    "rule_clauses g' = rule_clauses g @ guarded (selector_of ?X e) (initial_encoding (?n + 1) (?n + 3) (?n + 4) (?n + 2))"
    "eng_defaults g' = eng_defaults g" "env_defaults (eng_env g') = env_defaults (eng_env g)"
    "selectors (eng_validity g') = selectors (eng_validity g)"
    "sat_assumed (validity_check_solver (eng_validity g')) = sat_assumed (validity_check_solver (eng_validity g))"
    using join by (simp_all add: joins_def Let_def)
  note acc = joins_access [OF join]
  have parts: "E \<subseteq> outputs g" "positions_ok E g" "names_ok E I g" "assumed_ok E I g" "rules_ok E I R K g"
    "encodes E ?X R I M (rule_clauses g)" "cnf_vars (rule_clauses g) \<subseteq> {..?n}" "handed_ok api dimensions E I K g"
    "cnf_vars M \<subseteq> inputs g" "sat_assumed (validity_check_solver (eng_validity g)) = []" "arbiters_ok g"
    using inv by (simp_all add: engine_inv_def)
  note D = names_okD [OF parts(3)]
  have H: "container_ok api dimensions K (eng_defaults g) (eng_env g)" using parts(8) by (simp add: handed_ok_def)
  then have n: "0 \<le> ?n" by (simp add: container_ok_def)
  have sel: "selector_of ?X e \<in> {1..?n}" "selector_of ?X e \<notin> I"
  proof -
    have "selector_of ?X e \<in> set (selectors (eng_validity g))" using selector_of_engine(1) [OF D(1)] e(1) by blast
    then show "selector_of ?X e \<in> {1..?n}" "selector_of ?X e \<notin> I" using D(5,11) by blast+
  qed
  have old: "terminal_position g v < length ?A" "use_default_position g v < length ?A" "v \<noteq> e" if "v \<in> E" for v
    using parts(2) terminal_in_range that e(2) by (auto simp: positions_ok_def)
  have tp: "terminal_position g' ` ?E = insert (length ?A) (terminal_position g ` E)"
    "use_default_position g' ` ?E = insert (length ?A + 1) (use_default_position g ` E)"
    using old(3) by (auto simp: acc(1,2))
  have pos: "positions_ok ?E g'"
    unfolding positions_ok_def
  proof (intro conjI ballI impI)
    fix v assume v: "v \<in> ?E"
    show "has_slot g' v" using parts(2) v by (intro acc(11)) (auto simp: positions_ok_def)
    show "use_default_position g' v < length (assumed g')" using v old(2) by (auto simp: acc(2) J(2) less_SucI)
    assume "selector_position g' v \<noteq> - 1"
    then have "v \<in> E" "selector_position g' v = selector_position g v" "selector_position g v \<noteq> - 1"
      using v by (auto simp: acc(3) split: if_splits)
    then show "0 \<le> selector_position g' v" "nat (selector_position g' v) < length (assumed g')"
      "nat (selector_position g' v) \<notin> terminal_position g' ` ?E"
      using parts(2) unfolding tp(1) by (fastforce simp: positions_ok_def J(2))+
  next
    have "inj_on (terminal_position g) E" using parts(2) by (simp add: positions_ok_def)
    then have "inj_on (terminal_position g') E" using old(3) by (auto simp: inj_on_def acc(1))
    moreover have "terminal_position g' e \<notin> terminal_position g' ` (E - {e})" using old by (force simp: acc(1))
    ultimately show "inj_on (terminal_position g') ?E" by (simp add: inj_on_insert)
    have "terminal_position g ` E \<inter> use_default_position g ` E = {}" using parts(2) by (simp add: positions_ok_def)
    then show "terminal_position g' ` ?E \<inter> use_default_position g' ` ?E = {}" unfolding tp using old(1,2) by force
  qed
  have img: "none_of (engine_controls g') ` ?E = none_of ?X ` E \<union> {?n + 1}" "use_of (engine_controls g') ` ?E = use_of ?X ` E \<union> {?n + 3}"
    using old(3) by (auto simp: acc(4,5))
  have "abs ` set (assumed g') = abs ` set ?A \<union> {?n + 2, ?n + 4}" using n by (auto simp: J(2))
  note img = img this
  have "apart_names (?n + 4) (set (selectors (eng_validity g)) \<union> {}) (none_of ?X ` E \<union> {?n + 1})
      (use_of ?X ` E \<union> {?n + 3}) (abs ` set ?A \<union> {?n + 2, ?n + 4}) (inputs g \<union> {}) (I \<union> {?n + 2})"
    by (rule apart_names_grow [of ?n]) (use parts(3) n in \<open>simp_all add: names_ok_def apart_names_def\<close>)
  then have apart: "apart_names (?n + 4) (set (selectors (eng_validity g))) (none_of ?X ` E \<union> {?n + 1})
      (use_of ?X ` E \<union> {?n + 3}) (abs ` set ?A \<union> {?n + 2, ?n + 4}) (inputs g) ?I" by simp
  have "inj_on (none_of (engine_controls g')) ?E" "inj_on (use_of (engine_controls g')) ?E"
  proof -
    have "inj_on (none_of (engine_controls g')) E" "inj_on (use_of (engine_controls g')) E"
      using D(3,4) old(3) by (auto simp: inj_on_def acc(4,5))
    moreover have "none_of (engine_controls g') ` (E - {e}) \<subseteq> {1..?n}" "use_of (engine_controls g') ` (E - {e}) \<subseteq> {1..?n}"
      using D(6,7) by (auto simp: acc(4,5))
    then have "?n + 1 \<notin> none_of (engine_controls g') ` (E - {e})" "?n + 3 \<notin> use_of (engine_controls g') ` (E - {e})" by auto
    then have "none_of (engine_controls g') e \<notin> none_of (engine_controls g') ` (E - {e})"
      "use_of (engine_controls g') e \<notin> use_of (engine_controls g') ` (E - {e})"
      by (simp_all add: acc(4,5))
    ultimately show "inj_on (none_of (engine_controls g')) ?E" "inj_on (use_of (engine_controls g')) ?E"
      by (simp_all add: inj_on_insert)
  qed
  with apart D(1,2) have names: "names_ok ?E ?I g'" unfolding names_ok_def img acc(7,8,10) J(1,6) by blast
  have W: "\<bar>?A ! i\<bar> \<in> {1..?n}" if "i < length ?A" for i using D(8) nth_mem [OF that] by blast
  have new_nth: "i = length ?A \<and> assumed g' ! i = - (?n + 2) \<or> i = length ?A + 1 \<and> assumed g' ! i = ?n + 4"
    if "i < length (assumed g')" "\<not> i < length ?A" for i
    using that by (auto simp: J(2) nth_append less_Suc_eq)
  have assumed: "assumed_ok ?E ?I g'"
    unfolding assumed_ok_def tp
  proof (intro conjI allI impI ballI)
    show "distinct (map abs (assumed g'))" using parts(4) D(8) n by (fastforce simp: assumed_ok_def J(2))
    fix i assume i: "i < length (assumed g')"
    show "\<bar>assumed g' ! i\<bar> \<in> ?I \<longleftrightarrow> i \<in> insert (length ?A) (terminal_position g ` E)"
    proof (cases "i < length ?A")
      case True
      then have "assumed g' ! i = ?A ! i" by (simp add: J(2) nth_append)
      then show ?thesis using True parts(4) W [OF True] by (simp add: assumed_ok_def)
    next
      case False
      have "?n + 4 \<notin> I" using D(10) by auto
      then show ?thesis using new_nth [OF i False] old(1) False n by auto
    qed
  next
    fix v assume "v \<in> ?E"
    then show "assumed g' ! terminal_position g' v < 0"
      using old(1,3) parts(4) n by (cases "v = e") (auto simp: acc(1) J(2) nth_append assumed_ok_def)
  qed
  have WI: "abs ` set ?A - I \<subseteq> abs ` set (assumed g') - ?I" using D(8) by (auto simp: img)
  have handed: "handed_ok api dimensions ?E ?I K g'"
    unfolding handed_ok_def acc(7,8) J(4)
  proof (intro conjI allI impI ballI)
    have keep: "others_keep S ?A (assumed g')" for S by (simp add: others_keep_def agree_on_def J(2) nth_append)
    show "container_ok api dimensions K (eng_defaults g) (eng_env g')"
      by (rule container_ok_others [OF H], simp add: J(1), rule conjI [OF keep]) (simp add: J(5) others_keep_def agree_on_def)
    fix v
    show "deps_of (eng_defaults g) v \<subseteq> inputs g" "useDefault (eng_defaults g) v \<Longrightarrow> v \<in> outputs g"
      using parts(8) by (simp_all add: handed_ok_def)
    have "cnf_vars (K v) \<subseteq> inputs g \<union> (abs ` set ?A - I)" using parts(8) by (simp add: handed_ok_def)
    then show "cnf_vars (K v) \<subseteq> inputs g \<union> (abs ` set (assumed g') - ?I)" using Un_mono [OF subset_refl WI] by (rule subset_trans)
    fix i assume i: "i \<in> own_positions ?E g'" "i < length (assumed g')"
    have S: "selectors_of (K v) \<subseteq> {1..?n}" using H by (simp add: container_ok_def)
    show "\<bar>assumed g' ! i\<bar> \<notin> selectors_of (K v)"
    proof (cases "i < length ?A")
      case True
      obtain v where v: "v \<in> ?E" "i = terminal_position g' v \<or> i = use_default_position g' v \<or>
          selector_position g' v \<noteq> - 1 \<and> i = nat (selector_position g' v)"
        using i(1) by (auto simp: own_positions_def)
      then have "v \<noteq> e" using True by (auto simp: acc(1-3))
      then have "i \<in> own_positions E g" using v unfolding own_positions_def by (auto simp: acc(1-3))
      then show ?thesis using parts(8) True by (simp add: handed_ok_def J(2) nth_append)
    next
      case False
      then have "\<bar>assumed g' ! i\<bar> > ?n" using new_nth [OF i(2)] n by auto
      then show ?thesis using S by force
    qed
  qed
  have "rules_ok E ?I R K g'" by (rule rules_ok_grow [OF parts(5) _ WI]) (simp_all add: acc(7))
  then have rules: "rules_ok ?E ?I (without_rules e R) K g'" using e(2) by (simp add: rules_ok_def)
  have "encodes ?E (with_controls e (selector_of ?X e) (?n + 1) (?n + 3) (?n + 4) (?n + 2) ?X) (without_rules e R) ?I M (rule_clauses g')"
    unfolding J(3)
    by (rule encodes_initial [OF parts(6) inv_controls_ok [OF parts(1-4)] e(2) parts(7)]) (use sel n D(10) in auto)
  then have "encodes ?E (engine_controls g') (without_rules e R) ?I M (rule_clauses g')"
  proof (rule encodes_same_controls, goal_cases)
    case (1 v)
    have "switch_of (engine_controls g') v = (if v = e then ?n + 4 else switch_of ?X v)"
      "terminal_of (engine_controls g') v = (if v = e then ?n + 2 else terminal_of ?X v)"
      using 1 old(1,2) n by (auto simp: engine_controls_def Let_def acc(1,2) J(2) nth_append)
    then show ?case by (simp add: with_controls_def acc(4-6))
  qed
  moreover have "cnf_vars (rule_clauses g') \<subseteq> {..last_var g'}"
  proof -
    have "cnf_vars (guarded (selector_of ?X e) (initial_encoding (?n + 1) (?n + 3) (?n + 4) (?n + 2))) \<subseteq> {..?n + 4}"
      using sel(1) n by (auto simp: initial_encoding_def)
    then show ?thesis using parts(7) by (auto simp: J(1,3))
  qed
  ultimately show ?thesis using parts pos names assumed handed rules e(1) by (simp add: engine_inv_def acc J(7))
qed

lemma without_no_rules [simp]: "without_rules e no_rules = no_rules"
  by (simp add: without_rules_def no_rules_def fun_eq_iff)

definition same_setup :: "'h engine \<Rightarrow> 'h engine \<Rightarrow> bool" where
  "same_setup g g' \<longleftrightarrow> sk_existentials (eng_skolem g') = sk_existentials (eng_skolem g) \<and>
     sk_universals (eng_skolem g') = sk_universals (eng_skolem g) \<and> eng_defaults g' = eng_defaults g \<and>
     eng_dependencies g' = eng_dependencies g \<and> arbiter_to_existential g' = arbiter_to_existential g"

lemma inv_initVariables:
  "initVariables es g = Some g' \<Longrightarrow> engine_inv api dimensions M E I no_rules K g \<Longrightarrow> distinct es \<Longrightarrow> set es \<subseteq> outputs g - E \<Longrightarrow>
    \<forall>e\<in>set es. variable_to_forcing_disjunction (eng_skolem g) e = None \<Longrightarrow>
    (\<exists>I'. engine_inv api dimensions M (E \<union> set es) I' no_rules K g') \<and> same_setup g g'"
proof (induction es g arbitrary: E I rule: initVariables.induct)
  case (2 e es g)
  obtain g1 where g1: "initVariable e g = Some g1" "initVariables es g1 = Some g'" using 2(2) by (auto split: bind_splits)
  have join: "joins e g g1" using initVariable_joins [OF g1(1)] 2(6) by simp
  have e: "e \<in> outputs g" "e \<notin> E" using 2(5) by auto
  have "engine_inv api dimensions M (insert e E) (insert (last_var g + 2) I) no_rules K g1"
    using inv_joins [OF 2(3) join e] by simp
  moreover have "set es \<subseteq> outputs g1 - insert e E" using 2(4,5) joins_access(8) [OF join] by auto
  moreover have "\<forall>e'\<in>set es. variable_to_forcing_disjunction (eng_skolem g1) e' = None"
    using 2(4,6) join by (auto simp: joins_def Let_def)
  ultimately have "(\<exists>I'. engine_inv api dimensions M (insert e E \<union> set es) I' no_rules K g') \<and> same_setup g1 g'"
    using 2(1) [OF g1, of "insert e E" "insert (last_var g + 2) I"] 2(4) by fastforce
  moreover have "same_setup g g1" using join by (simp add: joins_def same_setup_def Let_def)
  ultimately show ?case by (simp add: same_setup_def)
qed (auto simp: same_setup_def)

text \<open>The formula the solver starts from.\<close>

definition formula_ok :: "int list \<Rightarrow> int list \<Rightarrow> cnf \<Rightarrow> bool" where
  "formula_ok universals existentials matrix \<longleftrightarrow>
     distinct existentials \<and> list_all (\<lambda>v. 0 < v) (existentials @ universals) \<and> wf_cnf matrix \<and>
     list_all (list_all (\<lambda>l. \<bar>l\<bar> \<in> set (existentials @ universals))) matrix"

lemma inv_new_engine:
  assumes vc: "new_SimpleValidityChecker existentials universals matrix n = Some vcs"
    and new: "new_SkolemContainer ml conf universals existentials c vcs = Some g"
    and ok: "formula_ok universals existentials matrix"
  shows "\<exists>I. engine_inv api dimensions matrix (outputs g) I no_rules (\<lambda>_. []) g"
    "sk_existentials (eng_skolem g) = existentials" "no_defaults_yet g" "eng_dependencies g = c"
    "inputs g = set universals \<union> set existentials"
proof -
  obtain n1 vc where vcs: "vcs = (n1, vc)" by (cases vcs)
  obtain n2 cc where cc: "new_ConsistencyChecker existentials universals n1 = Some (n2, cc)"
    and ini: "initValidityCheckModel
         \<lparr>eng_env = \<lparr>env_last = n2, env_assumptions = [], env_defaults = []\<rparr>, arbiter_to_existential = Map.empty,
          eng_dependencies = c, eng_consistency = cc, eng_validity = vc,
          eng_defaults = new_DefaultValueContainer ml conf existentials,
          eng_model = new_ModelLogger existentials universals,
          eng_skolem = \<lparr>sk_universals = universals, sk_existentials = existentials,
            arbiter_to_annotation = Map.empty, existential_arbiter_map = \<lambda>_. Map.empty, proper_arbiters = {},
            undefined_existentials = set existentials, variable_to_forcing_disjunction = Map.empty,
            variable_to_no_forcing_clause_active_variable = Map.empty,
            variable_to_use_default_index = Map.empty,
            variable_to_default_function_selector_index = Map.empty, apply_default = Map.empty\<rparr>\<rparr> = Some g"
      (is "initValidityCheckModel ?g = Some g")
    using new vcs by (auto simp: new_SkolemContainer_def split: bind_splits)
  obtain g1 where g1: "initVariables existentials ?g = Some g1" and g: "adds [] g1 g" "same_setup g1 g"
    using ini by (auto simp: initValidityCheckModel_def adds_def frame_defs rule_clauses_def same_setup_def split: bind_splits)
  have es: "distinct existentials" "\<forall>v\<in>set existentials \<union> set universals. 0 < v" "wf_cnf matrix"
    "cnf_vars matrix \<subseteq> set existentials \<union> set universals"
    using ok by (auto simp: formula_ok_def list_all_iff cnf_vars_def clause_vars_def)
  obtain m where m: "0 \<le> m" "set existentials \<union> set universals \<subseteq> {1..m}" "m + int (length existentials) \<le> n1"
    "selectors vc = map (\<lambda>i. m + 1 + int i) [0..<length existentials]"
    "bij_betw (selector_index vc) (set existentials) {..<length (selectors vc)}"
    "sat_assumed (validity_check_solver vc) = []" "cnf_vars (sat_clauses (validity_check_solver vc)) \<subseteq> {..n1}"
    "\<And>\<beta>. \<not> cnf_sat \<beta> matrix \<Longrightarrow> \<exists>\<gamma>. (\<forall>v. v \<notin> {m + int (length existentials)<..n1} \<longrightarrow> \<gamma> v = \<beta> v) \<and>
       cnf_sat \<gamma> (sat_clauses (validity_check_solver vc))"
    using new_SimpleValidityChecker_fields [OF vc [unfolded vcs] es] by metis
  have n: "n1 \<le> n2" by (rule new_ConsistencyChecker_last [OF cc])
  let ?I = "{m + int (length existentials)<..n1}"
  have inputs: "inputs ?g = set universals \<union> set existentials" by (auto simp: inputs_def)
  have sel: "set (selectors vc) \<subseteq> {m<..m + int (length existentials)}" using m(4) by auto
  have names: "names_ok {} ?I ?g"
    unfolding names_ok_def
  proof (intro conjI)
    show "distinct (selectors (eng_validity ?g))" by (simp add: m(4) distinct_map inj_on_def)
    have "set (selectors vc) \<subseteq> {1..n2}" "set universals \<union> set existentials \<subseteq> {1..n2}" "?I \<subseteq> {1..n2}"
      using sel m(1,2,3) n by force+
    moreover have "set (selectors vc) \<inter> ?I = {}" "set (selectors vc) \<inter> (set universals \<union> set existentials) = {}"
      "(set universals \<union> set existentials) \<inter> ?I = {}"
      using sel m(2) by force+
    ultimately show "apart_names (last_var ?g) (set (selectors (eng_validity ?g))) (none_of (engine_controls ?g) ` {})
       (use_of (engine_controls ?g) ` {}) (abs ` set (assumed ?g)) (inputs ?g) ?I"
      unfolding inputs by (simp add: apart_names_def)
  qed (use m(5) in simp_all)
  have "container_ok api dimensions (\<lambda>_. []) (eng_defaults ?g) (eng_env ?g)"
    using m(1,3) n by (simp add: container_ok_def useDefault_def new_DefaultValueContainer_def selectors_of_def)
  then have "handed_ok api dimensions {} ?I (\<lambda>_. []) ?g"
    by (simp add: handed_ok_def own_positions_def deps_of_def new_DefaultValueContainer_def useDefault_def)
  moreover have "encodes {} (engine_controls ?g) no_rules ?I matrix (rule_clauses ?g)"
    using m(8) by (intro encodes_start) (simp add: rule_clauses_def)
  moreover have "cnf_vars (rule_clauses ?g) \<subseteq> {..last_var ?g}" using m(7) n by (force simp: rule_clauses_def)
  ultimately have start: "engine_inv api dimensions matrix {} ?I no_rules (\<lambda>_. []) ?g"
    using names es(4) m(6) inputs
    by (auto simp: engine_inv_def positions_ok_def assumed_ok_def rules_ok_def arbiters_ok_def)
  have loop: "(\<exists>I'. engine_inv api dimensions matrix ({} \<union> set existentials) I' no_rules (\<lambda>_. []) g1) \<and> same_setup ?g g1"
    by (rule inv_initVariables [OF g1 start es(1)]) simp_all
  then obtain I' where "engine_inv api dimensions matrix (set existentials) I' no_rules (\<lambda>_. []) g1" by auto
  from inv_quiet [OF this g(1)] have fin: "engine_inv api dimensions matrix (set existentials) I' no_rules (\<lambda>_. []) g" .
  show ex: "sk_existentials (eng_skolem g) = existentials" using loop g(2) by (simp add: same_setup_def)
  show "\<exists>I. engine_inv api dimensions matrix (outputs g) I no_rules (\<lambda>_. []) g" using fin ex by metis
  show "no_defaults_yet g" using loop g(2)
    by (simp add: same_setup_def no_defaults_yet_def new_DefaultValueContainer_def useDefault_def)
  show "eng_dependencies g = c" "inputs g = set universals \<union> set existentials"
    using loop g(2) by (auto simp: same_setup_def inputs_def)
qed

end
