(* ===== verification/ModelValidity.thy ===== *)
theory ModelValidity
  imports EngineStart
begin

text \<open>
  What the validity check of \<open>src/simplevaliditychecker.cc\<close> is worth: from the constructors on, in
  any order of the operations the solver performs on the Skolem container and whatever these add,
  an accepted arbiter assignment means that the current rules imply the matrix.
\<close>

section \<open>Runs\<close>

text \<open>
  The rules of the run are what was added: forcing clauses, the clauses of realised arbiters and
  definitions with the selector they got as a default. Default clauses are not listed, the default
  values speak for themselves.
\<close>

inductive engine_run ::
  "'h mlpack_tree \<Rightarrow> (nat \<Rightarrow> 'h) \<Rightarrow> int list \<Rightarrow> int list \<Rightarrow> cnf \<Rightarrow> rule_book \<Rightarrow> 'h engine \<Rightarrow> bool"
  for api :: "'h mlpack_tree" and learner :: "nat \<Rightarrow> 'h" and universals existentials :: "int list" and matrix :: cnf where
  run_constructors: "new_SimpleValidityChecker existentials universals matrix n = Some vc \<Longrightarrow>
     new_SkolemContainer ml conf universals existentials c vc = Some g \<Longrightarrow>
     engine_run api learner universals existentials matrix no_rules g"
| run_forcing_clause: "engine_run api learner universals existentials matrix R g \<Longrightarrow>
     sk_addForcingClause clause reduced g = Some g' \<Longrightarrow> var (List.last clause) \<in> outputs g \<Longrightarrow>
     clause_vars clause \<subseteq> inputs g \<Longrightarrow>
     engine_run api learner universals existentials matrix (with_forcing (var (List.last clause)) clause R) g'"
| run_definition: "engine_run api learner universals existentials matrix R g \<Longrightarrow>
     sk_addDefinition v def circ condition reduced g = Some g' \<Longrightarrow> v \<in> outputs g \<Longrightarrow>
     clause_vars condition \<subseteq> inputs g \<Longrightarrow> cnf_vars def \<subseteq> inputs g \<Longrightarrow>
     engine_run api learner universals existentials matrix
       (with_definition v (condition, def, default_selector g' v)
         (if condition = [] \<and> v \<in> undefined_existentials (eng_skolem g) then without_rules v R else R)) g'"
| run_arbiter: "engine_run api learner universals existentials matrix R g \<Longrightarrow>
     sk_getArbiter v assignment introduce g = Some ((arbiter, flags), g') \<Longrightarrow> v \<in> outputs g \<Longrightarrow>
     clause_vars assignment \<subseteq> inputs g \<Longrightarrow>
     engine_run api learner universals existentials matrix (realised_rules v arbiter g g' R) g'"
| run_initial_defaults: "engine_run api learner universals existentials matrix R g \<Longrightarrow>
     initDefaultValues learner conf undefineds g = Some g' \<Longrightarrow> no_defaults_yet g \<Longrightarrow> positive_inputs (eng_dependencies g) g \<Longrightarrow>
     engine_run api learner universals existentials matrix R g'"
| run_learn: "engine_run api learner universals existentials matrix R g \<Longrightarrow>
     insertIntoDefaultContainer api l sample g = Some g' \<Longrightarrow>
     engine_run api learner universals existentials matrix R g'"
| run_polarity: "engine_run api learner universals existentials matrix R g \<Longrightarrow>
     sk_setPolarity api v b g = Some g' \<Longrightarrow> engine_run api learner universals existentials matrix R g'"
| run_switch: "engine_run api learner universals existentials matrix R g \<Longrightarrow>
     sk_setDefaultValueActive v b g = Some g' \<Longrightarrow> v \<in> outputs g \<Longrightarrow>
     engine_run api learner universals existentials matrix R g'"
| run_take_variable: "engine_run api learner universals existentials matrix R g \<Longrightarrow>
     fresh_variable g = (v, g') \<Longrightarrow> engine_run api learner universals existentials matrix R g'"
| run_dependencies: "engine_run api learner universals existentials matrix R g \<Longrightarrow>
     engine_run api learner universals existentials matrix R (g\<lparr>eng_dependencies := c\<rparr>)"
| run_check: "engine_run api learner universals existentials matrix R g \<Longrightarrow>
     vc_checkArbiterAssignment conf mf vo co undefineds arbiters g = Some (b, g') \<Longrightarrow>
     engine_run api learner universals existentials matrix R g'"
| run_conflict: "engine_run api learner universals existentials matrix R g \<Longrightarrow>
     vc_getConflict orc g = Some (conflict, g') \<Longrightarrow> engine_run api learner universals existentials matrix R g'"
| run_minimize: "engine_run api learner universals existentials matrix R g \<Longrightarrow>
     minimizeAssumptions orc 0 xs keep others (eng_validity g) = Some (ys, s) \<Longrightarrow>
     engine_run api learner universals existentials matrix R (g\<lparr>eng_validity := s\<rparr>)"
| run_response: "engine_run api learner universals existentials matrix R g \<Longrightarrow>
     getExistentialResponse orc us as (eng_validity g) = (es, s) \<Longrightarrow>
     engine_run api learner universals existentials matrix R (g\<lparr>eng_validity := s\<rparr>)"

section \<open>The invariant of a run\<close>

definition lists_rules :: "rule_book \<Rightarrow> rule_book \<Rightarrow> bool" where
  "lists_rules R R' \<longleftrightarrow> forcing_of R = forcing_of R' \<and> definitions_of R = definitions_of R'"

lemma lists_with_forcing: "lists_rules R R' \<Longrightarrow> lists_rules (with_forcing v c R) (with_forcing v c R')"
  by (simp add: lists_rules_def with_forcing_def)

lemma lists_rules_steps:
  assumes "lists_rules R R'"
  shows "lists_rules (with_definition v d R) (with_definition v d R')" "lists_rules (without_rules v R) (without_rules v R')"
    "lists_rules R (with_defaults v cs R')" "lists_rules (fold (with_forcing v) cs R) (fold (with_forcing v) cs R')"
    "lists_rules R (fold (\<lambda>(v, cs). with_defaults v cs) xs R')" "lists_rules (realised_rules v a g g' R) (realised_rules v a g g' R')"
proof -
  show "lists_rules (with_definition v d R) (with_definition v d R')" "lists_rules (without_rules v R) (without_rules v R')"
    using assms by (simp_all add: lists_rules_def with_definition_def)
  show "lists_rules R (with_defaults v cs R')" for v cs
    using assms by (simp add: lists_rules_def with_defaults_def)
  show forcing: "lists_rules (fold (with_forcing v) cs R) (fold (with_forcing v) cs R')" for cs
    using assms lists_with_forcing by (induction cs arbitrary: R R') simp_all
  show "lists_rules R (fold (\<lambda>(v, cs). with_defaults v cs) xs R')"
    using assms by (induction xs arbitrary: R') (auto simp: lists_rules_def with_defaults_def)
  show "lists_rules (realised_rules v a g g' R) (realised_rules v a g g' R')"
    using assms forcing by (simp add: realised_rules_def)
qed

section \<open>The variables of the formula\<close>

text \<open>No operation changes the list of existential variables.\<close>

abbreviation existentials_of :: "'h engine \<Rightarrow> int list" where
  "existentials_of g \<equiv> sk_existentials (eng_skolem g)"

lemma addArbiterClause_existentials: "addArbiterClause c g = Some g' \<Longrightarrow> existentials_of g' = existentials_of g"
  by (auto simp: addArbiterClause_def add_validity_def add_validities_def in_validity_def in_consistency_def in_model_def
      addForcingDisjunct_def forcing_disjunct_def fresh_variable_def add_extraction_def Let_def split: bind_splits if_splits prod.splits)

lemma getArbiter_existentials:
  assumes "sk_getArbiter v assignment introduce g = Some ((arbiter, flags), g')"
  shows "existentials_of g' = existentials_of g"
proof -
  have create: "existentials_of (snd (createArbiter v a g)) = existentials_of g" for a
    by (auto simp: createArbiter_def fresh_variable_def Let_def)
  have realize: "realizeArbiter x h = Some h' \<Longrightarrow> existentials_of h' = existentials_of h" for x and h h' :: "'a engine"
    by (auto simp: realizeArbiter_def Let_def dest!: addArbiterClause_existentials split: bind_splits option.splits)
  show ?thesis using assms create realize
    by (auto simp: sk_getArbiter_def Let_def split: bind_splits if_splits prod.splits option.splits)
qed

lemma sk_addDefaultClause_existentials:
  "sk_addDefaultClause e c u g = Some g' \<Longrightarrow> existentials_of g' = existentials_of g"
  by (auto simp: sk_addDefaultClause_def add_validity_def add_validities_def in_validity_def in_consistency_def in_model_def
      fresh_variable_def add_extraction_def Let_def split: bind_splits if_splits prod.splits)

lemma add_default_clauses_existentials:
  "add_default_clauses e cs u g = Some g' \<Longrightarrow> existentials_of g' = existentials_of g"
  by (induction cs arbitrary: g) (auto dest: sk_addDefaultClause_existentials split: bind_splits)

lemma addDefaultClauses_existentials: "addDefaultClauses e cs g = Some g' \<Longrightarrow> existentials_of g' = existentials_of g"
  by (auto simp: addDefaultClauses_def dest: add_default_clauses_existentials split: bind_splits option.splits)

lemma add_initial_defaults_existentials:
  "add_initial_defaults xs g = Some g' \<Longrightarrow> existentials_of g' = existentials_of g"
  by (induction xs arbitrary: g) (auto dest: addDefaultClauses_existentials split: bind_splits)

definition run_inv ::
  "'h mlpack_tree \<Rightarrow> ('h \<Rightarrow> nat) \<Rightarrow> int list \<Rightarrow> cnf \<Rightarrow> rule_book \<Rightarrow> 'h engine \<Rightarrow> bool" where
  "run_inv api dimensions existentials matrix R g \<longleftrightarrow> sk_existentials (eng_skolem g) = existentials \<and>
     (\<exists>I K R'. engine_inv api dimensions matrix (outputs g) I R' K g \<and> lists_rules R R')"

lemma sk_addDefinition_existentials:
  assumes inv: "engine_inv api dimensions M (outputs g) I R K g" and v: "v \<in> outputs g"
    and add: "sk_addDefinition v def circ condition reduced g = Some g'"
  shows "existentials_of g' = existentials_of g"
proof -
  have parts: "positions_ok (outputs g) g" "has_slot g v" using inv v by (simp_all add: engine_inv_def positions_ok_def)
  have "selector_position g v \<noteq> - 1 \<longrightarrow> nat (selector_position g v) \<noteq> terminal_position g v"
    using parts(1) v by (auto simp: positions_ok_def)
  from sk_addDefinition_adds [OF add parts(2) this] obtain g2 g3 ns where "adds [] g g2"
    "if condition = [] \<and> v \<in> undefined_existentials (eng_skolem g2) then renews_selector v g2 g3 else g3 = g2"
    "adds_definition v condition def ns g3 g'" by blast
  then show ?thesis
    by (auto simp: adds_def same_frame_def same_base_def renews_selector_def adds_definition_def Let_def split: if_splits)
qed

lemma lists_rules_trans: "lists_rules R R' \<Longrightarrow> lists_rules R' R'' \<Longrightarrow> lists_rules R R''"
  by (simp add: lists_rules_def)

text \<open>How a step of the run is justified: its effect on the rules that are listed.\<close>

lemma run_inv_step:
  assumes "run_inv api dimensions existentials matrix R g"
    and "\<And>I K R'. engine_inv api dimensions matrix (outputs g) I R' K g \<Longrightarrow> lists_rules R R' \<Longrightarrow>
      existentials_of g' = existentials_of g \<and>
      (\<exists>I' K' R''. engine_inv api dimensions matrix (outputs g) I' R'' K' g' \<and> lists_rules S R'')"
  shows "run_inv api dimensions existentials matrix S g'"
proof -
  obtain I K R' where "engine_inv api dimensions matrix (outputs g) I R' K g" "lists_rules R R'"
    and e: "existentials_of g = existentials" using assms(1) by (auto simp: run_inv_def)
  from assms(2) [OF this(1,2)] e show ?thesis by (auto simp: run_inv_def)
qed

lemma engine_inv_dependencies:
  assumes "engine_inv api dimensions M E I R K g"
  shows "engine_inv api dimensions M E I R K (g\<lparr>eng_dependencies := c\<rparr>)"
proof -
  let ?g = "g\<lparr>eng_dependencies := c\<rparr>"
  have same: "terminal_position ?g = terminal_position g" "use_default_position ?g = use_default_position g"
    "selector_position ?g = selector_position g" "has_slot ?g = has_slot g" "engine_controls ?g = engine_controls g"
    "inputs ?g = inputs g" "rule_clauses ?g = rule_clauses g" "arbiters_ok ?g = arbiters_ok g"
    by (auto simp: terminal_position_def use_default_position_def selector_position_def has_slot_def engine_controls_def
        inputs_def rule_clauses_def arbiters_ok_def no_forcing_clause_active_def Let_def intro!: ext split: option.splits)
  then show ?thesis using assms
    by (simp add: engine_inv_def positions_ok_def names_ok_def assumed_ok_def rules_ok_def handed_ok_def own_positions_def)
qed

text \<open>
  The operations keep the invariant with the rules they list, whatever the order in which they are called.
\<close>

lemma run_inv:
  fixes api :: "'h mlpack_tree"
  assumes doc: "mlpack_documented api dimensions" and learner: "learner_ok api dimensions learner"
    and formula: "formula_ok universals existentials matrix"
    and run: "engine_run api learner universals existentials matrix R g"
  shows "run_inv api dimensions existentials matrix R g"
  using run
proof induction
  case (run_constructors n vc ml conf c g)
  note new = inv_new_engine [OF run_constructors(1,2) formula]
  obtain I where "engine_inv api dimensions matrix (outputs g) I no_rules (\<lambda>_. []) g" using new(1) by blast
  moreover have "lists_rules no_rules no_rules" by (simp add: lists_rules_def)
  ultimately show ?case using new(2) by (auto simp: run_inv_def)
next
  case (run_forcing_clause R g clause reduced g')
  show ?case
  proof (rule run_inv_step [OF run_forcing_clause.IH])
    fix I K R' assume inv: "engine_inv api dimensions matrix (outputs g) I R' K g" and "lists_rules R R'"
    note step = inv_forcing_clause [OF inv disjI1 [OF run_forcing_clause(2)] run_forcing_clause(3,4)]
    show "existentials_of g' = existentials_of g \<and>
      (\<exists>I' K' R''. engine_inv api dimensions matrix (outputs g) I' R'' K' g' \<and>
        lists_rules (with_forcing (var (List.last clause)) clause R) R'')"
    proof
      show "existentials_of g' = existentials_of g" using step(4) by (simp add: same_base_def)
    qed (use step(1) [unfolded step(3)] lists_with_forcing [OF \<open>lists_rules R R'\<close>] in blast)
  qed
next
  case (run_definition R g v def circ condition reduced g')
  show ?case
  proof (rule run_inv_step [OF run_definition.IH])
    fix I K R' assume inv: "engine_inv api dimensions matrix (outputs g) I R' K g" and lists: "lists_rules R R'"
    let ?b = "condition = [] \<and> v \<in> undefined_existentials (eng_skolem g)"
    have "lists_rules (if ?b then without_rules v R else R) (if ?b then without_rules v R' else R')"
      using lists lists_rules_steps(2) by simp
    note 1 = lists_rules_steps(1) [OF this, of v "(condition, def, default_selector g' v)"]
    from inv_sk_addDefinition(1) [OF inv run_definition(2-5)] 1 sk_addDefinition_existentials [OF inv run_definition(3,2)]
    show "existentials_of g' = existentials_of g \<and>
      (\<exists>I' K' R''. engine_inv api dimensions matrix (outputs g) I' R'' K' g' \<and>
        lists_rules (with_definition v (condition, def, default_selector g' v) (if ?b then without_rules v R else R)) R'')"
      by blast
  qed
next
  case (run_arbiter R g v assignment introduce arbiter flags g')
  show ?case
  proof (rule run_inv_step [OF run_arbiter.IH])
    fix I K R' assume inv: "engine_inv api dimensions matrix (outputs g) I R' K g" and lists: "lists_rules R R'"
    from inv_getArbiter [OF inv run_arbiter(3,4,2)] getArbiter_existentials [OF run_arbiter(2)] lists_rules_steps(6) [OF lists]
    show "existentials_of g' = existentials_of g \<and>
      (\<exists>I' K' R''. engine_inv api dimensions matrix (outputs g) I' R'' K' g' \<and> lists_rules (realised_rules v arbiter g g' R) R'')"
      by metis
  qed
next
  case (run_initial_defaults R g conf undefineds g')
  have d: "distinct (existentials_of g)" using run_initial_defaults.IH formula by (simp add: run_inv_def formula_ok_def)
  have e: "existentials_of g' = existentials_of g"
    using run_initial_defaults(2) by (auto simp: initDefaultValues_def dest: add_initial_defaults_existentials split: bind_splits prod.splits)
  show ?case
  proof (rule run_inv_step [OF run_initial_defaults.IH])
    fix I K R' assume inv: "engine_inv api dimensions matrix (outputs g) I R' K g" and lists: "lists_rules R R'"
    from inv_initDefaultValues [OF inv refl run_initial_defaults(3) learner run_initial_defaults(4) d run_initial_defaults(2)]
    show "existentials_of g' = existentials_of g \<and>
      (\<exists>I' K' R''. engine_inv api dimensions matrix (outputs g) I' R'' K' g' \<and> lists_rules R R'')"
      using e lists_rules_steps(5) [OF lists] by blast
  qed
next
  case (run_learn R g l sample g')
  have e: "existentials_of g' = existentials_of g"
    using run_learn(2) by (auto simp: insertIntoDefaultContainer_def dest: addDefaultClauses_existentials split: bind_splits prod.splits)
  show ?case
  proof (rule run_inv_step [OF run_learn.IH])
    fix I K R' assume inv: "engine_inv api dimensions matrix (outputs g) I R' K g" and lists: "lists_rules R R'"
    from inv_insertIntoDefaultContainer [OF doc inv refl run_learn(2)] e lists_rules_steps(3) [OF lists]
    show "existentials_of g' = existentials_of g \<and>
      (\<exists>I' K' R''. engine_inv api dimensions matrix (outputs g) I' R'' K' g' \<and> lists_rules R R'')"
      by blast
  qed
next
  case (run_polarity R g v b g')
  have e: "existentials_of g' = existentials_of g" using run_polarity(2) by (auto simp: sk_setPolarity_def split: bind_splits)
  show ?case
    by (rule run_inv_step [OF run_polarity.IH]) (use inv_setPolarity [OF _ run_polarity(2)] e in blast)
next
  case (run_switch R g v b g')
  have e: "existentials_of g' = existentials_of g"
    using run_switch(2) by (auto simp: sk_setDefaultValueActive_def dest!: set_assumption_fields(1) split: bind_splits if_splits)
  show ?case
    by (rule run_inv_step [OF run_switch.IH]) (use inv_setDefaultValueActive [OF _ run_switch(3,2)] e in blast)
next
  case (run_take_variable R g v g')
  then have adds: "adds [] g g'" using fresh_variable_adds by blast
  then have "existentials_of g' = existentials_of g" by (simp add: adds_def same_frame_def same_base_def)
  then show ?case
    by (intro run_inv_step [OF run_take_variable.IH]) (use inv_quiet [OF _ adds] in blast)
next
  case (run_dependencies R g c)
  show ?case by (rule run_inv_step [OF run_dependencies.IH]) (use engine_inv_dependencies in fastforce)
next
  case (run_check R g conf mf vo co undefineds arbiters b g')
  have e: "existentials_of g' = existentials_of g"
    using run_check(2) by (auto simp: vc_checkArbiterAssignment_def solve_validity_def sk_checkConsistency_def Let_def split: bind_splits prod.splits if_splits)
  show ?case
    by (rule run_inv_step [OF run_check.IH]) (use inv_checkArbiterAssignment [OF _ run_check(2)] e in blast)
next
  case (run_conflict R g orc conflict g')
  have e: "existentials_of g' = existentials_of g"
    using run_conflict(2) by (auto simp: vc_getConflict_def split: bind_splits prod.splits)
  show ?case
    by (rule run_inv_step [OF run_conflict.IH]) (use inv_getConflict [OF _ run_conflict(2)] e in blast)
next
  case (run_minimize R g orc xs keep others ys s)
  note same = minimizeAssumptions_same_rules [OF run_minimize(2)]
  show ?case by (rule run_inv_step [OF run_minimize.IH]) (use inv_same_rules [OF _ same] in fastforce)
next
  case (run_response R g orc us as es s)
  note same = getExistentialResponse_same_rules [OF run_response(2)]
  show ?case by (rule run_inv_step [OF run_response.IH]) (use inv_same_rules [OF _ same] in fastforce)
qed

section \<open>An accepted model\<close>

text \<open>What a set of rules says only depends on the forcing clauses and definitions.\<close>

lemma follows_listed: "lists_rules R R' \<Longrightarrow> follows_rules api R g e \<alpha> = follows_rules api R' g e \<alpha>"
  by (simp add: follows_rules_def rule_fires_def lists_rules_def)

lemma accepted_implies_matrix:
  assumes "mlpack_documented api dimensions" "learner_ok api dimensions learner" "formula_ok universals existentials matrix"
    and run: "engine_run api learner universals existentials matrix R g" and orc: "oracle_sound vo"
    and check: "vc_checkArbiterAssignment conf mf vo co undefineds arbiters g = Some (True, g')"
    and arbiters: "clause_vars arbiters \<subseteq> inputs g" "list_all (lit_true \<alpha>) arbiters"
    and follows: "\<forall>e\<in>set existentials. follows_rules api R g e \<alpha>"
  shows "cnf_sat \<alpha> matrix"
proof -
  from run_inv [OF assms(1-3) run] obtain I K R' where e: "existentials_of g = existentials"
    and inv: "engine_inv api dimensions matrix (outputs g) I R' K g" and lists: "lists_rules R R'"
    by (auto simp: run_inv_def)
  obtain r g1 where solve: "solve_validity vo arbiters g = (r, g1)" by (cases "solve_validity vo arbiters g")
  with check have "r = 20"
    by (auto simp: vc_checkArbiterAssignment_def split: bind_splits if_splits)
  with solve have "solve_validity vo arbiters g = (20, g1)" by simp
  then show ?thesis
    by (rule unsat_answer_valid [OF inv orc _ arbiters]) (use follows e follows_listed [OF lists] in blast)
qed

text \<open>
  C1: The CEGIS loop stops with the right answer. Run the operations of the solver on a well-formed
  formula in any order, starting from the constructors: forcing clauses and definitions are added,
  arbiters created, default values initialised, taught and switched, conflicts extracted. Whenever
  \<open>checkArbiterAssignment\<close> then accepts an assignment of the arbiters, every assignment
  that extends it and follows the current rules - the forced values where forcing clauses fire, the
  definitions in force, and the default values elsewhere - satisfies the matrix.
\<close>

theorem accepted_model_is_valid:
  assumes "mlpack_documented api dimensions" "learner_ok api dimensions learner" "formula_ok universals existentials matrix"
    and "engine_run api learner universals existentials matrix R g" and "oracle_sound vo"
    and "vc_checkArbiterAssignment conf mf vo co undefineds arbiters g = Some (True, g')"
    and "clause_vars arbiters \<subseteq> inputs g" "list_all (lit_true \<alpha>) arbiters"
    and "\<forall>e\<in>set existentials. follows_rules api R g e \<alpha>"
  shows "cnf_sat \<alpha> matrix"
  using assms by (rule accepted_implies_matrix)

text \<open>
  A universal variable 1, an existential variable 2 that depends on it and the matrix that makes 2
  the negation of 1: the default is true, and a forcing clause makes 2 false where 1 is true.
\<close>

definition negation_formula :: cnf where
  "negation_formula = [[1, 2], [- 1, - 2]]"

definition negation_dependencies :: dep_container where
  "negation_dependencies = new_DependencyContainer [2 \<mapsto> [1]] Map.empty {1} [1]"

definition negation_checker :: vc_state where
  "negation_checker = the (new_SimpleValidityChecker [2] [1] negation_formula 2)"

definition negation_oracle :: sat_oracle where
  "negation_oracle n F as =
     (if F = [[- 1, 4], [- 2, 4], [1, 5], [2, 5], [- 4, - 5], [18, 19, - 3], [- 18, - 21, 20, - 3], [- 22, 2, - 20, - 3],
          [- 23, - 2, - 20, - 3], [- 1, 30, - 3], [- 30, - 2, - 3], [- 30, - 18, - 3], [- 19, 30, 31, - 3], [1, - 30, - 3]] \<and>
        set as = {- 31, 21, 22, - 23, 3}
      then Unsat as else Unknown)"

lemma negation_oracle_sound: "oracle_sound negation_oracle"
  by (auto simp: oracle_sound_def answer_sound_def negation_oracle_def satisfies_def list_all_iff lit_true_def)

definition consistent_oracle :: sat_oracle where
  "consistent_oracle n F as = Unsat as"

lemma negation_checker_defined:
  "case new_SimpleValidityChecker [2] [1] negation_formula 2 of None \<Rightarrow> False | Some _ \<Rightarrow> True"
  by code_simp

lemma negation_steps:
  "case new_SkolemContainer True default_configuration [1] [2] negation_dependencies negation_checker :: toy engine option of
     None \<Rightarrow> False
   | Some g0 \<Rightarrow> (case initDefaultValues toy_learner default_configuration [2] g0 of
       None \<Rightarrow> False
     | Some g1 \<Rightarrow> existentials_of g1 = [2] \<and> sk_universals (eng_skolem g1) = [1] \<and>
        (case sk_addForcingClause [- 1, - 2] True g1 of
          None \<Rightarrow> False
        | Some g \<Rightarrow> default_on g 2 \<and> useDefault (eng_defaults g) 2 \<and> \<not> treeActive toy_tree (eng_defaults g) 2 \<and>
            0 < env_defaults (eng_env g) ! the (positive_selectors (eng_defaults g) 2) \<and>
            sat_clauses (validity_check_solver (eng_validity g)) =
              [[- 1, 4], [- 2, 4], [1, 5], [2, 5], [- 4, - 5], [18, 19, - 3], [- 18, - 21, 20, - 3], [- 22, 2, - 20, - 3],
               [- 23, - 2, - 20, - 3], [- 1, 30, - 3], [- 30, - 2, - 3], [- 30, - 18, - 3], [- 19, 30, 31, - 3], [1, - 30, - 3]] \<and>
            sat_assumed (validity_check_solver (eng_validity g)) = [] \<and> assumed g = [- 31, 21, 22, - 23] \<and>
            selectors (eng_validity g) = [3]))"
  by code_simp

lemma negation_formula_ok: "formula_ok [1] [2] negation_formula"
  by code_simp

lemma negation_run:
  obtains g :: "toy engine" and g' where
    "engine_run toy_tree toy_learner [1] [2] negation_formula (with_forcing 2 [- 1, - 2] no_rules) g"
    "follows_rules toy_tree (with_forcing 2 [- 1, - 2] no_rules) g 2 (\<lambda>x. x = 2)"
    "vc_checkArbiterAssignment default_configuration (\<lambda>_ _ _ _. 0) negation_oracle consistent_oracle [2] [] g = Some (True, g')"
proof -
  obtain g0 g1 g :: "toy engine" where
    g0: "new_SkolemContainer True default_configuration [1] [2] negation_dependencies negation_checker = Some g0"
    and g1: "initDefaultValues toy_learner default_configuration [2] g0 = Some g1"
    and vars: "existentials_of g1 = [2]" "sk_universals (eng_skolem g1) = [1]"
    and g: "sk_addForcingClause [- 1, - 2] True g1 = Some g"
    and vals: "default_on g 2" "useDefault (eng_defaults g) 2" "\<not> treeActive toy_tree (eng_defaults g) 2"
      "0 < env_defaults (eng_env g) ! the (positive_selectors (eng_defaults g) 2)"
    and solver: "sat_clauses (validity_check_solver (eng_validity g)) =
        [[- 1, 4], [- 2, 4], [1, 5], [2, 5], [- 4, - 5], [18, 19, - 3], [- 18, - 21, 20, - 3], [- 22, 2, - 20, - 3],
         [- 23, - 2, - 20, - 3], [- 1, 30, - 3], [- 30, - 2, - 3], [- 30, - 18, - 3], [- 19, 30, 31, - 3], [1, - 30, - 3]]"
      "sat_assumed (validity_check_solver (eng_validity g)) = []" "assumed g = [- 31, 21, 22, - 23]" "selectors (eng_validity g) = [3]"
    using negation_steps by (auto split: option.splits)
  note checker = case_the [OF negation_checker_defined, folded negation_checker_def]
  have deps: "eng_dependencies g0 = negation_dependencies"
    by (rule inv_new_engine(4) [OF checker g0 negation_formula_ok])
  have "no_defaults_yet g0"
    by (rule inv_new_engine(3) [OF checker g0 negation_formula_ok])
  moreover have "inputs g0 = {1, 2}"
    using inv_new_engine(5) [OF checker g0 negation_formula_ok] by auto
  then have "positive_inputs (eng_dependencies g0) g0"
    by (auto simp: deps positive_inputs_def positive_dependencies_def negation_dependencies_def new_DependencyContainer_def
        new_BaseDependencyContainer_def getExtendedDependencies_def getDependencies_def split: if_splits)
  ultimately have run: "engine_run toy_tree toy_learner [1] [2] negation_formula no_rules g1"
    by (rule run_initial_defaults [OF run_constructors [OF checker g0] g1])
  have "engine_run toy_tree toy_learner [1] [2] negation_formula (with_forcing (var (List.last [- 1, - 2])) [- 1, - 2] no_rules) g"
    by (rule run_forcing_clause [OF run g]) (simp_all add: vars inputs_def var_def)
  then have 1: "engine_run toy_tree toy_learner [1] [2] negation_formula (with_forcing 2 [- 1, - 2] no_rules) g"
    by (simp add: var_def)
  have 2: "follows_rules toy_tree (with_forcing 2 [- 1, - 2] no_rules) g 2 (\<lambda>x. x = 2)"
    using vals by (simp add: follows_rules_def with_forcing_def no_rules_def rule_fires_def clause_fires_def lit_true_def default_value_def)
  have "\<exists>g'. vc_checkArbiterAssignment default_configuration (\<lambda>_ _ _ _. 0) negation_oracle consistent_oracle [2] [] g = Some (True, g')"
    by (simp add: vc_checkArbiterAssignment_def solve_validity_def sat_solve_def sat_assume_def negation_oracle_def answer_code_def
        sk_checkConsistency_def cc_checkConsistency_def consistent_oracle_def solver Let_def validityCheckAssumptions_def)
  then show ?thesis using that [OF 1 2] by blast
qed

theorem accepted_model_is_valid_witness: "cnf_sat (\<lambda>x. x = 2) negation_formula"
proof -
  obtain g :: "toy engine" and g' where
    run: "engine_run toy_tree toy_learner [1] [2] negation_formula (with_forcing 2 [- 1, - 2] no_rules) g"
    and follows: "follows_rules toy_tree (with_forcing 2 [- 1, - 2] no_rules) g 2 (\<lambda>x. x = 2)"
    and check: "vc_checkArbiterAssignment default_configuration (\<lambda>_ _ _ _. 0) negation_oracle consistent_oracle [2] [] g = Some (True, g')"
    by (rule negation_run)
  show ?thesis
  proof (rule accepted_model_is_valid [OF toy_tree_documented _ negation_formula_ok run negation_oracle_sound check])
    show "learner_ok toy_tree toy_dimensions toy_learner"
      by (simp add: learner_ok_def toy_tree_def toy_learner_def toy_dimensions_def)
  qed (simp_all add: follows)
qed

end
