(* ===== verification/UnateChecker.thy ===== *)
theory UnateChecker
  imports SatSolver Utils_Correct "HOL-Library.Monad_Syntax"
begin

text \<open>
  The unate checker of \<open>src/unatechecker.h\<close> and \<open>src/unatechecker.cc\<close>: a solver holds the
  matrix, a copy of the negated matrix with renamed existential variables, and equalities between
  both that are switched on one by one. A literal is unate when making it true never falsifies the
  matrix. The operations and that the literals they report can be made true together.
\<close>

section \<open>State\<close>

record unate_checker =
  unate_solver :: sat_solver
  uc_existentials :: "int list"
  renamed_existentials :: "int list"
  switches_for_equalities :: "int list"
  equalities_for_renamings :: cnf
  unate_clauses :: cnf
  uc_arbiter_variables :: "int list"

text \<open>Each variable gets a copy and a switch.\<close>

fun rename_existentials :: "int list \<Rightarrow> int \<Rightarrow> int list \<times> int list \<times> cnf \<times> int" where
  "rename_existentials [] n = ([], [], [], n)"
| "rename_existentials (e # es) n =
     (let (renamed, switches, equalities, last) = rename_existentials es (n + 2)
      in ((n + 1) # renamed, (n + 2) # switches, clausalEncodingEquality e (n + 1) (n + 2) @ equalities, last))"

definition new_UnateChecker :: "cnf \<Rightarrow> int list \<Rightarrow> int \<Rightarrow> int \<times> unate_checker" where
  "new_UnateChecker matrix existentials n =
     (let (negated_matrix, _, n) = negateFormula matrix n;
          existentials = sort existentials;
          (renamed, switches, equalities, n) = rename_existentials existentials n;
          renaming = map_of (zip existentials renamed);
          solver = sat_appendFormula equalities
            (sat_appendFormula (renameFormula negated_matrix renaming) (sat_appendFormula matrix init_solver))
      in (n, \<lparr>unate_solver = solver, uc_existentials = existentials, renamed_existentials = renamed,
              switches_for_equalities = switches, equalities_for_renamings = equalities, unate_clauses = [],
              uc_arbiter_variables = []\<rparr>))"

definition uc_addArbiterVariable :: "int \<Rightarrow> unate_checker \<Rightarrow> unate_checker" where
  "uc_addArbiterVariable v uc = uc\<lparr>uc_arbiter_variables := uc_arbiter_variables uc @ [v]\<rparr>"

definition uc_addClause :: "clause \<Rightarrow> unate_checker \<Rightarrow> unate_checker" where
  "uc_addClause clause uc = uc\<lparr>unate_solver := sat_addClause clause (unate_solver uc)\<rparr>"

definition getUnateClauses :: "unate_checker \<Rightarrow> cnf" where
  "getUnateClauses uc = unate_clauses uc"

section \<open>Finding unate literals\<close>

text \<open>The configured conflict limit is in the oracle, which may give up.\<close>

definition checkUnateLiteral :: "sat_oracle \<Rightarrow> int \<Rightarrow> int \<Rightarrow> int list \<Rightarrow> unate_checker \<Rightarrow> bool \<times> unate_checker" where
  "checkUnateLiteral orc literal copied_literal assumptions uc =
     (let (result, solver) = sat_solve orc (sat_assume (assumptions @ [literal, copied_literal]) (unate_solver uc))
      in (result = 20, uc\<lparr>unate_solver := solver\<rparr>))"

text \<open>
  A switch is taken out of the assumptions by overwriting it with the last one, and put back the
  same way. Where the switch is the last assumption the code reads one element past the end of the
  vector, and overwrites what it read at once.
\<close>

definition without_switch :: "nat \<Rightarrow> int list \<Rightarrow> int list" where
  "without_switch position assumptions = butlast (assumptions[position := List.last assumptions])"

definition with_switch :: "nat \<Rightarrow> int \<Rightarrow> int list \<Rightarrow> int list" where
  "with_switch position deactivated assumptions =
     (assumptions @ [if position < length assumptions then assumptions ! position else 0])[position := deactivated]"

text \<open>Both polarities of a variable are tried, first the positive one.\<close>

definition unate_literal_of :: "sat_oracle \<Rightarrow> int \<Rightarrow> int \<Rightarrow> int list \<Rightarrow> unate_checker \<Rightarrow> int option \<times> unate_checker" where
  "unate_literal_of orc v renamed assumptions uc =
     (let (positive, uc) = checkUnateLiteral orc (- v) renamed assumptions uc
      in if positive then (Some v, uc)
         else let (negative, uc) = checkUnateLiteral orc v (- renamed) assumptions uc
              in (if negative then Some (- v) else None, uc))"

text \<open>
  The inner loop, over the indices still to consider. The failed arbiters are read after a check
  that answered unsatisfiable, so they exist (\<open>unate_literal_of_same\<close> below).
\<close>

function unates_pass ::
  "sat_oracle \<Rightarrow> int list \<Rightarrow> nat list \<Rightarrow> nat \<Rightarrow> int list \<Rightarrow> int list \<Rightarrow> cnf \<Rightarrow> unate_checker \<Rightarrow>
   nat list \<times> int list \<times> cnf \<times> unate_checker" where
  "unates_pass orc arbiter_assignment indices i assumptions found new_clauses uc =
     (if i < length indices then
        let index = indices ! i;
            position = index + length arbiter_assignment;
            switch = switches_for_equalities uc ! index;
            rest = without_switch position assumptions;
            (literal, uc) = unate_literal_of orc (uc_existentials uc ! index) (renamed_existentials uc ! index) rest uc
        in (case literal of
              None \<Rightarrow>
                unates_pass orc arbiter_assignment indices (i + 1) (with_switch position switch rest) found new_clauses uc
            | Some l \<Rightarrow>
                let clause = l # negateEach (the (sat_getFailed arbiter_assignment (unate_solver uc)))
                in unates_pass orc arbiter_assignment (butlast (indices[i := List.last indices])) i
                     (with_switch position switch rest @ [l]) (found @ [l]) (new_clauses @ [clause])
                     (uc\<lparr>unate_clauses := unate_clauses uc @ [clause]\<rparr>))
      else (indices, found, new_clauses, uc))"
  by pat_completeness auto
termination
  by (relation "measure (\<lambda>(_, _, indices, i, _). length indices - i)") auto

declare unates_pass.simps [simp del]

lemma unates_pass_end: "\<not> i < length indices \<Longrightarrow> unates_pass orc as indices i assumptions found new uc = (indices, found, new, uc)"
  by (simp add: unates_pass.simps [of orc as indices i])

lemma unates_pass_step:
  assumes "i < length indices"
    and "unate_literal_of orc (uc_existentials uc ! (indices ! i)) (renamed_existentials uc ! (indices ! i))
      (without_switch (indices ! i + length as) assumptions) uc = (l, uc')"
  shows "unates_pass orc as indices i assumptions found new uc =
    (let restored = with_switch (indices ! i + length as) (switches_for_equalities uc ! (indices ! i))
           (without_switch (indices ! i + length as) assumptions) in
     case l of
       None \<Rightarrow> unates_pass orc as indices (i + 1) restored found new uc'
     | Some l \<Rightarrow>
         let clause = l # negateEach (the (sat_getFailed as (unate_solver uc')))
         in unates_pass orc as (butlast (indices[i := List.last indices])) i (restored @ [l]) (found @ [l]) (new @ [clause])
              (uc'\<lparr>unate_clauses := unate_clauses uc' @ [clause]\<rparr>))"
  using assms by (simp add: unates_pass.simps [of orc as indices i] Let_def split: option.splits)

lemma unates_pass_shrinks:
  "unates_pass orc as indices i assumptions found new uc = (indices', r) \<Longrightarrow> length indices' \<le> length indices"
proof (induction "length indices - i" arbitrary: indices i assumptions found new uc rule: less_induct)
  case less
  obtain l uc' where u: "unate_literal_of orc (uc_existentials uc ! (indices ! i)) (renamed_existentials uc ! (indices ! i))
      (without_switch (indices ! i + length as) assumptions) uc = (l, uc')" by fastforce
  show ?case
  proof (cases "i < length indices")
    case True
    note step = less.prems [unfolded unates_pass_step [OF True u] Let_def]
    show ?thesis
    proof (cases l)
      case None
      then show ?thesis using step True by (intro less.hyps) auto
    next
      case (Some l')
      with step have "length indices' \<le> length (butlast (indices[i := List.last indices]))"
        using True by (intro less.hyps) auto
      then show ?thesis by simp
    qed
  qed (use less.prems unates_pass_end in simp)
qed

text \<open>The outer loop ends with a pass that finds nothing.\<close>

function unates_loop ::
  "sat_oracle \<Rightarrow> int list \<Rightarrow> nat list \<Rightarrow> int list \<Rightarrow> cnf \<Rightarrow> unate_checker \<Rightarrow> cnf \<times> unate_checker" where
  "unates_loop orc arbiter_assignment indices found new_clauses uc =
     (let (indices', found, new_clauses, uc) =
            unates_pass orc arbiter_assignment indices 0 (arbiter_assignment @ switches_for_equalities uc @ found) found new_clauses uc
      in if length indices' \<noteq> length indices then unates_loop orc arbiter_assignment indices' found new_clauses uc
         else (new_clauses, uc))"
  by pat_completeness auto
termination
proof (relation "measure (\<lambda>(_, _, indices, _). length indices)", simp, goal_cases)
  case (1 orc as indices found new uc p indices' q found' r new' uc')
  then have "unates_pass orc as indices 0 (as @ switches_for_equalities uc @ found) found new uc = (indices', q)" by simp
  moreover from this have "length indices' \<le> length indices" by (rule unates_pass_shrinks)
  ultimately show ?case using 1(5) by simp
qed

declare unates_loop.simps [simp del]

text \<open>The assertions on the variables to consider are failures.\<close>

definition index_of_existential :: "unate_checker \<Rightarrow> int \<Rightarrow> nat option" where
  "index_of_existential uc v =
     (if uc_existentials uc = [] \<or> \<not> v \<le> List.last (uc_existentials uc) then None
      else let index = lower_bound (uc_existentials uc) v
           in if uc_existentials uc ! index = v then Some index else None)"

definition findUnates :: "sat_oracle \<Rightarrow> int list \<Rightarrow> int list \<Rightarrow> unate_checker \<Rightarrow> (cnf \<times> unate_checker) option" where
  "findUnates orc variables_to_consider arbiter_assignment uc =
     do {
       indices \<leftarrow> those (map (index_of_existential uc) variables_to_consider);
       Some (unates_loop orc arbiter_assignment indices [] [] uc)
     }"

section \<open>The formula of the solver\<close>

lemma rename_existentials_fields:
  "rename_existentials es n = (rs, ss, eqs, m) \<Longrightarrow>
     length rs = length es \<and> length ss = length es \<and> n \<le> m \<and> set (rs @ ss) \<subseteq> {n<..m} \<and> distinct (rs @ ss) \<and>
     (cnf_sat \<beta> eqs \<longleftrightarrow> (\<forall>i<length es. cnf_sat \<beta> (clausalEncodingEquality (es ! i) (rs ! i) (ss ! i))))"
proof (induction es arbitrary: n rs ss eqs m)
  case (Cons e es)
  obtain rs' ss' eqs' m' where rec: "rename_existentials es (n + 2) = (rs', ss', eqs', m')"
    by (cases "rename_existentials es (n + 2)") auto
  then have eq: "rs = (n + 1) # rs'" "ss = (n + 2) # ss'" "eqs = clausalEncodingEquality e (n + 1) (n + 2) @ eqs'" "m = m'"
    using Cons.prems by (simp_all add: Let_def)
  note IH = Cons.IH [OF rec]
  have "{n + 1, n + 2} \<inter> {n + 2<..m'} = {}" by auto
  then show ?case using IH unfolding eq by (auto simp: All_less_Suc2)
qed simp

text \<open>
  Where the matrix holds for \<open>\<alpha>\<close> and fails for \<open>\<alpha>'\<close>, the formula of the solver has a model that
  reads \<open>\<alpha>\<close> on the variables and \<open>\<alpha>'\<close> on the copies, with the switches on where both agree.
\<close>

definition separates :: "cnf \<Rightarrow> int \<Rightarrow> unate_checker \<Rightarrow> bool" where
  "separates matrix n uc \<longleftrightarrow>
     (\<forall>\<alpha> \<alpha>'. cnf_sat \<alpha> matrix \<and> \<not> cnf_sat \<alpha>' matrix \<and> (\<forall>v. v \<notin> set (uc_existentials uc) \<longrightarrow> \<alpha> v = \<alpha>' v) \<longrightarrow>
       (\<exists>\<beta>. agree_upto n \<alpha> \<beta> \<and> cnf_sat \<beta> (sat_clauses (unate_solver uc)) \<and>
          (\<forall>i<length (uc_existentials uc). \<beta> (renamed_existentials uc ! i) = \<alpha>' (uc_existentials uc ! i) \<and>
             \<beta> (switches_for_equalities uc ! i) = (\<alpha> (uc_existentials uc ! i) = \<alpha>' (uc_existentials uc ! i)))))"

definition unate_lists_ok :: "int \<Rightarrow> unate_checker \<Rightarrow> bool" where
  "unate_lists_ok n uc \<longleftrightarrow>
     length (renamed_existentials uc) = length (uc_existentials uc) \<and>
     length (switches_for_equalities uc) = length (uc_existentials uc) \<and>
     distinct (uc_existentials uc) \<and> distinct (switches_for_equalities uc) \<and> sorted (uc_existentials uc) \<and>
     set (uc_existentials uc) \<subseteq> {1..n} \<and> (\<forall>v\<in>set (switches_for_equalities uc) \<union> set (renamed_existentials uc). n < v) \<and> 0 \<le> n"

lemma index_of_pair: "distinct xs \<Longrightarrow> length ys = length xs \<Longrightarrow> i < length xs \<Longrightarrow> map_of (zip xs ys) (xs ! i) = Some (ys ! i)"
  by (rule map_of_zip_nth) simp_all

lemma new_UnateChecker_separates:
  assumes new: "new_UnateChecker matrix es n = (m, uc)" and wf: "wf_cnf matrix" and n: "0 < n"
    and vars: "cnf_vars matrix \<subseteq> {1..n}" and es: "distinct es" "set es \<subseteq> {1..n}"
  shows "separates matrix n uc" "unate_lists_ok n uc" "uc_existentials uc = sort es" "sat_assumed (unate_solver uc) = []"
proof -
  obtain N cvs k where neg: "negateFormula matrix n = (N, cvs, k)" by (cases "negateFormula matrix n") auto
  define xs where "xs = sort es"
  obtain rs ss eqs l where ren: "rename_existentials xs k = (rs, ss, eqs, l)" by (cases "rename_existentials xs k") auto
  define \<rho> where "\<rho> = map_of (zip xs rs)"
  have uc: "uc_existentials uc = xs" "renamed_existentials uc = rs" "switches_for_equalities uc = ss"
    "sat_clauses (unate_solver uc) = matrix @ renameFormula N \<rho> @ eqs" "sat_assumed (unate_solver uc) = []"
    using new neg ren by (auto simp: new_UnateChecker_def Let_def \<rho>_def xs_def init_solver_def)
  have start: "negate_start matrix n = n" using n by (simp add: negate_start_def)
  have k: "k = n + int (length matrix)" using negateFormula_counters [OF neg] start by simp
  note R = rename_existentials_fields [OF ren]
  have xs: "distinct xs" "set xs \<subseteq> {1..n}" "sorted xs" using es by (simp_all add: xs_def)
  have above: "n < v" if "v \<in> set rs \<union> set ss" for v
    using R that k by (metis Un_iff greaterThanAtMost_iff int_ops(1) linorder_not_le of_nat_0_le_iff
        order_le_less_trans le_add_same_cancel1 set_append subset_iff)
  have len: "length rs = length xs" "length ss = length xs" using R by simp_all
  show lists: "unate_lists_ok n uc"
    using R xs above n by (auto simp: unate_lists_ok_def uc)
  show "uc_existentials uc = sort es" by (simp add: uc xs_def)
  show "sat_assumed (unate_solver uc) = []" by (rule uc(5))
  have N_wf: "wf_cnf N" by (rule negateFormula_wf [OF neg wf])
  have N_vars: "cnf_vars N \<subseteq> {1..k}" using negateFormula_cnf_vars [OF neg] start n vars k by fastforce
  have \<rho>_some: "\<rho> (xs ! i) = Some (rs ! i)" if "i < length xs" for i
    unfolding \<rho>_def by (rule index_of_pair [OF xs(1) len(1) that])
  have \<rho>_none: "\<rho> v = None" if "v \<notin> set xs" for v
    using that len by (simp add: \<rho>_def map_of_zip_is_None)
  have \<rho>_ran: "nonzero_renaming \<rho>"
  proof -
    have "ran \<rho> \<subseteq> set rs" unfolding \<rho>_def using len by (auto simp: ran_def dest: map_of_SomeD set_zip_rightD)
    then show ?thesis using above n by (force simp: nonzero_renaming_def)
  qed
  show "separates matrix n uc"
    unfolding separates_def uc
  proof (intro allI impI, elim conjE)
    fix \<alpha> \<alpha>'
    assume sat: "cnf_sat \<alpha> matrix" and unsat: "\<not> cnf_sat \<alpha>' matrix" and same: "\<forall>v. v \<notin> set xs \<longrightarrow> \<alpha> v = \<alpha>' v"
    have "cnf_vars matrix \<subseteq> {..negate_start matrix n}" using vars start by auto
    from negateFormula_satisfiable [OF neg wf this unsat] obtain \<gamma> where \<gamma>: "agree_upto n \<alpha>' \<gamma>" "cnf_sat \<gamma> N"
      using start by auto
    define \<beta> where "\<beta> v = (if v \<le> n then \<alpha> v else if v \<in> set rs then \<exists>i<length xs. rs ! i = v \<and> \<alpha>' (xs ! i)
      else if v \<in> set ss then \<exists>i<length xs. ss ! i = v \<and> \<alpha> (xs ! i) = \<alpha>' (xs ! i) else \<gamma> v)" for v
    have b1: "\<beta> (rs ! i) = \<alpha>' (xs ! i)" "\<beta> (ss ! i) = (\<alpha> (xs ! i) = \<alpha>' (xs ! i))" if i: "i < length xs" for i
    proof -
      have mem: "rs ! i \<in> set rs" "ss ! i \<in> set ss" using len i by simp_all
      have d: "distinct rs" "distinct ss" "set rs \<inter> set ss = {}" using R by auto
      have "\<And>j. j < length xs \<Longrightarrow> rs ! j = rs ! i \<Longrightarrow> j = i" "\<And>j. j < length xs \<Longrightarrow> ss ! j = ss ! i \<Longrightarrow> j = i"
        using d len i by (simp_all add: nth_eq_iff_index_eq)
      moreover have "\<not> rs ! i \<le> n" "\<not> ss ! i \<le> n" using above mem by (force, force)
      ultimately show "\<beta> (rs ! i) = \<alpha>' (xs ! i)" "\<beta> (ss ! i) = (\<alpha> (xs ! i) = \<alpha>' (xs ! i))"
        using mem d i by (auto simp: \<beta>_def)
    qed
    have agree: "agree_upto n \<alpha> \<beta>" by (simp add: agree_upto_def \<beta>_def)
    have "cnf_sat (rename_assignment \<rho> \<beta>) N = cnf_sat \<gamma> N"
    proof (rule cnf_sat_cong)
      fix v assume v: "v \<in> cnf_vars N"
      show "rename_assignment \<rho> \<beta> v = \<gamma> v"
      proof (cases "v \<in> set xs")
        case True
        then obtain i where i: "i < length xs" "v = xs ! i" by (auto simp: in_set_conv_nth)
        have "0 < rs ! i" using above [of "rs ! i"] i len n by simp
        moreover have "v \<le> n" using True xs(2) by auto
        ultimately show ?thesis using \<rho>_some [OF i(1)] b1(1) [OF i(1)] \<gamma>(1) i(2)
          by (simp add: rename_assignment_def lit_true_def agree_upto_def)
      next
        case False
        have "v \<notin> set rs \<union> set ss" using v N_vars R by fastforce
        then show ?thesis using \<rho>_none [OF False] same False \<gamma>(1)
          by (auto simp: rename_assignment_def \<beta>_def agree_upto_def)
      qed
    qed
    then have "cnf_sat \<beta> (renameFormula N \<rho>)" using renameFormula_sat [OF \<rho>_ran N_wf] \<gamma>(2) by simp
    moreover have "cnf_sat \<beta> matrix = cnf_sat \<alpha> matrix"
      by (rule cnf_sat_cong) (use vars in \<open>auto simp: \<beta>_def\<close>)
    then have "cnf_sat \<beta> matrix" using sat by simp
    moreover have "cnf_sat \<beta> eqs"
    proof -
      have "cnf_sat \<beta> (clausalEncodingEquality (xs ! i) (rs ! i) (ss ! i))" if i: "i < length xs" for i
      proof -
        have "n < rs ! i" "n < ss ! i" using above len i by simp_all
        then have "0 < rs ! i" "0 < ss ! i" using n by simp_all
        moreover have "xs ! i \<in> {1..n}" using xs(2) i nth_mem by blast
        then have "0 < xs ! i" "xs ! i \<le> n" by simp_all
        moreover from this have "\<beta> (xs ! i) = \<alpha> (xs ! i)" by (simp add: \<beta>_def)
        ultimately show ?thesis using b1 [OF i] by (simp add: clausalEncodingEquality_sat)
      qed
      then show ?thesis using R by blast
    qed
    ultimately show "\<exists>\<beta>. agree_upto n \<alpha> \<beta> \<and> cnf_sat \<beta> (matrix @ renameFormula N \<rho> @ eqs) \<and>
        (\<forall>i<length xs. \<beta> (rs ! i) = \<alpha>' (xs ! i) \<and> \<beta> (ss ! i) = (\<alpha> (xs ! i) = \<alpha>' (xs ! i)))"
      using agree b1 by auto
  qed
qed

section \<open>A pass\<close>

definition make_true :: "int list \<Rightarrow> assignment \<Rightarrow> assignment" where
  "make_true ls \<alpha> v = (if 0 < v \<and> v \<in> set ls then True else if 0 < v \<and> - v \<in> set ls then False else \<alpha> v)"

lemma restored_assumptions:
  assumes "position < length A" "A ! position = s"
  shows "with_switch position s (without_switch position A) = A"
proof (cases "position = length A - 1")
  case True
  then have "without_switch position A = butlast A" using assms
    by (simp add: without_switch_def last_conv_nth butlast_list_update list_update_same_conv)
  moreover have "A = butlast A @ [s]" using True assms by (metis append_butlast_last_id last_conv_nth length_0_conv less_nat_zero_code)
  then obtain B where "A = B @ [s]" by blast
  ultimately show ?thesis using True by (simp add: with_switch_def list_update_append)
next
  case False
  then have p: "position < length A - 1" using assms(1) by simp
  obtain B a where A: "A = B @ [a]" using assms(1) by (cases A rule: rev_cases) auto
  have "without_switch position A = B[position := a]" using p by (simp add: A without_switch_def list_update_append butlast_append)
  then show ?thesis using p assms(2)
    by (simp add: A with_switch_def list_update_append nth_append) (metis list_update_id)
qed

lemma overwritten_by_last:
  assumes "position < length A" "distinct A"
  shows "set (butlast (A[position := List.last A])) = set A - {A ! position}" "distinct (butlast (A[position := List.last A]))"
proof -
  obtain B a where A: "A = B @ [a]" using assms(1) by (cases A rule: rev_cases) auto
  have "set (butlast (A[position := List.last A])) = set A - {A ! position} \<and> distinct (butlast (A[position := List.last A]))"
  proof (cases "position < length B")
    case True
    then have "butlast (A[position := List.last A]) = B[position := a]" by (simp add: A list_update_append butlast_append)
    moreover have "set (B[position := a]) = insert a (set B - {B ! position})"
      using set_update_distinct [of B position a] True assms(2) by (simp add: A)
    moreover have "distinct (B[position := a])" using assms(2) by (auto simp: A intro!: distinct_list_update)
    ultimately show ?thesis using True assms(2) by (auto simp: A nth_append)
  next
    case False
    then show ?thesis using assms by (auto simp: A list_update_append butlast_append nth_append)
  qed
  then show "set (butlast (A[position := List.last A])) = set A - {A ! position}" "distinct (butlast (A[position := List.last A]))"
    by blast+
qed

lemma without_switch_set:
  "position < length A \<Longrightarrow> distinct A \<Longrightarrow> set (without_switch position A) = set A - {A ! position}"
  unfolding without_switch_def by (rule overwritten_by_last)

definition same_lists :: "unate_checker \<Rightarrow> unate_checker \<Rightarrow> bool" where
  "same_lists uc uc' \<longleftrightarrow> uc_existentials uc' = uc_existentials uc \<and> renamed_existentials uc' = renamed_existentials uc \<and>
     switches_for_equalities uc' = switches_for_equalities uc \<and>
     sat_clauses (unate_solver uc') = sat_clauses (unate_solver uc) \<and> sat_assumed (unate_solver uc') = []"

lemma checkUnateLiteral_effect:
  assumes "checkUnateLiteral orc l l' A uc = (b, uc')" "sat_assumed (unate_solver uc) = []" "oracle_sound orc"
  shows "same_lists uc uc'" "b \<Longrightarrow> satisfies \<beta> (sat_clauses (unate_solver uc)) (A @ [l, l']) \<Longrightarrow> False"
    "b \<Longrightarrow> \<exists>failed. sat_getFailed as (unate_solver uc') = Some failed \<and> set failed \<subseteq> set as"
proof -
  let ?s = "sat_assume (A @ [l, l']) (unate_solver uc)"
  obtain r s' where solve: "sat_solve orc ?s = (r, s')" by (cases "sat_solve orc ?s")
  with assms(1) have uc': "uc' = uc\<lparr>unate_solver := s'\<rparr>" "b = (r = 20)" by (simp_all add: checkUnateLiteral_def)
  show "same_lists uc uc'" using solve by (auto simp: same_lists_def uc' sat_solve_def Let_def)
  show "\<exists>failed. sat_getFailed as (unate_solver uc') = Some failed \<and> set failed \<subseteq> set as" if b
    using sat_solve_unsat [of orc ?s s'] solve that by (auto simp: uc')
  assume b: b and sat: "satisfies \<beta> (sat_clauses (unate_solver uc)) (A @ [l, l'])"
  then obtain core where "orc (sat_calls ?s) (sat_clauses ?s) (sat_assumed ?s) = Unsat core"
    using solve uc'(2) by (auto simp: sat_solve_def answer_code_def Let_def split: answer.splits)
  moreover have "answer_sound (sat_clauses ?s) (sat_assumed ?s) (orc (sat_calls ?s) (sat_clauses ?s) (sat_assumed ?s))"
    using assms(3) by (simp add: oracle_sound_def)
  ultimately have "\<not> satisfies \<beta> (sat_clauses ?s) (sat_assumed ?s)"
    by (fastforce simp: answer_sound_def satisfies_def list_all_iff)
  then show False using sat assms(2) by simp
qed

text \<open>What a literal found unate under the assumptions means.\<close>

lemma unate_literal_of_sound:
  assumes run: "unate_literal_of orc (uc_existentials uc ! k) (renamed_existentials uc ! k) A uc = (Some l, uc')"
    and ok: "separates matrix n uc" "unate_lists_ok n uc" "sat_assumed (unate_solver uc) = []" and orc: "oracle_sound orc"
    and k: "k < length (uc_existentials uc)"
    and A: "set A \<subseteq> set fixed \<union> (set (switches_for_equalities uc) - {switches_for_equalities uc ! k})"
    and fixed: "clause_vars fixed \<subseteq> {1..n}" "list_all (lit_true \<alpha>) fixed" and sat: "cnf_sat \<alpha> matrix"
  shows "\<bar>l\<bar> = uc_existentials uc ! k" "l \<noteq> 0" "cnf_sat (make_true [l] \<alpha>) matrix"
proof -
  let ?v = "uc_existentials uc ! k" and ?w = "renamed_existentials uc ! k" and ?ss = "switches_for_equalities uc"
  obtain b uc1 where first: "checkUnateLiteral orc (- ?v) ?w A uc = (b, uc1)" by (cases "checkUnateLiteral orc (- ?v) ?w A uc")
  note E1 = checkUnateLiteral_effect [OF first ok(3) orc]
  have L: "length (renamed_existentials uc) = length (uc_existentials uc)" "length ?ss = length (uc_existentials uc)"
    "distinct (uc_existentials uc)" "distinct ?ss" "set (uc_existentials uc) \<subseteq> {1..n}"
    "\<forall>v\<in>set ?ss \<union> set (renamed_existentials uc). n < v" "0 \<le> n"
    using ok(2) by (simp_all add: unate_lists_ok_def)
  have v: "?v \<in> {1..n}" using L(5) k nth_mem by blast
  moreover have "n < ?w" using L(1,6) k by simp
  ultimately have pos: "0 < ?v" "?v \<le> n" "0 < ?w" by simp_all
  have unate: "cnf_sat (\<alpha>(?v := 0 < x)) matrix"
    if x: "x = ?v \<or> x = - ?v" and l': "l' = (if x = ?v then ?w else - ?w)"
      and no: "\<And>\<beta>. satisfies \<beta> (sat_clauses (unate_solver uc)) (A @ [- x, l']) \<Longrightarrow> False" for x l'
  proof (rule ccontr)
    let ?\<alpha>' = "\<alpha>(?v := 0 < x)"
    assume not: "\<not> cnf_sat ?\<alpha>' matrix"
    have "?\<alpha>' = \<alpha>" if "\<alpha> ?v = (0 < x)" using that by (rule fun_upd_idem)
    then have flip: "\<alpha> ?v \<noteq> (0 < x)" using not sat by metis
    have "\<forall>u. u \<notin> set (uc_existentials uc) \<longrightarrow> \<alpha> u = ?\<alpha>' u" using k by auto
    note ok(1) [unfolded separates_def, THEN spec, THEN spec, THEN mp, OF conjI [OF sat conjI [OF not this]]]
    then obtain \<beta> where \<beta>: "agree_upto n \<alpha> \<beta>" "cnf_sat \<beta> (sat_clauses (unate_solver uc))"
      "\<forall>i<length (uc_existentials uc). \<beta> (renamed_existentials uc ! i) = ?\<alpha>' (uc_existentials uc ! i) \<and>
         \<beta> (?ss ! i) = (\<alpha> (uc_existentials uc ! i) = ?\<alpha>' (uc_existentials uc ! i))" by blast
    have "lit_true \<beta> a" if "a \<in> set A" for a
    proof -
      consider "a \<in> set fixed" | "a \<in> set ?ss" "a \<noteq> ?ss ! k" using A \<open>a \<in> set A\<close> by blast
      then show ?thesis
      proof cases
        case 1
        then have "\<bar>a\<bar> \<le> n" "lit_true \<alpha> a" using fixed by (auto simp: clause_vars_def list_all_iff)
        moreover have "lit_true \<alpha> a = lit_true \<beta> a"
          by (rule lit_true_cong) (use \<beta>(1) calculation in \<open>simp add: agree_upto_def\<close>)
        ultimately show ?thesis by simp
      next
        case 2
        then obtain i where i: "i < length ?ss" "a = ?ss ! i" "i \<noteq> k" by (auto simp: in_set_conv_nth)
        then have "uc_existentials uc ! i \<noteq> ?v" using L(2,3) k by (simp add: nth_eq_iff_index_eq)
        then have "\<beta> a" using \<beta>(3) i L(2) by simp
        moreover have "0 < a" using L(6,7) 2(1) le_less_trans [of 0 n a] by blast
        ultimately show ?thesis by (simp add: lit_true_def)
      qed
    qed
    moreover have "\<beta> ?v = \<alpha> ?v" "\<beta> ?w = (0 < x)" using \<beta>(1,3) pos k by (simp_all add: agree_upto_def)
    then have "lit_true \<beta> (- x)" "lit_true \<beta> l'" using flip x l' pos by (auto simp: lit_true_def)
    ultimately have "satisfies \<beta> (sat_clauses (unate_solver uc)) (A @ [- x, l'])"
      using \<beta>(2) by (simp add: satisfies_def list_all_iff)
    then show False by (rule no)
  qed
  have result: "\<bar>l\<bar> = ?v \<and> cnf_sat (\<alpha>(?v := 0 < l)) matrix"
  proof (cases b)
    case True
    then have "l = ?v" using run first by (simp add: unate_literal_of_def)
    moreover have "cnf_sat (\<alpha>(?v := 0 < ?v)) matrix" by (rule unate [of ?v ?w]) (use E1(2) [OF True] in simp_all)
    ultimately show ?thesis using pos by simp
  next
    case False
    obtain b2 uc2 where second: "checkUnateLiteral orc ?v (- ?w) A uc1 = (b2, uc2)" by (cases "checkUnateLiteral orc ?v (- ?w) A uc1")
    have "sat_assumed (unate_solver uc1) = []" and same: "sat_clauses (unate_solver uc1) = sat_clauses (unate_solver uc)"
      using E1(1) by (simp_all add: same_lists_def)
    note E2 = checkUnateLiteral_effect [OF second this(1) orc]
    have l: "b2" "l = - ?v" using run first second False by (simp_all add: unate_literal_of_def split: if_splits)
    have "cnf_sat (\<alpha>(?v := 0 < - ?v)) matrix" by (rule unate [of "- ?v" "- ?w"]) (use E2(2) [OF l(1)] same pos in simp_all)
    then show ?thesis using l pos by simp
  qed
  then show "\<bar>l\<bar> = ?v" by simp
  then show "l \<noteq> 0" using pos by auto
  have "make_true [l] \<alpha> = \<alpha>(?v := 0 < l)"
    using \<open>\<bar>l\<bar> = ?v\<close> pos by (intro ext) (auto simp: make_true_def)
  then show "cnf_sat (make_true [l] \<alpha>) matrix" using result by simp
qed

lemma unate_literal_of_same:
  assumes "unate_literal_of orc v w A uc = (l, uc')" "sat_assumed (unate_solver uc) = []" "oracle_sound orc"
  shows "same_lists uc uc'"
    "l \<noteq> None \<Longrightarrow> \<exists>failed. sat_getFailed as (unate_solver uc') = Some failed \<and> set failed \<subseteq> set as"
proof -
  obtain b uc1 where first: "checkUnateLiteral orc (- v) w A uc = (b, uc1)" by (cases "checkUnateLiteral orc (- v) w A uc")
  note E1 = checkUnateLiteral_effect [OF first assms(2,3)]
  obtain b2 uc2 where second: "checkUnateLiteral orc v (- w) A uc1 = (b2, uc2)" by (cases "checkUnateLiteral orc v (- w) A uc1")
  have "sat_assumed (unate_solver uc1) = []" using E1(1) by (simp add: same_lists_def)
  note E2 = checkUnateLiteral_effect [OF second this assms(3)]
  have which: "uc' = uc1 \<and> (l \<noteq> None \<longrightarrow> b) \<or> uc' = uc2 \<and> (l \<noteq> None \<longrightarrow> b2)"
    using assms(1) first second by (auto simp: unate_literal_of_def split: if_splits)
  then show "same_lists uc uc'" using E1(1) E2(1) by (auto simp: same_lists_def)
  show "\<exists>failed. sat_getFailed as (unate_solver uc') = Some failed \<and> set failed \<subseteq> set as" if "l \<noteq> None"
    using which that E1(3) E2(3) by blast
qed

text \<open>
  The invariant of the search: what is found can be made true together, and each reported clause
  has a found literal and negated arbiter assumptions.
\<close>

definition unates_inv ::
  "cnf \<Rightarrow> int \<Rightarrow> int list \<Rightarrow> int list \<Rightarrow> int set \<Rightarrow> nat list \<Rightarrow> int list \<Rightarrow> cnf \<Rightarrow> unate_checker \<Rightarrow> bool" where
  "unates_inv matrix n es arbiters V indices found new_clauses uc \<longleftrightarrow>
     separates matrix n uc \<and> unate_lists_ok n uc \<and> uc_existentials uc = es \<and> sat_assumed (unate_solver uc) = [] \<and>
     distinct indices \<and> (\<forall>i\<in>set indices. i < length es \<and> es ! i \<in> V \<and> es ! i \<notin> abs ` set found) \<and>
     distinct (map abs found) \<and> abs ` set found \<subseteq> V \<inter> set es \<and>
     map hd new_clauses = found \<and> (\<forall>c\<in>set new_clauses. c \<noteq> [] \<and> set (tl c) \<subseteq> uminus ` set arbiters) \<and>
     (\<forall>\<alpha>. cnf_sat \<alpha> matrix \<and> list_all (lit_true \<alpha>) arbiters \<longrightarrow> cnf_sat (make_true found \<alpha>) matrix)"

lemma make_true_append:
  "\<bar>l\<bar> \<notin> abs ` set ls \<Longrightarrow> l \<noteq> 0 \<Longrightarrow> make_true (ls @ [l]) \<alpha> = make_true [l] (make_true ls \<alpha>)"
  by (rule ext) (force simp: make_true_def image_iff)

lemma make_true_lits:
  assumes "distinct (map abs ls)" "0 \<notin> set ls"
  shows "list_all (lit_true (make_true ls \<alpha>)) ls"
proof -
  have "lit_true (make_true ls \<alpha>) l" if l: "l \<in> set ls" for l
  proof -
    have inj: "inj_on abs (set ls)" using assms(1) by (simp only: distinct_map)
    have "- l \<notin> set ls" if "l \<noteq> - l" using inj_onD [OF inj _ l] that by (metis abs_minus_cancel)
    moreover have "l \<noteq> - l" using l assms(2) by auto
    ultimately show ?thesis using l by (auto simp: lit_true_def make_true_def abs_if)
  qed
  then show ?thesis by (simp add: list_all_iff)
qed

lemma make_true_other: "\<bar>a\<bar> \<notin> abs ` set ls \<Longrightarrow> lit_true (make_true ls \<alpha>) a = lit_true \<alpha> a"
proof -
  assume "\<bar>a\<bar> \<notin> abs ` set ls"
  then have "\<bar>a\<bar> \<notin> set ls" "- \<bar>a\<bar> \<notin> set ls" using image_iff by fastforce+
  then show ?thesis by (intro lit_true_cong) (simp add: make_true_def)
qed

lemma unates_pass_inv:
  assumes "unates_pass orc arbiters indices i (arbiters @ switches_for_equalities uc @ found) found new uc = (indices', found', new', uc')"
    and "unates_inv matrix n es arbiters V indices found new uc" "oracle_sound orc"
    and "distinct arbiters" "clause_vars arbiters \<subseteq> {1..n} - set es"
  shows "unates_inv matrix n es arbiters V indices' found' new' uc'"
  using assms(1,2)
proof (induction "length indices - i" arbitrary: indices i found new uc rule: less_induct)
  case less
  show ?case
  proof (cases "i < length indices")
    case False
    then show ?thesis using less.prems unates_pass_end by simp
  next
    case True
    let ?k = "indices ! i" and ?A = "arbiters @ switches_for_equalities uc @ found"
    let ?p = "?k + length arbiters" and ?s = "switches_for_equalities uc ! ?k"
    let ?rest = "without_switch ?p ?A"
    note all = less.prems(2) [unfolded unates_inv_def]
    have I: "separates matrix n uc" "unate_lists_ok n uc" "uc_existentials uc = es" "sat_assumed (unate_solver uc) = []"
      "distinct indices" "distinct (map abs found)" "abs ` set found \<subseteq> V \<inter> set es" "map hd new = found"
      and idx: "\<And>j. j \<in> set indices \<Longrightarrow> j < length es \<and> es ! j \<in> V \<and> es ! j \<notin> abs ` set found"
      and cl: "\<And>c. c \<in> set new \<Longrightarrow> c \<noteq> [] \<and> set (tl c) \<subseteq> uminus ` set arbiters"
      and models: "\<And>\<alpha>. cnf_sat \<alpha> matrix \<Longrightarrow> list_all (lit_true \<alpha>) arbiters \<Longrightarrow> cnf_sat (make_true found \<alpha>) matrix"
      using all by auto
    have L: "length (switches_for_equalities uc) = length es" "distinct (switches_for_equalities uc)"
      "\<forall>v\<in>set (switches_for_equalities uc). n < v" "set es \<subseteq> {1..n}" "distinct es"
      using I(2) by (auto simp: unate_lists_ok_def I(3))
    have k: "?k < length es" "es ! ?k \<in> V" "es ! ?k \<notin> abs ` set found" using idx True by auto
    have small: "\<bar>a\<bar> \<le> n" if "a \<in> set arbiters \<union> set found" for a
      using that assms(5) I(7) L(4) by (force simp: clause_vars_def)
    have "set (switches_for_equalities uc) \<inter> (set arbiters \<union> set found) = {}" using small L(3) by force
    moreover have "set arbiters \<inter> set found = {}"
      using assms(5) I(7) by (auto simp: clause_vars_def)
    moreover have "distinct found" using I(6) by (simp only: distinct_map)
    ultimately have A: "distinct ?A" using assms(4) L(2) by auto
    have p: "?p < length ?A" "?A ! ?p = ?s" using k(1) L(1) by (simp_all add: nth_append)
    have rest: "set ?rest = set ?A - {?s}" using without_switch_set [OF p(1) A] p(2) by simp
    have again: "with_switch ?p ?s ?rest = ?A" by (rule restored_assumptions [OF p])
    obtain l u1 where u: "unate_literal_of orc (uc_existentials uc ! ?k) (renamed_existentials uc ! ?k) ?rest uc = (l, u1)"
      by fastforce
    note same = unate_literal_of_same [OF u I(4) assms(3)]
    have S: "uc_existentials u1 = es" "switches_for_equalities u1 = switches_for_equalities uc" "separates matrix n u1"
      "unate_lists_ok n u1" "sat_assumed (unate_solver u1) = []"
      using same(1) I(1-3) by (simp_all add: same_lists_def separates_def unate_lists_ok_def)
    note step = less.prems(1) [unfolded unates_pass_step [OF True u] Let_def again]
    show ?thesis
    proof (cases l)
      case None
      have "unates_inv matrix n es arbiters V indices found new u1" using all S by (simp add: unates_inv_def)
      then show ?thesis using step None True S(2) by (intro less.hyps [of "indices" "i + 1" u1 found new]) auto
    next
      case (Some x)
      define clause where "clause = x # negateEach (the (sat_getFailed arbiters (unate_solver u1)))"
      define u2 where "u2 = u1\<lparr>unate_clauses := unate_clauses u1 @ [clause]\<rparr>"
      define rest' where "rest' = butlast (indices[i := List.last indices])"
      have sound: "\<bar>x\<bar> = es ! ?k \<and> x \<noteq> 0 \<and> cnf_sat (make_true (found @ [x]) \<alpha>) matrix"
        if \<alpha>: "cnf_sat \<alpha> matrix" "list_all (lit_true \<alpha>) arbiters" for \<alpha>
      proof -
        let ?\<alpha> = "make_true found \<alpha>"
        have "0 \<notin> abs ` set found" using I(7) L(4) by force
        then have "list_all (lit_true ?\<alpha>) found" by (intro make_true_lits [OF I(6)]) force
        moreover have "lit_true ?\<alpha> a" if "a \<in> set arbiters" for a
        proof -
          have "\<bar>a\<bar> \<notin> abs ` set found" using that assms(5) I(7) by (force simp: clause_vars_def)
          from make_true_other [OF this] that \<alpha>(2) show ?thesis by (simp add: list_all_iff)
        qed
        ultimately have "list_all (lit_true ?\<alpha>) (arbiters @ found)" by (auto simp: list_all_iff)
        moreover have "clause_vars (arbiters @ found) \<subseteq> {1..n}"
          using assms(5) I(7) L(4) by (auto simp: clause_vars_def)
        moreover have "set ?rest \<subseteq> set (arbiters @ found) \<union> (set (switches_for_equalities uc) - {?s})" using rest by auto
        moreover have "?k < length (uc_existentials uc)" using k(1) I(3) by simp
        ultimately have "\<bar>x\<bar> = uc_existentials uc ! ?k" "x \<noteq> 0" "cnf_sat (make_true [x] ?\<alpha>) matrix"
          using unate_literal_of_sound [OF u [unfolded Some] I(1,2,4) assms(3), where fixed = "arbiters @ found", OF _ _ _ _ models [OF \<alpha>]]
          by blast+
        note this [unfolded I(3)]
        then show ?thesis using make_true_append [of x found \<alpha>] k(3) by simp
      qed
      have x: "\<bar>x\<bar> = es ! ?k" using u Some L(4) k(1) I(3) nth_mem [OF k(1)]
        by (fastforce simp: unate_literal_of_def split: prod.splits if_splits)
      have idx': "set rest' = set indices - {?k}" "distinct rest'" "length rest' < length indices"
        using overwritten_by_last [OF True I(5)] True by (auto simp: rest'_def)
      have distinct: "distinct (map abs (found @ [x]))" using I(6) x k(3) by auto
      have found': "abs ` set (found @ [x]) \<subseteq> V \<inter> set es" using I(7) x k(1,2) nth_mem [OF k(1)] by auto
      have "j < length es \<and> es ! j \<in> V \<and> es ! j \<notin> abs ` set (found @ [x])" if "j \<in> set rest'" for j
        using idx [of j] that idx'(1) x L(5) k(1) by (auto simp: nth_eq_iff_index_eq)
      then have rest_ok: "\<forall>j\<in>set rest'. j < length es \<and> es ! j \<in> V \<and> es ! j \<notin> abs ` set (found @ [x])" by blast
      have "set (the (sat_getFailed arbiters (unate_solver u1))) \<subseteq> set arbiters" using same(2) [of arbiters] Some by auto
      then have clauses: "\<forall>c\<in>set (new @ [clause]). c \<noteq> [] \<and> set (tl c) \<subseteq> uminus ` set arbiters"
        using cl by (auto simp: clause_def negateEach_def)
      have u2: "separates matrix n u2" "unate_lists_ok n u2" "uc_existentials u2 = es" "sat_assumed (unate_solver u2) = []"
        using S by (simp_all add: u2_def separates_def unate_lists_ok_def)
      have "map hd (new @ [clause]) = found @ [x]" using I(8) by (simp add: clause_def)
      then have "unates_inv matrix n es arbiters V rest' (found @ [x]) (new @ [clause]) u2"
        unfolding unates_inv_def using u2 idx'(2) rest_ok distinct found' clauses sound by blast
      moreover have "unates_pass orc arbiters rest' i (arbiters @ switches_for_equalities u2 @ found @ [x]) (found @ [x]) (new @ [clause]) u2 =
          (indices', found', new', uc')"
        using step Some by (simp add: rest'_def u2_def clause_def S)
      ultimately show ?thesis using idx'(3) True by (intro less.hyps [of rest' i u2 "found @ [x]" "new @ [clause]"]) auto
    qed
  qed
qed

lemma unates_loop_inv:
  "unates_inv matrix n es arbiters V indices found new uc \<Longrightarrow> oracle_sound orc \<Longrightarrow> distinct arbiters \<Longrightarrow>
    clause_vars arbiters \<subseteq> {1..n} - set es \<Longrightarrow> unates_loop orc arbiters indices found new uc = (clauses, uc') \<Longrightarrow>
    \<exists>indices' found'. unates_inv matrix n es arbiters V indices' found' clauses uc'"
proof (induction orc arbiters indices found new uc arbitrary: clauses uc' rule: unates_loop.induct)
  case (1 orc arbiters indices found new uc)
  obtain indices1 found1 new1 u1 where pass: "unates_pass orc arbiters indices 0 (arbiters @ switches_for_equalities uc @ found) found new uc =
      (indices1, found1, new1, u1)" by (cases "unates_pass orc arbiters indices 0 (arbiters @ switches_for_equalities uc @ found) found new uc")
  note inv = unates_pass_inv [OF pass "1.prems"(1-4)]
  show ?case
  proof (cases "length indices1 \<noteq> length indices")
    case True
    then have "unates_loop orc arbiters indices1 found1 new1 u1 = (clauses, uc')"
      using "1.prems"(5) by (simp add: unates_loop.simps [of orc arbiters indices] pass)
    then show ?thesis by (rule "1.IH" [OF pass [symmetric] refl refl refl True inv "1.prems"(2-4)])
  next
    case False
    then show ?thesis using "1.prems"(5) inv by (auto simp: unates_loop.simps [of orc arbiters indices] pass)
  qed
qed

lemma index_of_existential_nth:
  assumes "index_of_existential uc v = Some k" "sorted (uc_existentials uc)"
  shows "k < length (uc_existentials uc)" "uc_existentials uc ! k = v"
proof -
  let ?es = "uc_existentials uc"
  have 1: "?es \<noteq> []" "v \<le> List.last ?es" "k = lower_bound ?es v" and 2: "?es ! k = v"
    using assms(1) by (auto simp: index_of_existential_def Let_def split: if_splits)
  show "?es ! k = v" by (rule 2)
  have "\<not> length ?es - 1 < lower_bound ?es v"
    using lower_bound_spec(2) [OF assms(2), of "length ?es - 1" v] 1(1,2) by (auto simp: last_conv_nth)
  then show "k < length ?es" using 1(1,3) by (cases ?es) auto
qed

lemma those_map_Some: "those (map f xs) = Some ys \<Longrightarrow> list_all2 (\<lambda>x y. f x = Some y) xs ys"
  by (induction xs arbitrary: ys) (auto split: option.splits)

lemma findUnates_together:
  assumes "new_UnateChecker matrix existentials n = (m, uc)" "wf_cnf matrix" "0 < n" "cnf_vars matrix \<subseteq> {1..n}"
    and "distinct existentials" "set existentials \<subseteq> {1..n}" and orc: "oracle_sound orc" and vs: "distinct variables"
    and arbiters: "distinct arbiters" "clause_vars arbiters \<subseteq> {1..n} - set existentials"
    and find: "findUnates orc variables arbiters uc = Some (clauses, uc')"
  shows "\<exists>indices found. unates_inv matrix n (sort existentials) arbiters (set variables) indices found clauses uc'"
proof -
  note new = new_UnateChecker_separates [OF assms(1-6)]
  obtain indices where idx: "those (map (index_of_existential uc) variables) = Some indices"
    and loop: "unates_loop orc arbiters indices [] [] uc = (clauses, uc')"
    using find by (auto simp: findUnates_def split: bind_splits)
  have all2: "list_all2 (\<lambda>v k. index_of_existential uc v = Some k) variables indices" by (rule those_map_Some [OF idx])
  have sorted: "sorted (uc_existentials uc)" using new(3) by simp
  have nth: "variables ! i = uc_existentials uc ! (indices ! i) \<and> indices ! i < length (uc_existentials uc)"
    if "i < length indices" for i
    using index_of_existential_nth [OF _ sorted] that all2 by (auto simp: list_all2_conv_all_nth)
  have len: "length indices = length variables" using all2 by (simp add: list_all2_lengthD)
  have "distinct indices"
  proof (rule distinct_conv_nth [THEN iffD2], intro allI impI)
    fix i j assume "i < length indices" "j < length indices" "i \<noteq> j"
    then show "indices ! i \<noteq> indices ! j" using nth [of i] nth [of j] vs len by (metis nth_eq_iff_index_eq)
  qed
  moreover have "k < length (uc_existentials uc) \<and> uc_existentials uc ! k \<in> set variables" if "k \<in> set indices" for k
    using nth that len by (metis in_set_conv_nth)
  ultimately have "unates_inv matrix n (sort existentials) arbiters (set variables) indices [] [] uc"
    using new by (auto simp: unates_inv_def make_true_def [abs_def])
  from unates_loop_inv [OF this orc arbiters(1) _ loop] arbiters(2) show ?thesis by simp
qed

lemma make_true_outside: "abs ` set ls \<subseteq> V \<Longrightarrow> v \<notin> V \<Longrightarrow> make_true ls \<alpha> v = \<alpha> v"
  by (force simp: make_true_def)

text \<open>
  C6: The clauses \<open>findUnates\<close> returns are unate literals guarded by negated arbiter assumptions, and
  all their literals can be made true together: whatever satisfies the matrix and the arbiter
  assumptions still satisfies the matrix, and all the clauses, after every unate literal has been
  made true, and only variables that were to be considered change. This holds for the repeated passes
  of the search, where later literals are only unate given the earlier ones, and for every limit of
  the solver.
\<close>

theorem unates_hold_together:
  assumes "new_UnateChecker matrix existentials n = (m, uc)" "wf_cnf matrix" "0 < n" "cnf_vars matrix \<subseteq> {1..n}"
    and "distinct existentials" "set existentials \<subseteq> {1..n}" and "oracle_sound orc" and "distinct variables"
    and "distinct arbiters" "clause_vars arbiters \<subseteq> {1..n} - set existentials"
    and "findUnates orc variables arbiters uc = Some (clauses, uc')"
  shows "list_all (\<lambda>c. c \<noteq> [] \<and> set (tl c) \<subseteq> uminus ` set arbiters) clauses \<and>
    (\<forall>\<alpha>. cnf_sat \<alpha> matrix \<and> list_all (lit_true \<alpha>) arbiters \<longrightarrow>
       cnf_sat (make_true (map hd clauses) \<alpha>) (matrix @ clauses) \<and>
       (\<forall>v. v \<notin> set variables \<longrightarrow> make_true (map hd clauses) \<alpha> v = \<alpha> v))"
proof -
  obtain indices found where inv: "unates_inv matrix n (sort existentials) arbiters (set variables) indices found clauses uc'"
    using findUnates_together [OF assms] by blast
  then have hd: "map hd clauses = found" and cl: "\<forall>c\<in>set clauses. c \<noteq> [] \<and> set (tl c) \<subseteq> uminus ` set arbiters"
    and d: "distinct (map abs found)" and V: "abs ` set found \<subseteq> set variables \<inter> set existentials"
    and sat: "\<And>\<alpha>. cnf_sat \<alpha> matrix \<Longrightarrow> list_all (lit_true \<alpha>) arbiters \<Longrightarrow> cnf_sat (make_true found \<alpha>) matrix"
    by (simp_all add: unates_inv_def)
  have "0 \<notin> set found" using V assms(6) by force
  then have lits: "list_all (lit_true (make_true found \<alpha>)) found" for \<alpha> by (rule make_true_lits [OF d])
  have "clause_sat (make_true found \<alpha>) c" if "c \<in> set clauses" for c \<alpha>
  proof -
    have "hd c \<in> set found" "hd c \<in> set c" using that cl hd by auto
    then show ?thesis using lits by (auto simp: clause_sat_iff list_all_iff)
  qed
  then have "cnf_sat (make_true found \<alpha>) clauses" for \<alpha> by (simp add: cnf_sat_iff)
  moreover have "make_true found \<alpha> v = \<alpha> v" if "v \<notin> set variables" for \<alpha> v
    using make_true_outside [of found "set variables"] V that by blast
  ultimately show ?thesis using sat cl by (simp add: hd list_all_iff)
qed

text \<open>The variable 3 is unate, and given it 2 is unate too; 2 alone is not.\<close>

definition unate_sample :: cnf where
  "unate_sample = [[1, 2], [- 2, 3]]"

definition unate_oracle :: sat_oracle where
  "unate_oracle n F as =
     (if F = [[1, 2], [- 2, 3], [- 1, 4], [- 6, 4], [6, 5], [- 8, 5], [- 4, - 5], [- 7, - 2, 6], [- 7, 2, - 6],
          [- 9, - 3, 8], [- 9, 3, - 8]] \<and>
        ({- 3, 7, 8} \<subseteq> set as \<or> {- 2, 3, 6, 9} \<subseteq> set as)
      then Unsat as else Unknown)"

lemma unate_oracle_sound: "oracle_sound unate_oracle"
  by (auto simp: oracle_sound_def answer_sound_def unate_oracle_def satisfies_def list_all_iff lit_true_def dest!: bspec)

lemma unate_sample_result:
  "case findUnates unate_oracle [2, 3] [] (snd (new_UnateChecker unate_sample [3, 2] 3)) of None \<Rightarrow> False | Some (cs, _) \<Rightarrow> cs = [[3], [2]]"
  by code_simp

theorem unates_hold_together_witness:
  "cnf_sat (make_true [3, 2] (\<lambda>v. v = 1)) (unate_sample @ [[3], [2]])"
proof -
  obtain m uc where new: "new_UnateChecker unate_sample [3, 2] 3 = (m, uc)" by (cases "new_UnateChecker unate_sample [3, 2] 3")
  obtain uc' where find: "findUnates unate_oracle [2, 3] [] uc = Some ([[3], [2]], uc')"
    using unate_sample_result by (auto simp: new split: option.splits)
  have "wf_cnf unate_sample" "cnf_vars unate_sample \<subseteq> {1..3}" "cnf_sat (\<lambda>v. v = 1) unate_sample"
    by (simp_all add: unate_sample_def lit_true_def)
  then show ?thesis
    using unates_hold_together [OF new _ _ _ _ _ unate_oracle_sound _ _ _ find] by simp
qed

end
