(* ===== verification/DefinabilityChecker.thy ===== *)
theory DefinabilityChecker
  imports SatSolver Configuration Utils_Correct "HOL-Library.Monad_Syntax"
begin

text \<open>
  The definability checker of \<open>src/definabilitychecker.h\<close> and \<open>src/definabilitychecker.cc\<close>, and
  the wrapper \<open>src/ITPsolver.cc\<close> of the interpolating solver it uses. A formula and a renamed copy
  are joined by equalities that can be switched on: a variable is defined by others when the two
  copies cannot disagree on it while they agree on the others. The interpolating solver itself is a
  separate library and a parameter, a record of the functions that are called.
\<close>

section \<open>The interpolating solver\<close>

datatype itp_error = Invalid_Argument | Runtime_Error

record 'i interpolator =
  i_new :: "int \<Rightarrow> 'i"
  i_addFormula :: "cnf \<Rightarrow> cnf \<Rightarrow> 'i \<Rightarrow> 'i"
  i_reserve :: "int \<Rightarrow> 'i \<Rightarrow> 'i"
  i_addClause :: "clause \<Rightarrow> nat \<Rightarrow> 'i \<Rightarrow> bool \<times> 'i"
  i_resetSolver :: "int \<Rightarrow> 'i \<Rightarrow> 'i"
  i_solve :: "int list \<Rightarrow> int \<Rightarrow> 'i \<Rightarrow> bool \<times> 'i"
  i_getConflict :: "'i \<Rightarrow> int list"
  i_getDefinition :: "int list \<Rightarrow> int \<Rightarrow> bool \<Rightarrow> int \<Rightarrow> 'i \<Rightarrow> (itp_error + circuit \<times> int list) \<times> 'i"

record 'i itp_solver =
  interpolatingsolver :: 'i
  max_var_index :: int
  first_part :: cnf
  second_part :: cnf

text \<open>The largest index is taken over the clauses in MiniSAT form.\<close>

definition new_ITPSolver :: "'i interpolator \<Rightarrow> cnf \<Rightarrow> cnf \<Rightarrow> 'i itp_solver" where
  "new_ITPSolver api first second =
     (let first = miniSATClauses first; second = miniSATClauses second;
          max_index = max (maxVarIndex first) (maxVarIndex second)
      in \<lparr>interpolatingsolver = i_addFormula api first second (i_new api max_index),
          max_var_index = max_index, first_part = first, second_part = second\<rparr>)"

definition itp_resetSolver :: "'i interpolator \<Rightarrow> 'i itp_solver \<Rightarrow> 'i itp_solver" where
  "itp_resetSolver api s =
     s\<lparr>interpolatingsolver :=
         i_addFormula api (first_part s) (second_part s) (i_resetSolver api (max_var_index s) (interpolatingsolver s))\<rparr>"

definition clause_max_variable :: "clause \<Rightarrow> int" where
  "clause_max_variable clause = fold (\<lambda>l m. max m (var l)) clause 0"

definition itp_addClause :: "'i interpolator \<Rightarrow> clause \<Rightarrow> bool \<Rightarrow> 'i itp_solver \<Rightarrow> bool \<times> 'i itp_solver" where
  "itp_addClause api clause add_to_first_part s =
     (let m = clause_max_variable clause;
          s = (if m > max_var_index s
               then s\<lparr>interpolatingsolver := i_reserve api m (interpolatingsolver s), max_var_index := m\<rparr> else s);
          coded = miniSATLiterals clause;
          s = (if add_to_first_part then s\<lparr>first_part := first_part s @ [coded]\<rparr>
               else s\<lparr>second_part := second_part s @ [coded]\<rparr>);
          (result, i) = i_addClause api coded (if add_to_first_part then 1 else 2) (interpolatingsolver s)
      in (result, s\<lparr>interpolatingsolver := i\<rparr>))"

definition itp_solve :: "'i interpolator \<Rightarrow> int list \<Rightarrow> int \<Rightarrow> 'i itp_solver \<Rightarrow> bool \<times> 'i itp_solver" where
  "itp_solve api assumptions limit s =
     (let (result, i) = i_solve api (miniSATLiterals assumptions) limit (interpolatingsolver s)
      in (result, s\<lparr>interpolatingsolver := i\<rparr>))"

definition itp_getConflict :: "'i interpolator \<Rightarrow> 'i itp_solver \<Rightarrow> int list" where
  "itp_getConflict api s = literalsFromMiniSATLiterals (i_getConflict api (interpolatingsolver s))"

definition itp_getDefinition ::
  "'i interpolator \<Rightarrow> int list \<Rightarrow> int \<Rightarrow> int \<Rightarrow> bool \<Rightarrow> 'i itp_solver \<Rightarrow> (itp_error + circuit \<times> int list) \<times> 'i itp_solver" where
  "itp_getDefinition api inputs output offset compress s =
     (let (result, i) = i_getDefinition api inputs output compress (max offset (max_var_index s)) (interpolatingsolver s)
      in (result, s\<lparr>interpolatingsolver := i\<rparr>))"

section \<open>The checker\<close>

text \<open>Without definitions in the configuration the pointers to the solvers are null.\<close>

record 'i definability_checker =
  dc_compress :: bool
  renaming :: "int \<rightharpoonup> int"
  renaming_inverse :: "int \<rightharpoonup> int"
  variable_to_equality_selector :: "int \<rightharpoonup> int"
  variable_to_on_selector :: "int \<rightharpoonup> int"
  variable_to_off_selector :: "int \<rightharpoonup> int"
  backbone_solver :: sat_solver
  fast_solver :: sat_solver
  interpolating_solver :: "'i itp_solver option"

type_synonym 'i dc_state = "int \<times> 'i definability_checker"

fun rename_variables :: "int list \<Rightarrow> int \<times> (int \<rightharpoonup> int) \<times> (int \<rightharpoonup> int) \<Rightarrow> int \<times> (int \<rightharpoonup> int) \<times> (int \<rightharpoonup> int)" where
  "rename_variables [] s = s"
| "rename_variables (v # vs) (n, ren, rinv) = rename_variables vs (n + 1, ren(v \<mapsto> n + 1), rinv(n + 1 \<mapsto> v))"

text \<open>The map is copied into an ordered one, so the equalities follow the order of the variables.\<close>

fun equality_clauses :: "int list \<Rightarrow> (int \<rightharpoonup> int) \<Rightarrow> int \<Rightarrow> int \<times> (int \<rightharpoonup> int) \<times> cnf" where
  "equality_clauses [] ren n = (n, Map.empty, [])"
| "equality_clauses (v # vs) ren n =
     (let (m, selectors, clauses) = equality_clauses vs ren (n + 1)
      in (m, selectors(v \<mapsto> n + 1), clausalEncodingEquality v (int_entry ren v) (n + 1) @ clauses))"

fun switch_clauses ::
  "int list \<Rightarrow> (int \<rightharpoonup> int) \<Rightarrow> int \<Rightarrow> int \<times> (int \<rightharpoonup> int) \<times> (int \<rightharpoonup> int) \<times> cnf \<times> cnf" where
  "switch_clauses [] ren n = (n, Map.empty, Map.empty, [], [])"
| "switch_clauses (v # vs) ren n =
     (let (m, on_map, off_map, first, second) = switch_clauses vs ren (n + 2)
      in (m, on_map(v \<mapsto> n + 1), off_map(v \<mapsto> n + 2), [- (n + 1), v] # first,
          [- (n + 2), - int_entry ren v] # second))"

definition no_definability_checker :: "bool \<Rightarrow> 'i definability_checker" where
  "no_definability_checker compress =
     \<lparr>dc_compress = compress, renaming = Map.empty, renaming_inverse = Map.empty,
      variable_to_equality_selector = Map.empty, variable_to_on_selector = Map.empty,
      variable_to_off_selector = Map.empty, backbone_solver = init_solver, fast_solver = init_solver,
      interpolating_solver = None\<rparr>"

definition new_DefinabilityChecker ::
  "'i interpolator \<Rightarrow> configuration \<Rightarrow> int list \<Rightarrow> int list \<Rightarrow> cnf \<Rightarrow> bool \<Rightarrow> int \<Rightarrow> 'i dc_state option" where
  "new_DefinabilityChecker api conf universals existentials matrix compress n =
     (if \<not> use_definitions conf then Some (n, no_definability_checker compress)
      else
        let n = max n (max (fold max existentials 0) (fold max universals 0)) in
        if \<not> n \<ge> maxVarIndex matrix then None
        else
          let (n, ren, rinv) = rename_variables (universals @ existentials) (n, Map.empty, Map.empty);
              (n, equal, equalities) = equality_clauses (set_of (universals @ existentials)) ren n;
              (n, on_map, off_map, on_clauses, off_clauses) = switch_clauses existentials ren n;
              first = matrix @ on_clauses;
              second = renameFormula matrix ren @ equalities @ off_clauses
          in Some (n, \<lparr>dc_compress = compress, renaming = ren, renaming_inverse = rinv,
               variable_to_equality_selector = equal, variable_to_on_selector = on_map, variable_to_off_selector = off_map,
               backbone_solver = sat_appendFormula matrix init_solver,
               fast_solver = sat_appendFormula second (sat_appendFormula first init_solver),
               interpolating_solver = Some (new_ITPSolver api first second)\<rparr>))"

text \<open>The move constructor takes over every field.\<close>

definition moved_DefinabilityChecker :: "'i definability_checker \<Rightarrow> 'i definability_checker" where
  "moved_DefinabilityChecker checker =
     \<lparr>dc_compress = dc_compress checker, renaming = renaming checker, renaming_inverse = renaming_inverse checker,
      variable_to_equality_selector = variable_to_equality_selector checker,
      variable_to_on_selector = variable_to_on_selector checker, variable_to_off_selector = variable_to_off_selector checker,
      backbone_solver = backbone_solver checker, fast_solver = fast_solver checker,
      interpolating_solver = interpolating_solver checker\<rparr>"

definition itp_addClauses :: "'i interpolator \<Rightarrow> cnf \<Rightarrow> bool \<Rightarrow> 'i itp_solver \<Rightarrow> 'i itp_solver" where
  "itp_addClauses api clauses add_to_first_part s = fold (\<lambda>c s. snd (itp_addClause api c add_to_first_part s)) clauses s"

definition dc_addVariable :: "'i interpolator \<Rightarrow> int \<Rightarrow> bool \<Rightarrow> 'i dc_state \<Rightarrow> 'i dc_state option" where
  "dc_addVariable api v shared = (\<lambda>(n, dc).
     let alias = n + 1;
         dc = dc\<lparr>renaming := (renaming dc)(v \<mapsto> alias), renaming_inverse := (renaming_inverse dc)(alias \<mapsto> v)\<rparr>
     in if shared then
          do {
            let selector = alias + 1;
            let clauses = clausalEncodingEquality v alias selector;
            itp \<leftarrow> interpolating_solver dc;
            Some (selector, dc\<lparr>variable_to_equality_selector := (variable_to_equality_selector dc)(v \<mapsto> selector),
              fast_solver := sat_appendFormula clauses (fast_solver dc),
              interpolating_solver := Some (itp_addClauses api clauses False itp)\<rparr>)
          }
        else Some (alias, dc))"

text \<open>A variable of the clause that has no copy yet gets one, without an inverse entry.\<close>

fun rename_new_variables :: "clause \<Rightarrow> int \<times> (int \<rightharpoonup> int) \<Rightarrow> int \<times> (int \<rightharpoonup> int)" where
  "rename_new_variables [] s = s"
| "rename_new_variables (l # ls) (n, ren) =
     (if ren (var l) = None then rename_new_variables ls (n + 1, ren(var l \<mapsto> n + 1)) else rename_new_variables ls (n, ren))"

definition dc_addClause :: "'i interpolator \<Rightarrow> configuration \<Rightarrow> clause \<Rightarrow> 'i dc_state \<Rightarrow> 'i dc_state option" where
  "dc_addClause api conf clause = (\<lambda>(n, dc).
     if \<not> use_definitions conf then Some (n, dc)
     else do {
       itp \<leftarrow> interpolating_solver dc;
       let itp = snd (itp_addClause api clause True itp);
       let fast = sat_addClause clause (fast_solver dc);
       let (n, ren) = rename_new_variables clause (n, renaming dc);
       let renamed_clause = renameClause clause ren;
       let itp = snd (itp_addClause api renamed_clause False itp);
       Some (n, dc\<lparr>renaming := ren, interpolating_solver := Some itp, fast_solver := sat_addClause renamed_clause fast,
         backbone_solver := sat_addClause clause (backbone_solver dc)\<rparr>)
     })"

section \<open>Checks\<close>

text \<open>The answers satisfiable and unsatisfiable are asserted: any other is a failure.\<close>

definition solve_forced :: "sat_oracle \<Rightarrow> int list \<Rightarrow> int \<Rightarrow> 'i definability_checker \<Rightarrow> int \<times> 'i definability_checker" where
  "solve_forced orc assumptions literal dc =
     (let (result, solver) = sat_solve orc (sat_assume [literal] (sat_assume assumptions (backbone_solver dc)))
      in (result, dc\<lparr>backbone_solver := solver\<rparr>))"

definition checkForced ::
  "sat_oracle \<Rightarrow> int \<Rightarrow> int list \<Rightarrow> 'i definability_checker \<Rightarrow> ((bool \<times> cnf \<times> int list) \<times> 'i definability_checker) option" where
  "checkForced orc v assumptions dc =
     (let (result, dc) = solve_forced orc assumptions v dc in
      if result = 20 then do { failed \<leftarrow> sat_getFailed assumptions (backbone_solver dc); Some ((True, [[- v]], failed), dc) }
      else if result \<noteq> 10 then None
      else
        let (result, dc) = solve_forced orc assumptions (- v) dc in
        if result = 20 then do { failed \<leftarrow> sat_getFailed assumptions (backbone_solver dc); Some ((True, [[v]], failed), dc) }
        else if result \<noteq> 10 then None
        else Some ((False, [], []), dc))"

text \<open>The assumptions are sorted in place.\<close>

definition dc_getConflict :: "'i interpolator \<Rightarrow> int list \<Rightarrow> 'i definability_checker \<Rightarrow> (int list \<times> int list) option" where
  "dc_getConflict api assumptions dc =
     do {
       itp \<leftarrow> interpolating_solver dc;
       let conflict = renameClause (negateEach (itp_getConflict api itp)) (renaming_inverse dc);
       Some (set_intersection (sort conflict) (sort assumptions), sort assumptions)
     }"

text \<open>The assumptions of a query, for a variable and the variables that may define it.\<close>

definition query_selectors :: "int list \<Rightarrow> int \<Rightarrow> int list \<Rightarrow> 'i definability_checker \<Rightarrow> int list" where
  "query_selectors defining_variables defined_variable assumptions dc =
     (let assumption_variables = set (map var assumptions);
          free_variables = filter (\<lambda>v. v \<notin> assumption_variables) defining_variables
      in List.map_filter (variable_to_equality_selector dc) free_variables @
         [int_entry (variable_to_on_selector dc) defined_variable, int_entry (variable_to_off_selector dc) defined_variable])"

definition dc_checkDefined ::
  "sat_oracle \<Rightarrow> int list \<Rightarrow> int \<Rightarrow> int list \<Rightarrow> 'i definability_checker \<Rightarrow> bool \<times> 'i definability_checker" where
  "dc_checkDefined orc defining_variables defined_variable assumptions dc =
     (let solver = sat_assume (renameClause assumptions (renaming dc)) (sat_assume assumptions (fast_solver dc));
          (result, solver) =
            sat_solve orc (sat_assume (query_selectors defining_variables defined_variable assumptions dc) solver)
      in (result = 20, dc\<lparr>fast_solver := solver\<rparr>))"

definition checkDefinedInterpolate ::
  "'i interpolator \<Rightarrow> int list \<Rightarrow> int \<Rightarrow> int list \<Rightarrow> int \<Rightarrow> 'i definability_checker \<Rightarrow> (bool \<times> 'i definability_checker) option" where
  "checkDefinedInterpolate api defining_variables defined_variable assumptions limit dc =
     do {
       itp \<leftarrow> interpolating_solver dc;
       let all_assumptions = assumptions @ renameClause assumptions (renaming dc) @
         query_selectors defining_variables defined_variable assumptions dc;
       let (result, itp) = itp_solve api all_assumptions limit itp;
       Some (\<not> result, dc\<lparr>interpolating_solver := Some itp\<rparr>)
     }"

text \<open>
  The failed assumptions are asked of the fast solver, whatever state it is in. The lists are
  merged as they are, sorted afterwards and freed of duplicates.
\<close>

definition dc_getFailed :: "int list \<Rightarrow> 'i definability_checker \<Rightarrow> int list option" where
  "dc_getFailed assumptions dc =
     do {
       failed \<leftarrow> sat_getFailed assumptions (fast_solver dc);
       failed_renamed \<leftarrow> sat_getFailed (renameClause assumptions (renaming dc)) (fast_solver dc);
       Some (remdups_adj (sort (set_union failed (renameClause failed_renamed (renaming_inverse dc)))))
     }"

text \<open>
  A literal is taken out by overwriting it with the last one. Where it was the last one itself the
  code reads one element past the end when it puts the literal back, and overwrites it at once.
\<close>

function minimize_definition ::
  "'i interpolator \<Rightarrow> int list \<Rightarrow> int \<Rightarrow> int \<Rightarrow> nat \<Rightarrow> int list \<Rightarrow> 'i definability_checker \<Rightarrow>
   (int list \<times> 'i definability_checker) option" where
  "minimize_definition api defining_variables defined_variable limit i failed dc =
     (if i < length failed then
        let removed = failed ! i;
            rest = butlast (failed[i := List.last failed]);
            restored = (rest @ [if i < length rest then rest ! i else 0])[i := removed]
        in if var removed \<notin> set defining_variables then minimize_definition api defining_variables defined_variable limit (i + 1) restored dc
           else (case checkDefinedInterpolate api defining_variables defined_variable rest limit dc of
               None \<Rightarrow> None
             | Some (True, dc) \<Rightarrow> minimize_definition api defining_variables defined_variable limit i rest dc
             | Some (False, dc) \<Rightarrow> minimize_definition api defining_variables defined_variable limit (i + 1) restored dc)
      else Some (failed, dc))"
  by pat_completeness auto
termination
  by (relation "measure (\<lambda>(_, _, _, _, i, failed, _). length failed - i)") auto

declare minimize_definition.simps [simp del]

definition checkDefinability ::
  "'i interpolator \<Rightarrow> int list \<Rightarrow> int \<Rightarrow> int list \<Rightarrow> int \<Rightarrow> bool \<Rightarrow> 'i definability_checker \<Rightarrow>
   ((bool \<times> int list) \<times> 'i definability_checker) option" where
  "checkDefinability api defining_variables defined_variable assumptions limit minimize dc =
     do {
       (is_defined, dc) \<leftarrow> checkDefinedInterpolate api defining_variables defined_variable assumptions limit dc;
       if \<not> is_defined then Some ((False, []), dc)
       else do {
         failed \<leftarrow> dc_getFailed assumptions dc;
         (failed, dc) \<leftarrow> (if minimize
           then minimize_definition api defining_variables defined_variable limit 0 failed dc else Some (failed, dc));
         Some ((True, sort failed), dc)
       }
     }"

section \<open>Definitions\<close>

definition getDefinitionInterpolant ::
  "'i interpolator \<Rightarrow> int list \<Rightarrow> int \<Rightarrow> 'i dc_state \<Rightarrow> ((itp_error + cnf \<times> circuit) \<times> 'i definability_checker) option" where
  "getDefinitionInterpolant api defining_variables defined_variable = (\<lambda>(n, dc).
     do {
       itp \<leftarrow> interpolating_solver dc;
       let (result, itp) = itp_getDefinition api defining_variables defined_variable n (dc_compress dc) itp;
       let dc = dc\<lparr>interpolating_solver := Some itp\<rparr>;
       Some (case result of
           Inl e \<Rightarrow> Inl e
         | Inr (definitions, _) \<Rightarrow> Inr (concat (map clausalEncodingAND definitions), definitions), dc)
     })"

definition dc_resetSolver :: "'i interpolator \<Rightarrow> 'i definability_checker \<Rightarrow> 'i definability_checker" where
  "dc_resetSolver api dc = dc\<lparr>interpolating_solver := map_option (itp_resetSolver api) (interpolating_solver dc)\<rparr>"

text \<open>An error of the interpolation resets the solver and tries again, as often as it takes.\<close>

partial_function (option) dc_getDefinition ::
  "'i interpolator \<Rightarrow> sat_oracle \<Rightarrow> int list \<Rightarrow> int \<Rightarrow> int list \<Rightarrow> 'i dc_state \<Rightarrow> ((cnf \<times> circuit) \<times> 'i dc_state) option" where
  "dc_getDefinition api orc defining_variables defined_variable assumptions s =
     (case checkForced orc defined_variable assumptions (snd s) of
        None \<Rightarrow> None
      | Some ((is_forced, forced_definition, core), dc) \<Rightarrow>
          if is_forced then Some ((forced_definition, [([], hd (hd forced_definition))]), (fst s, dc))
          else (case getDefinitionInterpolant api defining_variables defined_variable (fst s, dc) of
              None \<Rightarrow> None
            | Some (Inr (clauses, definitions), dc) \<Rightarrow>
                Some ((clauses, definitions), (max (fst s) (maxVarIndex clauses), dc))
            | Some (Inl Invalid_Argument, dc) \<Rightarrow>
                dc_getDefinition api orc defining_variables defined_variable assumptions (fst s, dc_resetSolver api dc)
            | Some (Inl Runtime_Error, dc) \<Rightarrow>
                (case checkDefinedInterpolate api defining_variables defined_variable assumptions (- 1) (dc_resetSolver api dc) of
                   None \<Rightarrow> None
                 | Some (_, dc) \<Rightarrow> dc_getDefinition api orc defining_variables defined_variable assumptions (fst s, dc))))"

end
