(* ===== verification/DefinabilityChecker_Correct.thy ===== *)
theory DefinabilityChecker_Correct
  imports DefinabilityChecker
begin

text \<open>
  What a positive answer of the definability checker means, by Padoa's argument: two models of the
  formula that agree on the defining variables, and satisfy the assumptions, agree on the defined
  variable. The interpolating solver is assumed to hold the clauses it is given and to answer
  \<open>false\<close> only when they are unsatisfiable under the assumptions.
\<close>

section \<open>The interpolating solver\<close>

definition decoded :: "cnf \<Rightarrow> cnf" where
  "decoded F = map literalsFromMiniSATLiterals F"

text \<open>\<open>formula\<close> names the clauses an interpolating solver holds.\<close>

definition interpolator_documented :: "'i interpolator \<Rightarrow> ('i \<Rightarrow> clause set) \<Rightarrow> bool" where
  "interpolator_documented api formula \<longleftrightarrow>
     (\<forall>n. formula (i_new api n) = {}) \<and> (\<forall>F G s. formula (i_addFormula api F G s) = formula s \<union> set F \<union> set G) \<and>
     (\<forall>n s. formula (i_reserve api n s) = formula s) \<and> (\<forall>n s. formula (i_resetSolver api n s) = {}) \<and>
     (\<forall>c k s. formula (snd (i_addClause api c k s)) = insert c (formula s)) \<and>
     (\<forall>as limit s. formula (snd (i_solve api as limit s)) = formula s) \<and>
     (\<forall>xs y b n s. formula (snd (i_getDefinition api xs y b n s)) = formula s) \<and>
     (\<forall>as limit s. fst (i_solve api as limit s) \<or>
        \<not> (\<exists>\<alpha>. (\<forall>c\<in>formula s. clause_sat \<alpha> (literalsFromMiniSATLiterals c)) \<and>
             list_all (lit_true \<alpha>) (literalsFromMiniSATLiterals as)))"

lemma documented:
  assumes "interpolator_documented api formula"
  shows "formula (i_new api n) = {}" "formula (i_addFormula api F G s) = formula s \<union> set F \<union> set G"
    "formula (i_reserve api n s) = formula s" "formula (i_resetSolver api n s) = {}"
    "i_addClause api c k s = (r, s') \<Longrightarrow> formula s' = insert c (formula s)"
    "i_solve api as limit s = (b, s') \<Longrightarrow> formula s' = formula s"
    "i_getDefinition api xs y z n s = (d, s') \<Longrightarrow> formula s' = formula s"
  using assms unfolding interpolator_documented_def by (metis snd_conv)+

lemma documented_unsat:
  assumes "interpolator_documented api formula" "i_solve api as limit s = (False, s')"
    "\<And>c. c \<in> formula s \<Longrightarrow> clause_sat \<alpha> (literalsFromMiniSATLiterals c)"
    "list_all (lit_true \<alpha>) (literalsFromMiniSATLiterals as)"
  shows False
  using assms unfolding interpolator_documented_def by (metis fst_conv)

text \<open>The wrapper keeps the clauses of both parts.\<close>

definition itp_clauses :: "'i itp_solver \<Rightarrow> cnf" where
  "itp_clauses s = decoded (first_part s @ second_part s)"

definition itp_ok :: "('i \<Rightarrow> clause set) \<Rightarrow> 'i itp_solver \<Rightarrow> bool" where
  "itp_ok formula s \<longleftrightarrow> formula (interpolatingsolver s) = set (first_part s @ second_part s)"

lemma minisat_clause_roundtrip: "literalsFromMiniSATLiterals (miniSATLiterals c) = c"
  by (induction c) (auto simp: literalsFromMiniSATLiterals_def miniSATLiterals_def litFromMiniSATLit_miniSATLiteral)

lemma decoded_miniSATClauses: "decoded (miniSATClauses F) = F"
  by (induction F) (auto simp: decoded_def miniSATClauses_def minisat_clause_roundtrip)

lemma new_ITPSolver_ok:
  assumes "interpolator_documented api formula"
  shows "itp_ok formula (new_ITPSolver api F G)" "itp_clauses (new_ITPSolver api F G) = F @ G"
proof -
  show "itp_ok formula (new_ITPSolver api F G)"
    by (simp add: itp_ok_def new_ITPSolver_def Let_def documented [OF assms])
  have "decoded (xs @ ys) = decoded xs @ decoded ys" for xs ys by (simp add: decoded_def)
  then show "itp_clauses (new_ITPSolver api F G) = F @ G"
    by (simp add: itp_clauses_def new_ITPSolver_def Let_def decoded_miniSATClauses)
qed

lemma itp_addClause_ok:
  assumes "interpolator_documented api formula" "itp_ok formula s" "itp_addClause api c first s = (r, s')"
  shows "itp_ok formula s'" "set (itp_clauses s') = insert c (set (itp_clauses s))"
  using assms(2,3) documented [OF assms(1)] minisat_clause_roundtrip [of c]
  by (auto simp: itp_ok_def itp_clauses_def decoded_def itp_addClause_def Let_def split: prod.splits if_splits)

lemma itp_solve_ok:
  assumes "interpolator_documented api formula" "itp_ok formula s" "itp_solve api as limit s = (b, s')"
  shows "itp_ok formula s'" "itp_clauses s' = itp_clauses s"
  using assms(2,3) documented [OF assms(1)] by (auto simp: itp_ok_def itp_clauses_def itp_solve_def split: prod.splits)

lemma itp_solve_unsat:
  assumes "interpolator_documented api formula" "itp_ok formula s" "itp_solve api as limit s = (False, s')"
  shows "\<not> (cnf_sat \<alpha> (itp_clauses s) \<and> list_all (lit_true \<alpha>) as)"
proof
  assume sat: "cnf_sat \<alpha> (itp_clauses s) \<and> list_all (lit_true \<alpha>) as"
  obtain i where solve: "i_solve api (miniSATLiterals as) limit (interpolatingsolver s) = (False, i)"
    using assms(3) by (auto simp: itp_solve_def split: prod.splits)
  have "\<And>c. c \<in> formula (interpolatingsolver s) \<Longrightarrow> clause_sat \<alpha> (literalsFromMiniSATLiterals c)"
    using sat assms(2) by (auto simp: itp_ok_def itp_clauses_def decoded_def cnf_sat_iff)
  then show False
    using documented_unsat [OF assms(1) solve] sat minisat_clause_roundtrip [of as] by metis
qed

lemma itp_resetSolver_ok:
  assumes "interpolator_documented api formula" "itp_ok formula s"
  shows "itp_ok formula (itp_resetSolver api s)" "itp_clauses (itp_resetSolver api s) = itp_clauses s"
  using assms(2) documented [OF assms(1)] by (simp_all add: itp_ok_def itp_clauses_def itp_resetSolver_def)

lemma itp_getDefinition_ok:
  assumes "interpolator_documented api formula" "itp_ok formula s" "itp_getDefinition api xs y n z s = (r, s')"
  shows "itp_ok formula s'" "itp_clauses s' = itp_clauses s"
  using assms(2,3) documented [OF assms(1)] by (auto simp: itp_ok_def itp_clauses_def itp_getDefinition_def split: prod.splits)

section \<open>The two copies\<close>

definition same_vars :: "int set \<Rightarrow> assignment \<Rightarrow> assignment \<Rightarrow> bool" where
  "same_vars V \<alpha> \<beta> \<longleftrightarrow> (\<forall>v\<in>V. \<alpha> v = \<beta> v)"

text \<open>The variables the checker has introduced.\<close>

definition names :: "'i definability_checker \<Rightarrow> int set" where
  "names dc = ran (renaming dc) \<union> ran (variable_to_equality_selector dc) \<union> ran (variable_to_on_selector dc) \<union>
     ran (variable_to_off_selector dc)"

text \<open>
  An assignment of the introduced variables that reads the second copy as \<open>\<beta>\<close>: a selector of an
  equality is true where both agree, and the switches of a variable tell its two values.
\<close>

definition reads :: "'i definability_checker \<Rightarrow> assignment \<Rightarrow> assignment \<Rightarrow> assignment \<Rightarrow> bool" where
  "reads dc \<alpha> \<beta> \<gamma> \<longleftrightarrow>
     (\<forall>v w. renaming dc v = Some w \<longrightarrow> \<gamma> w = \<beta> v) \<and>
     (\<forall>v w. variable_to_equality_selector dc v = Some w \<longrightarrow> \<gamma> w = (\<alpha> v = \<beta> v)) \<and>
     (\<forall>v w. variable_to_on_selector dc v = Some w \<longrightarrow> \<gamma> w = \<alpha> v) \<and>
     (\<forall>v w. variable_to_off_selector dc v = Some w \<longrightarrow> \<gamma> w = (\<not> \<beta> v))"

definition inj_map :: "(int \<rightharpoonup> int) \<Rightarrow> bool" where
  "inj_map m \<longleftrightarrow> (\<forall>v v' w. m v = Some w \<and> m v' = Some w \<longrightarrow> v = v')"

lemma inj_map_empty [simp]: "inj_map (\<lambda>x. None)"
  by (simp add: inj_map_def)

definition distinct_names :: "'i definability_checker \<Rightarrow> bool" where
  "distinct_names dc \<longleftrightarrow>
     (let r = renaming dc; e = variable_to_equality_selector dc; a = variable_to_on_selector dc; b = variable_to_off_selector dc in
      inj_map r \<and> inj_map e \<and> inj_map a \<and> inj_map b \<and>
      ran r \<inter> ran e = {} \<and> ran r \<inter> ran a = {} \<and> ran r \<inter> ran b = {} \<and> ran e \<inter> ran a = {} \<and> ran e \<inter> ran b = {} \<and>
      ran a \<inter> ran b = {})"

definition source_of :: "(int \<rightharpoonup> int) \<Rightarrow> int \<Rightarrow> int" where
  "source_of m w = (THE v. m v = Some w)"

lemma source_of: "inj_map m \<Longrightarrow> m v = Some w \<Longrightarrow> source_of m w = v"
  unfolding source_of_def by (rule the_equality) (auto simp: inj_map_def)

lemma ran_iff: "w \<in> ran m \<longleftrightarrow> (\<exists>v. m v = Some w)"
  by (auto simp: ran_def)

lemma reads_exists:
  assumes "distinct_names dc"
  shows "\<exists>\<gamma>. reads dc \<alpha> \<beta> \<gamma>"
proof -
  let ?r = "renaming dc" and ?e = "variable_to_equality_selector dc" and ?a = "variable_to_on_selector dc" and ?b = "variable_to_off_selector dc"
  define \<gamma> where "\<gamma> w = (if w \<in> ran ?r then \<beta> (source_of ?r w) else if w \<in> ran ?e then \<alpha> (source_of ?e w) = \<beta> (source_of ?e w)
    else if w \<in> ran ?a then \<alpha> (source_of ?a w) else \<not> \<beta> (source_of ?b w))" for w
  have inj: "inj_map ?r" "inj_map ?e" "inj_map ?a" "inj_map ?b"
    and disj: "ran ?r \<inter> ran ?e = {}" "ran ?r \<inter> ran ?a = {}" "ran ?r \<inter> ran ?b = {}" "ran ?e \<inter> ran ?a = {}"
      "ran ?e \<inter> ran ?b = {}" "ran ?a \<inter> ran ?b = {}"
    using assms by (simp_all add: distinct_names_def Let_def)
  have "reads dc \<alpha> \<beta> \<gamma>"
    unfolding reads_def
  proof (intro conjI allI impI)
    fix v w
    show "?r v = Some w \<Longrightarrow> \<gamma> w = \<beta> v" using source_of [OF inj(1)] ranI [of ?r v w] by (simp add: \<gamma>_def)
    show "?e v = Some w \<Longrightarrow> \<gamma> w = (\<alpha> v = \<beta> v)"
      using source_of [OF inj(2)] ranI [of ?e v w] disj(1) by (auto simp: \<gamma>_def)
    show "?a v = Some w \<Longrightarrow> \<gamma> w = \<alpha> v"
      using source_of [OF inj(3)] ranI [of ?a v w] disj(2,4) by (auto simp: \<gamma>_def)
    show "?b v = Some w \<Longrightarrow> \<gamma> w = (\<not> \<beta> v)"
      using source_of [OF inj(4)] ranI [of ?b v w] disj(3,5,6) by (auto simp: \<gamma>_def)
  qed
  then show ?thesis by blast
qed

definition dc_inv :: "('i \<Rightarrow> clause set) \<Rightarrow> cnf \<Rightarrow> int \<Rightarrow> 'i definability_checker \<Rightarrow> bool" where
  "dc_inv formula F n dc \<longleftrightarrow>
     0 \<le> n \<and> wf_cnf F \<and> cnf_vars F \<subseteq> dom (renaming dc) \<and> dom (renaming dc) \<subseteq> {1..n} \<and> names dc \<subseteq> {1..n} \<and>
     dom (renaming dc) \<inter> names dc = {} \<and> distinct_names dc \<and>
     (\<exists>itp. interpolating_solver dc = Some itp \<and> itp_ok formula itp \<and>
        (\<forall>\<alpha> \<beta> \<gamma>. reads dc \<alpha> \<beta> \<gamma> \<and> same_vars (dom (renaming dc)) \<alpha> \<gamma> \<and> cnf_sat \<alpha> F \<and> cnf_sat \<beta> F \<longrightarrow>
           cnf_sat \<gamma> (itp_clauses itp)))"

text \<open>What an unsatisfiable query means.\<close>

lemma checkDefinedInterpolate_sound:
  assumes doc: "interpolator_documented api formula" and inv: "dc_inv formula F n dc"
    and check: "checkDefinedInterpolate api defining d assumptions limit dc = Some (True, dc')"
    and d: "d \<in> dom (variable_to_on_selector dc)" "d \<in> dom (variable_to_off_selector dc)"
    and assumptions: "clause_vars assumptions \<subseteq> dom (renaming dc)" "list_all (lit_true \<alpha>) assumptions" "list_all (lit_true \<beta>) assumptions"
    and agree: "\<forall>v\<in>set defining. \<alpha> v = \<beta> v" and sat: "cnf_sat \<alpha> F" "cnf_sat \<beta> F"
  shows "\<alpha> d \<longrightarrow> \<beta> d"
proof (rule ccontr)
  assume differ: "\<not> (\<alpha> d \<longrightarrow> \<beta> d)"
  let ?V = "dom (renaming dc)"
  obtain itp itp' where itp: "interpolating_solver dc = Some itp" "itp_ok formula itp"
    and models: "\<And>\<alpha> \<beta> \<gamma>. reads dc \<alpha> \<beta> \<gamma> \<Longrightarrow> same_vars ?V \<alpha> \<gamma> \<Longrightarrow> cnf_sat \<alpha> F \<Longrightarrow> cnf_sat \<beta> F \<Longrightarrow> cnf_sat \<gamma> (itp_clauses itp)"
    and solve: "itp_solve api (assumptions @ renameClause assumptions (renaming dc) @
      query_selectors defining d assumptions dc) limit itp = (False, itp')"
    using inv check by (auto simp: dc_inv_def checkDefinedInterpolate_def split: bind_splits prod.splits)
  have names: "?V \<subseteq> {1..n}" "names dc \<subseteq> {1..n}" "?V \<inter> names dc = {}" 
    using inv by (auto simp: dc_inv_def)
  have "distinct_names dc" using inv by (simp add: dc_inv_def)
  then obtain \<gamma>0 where \<gamma>0: "reads dc \<alpha> \<beta> \<gamma>0" using reads_exists by blast
  define \<gamma> where "\<gamma> v = (if v \<in> ?V then \<alpha> v else \<gamma>0 v)" for v
  have outside: "\<gamma> w = \<gamma>0 w" "0 < w" if "w \<in> names dc" for w using that names by (auto simp: \<gamma>_def)
  have maps: "renaming dc v = Some w \<Longrightarrow> w \<in> names dc" "variable_to_equality_selector dc v = Some w \<Longrightarrow> w \<in> names dc"
    "variable_to_on_selector dc v = Some w \<Longrightarrow> w \<in> names dc" "variable_to_off_selector dc v = Some w \<Longrightarrow> w \<in> names dc" for v w
    by (auto simp: names_def ran_def)
  have \<gamma>: "reads dc \<alpha> \<beta> \<gamma>" using \<gamma>0 maps outside by (simp add: reads_def)
  moreover have "same_vars ?V \<alpha> \<gamma>" by (simp add: same_vars_def \<gamma>_def)
  ultimately have "cnf_sat \<gamma> (itp_clauses itp)" using models sat by blast
  moreover have "lit_true \<gamma> a" if "a \<in> set assumptions" for a
  proof -
    have "\<bar>a\<bar> \<in> ?V" using that assumptions(1) by (auto simp: clause_vars_def)
    then have "lit_true \<gamma> a = lit_true \<alpha> a" by (intro lit_true_cong) (simp add: \<gamma>_def)
    then show ?thesis using that assumptions(2) by (simp add: list_all_iff)
  qed
  moreover have "lit_true \<gamma> (renameLiteral_map a (renaming dc))" if a: "a \<in> set assumptions" for a
  proof -
    have V: "\<bar>a\<bar> \<in> ?V" using a assumptions(1) by (auto simp: clause_vars_def)
    then obtain w where w: "renaming dc \<bar>a\<bar> = Some w" by blast
    have "nonzero_renaming (renaming dc)" using outside(2) by (force simp: nonzero_renaming_def names_def)
    moreover have "a \<noteq> 0" using V names(1) by auto
    ultimately have "lit_true \<gamma> (renameLiteral_map a (renaming dc)) = lit_true (rename_assignment (renaming dc) \<gamma>) a"
      by (rule renameLiteral_map_sat)
    moreover have "rename_assignment (renaming dc) \<gamma> \<bar>a\<bar> = \<beta> \<bar>a\<bar>"
      using w \<gamma> outside(2) [OF maps(1) [OF w]] by (simp add: rename_assignment_def reads_def lit_true_def)
    then have "lit_true (rename_assignment (renaming dc) \<gamma>) a = lit_true \<beta> a" by (rule lit_true_cong)
    ultimately show ?thesis using a assumptions(3) by (simp add: list_all_iff)
  qed
  moreover have "lit_true \<gamma> a" if a: "a \<in> set (query_selectors defining d assumptions dc)" for a
  proof -
    consider v where "v \<in> set defining" "variable_to_equality_selector dc v = Some a"
      | "variable_to_on_selector dc d = Some a" | "variable_to_off_selector dc d = Some a"
      using a d by (auto simp: query_selectors_def Let_def int_entry_def List.map_filter_def)
    then have "\<gamma> a \<and> a \<in> names dc" using \<gamma> agree differ maps by cases (auto simp: reads_def)
    then show ?thesis using outside(2) [of a] by (simp add: lit_true_def)
  qed
  ultimately have "cnf_sat \<gamma> (itp_clauses itp) \<and> list_all (lit_true \<gamma>)
      (assumptions @ renameClause assumptions (renaming dc) @ query_selectors defining d assumptions dc)"
    by (auto simp: list_all_iff renameClause_def)
  then show False using itp_solve_unsat [OF doc itp(2) solve] by blast
qed

section \<open>The operations keep the copies\<close>

lemma dc_inv_mono: "dc_inv formula F n dc \<Longrightarrow> n \<le> n' \<Longrightarrow> dc_inv formula F n' dc"
  unfolding dc_inv_def by fastforce

text \<open>Checks only change the solvers.\<close>

definition same_copies :: "('i \<Rightarrow> clause set) \<Rightarrow> 'i definability_checker \<Rightarrow> 'i definability_checker \<Rightarrow> bool" where
  "same_copies formula dc dc' \<longleftrightarrow>
     renaming dc' = renaming dc \<and> variable_to_equality_selector dc' = variable_to_equality_selector dc \<and>
     variable_to_on_selector dc' = variable_to_on_selector dc \<and> variable_to_off_selector dc' = variable_to_off_selector dc \<and>
     fast_solver dc' = fast_solver dc \<and>
     (\<forall>itp. interpolating_solver dc = Some itp \<and> itp_ok formula itp \<longrightarrow>
        (\<exists>itp'. interpolating_solver dc' = Some itp' \<and> itp_ok formula itp' \<and> itp_clauses itp' = itp_clauses itp))"

lemma same_copies_refl [simp]: "same_copies formula dc dc"
  by (simp add: same_copies_def)

lemma same_copies_trans: "same_copies formula dc dc' \<Longrightarrow> same_copies formula dc' dc'' \<Longrightarrow> same_copies formula dc dc''"
  unfolding same_copies_def by fastforce

lemma dc_inv_same:
  assumes inv: "dc_inv formula F n dc" and same: "same_copies formula dc dc'"
  shows "dc_inv formula F n dc'"
proof -
  have eqs: "renaming dc' = renaming dc" "variable_to_equality_selector dc' = variable_to_equality_selector dc"
    "variable_to_on_selector dc' = variable_to_on_selector dc" "variable_to_off_selector dc' = variable_to_off_selector dc"
    using same by (simp_all add: same_copies_def)
  have 1: "names dc' = names dc" "distinct_names dc' = distinct_names dc" by (simp_all add: names_def distinct_names_def eqs)
  have 2: "reads dc' = reads dc" by (intro ext) (simp add: reads_def eqs)
  obtain itp where itp: "interpolating_solver dc = Some itp" "itp_ok formula itp"
    and models: "\<forall>\<alpha> \<beta> \<gamma>. reads dc \<alpha> \<beta> \<gamma> \<and> same_vars (dom (renaming dc)) \<alpha> \<gamma> \<and> cnf_sat \<alpha> F \<and> cnf_sat \<beta> F \<longrightarrow>
           cnf_sat \<gamma> (itp_clauses itp)"
    using inv by (auto simp: dc_inv_def)
  obtain itp' where "interpolating_solver dc' = Some itp'" "itp_ok formula itp'" "itp_clauses itp' = itp_clauses itp"
    using same itp by (auto simp: same_copies_def)
  with models inv show ?thesis unfolding dc_inv_def eqs 1 2 by auto
qed

lemma checkDefinedInterpolate_same:
  assumes "interpolator_documented api formula" "checkDefinedInterpolate api xs d as limit dc = Some (b, dc')"
  shows "same_copies formula dc dc'"
  using assms(2) itp_solve_ok [OF assms(1)]
  by (fastforce simp: checkDefinedInterpolate_def same_copies_def split: bind_splits prod.splits)

lemma checkForced_same: "checkForced orc v as dc = Some (r, dc') \<Longrightarrow> same_copies formula dc dc'"
  by (auto simp: checkForced_def solve_forced_def same_copies_def Let_def split: prod.splits if_splits bind_splits)

lemma dc_resetSolver_same: "interpolator_documented api formula \<Longrightarrow> same_copies formula dc (dc_resetSolver api dc)"
  using itp_resetSolver_ok by (fastforce simp: dc_resetSolver_def same_copies_def)

lemma getDefinitionInterpolant_same:
  assumes "interpolator_documented api formula" "getDefinitionInterpolant api xs d (n, dc) = Some (r, dc')"
  shows "same_copies formula dc dc'"
  using assms(2) itp_getDefinition_ok [OF assms(1)]
  by (fastforce simp: getDefinitionInterpolant_def same_copies_def split: bind_splits prod.splits)

lemma minimize_definition_same:
  assumes "interpolator_documented api formula"
  shows "minimize_definition api xs d limit i failed dc = Some (r, dc') \<Longrightarrow> same_copies formula dc dc'"
proof (induction "length failed - i" arbitrary: i failed dc rule: less_induct)
  case less
  show ?case
  proof (cases "i < length failed")
    case False
    then show ?thesis using less.prems by (simp add: minimize_definition.simps [of api xs d limit i failed])
  next
    case True
    define rest where "rest = butlast (failed[i := List.last failed])"
    define restored where "restored = (rest @ [if i < length rest then rest ! i else 0])[i := failed ! i]"
    have len: "length rest < length failed" "length restored = length failed" using True by (auto simp: rest_def restored_def)
    note step = less.prems [unfolded minimize_definition.simps [of api xs d limit i failed], folded rest_def, unfolded Let_def,
        folded rest_def restored_def]
    show ?thesis
    proof (cases "var (failed ! i) \<in> set xs")
      case False
      then have "minimize_definition api xs d limit (i + 1) restored dc = Some (r, dc')"
        using step True by simp
      then show ?thesis by (rule less.hyps [rotated]) (use True len in simp)
    next
      case mem: True
      obtain b dc1 where check: "checkDefinedInterpolate api xs d rest limit dc = Some (b, dc1)"
        using step True mem by (auto split: option.splits)
      note same = checkDefinedInterpolate_same [OF assms check]
      have "minimize_definition api xs d limit i rest dc1 = Some (r, dc') \<or>
          minimize_definition api xs d limit (i + 1) restored dc1 = Some (r, dc')"
        using step True mem check by (auto split: bool.splits)
      moreover have "minimize_definition api xs d limit i rest dc1 = Some (r, dc') \<Longrightarrow> same_copies formula dc1 dc'"
        using True len(1) by (intro less.hyps [of rest i]) linarith+
      moreover have "minimize_definition api xs d limit (i + 1) restored dc1 = Some (r, dc') \<Longrightarrow> same_copies formula dc1 dc'"
        using True len(2) by (intro less.hyps [of restored "i + 1"]) linarith+
      ultimately show ?thesis using same_copies_trans [OF same] by blast
    qed
  qed
qed

lemma checkDefinability_same:
  assumes "interpolator_documented api formula" "checkDefinability api xs d as limit m dc = Some (r, dc')"
  shows "same_copies formula dc dc'"
  using assms(2) checkDefinedInterpolate_same [OF assms(1)] minimize_definition_same [OF assms(1)] same_copies_trans
  by (fastforce simp: checkDefinability_def Let_def split: bind_splits if_splits prod.splits)

lemma dc_getDefinition_keeps:
  assumes "dc_getDefinition api orc xs d as s = Some y"
  shows "interpolator_documented api formula \<longrightarrow> same_copies formula (snd s) (snd (snd y)) \<and> fst s \<le> fst (snd y)"
proof (rule dc_getDefinition.raw_induct [where P = "\<lambda>api orc xs d as s y.
    interpolator_documented api formula \<longrightarrow> same_copies formula (snd s) (snd (snd y)) \<and> fst s \<le> fst (snd y)", OF _ assms], goal_cases)
  case (1 f api orc xs d as s y)
  note IH = 1(1) and step = 1(2)
  show ?case
  proof
  assume doc: "interpolator_documented api formula"
  obtain b F core dc1 where forced: "checkForced orc d as (snd s) = Some ((b, F, core), dc1)"
    using step by (auto split: option.splits)
  note same1 = checkForced_same [OF forced, of formula]
  show "same_copies formula (snd s) (snd (snd y)) \<and> fst s \<le> fst (snd y)"
  proof (cases b)
    case True
    then show ?thesis using step forced same1 by auto
  next
    case False
    obtain res dc2 where itp: "getDefinitionInterpolant api xs d (fst s, dc1) = Some (res, dc2)"
      using step forced False by (auto split: option.splits)
    note same2 = same_copies_trans [OF same1 getDefinitionInterpolant_same [OF doc itp]]
    note same3 = same_copies_trans [OF same2 dc_resetSolver_same [OF doc, of dc2]]
    show ?thesis
    proof (cases res)
      case (Inr p)
      then show ?thesis using step forced False itp same2 by (cases p) auto
    next
      case (Inl e)
      show ?thesis
      proof (cases e)
        case Invalid_Argument
        then have "f api orc xs d as (fst s, dc_resetSolver api dc2) = Some y" using step forced False itp Inl by simp
        from IH [OF this] doc same_copies_trans [OF same3] show ?thesis by auto
      next
        case Runtime_Error
        then obtain b' dc3 where check: "checkDefinedInterpolate api xs d as (- 1) (dc_resetSolver api dc2) = Some (b', dc3)"
          and "f api orc xs d as (fst s, dc3) = Some y"
          using step forced False itp Inl by (auto split: option.splits)
        from IH [OF this(2)] doc same_copies_trans [OF same3 same_copies_trans [OF checkDefinedInterpolate_same [OF doc check]]]
        show ?thesis by auto
      qed
    qed
  qed
  qed
qed

section \<open>The constructor and new clauses\<close>

lemma ran_upd_subset: "ran (m(v \<mapsto> w)) \<subseteq> insert w (ran m)"
  by (auto simp: ran_def split: if_splits)

lemma inj_map_upd: "inj_map m \<Longrightarrow> w \<notin> ran m \<Longrightarrow> inj_map (m(v \<mapsto> w))"
  by (auto simp: inj_map_def ran_def)

lemma grow_range:
  fixes n n' :: int
  assumes "A \<subseteq> B \<union> {n + 1<..n'}" "B \<subseteq> insert (n + 1) C" "n + 1 \<le> n'"
  shows "A \<subseteq> C \<union> {n<..n'}"
proof
  fix x assume "x \<in> A"
  then have "x \<in> insert (n + 1) C \<or> x \<in> {n + 1<..n'}" using assms(1,2) by blast
  then show "x \<in> C \<union> {n<..n'}" using assms(3) by auto
qed

lemma rename_variables_fields:
  "rename_variables vs (n, ren, rinv) = (n', ren', rinv') \<Longrightarrow> inj_map ren \<Longrightarrow> ran ren \<subseteq> {..n} \<Longrightarrow>
    n \<le> n' \<and> dom ren' = dom ren \<union> set vs \<and> ran ren' \<subseteq> ran ren \<union> {n<..n'} \<and> inj_map ren'"
proof (induction vs arbitrary: n ren rinv)
  case (Cons v vs)
  define r where "r = ren(v \<mapsto> n + 1)"
  have fresh: "n + 1 \<notin> ran ren" using Cons.prems(3) by auto
  have r: "ran r \<subseteq> insert (n + 1) (ran ren)" "inj_map r" "dom r = insert v (dom ren)"
    using ran_upd_subset [of ren v "n + 1"] inj_map_upd [OF Cons.prems(2) fresh] by (simp_all add: r_def)
  have "rename_variables vs (n + 1, r, rinv(n + 1 \<mapsto> v)) = (n', ren', rinv')" using Cons.prems(1) by (simp add: r_def)
  moreover have "ran r \<subseteq> {..n + 1}" using r(1) Cons.prems(3) by fastforce
  ultimately have "n + 1 \<le> n' \<and> dom ren' = dom r \<union> set vs \<and> ran ren' \<subseteq> ran r \<union> {n + 1<..n'} \<and> inj_map ren'"
    using Cons.IH [OF _ r(2)] by blast
  moreover from this have "ran ren' \<subseteq> ran ren \<union> {n<..n'}" using grow_range [OF _ r(1)] by blast
  ultimately show ?case using r(3) by simp
qed auto

lemma rename_new_variables_fields:
  "rename_new_variables ls (n, ren) = (n', ren') \<Longrightarrow> inj_map ren \<Longrightarrow> ran ren \<subseteq> {..n} \<Longrightarrow>
    n \<le> n' \<and> dom ren' = dom ren \<union> abs ` set ls \<and> ran ren' \<subseteq> ran ren \<union> {n<..n'} \<and> inj_map ren' \<and> ren \<subseteq>\<^sub>m ren'"
proof (induction ls arbitrary: n ren)
  case (Cons l ls)
  show ?case
  proof (cases "ren (var l) = None")
    case True
    have fresh: "n + 1 \<notin> ran ren" using Cons.prems(3) by auto
    define r where "r = ren(var l \<mapsto> n + 1)"
    have r: "ran r \<subseteq> insert (n + 1) (ran ren)" "inj_map r" "dom r = insert (var l) (dom ren)" "ren \<subseteq>\<^sub>m r"
      using ran_upd_subset [of ren "var l" "n + 1"] inj_map_upd [OF Cons.prems(2) fresh] True by (auto simp: r_def map_le_def)
    have "rename_new_variables ls (n + 1, r) = (n', ren')" using Cons.prems(1) True by (simp add: r_def)
    moreover have "ran r \<subseteq> {..n + 1}" using r(1) Cons.prems(3) by fastforce
    ultimately have "n + 1 \<le> n' \<and> dom ren' = dom r \<union> abs ` set ls \<and> ran ren' \<subseteq> ran r \<union> {n + 1<..n'} \<and> inj_map ren' \<and>
        r \<subseteq>\<^sub>m ren'" using Cons.IH [OF _ r(2)] by blast
    moreover from this have "ren \<subseteq>\<^sub>m ren'" using r(4) map_le_trans by blast
    moreover have "ran ren' \<subseteq> ran ren \<union> {n<..n'}" using calculation grow_range [OF _ r(1)] by blast
    ultimately show ?thesis using r(3) by (auto simp: var_def)
  next
    case False
    then have "n \<le> n' \<and> dom ren' = dom ren \<union> abs ` set ls \<and> ran ren' \<subseteq> ran ren \<union> {n<..n'} \<and> inj_map ren' \<and> ren \<subseteq>\<^sub>m ren'"
      by (intro Cons.IH Cons.prems(2,3)) (use Cons.prems(1) False in \<open>simp split: if_splits\<close>)
    moreover have "insert \<bar>l\<bar> (dom ren) = dom ren" using False by (auto simp: var_def)
    ultimately show ?thesis by simp blast
  qed
qed auto

lemma equality_clauses_fields:
  "equality_clauses vs ren n = (m, sel, F) \<Longrightarrow> distinct vs \<Longrightarrow> \<forall>v\<in>set vs. \<exists>w. ren v = Some w \<and> 0 < w \<Longrightarrow> \<forall>v\<in>set vs. 0 < v \<Longrightarrow> 0 \<le> n \<Longrightarrow>
    n \<le> m \<and> dom sel = set vs \<and> ran sel \<subseteq> {n<..m} \<and> inj_map sel \<and> wf_cnf F \<and>
    ((\<forall>v\<in>set vs. \<gamma> (the (sel v)) = (\<gamma> v = \<gamma> (the (ren v)))) \<longrightarrow> cnf_sat \<gamma> F)"
proof (induction vs arbitrary: n sel F)
  case (Cons v vs)
  obtain sel' F' where rec: "equality_clauses vs ren (n + 1) = (m, sel', F')"
    using Cons.prems(1) by (auto simp: Let_def split: prod.splits)
  then have eq: "sel = sel'(v \<mapsto> n + 1)" "F = clausalEncodingEquality v (int_entry ren v) (n + 1) @ F'"
    using Cons.prems(1) by simp_all
  obtain w where w: "ren v = Some w" "0 < w" using Cons.prems(3) by auto
  have IH: "n + 1 \<le> m" "dom sel' = set vs" "ran sel' \<subseteq> {n + 1<..m}" "inj_map sel'" "wf_cnf F'"
    "(\<forall>v\<in>set vs. \<gamma> (the (sel' v)) = (\<gamma> v = \<gamma> (the (ren v)))) \<longrightarrow> cnf_sat \<gamma> F'"
    using Cons.IH [OF rec] Cons.prems(2-5) by auto
  have "n + 1 \<notin> ran sel'" using IH(3) by auto
  then have "inj_map sel" unfolding eq(1) by (rule inj_map_upd [OF IH(4)])
  moreover have "ran sel \<subseteq> {n<..m}"
  proof
    fix x assume "x \<in> ran sel"
    then have "x = n + 1 \<or> x \<in> {n + 1<..m}" using ran_upd_subset [of sel' v "n + 1"] IH(3) unfolding eq(1) by blast
    then show "x \<in> {n<..m}" using IH(1) by auto
  qed
  moreover have "wf_cnf F" using IH(5) w Cons.prems(4,5) by (simp add: eq(2) clausalEncodingEquality_def int_entry_def)
  moreover have "cnf_sat \<gamma> F" if all: "\<forall>u\<in>set (v # vs). \<gamma> (the (sel u)) = (\<gamma> u = \<gamma> (the (ren u)))"
  proof -
    have "cnf_sat \<gamma> (clausalEncodingEquality v w (n + 1))"
      using bspec [OF all, of v] w Cons.prems(4,5) by (simp add: clausalEncodingEquality_sat eq(1) lit_true_def)
    moreover have "\<gamma> (the (sel' u)) = (\<gamma> u = \<gamma> (the (ren u)))" if u: "u \<in> set vs" for u
    proof -
      have "u \<noteq> v" using u Cons.prems(2) by auto
      with bspec [OF all, of u] u show ?thesis by (simp add: eq(1))
    qed
    then have "\<forall>u\<in>set vs. \<gamma> (the (sel' u)) = (\<gamma> u = \<gamma> (the (ren u)))" by blast
    with calculation show ?thesis using IH(6) w by (simp add: eq(2) int_entry_def)
  qed
  moreover have "n \<le> m" "dom sel = set (v # vs)" using IH(1,2) by (simp_all add: eq(1))
  ultimately show ?case by blast
qed auto

lemma switch_clauses_fields:
  "switch_clauses vs ren n = (m, a, b, F, G) \<Longrightarrow> distinct vs \<Longrightarrow> \<forall>v\<in>set vs. \<exists>w. ren v = Some w \<and> 0 < w \<Longrightarrow> \<forall>v\<in>set vs. 0 < v \<Longrightarrow> 0 \<le> n \<Longrightarrow>
    n \<le> m \<and> dom a = set vs \<and> dom b = set vs \<and> ran a \<subseteq> {n<..m} \<and> ran b \<subseteq> {n<..m} \<and> ran a \<inter> ran b = {} \<and>
    inj_map a \<and> inj_map b \<and> wf_cnf F \<and> wf_cnf G \<and>
    ((\<forall>v\<in>set vs. \<gamma> (the (a v)) = \<gamma> v \<and> \<gamma> (the (b v)) = (\<not> \<gamma> (the (ren v)))) \<longrightarrow> cnf_sat \<gamma> F \<and> cnf_sat \<gamma> G)"
proof (induction vs arbitrary: n a b F G)
  case (Cons v vs)
  obtain a' b' F' G' where rec: "switch_clauses vs ren (n + 2) = (m, a', b', F', G')"
    using Cons.prems(1) by (auto simp: Let_def split: prod.splits)
  then have eq: "a = a'(v \<mapsto> n + 1)" "b = b'(v \<mapsto> n + 2)" "F = [- (n + 1), v] # F'" "G = [- (n + 2), - int_entry ren v] # G'"
    using Cons.prems(1) by simp_all
  obtain w where w: "ren v = Some w" "0 < w" using Cons.prems(3) by auto
  have IH: "n + 2 \<le> m" "dom a' = set vs" "dom b' = set vs" "ran a' \<subseteq> {n + 2<..m}" "ran b' \<subseteq> {n + 2<..m}" "ran a' \<inter> ran b' = {}"
    "inj_map a'" "inj_map b'" "wf_cnf F'" "wf_cnf G'"
    "(\<forall>v\<in>set vs. \<gamma> (the (a' v)) = \<gamma> v \<and> \<gamma> (the (b' v)) = (\<not> \<gamma> (the (ren v)))) \<longrightarrow> cnf_sat \<gamma> F' \<and> cnf_sat \<gamma> G'"
    using Cons.IH [OF rec] Cons.prems(2-5) by auto
  have "n + 1 \<notin> ran a'" "n + 2 \<notin> ran b'" using IH(4,5) by auto
  then have inj: "inj_map a" "inj_map b"
    unfolding eq(1,2) using inj_map_upd [OF IH(7)] inj_map_upd [OF IH(8)] by blast+
  have sub: "ran a \<subseteq> insert (n + 1) (ran a')" "ran b \<subseteq> insert (n + 2) (ran b')"
    unfolding eq(1,2) by (rule ran_upd_subset)+
  have old: "{n + 2<..m} \<subseteq> {n<..m}" "n + 1 \<in> {n<..m}" "n + 2 \<in> {n<..m}" "n + 1 \<notin> {n + 2<..m}" "n + 2 \<notin> {n + 2<..m}" "n + 1 \<noteq> n + 2"
    using IH(1) by auto
  have ran: "ran a \<subseteq> {n<..m}" "ran b \<subseteq> {n<..m}" using sub IH(4,5) old(1-3) by blast+
  have "ran a \<inter> ran b = {}" using sub IH(4-6) old(4-6) by blast
  note ran = ran this
  have wf: "wf_cnf F" "wf_cnf G" using IH(9,10) w Cons.prems(4,5) by (simp_all add: eq(3,4) int_entry_def)
  have sat: "cnf_sat \<gamma> F \<and> cnf_sat \<gamma> G" if all: "\<forall>u\<in>set (v # vs). \<gamma> (the (a u)) = \<gamma> u \<and> \<gamma> (the (b u)) = (\<not> \<gamma> (the (ren u)))"
  proof -
    have "\<gamma> (the (a' u)) = \<gamma> u \<and> \<gamma> (the (b' u)) = (\<not> \<gamma> (the (ren u)))" if u: "u \<in> set vs" for u
    proof -
      have "u \<noteq> v" using u Cons.prems(2) by auto
      with bspec [OF all, of u] u show ?thesis by (simp add: eq(1,2))
    qed
    then have "\<forall>u\<in>set vs. \<gamma> (the (a' u)) = \<gamma> u \<and> \<gamma> (the (b' u)) = (\<not> \<gamma> (the (ren u)))" by blast
    moreover have "\<gamma> (1 + n) = \<gamma> v" "\<gamma> (2 + n) = (\<not> \<gamma> w)" using bspec [OF all, of v] w by (simp_all add: eq(1,2) add.commute)
    ultimately show ?thesis using IH(11) w Cons.prems(4,5) by (simp add: eq(3,4) int_entry_def lit_true_def)
  qed
  have "n \<le> m" "dom a = set (v # vs)" "dom b = set (v # vs)" using IH(1-3) by (simp_all add: eq(1,2))
  with inj ran wf sat show ?case by blast
qed auto

lemma renamed_sat:
  assumes "wf_cnf F" "cnf_vars F \<subseteq> dom ren" "\<And>v w. ren v = Some w \<Longrightarrow> 0 < w \<and> \<gamma> w = \<beta> v" "cnf_sat \<beta> F"
  shows "cnf_sat \<gamma> (renameFormula F ren)"
proof -
  have "nonzero_renaming ren" using assms(3) by (force simp: nonzero_renaming_def ran_def)
  moreover have "cnf_sat (rename_assignment ren \<gamma>) F = cnf_sat \<beta> F"
  proof (rule cnf_sat_cong)
    fix v assume "v \<in> cnf_vars F"
    then obtain w where "ren v = Some w" using assms(2) by auto
    then show "rename_assignment ren \<gamma> v = \<beta> v" using assms(3) [of v w] by (simp add: rename_assignment_def lit_true_def)
  qed
  ultimately show ?thesis using renameFormula_sat [OF _ assms(1)] assms(4) by blast
qed

lemma new_DefinabilityChecker_inv:
  assumes doc: "interpolator_documented api formula"
    and new: "new_DefinabilityChecker api conf universals existentials matrix compress n = Some (m, dc)" and use: "use_definitions conf"
    and formula: "wf_cnf matrix" "cnf_vars matrix \<subseteq> set (universals @ existentials)"
      "distinct existentials" "\<forall>v\<in>set (universals @ existentials). 0 < v"
  shows "dc_inv formula matrix m dc" "dom (renaming dc) = set (universals @ existentials)"
    "dom (variable_to_on_selector dc) = set existentials" "dom (variable_to_off_selector dc) = set existentials"
    "dom (variable_to_equality_selector dc) = set (universals @ existentials)"
proof -
  define k where "k = max n (max (fold max existentials 0) (fold max universals 0))"
  obtain n1 ren rinv where ren: "rename_variables (universals @ existentials) (k, Map.empty, Map.empty) = (n1, ren, rinv)"
    by (cases "rename_variables (universals @ existentials) (k, Map.empty, Map.empty)") auto
  obtain n2 equal E where eq: "equality_clauses (set_of (universals @ existentials)) ren n1 = (n2, equal, E)"
    by (cases "equality_clauses (set_of (universals @ existentials)) ren n1") auto
  obtain n3 a b A B where sw: "switch_clauses existentials ren n2 = (n3, a, b, A, B)"
    by (cases "switch_clauses existentials ren n2") auto
  define first where "first = matrix @ A"
  define second where "second = renameFormula matrix ren @ E @ B"
  have dc: "m = n3" "renaming dc = ren" "variable_to_equality_selector dc = equal" "variable_to_on_selector dc = a"
    "variable_to_off_selector dc = b" "interpolating_solver dc = Some (new_ITPSolver api first second)"
    using new use ren eq sw by (auto simp: new_DefinabilityChecker_def k_def Let_def first_def second_def split: if_splits)
  have k: "0 \<le> k" "set (universals @ existentials) \<subseteq> {..k}"
    unfolding k_def using fold_max_ge [of 0 existentials] fold_max_mem [of _ existentials 0] fold_max_mem [of _ universals 0]
    by (force, auto simp: le_max_iff_disj)
  have R: "k \<le> n1" "dom ren = set (universals @ existentials)" "ran ren \<subseteq> {k<..n1}" "inj_map ren"
    using rename_variables_fields [OF ren] by auto
  have ren_pos: "\<exists>w. ren v = Some w \<and> 0 < w" if "v \<in> set (universals @ existentials)" for v
    using that R(2,3) k(1) ranI [of ren v] by force
  have "distinct (set_of (universals @ existentials))" by (simp add: strict_sorted_iff [THEN iffD1])
  note Q = equality_clauses_fields [OF eq this]
  have E: "n1 \<le> n2" "dom equal = set (universals @ existentials)" "ran equal \<subseteq> {n1<..n2}" "inj_map equal" "wf_cnf E"
    "\<And>\<gamma>. (\<forall>v\<in>set (universals @ existentials). \<gamma> (the (equal v)) = (\<gamma> v = \<gamma> (the (ren v)))) \<Longrightarrow> cnf_sat \<gamma> E"
    using Q ren_pos formula(4) R(1) k(1) by auto
  note Q = switch_clauses_fields [OF sw formula(3)]
  have S: "n2 \<le> n3" "dom a = set existentials" "dom b = set existentials" "ran a \<subseteq> {n2<..n3}" "ran b \<subseteq> {n2<..n3}" "ran a \<inter> ran b = {}"
    "inj_map a" "inj_map b" "wf_cnf A" "wf_cnf B"
    "\<And>\<gamma>. \<forall>v\<in>set existentials. \<gamma> (the (a v)) = \<gamma> v \<and> \<gamma> (the (b v)) = (\<not> \<gamma> (the (ren v))) \<Longrightarrow> cnf_sat \<gamma> A \<and> cnf_sat \<gamma> B"
    using Q ren_pos formula(4) R(1) E(1) k(1) by auto
  show "dom (renaming dc) = set (universals @ existentials)"
    "dom (variable_to_on_selector dc) = set existentials" "dom (variable_to_off_selector dc) = set existentials"
    "dom (variable_to_equality_selector dc) = set (universals @ existentials)" using R S E by (simp_all add: dc)
  have names: "names dc = ran ren \<union> ran equal \<union> ran a \<union> ran b" by (simp add: names_def dc)
  have bounds: "ran ren \<subseteq> {k<..n3}" "ran equal \<subseteq> {k<..n3}" "ran a \<subseteq> {k<..n3}" "ran b \<subseteq> {k<..n3}"
    using R(1,3) E(1,3) S(1,4,5) by force+
  have "{k<..n1} \<inter> {n1<..n2} = {}" "{k<..n1} \<inter> {n2<..n3} = {}" "{n1<..n2} \<inter> {n2<..n3} = {}" using E(1) by auto
  then have disjoint: "ran ren \<inter> ran equal = {}" "ran ren \<inter> ran a = {}" "ran ren \<inter> ran b = {}" "ran equal \<inter> ran a = {}" "ran equal \<inter> ran b = {}"
    using R(3) E(3) S(4,5) by blast+
  have distinct: "distinct_names dc"
    using disjoint S(6-8) R(4) E(4) by (simp add: distinct_names_def dc Let_def)
  have above: "names dc \<subseteq> {k<..n3}" using bounds unfolding names by blast
  then have pos: "names dc \<subseteq> {1..n3}" using k(1) by auto
  have dom: "dom ren \<subseteq> {1..n3}" "dom ren \<inter> names dc = {}"
  proof -
    have "v \<in> {1..n3} \<and> v \<notin> names dc" if v: "v \<in> dom ren" for v
    proof -
      have "0 < v" "v \<le> k" using v R(2) k(2) formula(4) by auto
      moreover have "v \<notin> names dc" using \<open>v \<le> k\<close> above by auto
      ultimately show ?thesis using R(1) E(1) S(1) by simp
    qed
    then show "dom ren \<subseteq> {1..n3}" "dom ren \<inter> names dc = {}" by blast+
  qed
  have sat: "cnf_sat \<gamma> (first @ second)"
    if reads: "reads dc \<alpha> \<beta> \<gamma>" and same: "same_vars (dom ren) \<alpha> \<gamma>" and \<alpha>: "cnf_sat \<alpha> matrix" and \<beta>: "cnf_sat \<beta> matrix" for \<alpha> \<beta> \<gamma>
  proof -
    have entry: "v \<in> dom f \<Longrightarrow> f v = Some (the (f v))" for f :: "int \<rightharpoonup> int" and v by auto
    note parts = reads [unfolded reads_def dc]
    note p1 = parts [THEN conjunct1, rule_format] and p2 = parts [THEN conjunct2, THEN conjunct1, rule_format]
      and p3 = parts [THEN conjunct2, THEN conjunct2, THEN conjunct1, rule_format]
      and p4 = parts [THEN conjunct2, THEN conjunct2, THEN conjunct2, rule_format]
    have r: "\<gamma> (the (ren v)) = \<beta> v" "\<gamma> (the (equal v)) = (\<alpha> v = \<beta> v)" "\<gamma> v = \<alpha> v" if v: "v \<in> set (universals @ existentials)" for v
    proof -
      have d: "v \<in> dom ren" "v \<in> dom equal" using v R(2) E(2) by simp_all
      show "\<gamma> (the (ren v)) = \<beta> v" by (rule p1 [OF entry [OF d(1)]])
      show "\<gamma> (the (equal v)) = (\<alpha> v = \<beta> v)" by (rule p2 [OF entry [OF d(2)]])
      show "\<gamma> v = \<alpha> v" using same d(1) by (simp add: same_vars_def)
    qed
    have s: "\<gamma> (the (a v)) = \<alpha> v" "\<gamma> (the (b v)) = (\<not> \<beta> v)" if v: "v \<in> set existentials" for v
    proof -
      have d: "v \<in> dom a" "v \<in> dom b" using v S(2,3) by simp_all
      show "\<gamma> (the (a v)) = \<alpha> v" by (rule p3 [OF entry [OF d(1)]])
      show "\<gamma> (the (b v)) = (\<not> \<beta> v)" by (rule p4 [OF entry [OF d(2)]])
    qed
    have "cnf_sat \<gamma> matrix = cnf_sat \<alpha> matrix" by (rule cnf_sat_cong) (use r(3) formula(2) in blast)
    moreover have "cnf_sat \<gamma> E" by (rule E(6)) (use r in simp)
    moreover have "cnf_sat \<gamma> A \<and> cnf_sat \<gamma> B" by (rule S(11)) (use r s in simp)
    moreover have "cnf_sat \<gamma> (renameFormula matrix ren)"
    proof (rule renamed_sat [OF formula(1) _ _ \<beta>])
      show "cnf_vars matrix \<subseteq> dom ren" using formula(2) R(2) by simp
      show "0 < w \<and> \<gamma> w = \<beta> v" if "ren v = Some w" for v w
        using that reads ranI [of ren v w] R(3) k(1) by (auto simp: reads_def dc)
    qed
    ultimately show ?thesis using \<alpha> by (simp add: first_def second_def)
  qed
  note itp = new_ITPSolver_ok [OF doc, of first second]
  have "\<forall>\<alpha> \<beta> \<gamma>. reads dc \<alpha> \<beta> \<gamma> \<and> same_vars (dom ren) \<alpha> \<gamma> \<and> cnf_sat \<alpha> matrix \<and> cnf_sat \<beta> matrix \<longrightarrow>
      cnf_sat \<gamma> (itp_clauses (new_ITPSolver api first second))"
    unfolding itp(2) using sat by blast
  then have "\<exists>s. interpolating_solver dc = Some s \<and> itp_ok formula s \<and>
      (\<forall>\<alpha> \<beta> \<gamma>. reads dc \<alpha> \<beta> \<gamma> \<and> same_vars (dom ren) \<alpha> \<gamma> \<and> cnf_sat \<alpha> matrix \<and> cnf_sat \<beta> matrix \<longrightarrow>
         cnf_sat \<gamma> (itp_clauses s))"
    using itp(1) dc(6) by blast
  moreover have "cnf_vars matrix \<subseteq> dom ren" using formula(2) R(2) by simp
  moreover have "0 \<le> n3" using k(1) R(1) E(1) S(1) by simp
  ultimately show "dc_inv formula matrix m dc"
    unfolding dc_inv_def dc(1,2) using formula(1) dom pos distinct by blast
qed

lemma dc_addClause_inv:
  assumes doc: "interpolator_documented api formula" and use: "use_definitions conf" and inv: "dc_inv formula F n dc"
    and c: "wf_clause c" "clause_vars c \<subseteq> {1..n} - names dc" and add: "dc_addClause api conf c (n, dc) = Some (n', dc')"
  shows "dc_inv formula (F @ [c]) n' dc'" "n \<le> n'" "variable_to_on_selector dc' = variable_to_on_selector dc"
    "variable_to_off_selector dc' = variable_to_off_selector dc" "dom (renaming dc) \<subseteq> dom (renaming dc')"
proof -
  let ?e = "variable_to_equality_selector dc" and ?a = "variable_to_on_selector dc" and ?b = "variable_to_off_selector dc"
  obtain itp where itp: "interpolating_solver dc = Some itp" "itp_ok formula itp"
    and models: "\<And>\<alpha> \<beta> \<gamma>. reads dc \<alpha> \<beta> \<gamma> \<Longrightarrow> same_vars (dom (renaming dc)) \<alpha> \<gamma> \<Longrightarrow> cnf_sat \<alpha> F \<Longrightarrow> cnf_sat \<beta> F \<Longrightarrow>
      cnf_sat \<gamma> (itp_clauses itp)"
    using inv by (auto simp: dc_inv_def)
  obtain r1 itp1 where itp1: "itp_addClause api c True itp = (r1, itp1)" by (cases "itp_addClause api c True itp")
  obtain ren where ren: "rename_new_variables c (n, renaming dc) = (n', ren)"
    and dc': "renaming dc' = ren" "variable_to_equality_selector dc' = ?e" "variable_to_on_selector dc' = ?a" "variable_to_off_selector dc' = ?b"
      "interpolating_solver dc' = Some (snd (itp_addClause api (renameClause c ren) False itp1))"
    using add use itp(1) itp1 by (auto simp: dc_addClause_def Let_def split: prod.splits)
  obtain r2 itp2 where itp2: "itp_addClause api (renameClause c ren) False itp1 = (r2, itp2)"
    by (cases "itp_addClause api (renameClause c ren) False itp1")
  note A1 = itp_addClause_ok [OF doc itp(2) itp1]
  note A2 = itp_addClause_ok [OF doc A1(1) itp2]
  have n: "0 \<le> n" using inv by (simp add: dc_inv_def)
  have I: "wf_cnf F" "cnf_vars F \<subseteq> dom (renaming dc)" "dom (renaming dc) \<subseteq> {1..n}" "names dc \<subseteq> {1..n}"
    "dom (renaming dc) \<inter> names dc = {}" and D: "distinct_names dc" using inv by (simp_all add: dc_inv_def)
  have old: "inj_map (renaming dc)" "ran (renaming dc) \<subseteq> names dc" using D by (auto simp: distinct_names_def Let_def names_def)
  have "ran (renaming dc) \<subseteq> {..n}" using old(2) I(4) by auto
  from rename_new_variables_fields [OF ren old(1) this]
  have R: "n \<le> n'" "dom ren = dom (renaming dc) \<union> clause_vars c" "ran ren \<subseteq> ran (renaming dc) \<union> {n<..n'}" "inj_map ren"
    "renaming dc \<subseteq>\<^sub>m ren" by (simp_all add: clause_vars_def)
  show "n \<le> n'" "variable_to_on_selector dc' = ?a" "variable_to_off_selector dc' = ?b" by (rule R(1) dc')+
  show "dom (renaming dc) \<subseteq> dom (renaming dc')" using R(2) by (simp add: dc'(1))
  have new: "{n<..n'} \<inter> {1..n} = {}" "{n<..n'} \<subseteq> {1..n'}" "{1..n} \<subseteq> {1..n'}" using R(1) n by auto
  have names: "names dc' \<subseteq> names dc \<union> {n<..n'}" using R(3) unfolding names_def dc' by blast
  have distinct: "distinct_names dc'"
  proof -
    have "ran ?e \<subseteq> {1..n}" "ran ?a \<subseteq> {1..n}" "ran ?b \<subseteq> {1..n}" using I(4) by (auto simp: names_def)
    then have "ran ren \<inter> ran ?e = {}" "ran ren \<inter> ran ?a = {}" "ran ren \<inter> ran ?b = {}"
      using R(3) new(1) D unfolding distinct_names_def Let_def by blast+
    then show ?thesis using D R(4) by (simp add: distinct_names_def Let_def dc')
  qed
  have reads: "reads dc' \<alpha> \<beta> \<gamma> \<Longrightarrow> reads dc \<alpha> \<beta> \<gamma>" for \<alpha> \<beta> \<gamma>
    using R(5) by (auto simp: reads_def dc' map_le_def dom_def)
  have sat: "cnf_sat \<gamma> (itp_clauses itp2)"
    if rd: "reads dc' \<alpha> \<beta> \<gamma>" and same: "same_vars (dom ren) \<alpha> \<gamma>" and \<alpha>: "cnf_sat \<alpha> (F @ [c])" and \<beta>: "cnf_sat \<beta> (F @ [c])" for \<alpha> \<beta> \<gamma>
  proof -
    have "cnf_sat \<gamma> (itp_clauses itp)"
      by (rule models [OF reads [OF rd]]) (use same R(2) \<alpha> \<beta> in \<open>simp_all add: same_vars_def\<close>)
    moreover have "clause_sat \<gamma> c = clause_sat \<alpha> c"
      by (rule clause_sat_cong) (use same R(2) in \<open>auto simp: same_vars_def\<close>)
    moreover have "cnf_sat \<gamma> (renameFormula [c] ren)"
    proof (rule renamed_sat)
      show "wf_cnf [c]" "cnf_vars [c] \<subseteq> dom ren" "cnf_sat \<beta> [c]" using c(1) R(2) \<beta> by simp_all
      show "0 < w \<and> \<gamma> w = \<beta> v" if "ren v = Some w" for v w
      proof -
        have "w \<in> names dc'" using that by (auto simp: names_def ran_def dc')
        then have "w \<in> {1..n'}" using names I(4) new(2,3) by blast
        then have "0 < w" by simp
        then show ?thesis using that rd by (simp add: reads_def dc')
      qed
    qed
    ultimately show ?thesis using \<alpha> A1(2) A2(2) by (auto simp: cnf_sat_iff renameFormula_def)
  qed
  have dom: "dom ren \<subseteq> {1..n'}" "names dc' \<subseteq> {1..n'}" "dom ren \<inter> names dc' = {}"
    using R(2) I(3-5) c(2) names new by blast+
  have "wf_cnf (F @ [c])" "cnf_vars (F @ [c]) \<subseteq> dom ren" using I(1,2) c(1) R(2) by auto
  moreover have "0 \<le> n'" using n R(1) by simp
  moreover have "\<exists>s. interpolating_solver dc' = Some s \<and> itp_ok formula s \<and>
      (\<forall>\<alpha> \<beta> \<gamma>. reads dc' \<alpha> \<beta> \<gamma> \<and> same_vars (dom ren) \<alpha> \<gamma> \<and> cnf_sat \<alpha> (F @ [c]) \<and> cnf_sat \<beta> (F @ [c]) \<longrightarrow> cnf_sat \<gamma> (itp_clauses s))"
    using sat A2(1) dc'(5) itp2 by simp blast
  ultimately show "dc_inv formula (F @ [c]) n' dc'" unfolding dc_inv_def dc'(1) using dom distinct by blast
qed

section \<open>Runs\<close>

text \<open>
  The formula of a run is the matrix and the clauses added since. Other components take variables
  from the same counter, and a clause may only mention variables the checker has not introduced itself.
\<close>

inductive definability_run ::
  "'i interpolator \<Rightarrow> configuration \<Rightarrow> int list \<Rightarrow> int list \<Rightarrow> cnf \<Rightarrow> cnf \<Rightarrow> 'i dc_state \<Rightarrow> bool"
  for api :: "'i interpolator" and conf :: configuration and universals existentials :: "int list" and matrix :: cnf where
  run_new: "new_DefinabilityChecker api conf universals existentials matrix compress n = Some s \<Longrightarrow>
     definability_run api conf universals existentials matrix matrix s"
| run_add: "definability_run api conf universals existentials matrix F (n, dc) \<Longrightarrow> dc_addClause api conf c (n, dc) = Some s \<Longrightarrow>
     wf_clause c \<Longrightarrow> clause_vars c \<subseteq> {1..n} - names dc \<Longrightarrow>
     definability_run api conf universals existentials matrix (F @ [c]) s"
| run_take: "definability_run api conf universals existentials matrix F (n, dc) \<Longrightarrow> n \<le> n' \<Longrightarrow>
     definability_run api conf universals existentials matrix F (n', dc)"
| run_query: "definability_run api conf universals existentials matrix F (n, dc) \<Longrightarrow>
     checkDefinability api defining d assumptions limit minimize dc = Some (r, dc') \<Longrightarrow>
     definability_run api conf universals existentials matrix F (n, dc')"
| run_check: "definability_run api conf universals existentials matrix F (n, dc) \<Longrightarrow>
     checkDefinedInterpolate api defining d assumptions limit dc = Some (b, dc') \<Longrightarrow>
     definability_run api conf universals existentials matrix F (n, dc')"
| run_define: "definability_run api conf universals existentials matrix F (n, dc) \<Longrightarrow>
     dc_getDefinition api orc defining d assumptions (n, dc) = Some (r, s) \<Longrightarrow>
     definability_run api conf universals existentials matrix F s"

lemma fast_solver_fresh:
  "sat_answer (sat_appendFormula F s) = sat_answer s" "sat_answer (sat_addClause c s) = sat_answer s"
  "sat_calls (sat_appendFormula F s) = sat_calls s" "sat_calls (sat_addClause c s) = sat_calls s"
  by (induction F arbitrary: s) (simp_all add: sat_appendFormula_def sat_addClause_def)

lemma definability_run_inv:
  fixes api :: "'i interpolator"
  assumes doc: "interpolator_documented api formula" and use: "use_definitions conf"
    and formula: "wf_cnf matrix" "cnf_vars matrix \<subseteq> set (universals @ existentials)"
      "distinct existentials" "\<forall>v\<in>set (universals @ existentials). 0 < v"
    and run: "definability_run api conf universals existentials matrix F s"
  shows "dc_inv formula F (fst s) (snd s) \<and> set (universals @ existentials) \<subseteq> dom (renaming (snd s)) \<and>
    set existentials \<subseteq> dom (variable_to_on_selector (snd s)) \<inter> dom (variable_to_off_selector (snd s)) \<and>
    sat_answer (fast_solver (snd s)) = Unknown \<and> sat_calls (fast_solver (snd s)) = 0"
  using run
proof induction
  case (run_new compress n s)
  obtain m dc where s: "s = (m, dc)" by (cases s)
  have "sat_answer (fast_solver dc) = Unknown" "sat_calls (fast_solver dc) = 0"
    using run_new use by (auto simp: s new_DefinabilityChecker_def Let_def fast_solver_fresh init_solver_def split: if_splits prod.splits)
  then show ?case using new_DefinabilityChecker_inv [OF doc run_new [unfolded s] use formula] by (simp add: s)
next
  case (run_add F n dc c s)
  obtain n' dc' where s: "s = (n', dc')" by (cases s)
  have "sat_answer (fast_solver dc') = sat_answer (fast_solver dc) \<and> sat_calls (fast_solver dc') = sat_calls (fast_solver dc)"
    using run_add(2) use by (auto simp: s dc_addClause_def Let_def fast_solver_fresh split: prod.splits bind_splits)
  moreover have "dc_inv formula F n dc" using run_add.IH by simp
  note add = dc_addClause_inv [OF doc use this run_add(3,4,2) [unfolded s]]
  moreover have "set (universals @ existentials) \<subseteq> dom (renaming dc')" using run_add.IH add(5) by simp blast
  ultimately show ?case using run_add.IH by (simp add: s)
next
  case (run_take F n dc n')
  then show ?case using dc_inv_mono by auto
next
  case (run_query F n dc defining d assumptions limit minimize r dc')
  note same = checkDefinability_same [OF doc run_query(2)]
  then show ?case using dc_inv_same [OF _ same] run_query.IH by (auto simp: same_copies_def)
next
  case (run_check F n dc defining d assumptions limit b dc')
  note same = checkDefinedInterpolate_same [OF doc run_check(2)]
  then show ?case using dc_inv_same [OF _ same] run_check.IH by (auto simp: same_copies_def)
next
  case (run_define F n dc orc defining d assumptions r s)
  have same: "same_copies formula dc (snd s)" "n \<le> fst s"
    using dc_getDefinition_keeps [OF run_define(2), of formula] doc by auto
  have "dc_inv formula F (fst s) (snd s)" using dc_inv_mono [OF dc_inv_same [OF _ same(1)] same(2)] run_define.IH by simp
  then show ?case using run_define.IH same(1) by (auto simp: same_copies_def)
qed

lemma checkDefinability_positive:
  "checkDefinability api defining d assumptions limit minimize dc = Some ((True, failed), dc') \<Longrightarrow>
    \<exists>dc1. checkDefinedInterpolate api defining d assumptions limit dc = Some (True, dc1)"
  by (auto simp: checkDefinability_def split: bind_splits if_splits prod.splits)

section \<open>Properties\<close>

text \<open>
  C7: When \<open>checkDefinability\<close>, or the query to the interpolating solver inside it, answers that a
  variable is defined, it is: at any point of a run, two models of the matrix and of all clauses
  added since that satisfy the assumptions and agree on the defining variables agree on the defined
  variable.
\<close>

theorem positive_check_defines:
  assumes "interpolator_documented api formula" "use_definitions conf"
    and "wf_cnf matrix" "cnf_vars matrix \<subseteq> set (universals @ existentials)"
      "distinct existentials" "\<forall>v\<in>set (universals @ existentials). 0 < v"
    and "definability_run api conf universals existentials matrix F (n, dc)"
    and "checkDefinedInterpolate api defining d assumptions limit dc = Some (True, dc') \<or>
      checkDefinability api defining d assumptions limit minimize dc = Some ((True, failed), dc')"
    and "d \<in> set existentials" "clause_vars assumptions \<subseteq> set (universals @ existentials)"
    and "cnf_sat \<alpha> F" "list_all (lit_true \<alpha>) assumptions" "cnf_sat \<beta> F" "list_all (lit_true \<beta>) assumptions"
    and "\<forall>v\<in>set defining. \<alpha> v = \<beta> v"
  shows "\<alpha> d = \<beta> d"
proof -
  have inv: "dc_inv formula F n dc" "set (universals @ existentials) \<subseteq> dom (renaming dc)"
    "d \<in> dom (variable_to_on_selector dc)" "d \<in> dom (variable_to_off_selector dc)"
    using definability_run_inv [OF assms(1-7)] assms(9) by auto
  obtain dc1 where check: "checkDefinedInterpolate api defining d assumptions limit dc = Some (True, dc1)"
    using checkDefinability_positive assms(8) by blast
  have vars: "clause_vars assumptions \<subseteq> dom (renaming dc)" using assms(10) inv(2) by blast
  note sound = checkDefinedInterpolate_sound [OF assms(1) inv(1) check inv(3,4) vars]
  have "\<alpha> d \<longrightarrow> \<beta> d" by (rule sound [OF assms(12,14) assms(15,11,13)])
  moreover have "\<beta> d \<longrightarrow> \<alpha> d" by (rule sound [OF assms(14,12) _ assms(13,11)]) (use assms(15) in simp)
  ultimately show ?thesis by blast
qed

lemma failed_of_unsolved:
  "sat_answer (fast_solver dc) = Unknown \<Longrightarrow> dc_getFailed assumptions dc = (if assumptions = [] then Some [] else None)"
  by (simp add: dc_getFailed_def sat_getFailed_def renameClause_def)

lemma minimize_nothing: "minimize_definition api defining d limit 0 [] dc = Some ([], dc)"
  by (simp add: minimize_definition.simps)


section \<open>A variable that is only defined under an assumption\<close>

text \<open>Where 3 is true, 2 is the negation of 1; where it is false, 2 is free.\<close>

definition guarded_negation :: cnf where
  "guarded_negation = [[- 3, 1, 2], [- 3, - 1, - 2]]"

text \<open>An interpolating solver that knows one unsatisfiable core.\<close>

definition core_clauses :: cnf where
  "core_clauses = miniSATClauses [[- 3, - 1, - 2], [- 5, 4, 6], [- 7, 1, - 4], [- 10, 2], [- 11, - 6]]"

definition core_assumptions :: "int list" where
  "core_assumptions = miniSATLiterals [3, 5, 7, 10, 11]"

definition core_interpolator :: "cnf interpolator" where
  "core_interpolator =
     \<lparr>i_new = \<lambda>n. [], i_addFormula = \<lambda>F G s. s @ F @ G, i_reserve = \<lambda>n s. s, i_addClause = \<lambda>c k s. (True, c # s),
      i_resetSolver = \<lambda>n s. [],
      i_solve = \<lambda>as limit s. (\<not> (set core_clauses \<subseteq> set s \<and> set core_assumptions \<subseteq> set as), s),
      i_getConflict = \<lambda>s. [], i_getDefinition = \<lambda>xs y b n s. (Inr ([], []), s)\<rparr>"

lemma core_interpolator_documented: "interpolator_documented core_interpolator set"
proof -
  have "\<not> ((\<forall>c\<in>set s. clause_sat \<alpha> (literalsFromMiniSATLiterals c)) \<and> list_all (lit_true \<alpha>) (literalsFromMiniSATLiterals as))"
    if core: "set core_clauses \<subseteq> set s" "set core_assumptions \<subseteq> set as" for s as \<alpha>
  proof
    assume *: "(\<forall>c\<in>set s. clause_sat \<alpha> (literalsFromMiniSATLiterals c)) \<and> list_all (lit_true \<alpha>) (literalsFromMiniSATLiterals as)"
    have "\<forall>c\<in>set core_clauses. clause_sat \<alpha> (literalsFromMiniSATLiterals c)" using * core(1) by blast
    then have "cnf_sat \<alpha> (decoded core_clauses)" by (auto simp: decoded_def cnf_sat_iff)
    then have "cnf_sat \<alpha> [[- 3, - 1, - 2], [- 5, 4, 6], [- 7, 1, - 4], [- 10, 2], [- 11, - 6]]"
      by (simp add: core_clauses_def decoded_miniSATClauses)
    moreover have "list_all (lit_true \<alpha>) (literalsFromMiniSATLiterals core_assumptions)"
      using * core(2) by (auto simp: list_all_iff literalsFromMiniSATLiterals_def)
    then have "list_all (lit_true \<alpha>) [3, 5, 7, 10, 11]" by (simp only: core_assumptions_def minisat_clause_roundtrip)
    ultimately show False by (auto simp: lit_true_def)
  qed
  then show ?thesis by (auto simp: interpolator_documented_def core_interpolator_def)
qed

text \<open>The checker after construction: the copies are 4, 5, 6, the selectors 7 to 11.\<close>

definition guarded_first :: cnf where
  "guarded_first = guarded_negation @ [[- 10, 2]]"

definition guarded_second :: cnf where
  "guarded_second = [[- 5, 4, 6], [- 5, - 4, - 6]] @
     [[- 7, - 1, 4], [- 7, 1, - 4], [- 8, - 2, 6], [- 8, 2, - 6], [- 9, - 3, 5], [- 9, 3, - 5]] @ [[- 11, - 6]]"

definition guarded_start :: "cnf definability_checker" where
  "guarded_start =
     \<lparr>dc_compress = False, renaming = [1 \<mapsto> 4, 3 \<mapsto> 5, 2 \<mapsto> 6], renaming_inverse = [4 \<mapsto> 1, 5 \<mapsto> 3, 6 \<mapsto> 2],
      variable_to_equality_selector = [3 \<mapsto> 9, 2 \<mapsto> 8, 1 \<mapsto> 7], variable_to_on_selector = [2 \<mapsto> 10],
      variable_to_off_selector = [2 \<mapsto> 11], backbone_solver = sat_appendFormula guarded_negation init_solver,
      fast_solver = sat_appendFormula guarded_second (sat_appendFormula guarded_first init_solver),
      interpolating_solver = Some (new_ITPSolver core_interpolator guarded_first guarded_second)\<rparr>"

lemma guarded_parts:
  "use_definitions default_configuration" "maxVarIndex guarded_negation \<le> 3" "set_of [1, 3, 2] = [1, 2, 3]"
  "renameFormula guarded_negation [1 \<mapsto> 4, 3 \<mapsto> 5, 2 \<mapsto> 6] = [[- 5, 4, 6], [- 5, - 4, - 6]]"
  "equality_clauses [1, 2, 3] [1 \<mapsto> 4, 3 \<mapsto> 5, 2 \<mapsto> 6] 6 =
     (9, [3 \<mapsto> 9, 2 \<mapsto> 8, 1 \<mapsto> 7],
      [[- 7, - 1, 4], [- 7, 1, - 4], [- 8, - 2, 6], [- 8, 2, - 6], [- 9, - 3, 5], [- 9, 3, - 5]])"
  "switch_clauses [2] [1 \<mapsto> 4, 3 \<mapsto> 5, 2 \<mapsto> 6] 9 = (11, [2 \<mapsto> 10], [2 \<mapsto> 11], [[- 10, 2]], [[- 11, - 6]])"
  by (simp_all add: default_configuration_def guarded_negation_def maxVarIndex_def renameFormula_def renameClause_def
      renameLiteral_map_def renameLiteral_def var_def int_entry_def clausalEncodingEquality_def) code_simp

lemma guarded_negation_new:
  "new_DefinabilityChecker core_interpolator default_configuration [1, 3] [2] guarded_negation False 3 = Some (11, guarded_start)"
proof -
  have "max 3 (max (fold max [2] 0) (fold max [1, 3] 0)) = (3 :: int)"
    "rename_variables ([1, 3] @ [2]) (3, Map.empty, Map.empty) = (6, [1 \<mapsto> 4, 3 \<mapsto> 5, 2 \<mapsto> 6], [4 \<mapsto> 1, 5 \<mapsto> 3, 6 \<mapsto> 2])"
    "set_of ([1, 3] @ [2]) = [1, 2, 3]" using guarded_parts(3) by simp_all
  note * = this guarded_parts(4-6)
  show ?thesis
    unfolding new_DefinabilityChecker_def Let_def * prod.case guarded_start_def guarded_first_def guarded_second_def
    using guarded_parts(1,2) by simp
qed

lemma guarded_negation_check:
  "\<exists>itp. checkDefinedInterpolate core_interpolator [1] 2 [3] 5 guarded_start =
     Some (True, guarded_start\<lparr>interpolating_solver := itp\<rparr>)"
proof -
  let ?clauses = "miniSATClauses guarded_first @ miniSATClauses guarded_second"
  have "query_selectors [1] 2 [3] guarded_start = [7, 10, 11]"
    by (simp add: Let_def var_def query_selectors_def guarded_start_def int_entry_def map_filter_simps)
  moreover have "renameClause [3] (renaming guarded_start) = [5]"
    by (simp add: guarded_start_def renameClause_def renameLiteral_map_def renameLiteral_def var_def)
  moreover have "interpolatingsolver (new_ITPSolver core_interpolator guarded_first guarded_second) = ?clauses"
    by (simp add: new_ITPSolver_def core_interpolator_def Let_def)
  moreover have "set core_clauses \<subseteq> set ?clauses"
    by (simp add: core_clauses_def miniSATClauses_def guarded_first_def guarded_second_def guarded_negation_def)
  then have "i_solve core_interpolator core_assumptions 5 ?clauses = (False, ?clauses)"
    by (simp add: core_interpolator_def)
  moreover have "miniSATLiterals [3, 5, 7, 10, 11] = core_assumptions" by (simp add: core_assumptions_def)
  moreover have "interpolating_solver guarded_start = Some (new_ITPSolver core_interpolator guarded_first guarded_second)"
    by (simp add: guarded_start_def)
  ultimately show ?thesis by (simp add: checkDefinedInterpolate_def itp_solve_def) blast
qed

lemma guarded_negation_ok:
  "use_definitions default_configuration" "wf_cnf guarded_negation" "cnf_vars guarded_negation \<subseteq> set ([1, 3] @ [2])"
  "distinct [2 :: int]" "\<forall>v\<in>set ([1, 3] @ [2 :: int]). 0 < v"
  by (simp_all add: default_configuration_def guarded_negation_def)

theorem positive_check_defines_witness:
  "\<exists>dc'. definability_run core_interpolator default_configuration [1, 3] [2] guarded_negation guarded_negation (11, guarded_start) \<and>
     checkDefinedInterpolate core_interpolator [1] 2 [3] 5 guarded_start = Some (True, dc') \<and>
     (\<lambda>v. v \<in> {2, 3 :: int}) 2 = (\<lambda>v. v \<in> {2, 3, 7 :: int}) (2 :: int)"
proof -
  obtain dc' where check: "checkDefinedInterpolate core_interpolator [1] 2 [3] 5 guarded_start = Some (True, dc')"
    using guarded_negation_check by blast
  note run = run_new [OF guarded_negation_new]
  have "(\<lambda>v. v \<in> {2, 3 :: int}) 2 = (\<lambda>v. v \<in> {2, 3, 7 :: int}) (2 :: int)"
    by (rule positive_check_defines [OF core_interpolator_documented guarded_negation_ok run disjI1 [OF check]])
       (simp_all add: guarded_negation_def lit_true_def)
  then show ?thesis using run check by blast
qed


end
