(* ===== verification/Spec2Isabelle.thy ===== *)
theory Spec2Isabelle
  imports Utils_Correct Utils_Words GlucoseAdapter DqdimacsParser DependencyContainer_Correct
    PreprocessorSound Disjunction SupportTracker_Correct
    BuildAiger_Correct ConsistencyChecker DefaultValues_Correct ModelLogger_Correct ModelValidity UnateChecker DefinabilityChecker_Correct
begin

text \<open>
  Pedant decides dependency quantified Boolean formulas: each existential variable may depend on
  the universal variables of an explicit list, and the formula is true when some Skolem functions of
  these lists satisfy the matrix under every assignment of the universals. The solver keeps a model,
  that is a candidate Skolem function for every existential variable, made of definitions, forcing
  clauses and a default function, together with an assignment of arbiter variables. A validity
  checker looks for an assignment the model gets wrong; a consistency checker looks for an
  assignment on which its rules contradict each other; a conflict analysis turns a counterexample
  into a forcing clause or into an arbiter, whose value a further SAT solver chooses. When no
  counterexample is left the model is written as a CNF or as an and-inverter graph. The development
  follows the sources component by component and ends with what the written models and the answers
  of the checkers are worth.


  \<^bold>\<open>Conventions.\<close>
  A variable and a literal are HOL integers of DIMACS, a C++ vector is a list, a \<open>std::set\<close> a
  strictly sorted list (operations in \<open>Prelude\<close>), an unordered set a set, an unordered map a partial
  function, or an association list where the code iterates over it; its keys are then an argument,
  because their order is not specified. \<open>operator[]\<close> of a map on a missing key reads the default
  value of the type. Everything that does not return is a value: \<open>None\<close> stands for a failed
  \<open>assert\<close>, for \<open>at\<close> on a missing key, for an access outside a vector and for other undefined
  behaviour, and exceptions a caller handles are constructors of an error type. The assertions are
  those of a build without \<open>NDEBUG\<close>; a release build runs on where the model says \<open>None\<close>. The
  properties show under which conditions the operations return, so these branches are not used to
  hide anything. Objects are records, methods take and return them, and the counter
  \<open>last_used_variable\<close> that the code shares by reference is passed and returned.
  Integers are unbounded except in \<open>Utils_Words\<close>, which has the literal codecs at 32 bits
  with the operations that overflow undefined, and in \<open>Text\<close>, where \<open>stoi\<close> has the range of \<open>int\<close>.
  Loops are structural recursions or functions with a proved measure; a loop whose end depends on
  its data is a partial function into \<open>option\<close>, where not returning is \<open>None\<close>. No fuel is used.
  That they return is proved for the marking search of the dependency scheme, the search of the
  residual graph, the demand-driven dependencies, and the three loops of the support tracker, each
  under the conditions its property lists. Nothing is proved of the end of \<open>dc_getDefinition\<close>, which
  retries after an exception as often as the code does, of \<open>minimal_conflict\<close> and of
  \<open>getClausesFromBatchTree\<close>, which descends a tree of the learner.

  What is not in this repository is a parameter with its documentation as a named hypothesis: the SAT
  solvers (\<open>sat_oracle\<close> with \<open>oracle_sound\<close>; \<open>cadical_documented\<close>, \<open>glucose_documented\<close> for the
  calls the adapters make), the interpolating solver (\<open>interpolator_documented\<close>), maximum flow
  (\<open>documented_max_flow\<close>), the Hoeffding trees of mlpack (\<open>mlpack_tree\<close> and its hypotheses).
  Each such hypothesis is met by a concrete function in a witness.


  \<^bold>\<open>The theories.\<close>

  \<^item> \<open>Prelude\<close>, \<open>Utils\<close>, \<open>Utils_Correct\<close>, \<open>Utils_Words\<close>: clauses and assignments
    (\<open>include/solvertypes.h\<close>), the algorithms of the standard library on sorted vectors, and every
    function of \<open>include/utils.h\<close>, with the meaning of \<open>negateFormula\<close>, the order of
    \<open>ComputeExtendedDependencies\<close>, the restriction of definitions, and the codecs at 32 bits.
  \<^item> \<open>SatSolver\<close>, \<open>GlucoseAdapter\<close>: the interface \<open>include/satsolver.h\<close> as the locale
    \<open>sat_interface\<close>, interpreted on the adapters of \<open>cadical_ipasir/cadical.h\<close> and
    \<open>glucose/glucose.cc\<close> and on the abstract solver state the other components hold. Failed
    assumptions exist only after the answer unsatisfiable, values are only read after satisfiable.
  \<^item> \<open>Text\<close>, \<open>Dqdimacs\<close>, \<open>DqdimacsParser\<close>: lines, words and \<open>stoi\<close>; the parsed formula
    (\<open>src/dqdimacs.cc\<close>) and that its flat vectors represent a sequence of quantifier blocks; the
    reader (\<open>src/dqdimacsparser.cc\<close>) with its round trip, its invariant and its failures.
  \<^item> \<open>DependencyExtractor\<close>, \<open>DependencyExtractor_Blocks\<close>, \<open>DependencyExtractor_Extended\<close>,
    \<open>DependencyScheme\<close>: \<open>src/dependencyextractor.cc\<close>. The extended dependencies equal a pairwise
    reference, and the marking search of the reflexive resolution path scheme keeps exactly the
    connected pairs.
  \<^item> \<open>Preprocessor\<close>, \<open>PreprocessorSound\<close>: \<open>src/preprocessor.cc\<close>, \<open>src/inputformula.h\<close>, and that
    pruning and universal reduction preserve the truth of the formula.
  \<^item> \<open>DependencyContainer\<close>, \<open>DependencyContainer_Correct\<close>: \<open>src/dependencycontainer.cc\<close>, stored and
    demand-driven extended dependencies, buffered updates, and that all queries agree.
  \<^item> \<open>GraphSeparator\<close>, \<open>SupportTracker\<close> and their \<open>_Correct\<close> theories: the vertex separator of
    \<open>src/graphSeparator.cc\<close> from a maximum flow, and the conflict analysis of
    \<open>src/supporttracker.cc\<close>: what was registered is what is stored, and a minimal separator or an
    asserting support determines all literals of the conflict.
  \<^item> \<open>Disjunction\<close>, \<open>ConsistencyChecker\<close>: \<open>src/disjunction.h\<close>, \<open>src/consistencychecker.cc\<close>; the
    meaning of disjunctions that grow with fresh terminals.
  \<^item> \<open>HoeffdingTree\<close>, \<open>DefaultValues\<close> and their \<open>_Correct\<close> theories:
    \<open>src/hoeffdingDefaultTree.cc\<close>, \<open>src/defaultvaluecontainer.cc\<close>; the clauses handed out under the
    shared vectors of selectors are the default function the certificate reports.
  \<^item> \<open>ModelLogger\<close>, \<open>BuildAiger\<close> and their \<open>_Correct\<close> theories: \<open>src/modellogger.cc\<close> and
    \<open>src/buildAIGER.cc\<close>; what the written CNF and the written circuit compute.
  \<^item> \<open>ValidityChecker\<close>, \<open>ValidityCheck\<close>: \<open>src/simplevaliditychecker.cc\<close>, the calls and the check.
  \<^item> \<open>SkolemContainer\<close>, \<open>SkolemContainer_Correct\<close>: \<open>src/skolemcontainer.cc\<close>, which keeps the model
    and hands every change to the checkers; its records \<open>engine\<close> hold all objects it calls.
  \<^item> \<open>RuleEncoding\<close>, \<open>EngineInvariant\<close>, \<open>EngineSteps\<close>, \<open>EngineDefaults\<close>, \<open>EngineRun\<close>, \<open>EngineStart\<close>,
    \<open>ModelValidity\<close>: the abstract model is a book of rules; the clauses of the validity solver
    encode it under the current selectors; every operation of the container keeps this invariant
    with its effect on the rules, and the constructors establish it. So an unsatisfiable answer of
    the validity checker at any point of a run means that every assignment that follows the rules
    satisfies the matrix.
  \<^item> \<open>UnateChecker\<close>, \<open>DefinabilityChecker\<close>, \<open>DefinabilityChecker_Correct\<close>: \<open>src/unatechecker.cc\<close> and
    \<open>src/definabilitychecker.cc\<close> with \<open>src/ITPsolver.cc\<close>; the unates found hold together, and a
    positive answer of the definability checker is right by Padoa's argument.
  \<^item> \<open>Configuration\<close>: the fields of \<open>src/configuration.h\<close>.


  \<^bold>\<open>Groups of lemmas.\<close>
  In each theory the lemmas named after an operation with \<open>_spec\<close> give its result on every branch,
  those with \<open>_wf\<close>, \<open>_inv\<close> or \<open>_ok\<close> that it keeps the invariant of its record, \<open>_fields\<close> and
  \<open>_same\<close> what it leaves unchanged. The texts that begin with a number and a C name the properties;
  the theorem below such a text is the property and the theorem with the suffix \<open>_witness\<close> applies
  it to a concrete input. Lemmas that show a defect of the code are named in the texts beside them.


  \<^bold>\<open>Not modelled.\<close>
  The refinement loop (\<open>src/solver.cc\<close>) that drives the components is not modelled; the properties
  of a run quantify over all sequences of the calls it may make.
  The command line program (\<open>src/pedant.cc\<close>), the forked solver process (\<open>src/solverwrapper.cc\<close>),
  logging, signal handling and the Python bindings are glue and output. Glucose and the aiger
  library are vendored third-party code. The tools under \<open>certification/\<close> run after the fact and are
  not part of the solver. Within the modelled files, functions that only print or draw graphs are
  left out; the text of each theory says which.
\<close>

end
